(* ===== verification/Prelude.thy ===== *)
theory Prelude
  imports Main "HOL-Library.Word" "HOL-Library.Monad_Syntax"
begin

text \<open>
  What the components share: unsigned machine arithmetic at 32 and 64 bits with its
  wrap-around written out over \<open>nat\<close>, the signed reading of a 32 bit value, byte-addressed
  memory with little-endian 32 bit loads and stores, and the library of doubly linked
  lists that live in a pair of link functions (the user heap's free list, the kernel's
  intrusive lists).
\<close>

section \<open>Collections\<close>

named_theorems wrap_simps \<open>machine arithmetic that does not wrap\<close>
named_theorems mem_simps \<open>loads after stores\<close>
named_theorems dll_simps \<open>doubly linked segments\<close>

section \<open>Machine integers\<close>

definition wrap :: "nat \<Rightarrow> nat \<Rightarrow> nat" where
  "wrap w x = x mod 2 ^ w"

abbreviation u32 :: "nat \<Rightarrow> nat" where "u32 \<equiv> wrap 32"
abbreviation u64 :: "nat \<Rightarrow> nat" where "u64 \<equiv> wrap 64"

definition add64 :: "nat \<Rightarrow> nat \<Rightarrow> nat" where
  "add64 a b = u64 (a + b)"

definition sub64 :: "nat \<Rightarrow> nat \<Rightarrow> nat" where
  "sub64 a b = u64 (a + (2 ^ 64 - u64 b))"

definition mul64 :: "nat \<Rightarrow> nat \<Rightarrow> nat" where
  "mul64 a b = u64 (a * b)"

definition s32 :: "nat \<Rightarrow> int" where
  \<comment> \<open>the value of an \<open>int\<close> that holds the low 32 bits of x\<close>
  "s32 x = (let y = int (u32 x) in if y < 2 ^ 31 then y else y - 2 ^ 32)"

definition u64_of_int :: "int \<Rightarrow> nat" where
  \<comment> \<open>a signed value converted to \<open>size_t\<close>\<close>
  "u64_of_int i = nat (i mod 2 ^ 64)"

lemma wrap_lt [simp]: "wrap w x < 2 ^ w"
  by (simp add: wrap_def)

lemma wrap_id [wrap_simps]: "x < 2 ^ w \<Longrightarrow> wrap w x = x"
  by (simp add: wrap_def)

lemma wrap_wrap [simp]: "wrap w (wrap w x) = wrap w x"
  by (simp add: wrap_def)

lemma wrap_0 [simp]: "wrap w 0 = 0"
  by (simp add: wrap_def)

lemma u32_id [wrap_simps]: "x < 4294967296 \<Longrightarrow> u32 x = x"
  by (simp add: wrap_def)

lemma u64_id [wrap_simps]: "x < 18446744073709551616 \<Longrightarrow> u64 x = x"
  by (simp add: wrap_def)

lemma add64_id [wrap_simps]: "a + b < 18446744073709551616 \<Longrightarrow> add64 a b = a + b"
  by (simp add: add64_def wrap_def)

lemma mul64_id [wrap_simps]: "a * b < 18446744073709551616 \<Longrightarrow> mul64 a b = a * b"
  by (simp add: mul64_def wrap_def)

lemma sub64_id [wrap_simps]:
  assumes "b \<le> a" "a < 18446744073709551616"
  shows "sub64 a b = a - b"
proof -
  have "a + (18446744073709551616 - b) = (a - b) + 18446744073709551616"
    using assms by simp
  then have "sub64 a b = ((a - b) + 18446744073709551616) mod 18446744073709551616"
    using assms by (simp add: sub64_def wrap_def del: mod_add_self2)
  then have "sub64 a b = (a - b) mod 18446744073709551616"
    by (simp only: mod_add_self2)
  then show ?thesis
    using assms by simp
qed

lemma arith64_lt [simp]: "add64 a b < 2 ^ 64" "sub64 a b < 2 ^ 64" "mul64 a b < 2 ^ 64"
  by (simp_all only: add64_def sub64_def mul64_def wrap_lt)

lemma s32_small [wrap_simps]: "x < 2147483648 \<Longrightarrow> s32 x = int x"
  by (simp add: s32_def wrap_def)

lemma s32_minus_one [simp]: "s32 18446744073709551615 = - 1"
  by (simp add: s32_def wrap_def)

lemma u64_of_int_nat [wrap_simps]: "x < 18446744073709551616 \<Longrightarrow> u64_of_int (int x) = x"
  by (simp add: u64_of_int_def nat_mod_distrib)

text \<open>The round-up idiom of the allocators, before any wrap-around.\<close>

definition round_up :: "nat \<Rightarrow> nat \<Rightarrow> nat" where
  "round_up d x = (if x mod d = 0 then x else (x div d + 1) * d)"

lemma round_up_bounds:
  assumes "0 < d"
  shows "x \<le> round_up d x" "round_up d x < x + d" "round_up d x mod d = 0"
proof -
  define q r where "q = x div d" and "r = x mod d"
  have x: "x = q * d + r" "r < d" using assms by (simp_all add: q_def r_def)
  have "round_up d x = (if r = 0 then x else (q + 1) * d)"
    by (simp add: round_up_def q_def r_def)
  then show "x \<le> round_up d x" "round_up d x < x + d"
    using x by auto
  show "round_up d x mod d = 0" by (simp add: round_up_def)
qed

section \<open>Byte memory\<close>

type_synonym mem = "nat \<Rightarrow> 8 word"

definition rd32 :: "mem \<Rightarrow> nat \<Rightarrow> nat" where
  "rd32 m a = unat (m a) + 256 * unat (m (a + 1)) + 65536 * unat (m (a + 2))
              + 16777216 * unat (m (a + 3))"

definition wr32 :: "mem \<Rightarrow> nat \<Rightarrow> nat \<Rightarrow> mem" where
  "wr32 m a v = m (a := word_of_nat v, a + 1 := word_of_nat (v div 256),
                   a + 2 := word_of_nat (v div 65536), a + 3 := word_of_nat (v div 16777216))"

lemma unat_byte: "unat (word_of_nat v :: 8 word) = v mod 256"
  by (simp add: unat_of_nat)

lemma unat_byte_lt: "unat (w :: 8 word) < 256"
  using unsigned_less [of w] by simp

lemma rd32_lt: "rd32 m a < 4294967296"
  using unat_byte_lt [of "m a"] unat_byte_lt [of "m (a + 1)"]
    unat_byte_lt [of "m (a + 2)"] unat_byte_lt [of "m (a + 3)"]
  by (simp add: rd32_def)

lemma bytes_of_word:
  "v mod 256 + 256 * (v div 256 mod 256) + 65536 * (v div 65536 mod 256)
     + 16777216 * (v div 16777216 mod 256) = v mod (4294967296 :: nat)"
proof -
  have "v mod 4294967296 = v mod (256 * 16777216)" by simp
  also have "\<dots> = 256 * (v div 256 mod 16777216) + v mod 256"
    by (rule mod_mult2_eq)
  also have "v div 256 mod 16777216 = v div 256 mod (256 * 65536)" by simp
  also have "\<dots> = 256 * (v div 256 div 256 mod 65536) + v div 256 mod 256"
    by (rule mod_mult2_eq)
  also have "v div 256 div 256 mod 65536 = v div 256 div 256 mod (256 * 256)" by simp
  also have "\<dots> = 256 * (v div 256 div 256 div 256 mod 256) + v div 256 div 256 mod 256"
    by (rule mod_mult2_eq)
  finally have v: "v mod 4294967296 = 256 * (256 * (256 * (v div 256 div 256 div 256 mod 256)
      + v div 256 div 256 mod 256) + v div 256 mod 256) + v mod 256" .
  have d: "v div 65536 = v div 256 div 256" "v div 16777216 = v div 256 div 256 div 256"
    using div_mult2_eq [of v 256 256] div_mult2_eq [of v 65536 256] by simp_all
  have "256 * (256 * (256 * w + z) + y) + x = x + 256 * y + 65536 * z + 16777216 * w"
    for x y z w :: nat by simp
  then show ?thesis unfolding v d by (simp only:)
qed

lemma rd32_wr32_same [mem_simps]: "rd32 (wr32 m a v) a = u32 v"
  by (simp add: rd32_def wr32_def unat_byte bytes_of_word wrap_def)

lemma rd32_wr32_other [mem_simps]:
  "a + 4 \<le> b \<or> b + 4 \<le> a \<Longrightarrow> rd32 (wr32 m a v) b = rd32 m b"
  by (auto simp: rd32_def wr32_def)

lemma wr32_outside [mem_simps]: "x < a \<or> a + 4 \<le> x \<Longrightarrow> wr32 m a v x = m x"
  by (auto simp: wr32_def)

lemma rd32_cong: "(\<And>x. a \<le> x \<Longrightarrow> x < a + 4 \<Longrightarrow> m x = m' x) \<Longrightarrow> rd32 m a = rd32 m' a"
  by (simp add: rd32_def)

text \<open>Two memories that agree outside a set of addresses.\<close>

definition frame :: "nat set \<Rightarrow> mem \<Rightarrow> mem \<Rightarrow> bool" where
  "frame S m m' \<longleftrightarrow> (\<forall>a. a \<notin> S \<longrightarrow> m' a = m a)"

lemma frame_refl [simp, intro]: "frame S m m"
  by (simp add: frame_def)

lemma frame_trans: "frame S m m1 \<Longrightarrow> frame S m1 m2 \<Longrightarrow> frame S m m2"
  by (simp add: frame_def)

lemma frame_mono: "frame S m m' \<Longrightarrow> S \<subseteq> T \<Longrightarrow> frame T m m'"
  by (auto simp: frame_def)

lemma frame_wr32: "{a ..< a + 4} \<subseteq> S \<Longrightarrow> frame S m (wr32 m a v)"
  unfolding frame_def by (metis atLeastLessThan_iff linorder_not_le subsetD wr32_outside)

section \<open>Doubly linked segments\<close>

text \<open>
  \<open>dll pv nx p xs n\<close>: following the forward links \<open>nx\<close> from the head of \<open>xs\<close> visits
  exactly \<open>xs\<close> and then reaches \<open>n\<close>, the backward links \<open>pv\<close> mirror them, and the first
  node's backward link is \<open>p\<close>.
\<close>

definition hd_or :: "'a \<Rightarrow> 'a list \<Rightarrow> 'a" where
  "hd_or d xs = (case xs of [] \<Rightarrow> d | x # _ \<Rightarrow> x)"

definition last_or :: "'a \<Rightarrow> 'a list \<Rightarrow> 'a" where
  "last_or d xs = (if xs = [] then d else last xs)"

fun dll :: "('a \<Rightarrow> 'a) \<Rightarrow> ('a \<Rightarrow> 'a) \<Rightarrow> 'a \<Rightarrow> 'a list \<Rightarrow> 'a \<Rightarrow> bool" where
  "dll pv nx p [] n \<longleftrightarrow> True"
| "dll pv nx p (x # xs) n \<longleftrightarrow> pv x = p \<and> nx x = hd_or n xs \<and> dll pv nx x xs n"

lemma hd_or_simps [simp]: "hd_or d [] = d" "hd_or d (x # xs) = x"
  by (simp_all add: hd_or_def)

lemma last_or_simps [simp]: "last_or d [] = d" "last_or d (xs @ [x]) = x"
  "last_or d (x # xs) = last_or x xs"
  by (simp_all add: last_or_def)

lemma hd_or_append [simp]: "hd_or d (xs @ ys) = hd_or (hd_or d ys) xs"
  by (cases xs) simp_all

lemma last_or_append [simp]: "last_or d (xs @ ys) = last_or (last_or d xs) ys"
  by (simp add: last_or_def)

lemma last_or_last: "xs \<noteq> [] \<Longrightarrow> last_or d xs = last xs"
  by (simp add: last_or_def)

lemma hd_or_hd: "xs \<noteq> [] \<Longrightarrow> hd_or d xs = hd xs"
  by (cases xs) simp_all

lemma last_notin: "xs \<noteq> [] \<Longrightarrow> set xs \<inter> S = {} \<Longrightarrow> last xs \<notin> S"
  using last_in_set by blast

lemma hd_or_in: "xs \<noteq> [] \<Longrightarrow> hd_or d xs \<in> set xs"
  by (cases xs) simp_all

lemma last_or_in: "xs \<noteq> [] \<Longrightarrow> last_or d xs \<in> set xs"
  by (simp add: last_or_def)

lemma dll_append [dll_simps]:
  "dll pv nx p (xs @ ys) n \<longleftrightarrow> dll pv nx p xs (hd_or n ys) \<and> dll pv nx (last_or p xs) ys n"
  by (induction xs arbitrary: p) auto

lemma dll_cong:
  assumes "\<And>x. x \<in> set xs \<Longrightarrow> pv x = pv' x" "\<And>x. x \<in> set xs \<Longrightarrow> nx x = nx' x"
  shows "dll pv nx p xs n = dll pv' nx' p xs n"
  using assms by (induction xs arbitrary: p) auto

lemma dll_upd_out [simp]:
  "a \<notin> set xs \<Longrightarrow> dll (pv(a := v)) nx p xs n = dll pv nx p xs n"
  "a \<notin> set xs \<Longrightarrow> dll pv (nx(a := v)) p xs n = dll pv nx p xs n"
  by (rule dll_cong; auto)+

lemma dll_set_head:
  assumes "dll pv nx p xs n" "distinct xs"
  shows "dll (pv(hd_or a xs := q)) nx (if xs = [] then p else q) xs n"
  using assms by (cases xs) auto

lemma dll_set_last:
  assumes "dll pv nx p xs n" "distinct xs"
  shows "dll pv (nx(last_or a xs := n')) p xs n'"
proof (cases xs rule: rev_cases)
  case (snoc ys y)
  with assms show ?thesis by (auto simp: dll_simps)
qed simp

text \<open>The neighbours of a node that is taken out.\<close>

definition upd_last :: "nat list \<Rightarrow> nat \<Rightarrow> (nat \<Rightarrow> nat) \<Rightarrow> nat \<Rightarrow> nat" where
  "upd_last xs v nx = (if xs = [] then nx else nx(last xs := v))"

definition upd_hd :: "nat list \<Rightarrow> nat \<Rightarrow> (nat \<Rightarrow> nat) \<Rightarrow> nat \<Rightarrow> nat" where
  "upd_hd xs v pv = (if xs = [] then pv else pv(hd xs := v))"

lemma upd_other [simp]:
  "a \<notin> set xs \<Longrightarrow> upd_last xs v nx a = nx a" "a \<notin> set xs \<Longrightarrow> upd_hd xs v nx a = nx a"
  by (auto simp: upd_last_def upd_hd_def)

lemma dll_remove:
  assumes "dll pv nx p (xs @ a # ys) n" "distinct (xs @ a # ys)"
  shows "dll (upd_hd ys (pv a) pv) (upd_last xs (nx a) nx) p (xs @ ys) n"
proof -
  have x: "dll pv nx p xs a" "pv a = last_or p xs" "nx a = hd_or n ys" "dll pv nx a ys n"
    using assms(1) by (auto simp: dll_simps)
  have 1: "dll pv (upd_last xs (nx a) nx) p xs (hd_or n ys)"
    using dll_set_last [OF x(1), of a "nx a"] assms(2) x(3) by (auto simp: last_or_def upd_last_def)
  have 2: "dll (upd_hd ys (pv a) pv) nx (last_or p xs) ys n"
    using x(2,4) assms(2) by (cases ys) (auto simp: upd_hd_def)
  have "last xs \<notin> set ys" if "xs \<noteq> []"
    using that assms(2) by (meson disjoint_iff distinct_append last_in_set list.set_intros(2))
  moreover have "hd ys \<notin> set xs" if "ys \<noteq> []"
    using that assms(2) by (cases ys) auto
  ultimately show ?thesis
    using 1 2 by (cases "xs = []"; cases "ys = []") (auto simp: dll_simps upd_hd_def upd_last_def)
qed

section \<open>First index of a range\<close>

lemma find_upt:
  assumes "a \<le> i" "i < n" "P i" "\<And>i'. a \<le> i' \<Longrightarrow> i' < i \<Longrightarrow> \<not> P i'"
  shows "List.find P [a ..< n] = Some i"
  unfolding find_Some_iff
  by (rule exI [of _ "i - a"]) (use assms in auto)

lemma find_upt_none: "(\<And>i. a \<le> i \<Longrightarrow> i < n \<Longrightarrow> \<not> P i) \<Longrightarrow> List.find P [a ..< n] = None"
  by (auto simp: find_None_iff)

end
