(* ===== verification/Malloc.thy ===== *)
theory Malloc
  imports Prelude
begin

text \<open>
  The user-space allocator, \<open>user/libc/malloc.c\<close>, with the kernel's \<open>sbrk\<close> handler
  (\<open>kernel/kernel/sys/sys_sbrk.h\<close>) below it. The heap is a sequence of blocks from
  \<open>heap_start\<close>; a block is a front word, \<open>sz\<close> bytes of payload and a back word, and a
  free block keeps its two list links in the last eight bytes of its payload. Both words
  are bit fields: bit 0 is \<open>is_free\<close>, the other 31 bits are \<open>sz\<close>. Offsets are relative to
  \<open>heap_start\<close>, pointers are absolute addresses with 0 for \<open>NULL\<close>. Loops over the free list
  and over the blocks are partial functions: a walk that never ends is \<open>None\<close>.
\<close>

section \<open>State and constants\<close>

record heap =
  hmem :: mem
  allocated_size :: nat
  free_block_list_start :: nat
  heap_size :: nat  \<comment> \<open>the process's \<open>heap_size_\<close>, what \<open>sbrk\<close> has mapped so far\<close>

definition FOUR_KB :: nat where "FOUR_KB = 4096"
definition END_OF_LIST :: nat where "END_OF_LIST = 3149642683"
definition META_BLOCK_SZ :: nat where "META_BLOCK_SZ = 8"
definition heap_start :: nat where "heap_start = 268435460"
definition kUserProcessHeapStartAddress :: nat where
  "kUserProcessHeapStartAddress = 268435456"

definition init_heap :: "mem \<Rightarrow> heap" where
  \<comment> \<open>the statics before the first call, over whatever the fresh pages hold\<close>
  "init_heap m = \<lparr>hmem = m, allocated_size = 0, free_block_list_start = END_OF_LIST,
                  heap_size = 0\<rparr>"

definition RoundUpToMultipleOfFourKb :: "nat \<Rightarrow> nat" where
  "RoundUpToMultipleOfFourKb bytes =
     (if bytes mod FOUR_KB = 0 then bytes
      else mul64 (add64 (bytes div FOUR_KB) 1) FOUR_KB)"

definition RoundUpToMultipleOf8 :: "nat \<Rightarrow> nat" where
  "RoundUpToMultipleOf8 bytes =
     (if bytes mod 8 = 0 then bytes else mul64 (add64 (bytes div 8) 1) 8)"

section \<open>Meta fields\<close>

definition SetMetaField :: "nat \<Rightarrow> nat \<Rightarrow> nat \<Rightarrow> mem \<Rightarrow> mem" where
  "SetMetaField is_free sz meta m = wr32 m meta (or is_free (u32 (2 * sz)))"

definition meta_is_free :: "mem \<Rightarrow> nat \<Rightarrow> nat" where
  "meta_is_free m p = rd32 m p mod 2"

definition meta_sz :: "mem \<Rightarrow> nat \<Rightarrow> nat" where
  "meta_sz m p = rd32 m p div 2"

definition set_is_free :: "nat \<Rightarrow> nat \<Rightarrow> mem \<Rightarrow> mem" where
  "set_is_free p b m = wr32 m p (2 * (rd32 m p div 2) + b mod 2)"

definition set_sz :: "nat \<Rightarrow> nat \<Rightarrow> mem \<Rightarrow> mem" where
  "set_sz p v m = wr32 m p (2 * (v mod 2 ^ 31) + rd32 m p mod 2)"

definition prev_free :: "mem \<Rightarrow> nat \<Rightarrow> nat" where "prev_free m p = rd32 m p"
definition next_free :: "mem \<Rightarrow> nat \<Rightarrow> nat" where "next_free m p = rd32 m (p + 4)"

definition set_prev_free :: "nat \<Rightarrow> nat \<Rightarrow> mem \<Rightarrow> mem" where
  "set_prev_free p v m = wr32 m p v"

definition set_next_free :: "nat \<Rightarrow> nat \<Rightarrow> mem \<Rightarrow> mem" where
  "set_next_free p v m = wr32 m (p + 4) v"

definition GetMetaFieldFront :: "nat \<Rightarrow> nat" where
  "GetMetaFieldFront current = add64 heap_start current"

definition GetMetaFieldBack :: "nat \<Rightarrow> nat" where
  "GetMetaFieldBack current = add64 heap_start current"

definition GetMetaFieldBackFreeList :: "nat \<Rightarrow> nat" where
  "GetMetaFieldBackFreeList free_list_offset = add64 heap_start free_list_offset"

definition GetRightNeighborOffset :: "mem \<Rightarrow> nat \<Rightarrow> nat" where
  "GetRightNeighborOffset m offset =
     add64 (add64 (add64 offset 4) (meta_sz m (GetMetaFieldFront offset))) 4"

definition GetRightNeighborMetaFront :: "mem \<Rightarrow> nat \<Rightarrow> nat" where
  "GetRightNeighborMetaFront m offset =
     GetMetaFieldFront (add64 (add64 (add64 offset 4) (meta_sz m (GetMetaFieldFront offset))) 4)"

definition GetLeftNeighborOffset :: "mem \<Rightarrow> nat \<Rightarrow> nat" where
  "GetLeftNeighborOffset m offset =
     (let back = GetMetaFieldBack (sub64 offset 4)
      in sub64 (sub64 offset META_BLOCK_SZ) (meta_sz m back))"

definition GetMetaFieldBackFromStart :: "mem \<Rightarrow> nat \<Rightarrow> nat" where
  "GetMetaFieldBackFromStart m offset =
     GetMetaFieldBack (add64 (add64 offset 4) (meta_sz m (GetMetaFieldFront offset)))"

definition GetMetaFieldBackFreeListFromStart :: "mem \<Rightarrow> nat \<Rightarrow> nat" where
  "GetMetaFieldBackFreeListFromStart m offset =
     GetMetaFieldBackFreeList
       (sub64 (add64 (add64 offset 4) (meta_sz m (GetMetaFieldFront offset))) 8)"

section \<open>Free list operations\<close>

definition AddToFreeList :: "nat \<Rightarrow> heap \<Rightarrow> heap" where
  "AddToFreeList offset st =
     (let start = free_block_list_start st;
          back = GetMetaFieldBackFreeListFromStart (hmem st) offset;
          m1 = set_next_free back start (hmem st);
          m2 = set_prev_free back END_OF_LIST m1;
          m3 = (if start \<noteq> END_OF_LIST
                then set_prev_free (GetMetaFieldBackFreeListFromStart m2 start) offset m2
                else m2)
      in st\<lparr>hmem := m3, free_block_list_start := offset\<rparr>)"

definition RemoveFromFreeList :: "nat \<Rightarrow> heap \<Rightarrow> heap" where
  "RemoveFromFreeList offset st =
     (let m = hmem st;
          fl = GetMetaFieldBackFreeListFromStart m offset;
          start = (if free_block_list_start st = offset then next_free m fl
                   else free_block_list_start st);
          m1 = (if prev_free m fl \<noteq> END_OF_LIST
                then set_next_free (GetMetaFieldBackFreeListFromStart m (prev_free m fl))
                       (next_free m fl) m
                else m);
          m2 = (if next_free m1 fl \<noteq> END_OF_LIST
                then set_prev_free (GetMetaFieldBackFreeListFromStart m1 (next_free m1 fl))
                       (prev_free m1 fl) m1
                else m1)
      in st\<lparr>hmem := m2, free_block_list_start := start\<rparr>)"

definition MarkOccupied :: "nat \<Rightarrow> heap \<Rightarrow> heap" where
  "MarkOccupied offset st =
     (let m1 = set_is_free (GetMetaFieldFront offset) 0 (hmem st);
          m2 = set_is_free (GetMetaFieldBackFromStart m1 offset) 0 m1
      in RemoveFromFreeList offset (st\<lparr>hmem := m2\<rparr>))"

definition MergeTwoBlocks :: "nat \<Rightarrow> nat \<Rightarrow> heap \<Rightarrow> heap" where
  "MergeTwoBlocks left right st0 =
     (let st = RemoveFromFreeList left st0;
          m = hmem st;
          left_front = GetMetaFieldFront left;
          right_front = GetMetaFieldFront right;
          m1 = set_sz left_front
                 (add64 (meta_sz m left_front) (add64 (meta_sz m right_front) META_BLOCK_SZ)) m;
          m2 = set_sz (GetMetaFieldBackFromStart m1 left) (meta_sz m1 left_front) m1;
          fl = GetMetaFieldBackFreeListFromStart m2 left;
          m3 = (if prev_free m2 fl \<noteq> END_OF_LIST
                then set_next_free (GetMetaFieldBackFreeListFromStart m2 (prev_free m2 fl)) left m2
                else m2);
          m4 = (if next_free m3 fl \<noteq> END_OF_LIST
                then set_prev_free (GetMetaFieldBackFreeListFromStart m3 (next_free m3 fl)) left m3
                else m3)
      in st\<lparr>hmem := m4,
            free_block_list_start := (if free_block_list_start st = right then left
                                      else free_block_list_start st)\<rparr>)"

definition MarkFree :: "nat \<Rightarrow> heap \<Rightarrow> heap" where
  "MarkFree offset st =
     (let front = GetMetaFieldFront offset;
          back = GetMetaFieldBackFromStart (hmem st) offset;
          m2 = set_is_free back 1 (set_is_free front 1 (hmem st));
          st1 = AddToFreeList offset (st\<lparr>hmem := m2\<rparr>);
          right_neighbor = GetRightNeighborOffset (hmem st1) offset;
          st2 = (if right_neighbor < allocated_size st1
                 then (if meta_is_free (hmem st1) (GetMetaFieldFront right_neighbor) \<noteq> 0
                       then MergeTwoBlocks offset right_neighbor st1 else st1)
                 else st1)
      in if offset > 0
         then (let left_neighbor = GetLeftNeighborOffset (hmem st2) offset
               in if meta_is_free (hmem st2) (GetMetaFieldFront left_neighbor) \<noteq> 0
                  then MergeTwoBlocks left_neighbor offset st2 else st2)
         else st2)"

partial_function (option) find_free_from :: "mem \<Rightarrow> nat \<Rightarrow> nat \<Rightarrow> nat option" where
  "find_free_from m sz current =
     (if current = END_OF_LIST then Some (2 ^ 64 - 1)
      else if sz \<le> meta_sz m (GetMetaFieldFront current) then Some current
      else find_free_from m sz (next_free m (GetMetaFieldBackFreeListFromStart m current)))"

definition FindFreeBlock :: "nat \<Rightarrow> heap \<Rightarrow> nat option" where
  "FindFreeBlock sz st = find_free_from (hmem st) sz (free_block_list_start st)"

definition SplitFreeBlock :: "nat \<Rightarrow> nat \<Rightarrow> heap \<Rightarrow> heap" where
  "SplitFreeBlock offset bytes st =
     (let m = hmem st;
          front = GetMetaFieldFront offset
      in if meta_sz m front < add64 (add64 bytes META_BLOCK_SZ) 8 then st
         else
           let new_free_block_size = s32 (sub64 (meta_sz m front) (add64 bytes META_BLOCK_SZ));
               m1 = set_sz front bytes m;
               back = GetMetaFieldBackFromStart m1 offset;
               m2 = set_sz back bytes (set_is_free back 1 m1);
               neighbor = GetRightNeighborOffset m2 offset;
               start = (if free_block_list_start st = offset then neighbor
                        else free_block_list_start st);
               sf = GetMetaFieldFront neighbor;
               m3 = set_sz sf (u64_of_int new_free_block_size) (set_is_free sf 1 m2);
               sb = GetMetaFieldBackFromStart m3 neighbor;
               m4 = set_sz sb (u64_of_int new_free_block_size) (set_is_free sb 1 m3);
               st1 = AddToFreeList offset (st\<lparr>hmem := m4, free_block_list_start := start\<rparr>);
               m5 = hmem st1;
               sfl = GetMetaFieldBackFreeListFromStart m5 neighbor;
               m6 = (if prev_free m5 sfl \<noteq> END_OF_LIST
                     then set_next_free (GetMetaFieldBackFreeListFromStart m5 (prev_free m5 sfl))
                            neighbor m5
                     else m5);
               m7 = (if next_free m6 sfl \<noteq> END_OF_LIST
                     then set_prev_free (GetMetaFieldBackFreeListFromStart m6 (next_free m6 sfl))
                            neighbor m6
                     else m6)
           in st1\<lparr>hmem := m7\<rparr>)"

section \<open>The interface\<close>

definition SysSbrk :: "nat \<Rightarrow> heap \<Rightarrow> nat \<times> heap" where
  \<comment> \<open>the argument is an \<open>intptr_t\<close>: values from \<open>2 ^ 63\<close> on are negative and change nothing\<close>
  "SysSbrk bytes st =
     (let prev_brk = add64 kUserProcessHeapStartAddress (heap_size st)
      in if 2 ^ 63 \<le> bytes then (prev_brk, st)
         else (prev_brk,
               st\<lparr>heap_size := add64 (heap_size st) (RoundUpToMultipleOfFourKb bytes)\<rparr>))"

definition InitMalloc :: "heap \<Rightarrow> heap" where
  "InitMalloc st0 =
     (if allocated_size st0 \<noteq> 0 then st0
      else
        let st = (snd (SysSbrk FOUR_KB st0))\<lparr>allocated_size := FOUR_KB - 4\<rparr>;
            m1 = set_sz (GetMetaFieldFront 0) (FOUR_KB - 4 - META_BLOCK_SZ) (hmem st);
            m2 = set_sz (GetMetaFieldBackFromStart m1 0) (meta_sz m1 (GetMetaFieldFront 0)) m1
        in MarkFree 0 (st\<lparr>hmem := m2\<rparr>))"

definition grow_heap :: "nat \<Rightarrow> heap \<Rightarrow> heap" where
  \<comment> \<open>\<open>malloc\<close> from \<open>needed_mem\<close> to the \<open>MarkFree\<close> of the new memory\<close>
  "grow_heap bytes st0 =
     (let needed_mem = RoundUpToMultipleOfFourKb (add64 bytes META_BLOCK_SZ);
          new_free_mem = allocated_size st0;
          st = (snd (SysSbrk needed_mem st0))
                 \<lparr>allocated_size := add64 (allocated_size st0) needed_mem\<rparr>;
          front = GetMetaFieldFront new_free_mem;
          m1 = set_sz front (sub64 needed_mem META_BLOCK_SZ) (hmem st);
          m2 = set_sz (GetMetaFieldBackFromStart m1 new_free_mem) (meta_sz m1 front) m1
      in MarkFree new_free_mem (st\<lparr>hmem := m2\<rparr>))"

definition malloc :: "nat \<Rightarrow> heap \<Rightarrow> (nat \<times> heap) option" where
  "malloc bytes0 st0 =
     (if bytes0 = 0 then Some (0, st0)
      else
        let st = (if allocated_size st0 = 0 then InitMalloc st0 else st0);
            bytes = RoundUpToMultipleOf8 bytes0
        in case FindFreeBlock bytes st of
             None \<Rightarrow> None
           | Some found \<Rightarrow>
               let free_block_offset = s32 found
               in if free_block_offset \<noteq> - 1 then
                    let o1 = u64_of_int free_block_offset
                    in Some (add64 (add64 heap_start o1) 4,
                             MarkOccupied o1 (SplitFreeBlock o1 bytes st))
                  else
                    let st1 = grow_heap bytes st;
                        merged_back = GetMetaFieldBack (sub64 (allocated_size st1) 4);
                        new_free_mem = sub64 (sub64 (allocated_size st1) META_BLOCK_SZ)
                                         (meta_sz (hmem st1) merged_back)
                    in Some (add64 (add64 heap_start new_free_mem) 4,
                             MarkOccupied new_free_mem (SplitFreeBlock new_free_mem bytes st1)))"

definition free :: "nat \<Rightarrow> heap \<Rightarrow> heap" where
  "free ptr st =
     (if ptr = 0 then st else MarkFree (sub64 (sub64 ptr heap_start) 4) st)"

definition realloc :: "nat \<Rightarrow> nat \<Rightarrow> heap \<Rightarrow> (nat \<times> heap) option" where
  "realloc ptr bytes st =
     (if ptr = 0 then malloc bytes st
      else
        let offset = sub64 (sub64 ptr heap_start) 4
        in if bytes \<le> meta_sz (hmem st) (GetMetaFieldFront offset) then Some (ptr, st)
           else malloc bytes (free ptr st))"

definition zero_bytes :: "nat \<Rightarrow> nat \<Rightarrow> mem \<Rightarrow> mem" where
  "zero_bytes p n m = fold (\<lambda>i m'. m'(p + i := 0)) [0 ..< n] m"

definition calloc :: "nat \<Rightarrow> nat \<Rightarrow> heap \<Rightarrow> (nat \<times> heap) option" where
  "calloc num sz st0 =
     (case malloc (mul64 num sz) st0 of
        None \<Rightarrow> None
      | Some (data, st) \<Rightarrow>
          if data = 0 then Some (0, st)
          else Some (data, st\<lparr>hmem := zero_bytes data (mul64 num sz) (hmem st)\<rparr>))"

partial_function (option) sanity_check_from :: "heap \<Rightarrow> nat \<Rightarrow> bool option" where
  "sanity_check_from st current =
     (if allocated_size st \<le> current then Some True
      else
        let front = GetMetaFieldFront current;
            back = GetMetaFieldBackFromStart (hmem st) current
        in if meta_sz (hmem st) front \<noteq> meta_sz (hmem st) back then Some False
           else if meta_is_free (hmem st) front \<noteq> meta_is_free (hmem st) back then Some False
           else sanity_check_from st
                  (add64 current (add64 (meta_sz (hmem st) front) META_BLOCK_SZ)))"

definition malloc_sanity_check :: "heap \<Rightarrow> bool option" where
  "malloc_sanity_check st = sanity_check_from st 0"

end
