(* ===== verification/Blocks.thy ===== *)
theory Blocks
  imports Prelude
begin

text \<open>
  A heap that is tiled by blocks, as the user's and the kernel's allocators keep it: the list of blocks in
  the order of their addresses, each with its state (free or not) and the size of its payload between two
  words of four bytes. Blocks are found by their offset from the start of the list.
\<close>

type_synonym block = "bool \<times> nat"

fun extent :: "block list \<Rightarrow> nat" where
  "extent [] = 0"
| "extent ((f, s) # bs) = s + 8 + extent bs"

definition tag_of :: "bool \<Rightarrow> nat \<Rightarrow> nat" where
  "tag_of f s = 2 * s + of_bool f"

definition blk :: "block list \<Rightarrow> nat \<Rightarrow> bool \<Rightarrow> nat \<Rightarrow> bool" where
  "blk bs a f s \<longleftrightarrow> (\<exists>L R. bs = L @ (f, s) # R \<and> a = extent L)"

lemma extent_append [simp]: "extent (xs @ ys) = extent xs + extent ys"
  by (induction xs) auto

lemma tag_of_div [simp]: "tag_of f s div 2 = s" "tag_of f s mod 2 = of_bool f"
  by (auto simp: tag_of_def)

lemma u32_tag_of [simp]: "s < 2147483648 \<Longrightarrow> u32 (tag_of f s) = tag_of f s"
  by (cases f) (auto simp: tag_of_def u32_id)

lemma blk_extent: "blk bs a f s \<Longrightarrow> a + 8 + s \<le> extent bs"
  by (auto simp: blk_def)

lemma blk_simps [simp]:
  "blk [] a f s \<longleftrightarrow> False"
  "blk ((g, t) # bs) a f s \<longleftrightarrow> (a = 0 \<and> g = f \<and> t = s) \<or> (\<exists>b. a = t + 8 + b \<and> blk bs b f s)"
proof -
  show "blk [] a f s \<longleftrightarrow> False" by (simp add: blk_def)
  show "blk ((g, t) # bs) a f s \<longleftrightarrow> (a = 0 \<and> g = f \<and> t = s) \<or> (\<exists>b. a = t + 8 + b \<and> blk bs b f s)"
    unfolding blk_def
  proof
    assume "\<exists>L R. (g, t) # bs = L @ (f, s) # R \<and> a = extent L"
    then obtain L R where *: "(g, t) # bs = L @ (f, s) # R" "a = extent L" by blast
    show "(a = 0 \<and> g = f \<and> t = s) \<or> (\<exists>b. a = t + 8 + b \<and> (\<exists>L R. bs = L @ (f, s) # R \<and> b = extent L))"
      using * by (cases L) auto
  next
    assume "(a = 0 \<and> g = f \<and> t = s) \<or> (\<exists>b. a = t + 8 + b \<and> (\<exists>L R. bs = L @ (f, s) # R \<and> b = extent L))"
    then show "\<exists>L R. (g, t) # bs = L @ (f, s) # R \<and> a = extent L"
    proof
      assume "\<exists>b. a = t + 8 + b \<and> (\<exists>L R. bs = L @ (f, s) # R \<and> b = extent L)"
      then obtain L R where "bs = L @ (f, s) # R" "a = t + 8 + extent L" by blast
      then have "(g, t) # bs = ((g, t) # L) @ (f, s) # R" "a = extent ((g, t) # L)" by auto
      then show ?thesis by blast
    qed force
  qed
qed

lemma blk_append [simp]:
  "blk (xs @ ys) a f s \<longleftrightarrow> blk xs a f s \<or> (\<exists>b. a = extent xs + b \<and> blk ys b f s)"
proof (induction xs arbitrary: a)
  case (Cons x xs)
  then show ?case by (cases x) (auto simp: add.assoc)
qed simp

fun free_offs :: "nat \<Rightarrow> block list \<Rightarrow> nat list" where
  "free_offs a [] = []"
| "free_offs a ((f, s) # bs) = (if f then [a] else []) @ free_offs (a + 8 + s) bs"

fun used_blocks :: "nat \<Rightarrow> block list \<Rightarrow> (nat \<times> nat) list" where
  "used_blocks a [] = []"
| "used_blocks a ((f, s) # bs) = (if f then [] else [(a, s)]) @ used_blocks (a + 8 + s) bs"

fun coalesced :: "block list \<Rightarrow> bool" where
  "coalesced ((f, s) # (f', s') # bs) \<longleftrightarrow> \<not> (f \<and> f') \<and> coalesced ((f', s') # bs)"
| "coalesced _ \<longleftrightarrow> True"

lemma free_offs_append [simp]:
  "free_offs a (xs @ ys) = free_offs a xs @ free_offs (a + extent xs) ys"
proof (induction xs arbitrary: a)
  case (Cons x xs)
  then show ?case by (cases x) (simp add: add.assoc add.left_commute)
qed simp

lemma used_blocks_append [simp]:
  "used_blocks a (xs @ ys) = used_blocks a xs @ used_blocks (a + extent xs) ys"
proof (induction xs arbitrary: a)
  case (Cons x xs)
  then show ?case by (cases x) (simp add: add.assoc add.left_commute)
qed simp

lemma coalesced_Cons:
  "coalesced ((f, s) # R) \<longleftrightarrow> coalesced R \<and> (R \<noteq> [] \<longrightarrow> \<not> (f \<and> fst (hd R)))"
  by (cases R) auto

lemma coalesced_append:
  "coalesced (xs @ ys) \<longleftrightarrow> coalesced xs \<and> coalesced ys
     \<and> (xs \<noteq> [] \<longrightarrow> ys \<noteq> [] \<longrightarrow> \<not> (fst (last xs) \<and> fst (hd ys)))"
proof (induction xs)
  case (Cons x xs)
  then show ?case by (cases x; cases xs; cases ys) (auto simp: coalesced_Cons)
qed simp

lemma free_offs_blk: "x \<in> set (free_offs 0 bs) \<longleftrightarrow> (\<exists>s. blk bs x True s)"
proof -
  have "x \<in> set (free_offs a bs) \<longleftrightarrow> (\<exists>b s. x = a + b \<and> blk bs b True s)" for a
  proof (induction bs arbitrary: a)
    case (Cons c bs)
    then show ?case by (cases c) (auto simp: add.assoc)
  qed simp
  then show ?thesis by simp
qed

lemma used_blocks_blk: "(x, s) \<in> set (used_blocks 0 bs) \<longleftrightarrow> blk bs x False s"
proof -
  have "(x, s) \<in> set (used_blocks a bs) \<longleftrightarrow> (\<exists>b. x = a + b \<and> blk bs b False s)" for a
  proof (induction bs arbitrary: a)
    case (Cons c bs)
    then show ?case by (cases c) (auto simp: add.assoc)
  qed simp
  then show ?thesis by simp
qed

lemma blk_apart:
  assumes "blk bs a f s" "blk bs b g t" "(a, s) \<noteq> (b, t)"
  shows "a + 8 + s \<le> b \<or> b + 8 + t \<le> a"
proof -
  obtain L R where bs: "bs = L @ (f, s) # R" "a = extent L" using assms(1) by (auto simp: blk_def)
  have "blk L b g t \<or> (b = a \<and> t = s) \<or> (\<exists>c. b = a + (s + 8 + c) \<and> blk R c g t)"
    using assms(2) unfolding bs by auto
  then show ?thesis
  proof (elim disjE)
    assume "blk L b g t"
    then show ?thesis using blk_extent bs(2) by auto
  next
    assume "b = a \<and> t = s"
    then show ?thesis using assms(3) by simp
  qed auto
qed

lemma used_blocks_distinct: "distinct (map fst (used_blocks a bs))"
proof (induction bs arbitrary: a)
  case (Cons c bs)
  have "b \<le> fst x" if "x \<in> set (used_blocks b bs)" for b x
    using that by (induction bs arbitrary: b) (fastforce split: if_splits)+
  then have "a \<notin> fst ` set (used_blocks (a + 8 + s) bs)" for s by force
  then show ?case using Cons by (cases c) simp
qed simp

end
