(* ===== verification/MallocHeap.thy ===== *)
theory MallocHeap
  imports Malloc Blocks
begin

text \<open>
  The heap of \<open>user/libc/malloc.c\<close> as a list of blocks. A block is a pair of its \<open>is_free\<close>
  bit and its payload size; \<open>reps\<close> says that the words in memory spell such a list and
  that \<open>pv\<close>/\<open>nx\<close> are the link words the blocks hold. Each accessor of the code is computed
  on a represented heap, each write of the code is a local change of the list or of one
  link, and \<open>frame\<close> bounds the addresses a whole operation may touch.
\<close>

section \<open>Blocks\<close>

definition word_at :: "mem \<Rightarrow> nat \<Rightarrow> nat" where
  "word_at m x = rd32 m (heap_start + x)"

fun reps :: "mem \<Rightarrow> nat \<Rightarrow> block list \<Rightarrow> (nat \<Rightarrow> nat) \<Rightarrow> (nat \<Rightarrow> nat) \<Rightarrow> bool" where
  "reps m a [] pv nx \<longleftrightarrow> True"
| "reps m a ((f, s) # bs) pv nx \<longleftrightarrow>
     8 \<le> s \<and> word_at m a = tag_of f s \<and> word_at m (a + 4 + s) = tag_of f s
     \<and> pv a = word_at m (a + s - 4) \<and> nx a = word_at m (a + s)
     \<and> reps m (a + 8 + s) bs pv nx"

lemma reps_append:
  "reps m a (xs @ ys) pv nx \<longleftrightarrow> reps m a xs pv nx \<and> reps m (a + extent xs) ys pv nx"
proof (induction xs arbitrary: a)
  case (Cons x xs)
  then show ?case by (cases x) (auto simp: algebra_simps)
qed simp

lemma reps_cong:
  assumes "\<And>x. heap_start + a \<le> x \<Longrightarrow> x < heap_start + a + extent bs \<Longrightarrow> m' x = m x"
    "\<And>x. a \<le> x \<Longrightarrow> x < a + extent bs \<Longrightarrow> pv' x = pv x \<and> nx' x = nx x"
  shows "reps m' a bs pv' nx' = reps m a bs pv nx"
  using assms
proof (induction bs arbitrary: a)
  case (Cons b bs)
  obtain f s where b: "b = (f, s)" by (cases b)
  have "word_at m' x = word_at m x" if "a \<le> x" "x + 4 \<le> a + 8 + s" for x
    unfolding word_at_def by (rule rd32_cong) (use Cons.prems(1) that in \<open>auto simp: b\<close>)
  moreover have "reps m' (a + 8 + s) bs pv' nx' = reps m (a + 8 + s) bs pv nx"
    by (rule Cons.IH) (use Cons.prems in \<open>auto simp: b\<close>)
  moreover have "pv' a = pv a" "nx' a = nx a"
    using Cons.prems(2) [of a] by (auto simp: b)
  ultimately show ?case by (auto simp: b)
qed simp

lemma reps_wr32_out [simp]:
  assumes "x + 4 \<le> heap_start + a \<or> heap_start + a + extent bs \<le> x"
  shows "reps (wr32 m x v) a bs pv nx = reps m a bs pv nx"
  by (rule reps_cong) (use assms in \<open>auto simp: wr32_outside\<close>)

lemma reps_upd_out [simp]:
  assumes "x < a \<or> a + extent bs \<le> x"
  shows "reps m a bs (pv(x := v)) nx = reps m a bs pv nx"
    and "reps m a bs pv (nx(x := v)) = reps m a bs pv nx"
  by (rule reps_cong; use assms in auto)+

lemma word_at_lt: "word_at m x < 4294967296"
  by (simp add: word_at_def rd32_lt)

lemma word_at_wr32:
  "word_at (wr32 m (heap_start + x) v) x = u32 v"
  "x + 4 \<le> y \<or> y + 4 \<le> x \<Longrightarrow> word_at (wr32 m (heap_start + x) v) y = word_at m y"
  by (auto simp: word_at_def rd32_wr32_same rd32_wr32_other)

section \<open>Accessors on a represented heap\<close>

lemma heap_start_lt: "heap_start < 536870912"
  by (simp add: heap_start_def)

lemma add64_heap_start [simp]: "x < 4294967296 \<Longrightarrow> add64 heap_start x = heap_start + x"
  using heap_start_lt by (simp add: add64_id)

lemma reps_blk:
  assumes "reps m 0 bs pv nx" "blk bs a f s"
  shows "8 \<le> s" "word_at m a = tag_of f s" "word_at m (a + 4 + s) = tag_of f s"
    "pv a = word_at m (a + s - 4)" "nx a = word_at m (a + s)"
  using assms by (auto simp: blk_def reps_append)

definition link_addr :: "nat \<Rightarrow> nat \<Rightarrow> nat" where
  "link_addr a s = heap_start + (a + s - 4)"

definition is_block :: "mem \<Rightarrow> nat \<Rightarrow> bool \<Rightarrow> nat \<Rightarrow> bool" where
  "is_block m a f s \<longleftrightarrow> 8 \<le> s \<and> a + 8 + s < 2147483648
     \<and> word_at m a = tag_of f s \<and> word_at m (a + 4 + s) = tag_of f s"

lemma is_blockI:
  "reps m 0 bs pv nx \<Longrightarrow> blk bs a f s \<Longrightarrow> extent bs < 2147483648 \<Longrightarrow> is_block m a f s"
  using blk_extent [of bs a f s] by (auto simp: is_block_def dest: reps_blk)

lemma front_addr: "a < 2147483648 \<Longrightarrow> GetMetaFieldFront a = heap_start + a"
  by (simp add: GetMetaFieldFront_def)

lemma front_word:
  "is_block m a f s \<Longrightarrow> meta_sz m (GetMetaFieldFront a) = s"
  "is_block m a f s \<Longrightarrow> meta_is_free m (GetMetaFieldFront a) = of_bool f"
  by (simp_all add: is_block_def front_addr meta_sz_def meta_is_free_def flip: word_at_def)

lemma back_addr:
  "is_block m a f s \<Longrightarrow> GetMetaFieldBackFromStart m a = heap_start + (a + 4 + s)"
  using front_word [of m a f s]
  by (simp add: GetMetaFieldBackFromStart_def GetMetaFieldBack_def is_block_def add64_id)

lemma back_word:
  "is_block m a f s \<Longrightarrow> meta_sz m (GetMetaFieldBackFromStart m a) = s"
  "is_block m a f s \<Longrightarrow> meta_is_free m (GetMetaFieldBackFromStart m a) = of_bool f"
  by (simp_all add: back_addr)
    (simp_all add: is_block_def meta_sz_def meta_is_free_def flip: word_at_def)

lemma links_addr:
  "is_block m a f s \<Longrightarrow> GetMetaFieldBackFreeListFromStart m a = link_addr a s"
proof -
  assume b: "is_block m a f s"
  then obtain t where t: "s = t + 8"
    unfolding is_block_def using le_Suc_ex by (metis add.commute)
  show ?thesis
    using front_word [OF b] b
    by (simp add: GetMetaFieldBackFreeListFromStart_def GetMetaFieldBackFreeList_def
        is_block_def add64_id sub64_id link_addr_def t)
qed

lemma right_offset: "is_block m a f s \<Longrightarrow> GetRightNeighborOffset m a = a + 8 + s"
  using front_word [of m a f s] by (simp add: GetRightNeighborOffset_def is_block_def add64_id)

lemma left_offset:
  assumes "is_block m a f s"
  shows "GetLeftNeighborOffset m (a + 8 + s) = a"
proof -
  have "GetMetaFieldBack (sub64 (a + 8 + s) 4) = heap_start + (a + 4 + s)"
    using assms by (simp add: is_block_def GetMetaFieldBack_def sub64_id)
  then show ?thesis
    using assms by (simp add: is_block_def GetLeftNeighborOffset_def META_BLOCK_SZ_def
        meta_sz_def sub64_id flip: word_at_def)
qed

lemma link_words:
  assumes "reps m 0 bs pv nx" "blk bs a f s"
  shows "prev_free m (link_addr a s) = pv a" "next_free m (link_addr a s) = nx a"
proof -
  have "heap_start + (a + s - 4) + 4 = heap_start + (a + s)"
    using reps_blk(1) [OF assms] by simp
  then show "prev_free m (link_addr a s) = pv a" "next_free m (link_addr a s) = nx a"
    using reps_blk(4,5) [OF assms]
    by (simp_all only: prev_free_def next_free_def link_addr_def word_at_def)
qed

section \<open>Writes on a represented heap\<close>

lemma reps_set_prev:
  assumes "reps m 0 bs pv nx" "blk bs a f s"
  shows "reps (set_prev_free (link_addr a s) v m) 0 bs (pv(a := u32 v)) nx"
proof -
  obtain L R where bs: "bs = L @ (f, s) # R" "a = extent L"
    using assms(2) by (auto simp: blk_def)
  obtain t where t: "s = t + 8"
    using reps_blk(1) [OF assms] le_Suc_ex by (metis add.commute)
  show ?thesis
    using assms(1)
    by (simp add: bs t reps_append set_prev_free_def link_addr_def word_at_wr32)
qed

lemma reps_set_next:
  assumes "reps m 0 bs pv nx" "blk bs a f s"
  shows "reps (set_next_free (link_addr a s) v m) 0 bs pv (nx(a := u32 v))"
proof -
  obtain L R where bs: "bs = L @ (f, s) # R" "a = extent L"
    using assms(2) by (auto simp: blk_def)
  have s: "8 \<le> s" using reps_blk(1) [OF assms] .
  then have "link_addr a s + 4 = heap_start + (a + s)" by (simp add: link_addr_def)
  with s show ?thesis
    using assms(1)
    by (simp add: bs reps_append set_next_free_def word_at_wr32)
qed

section \<open>The free list on a represented heap\<close>

lemma links_at:
  assumes "reps m 0 bs pv nx" "blk bs a f s" "extent bs < 2147483648"
  shows "GetMetaFieldBackFreeListFromStart m a = link_addr a s"
    "prev_free m (link_addr a s) = pv a" "next_free m (link_addr a s) = nx a"
  using links_addr [OF is_blockI [OF assms]] link_words [OF assms(1,2)] by auto

definition link_span :: "nat \<Rightarrow> nat \<Rightarrow> nat set" where
  "link_span a s = {link_addr a s ..< link_addr a s + 8}"

definition nodes :: "nat set \<Rightarrow> block list \<Rightarrow> nat list \<Rightarrow> bool" where
  "nodes S bs fl \<longleftrightarrow> (\<forall>x \<in> set fl. \<exists>f s. blk bs x f s \<and> link_span x s \<subseteq> S)"

text \<open>
  \<open>heap_list S st bs fl\<close>: the memory of \<open>st\<close> spells the blocks \<open>bs\<close>, the free list
  visits exactly \<open>fl\<close>, every listed offset is a block, and the link words of the listed
  blocks lie in \<open>S\<close>.
\<close>

definition heap_list :: "nat set \<Rightarrow> heap \<Rightarrow> block list \<Rightarrow> nat list \<Rightarrow> bool" where
  "heap_list S st bs fl \<longleftrightarrow>
     (\<exists>pv nx. reps (hmem st) 0 bs pv nx \<and> dll pv nx END_OF_LIST fl END_OF_LIST)
     \<and> distinct fl \<and> nodes S bs fl
     \<and> free_block_list_start st = hd_or END_OF_LIST fl
     \<and> allocated_size st = extent bs \<and> extent bs < 2147483648"

lemma END_OF_LIST_bounds: "END_OF_LIST < 4294967296" "2147483648 \<le> END_OF_LIST"
  by (simp_all add: END_OF_LIST_def)

lemma u32_END [simp]: "u32 END_OF_LIST = END_OF_LIST"
  by (simp add: END_OF_LIST_def wrap_def)

lemma nodes_blk:
  assumes "nodes S bs fl" "x \<in> set fl"
  obtains f s where "blk bs x f s" "link_span x s \<subseteq> S"
  using assms by (auto simp: nodes_def)

lemma nodes_small:
  assumes "nodes S bs fl" "x \<in> set fl" "extent bs < 2147483648"
  shows "x < 2147483648" "x \<noteq> END_OF_LIST" "u32 x = x"
proof -
  obtain f s where "blk bs x f s" using nodes_blk [OF assms(1,2)] .
  then have "x < 2147483648" using blk_extent [of bs x f s] assms(3) by simp
  then show "x < 2147483648" "x \<noteq> END_OF_LIST" "u32 x = x"
    using END_OF_LIST_bounds by (auto simp: u32_id)
qed

lemma nodes_Cons [simp]:
  "nodes S bs (x # fl) \<longleftrightarrow> (\<exists>f s. blk bs x f s \<and> link_span x s \<subseteq> S) \<and> nodes S bs fl"
  by (auto simp: nodes_def)

lemma nodes_append [simp]: "nodes S bs (xs @ ys) \<longleftrightarrow> nodes S bs xs \<and> nodes S bs ys"
  by (auto simp: nodes_def)

lemma nodes_Nil [simp]: "nodes S bs []"
  by (simp add: nodes_def)

lemma u32_hd_or:
  "nodes S bs fl \<Longrightarrow> extent bs < 2147483648 \<Longrightarrow> u32 (hd_or END_OF_LIST fl) = hd_or END_OF_LIST fl"
  using nodes_small(3) [of S bs fl] by (cases fl) auto

lemma u32_last_or:
  "nodes S bs fl \<Longrightarrow> extent bs < 2147483648 \<Longrightarrow> u32 (last_or END_OF_LIST fl) = last_or END_OF_LIST fl"
  using nodes_small(3) [of S bs fl "last_or END_OF_LIST fl"] last_or_in [of fl END_OF_LIST]
  by (cases "fl = []") auto

lemma hd_or_END:
  "nodes S bs fl \<Longrightarrow> extent bs < 2147483648 \<Longrightarrow> hd_or END_OF_LIST fl = END_OF_LIST \<longleftrightarrow> fl = []"
  using nodes_small(2) [of S bs fl] by (cases fl) auto

lemma last_or_END:
  "nodes S bs fl \<Longrightarrow> extent bs < 2147483648 \<Longrightarrow> last_or END_OF_LIST fl = END_OF_LIST \<longleftrightarrow> fl = []"
  using nodes_small(2) [of S bs fl "last_or END_OF_LIST fl"] last_or_in [of fl END_OF_LIST]
  by (cases "fl = []") auto

lemma frame_links:
  assumes "link_span a s \<subseteq> S"
  shows "frame S m (set_prev_free (link_addr a s) v m)"
    "frame S m (set_next_free (link_addr a s) v m)"
  using assms
  by (auto simp: set_prev_free_def set_next_free_def link_span_def subset_iff intro!: frame_wr32)

text \<open>
  The two guarded writes every list operation ends with: redirect the \<open>next\<close> link of a
  node, if there is one, and redirect the \<open>prev\<close> link of a node, if there is one.
\<close>

definition relink_next :: "nat \<Rightarrow> nat \<Rightarrow> mem \<Rightarrow> mem" where
  "relink_next p v m = (if p \<noteq> END_OF_LIST
     then set_next_free (GetMetaFieldBackFreeListFromStart m p) v m else m)"

definition relink_prev :: "nat \<Rightarrow> nat \<Rightarrow> mem \<Rightarrow> mem" where
  "relink_prev p v m = (if p \<noteq> END_OF_LIST
     then set_prev_free (GetMetaFieldBackFreeListFromStart m p) v m else m)"

lemma relink_next_ok:
  assumes r: "reps m 0 bs pv nx" and n: "nodes S bs xs" and e: "extent bs < 2147483648"
    and v: "u32 v = v" and p: "p = last_or END_OF_LIST xs"
  shows "reps (relink_next p v m) 0 bs pv (upd_last xs v nx)" "frame S m (relink_next p v m)"
proof -
  have "reps (relink_next p v m) 0 bs pv (upd_last xs v nx) \<and> frame S m (relink_next p v m)"
  proof (cases "xs = []")
    case True
    then show ?thesis using r p by (simp add: relink_next_def upd_last_def)
  next
    case False
    then obtain fl sl where b: "blk bs (last xs) fl sl" "link_span (last xs) sl \<subseteq> S"
      using nodes_blk [OF n, of "last xs"] by auto
    then show ?thesis
      using False p last_or_END [OF n e] reps_set_next [OF r b(1), of v] v frame_links(2) [OF b(2)]
      by (simp add: relink_next_def upd_last_def links_at [OF r b(1) e] last_or_def)
  qed
  then show "reps (relink_next p v m) 0 bs pv (upd_last xs v nx)"
    "frame S m (relink_next p v m)" by auto
qed

lemma relink_prev_ok:
  assumes r: "reps m 0 bs pv nx" and n: "nodes S bs xs" and e: "extent bs < 2147483648"
    and v: "u32 v = v" and p: "p = hd_or END_OF_LIST xs"
  shows "reps (relink_prev p v m) 0 bs (upd_hd xs v pv) nx" "frame S m (relink_prev p v m)"
proof -
  have "reps (relink_prev p v m) 0 bs (upd_hd xs v pv) nx \<and> frame S m (relink_prev p v m)"
  proof (cases xs)
    case Nil
    then show ?thesis using r p by (simp add: relink_prev_def upd_hd_def)
  next
    case (Cons x ys)
    then obtain fl sl where b: "blk bs x fl sl" "link_span x sl \<subseteq> S"
      using nodes_blk [OF n, of x] by auto
    then show ?thesis
      using Cons p hd_or_END [OF n e] reps_set_prev [OF r b(1), of v] v frame_links(1) [OF b(2)]
      by (simp add: relink_prev_def upd_hd_def links_at [OF r b(1) e])
  qed
  then show "reps (relink_prev p v m) 0 bs (upd_hd xs v pv) nx"
    "frame S m (relink_prev p v m)" by auto
qed

lemma heap_listE:
  assumes "heap_list S st bs fl"
  obtains pv nx where "reps (hmem st) 0 bs pv nx" "dll pv nx END_OF_LIST fl END_OF_LIST"
    "distinct fl" "nodes S bs fl" "free_block_list_start st = hd_or END_OF_LIST fl"
    "allocated_size st = extent bs" "extent bs < 2147483648"
  using assms by (auto simp: heap_list_def)

lemma heap_listI:
  assumes "reps (hmem st) 0 bs pv nx" "dll pv nx END_OF_LIST fl END_OF_LIST"
    "distinct fl" "nodes S bs fl" "free_block_list_start st = hd_or END_OF_LIST fl"
    "allocated_size st = extent bs" "extent bs < 2147483648"
  shows "heap_list S st bs fl"
  using assms unfolding heap_list_def by blast

lemma dll_prev_next:
  assumes "dll pv nx END_OF_LIST (xs @ a # ys) END_OF_LIST"
  shows "pv a = last_or END_OF_LIST xs" "nx a = hd_or END_OF_LIST ys"
  using assms by (auto simp: dll_simps)

lemma AddToFreeList_eq:
  assumes "reps (hmem st) 0 bs pv nx" "blk bs a f s" "extent bs < 2147483648"
  shows "AddToFreeList a st = st\<lparr>hmem := relink_prev (free_block_list_start st) a
      (set_prev_free (link_addr a s) END_OF_LIST
        (set_next_free (link_addr a s) (free_block_list_start st) (hmem st))),
     free_block_list_start := a\<rparr>"
  by (simp add: AddToFreeList_def relink_prev_def Let_def links_at [OF assms])

lemma AddToFreeList_ok:
  assumes h: "heap_list S st bs fl" and a: "blk bs a f s" "link_span a s \<subseteq> S" "a \<notin> set fl"
  shows "heap_list S (AddToFreeList a st) bs (a # fl)"
    and "frame S (hmem st) (hmem (AddToFreeList a st))"
proof -
  obtain pv nx where r: "reps (hmem st) 0 bs pv nx"
    and d: "dll pv nx END_OF_LIST fl END_OF_LIST" "distinct fl" "nodes S bs fl"
    and st: "free_block_list_start st = hd_or END_OF_LIST fl" "allocated_size st = extent bs"
    and e: "extent bs < 2147483648"
    using h by (rule heap_listE)
  let ?start = "free_block_list_start st"
  let ?m2 = "set_prev_free (link_addr a s) END_OF_LIST (set_next_free (link_addr a s) ?start (hmem st))"
  let ?pv = "upd_hd fl a (pv(a := END_OF_LIST))" and ?nx = "nx(a := ?start)"
  have sm: "u32 a = a" "u32 ?start = ?start"
    using blk_extent [OF a(1)] e u32_hd_or [OF d(3) e] st by (simp_all add: u32_id)
  have r2: "reps ?m2 0 bs (pv(a := END_OF_LIST)) ?nx"
    using reps_set_prev [OF reps_set_next [OF r a(1), of ?start] a(1), of END_OF_LIST] sm by simp
  have f2: "frame S (hmem st) ?m2"
    by (rule frame_trans [OF frame_links(2) [OF a(2)] frame_links(1) [OF a(2)]])
  note r3 = relink_prev_ok [OF r2 d(3) e sm(1) st(1)]
  have "dll ?pv ?nx END_OF_LIST (a # fl) END_OF_LIST"
    using d a(3) st(1) by (cases fl) (auto simp: upd_hd_def)
  then show "heap_list S (AddToFreeList a st) bs (a # fl)"
    unfolding AddToFreeList_eq [OF r a(1) e]
    by (rule heap_listI [rotated]) (use r3(1) a d st e in auto)
  show "frame S (hmem st) (hmem (AddToFreeList a st))"
    unfolding AddToFreeList_eq [OF r a(1) e] using frame_trans [OF f2 r3(2)] by simp
qed

lemma RemoveFromFreeList_relink:
  "RemoveFromFreeList a st =
     (let m = hmem st;
          fl = GetMetaFieldBackFreeListFromStart m a;
          m1 = relink_next (prev_free m fl) (next_free m fl) m
      in st\<lparr>hmem := relink_prev (next_free m1 fl) (prev_free m1 fl) m1,
            free_block_list_start := (if free_block_list_start st = a then next_free m fl
                                      else free_block_list_start st)\<rparr>)"
  by (simp add: RemoveFromFreeList_def relink_next_def relink_prev_def Let_def)

lemma RemoveFromFreeList_ok:
  assumes h: "heap_list S st bs (xs @ a # ys)"
  shows "heap_list S (RemoveFromFreeList a st) bs (xs @ ys)"
    and "frame S (hmem st) (hmem (RemoveFromFreeList a st))"
proof -
  let ?fl = "xs @ a # ys"
  obtain pv nx where r: "reps (hmem st) 0 bs pv nx"
    and d: "dll pv nx END_OF_LIST ?fl END_OF_LIST" "distinct ?fl" "nodes S bs ?fl"
    and st: "free_block_list_start st = hd_or END_OF_LIST ?fl" "allocated_size st = extent bs"
    and e: "extent bs < 2147483648"
    using h by (rule heap_listE)
  obtain f s where a: "blk bs a f s" using d(3) by auto
  have nd: "nodes S bs xs" "nodes S bs ys" using d(3) by auto
  note pn = dll_prev_next [OF d(1)]
  have sm: "u32 (nx a) = nx a" "u32 (pv a) = pv a"
    using pn u32_hd_or [OF nd(2) e] u32_last_or [OF nd(1) e] by auto
  define m1 where "m1 = relink_next (pv a) (nx a) (hmem st)"
  define m2 where "m2 = relink_prev (nx a) (pv a) m1"
  note r1 = relink_next_ok [OF r nd(1) e sm(1) pn(1), folded m1_def]
  note r2 = relink_prev_ok [OF r1(1) nd(2) e sm(2) pn(2), folded m2_def]
  have "upd_last xs (nx a) nx a = nx a" using d(2) by simp
  then have eq: "RemoveFromFreeList a st = st\<lparr>hmem := m2, free_block_list_start :=
      (if free_block_list_start st = a then nx a else free_block_list_start st)\<rparr>"
    unfolding RemoveFromFreeList_relink
    by (simp add: Let_def links_at [OF r a e] links_at [OF r1(1) a e] m2_def flip: m1_def)
  have start: "(if free_block_list_start st = a then nx a else free_block_list_start st)
      = hd_or END_OF_LIST (xs @ ys)"
    using st(1) pn d(2) by (cases xs) auto
  show "heap_list S (RemoveFromFreeList a st) bs (xs @ ys)"
    unfolding eq
    by (rule heap_listI [rotated]) (use start r2(1) dll_remove [OF d(1,2)] nd d(2) st(2) e in auto)
  show "frame S (hmem st) (hmem (RemoveFromFreeList a st))"
    using frame_trans [OF r1(2) r2(2)] unfolding eq by simp
qed

lemma list_ops_heap_size [simp]:
  "heap_size (AddToFreeList a st) = heap_size st"
  "heap_size (RemoveFromFreeList a st) = heap_size st"
  by (simp_all add: AddToFreeList_def RemoveFromFreeList_def Let_def)

end
