(* ===== verification/MallocBlocks.thy ===== *)
theory MallocBlocks
  imports MallocHeap
begin

text \<open>
  The operations of \<open>user/libc/malloc.c\<close> that change the block structure, on a heap
  represented by a list of blocks: setting both tags of a block, merging two free blocks,
  splitting one, and the coalescing \<open>MarkFree\<close>. Each is proved to act on the list as its
  abstract counterpart does, and to write only inside the set it owns.
\<close>

section \<open>Blocks and what the allocator owns\<close>

fun owned :: "nat \<Rightarrow> block list \<Rightarrow> nat set" where
  \<comment> \<open>the addresses of the tags and of the free payloads\<close>
  "owned a [] = {}"
| "owned a ((f, s) # bs) =
     (if f then {heap_start + a ..< heap_start + a + 8 + s}
      else {heap_start + a ..< heap_start + a + 4}
           \<union> {heap_start + a + 4 + s ..< heap_start + a + 8 + s})
     \<union> owned (a + 8 + s) bs"

lemma owned_append [simp]: "owned a (xs @ ys) = owned a xs \<union> owned (a + extent xs) ys"
proof (induction xs arbitrary: a)
  case (Cons x xs)
  then show ?case by (cases x) (simp add: add.assoc Un_assoc add.left_commute)
qed simp

lemma owned_free: "blk bs a True s \<Longrightarrow> {heap_start + a ..< heap_start + a + 8 + s} \<subseteq> owned 0 bs"
  by (auto simp: blk_def)

lemma owned_tags:
  "blk bs a f s \<Longrightarrow> {heap_start + a ..< heap_start + a + 4}
     \<union> {heap_start + a + 4 + s ..< heap_start + a + 8 + s} \<subseteq> owned 0 bs"
  by (cases f) (auto simp: blk_def)

lemma blk_size: "reps m 0 bs pv nx \<Longrightarrow> blk bs a f s \<Longrightarrow> 8 \<le> s"
  by (rule reps_blk(1))

lemma nodes_free:
  assumes "reps m 0 bs pv nx" "set fl \<subseteq> set (free_offs 0 bs)" "owned 0 bs \<subseteq> S"
  shows "nodes S bs fl"
  unfolding nodes_def
proof
  fix x assume "x \<in> set fl"
  then obtain s where b: "blk bs x True s" using assms(2) free_offs_blk by blast
  have "link_span x s \<subseteq> {heap_start + x ..< heap_start + x + 8 + s}"
    using blk_size [OF assms(1) b] by (auto simp: link_span_def link_addr_def)
  also have "\<dots> \<subseteq> S" using owned_free [OF b] assms(3) by blast
  finally show "\<exists>f s. blk bs x f s \<and> link_span x s \<subseteq> S" using b by blast
qed

lemma nodes_mono:
  assumes "nodes S bs fl" "set fl' \<subseteq> set fl"
    "\<And>x f s. x \<in> set fl' \<Longrightarrow> blk bs x f s \<Longrightarrow> \<exists>g. blk bs' x g s"
  shows "nodes S bs' fl'"
  using assms unfolding nodes_def by (metis subsetD)

section \<open>Tag writes\<close>

lemma word_set_is_free:
  "word_at (set_is_free (heap_start + x) b m) x = u32 (2 * (word_at m x div 2) + b mod 2)"
  "x + 4 \<le> y \<or> y + 4 \<le> x \<Longrightarrow> word_at (set_is_free (heap_start + x) b m) y = word_at m y"
  by (simp_all add: set_is_free_def word_at_wr32 flip: word_at_def)

lemma word_set_sz:
  "word_at (set_sz (heap_start + x) v m) x = u32 (2 * (v mod 2 ^ 31) + word_at m x mod 2)"
  "x + 4 \<le> y \<or> y + 4 \<le> x \<Longrightarrow> word_at (set_sz (heap_start + x) v m) y = word_at m y"
  by (simp_all add: set_sz_def word_at_wr32 flip: word_at_def)

lemma word_set_is_free_tag:
  assumes "word_at m x div 2 = s" "s < 2147483648"
  shows "word_at (set_is_free (heap_start + x) b m) x = tag_of (odd b) s"
  using assms by (simp add: word_set_is_free tag_of_def u32_id mod_2_eq_odd)

lemma word_set_sz_tag:
  assumes "v < 2147483648"
  shows "word_at (set_sz (heap_start + x) v m) x = tag_of (odd (word_at m x)) v"
  using assms by (simp add: word_set_sz tag_of_def u32_id mod_2_eq_odd)

lemma reps_set_is_free_out [simp]:
  "x + 4 \<le> heap_start + a \<or> heap_start + a + extent bs \<le> x \<Longrightarrow>
     reps (set_is_free x b m) a bs pv nx = reps m a bs pv nx"
  by (simp add: set_is_free_def)

lemma reps_set_sz_out [simp]:
  "x + 4 \<le> heap_start + a \<or> heap_start + a + extent bs \<le> x \<Longrightarrow>
     reps (set_sz x v m) a bs pv nx = reps m a bs pv nx"
  by (simp add: set_sz_def)

lemma frame_tag_writes:
  "{p ..< p + 4} \<subseteq> S \<Longrightarrow> frame S m (set_is_free p b m)"
  "{p ..< p + 4} \<subseteq> S \<Longrightarrow> frame S m (set_sz p v m)"
  by (simp_all add: set_is_free_def set_sz_def frame_wr32)

text \<open>Writing \<open>is_free\<close> to both tags of a block whose two sizes agree.\<close>

lemma retag:
  fixes L :: "block list" and s b :: nat and m :: mem
  defines "a \<equiv> extent L"
  assumes L: "reps m 0 L pv nx" and R: "reps m (a + 8 + s) R pv nx"
    and sz: "word_at m a div 2 = s" "word_at m (a + 4 + s) div 2 = s" "8 \<le> s"
    and small: "a + 8 + s < 2147483648"
    and S: "{heap_start + a ..< heap_start + a + 4}
            \<union> {heap_start + a + 4 + s ..< heap_start + a + 8 + s} \<subseteq> S"
  defines "m' \<equiv> set_is_free (heap_start + (a + 4 + s)) b (set_is_free (heap_start + a) b m)"
  shows "reps m' 0 (L @ (odd b, s) # R) (pv(a := word_at m (a + s - 4))) (nx(a := word_at m (a + s)))"
    and "frame S m m'"
proof -
  let ?m1 = "set_is_free (heap_start + a) b m"
  have w: "word_at m' a = tag_of (odd b) s"
    using small word_set_is_free_tag [OF sz(1), of b]
    by (simp add: m'_def word_set_is_free(2))
  have "word_at ?m1 (a + 4 + s) div 2 = s" using sz by (simp add: word_set_is_free(2))
  then have w': "word_at m' (a + 4 + s) = tag_of (odd b) s"
    using small word_set_is_free_tag [of ?m1 "a + 4 + s" s b] by (simp add: m'_def)
  obtain t where t: "s = t + 8" using sz(3) le_Suc_ex by (metis add.commute)
  have l: "word_at m' (a + s - 4) = word_at m (a + s - 4)" "word_at m' (a + s) = word_at m (a + s)"
    by (simp_all add: m'_def t word_set_is_free(2))
  have "reps m' 0 L pv nx" "reps m' (a + 8 + s) R pv nx"
    using L R by (simp_all add: m'_def a_def)
  then show "reps m' 0 (L @ (odd b, s) # R) (pv(a := word_at m (a + s - 4))) (nx(a := word_at m (a + s)))"
    using w w' l sz(3) by (simp add: reps_append a_def)
  show "frame S m m'"
    unfolding m'_def
    by (rule frame_trans; rule frame_tag_writes) (use S in \<open>auto simp: subset_iff\<close>)
qed

section \<open>MergeTwoBlocks\<close>

lemma dll_replace:
  assumes "dll pv nx p (us @ b # vs) n" "distinct (us @ b # vs)" "a \<notin> set (us @ vs)"
  shows "dll (upd_hd vs a (pv(a := pv b))) (upd_last us a (nx(a := nx b))) p (us @ a # vs) n"
proof -
  have x: "dll pv nx p us b" "pv b = last_or p us" "nx b = hd_or n vs" "dll pv nx b vs n"
    using assms(1) by (auto simp: dll_simps)
  have d: "set us \<inter> set vs = {}" "distinct us" "distinct vs" "a \<notin> set us" "a \<notin> set vs"
    using assms(2,3) by auto
  have "last us \<notin> set vs \<and> last us \<noteq> a" if "us \<noteq> []"
    using that d last_in_set [OF that] by blast
  moreover have "hd vs \<notin> set us \<and> hd vs \<noteq> a" if "vs \<noteq> []"
    using that d hd_in_set [OF that] by blast
  moreover have "dll pv (upd_last us a (nx(a := nx b))) p us a"
    using dll_set_last [of pv "nx(a := nx b)" p us b undefined a] x(1) d
    by (simp add: upd_last_def last_or_def split: if_splits)
  moreover have "dll (upd_hd vs a (pv(a := pv b))) nx a vs n"
    using x(4) d by (cases vs) (auto simp: upd_hd_def)
  ultimately show ?thesis
    using x d by (cases "us = []"; cases "vs = []") (auto simp: dll_simps upd_hd_def upd_last_def)
qed

lemma MergeTwoBlocks_relink:
  "MergeTwoBlocks left right st0 =
     (let st = RemoveFromFreeList left st0;
          m = hmem st;
          left_front = GetMetaFieldFront left;
          m1 = set_sz left_front (add64 (meta_sz m left_front)
                 (add64 (meta_sz m (GetMetaFieldFront right)) META_BLOCK_SZ)) m;
          m2 = set_sz (GetMetaFieldBackFromStart m1 left) (meta_sz m1 left_front) m1;
          fl = GetMetaFieldBackFreeListFromStart m2 left;
          m3 = relink_next (prev_free m2 fl) left m2
      in st\<lparr>hmem := relink_prev (next_free m3 fl) left m3,
            free_block_list_start := (if free_block_list_start st = right then left
                                      else free_block_list_start st)\<rparr>)"
  by (simp add: MergeTwoBlocks_def relink_next_def relink_prev_def Let_def)

text \<open>The two size writes: the pair of adjacent free blocks becomes one.\<close>

lemma merge_tags:
  fixes L :: "block list" and s s' :: nat and m :: mem
  defines "a \<equiv> extent L"
  assumes r: "reps m 0 (L @ (True, s) # (True, s') # R) pv nx"
    and small: "a + 8 + s + 8 + s' < 2147483648"
    and S: "{heap_start + a ..< heap_start + (a + 8 + s + 8 + s')} \<subseteq> S"
  defines "m1 \<equiv> set_sz (GetMetaFieldFront a)
                 (add64 (meta_sz m (GetMetaFieldFront a))
                   (add64 (meta_sz m (GetMetaFieldFront (a + 8 + s))) META_BLOCK_SZ)) m"
  defines "m2 \<equiv> set_sz (GetMetaFieldBackFromStart m1 a) (meta_sz m1 (GetMetaFieldFront a)) m1"
  shows "reps m2 0 (L @ (True, s + s' + 8) # R) (pv(a := pv (a + 8 + s))) (nx(a := nx (a + 8 + s)))"
    and "frame S m m2"
proof -
  let ?n = "s + s' + 8"
  have r': "reps m 0 L pv nx" "reps m (a + 8 + s + 8 + s') R pv nx"
    and t: "word_at m a = tag_of True s" "word_at m (a + 8 + s) = tag_of True s'"
      "word_at m (a + 8 + s + 4 + s') = tag_of True s'" "8 \<le> s" "8 \<le> s'"
    and l: "pv (a + 8 + s) = word_at m (a + 8 + s + s' - 4)" "nx (a + 8 + s) = word_at m (a + 8 + s + s')"
    using r by (simp_all add: reps_append a_def)
  obtain k where k: "s' = k + 8" using t(5) le_Suc_ex by (metis add.commute)
  have m1: "m1 = set_sz (heap_start + a) ?n m"
    using small t(1,2)
    by (simp add: m1_def front_addr meta_sz_def META_BLOCK_SZ_def add64_id ac_simps
        flip: word_at_def)
  have w1: "word_at m1 a = tag_of True ?n"
    using small t(1) by (simp add: m1 word_set_sz_tag tag_of_def)
  have sz1: "meta_sz m1 (GetMetaFieldFront a) = ?n"
    using w1 small by (simp add: front_addr meta_sz_def flip: word_at_def)
  have "GetMetaFieldBackFromStart m1 a = heap_start + (a + 4 + ?n)"
    using small by (simp add: GetMetaFieldBackFromStart_def GetMetaFieldBack_def sz1 add64_id)
  then have m2: "m2 = set_sz (heap_start + (a + 4 + ?n)) ?n m1" by (simp add: m2_def sz1)
  have "word_at m1 (a + 4 + ?n) = tag_of True s'"
    using t(3) by (simp add: m1 word_set_sz(2) ac_simps)
  then have w2: "word_at m2 (a + 4 + ?n) = tag_of True ?n"
    using small by (simp add: m2 word_set_sz_tag tag_of_def)
  have w2': "word_at m2 a = tag_of True ?n" using w1 by (simp add: m2 word_set_sz(2))
  have l2: "word_at m2 (a + ?n - 4) = pv (a + 8 + s)" "word_at m2 (a + ?n) = nx (a + 8 + s)"
    using l by (simp_all add: m2 m1 k word_set_sz(2) ac_simps)
  have "reps m2 0 L pv nx" "reps m2 (a + 8 + ?n) R pv nx"
    using r' by (simp_all add: m1 m2 a_def ac_simps)
  then show "reps m2 0 (L @ (True, ?n) # R) (pv(a := pv (a + 8 + s))) (nx(a := nx (a + 8 + s)))"
    using w2 w2' l2 t(4) by (simp add: reps_append a_def)
  show "frame S m m2"
    unfolding m2 m1 by (rule frame_trans; rule frame_tag_writes) (use S in \<open>auto simp: subset_iff\<close>)
qed

lemma link_span_block:
  "8 \<le> s \<Longrightarrow> link_span a s \<subseteq> {heap_start + a ..< heap_start + (a + 8 + s)}"
  by (auto simp: link_span_def link_addr_def)

text \<open>
  After the tags of the merged block are written, its links are those of the right block;
  the two relinks make the neighbours point back to it.
\<close>

lemma replace_node:
  assumes r: "reps m 0 bs (pv(a := pv b)) (nx(a := nx b))"
    and a: "blk bs a f s" "link_span a s \<subseteq> S" and e: "extent bs < 2147483648"
    and n: "nodes S bs us" "nodes S bs vs"
    and d: "dll pv nx END_OF_LIST (us @ b # vs) END_OF_LIST" "distinct (us @ b # vs)"
      "a \<notin> set (us @ vs)"
  defines "m1 \<equiv> relink_next (prev_free m (link_addr a s)) a m"
  defines "m2 \<equiv> relink_prev (next_free m1 (link_addr a s)) a m1"
  shows "\<exists>pv' nx'. reps m2 0 bs pv' nx' \<and> dll pv' nx' END_OF_LIST (us @ a # vs) END_OF_LIST"
    and "frame S m m2"
    and "GetMetaFieldBackFreeListFromStart m1 a = link_addr a s"
proof -
  have u: "u32 a = a" using blk_extent [OF a(1)] e by (simp add: u32_id)
  note pn = dll_prev_next [OF d(1)]
  have m1: "m1 = relink_next (pv b) a m" by (simp add: m1_def links_at [OF r a(1) e])
  note r1 = relink_next_ok [OF r n(1) e u pn(1), folded m1]
  have "next_free m1 (link_addr a s) = nx b"
    using d(3) by (simp add: links_at [OF r1(1) a(1) e])
  then have m2: "m2 = relink_prev (nx b) a m1" by (simp add: m2_def)
  note r2 = relink_prev_ok [OF r1(1) n(2) e u pn(2), folded m2]
  show "\<exists>pv' nx'. reps m2 0 bs pv' nx' \<and> dll pv' nx' END_OF_LIST (us @ a # vs) END_OF_LIST"
    using r2(1) dll_replace [OF d] by blast
  show "frame S m m2" using r1(2) r2(2) by (rule frame_trans)
  show "GetMetaFieldBackFreeListFromStart m1 a = link_addr a s" by (rule links_at(1) [OF r1(1) a(1) e])
qed

lemma blk_merge:
  assumes "blk (L @ (f, s) # (f', s') # R) x g t" "x \<noteq> extent L" "x \<noteq> extent L + 8 + s"
  shows "blk (L @ (h, s + s' + 8) # R) x g t"
proof -
  have "blk L x g t \<or> (\<exists>c. x = extent L + s + s' + 16 + c \<and> blk R c g t)"
    using assms by (auto simp: ac_simps)
  then show ?thesis
  proof
    assume "\<exists>c. x = extent L + s + s' + 16 + c \<and> blk R c g t"
    then obtain c where "x = extent L + (s + s' + 8 + 8 + c)" "blk R c g t" by auto
    then show ?thesis by auto
  qed simp
qed

lemma MergeTwoBlocks_ok:
  fixes L :: "block list"
  defines "a \<equiv> extent L"
  assumes h: "heap_list S st (L @ (True, s) # (True, s') # R) fl"
    and in_fl: "a \<in> set fl" "a + 8 + s \<in> set fl"
    and S: "{heap_start + a ..< heap_start + (a + 8 + s + 8 + s')} \<subseteq> S"
  shows "\<exists>fl'. heap_list S (MergeTwoBlocks a (a + 8 + s) st) (L @ (True, s + s' + 8) # R) fl'
           \<and> set fl' = set fl - {a + 8 + s}"
    and "frame S (hmem st) (hmem (MergeTwoBlocks a (a + 8 + s) st))"
proof -
  let ?b = "a + 8 + s" and ?bs = "L @ (True, s) # (True, s') # R"
    and ?bs' = "L @ (True, s + s' + 8) # R"
  obtain xs ys where fl: "fl = xs @ a # ys" using in_fl(1) by (meson split_list)
  define st1 where "st1 = RemoveFromFreeList a st"
  note rm = RemoveFromFreeList_ok [OF h [unfolded fl], folded st1_def]
  obtain pv nx where r: "reps (hmem st1) 0 ?bs pv nx"
    and d: "dll pv nx END_OF_LIST (xs @ ys) END_OF_LIST" "distinct (xs @ ys)" "nodes S ?bs (xs @ ys)"
    and st: "free_block_list_start st1 = hd_or END_OF_LIST (xs @ ys)" "allocated_size st1 = extent ?bs"
    and e: "extent ?bs < 2147483648"
    using rm(1) by (rule heap_listE)
  have dfl: "distinct fl" using h by (simp add: heap_list_def)
  have set_xy: "set (xs @ ys) = set fl - {a}" using dfl unfolding fl by auto
  then have "?b \<in> set (xs @ ys)" using in_fl(2) by auto
  then obtain us vs where uv: "xs @ ys = us @ ?b # vs" by (meson split_list)
  have set_uv: "set (us @ vs) = set (xs @ ys) - {?b}" using d(2) unfolding uv by auto
  have small: "a + 8 + s + 8 + s' < 2147483648" using e by (simp add: a_def)
  have s8: "8 \<le> s" using r by (simp add: reps_append)
  have n: "nodes S ?bs' (us @ vs)"
  proof (rule nodes_mono [OF d(3)])
    fix x f t assume "x \<in> set (us @ vs)" "blk ?bs x f t"
    then show "\<exists>g. blk ?bs' x g t"
      using set_uv set_xy blk_merge [of L True s True s' R x f t True] by (auto simp: a_def)
  qed (use set_uv in auto)
  define m1 where "m1 = set_sz (GetMetaFieldFront a)
      (add64 (meta_sz (hmem st1) (GetMetaFieldFront a))
        (add64 (meta_sz (hmem st1) (GetMetaFieldFront ?b)) META_BLOCK_SZ)) (hmem st1)"
  define m2 where "m2 = set_sz (GetMetaFieldBackFromStart m1 a) (meta_sz m1 (GetMetaFieldFront a)) m1"
  note tags = merge_tags [OF r small [unfolded a_def] S [unfolded a_def], folded a_def, folded m1_def, folded m2_def]
  have blk_a: "blk ?bs' a True (s + s' + 8)" by (simp add: a_def)
  have span: "link_span a (s + s' + 8) \<subseteq> S"
    by (rule subset_trans [OF link_span_block]) (use S in \<open>auto simp: ac_simps\<close>)
  have e': "extent ?bs' < 2147483648" using e by simp
  have a_uv: "a \<notin> set (us @ vs)" using set_uv set_xy by simp
  have n': "nodes S ?bs' us" "nodes S ?bs' vs" using n by auto
  note rep = replace_node [OF tags(1) blk_a span e' n' d(1) [unfolded uv] d(2) [unfolded uv] a_uv]
  define m3 where "m3 = relink_next (prev_free m2 (link_addr a (s + s' + 8))) a m2"
  define m4 where "m4 = relink_prev (next_free m3 (link_addr a (s + s' + 8))) a m3"
  have fl2: "GetMetaFieldBackFreeListFromStart m2 a = link_addr a (s + s' + 8)"
    by (rule links_at(1) [OF tags(1) blk_a e'])
  have eq: "MergeTwoBlocks a ?b st = st1\<lparr>hmem := m4, free_block_list_start :=
      (if free_block_list_start st1 = ?b then a else free_block_list_start st1)\<rparr>"
    unfolding MergeTwoBlocks_relink Let_def st1_def [symmetric] m1_def [symmetric]
      m2_def [symmetric] fl2 m3_def [symmetric] m4_def [symmetric] by simp
  have start: "(if free_block_list_start st1 = ?b then a else free_block_list_start st1)
      = hd_or END_OF_LIST (us @ a # vs)"
    using st(1) d(2) unfolding uv by (cases us) auto
  obtain pv' nx' where r4: "reps m4 0 ?bs' pv' nx'" "dll pv' nx' END_OF_LIST (us @ a # vs) END_OF_LIST"
    using rep(1) unfolding m3_def m4_def by blast
  have "heap_list S (MergeTwoBlocks a ?b st) ?bs' (us @ a # vs)"
    unfolding eq
  proof (rule heap_listI)
    show "reps (hmem (st1\<lparr>hmem := m4, free_block_list_start :=
        (if free_block_list_start st1 = ?b then a else free_block_list_start st1)\<rparr>)) 0 ?bs' pv' nx'"
      using r4(1) by simp
    show "distinct (us @ a # vs)" using d(2) a_uv unfolding uv by simp
    show "nodes S ?bs' (us @ a # vs)"
      unfolding nodes_append nodes_Cons using n' blk_a span by blast
  qed (use r4(2) start st(2) e' in simp_all)
  moreover have "set (us @ a # vs) = set fl - {?b}"
  proof -
    have "set (us @ a # vs) = insert a (set (us @ vs))" by simp
    also have "\<dots> = insert a (set fl - {a} - {?b})" unfolding set_uv set_xy ..
    finally show ?thesis using in_fl(1) s8 by auto
  qed
  ultimately show "\<exists>fl'. heap_list S (MergeTwoBlocks a ?b st) ?bs' fl' \<and> set fl' = set fl - {?b}"
    by blast
  show "frame S (hmem st) (hmem (MergeTwoBlocks a ?b st))"
    unfolding eq using frame_trans [OF rm(2) frame_trans [OF tags(2) rep(2)]]
    by (simp add: m3_def m4_def)
qed

lemma MergeTwoBlocks_heap_size [simp]: "heap_size (MergeTwoBlocks a b st) = heap_size st"
  by (simp add: MergeTwoBlocks_def Let_def)

section \<open>SplitFreeBlock\<close>

lemma word_set_both:
  assumes "v < 2147483648"
  shows "word_at (set_sz (heap_start + x) v (set_is_free (heap_start + x) 1 m)) x = tag_of True v"
    "x + 4 \<le> y \<or> y + 4 \<le> x \<Longrightarrow>
       word_at (set_sz (heap_start + x) v (set_is_free (heap_start + x) 1 m)) y = word_at m y"
proof -
  have "odd (word_at (set_is_free (heap_start + x) 1 m) x)"
    by (simp add: word_set_is_free wrap_def odd_iff_mod_2_eq_one mod_mod_cancel)
  then show "word_at (set_sz (heap_start + x) v (set_is_free (heap_start + x) 1 m)) x = tag_of True v"
    using assms by (simp add: word_set_sz_tag)
qed (auto simp: word_set_sz(2) word_set_is_free(2))

text \<open>The tag writes of a split, in the order of the code.\<close>

definition split_tags :: "nat \<Rightarrow> nat \<Rightarrow> mem \<Rightarrow> mem" where
  "split_tags offset bytes m =
     (let front = GetMetaFieldFront offset;
          new_free_block_size = s32 (sub64 (meta_sz m front) (add64 bytes META_BLOCK_SZ));
          m1 = set_sz front bytes m;
          back = GetMetaFieldBackFromStart m1 offset;
          m2 = set_sz back bytes (set_is_free back 1 m1);
          neighbor = GetRightNeighborOffset m2 offset;
          sf = GetMetaFieldFront neighbor;
          m3 = set_sz sf (u64_of_int new_free_block_size) (set_is_free sf 1 m2);
          sb = GetMetaFieldBackFromStart m3 neighbor
      in set_sz sb (u64_of_int new_free_block_size) (set_is_free sb 1 m3))"

definition split_neighbor :: "nat \<Rightarrow> nat \<Rightarrow> mem \<Rightarrow> nat" where
  "split_neighbor offset bytes m =
     (let m1 = set_sz (GetMetaFieldFront offset) bytes m;
          back = GetMetaFieldBackFromStart m1 offset
      in GetRightNeighborOffset (set_sz back bytes (set_is_free back 1 m1)) offset)"

lemma split_tags_ok:
  fixes L :: "block list" and s k :: nat and m :: mem
  defines "a \<equiv> extent L"
  assumes r: "reps m 0 (L @ (True, s) # R) pv nx"
    and small: "a + 8 + s < 2147483648" and k: "8 \<le> k" "k + 16 \<le> s"
    and S: "{heap_start + a ..< heap_start + (a + 8 + s)} \<subseteq> S"
  defines "m' \<equiv> split_tags a k m" and "b \<equiv> a + 8 + k" and "s2 \<equiv> s - (k + 8)"
  shows "\<exists>p q. reps m' 0 (L @ (True, k) # (True, s2) # R) (pv(b := pv a, a := p)) (nx(b := nx a, a := q))"
    and "frame S m m'"
    and "split_neighbor a k m = b"
proof -
  have r': "reps m 0 L pv nx" "reps m (a + 8 + s) R pv nx"
    and t: "word_at m a = tag_of True s"
    and l: "pv a = word_at m (a + s - 4)" "nx a = word_at m (a + s)"
    using r by (simp_all add: reps_append a_def)
  obtain j where j: "s = k + 16 + j" using k(2) le_Suc_ex by blast
  have s2: "s2 = j + 8" by (simp add: s2_def j)
  define m1 where "m1 = set_sz (heap_start + a) k m"
  define m2 where "m2 = set_sz (heap_start + (a + 4 + k)) k (set_is_free (heap_start + (a + 4 + k)) 1 m1)"
  define m3 where "m3 = set_sz (heap_start + b) s2 (set_is_free (heap_start + b) 1 m2)"
  define m4 where "m4 = set_sz (heap_start + (b + 4 + s2)) s2 (set_is_free (heap_start + (b + 4 + s2)) 1 m3)"
  have f: "GetMetaFieldFront a = heap_start + a" "GetMetaFieldFront b = heap_start + b"
    using small by (simp_all add: front_addr b_def j)
  have w1: "word_at m1 a = tag_of True k"
    using small k t by (simp add: m1_def word_set_sz_tag tag_of_def)
  have w2: "word_at m2 (a + 4 + k) = tag_of True k" "word_at m2 a = tag_of True k"
    using small k w1 word_set_both [of k] by (simp_all add: m2_def)
  have w3: "word_at m3 b = tag_of True s2" "word_at m3 (a + 4 + k) = tag_of True k"
      "word_at m3 a = tag_of True k"
    using small k w2 word_set_both [of s2] by (simp_all add: m3_def s2 b_def j)
  have w4: "word_at m4 (b + 4 + s2) = tag_of True s2" "word_at m4 b = tag_of True s2"
      "word_at m4 (a + 4 + k) = tag_of True k" "word_at m4 a = tag_of True k"
    using small k w3 word_set_both [of s2] by (simp_all add: m4_def s2 b_def j)
  have sz: "meta_sz m (GetMetaFieldFront a) = s" "meta_sz m1 (GetMetaFieldFront a) = k"
      "meta_sz m2 (GetMetaFieldFront a) = k" "meta_sz m3 (GetMetaFieldFront b) = s2"
      "meta_sz m4 (GetMetaFieldFront a) = k"
    using t w1 w2 w3 w4 by (simp_all add: f meta_sz_def flip: word_at_def)
  have "sub64 s (add64 k META_BLOCK_SZ) = s2"
    using small j by (simp add: META_BLOCK_SZ_def add64_id sub64_id s2)
  then have fs: "u64_of_int (s32 (sub64 s (add64 k META_BLOCK_SZ))) = s2"
    using small j s2 by (simp only: s32_small u64_of_int_nat)
  have ad: "GetMetaFieldBackFromStart m1 a = heap_start + (a + 4 + k)"
      "GetRightNeighborOffset m2 a = b"
      "GetMetaFieldBackFromStart m3 b = heap_start + (b + 4 + s2)"
    using small k sz
    by (simp_all add: GetMetaFieldBackFromStart_def GetMetaFieldBack_def GetRightNeighborOffset_def
        add64_id b_def s2 j)
  have m': "m' = m4"
    unfolding m'_def split_tags_def Let_def sz(1) unfolding fs unfolding f(1)
    unfolding m1_def [symmetric] ad(1) unfolding m2_def [symmetric] ad(2) f(2)
    unfolding m3_def [symmetric] ad(3) unfolding m4_def [symmetric] ..
  show "split_neighbor a k m = b"
    unfolding split_neighbor_def Let_def f(1)
    unfolding m1_def [symmetric] ad(1) unfolding m2_def [symmetric] ad(2) ..
  have "word_at m4 (b + s2 - 4) = pv a" "word_at m4 (b + s2) = nx a"
    using l small k
    by (simp_all add: m4_def m3_def m2_def m1_def b_def s2 j word_set_is_free(2) word_set_sz(2)
        ac_simps)
  moreover have "reps m4 0 L pv nx" "reps m4 (b + 8 + s2) R pv nx"
    using r' by (simp_all add: m4_def m3_def m2_def m1_def a_def b_def s2 j ac_simps)
  ultimately have "reps m4 0 (L @ (True, k) # (True, s2) # R)
      (pv(b := pv a, a := word_at m4 (a + k - 4))) (nx(b := nx a, a := word_at m4 (a + k)))"
    using w4 k s2 by (simp add: reps_append a_def b_def)
  then show "\<exists>p q. reps m' 0 (L @ (True, k) # (True, s2) # R) (pv(b := pv a, a := p)) (nx(b := nx a, a := q))"
    unfolding m' by blast
  show "frame S m m'"
    unfolding m'
  proof (rule frame_trans [OF frame_trans [OF frame_trans]])
    have iv: "{heap_start + (a + x) ..< heap_start + (a + x) + 4} \<subseteq> S" if "x + 4 \<le> 8 + s" for x
      using S that by (auto simp: subset_iff)
    show "frame S m m1" unfolding m1_def using iv [of 0] by (simp add: frame_tag_writes)
    show "frame S m1 m2" unfolding m2_def
      using iv [of "4 + k"] j by (intro frame_trans [OF frame_tag_writes(1) frame_tag_writes(2)])
        (simp_all add: add.assoc)
    show "frame S m2 m3" unfolding m3_def
      using iv [of "8 + k"] j by (intro frame_trans [OF frame_tag_writes(1) frame_tag_writes(2)])
        (simp_all add: add.assoc b_def)
    show "frame S m3 m4" unfolding m4_def
      using iv [of "8 + k + (4 + s2)"] j s2 by (intro frame_trans [OF frame_tag_writes(1) frame_tag_writes(2)])
        (simp_all add: add.assoc b_def)
  qed
qed

lemma SplitFreeBlock_relink:
  "SplitFreeBlock a k st =
     (if meta_sz (hmem st) (GetMetaFieldFront a) < add64 (add64 k META_BLOCK_SZ) 8 then st
      else
        let b = split_neighbor a k (hmem st);
            start = (if free_block_list_start st = a then b else free_block_list_start st);
            st1 = AddToFreeList a
                    (st\<lparr>hmem := split_tags a k (hmem st), free_block_list_start := start\<rparr>);
            sfl = GetMetaFieldBackFreeListFromStart (hmem st1) b;
            m6 = relink_next (prev_free (hmem st1) sfl) b (hmem st1)
        in st1\<lparr>hmem := relink_prev (next_free m6 sfl) b m6\<rparr>)"
  by (simp add: SplitFreeBlock_def split_tags_def split_neighbor_def relink_next_def
      relink_prev_def Let_def)

lemma dll_split_node:
  assumes d: "dll pv nx p (us @ a # vs) n" "distinct (us @ a # vs)" "b \<notin> set (us @ a # vs)"
  defines "h \<equiv> hd_or n (us @ b # vs)"
  shows "dll (upd_hd vs b (upd_hd (us @ b # vs) a (pv(b := pv a, a := p))))
             (upd_last (a # us) b (nx(b := nx a, a := h))) p (a # us @ b # vs) n"
proof -
  let ?pv = "upd_hd vs b (pv(b := pv a))" and ?nx = "upd_last us b (nx(b := nx a))"
  have b: "b \<notin> set (us @ vs)" "b \<noteq> a" using d(3) by auto
  have base: "dll ?pv ?nx p (us @ b # vs) n" by (rule dll_replace [OF d(1,2) b(1)])
  have nin: "a \<notin> set (us @ b # vs)" using d(2) b by auto
  have h: "h = hd (us @ b # vs)" by (cases us) (simp_all add: h_def)
  have dist: "distinct (us @ b # vs)" using d(2) b by auto
  have *: "dll (?pv(a := p, h := a)) (?nx(a := h)) p (a # us @ b # vs) n"
    using base nin dist by (cases us) (auto simp: h_def)
  have hv: "h \<notin> set vs" using dist by (cases us) (auto simp: h_def)
  have hp: "hd vs \<noteq> a \<and> hd vs \<noteq> h" if "vs \<noteq> []"
    using that hv nin by (cases vs) auto
  have "upd_hd vs b (upd_hd (us @ b # vs) a (pv(b := pv a, a := p))) = ?pv(a := p, h := a)"
    using hp by (auto simp: upd_hd_def h)
  moreover have "upd_last (a # us) b (nx(b := nx a, a := h)) = ?nx(a := h)"
  proof (cases us rule: rev_cases)
    case Nil
    then show ?thesis by (simp add: upd_last_def h_def)
  next
    case (snoc ws w)
    then have "w \<noteq> a" using nin by auto
    with snoc show ?thesis by (auto simp: upd_last_def)
  qed
  ultimately show ?thesis using * by (simp only:)
qed

lemma blk_split:
  assumes "blk (L @ (f, s) # R) x g t" "x \<noteq> extent L" "k + 8 \<le> s"
  shows "blk (L @ (f', k) # (f'', s - (k + 8)) # R) x g t"
proof -
  have "blk L x g t \<or> (\<exists>c. x = extent L + (s + 8 + c) \<and> blk R c g t)"
    using assms by auto
  then show ?thesis
  proof
    assume "\<exists>c. x = extent L + (s + 8 + c) \<and> blk R c g t"
    then obtain c where "x = extent L + (k + 8 + (s - (k + 8) + 8 + c))" "blk R c g t"
      using assms(3) by auto
    then show ?thesis unfolding blk_append blk_simps(2) by blast
  qed simp
qed

lemma SplitFreeBlock_ok:
  fixes L :: "block list" and s k :: nat
  defines "a \<equiv> extent L"
  assumes h: "heap_list S st (L @ (True, s) # R) fl" and a: "a \<in> set fl"
    and k: "8 \<le> k" "k + 16 \<le> s" and S: "{heap_start + a ..< heap_start + (a + 8 + s)} \<subseteq> S"
  defines "b \<equiv> a + 8 + k" and "s2 \<equiv> s - (k + 8)"
  shows "\<exists>fl'. heap_list S (SplitFreeBlock a k st) (L @ (True, k) # (True, s2) # R) fl'
           \<and> set fl' = insert b (set fl)"
    and "frame S (hmem st) (hmem (SplitFreeBlock a k st))"
proof -
  let ?bs = "L @ (True, s) # R" and ?bs' = "L @ (True, k) # (True, s2) # R"
  obtain pv nx where r: "reps (hmem st) 0 ?bs pv nx"
    and d: "dll pv nx END_OF_LIST fl END_OF_LIST" "distinct fl" "nodes S ?bs fl"
    and st: "free_block_list_start st = hd_or END_OF_LIST fl" "allocated_size st = extent ?bs"
    and e: "extent ?bs < 2147483648"
    using h by (rule heap_listE)
  obtain us vs where fl: "fl = us @ a # vs" using a by (meson split_list)
  have small: "a + 8 + s < 2147483648" using e by (simp add: a_def)
  have e': "extent ?bs' < 2147483648" "extent ?bs' = extent ?bs"
    using e k by (simp_all add: s2_def)
  note tg = split_tags_ok [OF r small [unfolded a_def] k S [unfolded a_def],
      folded a_def, folded b_def, folded s2_def]
  obtain p q where r4: "reps (split_tags a k (hmem st)) 0 ?bs' (pv(b := pv a, a := p)) (nx(b := nx a, a := q))"
    using tg(1) by blast
  have ba: "blk ?bs' a True k" "blk ?bs' b True s2" by (simp_all add: a_def b_def)
  have sp: "link_span a k \<subseteq> S" "link_span b s2 \<subseteq> S"
    using S k by (auto simp: link_span_def link_addr_def b_def s2_def subset_iff)
  have bfl: "b \<notin> set fl"
  proof
    assume "b \<in> set fl"
    then obtain f t where "blk ?bs b f t" using nodes_blk [OF d(3)] by blast
    then show False using k s2_def r by (auto simp: b_def a_def dest: blk_extent)
  qed
  have start: "(if free_block_list_start st = a then b else free_block_list_start st)
      = hd_or END_OF_LIST (us @ b # vs)"
    using st(1) d(2) unfolding fl by (cases us) auto
  let ?m4 = "split_tags a k (hmem st)" and ?h = "hd_or END_OF_LIST (us @ b # vs)"
  define st1 where "st1 = AddToFreeList a (st\<lparr>hmem := ?m4, free_block_list_start := ?h\<rparr>)"
  have n: "nodes S ?bs' (us @ vs)"
  proof (rule nodes_mono [OF d(3)])
    fix x f t assume x: "x \<in> set (us @ vs)" "blk ?bs x f t"
    have "x \<noteq> extent L" using d(2) x(1) unfolding fl a_def by auto
    moreover have "k + 8 \<le> s" using k(2) by simp
    ultimately show "\<exists>g. blk ?bs' x g t"
      using blk_split [OF x(2)] unfolding s2_def by blast
  qed (use fl in auto)
  have na: "\<exists>f s. blk ?bs' a f s \<and> link_span a s \<subseteq> S" using ba(1) sp(1) by blast
  have nb: "\<exists>f s. blk ?bs' b f s \<and> link_span b s \<subseteq> S" using ba(2) sp(2) by blast
  have n3: "nodes S ?bs' (a # us)" "nodes S ?bs' vs" "nodes S ?bs' (us @ b # vs)"
      "nodes S ?bs' (a # us @ b # vs)"
    using n by (simp_all only: nodes_append nodes_Cons na nb simp_thms)
  have u: "u32 ?h = ?h" "u32 a = a" "u32 b = b"
    using u32_hd_or [OF n3(3) e'(1)] small k by (simp_all add: u32_id b_def)
  let ?m5 = "set_prev_free (link_addr a k) END_OF_LIST (set_next_free (link_addr a k) ?h ?m4)"
  have r5: "reps ?m5 0 ?bs' (pv(b := pv a, a := END_OF_LIST)) (nx(b := nx a, a := ?h))"
    using reps_set_prev [OF reps_set_next [OF r4 ba(1), of ?h] ba(1), of END_OF_LIST] u by simp
  have f5: "frame S ?m4 ?m5"
    by (rule frame_trans [OF frame_links(2) [OF sp(1)] frame_links(1) [OF sp(1)]])
  note r6 = relink_prev_ok [OF r5 n3(3) e'(1) u(2) refl]
  have st1: "st1 = st\<lparr>hmem := relink_prev ?h a ?m5, free_block_list_start := a\<rparr>"
  proof -
    have "reps (hmem (st\<lparr>hmem := ?m4, free_block_list_start := ?h\<rparr>)) 0 ?bs'
        (pv(b := pv a, a := p)) (nx(b := nx a, a := q))" using r4 by simp
    from AddToFreeList_eq [OF this ba(1) e'(1)] show ?thesis by (simp add: st1_def)
  qed
  note pn = dll_prev_next [OF d(1) [unfolded fl]]
  have prev: "upd_hd (us @ b # vs) a (pv(b := pv a, a := END_OF_LIST)) b = last_or END_OF_LIST (a # us)"
    using pn(1) bfl fl by (cases us) (auto simp: upd_hd_def)
  define m6 where "m6 = relink_next (last_or END_OF_LIST (a # us)) b (hmem st1)"
  have r6': "reps (hmem st1) 0 ?bs' (upd_hd (us @ b # vs) a (pv(b := pv a, a := END_OF_LIST)))
      (nx(b := nx a, a := ?h))" using r6(1) by (simp add: st1)
  note r7 = relink_next_ok [OF r6' n3(1) e'(1) u(3) refl, folded m6_def]
  have next_b: "upd_last (a # us) b (nx(b := nx a, a := ?h)) b = hd_or END_OF_LIST vs"
    using pn(2) bfl fl by (auto simp: upd_last_def)
  note r8 = relink_prev_ok [OF r7(1) n3(2) e'(1) u(3) refl]
  have "\<not> s < add64 (add64 k META_BLOCK_SZ) 8"
    using k small by (simp add: add64_id META_BLOCK_SZ_def)
  moreover have "meta_sz (hmem st) (GetMetaFieldFront a) = s"
    using is_blockI [OF r _ e, of a True s] front_word(1) by (simp add: a_def)
  ultimately have eq: "SplitFreeBlock a k st = st1\<lparr>hmem := relink_prev (hd_or END_OF_LIST vs) b m6\<rparr>"
    unfolding SplitFreeBlock_relink Let_def tg(3) start st1_def [symmetric]
    by (simp only: links_at [OF r6' ba(2) e'(1)] links_at [OF r7(1) ba(2) e'(1)] prev next_b
        m6_def [symmetric] if_False)
  have "heap_list S (SplitFreeBlock a k st) ?bs' (a # us @ b # vs)"
    unfolding eq
  proof (rule heap_listI)
    show "reps (hmem (st1\<lparr>hmem := relink_prev (hd_or END_OF_LIST vs) b m6\<rparr>)) 0 ?bs'
        (upd_hd vs b (upd_hd (us @ b # vs) a (pv(b := pv a, a := END_OF_LIST))))
        (upd_last (a # us) b (nx(b := nx a, a := ?h)))" using r8(1) by simp
    show "dll (upd_hd vs b (upd_hd (us @ b # vs) a (pv(b := pv a, a := END_OF_LIST))))
        (upd_last (a # us) b (nx(b := nx a, a := ?h))) END_OF_LIST (a # us @ b # vs) END_OF_LIST"
      using dll_split_node [OF d(1,2) [unfolded fl]] bfl fl by simp
    show "distinct (a # us @ b # vs)" using d(2) bfl unfolding fl by auto
  qed (use n3(4) st(2) e' in \<open>simp_all add: st1\<close>)
  moreover have "set (a # us @ b # vs) = insert b (set fl)" using fl by auto
  ultimately show "\<exists>fl'. heap_list S (SplitFreeBlock a k st) ?bs' fl' \<and> set fl' = insert b (set fl)"
    by blast
  show "frame S (hmem st) (hmem (SplitFreeBlock a k st))"
  proof -
    have "frame S (hmem st) (hmem st1)"
      using frame_trans [OF frame_trans [OF tg(2) f5] r6(2)] by (simp add: st1)
    from frame_trans [OF frame_trans [OF this r7(2)] r8(2)] show ?thesis by (simp add: eq)
  qed
qed

lemma SplitFreeBlock_heap_size [simp]: "heap_size (SplitFreeBlock a k st) = heap_size st"
  by (simp add: SplitFreeBlock_def Let_def)

end
