(* ===== verification/MallocOps.thy ===== *)
theory MallocOps
  imports MallocBlocks
begin

text \<open>
  \<open>MarkFree\<close>, \<open>MarkOccupied\<close>, \<open>FindFreeBlock\<close>, \<open>InitMalloc\<close>, \<open>grow_heap\<close>, \<open>malloc\<close> and
  \<open>free\<close> of \<open>user/libc/malloc.c\<close> on the list of blocks, and the invariant of the whole
  heap: the free list holds exactly the free blocks and no two of them are adjacent.
\<close>

section \<open>The invariant\<close>

definition heap_ok :: "heap \<Rightarrow> block list \<Rightarrow> bool" where
  "heap_ok st bs \<longleftrightarrow> coalesced bs
     \<and> (\<exists>fl. heap_list (owned 0 bs) st bs fl \<and> set fl = set (free_offs 0 bs))"

definition heap_inv :: "heap \<Rightarrow> block list \<Rightarrow> bool" where
  "heap_inv st bs \<longleftrightarrow> heap_ok st bs \<and> heap_size st = (if bs = [] then 0 else extent bs + 4)"

lemma heap_list_weaken:
  assumes "heap_list S st bs fl" "set fl \<subseteq> set (free_offs 0 bs)"
  shows "heap_list (owned 0 bs) st bs fl"
  using assms(1)
proof (rule heap_listE)
  fix pv nx
  assume *: "reps (hmem st) 0 bs pv nx" "dll pv nx END_OF_LIST fl END_OF_LIST" "distinct fl"
    "free_block_list_start st = hd_or END_OF_LIST fl" "allocated_size st = extent bs"
    "extent bs < 2147483648"
  show ?thesis
    by (rule heap_listI [OF *(1-3) nodes_free [OF *(1) assms(2)] *(4-6)]) simp
qed

lemma heap_okI:
  assumes "heap_list S st bs fl" "set fl = set (free_offs 0 bs)" "coalesced bs"
  shows "heap_ok st bs"
  using heap_list_weaken [OF assms(1)] assms(2,3) unfolding heap_ok_def by blast

section \<open>MarkFree\<close>

definition absorb_right :: "nat \<Rightarrow> block list \<Rightarrow> nat \<times> block list" where
  "absorb_right s R = (case R of (True, s') # R' \<Rightarrow> (s + s' + 8, R') | _ \<Rightarrow> (s, R))"

definition absorb_left :: "block list \<Rightarrow> nat \<Rightarrow> block list \<times> nat" where
  "absorb_left L s = (case rev L of (True, s') # L' \<Rightarrow> (rev L', s' + s + 8) | _ \<Rightarrow> (L, s))"

definition release :: "block list \<Rightarrow> nat \<Rightarrow> block list \<Rightarrow> block list" where
  \<comment> \<open>what freeing the block between L and R does to the list\<close>
  "release L s R =
     (case absorb_right s R of (s1, R1) \<Rightarrow>
      case absorb_left L s1 of (L1, s2) \<Rightarrow> L1 @ (True, s2) # R1)"

lemma absorb_simps [simp]:
  "absorb_right s [] = (s, [])"
  "absorb_right s ((True, s') # R) = (s + s' + 8, R)"
  "absorb_right s ((False, s') # R) = (s, (False, s') # R)"
  "absorb_left [] s = ([], s)"
  "absorb_left (L @ [(True, s')]) s = (L, s' + s + 8)"
  "absorb_left (L @ [(False, s')]) s = (L @ [(False, s')], s)"
  by (simp_all add: absorb_right_def absorb_left_def)

lemma is_block_at:
  assumes "heap_list S st bs fl" "blk bs a f s"
  shows "is_block (hmem st) a f s"
  using assms(1) by (rule heap_listE) (rule is_blockI [OF _ assms(2)])

lemma owned_two_free:
  "owned a ((True, s) # (True, s') # R) = owned a ((True, s + s' + 8) # R)"
  by (auto simp: ac_simps)

lemma free_offs_range: "x \<in> set (free_offs a bs) \<Longrightarrow> a \<le> x \<and> x < a + extent bs"
proof (induction bs arbitrary: a)
  case (Cons b bs)
  then show ?case by (cases b) (fastforce split: if_splits)
qed simp

lemma retag_idem:
  assumes "reps m 0 (L @ (f, s) # R) pv nx" 
  shows "pv(extent L := word_at m (extent L + s - 4)) = pv"
    "nx(extent L := word_at m (extent L + s)) = nx"
  using assms by (auto simp: reps_append fun_eq_iff)

text \<open>
  A block that is about to be freed: its two size fields agree, whatever its free bits are.
\<close>

definition releasable :: "heap \<Rightarrow> block list \<Rightarrow> nat \<Rightarrow> block list \<Rightarrow> nat list \<Rightarrow> bool" where
  "releasable st L s R fl \<longleftrightarrow>
     (\<exists>pv nx. reps (hmem st) 0 L pv nx \<and> reps (hmem st) (extent L + 8 + s) R pv nx
              \<and> dll pv nx END_OF_LIST fl END_OF_LIST)
     \<and> word_at (hmem st) (extent L) div 2 = s \<and> word_at (hmem st) (extent L + 4 + s) div 2 = s
     \<and> 8 \<le> s \<and> distinct fl \<and> set fl = set (free_offs 0 (L @ (False, s) # R))
     \<and> free_block_list_start st = hd_or END_OF_LIST fl
     \<and> allocated_size st = extent (L @ (False, s) # R)
     \<and> extent (L @ (False, s) # R) < 2147483648 \<and> coalesced (L @ (False, s) # R)"

lemma free_offs_split:
  "set (free_offs 0 (L @ (True, s) # R)) = insert (extent L) (set (free_offs 0 (L @ (False, s) # R)))"
  "extent L \<notin> set (free_offs 0 (L @ (False, s) # R))"
  using free_offs_range [of "extent L" 0 L] free_offs_range [of "extent L" "extent L + 8 + s" R]
  by auto

definition mark_tags :: "nat \<Rightarrow> heap \<Rightarrow> heap" where
  "mark_tags a st = st\<lparr>hmem := set_is_free (GetMetaFieldBackFromStart (hmem st) a) 1
                                (set_is_free (GetMetaFieldFront a) 1 (hmem st))\<rparr>"

lemma mark_tags_ok:
  assumes "releasable st L s R fl"
  defines "bs \<equiv> L @ (True, s) # R"
  shows "heap_list (owned 0 bs) (mark_tags (extent L) st) bs fl"
    and "frame (owned 0 bs) (hmem st) (hmem (mark_tags (extent L) st))"
proof -
  let ?a = "extent L"
  obtain pv nx where r: "reps (hmem st) 0 L pv nx" "reps (hmem st) (?a + 8 + s) R pv nx"
      and d: "dll pv nx END_OF_LIST fl END_OF_LIST"
    and w: "word_at (hmem st) ?a div 2 = s" "word_at (hmem st) (?a + 4 + s) div 2 = s" "8 \<le> s"
    and fl: "distinct fl" "set fl = set (free_offs 0 (L @ (False, s) # R))"
      "free_block_list_start st = hd_or END_OF_LIST fl"
    and e: "allocated_size st = extent bs" "extent bs < 2147483648"
    using assms by (auto simp: releasable_def)
  have small: "?a + 8 + s < 2147483648" using e(2) by (simp add: bs_def)
  have ad: "GetMetaFieldFront ?a = heap_start + ?a"
      "GetMetaFieldBackFromStart (hmem st) ?a = heap_start + (?a + 4 + s)"
    using small w(1)
    by (simp_all add: front_addr GetMetaFieldBackFromStart_def GetMetaFieldBack_def meta_sz_def
        add64_id flip: word_at_def)
  have S: "{heap_start + ?a ..< heap_start + ?a + 4}
      \<union> {heap_start + ?a + 4 + s ..< heap_start + ?a + 8 + s} \<subseteq> owned 0 bs"
    by (rule owned_tags [of bs ?a True s]) (simp add: bs_def)
  note rt = retag [OF r w small S, of 1]
  have hm: "hmem (mark_tags ?a st) = set_is_free (heap_start + (?a + 4 + s)) 1
      (set_is_free (heap_start + ?a) 1 (hmem st))" by (simp add: mark_tags_def ad)
  show "frame (owned 0 bs) (hmem st) (hmem (mark_tags ?a st))" using rt(2) by (simp add: hm)
  have rep: "reps (hmem (mark_tags ?a st)) 0 bs (pv(?a := word_at (hmem st) (?a + s - 4)))
      (nx(?a := word_at (hmem st) (?a + s)))"
    using rt(1) unfolding hm bs_def by simp
  have "?a \<notin> set fl" using free_offs_split(2) fl(2) by simp
  then have dd: "dll (pv(?a := word_at (hmem st) (?a + s - 4))) (nx(?a := word_at (hmem st) (?a + s)))
      END_OF_LIST fl END_OF_LIST" using d by simp
  have "nodes (owned 0 bs) bs fl"
    by (rule nodes_free [OF rep]) (use fl(2) free_offs_split(1) [of L s R] in \<open>auto simp: bs_def\<close>)
  then show "heap_list (owned 0 bs) (mark_tags ?a st) bs fl"
    by (intro heap_listI [OF rep dd fl(1)]) (use fl(3) e in \<open>simp_all add: mark_tags_def\<close>)
qed

definition merge_right :: "nat \<Rightarrow> heap \<Rightarrow> heap" where
  "merge_right a st =
     (let b = GetRightNeighborOffset (hmem st) a
      in if b < allocated_size st
         then (if meta_is_free (hmem st) (GetMetaFieldFront b) \<noteq> 0 then MergeTwoBlocks a b st else st)
         else st)"

definition merge_left :: "nat \<Rightarrow> heap \<Rightarrow> heap" where
  "merge_left a st =
     (if a > 0 then
        (let b = GetLeftNeighborOffset (hmem st) a
         in if meta_is_free (hmem st) (GetMetaFieldFront b) \<noteq> 0 then MergeTwoBlocks b a st else st)
      else st)"

lemma MarkFree_steps:
  "MarkFree a st = merge_left a (merge_right a (AddToFreeList a (mark_tags a st)))"
  by (simp add: MarkFree_def merge_left_def merge_right_def mark_tags_def Let_def)

lemma MarkFree_heap_size [simp]: "heap_size (MarkFree a st) = heap_size st"
  by (simp add: MarkFree_def Let_def)

lemma heap_list_alloc: "heap_list S st bs fl \<Longrightarrow> allocated_size st = extent bs"
  by (simp add: heap_list_def)

lemma merge_right_ok:
  assumes h: "heap_list (owned 0 bs) st bs fl" and bs: "bs = L @ (True, s) # R"
    and fl: "set fl = set (free_offs 0 bs)"
    and ab: "absorb_right s R = (s1, R1)"
  defines "bs1 \<equiv> L @ (True, s1) # R1"
  shows "\<exists>fl'. heap_list (owned 0 bs1) (merge_right (extent L) st) bs1 fl'
           \<and> set fl' = set (free_offs 0 bs1)"
    and "frame (owned 0 bs) (hmem st) (hmem (merge_right (extent L) st))"
    and "owned 0 bs1 = owned 0 bs"
proof -
  let ?a = "extent L"
  have blk: "is_block (hmem st) ?a True s" by (rule is_block_at [OF h]) (simp add: bs)
  have b: "GetRightNeighborOffset (hmem st) ?a = ?a + 8 + s" by (rule right_offset [OF blk])
  have "(\<exists>fl'. heap_list (owned 0 bs1) (merge_right ?a st) bs1 fl' \<and> set fl' = set (free_offs 0 bs1))
      \<and> frame (owned 0 bs) (hmem st) (hmem (merge_right ?a st)) \<and> owned 0 bs1 = owned 0 bs"
  proof (cases R)
    case Nil
    then have "merge_right ?a st = st" "bs1 = bs"
      using ab heap_list_alloc [OF h] by (simp_all add: merge_right_def b Let_def bs bs1_def)
    then show ?thesis using h fl by auto
  next
    case (Cons c R')
    obtain f s' where c: "c = (f, s')" by (cases c)
    have blk': "is_block (hmem st) (?a + 8 + s) f s'"
      by (rule is_block_at [OF h]) (simp add: bs Cons c)
    have lt: "?a + 8 + s < allocated_size st"
      using heap_list_alloc [OF h] by (simp add: bs Cons c)
    show ?thesis
    proof (cases f)
      case False
      then have "merge_right ?a st = st" "bs1 = bs"
        using ab front_word(2) [OF blk']
        by (simp_all add: merge_right_def b Let_def bs bs1_def Cons c)
      then show ?thesis using h fl by auto
    next
      case True
      then have eq: "merge_right ?a st = MergeTwoBlocks ?a (?a + 8 + s) st"
        using front_word(2) [OF blk'] lt by (simp add: merge_right_def b Let_def)
      have bs': "bs = L @ (True, s) # (True, s') # R'" "bs1 = L @ (True, s + s' + 8) # R'"
        using ab True by (simp_all add: bs bs1_def Cons c)
      have own: "owned 0 bs1 = owned 0 bs" by (simp only: bs' owned_append owned_two_free)
      have S: "{heap_start + ?a ..< heap_start + (?a + 8 + s + 8 + s')} \<subseteq> owned 0 bs"
        by (auto simp: bs')
      have in_fl: "?a \<in> set fl" "?a + 8 + s \<in> set fl" using fl by (simp_all add: bs' add.assoc)
      note mg = MergeTwoBlocks_ok [OF h [unfolded bs'(1)] in_fl, folded bs'(1), OF S]
      obtain fl' where fl': "heap_list (owned 0 bs) (merge_right ?a st) bs1 fl'"
          "set fl' = set fl - {?a + 8 + s}" using mg(1) unfolding eq bs'(2) by blast
      have "set (free_offs 0 bs1) = set fl - {?a + 8 + s}"
        using free_offs_range [of "?a + 8 + s" 0 L] free_offs_range [of "?a + 8 + s" "?a + 8 + s + 8 + s'" R']
        by (auto simp: fl bs' ac_simps)
      then show ?thesis using fl' own mg(2) eq by auto
    qed
  qed
  then show "\<exists>fl'. heap_list (owned 0 bs1) (merge_right ?a st) bs1 fl' \<and> set fl' = set (free_offs 0 bs1)"
    "frame (owned 0 bs) (hmem st) (hmem (merge_right ?a st))" "owned 0 bs1 = owned 0 bs" by auto
qed

lemma merge_left_ok:
  assumes h: "heap_list (owned 0 bs) st bs fl" and bs: "bs = L @ (True, s) # R"
    and fl: "set fl = set (free_offs 0 bs)"
    and ab: "absorb_left L s = (L1, s1)"
  defines "bs1 \<equiv> L1 @ (True, s1) # R"
  shows "\<exists>fl'. heap_list (owned 0 bs1) (merge_left (extent L) st) bs1 fl'
           \<and> set fl' = set (free_offs 0 bs1)"
    and "frame (owned 0 bs) (hmem st) (hmem (merge_left (extent L) st))"
    and "owned 0 bs1 = owned 0 bs"
proof -
  let ?a = "extent L"
  have "(\<exists>fl'. heap_list (owned 0 bs1) (merge_left ?a st) bs1 fl' \<and> set fl' = set (free_offs 0 bs1))
      \<and> frame (owned 0 bs) (hmem st) (hmem (merge_left ?a st)) \<and> owned 0 bs1 = owned 0 bs"
  proof (cases L rule: rev_cases)
    case Nil
    then have "merge_left ?a st = st" "bs1 = bs"
      using ab by (simp_all add: merge_left_def bs bs1_def)
    then show ?thesis using h fl by auto
  next
    case (snoc L' c)
    obtain f s' where c: "c = (f, s')" by (cases c)
    let ?b = "extent L'"
    have a: "?a = ?b + 8 + s'" by (simp add: snoc c)
    have blk: "is_block (hmem st) ?b f s'" by (rule is_block_at [OF h]) (simp add: bs snoc c)
    have l: "GetLeftNeighborOffset (hmem st) ?a = ?b" unfolding a by (rule left_offset [OF blk])
    show ?thesis
    proof (cases f)
      case False
      then have "merge_left ?a st = st" "bs1 = bs"
        using ab front_word(2) [OF blk] l
        by (simp_all add: merge_left_def Let_def bs bs1_def snoc c)
      then show ?thesis using h fl by auto
    next
      case True
      then have eq: "merge_left ?a st = MergeTwoBlocks ?b (?b + 8 + s') st"
        using front_word(2) [OF blk] l unfolding merge_left_def Let_def by (simp add: a)
      have bs': "bs = L' @ (True, s') # (True, s) # R" "bs1 = L' @ (True, s' + s + 8) # R"
        using ab True by (auto simp: bs bs1_def snoc c)
      have own: "owned 0 bs1 = owned 0 bs" by (simp only: bs' owned_append owned_two_free)
      have S: "{heap_start + ?b ..< heap_start + (?b + 8 + s' + 8 + s)} \<subseteq> owned 0 bs"
        by (auto simp: bs')
      have in_fl: "?b \<in> set fl" "?b + 8 + s' \<in> set fl" using fl by (simp_all add: bs' add.assoc)
      note mg = MergeTwoBlocks_ok [OF h [unfolded bs'(1)] in_fl, folded bs'(1), OF S]
      obtain fl' where fl': "heap_list (owned 0 bs) (merge_left ?a st) bs1 fl'"
          "set fl' = set fl - {?b + 8 + s'}" using mg(1) unfolding eq bs'(2) by blast
      have "set (free_offs 0 bs1) = set fl - {?b + 8 + s'}"
        using free_offs_range [of "?b + 8 + s'" 0 L'] free_offs_range [of "?b + 8 + s'" "?b + 8 + s' + 8 + s" R]
        by (auto simp: fl bs' ac_simps)
      then show ?thesis using fl' own mg(2) eq by auto
    qed
  qed
  then show "\<exists>fl'. heap_list (owned 0 bs1) (merge_left ?a st) bs1 fl' \<and> set fl' = set (free_offs 0 bs1)"
    "frame (owned 0 bs) (hmem st) (hmem (merge_left ?a st))" "owned 0 bs1 = owned 0 bs" by auto
qed

lemma coalesced_release:
  assumes "coalesced (L @ (False, s) # R)"
  shows "coalesced (release L s R)"
proof -
  obtain s1 R1 where r: "absorb_right s R = (s1, R1)" by (cases "absorb_right s R")
  obtain L1 s2 where l: "absorb_left L s1 = (L1, s2)" by (cases "absorb_left L s1")
  have R: "coalesced R1 \<and> (R1 \<noteq> [] \<longrightarrow> \<not> fst (hd R1))"
  proof (cases R)
    case (Cons c R')
    then show ?thesis using assms r
      by (cases c; cases "fst c") (auto simp: coalesced_append coalesced_Cons)
  qed (use r in auto)
  have L: "coalesced L1 \<and> (L1 \<noteq> [] \<longrightarrow> \<not> fst (last L1))"
  proof (cases L rule: rev_cases)
    case (snoc L' c)
    then show ?thesis using assms l
      by (cases c; cases "fst c") (auto simp: coalesced_append coalesced_Cons)
  qed (use l in auto)
  show ?thesis using R L by (auto simp: release_def r l coalesced_append coalesced_Cons)
qed

lemma extent_release [simp]: "extent (release L s R) = extent (L @ (f, s) # R)"
proof -
  obtain s1 R1 where r: "absorb_right s R = (s1, R1)" by (cases "absorb_right s R")
  obtain L1 s2 where l: "absorb_left L s1 = (L1, s2)" by (cases "absorb_left L s1")
  have "s1 + extent R1 = s + extent R"
    using r by (auto simp: absorb_right_def split: list.splits prod.splits bool.splits)
  moreover have "extent L1 + s2 = extent L + s1"
    using l by (cases L rule: rev_cases) (auto simp: absorb_left_def split: bool.splits)
  ultimately show ?thesis by (simp add: release_def r l)
qed

lemma used_blocks_release [simp]:
  "used_blocks 0 (release L s R) = used_blocks 0 L @ used_blocks (extent L + 8 + s) R"
proof -
  obtain s1 R1 where r: "absorb_right s R = (s1, R1)" by (cases "absorb_right s R")
  obtain L1 s2 where l: "absorb_left L s1 = (L1, s2)" by (cases "absorb_left L s1")
  have 1: "used_blocks (x + 8 + s1) R1 = used_blocks (x + 8 + s) R" for x
    using r by (auto simp: absorb_right_def ac_simps split: list.splits prod.splits bool.splits)
  have "used_blocks 0 (L1 @ (True, s2) # R1) = used_blocks 0 (L @ (True, s1) # R1)"
    using l by (cases L rule: rev_cases) (auto simp: absorb_left_def ac_simps split: bool.splits)
  then show ?thesis using 1 by (simp add: release_def r l)
qed

lemma release_not_Nil [simp]: "release L s R \<noteq> []"
  by (simp add: release_def split: prod.splits)

lemma MarkFree_ok:
  assumes h: "releasable st L s R fl"
  shows "heap_ok (MarkFree (extent L) st) (release L s R)"
    and "frame (owned 0 (L @ (True, s) # R)) (hmem st) (hmem (MarkFree (extent L) st))"
proof -
  let ?a = "extent L" and ?bs = "L @ (True, s) # R"
  obtain s1 R1 where r: "absorb_right s R = (s1, R1)" by (cases "absorb_right s R")
  obtain L1 s2 where l: "absorb_left L s1 = (L1, s2)" by (cases "absorb_left L s1")
  define st1 where "st1 = mark_tags ?a st"
  define st2 where "st2 = AddToFreeList ?a st1"
  define st3 where "st3 = merge_right ?a st2"
  note m1 = mark_tags_ok [OF h, folded st1_def]
  have fl: "set fl = set (free_offs 0 (L @ (False, s) # R))" and s8: "8 \<le> s"
    and co: "coalesced (L @ (False, s) # R)" using h by (auto simp: releasable_def)
  have blk: "blk ?bs ?a True s" by simp
  have "link_span ?a s \<subseteq> owned 0 ?bs"
    using link_span_block [OF s8, of ?a] owned_free [OF blk] by (auto simp: add.assoc)
  moreover have "?a \<notin> set fl" using free_offs_split(2) fl by simp
  ultimately have m2: "heap_list (owned 0 ?bs) st2 ?bs (?a # fl)"
      "frame (owned 0 ?bs) (hmem st1) (hmem st2)"
    using AddToFreeList_ok [OF m1(1) blk] by (auto simp: st2_def)
  have fl2: "set (?a # fl) = set (free_offs 0 ?bs)" unfolding free_offs_split(1) by (simp add: fl)
  note m3 = merge_right_ok [OF m2(1) refl fl2 r, folded st3_def]
  then obtain fl3 where fl3: "heap_list (owned 0 (L @ (True, s1) # R1)) st3 (L @ (True, s1) # R1) fl3"
      "set fl3 = set (free_offs 0 (L @ (True, s1) # R1))" by blast
  note m4 = merge_left_ok [OF fl3(1) refl fl3(2) l]
  have eq: "MarkFree ?a st = merge_left ?a st3"
    by (simp add: MarkFree_steps st1_def st2_def st3_def)
  have rel: "release L s R = L1 @ (True, s2) # R1" by (simp add: release_def r l)
  show "heap_ok (MarkFree ?a st) (release L s R)"
    using m4(1) coalesced_release [OF co] heap_okI unfolding eq rel by blast
  show "frame (owned 0 ?bs) (hmem st) (hmem (MarkFree ?a st))"
    unfolding eq using frame_trans [OF m1(2) frame_trans [OF m2(2) frame_trans [OF m3(2) m4(2) [unfolded m3(3)]]]] .
qed

lemma MarkFree_used:
  assumes "heap_ok st (L @ (False, s) # R)"
  shows "heap_ok (MarkFree (extent L) st) (release L s R)"
    and "frame (owned 0 (L @ (True, s) # R)) (hmem st) (hmem (MarkFree (extent L) st))"
proof -
  obtain fl where fl: "heap_list (owned 0 (L @ (False, s) # R)) st (L @ (False, s) # R) fl"
      "set fl = set (free_offs 0 (L @ (False, s) # R))" "coalesced (L @ (False, s) # R)"
    using assms by (auto simp: heap_ok_def)
  have "releasable st L s R fl"
    using fl(1)
  proof (rule heap_listE)
    fix pv nx
    assume *: "reps (hmem st) 0 (L @ (False, s) # R) pv nx" "dll pv nx END_OF_LIST fl END_OF_LIST"
      "distinct fl" "free_block_list_start st = hd_or END_OF_LIST fl"
      "allocated_size st = extent (L @ (False, s) # R)"
      "extent (L @ (False, s) # R) < 2147483648"
    have "reps (hmem st) 0 L pv nx" "reps (hmem st) (extent L + 8 + s) R pv nx" "8 \<le> s"
      "word_at (hmem st) (extent L) div 2 = s" "word_at (hmem st) (extent L + 4 + s) div 2 = s"
      using *(1) by (simp_all add: reps_append)
    then show ?thesis using * fl(2,3) unfolding releasable_def by blast
  qed
  then show "heap_ok (MarkFree (extent L) st) (release L s R)"
    "frame (owned 0 (L @ (True, s) # R)) (hmem st) (hmem (MarkFree (extent L) st))"
    by (rule MarkFree_ok)+
qed

section \<open>MarkOccupied\<close>

lemma MarkOccupied_ok:
  fixes L :: "block list"
  defines "a \<equiv> extent L"
  assumes h: "heap_list S st (L @ (True, s) # R) fl" and a: "a \<in> set fl"
    and S: "{heap_start + a ..< heap_start + (a + 8 + s)} \<subseteq> S"
  shows "\<exists>fl'. heap_list S (MarkOccupied a st) (L @ (False, s) # R) fl' \<and> set fl' = set fl - {a}"
    and "frame S (hmem st) (hmem (MarkOccupied a st))"
    and "heap_size (MarkOccupied a st) = heap_size st"
proof -
  let ?bs = "L @ (True, s) # R" and ?bs' = "L @ (False, s) # R"
  obtain pv nx where r: "reps (hmem st) 0 ?bs pv nx"
    and d: "dll pv nx END_OF_LIST fl END_OF_LIST" "distinct fl" "nodes S ?bs fl"
    and st: "free_block_list_start st = hd_or END_OF_LIST fl" "allocated_size st = extent ?bs"
    and e: "extent ?bs < 2147483648"
    using h by (rule heap_listE)
  have rr: "reps (hmem st) 0 L pv nx" "reps (hmem st) (a + 8 + s) R pv nx"
    "word_at (hmem st) a div 2 = s" "word_at (hmem st) (a + 4 + s) div 2 = s" "8 \<le> s"
    using r by (simp_all add: reps_append a_def)
  have small: "a + 8 + s < 2147483648" using e by (simp add: a_def)
  have S': "{heap_start + a ..< heap_start + a + 4}
      \<union> {heap_start + a + 4 + s ..< heap_start + a + 8 + s} \<subseteq> S" using S by auto
  note rt = retag [OF rr[unfolded a_def] small[unfolded a_def] S'[unfolded a_def], of 0, folded a_def]
  let ?m1 = "set_is_free (heap_start + a) 0 (hmem st)"
  define st1 where "st1 = st\<lparr>hmem := set_is_free (heap_start + (a + 4 + s)) 0 ?m1\<rparr>"
  have "word_at ?m1 a = tag_of False s" using rr(3) small by (simp add: word_set_is_free_tag)
  then have "meta_sz ?m1 (heap_start + a) = s" by (simp add: meta_sz_def flip: word_at_def)
  then have eq: "MarkOccupied a st = RemoveFromFreeList a st1"
    using small by (simp add: MarkOccupied_def st1_def front_addr GetMetaFieldBackFromStart_def
        GetMetaFieldBack_def add64_id Let_def)
  have n: "nodes S ?bs' fl" by (rule nodes_mono [OF d(3)]) auto
  have "heap_list S st1 ?bs' fl"
    by (rule heap_listI [OF _ d(1,2) n])
      (use rt(1) st e retag_idem [OF r] in \<open>simp_all add: st1_def a_def\<close>)
  moreover obtain us vs where fl: "fl = us @ a # vs" using a by (meson split_list)
  ultimately have rm: "heap_list S (RemoveFromFreeList a st1) ?bs' (us @ vs)"
      "frame S (hmem st1) (hmem (RemoveFromFreeList a st1))"
    using RemoveFromFreeList_ok by blast+
  have "set (us @ vs) = set fl - {a}" using d(2) unfolding fl by auto
  then show "\<exists>fl'. heap_list S (MarkOccupied a st) ?bs' fl' \<and> set fl' = set fl - {a}"
    using rm(1) eq by metis
  have "frame S (hmem st) (hmem st1)" using rt(2) by (simp add: st1_def)
  then show "frame S (hmem st) (hmem (MarkOccupied a st))" using rm(2) eq frame_trans by metis
  show "heap_size (MarkOccupied a st) = heap_size st" by (simp add: eq st1_def)
qed

section \<open>Taking a free block\<close>

definition carve :: "block list \<Rightarrow> nat \<Rightarrow> block list \<Rightarrow> nat \<Rightarrow> block list" where
  \<comment> \<open>allocate k bytes from the free block of size s between L and R\<close>
  "carve L s R k = (if s < k + 16 then L @ (False, s) # R
                    else L @ (False, k) # (True, s - (k + 8)) # R)"

lemma carve_facts:
  assumes "coalesced (L @ (True, s) # R)" "k \<le> s"
  shows "coalesced (carve L s R k)" "extent (carve L s R k) = extent (L @ (True, s) # R)"
    "\<exists>s'. k \<le> s' \<and> used_blocks 0 (carve L s R k)
       = used_blocks 0 L @ (extent L, s') # used_blocks (extent L + 8 + s) R"
  using assms by (auto simp: carve_def coalesced_append coalesced_Cons add.assoc)

lemma SplitFreeBlock_small:
  assumes "heap_list S st bs fl" "blk bs a True s" "s < k + 16" "k \<le> s"
  shows "SplitFreeBlock a k st = st"
proof -
  have b: "is_block (hmem st) a True s" by (rule is_block_at [OF assms(1,2)])
  then have "add64 (add64 k META_BLOCK_SZ) 8 = k + 16"
    using assms(4) by (simp add: is_block_def add64_id META_BLOCK_SZ_def)
  then show ?thesis using front_word(1) [OF b] assms(3) by (simp add: SplitFreeBlock_def Let_def)
qed

lemma take_block_ok:
  fixes L :: "block list"
  defines "a \<equiv> extent L" and "bs \<equiv> \<lambda>s R. L @ (True, s) # R"
  assumes h: "heap_ok st (bs s R)" and k: "8 \<le> k" "k \<le> s"
  shows "heap_ok (MarkOccupied a (SplitFreeBlock a k st)) (carve L s R k)"
    and "frame (owned 0 (bs s R)) (hmem st) (hmem (MarkOccupied a (SplitFreeBlock a k st)))"
    and "heap_size (MarkOccupied a (SplitFreeBlock a k st)) = heap_size st"
proof -
  let ?st1 = "SplitFreeBlock a k st" and ?S = "owned 0 (bs s R)"
  obtain fl where h': "heap_list ?S st (L @ (True, s) # R) fl"
    and fl: "set fl = set (free_offs 0 (bs s R))" and co: "coalesced (bs s R)"
    using h by (auto simp: heap_ok_def bs_def)
  have a: "a \<in> set fl" by (simp add: fl bs_def a_def)
  have S: "{heap_start + a ..< heap_start + (a + 8 + s)} \<subseteq> ?S" by (auto simp: bs_def a_def)
  have afl: "a \<notin> set (free_offs 0 (L @ (False, s) # R))" using free_offs_split(2) by (simp add: a_def)
  have co': "coalesced (carve L s R k)" using carve_facts(1) co k(2) by (simp add: bs_def)
  have "heap_ok (MarkOccupied a ?st1) (carve L s R k) \<and> frame ?S (hmem st) (hmem (MarkOccupied a ?st1))
      \<and> heap_size (MarkOccupied a ?st1) = heap_size st"
  proof (cases "s < k + 16")
    case True
    then have eq: "?st1 = st" by (intro SplitFreeBlock_small [OF h' _ _ k(2)]) (simp_all add: a_def)
    note oc = MarkOccupied_ok [OF h' a [unfolded a_def] S [unfolded a_def], folded a_def]
    obtain fl' where "heap_list ?S (MarkOccupied a st) (L @ (False, s) # R) fl'" "set fl' = set fl - {a}"
      using oc(1) by blast
    moreover have "set fl - {a} = set (free_offs 0 (L @ (False, s) # R))"
      using afl free_offs_split(1) [of L s R] by (auto simp: fl bs_def a_def)
    ultimately have "heap_ok (MarkOccupied a st) (L @ (False, s) # R)"
      using co' True by (intro heap_okI) (simp_all add: carve_def)
    then show ?thesis using oc(2,3) True unfolding eq by (simp add: carve_def)
  next
    case False
    let ?R = "(True, s - (k + 8)) # R"
    have k': "k + 16 \<le> s" using False by simp
    note sp = SplitFreeBlock_ok [OF h' a [unfolded a_def] k(1) k' S [unfolded a_def], folded a_def]
    obtain fl1 where fl1: "heap_list ?S ?st1 (L @ (True, k) # ?R) fl1" "set fl1 = insert (a + 8 + k) (set fl)"
      using sp(1) by blast
    have a1: "a \<in> set fl1" "{heap_start + a ..< heap_start + (a + 8 + k)} \<subseteq> ?S"
      using fl1 a S k' by auto
    note oc = MarkOccupied_ok [OF fl1(1) a1(1) [unfolded a_def] a1(2) [unfolded a_def], folded a_def]
    obtain fl2 where fl2: "heap_list ?S (MarkOccupied a ?st1) (L @ (False, k) # ?R) fl2" "set fl2 = set fl1 - {a}"
      using oc(1) by blast
    have "set fl2 = set (free_offs 0 (L @ (False, k) # ?R))"
      using afl k' unfolding fl2(2) fl1(2) fl by (auto simp: bs_def a_def ac_simps)
    then have "heap_ok (MarkOccupied a ?st1) (L @ (False, k) # ?R)"
      using fl2(1) co' False by (intro heap_okI) (simp_all add: carve_def)
    then show ?thesis using oc(2,3) sp(2) frame_trans False by (auto simp: carve_def)
  qed
  then show "heap_ok (MarkOccupied a ?st1) (carve L s R k)"
    "frame ?S (hmem st) (hmem (MarkOccupied a ?st1))"
    "heap_size (MarkOccupied a ?st1) = heap_size st" by auto
qed

section \<open>FindFreeBlock\<close>

lemma find_free_from_dll:
  assumes r: "reps m 0 bs pv nx" and e: "extent bs < 2147483648"
    and "dll pv nx p fl END_OF_LIST" "nodes S bs fl"
  shows "find_free_from m k (hd_or END_OF_LIST fl)
    = Some (case List.find (\<lambda>x. k \<le> meta_sz m (GetMetaFieldFront x)) fl of
              None \<Rightarrow> 2 ^ 64 - 1 | Some x \<Rightarrow> x)"
  using assms(3,4)
proof (induction fl arbitrary: p)
  case Nil
  then show ?case by (subst find_free_from.simps) simp
next
  case (Cons x fl)
  obtain f s where b: "blk bs x f s" using Cons.prems(2) by auto
  have x: "x \<noteq> END_OF_LIST" by (rule nodes_small(2) [OF Cons.prems(2) _ e]) simp
  have "next_free m (GetMetaFieldBackFreeListFromStart m x) = hd_or END_OF_LIST fl"
    using Cons.prems(1) by (simp add: links_at [OF r b e])
  then show ?case
    using Cons.IH [of x] Cons.prems x by (subst find_free_from.simps) simp
qed

lemma FindFreeBlock_ok:
  assumes "heap_ok st bs"
  obtains (none) "FindFreeBlock k st = Some (2 ^ 64 - 1)" "\<And>a s. blk bs a True s \<Longrightarrow> s < k"
  | (some) L s R where "FindFreeBlock k st = Some (extent L)" "bs = L @ (True, s) # R" "k \<le> s"
proof -
  obtain fl where h: "heap_list (owned 0 bs) st bs fl" and fl: "set fl = set (free_offs 0 bs)"
    using assms by (auto simp: heap_ok_def)
  obtain pv nx where r: "reps (hmem st) 0 bs pv nx" "dll pv nx END_OF_LIST fl END_OF_LIST"
    "nodes (owned 0 bs) bs fl" "free_block_list_start st = hd_or END_OF_LIST fl" "extent bs < 2147483648"
    using h by (rule heap_listE)
  let ?P = "\<lambda>x. k \<le> meta_sz (hmem st) (GetMetaFieldFront x)"
  have ff: "FindFreeBlock k st = Some (case List.find ?P fl of None \<Rightarrow> 2 ^ 64 - 1 | Some x \<Rightarrow> x)"
    unfolding FindFreeBlock_def r(4) by (rule find_free_from_dll [OF r(1,5,2,3)])
  have sz: "meta_sz (hmem st) (GetMetaFieldFront x) = s" if "blk bs x f s" for x f s
    by (rule front_word(1) [OF is_block_at [OF h that]])
  show thesis
  proof (cases "List.find ?P fl")
    case None
    have "s < k" if "blk bs a True s" for a s
      using that None sz [OF that] free_offs_blk fl by (auto simp: find_None_iff)
    then show thesis using none ff None by simp
  next
    case (Some x)
    then have "x \<in> set fl" "?P x" by (auto simp: find_Some_iff)
    then obtain s where b: "blk bs x True s" using free_offs_blk fl by blast
    then obtain L R where "bs = L @ (True, s) # R" "x = extent L" by (auto simp: blk_def)
    then show thesis using some ff Some sz [OF b] \<open>?P x\<close> by simp
  qed
qed

section \<open>Growing the heap\<close>

lemma RoundUp_eq:
  "x + 4096 < 18446744073709551616 \<Longrightarrow> RoundUpToMultipleOfFourKb x = round_up 4096 x"
  "x + 8 < 18446744073709551616 \<Longrightarrow> RoundUpToMultipleOf8 x = round_up 8 x"
  using round_up_bounds(2) [of 4096 x] round_up_bounds(2) [of 8 x]
  by (auto simp: RoundUpToMultipleOfFourKb_def RoundUpToMultipleOf8_def FOUR_KB_def mul64_def
      add64_def wrap_def round_up_def split: if_splits)

lemma RoundUp_bounds:
  "x + 4096 < 18446744073709551616 \<Longrightarrow> x \<le> RoundUpToMultipleOfFourKb x"
  "x + 4096 < 18446744073709551616 \<Longrightarrow> RoundUpToMultipleOfFourKb x < x + 4096"
  "x + 4096 < 18446744073709551616 \<Longrightarrow> RoundUpToMultipleOfFourKb x mod 4096 = 0"
  "x + 8 < 18446744073709551616 \<Longrightarrow> x \<le> RoundUpToMultipleOf8 x"
  "x + 8 < 18446744073709551616 \<Longrightarrow> RoundUpToMultipleOf8 x < x + 8"
  "x + 8 < 18446744073709551616 \<Longrightarrow> RoundUpToMultipleOf8 x mod 8 = 0"
  by (simp_all add: RoundUp_eq round_up_bounds)

lemma RoundUp4k_id [simp]: "x mod 4096 = 0 \<Longrightarrow> RoundUpToMultipleOfFourKb x = x"
  by (simp add: RoundUpToMultipleOfFourKb_def FOUR_KB_def)

text \<open>The size words of a block placed at the end of the heap.\<close>

lemma new_block_ok:
  assumes h: "heap_ok st bs" and s: "8 \<le> s" "extent bs + 8 + s < 2147483648"
  defines "a \<equiv> extent bs"
  defines "m1 \<equiv> set_sz (GetMetaFieldFront a) s (hmem st)"
  defines "m2 \<equiv> set_sz (GetMetaFieldBackFromStart m1 a) (meta_sz m1 (GetMetaFieldFront a)) m1"
  shows "heap_ok (MarkFree a (st\<lparr>heap_size := hs, allocated_size := a + 8 + s, hmem := m2\<rparr>)) (release bs s [])"
    and "frame (owned 0 (bs @ [(True, s)])) (hmem st)
           (hmem (MarkFree a (st\<lparr>heap_size := hs, allocated_size := a + 8 + s, hmem := m2\<rparr>)))"
proof -
  let ?st = "st\<lparr>heap_size := hs, allocated_size := a + 8 + s, hmem := m2\<rparr>"
    and ?S = "owned 0 (bs @ [(True, s)])"
  obtain fl where hl: "heap_list (owned 0 bs) st bs fl" and fl: "set fl = set (free_offs 0 bs)"
    and co: "coalesced bs" using h by (auto simp: heap_ok_def)
  obtain pv nx where r: "reps (hmem st) 0 bs pv nx" "dll pv nx END_OF_LIST fl END_OF_LIST"
    "distinct fl" "free_block_list_start st = hd_or END_OF_LIST fl"
    using hl by (rule heap_listE)
  have f: "GetMetaFieldFront a = heap_start + a" using s by (simp add: front_addr a_def)
  have m1: "m1 = set_sz (heap_start + a) s (hmem st)" by (simp add: m1_def f)
  have w1: "word_at m1 a div 2 = s" using s by (simp add: m1 word_set_sz_tag)
  then have sz: "meta_sz m1 (heap_start + a) = s" by (simp add: meta_sz_def flip: word_at_def)
  have m2: "m2 = set_sz (heap_start + (a + 4 + s)) s m1"
    using s(2) by (simp add: m2_def f sz GetMetaFieldBackFromStart_def GetMetaFieldBack_def add64_id
        flip: a_def)
  have w2: "word_at m2 a div 2 = s" "word_at m2 (a + 4 + s) div 2 = s"
    using s w1 by (simp_all add: m2 word_set_sz_tag word_set_sz(2))
  have "reps m2 0 bs pv nx" using r(1) by (simp add: m2 m1 a_def)
  then have rel: "releasable ?st bs s [] fl"
    unfolding releasable_def using r w2 s fl co
    by (intro conjI exI [of _ pv] exI [of _ nx]) (simp_all add: a_def coalesced_append)
  show "heap_ok (MarkFree a ?st) (release bs s [])" unfolding a_def by (rule MarkFree_ok(1) [OF rel, unfolded a_def])
  have "{heap_start + a ..< heap_start + a + 4} \<subseteq> ?S"
    "{heap_start + (a + 4 + s) ..< heap_start + (a + 4 + s) + 4} \<subseteq> ?S" using s by (auto simp: a_def)
  then have "frame ?S (hmem st) m2"
    unfolding m2 m1 by (intro frame_trans [OF frame_tag_writes(2) frame_tag_writes(2)])
  then have "frame ?S (hmem st) (hmem ?st)" by simp
  from frame_trans [OF this MarkFree_ok(2) [OF rel, folded a_def]]
  show "frame ?S (hmem st) (hmem (MarkFree a ?st))" .
qed

lemma InitMalloc_ok:
  assumes "heap_inv st []"
  shows "heap_inv (InitMalloc st) [(True, 4084)]"
    and "frame (owned 0 [(True, 4084)]) (hmem st) (hmem (InitMalloc st))"
proof -
  have h: "heap_ok st []" "allocated_size st = 0" "heap_size st = 0"
    using assms by (auto simp: heap_inv_def heap_ok_def heap_list_def)
  let ?m1 = "set_sz (GetMetaFieldFront 0) 4084 (hmem st)"
  let ?m2 = "set_sz (GetMetaFieldBackFromStart ?m1 0) (meta_sz ?m1 (GetMetaFieldFront 0)) ?m1"
  have eq: "InitMalloc st = MarkFree 0 (st\<lparr>heap_size := 4096, allocated_size := 0 + 8 + 4084, hmem := ?m2\<rparr>)"
    using h by (simp add: InitMalloc_def SysSbrk_def FOUR_KB_def META_BLOCK_SZ_def add64_id Let_def)
  note nb = new_block_ok [OF h(1), of 4084 4096]
  show "heap_inv (InitMalloc st) [(True, 4084)]" "frame (owned 0 [(True, 4084)]) (hmem st) (hmem (InitMalloc st))"
    using nb unfolding eq heap_inv_def by (simp_all add: release_def)
qed

definition needed_mem :: "nat \<Rightarrow> nat" where
  "needed_mem k = RoundUpToMultipleOfFourKb (k + 8)"

lemma grow_heap_ok:
  assumes h: "heap_inv st bs" and bs: "bs \<noteq> []" and k: "extent bs + k + 4104 \<le> 2147483648"
  defines "s \<equiv> needed_mem k - 8"
  shows "heap_inv (grow_heap k st) (release bs s [])"
    and "frame (owned 0 (bs @ [(True, s)])) (hmem st) (hmem (grow_heap k st))"
    and "k \<le> s"
proof -
  have n: "k + 8 \<le> needed_mem k" "needed_mem k < k + 8 + 4096" "needed_mem k mod 4096 = 0"
    using RoundUp_bounds(1-3) [of "k + 8"] k by (simp_all add: needed_mem_def)
  have ge: "16 \<le> needed_mem k"
  proof -
    have "0 < needed_mem k div 4096" using n(1,3) by (cases "needed_mem k div 4096") auto
    then show ?thesis by (auto simp: div_greater_zero_iff)
  qed
  have s: "8 \<le> s" "needed_mem k = s + 8" "extent bs + 8 + s < 2147483648"
    using n(1,2) k ge by (simp_all add: s_def)
  show "k \<le> s" using n by (simp add: s_def)
  have st: "heap_ok st bs" "heap_size st = extent bs + 4" "allocated_size st = extent bs"
    using h bs by (auto simp: heap_inv_def heap_ok_def heap_list_def)
  have need: "RoundUpToMultipleOfFourKb (add64 k META_BLOCK_SZ) = s + 8"
      "RoundUpToMultipleOfFourKb (s + 8) = s + 8"
    using k n(3) s(2) by (simp_all add: add64_id META_BLOCK_SZ_def needed_mem_def)
  have ex: "extent (release bs s []) = extent bs + 8 + s" using extent_release [of bs s "[]" True] by simp
  let ?hs = "extent bs + 4 + (s + 8)"
  note nb = new_block_ok [OF st(1) s(1,3), of ?hs]
  have eq: "grow_heap k st = MarkFree (extent bs) (st\<lparr>heap_size := ?hs,
      allocated_size := extent bs + 8 + s, hmem := set_sz (GetMetaFieldBackFromStart
      (set_sz (GetMetaFieldFront (extent bs)) s (hmem st)) (extent bs))
      (meta_sz (set_sz (GetMetaFieldFront (extent bs)) s (hmem st)) (GetMetaFieldFront (extent bs)))
      (set_sz (GetMetaFieldFront (extent bs)) s (hmem st))\<rparr>)"
    using s st need by (simp add: grow_heap_def SysSbrk_def META_BLOCK_SZ_def add64_id sub64_id Let_def ac_simps)
  show "heap_inv (grow_heap k st) (release bs s [])"
    using nb(1) ex unfolding heap_inv_def eq by simp
  show "frame (owned 0 (bs @ [(True, s)])) (hmem st) (hmem (grow_heap k st))"
    using nb(2) unfolding eq .
qed

section \<open>malloc and free\<close>

definition reach_set :: "block list \<Rightarrow> nat set" where
  \<comment> \<open>what an operation on this heap may write: owned words, and memory past the heap's end\<close>
  "reach_set bs = owned 0 bs \<union> {heap_start + extent bs ..}"

lemma owned_from: "owned a bs \<subseteq> {heap_start + a ..}"
  by (induction bs rule: owned.induct [where ?P = "\<lambda>a bs. owned a bs \<subseteq> {heap_start + a ..}" and ?a0.0 = a])
    (auto simp: subset_iff)

lemma heap_inv_facts:
  assumes "heap_inv st bs"
  shows "allocated_size st = extent bs" "extent bs < 2147483648" "heap_ok st bs"
    "allocated_size st = 0 \<longleftrightarrow> bs = []"
  using assms by (cases bs; auto simp: heap_inv_def heap_ok_def heap_list_def)+

lemma take_inv:
  assumes "heap_inv st (L @ (True, s) # R)" "8 \<le> k" "k \<le> s"
  shows "heap_inv (MarkOccupied (extent L) (SplitFreeBlock (extent L) k st)) (carve L s R k)"
    "frame (owned 0 (L @ (True, s) # R)) (hmem st)
       (hmem (MarkOccupied (extent L) (SplitFreeBlock (extent L) k st)))"
proof -
  have h: "heap_ok st (L @ (True, s) # R)" "coalesced (L @ (True, s) # R)"
    using assms(1) by (auto simp: heap_inv_def heap_ok_def)
  have "carve L s R k \<noteq> []" by (simp add: carve_def)
  then show "heap_inv (MarkOccupied (extent L) (SplitFreeBlock (extent L) k st)) (carve L s R k)"
    using take_block_ok(1,3) [OF h(1) assms(2,3)] carve_facts(2) [OF h(2) assms(3)] assms(1)
    by (simp add: heap_inv_def)
  show "frame (owned 0 (L @ (True, s) # R)) (hmem st)
       (hmem (MarkOccupied (extent L) (SplitFreeBlock (extent L) k st)))"
    by (rule take_block_ok(2) [OF h(1) assms(2,3)])
qed

lemma user_ptr: "a + 8 < 2147483648 \<Longrightarrow> add64 (add64 heap_start a) 4 = heap_start + a + 4"
  using heap_start_lt by (simp add: add64_id)

text \<open>The allocation from an initialised heap.\<close>

lemma malloc_initialised:
  assumes h: "heap_inv st bs" and bs: "bs \<noteq> []" and n: "0 < n" "extent bs + n + 4112 \<le> 2147483648"
  obtains a st' bs' s X Y where "malloc n st = Some (heap_start + a + 4, st')" "heap_inv st' bs'"
    "n \<le> s" "used_blocks 0 bs = X @ Y" "used_blocks 0 bs' = X @ (a, s) # Y"
    "frame (reach_set bs) (hmem st) (hmem st')" "extent bs' \<le> extent bs + n + 4112"
proof -
  define k where "k = RoundUpToMultipleOf8 n"
  have k: "n \<le> k" "k < n + 8" "k mod 8 = 0"
    using RoundUp_bounds(4-6) [of n] n(2) by (simp_all add: k_def)
  have k8: "8 \<le> k" using k n(1) by (cases "k div 8") (auto simp: div_eq_0_iff)
  have al: "allocated_size st \<noteq> 0" using heap_inv_facts(4) [OF h] bs by simp
  from heap_inv_facts(3) [OF h] show thesis
  proof (cases rule: FindFreeBlock_ok [where k = k])
    case (some L s R)
    have a: "extent L + 8 < 2147483648" using heap_inv_facts(2) [OF h] some(2) by simp
    have co: "coalesced (L @ (True, s) # R)"
      using heap_inv_facts(3) [OF h] some(2) by (auto simp: heap_ok_def)
    note tk = take_inv [OF h [unfolded some(2)] k8 some(3)]
    obtain s' where s': "k \<le> s'" "used_blocks 0 (carve L s R k)
        = used_blocks 0 L @ (extent L, s') # used_blocks (extent L + 8 + s) R"
      using carve_facts(3) [OF co some(3)] by blast
    have eq: "malloc n st = Some (heap_start + extent L + 4,
        MarkOccupied (extent L) (SplitFreeBlock (extent L) k st))"
      using n(1) al some(1) a user_ptr [OF a]
      by (simp add: malloc_def k_def s32_small u64_of_int_nat Let_def)
    show thesis
      by (rule that [OF eq tk(1) _ _ s'(2)])
        (use k(1) s'(1) some(2) tk(2) carve_facts(2) [OF co some(3)]
          in \<open>auto simp: reach_set_def intro: frame_mono\<close>)
  next
    case none
    define s where "s = needed_mem k - 8"
    have "extent bs + k + 4104 \<le> 2147483648" using n(2) k(2) by simp
    note gr = grow_heap_ok [OF h bs this, folded s_def]
    obtain L s2 where l: "absorb_left bs s = (L, s2)" by (cases "absorb_left bs s")
    have rel: "release bs s [] = L @ [(True, s2)]" by (simp add: release_def l)
    have s2: "k \<le> s2"
      using gr(3) l by (cases bs rule: rev_cases) (auto simp: absorb_left_def split: bool.splits)
    let ?st1 = "grow_heap k st"
    note h1 = gr(1) [unfolded rel]
    have e1: "allocated_size ?st1 = extent L + 8 + s2" "extent L + 8 + s2 < 2147483648"
      using heap_inv_facts(1,2) [OF h1] by simp_all
    have blk: "is_block (hmem ?st1) (extent L) True s2"
    proof -
      obtain fl where "heap_list (owned 0 (L @ [(True, s2)])) ?st1 (L @ [(True, s2)]) fl"
        using heap_inv_facts(3) [OF h1] by (auto simp: heap_ok_def)
      then show ?thesis by (rule is_block_at) simp
    qed
    have mb: "meta_sz (hmem ?st1) (GetMetaFieldBack (extent L + 4 + s2)) = s2"
      using back_word(1) [OF blk] back_addr [OF blk] blk
      by (simp add: GetMetaFieldBack_def is_block_def)
    have sb: "sub64 (extent L + 8 + s2) 4 = extent L + 4 + s2"
        "sub64 (extent L + 8 + s2) META_BLOCK_SZ = extent L + s2" "sub64 (extent L + s2) s2 = extent L"
      using e1(2) by (simp_all add: META_BLOCK_SZ_def sub64_id)
    have nf: "sub64 (sub64 (allocated_size ?st1) META_BLOCK_SZ)
        (meta_sz (hmem ?st1) (GetMetaFieldBack (sub64 (allocated_size ?st1) 4))) = extent L"
      unfolding e1(1) sb mb ..
    have a: "extent L + 8 < 2147483648" using e1 by simp
    note tk = take_inv [OF h1 k8 s2]
    have co: "coalesced (L @ (True, s2) # [])" using heap_inv_facts(3) [OF h1] by (simp add: heap_ok_def)
    obtain s' where s': "k \<le> s'" "used_blocks 0 (carve L s2 [] k) = used_blocks 0 L @ (extent L, s') # []"
      using carve_facts(3) [OF co s2] by auto
    have u: "used_blocks 0 bs = used_blocks 0 L @ []"
      using used_blocks_release [of bs s "[]"] unfolding rel by simp
    have eq: "malloc n st = Some (heap_start + extent L + 4,
        MarkOccupied (extent L) (SplitFreeBlock (extent L) k ?st1))"
      using n(1) al none(1) user_ptr [OF a] nf
      by (simp add: malloc_def k_def [symmetric] Let_def)
    have "owned 0 (bs @ [(True, s)]) \<subseteq> reach_set bs" by (auto simp: reach_set_def)
    moreover have "owned 0 (L @ [(True, s2)]) = owned 0 (bs @ [(True, s)])"
      using l by (cases bs rule: rev_cases) (auto simp: absorb_left_def owned_two_free split: bool.splits)
    ultimately have "frame (reach_set bs) (hmem st) (hmem (MarkOccupied (extent L) (SplitFreeBlock (extent L) k ?st1)))"
      using frame_trans [OF gr(2) [THEN frame_mono] tk(2) [THEN frame_mono]] by simp
    moreover have "extent (carve L s2 [] k) \<le> extent bs + n + 4112"
    proof -
      have "needed_mem k < k + 8 + 4096"
        using RoundUp_bounds(2) [of "k + 8"] n(2) k(2) by (simp add: needed_mem_def)
      then show ?thesis
        using carve_facts(2) [OF co s2] extent_release [of bs s "[]" True] rel k(2)
        by (simp add: s_def)
    qed
    ultimately show thesis
      using that [OF eq tk(1) _ u s'(2)] k(1) s'(1) by simp
  qed
qed

lemma malloc_after_init:
  assumes "heap_inv st []" "0 < n"
  shows "malloc n st = malloc n (InitMalloc st)"
proof -
  have "allocated_size st = 0" "allocated_size (InitMalloc st) \<noteq> 0"
    using heap_inv_facts [OF assms(1)] heap_inv_facts [OF InitMalloc_ok(1) [OF assms(1)]] by auto
  then show ?thesis using assms(2) by (simp add: malloc_def)
qed

lemma malloc_ok:
  assumes h: "heap_inv st bs" and n: "0 < n" "extent bs + n + 8204 \<le> 2147483648"
  obtains a st' bs' s X Y where "malloc n st = Some (heap_start + a + 4, st')" "heap_inv st' bs'"
    "n \<le> s" "used_blocks 0 bs = X @ Y" "used_blocks 0 bs' = X @ (a, s) # Y"
    "frame (reach_set bs) (hmem st) (hmem st')" "extent bs' \<le> extent bs + n + 8204"
proof (cases "bs = []")
  case True
  let ?b = "[(True, 4084)]" and ?st = "InitMalloc st"
  note h1 = InitMalloc_ok [OF h [unfolded True]]
  have e: "?b \<noteq> []" "extent ?b + n + 4112 \<le> 2147483648" using n(2) True by simp_all
  have f: "frame (reach_set bs) (hmem st) (hmem ?st)" "reach_set ?b \<subseteq> reach_set bs"
    by (rule frame_mono [OF h1(2)]) (auto simp: True reach_set_def)
  show thesis
  proof (rule malloc_initialised [OF h1(1) e(1) n(1) e(2)])
    fix a st' bs' s X Y
    assume *: "malloc n ?st = Some (heap_start + a + 4, st')" "heap_inv st' bs'" "n \<le> s"
      "used_blocks 0 ?b = X @ Y" "used_blocks 0 bs' = X @ (a, s) # Y"
      "frame (reach_set ?b) (hmem ?st) (hmem st')" "extent bs' \<le> extent ?b + n + 4112"
    have "malloc n st = Some (heap_start + a + 4, st')"
      using malloc_after_init [OF h [unfolded True] n(1)] *(1) by simp
    moreover have "used_blocks 0 bs = X @ Y" using *(4) True by simp
    moreover have "frame (reach_set bs) (hmem st) (hmem st')"
      using frame_trans [OF f(1) frame_mono [OF *(6) f(2)]] .
    moreover have "extent bs' \<le> extent bs + n + 8204" using *(7) True by simp
    ultimately show thesis using that *(2,3,5) by blast
  qed
next
  case False
  have e: "extent bs + n + 4112 \<le> 2147483648" using n(2) by simp
  show thesis by (rule malloc_initialised [OF h False n(1) e]) (rule that, assumption+, simp)
qed

lemma free_offset:
  "a + 8 < 2147483648 \<Longrightarrow> sub64 (sub64 (heap_start + a + 4) heap_start) 4 = a"
  using heap_start_lt by (simp add: sub64_id)

lemma free_ok:
  assumes h: "heap_inv st bs" and u: "(a, s) \<in> set (used_blocks 0 bs)"
  obtains bs' X Y where "heap_inv (free (heap_start + a + 4) st) bs'"
    "used_blocks 0 bs = X @ (a, s) # Y" "used_blocks 0 bs' = X @ Y"
    "frame (reach_set bs \<union> {heap_start + a + 4 ..< heap_start + a + 4 + s}) (hmem st)
       (hmem (free (heap_start + a + 4) st))" "extent bs' = extent bs"
proof -
  obtain L R where bs: "bs = L @ (False, s) # R" "a = extent L"
    using u used_blocks_blk by (auto simp: blk_def)
  have a: "a + 8 < 2147483648" using heap_inv_facts(2) [OF h] bs by simp
  have eq: "free (heap_start + a + 4) st = MarkFree a st" using a by (simp add: free_def free_offset)
  note mf = MarkFree_used [OF heap_inv_facts(3) [OF h, unfolded bs(1)], folded bs(2)]
  have x: "extent (release L s R) = extent bs" by (simp add: bs(1) extent_release [of L s R False])
  have "heap_inv (free (heap_start + a + 4) st) (release L s R)"
    using mf(1) h x bs(1) by (simp add: heap_inv_def eq)
  moreover have "owned 0 (L @ (True, s) # R)
      \<subseteq> reach_set bs \<union> {heap_start + a + 4 ..< heap_start + a + 4 + s}"
    by (auto simp: reach_set_def bs)
  ultimately show thesis
    using that [of "release L s R" "used_blocks 0 L" "used_blocks (a + 8 + s) R"]
      frame_mono [OF mf(2)] x unfolding eq by (simp add: bs)
qed

section \<open>Writes by the program, and the walk over the blocks\<close>

lemma reps_payload:
  assumes "reps m 0 bs pv nx" "blk bs a f s" "heap_start + a + 4 \<le> x" "x < heap_start + a + 4 + s"
  shows "\<exists>p q. reps (m(x := v)) 0 bs (pv(a := p)) (nx(a := q))"
proof -
  obtain L R where bs: "bs = L @ (f, s) # R" "a = extent L" using assms(2) by (auto simp: blk_def)
  let ?m = "m(x := v)"
  have r: "reps m 0 L pv nx" "reps m (a + 8 + s) R pv nx" "8 \<le> s"
    "word_at m a = tag_of f s" "word_at m (a + 4 + s) = tag_of f s"
    using assms(1) by (simp_all add: bs reps_append)
  have "reps ?m 0 L (pv(a := p)) (nx(a := q))" "reps ?m (a + 8 + s) R (pv(a := p)) (nx(a := q))" for p q
    using r(1,2) reps_cong [of 0 L ?m m "pv(a := p)" pv "nx(a := q)" nx]
      reps_cong [of "a + 8 + s" R ?m m "pv(a := p)" pv "nx(a := q)" nx] assms(3,4) by (auto simp: bs(2))
  moreover have "word_at ?m a = tag_of f s" "word_at ?m (a + 4 + s) = tag_of f s"
    using r(4,5) assms(3,4) by (simp_all add: word_at_def rd32_def)
  ultimately have "reps ?m 0 bs (pv(a := word_at ?m (a + s - 4))) (nx(a := word_at ?m (a + s)))"
    using r(3) by (simp add: bs reps_append)
  then show ?thesis by blast
qed

lemma heap_inv_write:
  assumes h: "heap_inv st bs" and u: "(a, s) \<in> set (used_blocks 0 bs)"
    and x: "heap_start + a + 4 \<le> x" "x < heap_start + a + 4 + s"
  shows "heap_inv (st\<lparr>hmem := (hmem st)(x := v)\<rparr>) bs"
proof -
  have b: "blk bs a False s" using u used_blocks_blk by blast
  obtain fl where hl: "heap_list (owned 0 bs) st bs fl" and fl: "set fl = set (free_offs 0 bs)"
    and co: "coalesced bs" using heap_inv_facts(3) [OF h] by (auto simp: heap_ok_def)
  obtain pv nx where r: "reps (hmem st) 0 bs pv nx" and d: "dll pv nx END_OF_LIST fl END_OF_LIST"
    and l: "distinct fl" "nodes (owned 0 bs) bs fl" "free_block_list_start st = hd_or END_OF_LIST fl"
      "allocated_size st = extent bs" "extent bs < 2147483648"
    using hl by (rule heap_listE)
  have a: "a \<notin> set fl"
  proof
    assume "a \<in> set fl"
    then obtain t where "blk bs a True t" using fl free_offs_blk by blast
    from is_block_at [OF hl this] is_block_at [OF hl b] show False
      by (auto simp: is_block_def tag_of_def) presburger
  qed
  obtain p q where r': "reps ((hmem st)(x := v)) 0 bs (pv(a := p)) (nx(a := q))"
    using reps_payload [OF r b x] by blast
  have "heap_list (owned 0 bs) (st\<lparr>hmem := (hmem st)(x := v)\<rparr>) bs fl"
    by (rule heap_listI [of _ _ "pv(a := p)" "nx(a := q)"]) (use r' d a l in simp_all)
  then show ?thesis using fl co h by (auto simp: heap_inv_def heap_ok_def)
qed

lemma sanity_check_suffix:
  assumes "bs = L @ R" "\<And>a f s. blk bs a f s \<Longrightarrow> is_block (hmem st) a f s"
    "allocated_size st = extent bs" "extent bs < 2147483648"
  shows "sanity_check_from st (extent L) = Some True"
  using assms(1)
proof (induction R arbitrary: L)
  case Nil
  then show ?case using assms(3) by (subst sanity_check_from.simps) simp
next
  case (Cons c R)
  obtain f s where c: "c = (f, s)" by (cases c)
  have b: "is_block (hmem st) (extent L) f s" by (rule assms(2)) (simp add: Cons.prems c)
  have "add64 (extent L) (add64 s META_BLOCK_SZ) = extent (L @ [c])"
    using b by (simp add: c is_block_def add64_id META_BLOCK_SZ_def)
  moreover have "sanity_check_from st (extent (L @ [c])) = Some True"
    by (rule Cons.IH) (simp add: Cons.prems)
  ultimately show ?case
    using assms(3) Cons.prems c
    by (subst sanity_check_from.simps) (simp add: front_word [OF b] back_word [OF b] Let_def)
qed

lemma sanity_check_ok:
  assumes "heap_inv st bs"
  shows "malloc_sanity_check st = Some True"
proof -
  obtain fl where hl: "heap_list (owned 0 bs) st bs fl"
    using heap_inv_facts(3) [OF assms] by (auto simp: heap_ok_def)
  show ?thesis
    unfolding malloc_sanity_check_def
    using sanity_check_suffix [of bs "[]" bs st] is_block_at [OF hl] heap_inv_facts(1,2) [OF assms] by simp
qed

end
