(* ===== verification/Allocator.thy ===== *)
theory Allocator
  imports Prelude
begin

text \<open>
  The contract between an allocator and the code that calls it, as an interface: what an
  allocation returns, what a release gives back, and which bytes stay as they were. The
  user-space heap is an instance. The lemmas are about any sequence of correct
  calls: \<open>tracks holds h live\<close> relates the allocator's state to the list of pointers the
  caller still has, with the size it asked for.
\<close>

definition same_bytes :: "(nat \<Rightarrow> 8 word) \<Rightarrow> (nat \<Rightarrow> 8 word) \<Rightarrow> (nat \<times> nat) set \<Rightarrow> bool" where
  "same_bytes m m' B \<longleftrightarrow> (\<forall>q k i. (q, k) \<in> B \<longrightarrow> i < k \<longrightarrow> m' (q + i) = m (q + i))"

definition apart :: "nat \<times> nat \<Rightarrow> nat \<times> nat \<Rightarrow> bool" where
  "apart b c \<longleftrightarrow> fst b + snd b \<le> fst c \<or> fst c + snd c \<le> fst b"

definition tracks :: "('h \<Rightarrow> (nat \<times> nat) set \<Rightarrow> bool) \<Rightarrow> 'h \<Rightarrow> (nat \<times> nat) list \<Rightarrow> bool" where
  "tracks holds h live \<longleftrightarrow>
     (\<exists>B. holds h B \<and> distinct (map fst live) \<and> fst ` set live = fst ` B
          \<and> (\<forall>p n. (p, n) \<in> set live \<longrightarrow> 0 < n \<and> (\<exists>s. n \<le> s \<and> (p, s) \<in> B)))"

lemma tracksE:
  assumes "tracks holds h live"
  obtains B where "holds h B" "distinct (map fst live)" "fst ` set live = fst ` B"
    "\<And>p n. (p, n) \<in> set live \<Longrightarrow> 0 < n \<and> (\<exists>s. n \<le> s \<and> (p, s) \<in> B)"
  using assms unfolding tracks_def by blast

lemma tracksI:
  assumes "holds h B" "distinct (map fst live)" "fst ` set live = fst ` B"
    "\<And>p n. (p, n) \<in> set live \<Longrightarrow> 0 < n \<and> (\<exists>s. n \<le> s \<and> (p, s) \<in> B)"
  shows "tracks holds h live"
  using assms unfolding tracks_def by blast

lemma same_bytes_mono: "same_bytes m m' B \<Longrightarrow> C \<subseteq> B \<Longrightarrow> same_bytes m m' C"
  by (auto simp: same_bytes_def)

lemma same_bytes_refl [simp]: "same_bytes m m B"
  by (auto simp: same_bytes_def)

lemma same_bytes_trans: "same_bytes m m1 B \<Longrightarrow> same_bytes m1 m2 B \<Longrightarrow> same_bytes m m2 B"
  by (auto simp: same_bytes_def)

lemma same_bytes_shrink:
  assumes "same_bytes m m' B" "\<And>p n. (p, n) \<in> C \<Longrightarrow> \<exists>s\<ge>n. (p, s) \<in> B"
  shows "same_bytes m m' C"
  using assms unfolding same_bytes_def by fastforce

locale allocator =
  fixes alloc :: "nat \<Rightarrow> 'h \<Rightarrow> (nat \<times> 'h) option"
    and dealloc :: "nat \<Rightarrow> 'h \<Rightarrow> 'h"
    and byte :: "'h \<Rightarrow> nat \<Rightarrow> 8 word"
    and store :: "nat \<Rightarrow> 8 word \<Rightarrow> 'h \<Rightarrow> 'h"
    and holds :: "'h \<Rightarrow> (nat \<times> nat) set \<Rightarrow> bool"
    and room :: "nat \<Rightarrow> 'h \<Rightarrow> bool"
  assumes alloc_law: "holds h B \<Longrightarrow> 0 < n \<Longrightarrow> room n h \<Longrightarrow>
      \<exists>p s h'. alloc n h = Some (p, h') \<and> holds h' (insert (p, s) B) \<and> n \<le> s \<and> p \<notin> fst ` B
        \<and> same_bytes (byte h) (byte h') B"
    and dealloc_law: "holds h B \<Longrightarrow> (p, s) \<in> B \<Longrightarrow>
      holds (dealloc p h) (B - {(p, s)}) \<and> same_bytes (byte h) (byte (dealloc p h)) (B - {(p, s)})"
    and store_law: "holds h B \<Longrightarrow> (p, s) \<in> B \<Longrightarrow> i < s \<Longrightarrow> holds (store (p + i) v h) B"
    and apart_law: "holds h B \<Longrightarrow> b \<in> B \<Longrightarrow> c \<in> B \<Longrightarrow> b \<noteq> c \<Longrightarrow> apart b c \<and> fst b \<noteq> fst c"
begin

lemma tracks_start: "holds h {} \<Longrightarrow> tracks holds h []"
  by (auto simp: tracks_def)

lemma tracks_apart:
  assumes "tracks holds h live" "(p, n) \<in> set live" "(q, k) \<in> set live" "(p, n) \<noteq> (q, k)"
  shows "apart (p, n) (q, k)"
proof -
  obtain B where B: "holds h B" "distinct (map fst live)" "fst ` set live = fst ` B"
    and l: "\<And>p n. (p, n) \<in> set live \<Longrightarrow> 0 < n \<and> (\<exists>s. n \<le> s \<and> (p, s) \<in> B)"
    using assms(1) by (rule tracksE) (rule that)
  obtain s t where st: "n \<le> s" "(p, s) \<in> B" "k \<le> t" "(q, t) \<in> B"
    using l [OF assms(2)] l [OF assms(3)] by blast
  have "p \<noteq> q" using assms(2-4) B(2) by (metis eq_key_imp_eq_value)
  then have "apart (p, s) (q, t)" using apart_law [OF B(1) st(2,4)] by auto
  then show ?thesis using st by (auto simp: apart_def)
qed

lemma tracks_alloc:
  assumes "tracks holds h live" "0 < n" "room n h"
  shows "\<exists>p h'. alloc n h = Some (p, h') \<and> tracks holds h' ((p, n) # live)
           \<and> same_bytes (byte h) (byte h') (set live)"
proof -
  obtain B where B: "holds h B" "distinct (map fst live)" "fst ` set live = fst ` B"
    and l: "\<And>p n. (p, n) \<in> set live \<Longrightarrow> 0 < n \<and> (\<exists>s. n \<le> s \<and> (p, s) \<in> B)"
    using assms(1) by (rule tracksE) (rule that)
  obtain p s h' where a: "alloc n h = Some (p, h')" "holds h' (insert (p, s) B)" "n \<le> s"
    "p \<notin> fst ` B" "same_bytes (byte h) (byte h') B"
    using alloc_law [OF B(1) assms(2,3)] by blast
  have "tracks holds h' ((p, n) # live)"
    by (rule tracksI [where B = "insert (p, s) B"]) (use a B assms(2) l in \<open>auto dest!: l\<close>)
  moreover have "same_bytes (byte h) (byte h') (set live)"
    by (rule same_bytes_shrink [OF a(5)]) (auto dest!: l)
  ultimately show ?thesis using a(1) by blast
qed

lemma tracks_dealloc:
  assumes "tracks holds h live" "(p, n) \<in> set live"
  shows "tracks holds (dealloc p h) (remove1 (p, n) live)"
    "same_bytes (byte h) (byte (dealloc p h)) (set live - {(p, n)})"
proof -
  obtain B where B: "holds h B" "distinct (map fst live)" "fst ` set live = fst ` B"
    and l: "\<And>p n. (p, n) \<in> set live \<Longrightarrow> 0 < n \<and> (\<exists>s. n \<le> s \<and> (p, s) \<in> B)"
    using assms(1) by (rule tracksE) (rule that)
  obtain s where s: "(p, s) \<in> B" "n \<le> s" using l assms(2) by blast
  note d = dealloc_law [OF B(1) s(1)]
  have dl: "distinct live" using B(2) by (simp add: distinct_map)
  have key: "q \<noteq> p" if "(q, k) \<in> set live - {(p, n)}" for q k
    using that assms(2) B(2) by (metis Diff_iff eq_key_imp_eq_value insertI1)
  have sub: "\<exists>s. k \<le> s \<and> (q, s) \<in> B - {(p, s')}" if "(q, k) \<in> set live - {(p, n)}" for q k s'
  proof -
    have "(q, k) \<in> set live" using that by simp
    then obtain t where "k \<le> t" "(q, t) \<in> B" using l by blast
    moreover have "(q, t) \<noteq> (p, s')" using key [OF that] by simp
    ultimately show ?thesis by blast
  qed
  have uniq: "c = (p, s)" if "c \<in> B" "fst c = p" for c
    using apart_law [OF B(1) that(1) s(1)] that(2) by auto
  have "fst ` (set live - {(p, n)}) = fst ` (B - {(p, s)})"
  proof
    show "fst ` (set live - {(p, n)}) \<subseteq> fst ` (B - {(p, s)})"
    proof
      fix q assume "q \<in> fst ` (set live - {(p, n)})"
      then obtain k where "(q, k) \<in> set live - {(p, n)}" by force
      then obtain t where "(q, t) \<in> B - {(p, s)}" using sub by blast
      then show "q \<in> fst ` (B - {(p, s)})" by (metis fst_conv image_eqI)
    qed
    show "fst ` (B - {(p, s)}) \<subseteq> fst ` (set live - {(p, n)})"
    proof
      fix q assume "q \<in> fst ` (B - {(p, s)})"
      then obtain c where c: "c \<in> B" "c \<noteq> (p, s)" "q = fst c" by auto
      then obtain k where "(q, k) \<in> set live" using B(3) by (metis imageE imageI prod.collapse)
      moreover have "q \<noteq> p" using uniq [OF c(1)] c(2,3) by blast
      ultimately show "q \<in> fst ` (set live - {(p, n)})" by force
    qed
  qed
  moreover have "distinct (map fst (remove1 (p, n) live))"
    using B(2) by (simp add: distinct_map distinct_remove1 inj_on_diff dl set_remove1_eq)
  ultimately show "tracks holds (dealloc p h) (remove1 (p, n) live)"
    by (intro tracksI [where B = "B - {(p, s)}"]) (use d sub l dl in \<open>auto simp: set_remove1_eq\<close>)
  show "same_bytes (byte h) (byte (dealloc p h)) (set live - {(p, n)})"
    by (rule same_bytes_shrink [OF conjunct2 [OF d]]) (use sub in blast)
qed

lemma tracks_store:
  assumes "tracks holds h live" "(p, n) \<in> set live" "i < n"
  shows "tracks holds (store (p + i) v h) live"
proof -
  obtain B where B: "holds h B" "distinct (map fst live)" "fst ` set live = fst ` B"
    and l: "\<And>p n. (p, n) \<in> set live \<Longrightarrow> 0 < n \<and> (\<exists>s. n \<le> s \<and> (p, s) \<in> B)"
    using assms(1) by (rule tracksE) (rule that)
  obtain s where s: "(p, s) \<in> B" "n \<le> s" using l assms(2) by blast
  have "holds (store (p + i) v h) B" by (rule store_law [OF B(1) s(1)]) (use s(2) assms(3) in simp)
  then show ?thesis by (rule tracksI [OF _ B(2,3) l])
qed

lemma tracks_resize:
  assumes "tracks holds h live" "(p, n) \<in> set live" "0 < k"
    and cap: "\<And>B s. holds h B \<Longrightarrow> (p, s) \<in> B \<Longrightarrow> k \<le> s"
  shows "tracks holds h ((p, k) # remove1 (p, n) live)"
proof -
  obtain B where B: "holds h B" "distinct (map fst live)" "fst ` set live = fst ` B"
    and l: "\<And>p n. (p, n) \<in> set live \<Longrightarrow> 0 < n \<and> (\<exists>s. n \<le> s \<and> (p, s) \<in> B)"
    using assms(1) by (rule tracksE) (rule that)
  have dl: "distinct live" using B(2) by (simp add: distinct_map)
  obtain s where s: "(p, s) \<in> B" using l assms(2) by blast
  have m: "map fst (remove1 (p, n) live) = remove1 p (map fst live)"
    using assms(2) B(2)
  proof (induction live)
    case (Cons c live)
    then show ?case by (cases "c = (p, n)") (auto simp: image_iff)
  qed simp
  have "fst ` set ((p, k) # remove1 (p, n) live) = fst ` set live"
    using assms(2) dl by (force simp: set_remove1_eq)
  moreover have "distinct (map fst ((p, k) # remove1 (p, n) live))"
    using B(2) by (simp add: m flip: set_map)
  ultimately show ?thesis
    by (intro tracksI [where B = B]) (use B(1,3) l s cap [OF B(1) s] assms(3) dl in \<open>auto simp: set_remove1_eq\<close>)
qed

end

end
