(* ===== verification/MallocClient.thy ===== *)
theory MallocClient
  imports MallocOps Allocator
begin

text \<open>
  Programs that use the heap of \<open>user/libc/malloc.c\<close>: every sequence of \<open>malloc\<close>,
  \<open>calloc\<close>, \<open>realloc\<close>, \<open>free\<close> of a pointer the program holds, and stores inside the bytes
  it asked for. The heap instantiates the allocator interface, and the properties are
  about every reachable state. \<open>heap_room\<close> is the limit of the design, the 31 bit size
  field and the \<open>int\<close> offset of \<open>malloc\<close>: the heap stays below 2 GB.
\<close>

definition heap_room :: "nat \<Rightarrow> heap \<Rightarrow> bool" where
  "heap_room n h \<longleftrightarrow> allocated_size h + n + 8204 \<le> 2147483648"

definition store_byte :: "nat \<Rightarrow> 8 word \<Rightarrow> heap \<Rightarrow> heap" where
  "store_byte x v h = h\<lparr>hmem := (hmem h)(x := v)\<rparr>"

definition user_block :: "nat \<times> nat \<Rightarrow> nat \<times> nat" where
  "user_block b = (heap_start + fst b + 4, snd b)"

definition user_holds :: "heap \<Rightarrow> (nat \<times> nat) set \<Rightarrow> bool" where
  "user_holds h B \<longleftrightarrow> (\<exists>bs. heap_inv h bs \<and> B = user_block ` set (used_blocks 0 bs))"

inductive heap_step :: "heap \<times> (nat \<times> nat) list \<Rightarrow> heap \<times> (nat \<times> nat) list \<Rightarrow> bool" where
  do_malloc: "0 < n \<Longrightarrow> heap_room n h \<Longrightarrow> malloc n h = Some (p, h') \<Longrightarrow>
    heap_step (h, live) (h', (p, n) # live)"
| do_calloc: "0 < num * sz \<Longrightarrow> heap_room (num * sz) h \<Longrightarrow> calloc num sz h = Some (p, h') \<Longrightarrow>
    heap_step (h, live) (h', (p, num * sz) # live)"
| do_realloc: "(p, n) \<in> set live \<Longrightarrow> 0 < k \<Longrightarrow> heap_room k h \<Longrightarrow> realloc p k h = Some (q, h') \<Longrightarrow>
    heap_step (h, live) (h', (q, k) # remove1 (p, n) live)"
| do_free: "(p, n) \<in> set live \<Longrightarrow> heap_step (h, live) (free p h, remove1 (p, n) live)"
| do_store: "(p, n) \<in> set live \<Longrightarrow> i < n \<Longrightarrow> heap_step (h, live) (store_byte (p + i) v h, live)"

definition heap_reachable :: "heap \<Rightarrow> (nat \<times> nat) list \<Rightarrow> bool" where
  "heap_reachable h live \<longleftrightarrow> (\<exists>m. heap_step\<^sup>*\<^sup>* (init_heap m, []) (h, live))"

section \<open>The heap is an allocator\<close>

lemma payload_outside:
  assumes "(a, s) \<in> set (used_blocks 0 bs)" "i < s"
  shows "heap_start + a + 4 + i \<notin> reach_set bs"
proof -
  obtain L R where bs: "bs = L @ (False, s) # R" "a = extent L"
    using assms(1) used_blocks_blk by (auto simp: blk_def)
  have l: "x \<notin> owned b xs" if "heap_start + b + extent xs \<le> x" for x b xs
    using that by (induction xs arbitrary: b) (auto split: if_splits)
  have "heap_start + a + 4 + i \<notin> owned 0 L" by (rule l) (simp add: bs)
  moreover have "heap_start + a + 4 + i \<notin> owned (a + 8 + s) R"
    using owned_from [of "a + 8 + s" R] assms(2) by (auto simp: subset_iff)
  ultimately show ?thesis using assms(2) by (auto simp: reach_set_def bs)
qed

lemma frame_same_bytes:
  assumes "frame (reach_set bs) m m'"
  shows "same_bytes m m' (user_block ` set (used_blocks 0 bs))"
  unfolding same_bytes_def
proof (intro allI impI)
  fix q k i assume "(q, k) \<in> user_block ` set (used_blocks 0 bs)" "i < k"
  then obtain a where "(a, k) \<in> set (used_blocks 0 bs)" "q = heap_start + a + 4"
    by (auto simp: user_block_def)
  then show "m' (q + i) = m (q + i)"
    using payload_outside [of a k bs i] \<open>i < k\<close> assms by (simp add: frame_def)
qed

lemma user_block_inj: "user_block b = user_block c \<longleftrightarrow> b = c"
  by (cases b; cases c) (auto simp: user_block_def)

lemma heap_alloc_law:
  assumes "user_holds h B" "0 < n" "heap_room n h"
  shows "\<exists>p s h'. malloc n h = Some (p, h') \<and> user_holds h' (insert (p, s) B) \<and> n \<le> s
           \<and> p \<notin> fst ` B \<and> same_bytes (hmem h) (hmem h') B"
proof -
  obtain bs where bs: "heap_inv h bs" "B = user_block ` set (used_blocks 0 bs)"
    using assms(1) by (auto simp: user_holds_def)
  have room: "extent bs + n + 8204 \<le> 2147483648"
    using assms(3) heap_inv_facts(1) [OF bs(1)] by (simp add: heap_room_def)
  obtain a st' bs' s X Y where m: "malloc n h = Some (heap_start + a + 4, st')" "heap_inv st' bs'"
    "n \<le> s" "used_blocks 0 bs = X @ Y" "used_blocks 0 bs' = X @ (a, s) # Y"
    "frame (reach_set bs) (hmem h) (hmem st')"
    by (rule malloc_ok [OF bs(1) assms(2) room])
  have "user_holds st' (insert (heap_start + a + 4, s) B)"
    unfolding user_holds_def
    by (rule exI [of _ bs']) (use m in \<open>auto simp: bs(2) user_block_def\<close>)
  moreover have "heap_start + a + 4 \<notin> fst ` B"
    using used_blocks_distinct [of 0 bs'] m(4,5)
    by (auto simp: bs(2) user_block_def image_iff)
  ultimately show ?thesis using m(1,3) frame_same_bytes [OF m(6)] bs(2) by blast
qed

lemma heap_dealloc_law:
  assumes "user_holds h B" "(p, s) \<in> B"
  shows "user_holds (free p h) (B - {(p, s)})
    \<and> same_bytes (hmem h) (hmem (free p h)) (B - {(p, s)})"
proof -
  obtain bs where bs: "heap_inv h bs" "B = user_block ` set (used_blocks 0 bs)"
    using assms(1) by (auto simp: user_holds_def)
  obtain a where a: "(a, s) \<in> set (used_blocks 0 bs)" "p = heap_start + a + 4"
    using assms(2) by (auto simp: bs(2) user_block_def)
  obtain bs' X Y where f: "heap_inv (free p h) bs'" "used_blocks 0 bs = X @ (a, s) # Y"
    "used_blocks 0 bs' = X @ Y"
    "frame (reach_set bs \<union> {heap_start + a + 4 ..< heap_start + a + 4 + s}) (hmem h) (hmem (free p h))"
    using free_ok [OF bs(1) a(1)] unfolding a(2) by metis
  have "set (X @ Y) = set (used_blocks 0 bs) - {(a, s)}"
  proof -
    have "distinct (X @ (a, s) # Y)" using used_blocks_distinct [of 0 bs] f(2)
      by (metis distinct_map)
    then show ?thesis unfolding f(2) by auto
  qed
  then have B': "B - {(p, s)} = user_block ` set (used_blocks 0 bs')"
  proof -
    have "inj user_block" by (rule injI) (simp add: user_block_inj)
    moreover have "{(p, s)} = user_block ` {(a, s)}" by (simp add: user_block_def a(2))
    ultimately show ?thesis
      unfolding f(3) \<open>set (X @ Y) = _\<close> bs(2) by (simp only: image_set_diff)
  qed
  have "hmem (free p h) (q + i) = hmem h (q + i)" if q: "(q, k) \<in> B - {(p, s)}" and i: "i < k" for q k i
  proof -
    obtain b where b: "(b, k) \<in> set (used_blocks 0 bs)" "q = heap_start + b + 4" "(b, k) \<noteq> (a, s)"
      using q a(2) by (auto simp: bs(2) user_block_def)
    have "a + 8 + s \<le> b \<or> b + 8 + k \<le> a"
      using blk_apart [of bs a False s b False k] a(1) b used_blocks_blk by auto
    then show ?thesis
      using payload_outside [OF b(1) i] i f(4) b(2) by (auto simp: frame_def)
  qed
  then have "same_bytes (hmem h) (hmem (free p h)) (B - {(p, s)})" by (simp add: same_bytes_def)
  then show ?thesis using f(1) B' unfolding user_holds_def by blast
qed

lemma heap_store_law:
  assumes "user_holds h B" "(p, s) \<in> B" "i < s"
  shows "user_holds (store_byte (p + i) v h) B"
proof -
  obtain bs where bs: "heap_inv h bs" "B = user_block ` set (used_blocks 0 bs)"
    using assms(1) by (auto simp: user_holds_def)
  obtain a where a: "(a, s) \<in> set (used_blocks 0 bs)" "p = heap_start + a + 4"
    using assms(2) by (auto simp: bs(2) user_block_def)
  have "heap_inv (store_byte (p + i) v h) bs"
    unfolding store_byte_def by (rule heap_inv_write [OF bs(1) a(1)]) (use a(2) assms(3) in simp_all)
  then show ?thesis using bs(2) by (auto simp: user_holds_def)
qed

lemma heap_apart_law:
  assumes "user_holds h B" "b \<in> B" "c \<in> B" "b \<noteq> c"
  shows "apart b c \<and> fst b \<noteq> fst c"
proof -
  obtain bs where bs: "B = user_block ` set (used_blocks 0 bs)"
    using assms(1) by (auto simp: user_holds_def)
  obtain a s d t where at: "(a, s) \<in> set (used_blocks 0 bs)" "(d, t) \<in> set (used_blocks 0 bs)"
    "b = user_block (a, s)" "c = user_block (d, t)"
    using assms(2,3) bs by auto
  have "a + 8 + s \<le> d \<or> d + 8 + t \<le> a"
    using blk_apart [of bs a False s d False t] at assms(4) used_blocks_blk by auto
  then show ?thesis unfolding at(3,4) by (auto simp: apart_def user_block_def)
qed

interpretation heap: allocator malloc free hmem store_byte user_holds heap_room
  by unfold_locales
    (blast intro: heap_alloc_law heap_dealloc_law heap_store_law heap_apart_law
      dest: heap_dealloc_law heap_apart_law)+

section \<open>The derived operations\<close>

lemma user_holds_facts:
  assumes "user_holds h B" "(p, s) \<in> B"
  shows "sub64 (sub64 p heap_start) 4 + 8 < 2147483648" "p = heap_start + sub64 (sub64 p heap_start) 4 + 4"
    "meta_sz (hmem h) (GetMetaFieldFront (sub64 (sub64 p heap_start) 4)) = s"
    "allocated_size (free p h) = allocated_size h"
    "p + s < heap_start + allocated_size h" "0 < p"
proof -
  obtain bs where bs: "heap_inv h bs" "B = user_block ` set (used_blocks 0 bs)"
    using assms(1) by (auto simp: user_holds_def)
  obtain a where a: "(a, s) \<in> set (used_blocks 0 bs)" "p = heap_start + a + 4"
    using assms(2) by (auto simp: bs(2) user_block_def)
  have b: "blk bs a False s" using a(1) used_blocks_blk by blast
  obtain fl where hl: "heap_list (owned 0 bs) h bs fl"
    using heap_inv_facts(3) [OF bs(1)] by (auto simp: heap_ok_def)
  have ib: "is_block (hmem h) a False s" by (rule is_block_at [OF hl b])
  then have sm: "a + 8 < 2147483648" by (simp add: is_block_def)
  have off: "sub64 (sub64 p heap_start) 4 = a" unfolding a(2) by (rule free_offset [OF sm])
  show "sub64 (sub64 p heap_start) 4 + 8 < 2147483648" "p = heap_start + sub64 (sub64 p heap_start) 4 + 4"
    using off sm a(2) by simp_all
  show "meta_sz (hmem h) (GetMetaFieldFront (sub64 (sub64 p heap_start) 4)) = s"
    unfolding off by (rule front_word(1) [OF ib])
  show "allocated_size (free p h) = allocated_size h"
    using free_ok [OF bs(1) a(1)] heap_inv_facts(1) bs(1) unfolding a(2) by metis
  show "p + s < heap_start + allocated_size h"
    using blk_extent [OF b] heap_inv_facts(1) [OF bs(1)] a(2) by simp
  show "0 < p" using a(2) by simp
qed

lemma tracks_facts:
  assumes "tracks user_holds h live" "(p, n) \<in> set live"
  obtains B s where "user_holds h B" "(p, s) \<in> B" "n \<le> s" "0 < n"
proof -
  obtain B where B: "user_holds h B" "\<forall>p n. (p, n) \<in> set live \<longrightarrow> 0 < n \<and> (\<exists>s. n \<le> s \<and> (p, s) \<in> B)"
    using assms(1) unfolding tracks_def by blast
  then show thesis using that assms(2) by blast
qed

lemma zero_bytes_at: "zero_bytes p n m x = (if p \<le> x \<and> x < p + n then 0 else m x)"
  by (induction n) (auto simp: zero_bytes_def)

lemma tracks_zero:
  assumes "tracks user_holds h live" "(p, n) \<in> set live" "k \<le> n"
  shows "tracks user_holds (h\<lparr>hmem := zero_bytes p k (hmem h)\<rparr>) live"
  using assms(3)
proof (induction k)
  case 0
  then show ?case using assms(1) by (simp add: zero_bytes_def)
next
  case (Suc k)
  let ?h = "h\<lparr>hmem := zero_bytes p k (hmem h)\<rparr>"
  have "tracks user_holds (store_byte (p + k) 0 ?h) live"
    by (rule heap.tracks_store [OF Suc.IH assms(2)]) (use Suc.prems in simp_all)
  moreover have "store_byte (p + k) 0 ?h = h\<lparr>hmem := zero_bytes p (Suc k) (hmem h)\<rparr>"
    by (simp add: store_byte_def zero_bytes_def)
  ultimately show ?case by simp
qed

lemma tracks_calloc:
  assumes "tracks user_holds h live" "0 < num * sz" "heap_room (num * sz) h"
    "calloc num sz h = Some (p, h')"
  shows "tracks user_holds h' ((p, num * sz) # live)"
    "same_bytes (hmem h) (hmem h') (set live)" "\<forall>i < num * sz. hmem h' (p + i) = 0"
proof -
  have n: "mul64 num sz = num * sz" using assms(3) by (simp add: heap_room_def mul64_id)
  obtain q h1 where m: "malloc (num * sz) h = Some (q, h1)"
    "tracks user_holds h1 ((q, num * sz) # live)" "same_bytes (hmem h) (hmem h1) (set live)"
    using heap.tracks_alloc [OF assms(1-3)] by blast
  have q: "0 < q"
    by (rule tracks_facts [OF m(2), of q "num * sz"]) (auto dest: user_holds_facts(6))
  have eq: "p = q" "h' = h1\<lparr>hmem := zero_bytes q (num * sz) (hmem h1)\<rparr>"
    using assms(4) m(1) q by (auto simp: calloc_def n)
  show "tracks user_holds h' ((p, num * sz) # live)"
    unfolding eq by (rule tracks_zero [OF m(2), of q "num * sz"]) simp_all
  show "\<forall>i < num * sz. hmem h' (p + i) = 0" by (simp add: eq zero_bytes_at)
  have "distinct (map fst ((q, num * sz) # live))" using m(2) unfolding tracks_def by blast
  have ap: "apart (q, num * sz) (r, k)" if "(r, k) \<in> set live" for r k
    by (rule heap.tracks_apart [OF m(2)]) (use that \<open>distinct _\<close> in \<open>auto simp: image_iff\<close>)
  then show "same_bytes (hmem h) (hmem h') (set live)"
    using m(3) by (fastforce simp: same_bytes_def eq zero_bytes_at apart_def)
qed

lemma tracks_realloc:
  assumes t: "tracks user_holds h live" "(p, n) \<in> set live" and k: "0 < k" "heap_room k h"
    and r: "realloc p k h = Some (q, h')"
  shows "tracks user_holds h' ((q, k) # remove1 (p, n) live)"
proof -
  obtain B s where B: "user_holds h B" "(p, s) \<in> B" "n \<le> s" "0 < n" by (rule tracks_facts [OF t])
  note f = user_holds_facts [OF B(1,2)]
  show ?thesis
  proof (cases "k \<le> s")
    case True
    then have "q = p" "h' = h" using r f by (simp_all add: realloc_def)
    moreover have "k \<le> s'" if "user_holds h B'" "(p, s') \<in> B'" for B' s'
      using user_holds_facts(3) [OF that] f(3) True by simp
    ultimately show ?thesis using heap.tracks_resize [OF t k(1)] by simp
  next
    case False
    then have m: "malloc k (free p h) = Some (q, h')" using r f by (simp add: realloc_def)
    have "heap_room k (free p h)" using k(2) f(4) by (simp add: heap_room_def)
    from heap.tracks_alloc [OF heap.tracks_dealloc(1) [OF t] k(1) this] m
    show ?thesis by auto
  qed
qed

lemma init_heap_holds: "user_holds (init_heap m) {}"
  unfolding user_holds_def
proof (rule exI [of _ "[]"], intro conjI)
  have "heap_list (owned 0 []) (init_heap m) [] []"
    by (simp add: heap_list_def init_heap_def)
  then show "heap_inv (init_heap m) []"
    by (auto simp: heap_inv_def heap_ok_def init_heap_def)
qed simp

lemma reachable_tracks:
  assumes "heap_reachable h live"
  shows "tracks user_holds h live"
proof -
  obtain m where "heap_step\<^sup>*\<^sup>* (init_heap m, []) (h, live)" using assms by (auto simp: heap_reachable_def)
  then have "case (h, live) of (h, live) \<Rightarrow> tracks user_holds h live"
  proof (induction rule: rtranclp_induct)
    case base
    then show ?case using heap.tracks_start [OF init_heap_holds] by simp
  next
    case (step x y)
    from step.hyps(2) step.IH show ?case
    proof (cases rule: heap_step.cases)
      case (do_malloc n h p h' live)
      then show ?thesis using heap.tracks_alloc [of h live n] step.IH by auto
    next
      case (do_calloc num sz h p h' live)
      then show ?thesis using tracks_calloc(1) step.IH by auto
    next
      case (do_realloc p n live k h q h')
      then show ?thesis using tracks_realloc step.IH by auto
    next
      case (do_free p n live h)
      then show ?thesis using heap.tracks_dealloc(1) step.IH by auto
    next
      case (do_store p n live i h v)
      then show ?thesis using heap.tracks_store step.IH by auto
    qed
  qed
  then show ?thesis by simp
qed

lemma tracks_inside:
  assumes "tracks user_holds h live" "(p, n) \<in> set live"
  shows "heap_start < p" "p + n \<le> kUserProcessHeapStartAddress + heap_size h"
proof -
  obtain B s where B: "user_holds h B" "(p, s) \<in> B" "n \<le> s" "0 < n" by (rule tracks_facts [OF assms])
  obtain bs where bs: "heap_inv h bs" "B = user_block ` set (used_blocks 0 bs)"
    using B(1) by (auto simp: user_holds_def)
  have "bs \<noteq> []" using B(2) by (auto simp: bs(2))
  then have "heap_size h = allocated_size h + 4"
    using bs(1) heap_inv_facts(1) [OF bs(1)] by (simp add: heap_inv_def)
  then show "p + n \<le> kUserProcessHeapStartAddress + heap_size h"
    using user_holds_facts(5) [OF B(1,2)] B(3)
    by (simp add: kUserProcessHeapStartAddress_def heap_start_def)
  show "heap_start < p" using user_holds_facts(2) [OF B(1,2)] by linarith
qed

lemma tracks_inv: "tracks user_holds h live \<Longrightarrow> \<exists>bs. heap_inv h bs"
  unfolding tracks_def user_holds_def by blast

lemma apart_from_new:
  assumes "tracks user_holds h ((p, n) # live)" "(q, k) \<in> set live"
  shows "apart (p, n) (q, k)"
proof -
  have "distinct (map fst ((p, n) # live))" using assms(1) unfolding tracks_def by blast
  then have "(p, n) \<noteq> (q, k)" using assms(2) by (auto simp: image_iff)
  then show ?thesis using heap.tracks_apart [OF assms(1)] assms(2) by simp
qed

lemma tracks_nothing:
  assumes "tracks user_holds h []" "allocated_size h \<noteq> 0"
  shows "\<exists>s. allocated_size h = s + 8 \<and> heap_inv h [(True, s)]"
proof -
  obtain bs where bs: "heap_inv h bs" "used_blocks 0 bs = []"
    using assms(1) by (auto simp: tracks_def user_holds_def)
  have no_used: "used_blocks a xs = [] \<longleftrightarrow> (\<forall>b \<in> set xs. fst b)" for a xs
    by (induction xs arbitrary: a) (force split: if_splits)+
  have al: "allocated_size h = extent bs" "coalesced bs"
    using heap_inv_facts [OF bs(1)] by (auto simp: heap_ok_def)
  then obtain s xs where xs: "bs = (True, s) # xs"
    using assms(2) bs(2) no_used by (cases bs) auto
  have "xs = []"
    using al(2) bs(2) no_used [of 0 bs] unfolding xs by (cases xs) auto
  then show ?thesis using bs(1) al(1) xs by simp
qed

lemma start_reachable: "heap_reachable (init_heap m) []"
  by (auto simp: heap_reachable_def)

lemma reachable_step:
  assumes "heap_reachable h live" "heap_step (h, live) (h', live')"
  shows "heap_reachable h' live'"
  using assms unfolding heap_reachable_def by (meson rtranclp.rtrancl_into_rtrancl)

lemma first_malloc:
  assumes "0 < n" "n \<le> 1000000"
  shows "\<exists>p h. malloc n (init_heap m) = Some (p, h) \<and> heap_reachable h [(p, n)]"
proof -
  have r: "heap_room n (init_heap m)" using assms(2) by (simp add: heap_room_def init_heap_def)
  obtain p h where "malloc n (init_heap m) = Some (p, h)"
    using heap.tracks_alloc [OF reachable_tracks [OF start_reachable] assms(1) r] by blast
  then show ?thesis using reachable_step [OF start_reachable do_malloc [OF assms(1) r]] by blast
qed

lemma first_malloc_size:
  assumes "malloc 20 (init_heap m) = Some (p, h)"
  shows "allocated_size h \<le> 8224"
proof -
  obtain bs where bs: "heap_inv (init_heap m) bs" using tracks_inv [OF reachable_tracks [OF start_reachable]] ..
  have e: "extent bs = 0" using heap_inv_facts(1) [OF bs] by (simp add: init_heap_def)
  have "allocated_size h \<le> extent bs + 20 + 8204"
    by (rule malloc_ok [OF bs, of 20]) (use assms e heap_inv_facts(1) in auto)
  then show ?thesis using e by simp
qed

section \<open>Properties\<close>

text \<open>C10: In every state a program can reach, \<open>malloc\<close> of a positive size within the
  2 GB limit returns: a non-null pointer to that many bytes, inside the pages \<open>sbrk\<close> has
  mapped, apart from every block the program still holds, none of whose bytes change.\<close>
theorem malloc_fresh:
  assumes "heap_reachable h live" "0 < n" "heap_room n h"
  shows "\<exists>p h'. malloc n h = Some (p, h') \<and> heap_start < p
           \<and> p + n \<le> kUserProcessHeapStartAddress + heap_size h'
           \<and> (\<forall>b \<in> set live. apart (p, n) b) \<and> same_bytes (hmem h) (hmem h') (set live)"
proof -
  obtain p h' where m: "malloc n h = Some (p, h')" "tracks user_holds h' ((p, n) # live)"
    "same_bytes (hmem h) (hmem h') (set live)"
    using heap.tracks_alloc [OF reachable_tracks [OF assms(1)] assms(2,3)] by blast
  then show ?thesis using tracks_inside [OF m(2), of p n] apart_from_new [OF m(2)] by auto
qed

theorem malloc_fresh_witness:
  "\<exists>p h'. malloc 20 (init_heap (\<lambda>_. 255)) = Some (p, h') \<and> heap_start < p
     \<and> p + 20 \<le> kUserProcessHeapStartAddress + heap_size h'"
  using malloc_fresh [OF start_reachable, of 20 "\<lambda>_. 255"] by (auto simp: heap_room_def init_heap_def)

text \<open>C1: The blocks a program holds never overlap, and all lie in mapped heap pages.\<close>
theorem live_blocks_apart:
  assumes "heap_reachable h live"
  shows "distinct (map fst live)
    \<and> (\<forall>b \<in> set live. \<forall>c \<in> set live. b \<noteq> c \<longrightarrow> apart b c)
    \<and> (\<forall>b \<in> set live. heap_start < fst b
         \<and> fst b + snd b \<le> kUserProcessHeapStartAddress + heap_size h)"
proof (intro conjI ballI impI)
  note t = reachable_tracks [OF assms]
  show "distinct (map fst live)" using t unfolding tracks_def by blast
  fix b assume b: "b \<in> set live"
  show "heap_start < fst b" "fst b + snd b \<le> kUserProcessHeapStartAddress + heap_size h"
    using tracks_inside [OF t, of "fst b" "snd b"] b by simp_all
  fix c assume "c \<in> set live" "b \<noteq> c"
  then show "apart b c" using heap.tracks_apart [OF t, of "fst b" "snd b" "fst c" "snd c"] b by simp
qed

theorem live_blocks_apart_witness:
  "case malloc 20 (init_heap (\<lambda>_. 0)) of None \<Rightarrow> False
   | Some (p, h) \<Rightarrow> heap_start < p \<and> p + 20 \<le> kUserProcessHeapStartAddress + heap_size h"
  using first_malloc [of 20 "\<lambda>_. 0"] live_blocks_apart by fastforce

text \<open>\<open>free\<close> leaves every byte of every other block the program holds as it was, and
  the freed state is again a reachable one.\<close>
theorem free_preserves:
  assumes "heap_reachable h live" "(p, n) \<in> set live"
  shows "same_bytes (hmem h) (hmem (free p h)) (set live - {(p, n)})
    \<and> heap_reachable (free p h) (remove1 (p, n) live)"
  using heap.tracks_dealloc(2) [OF reachable_tracks [OF assms(1)] assms(2)]
    reachable_step [OF assms(1) do_free [OF assms(2)]] by blast

theorem free_preserves_witness:
  "case malloc 20 (init_heap (\<lambda>_. 0)) of None \<Rightarrow> False
   | Some (p, h) \<Rightarrow> heap_reachable (free p h) []"
  using first_malloc [of 20 "\<lambda>_. 0"] free_preserves by fastforce

text \<open>C12: The library's own check, \<open>__malloc_sanity_check\<close>, returns true in every reachable
  state: the walk over the blocks ends, and each block's two tags agree.\<close>
theorem sanity_check_always:
  assumes "heap_reachable h live"
  shows "malloc_sanity_check h = Some True"
  using tracks_inv [OF reachable_tracks [OF assms]] sanity_check_ok by blast

theorem sanity_check_always_witness:
  "malloc_sanity_check (init_heap (\<lambda>_. 7)) = Some True"
  by (rule sanity_check_always [OF start_reachable])

text \<open>When the program has freed everything, the heap is one free block again: every
  request up to the whole heap less one block's tags finds the block at offset 0.\<close>
theorem all_freed_coalesces:
  assumes "heap_reachable h []" "allocated_size h \<noteq> 0"
  shows "meta_sz (hmem h) (GetMetaFieldFront 0) = allocated_size h - META_BLOCK_SZ
    \<and> meta_is_free (hmem h) (GetMetaFieldFront 0) = 1 \<and> free_block_list_start h = 0
    \<and> (\<forall>k. k + META_BLOCK_SZ \<le> allocated_size h \<longrightarrow> FindFreeBlock k h = Some 0)"
proof -
  obtain s where s: "allocated_size h = s + 8" "heap_inv h [(True, s)]"
    using tracks_nothing [OF reachable_tracks [OF assms(1)] assms(2)] by blast
  obtain fl where fl: "heap_list (owned 0 [(True, s)]) h [(True, s)] fl" "set fl = {0}"
    using heap_inv_facts(3) [OF s(2)] by (auto simp: heap_ok_def)
  have b: "is_block (hmem h) 0 True s" by (rule is_block_at [OF fl(1)]) simp
  have "distinct fl" using fl(1) by (simp add: heap_list_def)
  then have "fl = [0]" using fl(2) by (cases fl; cases "tl fl") auto
  then have start: "free_block_list_start h = 0" using fl(1) by (simp add: heap_list_def)
  have "FindFreeBlock k h = Some 0" if "k \<le> s" for k
    unfolding FindFreeBlock_def start
    by (subst find_free_from.simps) (simp add: front_word(1) [OF b] that END_OF_LIST_def)
  then show ?thesis using s(1) start front_word [OF b] by (simp add: META_BLOCK_SZ_def)
qed

theorem all_freed_coalesces_witness:
  "case malloc 20 (init_heap (\<lambda>_. 0)) of None \<Rightarrow> False
   | Some (p, h) \<Rightarrow> FindFreeBlock (allocated_size (free p h) - 8) (free p h) = Some 0"
proof -
  obtain p h where m: "malloc 20 (init_heap (\<lambda>_. 0)) = Some (p, h)" "heap_reachable h [(p, 20)]"
    using first_malloc [of 20 "\<lambda>_. 0"] by auto
  have p: "(p, 20) \<in> set [(p, 20)]" by simp
  obtain B s where B: "user_holds h B" "(p, s) \<in> B" by (rule tracks_facts [OF reachable_tracks [OF m(2)] p])
  have r: "heap_reachable (free p h) []" using reachable_step [OF m(2) do_free [OF p]] by simp
  have al: "allocated_size (free p h) \<noteq> 0"
    using user_holds_facts(2,4,5) [OF B] by linarith
  then have "8 \<le> allocated_size (free p h)" using tracks_nothing [OF reachable_tracks [OF r]] by auto
  then show ?thesis
    using all_freed_coalesces [OF r al] m(1) by (simp add: META_BLOCK_SZ_def)
qed

text \<open>\<open>calloc\<close> returns a block of \<open>num * size\<close> bytes, all zero, and changes no byte of
  another block.\<close>
theorem calloc_zeroed:
  assumes "heap_reachable h live" "0 < num * sz" "heap_room (num * sz) h"
  shows "\<exists>p h'. calloc num sz h = Some (p, h') \<and> (\<forall>i < num * sz. hmem h' (p + i) = 0)
           \<and> heap_reachable h' ((p, num * sz) # live) \<and> same_bytes (hmem h) (hmem h') (set live)"
proof -
  have n: "mul64 num sz = num * sz" using assms(3) by (simp add: heap_room_def mul64_id)
  note t = reachable_tracks [OF assms(1)]
  obtain q h1 where m: "malloc (num * sz) h = Some (q, h1)"
    using heap.tracks_alloc [OF t assms(2,3)] by blast
  then obtain p h' where c: "calloc num sz h = Some (p, h')"
    by (cases "q = 0") (auto simp: calloc_def n)
  then show ?thesis
    using tracks_calloc [OF t assms(2,3) c] reachable_step [OF assms(1) do_calloc [OF assms(2,3) c]] by blast
qed

theorem calloc_zeroed_witness:
  "\<exists>p h'. calloc 3 4 (init_heap (\<lambda>_. 255)) = Some (p, h') \<and> (\<forall>i < 12. hmem h' (p + i) = 0)"
  using calloc_zeroed [OF start_reachable, of 3 4 "\<lambda>_. 255"] by (auto simp: heap_room_def init_heap_def)

text \<open>\<open>realloc\<close> of a block the program holds returns: the same pointer and an untouched
  heap when the block is already large enough, and otherwise whatever \<open>malloc\<close> returns after
  the block has been freed. No byte of any other block changes, and the result is a block of
  the new size, apart from the others.\<close>
theorem realloc_block:
  assumes "heap_reachable h live" "(p, n) \<in> set live" "0 < k" "heap_room k h"
  shows "\<exists>q h'. realloc p k h = Some (q, h')
    \<and> (if k \<le> meta_sz (hmem h) (GetMetaFieldFront (p - heap_start - 4)) then q = p \<and> h' = h
       else malloc k (free p h) = Some (q, h'))
    \<and> same_bytes (hmem h) (hmem h') (set live - {(p, n)})
    \<and> (\<forall>b \<in> set live - {(p, n)}. apart (q, k) b)"
proof -
  note t = reachable_tracks [OF assms(1)]
  obtain B s where B: "user_holds h B" "(p, s) \<in> B" by (rule tracks_facts [OF t assms(2)])
  note f = user_holds_facts [OF B]
  let ?off = "sub64 (sub64 p heap_start) 4" and ?rest = "set live - {(p, n)}"
  have off: "p - heap_start - 4 = ?off" using f(2) by linarith
  have rest: "set (remove1 (p, n) live) = ?rest"
    using t by (auto simp: tracks_def distinct_map set_remove1_eq)
  show ?thesis
  proof (cases "k \<le> s")
    case True
    then have r: "realloc p k h = Some (p, h)" using f(3,6) by (simp add: realloc_def)
    have "apart (p, k) b" if "b \<in> ?rest" for b
      using apart_from_new [OF tracks_realloc [OF t assms(2-4) r], of "fst b" "snd b"] that rest by simp
    then show ?thesis using r True f(3) off by simp
  next
    case False
    have room: "heap_room k (free p h)" using assms(4) f(4) by (simp add: heap_room_def)
    note d = heap.tracks_dealloc [OF t assms(2)]
    obtain q h' where m: "malloc k (free p h) = Some (q, h')"
      "tracks user_holds h' ((q, k) # remove1 (p, n) live)"
      "same_bytes (hmem (free p h)) (hmem h') ?rest"
      using heap.tracks_alloc [OF d(1) assms(3) room] rest by auto
    have "realloc p k h = Some (q, h')" using False m(1) f(3,6) by (simp add: realloc_def)
    moreover have "apart (q, k) b" if "b \<in> ?rest" for b
      using apart_from_new [OF m(2), of "fst b" "snd b"] that rest by simp
    ultimately show ?thesis
      using False m(1) f(3) off same_bytes_trans [OF d(2) m(3)] by simp
  qed
qed

theorem realloc_block_witness:
  "case malloc 20 (init_heap (\<lambda>_. 0)) of None \<Rightarrow> False
   | Some (p, h) \<Rightarrow> \<exists>q h'. realloc p 900 h = Some (q, h')"
proof -
  obtain p h where m: "malloc 20 (init_heap (\<lambda>_. 0)) = Some (p, h)" "heap_reachable h [(p, 20)]"
    using first_malloc [of 20 "\<lambda>_. 0"] by auto
  have "heap_room 900 h" using first_malloc_size [OF m(1)] by (simp add: heap_room_def)
  then show ?thesis using realloc_block [OF m(2), of p 20 900] m(1) by auto
qed

end
