(* ===== verification/CString.thy ===== *)
theory CString
  imports MallocClient
begin

text \<open>
  The C library's string routines, \<open>user/libc/string.c\<close>, with \<open>user/libc/ctype.c\<close> and the
  encoder of \<open>kernel/kernel/utf8.h\<close>, over byte memory. A \<open>char\<close> is a signed byte, as on the
  target, so \<open>schar\<close> reads it as an \<open>int\<close> by sign extension. Loops over a count are
  recursion on the count, loops to a NUL are partial functions. \<open>memmove\<close> and \<open>strdup\<close> take
  and return the whole heap, because they allocate.
\<close>

section \<open>Characters\<close>

definition schar :: "mem \<Rightarrow> nat \<Rightarrow> int" where "schar m p = sint (m p)"
definition uchar :: "mem \<Rightarrow> nat \<Rightarrow> int" where "uchar m p = uint (m p)"

definition tolower :: "int \<Rightarrow> int" where
  "tolower ch = (if 65 \<le> ch \<and> ch \<le> 90 then 97 + (ch - 65) else ch)"

definition toupper :: "int \<Rightarrow> int" where
  "toupper ch = (if 97 \<le> ch \<and> ch \<le> 122 then 65 + (ch - 97) else ch)"

definition isdigit :: "int \<Rightarrow> bool" where
  "isdigit ch \<longleftrightarrow> 48 \<le> ch \<and> ch \<le> 57"

definition isspace :: "int \<Rightarrow> bool" where
  \<comment> \<open>space, tab, newline, vertical tab, form feed, carriage return\<close>
  "isspace ch \<longleftrightarrow> ch \<in> {32, 9, 10, 11, 12, 13}"

section \<open>Memory blocks\<close>

fun memcpy :: "nat \<Rightarrow> nat \<Rightarrow> nat \<Rightarrow> mem \<Rightarrow> mem" where
  "memcpy d s 0 m = m"
| "memcpy d s (Suc count) m = memcpy (d + 1) (s + 1) count (m(d := m s))"

fun memset :: "nat \<Rightarrow> int \<Rightarrow> nat \<Rightarrow> mem \<Rightarrow> mem" where
  "memset d ch 0 m = m"
| "memset d ch (Suc count) m = memset (d + 1) ch count (m(d := word_of_int ch))"

definition memmove :: "nat \<Rightarrow> nat \<Rightarrow> nat \<Rightarrow> heap \<Rightarrow> heap option" where
  "memmove destp srcp count st =
     (if destp > srcp \<and> destp - srcp \<ge> count
      then Some (st\<lparr>hmem := memcpy destp srcp count (hmem st)\<rparr>)
      else if srcp > destp \<and> srcp - destp \<ge> count
      then Some (st\<lparr>hmem := memcpy destp srcp count (hmem st)\<rparr>)
      else
        case malloc count st of
          None \<Rightarrow> None
        | Some (m, st1) \<Rightarrow>
            let st2 = st1\<lparr>hmem := memcpy m srcp count (hmem st1)\<rparr>;
                st3 = st2\<lparr>hmem := memcpy destp m count (hmem st2)\<rparr>
            in Some (free m st3))"

fun memcmp :: "mem \<Rightarrow> nat \<Rightarrow> nat \<Rightarrow> nat \<Rightarrow> int" where
  "memcmp m lhs rhs 0 = 0"
| "memcmp m lhs rhs (Suc count) =
     (if m lhs \<noteq> m rhs then schar m lhs - schar m rhs
      else memcmp m (lhs + 1) (rhs + 1) count)"

section \<open>Strings\<close>

partial_function (option) strcmp :: "mem \<Rightarrow> nat \<Rightarrow> nat \<Rightarrow> int option" where
  "strcmp m lhs rhs =
     (if m lhs \<noteq> 0 \<and> m lhs = m rhs then strcmp m (lhs + 1) (rhs + 1)
      else Some (schar m lhs - schar m rhs))"

fun strncmp :: "mem \<Rightarrow> nat \<Rightarrow> nat \<Rightarrow> nat \<Rightarrow> int" where
  "strncmp m lhs rhs 0 = 0"
| "strncmp m lhs rhs (Suc count) =
     (if m lhs \<noteq> m rhs then uchar m lhs - uchar m rhs
      else strncmp m (lhs + 1) (rhs + 1) count)"

partial_function (option) strlen_from :: "mem \<Rightarrow> nat \<Rightarrow> nat \<Rightarrow> nat option" where
  "strlen_from m str sz =
     (if m str \<noteq> 0 then strlen_from m (str + 1) (sz + 1) else Some sz)"

definition strlen :: "mem \<Rightarrow> nat \<Rightarrow> nat option" where
  "strlen m str = strlen_from m str 0"

partial_function (option) strchr :: "mem \<Rightarrow> nat \<Rightarrow> int \<Rightarrow> nat option" where
  "strchr m str ch =
     (if m str \<noteq> word_of_int ch
      then (if m str = 0 then Some 0 else strchr m (str + 1) ch)
      else Some str)"

partial_function (option) strrchr_from :: "mem \<Rightarrow> nat \<Rightarrow> int \<Rightarrow> nat \<Rightarrow> nat option" where
  "strrchr_from m str ch ret =
     (let ret' = (if m str = word_of_int ch then str else ret)
      in if m str \<noteq> 0 then strrchr_from m (str + 1) ch ret' else Some ret')"

definition strrchr :: "mem \<Rightarrow> nat \<Rightarrow> int \<Rightarrow> nat option" where
  "strrchr m str ch = strrchr_from m str ch 0"

partial_function (option) strcpy_from :: "nat \<Rightarrow> nat \<Rightarrow> nat \<Rightarrow> mem \<Rightarrow> mem option" where
  "strcpy_from dest src i m =
     (let m' = m(dest + i := m (src + i))
      in if m' (src + i) = 0 then Some m' else strcpy_from dest src (i + 1) m')"

definition strcpy :: "nat \<Rightarrow> nat \<Rightarrow> mem \<Rightarrow> mem option" where
  "strcpy dest src m = strcpy_from dest src 0 m"

fun strncpy :: "nat \<Rightarrow> nat \<Rightarrow> nat \<Rightarrow> mem \<Rightarrow> mem" where
  "strncpy dest src 0 m = m"
| "strncpy dest src (Suc n) m =
     (let c = m src; m' = m(dest := c)
      in if c \<noteq> 0 then strncpy (dest + 1) (src + 1) n m' else memset (dest + 1) 0 n m')"

definition strdup :: "nat \<Rightarrow> heap \<Rightarrow> (nat \<times> heap) option" where
  "strdup str st =
     (case strlen (hmem st) str of
        None \<Rightarrow> None
      | Some n \<Rightarrow>
          (case malloc (n + 1) st of
             None \<Rightarrow> None
           | Some (copied, st1) \<Rightarrow>
               (case strcpy copied str (hmem st1) of
                  None \<Rightarrow> None
                | Some m \<Rightarrow> Some (copied, st1\<lparr>hmem := m\<rparr>))))"

partial_function (option) strstr_from :: "mem \<Rightarrow> nat \<Rightarrow> nat \<Rightarrow> nat \<Rightarrow> nat option" where
  "strstr_from m str substr n =
     (if m str \<noteq> 0
      then (if memcmp m str substr n = 0 then Some str else strstr_from m (str + 1) substr n)
      else Some 0)"

definition strstr :: "mem \<Rightarrow> nat \<Rightarrow> nat \<Rightarrow> nat option" where
  "strstr m str substr =
     (case strlen m substr of None \<Rightarrow> None | Some n \<Rightarrow> strstr_from m str substr n)"

partial_function (option) strcasecmp :: "mem \<Rightarrow> nat \<Rightarrow> nat \<Rightarrow> int option" where
  "strcasecmp m lhs rhs =
     (if m lhs \<noteq> 0 \<and> tolower (schar m lhs) = tolower (schar m rhs)
      then strcasecmp m (lhs + 1) (rhs + 1)
      else Some (tolower (schar m lhs) - tolower (schar m rhs)))"

fun strncasecmp :: "mem \<Rightarrow> nat \<Rightarrow> nat \<Rightarrow> nat \<Rightarrow> int" where
  "strncasecmp m lhs rhs 0 = 0"
| "strncasecmp m lhs rhs (Suc count) =
     (if m lhs = 0 \<or> m rhs = 0 then uchar m lhs - uchar m rhs
      else if tolower (schar m lhs) \<noteq> tolower (schar m rhs) then uchar m lhs - uchar m rhs
      else strncasecmp m (lhs + 1) (rhs + 1) count)"

section \<open>UTF-8\<close>

text \<open>The decoder returns the bytes consumed and the code point; \<open>b i\<close> is byte i, unsigned.\<close>

definition utf8_str_to_unicode_num :: "mem \<Rightarrow> nat \<Rightarrow> nat \<times> nat" where
  "utf8_str_to_unicode_num m str =
     (let b = (\<lambda>i. unat (m (str + i)))
      in if b 0 \<le> 127 then (1, b 0)
         else if b 0 \<le> 223 then (2, or (b 1 mod 64) (b 0 mod 32 * 2 ^ 6))
         else if b 0 \<le> 239 then
           (3, or (or (b 2 mod 64) (b 1 mod 64 * 2 ^ 6)) (b 0 mod 16 * 2 ^ 12))
         else if b 0 \<le> 247 then
           (4, or (or (or (b 3 mod 64) (b 2 mod 64 * 2 ^ 6)) (b 1 mod 64 * 2 ^ 12))
                  (b 0 mod 8 * 2 ^ 18))
         else (0, 0))"

text \<open>The encoder as written: a store to \<open>char\<close> keeps the low eight bits.\<close>

definition SetUnicodeToUTF8 :: "nat \<Rightarrow> nat \<Rightarrow> mem \<Rightarrow> nat \<times> mem" where
  "SetUnicodeToUTF8 c s m =
     (if c \<le> 0x7F then (1, m(s := word_of_nat c))
      else if c \<le> 0x7FF then
        (2, m(s := word_of_nat (or 192 (c div 2 ^ 6)), s + 1 := word_of_nat (or 128 c)))
      else if c \<le> 0xFFFF then
        (3, m(s := word_of_nat (or 224 (c div 2 ^ 12)),
              s + 1 := word_of_nat (or 128 (c div 2 ^ 6)), s + 2 := word_of_nat (or 128 c)))
      else if c \<le> 0x10FFFF then
        (4, m(s := word_of_nat (or 240 (c div 2 ^ 18)),
              s + 1 := word_of_nat (or 128 (c div 2 ^ 12)),
              s + 2 := word_of_nat (or 128 (c div 2 ^ 6)), s + 3 := word_of_nat (or 128 c)))
      else (0, m))"

end
