(* ===== verification/CStringProps.thy ===== *)
theory CStringProps
  imports CString "HOL-Library.Sublist"
begin

text \<open>
  What the string routines compute. \<open>cstr m p s\<close> is the contract of a C string: the bytes
  \<open>s\<close>, none of them NUL, from address p, and then a NUL.
\<close>

section \<open>C strings\<close>

fun cstr :: "mem \<Rightarrow> nat \<Rightarrow> 8 word list \<Rightarrow> bool" where
  "cstr m p [] \<longleftrightarrow> m p = 0"
| "cstr m p (c # s) \<longleftrightarrow> c \<noteq> 0 \<and> m p = c \<and> cstr m (p + 1) s"

definition bytes_at :: "mem \<Rightarrow> nat \<Rightarrow> nat \<Rightarrow> 8 word list" where
  "bytes_at m p n = map (\<lambda>i. m (p + i)) [0 ..< n]"

lemma bytes_at_length [simp]: "length (bytes_at m p n) = n"
  by (simp add: bytes_at_def)

lemma bytes_at_0 [simp]: "bytes_at m p 0 = []"
  by (simp add: bytes_at_def)

lemma bytes_at_Suc: "bytes_at m p (Suc n) = m p # bytes_at m (p + 1) n"
  unfolding bytes_at_def by (simp add: upt_conv_Cons map_Suc_upt [symmetric] del: upt_Suc)

lemma cstr_iff: "cstr m p s \<longleftrightarrow> bytes_at m p (length s + 1) = s @ [0] \<and> 0 \<notin> set s"
  by (induction s arbitrary: p) (auto simp: bytes_at_Suc bytes_at_def [of _ _ 0])

lemma cstr_cong:
  "cstr m p s \<Longrightarrow> (\<And>i. i \<le> length s \<Longrightarrow> m' (p + i) = m (p + i)) \<Longrightarrow> cstr m' p s"
proof (induction s arbitrary: p)
  case Nil
  then show ?case using Nil.prems(2) [of 0] by simp
next
  case (Cons c s)
  have "cstr m' (p + 1) s"
  proof (rule Cons.IH)
    show "m' (p + 1 + i) = m (p + 1 + i)" if "i \<le> length s" for i
      using Cons.prems(2) [of "Suc i"] that by simp
  qed (use Cons.prems(1) in simp)
  then show ?case using Cons.prems(1) Cons.prems(2) [of 0] by simp
qed

lemma cstr_nth: "cstr m p s \<Longrightarrow> i < length s \<Longrightarrow> m (p + i) = s ! i \<and> s ! i \<noteq> 0"
proof (induction s arbitrary: p i)
  case (Cons c s)
  then show ?case using Cons.IH [of "p + 1" "i - 1"] by (cases i) auto
qed simp

lemma cstr_end: "cstr m p s \<Longrightarrow> m (p + length s) = 0"
proof (induction s arbitrary: p)
  case (Cons c s)
  then show ?case using Cons.IH [of "p + 1"] by simp
qed simp

lemma cstr_drop: "cstr m p s \<Longrightarrow> i \<le> length s \<Longrightarrow> cstr m (p + i) (drop i s)"
proof (induction s arbitrary: p i)
  case (Cons c s)
  then show ?case using Cons.IH [of "p + 1" "i - 1"] by (cases i) auto
qed simp

lemma find_map: "List.find P (map f xs) = map_option f (List.find (P \<circ> f) xs)"
  by (induction xs) auto

section \<open>Memory blocks\<close>

lemma memcpy_at:
  assumes "d \<le> s \<or> s + n \<le> d"
  shows "memcpy d s n m x = (if d \<le> x \<and> x < d + n then m (s + (x - d)) else m x)"
  using assms
proof (induction n arbitrary: d s m)
  case (Suc n)
  have "memcpy d s (Suc n) m x
      = (if d + 1 \<le> x \<and> x < d + 1 + n then (m(d := m s)) (s + 1 + (x - (d + 1))) else (m(d := m s)) x)"
    unfolding memcpy.simps by (rule Suc.IH) (use Suc.prems in auto)
  moreover have "s + 1 + (x - (d + 1)) = s + (x - d)" if "d + 1 \<le> x" using that by simp
  ultimately show ?case
    using Suc.prems by (cases "d + 1 \<le> x"; cases "x = d") (auto simp del: memcpy.simps)
qed auto

lemma memset_at:
  "memset d ch n m x = (if d \<le> x \<and> x < d + n then word_of_int ch else m x)"
  by (induction n arbitrary: d m) auto

lemma memcmp_zero: "memcmp m l r n = 0 \<longleftrightarrow> bytes_at m l n = bytes_at m r n"
proof (induction n arbitrary: l r)
  case (Suc n)
  have "schar m l - schar m r = 0 \<longleftrightarrow> m l = m r"
    by (auto simp: schar_def dest: signed_word_eqI)
  then show ?case using Suc.IH [of "l + 1" "r + 1"] by (auto simp: bytes_at_Suc)
qed (simp add: bytes_at_def)

section \<open>Strings\<close>

lemma strlen_from_cstr: "cstr m p s \<Longrightarrow> strlen_from m p k = Some (k + length s)"
  by (induction s arbitrary: p k; subst strlen_from.simps) auto

lemma strlen_cstr: "cstr m p s \<Longrightarrow> strlen m p = Some (length s)"
  by (simp add: strlen_def strlen_from_cstr)

text \<open>The sign of a comparison: the terminated strings in order of their signed characters.\<close>

definition signed_less :: "8 word list \<Rightarrow> 8 word list \<Rightarrow> bool" where
  "signed_less s t \<longleftrightarrow>
     (map sint (s @ [0]), map sint (t @ [0])) \<in> lexord {(a, b). a < b}"

lemma strcmp_cstr:
  assumes "cstr m l s" "cstr m r t"
  shows "\<exists>v. strcmp m l r = Some v \<and> (v = 0 \<longleftrightarrow> s = t) \<and> (v < 0 \<longleftrightarrow> signed_less s t)"
  using assms
proof (induction s arbitrary: l r t)
  case Nil
  then show ?case
    by (subst strcmp.simps) (cases t; auto simp: schar_def signed_less_def signed_eq_0_iff)
next
  case (Cons c s)
  show ?case
  proof (cases t)
    case Nil
    then show ?thesis using Cons.prems
      by (subst strcmp.simps) (auto simp: schar_def signed_less_def signed_eq_0_iff)
  next
    case t: (Cons d t')
    show ?thesis
    proof (cases "c = d")
      case True
      then have "strcmp m l r = strcmp m (l + 1) (r + 1)"
        using Cons.prems t by (subst strcmp.simps) simp
      then show ?thesis
        using Cons.IH [of "l + 1" "r + 1" t'] Cons.prems t True by (auto simp: signed_less_def)
    next
      case False
      then have "sint c \<noteq> sint d" by (auto dest: signed_word_eqI)
      then show ?thesis
        using False Cons.prems t by (subst strcmp.simps) (auto simp: schar_def signed_less_def)
    qed
  qed
qed

lemma strchr_cstr:
  assumes "cstr m p s"
  shows "strchr m p ch = Some (case List.find (\<lambda>i. (s @ [0]) ! i = word_of_int ch) [0 ..< length s + 1] of
           None \<Rightarrow> 0 | Some i \<Rightarrow> p + i)"
  using assms
proof (induction s arbitrary: p)
  case Nil
  then show ?case by (subst strchr.simps) (auto simp: upt_rec)
next
  case (Cons c s)
  have find_Suc: "List.find P [Suc 0 ..< n + 1] = map_option Suc (List.find (P \<circ> Suc) [0 ..< n])" for P n
    using find_map [of P Suc "[0 ..< n]"] by (simp add: map_Suc_upt del: upt_Suc)
  show ?case
  proof (cases "c = word_of_int ch")
    case True
    then show ?thesis using Cons.prems by (subst strchr.simps) (simp add: upt_rec [of 0] del: upt_Suc)
  next
    case False
    have "List.find (\<lambda>i. ((c # s) @ [0]) ! i = word_of_int ch) [0 ..< length (c # s) + 1]
        = map_option Suc (List.find (\<lambda>i. (s @ [0]) ! i = word_of_int ch) [0 ..< length s + 1])"
      using False find_Suc [of "\<lambda>i. ((c # s) @ [0]) ! i = word_of_int ch" "length s + 1"]
      by (simp add: upt_rec [of 0] comp_def del: upt_Suc)
    then show ?thesis
      using Cons.IH [of "p + 1"] Cons.prems False
      by (subst strchr.simps) (auto split: option.splits)
  qed
qed

lemma strrchr_from_cstr:
  assumes "cstr m p s"
  shows "strrchr_from m p ch ret
    = Some (case List.find (\<lambda>i. (s @ [0]) ! i = word_of_int ch) (rev [0 ..< length s + 1]) of
              None \<Rightarrow> ret | Some i \<Rightarrow> p + i)"
  using assms
proof (induction s arbitrary: p ret)
  case Nil
  then show ?case by (subst strrchr_from.simps) (auto simp: upt_rec)
next
  case (Cons c s)
  have r: "rev [0 ..< Suc (Suc (length s))] = map Suc (rev [0 ..< Suc (length s)]) @ [0]"
    by (simp add: rev_map [symmetric] map_Suc_upt upt_conv_Cons del: upt_Suc)
  have fa: "List.find P (xs @ ys) = (case List.find P xs of None \<Rightarrow> List.find P ys | Some x \<Rightarrow> Some x)" for P :: "nat \<Rightarrow> bool" and xs ys
    by (induction xs) auto
  show ?case
    using Cons.IH [of "p + 1"] Cons.prems
    by (subst strrchr_from.simps) (auto simp: r fa find_map comp_def Let_def simp del: upt_Suc split: option.splits)
qed

lemma strcpy_from_cstr:
  assumes "cstr m (src + i) s" "dest \<le> src \<or> src + i + length s + 1 \<le> dest"
  shows "strcpy_from dest src i m = Some (memcpy (dest + i) (src + i) (length s + 1) m)"
  using assms
proof (induction s arbitrary: i m)
  case Nil
  then show ?case by (subst strcpy_from.simps) (auto simp: Let_def)
next
  case (Cons c s)
  let ?m = "m(dest + i := m (src + i))"
  have nz: "?m (src + i) \<noteq> 0" using Cons.prems by auto
  have m: "cstr ?m (src + (i + 1)) s" by (rule cstr_cong [of m]) (use Cons.prems in auto)
  have ih: "strcpy_from dest src (i + 1) ?m
      = Some (memcpy (dest + (i + 1)) (src + (i + 1)) (length s + 1) ?m)"
    by (rule Cons.IH [OF m]) (use Cons.prems in auto)
  have "memcpy (dest + i) (src + i) (length (c # s) + 1) m
      = memcpy (dest + (i + 1)) (src + (i + 1)) (length s + 1) ?m"
    by (simp only: list.size add_Suc_right add_Suc add_0_right memcpy.simps(2) [of _ _ "Suc (length s)"]
        One_nat_def)
  then show ?case using nz ih by (subst strcpy_from.simps) (simp only: Let_def if_False)
qed

lemma strcpy_cstr:
  assumes "cstr m src s" "dest \<le> src \<or> src + length s + 1 \<le> dest"
  shows "strcpy dest src m = Some (memcpy dest src (length s + 1) m)"
  using strcpy_from_cstr [of m src 0 s dest] assms by (simp add: strcpy_def)

lemma strncpy_at:
  assumes "cstr m src s" "dest \<le> src \<or> src + length s + 1 \<le> dest"
  shows "strncpy dest src n m x
    = (if dest \<le> x \<and> x < dest + n then (if x - dest < length s then s ! (x - dest) else 0) else m x)"
  using assms
proof (induction n arbitrary: dest src s m)
  case (Suc n)
  show ?case
  proof (cases s)
    case Nil
    then show ?thesis using Suc.prems by (auto simp: Let_def memset_at)
  next
    case (Cons c s')
    let ?m = "m(dest := m src)"
    have m: "cstr ?m (src + 1) s'" by (rule cstr_cong [of m]) (use Suc.prems Cons in auto)
    have "strncpy (dest + 1) (src + 1) n ?m x = (if dest + 1 \<le> x \<and> x < dest + 1 + n
        then (if x - (dest + 1) < length s' then s' ! (x - (dest + 1)) else 0) else ?m x)"
      by (rule Suc.IH [OF m]) (use Suc.prems Cons in auto)
    moreover have "x - dest = Suc (x - (dest + 1))" if "dest + 1 \<le> x" using that by simp
    ultimately show ?thesis
      using Suc.prems Cons by (cases "dest + 1 \<le> x"; cases "x = dest") (auto simp: Let_def)
  qed
qed auto

lemma bytes_at_prefix:
  "cstr m p s \<Longrightarrow> 0 \<notin> set t \<Longrightarrow> bytes_at m p (length t) = t \<longleftrightarrow> prefix t s"
proof (induction s arbitrary: p t)
  case Nil
  then show ?case by (cases t) (auto simp: bytes_at_Suc)
next
  case (Cons c s)
  then show ?case by (cases t) (auto simp: bytes_at_Suc)
qed

lemma cstr_bytes_at: "cstr m p s \<Longrightarrow> bytes_at m p (length s) = s"
  by (induction s arbitrary: p) (auto simp: bytes_at_Suc bytes_at_def [of _ _ 0])

lemma strstr_from_cstr:
  assumes "cstr m p s" "cstr m q t"
  shows "strstr_from m p q (length t)
    = Some (case List.find (\<lambda>i. prefix t (drop i s)) [0 ..< length s] of None \<Rightarrow> 0 | Some i \<Rightarrow> p + i)"
  using assms(1)
proof (induction s arbitrary: p)
  case Nil
  then show ?case by (subst strstr_from.simps) simp
next
  case (Cons c s)
  have t: "0 \<notin> set t" using assms(2) by (simp add: cstr_iff)
  have c: "memcmp m p q (length t) = 0 \<longleftrightarrow> prefix t (c # s)"
    using bytes_at_prefix [OF Cons.prems t] cstr_bytes_at [OF assms(2)] by (simp add: memcmp_zero)
  have u: "[0 ..< Suc (length s)] = 0 # map Suc [0 ..< length s]"
    by (simp add: map_Suc_upt upt_conv_Cons del: upt_Suc)
  show ?case
    using Cons.IH [of "p + 1"] Cons.prems c
    by (subst strstr_from.simps) (auto simp: u find_map comp_def simp del: upt_Suc split: option.splits)
qed

lemma strncmp_zero: "strncmp m l r n = 0 \<longleftrightarrow> bytes_at m l n = bytes_at m r n"
proof (induction n arbitrary: l r)
  case (Suc n)
  have "uchar m l - uchar m r = 0 \<longleftrightarrow> m l = m r" 
    by (auto simp: uchar_def intro: unsigned_word_eqI)
  then show ?case using Suc.IH [of "l + 1" "r + 1"] by (auto simp: bytes_at_Suc)
qed (simp add: bytes_at_def)

definition lower :: "8 word \<Rightarrow> int" where "lower c = tolower (sint c)"

lemma lower_0 [simp]: "lower c = 0 \<longleftrightarrow> c = 0"
  by (auto simp: lower_def tolower_def signed_eq_0_iff)

lemma strcasecmp_cstr:
  assumes "cstr m l s" "cstr m r t"
  shows "\<exists>v. strcasecmp m l r = Some v \<and> (v = 0 \<longleftrightarrow> map lower s = map lower t)"
  using assms
proof (induction s arbitrary: l r t)
  case Nil
  have "tolower 0 = 0" by (simp add: tolower_def)
  with Nil show ?case
    by (subst strcasecmp.simps) (cases t; auto simp: schar_def simp flip: lower_def)
next
  case (Cons c s)
  show ?case
  proof (cases "t \<noteq> [] \<and> lower c = lower (hd t)")
    case True
    then obtain d t' where t: "t = d # t'" "lower c = lower d" by (cases t) auto
    then have "strcasecmp m l r = strcasecmp m (l + 1) (r + 1)"
      using Cons.prems by (subst strcasecmp.simps) (simp add: schar_def lower_def)
    then show ?thesis using Cons.IH [of "l + 1" "r + 1" t'] Cons.prems t by auto
  next
    case False
    moreover have "tolower 0 = 0" by (simp add: tolower_def)
    ultimately show ?thesis
      using Cons.prems lower_0 [of c]
      by (subst strcasecmp.simps) (cases t; auto simp: schar_def simp flip: lower_def simp del: lower_0)
  qed
qed

lemma strncasecmp_cstr:
  assumes "cstr m l s" "cstr m r t"
  shows "strncasecmp m l r n = 0 \<longleftrightarrow> map lower (take n s) = map lower (take n t)"
  using assms
proof (induction n arbitrary: l r s t)
  case (Suc n)
  have u: "uchar m l - uchar m r = 0 \<longleftrightarrow> m l = m r" 
    by (auto simp: uchar_def intro: unsigned_word_eqI)
  show ?case
    using Suc.prems Suc.IH [of "l + 1" "tl s" "r + 1" "tl t"] u
    by (cases s; cases t) (auto simp: schar_def simp flip: lower_def)
qed simp

section \<open>Routines that allocate\<close>

definition in_block :: "nat \<Rightarrow> nat \<Rightarrow> (nat \<times> nat) list \<Rightarrow> bool" where
  \<comment> \<open>the bytes lie inside one block the program holds\<close>
  "in_block a n live \<longleftrightarrow> (\<exists>p k. (p, k) \<in> set live \<and> p \<le> a \<and> a + n \<le> p + k)"

lemma reachable_memcpy:
  assumes "heap_reachable h live" "in_block d n live"
  shows "heap_reachable (h\<lparr>hmem := memcpy d s n (hmem h)\<rparr>) live"
  using assms
proof (induction n arbitrary: d s h)
  case (Suc n)
  let ?h = "store_byte d (hmem h s) h"
  obtain p k where pk: "(p, k) \<in> set live" "p \<le> d" "d + Suc n \<le> p + k"
    using Suc.prems(2) by (auto simp: in_block_def)
  have "heap_step (h, live) (store_byte (p + (d - p)) (hmem h s) h, live)"
    by (rule do_store [OF pk(1)]) (use pk in simp)
  then have "heap_reachable ?h live" using reachable_step [OF Suc.prems(1)] pk(2) by simp
  moreover have "in_block (d + 1) n live"
    unfolding in_block_def by (intro exI [of _ p] exI [of _ k]) (use pk in simp)
  ultimately have "heap_reachable (?h\<lparr>hmem := memcpy (d + 1) (s + 1) n (hmem ?h)\<rparr>) live"
    by (rule Suc.IH)
  then show ?case by (simp add: store_byte_def)
qed simp

lemma same_bytes_in_block:
  assumes "same_bytes m m' (set live)" "in_block a n live" "i < n"
  shows "m' (a + i) = m (a + i)"
proof -
  obtain p k where pk: "(p, k) \<in> set live" "p \<le> a" "a + n \<le> p + k"
    using assms(2) by (auto simp: in_block_def)
  have "a - p + i < k" using pk assms(3) by linarith
  then have "m' (p + (a - p + i)) = m (p + (a - p + i))"
    using assms(1) pk(1) by (simp add: same_bytes_def)
  then show ?thesis using pk(2) by simp
qed

lemma reachable_malloc:
  assumes "heap_reachable h live" "0 < n" "heap_room n h"
  obtains p h' where "malloc n h = Some (p, h')" "heap_reachable h' ((p, n) # live)"
    "same_bytes (hmem h) (hmem h') (set live)" "\<And>b. b \<in> set live \<Longrightarrow> apart (p, n) b"
    "(p, n) \<notin> set live"
proof -
  obtain p h' where m: "malloc n h = Some (p, h')" "tracks user_holds h' ((p, n) # live)"
    "same_bytes (hmem h) (hmem h') (set live)"
    using heap.tracks_alloc [OF reachable_tracks [OF assms(1)] assms(2,3)] by blast
  have "(p, n) \<notin> set live" using m(2) by (auto simp: tracks_def image_iff)
  then show thesis
    using that m(1,3) reachable_step [OF assms(1) do_malloc [OF assms(2,3) m(1)]]
      apart_from_new [OF m(2)] by (metis prod.collapse)
qed

lemma apart_in_block:
  assumes "\<And>b. b \<in> set live \<Longrightarrow> apart (p, n) b" "in_block a k live" "x < n" "y < k"
  shows "p + x \<noteq> a + y"
proof -
  obtain q j where q: "(q, j) \<in> set live" "q \<le> a" "a + k \<le> q + j" using assms(2) by (auto simp: in_block_def)
  then show ?thesis using assms(1) [OF q(1)] assms(3,4) by (auto simp: apart_def)
qed

lemma in_block_Cons: "in_block a k live \<Longrightarrow> in_block a k (b # live)"
  by (auto simp: in_block_def)

lemma memcpy_forward:
  assumes "\<And>i j. i < n \<Longrightarrow> j < n \<Longrightarrow> d + i \<noteq> s + j"
  shows "memcpy d s n m x = (if d \<le> x \<and> x < d + n then m (s + (x - d)) else m x)"
proof (cases n)
  case (Suc k)
  have "d \<le> s \<or> s + n \<le> d"
  proof (rule ccontr)
    assume "\<not> (d \<le> s \<or> s + n \<le> d)"
    then have "d - s < n" "d + 0 = s + (d - s)" by linarith+
    then show False using assms [of 0 "d - s"] Suc by simp
  qed
  then show ?thesis by (rule memcpy_at)
qed auto

text \<open>The copy through a temporary block, which \<open>memmove\<close> makes when the ranges overlap.\<close>

lemma memmove_buffer:
  assumes r: "heap_reachable h live" and n: "0 < n" "heap_room n h"
    and b: "in_block d n live" "in_block s n live"
    and m: "malloc n h = Some (p, h1)"
  defines "h2 \<equiv> h1\<lparr>hmem := memcpy p s n (hmem h1)\<rparr>"
  defines "h3 \<equiv> h2\<lparr>hmem := memcpy d p n (hmem h2)\<rparr>"
  shows "heap_reachable (free p h3) live"
    and "\<forall>q k i. (q, k) \<in> set live \<longrightarrow> i < k \<longrightarrow>
           hmem (free p h3) (q + i)
           = (if d \<le> q + i \<and> q + i < d + n then hmem h (s + (q + i - d)) else hmem h (q + i))"
proof -
  have m': "heap_reachable h1 ((p, n) # live)" "same_bytes (hmem h) (hmem h1) (set live)"
    "\<And>b. b \<in> set live \<Longrightarrow> apart (p, n) b" "(p, n) \<notin> set live"
    by (rule reachable_malloc [OF r n]; use m in simp)+
  have p: "in_block p n ((p, n) # live)" by (auto simp: in_block_def)
  have h2: "heap_reachable h2 ((p, n) # live)"
    unfolding h2_def by (rule reachable_memcpy [OF m'(1) p])
  have h3: "heap_reachable h3 ((p, n) # live)"
    unfolding h3_def by (rule reachable_memcpy [OF h2 in_block_Cons [OF b(1)]])
  have f: "same_bytes (hmem h3) (hmem (free p h3)) (set ((p, n) # live) - {(p, n)})"
    "heap_reachable (free p h3) (remove1 (p, n) ((p, n) # live))"
    using heap.tracks_dealloc(2) [OF reachable_tracks [OF h3], of p n]
      reachable_step [OF h3 do_free, of p n] by simp_all
  then show "heap_reachable (free p h3) live" by simp
  have f': "same_bytes (hmem h3) (hmem (free p h3)) (set live)" using f(1) m'(4) by simp
  have b2: "hmem h2 x = (if p \<le> x \<and> x < p + n then hmem h1 (s + (x - p)) else hmem h1 x)" for x
    unfolding h2_def using memcpy_forward [of n p s "hmem h1" x] apart_in_block [OF m'(3) b(2)] by simp
  have b3: "hmem h3 x = (if d \<le> x \<and> x < d + n then hmem h2 (p + (x - d)) else hmem h2 x)" for x
  proof -
    have "d + i \<noteq> p + j" if "i < n" "j < n" for i j
      using apart_in_block [OF m'(3) b(1) that(2,1)] by simp
    from memcpy_forward [OF this] show ?thesis by (simp add: h3_def)
  qed
  show "\<forall>q k i. (q, k) \<in> set live \<longrightarrow> i < k \<longrightarrow>
           hmem (free p h3) (q + i)
           = (if d \<le> q + i \<and> q + i < d + n then hmem h (s + (q + i - d)) else hmem h (q + i))"
  proof (intro allI impI)
    fix q k i assume q: "(q, k) \<in> set live" "i < k"
    have e: "hmem (free p h3) (q + i) = hmem h3 (q + i)" "hmem h1 (q + i) = hmem h (q + i)"
      using f' m'(2) q by (auto simp: same_bytes_def)
    have out: "\<not> (p \<le> q + i \<and> q + i < p + n)" using m'(3) [OF q(1)] q(2) by (auto simp: apart_def)
    have inner: "hmem h2 (p + j) = hmem h (s + j)" if "j < n" for j
      using same_bytes_in_block [OF m'(2) b(2) that] that by (simp add: b2)
    show "hmem (free p h3) (q + i)
        = (if d \<le> q + i \<and> q + i < d + n then hmem h (s + (q + i - d)) else hmem h (q + i))"
    proof (cases "d \<le> q + i \<and> q + i < d + n")
      case True
      then have "q + i - d < n" by linarith
      from inner [OF this] show ?thesis unfolding e(1) b3 using True by simp
    next
      case False
      then show ?thesis unfolding e(1) b3 using out e(2) b2 [of "q + i"] by auto
    qed
  qed
qed

text \<open>\<open>memmove\<close> between ranges of blocks the program holds moves the bytes as they
  were before the call, whether or not the ranges overlap, changes no other byte of any
  block, and gives back the block it copies through.\<close>
theorem memmove_moves:
  assumes "heap_reachable h live" "heap_room n h" "in_block d n live" "in_block s n live"
  shows "\<exists>h'. memmove d s n h = Some h' \<and> heap_reachable h' live
    \<and> (\<forall>q k i. (q, k) \<in> set live \<longrightarrow> i < k \<longrightarrow> hmem h' (q + i)
         = (if d \<le> q + i \<and> q + i < d + n then hmem h (s + (q + i - d)) else hmem h (q + i)))"
proof (cases "d > s \<and> d - s \<ge> n \<or> s > d \<and> s - d \<ge> n")
  case True
  let ?h = "h\<lparr>hmem := memcpy d s n (hmem h)\<rparr>"
  have "memmove d s n h = Some ?h" using True by (auto simp: memmove_def)
  moreover have "memcpy d s n (hmem h) x = (if d \<le> x \<and> x < d + n then hmem h (s + (x - d)) else hmem h x)" for x
    by (rule memcpy_forward) (use True in auto)
  ultimately show ?thesis using reachable_memcpy [OF assms(1,3)] by simp
next
  case False
  show ?thesis
  proof (cases n)
    case 0
    then show ?thesis using False assms(1) by (auto simp: memmove_def malloc_def free_def)
  next
    case (Suc k)
    then have n: "0 < n" by simp
    obtain p h1 where m: "malloc n h = Some (p, h1)" by (rule reachable_malloc [OF assms(1) n assms(2)])
    then have "memmove d s n h = Some (free p (h1\<lparr>hmem := memcpy d p n (memcpy p s n (hmem h1))\<rparr>))"
      using False by (auto simp: memmove_def Let_def)
    then show ?thesis using memmove_buffer [OF assms(1) n assms(2-4) m] by simp
  qed
qed

theorem memmove_moves_witness:
  "case malloc 20 (init_heap (\<lambda>_. 0)) of None \<Rightarrow> False
   | Some (p, h) \<Rightarrow> \<exists>h'. memmove (p + 4) (p + 3) 5 h = Some h' \<and> hmem h' (p + 8) = hmem h (p + 7)"
proof -
  obtain p h where m: "malloc 20 (init_heap (\<lambda>_. 0)) = Some (p, h)" "heap_reachable h [(p, 20)]"
    using first_malloc [of 20 "\<lambda>_. 0"] by auto
  have "heap_room 5 h" using first_malloc_size [OF m(1)] by (simp add: heap_room_def)
  moreover have "in_block (p + 4) 5 [(p, 20)]" "in_block (p + 3) 5 [(p, 20)]"
    by (auto simp: in_block_def)
  ultimately obtain h' where h': "memmove (p + 4) (p + 3) 5 h = Some h'"
    "\<forall>q k i. (q, k) \<in> set [(p, 20)] \<longrightarrow> i < k \<longrightarrow> hmem h' (q + i)
       = (if p + 4 \<le> q + i \<and> q + i < p + 4 + 5 then hmem h (p + 3 + (q + i - (p + 4))) else hmem h (q + i))"
    using memmove_moves [OF m(2)] by blast
  have "hmem h' (p + 8) = hmem h (p + 7)" using h'(2) [rule_format, of p 20 8]
    by (simp add: ac_simps)
  then show ?thesis using m(1) h'(1) by simp
qed

text \<open>On two C strings \<open>strcmp\<close> returns; the result is zero exactly when the strings
  are equal and negative exactly when the first comes before the second in the order of
  their signed characters, the terminator included.\<close>
theorem strcmp_order:
  assumes "cstr m l s" "cstr m r t"
  shows "\<exists>v. strcmp m l r = Some v \<and> (v = 0 \<longleftrightarrow> s = t) \<and> (v < 0 \<longleftrightarrow> signed_less s t)"
  by (rule strcmp_cstr [OF assms])

theorem strcmp_order_witness:
  "\<exists>v. strcmp (\<lambda>a. if a = 10 then 1 else 0) 10 20 = Some v \<and> v \<noteq> 0"
  using strcmp_order [of "\<lambda>a. if a = 10 then 1 else 0" 10 "[1]" 20 "[]"] by auto

text \<open>\<open>strncmp\<close> does not stop at the end of the strings: its result is zero exactly
  when all \<open>count\<close> bytes agree, those behind a common terminator included.\<close>
theorem strncmp_compares_all:
  "strncmp m l r n = 0 \<longleftrightarrow> bytes_at m l n = bytes_at m r n"
  by (rule strncmp_zero)

text \<open>\<open>strstr\<close> of two C strings returns the address of the first occurrence, or NULL
  when there is none; on an empty text it returns NULL even for the empty pattern.\<close>
theorem strstr_first:
  assumes "cstr m p s" "cstr m q t"
  shows "strstr m p q = Some (case List.find (\<lambda>i. prefix t (drop i s)) [0 ..< length s] of
           None \<Rightarrow> 0 | Some i \<Rightarrow> p + i)"
  using strstr_from_cstr [OF assms] strlen_cstr [OF assms(2)] by (simp add: strstr_def)

theorem strstr_first_witness:
  "strstr (\<lambda>a. if a = 10 then 1 else 0) 10 20 = Some 10 \<and> strstr (\<lambda>a. 0) 10 20 = Some 0"
  using strstr_first [of "\<lambda>a. if a = 10 then 1 else 0" 10 "[1]" 20 "[]"]
    strstr_first [of "\<lambda>a. 0" 10 "[]" 20 "[]"] by simp

text \<open>\<open>strncpy\<close> of a C string writes exactly n bytes, the string and then zeros, and
  no terminator when the string is n bytes or longer.\<close>
theorem strncpy_exact:
  assumes "cstr m src s" "dest \<le> src \<or> src + length s + 1 \<le> dest"
  shows "bytes_at (strncpy dest src n m) dest n = take n s @ replicate (n - length s) 0
    \<and> frame {dest ..< dest + n} m (strncpy dest src n m)"
proof
  have "bytes_at (strncpy dest src n m) dest n ! i = (take n s @ replicate (n - length s) 0) ! i"
    if "i < n" for i
    using that by (simp add: bytes_at_def strncpy_at [OF assms] nth_append)
  then show "bytes_at (strncpy dest src n m) dest n = take n s @ replicate (n - length s) 0"
    by (intro nth_equalityI) auto
  show "frame {dest ..< dest + n} m (strncpy dest src n m)"
    by (simp add: frame_def strncpy_at [OF assms])
qed

theorem strncpy_exact_witness:
  "bytes_at (strncpy 50 10 3 (\<lambda>a. if a = 10 then 1 else 0)) 50 3 = [1, 0, 0]"
  using strncpy_exact [of "\<lambda>a. if a = 10 then 1 else 0" 10 "[1]" 50 3]
  by (simp add: numeral_2_eq_2)

section \<open>strdup\<close>

lemma in_block_self: "(p, n) \<in> set live \<Longrightarrow> in_block p n live"
  unfolding in_block_def by blast

lemma cstr_same_bytes:
  assumes "cstr m p s" "same_bytes m m' (set live)" "in_block p (length s + 1) live"
  shows "cstr m' p s"
  by (rule cstr_cong [OF assms(1)]) (rule same_bytes_in_block [OF assms(2,3)], simp)

text \<open>\<open>strdup\<close> of a C string in a block the program holds returns a new block with the
  same string, apart from every other block.\<close>
theorem strdup_copies:
  assumes "heap_reachable h live" "cstr (hmem h) p s" "in_block p (length s + 1) live"
    "heap_room (length s + 1) h"
  shows "\<exists>q h'. strdup p h = Some (q, h') \<and> cstr (hmem h') q s
    \<and> heap_reachable h' ((q, length s + 1) # live) \<and> same_bytes (hmem h) (hmem h') (set live)"
proof -
  let ?n = "length s + 1"
  obtain q h1 where m: "malloc ?n h = Some (q, h1)" "heap_reachable h1 ((q, ?n) # live)"
    "same_bytes (hmem h) (hmem h1) (set live)" "\<And>b. b \<in> set live \<Longrightarrow> apart (q, ?n) b"
    by (rule reachable_malloc [OF assms(1) _ assms(4)]) auto
  have c1: "cstr (hmem h1) p s" by (rule cstr_same_bytes [OF assms(2) m(3) assms(3)])
  have ne: "q + i \<noteq> p + j" if "i < ?n" "j < ?n" for i j
    by (rule apart_in_block [OF m(4) assms(3) that])
  have d: "q \<le> p \<or> p + length s + 1 \<le> q"
  proof (rule ccontr)
    assume "\<not> (q \<le> p \<or> p + length s + 1 \<le> q)"
    then have "q - p < ?n" "q + 0 = p + (q - p)" by linarith+
    then show False using ne [of 0 "q - p"] by simp
  qed
  define M where "M = memcpy q p ?n (hmem h1)"
  have at: "M x = (if q \<le> x \<and> x < q + ?n then hmem h1 (p + (x - q)) else hmem h1 x)" for x
    unfolding M_def by (rule memcpy_forward) (rule ne)
  have sd: "strdup p h = Some (q, h1\<lparr>hmem := M\<rparr>)"
    using strlen_cstr [OF assms(2)] m(1) strcpy_cstr [OF c1 d] by (simp add: strdup_def M_def)
  have "cstr M q s"
  proof -
    have "bytes_at M q ?n = bytes_at (hmem h1) p ?n"
      unfolding bytes_at_def by (rule map_cong) (auto simp: at)
    then show ?thesis using c1 by (simp add: cstr_iff)
  qed
  moreover have "heap_reachable (h1\<lparr>hmem := M\<rparr>) ((q, ?n) # live)"
    unfolding M_def by (rule reachable_memcpy [OF m(2) in_block_self]) simp
  moreover have "same_bytes (hmem h) M (set live)"
    unfolding same_bytes_def
  proof (intro allI impI)
    fix r k i assume r: "(r, k) \<in> set live" "i < k"
    have "\<not> (q \<le> r + i \<and> r + i < q + ?n)" using m(4) [OF r(1)] r(2) by (auto simp: apart_def)
    then have "M (r + i) = hmem h1 (r + i)" by (auto simp: at)
    then show "M (r + i) = hmem h (r + i)" using m(3) r by (simp add: same_bytes_def)
  qed
  ultimately show ?thesis using sd by simp
qed

theorem strdup_copies_witness:
  "case malloc 20 (init_heap (\<lambda>_. 0)) of None \<Rightarrow> False
   | Some (p, h) \<Rightarrow> \<exists>q h'. strdup p (store_byte p 0 h) = Some (q, h') \<and> hmem h' q = 0"
proof -
  obtain p h where m: "malloc 20 (init_heap (\<lambda>_. 0)) = Some (p, h)" "heap_reachable h [(p, 20)]"
    using first_malloc [of 20 "\<lambda>_. 0"] by auto
  have "heap_step (h, [(p, 20)]) (store_byte (p + 0) 0 h, [(p, 20)])" by (rule do_store [of p 20]) simp_all
  from reachable_step [OF m(2) this] have r: "heap_reachable (store_byte p 0 h) [(p, 20)]" by simp
  have "heap_room (length ([] :: 8 word list) + 1) (store_byte p 0 h)"
    using first_malloc_size [OF m(1)] by (simp add: heap_room_def store_byte_def)
  moreover have "cstr (hmem (store_byte p 0 h)) p []" by (simp add: store_byte_def)
  moreover have "in_block p (length ([] :: 8 word list) + 1) [(p, 20)]" by (auto simp: in_block_def)
  ultimately obtain q h' where "strdup p (store_byte p 0 h) = Some (q, h')" "cstr (hmem h') q []"
    using strdup_copies [OF r] by blast
  then show ?thesis using m(1) by simp
qed

section \<open>UTF-8\<close>

lemma or_shift:
  assumes "x < 2 ^ k"
  shows "or x (y * 2 ^ k) = x + y * (2 ^ k :: nat)"
proof -
  have "x = take_bit k x" using assms by (simp add: take_bit_nat_eq_self)
  then have "\<not> bit x n \<or> \<not> bit (push_bit k y) n" for n
    by (metis bit_push_bit_iff bit_take_bit_iff linorder_not_le)
  then have "x + push_bit k y = or x (push_bit k y)" by (rule disjunctive_add)
  then show ?thesis by (simp add: push_bit_eq_mult)
qed

lemma lead_byte:
  "q < 32 \<Longrightarrow> unat (word_of_nat (or 192 q) :: 8 word) = 192 + q"
  "q < 16 \<Longrightarrow> unat (word_of_nat (or 224 q) :: 8 word) = 224 + q"
  "q < 8 \<Longrightarrow> unat (word_of_nat (or 240 q) :: 8 word) = 240 + q"
  using or_shift [of q 6 3] or_shift [of q 5 7] or_shift [of q 4 15]
  by (simp_all only: unat_byte) (simp_all add: or.commute)

lemma or_128_mod: "or 128 c mod 64 = (c mod 64 :: nat)"
proof -
  have "take_bit 6 (or 128 c) = or (take_bit 6 128) (take_bit 6 c :: nat)" by (rule take_bit_or)
  then show ?thesis by (simp add: take_bit_eq_mod)
qed

lemma or_6: "x < 64 \<Longrightarrow> or x (y * 64) = x + y * (64 :: nat)"
  using or_shift [of x 6 y] by simp

lemma or_12: "x < 4096 \<Longrightarrow> or x (y * 4096) = x + y * (4096 :: nat)"
  using or_shift [of x 12 y] by simp

lemma or_18: "x < 262144 \<Longrightarrow> or x (y * 262144) = x + y * (262144 :: nat)"
  using or_shift [of x 18 y] by simp

lemma cont_byte: "unat (word_of_nat (or 128 c) :: 8 word) mod 64 = c mod 64"
  by (simp only: unat_byte) (simp add: mod_mod_cancel or_128_mod)

lemma decode_forms:
  fixes b0 b1 b2 b3 :: nat
  shows "b0 < 32 \<Longrightarrow> or (b1 mod 64) ((192 + b0) mod 32 * 64) = b1 mod 64 + b0 * 64"
    "b0 < 16 \<Longrightarrow> or (or (b2 mod 64) (b1 mod 64 * 64)) ((224 + b0) mod 16 * 4096)
       = b2 mod 64 + b1 mod 64 * 64 + b0 * 4096"
    "b0 < 8 \<Longrightarrow> or (or (or (b3 mod 64) (b2 mod 64 * 64)) (b1 mod 64 * 4096)) ((240 + b0) mod 8 * 262144)
       = b3 mod 64 + b2 mod 64 * 64 + b1 mod 64 * 4096 + b0 * 262144"
proof -
  have lt: "x mod 64 < 64" for x :: nat by simp
  have s2: "x mod 64 + y mod 64 * 64 < 4096" for x y :: nat using lt [of x] lt [of y] by linarith
  have s3: "x mod 64 + y mod 64 * 64 + z mod 64 * 4096 < 262144" for x y z :: nat
    using s2 [of x y] lt [of z] by linarith
  have m: "b0 < 32 \<Longrightarrow> (192 + b0) mod 32 = b0" "b0 < 16 \<Longrightarrow> (224 + b0) mod 16 = b0"
    "b0 < 8 \<Longrightarrow> (240 + b0) mod 8 = b0"
    using mod_mult_self1 [of b0 6 32] mod_mult_self1 [of b0 14 16] mod_mult_self1 [of b0 30 8]
    by (simp_all add: add.commute)
  show "b0 < 32 \<Longrightarrow> or (b1 mod 64) ((192 + b0) mod 32 * 64) = b1 mod 64 + b0 * 64"
    using or_6 [OF lt [of b1]] m(1) by simp
  show "b0 < 16 \<Longrightarrow> or (or (b2 mod 64) (b1 mod 64 * 64)) ((224 + b0) mod 16 * 4096)
       = b2 mod 64 + b1 mod 64 * 64 + b0 * 4096"
    using or_6 [OF lt [of b2]] or_12 [OF s2] m(2) by simp
  show "b0 < 8 \<Longrightarrow> or (or (or (b3 mod 64) (b2 mod 64 * 64)) (b1 mod 64 * 4096)) ((240 + b0) mod 8 * 262144)
       = b3 mod 64 + b2 mod 64 * 64 + b1 mod 64 * 4096 + b0 * 262144"
    using or_6 [OF lt [of b3]] or_12 [OF s2] or_18 [OF s3] m(3) by simp
qed

text \<open>Every code point up to 0x10FFFF that the kernel encodes, the library decodes
  back, with the same number of bytes.\<close>
theorem utf8_roundtrip:
  assumes "c \<le> 0x10FFFF"
  shows "case SetUnicodeToUTF8 c s m of (n, m') \<Rightarrow> 1 \<le> n \<and> n \<le> 4 \<and> utf8_str_to_unicode_num m' s = (n, c)"
proof -
  have d: "c div 4096 = c div 64 div 64" "c div 262144 = c div 64 div 64 div 64"
    using div_mult2_eq [of c 64 64] div_mult2_eq [of c 4096 64] by simp_all
  have q: "c mod 64 + c div 64 * 64 = c" "c div 64 mod 64 + c div 4096 * 64 = c div 64"
    "c div 4096 mod 64 + c div 262144 * 64 = c div 4096"
    unfolding d by (simp_all add: mod_div_mult_eq)
  consider "c \<le> 0x7F" | "0x7F < c" "c \<le> 0x7FF" | "0x7FF < c" "c \<le> 0xFFFF" | "0xFFFF < c"
    by linarith
  then show ?thesis
  proof cases
    case 1
    then show ?thesis by (simp add: SetUnicodeToUTF8_def utf8_str_to_unicode_num_def unat_byte)
  next
    case 2
    then have l: "c div 64 < 32" by simp
    show ?thesis
      using 2 l q(1) lead_byte(1) [OF l] decode_forms(1) [OF l, of c]
      by (simp add: SetUnicodeToUTF8_def utf8_str_to_unicode_num_def cont_byte Let_def)
  next
    case 3
    then have l: "c div 4096 < 16" by simp
    have "c mod 64 + c div 64 mod 64 * 64 + c div 4096 * 4096 = c" using q(1,2) by linarith
    then show ?thesis
      using 3 l lead_byte(2) [OF l] decode_forms(2) [OF l, of c "c div 64"]
      by (simp add: SetUnicodeToUTF8_def utf8_str_to_unicode_num_def cont_byte Let_def)
  next
    case 4
    then have l: "c div 262144 < 8" using assms by simp
    have "c mod 64 + c div 64 mod 64 * 64 + c div 4096 mod 64 * 4096 + c div 262144 * 262144 = c"
      using q by linarith
    then show ?thesis
      using 4 assms l lead_byte(3) [OF l] decode_forms(3) [OF l, of c "c div 64" "c div 4096"]
      by (simp add: SetUnicodeToUTF8_def utf8_str_to_unicode_num_def cont_byte Let_def)
  qed
qed

theorem utf8_roundtrip_witness:
  "utf8_str_to_unicode_num (snd (SetUnicodeToUTF8 0xD55C 8 (\<lambda>_. 0))) 8 = (fst (SetUnicodeToUTF8 0xD55C 8 (\<lambda>_. 0)), 0xD55C)"
  using utf8_roundtrip [of "0xD55C" 8 "\<lambda>_. 0"] by (auto split: prod.splits)

lemma utf8_bad_continuation:
  "snd (SetUnicodeToUTF8 0xE9 8 m) 9 = 0xE9"
  by (simp add: SetUnicodeToUTF8_def)

end
