(* ===== verification/Scanf.thy ===== *)
theory Scanf
  imports CStringProps
begin

text \<open>
  \<open>user/libc/scanf.c\<close>, and the integer conversions of \<open>user/libc/stdlib.c\<close>. An \<open>int\<close> is a
  32 bit value that wraps (\<open>i32\<close>). The matchers read the buffer at \<open>buffer + current\<close> and
  return the new position and the value they leave in \<open>*num\<close>; \<open>sscanf\<close> stores it through
  the next pointer argument, the arguments being a list of addresses, and is \<open>None\<close> when a
  conversion finds no argument left.
\<close>

section \<open>Conversions\<close>

definition i32 :: "int \<Rightarrow> int" where
  "i32 x = (x + 2 ^ 31) mod 2 ^ 32 - 2 ^ 31"

definition abs_int :: "int \<Rightarrow> int" where
  "abs_int n = (if n < 0 then i32 (- n) else n)"

definition labs :: "int \<Rightarrow> int" where
  "labs n = (if n < 0 then (- n + 2 ^ 63) mod 2 ^ 64 - 2 ^ 63 else n)"

partial_function (option) atoi_from :: "mem \<Rightarrow> nat \<Rightarrow> int \<Rightarrow> int option" where
  "atoi_from m str num =
     (if m str \<noteq> 0 then atoi_from m (str + 1) (i32 (i32 (num * 10) + (schar m str - 48)))
      else Some num)"

definition atoi :: "mem \<Rightarrow> nat \<Rightarrow> int option" where
  "atoi m str = atoi_from m str 0"

definition GetHexValue :: "int \<Rightarrow> int" where
  "GetHexValue c =
     (if isdigit c then c - 48
      else if 97 \<le> tolower c \<and> tolower c \<le> 102 then tolower c - 97 + 10
      else - 1)"

section \<open>Matchers\<close>

partial_function (option) skip_spaces :: "mem \<Rightarrow> nat \<Rightarrow> nat \<Rightarrow> nat option" where
  "skip_spaces m buffer current =
     (if isspace (schar m (buffer + current)) then skip_spaces m buffer (current + 1)
      else Some current)"

definition read_sign :: "mem \<Rightarrow> nat \<Rightarrow> nat \<Rightarrow> int \<times> nat" where
  "read_sign m buffer current =
     (if schar m (buffer + current) = 45 then (- 1, current + 1)
      else if schar m (buffer + current) = 43 then (1, current + 1)
      else (1, current))"

partial_function (option) decimal_from :: "mem \<Rightarrow> nat \<Rightarrow> int \<Rightarrow> nat \<Rightarrow> int \<Rightarrow> (nat \<times> int) option" where
  "decimal_from m buffer sign current num =
     (if m (buffer + current) \<noteq> 0 then
        (if \<not> isdigit (schar m (buffer + current)) then Some (current, i32 (num * sign))
         else decimal_from m buffer sign (current + 1)
                (i32 (i32 (num * 10) + (schar m (buffer + current) - 48))))
      else Some (current, i32 (num * sign)))"

definition MatchDecimal :: "mem \<Rightarrow> nat \<Rightarrow> nat \<Rightarrow> (nat \<times> int) option" where
  "MatchDecimal m buffer current0 =
     (case skip_spaces m buffer current0 of
        None \<Rightarrow> None
      | Some current \<Rightarrow>
          (case read_sign m buffer current of
             (sign, current') \<Rightarrow> decimal_from m buffer sign current' 0))"

partial_function (option) hex_from :: "mem \<Rightarrow> nat \<Rightarrow> int \<Rightarrow> nat \<Rightarrow> int \<Rightarrow> (nat \<times> int) option" where
  "hex_from m buffer sign current num =
     (if m (buffer + current) \<noteq> 0 then
        (let digit = GetHexValue (schar m (buffer + current))
         in if digit = - 1 then Some (current, i32 (num * sign))
            else hex_from m buffer sign (current + 1) (i32 (i32 (num * 16) + digit)))
      else Some (current, i32 (num * sign)))"

definition MatchHex :: "mem \<Rightarrow> nat \<Rightarrow> nat \<Rightarrow> (nat \<times> int) option" where
  "MatchHex m buffer current0 =
     (case skip_spaces m buffer current0 of
        None \<Rightarrow> None
      | Some current \<Rightarrow>
          (case read_sign m buffer current of
             (sign, current') \<Rightarrow>
               let at = (\<lambda>i. schar m (buffer + i));
                   start = (if at current' = 48 \<and> (at (current' + 1) = 120 \<or> at (current' + 1) = 88)
                            then current' + 2 else current')
               in hex_from m buffer sign start 0))"

partial_function (option) oct_from :: "mem \<Rightarrow> nat \<Rightarrow> int \<Rightarrow> nat \<Rightarrow> int \<Rightarrow> (nat \<times> int) option" where
  "oct_from m buffer sign current num =
     (if m (buffer + current) \<noteq> 0 then
        (let c = schar m (buffer + current)
         in if \<not> (48 \<le> c \<and> c \<le> 55) then Some (current, i32 (num * sign))
            else oct_from m buffer sign (current + 1) (i32 (i32 (num * 8) + (c - 48))))
      else Some (current, i32 (num * sign)))"

definition MatchOct :: "mem \<Rightarrow> nat \<Rightarrow> nat \<Rightarrow> (nat \<times> int) option" where
  "MatchOct m buffer current0 =
     (case skip_spaces m buffer current0 of
        None \<Rightarrow> None
      | Some current \<Rightarrow>
          (case read_sign m buffer current of
             (sign, current') \<Rightarrow>
               oct_from m buffer sign
                 (if schar m (buffer + current') = 48 then current' + 1 else current') 0))"

section \<open>sscanf\<close>

definition store_int :: "nat \<Rightarrow> int \<Rightarrow> mem \<Rightarrow> mem" where
  "store_int p v m = wr32 m p (nat (v mod 2 ^ 32))"

definition convert :: "int \<Rightarrow> mem \<Rightarrow> nat \<Rightarrow> nat \<Rightarrow> (nat \<times> int) option option" where
  \<comment> \<open>the switch on the conversion character; None for a character it does not know\<close>
  "convert c m buffer pos =
     (if c = 100 then Some (MatchDecimal m buffer pos)
      else if c = 120 then Some (MatchHex m buffer pos)
      else if c = 111 then Some (MatchOct m buffer pos)
      else None)"

function sscanf_from ::
  "nat \<Rightarrow> nat \<Rightarrow> nat \<Rightarrow> nat \<Rightarrow> nat \<Rightarrow> bool \<Rightarrow> nat list \<Rightarrow> mem \<Rightarrow> (nat \<times> mem) option" where
  "sscanf_from buffer format format_length i pos introduced args m =
     (if format_length \<le> i then Some (pos, m)
      else
        let f = schar m (format + i); next = Suc i
        in if isspace f then
             (case skip_spaces m buffer pos of
                None \<Rightarrow> None
              | Some pos' \<Rightarrow> sscanf_from buffer format format_length next pos' introduced args m)
           else if f = 37 then
             (if \<not> introduced then
                sscanf_from buffer format format_length next pos True args m
              else if schar m (buffer + pos) \<noteq> 37 then Some (pos, m)
              else sscanf_from buffer format format_length next (pos + 1) False args m)
           else if introduced then
             (case convert f m buffer pos of
                None \<Rightarrow> sscanf_from buffer format format_length next pos False args m
              | Some r \<Rightarrow>
                  (case args of
                     [] \<Rightarrow> None
                   | p # args' \<Rightarrow>
                       (case r of
                          None \<Rightarrow> None
                        | Some (pos', v) \<Rightarrow>
                            sscanf_from buffer format format_length next pos' False args'
                              (store_int p v m))))
           else if f = schar m (buffer + pos) then
             sscanf_from buffer format format_length next (pos + 1) introduced args m
           else Some (pos, m))"
  by pat_completeness auto

termination
  by (relation "measure (\<lambda>(buffer, format, format_length, i, pos, introduced, args, m). format_length - i)") auto

declare sscanf_from.simps [simp del]

definition sscanf :: "nat \<Rightarrow> nat \<Rightarrow> nat list \<Rightarrow> mem \<Rightarrow> (nat \<times> mem) option" where
  "sscanf buffer format args m =
     (case strlen m format of
        None \<Rightarrow> None
      | Some format_length \<Rightarrow> sscanf_from buffer format format_length 0 0 False args m)"

end
