(* ===== verification/ScanfProps.thy ===== *)
theory ScanfProps
  imports Scanf
begin

text \<open>
  What \<open>atoi\<close>, the matchers and \<open>sscanf\<close> of \<open>user/libc\<close> read: the value of a run of digits
  in the base of the conversion, reduced to 32 bits. The reduction commutes with the
  arithmetic of the loops, so no bound on the number of digits is needed.
\<close>

section \<open>32 bit wrap-around\<close>

lemma i32_mod: "i32 x mod 4294967296 = x mod 4294967296"
  unfolding i32_def by (simp add: mod_simps)

lemma i32_eqI: "x mod 4294967296 = y mod 4294967296 \<Longrightarrow> i32 x = i32 y"
  unfolding i32_def by simp (metis mod_add_left_eq)

lemma i32_mult_left [simp]: "i32 (i32 a * b) = i32 (a * b)"
  by (rule i32_eqI) (metis i32_mod mod_mult_left_eq)

lemma i32_add_left [simp]: "i32 (i32 a + b) = i32 (a + b)"
  by (rule i32_eqI) (metis i32_mod mod_add_left_eq)

lemma i32_i32 [simp]: "i32 (i32 a) = i32 a"
  by (rule i32_eqI) (simp add: i32_mod)

lemma i32_id: "- (2 ^ 31) \<le> x \<Longrightarrow> x < 2 ^ 31 \<Longrightarrow> i32 x = x"
  by (simp add: i32_def)

lemma i32_range: "- (2 ^ 31) \<le> i32 x" "i32 x < 2 ^ 31"
  using pos_mod_bound [of "2 ^ 32" "x + 2 ^ 31"] pos_mod_sign [of "2 ^ 32" "x + 2 ^ 31"]
  by (simp_all add: i32_def)

section \<open>Runs of digits\<close>

definition digits_val :: "int \<Rightarrow> int list \<Rightarrow> int" where
  "digits_val base ds = foldl (\<lambda>a d. a * base + d) 0 ds"

definition dec_digit :: "8 word \<Rightarrow> int" where "dec_digit c = sint c - 48"
definition hex_digit :: "8 word \<Rightarrow> int" where "hex_digit c = GetHexValue (sint c)"

lemma foldl_digits:
  "foldl (\<lambda>a d. a * base + d) (n :: int) ds = n * base ^ length ds + digits_val base ds"
proof (induction ds arbitrary: n)
  case (Cons d ds)
  have "digits_val base (d # ds) = d * base ^ length ds + digits_val base ds"
    unfolding digits_val_def using Cons.IH [of d] by (simp add: digits_val_def)
  then show ?case using Cons.IH [of "n * base + d"] by (simp add: algebra_simps)
qed (simp add: digits_val_def)

lemma digits_val_simps [simp]:
  "digits_val base [] = 0"
  "digits_val base (d # ds) = d * base ^ length ds + digits_val base ds"
  "digits_val base (ds @ [d]) = digits_val base ds * base + d"
  using foldl_digits [of base d ds] by (simp_all add: digits_val_def)

lemma bytes_at_append:
  "bytes_at m p (a + b) = bytes_at m p a @ bytes_at m (p + a) b"
  by (induction a arbitrary: p) (simp_all add: bytes_at_Suc)

lemma bytes_at_split:
  assumes "bytes_at m p (length (xs @ ys)) = xs @ ys"
  shows "bytes_at m p (length xs) = xs" "bytes_at m (p + length xs) (length ys) = ys"
  using assms by (simp_all add: bytes_at_append)

lemma digit_nonzero:
  "isdigit (sint (0 :: 8 word)) = False" "isspace (sint (0 :: 8 word)) = False"
  by (simp_all add: isdigit_def isspace_def)

lemma decimal_from_digits:
  assumes "bytes_at m (b + cur) (length ds) = ds" "\<forall>c \<in> set ds. isdigit (sint c)"
    "\<not> isdigit (schar m (b + cur + length ds))"
  shows "decimal_from m b sign cur num = Some (cur + length ds,
           i32 ((num * 10 ^ length ds + digits_val 10 (map dec_digit ds)) * sign))"
  using assms
proof (induction ds arbitrary: cur num)
  case Nil
  then show ?case by (subst decimal_from.simps) (auto simp: schar_def)
next
  case (Cons c ds)
  have c: "m (b + cur) = c" "bytes_at m (b + (cur + 1)) (length ds) = ds" "isdigit (sint c)" "c \<noteq> 0"
    using Cons.prems digit_nonzero(1) by (auto simp: bytes_at_Suc)
  have "decimal_from m b sign cur num
      = decimal_from m b sign (cur + 1) (i32 (num * 10 + (sint c - 48)))"
    using c by (subst decimal_from.simps) (simp add: schar_def)
  also have "\<dots> = Some (cur + 1 + length ds, i32 ((i32 (num * 10 + (sint c - 48)) * 10 ^ length ds
      + digits_val 10 (map dec_digit ds)) * sign))"
    by (rule Cons.IH) (use c Cons.prems in auto)
  also have "i32 ((i32 (num * 10 + (sint c - 48)) * 10 ^ length ds + digits_val 10 (map dec_digit ds)) * sign)
      = i32 ((num * 10 ^ length (c # ds) + digits_val 10 (map dec_digit (c # ds))) * sign)"
  proof (rule i32_eqI)
    have "(i32 x * y + z) * w mod 4294967296 = (x * y + z) * w mod 4294967296" for x y z w :: int
      by (metis i32_mod mod_add_left_eq mod_mult_left_eq)
    moreover have "num * 10 ^ length (c # ds) + digits_val 10 (map dec_digit (c # ds))
        = (num * 10 + (sint c - 48)) * 10 ^ length ds + digits_val 10 (map dec_digit ds)"
      by (simp add: dec_digit_def algebra_simps)
    ultimately show "(i32 (num * 10 + (sint c - 48)) * 10 ^ length ds + digits_val 10 (map dec_digit ds)) * sign mod 4294967296
        = (num * 10 ^ length (c # ds) + digits_val 10 (map dec_digit (c # ds))) * sign mod 4294967296"
      by (simp only:)
  qed
  finally show ?case by simp
qed

lemma skip_spaces_run:
  assumes "bytes_at m (b + cur) (length ws) = ws" "\<forall>c \<in> set ws. isspace (sint c)"
    "\<not> isspace (schar m (b + cur + length ws))"
  shows "skip_spaces m b cur = Some (cur + length ws)"
  using assms
proof (induction ws arbitrary: cur)
  case Nil
  then show ?case by (subst skip_spaces.simps) simp
next
  case (Cons c ws)
  have "skip_spaces m b (cur + 1) = Some (cur + 1 + length ws)"
    by (rule Cons.IH) (use Cons.prems in \<open>auto simp: bytes_at_Suc\<close>)
  then show ?case using Cons.prems by (subst skip_spaces.simps) (auto simp: bytes_at_Suc schar_def)
qed

text \<open>A number as the matchers accept it: spaces, an optional sign, digits, then something
  that is not a digit.\<close>

definition sign_of :: "8 word list \<Rightarrow> int" where
  "sign_of sg = (if sg = [45] then - 1 else 1)"

definition number_at :: "mem \<Rightarrow> nat \<Rightarrow> 8 word list \<Rightarrow> 8 word list \<Rightarrow> 8 word list \<Rightarrow> bool" where
  "number_at m p ws sg ds \<longleftrightarrow>
     bytes_at m p (length (ws @ sg @ ds)) = ws @ sg @ ds
     \<and> (\<forall>c \<in> set ws. isspace (sint c)) \<and> sg \<in> {[], [45], [43]}
     \<and> ds \<noteq> [] \<and> (\<forall>c \<in> set ds. isdigit (sint c))
     \<and> \<not> isdigit (schar m (p + length (ws @ sg @ ds)))"

lemma isdigit_not: "isdigit x \<Longrightarrow> \<not> isspace x \<and> x \<noteq> 45 \<and> x \<noteq> 43"
  by (auto simp: isdigit_def isspace_def)

lemma MatchDecimal_number:
  assumes "number_at m (b + cur) ws sg ds"
  shows "MatchDecimal m b cur
    = Some (cur + length (ws @ sg @ ds), i32 (digits_val 10 (map dec_digit ds) * sign_of sg))"
proof -
  let ?c1 = "cur + length ws" and ?c2 = "cur + length ws + length sg"
  have b: "bytes_at m (b + cur) (length ws) = ws" "bytes_at m (b + ?c1) (length sg) = sg"
    "bytes_at m (b + ?c2) (length ds) = ds"
    using assms bytes_at_split [of m "b + cur" ws "sg @ ds"] bytes_at_split [of m "b + ?c1" sg ds]
    by (auto simp: number_at_def add.assoc)
  obtain d ds' where d: "ds = d # ds'" using assms by (cases ds) (auto simp: number_at_def)
  have dd: "m (b + ?c2) = d" "isdigit (sint d)"
    using b(3) d assms by (auto simp: bytes_at_Suc number_at_def)
  have first: "sg = [] \<Longrightarrow> schar m (b + ?c1) = sint d" "sg \<noteq> [] \<Longrightarrow> schar m (b + ?c1) = sint (hd sg)"
  proof -
    show "sg = [] \<Longrightarrow> schar m (b + ?c1) = sint d" using dd(1) by (simp add: schar_def)
    show "sg \<noteq> [] \<Longrightarrow> schar m (b + ?c1) = sint (hd sg)"
      using b(2) by (cases sg) (auto simp: schar_def bytes_at_Suc)
  qed
  have sg: "sg \<in> {[], [45], [43]}" using assms by (simp add: number_at_def)
  have "\<not> isspace (schar m (b + ?c1))"
    using first sg isdigit_not [OF dd(2)] by (auto simp: isspace_def)
  then have sk: "skip_spaces m b cur = Some ?c1"
    using skip_spaces_run [OF b(1)] assms by (simp add: number_at_def add.assoc)
  have rs: "read_sign m b ?c1 = (sign_of sg, ?c2)"
    using first sg isdigit_not [OF dd(2)] by (auto simp: read_sign_def sign_of_def)
  have "decimal_from m b (sign_of sg) ?c2 0
      = Some (?c2 + length ds, i32 ((0 * 10 ^ length ds + digits_val 10 (map dec_digit ds)) * sign_of sg))"
    by (rule decimal_from_digits) (use b(3) assms in \<open>auto simp: number_at_def add.assoc\<close>)
  then show ?thesis using sk rs by (simp add: MatchDecimal_def add.assoc)
qed

section \<open>sscanf\<close>

type_synonym number = "8 word list \<times> 8 word list \<times> 8 word list"

definition number_length :: "number \<Rightarrow> nat" where
  "number_length n = (case n of (ws, sg, ds) \<Rightarrow> length (ws @ sg @ ds))"

definition number_value :: "number \<Rightarrow> int" where
  "number_value n = (case n of (ws, sg, ds) \<Rightarrow> i32 (digits_val 10 (map dec_digit ds) * sign_of sg))"

fun numbers_at :: "mem \<Rightarrow> nat \<Rightarrow> number list \<Rightarrow> bool" where
  "numbers_at m p [] \<longleftrightarrow> True"
| "numbers_at m p (n # ns) \<longleftrightarrow>
     (case n of (ws, sg, ds) \<Rightarrow> number_at m p ws sg ds) \<and> numbers_at m (p + number_length n) ns"

abbreviation numbers_length :: "number list \<Rightarrow> nat" where
  "numbers_length ns \<equiv> sum_list (map number_length ns)"

fun store_ints :: "nat list \<Rightarrow> int list \<Rightarrow> mem \<Rightarrow> mem" where
  "store_ints (p # ps) (v # vs) m = store_ints ps vs (store_int p v m)"
| "store_ints ps vs m = m"

definition percent_d :: "nat \<Rightarrow> 8 word list" where
  "percent_d k = concat (replicate k [37, 100])"

lemma percent_d_simps [simp]:
  "percent_d 0 = []" "percent_d (Suc k) = 37 # 100 # percent_d k" "length (percent_d k) = 2 * k"
proof -
  show "length (percent_d k) = 2 * k" by (induction k) (simp_all add: percent_d_def)
qed (simp_all add: percent_d_def)

lemma bytes_at_cong:
  "(\<And>a. p \<le> a \<Longrightarrow> a < p + k \<Longrightarrow> m' a = m a) \<Longrightarrow> bytes_at m' p k = bytes_at m p k"
  by (simp add: bytes_at_def)

lemma numbers_at_cong:
  assumes "\<And>a. p \<le> a \<Longrightarrow> a \<le> p + numbers_length ns \<Longrightarrow> m' a = m a"
  shows "numbers_at m' p ns = numbers_at m p ns"
  using assms
proof (induction ns arbitrary: p)
  case (Cons n ns)
  obtain ws sg ds where n: "n = (ws, sg, ds)" by (cases n)
  have same: "m' a = m a" if "p \<le> a" "a \<le> p + number_length n" for a
    using that Cons.prems by simp
  have "bytes_at m' p (number_length n) = bytes_at m p (number_length n)"
    by (rule bytes_at_cong) (simp add: same)
  moreover have "schar m' (p + number_length n) = schar m (p + number_length n)"
    by (simp add: schar_def same)
  moreover have "numbers_at m' (p + number_length n) ns = numbers_at m (p + number_length n) ns"
    by (rule Cons.IH) (use Cons.prems in simp)
  ultimately show ?case by (simp add: n number_at_def number_length_def)
qed simp

lemma store_int_outside: "a < p \<or> p + 4 \<le> a \<Longrightarrow> store_int p v m a = m a"
  by (simp add: store_int_def wr32_outside)

definition clear_of :: "nat \<Rightarrow> nat \<Rightarrow> nat \<Rightarrow> bool" where
  \<comment> \<open>the four bytes at p are apart from the k + 1 bytes at q\<close>
  "clear_of q k p \<longleftrightarrow> p + 4 \<le> q \<or> q + k < p"

lemma sscanf_from_numbers:
  assumes "cstr m format (percent_d k)" "numbers_at m (buffer + pos) ns" "k = j + length ns"
    "length ns \<le> length ps"
    "\<forall>p \<in> set ps. clear_of (buffer + pos) (numbers_length ns) p \<and> clear_of format (2 * k) p"
  shows "sscanf_from buffer format (2 * k) (2 * j) pos False ps m
    = Some (pos + numbers_length ns, store_ints ps (map number_value ns) m)"
  using assms
proof (induction ns arbitrary: pos ps m j)
  case Nil
  then show ?case by (subst sscanf_from.simps) (cases ps; simp)
next
  case (Cons n ns)
  obtain ws sg ds where n: "n = (ws, sg, ds)" by (cases n)
  obtain p ps' where ps: "ps = p # ps'" using Cons.prems(4) by (cases ps) auto
  have k: "k = j + Suc (length ns)" using Cons.prems(3) by simp
  have "drop (2 * j) (percent_d (j + Suc (length ns))) = percent_d (Suc (length ns))"
    by (induction j) (simp_all add: percent_d_def)
  then have fd: "cstr m (format + 2 * j) (percent_d (Suc (length ns)))"
    using cstr_drop [OF Cons.prems(1), of "2 * j"] k by (simp del: percent_d_simps(2) add_Suc_right)
  then have f: "schar m (format + 2 * j) = 37" "schar m (Suc (format + 2 * j)) = 100"
    by (simp_all add: schar_def)
  have md: "MatchDecimal m buffer pos = Some (pos + number_length n, number_value n)"
    using MatchDecimal_number [of m buffer pos ws sg ds] Cons.prems(2)
    by (simp add: n number_length_def number_value_def)
  let ?m = "store_int p (number_value n) m"
  have out: "?m a = m a" if "\<not> (p \<le> a \<and> a < p + 4)" for a
    using that by (intro store_int_outside) auto
  have cl: "clear_of (buffer + pos) (number_length n + numbers_length ns) p" "clear_of format (2 * k) p"
    using Cons.prems(5) ps by auto
  have fm: "cstr ?m format (percent_d k)"
    by (rule cstr_cong [OF Cons.prems(1)]) (use cl(2) in \<open>auto simp: clear_of_def intro!: out\<close>)
  have nm: "numbers_at ?m (buffer + (pos + number_length n)) ns"
  proof -
    have "numbers_at ?m (buffer + pos + number_length n) ns = numbers_at m (buffer + pos + number_length n) ns"
      by (rule numbers_at_cong) (use cl(1) in \<open>auto simp: clear_of_def intro!: out\<close>)
    then show ?thesis using Cons.prems(2) by (simp add: add.assoc)
  qed
  have "sscanf_from buffer format (2 * k) (2 * Suc j) (pos + number_length n) False ps' ?m
      = Some (pos + number_length n + numbers_length ns, store_ints ps' (map number_value ns) ?m)"
    by (rule Cons.IH [OF fm nm])
      (use Cons.prems(4,5) k ps in \<open>auto simp: clear_of_def\<close>)
  then have "sscanf_from buffer format (2 * k) (Suc (2 * j)) pos True ps m
      = Some (pos + number_length n + numbers_length ns, store_ints ps' (map number_value ns) ?m)"
    using k by (subst sscanf_from.simps) (simp add: f isspace_def convert_def md ps)
  then show ?case using k
    by (subst sscanf_from.simps) (simp add: f isspace_def ps)
qed

text \<open>C13: \<open>sscanf\<close> with a format of k "%d" conversions, on a text of at least k decimal
  numbers, each after any white space and with an optional sign, stores the value of the i-th
  number, reduced to 32 bits, through the i-th pointer, and returns how far it read.\<close>
theorem sscanf_reads_numbers:
  assumes "cstr m format (percent_d (length ns))" "numbers_at m buffer ns"
    "length ns \<le> length ps"
    "\<forall>p \<in> set ps. clear_of buffer (numbers_length ns) p \<and> clear_of format (2 * length ns) p"
  shows "sscanf buffer format ps m
    = Some (numbers_length ns, store_ints ps (map number_value ns) m)"
  using sscanf_from_numbers [of m format "length ns" buffer 0 ns 0 ps] assms
  by (simp add: sscanf_def strlen_cstr [OF assms(1)])

theorem sscanf_reads_numbers_witness:
  "let m = (\<lambda>a. if 100 \<le> a \<and> a < 105 then [49, 50, 32, 45, 55] ! (a - 100)
                else if 200 \<le> a \<and> a < 204 then [37, 100, 37, 100] ! (a - 200) else 0)
   in sscanf 100 200 [300, 304] m = Some (5, store_int 304 (- 7) (store_int 300 12 m))"
proof -
  define m :: mem where "m = (\<lambda>a. if 100 \<le> a \<and> a < 105 then [49, 50, 32, 45, 55] ! (a - 100)
                else if 200 \<le> a \<and> a < 204 then [37, 100, 37, 100] ! (a - 200) else 0)"
  let ?ns = "[([], [], [49, 50]), ([32], [45], [55])] :: number list"
  have "sscanf 100 200 [300, 304] m
      = Some (numbers_length ?ns, store_ints [300, 304] (map number_value ?ns) m)"
    by (rule sscanf_reads_numbers)
      (simp_all add: percent_d_def m_def number_at_def bytes_at_Suc number_length_def isdigit_def
        isspace_def schar_def clear_of_def)
  then show ?thesis
    unfolding m_def [symmetric]
    by (simp add: number_length_def number_value_def dec_digit_def sign_of_def i32_def)
qed

section \<open>atoi\<close>

lemma atoi_digits:
  assumes "cstr m p ds"
  shows "atoi m p = Some (i32 (digits_val 10 (map dec_digit ds)))"
proof -
  have "atoi_from m p num = Some (i32 (num * 10 ^ length ds + digits_val 10 (map dec_digit ds)))"
    if "num = i32 num" for num
    using assms that
  proof (induction ds arbitrary: p num)
    case (Cons c ds)
    have "atoi_from m p num = atoi_from m (p + 1) (i32 (num * 10 + (sint c - 48)))"
      using Cons.prems by (subst atoi_from.simps) (simp add: schar_def)
    also have "\<dots> = Some (i32 (i32 (num * 10 + (sint c - 48)) * 10 ^ length ds
        + digits_val 10 (map dec_digit ds)))"
      by (rule Cons.IH) (use Cons.prems in auto)
    also have "i32 (i32 (num * 10 + (sint c - 48)) * 10 ^ length ds + digits_val 10 (map dec_digit ds))
        = i32 (num * 10 ^ length (c # ds) + digits_val 10 (map dec_digit (c # ds)))"
    proof -
      have "i32 (i32 x * y + z) = i32 (x * y + z)" for x y z
        by (metis i32_add_left i32_mult_left)
      then show ?thesis by (simp add: dec_digit_def algebra_simps)
    qed
    finally show ?case .
  qed (subst atoi_from.simps, simp)
  from this [of 0] show ?thesis by (simp add: atoi_def i32_def)
qed

text \<open>The formula applies to any text, digits or not: the minus sign counts as the digit -3.\<close>

lemma atoi_minus_five: "cstr m p [45, 53] \<Longrightarrow> atoi m p = Some (- 25)"
  using atoi_digits [of m p "[45, 53]"] by (simp add: dec_digit_def i32_def)

end
