(* ===== verification/KList.thy ===== *)
theory KList
  imports Prelude
begin

text \<open>
  The kernel's intrusive lists, \<open>kernel/kernel/kernel_list.h\<close>. An element is an address
  (0 is \<open>nullptr\<close>) with one pair of links, shared by every list it may be put on, and a
  pointer \<open>stack_list_\<close> to the list its own \<open>PushBack\<close> and \<open>RemoveSelfFromList\<close> go to. The
  links and the heads, tails and sizes of all lists form one store. \<open>None\<close> is \<open>PANIC\<close>.
  The end of the theory gives the lists an interface, \<open>deques\<close>, with what a client needs of
  them: FIFO order, rotation, and moving an element from one list to another.
\<close>

section \<open>The store and its operations\<close>

record 'l klists =
  lprev :: "nat \<Rightarrow> nat"
  lnext :: "nat \<Rightarrow> nat"
  stack_list :: "nat \<Rightarrow> 'l"
  head :: "'l \<Rightarrow> nat"
  tail :: "'l \<Rightarrow> nat"
  lsize :: "'l \<Rightarrow> int"

definition new_lists :: "'l \<Rightarrow> 'l klists" where
  "new_lists l = \<lparr>lprev = (\<lambda>_. 0), lnext = (\<lambda>_. 0), stack_list = (\<lambda>_. l),
     head = (\<lambda>_. 0), tail = (\<lambda>_. 0), lsize = (\<lambda>_. 0)\<rparr>"

definition set_next :: "nat \<Rightarrow> nat \<Rightarrow> 'l klists \<Rightarrow> 'l klists" where
  "set_next e v s = s\<lparr>lnext := (lnext s)(e := v)\<rparr>"

definition set_prev :: "nat \<Rightarrow> nat \<Rightarrow> 'l klists \<Rightarrow> 'l klists" where
  "set_prev e v s = s\<lparr>lprev := (lprev s)(e := v)\<rparr>"

definition set_head :: "'l \<Rightarrow> nat \<Rightarrow> 'l klists \<Rightarrow> 'l klists" where
  "set_head l v s = s\<lparr>head := (head s)(l := v)\<rparr>"

definition set_tail :: "'l \<Rightarrow> nat \<Rightarrow> 'l klists \<Rightarrow> 'l klists" where
  "set_tail l v s = s\<lparr>tail := (tail s)(l := v)\<rparr>"

definition add_size :: "'l \<Rightarrow> int \<Rightarrow> 'l klists \<Rightarrow> 'l klists" where
  "add_size l d s = s\<lparr>lsize := (lsize s)(l := lsize s l + d)\<rparr>"

lemmas store_defs = set_next_def set_prev_def set_head_def set_tail_def add_size_def

definition list_empty :: "'l \<Rightarrow> 'l klists \<Rightarrow> bool" where
  "list_empty l s \<longleftrightarrow> head s l = 0"

definition Detach :: "nat \<Rightarrow> 'l klists \<Rightarrow> 'l klists" where
  "Detach e s =
     (let s1 = (if lprev s e \<noteq> 0 then set_next (lprev s e) (lnext s e) s else s);
          s2 = (if lnext s1 e \<noteq> 0 then set_prev (lnext s1 e) (lprev s1 e) s1 else s1)
      in set_prev e 0 (set_next e 0 s2))"

definition push_front :: "'l \<Rightarrow> nat \<Rightarrow> 'l klists \<Rightarrow> 'l klists option" where
  "push_front l e s0 =
     (let s = add_size l 1 s0
      in if head s l = e \<or> tail s l = e then None
         else if list_empty l s then
           Some (set_prev e 0 (set_next e 0 (set_head l e (set_tail l e s))))
         else Some (set_head l e (set_prev e 0 (set_next e (head s l) (set_prev (head s l) e s)))))"

definition push_back :: "'l \<Rightarrow> nat \<Rightarrow> 'l klists \<Rightarrow> 'l klists option" where
  "push_back l e s0 =
     (let s = add_size l 1 s0
      in if head s l = e \<or> tail s l = e then None
         else if list_empty l s then
           Some (set_prev e 0 (set_next e 0 (set_head l e (set_tail l e s))))
         else Some (set_tail l e (set_next e 0 (set_prev e (tail s l) (set_next (tail s l) e s)))))"

definition pop_front :: "'l \<Rightarrow> 'l klists \<Rightarrow> (nat \<times> 'l klists) option" where
  "pop_front l s =
     (if list_empty l s \<and> lsize s l \<noteq> 0 then None
      else if list_empty l s then Some (0, s)
      else
        let s1 = add_size l (- 1) s;
            head_to_return = head s1 l;
            new_head = lnext s1 head_to_return;
            s2 = Detach head_to_return s1
        in Some (head_to_return,
                 if new_head = 0 then set_head l 0 (set_tail l 0 s2) else set_head l new_head s2))"

definition pop_back :: "'l \<Rightarrow> 'l klists \<Rightarrow> (nat \<times> 'l klists) option" where
  "pop_back l s =
     (if list_empty l s \<and> lsize s l \<noteq> 0 then None
      else if list_empty l s then Some (0, s)
      else
        let s1 = add_size l (- 1) s;
            tail_to_return = tail s1 l;
            new_tail = lprev s1 tail_to_return;
            s2 = Detach tail_to_return s1
        in Some (tail_to_return,
                 if new_tail = 0 then set_head l 0 (set_tail l 0 s2) else set_tail l new_tail s2))"

definition list_remove :: "'l \<Rightarrow> nat \<Rightarrow> 'l klists \<Rightarrow> 'l klists" where
  "list_remove l e s =
     (let s1 = (if head s l = e then set_head l (lnext s e) s else s);
          s2 = (if tail s1 l = e then set_tail l (lprev s1 e) s1 else s1)
      in add_size l (- 1) s2)"

definition RemoveSelfFromList :: "nat \<Rightarrow> 'l klists \<Rightarrow> 'l klists" where
  "RemoveSelfFromList e s = Detach e (list_remove (stack_list s e) e s)"

definition ChangeList :: "nat \<Rightarrow> 'l \<Rightarrow> 'l klists \<Rightarrow> 'l klists" where
  "ChangeList e l s =
     (if lprev s e \<noteq> 0 \<or> lnext s e \<noteq> 0 then s
      else s\<lparr>stack_list := (stack_list s)(e := l)\<rparr>)"

definition PushFront :: "nat \<Rightarrow> 'l klists \<Rightarrow> 'l klists option" where
  "PushFront e s = push_front (stack_list s e) e s"

definition PushBack :: "nat \<Rightarrow> 'l klists \<Rightarrow> 'l klists option" where
  "PushBack e s = push_back (stack_list s e) e s"

section \<open>What the store represents\<close>

text \<open>\<open>L l\<close> is the content of list l. No element is on two lists, and the links of an element
  on no list are null.\<close>

definition on_list :: "('l \<Rightarrow> nat list) \<Rightarrow> nat \<Rightarrow> bool" where
  "on_list L e \<longleftrightarrow> (\<exists>l. e \<in> set (L l))"

definition list_rep :: "'l klists \<Rightarrow> 'l \<Rightarrow> nat list \<Rightarrow> bool" where
  "list_rep s l xs \<longleftrightarrow> lsize s l = int (length xs) \<and> head s l = hd_or 0 xs
     \<and> tail s l = last_or 0 xs \<and> dll (lprev s) (lnext s) 0 xs 0 \<and> distinct xs \<and> 0 \<notin> set xs"

definition lists_rep :: "'l klists \<Rightarrow> ('l \<Rightarrow> nat list) \<Rightarrow> bool" where
  "lists_rep s L \<longleftrightarrow> (\<forall>l. list_rep s l (L l))
     \<and> (\<forall>l l'. l \<noteq> l' \<longrightarrow> set (L l) \<inter> set (L l') = {})
     \<and> (\<forall>e. \<not> on_list L e \<longrightarrow> lprev s e = 0 \<and> lnext s e = 0)"

lemma lists_rep_new: "lists_rep (new_lists l) (\<lambda>_. [])"
  by (simp add: lists_rep_def list_rep_def new_lists_def)

lemma lists_repD:
  assumes "lists_rep s L"
  shows "list_rep s l (L l)" "l \<noteq> l' \<Longrightarrow> set (L l) \<inter> set (L l') = {}"
    "\<not> on_list L e \<Longrightarrow> lprev s e = 0 \<and> lnext s e = 0"
  using assms by (simp_all add: lists_rep_def)

lemma lists_rep_step:
  \<comment> \<open>an operation on list l that touches only links of its elements and of e\<close>
  assumes rep: "lists_rep s L" and new: "list_rep s' l xs"
    and sub: "set xs \<subseteq> insert e (set (L l))"
    and e: "e \<in> set (L l) \<or> \<not> on_list L e"
    and others: "\<And>l'. l' \<noteq> l \<Longrightarrow> head s' l' = head s l' \<and> tail s' l' = tail s l' \<and> lsize s' l' = lsize s l'"
    and links: "\<And>x. x \<notin> insert e (set (L l)) \<Longrightarrow> lprev s' x = lprev s x \<and> lnext s' x = lnext s x"
    and out: "\<And>x. x \<in> insert e (set (L l)) \<Longrightarrow> x \<notin> set xs \<Longrightarrow> lprev s' x = 0 \<and> lnext s' x = 0"
  shows "lists_rep s' (L(l := xs))"
proof -
  have apart: "x \<notin> insert e (set (L l))" if "x \<in> set (L l')" "l' \<noteq> l" for x l'
    using that lists_repD(2) [OF rep, of l' l] e by (auto simp: on_list_def)
  have "list_rep s' l' (L l')" if "l' \<noteq> l" for l'
  proof -
    have "dll (lprev s') (lnext s') 0 (L l') 0 = dll (lprev s) (lnext s) 0 (L l') 0"
      by (rule dll_cong) (use links apart that in auto)
    then show ?thesis using lists_repD(1) [OF rep, of l'] others [OF that] by (simp add: list_rep_def)
  qed
  moreover have "set xs \<inter> set (L l') = {}" if "l' \<noteq> l" for l'
    using apart that sub by blast
  moreover have "lprev s' x = 0 \<and> lnext s' x = 0" if "\<not> on_list (L(l := xs)) x" for x
  proof (cases "x \<in> insert e (set (L l))")
    case True
    moreover have "x \<notin> set xs" using that by (metis fun_upd_same on_list_def)
    ultimately show ?thesis by (rule out)
  next
    case False
    moreover have "\<not> on_list L x"
      using that False by (auto simp: on_list_def split: if_splits)
    ultimately show ?thesis using links lists_repD(3) [OF rep] by simp
  qed
  ultimately show ?thesis
    using new lists_repD(2) [OF rep] by (simp add: lists_rep_def Int_commute)
qed

section \<open>Operations on represented lists\<close>

lemma Detach_fields [simp]:
  "head (Detach e s) = head s" "tail (Detach e s) = tail s" "lsize (Detach e s) = lsize s"
  "stack_list (Detach e s) = stack_list s"
  by (simp_all add: Detach_def store_defs Let_def)

lemma Detach_links:
  assumes "lprev s e \<noteq> e" "lnext s e \<noteq> e"
  shows "lnext (Detach e s) = (if lprev s e \<noteq> 0 then (lnext s)(lprev s e := lnext s e) else lnext s)(e := 0)"
    "lprev (Detach e s) = (if lnext s e \<noteq> 0 then (lprev s)(lnext s e := lprev s e) else lprev s)(e := 0)"
  using assms by (auto simp: Detach_def store_defs Let_def)

declare last_or_last [simp] hd_or_hd [simp]

lemma Detach_dll:
  assumes d: "dll (lprev s) (lnext s) 0 (ys @ e # zs) 0" and dist: "distinct (ys @ e # zs)"
    and nz: "0 \<notin> set (ys @ e # zs)"
  shows "dll (lprev (Detach e s)) (lnext (Detach e s)) 0 (ys @ zs) 0"
    "lprev (Detach e s) e = 0 \<and> lnext (Detach e s) e = 0"
    "x \<notin> set (ys @ e # zs) \<Longrightarrow> lprev (Detach e s) x = lprev s x \<and> lnext (Detach e s) x = lnext s x"
proof -
  have pe: "lprev s e = last_or 0 ys" and ne: "lnext s e = hd_or 0 zs"
    and dy: "dll (lprev s) (lnext s) 0 ys e" and dz: "dll (lprev s) (lnext s) e zs 0"
    using d by (simp_all add: dll_append)
  have in_y: "last ys \<in> set ys \<and> last ys \<noteq> 0 \<and> last ys \<noteq> e" if "ys \<noteq> []"
    using last_in_set [OF that] nz dist by auto
  have in_z: "hd zs \<in> set zs \<and> hd zs \<noteq> 0 \<and> hd zs \<noteq> e" if "zs \<noteq> []"
    using hd_in_set [OF that] nz dist by auto
  have ne': "lprev s e \<noteq> e" "lnext s e \<noteq> e" "e \<notin> set ys" "e \<notin> set zs"
    using pe ne in_y in_z dist nz by (cases "ys = []"; cases "zs = []"; simp)+
  note links = Detach_links [OF ne'(1,2)]
  let ?P = "if zs \<noteq> [] then (lprev s)(hd zs := last_or 0 ys) else lprev s"
  let ?N = "if ys \<noteq> [] then (lnext s)(last ys := hd_or 0 zs) else lnext s"
  have L: "lprev (Detach e s) = ?P(e := 0)" "lnext (Detach e s) = ?N(e := 0)"
    unfolding links pe ne using in_y in_z by (cases "ys = []"; cases "zs = []"; simp)+
  have "dll ?P ?N 0 ys (hd_or 0 zs)"
  proof -
    have "dll (lprev s) ?N 0 ys (hd_or 0 zs)"
      using dll_set_last [OF dy, of 0 "hd_or 0 zs"] dist by (cases "ys = []") auto
    moreover have "zs \<noteq> [] \<Longrightarrow> hd zs \<notin> set ys" using dist by (cases zs) auto
    ultimately show ?thesis by (cases "ys = []"; cases "zs = []"; simp)
  qed
  moreover have "dll ?P ?N (last_or 0 ys) zs 0"
  proof (cases "zs = []")
    case False
    then have "dll ?P (lnext s) (last_or 0 ys) zs 0"
      using dll_set_head [OF dz, of 0 "last_or 0 ys"] dist by simp
    moreover have "ys \<noteq> [] \<Longrightarrow> last ys \<notin> set zs" using dist last_notin [of ys "set zs"] by auto
    ultimately show ?thesis using False by (cases "ys = []"; simp)
  qed simp
  ultimately show "dll (lprev (Detach e s)) (lnext (Detach e s)) 0 (ys @ zs) 0"
    unfolding L using ne'(3,4) by (simp add: dll_append)
  show "lprev (Detach e s) e = 0 \<and> lnext (Detach e s) e = 0" by (simp add: L)
  show "lprev (Detach e s) x = lprev s x \<and> lnext (Detach e s) x = lnext s x"
    if "x \<notin> set (ys @ e # zs)"
  proof -
    have "x \<noteq> e" "ys \<noteq> [] \<Longrightarrow> x \<noteq> last ys" "zs \<noteq> [] \<Longrightarrow> x \<noteq> hd zs"
      using that in_y in_z by auto
    then show ?thesis unfolding L by (cases "ys = []"; cases "zs = []"; simp)
  qed
qed

lemma list_empty_rep: "list_rep s l xs \<Longrightarrow> list_empty l s \<longleftrightarrow> xs = []"
  by (cases xs) (auto simp: list_rep_def list_empty_def)

lemma push_back_rep:
  assumes rep: "lists_rep s L" and e: "e \<noteq> 0" "\<not> on_list L e"
  shows "\<exists>s'. push_back l e s = Some s' \<and> lists_rep s' (L(l := L l @ [e]))
              \<and> stack_list s' = stack_list s"
proof -
  let ?xs = "L l"
  note r = lists_repD(1) [OF rep, of l]
  have xs: "lsize s l = int (length ?xs)" "head s l = hd_or 0 ?xs" "tail s l = last_or 0 ?xs"
    "dll (lprev s) (lnext s) 0 ?xs 0" "distinct ?xs" "0 \<notin> set ?xs" "e \<notin> set ?xs"
    using r e by (auto simp: list_rep_def on_list_def)
  define s' where "s' = (if ?xs = [] then set_prev e 0 (set_next e 0 (set_head l e (set_tail l e (add_size l 1 s))))
     else set_tail l e (set_next e 0 (set_prev e (last ?xs) (set_next (last ?xs) e (add_size l 1 s)))))"
  have ne: "head s l \<noteq> e" "tail s l \<noteq> e"
    using xs e hd_or_in [of ?xs 0] last_or_in [of ?xs 0] by (cases "?xs = []"; auto)+
  have "push_back l e s = Some s'"
    using ne list_empty_rep [OF r] xs
    by (simp add: push_back_def s'_def list_empty_def add_size_def)
  moreover have "list_rep s' l (?xs @ [e])"
  proof (cases "?xs = []")
    case True
    then show ?thesis using e xs by (simp add: s'_def list_rep_def store_defs)
  next
    case False
    have "dll (lprev s) ((lnext s)(last ?xs := e)) 0 ?xs e"
      using dll_set_last [OF xs(4,5), of 0 e] False by simp
    then show ?thesis using e xs False
      by (simp add: s'_def list_rep_def store_defs dll_append)
  qed
  then have "lists_rep s' (L(l := ?xs @ [e]))"
    by (rule lists_rep_step [OF rep, where e = e]) (use e in \<open>auto simp: s'_def store_defs\<close>)
  moreover have "stack_list s' = stack_list s" by (simp add: s'_def store_defs)
  ultimately show ?thesis by blast
qed

lemma push_front_rep:
  assumes rep: "lists_rep s L" and e: "e \<noteq> 0" "\<not> on_list L e"
  shows "\<exists>s'. push_front l e s = Some s' \<and> lists_rep s' (L(l := e # L l))
              \<and> stack_list s' = stack_list s"
proof -
  let ?xs = "L l"
  note r = lists_repD(1) [OF rep, of l]
  have xs: "lsize s l = int (length ?xs)" "head s l = hd_or 0 ?xs" "tail s l = last_or 0 ?xs"
    "dll (lprev s) (lnext s) 0 ?xs 0" "distinct ?xs" "0 \<notin> set ?xs" "e \<notin> set ?xs"
    using r e by (auto simp: list_rep_def on_list_def)
  define s' where "s' = (if ?xs = [] then set_prev e 0 (set_next e 0 (set_head l e (set_tail l e (add_size l 1 s))))
     else set_head l e (set_prev e 0 (set_next e (hd ?xs) (set_prev (hd ?xs) e (add_size l 1 s)))))"
  have ne: "head s l \<noteq> e" "tail s l \<noteq> e"
    using xs e hd_or_in [of ?xs 0] last_or_in [of ?xs 0] by (cases "?xs = []"; auto)+
  have "push_front l e s = Some s'"
    using ne list_empty_rep [OF r] xs
    by (simp add: push_front_def s'_def list_empty_def add_size_def)
  moreover have "list_rep s' l (e # ?xs)"
  proof (cases "?xs = []")
    case True
    then show ?thesis using e xs by (simp add: s'_def list_rep_def store_defs)
  next
    case False
    have "dll ((lprev s)(hd ?xs := e)) (lnext s) e ?xs 0"
      using dll_set_head [OF xs(4,5), of 0 e] False by simp
    then show ?thesis using e xs False
      by (simp add: s'_def list_rep_def store_defs last_or_def)
  qed
  then have "lists_rep s' (L(l := e # ?xs))"
    by (rule lists_rep_step [OF rep, where e = e]) (use e in \<open>auto simp: s'_def store_defs\<close>)
  moreover have "stack_list s' = stack_list s" by (simp add: s'_def store_defs)
  ultimately show ?thesis by blast
qed

text \<open>Taking an element out: its neighbours are linked, whichever end it was at.\<close>

lemma detached_rep:
  assumes rep: "lists_rep s L" and l: "L l = ys @ e # zs"
    and links: "lprev s' = lprev (Detach e s)" "lnext s' = lnext (Detach e s)"
    and ends: "lsize s' l = lsize s l - 1" "head s' l = hd_or 0 (ys @ zs)" "tail s' l = last_or 0 (ys @ zs)"
    and others: "\<And>l'. l' \<noteq> l \<Longrightarrow> head s' l' = head s l' \<and> tail s' l' = tail s l' \<and> lsize s' l' = lsize s l'"
  shows "lists_rep s' (L(l := ys @ zs))"
proof -
  have r: "dll (lprev s) (lnext s) 0 (ys @ e # zs) 0" "distinct (ys @ e # zs)" "0 \<notin> set (ys @ e # zs)"
    "lsize s l = int (length (ys @ e # zs))"
    using lists_repD(1) [OF rep, of l] l by (simp_all add: list_rep_def)
  note d = Detach_dll [OF r(1-3)]
  have "list_rep s' l (ys @ zs)"
    using d(1) r ends by (simp add: list_rep_def links)
  then show ?thesis
  proof (rule lists_rep_step [OF rep, where e = e])
    show "lprev s' x = lprev s x \<and> lnext s' x = lnext s x" if "x \<notin> insert e (set (L l))" for x
      using d(3) [of x] that l by (simp add: links)
    show "lprev s' x = 0 \<and> lnext s' x = 0" if "x \<in> insert e (set (L l))" "x \<notin> set (ys @ zs)" for x
      using d(2) that l by (auto simp: links)
  qed (use l others in auto)
qed

lemma pop_front_rep:
  assumes rep: "lists_rep s L"
  shows "\<exists>s'. pop_front l s = Some (hd_or 0 (L l), s') \<and> lists_rep s' (L(l := tl (L l)))
              \<and> stack_list s' = stack_list s"
proof -
  note r = lists_repD(1) [OF rep, of l]
  show ?thesis
  proof (cases "L l")
    case Nil
    then have "L(l := []) = L" by auto
    then show ?thesis using Nil rep r by (simp add: pop_front_def list_empty_rep [OF r]) (simp add: list_rep_def)
  next
    case (Cons e zs)
    have h: "head s l = e" "lnext s e = hd_or 0 zs" "0 \<notin> set (e # zs)"
      "tail s l = last_or e zs"
      using r by (auto simp: Cons list_rep_def)
    let ?s1 = "add_size l (- 1) s"
    define s' where "s' = (if zs = [] then set_head l 0 (set_tail l 0 (Detach e ?s1))
                           else set_head l (hd zs) (Detach e ?s1))"
    have links: "lprev s' = lprev (Detach e s)" "lnext s' = lnext (Detach e s)"
      by (simp_all add: s'_def Detach_def store_defs Let_def)
    have z: "hd_or 0 zs = 0 \<longleftrightarrow> zs = []" using h(3) by (cases zs) auto
    have "pop_front l s = Some (e, s')"
      using Cons h z list_empty_rep [OF r]
      by (cases "zs = []") (simp_all add: pop_front_def s'_def Let_def add_size_def)
    moreover have "lists_rep s' (L(l := [] @ zs))"
      by (rule detached_rep [OF rep _ links])
        (use Cons h in \<open>auto simp: s'_def set_head_def set_tail_def add_size_def\<close>)
    ultimately show ?thesis using Cons by (simp add: s'_def) (simp add: store_defs)
  qed
qed

lemma pop_back_rep:
  assumes rep: "lists_rep s L"
  shows "\<exists>s'. pop_back l s = Some (last_or 0 (L l), s') \<and> lists_rep s' (L(l := butlast (L l)))
              \<and> stack_list s' = stack_list s"
proof -
  note r = lists_repD(1) [OF rep, of l]
  show ?thesis
  proof (cases "L l" rule: rev_cases)
    case Nil
    then have "L(l := []) = L" by auto
    then show ?thesis using Nil rep r by (simp add: pop_back_def list_empty_rep [OF r]) (simp add: list_rep_def)
  next
    case (snoc ys e)
    have h: "tail s l = e" "lprev s e = last_or 0 ys" "0 \<notin> set (ys @ [e])"
      "head s l = hd_or e ys"
      using r by (simp_all add: snoc list_rep_def dll_append del: last_or_last hd_or_hd)
    let ?s1 = "add_size l (- 1) s"
    define s' where "s' = (if ys = [] then set_head l 0 (set_tail l 0 (Detach e ?s1))
                           else set_tail l (last ys) (Detach e ?s1))"
    have links: "lprev s' = lprev (Detach e s)" "lnext s' = lnext (Detach e s)"
      by (simp_all add: s'_def Detach_def store_defs Let_def)
    have z: "last_or 0 ys = 0 \<longleftrightarrow> ys = []" using h(3) last_notin [of ys "{0}"] by (cases "ys = []") auto
    have "pop_back l s = Some (e, s')"
      using snoc h z list_empty_rep [OF r]
      by (cases "ys = []") (simp_all add: pop_back_def s'_def Let_def add_size_def)
    moreover have "lists_rep s' (L(l := ys @ []))"
      by (rule detached_rep [OF rep _ links])
        (use snoc h in \<open>auto simp: s'_def set_head_def set_tail_def add_size_def\<close>)
    ultimately show ?thesis using snoc by (simp add: s'_def) (simp add: store_defs)
  qed
qed

lemma RemoveSelfFromList_rep:
  assumes rep: "lists_rep s L" and e: "e \<in> set (L (stack_list s e))"
  shows "lists_rep (RemoveSelfFromList e s)
           (L(stack_list s e := remove1 e (L (stack_list s e))))
         \<and> stack_list (RemoveSelfFromList e s) = stack_list s"
proof -
  let ?l = "stack_list s e"
  obtain ys zs where l: "L ?l = ys @ e # zs" using split_list [OF e] by blast
  have r: "dll (lprev s) (lnext s) 0 (ys @ e # zs) 0" "distinct (ys @ e # zs)" "0 \<notin> set (ys @ e # zs)"
    "head s ?l = hd_or 0 (ys @ e # zs)" "tail s ?l = last_or 0 (ys @ e # zs)"
    using lists_repD(1) [OF rep, of ?l] l by (simp_all add: list_rep_def)
  have pn: "lprev s e = last_or 0 ys" "lnext s e = hd_or 0 zs"
    using r(1) by (simp_all add: dll_append)
  have he: "head s ?l = e \<longleftrightarrow> ys = []" using r(2,4) by (cases ys) auto
  have te: "tail s ?l = e \<longleftrightarrow> zs = []"
    using r(2,5) last_notin [of zs "{e}"] by (cases "zs = []") auto
  let ?s' = "RemoveSelfFromList e s"
  have links: "lprev ?s' = lprev (Detach e s)" "lnext ?s' = lnext (Detach e s)"
    by (simp_all add: RemoveSelfFromList_def list_remove_def Detach_def store_defs Let_def)
  have "lists_rep ?s' (L(?l := ys @ zs))"
  proof (rule detached_rep [OF rep l links])
    show "head ?s' ?l = hd_or 0 (ys @ zs)"
      using he r(4) pn by (cases "ys = []") (auto simp: RemoveSelfFromList_def list_remove_def store_defs Let_def)
    show "tail ?s' ?l = last_or 0 (ys @ zs)"
      using te r(5) pn by (cases "zs = []"; cases "ys = []") (auto simp: RemoveSelfFromList_def list_remove_def store_defs Let_def)
  qed (auto simp: RemoveSelfFromList_def list_remove_def store_defs Let_def)
  moreover have "remove1 e (L ?l) = ys @ zs"
    using r(2) by (simp add: l remove1_append)
  moreover have "stack_list ?s' = stack_list s"
    by (simp add: RemoveSelfFromList_def list_remove_def store_defs Let_def)
  ultimately show ?thesis by simp
qed

lemma ChangeList_rep:
  assumes "lists_rep s L"
  shows "lists_rep (ChangeList e l s) L"
    "\<not> on_list L e \<Longrightarrow> stack_list (ChangeList e l s) = (stack_list s)(e := l)"
  using assms lists_repD(3) [OF assms, of e]
  by (simp_all add: ChangeList_def lists_rep_def list_rep_def)

section \<open>The interface\<close>

text \<open>What the clients of the lists rely on. A client sees the contents of the lists only
  through \<open>rep\<close>.\<close>

locale deques =
  fixes rep :: "'s \<Rightarrow> ('l \<Rightarrow> nat list) \<Rightarrow> bool"
    and pushb :: "'l \<Rightarrow> nat \<Rightarrow> 's \<Rightarrow> 's option"
    and popf :: "'l \<Rightarrow> 's \<Rightarrow> (nat \<times> 's) option"
  assumes pushb: "rep s L \<Longrightarrow> e \<noteq> 0 \<Longrightarrow> \<not> on_list L e
      \<Longrightarrow> \<exists>s'. pushb l e s = Some s' \<and> rep s' (L(l := L l @ [e]))"
    and popf: "rep s L \<Longrightarrow> \<exists>s'. popf l s = Some (hd_or 0 (L l), s') \<and> rep s' (L(l := tl (L l)))"
    and members: "rep s L \<Longrightarrow> e \<in> set (L l) \<Longrightarrow> e \<noteq> 0"
    and once: "rep s L \<Longrightarrow> distinct (L l)"
    and apart: "rep s L \<Longrightarrow> l \<noteq> l' \<Longrightarrow> set (L l) \<inter> set (L l') = {}"
begin

text \<open>Moving the first element of one list to the end of another, or of the same one.\<close>

definition shift :: "'l \<Rightarrow> 'l \<Rightarrow> 's \<Rightarrow> 's option" where
  "shift a b s = popf a s \<bind> (\<lambda>(e, s'). if e = 0 then Some s' else pushb b e s')"

lemma popped_off:
  assumes "rep s L" "L a = e # xs"
  shows "\<not> on_list (L(a := xs)) e" "e \<noteq> 0"
proof -
  show "\<not> on_list (L(a := xs)) e"
    using once [OF assms(1), of a] apart [OF assms(1), of a] assms(2)
    by (auto simp: on_list_def)
  show "e \<noteq> 0" using members [OF assms(1), of e a] assms(2) by simp
qed

lemma shift_step:
  assumes "rep s L" "L a = e # xs"
  shows "\<exists>s'. shift a b s = Some s' \<and> rep s' ((L(a := xs))(b := (L(a := xs)) b @ [e]))"
proof -
  obtain s1 where s1: "popf a s = Some (e, s1)" "rep s1 (L(a := xs))"
    using popf [OF assms(1), of a] assms(2) by auto
  then show ?thesis
    using pushb [OF s1(2), of e b] popped_off [OF assms] by (simp add: shift_def)
qed

lemma shift_self: 
  assumes "rep s L" "L a \<noteq> []"
  shows "\<exists>s'. shift a a s = Some s' \<and> rep s' (L(a := rotate1 (L a)))"
proof -
  obtain e xs where l: "L a = e # xs" using assms(2) by (cases "L a") auto
  then show ?thesis using shift_step [OF assms(1) l, of a] by simp
qed

fun shifts :: "nat \<Rightarrow> 'l \<Rightarrow> 's \<Rightarrow> 's option" where
  "shifts 0 a s = Some s"
| "shifts (Suc n) a s = shift a a s \<bind> shifts n a"

lemma shifts_rotate:
  assumes "rep s L" "L a \<noteq> []"
  shows "\<exists>s'. shifts n a s = Some s' \<and> rep s' (L(a := rotate n (L a)))"
  using assms
proof (induction n arbitrary: s L)
  case 0
  have "L(a := L a) = L" by auto
  with 0 show ?case by simp
next
  case (Suc n)
  obtain s1 where s1: "shift a a s = Some s1" "rep s1 (L(a := rotate1 (L a)))"
    using shift_self Suc.prems by blast
  then show ?case
    using Suc.IH [OF s1(2)] Suc.prems(2) by (simp add: rotate1_rotate_swap fun_upd_def cong: if_cong)
qed

lemma full_turn:
  assumes "rep s L" "L a \<noteq> []"
  shows "\<exists>s'. shifts (length (L a)) a s = Some s' \<and> rep s' L"
proof -
  have "L(a := L a) = L" by auto
  then show ?thesis using shifts_rotate [OF assms, of "length (L a)"] by simp
qed

text \<open>First in, first out.\<close>

fun pushes :: "'l \<Rightarrow> nat list \<Rightarrow> 's \<Rightarrow> 's option" where
  "pushes a [] s = Some s"
| "pushes a (e # es) s = pushb a e s \<bind> pushes a es"

fun pops :: "'l \<Rightarrow> nat \<Rightarrow> 's \<Rightarrow> (nat list \<times> 's) option" where
  "pops a 0 s = Some ([], s)"
| "pops a (Suc n) s = popf a s \<bind> (\<lambda>(e, s'). pops a n s' \<bind> (\<lambda>(es, s''). Some (e # es, s'')))"

lemma pushes_rep:
  assumes "rep s L" "distinct es" "\<forall>e \<in> set es. e \<noteq> 0 \<and> \<not> on_list L e"
  shows "\<exists>s'. pushes a es s = Some s' \<and> rep s' (L(a := L a @ es))"
  using assms
proof (induction es arbitrary: s L)
  case Nil
  have "L(a := L a @ []) = L" by auto
  with Nil show ?case by simp
next
  case (Cons e es)
  obtain s1 where s1: "pushb a e s = Some s1" "rep s1 (L(a := L a @ [e]))"
    using pushb Cons.prems by (metis list.set_intros(1))
  have "\<exists>s'. pushes a es s1 = Some s' \<and> rep s' ((L(a := L a @ [e]))(a := (L(a := L a @ [e])) a @ es))"
    by (rule Cons.IH [OF s1(2)]) (use Cons.prems in \<open>auto simp: on_list_def split: if_splits\<close>)
  then show ?case using s1(1) by (simp add: fun_upd_def cong: if_cong)
qed

lemma pops_rep:
  assumes "rep s L" "n \<le> length (L a)"
  shows "\<exists>s'. pops a n s = Some (take n (L a), s') \<and> rep s' (L(a := drop n (L a)))"
  using assms
proof (induction n arbitrary: s L)
  case 0
  have "L(a := L a) = L" by auto
  with 0 show ?case by simp
next
  case (Suc n)
  obtain e xs where l: "L a = e # xs" using Suc.prems(2) by (cases "L a") auto
  obtain s1 where s1: "popf a s = Some (e, s1)" "rep s1 (L(a := xs))"
    using popf [OF Suc.prems(1), of a] l by auto
  have "n \<le> length ((L(a := xs)) a)" using Suc.prems(2) l by simp
  from Suc.IH [OF s1(2) this] obtain s'
    where "pops a n s1 = Some (take n xs, s')" "rep s' ((L(a := xs))(a := drop n xs))"
    by (auto simp: fun_upd_def cong: if_cong)
  then show ?case using s1(1) l by (simp add: fun_upd_def cong: if_cong)
qed

lemma fifo:
  assumes "rep s L" "L a = []" "distinct es" "\<forall>e \<in> set es. e \<noteq> 0 \<and> \<not> on_list L e"
  shows "\<exists>s'. (pushes a es s \<bind> pops a (length es)) = Some (es, s') \<and> rep s' L"
proof -
  obtain s1 where s1: "pushes a es s = Some s1" "rep s1 (L(a := es))"
    using pushes_rep [OF assms(1,3,4), of a] assms(2) by auto
  have "L(a := []) = L" using assms(2) by auto
  then show ?thesis using pops_rep [OF s1(2), of "length es" a] s1(1) by simp
qed

end

lemma lists_rep_members: "lists_rep s L \<Longrightarrow> e \<in> set (L l) \<Longrightarrow> e \<noteq> 0"
  using lists_repD(1) [of s L l] unfolding list_rep_def by metis

lemma lists_rep_once: "lists_rep s L \<Longrightarrow> distinct (L l)"
  using lists_repD(1) [of s L l] by (simp add: list_rep_def)

interpretation kl: deques lists_rep push_back pop_front
proof unfold_locales
  show "\<exists>s'. push_back l e s = Some s' \<and> lists_rep s' (L(l := L l @ [e]))"
    if "lists_rep s L" "e \<noteq> 0" "\<not> on_list L e" for s :: "'l klists" and L l e
    using push_back_rep [OF that] by blast
  show "\<exists>s'. pop_front l s = Some (hd_or 0 (L l), s') \<and> lists_rep s' (L(l := tl (L l)))"
    if "lists_rep s L" for s :: "'l klists" and L l
    using pop_front_rep [OF that] by blast
qed (fact lists_rep_members lists_rep_once lists_repD(2))+

section \<open>Refinement of lists of elements\<close>

text \<open>Runs of operations, on the store and on the contents it stands for. The abstract run
  is defined when no element is pushed that is null or already on a list, only elements of
  their own list are removed, and only detached elements change lists.\<close>

datatype 'l list_op =
    Push_front 'l nat
  | Push_back 'l nat
  | Pop_front 'l
  | Pop_back 'l
  | Remove_self nat
  | Change_list nat 'l

fun list_step :: "'l list_op \<Rightarrow> 'l klists \<Rightarrow> (nat \<times> 'l klists) option" where
  "list_step (Push_front l e) s = map_option (Pair e) (push_front l e s)"
| "list_step (Push_back l e) s = map_option (Pair e) (push_back l e s)"
| "list_step (Pop_front l) s = pop_front l s"
| "list_step (Pop_back l) s = pop_back l s"
| "list_step (Remove_self e) s = Some (e, RemoveSelfFromList e s)"
| "list_step (Change_list e l) s = Some (e, ChangeList e l s)"

fun list_run :: "'l list_op list \<Rightarrow> 'l klists \<Rightarrow> (nat list \<times> 'l klists) option" where
  "list_run [] s = Some ([], s)"
| "list_run (op # ops) s =
     (case list_step op s of
        None \<Rightarrow> None
      | Some (r, s') \<Rightarrow> map_option (\<lambda>(rs, s''). (r # rs, s'')) (list_run ops s'))"

type_synonym 'l contents = "('l \<Rightarrow> nat list) \<times> (nat \<Rightarrow> 'l)"

definition pushable :: "'l list \<Rightarrow> ('l \<Rightarrow> nat list) \<Rightarrow> nat \<Rightarrow> bool" where
  "pushable ls L e \<longleftrightarrow> e \<noteq> 0 \<and> (\<forall>l \<in> set ls. e \<notin> set (L l))"

fun spec_step :: "'l list \<Rightarrow> 'l list_op \<Rightarrow> 'l contents \<Rightarrow> (nat \<times> 'l contents) option" where
  "spec_step ls (Push_front l e) (L, own) =
     (if pushable ls L e \<and> l \<in> set ls then Some (e, L(l := e # L l), own) else None)"
| "spec_step ls (Push_back l e) (L, own) =
     (if pushable ls L e \<and> l \<in> set ls then Some (e, L(l := L l @ [e]), own) else None)"
| "spec_step ls (Pop_front l) (L, own) = Some (hd_or 0 (L l), L(l := tl (L l)), own)"
| "spec_step ls (Pop_back l) (L, own) = Some (last_or 0 (L l), L(l := butlast (L l)), own)"
| "spec_step ls (Remove_self e) (L, own) =
     (if e \<in> set (L (own e)) then Some (e, L(own e := remove1 e (L (own e))), own) else None)"
| "spec_step ls (Change_list e l) (L, own) =
     (if \<forall>l' \<in> set ls. e \<notin> set (L l') then Some (e, L, own(e := l)) else None)"

fun spec_run :: "'l list \<Rightarrow> 'l list_op list \<Rightarrow> 'l contents \<Rightarrow> (nat list \<times> 'l contents) option" where
  "spec_run ls [] c = Some ([], c)"
| "spec_run ls (op # ops) c =
     (case spec_step ls op c of
        None \<Rightarrow> None
      | Some (r, c') \<Rightarrow> map_option (\<lambda>(rs, c''). (r # rs, c'')) (spec_run ls ops c'))"

definition only_lists :: "'l list \<Rightarrow> ('l \<Rightarrow> nat list) \<Rightarrow> bool" where
  "only_lists ls L \<longleftrightarrow> (\<forall>l. l \<notin> set ls \<longrightarrow> L l = [])"

lemma off_lists: "only_lists ls L \<Longrightarrow> (\<forall>l \<in> set ls. e \<notin> set (L l)) \<longleftrightarrow> \<not> on_list L e"
  by (auto simp: only_lists_def on_list_def)

lemma spec_step_only:
  assumes "only_lists ls L" "spec_step ls op (L, own) = Some (r, L', own')"
  shows "only_lists ls L'"
  using assms by (cases op) (auto simp: only_lists_def split: if_splits)

lemma list_step_refines:
  assumes rep: "lists_rep s L" and ls: "only_lists ls L"
    and spec: "spec_step ls op (L, stack_list s) = Some (r, L', own')"
  shows "\<exists>s'. list_step op s = Some (r, s') \<and> lists_rep s' L' \<and> stack_list s' = own'"
proof (cases op)
  case (Push_front l e)
  with spec have e: "e \<noteq> 0" "\<not> on_list L e" and r: "r = e" "L' = L(l := e # L l)" "own' = stack_list s"
    by (auto simp: pushable_def off_lists [OF ls] split: if_splits)
  show ?thesis using push_front_rep [OF rep e, of l] Push_front r by auto
next
  case (Push_back l e)
  with spec have e: "e \<noteq> 0" "\<not> on_list L e" and r: "r = e" "L' = L(l := L l @ [e])" "own' = stack_list s"
    by (auto simp: pushable_def off_lists [OF ls] split: if_splits)
  show ?thesis using push_back_rep [OF rep e, of l] Push_back r by auto
next
  case (Pop_front l)
  then show ?thesis using pop_front_rep [OF rep, of l] spec by auto
next
  case (Pop_back l)
  then show ?thesis using pop_back_rep [OF rep, of l] spec by auto
next
  case (Remove_self e)
  then show ?thesis using RemoveSelfFromList_rep [OF rep, of e] spec by (auto split: if_splits)
next
  case (Change_list e l)
  then show ?thesis
    using ChangeList_rep [OF rep, of e l] spec by (auto simp: off_lists [OF ls] split: if_splits)
qed

text \<open>C14: Every run of list operations that the abstract lists allow is carried out without
  a panic, returns the same elements, and leaves a store that stands for the resulting
  contents: heads, tails, sizes and links of all lists stay consistent, over pushes and pops
  at both ends, removal from the middle, and elements moving between lists.\<close>
theorem list_run_refines:
  assumes "lists_rep s L" "only_lists ls L"
    "spec_run ls ops (L, stack_list s) = Some (rs, L', own')"
  shows "\<exists>s'. list_run ops s = Some (rs, s') \<and> lists_rep s' L' \<and> stack_list s' = own'"
  using assms
proof (induction ops arbitrary: s L rs)
  case (Cons op ops)
  obtain r L1 own1 rs' where st: "spec_step ls op (L, stack_list s) = Some (r, L1, own1)"
    and run: "spec_run ls ops (L1, own1) = Some (rs', L', own')" and rs: "rs = r # rs'"
    using Cons.prems(3) by (auto split: option.splits prod.splits)
  obtain s1 where s1: "list_step op s = Some (r, s1)" "lists_rep s1 L1" "stack_list s1 = own1"
    using list_step_refines [OF Cons.prems(1,2) st] by blast
  from Cons.IH [OF s1(2) spec_step_only [OF Cons.prems(2) st]] run s1 rs
  show ?case by auto
qed simp

theorem list_run_refines_witness:
  "\<exists>s'. list_run [Push_back True 1, Push_back True 2, Push_front True 3, Remove_self 1,
                  Pop_back True, Change_list 2 False, Push_back False 2] (new_lists True)
       = Some ([1, 2, 3, 1, 2, 2, 2], s')
     \<and> lists_rep s' ((\<lambda>_. [])(True := [3], False := [2])) \<and> stack_list s' = (\<lambda>_. True)(2 := False)"
proof (rule list_run_refines)
  show "lists_rep (new_lists True) (\<lambda>_. [])" by (rule lists_rep_new)
  show "only_lists [True, False] (\<lambda>_. [])" by (simp add: only_lists_def)
  show "spec_run [True, False] [Push_back True 1, Push_back True 2, Push_front True 3, Remove_self 1,
          Pop_back True, Change_list 2 False, Push_back False 2] (\<lambda>_. [], stack_list (new_lists True))
      = Some ([1, 2, 3, 1, 2, 2, 2], (\<lambda>_. [])(True := [3], False := [2]), (\<lambda>_. True)(2 := False))"
    by (simp add: new_lists_def pushable_def fun_eq_iff)
qed

end
