(* ===== verification/Paging.thy ===== *)
theory Paging
  imports Prelude
begin

unbundle bit_operations_syntax

text \<open>
  The page tables, \<open>kernel/kernel/paging.cc\<close>: four levels of 512 entries, built and freed by
  ranges of virtual addresses. A table is 512 words of 64 bits at an aligned kernel address;
  \<open>cells\<close> is the kernel memory by the addresses of its words. \<open>palloc\<close> stands for
  \<open>kaligned_alloc(4096, 4096)\<close>: the table it gives when those in \<open>used_tables\<close> are taken, None
  for \<open>nullptr\<close>. Addresses are \<open>nat\<close> with the wrap-around of 64 bits written out. A function
  that returns None failed an \<open>ASSERT\<close>.
\<close>

section \<open>Entries\<close>

definition kKernelVirtualOffset :: nat where "kKernelVirtualOffset = 0xFFFFFFFF80000000"
definition FourKB :: nat where "FourKB = 0x1000"
definition kPML4AddressSizePerEntry :: nat where "kPML4AddressSizePerEntry = 2 ^ 39"
definition kPDPTableAddressSizePerEntry :: nat where "kPDPTableAddressSizePerEntry = 2 ^ 30"
definition kPDTableAddressSizePerEntry :: nat where "kPDTableAddressSizePerEntry = 2 ^ 21"
definition kPageTableAddressSizePerEntry :: nat where "kPageTableAddressSizePerEntry = 2 ^ 12"

definition SetPresent :: "64 word \<Rightarrow> 64 word" where "SetPresent e = e OR 1"
definition SetFree :: "64 word \<Rightarrow> 64 word" where "SetFree e = e AND 0xFFFFFFFFFFFFFFFE"
definition IsPresent :: "64 word \<Rightarrow> bool" where "IsPresent e \<longleftrightarrow> e AND 1 \<noteq> 0"
definition IsUserAccessible :: "64 word \<Rightarrow> bool" where "IsUserAccessible e \<longleftrightarrow> e AND 4 \<noteq> 0"
definition SetReadWrite :: "64 word \<Rightarrow> 64 word" where "SetReadWrite e = e OR 2"
definition SetUserAccessible :: "64 word \<Rightarrow> 64 word" where "SetUserAccessible e = e OR 4"

definition SetBaseAddress :: "nat \<Rightarrow> 64 word \<Rightarrow> 64 word option" where
  "SetBaseAddress base_addr e = (if base_addr mod FourKB = 0 then Some (e OR word_of_nat base_addr) else None)"

definition GetBaseAddress :: "64 word \<Rightarrow> nat" where
  "GetBaseAddress e = unat (e AND 0x000FFFFFFFFFF000)"

definition SetEntry :: "nat \<Rightarrow> bool \<Rightarrow> bool \<Rightarrow> bool \<Rightarrow> 64 word option" where
  "SetEntry page_dir_pointer_addr present rw is_kernel =
     (let e0 = 0;
          e1 = (if present then SetPresent e0 else e0);
          e2 = (if rw then SetReadWrite e1 else e1);
          e3 = (if \<not> is_kernel then SetUserAccessible e2 else e2)
      in if page_dir_pointer_addr mod 0x1000 = 0 then SetBaseAddress page_dir_pointer_addr e3 else None)"

section \<open>Addresses\<close>

definition KernelToPhys :: "nat \<Rightarrow> nat" where "KernelToPhys addr = sub64 addr kKernelVirtualOffset"
definition PhysToKernel :: "nat \<Rightarrow> nat" where "PhysToKernel addr = add64 addr kKernelVirtualOffset"

definition GetPML4Offset :: "nat \<Rightarrow> nat" where "GetPML4Offset addr = addr div 2 ^ 39 mod 512"
definition GetPML4StartAddr :: "nat \<Rightarrow> nat" where "GetPML4StartAddr addr = addr div 2 ^ 39 * 2 ^ 39"
definition GetPDPOffset :: "nat \<Rightarrow> nat" where "GetPDPOffset addr = addr div 2 ^ 30 mod 512"
definition GetPDPStartAddr :: "nat \<Rightarrow> nat" where "GetPDPStartAddr addr = addr div 2 ^ 30 * 2 ^ 30"
definition GetPDOffset :: "nat \<Rightarrow> nat" where "GetPDOffset addr = addr div 2 ^ 21 mod 512"
definition GetPDStartAddr :: "nat \<Rightarrow> nat" where "GetPDStartAddr addr = addr div 2 ^ 21 * 2 ^ 21"
definition GetPTOffset :: "nat \<Rightarrow> nat" where "GetPTOffset addr = addr div 2 ^ 12 mod 512"
definition Get4KBBoundary :: "nat \<Rightarrow> nat" where "Get4KBBoundary addr = addr div 4096 * 4096"
definition IsKernelMemory :: "nat \<Rightarrow> bool" where "IsKernelMemory memory_addr \<longleftrightarrow> memory_addr \<ge> kKernelVirtualOffset"

section \<open>Tables\<close>

record paging =
  cells :: "nat \<Rightarrow> 64 word"
  used_tables :: "nat set"
  shared_kernel_pml4e_entries :: "(nat \<times> 64 word) list"
  freed_frames :: "nat list"  \<comment> \<open>what was given back to \<open>UserFrameAllocator\<close>\<close>

type_synonym palloc = "nat set \<Rightarrow> nat option"

definition table_entry :: "paging \<Rightarrow> nat \<Rightarrow> nat \<Rightarrow> 64 word" where
  "table_entry st base i = cells st (base + 8 * i)"

definition set_entry :: "nat \<Rightarrow> nat \<Rightarrow> 64 word \<Rightarrow> paging \<Rightarrow> paging" where
  "set_entry base i e st = st\<lparr>cells := (cells st)(base + 8 * i := e)\<rparr>"

definition CreateNewTable :: "palloc \<Rightarrow> paging \<Rightarrow> (nat \<times> paging) option" where
  "CreateNewTable palloc st =
     do {
       table_base_addr \<leftarrow> palloc (used_tables st);
       e \<leftarrow> SetEntry 0 False False False;
       Some (table_base_addr,
         st\<lparr>cells := (\<lambda>a. if table_base_addr \<le> a \<and> a < table_base_addr + 8 * 512 then e else cells st a),
            used_tables := insert table_base_addr (used_tables st)\<rparr>)
     }"

definition CreateEmptyPageTable :: "palloc \<Rightarrow> paging \<Rightarrow> (nat \<times> paging) option" where
  \<comment> \<open>the physical address of the table\<close>
  "CreateEmptyPageTable palloc st =
     do {
       (pml4e_base_addr, st1) \<leftarrow> CreateNewTable palloc st;
       Some (KernelToPhys pml4e_base_addr,
         fold (\<lambda>(offset, e). set_entry pml4e_base_addr offset e) (shared_kernel_pml4e_entries st1) st1)
     }"

fun for_each :: "(nat \<Rightarrow> 's \<Rightarrow> 's option) \<Rightarrow> nat list \<Rightarrow> 's \<Rightarrow> 's option" where
  \<comment> \<open>\<open>for (offset = ...)\<close> with an early end on a failure\<close>
  "for_each body [] st = Some st"
| "for_each body (offset # offsets) st = do { st1 \<leftarrow> body offset st; for_each body offsets st1 }"

section \<open>Mapping a range\<close>

definition ensure_table :: "palloc \<Rightarrow> bool \<Rightarrow> nat \<Rightarrow> nat \<Rightarrow> paging \<Rightarrow> paging option" where
  \<comment> \<open>the table an entry points to, created when it is not there\<close>
  "ensure_table palloc is_kernel base offset st =
     (if \<not> IsPresent (table_entry st base offset) then
        do {
          (table, st1) \<leftarrow> CreateNewTable palloc st;
          e \<leftarrow> SetEntry (KernelToPhys table) True True is_kernel;
          Some (set_entry base offset e st1)
        }
      else Some st)"

definition mark_user :: "bool \<Rightarrow> nat \<Rightarrow> nat \<Rightarrow> paging \<Rightarrow> paging" where
  "mark_user is_kernel base offset st =
     (if \<not> is_kernel then set_entry base offset (SetUserAccessible (table_entry st base offset)) st else st)"

definition SetPT :: "nat \<Rightarrow> nat \<Rightarrow> nat \<Rightarrow> bool \<Rightarrow> nat \<Rightarrow> paging \<Rightarrow> paging option" where
  "SetPT start_addr end_addr pt_base_addr is_kernel physical_addr_start st =
     (let offset_start = GetPTOffset start_addr;
          offset_end = GetPTOffset (sub64 end_addr 1)
      in if pt_base_addr < kKernelVirtualOffset then None
         else for_each (\<lambda>offset st.
                let delta = offset - offset_start
                in do {
                     e \<leftarrow> SetEntry (add64 physical_addr_start (mul64 delta kPageTableAddressSizePerEntry)) True True is_kernel;
                     Some (set_entry pt_base_addr offset e st)
                   }) [offset_start ..< offset_end + 1] st)"

definition SetPDT :: "palloc \<Rightarrow> nat \<Rightarrow> nat \<Rightarrow> nat \<Rightarrow> bool \<Rightarrow> nat \<Rightarrow> paging \<Rightarrow> paging option" where
  "SetPDT palloc start_addr end_addr pdt_base_addr is_kernel physical_addr_start st =
     (let offset_start = GetPDOffset start_addr;
          offset_end = GetPDOffset (sub64 end_addr 1);
          pdt_start_addr = GetPDStartAddr start_addr
      in if pdt_base_addr < kKernelVirtualOffset then None
         else for_each (\<lambda>offset st.
                do {
                  st1 \<leftarrow> ensure_table palloc is_kernel pdt_base_addr offset st;
                  let st2 = mark_user is_kernel pdt_base_addr offset st1;
                  let pt_base_addr = PhysToKernel (GetBaseAddress (table_entry st2 pdt_base_addr offset));
                  let delta = offset - offset_start;
                  let pt_start_addr = max start_addr (add64 pdt_start_addr (mul64 delta kPDTableAddressSizePerEntry));
                  let physical_addr_offset = sub64 pt_start_addr start_addr;
                  SetPT pt_start_addr
                    (min end_addr (add64 pdt_start_addr (mul64 (delta + 1) kPDTableAddressSizePerEntry)))
                    pt_base_addr is_kernel (add64 physical_addr_start physical_addr_offset) st2
                }) [offset_start ..< offset_end + 1] st)"

definition SetPDPT :: "palloc \<Rightarrow> nat \<Rightarrow> nat \<Rightarrow> nat \<Rightarrow> bool \<Rightarrow> nat \<Rightarrow> paging \<Rightarrow> paging option" where
  "SetPDPT palloc start_addr end_addr pdpe_base_addr is_kernel physical_addr_start st =
     (let offset_start = GetPDPOffset start_addr;
          offset_end = GetPDPOffset (sub64 end_addr 1);
          pdpt_start_addr = GetPDPStartAddr start_addr
      in if pdpe_base_addr < kKernelVirtualOffset then None
         else for_each (\<lambda>offset st.
                do {
                  st1 \<leftarrow> ensure_table palloc is_kernel pdpe_base_addr offset st;
                  let st2 = mark_user is_kernel pdpe_base_addr offset st1;
                  let pdt_base_addr = PhysToKernel (GetBaseAddress (table_entry st2 pdpe_base_addr offset));
                  let delta = offset - offset_start;
                  let pdt_start_addr = max start_addr (add64 pdpt_start_addr (mul64 delta kPDPTableAddressSizePerEntry));
                  let physical_addr_offset = sub64 pdt_start_addr start_addr;
                  SetPDT palloc pdt_start_addr
                    (min end_addr (add64 pdpt_start_addr (mul64 (delta + 1) kPDPTableAddressSizePerEntry)))
                    pdt_base_addr is_kernel (add64 physical_addr_start physical_addr_offset) st2
                }) [offset_start ..< offset_end + 1] st)"

definition ensure_pdpt :: "palloc \<Rightarrow> bool \<Rightarrow> nat \<Rightarrow> nat \<Rightarrow> nat \<Rightarrow> paging \<Rightarrow> paging option" where
  \<comment> \<open>as \<open>ensure_table\<close>; entries of the kernel are kept for new page tables\<close>
  "ensure_pdpt palloc is_kernel start_addr pml4e_base_addr offset st =
     (if \<not> IsPresent (table_entry st pml4e_base_addr offset) then
        do {
          st1 \<leftarrow> ensure_table palloc is_kernel pml4e_base_addr offset st;
          Some (if is_kernel \<and> offset \<notin> fst ` set (shared_kernel_pml4e_entries st1) \<and> start_addr \<ge> 0xFFFFFFFF80000000
                then st1\<lparr>shared_kernel_pml4e_entries :=
                       shared_kernel_pml4e_entries st1 @ [(offset, table_entry st1 pml4e_base_addr offset)]\<rparr>
                else st1)
        }
      else Some st)"

definition next_boundary :: "nat \<Rightarrow> nat \<Rightarrow> nat \<Rightarrow> nat \<Rightarrow> nat" where
  \<comment> \<open>\<open>pdpt_end_addr\<close>: the end of the entry, unless it is the end of the address space\<close>
  "next_boundary start_addr sz pml4_start_addr delta =
     (let boundary = add64 pml4_start_addr (mul64 (delta + 1) kPML4AddressSizePerEntry)
      in if boundary \<noteq> 0 then min (add64 start_addr sz) boundary else add64 start_addr sz)"

definition SetPML4E :: "palloc \<Rightarrow> nat \<Rightarrow> nat \<Rightarrow> nat \<Rightarrow> bool \<Rightarrow> nat \<Rightarrow> paging \<Rightarrow> paging option" where
  "SetPML4E palloc start_addr sz pml4e_base_addr is_kernel physical_addr_start st =
     (let offset_start = GetPML4Offset start_addr;
          offset_end = GetPML4Offset (sub64 (add64 start_addr sz) 1);
          pml4_start_addr = GetPML4StartAddr start_addr
      in if pml4e_base_addr < kKernelVirtualOffset then None
         else for_each (\<lambda>offset st.
                do {
                  st1 \<leftarrow> ensure_pdpt palloc is_kernel start_addr pml4e_base_addr offset st;
                  let st2 = mark_user is_kernel pml4e_base_addr offset st1;
                  let pdpt_base_addr = PhysToKernel (GetBaseAddress (table_entry st2 pml4e_base_addr offset));
                  let delta = offset - offset_start;
                  let pdpt_start_addr = max start_addr (add64 pml4_start_addr (mul64 delta kPML4AddressSizePerEntry));
                  let pdpt_end_addr = next_boundary start_addr sz pml4_start_addr delta;
                  let physical_addr_offset = sub64 pdpt_start_addr start_addr;
                  SetPDPT palloc pdpt_start_addr pdpt_end_addr pdpt_base_addr is_kernel
                    (add64 physical_addr_start physical_addr_offset) st2
                }) [offset_start ..< offset_end + 1] st)"

definition AllocateTable :: "palloc \<Rightarrow> nat \<Rightarrow> nat \<Rightarrow> nat \<Rightarrow> bool \<Rightarrow> nat \<Rightarrow> paging \<Rightarrow> paging option" where
  "AllocateTable palloc pml4e_base_addr_phys vm_start_addr bytes is_kernel physical_addr_start st =
     (if (if is_kernel then vm_start_addr \<ge> 0xFFFFFFFF80000000 else vm_start_addr < 0xFFFFFFFF80000000)
      then SetPML4E palloc vm_start_addr bytes (PhysToKernel pml4e_base_addr_phys) is_kernel physical_addr_start st
      else None)"

definition CreateIdentityForKernel :: "palloc \<Rightarrow> nat \<Rightarrow> nat \<Rightarrow> nat \<Rightarrow> paging \<Rightarrow> paging option" where
  "CreateIdentityForKernel palloc pml4e_base_addr_phys phys_start_addr bytes st =
     SetPML4E palloc phys_start_addr bytes (PhysToKernel pml4e_base_addr_phys) True phys_start_addr st"

section \<open>Unmapping a range\<close>

definition no_entry_present :: "nat \<Rightarrow> paging \<Rightarrow> bool" where
  "no_entry_present base st \<longleftrightarrow> (\<forall>i \<in> set [0 ..< 512]. \<not> IsPresent (table_entry st base i))"

definition FreePT :: "nat \<Rightarrow> nat \<Rightarrow> nat \<Rightarrow> paging \<Rightarrow> (bool \<times> paging) option" where
  "FreePT start_addr end_addr pt_base_addr st =
     (let offset_start = GetPTOffset start_addr;
          offset_end = GetPTOffset (sub64 end_addr 1)
      in if pt_base_addr < kKernelVirtualOffset then None
         else do {
           st' \<leftarrow> for_each (\<lambda>offset st.
             let st1 = set_entry pt_base_addr offset (SetFree (table_entry st pt_base_addr offset)) st;
                 frame_phys_addr = GetBaseAddress (table_entry st1 pt_base_addr offset)
             in Some (st1\<lparr>freed_frames := freed_frames st1 @ [frame_phys_addr]\<rparr>)) [offset_start ..< offset_end + 1] st;
           Some (no_entry_present pt_base_addr st', st')
         })"

definition FreePDT :: "nat \<Rightarrow> nat \<Rightarrow> nat \<Rightarrow> paging \<Rightarrow> (bool \<times> paging) option" where
  "FreePDT start_addr end_addr pdt_base_addr st =
     (let offset_start = GetPDOffset start_addr;
          offset_end = GetPDOffset (sub64 end_addr 1);
          pdt_start_addr = GetPDStartAddr start_addr
      in if pdt_base_addr < kKernelVirtualOffset then None
         else do {
           st' \<leftarrow> for_each (\<lambda>offset st.
             if IsPresent (table_entry st pdt_base_addr offset) then do {
               let pt_base_addr = PhysToKernel (GetBaseAddress (table_entry st pdt_base_addr offset));
               let delta = offset - offset_start;
               let pt_start_addr = max start_addr (add64 pdt_start_addr (mul64 delta kPDTableAddressSizePerEntry));
               (empty, st1) \<leftarrow> FreePT pt_start_addr
                 (min end_addr (add64 pdt_start_addr (mul64 (delta + 1) kPDTableAddressSizePerEntry))) pt_base_addr st;
               Some (if empty then set_entry pdt_base_addr offset (SetFree (table_entry st1 pdt_base_addr offset)) st1 else st1)
             }
             else Some st) [offset_start ..< offset_end + 1] st;
           Some (no_entry_present pdt_base_addr st', st')
         })"

definition FreePDPT :: "nat \<Rightarrow> nat \<Rightarrow> nat \<Rightarrow> paging \<Rightarrow> (bool \<times> paging) option" where
  "FreePDPT start_addr end_addr pdpe_base_addr st =
     (let offset_start = GetPDPOffset start_addr;
          offset_end = GetPDPOffset (sub64 end_addr 1);
          pdpt_start_addr = GetPDPStartAddr start_addr
      in if pdpe_base_addr < kKernelVirtualOffset then None
         else do {
           st' \<leftarrow> for_each (\<lambda>offset st.
             if IsPresent (table_entry st pdpe_base_addr offset) then do {
               let pdt_base_addr = PhysToKernel (GetBaseAddress (table_entry st pdpe_base_addr offset));
               let delta = offset - offset_start;
               let pdt_start_addr = max start_addr (add64 pdpt_start_addr (mul64 delta kPDPTableAddressSizePerEntry));
               (empty, st1) \<leftarrow> FreePDT pdt_start_addr
                 (min end_addr (add64 pdpt_start_addr (mul64 (delta + 1) kPDPTableAddressSizePerEntry))) pdt_base_addr st;
               Some (if empty then set_entry pdpe_base_addr offset (SetFree (table_entry st1 pdpe_base_addr offset)) st1 else st1)
             }
             else Some st) [offset_start ..< offset_end + 1] st;
           Some (no_entry_present pdpe_base_addr st', st')
         })"

definition FreePML4E :: "nat \<Rightarrow> nat \<Rightarrow> nat \<Rightarrow> paging \<Rightarrow> paging option" where
  "FreePML4E start_addr sz pml4e_base_addr st =
     (let offset_start = GetPML4Offset start_addr;
          offset_end = GetPML4Offset (sub64 (add64 start_addr sz) 1);
          pml4_start_addr = GetPML4StartAddr start_addr
      in if pml4e_base_addr < kKernelVirtualOffset then None
         else for_each (\<lambda>offset st.
           if IsPresent (table_entry st pml4e_base_addr offset) then do {
             let pdpt_base_addr = PhysToKernel (GetBaseAddress (table_entry st pml4e_base_addr offset));
             let delta = offset - offset_start;
             let pdpt_start_addr = max start_addr (add64 pml4_start_addr (mul64 delta kPML4AddressSizePerEntry));
             (empty, st1) \<leftarrow> FreePDPT pdpt_start_addr (next_boundary start_addr sz pml4_start_addr delta) pdpt_base_addr st;
             Some (if empty then set_entry pml4e_base_addr offset (SetFree (table_entry st1 pml4e_base_addr offset)) st1 else st1)
           }
           else Some st) [offset_start ..< offset_end + 1] st)"

end
