(* ===== verification/Scheduler.thy ===== *)
theory Scheduler
  imports KList Paging
begin

text \<open>
  Threads, the scheduler and semaphores: \<open>kernel/kernel/kthread.h\<close>, \<open>kthread.cc\<close>,
  \<open>scheduler.cc\<close>, \<open>semaphore.cc\<close>, with the mutex of \<open>sync.h\<close>. A thread is named by the
  address of its \<open>kernel_list_elem_\<close>. Every run queue and every semaphore's queue is a list
  of one store. A run through a critical section (a held queue lock, or interrupts off) is
  one operation. \<open>None\<close> is \<open>PANIC\<close> or a failed \<open>ASSERT\<close>.
\<close>

section \<open>Data\<close>

datatype thread_status =
  THREAD_RUN | THREAD_SLEEP | THREAD_TERMINATE | THREAD_TERMINATE_READY

text \<open>\<open>SavedRegisters\<close>: the interrupt frame and the general registers.\<close>

record saved_registers =
  rip :: nat
  rsp :: nat
  rflags :: nat
  cs :: nat
  ss :: nat
  regs :: "nat list"

record thread =
  status :: thread_status
  status_before_sleep :: thread_status
  in_queue :: bool
  in_same_cpu_id :: bool
  cpu_id :: nat
  is_kernel_thread :: bool
  in_kernel_space :: bool
  kernel_regs :: saved_registers
  user_regs :: saved_registers
  fxsaved_region :: nat
  kernel_stack_top :: nat
  page_table :: nat

datatype queue_name = RunQueue nat | Waiters nat

record kernel =
  lists :: "queue_name klists"
  threads :: "nat \<Rightarrow> thread"
  current :: "nat \<Rightarrow> nat"
  num_threads_per_core :: "nat \<Rightarrow> int"
  num_core :: nat
  multicore_enabled :: bool
  next_core :: nat
  cnt :: "nat \<Rightarrow> int"
  fpu :: "nat \<Rightarrow> nat"
  rsp0 :: "nat \<Rightarrow> nat"
  cr3 :: "nat \<Rightarrow> nat"

definition kKernelCodeSegment :: nat where "kKernelCodeSegment = 8"

section \<open>Threads\<close>

definition upd_thread :: "nat \<Rightarrow> (thread \<Rightarrow> thread) \<Rightarrow> kernel \<Rightarrow> kernel" where
  "upd_thread t f k = k\<lparr>threads := (threads k)(t := f (threads k t))\<rparr>"

definition IsRunnable :: "thread \<Rightarrow> bool" where
  "IsRunnable t \<longleftrightarrow> status t = THREAD_RUN \<or> status t = THREAD_TERMINATE_READY"

definition IsTerminateReady :: "thread \<Rightarrow> bool" where
  "IsTerminateReady t \<longleftrightarrow> status t = THREAD_TERMINATE_READY"

definition IsInKernelSpace :: "thread \<Rightarrow> bool" where
  "IsInKernelSpace t \<longleftrightarrow> is_kernel_thread t \<or> in_kernel_space t"

definition MakeSleep :: "thread \<Rightarrow> thread" where
  "MakeSleep t = t\<lparr>status_before_sleep := status t, status := THREAD_SLEEP\<rparr>"

definition WakeUp :: "thread \<Rightarrow> thread" where
  "WakeUp t = t\<lparr>status := status_before_sleep t\<rparr>"

definition MakeTerminate :: "thread \<Rightarrow> thread" where
  "MakeTerminate t = t\<lparr>status := THREAD_TERMINATE\<rparr>"

definition MakeTerminateReady :: "thread \<Rightarrow> thread" where
  "MakeTerminateReady t =
     t\<lparr>status := THREAD_TERMINATE_READY, status_before_sleep := THREAD_TERMINATE_READY\<rparr>"

definition SetInQueue :: "bool \<Rightarrow> thread \<Rightarrow> thread" where
  "SetInQueue b t = t\<lparr>in_queue := b\<rparr>"

text \<open>The constructors of \<open>KernelThread\<close> and of \<open>Process\<close>. \<open>stack\<close> is the block \<open>kmalloc\<close>
  returned, \<open>old\<close> the thread block as it was before, whose other fields are not set.\<close>

definition kKernelThreadStackSize :: nat where "kKernelThreadStackSize = 8192"
definition kUserProcessStackAddress :: nat where "kUserProcessStackAddress = 0x40000000"

definition new_kernel_thread :: "nat \<Rightarrow> nat \<Rightarrow> bool \<Rightarrow> nat \<Rightarrow> thread \<Rightarrow> thread" where
  "new_kernel_thread entry_function stack same_cpu cpu old =
     (let top = stack + 8 * (kKernelThreadStackSize div 8 - 1)
      in old\<lparr>status := THREAD_RUN, in_queue := False, in_same_cpu_id := same_cpu,
             kernel_regs := \<lparr>rip = entry_function, rsp = top, rflags = 0x200, cs = 8, ss = 0x10,
                             regs = replicate 15 0\<rparr>,
             kernel_stack_top := top, is_kernel_thread := True, cpu_id := cpu\<rparr>)"

definition new_process :: "nat \<Rightarrow> nat \<Rightarrow> nat \<Rightarrow> nat \<Rightarrow> nat \<Rightarrow> thread \<Rightarrow> thread" where
  "new_process entry_function stack cpu table fxsave old =
     (let t = new_kernel_thread 0 stack False cpu old
      in t\<lparr>is_kernel_thread := False, in_kernel_space := False, page_table := table,
           user_regs := (user_regs t)\<lparr>rip := entry_function, rsp := kUserProcessStackAddress - 8,
                                      cs := 0x23, ss := 0x1b, rflags := 0x200\<rparr>,
           fxsaved_region := fxsave\<rparr>)"

section \<open>Scheduling\<close>

definition add_num_threads :: "nat \<Rightarrow> int \<Rightarrow> kernel \<Rightarrow> kernel" where
  "add_num_threads c d k =
     k\<lparr>num_threads_per_core := (num_threads_per_core k)(c := num_threads_per_core k c + d)\<rparr>"

definition on_lists :: "(queue_name klists \<Rightarrow> queue_name klists option) \<Rightarrow> kernel \<Rightarrow> kernel option" where
  "on_lists f k = map_option (\<lambda>l. k\<lparr>lists := l\<rparr>) (f (lists k))"

definition queue_size :: "queue_name \<Rightarrow> kernel \<Rightarrow> int" where
  "queue_size q k = lsize (lists k) q"

text \<open>The loop of \<open>PopNextThreadToRun\<close>: threads that are not runnable leave the queue.\<close>

partial_function (option) pop_runnable :: "nat \<Rightarrow> kernel \<Rightarrow> (nat \<times> kernel) option" where
  "pop_runnable c k =
     (if queue_size (RunQueue c) k = 0 then Some (0, k)
      else case pop_front (RunQueue c) (lists k) of
             None \<Rightarrow> None
           | Some (e, l) \<Rightarrow>
               (let k' = k\<lparr>lists := l\<rparr>
                in if IsRunnable (threads k' e) then Some (e, k') else pop_runnable c k'))"

definition PopNextThreadToRun :: "nat \<Rightarrow> kernel \<Rightarrow> (nat \<times> kernel) option" where
  "PopNextThreadToRun c k = (if num_core k = 0 then Some (0, k) else pop_runnable c k)"

text \<open>The parts of \<open>YieldInInterruptHandler\<close>, in its order: the mode the interrupted thread was
  in, its place in the queue, its registers, and the registers of the next thread.\<close>

definition note_mode :: "saved_registers \<Rightarrow> thread \<Rightarrow> thread" where
  "note_mode args t =
     (if is_kernel_thread t then t
      else if IsKernelMemory (rip args) then t\<lparr>in_kernel_space := True\<rparr>
      else let t' = t\<lparr>in_kernel_space := False\<rparr>
           in if IsTerminateReady t' then MakeTerminate t' else t')"

definition requeue :: "nat \<Rightarrow> nat \<Rightarrow> kernel \<Rightarrow> kernel option" where
  "requeue c cur k =
     (if IsRunnable (threads k cur) \<and> \<not> in_queue (threads k cur) then
        map_option (upd_thread cur (SetInQueue True)) (on_lists (push_back (RunQueue c) cur) k)
      else Some (add_num_threads (cpu_id (threads k cur)) (- 1) (upd_thread cur (SetInQueue False) k)))"

definition save_regs :: "nat \<Rightarrow> saved_registers \<Rightarrow> nat \<Rightarrow> kernel \<Rightarrow> kernel" where
  "save_regs c args cur k =
     upd_thread cur
       (\<lambda>t. if cs args = kKernelCodeSegment then t\<lparr>kernel_regs := args\<rparr>
            else t\<lparr>user_regs := args, fxsaved_region := fpu k c\<rparr>) k"

definition load_regs :: "nat \<Rightarrow> nat \<Rightarrow> kernel \<Rightarrow> saved_registers \<times> kernel" where
  "load_regs c n k =
     (let k1 = upd_thread n (SetInQueue False) k; t = threads k1 n;
          r = (if IsInKernelSpace t then (kernel_regs t, k1)
               else (user_regs t, k1\<lparr>fpu := (fpu k1)(c := fxsaved_region t),
                                     rsp0 := (rsp0 k1)(c := kernel_stack_top t)\<rparr>));
          k2 = (if is_kernel_thread t then snd r
                else (snd r)\<lparr>cr3 := (cr3 (snd r))(c := page_table t)\<rparr>)
      in (fst r, k2\<lparr>current := (current k2)(c := n)\<rparr>))"

definition YieldInInterruptHandler ::
  "nat \<Rightarrow> saved_registers \<Rightarrow> kernel \<Rightarrow> (saved_registers \<times> kernel) option" where
  "YieldInInterruptHandler c args k =
     (if num_core k = 0 then Some (args, k)
      else case PopNextThreadToRun c k of
             None \<Rightarrow> None
           | Some (n, k1) \<Rightarrow>
               if n = 0 then Some (args, k1)
               else if cpu_id (threads k1 n) \<noteq> c then None
               else let cur = current k1 c
                    in map_option (load_regs c n)
                         (map_option (save_regs c args cur)
                           (requeue c cur (upd_thread cur (note_mode args) k1))))"

definition EnqueueThread :: "nat \<Rightarrow> kernel \<Rightarrow> kernel option" where
  "EnqueueThread e k0 =
     (let c = cpu_id (threads k0 e);
          k1 = add_num_threads c 1 k0;
          k2 = k1\<lparr>lists := ChangeList e (RunQueue c) (lists k1)\<rparr>
      in if \<not> in_queue (threads k2 e) then
           map_option (upd_thread e (SetInQueue True)) (on_lists (PushBack e) k2)
         else Some k2)"

definition EnqueueThreadFirstTime :: "nat \<Rightarrow> kernel \<Rightarrow> kernel option" where
  "EnqueueThreadFirstTime e k =
     EnqueueThread e
       (if multicore_enabled k then
          (upd_thread e (\<lambda>t. t\<lparr>cpu_id := next_core k\<rparr>) k)
            \<lparr>next_core := (next_core k + 1) mod num_core k\<rparr>
        else k)"

definition Start :: "nat \<Rightarrow> kernel \<Rightarrow> kernel option" where
  "Start t k = (if in_same_cpu_id (threads k t) then EnqueueThread t k else EnqueueThreadFirstTime t k)"

definition SetCoreCount :: "nat \<Rightarrow> kernel \<Rightarrow> kernel" where
  "SetCoreCount n k = k\<lparr>num_core := num_core k + n\<rparr>"

text \<open>\<open>Terminate\<close> does not return: when \<open>Yield\<close> comes back, it panics.\<close>

definition Terminate :: "nat \<Rightarrow> saved_registers \<Rightarrow> kernel \<Rightarrow> (saved_registers \<times> kernel) option" where
  "Terminate c args k =
     (case YieldInInterruptHandler c args (upd_thread (current k c) MakeTerminate k) of
        None \<Rightarrow> None
      | Some (args', k') \<Rightarrow> if current k' c = current k c then None else Some (args', k'))"

section \<open>Semaphores\<close>

definition Up :: "nat \<Rightarrow> kernel \<Rightarrow> kernel option" where
  "Up s k0 =
     (let k = k0\<lparr>cnt := (cnt k0)(s := cnt k0 s + 1)\<rparr>
      in if list_empty (Waiters s) (lists k) then Some k
         else case pop_front (Waiters s) (lists k) of
                None \<Rightarrow> None
              | Some (e, l) \<Rightarrow> EnqueueThread e (upd_thread e WakeUp (k\<lparr>lists := l\<rparr>)))"

text \<open>One round of the loop of \<open>Down\<close>: the semaphore is taken, or the thread goes to sleep when
  another one can run, and yields with frame \<open>args\<close>.\<close>

definition Down :: "nat \<Rightarrow> nat \<Rightarrow> saved_registers \<Rightarrow> kernel \<Rightarrow> (bool \<times> saved_registers \<times> kernel) option" where
  "Down c s args k =
     (if cnt k s > 0 then Some (True, args, k\<lparr>cnt := (cnt k)(s := cnt k s - 1)\<rparr>)
      else
        let cur = current k c;
            slept = (if queue_size (RunQueue c) k > 0 then
                       let k1 = upd_thread cur MakeSleep k;
                           k2 = k1\<lparr>lists := ChangeList cur (Waiters s) (lists k1)\<rparr>
                       in on_lists (PushBack cur) k2
                     else Some k)
        in case slept of
             None \<Rightarrow> None
           | Some k' \<Rightarrow> map_option (Pair False) (YieldInInterruptHandler c args k'))"

end
