(* ===== verification/SchedInv.thy ===== *)
theory SchedInv
  imports Scheduler
begin

text \<open>
  The invariant of the scheduler and its preservation by every operation of
  \<open>scheduler.cc\<close>, \<open>kthread.cc\<close> and \<open>semaphore.cc\<close>. The lists are reached through the
  facts of the \<open>deques\<close> interface, \<open>kl\<close>.
\<close>

section \<open>The invariant\<close>

text \<open>\<open>L\<close> gives the contents of the queues. A thread in a run queue is marked so, can run and
  belongs to that core; a marked thread is in the queue of its core; a thread waiting on a
  semaphore can run once woken; a running thread is in no queue.\<close>

definition run_ok :: "kernel \<Rightarrow> (queue_name \<Rightarrow> nat list) \<Rightarrow> bool" where
  "run_ok k L \<longleftrightarrow> (\<forall>c e. e \<in> set (L (RunQueue c)) \<longrightarrow>
     in_queue (threads k e) \<and> IsRunnable (threads k e) \<and> cpu_id (threads k e) = c \<and> c < num_core k)"

definition marks_ok :: "kernel \<Rightarrow> (queue_name \<Rightarrow> nat list) \<Rightarrow> bool" where
  "marks_ok k L \<longleftrightarrow> (\<forall>e. in_queue (threads k e) \<longrightarrow> e \<in> set (L (RunQueue (cpu_id (threads k e)))))"

definition wait_ok :: "kernel \<Rightarrow> (queue_name \<Rightarrow> nat list) \<Rightarrow> bool" where
  "wait_ok k L \<longleftrightarrow> (\<forall>s e. e \<in> set (L (Waiters s)) \<longrightarrow>
     IsRunnable (WakeUp (threads k e)) \<and> cpu_id (threads k e) < num_core k)"

definition core_ok :: "kernel \<Rightarrow> bool" where
  "core_ok k \<longleftrightarrow> (\<forall>s. 0 \<le> cnt k s) \<and> (multicore_enabled k \<and> num_core k \<noteq> 0 \<longrightarrow> next_core k < num_core k)"

definition queues_ok :: "kernel \<Rightarrow> (queue_name \<Rightarrow> nat list) \<Rightarrow> bool" where
  "queues_ok k L \<longleftrightarrow> lists_rep (lists k) L \<and> run_ok k L \<and> marks_ok k L \<and> wait_ok k L \<and> core_ok k"

definition cpu_ok :: "kernel \<Rightarrow> (queue_name \<Rightarrow> nat list) \<Rightarrow> nat \<Rightarrow> bool" where
  "cpu_ok k L c \<longleftrightarrow> current k c \<noteq> 0 \<and> \<not> on_list L (current k c) \<and> cpu_id (threads k (current k c)) = c"

definition sched_inv :: "kernel \<Rightarrow> (queue_name \<Rightarrow> nat list) \<Rightarrow> bool" where
  "sched_inv k L \<longleftrightarrow> queues_ok k L \<and> (\<forall>c < num_core k. cpu_ok k L c)"

lemmas inv_defs = run_ok_def marks_ok_def wait_ok_def core_ok_def

lemma sched_invD:
  assumes "sched_inv k L"
  shows "lists_rep (lists k) L" "run_ok k L" "marks_ok k L" "wait_ok k L" "core_ok k"
    "queues_ok k L" "c < num_core k \<Longrightarrow> cpu_ok k L c"
  using assms by (auto simp: sched_inv_def queues_ok_def)

lemma upd_thread_fields [simp]:
  "lists (upd_thread t f k) = lists k" "current (upd_thread t f k) = current k"
  "num_core (upd_thread t f k) = num_core k" "cnt (upd_thread t f k) = cnt k"
  "next_core (upd_thread t f k) = next_core k" "multicore_enabled (upd_thread t f k) = multicore_enabled k"
  "threads (upd_thread t f k) = (threads k)(t := f (threads k t))"
  "fpu (upd_thread t f k) = fpu k" "num_threads_per_core (upd_thread t f k) = num_threads_per_core k"
  by (simp_all add: upd_thread_def)

lemma add_num_threads_fields [simp]:
  "lists (add_num_threads c d k) = lists k" "current (add_num_threads c d k) = current k"
  "num_core (add_num_threads c d k) = num_core k" "cnt (add_num_threads c d k) = cnt k"
  "next_core (add_num_threads c d k) = next_core k" "threads (add_num_threads c d k) = threads k"
  "fpu (add_num_threads c d k) = fpu k" "multicore_enabled (add_num_threads c d k) = multicore_enabled k"
  by (simp_all add: add_num_threads_def)

lemma thread_fields [simp]:
  "cpu_id (note_mode a t) = cpu_id t" "in_queue (note_mode a t) = in_queue t"
  "status_before_sleep (note_mode a t) = status_before_sleep t"
  "is_kernel_thread (note_mode a t) = is_kernel_thread t"
  "cpu_id (SetInQueue b t) = cpu_id t" "in_queue (SetInQueue b t) = b"
  "IsRunnable (SetInQueue b t) = IsRunnable t" "WakeUp (SetInQueue b t) = SetInQueue b (WakeUp t)"
  "is_kernel_thread (SetInQueue b t) = is_kernel_thread t"
  by (simp_all add: note_mode_def SetInQueue_def MakeTerminate_def Let_def IsRunnable_def WakeUp_def)

lemma IsRunnable_note_mode: "IsRunnable (note_mode a t) \<Longrightarrow> IsRunnable t"
  by (auto simp: note_mode_def IsRunnable_def MakeTerminate_def Let_def split: if_splits)

lemma IsRunnable_WakeUp:
  "IsRunnable (WakeUp t) \<longleftrightarrow> status_before_sleep t = THREAD_RUN \<or> status_before_sleep t = THREAD_TERMINATE_READY"
  by (simp add: WakeUp_def IsRunnable_def)

lemma queue_size_rep: "lists_rep (lists k) L \<Longrightarrow> queue_size q k = int (length (L q))"
  using lists_repD(1) [of "lists k" L q] by (simp add: queue_size_def list_rep_def)

lemma run_okD:
  assumes "run_ok k L" "e \<in> set (L (RunQueue c))"
  shows "in_queue (threads k e)" "IsRunnable (threads k e)" "cpu_id (threads k e) = c" "c < num_core k"
  using assms by (auto simp: run_ok_def)

lemma on_listI: "e \<in> set (L q) \<Longrightarrow> on_list L e"
  unfolding on_list_def by blast

lemma wait_okD:
  assumes "wait_ok k L" "e \<in> set (L (Waiters s))"
  shows "IsRunnable (WakeUp (threads k e))" "cpu_id (threads k e) < num_core k"
  using assms by (auto simp: wait_ok_def)

lemma off_popped: "\<not> on_list L e \<Longrightarrow> L q = x # xs \<Longrightarrow> \<not> on_list (L(q := xs)) e"
  unfolding on_list_def by (metis fun_upd_apply list.set_intros(2))

lemma off_pushed: "\<not> on_list L e \<Longrightarrow> e \<noteq> x \<Longrightarrow> \<not> on_list (L(q := L q @ [x])) e"
  by (auto simp: on_list_def)

lemma pop_next:
  assumes rep: "lists_rep (lists k) L" and run: "run_ok k L" and c: "c < num_core k"
  shows "L (RunQueue c) = [] \<Longrightarrow> PopNextThreadToRun c k = Some (0, k)"
    "L (RunQueue c) = n # rest \<Longrightarrow>
       \<exists>l. PopNextThreadToRun c k = Some (n, k\<lparr>lists := l\<rparr>) \<and> lists_rep l (L(RunQueue c := rest))"
proof -
  show "L (RunQueue c) = [] \<Longrightarrow> PopNextThreadToRun c k = Some (0, k)"
    using c by (simp add: PopNextThreadToRun_def) (subst pop_runnable.simps, simp add: queue_size_rep [OF rep])
  assume l: "L (RunQueue c) = n # rest"
  obtain l' where l': "pop_front (RunQueue c) (lists k) = Some (n, l')" "lists_rep l' (L(RunQueue c := rest))"
    using kl.popf [OF rep, of "RunQueue c"] l by auto
  have "IsRunnable (threads k n)" using run_okD(2) [OF run, of n c] l by simp
  then have "pop_runnable c k = Some (n, k\<lparr>lists := l'\<rparr>)"
    using l l' by (subst pop_runnable.simps) (simp add: queue_size_rep [OF rep])
  then show "\<exists>l. PopNextThreadToRun c k = Some (n, k\<lparr>lists := l\<rparr>) \<and> lists_rep l (L(RunQueue c := rest))"
    using l' c by (intro exI [of _ l']) (simp add: PopNextThreadToRun_def)
qed

section \<open>The context switch\<close>

text \<open>The registers a thread will resume with, and a thread that has been switched out.\<close>

definition saved_context :: "thread \<Rightarrow> saved_registers" where
  "saved_context t = (if IsInKernelSpace t then kernel_regs t else user_regs t)"

definition away :: "saved_registers \<Rightarrow> nat \<Rightarrow> thread \<Rightarrow> thread" where
  "away args fx t0 =
     (let t1 = note_mode args t0; t = SetInQueue (IsRunnable t1) t1
      in if cs args = kKernelCodeSegment then t\<lparr>kernel_regs := args\<rparr>
         else t\<lparr>user_regs := args, fxsaved_region := fx\<rparr>)"

lemma away_fields [simp]:
  "cpu_id (away args fx t) = cpu_id t"
  "in_queue (away args fx t) \<longleftrightarrow> IsRunnable (note_mode args t)"
  "IsRunnable (away args fx t) \<longleftrightarrow> IsRunnable (note_mode args t)"
  "IsRunnable (WakeUp (away args fx t)) \<longleftrightarrow> IsRunnable (WakeUp t)"
  "is_kernel_thread (away args fx t) = is_kernel_thread t"
  by (simp_all add: away_def Let_def IsRunnable_def SetInQueue_def WakeUp_def)

lemma load_regs_fields:
  "fst (load_regs c n k) = saved_context (threads k n)"
  "lists (snd (load_regs c n k)) = lists k" "num_core (snd (load_regs c n k)) = num_core k"
  "cnt (snd (load_regs c n k)) = cnt k" "next_core (snd (load_regs c n k)) = next_core k"
  "current (snd (load_regs c n k)) = (current k)(c := n)"
  "threads (snd (load_regs c n k)) = (threads k)(n := SetInQueue False (threads k n))"
  "multicore_enabled (snd (load_regs c n k)) = multicore_enabled k"
  by (simp_all add: load_regs_def Let_def saved_context_def SetInQueue_def IsInKernelSpace_def)

lemma requeue_ok:
  assumes rep: "lists_rep (lists k) L" and cur: "cur \<noteq> 0" "\<not> in_queue (threads k cur)"
    and off: "IsRunnable (threads k cur) \<Longrightarrow> \<not> on_list L cur"
  shows "\<exists>k'. requeue c cur k = Some k'
     \<and> lists_rep (lists k') (L(RunQueue c := L (RunQueue c) @ (if IsRunnable (threads k cur) then [cur] else [])))
     \<and> threads k' = (threads k)(cur := SetInQueue (IsRunnable (threads k cur)) (threads k cur))
     \<and> current k' = current k \<and> num_core k' = num_core k \<and> cnt k' = cnt k
     \<and> next_core k' = next_core k \<and> fpu k' = fpu k \<and> multicore_enabled k' = multicore_enabled k"
proof (cases "IsRunnable (threads k cur)")
  case True
  obtain l where "push_back (RunQueue c) cur (lists k) = Some l"
    "lists_rep l (L(RunQueue c := L (RunQueue c) @ [cur]))"
    using kl.pushb [OF rep cur(1) off [OF True], of "RunQueue c"] by blast
  then show ?thesis using True cur by (simp add: requeue_def on_lists_def)
next
  case False
  have "L(RunQueue c := L (RunQueue c)) = L" by auto
  then show ?thesis using False rep by (simp add: requeue_def)
qed

lemma yield_switch:
  assumes q: "queues_ok k L" and c: "c < num_core k" and l: "L (RunQueue c) = n # rest"
    and cur: "current k c = cur" "cur \<noteq> 0" "cpu_id (threads k cur) = c" "\<not> in_queue (threads k cur)"
    and off: "IsRunnable (threads k cur) \<Longrightarrow> \<not> on_list L cur"
  shows "\<exists>k'. YieldInInterruptHandler c args k = Some (saved_context (threads k n), k')
     \<and> lists_rep (lists k') (L(RunQueue c := rest @ (if IsRunnable (note_mode args (threads k cur)) then [cur] else [])))
     \<and> threads k' = (threads k)(cur := away args (fpu k c) (threads k cur), n := SetInQueue False (threads k n))
     \<and> current k' = (current k)(c := n) \<and> num_core k' = num_core k \<and> cnt k' = cnt k
     \<and> next_core k' = next_core k \<and> multicore_enabled k' = multicore_enabled k"
proof -
  have rep: "lists_rep (lists k) L" and run: "run_ok k L" using q by (simp_all add: queues_ok_def)
  have n: "in_queue (threads k n)" "cpu_id (threads k n) = c" "n \<noteq> 0"
    using run_okD [OF run, of n c] kl.members [OF rep, of n "RunQueue c"] l by simp_all
  have ncur: "n \<noteq> cur" using n(1) cur(4) by auto
  obtain l1 where l1: "PopNextThreadToRun c k = Some (n, k\<lparr>lists := l1\<rparr>)"
      "lists_rep l1 (L(RunQueue c := rest))"
    using pop_next(2) [OF rep run c l] by blast
  let ?L1 = "L(RunQueue c := rest)"
  let ?k1 = "upd_thread cur (note_mode args) (k\<lparr>lists := l1\<rparr>)"
  let ?r = "IsRunnable (note_mode args (threads k cur))"
  have "\<exists>k2. requeue c cur ?k1 = Some k2
     \<and> lists_rep (lists k2) (?L1(RunQueue c := ?L1 (RunQueue c) @ (if IsRunnable (threads ?k1 cur) then [cur] else [])))
     \<and> threads k2 = (threads ?k1)(cur := SetInQueue (IsRunnable (threads ?k1 cur)) (threads ?k1 cur))
     \<and> current k2 = current ?k1 \<and> num_core k2 = num_core ?k1 \<and> cnt k2 = cnt ?k1
     \<and> next_core k2 = next_core ?k1 \<and> fpu k2 = fpu ?k1 \<and> multicore_enabled k2 = multicore_enabled ?k1"
  proof (rule requeue_ok)
    show "\<not> on_list ?L1 cur" if "IsRunnable (threads ?k1 cur)"
    proof -
      have "IsRunnable (threads k cur)" using that IsRunnable_note_mode by simp
      then show ?thesis by (intro off_popped [OF off l])
    qed
  qed (use l1 cur in auto)
  then obtain k2 where k2: "requeue c cur ?k1 = Some k2"
     "lists_rep (lists k2) (L(RunQueue c := rest @ (if ?r then [cur] else [])))"
     "threads k2 = (threads k)(cur := SetInQueue ?r (note_mode args (threads k cur)))"
     "current k2 = current k" "num_core k2 = num_core k" "cnt k2 = cnt k"
     "next_core k2 = next_core k" "fpu k2 = fpu k" "multicore_enabled k2 = multicore_enabled k"
    by auto
  let ?k3 = "save_regs c args cur k2"
  have k3: "threads ?k3 = (threads k)(cur := away args (fpu k c) (threads k cur))"
    by (simp add: save_regs_def k2 away_def Let_def fun_eq_iff)
  have k3': "lists ?k3 = lists k2" "current ?k3 = current k" "num_core ?k3 = num_core k" "cnt ?k3 = cnt k"
    "next_core ?k3 = next_core k" "multicore_enabled ?k3 = multicore_enabled k"
    by (simp_all add: save_regs_def k2)
  have "YieldInInterruptHandler c args k = Some (load_regs c n ?k3)"
    using c n l1(1) k2(1) cur(1) by (simp add: YieldInInterruptHandler_def Let_def)
  moreover have "load_regs c n ?k3 = (saved_context (threads k n), snd (load_regs c n ?k3))"
    using load_regs_fields(1) [of c n ?k3] ncur k3 by (simp add: prod_eq_iff)
  ultimately show ?thesis
    using load_regs_fields [of c n ?k3] k3 k3' k2(2) ncur by auto
qed

lemma yield_idle:
  assumes "queues_ok k L" "c < num_core k" "L (RunQueue c) = []"
  shows "YieldInInterruptHandler c args k = Some (args, k)"
  using pop_next(1) [of k L c] assms by (simp add: YieldInInterruptHandler_def queues_ok_def)

section \<open>Preservation\<close>

lemma popped_distinct:
  assumes "lists_rep s L" "L q = n # rest"
  shows "n \<notin> set rest" "n \<notin> set (L q') \<or> q' = q"
  using kl.popped_off [OF assms] by (auto simp: on_list_def split: if_splits)

lemma yield_inv:
  assumes q: "queues_ok k L" and c: "c < num_core k" and l: "L (RunQueue c) = n # rest"
    and cur: "current k c = cur" "cur \<noteq> 0" "cpu_id (threads k cur) = c" "\<not> in_queue (threads k cur)"
    and off: "IsRunnable (threads k cur) \<Longrightarrow> \<not> on_list L cur"
    and rest: "\<And>c'. c' < num_core k \<Longrightarrow> c' \<noteq> c \<Longrightarrow> cpu_ok k L c'"
    and k': "lists_rep (lists k') L'"
      "L' = L(RunQueue c := rest @ (if IsRunnable (note_mode args (threads k cur)) then [cur] else []))"
      "threads k' = (threads k)(cur := away args fx (threads k cur), n := SetInQueue False (threads k n))"
      "current k' = (current k)(c := n)" "num_core k' = num_core k" "cnt k' = cnt k" "next_core k' = next_core k"
      "multicore_enabled k' = multicore_enabled k"
  shows "sched_inv k' L'"
proof -
  let ?r = "IsRunnable (note_mode args (threads k cur))"
  have rep: "lists_rep (lists k) L" and run: "run_ok k L" and marks: "marks_ok k L"
    and wait: "wait_ok k L" and core: "core_ok k"
    using q by (simp_all add: queues_ok_def)
  note n = run_okD [OF run, of n c] and off_n = kl.popped_off [OF rep l] and dn = popped_distinct [OF rep l]
  have ncur: "n \<noteq> cur" using n cur l by auto
  have other: "threads k' e = threads k e" if "e \<noteq> n" "e \<noteq> cur" for e using that k' by simp
  have "run_ok k' L'"
  proof -
    have "in_queue (threads k' e) \<and> IsRunnable (threads k' e) \<and> cpu_id (threads k' e) = c' \<and> c' < num_core k'"
      if "e \<in> set (L' (RunQueue c'))" for e c'
    proof (cases "e = cur \<and> c' = c \<and> ?r")
      case True
      then show ?thesis using k' cur c ncur by simp
    next
      case False
      then have "e \<in> set (L (RunQueue c'))" "e \<noteq> n"
        using that dn l k'(2) by (auto split: if_splits)
      moreover have "e \<noteq> cur" using run_okD(1) [OF run calculation(1)] cur by auto
      ultimately show ?thesis using run_okD [OF run, of e c'] other k' by simp
    qed
    then show ?thesis by (simp add: run_ok_def)
  qed
  moreover have "marks_ok k' L'"
  proof -
    have "e \<in> set (L' (RunQueue (cpu_id (threads k' e))))" if e: "in_queue (threads k' e)" for e
    proof (cases "e = cur")
      case True
      then show ?thesis using e k' ncur cur by simp
    next
      case False
      have "e \<noteq> n" using e k' by auto
      then have "e \<in> set (L (RunQueue (cpu_id (threads k e))))"
        using e marks other [OF \<open>e \<noteq> n\<close> False] by (simp add: marks_ok_def)
      then show ?thesis using \<open>e \<noteq> n\<close> other [OF _ False] l k' by (cases "cpu_id (threads k e) = c") auto
    qed
    then show ?thesis by (simp add: marks_ok_def)
  qed
  moreover have "wait_ok k' L'"
  proof -
    have "IsRunnable (WakeUp (threads k' e)) \<and> cpu_id (threads k' e) < num_core k'"
      if "e \<in> set (L' (Waiters s))" for e s
    proof -
      have e: "e \<in> set (L (Waiters s))" using that k' by simp
      then have "e \<noteq> n" using dn(2) [of "Waiters s"] by auto
      then show ?thesis
        using e wait k' by (cases "e = cur") (auto simp: wait_ok_def)
    qed
    then show ?thesis by (simp add: wait_ok_def)
  qed
  moreover have "core_ok k'" using core k' by (simp add: core_ok_def)
  moreover have "cpu_ok k' L' c'" if "c' < num_core k'" for c'
  proof (cases "c' = c")
    case True
    have "\<not> on_list L' n"
      using off_n(1) ncur k'(2) by (auto simp: on_list_def split: if_splits)
    then show ?thesis using True off_n n k' ncur by (simp add: cpu_ok_def l)
  next
    case False
    let ?e = "current k c'"
    have e: "?e \<noteq> 0" "\<not> on_list L ?e" "cpu_id (threads k ?e) = c'"
      using rest [of c'] that False k' by (simp_all add: cpu_ok_def)
    have ne: "?e \<noteq> n" "?e \<noteq> cur" using e n l cur False by auto
    have "\<not> on_list (L(RunQueue c := rest)) ?e" by (rule off_popped [OF e(2) l])
    then have "\<not> on_list L' ?e" using ne k'(2) by (auto simp: on_list_def split: if_splits)
    then show ?thesis using e ne False k' by (simp add: cpu_ok_def)
  qed
  ultimately show ?thesis using k'(1) by (simp add: sched_inv_def queues_ok_def)
qed

text \<open>A running thread.\<close>

lemma running:
  assumes "sched_inv k L" "c < num_core k"
  shows "current k c \<noteq> 0" "cpu_id (threads k (current k c)) = c"
    "\<not> on_list L (current k c)" "\<not> in_queue (threads k (current k c))"
proof -
  have c: "cpu_ok k L c" and m: "marks_ok k L" using sched_invD [OF assms(1)] assms(2) by auto
  show "current k c \<noteq> 0" "cpu_id (threads k (current k c)) = c" "\<not> on_list L (current k c)"
    using c by (simp_all add: cpu_ok_def)
  then show "\<not> in_queue (threads k (current k c))" using m by (auto simp: marks_ok_def on_list_def)
qed

lemma enqueue_inv:
  assumes q: "queues_ok k L" and e: "e \<noteq> 0" "\<not> on_list L e" "\<not> in_queue (threads k e)"
    "IsRunnable (threads k e)" "cpu_id (threads k e) = c" "c < num_core k"
  shows "\<exists>k'. EnqueueThread e k = Some k' \<and> queues_ok k' (L(RunQueue c := L (RunQueue c) @ [e]))
     \<and> threads k' = (threads k)(e := SetInQueue True (threads k e))
     \<and> current k' = current k \<and> num_core k' = num_core k \<and> cnt k' = cnt k"
proof -
  let ?L = "L(RunQueue c := L (RunQueue c) @ [e])"
  have rep: "lists_rep (lists k) L" and run: "run_ok k L" and marks: "marks_ok k L"
    and wait: "wait_ok k L" and core: "core_ok k"
    using q by (simp_all add: queues_ok_def)
  let ?l = "ChangeList e (RunQueue c) (lists k)"
  have l: "lists_rep ?l L" "stack_list ?l e = RunQueue c"
    using ChangeList_rep [OF rep, of e "RunQueue c"] e(2) by simp_all
  obtain l' where l': "push_back (RunQueue c) e ?l = Some l'" "lists_rep l' ?L"
    using kl.pushb [OF l(1) e(1,2)] by blast
  define k' where "k' = upd_thread e (SetInQueue True) ((add_num_threads c 1 k)\<lparr>lists := l'\<rparr>)"
  have k': "EnqueueThread e k = Some k'"
    using e l' l by (simp add: EnqueueThread_def Let_def on_lists_def PushBack_def k'_def)
  have f: "threads k' = (threads k)(e := SetInQueue True (threads k e))" "current k' = current k"
    "num_core k' = num_core k" "cnt k' = cnt k" "next_core k' = next_core k" "lists k' = l'"
    "multicore_enabled k' = multicore_enabled k"
    by (simp_all add: k'_def)
  have old: "e' \<noteq> e" if "e' \<in> set (L q')" for e' q' using that e(2) by (auto simp: on_list_def)
  have "run_ok k' ?L"
    using run e f old unfolding run_ok_def by (auto split: if_splits)
  moreover have "marks_ok k' ?L"
    using marks e f unfolding marks_ok_def by (auto split: if_splits)
  moreover have "wait_ok k' ?L"
    using wait f old unfolding wait_ok_def by (auto split: if_splits)
  moreover have "core_ok k'" using core f by (simp add: core_ok_def)
  ultimately have "queues_ok k' ?L" using l'(2) f by (simp add: queues_ok_def)
  then show ?thesis using k' f by blast
qed

lemma cpus_kept:
  assumes "\<And>c. c < num_core k \<Longrightarrow> cpu_ok k L c" "num_core k' = num_core k" "current k' = current k"
    "\<And>c. c < num_core k \<Longrightarrow> cpu_id (threads k' (current k c)) = cpu_id (threads k (current k c))"
    "\<And>c. c < num_core k \<Longrightarrow> \<not> on_list L (current k c) \<Longrightarrow> \<not> on_list L' (current k c)"
    "c < num_core k'"
  shows "cpu_ok k' L' c"
  using assms by (simp add: cpu_ok_def)

text \<open>Changes of one thread's status that keep what its place demands.\<close>

lemma status_change_inv:
  assumes inv: "sched_inv k L"
    and f: "in_queue (f (threads k t)) = in_queue (threads k t)" "cpu_id (f (threads k t)) = cpu_id (threads k t)"
    and run: "\<And>c. t \<in> set (L (RunQueue c)) \<Longrightarrow> IsRunnable (f (threads k t))"
    and wait: "\<And>s. t \<in> set (L (Waiters s)) \<Longrightarrow> IsRunnable (WakeUp (f (threads k t)))"
  shows "sched_inv (upd_thread t f k) L"
proof -
  note d = sched_invD [OF inv]
  have "run_ok (upd_thread t f k) L" using d(2) f run by (auto simp: run_ok_def)
  moreover have "marks_ok (upd_thread t f k) L" using d(3) f by (auto simp: marks_ok_def)
  moreover have "wait_ok (upd_thread t f k) L" using d(4) f wait by (auto simp: wait_ok_def)
  ultimately show ?thesis
    using d f by (auto simp: sched_inv_def queues_ok_def core_ok_def cpu_ok_def)
qed

lemma MakeTerminateReady_inv: "sched_inv k L \<Longrightarrow> sched_inv (upd_thread t MakeTerminateReady k) L"
  by (rule status_change_inv) (simp_all add: MakeTerminateReady_def IsRunnable_def WakeUp_def)

lemma MakeTerminate_inv:
  assumes "sched_inv k L" "\<not> on_list L t"
  shows "sched_inv (upd_thread t MakeTerminate k) L"
  by (rule status_change_inv [OF assms(1)]) (use assms(2) in \<open>auto simp: MakeTerminate_def on_list_def\<close>)

text \<open>A context switch on core c, from a running or a sleeping thread.\<close>

definition switched ::
  "kernel \<Rightarrow> (queue_name \<Rightarrow> nat list) \<Rightarrow> nat \<Rightarrow> saved_registers \<Rightarrow> kernel \<Rightarrow> (queue_name \<Rightarrow> nat list) \<Rightarrow> bool" where
  "switched k L c args k' L' \<longleftrightarrow>
     (let cur = current k c; n = hd (L (RunQueue c))
      in sched_inv k' L'
         \<and> L' = L(RunQueue c := tl (L (RunQueue c))
                    @ (if IsRunnable (note_mode args (threads k cur)) then [cur] else []))
         \<and> threads k' = (threads k)(cur := away args (fpu k c) (threads k cur),
                                    n := SetInQueue False (threads k n))
         \<and> current k' = (current k)(c := n) \<and> num_core k' = num_core k \<and> cnt k' = cnt k)"

lemma yield_switched:
  assumes q: "queues_ok k L" and c: "c < num_core k" and l: "L (RunQueue c) \<noteq> []"
    and cur: "current k c \<noteq> 0" "cpu_id (threads k (current k c)) = c" "\<not> in_queue (threads k (current k c))"
    and off: "IsRunnable (threads k (current k c)) \<Longrightarrow> \<not> on_list L (current k c)"
    and rest: "\<And>c'. c' < num_core k \<Longrightarrow> c' \<noteq> c \<Longrightarrow> cpu_ok k L c'"
  shows "\<exists>k' L'. YieldInInterruptHandler c args k
      = Some (saved_context (threads k (hd (L (RunQueue c)))), k') \<and> switched k L c args k' L'"
proof -
  obtain n r where nr: "L (RunQueue c) = n # r" using l by (cases "L (RunQueue c)") auto
  note y = yield_switch [OF q c nr refl cur(1,2,3) off]
  from y [of args] obtain k' where k': "YieldInInterruptHandler c args k = Some (saved_context (threads k n), k')"
     "lists_rep (lists k') (L(RunQueue c := r @ (if IsRunnable (note_mode args (threads k (current k c))) then [current k c] else [])))"
     "threads k' = (threads k)(current k c := away args (fpu k c) (threads k (current k c)), n := SetInQueue False (threads k n))"
     "current k' = (current k)(c := n)" "num_core k' = num_core k" "cnt k' = cnt k"
     "next_core k' = next_core k" "multicore_enabled k' = multicore_enabled k"
    by blast
  have "sched_inv k' (L(RunQueue c := r @ (if IsRunnable (note_mode args (threads k (current k c))) then [current k c] else [])))"
    by (rule yield_inv [OF q c nr refl cur off rest k'(2) refl k'(3-8)])
  then show ?thesis using k' nr by (simp add: switched_def Let_def)
qed

lemma yield_running:
  assumes inv: "sched_inv k L" and c: "c < num_core k"
  shows "L (RunQueue c) = [] \<Longrightarrow> YieldInInterruptHandler c args k = Some (args, k)"
    "L (RunQueue c) \<noteq> [] \<Longrightarrow> \<exists>k' L'. YieldInInterruptHandler c args k
      = Some (saved_context (threads k (hd (L (RunQueue c)))), k') \<and> switched k L c args k' L'"
  using yield_idle [OF sched_invD(6) [OF inv] c] yield_switched [OF sched_invD(6) [OF inv] c]
    running [OF inv c] sched_invD(7) [OF inv] by blast+

section \<open>Semaphores\<close>

text \<open>The threads the lists and the processors hold are among S.\<close>

definition known :: "kernel \<Rightarrow> (queue_name \<Rightarrow> nat list) \<Rightarrow> nat set \<Rightarrow> bool" where
  "known k L S \<longleftrightarrow> (\<forall>e. on_list L e \<longrightarrow> e \<in> S) \<and> (\<forall>c < num_core k. current k c \<in> S)"

lemma switched_known:
  assumes "switched k L c args k' L'" "known k L S" "c < num_core k" "L (RunQueue c) \<noteq> []"
  shows "known k' L' S"
proof -
  have n: "on_list L (hd (L (RunQueue c)))" using hd_in_set [OF assms(4)] by (rule on_listI)
  have "on_list L e \<or> e = current k c" if "on_list L' e" for e
    using that assms(1,4) list.set_sel(2) [of "L (RunQueue c)"]
    by (auto simp: switched_def on_list_def Let_def split: if_splits)
  then have "e \<in> S" if "on_list L' e" for e
    using that assms(2,3) unfolding known_def by metis
  moreover have "current k' c' \<in> S" if "c' < num_core k'" for c'
    using that assms(1,2) n by (auto simp: known_def switched_def Let_def)
  ultimately show ?thesis by (simp add: known_def)
qed

lemma cnt_inv:
  assumes "sched_inv k L" "0 \<le> v"
  shows "sched_inv (k\<lparr>cnt := (cnt k)(s := v)\<rparr>) L"
  using assms by (auto simp: sched_inv_def queues_ok_def inv_defs cpu_ok_def)

definition woken :: "kernel \<Rightarrow> nat \<Rightarrow> (queue_name \<Rightarrow> nat list) \<Rightarrow> (queue_name \<Rightarrow> nat list)" where
  "woken k s L =
     (case L (Waiters s) of
        [] \<Rightarrow> L
      | e # w \<Rightarrow> (let q = RunQueue (cpu_id (threads k e))
                  in L(Waiters s := w, q := L q @ [e])))"

lemma up_inv:
  assumes inv: "sched_inv k L"
  shows "\<exists>k'. Up s k = Some k' \<and> sched_inv k' (woken k s L) \<and> num_core k' = num_core k
     \<and> current k' = current k \<and> cnt k' = (cnt k)(s := cnt k s + 1)
     \<and> threads k' = (case L (Waiters s) of [] \<Rightarrow> threads k
                      | e # w \<Rightarrow> (threads k)(e := SetInQueue True (WakeUp (threads k e))))"
proof -
  let ?k = "k\<lparr>cnt := (cnt k)(s := cnt k s + 1)\<rparr>"
  have inv1: "sched_inv ?k L"
    by (rule cnt_inv [OF inv]) (use sched_invD(5) [OF inv] in \<open>simp add: core_ok_def\<close>)
  note d = sched_invD [OF inv1]
  have le: "list_empty (Waiters s) (lists k) \<longleftrightarrow> L (Waiters s) = []"
    using list_empty_rep [OF lists_repD(1) [OF d(1)], of "Waiters s"] by simp
  show ?thesis
  proof (cases "L (Waiters s)")
    case Nil
    then show ?thesis using le inv1 by (simp add: Up_def woken_def)
  next
    case (Cons e w)
    obtain l where l: "pop_front (Waiters s) (lists k) = Some (e, l)" "lists_rep l (L(Waiters s := w))"
      using kl.popf [OF d(1), of "Waiters s"] Cons by auto
    let ?L = "L(Waiters s := w)"
    let ?k2 = "upd_thread e WakeUp (?k\<lparr>lists := l\<rparr>)"
    note off = kl.popped_off [OF d(1) Cons]
    have e: "IsRunnable (WakeUp (threads k e))" "cpu_id (threads k e) < num_core k"
      using wait_okD [OF d(4), of e s] Cons by simp_all
    have onl: "on_list L e" using on_listI [of e L "Waiters s"] Cons by simp
    have nq: "\<not> in_queue (threads k e)"
    proof
      assume "in_queue (threads k e)"
      then have "e \<in> set (L (RunQueue (cpu_id (threads k e))))" using d(3) by (auto simp: marks_ok_def)
      then show False using popped_distinct(2) [OF d(1) Cons, of "RunQueue (cpu_id (threads k e))"] by simp
    qed
    have old: "e' \<noteq> e" if "e' \<in> set (?L q)" for e' q using off(1) that by (auto simp: on_list_def simp del: fun_upd_apply)
    have wf: "cpu_id (WakeUp t) = cpu_id t" "in_queue (WakeUp t) = in_queue t" for t by (simp_all add: WakeUp_def)
    have "run_ok ?k2 ?L"
      using d(2) old [of _ "RunQueue _"] wf by (auto simp: run_ok_def)
    moreover have "marks_ok ?k2 ?L" using d(3) wf by (auto simp: marks_ok_def)
    moreover have "wait_ok ?k2 ?L"
    proof -
      have sub: "set (?L q) \<subseteq> set (L q)" for q using Cons by auto
      have "IsRunnable (WakeUp (threads ?k2 e')) \<and> cpu_id (threads ?k2 e') < num_core ?k2"
        if "e' \<in> set (?L (Waiters s'))" for e' s'
        using wait_okD [OF d(4), of e' s'] old [OF that] subsetD [OF sub that] by simp
      then show ?thesis unfolding wait_ok_def by blast
    qed
    moreover have "core_ok ?k2" using d(5) by (simp add: core_ok_def)
    ultimately have q: "queues_ok ?k2 ?L" using l(2) by (simp add: queues_ok_def)
    let ?c = "cpu_id (threads k e)"
    obtain k' where k': "EnqueueThread e ?k2 = Some k'"
      "queues_ok k' (?L(RunQueue ?c := ?L (RunQueue ?c) @ [e]))"
      "threads k' = (threads k)(e := SetInQueue True (WakeUp (threads k e)))"
      "current k' = current k" "num_core k' = num_core k" "cnt k' = cnt ?k"
      using enqueue_inv [OF q off(2,1), of ?c] nq e wf by auto
    have "cpu_ok k' (woken k s L) c" if "c < num_core k'" for c
    proof (rule cpus_kept [OF d(7) _ _ _ _ that])
      have "current k c \<noteq> e" if "c < num_core k" for c
        using running(3) [OF inv that] onl by auto
      then show "cpu_id (threads k' (current ?k c)) = cpu_id (threads ?k (current ?k c))"
        if "c < num_core ?k" for c using that k'(3) by simp
      show "\<not> on_list (woken k s L) (current ?k c)" if "c < num_core ?k" "\<not> on_list L (current ?k c)" for c
      proof -
        have "current k c \<noteq> e" using that onl by auto
        moreover have "\<not> on_list ?L (current k c)" using off_popped [of L _ "Waiters s"] Cons that(2) by simp
        ultimately show ?thesis
          using Cons by (auto simp: woken_def on_list_def Let_def split: if_splits)
      qed
    qed (use k' in auto)
    then have "sched_inv k' (woken k s L)"
      using k' Cons by (simp add: sched_inv_def woken_def Let_def)
    then show ?thesis
      using k' Cons l le by (auto simp: Up_def Let_def)
  qed
qed

lemma down_taken:
  assumes "sched_inv k L" "cnt k s > 0"
  shows "\<exists>k'. Down c s args k = Some (True, args, k') \<and> sched_inv k' L \<and> num_core k' = num_core k
     \<and> current k' = current k \<and> cnt k' = (cnt k)(s := cnt k s - 1) \<and> threads k' = threads k"
  using cnt_inv [OF assms(1), of "cnt k s - 1" s] assms(2) by (simp add: Down_def)

lemma down_spins:
  assumes inv: "sched_inv k L" and c: "c < num_core k" and "\<not> cnt k s > 0" "L (RunQueue c) = []"
  shows "Down c s args k = Some (False, args, k)"
  using assms yield_running(1) [OF inv c, of args] queue_size_rep [OF sched_invD(1) [OF inv], of "RunQueue c"]
  by (simp add: Down_def)

lemma down_sleeps:
  assumes inv: "sched_inv k L" and c: "c < num_core k" and r: "IsRunnable (threads k (current k c))"
    and s: "\<not> cnt k s > 0" and l: "L (RunQueue c) \<noteq> []"
  shows "\<exists>k1 k' L'. Down c s args k = Some (False, saved_context (threads k (hd (L (RunQueue c)))), k')
     \<and> switched k1 (L(Waiters s := L (Waiters s) @ [current k c])) c args k' L'
     \<and> threads k1 = (threads k)(current k c := MakeSleep (threads k (current k c)))
     \<and> current k1 = current k \<and> num_core k1 = num_core k \<and> cnt k1 = cnt k \<and> fpu k1 = fpu k"
proof -
  let ?cur = "current k c"
  note d = sched_invD [OF inv] and cur = running [OF inv c]
  let ?k1 = "upd_thread ?cur MakeSleep k" and ?L = "L(Waiters s := L (Waiters s) @ [?cur])"
  let ?l = "ChangeList ?cur (Waiters s) (lists k)"
  have cl: "lists_rep ?l L" "stack_list ?l ?cur = Waiters s"
    using ChangeList_rep [OF d(1), of ?cur "Waiters s"] cur(3) by simp_all
  obtain l' where l': "push_back (Waiters s) ?cur ?l = Some l'" "lists_rep l' ?L"
    using kl.pushb [OF cl(1) cur(1,3), of "Waiters s"] by blast
  let ?k2 = "?k1\<lparr>lists := l'\<rparr>"
  have sl: "cpu_id (MakeSleep t) = cpu_id t" "in_queue (MakeSleep t) = in_queue t"
    "IsRunnable (WakeUp (MakeSleep t)) = IsRunnable t" "\<not> IsRunnable (MakeSleep t)" for t
    by (simp_all add: MakeSleep_def IsRunnable_def WakeUp_def)
  have nc: "e \<noteq> ?cur" if "e \<in> set (L q)" for e q using cur(3) on_listI [of e L q] that by auto
  have old: "threads ?k2 e = threads k e" if "e \<noteq> ?cur" for e using that by simp
  have "run_ok ?k2 ?L" using run_okD [OF d(2)] nc by (auto simp: run_ok_def)
  moreover have "marks_ok ?k2 ?L" using d(3) sl by (auto simp: marks_ok_def)
  moreover have "wait_ok ?k2 ?L"
  proof -
    have "IsRunnable (WakeUp (threads ?k2 e)) \<and> cpu_id (threads ?k2 e) < num_core ?k2"
      if "e \<in> set (?L (Waiters s'))" for e s'
    proof (cases "e = ?cur")
      case True
      then show ?thesis using r cur c sl by simp
    next
      case False
      then have "e \<in> set (L (Waiters s'))" using that by (auto split: if_splits)
      then show ?thesis using wait_okD [OF d(4), of e s'] old [OF False] by simp
    qed
    then show ?thesis by (simp add: wait_ok_def)
  qed
  moreover have "core_ok ?k2" using d(5) by (simp add: core_ok_def)
  ultimately have q: "queues_ok ?k2 ?L" using l'(2) by (simp add: queues_ok_def)
  have others: "cpu_ok ?k2 ?L c'" if "c' < num_core ?k2" "c' \<noteq> c" for c'
  proof -
    have "current k c' \<noteq> ?cur" using running(2) [OF inv, of c'] cur(2) that by auto
    then show ?thesis using d(7) [of c'] that by (auto simp: cpu_ok_def on_list_def)
  qed
  have "\<exists>k' L'. YieldInInterruptHandler c args ?k2
      = Some (saved_context (threads ?k2 (hd (?L (RunQueue c)))), k') \<and> switched ?k2 ?L c args k' L'"
    by (rule yield_switched [OF q _ _ _ _ _ _ others]) (use c l cur sl in auto)
  then obtain k' L' where y: "YieldInInterruptHandler c args ?k2
      = Some (saved_context (threads ?k2 (hd (?L (RunQueue c)))), k')" "switched ?k2 ?L c args k' L'"
    by blast
  have hd: "threads ?k2 (hd (?L (RunQueue c))) = threads k (hd (L (RunQueue c)))"
    using nc [OF hd_in_set [OF l]] by simp
  have qs: "queue_size (RunQueue c) k > 0" using queue_size_rep [OF d(1), of "RunQueue c"] l by simp
  have "Down c s args k = Some (False, saved_context (threads k (hd (L (RunQueue c)))), k')"
    using s qs l' cl(2) y(1) hd by (simp add: Down_def Let_def on_lists_def PushBack_def)
  then show ?thesis using y(2) by (intro exI [of _ ?k2] exI conjI) (auto)
qed

end
