(* ===== verification/SchedProps.thy ===== *)
theory SchedProps
  imports SchedInv
begin

text \<open>
  Runs of the kernel's threads on one core: a step relation whose steps are the operations of
  the scheduler, threads and semaphores in any order, and what holds along every run from boot.
  On one core an operation is one step: \<open>Down\<close> and \<open>Up\<close> turn interrupts off, the interrupt
  handlers run with interrupts off, and an interrupt that finds the lock of the queue held by
  the thread it interrupted never returns. Between two cores the semaphores are not protected,
  and nothing is claimed about them.
\<close>

section \<open>Steps\<close>

datatype sched_event = Acquired nat | Released nat | Other

text \<open>A configuration is the kernel and the set of threads that have been started.\<close>

type_synonym config = "kernel \<times> nat set"

definition booted :: "config \<Rightarrow> bool" where
  \<comment> \<open>one core with its first thread and empty queues; new threads are placed on that core\<close>
  "booted c \<longleftrightarrow>
     (case c of (k, S) \<Rightarrow>
        (\<exists>q. lists k = new_lists q) \<and> (\<forall>t. \<not> in_queue (threads k t)) \<and> (\<forall>s. 0 \<le> cnt k s)
        \<and> num_core k = 1 \<and> (multicore_enabled k \<longrightarrow> next_core k = 0)
        \<and> (\<forall>i < num_core k. current k i \<noteq> 0 \<and> current k i \<in> S
             \<and> cpu_id (threads k (current k i)) = i))"

definition constructed :: "kernel \<Rightarrow> nat \<Rightarrow> thread \<Rightarrow> bool" where
  "constructed k t th \<longleftrightarrow>
     (\<exists>cpu < num_core k.
        (\<exists>entry stack same. th = new_kernel_thread entry stack same cpu (threads k t))
        \<or> (\<exists>entry stack table fx. th = new_process entry stack cpu table fx (threads k t)))"

inductive sched_step :: "config \<Rightarrow> sched_event \<Rightarrow> config \<Rightarrow> bool" where
  start: "t \<noteq> 0 \<Longrightarrow> t \<notin> S \<Longrightarrow> constructed k t th
    \<Longrightarrow> Start t (k\<lparr>threads := (threads k)(t := th)\<rparr>) = Some k'
    \<Longrightarrow> sched_step (k, S) Other (k', insert t S)"
| preempt: "c < num_core k \<Longrightarrow> YieldInInterruptHandler c args k = Some (r, k')
    \<Longrightarrow> sched_step (k, S) Other (k', S)"
| terminate: "c < num_core k \<Longrightarrow> Terminate c args k = Some (r, k')
    \<Longrightarrow> sched_step (k, S) Other (k', S)"
| end_of_syscall: "c < num_core k \<Longrightarrow> k' = upd_thread (current k c) MakeTerminate k
    \<Longrightarrow> sched_step (k, S) Other (k', S)"
| kill: "k' = upd_thread t MakeTerminateReady k \<Longrightarrow> sched_step (k, S) Other (k', S)"
| up: "Up s k = Some k' \<Longrightarrow> sched_step (k, S) (Released s) (k', S)"
| down: "c < num_core k \<Longrightarrow> IsRunnable (threads k (current k c))
    \<Longrightarrow> Down c s args k = Some (b, r, k')
    \<Longrightarrow> sched_step (k, S) (if b then Acquired s else Other) (k', S)"

inductive sched_run :: "config \<Rightarrow> sched_event list \<Rightarrow> config \<Rightarrow> bool" where
  sched_nil: "sched_run c [] c"
| sched_snoc: "sched_run c tr c' \<Longrightarrow> sched_step c' ev c'' \<Longrightarrow> sched_run c (tr @ [ev]) c''"

inductive_cases sched_stepE: "sched_step (k, S) ev (k', S')"
inductive_simps sched_run_nil [simp]: "sched_run c [] c'"

section \<open>The invariant holds along runs\<close>

definition config_ok :: "config \<Rightarrow> (queue_name \<Rightarrow> nat list) \<Rightarrow> bool" where
  "config_ok c L \<longleftrightarrow> (case c of (k, S) \<Rightarrow> sched_inv k L \<and> known k L S)"

lemma booted_ok: "booted (k, S) \<Longrightarrow> config_ok (k, S) (\<lambda>_. [])"
  using lists_rep_new
  by (auto simp: booted_def config_ok_def sched_inv_def queues_ok_def inv_defs cpu_ok_def known_def on_list_def)

lemma terminate_switched:
  assumes inv: "sched_inv k L" and c: "c < num_core k"
  shows "L (RunQueue c) = [] \<Longrightarrow> Terminate c args k = None"
    "L (RunQueue c) \<noteq> [] \<Longrightarrow> \<exists>k' L'. Terminate c args k
      = Some (saved_context (threads k (hd (L (RunQueue c)))), k')
      \<and> switched (upd_thread (current k c) MakeTerminate k) L c args k' L'"
proof -
  let ?k = "upd_thread (current k c) MakeTerminate k"
  note r = running [OF inv c]
  have inv1: "sched_inv ?k L" by (rule MakeTerminate_inv [OF inv r(3)])
  show "L (RunQueue c) = [] \<Longrightarrow> Terminate c args k = None"
    using yield_running(1) [OF inv1, of c args] c by (simp add: Terminate_def)
  assume l: "L (RunQueue c) \<noteq> []"
  obtain k' L' where y: "YieldInInterruptHandler c args ?k
      = Some (saved_context (threads ?k (hd (L (RunQueue c)))), k')" "switched ?k L c args k' L'"
    using yield_running(2) [OF inv1, of c args] c l by auto
  have n: "hd (L (RunQueue c)) \<noteq> current k c" using r(3) on_listI [of "hd (L (RunQueue c))" L "RunQueue c"] l by auto
  moreover have "current k' c = hd (L (RunQueue c))" using y(2) by (simp add: switched_def Let_def)
  ultimately show "\<exists>k' L'. Terminate c args k = Some (saved_context (threads k (hd (L (RunQueue c)))), k')
      \<and> switched ?k L c args k' L'"
    using y by (auto simp: Terminate_def)
qed

lemma start_ok:
  assumes inv: "sched_inv k L" and kn: "known k L S" and t: "t \<noteq> 0" "t \<notin> S" and th: "constructed k t th"
  shows "\<exists>k' L'. Start t (k\<lparr>threads := (threads k)(t := th)\<rparr>) = Some k' \<and> sched_inv k' L'
     \<and> known k' L' (insert t S) \<and> cnt k' = cnt k"
proof -
  note d = sched_invD [OF inv]
  have off: "\<not> on_list L t" "\<And>c. c < num_core k \<Longrightarrow> current k c \<noteq> t" using kn t by (auto simp: known_def)
  have thf: "status th = THREAD_RUN" "\<not> in_queue th" "cpu_id th < num_core k"
    using th by (auto simp: constructed_def new_kernel_thread_def new_process_def Let_def)
  have gen: "\<exists>k' L'. EnqueueThread t kk = Some k' \<and> sched_inv k' L' \<and> known k' L' (insert t S) \<and> cnt k' = cnt k"
    if kk: "lists kk = lists k" "threads kk = (threads k)(t := th')" "current kk = current k"
      "num_core kk = num_core k" "cnt kk = cnt k" "multicore_enabled kk \<and> num_core k \<noteq> 0 \<longrightarrow> next_core kk < num_core k"
      "status th' = THREAD_RUN" "\<not> in_queue th'" "cpu_id th' < num_core k" for kk th'
  proof -
    have "queues_ok kk L"
      using d(1-5) kk off by (auto simp: queues_ok_def inv_defs on_list_def)
    then obtain k' where k': "EnqueueThread t kk = Some k'"
      "queues_ok k' (L(RunQueue (cpu_id th') := L (RunQueue (cpu_id th')) @ [t]))"
      "threads k' = (threads kk)(t := SetInQueue True (threads kk t))" "current k' = current kk"
      "num_core k' = num_core kk" "cnt k' = cnt kk"
      using enqueue_inv [of kk L t "cpu_id th'"] t off kk by (auto simp: IsRunnable_def)
    let ?L = "L(RunQueue (cpu_id th') := L (RunQueue (cpu_id th')) @ [t])"
    have "cpu_ok k' ?L c" if "c < num_core k'" for c
    proof (rule cpus_kept [OF d(7) _ _ _ _ that])
      show "\<not> on_list ?L (current k c)" if "c < num_core k" "\<not> on_list L (current k c)" for c
        using that off by (intro off_pushed) auto
    qed (use k' kk off in auto)
    moreover have "known k' ?L (insert t S)"
      using kn k' kk by (auto simp: known_def on_list_def split: if_splits)
    ultimately show ?thesis using k' kk by (intro exI [of _ k'] exI [of _ ?L]) (simp add: sched_inv_def)
  qed
  have nc: "multicore_enabled k \<and> num_core k \<noteq> 0 \<longrightarrow> next_core k < num_core k" using d(5) by (simp add: core_ok_def)
  let ?k = "k\<lparr>threads := (threads k)(t := th)\<rparr>"
  show ?thesis
  proof (cases "in_same_cpu_id th \<or> \<not> multicore_enabled k")
    case True
    have "\<exists>k' L'. EnqueueThread t ?k = Some k' \<and> sched_inv k' L' \<and> known k' L' (insert t S) \<and> cnt k' = cnt k"
      by (rule gen [of _ th]) (use thf nc in auto)
    then show ?thesis using True by (auto simp: Start_def EnqueueThreadFirstTime_def)
  next
    case False
    let ?kk = "(upd_thread t (\<lambda>x. x\<lparr>cpu_id := next_core k\<rparr>) ?k)\<lparr>next_core := (next_core k + 1) mod num_core k\<rparr>"
    have "\<exists>k' L'. EnqueueThread t ?kk = Some k' \<and> sched_inv k' L' \<and> known k' L' (insert t S) \<and> cnt k' = cnt k"
      by (rule gen [of _ "th\<lparr>cpu_id := next_core k\<rparr>"]) (use thf nc False in auto)
    then show ?thesis using False by (simp add: Start_def EnqueueThreadFirstTime_def)
  qed
qed

lemma yield_ok:
  assumes "sched_inv k L" "known k L S" "c < num_core k"
    "YieldInInterruptHandler c args k = Some (r, k')"
  shows "\<exists>L'. sched_inv k' L' \<and> known k' L' S \<and> cnt k' = cnt k"
proof (cases "L (RunQueue c) = []")
  case True
  then show ?thesis using yield_running(1) [OF assms(1,3) True] assms by auto
next
  case False
  from yield_running(2) [OF assms(1,3) False, of args] obtain L' where "switched k L c args k' L'"
    using assms(4) by auto
  then show ?thesis using switched_known [OF _ assms(2,3) False] by (auto simp: switched_def Let_def)
qed

lemma terminate_ok:
  assumes "sched_inv k L" "known k L S" "c < num_core k" "Terminate c args k = Some (r, k')"
  shows "\<exists>L'. sched_inv k' L' \<and> known k' L' S \<and> cnt k' = cnt k"
proof -
  have l: "L (RunQueue c) \<noteq> []" using terminate_switched(1) [OF assms(1,3)] assms(4) by auto
  from terminate_switched(2) [OF assms(1,3) l, of args] obtain L'
    where sw: "switched (upd_thread (current k c) MakeTerminate k) L c args k' L'"
    using assms(4) by auto
  moreover have "known (upd_thread (current k c) MakeTerminate k) L S" using assms(2) by (simp add: known_def)
  ultimately show ?thesis
    using switched_known [OF sw] assms(3) l by (auto simp: switched_def Let_def)
qed

lemma up_ok:
  assumes "sched_inv k L" "known k L S" "Up s k = Some k'"
  shows "\<exists>L'. sched_inv k' L' \<and> known k' L' S \<and> cnt k' = (cnt k)(s := cnt k s + 1)"
proof -
  have "on_list L e" if "on_list (woken k s L) e" for e
    using that by (auto simp: woken_def on_list_def Let_def split: list.splits if_splits)
      (metis list.set_intros)+
  then show ?thesis
    using up_inv [OF assms(1), of s] assms(2,3) by (auto simp: known_def)
qed

lemma down_ok:
  assumes inv: "sched_inv k L" and kn: "known k L S" and c: "c < num_core k"
    and r: "IsRunnable (threads k (current k c))" and d: "Down c s args k = Some (b, f, k')"
  shows "\<exists>L'. sched_inv k' L' \<and> known k' L' S
     \<and> cnt k' = (if b then (cnt k)(s := cnt k s - 1) else cnt k)"
proof -
  consider "cnt k s > 0" | "\<not> cnt k s > 0" "L (RunQueue c) = []" | "\<not> cnt k s > 0" "L (RunQueue c) \<noteq> []"
    by blast
  then show ?thesis
  proof cases
    case 1
    then show ?thesis using down_taken [OF inv 1, of c args] d kn by (auto simp: known_def)
  next
    case 2
    then show ?thesis using down_spins [OF inv c 2] d inv kn by auto
  next
    case 3
    let ?L = "L(Waiters s := L (Waiters s) @ [current k c])"
    obtain k1 L' where b: "b = False" and sw: "switched k1 ?L c args k' L'"
      and k1: "current k1 = current k" "num_core k1 = num_core k" "cnt k1 = cnt k"
      using down_sleeps [OF inv c r 3, of args] d by auto
    have "known k1 ?L S" using kn k1 c by (auto simp: known_def on_list_def split: if_splits)
    then show ?thesis
      using switched_known [OF sw] b sw k1 c 3(2) by (auto simp: switched_def Let_def)
  qed
qed

lemma kill_ok: "sched_inv k L \<Longrightarrow> known k L S \<Longrightarrow> sched_inv (upd_thread t MakeTerminateReady k) L
    \<and> known (upd_thread t MakeTerminateReady k) L S"
  by (simp add: MakeTerminateReady_inv known_def)

text \<open>What a step does to a semaphore's count.\<close>

definition count_change :: "sched_event \<Rightarrow> nat \<Rightarrow> int" where
  "count_change ev s = (if ev = Acquired s then - 1 else if ev = Released s then 1 else 0)"

lemma sched_step_ok:
  assumes "sched_step c ev c'" "config_ok c L"
  shows "\<exists>L'. config_ok c' L' \<and> (\<forall>s. cnt (fst c') s = cnt (fst c) s + count_change ev s)"
  using assms
proof cases
  case (start t S k th k')
  then show ?thesis using start_ok [of k L S t th] assms(2) by (auto simp: config_ok_def count_change_def)
next
  case (preempt c0 k args r k' S)
  then show ?thesis using yield_ok [of k L S c0 args r k'] assms(2) by (auto simp: config_ok_def count_change_def)
next
  case (terminate c0 k args r k' S)
  then show ?thesis using terminate_ok [of k L S c0 args r k'] assms(2) by (auto simp: config_ok_def count_change_def)
next
  case (end_of_syscall c0 k k' S)
  then show ?thesis
    using MakeTerminate_inv [of k L "current k c0"] running(3) [of k L c0] assms(2)
    by (auto simp: config_ok_def count_change_def known_def)
next
  case (kill k' t k S)
  then show ?thesis using kill_ok [of k L S t] assms(2) by (auto simp: config_ok_def count_change_def)
next
  case (up s k k' S)
  then show ?thesis using up_ok [of k L S s k'] assms(2) by (auto simp: config_ok_def count_change_def)
next
  case (down c0 k s args b r k' S)
  then show ?thesis using down_ok [of k L S c0 s args b r k'] assms(2) by (auto simp: config_ok_def count_change_def)
qed

lemma sched_run_ok:
  assumes "sched_run c tr c'" "config_ok c L"
  shows "\<exists>L'. config_ok c' L' \<and> (\<forall>s. cnt (fst c') s
    = cnt (fst c) s + int (count_list tr (Released s)) - int (count_list tr (Acquired s)))"
  using assms
proof (induction rule: sched_run.induct)
  case (sched_nil c)
  then show ?case by auto
next
  case (sched_snoc c tr c' ev c'')
  obtain L1 where L1: "config_ok c' L1" "\<forall>s. cnt (fst c') s
    = cnt (fst c) s + int (count_list tr (Released s)) - int (count_list tr (Acquired s))"
    using sched_snoc.IH [OF sched_snoc.prems] by blast
  obtain L2 where "config_ok c'' L2" "\<forall>s. cnt (fst c'') s = cnt (fst c') s + count_change ev s"
    using sched_step_ok [OF sched_snoc.hyps(2) L1(1)] by blast
  then show ?case using L1(2) by (intro exI [of _ L2]) (auto simp: count_change_def)
qed

lemma booted_run:
  assumes "booted c0" "sched_run c0 tr (k, S)"
  obtains L where "sched_inv k L" "known k L S"
    "\<And>s. cnt k s = cnt (fst c0) s + int (count_list tr (Released s)) - int (count_list tr (Acquired s))"
proof -
  obtain k0 S0 where c0: "c0 = (k0, S0)" by (cases c0)
  obtain L where "config_ok (k, S) L" "\<forall>s. cnt (fst (k, S)) s
    = cnt (fst c0) s + int (count_list tr (Released s)) - int (count_list tr (Acquired s))"
    using sched_run_ok [OF assms(2) booted_ok [OF assms(1) [unfolded c0], folded c0]] by blast
  then show ?thesis using that [of L] by (simp add: config_ok_def)
qed

section \<open>Properties of runs\<close>


definition demo_thread :: thread where
  "demo_thread = \<lparr>status = THREAD_RUN, status_before_sleep = THREAD_RUN, in_queue = False,
     in_same_cpu_id = True, cpu_id = 0, is_kernel_thread = True, in_kernel_space = False,
     kernel_regs = \<lparr>rip = 0, rsp = 0, rflags = 0, cs = 8, ss = 16, regs = []\<rparr>,
     user_regs = \<lparr>rip = 0, rsp = 0, rflags = 0, cs = 35, ss = 27, regs = []\<rparr>,
     fxsaved_region = 0, kernel_stack_top = 0, page_table = 0\<rparr>"

definition demo_kernel :: kernel where
  "demo_kernel = \<lparr>lists = new_lists (RunQueue 0), threads = (\<lambda>_. demo_thread), current = (\<lambda>_. 1),
     num_threads_per_core = (\<lambda>_. 0), num_core = 1, multicore_enabled = False, next_core = 0,
     cnt = (\<lambda>_. 1), fpu = (\<lambda>_. 0), rsp0 = (\<lambda>_. 0), cr3 = (\<lambda>_. 0)\<rparr>"

lemma demo_booted: "booted (demo_kernel, {1})"
  by (auto simp: booted_def demo_kernel_def demo_thread_def)

definition demo_acquired :: kernel where
  "demo_acquired = demo_kernel\<lparr>cnt := (cnt demo_kernel)(7 := 0)\<rparr>"

lemma demo_run: "sched_run (demo_kernel, {1}) [Acquired 7] (demo_acquired, {1})"
proof -
  have "sched_step (demo_kernel, {1}) (if True then Acquired 7 else Other) (demo_acquired, {1})"
    by (rule sched_step.down [where c = 0 and args = "kernel_regs demo_thread"])
      (simp_all add: demo_kernel_def demo_acquired_def demo_thread_def Down_def IsRunnable_def)
  then show ?thesis using sched_snoc [OF sched_nil] by simp
qed


text \<open>No operation of a run panics, on a list or on an assertion: a yield on any core,
  \<open>Up\<close> and, from a running thread, \<open>Down\<close> on any semaphore, and the start of a newly
  constructed thread all have a result; \<open>Terminate\<close> panics only on a core whose run queue is
  empty.\<close>
theorem no_panic:
  assumes "booted c0" "sched_run c0 tr (k, S)" "c < num_core k"
  shows "YieldInInterruptHandler c args k \<noteq> None \<and> Up s k \<noteq> None
    \<and> (IsRunnable (threads k (current k c)) \<longrightarrow> Down c s args k \<noteq> None)
    \<and> (t \<noteq> 0 \<and> t \<notin> S \<and> constructed k t th
         \<longrightarrow> Start t (k\<lparr>threads := (threads k)(t := th)\<rparr>) \<noteq> None)
    \<and> (Terminate c args k = None \<longleftrightarrow> queue_size (RunQueue c) k = 0)"
proof -
  obtain L where inv: "sched_inv k L" and kn: "known k L S" using booted_run [OF assms(1,2)] by blast
  note c = assms(3)
  have qs: "queue_size (RunQueue c) k = 0 \<longleftrightarrow> L (RunQueue c) = []"
    using queue_size_rep [OF sched_invD(1) [OF inv]] by simp
  have "YieldInInterruptHandler c args k \<noteq> None"
    using yield_running [OF inv c, of args] by (cases "L (RunQueue c) = []") auto
  moreover have "Up s k \<noteq> None" using up_inv [OF inv, of s] by auto
  moreover have "IsRunnable (threads k (current k c)) \<Longrightarrow> Down c s args k \<noteq> None"
    using down_taken [OF inv, of s c args] down_spins [OF inv c, of s args] down_sleeps [OF inv c, of s args]
    by (cases "cnt k s > 0"; cases "L (RunQueue c) = []") auto
  moreover have "t \<noteq> 0 \<and> t \<notin> S \<and> constructed k t th
      \<Longrightarrow> Start t (k\<lparr>threads := (threads k)(t := th)\<rparr>) \<noteq> None"
    using start_ok [OF inv kn, of t th] by auto
  moreover have "Terminate c args k = None \<longleftrightarrow> queue_size (RunQueue c) k = 0"
    using terminate_switched [OF inv c, of args] qs by (cases "L (RunQueue c) = []") auto
  ultimately show ?thesis by blast
qed

theorem no_panic_witness:
  "YieldInInterruptHandler 0 (kernel_regs demo_thread) demo_acquired \<noteq> None \<and> Up 7 demo_acquired \<noteq> None
   \<and> Down 0 7 (kernel_regs demo_thread) demo_acquired \<noteq> None
   \<and> Start 2 (demo_acquired\<lparr>threads := (threads demo_acquired)(2 := new_kernel_thread 0 0 True 0 demo_thread)\<rparr>) \<noteq> None
   \<and> (Terminate 0 (kernel_regs demo_thread) demo_acquired = None
      \<longleftrightarrow> queue_size (RunQueue 0) demo_acquired = 0)"
proof -
  have c: "0 < num_core demo_acquired" by (simp add: demo_acquired_def demo_kernel_def)
  have r: "IsRunnable (threads demo_acquired (current demo_acquired 0))"
    by (simp add: demo_acquired_def demo_kernel_def demo_thread_def IsRunnable_def)
  have th: "constructed demo_acquired 2 (new_kernel_thread 0 0 True 0 demo_thread)"
    unfolding constructed_def by (intro exI [of _ 0] conjI disjI1 exI)
      (simp_all add: demo_acquired_def demo_kernel_def)
  show ?thesis
    using no_panic [OF demo_booted demo_run c, of "kernel_regs demo_thread" 7 2
        "new_kernel_thread 0 0 True 0 demo_thread"] r th by simp
qed

text \<open>Along every run from boot, a semaphore has been taken at most as often as its
  initial count plus the number of times it has been given back; with a count of 1, the mutex
  of \<open>sync.h\<close>, there is at most one holder. The count is exactly what is left.\<close>
theorem semaphore_bound:
  assumes "booted c0" "sched_run c0 tr (k, S)"
  shows "cnt k s = cnt (fst c0) s + int (count_list tr (Released s)) - int (count_list tr (Acquired s))
    \<and> int (count_list tr (Acquired s)) \<le> cnt (fst c0) s + int (count_list tr (Released s))"
proof -
  obtain L where inv: "sched_inv k L" and
    c: "cnt k s = cnt (fst c0) s + int (count_list tr (Released s)) - int (count_list tr (Acquired s))"
    using booted_run [OF assms] by blast
  have "0 \<le> cnt k s" using sched_invD(5) [OF inv] by (simp add: core_ok_def)
  then show ?thesis using c by simp
qed

theorem semaphore_bound_witness:
  "cnt demo_acquired 7 = 0 \<and> int (count_list [Acquired 7] (Acquired 7)) \<le> cnt demo_kernel 7"
  using semaphore_bound [OF demo_booted demo_run, of 7] by (simp add: demo_kernel_def)

section \<open>Round robin\<close>

text \<open>Preemptions of core c, one after the other; \<open>fs\<close> are the interrupt frames of the threads
  that are switched out, the result lists the frames that are returned to.\<close>

fun preempts :: "nat \<Rightarrow> saved_registers list \<Rightarrow> kernel \<Rightarrow> (saved_registers list \<times> kernel) option" where
  "preempts c [] k = Some ([], k)"
| "preempts c (f # fs) k =
     (case YieldInInterruptHandler c f k of
        None \<Rightarrow> None
      | Some (r, k') \<Rightarrow> map_option (\<lambda>(rs, k''). (r # rs, k'')) (preempts c fs k'))"

definition interrupted :: "saved_registers \<Rightarrow> thread \<Rightarrow> bool" where
  \<comment> \<open>a frame of the thread: the kernel's code segment goes with a kernel address\<close>
  "interrupted f t \<longleftrightarrow> (cs f = kKernelCodeSegment \<longleftrightarrow> is_kernel_thread t \<or> IsKernelMemory (rip f))"

lemma note_mode_run: "status t = THREAD_RUN \<Longrightarrow> status (note_mode f t) = THREAD_RUN"
  by (simp add: note_mode_def IsTerminateReady_def Let_def)

lemma away_run:
  assumes "status t = THREAD_RUN" "interrupted f t"
  shows "saved_context (away f fx t) = f" "status (away f fx t) = THREAD_RUN"
  using assms
  by (auto simp: saved_context_def away_def note_mode_def Let_def SetInQueue_def IsInKernelSpace_def
      interrupted_def IsTerminateReady_def MakeTerminate_def)

lemma away_interrupted [simp]: "interrupted g (away f fx t) = interrupted g t"
  by (simp add: interrupted_def)

lemma resumed_fields [simp]:
  "status (SetInQueue b t) = status t" "saved_context (SetInQueue b t) = saved_context t"
  "interrupted g (SetInQueue b t) = interrupted g t"
  by (simp_all add: SetInQueue_def saved_context_def IsInKernelSpace_def interrupted_def)

lemma preempt_once:
  assumes inv: "sched_inv k L" and c: "c < num_core k" and l: "L (RunQueue c) = n # q"
    and x: "current k c = x" "status (threads k x) = THREAD_RUN" "interrupted f (threads k x)"
  obtains k' where "YieldInInterruptHandler c f k = Some (saved_context (threads k n), k')"
    "sched_inv k' (L(RunQueue c := q @ [x]))" "current k' = (current k)(c := n)" "num_core k' = num_core k"
    "saved_context (threads k' x) = f" "n \<noteq> x"
    "\<And>e. status (threads k' e) = status (threads k e)"
    "\<And>e. is_kernel_thread (threads k' e) = is_kernel_thread (threads k e)"
    "\<And>e. e \<noteq> x \<Longrightarrow> saved_context (threads k' e) = saved_context (threads k e)"
proof -
  have nx: "n \<noteq> x" using running(3) [OF inv c] on_listI [of n L "RunQueue c"] l x by auto
  obtain k' L' where k': "YieldInInterruptHandler c f k = Some (saved_context (threads k n), k')"
    "switched k L c f k' L'"
    using yield_running(2) [OF inv c, of f] l by auto
  have r: "IsRunnable (note_mode f (threads k x))"
    using note_mode_run [OF x(2)] by (simp add: IsRunnable_def)
  have sw: "sched_inv k' (L(RunQueue c := q @ [x]))" "current k' = (current k)(c := n)" "num_core k' = num_core k"
    "threads k' = (threads k)(x := away f (fpu k c) (threads k x), n := SetInQueue False (threads k n))"
    using k'(2) r x l by (auto simp: switched_def Let_def)
  show ?thesis
    by (rule that [OF k'(1) sw(1-3) _ nx]) (use sw(4) nx away_run [OF x(2,3)] x(2) in auto)
qed

lemma preempts_through:
  assumes "sched_inv k L" "c < num_core k" "current k c = x" "L (RunQueue c) = xs @ ys"
    "\<forall>e \<in> set (x # xs). status (threads k e) = THREAD_RUN" "length fs = length xs"
    "\<forall>i < length xs. interrupted (fs ! i) (threads k ((x # xs) ! i))" "distinct (x # xs @ ys)"
  shows "\<exists>k'. preempts c fs k = Some (map (\<lambda>e. saved_context (threads k e)) xs, k')
    \<and> sched_inv k' (L(RunQueue c := ys @ butlast (x # xs))) \<and> num_core k' = num_core k
    \<and> current k' = (current k)(c := last (x # xs))
    \<and> (\<forall>e. status (threads k' e) = status (threads k e) \<and> is_kernel_thread (threads k' e) = is_kernel_thread (threads k e))
    \<and> (\<forall>i < length xs. saved_context (threads k' ((x # xs) ! i)) = fs ! i)
    \<and> (\<forall>e. e \<notin> set (butlast (x # xs)) \<longrightarrow> saved_context (threads k' e) = saved_context (threads k e))"
  using assms
proof (induction xs arbitrary: k L x ys fs)
  case Nil
  have "L(RunQueue c := L (RunQueue c)) = L" by auto
  then show ?case using Nil by auto
next
  case (Cons n xs)
  obtain f fs' where fs: "fs = f # fs'" using Cons.prems(6) by (cases fs) auto
  have x: "status (threads k x) = THREAD_RUN" "interrupted f (threads k x)"
    using Cons.prems(5,7) fs by auto
  obtain k1 where k1: "YieldInInterruptHandler c f k = Some (saved_context (threads k n), k1)"
    "sched_inv k1 (L(RunQueue c := (xs @ ys) @ [x]))" "current k1 = (current k)(c := n)"
    "num_core k1 = num_core k" "saved_context (threads k1 x) = f"
    "\<And>e. e \<noteq> x \<Longrightarrow> saved_context (threads k1 e) = saved_context (threads k e)"
    "\<And>e. status (threads k1 e) = status (threads k e)"
    "\<And>e. is_kernel_thread (threads k1 e) = is_kernel_thread (threads k e)"
    using preempt_once [OF Cons.prems(1,2) _ Cons.prems(3) x, of n "xs @ ys"] Cons.prems(4) by auto
  let ?L = "L(RunQueue c := (xs @ ys) @ [x])"
  have ih: "\<exists>k'. preempts c fs' k1 = Some (map (\<lambda>e. saved_context (threads k1 e)) xs, k')
    \<and> sched_inv k' (?L(RunQueue c := (ys @ [x]) @ butlast (n # xs))) \<and> num_core k' = num_core k1
    \<and> current k' = (current k1)(c := last (n # xs))
    \<and> (\<forall>e. status (threads k' e) = status (threads k1 e) \<and> is_kernel_thread (threads k' e) = is_kernel_thread (threads k1 e))
    \<and> (\<forall>i < length xs. saved_context (threads k' ((n # xs) ! i)) = fs' ! i)
    \<and> (\<forall>e. e \<notin> set (butlast (n # xs)) \<longrightarrow> saved_context (threads k' e) = saved_context (threads k1 e))"
  proof (rule Cons.IH [OF k1(2)])
    show "\<forall>i < length xs. interrupted (fs' ! i) (threads k1 ((n # xs) ! i))"
    proof (intro allI impI)
      fix i assume "i < length xs"
      then have "interrupted (fs ! Suc i) (threads k ((x # n # xs) ! Suc i))"
        using Cons.prems(7) by (metis Suc_less_eq length_Cons)
      then show "interrupted (fs' ! i) (threads k1 ((n # xs) ! i))"
        using k1(8) fs by (simp add: interrupted_def)
    qed
  qed (use Cons.prems k1 fs in auto)
  then obtain k' where k': "preempts c fs' k1 = Some (map (\<lambda>e. saved_context (threads k1 e)) xs, k')"
    "sched_inv k' (?L(RunQueue c := (ys @ [x]) @ butlast (n # xs)))" "num_core k' = num_core k1"
    "current k' = (current k1)(c := last (n # xs))"
    "\<And>e. status (threads k' e) = status (threads k1 e)"
    "\<And>e. is_kernel_thread (threads k' e) = is_kernel_thread (threads k1 e)"
    "\<And>i. i < length xs \<Longrightarrow> saved_context (threads k' ((n # xs) ! i)) = fs' ! i"
    "\<And>e. e \<notin> set (butlast (n # xs)) \<Longrightarrow> saved_context (threads k' e) = saved_context (threads k1 e)"
    by blast
  have x_out: "x \<notin> set (butlast (n # xs))" 
  proof
    assume "x \<in> set (butlast (n # xs))"
    then have "x \<in> set (n # xs)" by (rule in_set_butlastD)
    then show False using Cons.prems(8) by auto
  qed
  have "map (\<lambda>e. saved_context (threads k1 e)) xs = map (\<lambda>e. saved_context (threads k e)) xs"
  proof (rule map_cong [OF refl])
    fix e assume "e \<in> set xs"
    then have "e \<noteq> x" using Cons.prems(8) by auto
    then show "saved_context (threads k1 e) = saved_context (threads k e)" by (rule k1(6))
  qed
  moreover have "saved_context (threads k' ((x # n # xs) ! i)) = fs ! i" if "i < length (n # xs)" for i
    using that k'(7) k'(8) [OF x_out] k1(5) fs by (cases i) auto
  moreover have "?L(RunQueue c := (ys @ [x]) @ butlast (n # xs)) = L(RunQueue c := ys @ butlast (x # n # xs))"
    by simp
  ultimately show ?case
    using k' k1 fs by (intro exI [of _ k']) (auto simp: fun_upd_def cong: if_cong)
qed

lemma preempts_snoc:
  "preempts c (fs @ [f]) k =
     (case preempts c fs k of
        None \<Rightarrow> None
      | Some (rs, k') \<Rightarrow>
          (case YieldInInterruptHandler c f k' of
             None \<Rightarrow> None
           | Some (r, k'') \<Rightarrow> Some (rs @ [r], k'')))"
  by (induction fs arbitrary: k) (auto split: option.splits)

text \<open>C15: Round robin with faithful contexts. On a core with n queued threads, all runnable,
  n + 1 preemptions run every queued thread once, in queue order and from the registers it had
  saved, and return to the first thread exactly in the frame it was interrupted in; the queue
  is then as it was, and every other thread's saved registers are the ones of its
  interruption.\<close>
theorem round_robin:
  assumes "sched_inv k L" "c < num_core k" "current k c = x" "L (RunQueue c) = n # q"
    "\<forall>e \<in> set (x # n # q). status (threads k e) = THREAD_RUN" "length fs = length (x # n # q)"
    "\<forall>i < length fs. interrupted (fs ! i) (threads k ((x # n # q) ! i))"
  shows "\<exists>k'. preempts c fs k
       = Some (map (\<lambda>e. saved_context (threads k e)) (n # q) @ [hd fs], k')
    \<and> sched_inv k' L \<and> current k' = current k
    \<and> (\<forall>i < length (n # q). saved_context (threads k' ((n # q) ! i)) = fs ! Suc i)"
proof -
  let ?q = "n # q"
  define gs where "gs = butlast fs"
  have nn: "fs \<noteq> []" using assms(6) by auto
  then have fs: "fs = gs @ [last fs]" unfolding gs_def by (rule append_butlast_last_id [symmetric])
  have lgs: "length gs = length ?q" using assms(6) by (simp add: gs_def)
  have gi: "gs ! i = fs ! i" if "i < length ?q" for i
    using that lgs by (simp add: gs_def nth_butlast)
  have hd: "hd fs = fs ! 0" "gs ! 0 = fs ! 0" using gi [of 0] hd_conv_nth [OF nn] by simp_all
  note run = running [OF assms(1,2)]
  have dist: "distinct (x # ?q @ [])"
    using run(3) on_listI [of x L "RunQueue c"] kl.once [OF sched_invD(1) [OF assms(1)], of "RunQueue c"] assms(3,4)
    by auto
  have "\<forall>i < length ?q. interrupted (gs ! i) (threads k ((x # ?q) ! i))"
    using assms(6,7) gi by auto
  then obtain k1 where k1: "preempts c gs k = Some (map (\<lambda>e. saved_context (threads k e)) ?q, k1)"
    "sched_inv k1 (L(RunQueue c := [] @ butlast (x # ?q)))" "num_core k1 = num_core k"
    "current k1 = (current k)(c := last (x # ?q))"
    "\<And>e. status (threads k1 e) = status (threads k e) \<and> is_kernel_thread (threads k1 e) = is_kernel_thread (threads k e)"
    "\<And>i. i < length ?q \<Longrightarrow> saved_context (threads k1 ((x # ?q) ! i)) = gs ! i"
    using preempts_through [of k L c x ?q "[]" gs] assms(1-5) lgs dist by auto
  let ?l = "last ?q"
  have lst: "?l = (x # ?q) ! length ?q" by (simp add: last_conv_nth)
  have "interrupted (last fs) (threads k ?l)"
  proof -
    have "last fs = fs ! length ?q" using nn assms(6) by (simp add: last_conv_nth)
    moreover have "interrupted (fs ! length ?q) (threads k ((x # ?q) ! length ?q))"
      using assms(7) assms(6) by (metis length_Cons lessI)
    ultimately show ?thesis using lst by (simp only:)
  qed
  then have int: "interrupted (last fs) (threads k1 ?l)" using k1(5) by (simp add: interrupted_def)
  have st: "status (threads k1 ?l) = THREAD_RUN" using assms(5) k1(5) by simp
  have c1: "c < num_core k1" "current k1 c = ?l" using assms(2) k1 by simp_all
  have l1: "(L(RunQueue c := [] @ butlast (x # ?q))) (RunQueue c) = x # butlast ?q" by simp
  obtain k2 where k2: "YieldInInterruptHandler c (last fs) k1 = Some (saved_context (threads k1 x), k2)"
    "sched_inv k2 (L(RunQueue c := [] @ butlast (x # ?q), RunQueue c := butlast ?q @ [?l]))"
    "current k2 = (current k1)(c := x)" "saved_context (threads k2 ?l) = last fs"
    "\<And>e. e \<noteq> ?l \<Longrightarrow> saved_context (threads k2 e) = saved_context (threads k1 e)"
    by (rule preempt_once [OF k1(2) c1(1) l1 c1(2) st int]) (rule that)
  have "L(RunQueue c := [] @ butlast (x # ?q), RunQueue c := butlast ?q @ [?l]) = L"
    using assms(4) append_butlast_last_id [of ?q] by (simp add: fun_eq_iff)
  moreover have "saved_context (threads k1 x) = hd fs" using k1(6) [of 0] hd by simp
  moreover have "current k2 = current k" using k2(3) k1(4) assms(3) by auto
  moreover have "saved_context (threads k2 (?q ! i)) = fs ! Suc i" if i: "i < length ?q" for i
  proof (cases "Suc i = length ?q")
    case True
    then have "?q ! i = ?l" by (simp add: last_conv_nth)
    then show ?thesis using k2(4) True nn assms(6) by (simp add: last_conv_nth)
  next
    case False
    then have "?q ! i \<noteq> ?l"
      using i dist by (simp add: last_conv_nth nth_eq_iff_index_eq del: last.simps)
    then show ?thesis using k2(5) k1(6) [of "Suc i"] gi [of "Suc i"] i False by simp
  qed
  moreover have "preempts c fs k = Some (map (\<lambda>e. saved_context (threads k e)) ?q @ [saved_context (threads k1 x)], k2)"
    by (subst fs) (simp only: preempts_snoc k1(1) k2(1) option.case prod.case)
  ultimately show ?thesis using k2(2) by (intro exI [of _ k2]) simp
qed

definition demo_two :: kernel where
  "demo_two = demo_kernel\<lparr>lists := the (push_back (RunQueue 0) 2 (new_lists (RunQueue 0))),
     threads := (\<lambda>_. demo_thread)(2 := demo_thread\<lparr>in_queue := True\<rparr>)\<rparr>"

definition demo_frame :: "nat \<Rightarrow> saved_registers" where
  "demo_frame a = \<lparr>rip = a, rsp = 0, rflags = 0x200, cs = 8, ss = 16, regs = []\<rparr>"

lemma demo_two_inv: "sched_inv demo_two ((\<lambda>_. [])(RunQueue 0 := [2]))"
proof -
  have "\<not> on_list (\<lambda>_ :: queue_name. []) 2" by (simp add: on_list_def)
  from push_back_rep [OF lists_rep_new _ this, of "RunQueue 0" "RunQueue 0"]
  have "lists_rep (lists demo_two) ((\<lambda>_. [])(RunQueue 0 := [2]))"
    by (auto simp: demo_two_def)
  then show ?thesis
    by (auto simp: sched_inv_def queues_ok_def inv_defs cpu_ok_def demo_two_def demo_kernel_def
        demo_thread_def IsRunnable_def on_list_def)
qed

theorem round_robin_witness:
  "\<exists>k'. preempts 0 [demo_frame 100, demo_frame 200] demo_two
       = Some ([kernel_regs demo_thread, demo_frame 100], k')
    \<and> sched_inv k' ((\<lambda>_. [])(RunQueue 0 := [2])) \<and> current k' = current demo_two
    \<and> saved_context (threads k' 2) = demo_frame 200"
  using round_robin [OF demo_two_inv, of 0 1 2 "[]" "[demo_frame 100, demo_frame 200]"]
  by (simp add: demo_two_def demo_kernel_def demo_thread_def demo_frame_def interrupted_def
      kKernelCodeSegment_def saved_context_def IsInKernelSpace_def All_less_Suc)

end
