(* ===== verification/SpinLock.thy ===== *)
theory SpinLock
  imports Prelude
begin

text \<open>
  The spin locks of \<open>kernel/kernel/sync.h\<close> and \<open>sync.cc\<close>, and the semaphore
  \<open>MultiCoreSema\<close> built on one. Cores interleave at the granularity of the atomic operations:
  a load of \<open>acquired\<close>, a test-and-set, a clear, and the code between two of them. A schedule
  is a list of actions, each naming the thread that moves, and running it is a fold.
\<close>

section \<open>The lock and the semaphore\<close>

definition kMaxSpinCnt :: nat where "kMaxSpinCnt = 1000"

datatype request = Down_call | Up_call

text \<open>Where a thread is: outside; at the load of \<open>MultiCoreSpinLock::lock\<close> with its spin count;
  at the test-and-set; in the critical section; at the unlock that ends its call; or at the
  unlock after which \<open>Down\<close> yields and tries again.\<close>

datatype pc =
    Outside
  | Loading request nat
  | Testing request nat
  | Critical request
  | Unlocking
  | Unlocking_retry

record sema_state =
  acquired :: bool
  count :: int
  pc_of :: "nat \<Rightarrow> pc"

definition new_sema :: "int \<Rightarrow> sema_state" where
  "new_sema n = \<lparr>acquired = False, count = n, pc_of = (\<lambda>_. Outside)\<rparr>"

definition goto :: "nat \<Rightarrow> pc \<Rightarrow> sema_state \<Rightarrow> sema_state" where
  "goto t p st = st\<lparr>pc_of := (pc_of st)(t := p)\<rparr>"

definition test_and_set :: "sema_state \<Rightarrow> bool \<times> sema_state" where
  "test_and_set st = (acquired st, st\<lparr>acquired := True\<rparr>)"

definition clear :: "sema_state \<Rightarrow> sema_state" where
  "clear st = st\<lparr>acquired := False\<rparr>"

definition lock_load :: "nat \<Rightarrow> request \<Rightarrow> nat \<Rightarrow> sema_state \<Rightarrow> sema_state" where
  "lock_load t r cnt st =
     (if acquired st then goto t (Loading r (if cnt + 1 \<ge> kMaxSpinCnt then 0 else cnt + 1)) st
      else goto t (Testing r cnt) st)"

definition lock_test :: "nat \<Rightarrow> request \<Rightarrow> nat \<Rightarrow> sema_state \<Rightarrow> sema_state" where
  "lock_test t r cnt st =
     (case test_and_set st of
        (old, st') \<Rightarrow> goto t (if old then Loading r cnt else Critical r) st')"

definition critical :: "nat \<Rightarrow> request \<Rightarrow> sema_state \<Rightarrow> sema_state" where
  "critical t r st =
     (case r of
        Up_call \<Rightarrow> goto t Unlocking (st\<lparr>count := count st + 1\<rparr>)
      | Down_call \<Rightarrow>
          if count st > 0 then goto t Unlocking (st\<lparr>count := count st - 1\<rparr>)
          else goto t Unlocking_retry st)"

datatype action = Call nat request | Move nat

fun sema_step :: "action \<Rightarrow> sema_state \<Rightarrow> sema_state" where
  "sema_step (Call t r) st = (if pc_of st t = Outside then goto t (Loading r 0) st else st)"
| "sema_step (Move t) st =
     (case pc_of st t of
        Outside \<Rightarrow> st
      | Loading r cnt \<Rightarrow> lock_load t r cnt st
      | Testing r cnt \<Rightarrow> lock_test t r cnt st
      | Critical r \<Rightarrow> critical t r st
      | Unlocking \<Rightarrow> goto t Outside (clear st)
      | Unlocking_retry \<Rightarrow> goto t (Loading Down_call 0) (clear st))"

definition sema_run :: "action list \<Rightarrow> sema_state \<Rightarrow> sema_state" where
  "sema_run acts st = fold sema_step acts st"

text \<open>The units taken and given back along a schedule.\<close>

fun took :: "action list \<Rightarrow> sema_state \<Rightarrow> nat" where
  "took [] st = 0"
| "took (a # as) st =
     (case a of Move t \<Rightarrow> (if pc_of st t = Critical Down_call \<and> count st > 0 then 1 else 0) | _ \<Rightarrow> 0)
     + took as (sema_step a st)"

fun gave :: "action list \<Rightarrow> sema_state \<Rightarrow> nat" where
  "gave [] st = 0"
| "gave (a # as) st =
     (case a of Move t \<Rightarrow> (if pc_of st t = Critical Up_call then 1 else 0) | _ \<Rightarrow> 0)
     + gave as (sema_step a st)"

section \<open>Exclusion\<close>

definition inside :: "pc \<Rightarrow> bool" where
  "inside p \<longleftrightarrow> (case p of Critical r \<Rightarrow> True | Unlocking \<Rightarrow> True | Unlocking_retry \<Rightarrow> True | _ \<Rightarrow> False)"

lemma inside_simps [simp]:
  "\<not> inside Outside" "\<not> inside (Loading r n)" "\<not> inside (Testing r n)"
  "inside (Critical r)" "inside Unlocking" "inside Unlocking_retry"
  by (simp_all add: inside_def)

definition held_by :: "nat option \<Rightarrow> sema_state \<Rightarrow> bool" where
  "held_by h st \<longleftrightarrow> (acquired st \<longleftrightarrow> h \<noteq> None) \<and> (\<forall>t. inside (pc_of st t) \<longleftrightarrow> h = Some t)"

definition sema_ok :: "sema_state \<Rightarrow> bool" where
  "sema_ok st \<longleftrightarrow> 0 \<le> count st \<and> (\<exists>h. held_by h st)"

lemmas step_defs = goto_def lock_load_def lock_test_def test_and_set_def clear_def critical_def

lemma held_byD: "held_by h st \<Longrightarrow> inside (pc_of st t) = (h = Some t)" "held_by h st \<Longrightarrow> acquired st = (h \<noteq> None)"
  by (simp_all add: held_by_def)

lemma held_by_step:
  assumes "held_by h st"
  shows "\<exists>h'. held_by h' (sema_step a st)"
proof (cases a)
  case (Call t r)
  then have "held_by h (sema_step (Call t r) st)"
  proof (cases "pc_of st t = Outside")
    case True
    then have "h \<noteq> Some t" using held_byD(1) [OF assms, of t] by simp
    then show ?thesis using assms True by (simp add: held_by_def goto_def)
  qed (simp add: assms)
  then show ?thesis using Call by blast
next
  case (Move t)
  let ?st = "sema_step a st"
  note i = held_byD(1) [OF assms, of t] and acq = held_byD(2) [OF assms]
  show ?thesis
  proof (cases "pc_of st t")
    case Outside
    then show ?thesis using Move assms by auto
  next
    case (Loading r n)
    then have "held_by h ?st" using Move assms i by (auto simp: held_by_def step_defs)
    then show ?thesis ..
  next
    case (Testing r n)
    then have "held_by (if acquired st then h else Some t) ?st"
      using Move assms i acq by (auto simp: held_by_def step_defs)
    then show ?thesis ..
  next
    case (Critical r)
    then have "held_by h ?st"
      using Move assms i by (auto simp: held_by_def step_defs split: request.splits)
    then show ?thesis ..
  next
    case Unlocking
    then have "held_by None ?st" using Move assms i by (auto simp: held_by_def step_defs)
    then show ?thesis ..
  next
    case Unlocking_retry
    then have "held_by None ?st" using Move assms i by (auto simp: held_by_def step_defs)
    then show ?thesis ..
  qed
qed

lemma count_step: "0 \<le> count st \<Longrightarrow> 0 \<le> count (sema_step a st)"
  by (cases a) (auto simp: step_defs split: pc.splits request.splits)

lemma count_balance:
  "count (sema_step a st) = count st + int (gave [a] st) - int (took [a] st)"
  by (cases a) (auto simp: step_defs split: pc.splits request.splits)

lemma sema_run_ok:
  assumes "sema_ok st"
  shows "sema_ok (sema_run as st)
    \<and> count (sema_run as st) = count st + int (gave as st) - int (took as st)"
  using assms
proof (induction as arbitrary: st)
  case (Cons a as)
  have "sema_ok (sema_step a st)"
    using Cons.prems held_by_step count_step by (auto simp: sema_ok_def)
  from Cons.IH [OF this] show ?case
    using count_balance [of a st] by (simp add: sema_run_def)
qed (simp add: sema_run_def)

text \<open>C16: Whatever the interleaving of the cores' loads, test-and-sets and clears, at most one
  thread is between a successful \<open>MultiCoreSpinLock::lock\<close> and its \<open>unlock\<close>, and exactly when
  one is the flag is set; and \<open>MultiCoreSema\<close>, which the lock protects, never goes below zero
  and never loses a unit: its count is the initial one, plus the units given, minus those
  taken.\<close>
theorem spin_lock_exclusion:
  assumes "0 \<le> n" "st = sema_run as (new_sema n)"
  shows "(\<forall>t u. inside (pc_of st t) \<longrightarrow> inside (pc_of st u) \<longrightarrow> t = u)
    \<and> (acquired st \<longleftrightarrow> (\<exists>t. inside (pc_of st t)))
    \<and> 0 \<le> count st
    \<and> count st = n + int (gave as (new_sema n)) - int (took as (new_sema n))"
proof -
  have "sema_ok (new_sema n)"
    using assms(1) by (auto simp: sema_ok_def held_by_def new_sema_def)
  from sema_run_ok [OF this, of as] obtain h where h: "held_by h st" "0 \<le> count st"
    and c: "count st = n + int (gave as (new_sema n)) - int (took as (new_sema n))"
    using assms(2) by (auto simp: sema_ok_def new_sema_def)
  have i: "inside (pc_of st t) \<longleftrightarrow> h = Some t" for t by (rule held_byD(1) [OF h(1)])
  then show ?thesis using h c held_byD(2) [OF h(1)] by auto
qed

theorem spin_lock_exclusion_witness:
  "let st = sema_run [Call 1 Down_call, Call 2 Down_call, Move 1, Move 2, Move 1, Move 2, Move 2] (new_sema 1)
   in pc_of st 1 = Critical Down_call \<and> \<not> inside (pc_of st 2) \<and> acquired st \<and> count st = 1"
proof -
  define st where "st = sema_run [Call 1 Down_call, Call 2 Down_call, Move 1, Move 2, Move 1, Move 2, Move 2] (new_sema 1)"
  have 1: "pc_of st 1 = Critical Down_call" "count st = 1"
    by (simp_all add: st_def sema_run_def new_sema_def step_defs kMaxSpinCnt_def)
  note x = spin_lock_exclusion [OF _ st_def]
  have "\<not> inside (pc_of st 2)"
  proof
    assume "inside (pc_of st 2)"
    then have "(1 :: nat) = 2" using x 1 by (metis inside_simps(4) zero_le_one)
    then show False by simp
  qed
  moreover have "acquired st" using x 1 by (metis inside_simps(4) zero_le_one)
  ultimately show ?thesis using 1 by (simp add: st_def Let_def)
qed

section \<open>The lock for interrupt handlers\<close>

text \<open>\<open>SpinLockNoLockInIntr\<close>: \<open>lock\<close> does nothing when interrupts are off, but \<open>unlock\<close> clears
  the flag in any case. \<open>None\<close> while the lock spins.\<close>

definition lock_in_intr :: "bool \<Rightarrow> bool \<Rightarrow> bool option" where
  "lock_in_intr interrupts_enabled flag =
     (if \<not> interrupts_enabled then Some flag else if flag then None else Some True)"

definition unlock_in_intr :: "bool \<Rightarrow> bool" where
  "unlock_in_intr flag = False"

text \<open>A handler that interrupts the holder releases the holder's lock: a second thread enters.\<close>

lemma lock_in_intr_not_exclusive:
  "lock_in_intr True False = Some held
   \<Longrightarrow> lock_in_intr False held = Some flag
   \<Longrightarrow> lock_in_intr True (unlock_in_intr flag) = Some True"
  by (simp add: lock_in_intr_def unlock_in_intr_def)

end
