(* ===== verification/FrameList.thy ===== *)
theory FrameList
  imports Prelude
begin

text \<open>
  The free lists of \<open>kernel/kernel/frame_allocator.cc\<close>: circular doubly linked lists of
  \<open>FrameDescriptor\<close>s, one per order. A descriptor is an address, 0 is \<open>nullptr\<close>, and
  \<open>operator new\<close> hands out addresses that were not used before. The locale \<open>page_lists\<close> is
  what the buddy allocator relies on.
\<close>

section \<open>Descriptors and lists\<close>

record frame_lists =
  page :: "nat \<Rightarrow> nat"
  dprev :: "nat \<Rightarrow> nat"
  dnext :: "nat \<Rightarrow> nat"
  free_lists :: "nat \<Rightarrow> nat"
  fresh :: nat

definition dset_next :: "nat \<Rightarrow> nat \<Rightarrow> frame_lists \<Rightarrow> frame_lists" where
  "dset_next d v s = s\<lparr>dnext := (dnext s)(d := v)\<rparr>"

definition dset_prev :: "nat \<Rightarrow> nat \<Rightarrow> frame_lists \<Rightarrow> frame_lists" where
  "dset_prev d v s = s\<lparr>dprev := (dprev s)(d := v)\<rparr>"

definition set_list :: "nat \<Rightarrow> nat \<Rightarrow> frame_lists \<Rightarrow> frame_lists" where
  "set_list i d s = s\<lparr>free_lists := (free_lists s)(i := d)\<rparr>"

definition new_descriptor :: "nat \<Rightarrow> frame_lists \<Rightarrow> nat \<times> frame_lists" where
  "new_descriptor p s =
     (fresh s, s\<lparr>page := (page s)(fresh s := p), dprev := (dprev s)(fresh s := 0),
                 dnext := (dnext s)(fresh s := 0), fresh := fresh s + 1\<rparr>)"

lemmas frame_store_defs = dset_next_def dset_prev_def set_list_def new_descriptor_def

definition AddToFreeList :: "nat \<Rightarrow> nat \<Rightarrow> frame_lists \<Rightarrow> frame_lists" where
  "AddToFreeList i p s0 =
     (case new_descriptor p s0 of
        (d, s) \<Rightarrow>
          if free_lists s i \<noteq> 0 then
            let head = free_lists s i;
                s1 = dset_next d head s;
                s2 = dset_prev d (dprev s1 head) s1;
                s3 = dset_next (dprev s2 head) d s2
            in dset_prev head d s3
          else dset_prev d d (dset_next d d (set_list i d s)))"

definition RemoveFirstFromFreeList :: "nat \<Rightarrow> frame_lists \<Rightarrow> nat \<times> frame_lists" where
  "RemoveFirstFromFreeList i s =
     (let first = free_lists s i; s1 = set_list i (dnext s first) s
      in (first,
          if free_lists s1 i = first then set_list i 0 s1
          else if free_lists s1 i \<noteq> 0 then
            let new_first = free_lists s1 i; s2 = dset_prev new_first (dprev s1 first) s1
            in dset_next (dprev s2 first) new_first s2
          else s1))"

definition RemovePageFromFreeList :: "nat \<Rightarrow> nat \<Rightarrow> frame_lists \<Rightarrow> frame_lists" where
  "RemovePageFromFreeList i d s =
     (let s1 = (if dprev s d \<noteq> 0 then dset_next (dprev s d) (dnext s d) s else s);
          s2 = (if dnext s1 d \<noteq> 0 then dset_prev (dnext s1 d) (dprev s1 d) s1 else s1)
      in if free_lists s2 i = d then
           (if d \<noteq> dnext s2 d then set_list i (dnext s2 d) s2 else set_list i 0 s2)
         else s2)"

partial_function (option) find_page :: "frame_lists \<Rightarrow> nat \<Rightarrow> nat \<Rightarrow> nat \<Rightarrow> nat option" where
  "find_page s start p cur =
     (if page s cur = p then Some cur
      else if start \<noteq> dnext s cur \<and> dnext s cur \<noteq> 0 then find_page s start p (dnext s cur)
      else Some 0)"

definition FindPageFromFreeList :: "nat \<Rightarrow> nat \<Rightarrow> frame_lists \<Rightarrow> nat option" where
  "FindPageFromFreeList i p s =
     (if free_lists s i = 0 then Some 0 else find_page s (free_lists s i) p (free_lists s i))"

section \<open>What they represent\<close>

text \<open>\<open>D i\<close> are the descriptors of list i from its head on, \<open>P i\<close> their pages.\<close>

definition circular :: "frame_lists \<Rightarrow> nat \<Rightarrow> nat list \<Rightarrow> bool" where
  "circular s i ds \<longleftrightarrow> free_lists s i = hd_or 0 ds
     \<and> dll (dprev s) (dnext s) (last_or 0 ds) ds (hd_or 0 ds) \<and> distinct ds
     \<and> (\<forall>d \<in> set ds. 0 < d \<and> d < fresh s)"

definition descs_rep :: "frame_lists \<Rightarrow> (nat \<Rightarrow> nat list) \<Rightarrow> (nat \<Rightarrow> nat list) \<Rightarrow> bool" where
  "descs_rep s D P \<longleftrightarrow> 0 < fresh s \<and> (\<forall>i. circular s i (D i) \<and> map (page s) (D i) = P i)
     \<and> (\<forall>i j. i \<noteq> j \<longrightarrow> set (D i) \<inter> set (D j) = {})"

definition pages_rep :: "frame_lists \<Rightarrow> (nat \<Rightarrow> nat list) \<Rightarrow> bool" where
  "pages_rep s P \<longleftrightarrow> (\<exists>D. descs_rep s D P)"

lemma descs_rep_step:
  assumes rep: "descs_rep s D P" and c: "circular s' i ds" "map (page s') ds = ps"
    and f: "fresh s \<le> fresh s'"
    and sub: "\<And>d. d \<in> set ds \<Longrightarrow> d \<in> set (D i) \<or> fresh s \<le> d"
    and others: "\<And>j. j \<noteq> i \<Longrightarrow> free_lists s' j = free_lists s j"
    and links: "\<And>d. d \<notin> set (D i) \<Longrightarrow> d < fresh s \<Longrightarrow> 0 < d
        \<Longrightarrow> dprev s' d = dprev s d \<and> dnext s' d = dnext s d \<and> page s' d = page s d"
  shows "descs_rep s' (D(i := ds)) (P(i := ps))"
proof -
  have other: "circular s' j (D j) \<and> map (page s') (D j) = P j" if "j \<noteq> i" for j
  proof -
    have cj: "circular s j (D j)" "map (page s) (D j) = P j" "set (D j) \<inter> set (D i) = {}"
      using rep that by (simp_all add: descs_rep_def)
    have same: "dprev s' d = dprev s d \<and> dnext s' d = dnext s d \<and> page s' d = page s d"
      if "d \<in> set (D j)" for d
      using links [of d] that cj by (auto simp: circular_def)
    have "dll (dprev s') (dnext s') p (D j) n = dll (dprev s) (dnext s) p (D j) n" for p n
      by (rule dll_cong) (use same in auto)
    moreover have "map (page s') (D j) = map (page s) (D j)" using same by simp
    moreover have "d < fresh s'" if "d \<in> set (D j)" for d
      using cj(1) that f unfolding circular_def by (meson less_le_trans)
    ultimately show ?thesis using cj others [OF that] by (simp add: circular_def)
  qed
  have "set ds \<inter> set (D j) = {}" if "j \<noteq> i" for j
  proof -
    have "d \<notin> set (D j)" if "d \<in> set ds" for d
      using sub [OF that] rep \<open>j \<noteq> i\<close> unfolding descs_rep_def circular_def
      by (metis disjoint_iff linorder_not_le)
    then show ?thesis by blast
  qed
  then show ?thesis
    using rep c other f by (auto simp: descs_rep_def)
qed

section \<open>The operations\<close>

lemma descs_repD:
  assumes "descs_rep s D P"
  shows "circular s i (D i)" "map (page s) (D i) = P i" "i \<noteq> j \<Longrightarrow> set (D i) \<inter> set (D j) = {}" "0 < fresh s"
  using assms by (simp_all add: descs_rep_def)

lemma circular_head: "circular s i ds \<Longrightarrow> free_lists s i = 0 \<longleftrightarrow> ds = []"
  by (cases ds) (auto simp: circular_def)

lemma add_rep:
  assumes rep: "descs_rep s D P"
  shows "descs_rep (AddToFreeList i p s) (D(i := D i @ [fresh s])) (P(i := P i @ [p]))"
proof -
  let ?f = "fresh s" and ?ds = "D i" and ?s' = "AddToFreeList i p s"
  note c = descs_repD(1) [OF rep, of i] and hd = circular_head [OF descs_repD(1) [OF rep, of i]]
  have fr: "0 < ?f" "?f \<notin> set ?ds" using descs_repD(4) [OF rep] c by (auto simp: circular_def)
  have pg: "map ((page s)(?f := p)) ?ds = P i"
    using descs_repD(2) [OF rep, of i] fr(2) by simp
  show ?thesis
  proof (cases ?ds)
    case Nil
    have e: "?s' = s\<lparr>page := (page s)(?f := p), dprev := (dprev s)(?f := ?f),
        dnext := (dnext s)(?f := ?f), free_lists := (free_lists s)(i := ?f), fresh := ?f + 1\<rparr>"
      using hd Nil by (simp add: AddToFreeList_def frame_store_defs)
    show ?thesis
      by (rule descs_rep_step [OF rep])
        (use Nil fr descs_repD(2) [OF rep, of i] in \<open>auto simp: e circular_def\<close>)
  next
    case (Cons h t)
    let ?l = "last ?ds"
    have ne: "?ds \<noteq> []" using Cons by simp
    have l_in: "?l \<in> set ?ds" "h \<in> set ?ds" using Cons by simp_all
    have ls: "free_lists s i = h" "dprev s h = ?l" "?f \<noteq> h" "?l \<noteq> ?f" "h \<noteq> 0"
      using c fr l_in Cons by (auto simp: circular_def last_or_last)
    have e: "?s' = s\<lparr>page := (page s)(?f := p), dprev := (dprev s)(h := ?f, ?f := ?l),
        dnext := (dnext s)(?l := ?f, ?f := h), fresh := ?f + 1\<rparr>"
      using ls by (auto simp: AddToFreeList_def frame_store_defs Let_def fun_eq_iff)
    have d: "dll (dprev s) (dnext s) ?l ?ds h" "distinct ?ds"
      using c Cons by (simp_all add: circular_def last_or_def)
    have "dll ((dprev s)(h := ?f)) (dnext s) ?f ?ds h"
      using dll_set_head [OF d, of 0 ?f] Cons by simp
    from dll_set_last [OF this d(2), of 0 ?f]
    have "dll ((dprev s)(h := ?f)) ((dnext s)(?l := ?f)) ?f ?ds ?f"
      using ne by (simp add: last_or_def)
    then have "dll (dprev ?s') (dnext ?s') ?f (?ds @ [?f]) h"
      unfolding dll_append using fr ls ne by (simp add: e last_or_last)
    then have "circular ?s' i (?ds @ [?f])"
      using c d(2) fr ls Cons by (auto simp: circular_def e)
    then show ?thesis
      by (rule descs_rep_step [OF rep]) (use l_in pg in \<open>auto simp: e\<close>)
  qed
qed

text \<open>A circle of links can be read from any of its nodes.\<close>

definition circle :: "(nat \<Rightarrow> nat) \<Rightarrow> (nat \<Rightarrow> nat) \<Rightarrow> nat list \<Rightarrow> bool" where
  "circle pv nx ds \<longleftrightarrow> dll pv nx (last_or 0 ds) ds (hd_or 0 ds)"

lemma circle_rotate: "circle pv nx (xs @ ys) \<longleftrightarrow> circle pv nx (ys @ xs)"
  by (cases "xs = []"; cases "ys = []")
    (auto simp: circle_def dll_append last_or_last hd_or_hd)

lemma circle_unlink:
  assumes "circle pv nx (d # r)" "distinct (d # r)" "r \<noteq> []"
  shows "pv d = last r" "nx d = hd r" "circle (pv(hd r := last r)) (nx(last r := hd r)) r"
proof -
  have d: "pv d = last r" "nx d = hd r" "dll pv nx d r d"
    using assms by (simp_all add: circle_def last_or_last hd_or_hd)
  have "dll (pv(hd r := last r)) nx (last r) r d"
    using dll_set_head [OF d(3), of 0 "last r"] assms by (simp add: hd_or_hd)
  from dll_set_last [OF this, of 0 "hd r"] assms
  show "circle (pv(hd r := last r)) (nx(last r := hd r)) r"
    by (simp add: circle_def last_or_last hd_or_hd)
  show "pv d = last r" "nx d = hd r" by (rule d)+
qed

lemma circular_circle:
  "circular s i ds \<longleftrightarrow> free_lists s i = hd_or 0 ds \<and> circle (dprev s) (dnext s) ds
     \<and> distinct ds \<and> (\<forall>d \<in> set ds. 0 < d \<and> d < fresh s)"
  by (simp add: circular_def circle_def)

text \<open>Descriptor d, with the others in the order r after it, leaves the list.\<close>

definition unlinked :: "nat \<Rightarrow> nat list \<Rightarrow> nat \<Rightarrow> frame_lists \<Rightarrow> frame_lists \<Rightarrow> bool" where
  "unlinked i r new_head s s' \<longleftrightarrow> page s' = page s \<and> fresh s' = fresh s
     \<and> free_lists s' = (free_lists s)(i := new_head)
     \<and> (if r = [] then dprev s' = dprev s \<and> dnext s' = dnext s
        else dprev s' = (dprev s)(hd r := last r) \<and> dnext s' = (dnext s)(last r := hd r))"

lemma unlinked_rep:
  assumes rep: "descs_rep s D P" and D: "D i = ys @ d # zs"
    and u: "unlinked i (zs @ ys) (hd_or 0 (ys @ zs)) s s'"
  shows "descs_rep s' (D(i := ys @ zs)) (P(i := map (page s) (ys @ zs)))"
proof -
  have c: "circle (dprev s) (dnext s) (d # zs @ ys)" "distinct (ys @ d # zs)"
    "\<forall>d \<in> set (ys @ d # zs). 0 < d \<and> d < fresh s"
    using descs_repD(1) [OF rep, of i] circle_rotate [of _ _ ys "d # zs"]
    by (simp_all add: circular_circle D)
  have "circle (dprev s') (dnext s') (zs @ ys)"
  proof (cases "zs @ ys = []")
    case True
    then show ?thesis by (simp add: circle_def)
  next
    case False
    then show ?thesis using circle_unlink(3) [OF c(1)] c(2) u by (auto simp: unlinked_def)
  qed
  then have "circle (dprev s') (dnext s') (ys @ zs)" using circle_rotate by blast
  then have "circular s' i (ys @ zs)" using c u by (auto simp: circular_circle unlinked_def)
  then show ?thesis
  proof (rule descs_rep_step [OF rep])
    show "map (page s') (ys @ zs) = map (page s) (ys @ zs)" using u by (simp add: unlinked_def)
    show "dprev s' e = dprev s e \<and> dnext s' e = dnext s e \<and> page s' e = page s e"
      if "e \<notin> set (D i)" for e
    proof (cases "zs @ ys = []")
      case False
      have "e \<noteq> hd (zs @ ys)" "e \<noteq> last (zs @ ys)"
        using hd_in_set [OF False] last_in_set [OF False] that unfolding D by (metis Un_iff list.set_intros(2) set_append)+
      then show ?thesis using u False by (simp add: unlinked_def del: hd_append2 last_append)
    qed (use u in \<open>simp add: unlinked_def\<close>)
  qed (use u D in \<open>auto simp: unlinked_def\<close>)
qed

lemma remove_first_rep:
  assumes rep: "descs_rep s D P" and D: "D i = d # zs"
  shows "\<exists>s'. RemoveFirstFromFreeList i s = (d, s') \<and> page s' = page s
     \<and> descs_rep s' (D(i := zs)) (P(i := map (page s) zs))"
proof -
  have c: "circle (dprev s) (dnext s) (d # zs)" "distinct (d # zs)" "free_lists s i = d"
    "\<forall>d \<in> set (d # zs). 0 < d \<and> d < fresh s"
    using descs_repD(1) [OF rep, of i] by (simp_all add: circular_circle D)
  let ?s' = "snd (RemoveFirstFromFreeList i s)"
  have "unlinked i (zs @ []) (hd_or 0 ([] @ zs)) s ?s'"
  proof (cases "zs = []")
    case True
    then have "dnext s d = d" using c(1) by (simp add: circle_def)
    then show ?thesis using True c
      by (simp add: unlinked_def RemoveFirstFromFreeList_def frame_store_defs Let_def)
  next
    case False
    note u = circle_unlink(1,2) [OF c(1,2) False]
    have "hd zs \<in> set zs" "last zs \<in> set zs" using False by simp_all
    then have "hd zs \<noteq> d" "last zs \<noteq> d" "hd zs \<noteq> 0" using c by auto
    then show ?thesis using False c u
      by (simp add: unlinked_def RemoveFirstFromFreeList_def frame_store_defs Let_def hd_or_hd)
  qed
  from unlinked_rep [OF rep _ this, of d] have "descs_rep ?s' (D(i := zs)) (P(i := map (page s) zs))"
    using D by simp
  moreover have "page ?s' = page s"
    by (simp add: RemoveFirstFromFreeList_def frame_store_defs Let_def)
  moreover have "RemoveFirstFromFreeList i s = (d, ?s')"
    using c by (simp add: RemoveFirstFromFreeList_def Let_def)
  ultimately show ?thesis by blast
qed

lemma remove_page_rep:
  assumes rep: "descs_rep s D P" and D: "D i = ys @ d # zs"
  shows "descs_rep (RemovePageFromFreeList i d s) (D(i := ys @ zs)) (P(i := map (page s) (ys @ zs)))"
proof (rule unlinked_rep [OF rep D])
  let ?r = "zs @ ys"
  have c: "circle (dprev s) (dnext s) (d # ?r)" "distinct (d # ?r)" "free_lists s i = hd_or 0 (ys @ d # zs)"
    "\<forall>d \<in> set (d # ?r). 0 < d \<and> d < fresh s"
    using descs_repD(1) [OF rep, of i] circle_rotate [of _ _ ys "d # zs"]
    by (auto simp: circular_circle D)
  show "unlinked i ?r (hd_or 0 (ys @ zs)) s (RemovePageFromFreeList i d s)"
  proof (cases "?r = []")
    case True
    then have "dnext s d = d" "dprev s d = d" using c(1) by (simp_all add: circle_def)
    then show ?thesis using True c
      by (auto simp: unlinked_def RemovePageFromFreeList_def frame_store_defs Let_def)
  next
    case False
    note u = circle_unlink(1,2) [OF c(1,2) False]
    have "hd ?r \<in> set ?r" "last ?r \<in> set ?r" using hd_in_set [OF False] last_in_set [OF False] by blast+
    then have r: "hd ?r \<noteq> d" "last ?r \<noteq> d" "hd ?r \<noteq> 0" "last ?r \<noteq> 0"
      using c(2,4) by auto
    have h: "free_lists s i = d \<longleftrightarrow> ys = []" using c(2,3) by (cases ys) auto
    have hd: "hd_or 0 (ys @ zs) = (if ys = [] then hd ?r else free_lists s i)"
      using False c(3) by (cases ys) (auto simp: hd_or_hd)
    define a b where "a = hd ?r" and "b = last ?r"
    have "RemovePageFromFreeList i d s = s\<lparr>dprev := (dprev s)(a := b), dnext := (dnext s)(b := a),
        free_lists := (free_lists s)(i := if ys = [] then a else free_lists s i)\<rparr>"
      using u r h unfolding a_def [symmetric] b_def [symmetric]
      by (simp add: RemovePageFromFreeList_def frame_store_defs Let_def)
    then show ?thesis unfolding hd using False unfolding unlinked_def a_def b_def by auto
  qed
qed

lemma find_page_rep:
  assumes c: "circular s i (xs @ ys)" and ys: "ys \<noteq> []"
  shows "\<exists>d. find_page s (hd (xs @ ys)) p (hd ys) = Some d
     \<and> (if p \<in> page s ` set ys then d \<in> set ys \<and> page s d = p else d = 0)"
  using assms
proof (induction ys arbitrary: xs)
  case (Cons y ys)
  have d: "dll (dprev s) (dnext s) (last_or 0 (xs @ y # ys)) (xs @ y # ys) (hd_or 0 (xs @ y # ys))"
    "distinct (xs @ y # ys)" "\<forall>d \<in> set (xs @ y # ys). 0 < d"
    using Cons.prems(1) by (simp_all add: circular_def)
  have n: "dnext s y = hd_or (hd (xs @ y # ys)) ys"
    using d(1) unfolding dll_append by (cases xs) simp_all
  show ?case
  proof (cases "page s y = p")
    case True
    then show ?thesis by (subst find_page.simps) auto
  next
    case False
    show ?thesis
    proof (cases "ys = []")
      case True
      then show ?thesis using False n by (subst find_page.simps) auto
    next
      case nonempty: False
      have "hd (xs @ y # ys) \<noteq> hd ys" "hd ys \<noteq> 0"
        using d(2,3) nonempty by (cases xs; cases ys; auto)+
      then have "find_page s (hd (xs @ y # ys)) p (hd (y # ys)) = find_page s (hd ((xs @ [y]) @ ys)) p (hd ys)"
        using False n nonempty by (subst find_page.simps) (simp add: hd_or_hd)
      then show ?thesis using Cons.IH [of "xs @ [y]"] Cons.prems(1) nonempty False by auto
    qed
  qed
qed simp

section \<open>The interface\<close>

locale page_lists =
  fixes rep :: "'s \<Rightarrow> (nat \<Rightarrow> nat list) \<Rightarrow> bool"
    and is_empty :: "nat \<Rightarrow> 's \<Rightarrow> bool"
    and add :: "nat \<Rightarrow> nat \<Rightarrow> 's \<Rightarrow> 's"
    and take_first :: "nat \<Rightarrow> 's \<Rightarrow> nat \<times> 's"
    and page_at :: "'s \<Rightarrow> nat \<Rightarrow> nat"
    and find :: "nat \<Rightarrow> nat \<Rightarrow> 's \<Rightarrow> nat option"
    and remove :: "nat \<Rightarrow> nat \<Rightarrow> 's \<Rightarrow> 's"
  assumes is_empty: "rep s P \<Longrightarrow> is_empty i s \<longleftrightarrow> P i = []"
    and add: "rep s P \<Longrightarrow> rep (add i p s) (P(i := P i @ [p]))"
    and take_first: "rep s P \<Longrightarrow> P i = p # ps
      \<Longrightarrow> \<exists>d s'. take_first i s = (d, s') \<and> page_at s' d = p \<and> rep s' (P(i := ps))"
    and find: "rep s P \<Longrightarrow> p \<in> set (P i) \<Longrightarrow> distinct (P i)
      \<Longrightarrow> \<exists>d. find i p s = Some d \<and> d \<noteq> 0 \<and> rep (remove i d s) (P(i := remove1 p (P i)))"
    and find_none: "rep s P \<Longrightarrow> p \<notin> set (P i) \<Longrightarrow> find i p s = Some 0"
begin

lemma add_take:
  \<comment> \<open>a page put on an empty list is the next one taken from it\<close>
  assumes "rep s P" "P i = []"
  shows "\<exists>d s'. take_first i (add i p s) = (d, s') \<and> page_at s' d = p \<and> rep s' P"
proof -
  have "rep (add i p s) (P(i := [p]))" using add [OF assms(1), of i p] assms(2) by simp
  from take_first [OF this, of i p "[]"] have "\<exists>d s'. take_first i (add i p s) = (d, s')
      \<and> page_at s' d = p \<and> rep s' ((P(i := [p]))(i := []))" by simp
  moreover have "P(i := []) = P" using assms(2) by auto
  ultimately show ?thesis by simp
qed

lemma add_remove:
  \<comment> \<open>a page that was not on the list can be taken back from its end\<close>
  assumes "rep s P" "p \<notin> set (P i)" "distinct (P i)"
  shows "\<exists>d. find i p (add i p s) = Some d \<and> d \<noteq> 0 \<and> rep (remove i d (add i p s)) P"
proof -
  have "rep (add i p s) (P(i := P i @ [p]))" by (rule add [OF assms(1)])
  from find [OF this, of p i] assms have "\<exists>d. find i p (add i p s) = Some d \<and> d \<noteq> 0
      \<and> rep (remove i d (add i p s)) (P(i := P i @ [p], i := remove1 p (P i @ [p])))" by simp
  moreover have "P(i := P i) = P" by auto
  ultimately show ?thesis using assms(2) by (simp add: remove1_append)
qed

lemma moved:
  \<comment> \<open>the first page of one list goes to the end of another\<close>
  assumes "rep s P" "P i = p # ps" "i \<noteq> j"
  shows "\<exists>d s'. take_first i s = (d, s') \<and> page_at s' d = p
     \<and> rep (add j (page_at s' d) s') (P(i := ps, j := P j @ [p]))"
proof -
  obtain d s' where t: "take_first i s = (d, s')" "page_at s' d = p" "rep s' (P(i := ps))"
    using take_first [OF assms(1,2)] by blast
  then show ?thesis using add [OF t(3), of j p] assms(3) by auto
qed

end

lemma find_descriptor:
  assumes rep: "descs_rep s D P" and p: "p \<in> set (P i)"
  obtains d ys zs where "FindPageFromFreeList i p s = Some d" "d \<noteq> 0" "D i = ys @ d # zs" "page s d = p"
proof -
  note c = descs_repD(1) [OF rep, of i] and m = descs_repD(2) [OF rep, of i]
  have ne: "D i \<noteq> []" using p m by auto
  have "p \<in> page s ` set (D i)" using p m by (metis set_map)
  then obtain d where d: "find_page s (hd (D i)) p (hd (D i)) = Some d" "d \<in> set (D i)" "page s d = p"
    using find_page_rep [of s i "[]" "D i" p] c ne by auto
  have "FindPageFromFreeList i p s = Some d"
  proof -
    have "free_lists s i \<noteq> 0" "free_lists s i = hd (D i)"
      using ne circular_head [OF c] c by (simp_all add: circular_def hd_or_hd)
    then show ?thesis using d(1) by (simp add: FindPageFromFreeList_def)
  qed
  moreover have "d \<noteq> 0" using d(2) c by (auto simp: circular_def)
  moreover obtain ys zs where "D i = ys @ d # zs" using split_list [OF d(2)] by blast
  ultimately show ?thesis using that d(3) by blast
qed

interpretation fl: page_lists pages_rep "\<lambda>i s. free_lists s i = 0" AddToFreeList
  RemoveFirstFromFreeList page FindPageFromFreeList RemovePageFromFreeList
proof unfold_locales
  fix s P i p ps
  assume rep: "pages_rep s P"
  then obtain D where D: "descs_rep s D P" by (auto simp: pages_rep_def)
  note c = descs_repD(1) [OF D, of i] and m = descs_repD(2) [OF D, of i]
  show "free_lists s i = 0 \<longleftrightarrow> P i = []" using circular_head [OF c] m by auto
  show "pages_rep (AddToFreeList i p s) (P(i := P i @ [p]))"
    using add_rep [OF D] unfolding pages_rep_def by blast
  show "\<exists>d s'. RemoveFirstFromFreeList i s = (d, s') \<and> page s' d = p \<and> pages_rep s' (P(i := ps))"
    if P: "P i = p # ps"
  proof -
    obtain d zs where "D i = d # zs" "page s d = p" "map (page s) zs = ps"
      using m P by (cases "D i") auto
    then show ?thesis using remove_first_rep [OF D] unfolding pages_rep_def by metis
  qed
  show "\<exists>d. FindPageFromFreeList i p s = Some d \<and> d \<noteq> 0
      \<and> pages_rep (RemovePageFromFreeList i d s) (P(i := remove1 p (P i)))"
    if p: "p \<in> set (P i)" "distinct (P i)"
  proof -
    obtain d ys zs where d: "FindPageFromFreeList i p s = Some d" "d \<noteq> 0" "D i = ys @ d # zs" "page s d = p"
      using find_descriptor [OF D p(1)] .
    have "P i = map (page s) ys @ p # map (page s) zs" using m d by simp
    then have "remove1 p (P i) = map (page s) (ys @ zs)" using p(2) by (simp add: remove1_append)
    then show ?thesis using d remove_page_rep [OF D d(3)] unfolding pages_rep_def by auto
  qed
  show "FindPageFromFreeList i p s = Some 0" if "p \<notin> set (P i)"
  proof (cases "D i = []")
    case True
    then show ?thesis using circular_head [OF c] by (simp add: FindPageFromFreeList_def)
  next
    case False
    have "p \<notin> page s ` set (D i)" using that m by (metis set_map)
    then show ?thesis
      using find_page_rep [of s i "[]" "D i" p] c False circular_head [OF c]
      by (auto simp: FindPageFromFreeList_def circular_def hd_or_hd)
  qed
qed

end
