(* ===== verification/Buddy.thy ===== *)
theory Buddy
  imports FrameList
begin

unbundle bit_operations_syntax

text \<open>
  The physical frame allocator, \<open>kernel/kernel/frame_allocator.cc\<close>: one
  \<open>BuddyBlockAllocator\<close> with its two bit vectors and its free lists, and the
  \<open>UserFrameAllocator\<close> that adds allocators as memory runs out. A bit vector is a list of
  32 bit words. Addresses and offsets are \<open>nat\<close>, 0 is \<open>nullptr\<close>; \<open>None\<close> is the use of a
  null descriptor or a failed \<open>ASSERT\<close>. The spin lock of \<open>UserFrameAllocator\<close> makes its
  operations atomic.
\<close>

section \<open>Bits\<close>

definition LargestPowerOf2Divisor :: "nat \<Rightarrow> nat" where
  "LargestPowerOf2Divisor x = nat (int x AND ((- int x) mod 2 ^ 64))"

fun count_trailing_zeros :: "nat \<Rightarrow> nat" where
  "count_trailing_zeros x = (if x = 0 \<or> odd x then 0 else Suc (count_trailing_zeros (x div 2)))"

declare count_trailing_zeros.simps [simp del]

definition LargestPowerOf2DivisorOrder :: "nat \<Rightarrow> nat" where
  "LargestPowerOf2DivisorOrder x = count_trailing_zeros (LargestPowerOf2Divisor x mod 2 ^ 32)"

definition PowerOf2 :: "nat \<Rightarrow> nat" where
  "PowerOf2 x = 2 ^ x"

type_synonym bit_vector = "32 word list"

definition GetBitByIndex :: "bit_vector \<Rightarrow> nat \<Rightarrow> bool" where
  "GetBitByIndex v index = ((v ! (index div 32)) AND push_bit (index mod 32) 1 \<noteq> 0)"

definition FlipBitByIndex :: "bit_vector \<Rightarrow> nat \<Rightarrow> bit_vector" where
  "FlipBitByIndex v index =
     v[index div 32 := (v ! (index div 32)) XOR push_bit (index mod 32) 1]"

section \<open>The buddy allocator\<close>

record buddy =
  start_phys_addr :: nat
  max_order :: nat
  frame_size :: nat
  need_merge :: bit_vector
  block_splitted :: bit_vector
  flists :: frame_lists

definition new_frame_lists :: frame_lists where
  "new_frame_lists = \<lparr>page = (\<lambda>_. 0), dprev = (\<lambda>_. 0), dnext = (\<lambda>_. 0), free_lists = (\<lambda>_. 0), fresh = 1\<rparr>"

definition new_buddy :: "nat \<Rightarrow> nat \<Rightarrow> nat \<Rightarrow> buddy" where
  "new_buddy start order sz =
     (case new_descriptor start new_frame_lists of
        (d, s) \<Rightarrow>
          \<lparr>start_phys_addr = start, max_order = order, frame_size = sz,
           need_merge = replicate (PowerOf2 order - 1) 0,
           block_splitted = replicate (PowerOf2 order - 1) 0,
           flists = set_list order d (dset_next d d (dset_prev d d s))\<rparr>)"

definition frame_size_order :: "buddy \<Rightarrow> nat" where
  "frame_size_order b = LargestPowerOf2DivisorOrder (frame_size b)"

definition GetOffset :: "buddy \<Rightarrow> nat \<Rightarrow> nat" where
  "GetOffset b addr = addr - start_phys_addr b"

definition GetAddrFromOffset :: "buddy \<Rightarrow> nat \<Rightarrow> nat" where
  "GetAddrFromOffset b offset = offset + start_phys_addr b"

definition bit_index :: "nat \<Rightarrow> nat \<Rightarrow> buddy \<Rightarrow> nat" where
  "bit_index offset order b =
     (let chunk_size = frame_size b * PowerOf2 order;
          index_within_layer = offset div chunk_size
      in PowerOf2 (max_order b - order) - 1 + index_within_layer)"

definition FlipNeedMerge :: "nat \<Rightarrow> nat \<Rightarrow> buddy \<Rightarrow> buddy" where
  "FlipNeedMerge offset order b =
     b\<lparr>need_merge := FlipBitByIndex (need_merge b) (bit_index offset order b)\<rparr>"

definition IsBothFreeOrOccupied :: "nat \<Rightarrow> nat \<Rightarrow> buddy \<Rightarrow> bool" where
  "IsBothFreeOrOccupied offset order b \<longleftrightarrow> \<not> GetBitByIndex (need_merge b) (bit_index offset order b)"

definition IsSplitted :: "nat \<Rightarrow> nat \<Rightarrow> buddy \<Rightarrow> bool" where
  "IsSplitted offset order b \<longleftrightarrow> GetBitByIndex (block_splitted b) (bit_index offset order b)"

definition SetSplitted :: "nat \<Rightarrow> nat \<Rightarrow> buddy \<Rightarrow> buddy" where
  "SetSplitted offset order b =
     (let index = bit_index offset order b
      in if \<not> GetBitByIndex (block_splitted b) index then
           b\<lparr>block_splitted := FlipBitByIndex (block_splitted b) index\<rparr>
         else b)"

definition SetMerged :: "nat \<Rightarrow> nat \<Rightarrow> buddy \<Rightarrow> buddy" where
  "SetMerged offset order b =
     (let index = bit_index offset order b
      in if GetBitByIndex (block_splitted b) index then
           b\<lparr>block_splitted := FlipBitByIndex (block_splitted b) index\<rparr>
         else b)"

definition GetChunkStartOffset :: "nat \<Rightarrow> nat \<Rightarrow> buddy \<Rightarrow> nat" where
  "GetChunkStartOffset offset order b =
     (let chunk_size = frame_size b * PowerOf2 order; index_within_layer = offset div chunk_size
      in chunk_size * index_within_layer)"

definition add_free :: "nat \<Rightarrow> nat \<Rightarrow> buddy \<Rightarrow> buddy" where
  "add_free i offset b = b\<lparr>flists := AddToFreeList i (start_phys_addr b + offset) (flists b)\<rparr>"

fun Split :: "nat \<Rightarrow> nat \<Rightarrow> nat \<Rightarrow> buddy \<Rightarrow> buddy" where
  "Split i order offset b =
     (if i > order then
        let b1 = FlipNeedMerge offset i b; b2 = SetSplitted offset i b1
        in Split (i - 1) order offset
             (add_free (i - 1) (offset + frame_size b * PowerOf2 (i - 1)) b2)
      else b)"

declare Split.simps [simp del]

definition GetFrame :: "nat \<Rightarrow> buddy \<Rightarrow> nat \<times> buddy" where
  "GetFrame order b =
     (case List.find (\<lambda>i. free_lists (flists b) i \<noteq> 0) [order ..< max_order b + 1] of
        None \<Rightarrow> (0, b)
      | Some i \<Rightarrow>
          (case RemoveFirstFromFreeList i (flists b) of
             (d, l) \<Rightarrow>
               let addr = page l d; b1 = b\<lparr>flists := l\<rparr>; offset = GetOffset b1 addr
               in if i > order then
                    (addr, Split i order offset
                       (if i < max_order b then FlipNeedMerge offset (i + 1) b1 else b1))
                  else
                    (addr, if order < max_order b then FlipNeedMerge offset (order + 1) b1 else b1)))"

definition MergeChunk :: "nat \<Rightarrow> nat \<Rightarrow> buddy \<Rightarrow> buddy option" where
  "MergeChunk offset order b =
     (let chunk_size = frame_size b * PowerOf2 order;
          index_within_layer = offset div chunk_size;
          chunk_start_offset = chunk_size * index_within_layer;
          other = (if chunk_start_offset \<le> offset \<and> offset < chunk_start_offset + chunk_size div 2
                   then GetAddrFromOffset b (chunk_start_offset + chunk_size div 2)
                   else GetAddrFromOffset b chunk_start_offset)
      in case FindPageFromFreeList (order - 1) other (flists b) of
           None \<Rightarrow> None
         | Some d \<Rightarrow>
             if d = 0 then None
             else let b1 = b\<lparr>flists := RemovePageFromFreeList (order - 1) d (flists b)\<rparr>;
                      b2 = (if order < max_order b then FlipNeedMerge offset (order + 1) b1 else b1)
                  in Some (SetMerged offset order b2))"

lemma MergeChunk_max_order: "MergeChunk offset order b = Some b' \<Longrightarrow> max_order b' = max_order b"
  by (auto simp: MergeChunk_def FlipNeedMerge_def SetMerged_def Let_def split: option.splits if_splits)

function merge_up :: "nat \<Rightarrow> nat \<Rightarrow> buddy \<Rightarrow> (nat \<times> buddy) option" where
  "merge_up offset order b =
     (if order \<le> max_order b then
        if IsBothFreeOrOccupied offset order b then
          (case MergeChunk offset order b of
             None \<Rightarrow> None
           | Some b' \<Rightarrow> merge_up offset (order + 1) b')
        else Some (order, b)
      else Some (order, b))"
  by pat_completeness auto

termination
  by (relation "measure (\<lambda>(offset, order, b). max_order b + 1 - order)")
    (auto dest: MergeChunk_max_order)

declare merge_up.simps [simp del]

definition block_order :: "nat \<Rightarrow> buddy \<Rightarrow> nat" where
  "block_order offset b =
     (let largest = (if offset = 0 then max_order b
                     else LargestPowerOf2DivisorOrder offset - frame_size_order b)
      in case List.find (\<lambda>order. IsSplitted offset order b) [1 ..< largest + 1] of
           None \<Rightarrow> largest
         | Some order \<Rightarrow> order - 1)"

definition FreeFrame :: "nat \<Rightarrow> buddy \<Rightarrow> buddy option" where
  "FreeFrame addr b =
     (let offset = GetOffset b addr;
          order = block_order offset b + 1;
          b1 = (if order \<le> max_order b then FlipNeedMerge offset order b else b)
      in case merge_up offset order b1 of
           None \<Rightarrow> None
         | Some (order', b2) \<Rightarrow>
             Some (add_free (order' - 1) (GetChunkStartOffset offset (order' - 1) b2) b2))"

definition IsEmpty :: "buddy \<Rightarrow> bool" where
  "IsEmpty b \<longleftrightarrow> (\<forall>i \<in> set [0 ..< max_order b]. free_lists (flists b) i = 0)
     \<and> free_lists (flists b) (max_order b) \<noteq> 0"

section \<open>The allocator of physical frames\<close>

definition kAllocatablePhysicalAddrStart :: nat where
  "kAllocatablePhysicalAddrStart = 0x40000000"

definition kSingleAllocatorSize :: nat where
  "kSingleAllocatorSize = 2 ^ 13 * 2 ^ 12"

record frame_allocator =
  allocators :: "buddy list"
  physical_addr_boundary :: nat

definition add_allocator :: "frame_allocator \<Rightarrow> frame_allocator" where
  "add_allocator f =
     f\<lparr>allocators := allocators f @ [new_buddy (physical_addr_boundary f) 13 4096],
       physical_addr_boundary := physical_addr_boundary f + kSingleAllocatorSize\<rparr>"

definition new_frame_allocator :: frame_allocator where
  "new_frame_allocator =
     add_allocator \<lparr>allocators = [], physical_addr_boundary = kAllocatablePhysicalAddrStart\<rparr>"

text \<open>The loop over the allocators: the first that has a frame gives it.\<close>

fun first_frame :: "nat \<Rightarrow> buddy list \<Rightarrow> nat \<times> buddy list" where
  "first_frame order [] = (0, [])"
| "first_frame order (b # bs) =
     (case GetFrame order b of
        (addr, b') \<Rightarrow>
          if addr \<noteq> 0 then (addr, b' # bs)
          else case first_frame order bs of (addr', bs') \<Rightarrow> (addr', b' # bs'))"

definition AllocateFrame :: "nat \<Rightarrow> frame_allocator \<Rightarrow> nat \<times> frame_allocator" where
  "AllocateFrame order f =
     (if order > 13 then (0, f)
      else case first_frame order (allocators f) of
             (addr, bs) \<Rightarrow>
               if addr \<noteq> 0 then (addr, f\<lparr>allocators := bs\<rparr>)
               else let f' = add_allocator (f\<lparr>allocators := bs\<rparr>)
                    in case GetFrame order (last (allocators f')) of
                         (addr', b) \<Rightarrow> (addr', f'\<lparr>allocators := butlast (allocators f') @ [b]\<rparr>))"

definition FreePhysicalFrame :: "nat \<Rightarrow> frame_allocator \<Rightarrow> frame_allocator option" where
  \<comment> \<open>\<open>UserFrameAllocator::FreeFrame\<close>\<close>
  "FreePhysicalFrame addr f =
     (let index = (if kAllocatablePhysicalAddrStart \<le> addr then addr - kAllocatablePhysicalAddrStart
                   else 2 ^ 64 + addr - kAllocatablePhysicalAddrStart) div kSingleAllocatorSize
      in if addr < physical_addr_boundary f \<and> index < length (allocators f) then
           map_option (\<lambda>b. f\<lparr>allocators := (allocators f)[index := b]\<rparr>)
             (FreeFrame addr (allocators f ! index))
         else None)"

end
