(* ===== verification/BuddyTree.thy ===== *)
theory BuddyTree
  imports Prelude
begin

text \<open>
  The tree of blocks behind the buddy allocator, as its bits and lists describe it. Node
  (k, j) is the j-th block of order k below a root of order K; \<open>sp k j\<close> says that it is
  split, \<open>F k\<close> lists the free blocks of order k, and \<open>nm k j\<close> is its need-merge bit. A node
  is in use when its parent is split and it is neither split nor free.
\<close>

section \<open>The invariant\<close>

type_synonym nodes = "nat \<Rightarrow> nat \<Rightarrow> bool"

definition node :: "nat \<Rightarrow> nat \<Rightarrow> nat \<Rightarrow> bool" where
  "node K k j \<longleftrightarrow> k \<le> K \<and> j < 2 ^ (K - k)"

definition parent_split :: "nat \<Rightarrow> nodes \<Rightarrow> nat \<Rightarrow> nat \<Rightarrow> bool" where
  "parent_split K sp k j \<longleftrightarrow> (k < K \<longrightarrow> sp (k + 1) (j div 2))"

definition tree_inv :: "nat \<Rightarrow> nodes \<Rightarrow> nodes \<Rightarrow> (nat \<Rightarrow> nat list) \<Rightarrow> bool" where
  "tree_inv K sp nm F \<longleftrightarrow>
     (\<forall>k j. sp k j \<longrightarrow> 0 < k \<and> node K k j \<and> parent_split K sp k j)
   \<and> (\<forall>k j. j \<in> set (F k) \<longrightarrow> node K k j \<and> \<not> sp k j \<and> parent_split K sp k j)
   \<and> (\<forall>k. distinct (F k))
   \<and> (\<forall>k j. node K (k + 1) j \<longrightarrow> nm (k + 1) j = ((2 * j \<in> set (F k)) \<noteq> (2 * j + 1 \<in> set (F k))))
   \<and> (\<forall>k j. \<not> (2 * j \<in> set (F k) \<and> 2 * j + 1 \<in> set (F k)))"

definition used :: "nat \<Rightarrow> nodes \<Rightarrow> (nat \<Rightarrow> nat list) \<Rightarrow> (nat \<times> nat) set" where
  "used K sp F = {(k, j). node K k j \<and> parent_split K sp k j \<and> \<not> sp k j \<and> j \<notin> set (F k)}"

lemma tree_invD:
  assumes "tree_inv K sp nm F"
  shows "sp k j \<Longrightarrow> 0 < k \<and> node K k j \<and> parent_split K sp k j"
    "j \<in> set (F k) \<Longrightarrow> node K k j \<and> \<not> sp k j \<and> parent_split K sp k j"
    "distinct (F k)"
    "node K (k + 1) j \<Longrightarrow> nm (k + 1) j = ((2 * j \<in> set (F k)) \<noteq> (2 * j + 1 \<in> set (F k)))"
    "\<not> (2 * j \<in> set (F k) \<and> 2 * j + 1 \<in> set (F k))"
  using assms unfolding tree_inv_def by blast+

lemma node_parent: "node K k j \<Longrightarrow> k < K \<Longrightarrow> node K (k + 1) (j div 2)"
proof -
  assume "node K k j" "k < K"
  then have "j < 2 * 2 ^ (K - Suc k)" by (simp add: node_def Suc_diff_Suc flip: power_Suc)
  then show ?thesis using \<open>k < K\<close> by (simp add: node_def)
qed

lemma node_children: "node K (k + 1) j \<Longrightarrow> node K k (2 * j) \<and> node K k (2 * j + 1)"
proof -
  assume n: "node K (k + 1) j"
  then have "(2 :: nat) ^ (K - k) = 2 * 2 ^ (K - (k + 1))" by (simp add: node_def Suc_diff_Suc flip: power_Suc)
  then show ?thesis using n by (simp add: node_def)
qed

text \<open>The other half of the parent.\<close>

definition sibling :: "nat \<Rightarrow> nat" where
  "sibling j = (if even j then j + 1 else j - 1)"

lemma sibling_simps [simp]:
  "sibling j div 2 = j div 2" "sibling j \<noteq> j" "sibling (sibling j) = j"
  "sibling (2 * i) = 2 * i + 1" "sibling (Suc (2 * i)) = 2 * i"
  by (auto simp: sibling_def elim!: evenE oddE)

lemma sibling_eq [simp]:
  "sibling x = sibling y \<longleftrightarrow> x = y" "sibling x = Suc (2 * i) \<longleftrightarrow> x = 2 * i" "sibling x = 2 * i \<longleftrightarrow> x = Suc (2 * i)"
  by (metis sibling_simps(3-5))+

lemma child_cases: "x div 2 = y div 2 \<longleftrightarrow> x = y \<or> x = sibling y"
  by (cases "even x"; cases "even y") (auto simp: sibling_def elim!: evenE oddE)

lemma tree_inv_nm: "tree_inv K sp nm F \<Longrightarrow> node K k j \<Longrightarrow> k < K \<Longrightarrow>
    nm (k + 1) (j div 2) = ((j \<in> set (F k)) \<noteq> (sibling j \<in> set (F k)))"
  using tree_invD(4) [of K sp nm F k "j div 2"] node_parent [of K k j]
  by (cases "even j") (auto simp: sibling_def elim!: evenE oddE)

lemma tree_inv_one: "tree_inv K sp nm F \<Longrightarrow> j \<in> set (F k) \<Longrightarrow> sibling j \<notin> set (F k)"
  using tree_invD(5) [of K sp nm F "j div 2" k]
  by (cases "even j") (auto simp: sibling_def elim!: evenE oddE)

lemma tree_invI:
  assumes "\<And>k j. sp k j \<Longrightarrow> 0 < k \<and> node K k j \<and> parent_split K sp k j"
    "\<And>k j. j \<in> set (F k) \<Longrightarrow> node K k j \<and> \<not> sp k j \<and> parent_split K sp k j"
    "\<And>k. distinct (F k)"
    "\<And>k j. node K k j \<Longrightarrow> k < K \<Longrightarrow> nm (k + 1) (j div 2) = ((j \<in> set (F k)) \<noteq> (sibling j \<in> set (F k)))"
    "\<And>k j. j \<in> set (F k) \<Longrightarrow> sibling j \<notin> set (F k)"
  shows "tree_inv K sp nm F"
proof -
  have "nm (k + 1) j = ((2 * j \<in> set (F k)) \<noteq> (2 * j + 1 \<in> set (F k)))" if "node K (k + 1) j" for k j
  proof -
    have "k < K" using that by (simp add: node_def)
    then show ?thesis using assms(4) [of k "2 * j"] node_children [OF that] by simp
  qed
  moreover have "\<not> (2 * j \<in> set (F k) \<and> 2 * j + 1 \<in> set (F k))" for k j
    using assms(5) [of "2 * j" k] by auto
  ultimately show ?thesis unfolding tree_inv_def using assms(1-3) by blast
qed

section \<open>Changes of one node\<close>

definition upd2 :: "nodes \<Rightarrow> nat \<Rightarrow> nat \<Rightarrow> bool \<Rightarrow> nodes" where
  "upd2 f k j v = (\<lambda>k' j'. if k' = k \<and> j' = j then v else f k' j')"

definition flip2 :: "nodes \<Rightarrow> nat \<Rightarrow> nat \<Rightarrow> nodes" where
  "flip2 f k j = (\<lambda>k' j'. if k' = k \<and> j' = j then \<not> f k' j' else f k' j')"

lemma upd2_apply [simp]: "upd2 f k j v k' j' = (if k' = k \<and> j' = j then v else f k' j')"
  by (simp add: upd2_def)

lemma flip2_apply [simp]: "flip2 f k j k' j' = (if k' = k \<and> j' = j then \<not> f k' j' else f k' j')"
  by (simp add: flip2_def)

lemma flip2_flip2 [simp]: "flip2 (flip2 f k j) k j = f"
  by (simp add: fun_eq_iff)

text \<open>A free block is taken, or a block in use becomes free: the parent's bit flips.\<close>

lemma taken_inv:
  assumes inv: "tree_inv K sp nm F" and j: "j \<in> set (F k)"
  shows "tree_inv K sp (if k < K then flip2 nm (k + 1) (j div 2) else nm) (F(k := remove1 j (F k)))"
    "used K sp (F(k := remove1 j (F k))) = insert (k, j) (used K sp F)" "(k, j) \<notin> used K sp F"
proof -
  note d = tree_invD [OF inv]
  have s: "set (remove1 j (F k)) = set (F k) - {j}" using d(3) by (simp add: set_remove1_eq)
  have n: "node K k j" using d(2) j by blast
  show "tree_inv K sp (if k < K then flip2 nm (k + 1) (j div 2) else nm) (F(k := remove1 j (F k)))"
  proof (rule tree_invI)
    show "(if k < K then flip2 nm (k + 1) (j div 2) else nm) (k' + 1) (j' div 2)
        = ((j' \<in> set ((F(k := remove1 j (F k))) k')) \<noteq> (sibling j' \<in> set ((F(k := remove1 j (F k))) k')))"
      if "node K k' j'" "k' < K" for k' j'
      using tree_inv_nm [OF inv that] that child_cases [of j' j] tree_inv_one [OF inv j] j
      by (auto simp: s)
    show "sibling j' \<notin> set ((F(k := remove1 j (F k))) k')" if "j' \<in> set ((F(k := remove1 j (F k))) k')" for k' j'
      using that tree_inv_one [OF inv, of j' k'] by (auto simp: s split: if_splits)
  qed (use d in \<open>auto simp: s split: if_splits\<close>)
  show "used K sp (F(k := remove1 j (F k))) = insert (k, j) (used K sp F)"
    using d(2) [OF j] by (auto simp: used_def s split: if_splits)
  show "(k, j) \<notin> used K sp F" using j by (simp add: used_def)
qed

lemma give_inv:
  assumes inv: "tree_inv K sp nm F" and j: "(k, j) \<in> used K sp F"
    and sib: "k < K \<Longrightarrow> sibling j \<notin> set (F k)"
  shows "tree_inv K sp (if k < K then flip2 nm (k + 1) (j div 2) else nm) (F(k := F k @ [j]))"
    "used K sp (F(k := F k @ [j])) = used K sp F - {(k, j)}"
proof -
  note d = tree_invD [OF inv]
  have n: "node K k j" "parent_split K sp k j" "\<not> sp k j" "j \<notin> set (F k)" using j by (auto simp: used_def)
  have sib': "sibling j \<notin> set (F k)"
  proof (cases "k < K")
    case False
    then have "j = 0" "k = K" using n by (auto simp: node_def)
    then show ?thesis using d(2) [of 1 K] by (auto simp: node_def sibling_def)
  qed (use sib in blast)
  show "tree_inv K sp (if k < K then flip2 nm (k + 1) (j div 2) else nm) (F(k := F k @ [j]))"
  proof (rule tree_invI)
    show "(if k < K then flip2 nm (k + 1) (j div 2) else nm) (k' + 1) (j' div 2)
        = ((j' \<in> set ((F(k := F k @ [j])) k')) \<noteq> (sibling j' \<in> set ((F(k := F k @ [j])) k')))"
      if "node K k' j'" "k' < K" for k' j'
      using tree_inv_nm [OF inv that] that child_cases [of j' j] n sib' by auto
    show "sibling j' \<notin> set ((F(k := F k @ [j])) k')" if "j' \<in> set ((F(k := F k @ [j])) k')" for k' j'
      using that tree_inv_one [OF inv, of j' k'] sib' by (auto split: if_splits)
  qed (use d n in \<open>auto split: if_splits\<close>)
  show "used K sp (F(k := F k @ [j])) = used K sp F - {(k, j)}"
    by (auto simp: used_def split: if_splits)
qed

text \<open>A block in use is split, its right half free; two halves, one in use and one free, become
  a block in use.\<close>

lemma split_inv:
  assumes inv: "tree_inv K sp nm F" and j: "(i + 1, j) \<in> used K sp F"
  shows "tree_inv K (upd2 sp (i + 1) j True) (flip2 nm (i + 1) j) (F(i := F i @ [2 * j + 1]))"
    "used K (upd2 sp (i + 1) j True) (F(i := F i @ [2 * j + 1]))
      = insert (i, 2 * j) (used K sp F - {(i + 1, j)})"
proof -
  note d = tree_invD [OF inv]
  let ?sp = "upd2 sp (i + 1) j True" and ?F = "F(i := F i @ [2 * j + 1])"
  have n: "node K (i + 1) j" "parent_split K sp (i + 1) j" "\<not> sp (i + 1) j" "j \<notin> set (F (i + 1))"
    using j by (auto simp: used_def)
  have iK: "i < K" using n(1) by (simp add: node_def)
  have c: "\<not> sp i x" "x \<notin> set (F i)" if "x div 2 = j" for x
    using d(1) [of i x] d(2) [of x i] n(3) that iK by (auto simp: parent_split_def)
  have ch: "node K i (2 * j)" "node K i (2 * j + 1)" using node_children [OF n(1)] by simp_all
  have ps: "parent_split K sp k' j' \<Longrightarrow> parent_split K ?sp k' j'" for k' j'
    by (simp add: parent_split_def)
  show "tree_inv K ?sp (flip2 nm (i + 1) j) ?F"
  proof (rule tree_invI)
    show "0 < k' \<and> node K k' j' \<and> parent_split K ?sp k' j'" if "?sp k' j'" for k' j'
      using that d(1) [of k' j'] n ps by (auto split: if_splits)
    show "node K k' j' \<and> \<not> ?sp k' j' \<and> parent_split K ?sp k' j'" if j': "j' \<in> set (?F k')" for k' j'
    proof (cases "k' = i \<and> j' = 2 * j + 1")
      case True
      then show ?thesis using ch(2) c(1) [of "2 * j + 1"] by (simp add: parent_split_def)
    next
      case False
      then have "j' \<in> set (F k')" using j' by (auto split: if_splits)
      then show ?thesis using d(2) [of j' k'] ps n(4) by auto
    qed
    show "distinct (?F k')" for k' using d(3) [of k'] d(3) [of i] c(2) [of "2 * j + 1"] by simp
    show "flip2 nm (i + 1) j (k' + 1) (j' div 2) = ((j' \<in> set (?F k')) \<noteq> (sibling j' \<in> set (?F k')))"
      if "node K k' j'" "k' < K" for k' j'
      using tree_inv_nm [OF inv that] c(2) [of j'] c(2) [of "sibling j'"] child_cases [of j' "2 * j + 1"]
      by auto
    show "sibling j' \<notin> set (?F k')" if "j' \<in> set (?F k')" for k' j'
      using that tree_inv_one [OF inv, of j' k'] c(2) [of "2 * j"] c(2) [of "sibling j'"]
      by (auto split: if_splits)
  qed
  show "used K ?sp ?F = insert (i, 2 * j) (used K sp F - {(i + 1, j)})"
  proof (rule set_eqI)
    fix x :: "nat \<times> nat"
    obtain k' j' where x: "x = (k', j')" by (cases x)
    consider "k' = i" "j' div 2 = j" | "k' = i + 1" "j' = j" | "\<not> (k' = i \<and> j' div 2 = j)" "\<not> (k' = i + 1 \<and> j' = j)"
      by blast
    then show "x \<in> used K ?sp ?F \<longleftrightarrow> x \<in> insert (i, 2 * j) (used K sp F - {(i + 1, j)})"
    proof cases
      case 1
      then have "j' = 2 * j \<or> j' = 2 * j + 1" by (metis child_cases nonzero_mult_div_cancel_left sibling_simps(4) zero_neq_numeral)
      then show ?thesis
        using 1 x c [of j'] ch n(3) iK by (auto simp: used_def parent_split_def)
    next
      case 2
      then show ?thesis using x by (simp add: used_def)
    next
      case 3
      have "parent_split K ?sp k' j' = parent_split K sp k' j'" using 3 by (auto simp: parent_split_def)
      then show ?thesis using 3 x by (auto simp: used_def)
    qed
  qed
qed

lemma merge_inv:
  assumes inv: "tree_inv K sp nm F" and j: "(k, j) \<in> used K sp F" and k: "k < K"
    and sib: "sibling j \<in> set (F k)"
  shows "tree_inv K (upd2 sp (k + 1) (j div 2) False) (flip2 nm (k + 1) (j div 2))
      (F(k := remove1 (sibling j) (F k)))"
    "used K (upd2 sp (k + 1) (j div 2) False) (F(k := remove1 (sibling j) (F k)))
      = insert (k + 1, j div 2) (used K sp F - {(k, j)})"
proof -
  note d = tree_invD [OF inv]
  let ?p = "j div 2"
  let ?sp = "upd2 sp (k + 1) ?p False" and ?F = "F(k := remove1 (sibling j) (F k))"
  have s: "set (remove1 (sibling j) (F k)) = set (F k) - {sibling j}" using d(3) by (simp add: set_remove1_eq)
  have n: "node K k j" "sp (k + 1) ?p" "\<not> sp k j" "j \<notin> set (F k)"
    using j k by (auto simp: used_def parent_split_def)
  have p: "node K (k + 1) ?p" "parent_split K sp (k + 1) ?p" "?p \<notin> set (F (k + 1))"
    using d(1) [OF n(2)] d(2) [of ?p "k + 1"] n(2) by auto
  have c: "\<not> sp k x" "x \<notin> set (?F k)" if "x div 2 = ?p" for x
    using that child_cases [of x j] n d(2) [OF sib] by (auto simp: s)
  have ps: "parent_split K ?sp k' j'" if "parent_split K sp k' j'" "\<not> (k' = k \<and> j' div 2 = ?p)" for k' j'
    using that by (auto simp: parent_split_def)
  show "tree_inv K ?sp (flip2 nm (k + 1) ?p) ?F"
  proof (rule tree_invI)
    show "0 < k' \<and> node K k' j' \<and> parent_split K ?sp k' j'" if "?sp k' j'" for k' j'
      using that d(1) [of k' j'] ps c(1) [of j'] by (auto split: if_splits)
    show "node K k' j' \<and> \<not> ?sp k' j' \<and> parent_split K ?sp k' j'" if j': "j' \<in> set (?F k')" for k' j'
    proof -
      have "j' \<in> set (F k')" using j' by (auto simp: s split: if_splits)
      moreover have "\<not> (k' = k \<and> j' div 2 = ?p)" using j' c(2) by auto
      ultimately show ?thesis using d(2) [of j' k'] ps by auto
    qed
    show "distinct (?F k')" for k' using d(3) [of k'] d(3) [of k] by simp
    show "flip2 nm (k + 1) ?p (k' + 1) (j' div 2) = ((j' \<in> set (?F k')) \<noteq> (sibling j' \<in> set (?F k')))"
      if "node K k' j'" "k' < K" for k' j'
    proof (cases "k' = k \<and> j' div 2 = ?p")
      case True
      then have "j' = j \<or> j' = sibling j" using child_cases by blast
      then show ?thesis using True tree_inv_nm [OF inv that] n sib by (auto simp: s)
    next
      case False
      then have "j' \<noteq> sibling j \<and> sibling j' \<noteq> sibling j \<or> k' \<noteq> k" by auto
      then show ?thesis using False tree_inv_nm [OF inv that] by (auto simp: s)
    qed
    show "sibling j' \<notin> set (?F k')" if "j' \<in> set (?F k')" for k' j'
      using that tree_inv_one [OF inv, of j' k'] by (auto simp: s split: if_splits)
  qed
  show "used K ?sp ?F = insert (k + 1, ?p) (used K sp F - {(k, j)})"
  proof (rule set_eqI)
    fix x :: "nat \<times> nat"
    obtain k' j' where x: "x = (k', j')" by (cases x)
    consider "k' = k" "j' div 2 = ?p" | "k' = k + 1" "j' = ?p" | "\<not> (k' = k \<and> j' div 2 = ?p)" "\<not> (k' = k + 1 \<and> j' = ?p)"
      by blast
    then show "x \<in> used K ?sp ?F \<longleftrightarrow> x \<in> insert (k + 1, ?p) (used K sp F - {(k, j)})"
    proof cases
      case 1
      then have "j' = j \<or> j' = sibling j" using child_cases by blast
      then show ?thesis using 1 x k sib by (auto simp: used_def parent_split_def)
    next
      case 2
      then show ?thesis using x p by (simp add: used_def parent_split_def)
    next
      case 3
      have "parent_split K ?sp k' j' = parent_split K sp k' j'" using 3 by (auto simp: parent_split_def)
      then show ?thesis using 3 x by (auto simp: used_def s)
    qed
  qed
qed

section \<open>Blocks\<close>

text \<open>The units of a block, in units of the smallest block.\<close>

definition units :: "nat \<times> nat \<Rightarrow> nat set" where
  "units b = (case b of (k, j) \<Rightarrow> {j * 2 ^ k ..< (j + 1) * 2 ^ k})"

lemma units_iff: "x \<in> units (k, j) \<longleftrightarrow> x div 2 ^ k = j"
proof
  assume "x \<in> units (k, j)"
  then show "x div 2 ^ k = j" by (intro div_nat_eqI) (auto simp: units_def algebra_simps)
next
  assume "x div 2 ^ k = j"
  then show "x \<in> units (k, j)"
    using dividend_less_div_times [of "2 ^ k" x] div_times_less_eq_dividend [of x "2 ^ k"]
    by (auto simp: units_def algebra_simps)
qed

lemma sub_units: "k \<le> i \<Longrightarrow> units (k, j * 2 ^ (i - k)) \<subseteq> units (i, j)"
proof
  fix x
  assume "k \<le> i" "x \<in> units (k, j * 2 ^ (i - k))"
  then have "x div 2 ^ k div 2 ^ (i - k) = j" by (simp add: units_iff)
  moreover have "(2 :: nat) ^ i = 2 ^ k * 2 ^ (i - k)" using \<open>k \<le> i\<close> by (simp flip: power_add)
  ultimately show "x \<in> units (i, j)" by (simp add: units_iff div_mult2_eq)
qed

lemma units_not_empty: "units b \<noteq> {}"
  by (cases b) (simp add: units_def)

lemma split_up:
  assumes inv: "tree_inv K sp nm F" and "parent_split K sp k j" "k < k'" "k' \<le> K"
  shows "sp k' (j div 2 ^ (k' - k))"
  using assms(3,4)
proof (induction "k' - k" arbitrary: k')
  case (Suc n)
  show ?case
  proof (cases "k' = k + 1")
    case True
    then show ?thesis using assms(2) Suc.prems by (simp add: parent_split_def)
  next
    case False
    then obtain m where m: "k' = Suc m" "k < m" using Suc.prems by (cases k') auto
    have "sp m (j div 2 ^ (m - k))" by (rule Suc.hyps(1)) (use Suc.hyps(2) Suc.prems m in auto)
    then have "sp (m + 1) (j div 2 ^ (m - k) div 2)"
      using tree_invD(1) [OF inv] Suc.prems m by (auto simp: parent_split_def)
    moreover have "k' - k = m - k + 1" using m by simp
    moreover have "j div 2 ^ (m - k) div 2 = j div 2 ^ (m - k + 1)" by (simp add: div_mult2_eq [symmetric] mult.commute)
    ultimately show ?thesis using m by simp
  qed
qed simp

text \<open>Blocks in use do not overlap, and with none in use one free block is left.\<close>

lemma used_apart_less:
  assumes inv: "tree_inv K sp nm F" and b: "(k, j) \<in> used K sp F" "(k', j') \<in> used K sp F" and less: "k < k'"
  shows "units (k, j) \<inter> units (k', j') = {}"
proof -
  have "x div 2 ^ k' \<noteq> j'" if "x div 2 ^ k = j" for x
  proof
    assume "x div 2 ^ k' = j'"
    moreover have "(2 :: nat) ^ k' = 2 ^ k * 2 ^ (k' - k)" using less by (simp flip: power_add)
    ultimately have "j div 2 ^ (k' - k) = j'" using that by (simp add: div_mult2_eq)
    moreover have "sp k' (j div 2 ^ (k' - k))"
      by (rule split_up [OF inv _ less]) (use b in \<open>auto simp: used_def node_def\<close>)
    ultimately show False using b(2) by (auto simp: used_def)
  qed
  then show ?thesis by (auto simp: units_iff)
qed

lemma used_apart:
  assumes inv: "tree_inv K sp nm F" and "b \<in> used K sp F" "b' \<in> used K sp F" "b \<noteq> b'"
  shows "units b \<inter> units b' = {}"
proof -
  obtain k j k' j' where b: "b = (k, j)" "b' = (k', j')" by (cases b, cases b')
  consider "k < k'" | "k' < k" | "k = k'" by linarith
  then show ?thesis
  proof cases
    case 1
    then show ?thesis using used_apart_less [OF inv] assms b by blast
  next
    case 2
    then show ?thesis using used_apart_less [OF inv, of k' j' k j] assms b by blast
  next
    case 3
    then show ?thesis using assms(4) b by (auto simp: units_iff)
  qed
qed

lemma used_no_sub:
  assumes inv: "tree_inv K sp nm F" and "(i, j) \<in> used K sp F" "k \<le> i" "(k, j * 2 ^ (i - k)) \<noteq> (i, j)"
  shows "(k, j * 2 ^ (i - k)) \<notin> used K sp F"
  using used_apart [OF inv _ assms(2,4)] sub_units [OF assms(3), of j] units_not_empty by blast

lemma all_free:
  assumes inv: "tree_inv K sp nm F" and none: "used K sp F = {}"
  shows "F K = [0]" "k \<noteq> K \<Longrightarrow> F k = []"
proof -
  note d = tree_invD [OF inv]
  have no_split: "\<not> sp k j" for k j
  proof (induction k arbitrary: j)
    case 0
    then show ?case using d(1) [of 0 j] by auto
  next
    case (Suc k)
    show ?case
    proof
      assume sp: "sp (Suc k) j"
      then have n: "node K (k + 1) j" using d(1) by auto
      have "x \<in> set (F k)" if "x div 2 = j" "node K k x" for x
      proof (rule ccontr)
        assume "x \<notin> set (F k)"
        then have "(k, x) \<in> used K sp F" using that sp Suc by (auto simp: used_def parent_split_def)
        then show False using none by simp
      qed
      then have "2 * j \<in> set (F k)" "2 * j + 1 \<in> set (F k)" using node_children [OF n] by auto
      then show False using d(5) [of j k] by blast
    qed
  qed
  show "k \<noteq> K \<Longrightarrow> F k = []"
    using d(2) [of "hd (F k)" k] no_split by (cases "F k") (auto simp: node_def parent_split_def)
  have "(K, 0) \<notin> used K sp F" using none by simp
  then have "0 \<in> set (F K)" using no_split by (auto simp: used_def node_def parent_split_def)
  moreover have "x = 0" if "x \<in> set (F K)" for x using d(2) [OF that] by (simp add: node_def)
  ultimately have "set (F K) = {0}" by auto
  then show "F K = [0]" using d(3) [of K] by (cases "F K" rule: list.exhaust) (auto simp: subset_singleton_iff)
qed

end
