(* ===== verification/BuddyRep.thy ===== *)
theory BuddyRep
  imports Buddy BuddyTree
begin

text \<open>
  The bits and lists of a \<open>BuddyBlockAllocator\<close> as a tree of blocks: what each accessor of the
  bit vectors reads and writes, and what the operations of the free lists do to the free
  blocks of an order. The lists are reached through the facts of \<open>page_lists\<close>, \<open>fl\<close>.
\<close>

section \<open>Bit vectors\<close>

lemma GetBitByIndex_bit: "GetBitByIndex v i = bit (v ! (i div 32)) (i mod 32)"
  by (simp add: GetBitByIndex_def bit_iff_and_push_bit_not_eq_0)

lemma FlipBitByIndex_length [simp]: "length (FlipBitByIndex v i) = length v"
  by (simp add: FlipBitByIndex_def)

lemma GetBit_FlipBit:
  assumes "i < length v"
  shows "GetBitByIndex (FlipBitByIndex v i) i' = (if i = i' then \<not> GetBitByIndex v i' else GetBitByIndex v i')"
proof -
  have i: "i div 32 < length v" using assms by (meson div_le_dividend le_less_trans)
  show ?thesis
  proof (cases "i div 32 = i' div 32")
    case True
    then have "i = i' \<longleftrightarrow> i mod 32 = i' mod 32" by (metis mod_div_mult_eq)
    then show ?thesis using i True
      by (auto simp: GetBitByIndex_bit FlipBitByIndex_def bit_xor_iff bit_exp_iff possible_bit_def)
  next
    case False
    then show ?thesis by (auto simp: GetBitByIndex_bit FlipBitByIndex_def)
  qed
qed

text \<open>The bits of a level follow those of the level above.\<close>

definition node_index :: "nat \<Rightarrow> nat \<Rightarrow> nat \<Rightarrow> nat" where
  "node_index K k j = 2 ^ (K - k) - 1 + j"

lemma pow2_Suc: "\<exists>p. (2 :: nat) ^ n = Suc p"
  by (intro not0_implies_Suc) simp

lemma node_index_lt: "node K k j \<Longrightarrow> 0 < k \<Longrightarrow> node_index K k j < 2 ^ K - 1"
proof -
  assume n: "node K k j" "0 < k"
  then have "(2 :: nat) ^ (K - k) * 2 \<le> 2 ^ K"
  proof -
    have "Suc (K - k) \<le> K" using n by (simp add: node_def) linarith
    then show ?thesis using power_increasing [of "Suc (K - k)" K "2 :: nat"] by simp
  qed
  moreover obtain p where "(2 :: nat) ^ (K - k) = Suc p" using pow2_Suc by blast
  ultimately show ?thesis using n unfolding node_def node_index_def by auto
qed

lemma node_index_less:
  assumes "node K k j" "node K k' j'" "k' < k"
  shows "node_index K k j < node_index K k' j'"
proof -
  have "(2 :: nat) ^ (K - k) * 2 \<le> 2 ^ (K - k')"
  proof -
    have "Suc (K - k) \<le> K - k'" using assms by (simp add: node_def) linarith
    then show ?thesis using power_increasing [of "Suc (K - k)" "K - k'" "2 :: nat"] by simp
  qed
  moreover obtain p where "(2 :: nat) ^ (K - k) = Suc p" using pow2_Suc by blast
  ultimately show ?thesis using assms(1) unfolding node_def node_index_def by auto
qed

lemma node_index_eq:
  assumes "node K k j" "node K k' j'"
  shows "node_index K k j = node_index K k' j' \<longleftrightarrow> k = k' \<and> j = j'"
proof -
  obtain p where "(2 :: nat) ^ (K - k) = Suc p" using pow2_Suc by blast
  then show ?thesis
    using node_index_less [OF assms] node_index_less [OF assms(2,1)]
    by (cases k k' rule: linorder_cases) (auto simp: node_index_def)
qed

section \<open>The tree of an allocator\<close>

definition sp_of :: "buddy \<Rightarrow> nodes" where
  "sp_of b k j \<longleftrightarrow> 0 < k \<and> node (max_order b) k j
     \<and> GetBitByIndex (block_splitted b) (node_index (max_order b) k j)"

definition nm_of :: "buddy \<Rightarrow> nodes" where
  "nm_of b k j \<longleftrightarrow> 0 < k \<and> node (max_order b) k j
     \<and> GetBitByIndex (need_merge b) (node_index (max_order b) k j)"

definition addr_of :: "buddy \<Rightarrow> nat \<Rightarrow> nat \<Rightarrow> nat" where
  "addr_of b k j = start_phys_addr b + j * (frame_size b * 2 ^ k)"

definition shape_ok :: "buddy \<Rightarrow> bool" where
  \<comment> \<open>frames of a power of two bytes, all offsets in 32 bits, one bit per inner node\<close>
  "shape_ok b \<longleftrightarrow> 0 < start_phys_addr b
     \<and> frame_size b = 2 ^ frame_size_order b \<and> frame_size b * 2 ^ max_order b \<le> 2 ^ 32
     \<and> length (need_merge b) = 2 ^ max_order b - 1 \<and> length (block_splitted b) = 2 ^ max_order b - 1"

definition lists_ok :: "buddy \<Rightarrow> (nat \<Rightarrow> nat list) \<Rightarrow> bool" where
  "lists_ok b F \<longleftrightarrow> pages_rep (flists b) (\<lambda>k. map (addr_of b k) (F k))"

definition same_shape :: "buddy \<Rightarrow> buddy \<Rightarrow> bool" where
  "same_shape b b' \<longleftrightarrow> start_phys_addr b' = start_phys_addr b \<and> max_order b' = max_order b
     \<and> frame_size b' = frame_size b
     \<and> length (need_merge b') = length (need_merge b) \<and> length (block_splitted b') = length (block_splitted b)"

lemma same_shape_refl [simp]: "same_shape b b"
  by (simp add: same_shape_def)

lemma same_shape_trans: "same_shape a b \<Longrightarrow> same_shape b c \<Longrightarrow> same_shape a c"
  by (simp add: same_shape_def)

lemma same_shapeD:
  assumes "same_shape b b'"
  shows "shape_ok b \<Longrightarrow> shape_ok b'" "addr_of b' = addr_of b" "max_order b' = max_order b"
    "frame_size b' = frame_size b" "start_phys_addr b' = start_phys_addr b" "bit_index o' k b' = bit_index o' k b"
    "frame_size_order b' = frame_size_order b"
  using assms by (auto simp: same_shape_def shape_ok_def addr_of_def fun_eq_iff bit_index_def frame_size_order_def)

lemma shape_pos: "shape_ok b \<Longrightarrow> 0 < frame_size b"
  by (simp add: shape_ok_def)

lemma shape_ops:
  "same_shape b (FlipNeedMerge x k b)" "same_shape b (SetSplitted x k b)" "same_shape b (SetMerged x k b)"
  "same_shape b (add_free k x b)" "same_shape b (b\<lparr>flists := l\<rparr>)"
  by (simp_all add: same_shape_def FlipNeedMerge_def SetSplitted_def SetMerged_def add_free_def Let_def)

lemma flists_ops [simp]:
  "flists (FlipNeedMerge x k b) = flists b" "flists (SetSplitted x k b) = flists b"
  "flists (SetMerged x k b) = flists b"
  by (simp_all add: FlipNeedMerge_def SetSplitted_def SetMerged_def Let_def)

lemma frame_size_ops [simp]:
  "frame_size (FlipNeedMerge x k b) = frame_size b" "frame_size (SetSplitted x k b) = frame_size b"
  "frame_size (SetMerged x k b) = frame_size b" "frame_size (add_free k x b) = frame_size b"
  by (simp_all add: FlipNeedMerge_def SetSplitted_def SetMerged_def add_free_def Let_def)

text \<open>An offset inside a block picks the block's bit.\<close>

definition at :: "nat \<Rightarrow> nat \<Rightarrow> nat \<Rightarrow> buddy \<Rightarrow> bool" where
  \<comment> \<open>offset x lies in node (k, j)\<close>
  "at x k j b \<longleftrightarrow> 0 < k \<and> node (max_order b) k j \<and> x div (frame_size b * 2 ^ k) = j"

lemma bit_index_at: "at x k j b \<Longrightarrow> bit_index x k b = node_index (max_order b) k j"
  by (simp add: at_def bit_index_def node_index_def PowerOf2_def)

lemma FlipNeedMerge_at:
  assumes "at x k j b" "shape_ok b"
  shows "nm_of (FlipNeedMerge x k b) = flip2 (nm_of b) k j" "sp_of (FlipNeedMerge x k b) = sp_of b"
proof -
  have n: "node (max_order b) k j" "0 < k" using assms(1) by (simp_all add: at_def)
  have "node_index (max_order b) k j < length (need_merge b)"
    using node_index_lt [OF n] assms(2) by (simp add: shape_ok_def)
  note g = GetBit_FlipBit [OF this]
  show "nm_of (FlipNeedMerge x k b) = flip2 (nm_of b) k j"
  proof (intro ext)
    fix k' j'
    show "nm_of (FlipNeedMerge x k b) k' j' = flip2 (nm_of b) k j k' j'"
      using n node_index_eq [OF n(1), of k' j']
      by (auto simp: nm_of_def FlipNeedMerge_def bit_index_at [OF assms(1)] g)
  qed
  show "sp_of (FlipNeedMerge x k b) = sp_of b"
    by (simp add: fun_eq_iff sp_of_def FlipNeedMerge_def)
qed

lemma set_split_at:
  assumes "at x k j b" "shape_ok b"
  shows "sp_of (SetSplitted x k b) = upd2 (sp_of b) k j True" "nm_of (SetSplitted x k b) = nm_of b"
    "sp_of (SetMerged x k b) = upd2 (sp_of b) k j False" "nm_of (SetMerged x k b) = nm_of b"
    "IsSplitted x k b = sp_of b k j" "IsBothFreeOrOccupied x k b = (\<not> nm_of b k j)"
proof -
  have n: "node (max_order b) k j" "0 < k" using assms(1) by (simp_all add: at_def)
  have "node_index (max_order b) k j < length (block_splitted b)"
    using node_index_lt [OF n] assms(2) by (simp add: shape_ok_def)
  note g = GetBit_FlipBit [OF this]
  show "sp_of (SetSplitted x k b) = upd2 (sp_of b) k j True"
  proof (intro ext)
    fix k' j'
    show "sp_of (SetSplitted x k b) k' j' = upd2 (sp_of b) k j True k' j'"
      using n node_index_eq [OF n(1), of k' j']
      by (auto simp: sp_of_def SetSplitted_def bit_index_at [OF assms(1)] g Let_def)
  qed
  show "sp_of (SetMerged x k b) = upd2 (sp_of b) k j False"
  proof (intro ext)
    fix k' j'
    show "sp_of (SetMerged x k b) k' j' = upd2 (sp_of b) k j False k' j'"
      using n node_index_eq [OF n(1), of k' j']
      by (auto simp: sp_of_def SetMerged_def bit_index_at [OF assms(1)] g Let_def)
  qed
  show "nm_of (SetSplitted x k b) = nm_of b" "nm_of (SetMerged x k b) = nm_of b"
    by (simp_all add: fun_eq_iff nm_of_def SetSplitted_def SetMerged_def Let_def)
  show "IsSplitted x k b = sp_of b k j" "IsBothFreeOrOccupied x k b = (\<not> nm_of b k j)"
    using n by (simp_all add: IsSplitted_def IsBothFreeOrOccupied_def sp_of_def nm_of_def bit_index_at [OF assms(1)])
qed

end
