(* ===== verification/BuddyOps.thy ===== *)
theory BuddyOps
  imports BuddyRep
begin

text \<open>
  The operations of \<open>BuddyBlockAllocator\<close> on the tree of blocks: splitting, allocation, the
  recovery of a block's order from the split bits, merging and freeing.
\<close>

section \<open>Allocator states\<close>

definition buddy_ok :: "buddy \<Rightarrow> (nat \<Rightarrow> nat list) \<Rightarrow> bool" where
  "buddy_ok b F \<longleftrightarrow> shape_ok b \<and> lists_ok b F \<and> tree_inv (max_order b) (sp_of b) (nm_of b) F"

definition in_use :: "buddy \<Rightarrow> (nat \<Rightarrow> nat list) \<Rightarrow> (nat \<times> nat) set" where
  "in_use b F = used (max_order b) (sp_of b) F"

definition offset_of :: "buddy \<Rightarrow> nat \<Rightarrow> nat \<Rightarrow> nat" where
  "offset_of b k j = j * (frame_size b * 2 ^ k)"

lemma addr_offset: "addr_of b k j = start_phys_addr b + offset_of b k j"
  by (simp add: addr_of_def offset_of_def)

lemma GetOffset_addr [simp]: "GetOffset b (addr_of b k j) = offset_of b k j"
  by (simp add: GetOffset_def addr_offset)

lemma offset_same: "same_shape b b' \<Longrightarrow> offset_of b' = offset_of b"
  using same_shapeD(4) [of b b'] by (simp add: offset_of_def fun_eq_iff)

lemma addr_of_inj: "0 < frame_size b \<Longrightarrow> addr_of b k i = addr_of b k j \<longleftrightarrow> i = j"
  by (simp add: addr_of_def)

lemma offset_div:
  assumes "0 < frame_size b" "k \<le> k'"
  shows "offset_of b k j div (frame_size b * 2 ^ k') = j div 2 ^ (k' - k)"
proof -
  have "(2 :: nat) ^ k' = 2 ^ k * 2 ^ (k' - k)" using assms(2) by (simp flip: power_add)
  then have "offset_of b k j div (frame_size b * 2 ^ k') = j * (frame_size b * 2 ^ k) div ((frame_size b * 2 ^ k) * 2 ^ (k' - k))"
    by (simp add: offset_of_def mult.assoc)
  also have "\<dots> = j div 2 ^ (k' - k)" using assms(1) by (simp add: div_mult2_eq)
  finally show ?thesis .
qed

lemma node_up: "node K k j \<Longrightarrow> k \<le> k' \<Longrightarrow> k' \<le> K \<Longrightarrow> node K k' (j div 2 ^ (k' - k))"
proof (induction "k' - k" arbitrary: k')
  case (Suc n)
  then obtain m where m: "k' = Suc m" "k \<le> m" by (cases k') auto
  have "node K m (j div 2 ^ (m - k))" using Suc m by simp
  then have "node K (m + 1) (j div 2 ^ (m - k) div 2)" using node_parent Suc.prems m by simp
  moreover have "j div 2 ^ (m - k) div 2 = j div 2 ^ (k' - k)"
    using m by (simp add: div_mult2_eq [symmetric] Suc_diff_le mult.commute)
  ultimately show ?case using m by simp
qed simp

lemma at_up:
  assumes "node (max_order b) k j" "0 < frame_size b" "k \<le> k'" "k' \<le> max_order b" "0 < k'"
  shows "at (offset_of b k j) k' (j div 2 ^ (k' - k)) b"
  using assms node_up [OF assms(1,3,4)] offset_div [OF assms(2,3)] by (simp add: at_def)

lemma at_parent:
  assumes "node (max_order b) k j" "0 < frame_size b" "k < max_order b"
  shows "at (offset_of b k j) (k + 1) (j div 2) b"
  using at_up [OF assms(1,2), of "k + 1"] assms(3) by simp

lemma remove1_map: "inj_on f (insert x (set xs)) \<Longrightarrow> remove1 (f x) (map f xs) = map f (remove1 x xs)"
  by (induction xs) (auto simp: inj_on_def)

lemma lists_upd:
  "(\<lambda>k. map (addr_of b k) (F k))(i := map (addr_of b i) ys) = (\<lambda>k. map (addr_of b k) ((F(i := ys)) k))"
  by (simp add: fun_eq_iff)

lemma add_free_ok:
  assumes "lists_ok b F" "x = offset_of b i j"
  shows "lists_ok (add_free i x b) (F(i := F i @ [j]))"
proof -
  have "pages_rep (AddToFreeList i (addr_of b i j) (flists b))
      ((\<lambda>k. map (addr_of b k) (F k))(i := map (addr_of b i) (F i @ [j])))"
    using fl.add [OF assms(1) [unfolded lists_ok_def], of i "addr_of b i j"] by simp
  then show ?thesis
    unfolding lists_ok_def lists_upd same_shapeD(2) [OF shape_ops(4)]
    using assms(2) by (simp add: add_free_def addr_offset)
qed

lemma sp_nm_flists [simp]:
  "sp_of (b\<lparr>flists := l\<rparr>) = sp_of b" "nm_of (b\<lparr>flists := l\<rparr>) = nm_of b"
  "sp_of (add_free i x b) = sp_of b" "nm_of (add_free i x b) = nm_of b"
  by (simp_all add: fun_eq_iff sp_of_def nm_of_def add_free_def)

lemma lists_ok_shape: "same_shape b b' \<Longrightarrow> flists b' = flists b \<Longrightarrow> lists_ok b' F = lists_ok b F"
  using same_shapeD(2) [of b b'] by (simp add: lists_ok_def)

section \<open>Splitting\<close>

lemma split_once:
  assumes ok: "buddy_ok b F" and j: "(Suc m, j) \<in> in_use b F"
  defines "x \<equiv> offset_of b (Suc m) j"
  defines "b' \<equiv> add_free m (x + frame_size b * PowerOf2 m) (SetSplitted x (Suc m) (FlipNeedMerge x (Suc m) b))"
  shows "buddy_ok b' (F(m := F m @ [2 * j + 1]))" "same_shape b b'"
    "in_use b' (F(m := F m @ [2 * j + 1])) = insert (m, 2 * j) (in_use b F - {(Suc m, j)})"
proof -
  have sh: "shape_ok b" and inv: "tree_inv (max_order b) (sp_of b) (nm_of b) F" and l: "lists_ok b F"
    using ok by (simp_all add: buddy_ok_def)
  have n: "node (max_order b) (Suc m) j" using j by (simp add: in_use_def used_def)
  have at: "at x (Suc m) j b"
    using at_up [OF n shape_pos [OF sh], of "Suc m"] n by (simp add: x_def node_def)
  let ?b1 = "FlipNeedMerge x (Suc m) b" and ?b2 = "SetSplitted x (Suc m) (FlipNeedMerge x (Suc m) b)"
  have s1: "same_shape b ?b1" and s2: "same_shape b ?b2"
    using shape_ops(1) shape_ops(2) same_shape_trans by blast+
  have s3: "same_shape b b'" unfolding b'_def using s2 shape_ops(4) same_shape_trans by blast
  have at1: "at x (Suc m) j ?b1" using at same_shapeD(3,4) [OF s1] by (simp add: at_def)
  note f1 = FlipNeedMerge_at [OF at sh] and f2 = set_split_at(1,2) [OF at1 same_shapeD(1) [OF s1 sh]]
  have sp: "sp_of b' = upd2 (sp_of b) (Suc m) j True" "nm_of b' = flip2 (nm_of b) (Suc m) j"
    by (simp_all add: b'_def f1 f2)
  have "lists_ok ?b2 F" using l lists_ok_shape [OF s2] by simp
  moreover have "x + frame_size b * PowerOf2 m = offset_of ?b2 m (2 * j + 1)"
    by (simp add: x_def offset_of_def PowerOf2_def algebra_simps)
  ultimately have "lists_ok b' (F(m := F m @ [2 * j + 1]))"
    unfolding b'_def by (rule add_free_ok)
  then show "buddy_ok b' (F(m := F m @ [2 * j + 1]))" "same_shape b b'"
    "in_use b' (F(m := F m @ [2 * j + 1])) = insert (m, 2 * j) (in_use b F - {(Suc m, j)})"
    using split_inv [OF inv, of m j] j s3 sp same_shapeD(1,3) [OF s3] sh
    by (simp_all add: buddy_ok_def in_use_def)
qed

lemma split_ok:
  assumes "buddy_ok b F" "(i, j) \<in> in_use b F" "order \<le> i"
  shows "\<exists>F'. buddy_ok (Split i order (offset_of b i j) b) F' \<and> same_shape b (Split i order (offset_of b i j) b)
     \<and> in_use (Split i order (offset_of b i j) b) F' = insert (order, j * 2 ^ (i - order)) (in_use b F - {(i, j)})"
  using assms
proof (induction "i - order" arbitrary: i j b F)
  case 0
  then show ?case by (subst (1 2 3) Split.simps) (auto simp: insert_absorb)
next
  case (Suc n)
  then obtain m where i: "i = Suc m" "order \<le> m" by (cases i) auto
  let ?x = "offset_of b (Suc m) j"
  let ?b = "add_free m (?x + frame_size b * PowerOf2 m) (SetSplitted ?x (Suc m) (FlipNeedMerge ?x (Suc m) b))"
  let ?F = "F(m := F m @ [2 * j + 1])"
  note st = split_once [OF Suc.prems(1), of m j, folded i(1), OF Suc.prems(2), unfolded i(1)]
  have x: "offset_of ?b m (2 * j) = ?x"
    by (simp add: offset_of_def algebra_simps)
  have eq: "Split (Suc m) order ?x b = Split m order ?x ?b"
    using i by (subst Split.simps) (simp add: Let_def)
  have "\<exists>F'. buddy_ok (Split m order ?x ?b) F' \<and> same_shape ?b (Split m order ?x ?b)
     \<and> in_use (Split m order ?x ?b) F' = insert (order, 2 * j * 2 ^ (m - order)) (in_use ?b ?F - {(m, 2 * j)})"
    using Suc.hyps(1) [of m ?b ?F "2 * j"] Suc.hyps(2) i st(1,3) unfolding x by simp
  moreover have "in_use ?b ?F - {(m, 2 * j)} = in_use b F - {(Suc m, j)}"
  proof -
    have "tree_inv (max_order b) (sp_of b) (nm_of b) F" using Suc.prems(1) by (simp add: buddy_ok_def)
    from used_no_sub [OF this, of "Suc m" j m] have "(m, 2 * j) \<notin> in_use b F"
      using Suc.prems(2) i(1) by (simp add: in_use_def mult.commute)
    then show ?thesis using st(3) by auto
  qed
  moreover have "2 * j * 2 ^ (m - order) = j * 2 ^ (i - order)" using i by (simp add: Suc_diff_le)
  ultimately show ?case using same_shape_trans [OF st(2)] unfolding i(1) eq by auto
qed

end
