(* ===== verification/BuddyAlloc.thy ===== *)
theory BuddyAlloc
  imports BuddyOps
begin

text \<open>
  Allocation, the order of a block in use, merging and freeing on the tree of blocks, and
  the bits of \<open>LargestPowerOf2Divisor\<close>.
\<close>

section \<open>Allocation\<close>

lemma lists_ok_take:
  assumes "lists_ok b F" "F i = j # js"
  shows "\<exists>d l. RemoveFirstFromFreeList i (flists b) = (d, l) \<and> page l d = addr_of b i j
     \<and> lists_ok (b\<lparr>flists := l\<rparr>) (F(i := js))"
proof -
  have rep: "pages_rep (flists b) (\<lambda>k. map (addr_of b k) (F k))" using assms(1) by (simp add: lists_ok_def)
  obtain d l where t: "RemoveFirstFromFreeList i (flists b) = (d, l)" "page l d = addr_of b i j"
    "pages_rep l ((\<lambda>k. map (addr_of b k) (F k))(i := map (addr_of b i) js))"
    using fl.take_first [OF rep, of i "addr_of b i j" "map (addr_of b i) js"] assms(2) by auto
  have "addr_of (b\<lparr>flists := l\<rparr>) = addr_of b" by (simp add: addr_of_def fun_eq_iff)
  then show ?thesis using t unfolding lists_upd by (simp add: lists_ok_def)
qed

lemma taken_ok:
  assumes ok: "buddy_ok b F" and F: "F i = j # js" and l: "lists_ok (b\<lparr>flists := l\<rparr>) (F(i := js))"
  defines "b' \<equiv> (if i < max_order b then FlipNeedMerge (offset_of b i j) (i + 1) (b\<lparr>flists := l\<rparr>) else b\<lparr>flists := l\<rparr>)"
  shows "buddy_ok b' (F(i := js))" "same_shape b b'" "in_use b' (F(i := js)) = insert (i, j) (in_use b F)"
    "(i, j) \<notin> in_use b F" "node (max_order b) i j"
proof -
  have sh: "shape_ok b" and inv: "tree_inv (max_order b) (sp_of b) (nm_of b) F"
    using ok by (simp_all add: buddy_ok_def)
  have jF: "j \<in> set (F i)" using F by simp
  show n: "node (max_order b) i j" using tree_invD(2) [OF inv jF] by blast
  let ?b1 = "b\<lparr>flists := l\<rparr>"
  have s1: "same_shape b ?b1" by (rule shape_ops(5))
  show s: "same_shape b b'" unfolding b'_def using s1 shape_ops(1) same_shape_trans by auto
  have r: "F(i := remove1 j (F i)) = F(i := js)" using F by simp
  note ti = taken_inv [OF inv jF, unfolded r]
  have bits: "sp_of b' = sp_of b"
    "nm_of b' = (if i < max_order b then flip2 (nm_of b) (i + 1) (j div 2) else nm_of b)"
  proof -
    have a: "at (offset_of b i j) (i + 1) (j div 2) ?b1" if "i < max_order b"
      using at_parent [OF n shape_pos [OF sh] that] by (simp add: at_def)
    note f = FlipNeedMerge_at [OF a same_shapeD(1) [OF s1 sh]]
    show "sp_of b' = sp_of b" using f(2) by (simp add: b'_def)
    show "nm_of b' = (if i < max_order b then flip2 (nm_of b) (i + 1) (j div 2) else nm_of b)"
      using f(1) by (simp add: b'_def)
  qed
  have "lists_ok b' (F(i := js))"
    using l lists_ok_shape [OF shape_ops(1), of "offset_of b i j" "i + 1" ?b1] by (simp add: b'_def)
  then show "buddy_ok b' (F(i := js))"
    using ti(1) bits same_shapeD(1,3) [OF s] sh by (simp add: buddy_ok_def)
  show "in_use b' (F(i := js)) = insert (i, j) (in_use b F)"
    using ti(2) bits same_shapeD(3) [OF s] by (simp add: in_use_def)
  show "(i, j) \<notin> in_use b F" using ti(3) by (simp add: in_use_def)
qed

lemma node_down: "node K i j \<Longrightarrow> order \<le> i \<Longrightarrow> node K order (j * 2 ^ (i - order))"
proof -
  assume a: "node K i j" "order \<le> i"
  have "K - order = (K - i) + (i - order)" using a by (simp add: node_def)
  then have "(2 :: nat) ^ (K - order) = 2 ^ (K - i) * 2 ^ (i - order)" by (metis power_add)
  then show ?thesis using a by (simp add: node_def)
qed

lemma addr_down: "order \<le> i \<Longrightarrow> addr_of b i j = addr_of b order (j * 2 ^ (i - order))"
proof -
  assume "order \<le> i"
  then have "(2 :: nat) ^ i = 2 ^ (i - order) * 2 ^ order" by (simp flip: power_add)
  then show ?thesis by (simp add: addr_of_def algebra_simps)
qed

lemma GetFrame_none:
  assumes "buddy_ok b F" "\<And>i. order \<le> i \<Longrightarrow> i \<le> max_order b \<Longrightarrow> F i = []"
  shows "GetFrame order b = (0, b)"
proof -
  have rep: "pages_rep (flists b) (\<lambda>k. map (addr_of b k) (F k))"
    using assms(1) by (simp add: buddy_ok_def lists_ok_def)
  have "List.find (\<lambda>i. free_lists (flists b) i \<noteq> 0) [order ..< max_order b + 1] = None"
    by (rule find_upt_none) (use fl.is_empty [OF rep] assms(2) in auto)
  then show ?thesis by (simp add: GetFrame_def)
qed

lemma GetFrame_some:
  assumes ok: "buddy_ok b F" and i: "order \<le> i" "i \<le> max_order b" "F i \<noteq> []"
    and first: "\<And>i'. order \<le> i' \<Longrightarrow> i' < i \<Longrightarrow> F i' = []"
  shows "\<exists>j b' F'. GetFrame order b = (addr_of b order j, b') \<and> buddy_ok b' F' \<and> same_shape b b'
     \<and> node (max_order b) order j \<and> (order, j) \<notin> in_use b F \<and> in_use b' F' = insert (order, j) (in_use b F)"
proof -
  have rep: "pages_rep (flists b) (\<lambda>k. map (addr_of b k) (F k))" and l: "lists_ok b F"
    using ok by (simp_all add: buddy_ok_def lists_ok_def)
  obtain j js where F: "F i = j # js" using i(3) by (cases "F i") auto
  have find: "List.find (\<lambda>i. free_lists (flists b) i \<noteq> 0) [order ..< max_order b + 1] = Some i"
    by (rule find_upt) (use fl.is_empty [OF rep] i first in auto)
  obtain d l where t: "RemoveFirstFromFreeList i (flists b) = (d, l)" "page l d = addr_of b i j"
    "lists_ok (b\<lparr>flists := l\<rparr>) (F(i := js))"
    using lists_ok_take [OF l F] by blast
  define b1 where "b1 = (if i < max_order b then FlipNeedMerge (offset_of b i j) (i + 1) (b\<lparr>flists := l\<rparr>)
     else b\<lparr>flists := l\<rparr>)"
  note tk = taken_ok [OF ok F t(3), folded b1_def]
  let ?b' = "Split i order (offset_of b i j) b1"
  have "GetFrame order b = (addr_of b i j, ?b')"
  proof -
    have "GetOffset (b\<lparr>flists := l\<rparr>) (addr_of b i j) = offset_of b i j"
      by (simp add: GetOffset_def addr_offset)
    moreover have "Split i i x b2 = b2" for x b2 by (subst Split.simps) simp
    ultimately show ?thesis using find t i(1) by (simp add: GetFrame_def b1_def Let_def)
  qed
  moreover have "offset_of b1 i j = offset_of b i j" using offset_same [OF tk(2)] by simp
  moreover obtain F' where F': "buddy_ok (Split i order (offset_of b1 i j) b1) F'"
    "same_shape b1 (Split i order (offset_of b1 i j) b1)"
    "in_use (Split i order (offset_of b1 i j) b1) F' = insert (order, j * 2 ^ (i - order)) (in_use b1 (F(i := js)) - {(i, j)})"
    using split_ok [OF tk(1) _ i(1), of j] tk(3) by auto
  moreover have "in_use b1 (F(i := js)) - {(i, j)} = in_use b F" using tk(3,4) by auto
  moreover have "(order, j * 2 ^ (i - order)) \<notin> in_use b F"
  proof (cases "order = i")
    case False
    then show ?thesis
      using tk(1,3) used_no_sub [of "max_order b1" "sp_of b1" "nm_of b1" "F(i := js)" i j order] i(1)
      by (auto simp: buddy_ok_def in_use_def)
  qed (use tk(4) in simp)
  ultimately show ?thesis
    using same_shape_trans [OF tk(2) F'(2)] node_down [OF tk(5) i(1)]
    unfolding addr_down [OF i(1), of b j]
    by (intro exI [of _ "j * 2 ^ (i - order)"] exI [of _ ?b'] exI [of _ F']) simp
qed

section \<open>The lowest bit\<close>

lemma odd_part: "0 < j \<Longrightarrow> \<exists>m s. odd m \<and> j = m * 2 ^ s" for j :: nat
proof (induction j rule: less_induct)
  case (less j)
  show ?case
  proof (cases "odd j")
    case True
    then show ?thesis by (intro exI [of _ j] exI [of _ 0]) simp
  next
    case False
    then obtain i where i: "j = 2 * i" by (auto elim: evenE)
    then obtain m s where "odd m" "i = m * 2 ^ s" using less.IH [of i] less.prems by auto
    then show ?thesis using i by (intro exI [of _ m] exI [of _ "Suc s"]) simp
  qed
qed

lemma LargestPowerOf2Divisor_odd:
  assumes "odd m" "t < 64"
  shows "LargestPowerOf2Divisor (m * 2 ^ t) = 2 ^ t"
proof -
  have "int (m * 2 ^ t) AND ((- int (m * 2 ^ t)) mod 2 ^ 64) = 2 ^ t"
  proof (rule bit_eqI)
    fix n
    have y: "int (m * 2 ^ t) = push_bit t (int m)" "- push_bit t (int m) = push_bit t (- int m)"
      by (simp_all add: push_bit_eq_mult)
    have odd: "bit (int m) 0" "bit (- int m) 0" using assms(1) by (simp_all add: bit_0)
    have other: "\<not> (bit (int m) (Suc k) \<and> bit (- int m) (Suc k))" for k
    proof -
      obtain q where q: "m = Suc (2 * q)" using assms(1) by (auto elim: oddE)
      then have "int m = 1 + 2 * int q" "- int m = 1 + 2 * (- int q - 1)" by simp_all
      moreover have "bit (- int q - 1) k = (\<not> bit (int q) k)"
        using bit_not_iff [of "int q" k] by (simp add: not_int_def)
      moreover have "(1 + 2 * int q) div 2 = int q" "(1 + 2 * (- int q - 1)) div 2 = - int q - 1" by presburger+
      ultimately show ?thesis unfolding bit_Suc by simp
    qed
    define z where "z = - int m"
    show "bit (int (m * 2 ^ t) AND ((- int (m * 2 ^ t)) mod 2 ^ 64)) n = bit (2 ^ t :: int) n"
      unfolding take_bit_eq_mod [symmetric] y
      using odd other [of "n - t - 1"] assms(2) unfolding z_def [symmetric]
      by (cases "n = t"; cases "t < n")
        (auto simp: bit_and_iff bit_take_bit_iff bit_push_bit_iff bit_exp_iff Suc_diff_Suc)
  qed
  then show ?thesis by (simp add: LargestPowerOf2Divisor_def)
qed

lemma ctz_power: "count_trailing_zeros (2 ^ t) = t"
  by (induction t) (subst count_trailing_zeros.simps, simp)+

lemma order_odd:
  assumes "odd m" "m * 2 ^ t < 2 ^ 32"
  shows "LargestPowerOf2DivisorOrder (m * 2 ^ t) = t"
proof -
  have "0 < m" using assms(1) by (cases m) auto
  then have "(2 :: nat) ^ t \<le> m * 2 ^ t" by simp
  then have "(2 :: nat) ^ t < 2 ^ 32" using assms(2) by (rule le_less_trans)
  moreover from this have "t < 32" by (rule power_less_imp_less_exp [rotated]) simp
  ultimately show ?thesis
    using LargestPowerOf2Divisor_odd [OF assms(1), of t] by (simp add: LargestPowerOf2DivisorOrder_def ctz_power)
qed

section \<open>The order of a block in use\<close>

lemma offset_mult: "frame_size b = 2 ^ f \<Longrightarrow> offset_of b k j = j * 2 ^ (k + f)"
  by (simp add: offset_of_def power_add algebra_simps)

lemma largest_order:
  assumes sh: "shape_ok b" and n: "node (max_order b) k j" "0 < j"
  shows "k \<le> LargestPowerOf2DivisorOrder (offset_of b k j) - frame_size_order b"
    "LargestPowerOf2DivisorOrder (offset_of b k j) - frame_size_order b \<le> max_order b"
proof -
  let ?f = "frame_size_order b" and ?K = "max_order b"
  have fs: "frame_size b = 2 ^ ?f" "frame_size b * 2 ^ ?K \<le> 2 ^ 32" using sh unfolding shape_ok_def by blast+
  obtain m s where m: "odd m" "j = m * 2 ^ s" using odd_part [OF n(2)] by blast
  have j: "j < 2 ^ (?K - k)" "k \<le> ?K" using n by (simp_all add: node_def)
  have off: "offset_of b k j = m * 2 ^ (s + (k + ?f))"
    unfolding offset_mult [OF fs(1)] m(2) by (simp add: power_add)
  have "offset_of b k j < 2 ^ (?K - k) * 2 ^ (k + ?f)"
    unfolding offset_mult [OF fs(1)] using j by simp
  also have "\<dots> = frame_size b * 2 ^ ?K" using j by (subst fs(1)) (simp flip: power_add)
  finally have "m * 2 ^ (s + (k + ?f)) < 2 ^ 32" using fs(2) off by simp
  then have o: "LargestPowerOf2DivisorOrder (offset_of b k j) = s + (k + ?f)"
    unfolding off by (rule order_odd [OF m(1)])
  have "0 < m" using m(1) by (cases m) auto
  then have "2 ^ s \<le> j" using m(2) by simp
  then have "(2 :: nat) ^ s < 2 ^ (?K - k)" using j(1) by (rule le_less_trans)
  then have "s < ?K - k" by (rule power_less_imp_less_exp [rotated]) simp
  then show "k \<le> LargestPowerOf2DivisorOrder (offset_of b k j) - ?f"
    "LargestPowerOf2DivisorOrder (offset_of b k j) - ?f \<le> ?K" using o by simp_all
qed

lemma smaller_not_split:
  assumes inv: "tree_inv K sp nm F" and u: "(k, j) \<in> used K sp F" and o: "o' \<le> k"
  shows "\<not> sp o' (j * 2 ^ (k - o'))"
proof (cases "o' = k")
  case True
  then show ?thesis using u by (simp add: used_def)
next
  case False
  show ?thesis
  proof
    assume "sp o' (j * 2 ^ (k - o'))"
    then have "parent_split K sp o' (j * 2 ^ (k - o'))" using tree_invD(1) [OF inv] by blast
    then have "sp k (j * 2 ^ (k - o') div 2 ^ (k - o'))"
      by (rule split_up [OF inv]) (use False o u in \<open>auto simp: used_def node_def\<close>)
    then show False using u by (simp add: used_def)
  qed
qed

lemma block_order_ok:
  assumes ok: "buddy_ok b F" and u: "(k, j) \<in> in_use b F"
  shows "block_order (offset_of b k j) b = k"
proof -
  let ?K = "max_order b" and ?x = "offset_of b k j"
  let ?largest = "if ?x = 0 then ?K else LargestPowerOf2DivisorOrder ?x - frame_size_order b"
  have sh: "shape_ok b" and inv: "tree_inv ?K (sp_of b) (nm_of b) F" using ok by (simp_all add: buddy_ok_def)
  have u': "(k, j) \<in> used ?K (sp_of b) F" using u by (simp add: in_use_def)
  then have n: "node ?K k j" and ps: "parent_split ?K (sp_of b) k j" by (simp_all add: used_def)
  have "k \<le> ?K" using n by (simp add: node_def)
  have x0: "?x = 0 \<longleftrightarrow> j = 0" using shape_pos [OF sh] by (simp add: offset_of_def)
  have large: "k \<le> ?largest" "?largest \<le> ?K"
    using largest_order [OF sh n] x0 \<open>k \<le> ?K\<close> by auto
  have low: "\<not> IsSplitted ?x o' b" if "0 < o'" "o' \<le> k" for o'
  proof -
    have x: "?x = offset_of b o' (j * 2 ^ (k - o'))"
    proof -
      have "(2 :: nat) ^ k = 2 ^ (k - o') * 2 ^ o'" using that by (simp flip: power_add)
      then show ?thesis by (simp add: offset_of_def)
    qed
    have n': "node ?K o' (j * 2 ^ (k - o'))" using node_down [OF n that(2)] .
    have "at ?x o' (j * 2 ^ (k - o')) b"
      unfolding x using at_up [OF n' shape_pos [OF sh], of o'] that n' by (simp add: node_def)
    then show ?thesis using set_split_at(5) sh smaller_not_split [OF inv u' that(2)] by simp
  qed
  show ?thesis
  proof (cases "k = ?largest")
    case True
    have "List.find (\<lambda>order. IsSplitted ?x order b) [1 ..< ?largest + 1] = None"
      by (rule find_upt_none) (use low True in auto)
    then show ?thesis using True by (simp add: block_order_def)
  next
    case False
    then have k: "k < ?K" using large by simp
    have "IsSplitted ?x (k + 1) b"
      using set_split_at(5) [OF at_parent [OF n shape_pos [OF sh] k] sh] ps k by (simp add: parent_split_def)
    then have "List.find (\<lambda>order. IsSplitted ?x order b) [1 ..< ?largest + 1] = Some (k + 1)"
      by (intro find_upt) (use low large False in auto)
    then show ?thesis by (simp add: block_order_def)
  qed
qed

section \<open>Merging and freeing\<close>

text \<open>Block (k, j) is about to be freed: its parent's bit already counts it as free.\<close>

definition pending :: "buddy \<Rightarrow> (nat \<Rightarrow> nat list) \<Rightarrow> nat \<Rightarrow> nat \<Rightarrow> (nat \<times> nat) set \<Rightarrow> bool" where
  "pending b F k j U \<longleftrightarrow> shape_ok b \<and> lists_ok b F
     \<and> tree_inv (max_order b) (sp_of b) (if k < max_order b then flip2 (nm_of b) (k + 1) (j div 2) else nm_of b) F
     \<and> (k, j) \<in> used (max_order b) (sp_of b) F \<and> (k, j) \<notin> U \<and> used (max_order b) (sp_of b) F = insert (k, j) U"

lemma half_addr:
  assumes x: "x div (f * 2 ^ k) = j" and f: "0 < f"
  shows "(if f * 2 ^ (k + 1) * (j div 2) \<le> x \<and> x < f * 2 ^ (k + 1) * (j div 2) + f * 2 ^ (k + 1) div 2
      then f * 2 ^ (k + 1) * (j div 2) + f * 2 ^ (k + 1) div 2 else f * 2 ^ (k + 1) * (j div 2))
    = sibling j * (f * 2 ^ k)"
proof -
  let ?c = "f * 2 ^ k"
  have c: "f * 2 ^ (k + 1) * (j div 2) = 2 * (j div 2) * ?c" "f * 2 ^ (k + 1) div 2 = ?c" by simp_all
  have "0 < ?c" using f by simp
  then have xj: "j * ?c \<le> x" "x < (j + 1) * ?c"
    using x div_times_less_eq_dividend [of x ?c] dividend_less_div_times [of ?c x] by (auto simp: algebra_simps)
  show ?thesis unfolding c
  proof (cases "even j")
    case True
    then have "2 * (j div 2) = j" by simp
    then show "(if 2 * (j div 2) * ?c \<le> x \<and> x < 2 * (j div 2) * ?c + ?c then 2 * (j div 2) * ?c + ?c
        else 2 * (j div 2) * ?c) = sibling j * ?c"
      using xj True by (simp add: sibling_def algebra_simps)
  next
    case False
    then have j: "j = 2 * (j div 2) + 1" by simp
    then have "2 * (j div 2) * ?c + ?c = j * ?c" by (metis add_mult_distrib mult_1)
    then have "\<not> x < 2 * (j div 2) * ?c + ?c" using xj by simp
    moreover have "sibling j = 2 * (j div 2)" using False by (auto simp: sibling_def elim!: oddE)
    ultimately show "(if 2 * (j div 2) * ?c \<le> x \<and> x < 2 * (j div 2) * ?c + ?c then 2 * (j div 2) * ?c + ?c
        else 2 * (j div 2) * ?c) = sibling j * ?c"
      by (simp only: simp_thms if_False)
  qed
qed

lemma MergeChunk_find:
  assumes x: "x div (frame_size b * 2 ^ k) = j" and f: "0 < frame_size b"
  shows "MergeChunk x (k + 1) b =
    (case FindPageFromFreeList k (addr_of b k (sibling j)) (flists b) of
       None \<Rightarrow> None
     | Some d \<Rightarrow>
         if d = 0 then None
         else let b1 = b\<lparr>flists := RemovePageFromFreeList k d (flists b)\<rparr>;
                  b2 = (if k + 1 < max_order b then FlipNeedMerge x (k + 1 + 1) b1 else b1)
              in Some (SetMerged x (k + 1) b2))"
proof -
  have p: "x div (frame_size b * 2 ^ (k + 1)) = j div 2"
    using x by (simp add: mult.left_commute div_mult2_eq [symmetric] mult.assoc flip: x)
      (metis div_mult2_eq mult.assoc mult.commute)
  have "(if frame_size b * PowerOf2 (k + 1) * (j div 2) \<le> x
      \<and> x < frame_size b * PowerOf2 (k + 1) * (j div 2) + frame_size b * PowerOf2 (k + 1) div 2
      then GetAddrFromOffset b (frame_size b * PowerOf2 (k + 1) * (j div 2) + frame_size b * PowerOf2 (k + 1) div 2)
      else GetAddrFromOffset b (frame_size b * PowerOf2 (k + 1) * (j div 2))) = addr_of b k (sibling j)"
    using half_addr [OF x f] unfolding PowerOf2_def GetAddrFromOffset_def addr_of_def by (metis add.commute)
  then show ?thesis
    unfolding MergeChunk_def Let_def p [folded PowerOf2_def] by (simp only: add_diff_cancel_right')
qed

lemma merge_step:
  assumes pend: "pending b F k j U" and x: "x div (frame_size b * 2 ^ k) = j" and k: "k < max_order b"
  shows "IsBothFreeOrOccupied x (k + 1) b \<longleftrightarrow> sibling j \<in> set (F k)"
    "sibling j \<in> set (F k) \<Longrightarrow>
      \<exists>b' F'. MergeChunk x (k + 1) b = Some b' \<and> same_shape b b' \<and> pending b' F' (k + 1) (j div 2) U"
proof -
  let ?K = "max_order b" and ?p = "j div 2"
  let ?nm = "flip2 (nm_of b) (k + 1) ?p"
  have sh: "shape_ok b" and l: "lists_ok b F" and inv: "tree_inv ?K (sp_of b) ?nm F"
    and u: "(k, j) \<in> used ?K (sp_of b) F" "(k, j) \<notin> U" "used ?K (sp_of b) F = insert (k, j) U"
    using pend unfolding pending_def if_P [OF k] by blast+
  have n: "node ?K k j" "j \<notin> set (F k)" "sp_of b (k + 1) ?p"
    using u(1) k by (auto simp: used_def parent_split_def)
  have div_up: "x div (frame_size b * 2 ^ (k + i)) = j div 2 ^ i" for i
    using div_mult2_eq [of x "frame_size b * 2 ^ k" "2 ^ i"] x by (simp add: power_add mult.assoc)
  have at1: "at x (k + 1) ?p b"
    using node_parent [OF n(1) k] div_up [of 1] by (simp add: at_def)
  have "?nm (k + 1) ?p = (sibling j \<in> set (F k))" using tree_inv_nm [OF inv n(1) k] n(2) by simp
  then show both: "IsBothFreeOrOccupied x (k + 1) b \<longleftrightarrow> sibling j \<in> set (F k)"
    using set_split_at(6) [OF at1 sh] by simp
  assume sib: "sibling j \<in> set (F k)"
  have rep: "pages_rep (flists b) (\<lambda>k. map (addr_of b k) (F k))" using l by (simp add: lists_ok_def)
  have inj: "inj_on (addr_of b k) A" for A
    using addr_of_inj [OF shape_pos [OF sh]] by (simp add: inj_on_def)
  have "distinct (map (addr_of b k) (F k))"
    using tree_invD(3) [OF inv] inj by (simp add: distinct_map)
  then obtain d where d: "FindPageFromFreeList k (addr_of b k (sibling j)) (flists b) = Some d" "d \<noteq> 0"
    and r: "pages_rep (RemovePageFromFreeList k d (flists b))
      ((\<lambda>k. map (addr_of b k) (F k))(k := map (addr_of b k) (remove1 (sibling j) (F k))))"
    using fl.find [OF rep, of "addr_of b k (sibling j)" k] sib remove1_map [OF inj] by auto
  define b1 where "b1 = b\<lparr>flists := RemovePageFromFreeList k d (flists b)\<rparr>"
  define b2 where "b2 = (if k + 1 < ?K then FlipNeedMerge x (k + 1 + 1) b1 else b1)"
  define b3 where "b3 = SetMerged x (k + 1) b2"
  let ?F = "F(k := remove1 (sibling j) (F k))"
  have mc: "MergeChunk x (k + 1) b = Some b3"
    unfolding MergeChunk_find [OF x shape_pos [OF sh]] using d by (simp add: b1_def b2_def b3_def Let_def)
  have s1: "same_shape b b1" unfolding b1_def by (rule shape_ops(5))
  have s2: "same_shape b b2" unfolding b2_def using s1 shape_ops(1) same_shape_trans by auto
  have s3: "same_shape b b3" unfolding b3_def using s2 shape_ops(3) same_shape_trans by blast
  have at2: "at x (k + 1) ?p b2" using at1 same_shapeD(3,4) [OF s2] by (simp add: at_def)
  have at11: "at x (k + 1 + 1) (?p div 2) b1" if "k + 1 < ?K"
    using node_parent [OF node_parent [OF n(1) k] that] div_up [of 2] same_shapeD(3,4) [OF s1]
    by (simp add: at_def div_mult2_eq [symmetric])
  have b1: "sp_of b1 = sp_of b" "nm_of b1 = nm_of b" by (simp_all add: b1_def)
  have bits2: "sp_of b2 = sp_of b"
    "nm_of b2 = (if k + 1 < ?K then flip2 (nm_of b) (k + 1 + 1) (?p div 2) else nm_of b)"
    using FlipNeedMerge_at [OF at11 same_shapeD(1) [OF s1 sh]] b1 by (simp_all add: b2_def)
  have bits3: "sp_of b3 = upd2 (sp_of b) (k + 1) ?p False" "nm_of b3 = nm_of b2"
    unfolding b3_def using set_split_at(3,4) [OF at2 same_shapeD(1) [OF s2 sh]] bits2 by simp_all
  note mi = merge_inv [OF inv u(1) k sib, folded bits3(1)]
  have "tree_inv ?K (sp_of b3) (if k + 1 < ?K then flip2 (nm_of b3) (k + 1 + 1) (?p div 2) else nm_of b3) ?F"
    using mi(1) bits2 bits3(2) by simp
  moreover have "lists_ok b3 ?F"
  proof -
    have "lists_ok b1 ?F"
      using r unfolding lists_upd lists_ok_def same_shapeD(2) [OF s1] by (simp add: b1_def)
    then show ?thesis
      unfolding lists_ok_def same_shapeD(2) [OF s1] same_shapeD(2) [OF s3] by (simp add: b3_def b2_def)
  qed
  moreover have "used ?K (sp_of b3) ?F = insert (k + 1, ?p) U"
    using mi(2) u(2,3) by auto
  moreover have "(k + 1, ?p) \<notin> U"
    using u(3) n(3) by (auto simp: used_def)
  ultimately have "pending b3 ?F (k + 1) ?p U"
    using same_shapeD(1,3) [OF s3] sh unfolding pending_def by simp
  then show "\<exists>b' F'. MergeChunk x (k + 1) b = Some b' \<and> same_shape b b' \<and> pending b' F' (k + 1) ?p U"
    using mc s3 by blast
qed

lemma merge_up_ok:
  assumes "pending b F k j U" "x div (frame_size b * 2 ^ k) = j"
  shows "\<exists>k' j' b' F'. merge_up x (k + 1) b = Some (k' + 1, b') \<and> same_shape b b' \<and> pending b' F' k' j' U
     \<and> x div (frame_size b * 2 ^ k') = j' \<and> (k' < max_order b \<longrightarrow> sibling j' \<notin> set (F' k'))"
  using assms
proof (induction "max_order b - k" arbitrary: b F k j rule: less_induct)
  case less
  show ?case
  proof (cases "k < max_order b \<and> sibling j \<in> set (F k)")
    case True
    then obtain b1 F1 where m: "MergeChunk x (k + 1) b = Some b1" "same_shape b b1" "pending b1 F1 (k + 1) (j div 2) U"
      using merge_step(2) [OF less.prems] by blast
    have sh: "max_order b1 = max_order b" "frame_size b1 = frame_size b" using same_shapeD [OF m(2)] by simp_all
    have "x div (frame_size b1 * 2 ^ (k + 1)) = j div 2"
      unfolding sh less.prems(2) [symmetric] by (simp add: div_mult2_eq [symmetric] ac_simps)
    have "max_order b1 - (k + 1) < max_order b - k" using True sh by linarith
    from less.hyps [OF this m(3) \<open>x div (frame_size b1 * 2 ^ (k + 1)) = j div 2\<close>, unfolded sh]
    obtain k' j' b' F' where r: "merge_up x (k + 1 + 1) b1 = Some (k' + 1, b')" "same_shape b1 b'" "pending b' F' k' j' U"
      "x div (frame_size b * 2 ^ k') = j'" "k' < max_order b \<longrightarrow> sibling j' \<notin> set (F' k')"
      by blast
    have "merge_up x (k + 1) b = merge_up x (k + 1 + 1) b1"
      using True merge_step(1) [OF less.prems] m(1) by (subst merge_up.simps) simp
    then show ?thesis using r same_shape_trans [OF m(2) r(2)] by metis
  next
    case False
    then have "merge_up x (k + 1) b = Some (k + 1, b)"
      using merge_step(1) [OF less.prems] by (subst merge_up.simps) auto
    then show ?thesis using less.prems False by (intro exI [of _ k] exI [of _ j] exI [of _ b] exI [of _ F]) auto
  qed
qed

lemma pending_start:
  assumes ok: "buddy_ok b F" and u: "(k, j) \<in> in_use b F"
  defines "b1 \<equiv> (if k + 1 \<le> max_order b then FlipNeedMerge (offset_of b k j) (k + 1) b else b)"
  shows "pending b1 F k j (in_use b F - {(k, j)})" "same_shape b b1"
proof -
  have sh: "shape_ok b" and l: "lists_ok b F" and inv: "tree_inv (max_order b) (sp_of b) (nm_of b) F"
    using ok by (simp_all add: buddy_ok_def)
  have n: "node (max_order b) k j" using u by (simp add: in_use_def used_def)
  show s: "same_shape b b1" unfolding b1_def using shape_ops(1) by auto
  have bits: "sp_of b1 = sp_of b" "nm_of b1 = (if k < max_order b then flip2 (nm_of b) (k + 1) (j div 2) else nm_of b)"
    using FlipNeedMerge_at [OF at_parent [OF n shape_pos [OF sh]] sh] by (auto simp: b1_def)
  have "flists b1 = flists b" by (simp add: b1_def)
  then have "lists_ok b1 F" using l lists_ok_shape [OF s] by simp
  then show "pending b1 F k j (in_use b F - {(k, j)})"
    using same_shapeD(1,3) [OF s] sh bits inv u unfolding pending_def in_use_def by (auto simp: insert_absorb)
qed

lemma FreeFrame_ok:
  assumes ok: "buddy_ok b F" and u: "(k, j) \<in> in_use b F"
  shows "\<exists>b' F'. FreeFrame (addr_of b k j) b = Some b' \<and> buddy_ok b' F' \<and> same_shape b b'
     \<and> in_use b' F' = in_use b F - {(k, j)}"
proof -
  let ?x = "offset_of b k j" and ?U = "in_use b F - {(k, j)}"
  define b1 where "b1 = (if k + 1 \<le> max_order b then FlipNeedMerge ?x (k + 1) b else b)"
  note p = pending_start [OF ok u, folded b1_def]
  have sh: "shape_ok b" using ok by (simp add: buddy_ok_def)
  have "?x div (frame_size b1 * 2 ^ k) = j"
    using offset_div [OF shape_pos [OF sh], of k k j] same_shapeD(4) [OF p(2)] by simp
  from merge_up_ok [OF p(1) this]
  obtain k' j' b2 F2 where m: "merge_up ?x (k + 1) b1 = Some (k' + 1, b2)" "same_shape b1 b2" "pending b2 F2 k' j' ?U"
    "?x div (frame_size b1 * 2 ^ k') = j'" "k' < max_order b1 \<longrightarrow> sibling j' \<notin> set (F2 k')"
    by blast
  have s: "same_shape b1 b2" "same_shape b b2" using m(2) same_shape_trans [OF p(2) m(2)] by simp_all
  have chunk: "GetChunkStartOffset ?x k' b2 = offset_of b2 k' j'"
    using m(4) same_shapeD(4) [OF s(1)]
    by (simp add: GetChunkStartOffset_def offset_of_def PowerOf2_def Let_def)
  let ?b3 = "add_free k' (offset_of b2 k' j') b2" and ?F = "F2(k' := F2 k' @ [j'])"
  have eq: "FreeFrame (addr_of b k j) b = Some ?b3"
    unfolding FreeFrame_def Let_def GetOffset_addr block_order_ok [OF ok u] b1_def [symmetric] m(1)
    using chunk by simp
  have pd: "shape_ok b2" "lists_ok b2 F2" "(k', j') \<in> used (max_order b2) (sp_of b2) F2" "(k', j') \<notin> ?U"
    "used (max_order b2) (sp_of b2) F2 = insert (k', j') ?U"
    "tree_inv (max_order b2) (sp_of b2) (if k' < max_order b2 then flip2 (nm_of b2) (k' + 1) (j' div 2) else nm_of b2) F2"
    using m(3) unfolding pending_def by blast+
  have s3: "same_shape b2 ?b3" by (rule shape_ops(4))
  have "sibling j' \<notin> set (F2 k')" if "k' < max_order b2" using m(5) that same_shapeD(3) [OF s(1)] by simp
  note g = give_inv [OF pd(6,3) this]
  have "tree_inv (max_order b2) (sp_of b2) (nm_of b2) ?F"
    using g(1) by (cases "k' < max_order b2") simp_all
  then have "buddy_ok ?b3 ?F"
    using add_free_ok [OF pd(2) refl] same_shapeD(1,3) [OF s3] pd(1) by (simp add: buddy_ok_def)
  moreover have "in_use ?b3 ?F = ?U"
    using g(2) pd(4,5) same_shapeD(3) [OF s3] by (simp add: in_use_def)
  ultimately show ?thesis using eq same_shape_trans [OF s(2) s3] by blast
qed

end
