(* ===== verification/BuddyProps.thy ===== *)
theory BuddyProps
  imports BuddyAlloc
begin

text \<open>
  Runs of the \<open>UserFrameAllocator\<close>: what is live is the set of blocks, with their orders,
  that were allocated and not freed.
\<close>

section \<open>A fresh allocator\<close>

lemma GetBit_zero: "i < n \<Longrightarrow> \<not> GetBitByIndex (replicate n 0) i"
proof -
  assume "i < n"
  then have "i div 32 < n" by (meson div_le_dividend le_less_trans)
  then show ?thesis by (simp add: GetBitByIndex_bit)
qed

lemma new_lists_rep: "pages_rep new_frame_lists (\<lambda>_. [])"
  unfolding pages_rep_def descs_rep_def by (intro exI [of _ "\<lambda>_. []"]) (auto simp: new_frame_lists_def circular_def)

lemma add_to_empty:
  "free_lists s i = 0 \<Longrightarrow>
    (case new_descriptor p s of (d, s') \<Rightarrow> set_list i d (dset_next d d (dset_prev d d s'))) = AddToFreeList i p s"
  by (auto simp: AddToFreeList_def new_descriptor_def frame_store_defs Let_def fun_eq_iff)

lemma new_buddy_fields [simp]:
  "start_phys_addr (new_buddy start K sz) = start" "max_order (new_buddy start K sz) = K"
  "frame_size (new_buddy start K sz) = sz" "need_merge (new_buddy start K sz) = replicate (2 ^ K - 1) 0"
  "block_splitted (new_buddy start K sz) = replicate (2 ^ K - 1) 0"
  "flists (new_buddy start K sz) = AddToFreeList K start new_frame_lists"
  using add_to_empty [of new_frame_lists K start]
  by (simp_all add: new_buddy_def PowerOf2_def new_descriptor_def new_frame_lists_def)

lemma new_buddy_ok:
  assumes "0 < start" "sz = 2 ^ f" "sz * 2 ^ K \<le> 2 ^ 32" "f < 32"
  shows "buddy_ok (new_buddy start K sz) ((\<lambda>_. [])(K := [0]))"
    "in_use (new_buddy start K sz) ((\<lambda>_. [])(K := [0])) = {}"
proof -
  let ?b = "new_buddy start K sz"
  have "LargestPowerOf2DivisorOrder (1 * 2 ^ f) = f"
    by (rule order_odd) (use assms(4) power_strict_increasing [of f 32 "2 :: nat"] in simp_all)
  then have "shape_ok ?b" using assms by (simp add: shape_ok_def frame_size_order_def)
  moreover have bits: "sp_of ?b = (\<lambda>_ _. False)" "nm_of ?b = (\<lambda>_ _. False)"
    using node_index_lt GetBit_zero by (auto simp: fun_eq_iff sp_of_def nm_of_def)
  moreover have "lists_ok ?b ((\<lambda>_. [])(K := [0]))"
  proof -
    have "addr_of ?b K 0 = start" by (simp add: addr_of_def)
    then show ?thesis
      using fl.add [OF new_lists_rep, of K start] by (simp add: lists_ok_def fun_upd_def if_distrib cong: if_cong)
  qed
  moreover have "tree_inv K (\<lambda>_ _. False) (\<lambda>_ _. False) ((\<lambda>_. [])(K := [0]))"
    by (auto simp: tree_inv_def node_def parent_split_def)
  ultimately show "buddy_ok ?b ((\<lambda>_. [])(K := [0]))" by (simp add: buddy_ok_def)
  show "in_use ?b ((\<lambda>_. [])(K := [0])) = {}"
    by (auto simp: in_use_def used_def bits node_def parent_split_def)
qed

lemma IsEmpty_ok:
  assumes ok: "buddy_ok b F" and none: "in_use b F = {}"
  shows "IsEmpty b"
proof -
  have rep: "pages_rep (flists b) (\<lambda>k. map (addr_of b k) (F k))" and inv: "tree_inv (max_order b) (sp_of b) (nm_of b) F"
    using ok by (simp_all add: buddy_ok_def lists_ok_def)
  show ?thesis
    using all_free [OF inv] none fl.is_empty [OF rep] by (auto simp: IsEmpty_def in_use_def)
qed

section \<open>What a block of an allocator covers\<close>

definition region :: "nat \<times> nat \<Rightarrow> nat set" where
  \<comment> \<open>the bytes of a block at an address, by its order\<close>
  "region b = (case b of (addr, order) \<Rightarrow> {addr ..< addr + 4096 * 2 ^ order})"

lemma region_iff:
  assumes "frame_size b = 4096"
  shows "x \<in> region (addr_of b k j, k) \<longleftrightarrow> start_phys_addr b \<le> x \<and> (x - start_phys_addr b) div 4096 \<in> units (k, j)"
proof -
  let ?c = "4096 * 2 ^ k :: nat" and ?y = "x - start_phys_addr b"
  have "x \<in> region (addr_of b k j, k) \<longleftrightarrow> start_phys_addr b \<le> x \<and> j * ?c \<le> ?y \<and> ?y < (j + 1) * ?c"
    using assms by (auto simp: region_def addr_of_def algebra_simps)
  also have "j * ?c \<le> ?y \<and> ?y < (j + 1) * ?c \<longleftrightarrow> ?y div ?c = j"
  proof
    assume "j * ?c \<le> ?y \<and> ?y < (j + 1) * ?c"
    then show "?y div ?c = j" by (intro div_nat_eqI) (auto simp: algebra_simps)
  next
    assume "?y div ?c = j"
    then show "j * ?c \<le> ?y \<and> ?y < (j + 1) * ?c"
      using dividend_less_div_times [of ?c ?y] div_times_less_eq_dividend [of ?y ?c] by (auto simp: algebra_simps)
  qed
  also have "?y div ?c = ?y div 4096 div 2 ^ k" by (simp add: div_mult2_eq)
  finally show ?thesis by (simp add: units_iff)
qed

lemma region_inside:
  assumes "frame_size b = 4096" "node (max_order b) k j" "max_order b = 13"
  shows "start_phys_addr b \<le> addr_of b k j" "addr_of b k j + 4096 * 2 ^ k \<le> start_phys_addr b + kSingleAllocatorSize"
proof -
  have "(j + 1) * 2 ^ k \<le> 2 ^ (13 - k) * (2 :: nat) ^ k" using assms by (intro mult_right_mono) (auto simp: node_def)
  also have "\<dots> = 2 ^ 13" using assms by (simp add: node_def flip: power_add)
  finally have "4096 * ((j + 1) * 2 ^ k) \<le> (4096 * 2 ^ 13 :: nat)" by simp
  then show "addr_of b k j + 4096 * 2 ^ k \<le> start_phys_addr b + kSingleAllocatorSize"
    using assms by (simp add: addr_of_def kSingleAllocatorSize_def algebra_simps)
qed (simp add: addr_of_def)

section \<open>The invariant of the frame allocator\<close>

definition blocks_of :: "buddy \<Rightarrow> (nat \<Rightarrow> nat list) \<Rightarrow> (nat \<times> nat) set" where
  "blocks_of b F = (\<lambda>(k, j). (addr_of b k j, k)) ` in_use b F"

definition buddies_ok :: "frame_allocator \<Rightarrow> (nat \<Rightarrow> nat \<Rightarrow> nat list) \<Rightarrow> bool" where
  "buddies_ok f G \<longleftrightarrow>
     physical_addr_boundary f = kAllocatablePhysicalAddrStart + length (allocators f) * kSingleAllocatorSize
   \<and> (\<forall>i < length (allocators f). buddy_ok (allocators f ! i) (G i) \<and> max_order (allocators f ! i) = 13
        \<and> frame_size (allocators f ! i) = 4096
        \<and> start_phys_addr (allocators f ! i) = kAllocatablePhysicalAddrStart + i * kSingleAllocatorSize)"

definition live_of :: "frame_allocator \<Rightarrow> (nat \<Rightarrow> nat \<Rightarrow> nat list) \<Rightarrow> (nat \<times> nat) set" where
  "live_of f G = (\<Union>i < length (allocators f). blocks_of (allocators f ! i) (G i))"

lemma same_shape_blocks:
  assumes "same_shape b b'"
  shows "blocks_of b' F' = (\<lambda>(k, j). (addr_of b k j, k)) ` in_use b' F'"
  using same_shapeD(2) [OF assms] by (simp add: blocks_of_def)

text \<open>One allocator is replaced by another of its shape.\<close>

lemma buddies_update:
  assumes ok: "buddies_ok f G" and i: "i < length (allocators f)"
    and b: "buddy_ok b' F'" "same_shape (allocators f ! i) b'"
  defines "f' \<equiv> f\<lparr>allocators := (allocators f)[i := b']\<rparr>"
  shows "buddies_ok f' (G(i := F'))"
    "live_of f' (G(i := F')) = blocks_of b' F' \<union> (\<Union>l \<in> {..< length (allocators f)} - {i}. blocks_of (allocators f ! l) (G l))"
proof -
  show "buddies_ok f' (G(i := F'))"
    using ok b same_shapeD(3-5) [OF b(2)] i by (auto simp: buddies_ok_def f'_def nth_list_update)
  have "live_of f' (G(i := F')) = (\<Union>l < length (allocators f). if l = i then blocks_of b' F' else blocks_of (allocators f ! l) (G l))"
    unfolding live_of_def f'_def by (intro SUP_cong) (auto simp: nth_list_update)
  then show "live_of f' (G(i := F')) = blocks_of b' F' \<union> (\<Union>l \<in> {..< length (allocators f)} - {i}. blocks_of (allocators f ! l) (G l))"
    using i by (auto split: if_splits)
qed

lemma live_split:
  "i < length (allocators f) \<Longrightarrow>
    live_of f G = blocks_of (allocators f ! i) (G i) \<union> (\<Union>l \<in> {..< length (allocators f)} - {i}. blocks_of (allocators f ! l) (G l))"
  by (auto simp: live_of_def)

lemma blocks_inside:
  assumes ok: "buddies_ok f G" and i: "i < length (allocators f)" and x: "x \<in> blocks_of (allocators f ! i) (G i)"
  shows "region x \<subseteq> {kAllocatablePhysicalAddrStart + i * kSingleAllocatorSize
           ..< kAllocatablePhysicalAddrStart + (i + 1) * kSingleAllocatorSize}"
    "(fst x - kAllocatablePhysicalAddrStart) div kSingleAllocatorSize = i"
    "kAllocatablePhysicalAddrStart \<le> fst x" "fst x < physical_addr_boundary f"
proof -
  let ?b = "allocators f ! i"
  have b: "max_order ?b = 13" "frame_size ?b = 4096"
    "start_phys_addr ?b = kAllocatablePhysicalAddrStart + i * kSingleAllocatorSize"
    "physical_addr_boundary f = kAllocatablePhysicalAddrStart + length (allocators f) * kSingleAllocatorSize"
    using ok i by (simp_all add: buddies_ok_def)
  obtain k j where kj: "x = (addr_of ?b k j, k)" "node (max_order ?b) k j"
    using x by (auto simp: blocks_of_def in_use_def used_def)
  note r = region_inside [OF b(2) kj(2) b(1), unfolded b(3)]
  show "region x \<subseteq> {kAllocatablePhysicalAddrStart + i * kSingleAllocatorSize
           ..< kAllocatablePhysicalAddrStart + (i + 1) * kSingleAllocatorSize}"
    using r by (auto simp: kj(1) region_def)
  have p: "0 < kSingleAllocatorSize" by (simp add: kSingleAllocatorSize_def)
  obtain y where y: "fst x = kAllocatablePhysicalAddrStart + i * kSingleAllocatorSize + y"
    using r(1) kj(1) by (auto simp: le_iff_add)
  have "(0 :: nat) < 4096 * 2 ^ k" by simp
  moreover have "y + 4096 * 2 ^ k \<le> kSingleAllocatorSize" using r(2) y kj(1) by simp
  ultimately have "y < kSingleAllocatorSize" by linarith
  then show "(fst x - kAllocatablePhysicalAddrStart) div kSingleAllocatorSize = i" using y p by simp
  show "kAllocatablePhysicalAddrStart \<le> fst x" using y by simp
  have "(i + 1) * kSingleAllocatorSize \<le> length (allocators f) * kSingleAllocatorSize"
    using i by (intro mult_right_mono) simp_all
  then show "fst x < physical_addr_boundary f" using y \<open>y < kSingleAllocatorSize\<close> b(4) by simp
qed

text \<open>Live blocks do not overlap.\<close>

lemma live_apart:
  assumes ok: "buddies_ok f G" and x: "x \<in> live_of f G" "y \<in> live_of f G" "x \<noteq> y"
  shows "region x \<inter> region y = {}"
proof -
  obtain i l where i: "i < length (allocators f)" "x \<in> blocks_of (allocators f ! i) (G i)"
    "l < length (allocators f)" "y \<in> blocks_of (allocators f ! l) (G l)"
    using x by (auto simp: live_of_def)
  show ?thesis
  proof (cases "i = l")
    case True
    let ?b = "allocators f ! i"
    obtain k j k' j' where kj: "x = (addr_of ?b k j, k)" "y = (addr_of ?b k' j', k')" "(k, j) \<in> in_use ?b (G i)" "(k', j') \<in> in_use ?b (G i)"
      using i True by (auto simp: blocks_of_def)
    have "frame_size ?b = 4096" "tree_inv (max_order ?b) (sp_of ?b) (nm_of ?b) (G i)"
      using ok i(1) unfolding buddies_ok_def buddy_ok_def by blast+
    moreover have "(k, j) \<noteq> (k', j')" using kj(1,2) x(3) by auto
    ultimately show ?thesis
      using used_apart [of "max_order ?b" "sp_of ?b" "nm_of ?b" "G i" "(k, j)" "(k', j')"] kj
      by (auto simp: region_iff in_use_def)
  next
    case False
    have le: "(i + 1) * s \<le> l * s" if "i < l" for s i l :: nat
      using that by (intro mult_right_mono) simp_all
    have apart: "{a + i * s ..< a + (i + 1) * s} \<inter> {a + l * s ..< a + (l + 1) * s} = {}" for a s
      using le [of i l s] le [of l i s] False by (cases "i < l") auto
    from Int_mono [OF blocks_inside(1) [OF ok i(1,2)] blocks_inside(1) [OF ok i(3,4)]]
    show ?thesis unfolding apart by simp
  qed
qed

section \<open>Operations\<close>

lemma GetFrame_cases:
  assumes ok: "buddy_ok b F" and max: "max_order b = 13"
  obtains "GetFrame order b = (0, b)" "\<And>i. order \<le> i \<Longrightarrow> i \<le> 13 \<Longrightarrow> F i = []"
  | j b' F' where "GetFrame order b = (addr_of b order j, b')" "addr_of b order j \<noteq> 0" "buddy_ok b' F'" "same_shape b b'"
      "(order, j) \<notin> in_use b F" "in_use b' F' = insert (order, j) (in_use b F)"
proof (cases "\<exists>i. order \<le> i \<and> i \<le> 13 \<and> F i \<noteq> []")
  case False
  then show ?thesis using that(1) GetFrame_none [OF ok, of order] max by auto
next
  case True
  define i where "i = (LEAST i. order \<le> i \<and> i \<le> 13 \<and> F i \<noteq> [])"
  have i: "order \<le> i" "i \<le> 13" "F i \<noteq> []"
    unfolding i_def using LeastI_ex [OF True] by blast+
  have "F i' = []" if "order \<le> i'" "i' < i" for i'
    using not_less_Least [of i' "\<lambda>i. order \<le> i \<and> i \<le> 13 \<and> F i \<noteq> []"] that i unfolding i_def [symmetric] by auto
  then obtain j b' F' where g: "GetFrame order b = (addr_of b order j, b')" "buddy_ok b' F'" "same_shape b b'"
    "(order, j) \<notin> in_use b F" "in_use b' F' = insert (order, j) (in_use b F)"
    using GetFrame_some [OF ok i(1) _ i(3)] i(2) max by metis
  have "0 < start_phys_addr b" using ok by (simp add: buddy_ok_def shape_ok_def)
  then have "addr_of b order j \<noteq> 0" by (simp add: addr_of_def)
  then show ?thesis using that(2) [OF g(1) _ g(2-5)] by blast
qed

lemma first_frame_cases:
  assumes "\<And>i. i < length bs \<Longrightarrow> buddy_ok (bs ! i) (G i) \<and> max_order (bs ! i) = 13"
  shows "first_frame order bs = (0, bs)
     \<or> (\<exists>i j b' F'. i < length bs \<and> first_frame order bs = (addr_of (bs ! i) order j, bs[i := b'])
          \<and> addr_of (bs ! i) order j \<noteq> 0 \<and> buddy_ok b' F' \<and> same_shape (bs ! i) b' \<and> (order, j) \<notin> in_use (bs ! i) (G i)
          \<and> in_use b' F' = insert (order, j) (in_use (bs ! i) (G i)))"
  using assms
proof (induction bs arbitrary: G)
  case (Cons b bs)
  have b: "buddy_ok b (G 0)" "max_order b = 13" using Cons.prems [of 0] by simp_all
  have tl: "buddy_ok (bs ! i) (G (Suc i)) \<and> max_order (bs ! i) = 13" if "i < length bs" for i
    using Cons.prems [of "Suc i"] that by simp
  show ?case
  proof (rule GetFrame_cases [OF b, of order])
    fix j b' F'
    assume "GetFrame order b = (addr_of b order j, b')" "addr_of b order j \<noteq> 0" "buddy_ok b' F'" "same_shape b b'"
      "(order, j) \<notin> in_use b (G 0)" "in_use b' F' = insert (order, j) (in_use b (G 0))"
    then show ?thesis by (intro disjI2 exI [of _ 0] exI [of _ j] exI [of _ b'] exI [of _ F']) simp
  next
    assume none: "GetFrame order b = (0, b)"
    have "first_frame order bs = (0, bs)
     \<or> (\<exists>i j b' F'. i < length bs \<and> first_frame order bs = (addr_of (bs ! i) order j, bs[i := b'])
          \<and> addr_of (bs ! i) order j \<noteq> 0 \<and> buddy_ok b' F' \<and> same_shape (bs ! i) b'
          \<and> (order, j) \<notin> in_use (bs ! i) (G (Suc i))
          \<and> in_use b' F' = insert (order, j) (in_use (bs ! i) (G (Suc i))))"
      by (rule Cons.IH [of "\<lambda>i. G (Suc i)"]) (rule tl)
    then show ?thesis
    proof (elim disjE exE conjE)
      assume "first_frame order bs = (0, bs)"
      then show ?thesis using none by simp
    next
      fix i j b' F'
      assume "i < length bs" "first_frame order bs = (addr_of (bs ! i) order j, bs[i := b'])"
        "addr_of (bs ! i) order j \<noteq> 0" "buddy_ok b' F'" "same_shape (bs ! i) b'" "(order, j) \<notin> in_use (bs ! i) (G (Suc i))"
        "in_use b' F' = insert (order, j) (in_use (bs ! i) (G (Suc i)))"
      then show ?thesis using none
        by (intro disjI2 exI [of _ "Suc i"] exI [of _ j] exI [of _ b'] exI [of _ F']) simp
    qed
  qed
qed simp

lemma blocks_insert:
  assumes "same_shape b b'" "in_use b' F' = insert (k, j) (in_use b F)"
  shows "blocks_of b' F' = insert (addr_of b k j, k) (blocks_of b F)"
  unfolding same_shape_blocks [OF assms(1)] assms(2) by (simp add: blocks_of_def)

lemma blocks_apart_allocators:
  assumes ok: "buddies_ok f G" and "i < length (allocators f)" "l < length (allocators f)" "l \<noteq> i"
    and "x \<in> blocks_of (allocators f ! i) (G i)"
  shows "x \<notin> blocks_of (allocators f ! l) (G l)"
  using blocks_inside(2) [OF ok assms(2,5)] blocks_inside(2) [OF ok assms(3)] assms(4) by blast

text \<open>A new allocator starts with nothing in use.\<close>

lemma add_allocator_ok:
  assumes ok: "buddies_ok f G"
  defines "n \<equiv> length (allocators f)"
  shows "buddies_ok (add_allocator f) (G(n := (\<lambda>_. [])(13 := [0])))"
    "live_of (add_allocator f) (G(n := (\<lambda>_. [])(13 := [0]))) = live_of f G"
    "length (allocators (add_allocator f)) = Suc n"
    "allocators (add_allocator f) ! n = new_buddy (physical_addr_boundary f) 13 4096"
proof -
  have "0 < physical_addr_boundary f" using ok by (simp add: buddies_ok_def kAllocatablePhysicalAddrStart_def)
  note nb = new_buddy_ok [OF this, of 4096 12 13]
  show "buddies_ok (add_allocator f) (G(n := (\<lambda>_. [])(13 := [0])))"
    using ok nb by (auto simp: buddies_ok_def add_allocator_def nth_append n_def less_Suc_eq)
  show "live_of (add_allocator f) (G(n := (\<lambda>_. [])(13 := [0]))) = live_of f G"
  proof -
    have "blocks_of (new_buddy (physical_addr_boundary f) 13 4096) ((\<lambda>_. [])(13 := [0])) = {}"
      using nb(2) by (simp add: blocks_of_def)
    then show ?thesis by (simp add: live_of_def add_allocator_def n_def lessThan_Suc nth_append)
  qed
qed (simp_all add: add_allocator_def n_def)

lemma AllocateFrame_ok:
  assumes ok: "buddies_ok f G" and order: "order \<le> 13"
  shows "\<exists>a f' G'. AllocateFrame order f = (a, f') \<and> buddies_ok f' G' \<and> (a, order) \<notin> live_of f G
     \<and> live_of f' G' = insert (a, order) (live_of f G)"
proof -
  have took: "buddies_ok (f1\<lparr>allocators := (allocators f1)[i := b']\<rparr>) (G1(i := F'))
      \<and> (addr_of (allocators f1 ! i) order j, order) \<notin> live_of f1 G1
      \<and> live_of (f1\<lparr>allocators := (allocators f1)[i := b']\<rparr>) (G1(i := F'))
        = insert (addr_of (allocators f1 ! i) order j, order) (live_of f1 G1)"
    if f1: "buddies_ok f1 G1" "i < length (allocators f1)" and b': "buddy_ok b' F'" "same_shape (allocators f1 ! i) b'"
      "(order, j) \<notin> in_use (allocators f1 ! i) (G1 i)" "in_use b' F' = insert (order, j) (in_use (allocators f1 ! i) (G1 i))"
    for f1 G1 i b' F' j
  proof -
    let ?b = "allocators f1 ! i" and ?a = "addr_of (allocators f1 ! i) order j"
    note u = buddies_update [OF f1 b'(1,2)]
    have bl: "blocks_of b' F' = insert (?a, order) (blocks_of ?b (G1 i))" by (rule blocks_insert [OF b'(2,4)])
    have "0 < frame_size ?b" using f1 by (simp add: buddies_ok_def)
    then have "(?a, order) \<notin> blocks_of ?b (G1 i)" using b'(3) addr_of_inj by (auto simp: blocks_of_def)
    moreover have "(?a, order) \<notin> blocks_of (allocators f1 ! l) (G1 l)" if "l < length (allocators f1)" "l \<noteq> i" for l
      using blocks_apart_allocators [OF u(1), of i l "(?a, order)"] that f1(2) bl by simp
    ultimately have "(?a, order) \<notin> live_of f1 G1" by (auto simp: live_of_def)
    then show ?thesis using u bl live_split [OF f1(2), of G1] by simp
  qed
  have each: "buddy_ok (allocators f ! i) (G i) \<and> max_order (allocators f ! i) = 13" if "i < length (allocators f)" for i
    using ok that by (simp add: buddies_ok_def)
  have "first_frame order (allocators f) = (0, allocators f)
     \<or> (\<exists>i j b' F'. i < length (allocators f)
          \<and> first_frame order (allocators f) = (addr_of (allocators f ! i) order j, (allocators f)[i := b'])
          \<and> addr_of (allocators f ! i) order j \<noteq> 0 \<and> buddy_ok b' F' \<and> same_shape (allocators f ! i) b'
          \<and> (order, j) \<notin> in_use (allocators f ! i) (G i)
          \<and> in_use b' F' = insert (order, j) (in_use (allocators f ! i) (G i)))"
    by (rule first_frame_cases) (rule each)
  then show ?thesis
  proof (elim disjE exE conjE)
    fix i j b' F'
    assume i: "i < length (allocators f)" and r: "first_frame order (allocators f) = (addr_of (allocators f ! i) order j, (allocators f)[i := b'])"
      "addr_of (allocators f ! i) order j \<noteq> 0" and b': "buddy_ok b' F'" "same_shape (allocators f ! i) b'" "(order, j) \<notin> in_use (allocators f ! i) (G i)"
        "in_use b' F' = insert (order, j) (in_use (allocators f ! i) (G i))"
    show ?thesis using took [OF ok i b'] r order unfolding AllocateFrame_def by auto
  next
    assume none: "first_frame order (allocators f) = (0, allocators f)"
    let ?f = "add_allocator f" and ?n = "length (allocators f)"
    let ?G = "G(?n := (\<lambda>_. [])(13 := [0]))" and ?b = "new_buddy (physical_addr_boundary f) 13 4096"
    note ad = add_allocator_ok [OF ok]
    have last: "last (allocators ?f) = ?b" "butlast (allocators ?f) = allocators f" by (simp_all add: add_allocator_def)
    have b: "buddy_ok ?b ((\<lambda>_. [])(13 := [0]))" using ad(1,3,4) unfolding buddies_ok_def by (metis fun_upd_same lessI)
    show ?thesis
    proof (rule GetFrame_cases [OF b new_buddy_fields(2), of order])
      assume "\<And>i. order \<le> i \<Longrightarrow> i \<le> 13 \<Longrightarrow> ((\<lambda>_. [])(13 := [0 :: nat])) i = []"
      from this [of 13] order show ?thesis by simp
    next
      fix j b' F'
      assume g: "GetFrame order ?b = (addr_of ?b order j, b')" "addr_of ?b order j \<noteq> 0" "buddy_ok b' F'" "same_shape ?b b'"
        "(order, j) \<notin> in_use ?b ((\<lambda>_. [])(13 := [0]))" "in_use b' F' = insert (order, j) (in_use ?b ((\<lambda>_. [])(13 := [0])))"
      have upd: "(allocators ?f)[?n := b'] = allocators f @ [b']" by (simp add: add_allocator_def)
      have "AllocateFrame order f = (addr_of ?b order j, ?f\<lparr>allocators := allocators f @ [b']\<rparr>)"
        using none order last g(1) by (simp add: AllocateFrame_def Let_def)
      then show ?thesis
        using took [OF ad(1), of ?n b' F' j, unfolded ad(3,4) upd fun_upd_same] g ad(2) by auto
    qed
  qed
qed

lemma FreePhysicalFrame_ok:
  assumes ok: "buddies_ok f G" and live: "(a, order) \<in> live_of f G"
  shows "\<exists>f' G'. FreePhysicalFrame a f = Some f' \<and> buddies_ok f' G' \<and> live_of f' G' = live_of f G - {(a, order)}"
proof -
  obtain i where i: "i < length (allocators f)" "(a, order) \<in> blocks_of (allocators f ! i) (G i)"
    using live by (auto simp: live_of_def)
  let ?b = "allocators f ! i"
  obtain j where j: "a = addr_of ?b order j" "(order, j) \<in> in_use ?b (G i)" using i(2) by (auto simp: blocks_of_def)
  note ins = blocks_inside [OF ok i, unfolded fst_conv]
  have b: "buddy_ok ?b (G i)" "0 < frame_size ?b" using ok i(1) by (simp_all add: buddies_ok_def)
  obtain b' F' where r: "FreeFrame a ?b = Some b'" "buddy_ok b' F'" "same_shape ?b b'" "in_use b' F' = in_use ?b (G i) - {(order, j)}"
    using FreeFrame_ok [OF b(1) j(2)] j(1) by blast
  let ?f = "f\<lparr>allocators := (allocators f)[i := b']\<rparr>"
  have "FreePhysicalFrame a f = Some ?f"
    using ins i(1) r(1) by (simp add: FreePhysicalFrame_def Let_def)
  moreover note u = buddies_update [OF ok i(1) r(2,3)]
  moreover have "blocks_of b' F' = blocks_of ?b (G i) - {(a, order)}"
    unfolding same_shape_blocks [OF r(3)] r(4) j(1) unfolding blocks_of_def
    using addr_of_inj [OF b(2), of order] by (auto simp: image_iff)
  moreover have "(a, order) \<notin> blocks_of (allocators f ! l) (G l)" if "l < length (allocators f)" "l \<noteq> i" for l
    using blocks_apart_allocators [OF ok i(1) that i(2)] .
  ultimately show ?thesis using live_split [OF i(1), of G] by (intro exI [of _ ?f] exI [of _ "G(i := F')"]) auto
qed

section \<open>Runs\<close>

text \<open>\<open>frame_run f L\<close>: the kernel allocated frames and freed live ones, and L are the blocks
  that are live, with their orders.\<close>

inductive frame_run :: "frame_allocator \<Rightarrow> (nat \<times> nat) set \<Rightarrow> bool" where
  start: "frame_run new_frame_allocator {}"
| alloc: "frame_run f L \<Longrightarrow> order \<le> 13 \<Longrightarrow> AllocateFrame order f = (a, f') \<Longrightarrow> frame_run f' (insert (a, order) L)"
| free: "frame_run f L \<Longrightarrow> (a, order) \<in> L \<Longrightarrow> FreePhysicalFrame a f = Some f' \<Longrightarrow> frame_run f' (L - {(a, order)})"

lemma frame_run_ok: "frame_run f L \<Longrightarrow> \<exists>G. buddies_ok f G \<and> live_of f G = L"
proof (induction rule: frame_run.induct)
  case start
  let ?f = "\<lparr>allocators = [], physical_addr_boundary = kAllocatablePhysicalAddrStart\<rparr>"
  have "buddies_ok ?f (\<lambda>_ _. [])" "live_of ?f (\<lambda>_ _. []) = {}" by (simp_all add: buddies_ok_def live_of_def)
  then show ?case using add_allocator_ok [of ?f "\<lambda>_ _. []"] unfolding new_frame_allocator_def by blast
next
  case (alloc f L order a f')
  then obtain G where "buddies_ok f G" "live_of f G = L" by blast
  then show ?case using AllocateFrame_ok [of f G order] alloc.hyps by auto
next
  case (free f L a order f')
  then obtain G where "buddies_ok f G" "live_of f G = L" by blast
  then show ?case using FreePhysicalFrame_ok [of f G a order] free.hyps by auto
qed

lemma aligned:
  assumes ok: "buddies_ok f G" and x: "(a, order) \<in> live_of f G"
  shows "4096 * 2 ^ order dvd a" "order \<le> 13"
proof -
  obtain i j where i: "i < length (allocators f)" "a = addr_of (allocators f ! i) order j" "(order, j) \<in> in_use (allocators f ! i) (G i)"
    using x by (auto simp: live_of_def blocks_of_def)
  then show o: "order \<le> 13" using ok by (auto simp: buddies_ok_def in_use_def used_def node_def)
  have "(4096 * 2 ^ 13 :: nat) dvd kAllocatablePhysicalAddrStart + i * kSingleAllocatorSize"
    by (intro dvd_add) (simp_all add: kAllocatablePhysicalAddrStart_def kSingleAllocatorSize_def)
  moreover have "(4096 * 2 ^ order :: nat) dvd 4096 * 2 ^ 13"
    by (intro mult_dvd_mono le_imp_power_dvd) (use o in simp_all)
  ultimately have "4096 * 2 ^ order dvd kAllocatablePhysicalAddrStart + i * kSingleAllocatorSize" by (rule dvd_trans [rotated])
  then show "4096 * 2 ^ order dvd a" using i ok by (simp add: addr_of_def buddies_ok_def)
qed

lemma first_block:
  obtains a f' where "AllocateFrame 3 new_frame_allocator = (a, f')" "frame_run f' {(a, 3)}"
proof -
  obtain a f' where "AllocateFrame 3 new_frame_allocator = (a, f')" by fastforce
  then show ?thesis using that frame_run.alloc [OF frame_run.start, of 3] by auto
qed

section \<open>Properties\<close>

text \<open>C7: For every order up to 13 \<open>AllocateFrame\<close> returns a block: not null, aligned to its
  size, inside the memory the allocator manages, and apart from every live block.\<close>

theorem AllocateFrame_fresh:
  assumes "frame_run f L" "order \<le> 13"
  shows "\<exists>a f'. AllocateFrame order f = (a, f') \<and> a \<noteq> 0 \<and> 4096 * 2 ^ order dvd a
     \<and> region (a, order) \<subseteq> {kAllocatablePhysicalAddrStart ..< physical_addr_boundary f'}
     \<and> (\<forall>b \<in> L. region (a, order) \<inter> region b = {})"
proof -
  obtain G where G: "buddies_ok f G" "live_of f G = L" using frame_run_ok [OF assms(1)] by blast
  obtain a f' G' where r: "AllocateFrame order f = (a, f')" "buddies_ok f' G'" "(a, order) \<notin> L"
    "live_of f' G' = insert (a, order) L"
    using AllocateFrame_ok [OF G(1) assms(2)] G(2) by blast
  obtain i where i: "i < length (allocators f')" "(a, order) \<in> blocks_of (allocators f' ! i) (G' i)"
    using r(4) by (auto simp: live_of_def)
  note ins = blocks_inside [OF r(2) i]
  have "(i + 1) * kSingleAllocatorSize \<le> length (allocators f') * kSingleAllocatorSize"
    using i(1) by (intro mult_right_mono) simp_all
  then have "region (a, order) \<subseteq> {kAllocatablePhysicalAddrStart ..< physical_addr_boundary f'}"
    using ins(1) r(2) by (fastforce simp: buddies_ok_def)
  moreover have "a \<noteq> 0" using ins(3) by (simp add: kAllocatablePhysicalAddrStart_def)
  moreover have "\<forall>b \<in> L. region (a, order) \<inter> region b = {}"
    using live_apart [OF r(2)] r(3,4) by blast
  moreover have "4096 * 2 ^ order dvd a" by (rule aligned(1) [OF r(2)]) (simp add: r(4))
  ultimately show ?thesis using r(1) by blast
qed

theorem AllocateFrame_fresh_witness:
  "\<exists>a f'. AllocateFrame 3 new_frame_allocator = (a, f') \<and> a \<noteq> 0 \<and> 4096 * 2 ^ 3 dvd a"
  using AllocateFrame_fresh [OF frame_run.start, of 3] by auto

text \<open>A live block can be freed by its address alone: \<open>FreeFrame\<close> does not fail, and the
  other blocks stay live and apart.\<close>

theorem FreeFrame_live:
  assumes "frame_run f L" "(a, order) \<in> L"
  shows "\<exists>f'. FreePhysicalFrame a f = Some f' \<and> frame_run f' (L - {(a, order)})
     \<and> (\<forall>b \<in> L. \<forall>b' \<in> L. b \<noteq> b' \<longrightarrow> region b \<inter> region b' = {})"
proof -
  obtain G where G: "buddies_ok f G" "live_of f G = L" using frame_run_ok [OF assms(1)] by blast
  then obtain f' where "FreePhysicalFrame a f = Some f'" using FreePhysicalFrame_ok [OF G(1)] assms(2) by blast
  then show ?thesis using frame_run.free [OF assms] live_apart [OF G(1)] G(2) by blast
qed

theorem FreeFrame_live_witness:
  "\<exists>a f' f''. AllocateFrame 3 new_frame_allocator = (a, f') \<and> FreePhysicalFrame a f' = Some f''"
proof -
  obtain a f' where "AllocateFrame 3 new_frame_allocator = (a, f')" "frame_run f' {(a, 3)}"
    using first_block .
  then show ?thesis using FreeFrame_live [of f' "{(a, 3)}" a 3] by auto
qed

text \<open>C17: When every block was freed the buddies have merged back: each allocator has one free
  block, of its largest order.\<close>

theorem all_frames_merge:
  assumes "frame_run f {}"
  shows "list_all IsEmpty (allocators f)"
proof -
  obtain G where G: "buddies_ok f G" "live_of f G = {}" using frame_run_ok [OF assms] by blast
  have "IsEmpty (allocators f ! i)" if i: "i < length (allocators f)" for i
  proof (rule IsEmpty_ok)
    show "buddy_ok (allocators f ! i) (G i)" using G(1) i by (simp add: buddies_ok_def)
    show "in_use (allocators f ! i) (G i) = {}"
      using G(2) i unfolding live_of_def blocks_of_def by blast
  qed
  then show ?thesis by (simp add: list_all_length)
qed

theorem all_frames_merge_witness:
  "\<exists>a f' f''. AllocateFrame 3 new_frame_allocator = (a, f') \<and> FreePhysicalFrame a f' = Some f''
     \<and> list_all IsEmpty (allocators f'')"
proof -
  obtain a f' where a: "AllocateFrame 3 new_frame_allocator = (a, f')" "frame_run f' {(a, 3)}"
    using first_block .
  then obtain G where "buddies_ok f' G" "live_of f' G = {(a, 3)}" using frame_run_ok by blast
  then obtain f'' where f'': "FreePhysicalFrame a f' = Some f''" using FreePhysicalFrame_ok [of f' G a 3] by auto
  then have "frame_run f'' {}" using frame_run.free [OF a(2), of a 3] by simp
  then show ?thesis using a(1) f'' all_frames_merge by blast
qed

end
