(* ===== verification/Printf.thy ===== *)
theory Printf
  imports ScanfProps
begin

text \<open>
  The formatted output of \<open>kernel/std/printf.cc\<close> and \<open>user/libc/printf.c\<close>, the same code
  twice: the kernel's copy is compiled without floating point, the user's with it
  (\<open>floats\<close>). An output function takes a character, the index it goes to and the state of the
  sink. A conversion buffer is the list of the characters in it. A format is the bytes before
  its terminator; an argument is a 64 bit slot or, for a \<open>char *\<close>, the bytes of the string.
  None is what C leaves undefined (a missing argument, one of the wrong type, reading past the
  terminator of the format), and a floating-point conversion of the user's copy, which is not
  modelled.
\<close>

section \<open>Output functions\<close>

type_synonym byte = "8 word"
type_synonym 's out_fct_type = "byte \<Rightarrow> nat \<Rightarrow> 's \<Rightarrow> 's"

datatype flag = FLAGS_ZEROPAD | FLAGS_LEFT | FLAGS_PLUS | FLAGS_SPACE | FLAGS_HASH | FLAGS_UPPERCASE
  | FLAGS_CHAR | FLAGS_SHORT | FLAGS_LONG | FLAGS_LONG_LONG | FLAGS_PRECISION

definition PRINTF_NTOA_BUFFER_SIZE :: nat where
  "PRINTF_NTOA_BUFFER_SIZE = 32"

definition out_buffer :: "nat \<Rightarrow> nat \<Rightarrow> mem out_fct_type" where
  "out_buffer buffer maxlen character idx m = (if idx < maxlen then m(buffer + idx := character) else m)"

definition out_null :: "'s out_fct_type" where
  "out_null character idx s = s"

definition out_char :: "(byte \<Rightarrow> 's \<Rightarrow> 's) \<Rightarrow> 's out_fct_type" where
  \<comment> \<open>\<open>_out_char\<close>, over the \<open>_putchar\<close> of the program\<close>
  "out_char putchar character idx s = (if character \<noteq> 0 then putchar character s else s)"

definition out_fct :: "(byte \<Rightarrow> 'a \<Rightarrow> 's \<Rightarrow> 's) \<Rightarrow> 'a \<Rightarrow> 's out_fct_type" where
  \<comment> \<open>\<open>_out_fct\<close>, with the function and the argument it wraps\<close>
  "out_fct fct arg character idx s = (if character \<noteq> 0 then fct character arg s else s)"

definition user_putchar :: "byte \<Rightarrow> 's \<Rightarrow> 's" where
  \<comment> \<open>\<open>_putchar\<close> of the user's copy\<close>
  "user_putchar c s = s"

text \<open>A loop of \<open>out(c, buffer, idx++, maxlen)\<close>.\<close>

fun out_chars :: "'s out_fct_type \<Rightarrow> byte list \<Rightarrow> nat \<times> 's \<Rightarrow> nat \<times> 's" where
  "out_chars out [] st = st"
| "out_chars out (c # cs) (idx, s) = out_chars out cs (idx + 1, out c idx s)"

definition spaces :: "nat \<Rightarrow> byte list" where
  "spaces n = replicate n 32"

section \<open>Parsing helpers\<close>

fun strnlen_s :: "byte list \<Rightarrow> nat \<Rightarrow> nat" where
  "strnlen_s [] maxsize = 0"
| "strnlen_s (c # cs) maxsize = (if maxsize = 0 then 0 else Suc (strnlen_s cs (maxsize - 1)))"

definition is_digit :: "byte \<Rightarrow> bool" where
  "is_digit ch \<longleftrightarrow> 48 \<le> sint ch \<and> sint ch \<le> 57"

fun atoi_fmt :: "byte list \<Rightarrow> nat \<Rightarrow> nat \<times> byte list" where
  \<comment> \<open>\<open>_atoi\<close>\<close>
  "atoi_fmt [] i = (i, [])"
| "atoi_fmt (c # cs) i = (if is_digit c then atoi_fmt cs (u32 (i * 10 + (unat c - 48))) else (i, c # cs))"

definition next_char :: "byte list \<Rightarrow> byte" where
  \<comment> \<open>\<open>*format\<close>\<close>
  "next_char fmt = hd_or 0 fmt"

section \<open>Integers\<close>

definition out_rev :: "'s out_fct_type \<Rightarrow> byte list \<Rightarrow> nat \<Rightarrow> flag set \<Rightarrow> nat \<times> 's \<Rightarrow> nat \<times> 's" where
  "out_rev out buf width flags st =
     (let start_idx = fst st;
          st1 = (if FLAGS_LEFT \<notin> flags \<and> FLAGS_ZEROPAD \<notin> flags
                 then out_chars out (spaces (width - length buf)) st else st);
          st2 = out_chars out (rev buf) st1
      in if FLAGS_LEFT \<in> flags then out_chars out (spaces (width - (fst st2 - start_idx))) st2 else st2)"

definition pad_zeros :: "nat \<Rightarrow> byte list \<Rightarrow> byte list" where
  "pad_zeros n buf = buf @ replicate (min n PRINTF_NTOA_BUFFER_SIZE - length buf) 48"

definition push_char :: "byte \<Rightarrow> byte list \<Rightarrow> byte list" where
  \<comment> \<open>\<open>if (len < PRINTF_NTOA_BUFFER_SIZE) buf[len++] = c\<close>\<close>
  "push_char c buf = (if length buf < PRINTF_NTOA_BUFFER_SIZE then buf @ [c] else buf)"

definition hash_prefix :: "nat \<Rightarrow> nat \<Rightarrow> nat \<Rightarrow> flag set \<Rightarrow> byte list \<Rightarrow> byte list" where
  "hash_prefix base prec width flags buf =
     (let len = length buf;
          buf1 = (if FLAGS_PRECISION \<notin> flags \<and> len \<noteq> 0 \<and> (len = prec \<or> len = width) then
                    (if butlast buf \<noteq> [] \<and> base = 16 then butlast (butlast buf) else butlast buf)
                  else buf);
          buf2 = (if base = 16 \<and> FLAGS_UPPERCASE \<notin> flags then push_char 120 buf1
                  else if base = 16 \<and> FLAGS_UPPERCASE \<in> flags then push_char 88 buf1
                  else if base = 2 then push_char 98 buf1
                  else buf1)
      in push_char 48 buf2)"

definition ntoa_format :: "'s out_fct_type \<Rightarrow> byte list \<Rightarrow> bool \<Rightarrow> nat \<Rightarrow> nat \<Rightarrow> nat \<Rightarrow> flag set \<Rightarrow> nat \<times> 's \<Rightarrow> nat \<times> 's" where
  "ntoa_format out buf negative base prec width0 flags st =
     (let width = (if FLAGS_LEFT \<notin> flags \<and> width0 \<noteq> 0 \<and> FLAGS_ZEROPAD \<in> flags
                      \<and> (negative \<or> FLAGS_PLUS \<in> flags \<or> FLAGS_SPACE \<in> flags)
                   then width0 - 1 else width0);
          buf1 = (if FLAGS_LEFT \<notin> flags then
                    (let b = pad_zeros prec buf in if FLAGS_ZEROPAD \<in> flags then pad_zeros width b else b)
                  else buf);
          buf2 = (if FLAGS_HASH \<in> flags then hash_prefix base prec width flags buf1 else buf1);
          buf3 = (if negative then push_char 45 buf2
                  else if FLAGS_PLUS \<in> flags then push_char 43 buf2
                  else if FLAGS_SPACE \<in> flags then push_char 32 buf2
                  else buf2)
      in out_rev out buf3 width flags st)"

definition digit_char :: "flag set \<Rightarrow> nat \<Rightarrow> byte" where
  "digit_char flags digit =
     (if digit < 10 then word_of_nat (48 + digit)
      else word_of_nat ((if FLAGS_UPPERCASE \<in> flags then 65 else 97) + digit - 10))"

function ntoa_digits :: "nat \<Rightarrow> flag set \<Rightarrow> nat \<Rightarrow> byte list \<Rightarrow> byte list" where
  "ntoa_digits base flags value buf =
     (let buf1 = buf @ [digit_char flags (value mod base)]; value1 = value div base
      in if value1 \<noteq> 0 \<and> length buf1 < PRINTF_NTOA_BUFFER_SIZE
         then ntoa_digits base flags value1 buf1 else buf1)"
  by pat_completeness auto

termination
  by (relation "measure (\<lambda>(base, flags, value, buf). PRINTF_NTOA_BUFFER_SIZE - length buf)") auto

declare ntoa_digits.simps [simp del]

definition ntoa_long :: "'s out_fct_type \<Rightarrow> nat \<Rightarrow> bool \<Rightarrow> nat \<Rightarrow> nat \<Rightarrow> nat \<Rightarrow> flag set \<Rightarrow> nat \<times> 's \<Rightarrow> nat \<times> 's" where
  "ntoa_long out value negative base prec width flags0 st =
     (let flags = (if value = 0 then flags0 - {FLAGS_HASH} else flags0);
          buf = (if FLAGS_PRECISION \<notin> flags \<or> value \<noteq> 0 then ntoa_digits base flags value [] else [])
      in ntoa_format out buf negative base prec width flags st)"

definition ntoa_long_long :: "'s out_fct_type \<Rightarrow> nat \<Rightarrow> bool \<Rightarrow> nat \<Rightarrow> nat \<Rightarrow> nat \<Rightarrow> flag set \<Rightarrow> nat \<times> 's \<Rightarrow> nat \<times> 's" where
  \<comment> \<open>the same text as \<open>_ntoa_long\<close>, with types as wide\<close>
  "ntoa_long_long out value negative base prec width flags0 st =
     (let flags = (if value = 0 then flags0 - {FLAGS_HASH} else flags0);
          buf = (if FLAGS_PRECISION \<notin> flags \<or> value \<noteq> 0 then ntoa_digits base flags value [] else [])
      in ntoa_format out buf negative base prec width flags st)"

section \<open>The fields of a conversion\<close>

datatype arg = Slot nat | Str "byte list"

definition signed_of :: "nat \<Rightarrow> nat \<Rightarrow> int" where
  \<comment> \<open>the low w bits of a slot as a signed integer\<close>
  "signed_of w x = (let y = int (x mod 2 ^ w) in if y < 2 ^ (w - 1) then y else y - 2 ^ w)"

fun read_flags :: "byte list \<Rightarrow> flag set \<Rightarrow> flag set \<times> byte list" where
  "read_flags [] flags = (flags, [])"
| "read_flags (c # fmt) flags =
     (if c = 48 then read_flags fmt (insert FLAGS_ZEROPAD flags)
      else if c = 45 then read_flags fmt (insert FLAGS_LEFT flags)
      else if c = 43 then read_flags fmt (insert FLAGS_PLUS flags)
      else if c = 32 then read_flags fmt (insert FLAGS_SPACE flags)
      else if c = 35 then read_flags fmt (insert FLAGS_HASH flags)
      else (flags, c # fmt))"

type_synonym fields = "nat \<times> flag set \<times> byte list \<times> arg list"

definition read_width :: "flag set \<Rightarrow> byte list \<Rightarrow> arg list \<Rightarrow> fields option" where
  "read_width flags fmt args =
     (if is_digit (next_char fmt) then
        (case atoi_fmt fmt 0 of (width, fmt') \<Rightarrow> Some (width, flags, fmt', args))
      else if next_char fmt = 42 then
        (case args of
           Slot w # args' \<Rightarrow>
             if s32 w < 0 then Some (nat (- s32 w), insert FLAGS_LEFT flags, tl fmt, args')
             else Some (nat (s32 w), flags, tl fmt, args')
         | _ \<Rightarrow> None)
      else Some (0, flags, fmt, args))"

definition read_precision :: "flag set \<Rightarrow> byte list \<Rightarrow> arg list \<Rightarrow> fields option" where
  "read_precision flags0 fmt0 args =
     (if next_char fmt0 = 46 then
        (let flags = insert FLAGS_PRECISION flags0; fmt = tl fmt0
         in if is_digit (next_char fmt) then
              (case atoi_fmt fmt 0 of (precision, fmt') \<Rightarrow> Some (precision, flags, fmt', args))
            else if next_char fmt = 42 then
              (case args of
                 Slot w # args' \<Rightarrow> Some (if s32 w > 0 then nat (s32 w) else 0, flags, tl fmt, args')
               | _ \<Rightarrow> None)
            else Some (0, flags, fmt, args))
      else Some (0, flags0, fmt0, args))"

definition read_length :: "flag set \<Rightarrow> byte list \<Rightarrow> flag set \<times> byte list" where
  "read_length flags fmt =
     (let c = next_char fmt
      in if c = 108 then
           (if next_char (tl fmt) = 108 then (insert FLAGS_LONG_LONG (insert FLAGS_LONG flags), tl (tl fmt))
            else (insert FLAGS_LONG flags, tl fmt))
         else if c = 104 then
           (if next_char (tl fmt) = 104 then (insert FLAGS_CHAR (insert FLAGS_SHORT flags), tl (tl fmt))
            else (insert FLAGS_SHORT flags, tl fmt))
         else if c = 116 \<or> c = 106 \<or> c = 122 then (insert FLAGS_LONG flags, tl fmt)
         else (flags, fmt))"

section \<open>Conversions\<close>

definition int_flags :: "byte \<Rightarrow> flag set \<Rightarrow> nat \<times> flag set" where
  "int_flags c flags =
     (let base = (if c = 120 \<or> c = 88 then 16 else if c = 111 then 8 else if c = 98 then 2 else 10);
          f1 = (if base = 10 then flags - {FLAGS_HASH} else flags);
          f2 = (if c = 88 then insert FLAGS_UPPERCASE f1 else f1);
          f3 = (if c \<noteq> 105 \<and> c \<noteq> 100 then f2 - {FLAGS_PLUS, FLAGS_SPACE} else f2);
          f4 = (if FLAGS_PRECISION \<in> f3 then f3 - {FLAGS_ZEROPAD} else f3)
      in (base, f4))"

definition convert_int ::
  "'s out_fct_type \<Rightarrow> byte \<Rightarrow> nat \<Rightarrow> nat \<Rightarrow> nat \<Rightarrow> flag set \<Rightarrow> nat \<times> 's \<Rightarrow> nat \<times> 's" where
  "convert_int out c w precision width flags0 st =
     (case int_flags c flags0 of
        (base, flags) \<Rightarrow>
          if c = 105 \<or> c = 100 then
            (if FLAGS_LONG_LONG \<in> flags then
               (let value = signed_of 64 w
                in ntoa_long_long out (nat \<bar>value\<bar>) (value < 0) base precision width flags st)
             else if FLAGS_LONG \<in> flags then
               (let value = signed_of 64 w
                in ntoa_long out (nat \<bar>value\<bar>) (value < 0) base precision width flags st)
             else
               (let value = (if FLAGS_CHAR \<in> flags then signed_of 8 w
                             else if FLAGS_SHORT \<in> flags then signed_of 16 w else signed_of 32 w)
                in ntoa_long out (nat \<bar>value\<bar>) (value < 0) base precision width flags st))
          else
            (if FLAGS_LONG_LONG \<in> flags then
               ntoa_long_long out (u64 w) False base precision width flags st
             else if FLAGS_LONG \<in> flags then
               ntoa_long out (u64 w) False base precision width flags st
             else
               (let value = (if FLAGS_CHAR \<in> flags then wrap 8 w
                             else if FLAGS_SHORT \<in> flags then wrap 16 w else u32 w)
                in ntoa_long out value False base precision width flags st)))"

definition convert_char :: "'s out_fct_type \<Rightarrow> nat \<Rightarrow> nat \<Rightarrow> flag set \<Rightarrow> nat \<times> 's \<Rightarrow> nat \<times> 's" where
  "convert_char out w width flags st =
     (let st1 = (if FLAGS_LEFT \<notin> flags then out_chars out (spaces (width - 1)) st else st);
          st2 = out_chars out [word_of_nat w] st1
      in if FLAGS_LEFT \<in> flags then out_chars out (spaces (width - 1)) st2 else st2)"

definition convert_str :: "'s out_fct_type \<Rightarrow> byte list \<Rightarrow> nat \<Rightarrow> nat \<Rightarrow> flag set \<Rightarrow> nat \<times> 's \<Rightarrow> nat \<times> 's" where
  "convert_str out p precision width flags st =
     (let l0 = u32 (strnlen_s p (if precision \<noteq> 0 then precision else 2 ^ 64 - 1));
          l = (if FLAGS_PRECISION \<in> flags then (if l0 < precision then l0 else precision) else l0);
          st1 = (if FLAGS_LEFT \<notin> flags then out_chars out (spaces (width - l)) st else st);
          st2 = out_chars out (if FLAGS_PRECISION \<in> flags then take precision p else p) st1
      in if FLAGS_LEFT \<in> flags then out_chars out (spaces (width - l)) st2 else st2)"

definition convert_pointer :: "'s out_fct_type \<Rightarrow> nat \<Rightarrow> nat \<Rightarrow> flag set \<Rightarrow> nat \<times> 's \<Rightarrow> nat \<times> 's" where
  "convert_pointer out w precision flags st =
     ntoa_long_long out (u64 w) False 16 precision 16 (flags \<union> {FLAGS_ZEROPAD, FLAGS_UPPERCASE}) st"

definition conversion ::
  "bool \<Rightarrow> 's out_fct_type \<Rightarrow> byte \<Rightarrow> nat \<Rightarrow> nat \<Rightarrow> flag set \<Rightarrow> arg list \<Rightarrow> nat \<times> 's \<Rightarrow> (arg list \<times> nat \<times> 's) option" where
  \<comment> \<open>the switch on the specifier\<close>
  "conversion floats out c precision width flags args st =
     (if c \<in> {100, 105, 117, 120, 88, 111, 98} then
        (case args of Slot w # args' \<Rightarrow> Some (args', convert_int out c w precision width flags st) | _ \<Rightarrow> None)
      else if floats \<and> c \<in> {102, 70, 101, 69, 103, 71} then None
      else if c = 99 then
        (case args of Slot w # args' \<Rightarrow> Some (args', convert_char out w width flags st) | _ \<Rightarrow> None)
      else if c = 115 then
        (case args of Str p # args' \<Rightarrow> Some (args', convert_str out p precision width flags st) | _ \<Rightarrow> None)
      else if c = 112 then
        (case args of Slot w # args' \<Rightarrow> Some (args', convert_pointer out w precision flags st) | _ \<Rightarrow> None)
      else Some (args, out_chars out [c] st))"

section \<open>The formatter\<close>

definition read_spec :: "byte list \<Rightarrow> arg list \<Rightarrow> (nat \<times> fields) option" where
  \<comment> \<open>everything between the percent sign and the specifier: precision, width, flags; None
     also when the format ends before the specifier\<close>
  "read_spec fmt0 args0 =
     (case read_flags fmt0 {} of
        (flags0, fmt1) \<Rightarrow>
          (case read_width flags0 fmt1 args0 of
             None \<Rightarrow> None
           | Some (width, flags1, fmt2, args1) \<Rightarrow>
               (case read_precision flags1 fmt2 args1 of
                  None \<Rightarrow> None
                | Some (precision, flags2, fmt3, args2) \<Rightarrow>
                    (case read_length flags2 fmt3 of
                       (flags, fmt) \<Rightarrow> if fmt = [] then None
                                       else Some (precision, width, flags, fmt, args2)))))"

lemma read_flags_length: "read_flags fmt flags = (flags', fmt') \<Longrightarrow> length fmt' \<le> length fmt"
  by (induction fmt flags rule: read_flags.induct) (auto split: if_splits)

lemma atoi_fmt_length: "atoi_fmt fmt i = (n, fmt') \<Longrightarrow> length fmt' \<le> length fmt"
  by (induction fmt i rule: atoi_fmt.induct) (auto split: if_splits)

lemma read_width_length: "read_width flags fmt args = Some (w, flags', fmt', args') \<Longrightarrow> length fmt' \<le> length fmt"
  by (auto simp: read_width_def dest: atoi_fmt_length split: if_splits prod.splits list.splits arg.splits)

lemma read_precision_length:
  "read_precision flags fmt args = Some (p, flags', fmt', args') \<Longrightarrow> length fmt' \<le> length fmt"
  by (auto simp: read_precision_def Let_def split: if_splits prod.splits list.splits arg.splits)
    (fastforce dest: atoi_fmt_length)+

lemma read_length_length: "read_length flags fmt = (flags', fmt') \<Longrightarrow> length fmt' \<le> length fmt"
  by (auto simp: read_length_def Let_def split: if_splits)

lemma read_spec_length:
  assumes "read_spec fmt args = Some (p, w, flags, fmt', args')"
  shows "fmt' \<noteq> []" "length fmt' \<le> length fmt"
proof -
  obtain f0 fmt1 w' f1 fmt2 a1 f2 fmt3 f3 where r: "read_flags fmt {} = (f0, fmt1)" "read_width f0 fmt1 args = Some (w', f1, fmt2, a1)"
    "read_precision f1 fmt2 a1 = Some (p, f2, fmt3, args')" "read_length f2 fmt3 = (f3, fmt')" "fmt' \<noteq> []"
    using assms by (auto simp: read_spec_def split: prod.splits option.splits if_splits)
  show "fmt' \<noteq> []" by (rule r(5))
  show "length fmt' \<le> length fmt"
    using read_flags_length [OF r(1)] read_width_length [OF r(2)] read_precision_length [OF r(3)]
      read_length_length [OF r(4)] by linarith
qed

function vsnprintf_from :: "bool \<Rightarrow> 's out_fct_type \<Rightarrow> byte list \<Rightarrow> arg list \<Rightarrow> nat \<times> 's \<Rightarrow> (nat \<times> 's) option" where
  "vsnprintf_from floats out format args st =
     (case format of
        [] \<Rightarrow> Some st
      | c # rest \<Rightarrow>
          if c \<noteq> 37 then vsnprintf_from floats out rest args (out_chars out [c] st)
          else
            (case read_spec rest args of
               None \<Rightarrow> None
             | Some (precision, width, flags, fmt, args1) \<Rightarrow>
                 (case conversion floats out (next_char fmt) precision width flags args1 st of
                    None \<Rightarrow> None
                  | Some (args2, st') \<Rightarrow> vsnprintf_from floats out (tl fmt) args2 st')))"
  by pat_completeness auto

termination
proof (relation "measure (\<lambda>(floats, out, format, args, st). length format)", goal_cases)
  case (3 floats out format args st c rest a p b w ca flags d fmt e)
  then show ?case using read_spec_length [of rest args p w flags fmt e] by (cases fmt) auto
qed auto

declare vsnprintf_from.simps [simp del]

definition vsnprintf_core ::
  "bool \<Rightarrow> 's out_fct_type \<Rightarrow> bool \<Rightarrow> nat \<Rightarrow> byte list \<Rightarrow> arg list \<Rightarrow> 's \<Rightarrow> (int \<times> 's) option" where
  \<comment> \<open>\<open>_vsnprintf\<close>; \<open>has_buffer\<close> says that buffer is not null\<close>
  "vsnprintf_core floats out has_buffer maxlen format args s =
     (let out' = (if has_buffer then out else out_null)
      in case vsnprintf_from floats out' format args (0, s) of
           None \<Rightarrow> None
         | Some (idx, s') \<Rightarrow> Some (s32 idx, out' 0 (if idx < maxlen then idx else maxlen - 1) s'))"

section \<open>The entry points\<close>

definition vsnprintf :: "bool \<Rightarrow> nat \<Rightarrow> nat \<Rightarrow> byte list \<Rightarrow> arg list \<Rightarrow> mem \<Rightarrow> (int \<times> mem) option" where
  "vsnprintf floats buffer count format args m =
     vsnprintf_core floats (out_buffer buffer count) (buffer \<noteq> 0) count format args m"

definition snprintf :: "bool \<Rightarrow> nat \<Rightarrow> nat \<Rightarrow> byte list \<Rightarrow> arg list \<Rightarrow> mem \<Rightarrow> (int \<times> mem) option" where
  "snprintf floats buffer count format args m =
     vsnprintf_core floats (out_buffer buffer count) (buffer \<noteq> 0) count format args m"

definition sprintf :: "bool \<Rightarrow> nat \<Rightarrow> byte list \<Rightarrow> arg list \<Rightarrow> mem \<Rightarrow> (int \<times> mem) option" where
  "sprintf floats buffer format args m =
     vsnprintf_core floats (out_buffer buffer (2 ^ 64 - 1)) (buffer \<noteq> 0) (2 ^ 64 - 1) format args m"

definition fprintf :: "nat \<Rightarrow> nat \<Rightarrow> byte list \<Rightarrow> arg list \<Rightarrow> mem \<Rightarrow> (int \<times> (nat \<times> byte list) \<times> mem) option" where
  \<comment> \<open>the user's \<open>fprintf_\<close>, its 1024 byte buffer at an address of the stack: what it returns,
     and the descriptor and the bytes it gives to \<open>write\<close>; None when it writes past the buffer\<close>
  "fprintf fd buffer format args m =
     (case vsnprintf True buffer 1024 format args m of
        None \<Rightarrow> None
      | Some (ret, m1) \<Rightarrow>
          if ret < 0 \<or> 1024 \<le> ret then None
          else let m2 = m1(buffer + nat ret := 0)
               in Some (ret, (fd, bytes_at m2 buffer (nat ret)), m2))"

definition printf :: "nat \<Rightarrow> byte list \<Rightarrow> arg list \<Rightarrow> mem \<Rightarrow> (int \<times> (nat \<times> byte list) \<times> mem) option" where
  \<comment> \<open>the user's \<open>printf_\<close>: the same on \<open>STDOUT_FILENO\<close>\<close>
  "printf buffer format args m =
     (case vsnprintf True buffer 1024 format args m of
        None \<Rightarrow> None
      | Some (ret, m1) \<Rightarrow>
          if ret < 0 \<or> 1024 \<le> ret then None
          else let m2 = m1(buffer + nat ret := 0)
               in Some (ret, (1, bytes_at m2 buffer (nat ret)), m2))"

definition vprintf :: "byte list \<Rightarrow> arg list \<Rightarrow> 's \<Rightarrow> (int \<times> 's) option" where
  \<comment> \<open>the user's \<open>vprintf_\<close> and \<open>vfprintf_\<close>\<close>
  "vprintf format args s = vsnprintf_core True (out_char user_putchar) True (2 ^ 64 - 1) format args s"

definition kernel_printf :: "(byte \<Rightarrow> 's \<Rightarrow> 's) \<Rightarrow> byte list \<Rightarrow> arg list \<Rightarrow> 's \<Rightarrow> (int \<times> 's) option" where
  \<comment> \<open>the kernel's \<open>printf_\<close>, over the \<open>PutChar\<close> of its graphic manager\<close>
  "kernel_printf putchar format args s =
     vsnprintf_core False (out_char putchar) True (2 ^ 64 - 1) format args s"

definition fctprintf :: "bool \<Rightarrow> (byte \<Rightarrow> 'a \<Rightarrow> 's \<Rightarrow> 's) \<Rightarrow> 'a \<Rightarrow> byte list \<Rightarrow> arg list \<Rightarrow> 's \<Rightarrow> (int \<times> 's) option" where
  "fctprintf floats fct arg format args s =
     vsnprintf_core floats (out_fct fct arg) True (2 ^ 64 - 1) format args s"

end
