(* ===== verification/PrintfProps.thy ===== *)
theory PrintfProps
  imports Printf
begin

text \<open>
  Properties of formatted output: what is written does not depend on where it is written, it
  stays inside the buffer, and numbers are printed as their digits.
\<close>

section \<open>What a conversion emits\<close>

lemma out_chars_append: "out_chars out (xs @ ys) st = out_chars out ys (out_chars out xs st)"
  by (induction xs arbitrary: st) auto

lemma out_chars_idx: "fst (out_chars out cs st) = fst st + length cs"
  by (induction cs arbitrary: st) auto

definition rev_text :: "byte list \<Rightarrow> nat \<Rightarrow> flag set \<Rightarrow> byte list" where
  "rev_text buf width flags =
     (if FLAGS_LEFT \<notin> flags \<and> FLAGS_ZEROPAD \<notin> flags then spaces (width - length buf) else []) @ rev buf
     @ (if FLAGS_LEFT \<in> flags then spaces (width - length buf) else [])"

lemma out_rev_text: "out_rev out buf width flags st = out_chars out (rev_text buf width flags) st"
  by (simp add: out_rev_def rev_text_def out_chars_append out_chars_idx Let_def)

definition emits :: "('s out_fct_type \<Rightarrow> nat \<times> 's \<Rightarrow> nat \<times> 's) \<Rightarrow> bool" where
  \<comment> \<open>the characters put out depend neither on the output function nor on its state\<close>
  "emits g \<longleftrightarrow> (\<exists>cs. \<forall>out st. g out st = out_chars out cs st)"

named_theorems emit_intros \<open>what only puts out characters\<close>

lemma emits_chars [emit_intros]: "emits (\<lambda>out st. out_chars out cs st)"
  unfolding emits_def by (intro exI [of _ cs]) simp

lemma emits_rev [emit_intros]: "emits (\<lambda>out st. out_rev out buf width flags st)"
  unfolding out_rev_text by (rule emits_chars)

lemma emits_ntoa_format [emit_intros]: "emits (\<lambda>out st. ntoa_format out buf neg base prec width flags st)"
  unfolding ntoa_format_def Let_def by (rule emits_rev)

lemma emits_ntoa_long [emit_intros]: "emits (\<lambda>out st. ntoa_long out v neg base prec width flags st)"
  unfolding ntoa_long_def Let_def by (rule emits_ntoa_format)

lemma emits_ntoa_long_long [emit_intros]: "emits (\<lambda>out st. ntoa_long_long out v neg base prec width flags st)"
  unfolding ntoa_long_long_def Let_def by (rule emits_ntoa_format)

lemma emits_if [emit_intros]: "emits f \<Longrightarrow> emits g \<Longrightarrow> emits (\<lambda>out st. if b then f out st else g out st)"
  by (cases b) simp_all

lemma emits_int [emit_intros]: "emits (\<lambda>out st. convert_int out c w precision width flags st)"
  unfolding convert_int_def Let_def by (simp only: split_beta) (intro emit_intros)

lemma emits_pointer [emit_intros]: "emits (\<lambda>out st. convert_pointer out w precision flags st)"
  unfolding convert_pointer_def by (rule emits_ntoa_long_long)

lemma emits_char [emit_intros]: "emits (\<lambda>out st. convert_char out w width flags st)"
proof -
  have "convert_char out w width flags st
      = out_chars out ((if FLAGS_LEFT \<notin> flags then spaces (width - 1) else []) @ [word_of_nat w]
          @ (if FLAGS_LEFT \<in> flags then spaces (width - 1) else [])) st" for out :: "'a out_fct_type" and st
    by (cases st) (auto simp: convert_char_def out_chars_append Let_def)
  then show ?thesis unfolding emits_def by blast
qed

lemma emits_str [emit_intros]: "emits (\<lambda>out st. convert_str out p precision width flags st)"
proof -
  define l where "l = (let l0 = u32 (strnlen_s p (if precision \<noteq> 0 then precision else 2 ^ 64 - 1))
    in if FLAGS_PRECISION \<in> flags then (if l0 < precision then l0 else precision) else l0)"
  have "convert_str out p precision width flags st
      = out_chars out ((if FLAGS_LEFT \<notin> flags then spaces (width - l) else [])
          @ (if FLAGS_PRECISION \<in> flags then take precision p else p)
          @ (if FLAGS_LEFT \<in> flags then spaces (width - l) else [])) st" for out :: "'a out_fct_type" and st
    by (simp add: convert_str_def l_def out_chars_append Let_def)
  then show ?thesis unfolding emits_def by blast
qed

definition emits_opt :: "('s out_fct_type \<Rightarrow> nat \<times> 's \<Rightarrow> ('a \<times> nat \<times> 's) option) \<Rightarrow> bool" where
  "emits_opt g \<longleftrightarrow> (\<forall>out st. g out st = None) \<or> (\<exists>a cs. \<forall>out st. g out st = Some (a, out_chars out cs st))"

lemma emits_none [emit_intros]: "emits_opt (\<lambda>out st. None)"
  by (simp add: emits_opt_def)

lemma emits_some [emit_intros]: "emits g \<Longrightarrow> emits_opt (\<lambda>out st. Some (a, g out st))"
  by (auto simp: emits_def emits_opt_def)

lemma emits_opt_if [emit_intros]: "emits_opt f \<Longrightarrow> emits_opt g \<Longrightarrow> emits_opt (\<lambda>out st. if b then f out st else g out st)"
  by (cases b) simp_all

lemma emits_arg [emit_intros]:
  "(\<And>w args'. emits_opt (\<lambda>out st. f w args' out st)) \<Longrightarrow> (\<And>p args'. emits_opt (\<lambda>out st. g p args' out st))
    \<Longrightarrow> emits_opt (\<lambda>out st. case args of Slot w # args' \<Rightarrow> f w args' out st | Str p # args' \<Rightarrow> g p args' out st | [] \<Rightarrow> None)"
  by (cases args; cases "hd args") (auto intro: emits_none)

lemma conversion_emits: "emits_opt (\<lambda>out st. conversion floats out c precision width flags args st)"
  unfolding conversion_def by (intro emit_intros)

lemma emits_after:
  assumes "(\<forall>out st. f out st = None) \<or> (\<exists>cs. \<forall>out st. f out st = Some (out_chars out cs st))"
  shows "(\<forall>out st. f out (out_chars out xs st) = None)
    \<or> (\<exists>cs. \<forall>out st. f out (out_chars out xs st) = Some (out_chars out cs st))"
  using assms
proof (elim disjE exE)
  fix cs
  assume "\<forall>out st. f out st = Some (out_chars out cs st)"
  then show ?thesis
    by (intro disjI2 exI [of _ "xs @ cs"]) (simp add: out_chars_append del: split_paired_All)
qed (simp del: split_paired_All)

lemma vsnprintf_emits:
  "(\<forall>(out :: 's out_fct_type) st. vsnprintf_from floats out format args st = None)
   \<or> (\<exists>cs. \<forall>(out :: 's out_fct_type) st. vsnprintf_from floats out format args st = Some (out_chars out cs st))"
proof (induction "length format" arbitrary: format args rule: less_induct)
  case less
  show ?case
  proof (cases format)
    case Nil
    then show ?thesis by (subst (1 2) vsnprintf_from.simps) (auto intro!: exI [of _ "[]"])
  next
    case (Cons c rest)
    show ?thesis
    proof (cases "c = 37")
      case False
      then have eq: "vsnprintf_from floats out format args st = vsnprintf_from floats out rest args (out_chars out [c] st)"
        for out :: "'s out_fct_type" and st
        using Cons by (subst vsnprintf_from.simps) simp
      have "length rest < length format" using Cons by simp
      from less [OF this, of args] show ?thesis
        unfolding eq by (rule emits_after)
    next
      case True
      show ?thesis
      proof (cases "read_spec rest args")
        case None
        then show ?thesis using True Cons by (subst vsnprintf_from.simps) simp
      next
        case (Some r)
        obtain p w fl fmt args1 where r: "r = (p, w, fl, fmt, args1)" by (cases r)
        have len: "length (tl fmt) < length format"
          using read_spec_length [of rest args p w fl fmt args1] Some r Cons by (cases fmt) auto
        have eq: "vsnprintf_from floats out format args st =
            (case conversion floats out (next_char fmt) p w fl args1 st of
               None \<Rightarrow> None | Some (args2, st') \<Rightarrow> vsnprintf_from floats out (tl fmt) args2 st')"
          for out :: "'s out_fct_type" and st
          using True Cons Some r by (subst vsnprintf_from.simps) simp
        from conversion_emits [of floats "next_char fmt" p w fl args1, where 'a = 's]
        consider "\<forall>(out :: 's out_fct_type) st. conversion floats out (next_char fmt) p w fl args1 st = None"
          | args2 cs where "\<forall>(out :: 's out_fct_type) st. conversion floats out (next_char fmt) p w fl args1 st = Some (args2, out_chars out cs st)"
          unfolding emits_opt_def by blast
        then show ?thesis
        proof cases
          case 1
          then show ?thesis unfolding eq by simp
        next
          case (2 args2 cs)
          then have conv: "conversion floats out (next_char fmt) p w fl args1 st = Some (args2, out_chars out cs st)"
            for out :: "'s out_fct_type" and st by blast
          from less [OF len, of args2] show ?thesis
            unfolding eq conv option.case prod.case by (rule emits_after)
        qed
      qed
    qed
  qed
qed

section \<open>Buffers\<close>

lemma out_buffer_chars:
  "snd (out_chars (out_buffer buffer maxlen) cs (idx, m)) =
     (\<lambda>a. if buffer + idx \<le> a \<and> a < buffer + min maxlen (idx + length cs) then cs ! (a - (buffer + idx)) else m a)"
proof (induction cs arbitrary: idx m)
  case (Cons c cs)
  show ?case
    unfolding out_chars.simps Cons.IH
    by (auto simp: out_buffer_def fun_eq_iff nth_Cons' not_less min_def)
qed (auto simp: fun_eq_iff)

lemma snprintf_buffer:
  assumes "\<forall>(out :: mem out_fct_type) st. vsnprintf_from floats out format args st = Some (out_chars out cs st)"
    "0 < buffer" "0 < count"
  defines "k \<equiv> min (length cs) (count - 1)"
  shows "\<exists>m'. vsnprintf_core floats (out_buffer buffer count) (buffer \<noteq> 0) count format args m = Some (s32 (length cs), m')
     \<and> bytes_at m' buffer k = take k cs \<and> m' (buffer + k) = 0
     \<and> (\<forall>a. a < buffer \<or> buffer + count \<le> a \<longrightarrow> m' a = m a) \<and> (\<forall>a. buffer + k < a \<and> length cs < count \<longrightarrow> m' a = m a)"
proof -
  let ?st = "out_chars (out_buffer buffer count) cs (0, m)"
  have st: "?st = (length cs, snd ?st)" using out_chars_idx [of "out_buffer buffer count" cs "(0, m)"] by (cases ?st) simp
  let ?m = "(snd ?st)(buffer + k := 0)"
  have "vsnprintf_from floats (out_buffer buffer count) format args (0, m) = Some (length cs, snd ?st)"
    using assms(1) st by metis
  then have "vsnprintf_core floats (out_buffer buffer count) (buffer \<noteq> 0) count format args m = Some (s32 (length cs), ?m)"
    using assms(2,3) by (auto simp: vsnprintf_core_def Let_def out_buffer_def k_def min_def not_less)
  moreover have "bytes_at ?m buffer k = take k cs"
    by (rule nth_equalityI) (auto simp: bytes_at_def out_buffer_chars k_def)
  ultimately show ?thesis
    using assms(3) by (intro exI [of _ ?m]) (auto simp: out_buffer_chars k_def)
qed

text \<open>C19: Whatever the format and the arguments, \<open>snprintf\<close> writes the text that does not depend
  on the size of the buffer, cut to \<open>count - 1\<close> characters and terminated, changes no byte outside
  the \<open>count\<close> bytes of the buffer, and returns the length of the whole text.\<close>

theorem snprintf_truncates:
  "(\<forall>buffer count m. snprintf floats buffer count format args m = None)
   \<or> (\<exists>cs. \<forall>buffer count m. 0 < buffer \<longrightarrow> 0 < count \<longrightarrow>
        (\<exists>m'. snprintf floats buffer count format args m = Some (s32 (length cs), m')
          \<and> bytes_at m' buffer (min (length cs) (count - 1)) = take (count - 1) cs
          \<and> m' (buffer + min (length cs) (count - 1)) = 0
          \<and> (\<forall>a. a < buffer \<or> buffer + count \<le> a \<longrightarrow> m' a = m a)))"
  using vsnprintf_emits [of floats format args, where 's = mem]
proof (elim disjE exE)
  assume "\<forall>(out :: mem out_fct_type) st. vsnprintf_from floats out format args st = None"
  then show ?thesis by (simp add: snprintf_def vsnprintf_core_def)
next
  fix cs
  assume e: "\<forall>(out :: mem out_fct_type) st. vsnprintf_from floats out format args st = Some (out_chars out cs st)"
  have t: "take (min (length cs) (count - 1)) cs = take (count - 1) cs" for count by (simp add: min_def)
  have "\<exists>m'. snprintf floats buffer count format args m = Some (s32 (length cs), m')
          \<and> bytes_at m' buffer (min (length cs) (count - 1)) = take (count - 1) cs
          \<and> m' (buffer + min (length cs) (count - 1)) = 0
          \<and> (\<forall>a. a < buffer \<or> buffer + count \<le> a \<longrightarrow> m' a = m a)"
    if "0 < buffer" "0 < count" for buffer count m
    using snprintf_buffer [OF e that, of m] unfolding t snprintf_def by blast
  then show ?thesis by blast
qed

theorem snprintf_truncates_witness:
  "\<exists>cs m'. snprintf False 100 2 [104, 105, 106] [] (\<lambda>_. 0) = Some (s32 (length cs), m')
     \<and> bytes_at m' 100 (min (length cs) 1) = take 1 cs \<and> m' (100 + min (length cs) 1) = 0"
proof -
  have lit: "vsnprintf_from False out (c # rest) [] st = vsnprintf_from False out rest [] (out_chars out [c] st)"
    if "c \<noteq> 37" for out :: "mem out_fct_type" and c rest st
    using that by (subst vsnprintf_from.simps) simp
  have fin: "vsnprintf_from False out [] [] st = Some st" for out :: "mem out_fct_type" and st
    by (subst vsnprintf_from.simps) simp
  have "snprintf False 100 2 [104, 105, 106] [] (\<lambda>_. 0) \<noteq> None"
    by (simp add: snprintf_def vsnprintf_core_def lit fin Let_def)
  then show ?thesis
    using snprintf_truncates [of False "[104, 105, 106]" "[]"]
    by (elim disjE exE) (simp, metis (no_types, lifting) add_diff_cancel_right' nat_1_add_1 zero_less_numeral)
qed

text \<open>The user's \<open>vprintf\<close> and \<open>vfprintf\<close> print nothing, since its \<open>_putchar\<close> is empty, and a
  format whose last character is a percent sign is read past its terminator.\<close>

lemma vprintf_prints_nothing:
  fixes s :: 's
  assumes "vprintf format args s = Some (r, s')"
  shows "s' = s"
proof -
  define out :: "'s out_fct_type" where "out = out_char user_putchar"
  have one: "out c i t = t" for c i t by (simp add: out_def out_char_def user_putchar_def)
  then have quiet: "snd (out_chars out cs (i, t)) = t" for cs i t
    by (induction cs arbitrary: i) simp_all
  obtain idx where r: "vsnprintf_from True out format args (0, s) = Some (idx, s')"
    using assms one by (auto simp: vprintf_def vsnprintf_core_def Let_def simp flip: out_def split: option.splits)
  from vsnprintf_emits [of True format args, where 's = 's] r
  obtain cs where "vsnprintf_from True out format args (0, s) = Some (out_chars out cs (0, s))" by fastforce
  then have "out_chars out cs (0, s) = (idx, s')" using r by simp
  then show "s' = s" using quiet [of cs 0 s] by simp
qed

lemma percent_at_end: "kernel_printf putchar [37] args s = None"
proof -
  have "read_spec [] args = None"
    by (simp add: read_spec_def read_width_def read_precision_def read_length_def next_char_def is_digit_def Let_def)
  then have "vsnprintf_from False out [37] args st = None" for out :: "'a out_fct_type" and st
    by (subst vsnprintf_from.simps) simp
  then show ?thesis by (simp add: kernel_printf_def vsnprintf_core_def)
qed

section \<open>Decimal numbers\<close>

lemma digit_char_dec: "d < 10 \<Longrightarrow> isdigit (sint (digit_char fl d)) \<and> dec_digit (digit_char fl d) = int d"
proof -
  assume d: "d < 10"
  then have "digit_char fl d = word_of_nat (48 + d)" by (simp add: digit_char_def)
  moreover have "d = 0 \<or> d = 1 \<or> d = 2 \<or> d = 3 \<or> d = 4 \<or> d = 5 \<or> d = 6 \<or> d = 7 \<or> d = 8 \<or> d = 9"
    using d by presburger
  ultimately show ?thesis by (elim disjE) (simp_all add: isdigit_def dec_digit_def)
qed

lemma ntoa_digits_dec:
  assumes "v < 10 ^ n" "0 < n" "length buf + n \<le> 32"
  shows "\<exists>ds. ntoa_digits 10 fl v buf = buf @ ds \<and> ds \<noteq> [] \<and> length ds \<le> n \<and> (\<forall>c \<in> set ds. isdigit (sint c))
     \<and> digits_val 10 (map dec_digit (rev ds)) = int v"
  using assms
proof (induction n arbitrary: v buf)
  case (Suc n)
  let ?d = "digit_char fl (v mod 10)"
  have d: "isdigit (sint ?d)" "dec_digit ?d = int (v mod 10)" using digit_char_dec [of "v mod 10" fl] by simp_all
  show ?case
  proof (cases "v div 10 = 0")
    case True
    then have "v mod 10 = v" by (simp add: div_eq_0_iff)
    then show ?thesis using True d
      by (intro exI [of _ "[?d]"]) (subst ntoa_digits.simps, simp)
  next
    case False
    have "v div 10 < 10 ^ n" using Suc.prems(1) by (simp add: less_mult_imp_div_less mult.commute)
    moreover from this have "0 < n" using False by (cases n) auto
    ultimately obtain ds where ds: "ntoa_digits 10 fl (v div 10) (buf @ [?d]) = (buf @ [?d]) @ ds" "length ds \<le> n"
      "\<forall>c \<in> set ds. isdigit (sint c)" "digits_val 10 (map dec_digit (rev ds)) = int (v div 10)"
      using Suc.IH [of "v div 10" "buf @ [?d]"] Suc.prems(3) by auto
    have "ntoa_digits 10 fl v buf = buf @ (?d # ds)"
      using False ds(1) Suc.prems(3) \<open>0 < n\<close>
      by (subst ntoa_digits.simps) (simp add: PRINTF_NTOA_BUFFER_SIZE_def Let_def)
    moreover have "digits_val 10 (map dec_digit (rev (?d # ds))) = int v"
      using ds(4) d(2) by (simp add: zdiv_int zmod_int)
    ultimately show ?thesis using ds(2,3) d(1) by (intro exI [of _ "?d # ds"]) simp
  qed
qed simp

lemma signed_of_32: "signed_of 32 w = s32 w"
  by (simp add: signed_of_def s32_def wrap_def)

lemma s32_bounds: "- (2 ^ 31) \<le> s32 w" "s32 w < 2 ^ 31"
  using wrap_lt [of 32 w] by (auto simp: s32_def Let_def)

text \<open>What a format prints: plain characters, "%s" and "%d" where they stand.\<close>

definition text_of :: "bool \<Rightarrow> byte list \<Rightarrow> arg list \<Rightarrow> byte list \<Rightarrow> bool" where
  "text_of floats format args cs \<longleftrightarrow>
     (\<forall>(out :: mem out_fct_type) st. vsnprintf_from floats out format args st = Some (out_chars out cs st))"

lemma read_spec_plain: "c \<in> {99, 100, 115} \<Longrightarrow> read_spec (c # fmt) args = Some (0, 0, {}, c # fmt, args)"
  by (elim insertE emptyE)
    (simp_all add: read_spec_def read_width_def read_precision_def read_length_def next_char_def is_digit_def Let_def)

lemma text_nil: "text_of floats [] args []"
  unfolding text_of_def by (subst vsnprintf_from.simps) simp

lemma text_lit: "37 \<notin> set lit \<Longrightarrow> text_of floats fmt args cs \<Longrightarrow> text_of floats (lit @ fmt) args (lit @ cs)"
proof (induction lit)
  case (Cons c lit)
  then have "text_of floats (lit @ fmt) args (lit @ cs)" "c \<noteq> 37" by auto
  then show ?case
    unfolding text_of_def by (subst vsnprintf_from.simps) (auto simp add: split_paired_all)
qed simp

lemma text_conversion:
  assumes "c \<in> {99, 100, 115}" "\<And>(out :: mem out_fct_type) st. conversion floats out c 0 0 {} args st = Some (args', out_chars out t st)"
    "text_of floats fmt args' cs"
  shows "text_of floats (37 # c # fmt) args (t @ cs)"
proof -
  have "vsnprintf_from floats out (37 # c # fmt) args st = Some (out_chars out (t @ cs) st)" for out :: "mem out_fct_type" and st
  proof -
    have "vsnprintf_from floats out (37 # c # fmt) args st = vsnprintf_from floats out fmt args' (out_chars out t st)"
      using read_spec_plain [OF assms(1), of fmt args] assms(2) [of out st]
      by (subst vsnprintf_from.simps) (simp add: next_char_def)
    then show ?thesis using assms(3) unfolding text_of_def by (metis out_chars_append)
  qed
  then show ?thesis by (simp add: text_of_def)
qed

lemma text_str: "text_of floats fmt args cs \<Longrightarrow> text_of floats (37 # 115 # fmt) (Str p # args) (p @ cs)"
  by (rule text_conversion [where args' = args]) (simp_all add: conversion_def convert_str_def spaces_def Let_def)

lemma text_char: "text_of floats fmt args cs \<Longrightarrow> text_of floats (37 # 99 # fmt) (Slot w # args) (word_of_nat w # cs)"
proof -
  assume "text_of floats fmt args cs"
  then have "text_of floats (37 # 99 # fmt) (Slot w # args) ([word_of_nat w] @ cs)"
    by (intro text_conversion [where args' = args]) (auto simp: conversion_def convert_char_def spaces_def Let_def)
  then show ?thesis by simp
qed

text \<open>The text of "%d": a sign and the digits of the value.\<close>

lemma conversion_d:
  obtains sg ds where "\<And>(out :: 's out_fct_type) st args. conversion floats out 100 0 0 {} (Slot w # args) st = Some (args, out_chars out (sg @ ds) st)"
    "sg = (if s32 w < 0 then [45] else [])" "ds \<noteq> []" "length ds \<le> 10" "\<forall>c \<in> set ds. isdigit (sint c)"
    "digits_val 10 (map dec_digit ds) = \<bar>s32 w\<bar>"
proof -
  have "nat \<bar>s32 w\<bar> \<le> 2 ^ 31" using s32_bounds [of w] by simp
  then have "nat \<bar>s32 w\<bar> < 10 ^ 10" by simp
  from ntoa_digits_dec [OF this, of "[]" "{}"]
  obtain rs where rs: "ntoa_digits 10 {} (nat \<bar>s32 w\<bar>) [] = rs" "rs \<noteq> []" "length rs \<le> 10"
    "\<forall>c \<in> set rs. isdigit (sint c)" "digits_val 10 (map dec_digit (rev rs)) = \<bar>s32 w\<bar>"
    by auto
  let ?sg = "if s32 w < 0 then [45] else [] :: byte list"
  have short: "ntoa_long out v neg 10 0 0 {} st = out_chars out ((if neg then [45] else []) @ rev xs) st"
    if "ntoa_digits 10 {} v [] = xs" "length xs \<le> 10" for out :: "'s out_fct_type" and st v neg xs
    unfolding that(1) [symmetric]
    using that by (cases "v = 0") (auto simp add: ntoa_long_def ntoa_format_def out_rev_text rev_text_def spaces_def pad_zeros_def push_char_def
        PRINTF_NTOA_BUFFER_SIZE_def Let_def)
  note nt = short [OF rs(1,3), of _ "s32 w < 0"]
  have "conversion floats out 100 0 0 {} (Slot w # args) st = Some (args, out_chars out (?sg @ rev rs) st)"
    for out :: "'s out_fct_type" and st args
    unfolding nt [symmetric] by (simp add: conversion_def convert_int_def int_flags_def signed_of_32 Let_def)
  then show ?thesis using that [of ?sg "rev rs"] rs by simp
qed

lemma printf_d_text:
  obtains sg ds where "\<And>(out :: 's out_fct_type) st. vsnprintf_from floats out [37, 100] [Slot w] st = Some (out_chars out (sg @ ds) st)"
    "sg = (if s32 w < 0 then [45] else [])" "ds \<noteq> []" "length ds \<le> 10" "\<forall>c \<in> set ds. isdigit (sint c)"
    "digits_val 10 (map dec_digit ds) = \<bar>s32 w\<bar>"
proof -
  obtain sg ds where c: "\<And>(out :: 's out_fct_type) st args. conversion floats out 100 0 0 {} (Slot w # args) st = Some (args, out_chars out (sg @ ds) st)"
    "sg = (if s32 w < 0 then [45] else [])" "ds \<noteq> []" "length ds \<le> 10" "\<forall>c \<in> set ds. isdigit (sint c)"
    "digits_val 10 (map dec_digit ds) = \<bar>s32 w\<bar>"
    by (rule conversion_d [of floats w, where 's = 's]) (rule that)
  have "vsnprintf_from floats out [] [] st' = Some st'" for out :: "'s out_fct_type" and st'
    by (subst vsnprintf_from.simps) simp
  then have "vsnprintf_from floats out [37, 100] [Slot w] st = Some (out_chars out (sg @ ds) st)" for out :: "'s out_fct_type" and st
    using read_spec_plain [of 100 "[]" "[Slot w]"] c(1) by (subst vsnprintf_from.simps) (simp add: next_char_def)
  then show ?thesis using that c(2-) by blast
qed

text \<open>C20: What \<open>sprintf\<close> prints with "%d" \<open>sscanf\<close> reads back with "%d": it stores the same
  32 bit value and stops at the end of the text.\<close>

theorem printf_scanf_roundtrip:
  assumes "0 < buffer" "cstr m format [37, 100]" "buffer + 12 \<le> format \<or> format + 3 \<le> buffer"
    "clear_of buffer 11 p" "clear_of format 2 p"
  shows "\<exists>n m'. sprintf floats buffer [37, 100] [Slot w] m = Some (int n, m')
     \<and> sscanf buffer format [p] m' = Some (n, store_int p (s32 w) m')"
proof -
  obtain sg ds where t: "\<And>(out :: mem out_fct_type) st. vsnprintf_from floats out [37, 100] [Slot w] st = Some (out_chars out (sg @ ds) st)"
    "sg = (if s32 w < 0 then [45] else [])" "ds \<noteq> []" "length ds \<le> 10" "\<forall>c \<in> set ds. isdigit (sint c)"
    "digits_val 10 (map dec_digit ds) = \<bar>s32 w\<bar>"
    by (rule printf_d_text [of floats w, where 's = mem]) (rule that)
  let ?cs = "sg @ ds"
  have len: "length ?cs \<le> 11" using t(2,4) by simp
  obtain m' where m': "sprintf floats buffer [37, 100] [Slot w] m = Some (s32 (length ?cs), m')"
    "bytes_at m' buffer (length ?cs) = ?cs" "m' (buffer + length ?cs) = 0"
    "\<forall>a. a < buffer \<longrightarrow> m' a = m a" "\<forall>a. buffer + length ?cs < a \<longrightarrow> m' a = m a"
    using snprintf_buffer [of floats "[37, 100]" "[Slot w]" ?cs buffer "2 ^ 64 - 1" m] t(1) assms(1) len
    by (auto simp: sprintf_def min_def)
  have "s32 (length ?cs) = int (length ?cs)" using len by (intro s32_small) simp
  moreover have "cstr m' format [37, 100]"
    by (rule cstr_cong [OF assms(2)]) (use assms(3) m'(4,5) len in auto)
  moreover have num: "numbers_at m' (buffer + 0) [([], sg, ds)]"
    using m'(2,3) t(2,3,5) digit_nonzero(1) by (simp add: number_at_def schar_def)
  moreover have "number_value ([], sg, ds) = s32 w"
  proof -
    have "digits_val 10 (map dec_digit ds) * sign_of sg = s32 w"
      using t(2,6) by (simp add: sign_of_def)
    then show ?thesis using s32_bounds [of w] by (simp add: number_value_def i32_id)
  qed
  moreover have "sscanf_from buffer format (2 * 1) (2 * 0) 0 False [p] m'
      = Some (0 + numbers_length [([], sg, ds)], store_ints [p] (map number_value [([], sg, ds)]) m')"
    by (rule sscanf_from_numbers [OF _ num])
      (use assms(4,5) len \<open>cstr m' format [37, 100]\<close> in \<open>auto simp: clear_of_def number_length_def percent_d_def\<close>)
  ultimately show ?thesis
    using m'(1) strlen_cstr [of m' format "[37, 100]"]
    by (intro exI [of _ "length ?cs"] exI [of _ m']) (simp add: sscanf_def number_length_def numeral_2_eq_2)
qed

theorem printf_scanf_roundtrip_witness:
  "let m = (\<lambda>a. if a = 200 then 37 else if a = 201 then 100 else 0)
   in \<exists>n m'. sprintf False 100 [37, 100] [Slot (2 ^ 32 - 45)] m = Some (int n, m')
     \<and> sscanf 100 200 [300] m' = Some (n, store_int 300 (- 45) m')"
proof -
  define m :: mem where "m = (\<lambda>a. if a = 200 then 37 else if a = 201 then 100 else 0)"
  have "s32 (2 ^ 32 - 45) = - 45" by (simp add: s32_def wrap_def)
  then show ?thesis
    using printf_scanf_roundtrip [of 100 m 200 300 False "2 ^ 32 - 45"]
    unfolding m_def [symmetric] Let_def by (simp add: m_def clear_of_def)
qed

end
