(* ===== verification/Ext2Index.thy ===== *)
theory Ext2Index
  imports Prelude
begin

text \<open>
  \<open>kernel/kernel/fs/block_indices.cc\<close> and \<open>.h\<close>: where in an inode's tree of blocks the block
  of a file offset is. A \<open>BlockIndices\<close> is the depth of the tree and four 32 bit indices. None
  is the \<open>PANIC\<close> of an access below the depth, and an offset too large for the tree, where the
  code goes on with indices that were never set.
\<close>

definition kBlockSize :: nat where "kBlockSize = 1024"
definition kMaxBlockEntryInBlock :: nat where "kMaxBlockEntryInBlock = kBlockSize div 4"

lemmas block_consts = kBlockSize_def kMaxBlockEntryInBlock_def

record block_indices =
  current_depth :: nat
  block_index :: "nat list"

definition new_block_indices :: block_indices where
  "new_block_indices = \<lparr>current_depth = 0, block_index = replicate 4 0\<rparr>"

definition make_block_indices :: "nat list \<Rightarrow> nat \<Rightarrow> block_indices" where
  \<comment> \<open>\<open>BlockIndices(int* indices, size_t current_depth)\<close>\<close>
  "make_block_indices indices depth =
     \<lparr>current_depth = depth,
      block_index = map (\<lambda>i. if i \<le> depth then u32 (indices ! i) else 0) [0 ..< 4]\<rparr>"

definition index_at :: "block_indices \<Rightarrow> nat \<Rightarrow> nat option" where
  "index_at b i = (if i > current_depth b then None else Some (block_index b ! i))"

definition indices_eq :: "block_indices \<Rightarrow> block_indices \<Rightarrow> bool" where
  "indices_eq a b \<longleftrightarrow> current_depth a = current_depth b
     \<and> (\<forall>i \<in> set [0 ..< current_depth a + 1]. block_index a ! i = block_index b ! i)"

text \<open>The parameter is the level that is counted up; when the first level leaves the direct blocks or a tree, the
  member \<open>current_depth_\<close> goes up with it.\<close>

fun RecursiveIndexIncrease :: "nat \<Rightarrow> block_indices \<Rightarrow> block_indices" where
  "RecursiveIndexIncrease 0 b =
     (let b = (if block_index b ! 0 \<ge> 11 then b\<lparr>current_depth := current_depth b + 1\<rparr> else b)
      in b\<lparr>block_index := (block_index b)[0 := u32 (block_index b ! 0 + 1)]\<rparr>)"
| "RecursiveIndexIncrease (Suc d) b =
     (if block_index b ! Suc d = kMaxBlockEntryInBlock - 1
      then RecursiveIndexIncrease d (b\<lparr>block_index := (block_index b)[Suc d := 0]\<rparr>)
      else b\<lparr>block_index := (block_index b)[Suc d := u32 (block_index b ! Suc d + 1)]\<rparr>)"

definition increment :: "block_indices \<Rightarrow> block_indices" where
  "increment b = RecursiveIndexIncrease (current_depth b) b"

definition direct_block_limit :: nat where "direct_block_limit = kBlockSize * 12"

definition single_block_limit :: nat where
  "single_block_limit = direct_block_limit + kBlockSize * kMaxBlockEntryInBlock"

definition double_block_limit :: nat where
  "double_block_limit = single_block_limit + kBlockSize * kMaxBlockEntryInBlock * kMaxBlockEntryInBlock"

definition triple_block_limit :: nat where
  "triple_block_limit = double_block_limit
     + kBlockSize * kMaxBlockEntryInBlock * kMaxBlockEntryInBlock * kMaxBlockEntryInBlock"

definition CreateBlockIndiceFromOffset :: "nat \<Rightarrow> block_indices option" where
  "CreateBlockIndiceFromOffset offset =
     (let single_entry = kBlockSize * kMaxBlockEntryInBlock;
          double_entry = kBlockSize * kMaxBlockEntryInBlock * kMaxBlockEntryInBlock
      in if offset < direct_block_limit then
           Some (make_block_indices [offset div kBlockSize] 0)
         else if offset < single_block_limit then
           Some (make_block_indices [12, (offset - direct_block_limit) div kBlockSize] 1)
         else if offset < double_block_limit then
           (let i1 = (offset - single_block_limit) div single_entry;
                i2 = (offset - single_block_limit - i1 * single_entry) div kBlockSize
            in Some (make_block_indices [13, i1, i2] 2))
         else if offset < triple_block_limit then
           (let i1 = (offset - single_block_limit) div double_entry;
                second_base = offset - single_block_limit - i1 * double_entry;
                i2 = second_base div single_entry;
                third_base = second_base - i2 * single_entry;
                i3 = third_base div kBlockSize
            in Some (make_block_indices [14, i1, i2, i3] 3))
         else None)"

section \<open>The block an index names\<close>

text \<open>The tree of an inode: 12 direct blocks, then 256, 256 * 256 and 256 * 256 * 256 blocks
  below the entries 12, 13 and 14.\<close>

definition indices_wf :: "block_indices \<Rightarrow> bool" where
  "indices_wf b \<longleftrightarrow> current_depth b \<le> 3 \<and> length (block_index b) = 4
     \<and> (if current_depth b = 0 then block_index b ! 0 < 12 else block_index b ! 0 = 11 + current_depth b)
     \<and> (\<forall>i. 0 < i \<longrightarrow> i \<le> 3 \<longrightarrow> (if i \<le> current_depth b then block_index b ! i < 256 else block_index b ! i = 0))"

definition block_number :: "block_indices \<Rightarrow> nat" where
  \<comment> \<open>which block of the file it is, from 0\<close>
  "block_number b =
     (case current_depth b of
        0 \<Rightarrow> block_index b ! 0
      | Suc 0 \<Rightarrow> 12 + block_index b ! 1
      | Suc (Suc 0) \<Rightarrow> 12 + 256 + 256 * (block_index b ! 1) + block_index b ! 2
      | _ \<Rightarrow> 12 + 256 + 65536 + 65536 * (block_index b ! 1) + 256 * (block_index b ! 2) + block_index b ! 3)"

lemma upt_4: "[0 ..< 4] = [0, 1, 2, 3 :: nat]"
  by (simp add: upt_rec)

lemmas index_defs = make_block_indices_def indices_wf_def block_number_def upt_4 block_consts
  direct_block_limit_def single_block_limit_def double_block_limit_def triple_block_limit_def

lemma depth_cases: "d \<le> 3 \<Longrightarrow> d = 0 \<or> d = 1 \<or> d = 2 \<or> d = (3 :: nat)"
  by linarith

lemma wf_low: "(\<forall>i. 0 < i \<longrightarrow> i \<le> Suc 0 \<longrightarrow> P i) = P (Suc 0)"
  "(\<forall>i. 0 < i \<longrightarrow> i \<le> 2 \<longrightarrow> P i) = (P (Suc 0) \<and> P 2)"
  "(\<forall>i. 0 < i \<longrightarrow> i \<le> 3 \<longrightarrow> P i) = (P (Suc 0) \<and> P 2 \<and> P 3)"
  by (auto simp: le_Suc_eq numeral_2_eq_2 numeral_3_eq_3)

text \<open>The four depths, with the indices written out.\<close>

abbreviation indices4 :: "nat \<Rightarrow> nat \<Rightarrow> nat \<Rightarrow> nat \<Rightarrow> nat \<Rightarrow> block_indices" where
  "indices4 d x0 x1 x2 x3 \<equiv> \<lparr>current_depth = d, block_index = [x0, x1, x2, x3]\<rparr>"

lemma ix_wf:
  "indices_wf (indices4 0 x0 x1 x2 x3) \<longleftrightarrow> x0 < 12 \<and> x1 = 0 \<and> x2 = 0 \<and> x3 = 0"
  "indices_wf (indices4 1 x0 x1 x2 x3) \<longleftrightarrow> x0 = 12 \<and> x1 < 256 \<and> x2 = 0 \<and> x3 = 0"
  "indices_wf (indices4 2 x0 x1 x2 x3) \<longleftrightarrow> x0 = 13 \<and> x1 < 256 \<and> x2 < 256 \<and> x3 = 0"
  "indices_wf (indices4 3 x0 x1 x2 x3) \<longleftrightarrow> x0 = 14 \<and> x1 < 256 \<and> x2 < 256 \<and> x3 < 256"
  by (simp_all add: indices_wf_def wf_low)

lemma ix_number:
  "block_number (indices4 0 x0 x1 x2 x3) = x0" "block_number (indices4 1 x0 x1 x2 x3) = 12 + x1"
  "block_number (indices4 2 x0 x1 x2 x3) = 268 + 256 * x1 + x2"
  "block_number (indices4 3 x0 x1 x2 x3) = 65804 + 65536 * x1 + 256 * x2 + x3"
  by (simp_all add: block_number_def numeral_2_eq_2 numeral_3_eq_3)

lemma create_direct:
  assumes "offset < 12288"
  shows "CreateBlockIndiceFromOffset offset = Some \<lparr>current_depth = 0, block_index = [offset div 1024, 0, 0, 0]\<rparr>"
proof -
  have "offset div 1024 < 2 ^ 32" using assms by (simp add: less_mult_imp_div_less)
  then show ?thesis using assms by (simp add: CreateBlockIndiceFromOffset_def index_defs wrap_id)
qed

lemma create_single:
  assumes "12288 \<le> offset" "offset < 274432"
  shows "CreateBlockIndiceFromOffset offset
     = Some \<lparr>current_depth = 1, block_index = [12, (offset - 12288) div 1024, 0, 0]\<rparr>"
proof -
  have "(offset - 12288) div 1024 < 2 ^ 32" using assms by (simp add: less_mult_imp_div_less)
  then show ?thesis using assms by (simp add: CreateBlockIndiceFromOffset_def index_defs wrap_id)
qed

lemma create_double:
  assumes "274432 \<le> offset" "offset < 67383296"
  shows "CreateBlockIndiceFromOffset offset
     = Some \<lparr>current_depth = 2, block_index = [13, (offset - 274432) div 262144, (offset - 274432) mod 262144 div 1024, 0]\<rparr>"
proof -
  have "(offset - 274432) div 262144 < 2 ^ 32" "(offset - 274432) mod 262144 div 1024 < 2 ^ 32"
    using assms by (simp_all add: less_mult_imp_div_less)
  moreover have "offset - 274432 - (offset - 274432) div 262144 * 262144 = (offset - 274432) mod 262144"
    by (simp add: minus_div_mult_eq_mod)
  ultimately show ?thesis using assms by (simp add: CreateBlockIndiceFromOffset_def index_defs wrap_id Let_def)
qed

text \<open>C21: Below the triply indirect blocks, the indices computed from an offset are the
  well-formed ones that name the block the offset lies in: \<open>offset / 1024\<close>.\<close>

theorem indices_of_offset:
  assumes "offset < double_block_limit"
  shows "\<exists>b. CreateBlockIndiceFromOffset offset = Some b \<and> indices_wf b \<and> block_number b = offset div kBlockSize"
proof -
  have o: "offset < 67383296" using assms by (simp add: index_defs)
  consider "offset < 12288" | "12288 \<le> offset" "offset < 274432" | "274432 \<le> offset" by linarith
  then show ?thesis
  proof cases
    case 1
    then have "offset div 1024 < 12" by (simp add: less_mult_imp_div_less)
    then show ?thesis using create_direct [OF 1] by (simp add: index_defs wf_low)
  next
    case 2
    define d where "d = offset - 12288"
    have "(offset - 12288) div 1024 < 256" using 2 by (simp add: less_mult_imp_div_less)
    moreover have "offset div 1024 = 12 + d div 1024"
    proof -
      have "offset = d + 12 * 1024" using 2 by (simp add: d_def)
      then show ?thesis by simp
    qed
    ultimately show ?thesis using create_single [OF 2] by (simp add: index_defs wf_low d_def)
  next
    case 3
    define d where "d = offset - 274432"
    have b: "d div 262144 < 256" "d mod 262144 div 1024 < 256"
      using 3 o by (simp_all add: d_def less_mult_imp_div_less)
    have "offset div 1024 = 268 + d div 1024"
    proof -
      have "offset = d + 268 * 1024" using 3 by (simp add: d_def)
      then show ?thesis by simp
    qed
    moreover have "d div 1024 = 256 * (d div 262144) + d mod 262144 div 1024"
    proof -
      have "(262144 * q + r) div 1024 = 256 * q + r div 1024" for q r :: nat
        using div_mult_self1 [of 1024 r "256 * q"] by (simp add: add.commute)
      from this [of "d div 262144" "d mod 262144"] show ?thesis by simp
    qed
    ultimately show ?thesis
      using create_double [OF 3 o] b by (simp add: ix_wf ix_number d_def block_consts)
  qed
qed

theorem indices_of_offset_witness:
  "\<exists>b. CreateBlockIndiceFromOffset 300000 = Some b \<and> indices_wf b \<and> block_number b = 292"
  using indices_of_offset [of 300000] by (simp add: index_defs)

text \<open>Past the doubly indirect blocks they name another block: the base that is subtracted is
  that of the level before.\<close>

lemma triple_indices_wrong:
  "\<exists>b. CreateBlockIndiceFromOffset double_block_limit = Some b \<and> indices_wf b
     \<and> block_number b = double_block_limit div kBlockSize + 65536"
  by (simp add: CreateBlockIndiceFromOffset_def index_defs wf_low wrap_def)

section \<open>The next block\<close>

lemma list_4: "length xs = 4 \<Longrightarrow> xs = [xs ! 0, xs ! 1, xs ! 2, xs ! 3]"
  by (cases xs; cases "tl xs"; cases "tl (tl xs)"; cases "tl (tl (tl xs))") (auto simp: numeral_2_eq_2 numeral_3_eq_3)

lemma inc_suc:
  "RecursiveIndexIncrease 1 b = (if block_index b ! 1 = 255 then RecursiveIndexIncrease 0 (b\<lparr>block_index := (block_index b)[1 := 0]\<rparr>)
     else b\<lparr>block_index := (block_index b)[1 := u32 (block_index b ! 1 + 1)]\<rparr>)"
  "RecursiveIndexIncrease 2 b = (if block_index b ! 2 = 255 then RecursiveIndexIncrease 1 (b\<lparr>block_index := (block_index b)[2 := 0]\<rparr>)
     else b\<lparr>block_index := (block_index b)[2 := u32 (block_index b ! 2 + 1)]\<rparr>)"
  "RecursiveIndexIncrease 3 b = (if block_index b ! 3 = 255 then RecursiveIndexIncrease 2 (b\<lparr>block_index := (block_index b)[3 := 0]\<rparr>)
     else b\<lparr>block_index := (block_index b)[3 := u32 (block_index b ! 3 + 1)]\<rparr>)"
  by (simp_all add: numeral_2_eq_2 numeral_3_eq_3 block_consts)

lemma ix_increment:
  "increment (indices4 0 x0 x1 x2 x3) = indices4 (if x0 \<ge> 11 then 1 else 0) (u32 (x0 + 1)) x1 x2 x3"
  "increment (indices4 1 x0 x1 x2 x3) =
     (if x1 = 255 then indices4 (if x0 \<ge> 11 then 2 else 1) (u32 (x0 + 1)) 0 x2 x3 else indices4 1 x0 (u32 (x1 + 1)) x2 x3)"
  "increment (indices4 2 x0 x1 x2 x3) =
     (if x2 = 255 then if x1 = 255 then indices4 (if x0 \<ge> 11 then 3 else 2) (u32 (x0 + 1)) 0 0 x3
       else indices4 2 x0 (u32 (x1 + 1)) 0 x3 else indices4 2 x0 x1 (u32 (x2 + 1)) x3)"
  "increment (indices4 3 x0 x1 x2 x3) =
     (if x3 = 255 then if x2 = 255 then if x1 = 255 then indices4 (if x0 \<ge> 11 then 4 else 3) (u32 (x0 + 1)) 0 0 0
       else indices4 3 x0 (u32 (x1 + 1)) 0 0 else indices4 3 x0 x1 (u32 (x2 + 1)) 0 else indices4 3 x0 x1 x2 (u32 (x3 + 1)))"
  unfolding increment_def block_indices.simps inc_suc by simp_all

lemmas ix_simps = ix_wf ix_number ix_increment

definition blocks_in_tree :: nat where "blocks_in_tree = 12 + 256 + 256 * 256 + 256 * 256 * 256"

text \<open>C22: \<open>++\<close> moves from every block of a file to the next one, also from the last block of a level of the tree to the
  first of the next level, up to the last block that an inode can name.\<close>

theorem increment_next:
  assumes "indices_wf b" "block_number b + 1 < blocks_in_tree"
  shows "indices_wf (increment b) \<and> block_number (increment b) = block_number b + 1"
proof -
  obtain d x0 x1 x2 x3 where b: "b = \<lparr>current_depth = d, block_index = [x0, x1, x2, x3]\<rparr>"
    using assms list_4 [of "block_index b"] by (cases b) (auto simp: indices_wf_def)
  have "d = 0 \<or> d = 1 \<or> d = 2 \<or> d = 3" using assms by (intro depth_cases) (simp add: b indices_wf_def)
  then show ?thesis
    using assms unfolding b by (elim disjE) (hypsubst, simp add: ix_simps wrap_simps blocks_in_tree_def del: One_nat_def; linarith?)+
qed

theorem increment_next_witness:
  "block_number (increment \<lparr>current_depth = 1, block_index = [12, 255, 0, 0]\<rparr>) = 268"
  using increment_next [of "\<lparr>current_depth = 1, block_index = [12, 255, 0, 0]\<rparr>"]
  by (simp add: ix_wf [simplified] ix_number [simplified] blocks_in_tree_def)

text \<open>Behind the last block the depth is 4, one more than the array of indices has.\<close>

lemma increment_past_end: "current_depth (increment \<lparr>current_depth = 3, block_index = [14, 255, 255, 255]\<rparr>) = 4"
  by (simp add: ix_increment)

end
