(* ===== verification/Ext2.thy ===== *)
theory Ext2
  imports Ext2Index
begin

unbundle bit_operations_syntax

text \<open>
  The file system of \<open>kernel/kernel/fs/ext2.cc\<close> over a disk of bytes, with the iterator over the
  blocks of a file of \<open>block_iterator.cc\<close> and the bitmaps of \<open>std/bitmap.h\<close>. A block, an inode and
  a directory are the bytes they are made of, a function of the offset. None is a \<open>PANIC\<close>, a
  failed \<open>ASSERT\<close>, an access outside an array, or a loop that does not end. The sectors of a
  block are read and written one after the other, without interleaving (\<open>DiskAccessDown\<close>).
\<close>

section \<open>The disk\<close>

type_synonym byte = "8 word"

definition read_bytes :: "nat \<Rightarrow> mem \<Rightarrow> nat \<Rightarrow> mem" where
  \<comment> \<open>\<open>ATADriver::Read\<close> of n bytes at a byte address\<close>
  "read_bytes n d a = (\<lambda>i. if i < n then d (a + i) else 0)"

definition write_bytes :: "nat \<Rightarrow> mem \<Rightarrow> nat \<Rightarrow> mem \<Rightarrow> mem" where
  \<comment> \<open>\<open>ATADriver::Write\<close>\<close>
  "write_bytes n d a b = (\<lambda>x. if a \<le> x \<and> x < a + n then b (x - a) else d x)"

definition lba_addr :: "nat \<Rightarrow> nat" where
  "lba_addr lba = 512 * lba"

definition GetFromBlockId :: "mem \<Rightarrow> nat \<Rightarrow> mem" where
  "GetFromBlockId d block_id = read_bytes kBlockSize d (lba_addr (2 * block_id))"

definition WriteFromBlockId :: "mem \<Rightarrow> nat \<Rightarrow> mem \<Rightarrow> mem" where
  "WriteFromBlockId b block_id d = write_bytes 1024 d (lba_addr (2 * block_id)) b"

definition GetArrayFromBlockId :: "mem \<Rightarrow> nat \<Rightarrow> nat \<Rightarrow> mem" where
  \<comment> \<open>the first bytes of the blocks from \<open>block_id\<close> on\<close>
  "GetArrayFromBlockId d bytes block_id = read_bytes bytes d (lba_addr (2 * block_id))"

definition rd16 :: "mem \<Rightarrow> nat \<Rightarrow> nat" where
  "rd16 m a = unat (m a) + 256 * unat (m (a + 1))"

definition wr16 :: "mem \<Rightarrow> nat \<Rightarrow> nat \<Rightarrow> mem" where
  "wr16 m a v = m(a := word_of_nat v, a + 1 := word_of_nat (v div 256))"

section \<open>Bitmaps\<close>

type_synonym bitmap = "64 word list"

definition kBitsPerElem :: nat where "kBitsPerElem = 64"

definition ctz64 :: "64 word \<Rightarrow> nat" where
  "ctz64 w = length (takeWhile (\<lambda>k. \<not> bit w k) [0 ..< 64])"

definition GetEmptyBitIndex :: "bitmap \<Rightarrow> int" where
  "GetEmptyBitIndex bm =
     (case List.find (\<lambda>i. NOT (bm ! i) \<noteq> 0) [0 ..< length bm] of
        None \<Rightarrow> - 1
      | Some i \<Rightarrow> int (i * kBitsPerElem + ctz64 (NOT (bm ! i))))"

definition FlipBit :: "nat \<Rightarrow> bitmap \<Rightarrow> bitmap" where
  "FlipBit index bm =
     bm[index div kBitsPerElem := (bm ! (index div kBitsPerElem)) XOR push_bit (index mod kBitsPerElem) 1]"

definition IsSet :: "nat \<Rightarrow> bitmap \<Rightarrow> bool" where
  "IsSet index bm \<longleftrightarrow> (bm ! (index div kBitsPerElem)) AND push_bit (index mod kBitsPerElem) 1 \<noteq> 0"

definition bitmap_of_bytes :: "mem \<Rightarrow> bitmap" where
  \<comment> \<open>1024 bytes read as 128 words of 64 bits\<close>
  "bitmap_of_bytes m = map (\<lambda>i. word_of_nat (rd32 m (8 * i) + 2 ^ 32 * rd32 m (8 * i + 4))) [0 ..< 128]"

definition bytes_of_bitmap :: "bitmap \<Rightarrow> mem" where
  "bytes_of_bitmap bm = (\<lambda>j. if j < 1024 then word_of_nat (unat (bm ! (j div 8)) div 256 ^ (j mod 8)) else 0)"

section \<open>Inodes\<close>

text \<open>The fields the code uses, at their offsets in the 128 bytes of \<open>Ext2Inode\<close>.\<close>

type_synonym inode = mem

definition inode_mode :: "inode \<Rightarrow> nat" where "inode_mode ino = rd16 ino 0"
definition inode_size :: "inode \<Rightarrow> nat" where "inode_size ino = rd32 ino 4"
definition inode_blocks :: "inode \<Rightarrow> nat" where "inode_blocks ino = rd16 ino 28"
definition inode_block :: "inode \<Rightarrow> nat \<Rightarrow> nat" where "inode_block ino k = rd32 ino (40 + 4 * k)"

definition set_inode_mode :: "nat \<Rightarrow> inode \<Rightarrow> inode" where "set_inode_mode v ino = wr16 ino 0 v"
definition set_inode_size :: "nat \<Rightarrow> inode \<Rightarrow> inode" where "set_inode_size v ino = wr32 ino 4 v"
definition set_inode_blocks :: "nat \<Rightarrow> inode \<Rightarrow> inode" where "set_inode_blocks v ino = wr16 ino 28 v"
definition set_inode_block :: "nat \<Rightarrow> nat \<Rightarrow> inode \<Rightarrow> inode" where
  "set_inode_block k v ino = wr32 ino (40 + 4 * k) v"

definition IsDirectory :: "inode \<Rightarrow> bool" where
  "IsDirectory ino \<longleftrightarrow> (word_of_nat (inode_mode ino) :: 16 word) AND 0x4000 \<noteq> 0"

datatype Ext2FileMode = S_SOCK | S_LNK | S_REG | S_BLK | S_DIR | S_CHR | S_FIFO | S_UNKNOWN

definition GetFileFormatFromMode :: "16 word \<Rightarrow> Ext2FileMode" where
  "GetFileFormatFromMode mode =
     (case List.find (\<lambda>(m, v). mode AND v = v)
             [(S_SOCK, 0xC000), (S_LNK, 0xA000), (S_REG, 0x8000), (S_BLK, 0x6000), (S_DIR, 0x4000),
              (S_CHR, 0x2000), (S_FIFO, 0x1000)] of
        None \<Rightarrow> S_UNKNOWN
      | Some (m, v) \<Rightarrow> m)"

section \<open>The file system\<close>

record group_desc =
  gd_block_bitmap :: nat
  gd_inode_bitmap :: nat
  gd_inode_table :: nat

record bitmap_info =
  bitmap_block_id :: nat
  bits :: bitmap

record dir_entry =
  de_inode :: nat
  de_file_type :: nat
  de_name :: "byte list"

record ext2 =
  disk :: mem
  blocks_per_group :: nat
  inodes_per_group :: nat
  block_descs :: "group_desc list"
  block_bitmap :: "bitmap_info list"
  inode_bitmap :: "bitmap_info list"
  root_dir :: "dir_entry list"

definition inode_place :: "ext2 \<Rightarrow> nat \<Rightarrow> (nat \<times> nat) option" where
  \<comment> \<open>the block that holds an inode and the inode's index in it\<close>
  "inode_place fs inode_addr =
     (let n = sub64 inode_addr 1; group = n div inodes_per_group fs; index = n mod inodes_per_group fs
      in if group < length (block_descs fs)
         then Some (gd_inode_table (block_descs fs ! group) + index div 8, index mod 8)
         else None)"

definition ReadInode :: "nat \<Rightarrow> ext2 \<Rightarrow> inode option" where
  "ReadInode inode_addr fs =
     (case inode_place fs inode_addr of
        None \<Rightarrow> None
      | Some (block_containing_inode, k) \<Rightarrow>
          Some (read_bytes 128 (GetFromBlockId (disk fs) block_containing_inode) (128 * k)))"

definition WriteInode :: "nat \<Rightarrow> inode \<Rightarrow> ext2 \<Rightarrow> ext2 option" where
  "WriteInode inode_addr ino fs =
     (case inode_place fs inode_addr of
        None \<Rightarrow> None
      | Some (block_containing_inode, k) \<Rightarrow>
          let block_with_inodes = GetFromBlockId (disk fs) block_containing_inode
          in Some (fs\<lparr>disk := WriteFromBlockId (write_bytes 128 block_with_inodes (128 * k) ino)
                                 block_containing_inode (disk fs)\<rparr>))"

section \<open>The iterator\<close>

record cached_block =
  block_addr :: nat
  cached_index :: nat
  cached_data :: mem

record block_iter =
  current_pos :: nat
  current_index :: block_indices
  cached_blocks :: "cached_block list"

definition new_iter :: block_iter where
  "new_iter = \<lparr>current_pos = 0, current_index = new_block_indices,
     cached_blocks = replicate 4 \<lparr>block_addr = 2 ^ 32 - 1, cached_index = 2 ^ 32 - 1, cached_data = (\<lambda>_. 0)\<rparr>\<rparr>"

definition SetOffset :: "nat \<Rightarrow> block_iter \<Rightarrow> block_iter option" where
  "SetOffset offset it =
     map_option (\<lambda>ix. it\<lparr>current_pos := offset div kBlockSize * kBlockSize, current_index := ix\<rparr>)
       (CreateBlockIndiceFromOffset offset)"

definition next_block :: "block_iter \<Rightarrow> block_iter" where
  \<comment> \<open>\<open>operator++\<close>\<close>
  "next_block it = it\<lparr>current_index := increment (current_index it), current_pos := current_pos it + kBlockSize\<rparr>"

fun fill_levels :: "inode \<Rightarrow> mem \<Rightarrow> block_indices \<Rightarrow> nat list \<Rightarrow> cached_block list \<Rightarrow> cached_block list" where
  "fill_levels ino d ix [] c = c"
| "fill_levels ino d ix (i # is) c =
     (let index = block_index ix ! i;
          addr = (if i = 0 then inode_block ino index else rd32 (cached_data (c ! (i - 1))) (4 * index))
      in fill_levels ino d ix is
           (c[i := \<lparr>block_addr = addr, cached_index = index, cached_data = GetFromBlockId d addr\<rparr>]))"

definition FillCache :: "inode \<Rightarrow> mem \<Rightarrow> block_iter \<Rightarrow> block_iter" where
  "FillCache ino d it =
     (let ix = current_index it; depth = current_depth ix; c = cached_blocks it;
          cache_fill_start = (case List.find (\<lambda>i. cached_index (c ! i) \<noteq> block_index ix ! i) [0 ..< depth + 1] of
                                None \<Rightarrow> depth + 1
                              | Some i \<Rightarrow> i)
      in it\<lparr>cached_blocks := fill_levels ino d ix [cache_fill_start ..< depth + 1] c\<rparr>)"

definition deref :: "inode \<Rightarrow> mem \<Rightarrow> block_iter \<Rightarrow> mem \<times> block_iter" where
  \<comment> \<open>\<open>operator*\<close>\<close>
  "deref ino d it =
     (let it1 = FillCache ino d it
      in (cached_data (cached_blocks it1 ! current_depth (current_index it1)), it1))"

definition GetBlockId :: "nat \<Rightarrow> inode \<Rightarrow> mem \<Rightarrow> block_iter \<Rightarrow> int \<times> block_iter" where
  "GetBlockId depth ino d it =
     (if depth > current_depth (current_index it) then (- 1, it)
      else let c = fill_levels ino d (current_index it) [0 ..< depth + 1] (cached_blocks it)
           in (s32 (block_addr (c ! depth)), it\<lparr>cached_blocks := c\<rparr>))"

definition GetBlockFromDepth :: "nat \<Rightarrow> inode \<Rightarrow> mem \<Rightarrow> block_iter \<Rightarrow> (mem \<times> block_iter) option" where
  "GetBlockFromDepth depth ino d it =
     (if depth > current_depth (current_index it) then None
      else let c = fill_levels ino d (current_index it) [0 ..< depth + 1] (cached_blocks it)
           in Some (cached_data (c ! depth), it\<lparr>cached_blocks := c\<rparr>))"

fun set_levels :: "inode \<Rightarrow> mem \<Rightarrow> block_indices \<Rightarrow> nat \<Rightarrow> nat \<Rightarrow> nat list \<Rightarrow> cached_block list \<Rightarrow> inode \<times> cached_block list" where
  "set_levels ino d ix depth block_id [] c = (ino, c)"
| "set_levels ino d ix depth block_id (i # is) c =
     (let index = block_index ix ! i;
          ino1 = (if i = 0 then set_inode_block index (u32 block_id) ino else ino);
          addr = (if i = 0 then inode_block ino1 index
                  else if i = depth then u32 block_id
                  else rd32 (cached_data (c ! (i - 1))) (4 * index))
      in set_levels ino1 d ix depth block_id is
           (c[i := \<lparr>block_addr = addr, cached_index = index, cached_data = GetFromBlockId d addr\<rparr>]))"

definition SetBlockId :: "nat \<Rightarrow> nat \<Rightarrow> inode \<Rightarrow> mem \<Rightarrow> block_iter \<Rightarrow> inode \<times> block_iter" where
  "SetBlockId depth block_id ino d it =
     (if depth > current_depth (current_index it) then (ino, it)
      else case set_levels ino d (current_index it) depth block_id [0 ..< depth + 1] (cached_blocks it) of
             (ino', c) \<Rightarrow> (ino', it\<lparr>cached_blocks := c\<rparr>))"

definition SetNthEntryAtAddressBlock :: "mem \<Rightarrow> nat \<Rightarrow> nat \<Rightarrow> mem" where
  "SetNthEntryAtAddressBlock block index block_id = wr32 block (4 * index) block_id"

section \<open>Reading\<close>

definition end_block :: "nat \<Rightarrow> nat \<Rightarrow> nat" where
  "end_block offset n =
     (if (offset + n) mod kBlockSize = 0 then (offset + n) div kBlockSize else (offset + n) div kBlockSize + 1)"

function copy_in :: "mem \<Rightarrow> nat \<Rightarrow> nat \<Rightarrow> nat \<Rightarrow> nat \<Rightarrow> byte list \<Rightarrow> byte list" where
  \<comment> \<open>the inner loop of \<open>ReadFile\<close>; \<open>read\<close> is the length of the buffer filled so far\<close>
  "copy_in block num_read offset fsize current_block_offset buf =
     (if length buf < num_read \<and> current_block_offset < kBlockSize \<and> offset + length buf < fsize
      then copy_in block num_read offset fsize (current_block_offset + 1) (buf @ [block current_block_offset])
      else buf)"
  by pat_completeness auto

termination
  by (relation "measure (\<lambda>(block, num_read, offset, fsize, cbo, buf). kBlockSize - cbo)") auto

declare copy_in.simps [simp del]

definition block_offset :: "nat \<Rightarrow> block_iter \<Rightarrow> nat" where
  "block_offset offset it = (if current_pos it < offset then offset - current_pos it else 0)"

fun read_blocks :: "nat \<Rightarrow> inode \<Rightarrow> mem \<Rightarrow> nat \<Rightarrow> nat \<Rightarrow> block_iter \<Rightarrow> byte list \<Rightarrow> byte list" where
  "read_blocks 0 ino d num_read offset it buf = buf"
| "read_blocks (Suc n) ino d num_read offset it buf =
     (case deref ino d it of
        (block, it1) \<Rightarrow>
          read_blocks n ino d num_read offset (next_block it1)
            (copy_in block num_read offset (inode_size ino) (block_offset offset it1) buf))"

definition ReadFile :: "inode \<Rightarrow> mem \<Rightarrow> nat \<Rightarrow> nat \<Rightarrow> byte list option" where
  \<comment> \<open>the bytes stored into the buffer; their number is what is returned\<close>
  "ReadFile ino d num_read offset =
     map_option (\<lambda>it. read_blocks (end_block offset num_read - offset div kBlockSize) ino d num_read offset it [])
       (SetOffset offset new_iter)"

section \<open>Allocation of blocks and inodes\<close>

definition first_empty :: "bitmap_info list \<Rightarrow> (nat \<times> int) option" where
  \<comment> \<open>the first group with a bit that is not set, and that bit\<close>
  "first_empty infos =
     (case List.find (\<lambda>i. GetEmptyBitIndex (bits (infos ! i)) \<noteq> - 1) [0 ..< length infos] of
        None \<Rightarrow> None
      | Some i \<Rightarrow> Some (i, GetEmptyBitIndex (bits (infos ! i))))"

definition GetEmptyBlock :: "ext2 \<Rightarrow> nat" where
  "GetEmptyBlock fs =
     (case first_empty (block_bitmap fs) of
        None \<Rightarrow> 0
      | Some (i, index_in_group) \<Rightarrow> nat index_in_group + blocks_per_group fs * i)"

definition GetEmptyInode :: "ext2 \<Rightarrow> nat" where
  "GetEmptyInode fs =
     (case first_empty (inode_bitmap fs) of
        None \<Rightarrow> 0
      | Some (i, index_in_group) \<Rightarrow> nat index_in_group + inodes_per_group fs * i + 1)"

definition flip_in_group :: "nat \<Rightarrow> nat \<Rightarrow> bitmap_info list \<Rightarrow> mem \<Rightarrow> (bitmap_info list \<times> mem) option" where
  \<comment> \<open>flip the bit of element n, per_group to a group, and write the group's bitmap\<close>
  "flip_in_group n per_group infos d =
     (let g = n div per_group; index = n mod per_group
      in if g < length infos \<and> index div kBitsPerElem < length (bits (infos ! g)) then
           (let info = (infos ! g)\<lparr>bits := FlipBit index (bits (infos ! g))\<rparr>
            in Some (infos[g := info], WriteFromBlockId (bytes_of_bitmap (bits info)) (bitmap_block_id info) d))
         else None)"

definition MarkEmptyBlockAsUsed :: "nat \<Rightarrow> ext2 \<Rightarrow> ext2 option" where
  "MarkEmptyBlockAsUsed block_id fs =
     map_option (\<lambda>(infos, d). fs\<lparr>block_bitmap := infos, disk := d\<rparr>)
       (flip_in_group block_id (blocks_per_group fs) (block_bitmap fs) (disk fs))"

definition MarkEmptyInodeAsUsed :: "nat \<Rightarrow> ext2 \<Rightarrow> ext2 option" where
  "MarkEmptyInodeAsUsed inode_num fs =
     map_option (\<lambda>(infos, d). fs\<lparr>inode_bitmap := infos, disk := d\<rparr>)
       (flip_in_group (sub64 inode_num 1) (inodes_per_group fs) (inode_bitmap fs) (disk fs))"

definition take_block :: "ext2 \<Rightarrow> (nat \<times> ext2) option" where
  \<comment> \<open>\<open>GetEmptyBlock\<close>, then \<open>MarkEmptyBlockAsUsed\<close> of it\<close>
  "take_block fs = (let bid = GetEmptyBlock fs in map_option (Pair bid) (MarkEmptyBlockAsUsed bid fs))"

section \<open>Growing a file\<close>

definition needs_block :: "block_indices \<Rightarrow> block_indices \<Rightarrow> nat \<Rightarrow> bool" where
  "needs_block prev cur i \<longleftrightarrow> i > current_depth prev \<or> block_index prev ! i \<noteq> block_index cur ! i"

text \<open>The blocks one step of the iterator needs, level by level. The state is the inode the
  iterators point to, the file system and the iterator.\<close>

fun add_levels ::
  "nat \<Rightarrow> block_indices \<Rightarrow> nat list \<Rightarrow> inode \<Rightarrow> ext2 \<Rightarrow> block_iter \<Rightarrow> (inode \<times> ext2 \<times> block_iter) option" where
  "add_levels inode_num prev [] ino fs cur = Some (ino, fs, cur)"
| "add_levels inode_num prev (i # is) ino fs cur =
     (if \<not> needs_block prev (current_index cur) i then add_levels inode_num prev is ino fs cur
      else
        (case take_block fs of
           None \<Rightarrow> None
         | Some (empty_block_id, fs1) \<Rightarrow>
             let ino1 = set_inode_blocks (inode_blocks ino + 1) ino;
                 index = block_index (current_index cur) ! i
             in if i = 0 then
                  (let ino2 = set_inode_block index empty_block_id ino1
                   in case WriteInode inode_num ino2 fs1 of
                        None \<Rightarrow> None
                      | Some fs2 \<Rightarrow> add_levels inode_num prev is ino2 fs2 cur)
                else
                  (case GetBlockFromDepth (i - 1) ino1 (disk fs1) cur of
                     None \<Rightarrow> None
                   | Some (block, cur1) \<Rightarrow>
                       (case GetBlockId (i - 1) ino1 (disk fs1) cur1 of
                          (bid, cur2) \<Rightarrow>
                            add_levels inode_num prev is ino1
                              (fs1\<lparr>disk := WriteFromBlockId (SetNthEntryAtAddressBlock block index empty_block_id)
                                             (u64_of_int bid) (disk fs1)\<rparr>) cur2))))"

partial_function (option) expand_loop ::
  "nat \<Rightarrow> block_indices \<Rightarrow> block_indices \<Rightarrow> inode \<Rightarrow> ext2 \<Rightarrow> block_iter \<Rightarrow> ext2 option" where
  "expand_loop inode_num end prev ino fs cur =
     (case add_levels inode_num prev [0 ..< current_depth (current_index cur) + 1] ino fs cur of
        None \<Rightarrow> None
      | Some (ino1, fs1, cur1) \<Rightarrow>
          if indices_eq (current_index cur1) end then Some fs1
          else expand_loop inode_num end (current_index cur1) ino1 fs1 (next_block cur1))"

definition ExpandFileSize :: "nat \<Rightarrow> nat \<Rightarrow> ext2 \<Rightarrow> ext2 option" where
  "ExpandFileSize inode_num expanded_file_size fs0 =
     do {
       ino0 \<leftarrow> ReadInode inode_num fs0;
       (ino, current_file_size, fs) \<leftarrow>
         (if inode_size ino0 = 0 then
            do {
              let size' = min kBlockSize expanded_file_size;
              (bid, fs1) \<leftarrow> take_block fs0;
              let ino1 = set_inode_block 0 bid (set_inode_size size' ino0);
              fs2 \<leftarrow> WriteInode inode_num ino1 fs1;
              Some (ino1, size', fs2)
            }
          else Some (ino0, inode_size ino0, fs0));
       if current_file_size \<ge> expanded_file_size then Some fs
       else do {
         let ino1 = set_inode_size expanded_file_size ino;
         fs1 \<leftarrow> WriteInode inode_num ino1 fs;
         prev \<leftarrow> SetOffset (current_file_size - 1) new_iter;
         last \<leftarrow> SetOffset (expanded_file_size - 1) new_iter;
         if indices_eq (current_index prev) (current_index last) then Some fs1
         else expand_loop inode_num (current_index last) (current_index prev) ino1 fs1 prev
       }
     }"

section \<open>Writing\<close>

function copy_out :: "byte list \<Rightarrow> nat \<Rightarrow> nat \<Rightarrow> mem \<Rightarrow> nat \<times> mem" where
  \<comment> \<open>the inner loop of \<open>WriteFile\<close>\<close>
  "copy_out buf wrote current_block_offset block =
     (if wrote < length buf \<and> current_block_offset < kBlockSize
      then copy_out buf (wrote + 1) (current_block_offset + 1) (block(current_block_offset := buf ! wrote))
      else (wrote, block))"
  by pat_completeness auto

termination
  by (relation "measure (\<lambda>(buf, wrote, cbo, block). kBlockSize - cbo)") auto

declare copy_out.simps [simp del]

fun write_blocks :: "nat \<Rightarrow> inode \<Rightarrow> byte list \<Rightarrow> nat \<Rightarrow> block_iter \<Rightarrow> nat \<Rightarrow> mem \<Rightarrow> mem" where
  "write_blocks 0 ino buf offset it wrote d = d"
| "write_blocks (Suc n) ino buf offset it wrote d =
     (case deref ino d it of
        (block, it1) \<Rightarrow>
          (case copy_out buf wrote (block_offset offset it1) block of
             (wrote1, block1) \<Rightarrow>
               (case GetBlockId (current_depth (current_index it1)) ino d it1 of
                  (bid, it2) \<Rightarrow>
                    write_blocks n ino buf offset (next_block it2) wrote1
                      (WriteFromBlockId block1 (u64_of_int bid) d))))"

definition WriteFile :: "nat \<Rightarrow> byte list \<Rightarrow> nat \<Rightarrow> ext2 \<Rightarrow> ext2 option" where
  "WriteFile inode_num buf offset fs0 =
     do {
       ino0 \<leftarrow> ReadInode inode_num fs0;
       (ino, fs) \<leftarrow>
         (if offset + length buf \<ge> inode_size ino0 then
            do { fs \<leftarrow> ExpandFileSize inode_num (offset + length buf) fs0;
                 ino \<leftarrow> ReadInode inode_num fs;
                 Some (ino, fs) }
          else Some (ino0, fs0));
       it \<leftarrow> SetOffset offset new_iter;
       Some (fs\<lparr>disk := write_blocks (end_block offset (length buf) - offset div kBlockSize) ino buf offset it 0 (disk fs)\<rparr>)
     }"

record file_info =
  fi_inode :: nat
  fi_file_size :: nat
  fi_mode :: nat

definition Stat :: "nat \<Rightarrow> ext2 \<Rightarrow> file_info option" where
  "Stat inode_num fs =
     map_option (\<lambda>file. \<lparr>fi_inode = inode_num, fi_file_size = inode_size file, fi_mode = inode_mode file\<rparr>)
       (ReadInode inode_num fs)"

end
