(* ===== verification/KString.thy ===== *)
theory KString
  imports Prelude
begin

text \<open>
  The kernel's strings, \<open>kernel/std/string.h\<close>, \<open>string.cc\<close> and \<open>string_view.h\<close>, and the paths of
  \<open>kernel/kernel/fs/ext2.cc\<close> made of them. A \<open>KernelString\<close> is its vector \<open>str_\<close>, which ends
  with a NUL; a \<open>string_view\<close> is the characters it spans. \<open>npos\<close> is None.
\<close>

type_synonym byte = "8 word"
type_synonym kstring = "byte list"
type_synonym view = "byte list"

section \<open>KernelString\<close>

definition kstr_empty :: kstring where
  "kstr_empty = [0]"

definition kstr_of_chars :: "byte list \<Rightarrow> kstring" where
  \<comment> \<open>from a C string or from sz characters\<close>
  "kstr_of_chars cs = cs @ [0]"

definition kstr_of_view :: "view \<Rightarrow> kstring" where
  "kstr_of_view v = (if v = [] \<or> last v \<noteq> 0 then v @ [0] else v)"

definition ksize :: "kstring \<Rightarrow> nat" where
  "ksize s = length s - 1"

definition kback :: "kstring \<Rightarrow> byte" where
  "kback s = s ! (ksize s - 1)"

definition ksubstr :: "nat \<Rightarrow> nat option \<Rightarrow> kstring \<Rightarrow> kstring" where
  "ksubstr start len s =
     kstr_of_chars (take (case len of None \<Rightarrow> ksize s - start | Some n \<Rightarrow> n) (drop start s))"

definition kfind :: "byte \<Rightarrow> nat \<Rightarrow> kstring \<Rightarrow> nat option" where
  "kfind c from s = List.find (\<lambda>i. s ! i = c) [from ..< ksize s]"

definition kfind_last_of :: "byte \<Rightarrow> kstring \<Rightarrow> nat option option" where
  \<comment> \<open>None for an empty string, where the loop starts below 0\<close>
  "kfind_last_of c s =
     (if ksize s = 0 then None else Some (List.find (\<lambda>i. s ! i = c) (rev [0 ..< ksize s])))"

definition kstr_eq_chars :: "kstring \<Rightarrow> byte list \<Rightarrow> bool" where
  \<comment> \<open>\<open>operator==(const char*)\<close>, the NUL included\<close>
  "kstr_eq_chars s cs \<longleftrightarrow> ksize s \<le> length cs \<and> (\<forall>i \<le> ksize s. s ! i = (cs @ [0]) ! i)"

definition kstr_eq :: "kstring \<Rightarrow> kstring \<Rightarrow> bool" where
  "kstr_eq a b \<longleftrightarrow> ksize a = ksize b \<and> (\<forall>i < ksize a. a ! i = b ! i)"

definition kstr_eq_view :: "kstring \<Rightarrow> view \<Rightarrow> bool" where
  "kstr_eq_view s v \<longleftrightarrow> ksize s = length v \<and> (\<forall>i < ksize s. s ! i = v ! i)"

definition kappend :: "kstring \<Rightarrow> kstring \<Rightarrow> kstring" where
  \<comment> \<open>\<open>append(t)\<close>: the first character goes over the NUL, the others and a NUL after it\<close>
  "kappend t s =
     (if ksize t = 0 then s @ [0]
      else s[ksize s := t ! 0] @ tl (take (ksize t) t) @ [0])"

lemma kfind_bounds: "kfind c from s = Some i \<Longrightarrow> from \<le> i \<and> i < ksize s \<and> s ! i = c"
  by (auto simp: kfind_def find_Some_iff)

function split_from :: "kstring \<Rightarrow> byte \<Rightarrow> nat \<Rightarrow> kstring list" where
  "split_from ks delim cur =
     (if cur < ksize ks then
        (case kfind delim cur ks of
           None \<Rightarrow> [ksubstr cur None ks]
         | Some nxt \<Rightarrow>
             (if nxt \<noteq> cur then [ksubstr cur (Some (nxt - cur)) ks] else [])
             @ split_from ks delim (nxt + 1))
      else [])"
  by pat_completeness auto

termination
  by (relation "measure (\<lambda>(ks, delim, cur). ksize ks - cur)") (auto dest: kfind_bounds)

declare split_from.simps [simp del]

definition Split :: "kstring \<Rightarrow> byte \<Rightarrow> kstring list" where
  "Split ks delim = split_from ks delim 0"

section \<open>string_view\<close>

definition sv_substr :: "nat \<Rightarrow> nat option \<Rightarrow> view \<Rightarrow> view" where
  "sv_substr pos cnt v =
     (case cnt of
        None \<Rightarrow> drop pos v
      | Some n \<Rightarrow> if n + pos \<ge> length v then drop pos v else take n (drop pos v))"

definition sv_remove_prefix :: "nat \<Rightarrow> view \<Rightarrow> view" where
  "sv_remove_prefix n v = drop n v"

definition sv_find_first_of :: "byte \<Rightarrow> nat \<Rightarrow> view \<Rightarrow> nat option" where
  "sv_find_first_of c pos v = List.find (\<lambda>i. v ! i = c) [pos ..< length v]"

definition sv_find_first_of_n :: "byte \<Rightarrow> nat \<Rightarrow> nat \<Rightarrow> view \<Rightarrow> nat option" where
  "sv_find_first_of_n c pos cnt v = List.find (\<lambda>i. v ! i = c) [pos ..< min (length v) (pos + cnt)]"

definition sv_find_last_of :: "byte \<Rightarrow> view \<Rightarrow> nat option option" where
  \<comment> \<open>None for an empty view, where \<open>size_ - 1\<close> wraps\<close>
  "sv_find_last_of c v =
     (if v = [] then None else Some (List.find (\<lambda>i. v ! i = c) (rev [0 ..< length v])))"

definition sv_eq :: "view \<Rightarrow> view \<Rightarrow> bool" where
  "sv_eq a b \<longleftrightarrow> length a = length b \<and> (\<forall>i < length a. a ! i = b ! i)"

section \<open>Paths\<close>

definition GetAbsolutePath :: "kstring \<Rightarrow> kstring \<Rightarrow> kstring" where
  "GetAbsolutePath path current_dir =
     (if \<not> (ksize current_dir > 0 \<and> current_dir ! 0 = 47) then kstr_of_chars []
      else if ksize path = 0 then current_dir
      else if path ! 0 = 47 then path
      else kappend path (if kback current_dir \<noteq> 47 then kappend (kstr_of_chars [47]) current_dir else current_dir))"

function canonical_paths :: "kstring \<Rightarrow> nat \<Rightarrow> kstring list \<Rightarrow> kstring list" where
  "canonical_paths absolute_path cur paths =
     (if cur < ksize absolute_path then
        (let dir_name_end = kfind 47 cur absolute_path;
             dir = (case dir_name_end of
                      None \<Rightarrow> ksubstr cur None absolute_path
                    | Some e \<Rightarrow> ksubstr cur (Some (e - cur)) absolute_path);
             paths' = (if kstr_eq_chars dir [46, 46] then (if paths \<noteq> [] then butlast paths else paths)
                       else if \<not> kstr_eq_chars dir [46] \<and> \<not> kstr_eq_chars dir [] then paths @ [dir]
                       else paths)
         in case dir_name_end of
              None \<Rightarrow> paths'
            | Some e \<Rightarrow> canonical_paths absolute_path (e + 1) paths')
      else paths)"
  by pat_completeness auto

termination
  by (relation "measure (\<lambda>(p, cur, paths). ksize p - cur)") (auto dest!: kfind_bounds [OF sym])

declare canonical_paths.simps [simp del]

definition GetCanonicalAbsolutePath :: "kstring \<Rightarrow> kstring" where
  "GetCanonicalAbsolutePath absolute_path =
     (if \<not> (ksize absolute_path > 0 \<and> absolute_path ! 0 = 47) then kstr_of_chars []
      else let path = foldl (\<lambda>path p. kappend p (kappend (kstr_of_chars [47]) path)) kstr_empty
                        (canonical_paths absolute_path 1 [])
           in if ksize path = 0 then kstr_of_chars [47] else path)"

section \<open>Pieces of a path\<close>

text \<open>The reference: a text is cut at every delimiter, and a path is read component by
  component on a stack of names.\<close>

fun pieces :: "byte \<Rightarrow> byte list \<Rightarrow> byte list list" where
  "pieces c [] = [[]]"
| "pieces c (x # xs) = (if x = c then [] # pieces c xs
     else (case pieces c xs of [] \<Rightarrow> [[x]] | p # ps \<Rightarrow> (x # p) # ps))"

definition enter :: "byte list list \<Rightarrow> byte list \<Rightarrow> byte list list" where
  "enter st d = (if d = [46, 46] then butlast st else if d = [46] \<or> d = [] then st else st @ [d])"

definition resolve :: "byte list \<Rightarrow> byte list list" where
  "resolve path = foldl enter [] (pieces 47 path)"

definition path_of :: "byte list list \<Rightarrow> byte list" where
  "path_of ds = (if ds = [] then [47] else concat (map (\<lambda>d. 47 # d) ds))"

lemma pieces_not_Nil [simp]: "pieces c xs \<noteq> []"
  by (induction xs) (auto split: list.splits)

lemma pieces_none: "c \<notin> set xs \<Longrightarrow> pieces c xs = [xs]"
  by (induction xs) auto

lemma pieces_append: "c \<notin> set xs \<Longrightarrow> pieces c (xs @ c # ys) = xs # pieces c ys"
  by (induction xs) auto

lemma kfind_text:
  assumes d: "drop cur cs = us @ c # vs" and us: "c \<notin> set us"
  shows "kfind c cur (cs @ [0]) = Some (cur + length us)" "cur + length us < length cs"
proof -
  have "length (drop cur cs) = length us + Suc (length vs)" unfolding d by simp
  then show len: "cur + length us < length cs" by simp
  have nth: "(cs @ [0]) ! (cur + k) = (us @ c # vs) ! k" if "k \<le> length us" for k
    using that len by (simp add: nth_append add.commute flip: d)
  show "kfind c cur (cs @ [0]) = Some (cur + length us)"
    unfolding kfind_def
  proof (rule find_upt)
    show "cur + length us < ksize (cs @ [0])" using len by (simp add: ksize_def)
    show "(cs @ [0]) ! (cur + length us) = c" unfolding nth [OF order_refl] by simp
    show "(cs @ [0]) ! i \<noteq> c" if i: "cur \<le> i" "i < cur + length us" for i
    proof -
      have "i - cur < length us" using i by simp
      then have "(cs @ [0]) ! i = us ! (i - cur)" using nth [of "i - cur"] i by (simp add: nth_append)
      then show ?thesis using us nth_mem [OF \<open>i - cur < length us\<close>] by metis
    qed
  qed simp
qed

lemma kfind_text_none:
  assumes "c \<notin> set (drop cur cs)"
  shows "kfind c cur (cs @ [0]) = None"
  unfolding kfind_def
proof (rule find_upt_none)
  fix i
  assume "cur \<le> i" "i < ksize (cs @ [0])"
  then have "(cs @ [0]) ! i = drop cur cs ! (i - cur)" "i - cur < length (drop cur cs)"
    by (simp_all add: ksize_def nth_append)
  then show "(cs @ [0]) ! i \<noteq> c" using assms by (metis nth_mem)
qed

lemma ksubstr_text:
  "cur \<le> length cs \<Longrightarrow> ksubstr cur None (cs @ [0]) = drop cur cs @ [0]"
  "drop cur cs = us @ vs \<Longrightarrow> ksubstr cur (Some (length us)) (cs @ [0]) = us @ [0]"
  by (simp_all add: ksubstr_def kstr_of_chars_def ksize_def)

lemma kstr_eq_chars_text: "0 \<notin> set cs \<Longrightarrow> 0 \<notin> set ds \<Longrightarrow> kstr_eq_chars (cs @ [0]) ds \<longleftrightarrow> cs = ds"
proof
  assume z: "0 \<notin> set cs" "0 \<notin> set ds" and eq: "kstr_eq_chars (cs @ [0]) ds"
  have len: "length cs \<le> length ds" and nth: "\<And>i. i \<le> length cs \<Longrightarrow> (cs @ [0]) ! i = (ds @ [0]) ! i"
    using eq by (simp_all add: kstr_eq_chars_def ksize_def)
  have "length cs = length ds"
  proof (rule ccontr)
    assume "length cs \<noteq> length ds"
    then have "ds ! length cs = 0" "length cs < length ds" using nth [of "length cs"] len by (simp_all add: nth_append)
    then show False using z(2) nth_mem by metis
  qed
  then show "cs = ds" using nth by (intro nth_equalityI) (simp, metis nth_append less_imp_le)
qed (simp add: kstr_eq_chars_def ksize_def)

lemma kappend_text:
  "kappend (ds @ [0]) (cs @ [0]) = (if ds = [] then cs @ [0, 0] else cs @ ds @ [0])"
  by (cases ds) (simp_all add: kappend_def ksize_def)

section \<open>Splitting and canonical paths\<close>

lemma split_from_text:
  assumes "cur \<le> length cs"
  shows "split_from (cs @ [0]) c cur = map (\<lambda>p. p @ [0]) (filter (\<lambda>p. p \<noteq> []) (pieces c (drop cur cs)))"
  using assms
proof (induction "length cs - cur" arbitrary: cur rule: less_induct)
  case less
  have size: "ksize (cs @ [0]) = length cs" by (simp add: ksize_def)
  consider "cur = length cs" | "cur < length cs" "c \<notin> set (drop cur cs)" | "cur < length cs" "c \<in> set (drop cur cs)"
    using less.prems by fastforce
  then show ?case
  proof cases
    case 1
    then show ?thesis by (subst split_from.simps) (simp add: size)
  next
    case 2
    then show ?thesis
      by (subst split_from.simps) (simp add: size kfind_text_none ksubstr_text pieces_none)
  next
    case 3
    then obtain us vs where d: "drop cur cs = us @ c # vs" "c \<notin> set us" using split_list_first by metis
    note k = kfind_text [OF d]
    have rest: "drop (cur + length us + 1) cs = vs"
    proof -
      have "drop (cur + length us + 1) cs = drop (length us + 1) (drop cur cs)" by (simp add: add.commute add.left_commute)
      then show ?thesis using d(1) by simp
    qed
    have "split_from (cs @ [0]) c (cur + length us + 1) = map (\<lambda>p. p @ [0]) (filter (\<lambda>p. p \<noteq> []) (pieces c vs))"
      using less.hyps [of "cur + length us + 1"] k(2) rest by simp
    moreover have "pieces c (drop cur cs) = us # pieces c vs" unfolding d(1) by (rule pieces_append [OF d(2)])
    ultimately show ?thesis
      using 3 k ksubstr_text(2) [OF d(1)]
      by (subst split_from.simps) (simp add: size)
  qed
qed

lemma Split_text: "Split (cs @ [0]) c = map (\<lambda>p. p @ [0]) (filter (\<lambda>p. p \<noteq> []) (pieces c cs))"
  using split_from_text [of 0 cs c] by (simp add: Split_def)

lemma pieces_props: "p \<in> set (pieces c xs) \<Longrightarrow> c \<notin> set p \<and> set p \<subseteq> set xs"
  by (induction xs arbitrary: p) (force split: list.splits if_splits)+

lemma canonical_paths_text:
  assumes "cur \<le> length cs" "0 \<notin> set cs"
  shows "canonical_paths (cs @ [0]) cur (map (\<lambda>p. p @ [0]) st)
    = map (\<lambda>p. p @ [0]) (foldl enter st (pieces 47 (drop cur cs)))"
  using assms
proof (induction "length cs - cur" arbitrary: cur st rule: less_induct)
  case less
  have size: "ksize (cs @ [0]) = length cs" by (simp add: ksize_def)
  have enter: "(if kstr_eq_chars (d @ [0]) [46, 46]
        then (if map (\<lambda>p. p @ [0]) st \<noteq> [] then butlast (map (\<lambda>p. p @ [0]) st) else map (\<lambda>p. p @ [0]) st)
        else if \<not> kstr_eq_chars (d @ [0]) [46] \<and> \<not> kstr_eq_chars (d @ [0]) [] then map (\<lambda>p. p @ [0]) st @ [d @ [0]]
        else map (\<lambda>p. p @ [0]) st) = map (\<lambda>p. p @ [0]) (enter st d)" if "0 \<notin> set d" for d
    using that by (simp add: kstr_eq_chars_text enter_def map_butlast)
  have zero: "0 \<notin> set (drop cur cs)" using less.prems(2) in_set_dropD by metis
  consider "cur = length cs" | "cur < length cs" "47 \<notin> set (drop cur cs)" | "cur < length cs" "47 \<in> set (drop cur cs)"
    using less.prems by fastforce
  then show ?case
  proof cases
    case 1
    then show ?thesis by (subst canonical_paths.simps) (simp add: size enter_def)
  next
    case 2
    then have "canonical_paths (cs @ [0]) cur (map (\<lambda>p. p @ [0]) st) = map (\<lambda>p. p @ [0]) (enter st (drop cur cs))"
      unfolding enter [OF zero, symmetric]
      by (subst canonical_paths.simps) (simp add: size kfind_text_none ksubstr_text Let_def)
    then show ?thesis using 2 by (simp add: pieces_none)
  next
    case 3
    then obtain us vs where d: "drop cur cs = us @ 47 # vs" "47 \<notin> set us" using split_list_first by metis
    note k = kfind_text [OF d]
    have rest: "drop (cur + length us + 1) cs = vs"
    proof -
      have "drop (cur + length us + 1) cs = drop (length us + 1) (drop cur cs)" by (simp add: add.commute add.left_commute)
      then show ?thesis using d(1) by simp
    qed
    have z: "0 \<notin> set us" using zero d(1) by simp
    have "canonical_paths (cs @ [0]) cur (map (\<lambda>p. p @ [0]) st)
        = canonical_paths (cs @ [0]) (cur + length us + 1) (map (\<lambda>p. p @ [0]) (enter st us))"
      unfolding enter [OF z, symmetric] using 3 k ksubstr_text(2) [OF d(1)]
      by (subst canonical_paths.simps) (simp add: size Let_def)
    also have "\<dots> = map (\<lambda>p. p @ [0]) (foldl enter (enter st us) (pieces 47 vs))"
      using less.hyps [of "cur + length us + 1" "enter st us"] k(2) rest less.prems(2) by simp
    finally show ?thesis unfolding d(1) pieces_append [OF d(2)] by simp
  qed
qed

lemma enter_props:
  "(\<And>p. p \<in> set st \<Longrightarrow> P p) \<Longrightarrow> (d \<notin> {[], [46], [46, 46]} \<Longrightarrow> P d) \<Longrightarrow> p \<in> set (enter st d) \<Longrightarrow> P p"
  by (auto simp: enter_def split: if_splits dest: in_set_butlastD)

lemma foldl_enter_props:
  "(\<And>p. p \<in> set st \<Longrightarrow> P p) \<Longrightarrow> (\<And>d. d \<in> set ds \<Longrightarrow> d \<notin> {[], [46], [46, 46]} \<Longrightarrow> P d)
    \<Longrightarrow> p \<in> set (foldl enter st ds) \<Longrightarrow> P p"
proof (induction ds arbitrary: st)
  case (Cons d ds)
  have "P q" if "q \<in> set (enter st d)" for q
    by (rule enter_props [of st P d q]) (use Cons.prems that in auto)
  then show ?case using Cons.IH [of "enter st d"] Cons.prems by auto
qed simp

lemma resolve_props:
  assumes "p \<in> set (resolve path)"
  shows "p \<notin> {[], [46], [46, 46]} \<and> 47 \<notin> set p \<and> set p \<subseteq> set path"
  using assms unfolding resolve_def
  by (rule foldl_enter_props [rotated 2]) (use pieces_props in auto)

lemma foldl_enter_id: "\<forall>d \<in> set ds. d \<notin> {[], [46], [46, 46]} \<Longrightarrow> foldl enter st ds = st @ ds"
  by (induction ds arbitrary: st) (auto simp: enter_def)

lemma pieces_path_of:
  "ds \<noteq> [] \<Longrightarrow> \<forall>d \<in> set ds. 47 \<notin> set d \<Longrightarrow> pieces 47 (tl (path_of ds)) = ds"
proof (induction ds)
  case (Cons d ds)
  show ?case
  proof (cases ds)
    case Nil
    then show ?thesis using Cons.prems by (simp add: path_of_def pieces_none)
  next
    case (Cons e es)
    then have "tl (path_of (d # ds)) = d @ 47 # tl (path_of ds)" by (simp add: path_of_def)
    then show ?thesis using Cons.prems Cons.IH Cons pieces_append [of 47 d] by simp
  qed
qed simp

lemma append_paths:
  "\<forall>d \<in> set ds. d \<noteq> [] \<Longrightarrow>
    foldl (\<lambda>path p. kappend p (kappend (kstr_of_chars [47]) path)) (cs @ [0]) (map (\<lambda>p. p @ [0]) ds)
      = cs @ concat (map (\<lambda>d. 47 # d) ds) @ [0]"
proof (induction ds arbitrary: cs)
  case (Cons d ds)
  have "kappend (d @ [0]) (kappend (kstr_of_chars [47]) (cs @ [0])) = (cs @ 47 # d) @ [0]"
  proof -
    have "kappend (kstr_of_chars [47]) (cs @ [0]) = (cs @ [47]) @ [0]"
      using kappend_text [of "[47]" cs] by (simp add: kstr_of_chars_def)
    then show ?thesis using kappend_text [of d "cs @ [47]"] Cons.prems by simp
  qed
  then show ?case using Cons.IH [of "cs @ 47 # d"] Cons.prems by simp
qed simp

lemma canonical_text:
  assumes "0 \<notin> set path"
  shows "GetCanonicalAbsolutePath (47 # path @ [0]) = path_of (resolve path) @ [0]"
proof -
  have "canonical_paths ((47 # path) @ [0]) 1 (map (\<lambda>p. p @ [0]) []) = map (\<lambda>p. p @ [0]) (resolve path)"
    using canonical_paths_text [of 1 "47 # path" "[]"] assms by (simp add: resolve_def)
  then have c: "canonical_paths (47 # path @ [0]) 1 [] = map (\<lambda>p. p @ [0]) (resolve path)" by simp
  have "\<forall>d \<in> set (resolve path). d \<noteq> []" using resolve_props by blast
  note ap = append_paths [OF this, of "[]"]
  show ?thesis
  proof (cases "resolve path")
    case Nil
    then show ?thesis using c by (simp add: GetCanonicalAbsolutePath_def ksize_def kstr_empty_def kstr_of_chars_def path_of_def)
  next
    case (Cons d ds)
    then show ?thesis
      using c ap unfolding GetCanonicalAbsolutePath_def
      by (simp add: ksize_def kstr_empty_def path_of_def Let_def del: foldl_Cons)
  qed
qed

text \<open>C23: The canonical form of an absolute path is the path of the stack of names that reading
  its components one by one leaves: it has no empty, "." or ".." component, and is its own
  canonical form.\<close>

theorem canonical_path:
  assumes "0 \<notin> set path"
  shows "GetCanonicalAbsolutePath (47 # path @ [0]) = path_of (resolve path) @ [0]
     \<and> GetCanonicalAbsolutePath (path_of (resolve path) @ [0]) = path_of (resolve path) @ [0]
     \<and> (\<forall>d \<in> set (resolve path). d \<notin> {[], [46], [46, 46]} \<and> 47 \<notin> set d)"
proof (intro conjI)
  show "GetCanonicalAbsolutePath (47 # path @ [0]) = path_of (resolve path) @ [0]" by (rule canonical_text [OF assms])
  show names: "\<forall>d \<in> set (resolve path). d \<notin> {[], [46], [46, 46]} \<and> 47 \<notin> set d" using resolve_props by blast
  show "GetCanonicalAbsolutePath (path_of (resolve path) @ [0]) = path_of (resolve path) @ [0]"
  proof (cases "resolve path")
    case Nil
    then show ?thesis using canonical_text [of "[]"] by (simp add: path_of_def resolve_def enter_def)
  next
    case (Cons d ds)
    let ?q = "tl (path_of (resolve path))"
    have q: "path_of (resolve path) = 47 # ?q" using Cons by (simp add: path_of_def)
    have "resolve ?q = resolve path"
      using pieces_path_of [of "resolve path"] foldl_enter_id [of "resolve path" "[]"] names Cons
      unfolding resolve_def [of ?q] by simp
    moreover have "0 \<notin> set ?q"
    proof
      assume "0 \<in> set ?q"
      then have "0 \<in> set (path_of (resolve path))" using q by (metis list.set_intros(2))
      then obtain d where "d \<in> set (resolve path)" "0 \<in> set d" using Cons by (auto simp: path_of_def split: if_splits)
      then show False using resolve_props assms by blast
    qed
    ultimately show ?thesis using canonical_text [of ?q] q by (metis append_Cons)
  qed
qed

theorem canonical_path_witness:
  "GetCanonicalAbsolutePath [47, 97, 47, 46, 46, 47, 47, 98, 47, 46, 0] = [47, 98, 0]"
  using canonical_path [of "[97, 47, 46, 46, 47, 47, 98, 47, 46]"]
  by (simp add: resolve_def enter_def path_of_def)

end
