(* ===== verification/Ext2Dir.thy ===== *)
theory Ext2Dir
  imports Ext2 KString
begin

text \<open>
  Directories and paths of \<open>kernel/kernel/fs/ext2.cc\<close>, mounting, and the descriptor of an open
  file, \<open>actual_file_desc.cc\<close>. A directory is read into a buffer of its size; None is reading
  outside that buffer.
\<close>

section \<open>Directory entries\<close>

definition list_mem :: "byte list \<Rightarrow> mem" where
  "list_mem bs = (\<lambda>i. if i < length bs then bs ! i else 0)"

definition list16 :: "byte list \<Rightarrow> nat \<Rightarrow> nat" where "list16 bs a = rd16 (list_mem bs) a"
definition list32 :: "byte list \<Rightarrow> nat \<Rightarrow> nat" where "list32 bs a = rd32 (list_mem bs) a"

function parse_entries :: "byte list \<Rightarrow> nat \<Rightarrow> nat \<Rightarrow> dir_entry list option" where
  "parse_entries data dir_size cur =
     (if cur < dir_size then
        if cur + 6 > length data then None
        else
          let entry_size = list16 data (cur + 4)
          in if entry_size = 0 then Some []
             else if cur + 8 > length data then None
             else
               let name_len = unat (data ! (cur + 6));
                   entry = \<lparr>de_inode = list32 data cur, de_file_type = unat (data ! (cur + 7)),
                            de_name = take name_len (drop (cur + 8) data)\<rparr>
               in if cur + 8 + name_len > length data then None
                  else map_option (Cons entry) (parse_entries data dir_size (cur + entry_size))
      else Some [])"
  by pat_completeness auto

termination
  by (relation "measure (\<lambda>(data, dir_size, cur). dir_size - cur)") auto

declare parse_entries.simps [simp del]

definition ParseDirectory :: "inode \<Rightarrow> mem \<Rightarrow> dir_entry list option" where
  "ParseDirectory dir d =
     (case ReadFile dir d (inode_size dir) 0 of
        None \<Rightarrow> None
      | Some data \<Rightarrow> parse_entries data (inode_size dir) 0)"

function end_of_entries :: "byte list \<Rightarrow> nat \<Rightarrow> nat \<Rightarrow> nat option" where
  "end_of_entries data dir_size cur =
     (if cur < dir_size then
        if cur + 6 > length data then None
        else
          let entry_size = list16 data (cur + 4)
          in if entry_size = 0 then Some cur
             else if cur + 8 > length data then None
             else end_of_entries data dir_size (cur + entry_size)
      else Some cur)"
  by pat_completeness auto

termination
  by (relation "measure (\<lambda>(data, dir_size, cur). dir_size - cur)") auto

declare end_of_entries.simps [simp del]

definition GetEndOfDirectoryEntry :: "inode \<Rightarrow> mem \<Rightarrow> nat option" where
  "GetEndOfDirectoryEntry dir d =
     (case ReadFile dir d (inode_size dir) 0 of
        None \<Rightarrow> None
      | Some data \<Rightarrow> end_of_entries data (inode_size dir) 0)"

section \<open>Looking up a path\<close>

definition find_entry :: "view \<Rightarrow> dir_entry list \<Rightarrow> dir_entry option" where
  \<comment> \<open>the loop over the entries; the name of an entry is a \<open>KernelString\<close>\<close>
  "find_entry name entries = List.find (\<lambda>file. kstr_eq_view (kstr_of_chars (de_name file)) name) entries"

lemma sv_find_bounds: "sv_find_first_of c pos v = Some i \<Longrightarrow> pos \<le> i \<and> i < length v"
  by (auto simp: sv_find_first_of_def find_Some_iff)

text \<open>The result is the \<open>int\<close> the code returns, -1 when there is no such file.\<close>

function lookup_from :: "ext2 \<Rightarrow> view \<Rightarrow> nat \<Rightarrow> dir_entry list \<Rightarrow> int option" where
  "lookup_from fs path cur current_dir =
     (case sv_find_first_of 47 cur path of
        Some e \<Rightarrow>
          (case find_entry (sv_substr cur (Some (e - cur)) path) current_dir of
             None \<Rightarrow> Some (- 1)
           | Some file \<Rightarrow>
               if e = length path - 1 then Some (s32 (de_inode file))
               else
                 (case ReadInode (de_inode file) fs of
                    None \<Rightarrow> None
                  | Some ino \<Rightarrow>
                      (case ParseDirectory ino (disk fs) of
                         None \<Rightarrow> None
                       | Some dir \<Rightarrow> lookup_from fs path (e + 1) dir)))
      | None \<Rightarrow>
          (case find_entry (sv_substr cur None path) current_dir of
             None \<Rightarrow> Some (- 1)
           | Some file \<Rightarrow> Some (s32 (de_inode file))))"
  by pat_completeness auto

termination
  by (relation "measure (\<lambda>(fs, path, cur, dir). length path - cur)") (auto dest!: sv_find_bounds)

declare lookup_from.simps [simp del]

definition GetInodeNumberFromPath :: "view \<Rightarrow> ext2 \<Rightarrow> int option" where
  "GetInodeNumberFromPath path fs =
     (if path = [] \<or> path ! 0 \<noteq> 47 then Some (- 1)
      else if length path = 1 then Some 2
      else lookup_from fs path 1 (root_dir fs))"

definition ReadFilePath :: "view \<Rightarrow> nat \<Rightarrow> nat \<Rightarrow> ext2 \<Rightarrow> byte list option" where
  \<comment> \<open>\<open>ReadFile(path, ...)\<close>: the bytes read\<close>
  "ReadFilePath path num_read offset fs =
     do {
       inode_num \<leftarrow> GetInodeNumberFromPath path fs;
       if inode_num = - 1 then Some []
       else do {
         file \<leftarrow> ReadInode (u64_of_int inode_num) fs;
         if offset \<ge> inode_size file then Some []
         else ReadFile file (disk fs) (min num_read (inode_size file - offset)) offset
       }
     }"

definition WriteFilePath :: "view \<Rightarrow> byte list \<Rightarrow> nat \<Rightarrow> ext2 \<Rightarrow> ext2 option" where
  "WriteFilePath path buf offset fs =
     do {
       inode_num \<leftarrow> GetInodeNumberFromPath path fs;
       if inode_num = - 1 then Some fs else WriteFile (u64_of_int inode_num) buf offset fs
     }"

definition StatPath :: "view \<Rightarrow> ext2 \<Rightarrow> file_info option" where
  "StatPath path fs =
     do {
       inode_num \<leftarrow> GetInodeNumberFromPath path fs;
       if inode_num = - 1 then Some \<lparr>fi_inode = 0, fi_file_size = 0, fi_mode = 0\<rparr>
       else Stat (u64_of_int inode_num) fs
     }"

section \<open>Creating a file\<close>

definition entry_bytes :: "nat \<Rightarrow> nat \<Rightarrow> bool \<Rightarrow> view \<Rightarrow> byte list" where
  \<comment> \<open>the \<open>dir_entry_size\<close> bytes that are written; those after the name are not set by the code, 0 here\<close>
  "entry_bytes new_inode dir_entry_size is_directory file_name =
     [word_of_nat new_inode, word_of_nat (new_inode div 256), word_of_nat (new_inode div 65536),
      word_of_nat (new_inode div 16777216), word_of_nat dir_entry_size, word_of_nat (dir_entry_size div 256),
      word_of_nat (length file_name), if is_directory then 2 else 1]
     @ file_name @ replicate (dir_entry_size - (8 + length file_name)) 0"

definition dir_entry_size_of :: "view \<Rightarrow> nat" where
  "dir_entry_size_of file_name =
     (let n = wrap 16 (8 + length file_name) in if n mod 4 \<noteq> 0 then wrap 16 ((n div 4 + 1) * 4) else n)"

definition CreateFile :: "view \<Rightarrow> bool \<Rightarrow> ext2 \<Rightarrow> (bool \<times> ext2) option" where
  "CreateFile path is_directory fs0 =
     do {
       existing \<leftarrow> GetInodeNumberFromPath path fs0;
       if existing \<noteq> - 1 then Some (False, fs0)
       else do {
         parent \<leftarrow> sv_find_last_of 47 path;
         case parent of
           None \<Rightarrow> Some (False, fs0)
         | Some parent \<Rightarrow> do {
             parent_inode_num \<leftarrow> GetInodeNumberFromPath (sv_substr 0 (Some (parent + 1)) path) fs0;
             if parent_inode_num = - 1 then Some (False, fs0)
             else do {
               parent_inode \<leftarrow> ReadInode (u64_of_int parent_inode_num) fs0;
               if \<not> IsDirectory parent_inode then Some (False, fs0)
               else do {
                 let file_name = sv_substr (parent + 1) None path;
                 let dir_entry_size = dir_entry_size_of file_name;
                 let new_file_inode = u32 (GetEmptyInode fs0);
                 fs1 \<leftarrow> MarkEmptyInodeAsUsed new_file_inode fs0;
                 entry_end \<leftarrow> GetEndOfDirectoryEntry parent_inode (disk fs1);
                 fs2 \<leftarrow> WriteFile (u64_of_int parent_inode_num)
                          (entry_bytes new_file_inode dir_entry_size is_directory file_name) entry_end fs1;
                 new_inode \<leftarrow> ReadInode new_file_inode fs2;
                 fs3 \<leftarrow> WriteInode new_file_inode
                          (set_inode_mode (if is_directory then 0x4000 else 0x8000) (set_inode_size 0 new_inode)) fs2;
                 if parent_inode_num = 2 then do {
                   root_inode \<leftarrow> ReadInode 2 fs3;
                   dir \<leftarrow> ParseDirectory root_inode (disk fs3);
                   Some (True, fs3\<lparr>root_dir := dir\<rparr>)
                 }
                 else Some (True, fs3)
               }
             }
           }
       }
     }"

section \<open>Mounting\<close>

definition super_blocks_count :: "mem \<Rightarrow> nat" where "super_blocks_count sb = rd32 sb 4"
definition super_log_block_size :: "mem \<Rightarrow> nat" where "super_log_block_size sb = rd32 sb 24"
definition super_blocks_per_group :: "mem \<Rightarrow> nat" where "super_blocks_per_group sb = rd32 sb 32"
definition super_inodes_per_group :: "mem \<Rightarrow> nat" where "super_inodes_per_group sb = rd32 sb 40"
definition super_inode_size :: "mem \<Rightarrow> nat" where "super_inode_size sb = rd16 sb 88"

definition integer_ratio_round_up :: "nat \<Rightarrow> nat \<Rightarrow> nat" where
  "integer_ratio_round_up m n = (if m = 0 then 1 else (m - 1) div n + 1)"

definition read_desc :: "mem \<Rightarrow> nat \<Rightarrow> group_desc" where
  "read_desc m i = \<lparr>gd_block_bitmap = rd32 m (32 * i), gd_inode_bitmap = rd32 m (32 * i + 4),
     gd_inode_table = rd32 m (32 * i + 8)\<rparr>"

definition read_bitmap :: "mem \<Rightarrow> nat \<Rightarrow> bitmap_info" where
  "read_bitmap d block_id = \<lparr>bitmap_block_id = block_id, bits = bitmap_of_bytes (GetArrayFromBlockId d 1024 block_id)\<rparr>"

definition mount :: "mem \<Rightarrow> ext2 option" where
  \<comment> \<open>the constructor \<open>Ext2FileSystem()\<close>; a division by 0 blocks per group is None\<close>
  "mount d =
     (let super_block = GetFromBlockId d 1
      in if super_blocks_per_group super_block = 0 \<or> super_log_block_size super_block \<noteq> 0
           \<or> super_inode_size super_block \<noteq> 128 then None
         else
           let num_block_desc = integer_ratio_round_up (super_blocks_count super_block) (super_blocks_per_group super_block);
               descs = map (read_desc (GetArrayFromBlockId d (32 * num_block_desc) 2)) [0 ..< num_block_desc];
               root_inode = read_bytes 128 (GetArrayFromBlockId d 256 (gd_inode_table (descs ! 0))) 128
           in case ParseDirectory root_inode d of
                None \<Rightarrow> None
              | Some dir \<Rightarrow>
                  Some \<lparr>disk = d, blocks_per_group = super_blocks_per_group super_block,
                        inodes_per_group = super_inodes_per_group super_block, block_descs = descs,
                        block_bitmap = map (\<lambda>g. read_bitmap d (gd_block_bitmap g)) descs,
                        inode_bitmap = map (\<lambda>g. read_bitmap d (gd_inode_bitmap g)) descs,
                        root_dir = dir\<rparr>)"

section \<open>Open files\<close>

record file_desc =
  fd_inode_num :: nat
  fd_offset :: nat
  fd_inode :: "inode option"

datatype whence = SEEK_SET | SEEK_CUR | SEEK_END

definition open_file :: "nat \<Rightarrow> bool \<Rightarrow> ext2 \<Rightarrow> (file_desc \<times> ext2) option" where
  \<comment> \<open>the constructor; \<open>o_trunc\<close> is the flag \<open>O_TRUNC\<close>\<close>
  "open_file inode_num o_trunc fs =
     (if o_trunc then
        do {
          ino \<leftarrow> ReadInode inode_num fs;
          let ino1 = set_inode_size 0 ino;
          fs1 \<leftarrow> WriteInode inode_num ino1 fs;
          Some (\<lparr>fd_inode_num = inode_num, fd_offset = 0, fd_inode = Some ino1\<rparr>, fs1)
        }
      else Some (\<lparr>fd_inode_num = inode_num, fd_offset = 0, fd_inode = None\<rparr>, fs))"

definition fd_read :: "int \<Rightarrow> ext2 \<Rightarrow> file_desc \<Rightarrow> (byte list \<times> file_desc) option" where
  "fd_read cnt fs fd0 =
     do {
       ino \<leftarrow> (case fd_inode fd0 of None \<Rightarrow> ReadInode (fd_inode_num fd0) fs | Some ino \<Rightarrow> Some ino);
       bytes \<leftarrow> ReadFile ino (disk fs) (u64_of_int cnt) (fd_offset fd0);
       Some (bytes, fd0\<lparr>fd_inode := Some ino, fd_offset := fd_offset fd0 + length bytes\<rparr>)
     }"

definition fd_write :: "byte list \<Rightarrow> ext2 \<Rightarrow> file_desc \<Rightarrow> (nat \<times> file_desc \<times> ext2) option" where
  "fd_write buf fs fd0 =
     do {
       fs1 \<leftarrow> WriteFile (fd_inode_num fd0) buf (fd_offset fd0) fs;
       Some (length buf, fd0\<lparr>fd_offset := fd_offset fd0 + length buf\<rparr>, fs1)
     }"

definition fd_seek :: "int \<Rightarrow> whence \<Rightarrow> ext2 \<Rightarrow> file_desc \<Rightarrow> (int \<times> file_desc) option" where
  "fd_seek offset w fs fd0 =
     (case w of
        SEEK_SET \<Rightarrow> if offset \<ge> 0 then Some (offset, fd0\<lparr>fd_offset := nat offset\<rparr>) else Some (- 1, fd0)
      | SEEK_CUR \<Rightarrow>
          let p = int (fd_offset fd0) + offset
          in if p \<ge> 0 then Some (p, fd0\<lparr>fd_offset := nat p\<rparr>) else Some (- 1, fd0)
      | SEEK_END \<Rightarrow>
          do {
            st \<leftarrow> Stat (fd_inode_num fd0) fs;
            let p = int (fi_file_size st) + offset;
            if p \<ge> 0 then Some (p, fd0\<lparr>fd_offset := nat p\<rparr>) else Some (- 1, fd0)
          })"

end
