(* ===== verification/Ext2Props.thy ===== *)
theory Ext2Props
  imports Ext2Dir
begin

text \<open>
  Properties of the file system: block allocation, and the bytes of a file whose blocks are
  direct, as reading and writing see them.
\<close>

section \<open>Bitmaps\<close>

lemma ctz64_first:
  assumes "w \<noteq> 0"
  shows "ctz64 w < 64" "bit w (ctz64 w)"
proof -
  obtain n where n: "n < 64" "bit w n" using assms bit_word_eqI [of w 0] by auto
  then have "dropWhile (\<lambda>k. \<not> bit w k) [0 ..< 64] \<noteq> []" by (auto simp: dropWhile_eq_Nil_conv)
  then have len: "length (takeWhile (\<lambda>k. \<not> bit w k) [0 ..< 64]) < length [0 ..< 64]"
    using arg_cong [OF takeWhile_dropWhile_id [of "\<lambda>k. \<not> bit w k" "[0 ..< 64]"], of length]
    by (simp only: length_append) (metis length_greater_0_conv less_add_same_cancel1)
  then show "ctz64 w < 64" by (simp add: ctz64_def)
  show "bit w (ctz64 w)" using nth_length_takeWhile [OF len] len by (simp add: ctz64_def)
qed

lemma IsSet_bit: "IsSet i bm \<longleftrightarrow> bit (bm ! (i div 64)) (i mod 64)"
  by (simp add: IsSet_def kBitsPerElem_def bit_iff_and_push_bit_not_eq_0)

lemma bit_xor_push: "n < 64 \<Longrightarrow> bit (w XOR push_bit m 1) n \<longleftrightarrow> bit w n \<noteq> (n = m)" for w :: "64 word"
  by (auto simp: bit_xor_iff bit_push_bit_iff bit_1_iff simp del: push_bit_of_1)

lemma IsSet_FlipBit:
  assumes "i div 64 < length bm"
  shows "IsSet j (FlipBit i bm) = (if j = i then \<not> IsSet j bm else IsSet j bm)"
proof (cases "j div 64 = i div 64")
  case True
  then have "j = i \<longleftrightarrow> j mod 64 = i mod 64" by (metis div_mult_mod_eq)
  then show ?thesis using assms True
    by (simp add: IsSet_bit FlipBit_def kBitsPerElem_def bit_xor_push del: push_bit_of_1)
next
  case False
  then have "j \<noteq> i" by blast
  then show ?thesis using False by (simp add: IsSet_bit FlipBit_def kBitsPerElem_def)
qed

lemma GetEmptyBitIndex_some:
  assumes "GetEmptyBitIndex bm \<noteq> - 1"
  shows "\<exists>k. GetEmptyBitIndex bm = int k \<and> k < 64 * length bm \<and> \<not> IsSet k bm"
proof -
  obtain i where i: "List.find (\<lambda>i. NOT (bm ! i) \<noteq> 0) [0 ..< length bm] = Some i"
    using assms by (auto simp: GetEmptyBitIndex_def split: option.splits)
  then have w: "i < length bm" "NOT (bm ! i) \<noteq> 0" by (auto simp: find_Some_iff)
  note c = ctz64_first [OF w(2)]
  let ?k = "i * 64 + ctz64 (NOT (bm ! i))"
  have "?k div 64 = i" "?k mod 64 = ctz64 (NOT (bm ! i))" using c(1) by simp_all
  then have "\<not> IsSet ?k bm" using c by (simp add: IsSet_bit bit_not_iff)
  moreover have "?k < 64 * length bm"
  proof -
    have "Suc i * 64 \<le> length bm * 64" using w(1) by (intro mult_right_mono) simp_all
    then show ?thesis using c(1) by simp
  qed
  moreover have "GetEmptyBitIndex bm = int ?k" using i by (simp add: GetEmptyBitIndex_def kBitsPerElem_def)
  ultimately show ?thesis by blast
qed

section \<open>Allocation\<close>

text \<open>A group's bitmap is a block of 8192 bits, of which the first ones stand for the elements of the group; the padding
  behind them is set.\<close>

definition group_bitmaps :: "nat \<Rightarrow> bitmap_info list \<Rightarrow> bool" where
  "group_bitmaps per_group infos \<longleftrightarrow> 0 < per_group \<and> per_group \<le> 8192
     \<and> (\<forall>info \<in> set infos. length (bits info) = 128 \<and> (\<forall>k. per_group \<le> k \<and> k < 8192 \<longrightarrow> IsSet k (bits info)))"

definition bit_in_use :: "nat \<Rightarrow> bitmap_info list \<Rightarrow> nat \<Rightarrow> bool" where
  \<comment> \<open>the bit of element n, counted over all groups from 0\<close>
  "bit_in_use per_group infos n \<longleftrightarrow> IsSet (n mod per_group) (bits (infos ! (n div per_group)))"

lemma first_empty_none:
  "\<forall>info \<in> set infos. GetEmptyBitIndex (bits info) = - 1 \<Longrightarrow> first_empty infos = None"
  by (auto simp: first_empty_def intro!: find_upt_none split: option.splits)

lemma first_empty_some:
  assumes "group_bitmaps per_group infos" "\<exists>info \<in> set infos. GetEmptyBitIndex (bits info) \<noteq> - 1"
  obtains i k where "first_empty infos = Some (i, int k)" "i < length infos" "k < per_group" "\<not> IsSet k (bits (infos ! i))"
proof -
  obtain j where "j < length infos" "GetEmptyBitIndex (bits (infos ! j)) \<noteq> - 1"
    using assms(2) by (metis in_set_conv_nth)
  then have "List.find (\<lambda>i. GetEmptyBitIndex (bits (infos ! i)) \<noteq> - 1) [0 ..< length infos] \<noteq> None"
    by (auto simp: find_None_iff)
  then obtain i where f: "List.find (\<lambda>i. GetEmptyBitIndex (bits (infos ! i)) \<noteq> - 1) [0 ..< length infos] = Some i"
    by blast
  then have i: "i < length infos" "GetEmptyBitIndex (bits (infos ! i)) \<noteq> - 1" by (auto simp: find_Some_iff)
  have g: "length (bits (infos ! i)) = 128" "\<And>k. per_group \<le> k \<Longrightarrow> k < 8192 \<Longrightarrow> IsSet k (bits (infos ! i))"
    using assms(1) i(1) by (simp_all add: group_bitmaps_def)
  obtain k where k: "GetEmptyBitIndex (bits (infos ! i)) = int k" "k < 8192" "\<not> IsSet k (bits (infos ! i))"
    using GetEmptyBitIndex_some [OF i(2)] g(1) by auto
  then have "k < per_group" using g(2) [of k] by (meson not_le)
  moreover have "first_empty infos = Some (i, int k)" using f k(1) by (simp add: first_empty_def)
  ultimately show ?thesis using that i(1) k(3) by blast
qed

lemma flip_takes:
  assumes g: "group_bitmaps per_group infos" and i: "i < length infos" and k: "k < per_group" "\<not> IsSet k (bits (infos ! i))"
  defines "info \<equiv> (infos ! i)\<lparr>bits := FlipBit k (bits (infos ! i))\<rparr>"
  shows "flip_in_group (k + per_group * i) per_group infos d
      = Some (infos[i := info], WriteFromBlockId (bytes_of_bitmap (bits info)) (bitmap_block_id info) d)"
    "group_bitmaps per_group (infos[i := info])"
    "\<not> bit_in_use per_group infos (k + per_group * i)"
    "bit_in_use per_group (infos[i := info]) m \<longleftrightarrow> m = k + per_group * i \<or> bit_in_use per_group infos m"
proof -
  have p: "0 < per_group" "per_group \<le> 8192" and len: "length (bits (infos ! i)) = 128"
    using g i by (simp_all add: group_bitmaps_def)
  have b: "(k + per_group * i) div per_group = i" "(k + per_group * i) mod per_group = k" using k(1) by simp_all
  have k64: "k div 64 < 128" using k(1) p by (simp add: less_mult_imp_div_less)
  show "flip_in_group (k + per_group * i) per_group infos d
      = Some (infos[i := info], WriteFromBlockId (bytes_of_bitmap (bits info)) (bitmap_block_id info) d)"
    using i k64 len k(1) by (simp add: flip_in_group_def kBitsPerElem_def Let_def info_def)
  show "\<not> bit_in_use per_group infos (k + per_group * i)" using k by (simp add: bit_in_use_def)
  have flip: "IsSet j (bits info) \<longleftrightarrow> j = k \<or> IsSet j (bits (infos ! i))" for j
    using IsSet_FlipBit [of k "bits (infos ! i)" j] k64 len k(2) by (auto simp: info_def)
  have "m div per_group = i \<and> m mod per_group = k \<longleftrightarrow> m = k + per_group * i"
    using b mod_div_mult_eq [of m per_group] by (auto simp: mult.commute)
  then show "bit_in_use per_group (infos[i := info]) m \<longleftrightarrow> m = k + per_group * i \<or> bit_in_use per_group infos m"
    using i flip by (cases "m div per_group = i") (auto simp: bit_in_use_def)
  show "group_bitmaps per_group (infos[i := info])"
    using g flip len i by (auto simp: group_bitmaps_def info_def FlipBit_def dest!: subsetD [OF set_update_subset_insert])
qed

definition inode_in_use :: "ext2 \<Rightarrow> nat \<Rightarrow> bool" where
  \<comment> \<open>inodes are numbered from 1\<close>
  "inode_in_use fs n \<longleftrightarrow> bit_in_use (inodes_per_group fs) (inode_bitmap fs) (n - 1)"

text \<open>C24: While some group has a free inode, \<open>GetEmptyInode\<close> gives the number of one that is not in use, in the range of
  the groups, and \<open>MarkEmptyInodeAsUsed\<close> marks it and no other, in memory and in the group's bitmap on the disk; when
  none is free, \<open>GetEmptyInode\<close> returns 0, which is no inode.\<close>

theorem inode_allocation:
  assumes "group_bitmaps (inodes_per_group fs) (inode_bitmap fs)" "inodes_per_group fs * length (inode_bitmap fs) < 2 ^ 32"
  shows "if \<exists>info \<in> set (inode_bitmap fs). GetEmptyBitIndex (bits info) \<noteq> - 1
     then \<exists>fs' g. 0 < GetEmptyInode fs \<and> GetEmptyInode fs \<le> inodes_per_group fs * length (inode_bitmap fs)
        \<and> \<not> inode_in_use fs (GetEmptyInode fs)
        \<and> MarkEmptyInodeAsUsed (GetEmptyInode fs) fs = Some fs'
        \<and> (\<forall>n. 0 < n \<longrightarrow> inode_in_use fs' n = (n = GetEmptyInode fs \<or> inode_in_use fs n))
        \<and> group_bitmaps (inodes_per_group fs') (inode_bitmap fs') \<and> g < length (inode_bitmap fs')
        \<and> disk fs' = WriteFromBlockId (bytes_of_bitmap (bits (inode_bitmap fs' ! g))) (bitmap_block_id (inode_bitmap fs' ! g)) (disk fs)
        \<and> (\<forall>i < length (inode_bitmap fs). i \<noteq> g \<longrightarrow> inode_bitmap fs' ! i = inode_bitmap fs ! i)
     else GetEmptyInode fs = 0"
proof (cases "\<exists>info \<in> set (inode_bitmap fs). GetEmptyBitIndex (bits info) \<noteq> - 1")
  case False
  then show ?thesis using first_empty_none [of "inode_bitmap fs"] by (auto simp: GetEmptyInode_def)
next
  case True
  let ?p = "inodes_per_group fs" and ?infos = "inode_bitmap fs"
  obtain i k where e: "first_empty ?infos = Some (i, int k)" and i: "i < length ?infos" and k: "k < ?p" "\<not> IsSet k (bits (?infos ! i))"
    by (rule first_empty_some [OF assms(1) True])
  note f = flip_takes [OF assms(1) i k]
  let ?n = "k + ?p * i"
  have n: "GetEmptyInode fs = ?n + 1" using e by (simp add: GetEmptyInode_def)
  have "?p * i + ?p \<le> ?p * length ?infos" using i mult_le_mono2 [of "Suc i" "length ?infos" ?p] by simp
  then have bound: "?n + 1 \<le> ?p * length ?infos" using k(1) by linarith
  then have "sub64 (?n + 1) 1 = ?n" using assms(2) by (simp add: sub64_id)
  then show ?thesis using True f i bound
    by (simp add: n MarkEmptyInodeAsUsed_def inode_in_use_def) (intro conjI allI impI exI [of _ i]; auto)
qed

definition inode_disk :: ext2 where
  "inode_disk = \<lparr>disk = (\<lambda>_. 0), blocks_per_group = 8192, inodes_per_group = 8192, block_descs = [],
     block_bitmap = [], inode_bitmap = [\<lparr>bitmap_block_id = 4, bits = 1 # replicate 127 0\<rparr>], root_dir = []\<rparr>"

theorem inode_allocation_witness:
  "\<exists>fs'. MarkEmptyInodeAsUsed (GetEmptyInode inode_disk) inode_disk = Some fs' \<and> inode_in_use fs' (GetEmptyInode inode_disk)
     \<and> \<not> inode_in_use inode_disk (GetEmptyInode inode_disk)"
proof -
  have "List.find (\<lambda>i. NOT ((1 # replicate 127 0 :: bitmap) ! i) \<noteq> 0) [0 ..< 128] = Some 0"
    by (simp add: upt_rec)
  then have "\<exists>info \<in> set (inode_bitmap inode_disk). GetEmptyBitIndex (bits info) \<noteq> - 1"
    by (simp add: inode_disk_def GetEmptyBitIndex_def del: replicate.simps upt.simps)
  moreover have "group_bitmaps (inodes_per_group inode_disk) (inode_bitmap inode_disk)"
    "inodes_per_group inode_disk * length (inode_bitmap inode_disk) < 2 ^ 32"
    by (auto simp: group_bitmaps_def inode_disk_def)
  ultimately show ?thesis using inode_allocation [of inode_disk] by auto
qed

text \<open>Blocks are numbered from \<open>first_data_block\<close>, which is 1 when a block has 1 KB, so bit k stands for block k + 1.
  \<open>GetEmptyBlock\<close> gives out k: with a disk on which only block 1 is in use, it gives out block 1.\<close>

definition block_in_use :: "ext2 \<Rightarrow> nat \<Rightarrow> bool" where
  "block_in_use fs b \<longleftrightarrow> bit_in_use (blocks_per_group fs) (block_bitmap fs) (b - 1)"

lemma used_block_given_out:
  defines "fs \<equiv> inode_disk\<lparr>block_bitmap := inode_bitmap inode_disk\<rparr>"
  shows "GetEmptyBlock fs = 1 \<and> block_in_use fs 1"
proof -
  have f: "List.find (\<lambda>i. NOT ((1 # replicate 127 0 :: bitmap) ! i) \<noteq> 0) [0 ..< 128] = Some 0" by (simp add: upt_rec)
  have c: "ctz64 (NOT 1) = 1" by (simp add: ctz64_def upt_rec bit_simps)
  have g: "GetEmptyBitIndex (1 # replicate 127 0) = 1"
    using f c by (simp add: GetEmptyBitIndex_def del: replicate.simps upt.simps)
  then show ?thesis
    by (simp add: fs_def inode_disk_def GetEmptyBlock_def first_empty_def block_in_use_def bit_in_use_def IsSet_def kBitsPerElem_def)
qed

section \<open>The bytes of a file\<close>

text \<open>Up to 12288 bytes the blocks of a file are direct: the iterator is then at a block below 12,
  and only the first entry of its cache is used.\<close>

definition byte_pos :: "inode \<Rightarrow> nat \<Rightarrow> nat" where
  \<comment> \<open>where on the disk byte p of a file is\<close>
  "byte_pos ino p = 1024 * inode_block ino (p div 1024) + p mod 1024"

definition file_byte :: "inode \<Rightarrow> mem \<Rightarrow> nat \<Rightarrow> byte" where
  "file_byte ino d p = d (byte_pos ino p)"

definition direct_at :: "nat \<Rightarrow> block_iter \<Rightarrow> bool" where
  "direct_at k it \<longleftrightarrow> current_pos it = 1024 * k \<and> (k < 12 \<longrightarrow> current_index it = indices4 0 k 0 0 0)
     \<and> length (cached_blocks it) = 4 \<and> cached_index (cached_blocks it ! 0) \<noteq> k"

abbreviation load0 :: "inode \<Rightarrow> mem \<Rightarrow> nat \<Rightarrow> block_iter \<Rightarrow> block_iter" where
  "load0 ino d k it \<equiv> it\<lparr>cached_blocks := (cached_blocks it)[0 := \<lparr>block_addr = inode_block ino k,
     cached_index = k, cached_data = GetFromBlockId d (inode_block ino k)\<rparr>]\<rparr>"

lemma SetOffset_direct:
  assumes "offset < 12288"
  shows "\<exists>it. SetOffset offset new_iter = Some it \<and> direct_at (offset div 1024) it"
proof -
  have "offset div 1024 < 12" using assms by (simp add: less_mult_imp_div_less)
  then show ?thesis using create_direct [OF assms]
    by (simp add: SetOffset_def new_iter_def direct_at_def kBlockSize_def)
qed

lemma deref_direct:
  assumes "direct_at k it" "k < 12"
  shows "deref ino d it = (GetFromBlockId d (inode_block ino k), load0 ino d k it)"
  using assms by (simp add: deref_def FillCache_def direct_at_def Let_def)

lemma GetBlockId_direct:
  assumes "direct_at k it" "k < 12"
  shows "GetBlockId 0 ino d (load0 ino d k it) = (s32 (inode_block ino k), load0 ino d k it)"
  using assms by (simp add: GetBlockId_def direct_at_def Let_def)

lemma next_direct:
  assumes "direct_at k it" "k < 12"
  shows "direct_at (Suc k) (next_block (load0 ino d k it))"
  using assms by (simp add: direct_at_def next_block_def ix_increment wrap_id kBlockSize_def)

lemma block_offset_direct: "direct_at k it \<Longrightarrow> block_offset offset (load0 ino d k it) = offset - 1024 * k"
  by (auto simp: block_offset_def direct_at_def)

lemma GetFromBlockId_byte: "j < 1024 \<Longrightarrow> GetFromBlockId d b j = d (1024 * b + j)"
  by (simp add: GetFromBlockId_def read_bytes_def lba_addr_def kBlockSize_def)

lemma copy_in_eq:
  "copy_in block n off fsize cbo buf
     = buf @ map block [cbo ..< cbo + min (1024 - cbo) (min (n - length buf) (fsize - (off + length buf)))]"
proof (induction block n off fsize cbo buf rule: copy_in.induct)
  case (1 block n off fsize cbo buf)
  show ?case
  proof (cases "length buf < n \<and> cbo < 1024 \<and> off + length buf < fsize")
    case True
    let ?m = "min (1024 - (cbo + 1)) (min (n - (length buf + 1)) (fsize - (off + (length buf + 1))))"
    have "min (1024 - cbo) (min (n - length buf) (fsize - (off + length buf))) = Suc ?m" using True by linarith
    moreover have "[cbo ..< cbo + Suc m] = cbo # [cbo + 1 ..< cbo + 1 + m]" for m
      using upt_conv_Cons [of cbo "cbo + Suc m"] by simp
    moreover have "copy_in block n off fsize (cbo + 1) (buf @ [block cbo])
        = (buf @ [block cbo]) @ map block [cbo + 1 ..< cbo + 1 + ?m]"
      using 1 True by (simp add: kBlockSize_def)
    moreover have "copy_in block n off fsize cbo buf = copy_in block n off fsize (cbo + 1) (buf @ [block cbo])"
      using True by (subst copy_in.simps) (simp add: kBlockSize_def)
    ultimately show ?thesis by (simp only: list.map append_assoc append.simps)
  next
    case False
    then have "min (1024 - cbo) (min (n - length buf) (fsize - (off + length buf))) = 0" by linarith
    then show ?thesis using False by (subst copy_in.simps) (auto simp: kBlockSize_def)
  qed
qed

definition until_block :: "nat \<Rightarrow> nat \<Rightarrow> nat \<Rightarrow> nat" where
  \<comment> \<open>how far a transfer of the bytes from off to t is before block k\<close>
  "until_block off t k = min t (max off (1024 * k))"

lemma before_next_block: "off div 1024 \<le> k \<Longrightarrow> off < 1024 + 1024 * k" for off k :: nat
  by (metis div_less_iff_less_mult less_Suc_eq_le mult.commute mult_Suc_right zero_less_numeral)

lemma map_shift_upt: "map (\<lambda>j. f (a + j)) [c ..< c + m] = map f [a + c ..< a + c + m]" for a :: nat
  by (rule nth_equalityI) (simp_all add: add.assoc)

lemma copy_in_block:
  assumes k: "off div 1024 \<le> k" and t: "t = min (off + n) fsize"
    and buf: "buf = map (file_byte ino d) [off ..< until_block off t k]"
  shows "copy_in (GetFromBlockId d (inode_block ino k)) n off fsize (off - 1024 * k) buf
     = map (file_byte ino d) [off ..< until_block off t (Suc k)]"
proof -
  let ?b = "GetFromBlockId d (inode_block ino k)" and ?c = "off - 1024 * k"
  have o: "off < 1024 + 1024 * k" using k by (rule before_next_block)
  then have c: "?c < 1024" by linarith
  show ?thesis
  proof (cases "t \<le> max off (1024 * k)")
    case True
    then have u: "until_block off t k = t" "until_block off t (Suc k) = t" by (auto simp: until_block_def)
    then have "min n (fsize - off) \<le> length buf" using t by (simp add: buf)
    then have "min (n - length buf) (fsize - (off + length buf)) = 0" by linarith
    then have "min (1024 - ?c) (min (n - length buf) (fsize - (off + length buf))) = 0" by simp
    then show ?thesis by (simp add: copy_in_eq buf u)
  next
    case False
    define s where "s = max off (1024 * k)"
    define m where "m = min (1024 - ?c) (t - s)"
    have u: "until_block off t k = s" "until_block off t (Suc k) = s + m" "off \<le> s" "s = 1024 * k + ?c"
      using False o by (auto simp: until_block_def s_def m_def)
    then have len: "length buf = s - off" by (simp add: buf)
    have "n - (s - off) = off + n - s" "fsize - (off + (s - off)) = fsize - s" using u(3) by simp_all
    then have m: "min (1024 - ?c) (min (n - length buf) (fsize - (off + length buf))) = m"
      by (simp only: len m_def t min_diff)
    have "?b j = file_byte ino d (1024 * k + j)" if "j < 1024" for j
      using that by (simp add: GetFromBlockId_byte file_byte_def byte_pos_def)
    then have "map ?b [?c ..< ?c + m] = map (\<lambda>j. file_byte ino d (1024 * k + j)) [?c ..< ?c + m]"
      using c by (intro map_cong) (auto simp: m_def)
    also have "map (\<lambda>j. file_byte ino d (1024 * k + j)) [?c ..< ?c + m]
        = map (file_byte ino d) [1024 * k + ?c ..< 1024 * k + ?c + m]" by (rule map_shift_upt)
    also have "1024 * k + ?c = s" by (rule u(4) [symmetric])
    finally have mb: "map ?b [?c ..< ?c + m] = map (file_byte ino d) [s ..< s + m]" .
    have "[off ..< s + m] = [off ..< s] @ [s ..< s + m]" using u(3) by (rule upt_add_eq_append)
    then show ?thesis by (simp only: copy_in_eq m mb u(2)) (simp only: buf u(1) map_append)
  qed
qed

lemma read_blocks_direct:
  assumes "direct_at k it" "off div 1024 \<le> k" "k + m \<le> 12" "t = min (off + n) (inode_size ino)"
    and "buf = map (file_byte ino d) [off ..< until_block off t k]"
  shows "read_blocks m ino d n off it buf = map (file_byte ino d) [off ..< until_block off t (k + m)]"
  using assms
proof (induction m arbitrary: k it buf)
  case 0
  then show ?case by simp
next
  case (Suc m)
  note step = Suc.IH [OF next_direct [OF Suc.prems(1)] _ _ Suc.prems(4) copy_in_block [OF Suc.prems(2,4,5)]]
  show ?case using Suc.prems(2,3) step by (simp add: deref_direct [OF Suc.prems(1)] block_offset_direct [OF Suc.prems(1)])
qed

lemma end_block_bounds:
  "offset + n \<le> 1024 * end_block offset n" "1024 * end_block offset n < offset + n + 1024"
  "offset div 1024 \<le> end_block offset n"
proof -
  define q r where "q = (offset + n) div 1024" and "r = (offset + n) mod 1024"
  have e: "offset + n = 1024 * q + r" "r < 1024" by (simp_all add: q_def r_def)
  have eb: "end_block offset n = (if r = 0 then q else q + 1)" by (simp add: end_block_def kBlockSize_def q_def r_def)
  show "offset + n \<le> 1024 * end_block offset n" "1024 * end_block offset n < offset + n + 1024"
    using e unfolding eb by (cases "r = 0"; simp)+
  have "offset div 1024 \<le> (offset + n) div 1024" by (simp add: div_le_mono)
  then show "offset div 1024 \<le> end_block offset n" by (simp add: end_block_def kBlockSize_def)
qed

lemma ReadFile_bytes:
  assumes "offset < 12288" "offset + n \<le> 12288"
  shows "ReadFile ino d n offset = Some (map (file_byte ino d) [offset ..< min (offset + n) (inode_size ino)])"
proof -
  define t where "t = min (offset + n) (inode_size ino)"
  define k e where "k = offset div 1024" and "e = end_block offset n"
  obtain it where it: "SetOffset offset new_iter = Some it" "direct_at k it"
    using SetOffset_direct [OF assms(1)] by (auto simp: k_def)
  have b: "offset + n \<le> 1024 * e" "k \<le> e" "e \<le> 12" using end_block_bounds [of offset n] assms(2) by (auto simp: e_def k_def)
  have "1024 * k \<le> offset" by (simp add: k_def)
  then have u: "[offset ..< until_block offset t k] = []" "until_block offset t e = t" using b(1) by (auto simp: until_block_def t_def)
  have "read_blocks (e - k) ino d n offset it [] = map (file_byte ino d) [offset ..< until_block offset t (k + (e - k))]"
    using b u by (intro read_blocks_direct [OF it(2) _ _ t_def]) (simp_all add: k_def)
  then show ?thesis using it(1) b u by (simp add: ReadFile_def t_def e_def k_def kBlockSize_def)
qed

section \<open>Writing\<close>

lemma copy_out_eq:
  "wrote \<le> length buf \<Longrightarrow> m = min (length buf - wrote) (1024 - cbo) \<Longrightarrow> copy_out buf wrote cbo block
     = (wrote + m, \<lambda>j. if cbo \<le> j \<and> j < cbo + m then buf ! (wrote + (j - cbo)) else block j)"
proof (induction buf wrote cbo block arbitrary: m rule: copy_out.induct)
  case (1 buf wrote cbo block)
  show ?case
  proof (cases "wrote < length buf \<and> cbo < 1024")
    case True
    let ?m = "min (length buf - (wrote + 1)) (1024 - (cbo + 1))"
    have m: "m = Suc ?m" using True 1(3) by linarith
    have "copy_out buf wrote cbo block = copy_out buf (wrote + 1) (cbo + 1) (block(cbo := buf ! wrote))"
      using True by (subst copy_out.simps) (simp add: kBlockSize_def)
    also have "\<dots> = (wrote + 1 + ?m, \<lambda>j. if cbo + 1 \<le> j \<and> j < cbo + 1 + ?m then buf ! (wrote + 1 + (j - (cbo + 1)))
        else (block(cbo := buf ! wrote)) j)"
      using True by (intro 1(1)) (simp_all add: kBlockSize_def)
    finally show ?thesis unfolding m by (auto simp: fun_eq_iff Suc_le_eq intro!: arg_cong [of _ _ "(!) buf"])
  next
    case False
    then have "m = 0" using 1(3) by linarith
    then show ?thesis using False by (subst copy_out.simps) (auto simp: kBlockSize_def fun_eq_iff)
  qed
qed

lemma WriteFromBlockId_at:
  "WriteFromBlockId b i d x = (if 1024 * i \<le> x \<and> x < 1024 * i + 1024 then b (x - 1024 * i) else d x)"
  by (simp add: WriteFromBlockId_def write_bytes_def lba_addr_def)

lemma block_id_back: "b < 2 ^ 31 \<Longrightarrow> u64_of_int (s32 b) = b"
  by (simp add: s32_small u64_of_int_nat)

lemma byte_pos_range:
  assumes "m = 0 \<or> s = 1024 * k + c" "c + m \<le> 1024"
  shows "(\<exists>p. s \<le> p \<and> p < s + m \<and> x = byte_pos ino p)
    \<longleftrightarrow> 1024 * inode_block ino k + c \<le> x \<and> x < 1024 * inode_block ino k + c + m" (is "?L \<longleftrightarrow> ?R")
proof (cases "m = 0")
  case False
  let ?B = "1024 * inode_block ino k"
  have s': "s = 1024 * k + c" using False assms(1) by blast
  have bp: "byte_pos ino (1024 * k + j) = ?B + j" if "j < 1024" for j using that by (simp add: byte_pos_def)
  show ?thesis
  proof
    assume ?L
    then obtain p where p: "s \<le> p" "p < s + m" "x = byte_pos ino p" by blast
    then have "p - 1024 * k < 1024" "p = 1024 * k + (p - 1024 * k)" using s' assms(2) by linarith+
    then have "x = ?B + (p - 1024 * k)" using bp p(3) by metis
    then show ?R using p(1,2) s' by linarith
  next
    assume x: ?R
    then have "x - ?B < 1024" using assms(2) by linarith
    then have "byte_pos ino (1024 * k + (x - ?B)) = ?B + (x - ?B)" by (rule bp)
    then have "x = byte_pos ino (1024 * k + (x - ?B))" using x by linarith
    moreover have "s \<le> 1024 * k + (x - ?B)" "1024 * k + (x - ?B) < s + m" using x s' by linarith+
    ultimately show ?L by blast
  qed
qed (auto simp: not_less)

text \<open>One step of the loop of \<open>WriteFile\<close>: the bytes of the block that belong to the range.\<close>

lemma write_step:
  assumes it: "direct_at k it" "k < 12" and k: "off div 1024 \<le> k" and b: "inode_block ino k < 2 ^ 31"
    and w: "w = until_block off (off + length buf) k - off"
  shows "write_blocks (Suc n) ino buf off it w d
     = write_blocks n ino buf off (next_block (load0 ino d k it)) (until_block off (off + length buf) (Suc k) - off)
         (\<lambda>x. if \<exists>p. until_block off (off + length buf) k \<le> p \<and> p < until_block off (off + length buf) (Suc k) \<and> x = byte_pos ino p
              then buf ! (1024 * k + (x - 1024 * inode_block ino k) - off) else d x)"
proof -
  let ?B = "1024 * inode_block ino k"
  define s where "s = until_block off (off + length buf) k"
  define m where "m = min (length buf - w) (1024 - (off - 1024 * k))"
  have o: "off < 1024 + 1024 * k" using k by (rule before_next_block)
  have s: "off \<le> s" "s = off + w" by (auto simp: s_def w until_block_def)
  have m: "until_block off (off + length buf) (Suc k) = s + m"
    using o unfolding s_def m_def w until_block_def mult_Suc_right by linarith
  have pos: "m = 0 \<or> s = 1024 * k + (off - 1024 * k)" using o by (auto simp: s_def m_def w until_block_def)
  have m1024: "off - 1024 * k + m \<le> 1024" using o by (auto simp: m_def)
  have range: "(\<exists>p. s \<le> p \<and> p < s + m \<and> x = byte_pos ino p)
      \<longleftrightarrow> ?B + (off - 1024 * k) \<le> x \<and> x < ?B + (off - 1024 * k) + m" for x
    using pos m1024 by (rule byte_pos_range)
  have w': "w \<le> length buf" by (auto simp: w until_block_def)
  have co: "copy_out buf w (off - 1024 * k) (GetFromBlockId d (inode_block ino k))
      = (w + m, \<lambda>j. if off - 1024 * k \<le> j \<and> j < off - 1024 * k + m then buf ! (w + (j - (off - 1024 * k)))
          else GetFromBlockId d (inode_block ino k) j)"
    by (rule copy_out_eq [OF w' m_def])
  have depth: "current_depth (current_index (load0 ino d k it)) = 0" using it by (simp add: direct_at_def)
  have disk: "WriteFromBlockId (\<lambda>j. if off - 1024 * k \<le> j \<and> j < off - 1024 * k + m then buf ! (w + (j - (off - 1024 * k)))
          else GetFromBlockId d (inode_block ino k) j) (inode_block ino k) d
      = (\<lambda>x. if \<exists>p. s \<le> p \<and> p < s + m \<and> x = byte_pos ino p then buf ! (1024 * k + (x - ?B) - off) else d x)"
  proof
    fix x
    show "WriteFromBlockId (\<lambda>j. if off - 1024 * k \<le> j \<and> j < off - 1024 * k + m then buf ! (w + (j - (off - 1024 * k)))
          else GetFromBlockId d (inode_block ino k) j) (inode_block ino k) d x
      = (if \<exists>p. s \<le> p \<and> p < s + m \<and> x = byte_pos ino p then buf ! (1024 * k + (x - ?B) - off) else d x)"
    proof (cases "?B + (off - 1024 * k) \<le> x \<and> x < ?B + (off - 1024 * k) + m")
      case True
      moreover from this have "m \<noteq> 0" by linarith
      then have "s = 1024 * k + (off - 1024 * k)" using pos by blast
      then have "w + (x - ?B - (off - 1024 * k)) = 1024 * k + (x - ?B) - off" using True s(2) by linarith
      moreover have "?B \<le> x" "x < ?B + 1024" "off - 1024 * k \<le> x - ?B" "x - ?B < off - 1024 * k + m" using True m1024 by linarith+
      ultimately show ?thesis by (simp add: range WriteFromBlockId_at)
    next
      case False
      then have "\<not> (off - 1024 * k \<le> x - ?B \<and> x - ?B < off - 1024 * k + m)" if "?B \<le> x" using that by linarith
      then show ?thesis using False by (auto simp: range WriteFromBlockId_at GetFromBlockId_byte)
    qed
  qed
  have "until_block off (off + length buf) (Suc k) - off = w + m" using m s(2) by simp
  then show ?thesis
    using co disk depth
    by (simp only: write_blocks.simps deref_direct [OF it] block_offset_direct [OF it(1)] prod.case depth
        GetBlockId_direct [OF it] block_id_back [OF b] m s_def [symmetric])
qed

lemma byte_pos_eq:
  "byte_pos ino p = byte_pos ino q \<longleftrightarrow> inode_block ino (p div 1024) = inode_block ino (q div 1024) \<and> p mod 1024 = q mod 1024"
proof -
  have "a = b \<and> r = s" if "1024 * a + r = 1024 * b + s" "r < 1024" "s < 1024" for a b r s :: nat
  proof -
    have "(1024 * a + r) div 1024 = a" "(1024 * b + s) div 1024 = b" using that(2,3) by simp_all
    then have "a = b" using that(1) by simp
    then show ?thesis using that(1) by simp
  qed
  from this [of "inode_block ino (p div 1024)" "p mod 1024" "inode_block ino (q div 1024)" "q mod 1024"]
  show ?thesis by (auto simp: byte_pos_def)
qed

lemma upto_block:
  assumes "off div 1024 \<le> k" "until_block off t k \<le> p" "p < until_block off t (Suc k)"
  shows "p div 1024 = k"
proof -
  have "off < 1024 + 1024 * k" using assms(1) by (rule before_next_block)
  then have "1024 * k \<le> p" "p < 1024 * k + 1024" using assms(2,3) unfolding until_block_def mult_Suc_right by linarith+
  then show ?thesis by (metis add.commute mult.commute mult_Suc_right div_nat_eqI)
qed

lemma upto_mono: "j \<le> k \<Longrightarrow> until_block off t j \<le> until_block off t k"
  by (auto simp: until_block_def)

lemma upto_ge: "1024 * k \<le> p \<Longrightarrow> off \<le> p \<Longrightarrow> until_block off t k \<le> p"
  by (auto simp: until_block_def)

lemma upto_div: "until_block off t k \<le> p \<Longrightarrow> p < t \<Longrightarrow> k \<le> p div 1024"
  by (auto simp: until_block_def less_eq_div_iff_mult_less_eq mult.commute)

lemma write_blocks_direct:
  assumes "direct_at k it" "off div 1024 \<le> k" "k + n \<le> 12" "\<forall>j<k + n. inode_block ino j < 2 ^ 31"
    and "inj_on (inode_block ino) {..< k + n}" "w = until_block off (off + length buf) k - off"
  shows "(\<forall>x. x \<notin> byte_pos ino ` {until_block off (off + length buf) k ..< until_block off (off + length buf) (k + n)} \<longrightarrow>
             write_blocks n ino buf off it w d x = d x)
    \<and> (\<forall>p. until_block off (off + length buf) k \<le> p \<longrightarrow> p < until_block off (off + length buf) (k + n) \<longrightarrow>
             write_blocks n ino buf off it w d (byte_pos ino p) = buf ! (p - off))"
  using assms
proof (induction n arbitrary: k it w d)
  case 0
  then show ?case by simp
next
  case (Suc n)
  define U where "U = until_block off (off + length buf)"
  define d1 where "d1 = (\<lambda>x. if \<exists>p. U k \<le> p \<and> p < U (Suc k) \<and> x = byte_pos ino p
      then buf ! (1024 * k + (x - 1024 * inode_block ino k) - off) else d x)"
  let ?it = "next_block (load0 ino d k it)"
  have step: "write_blocks (Suc n) ino buf off it w d = write_blocks n ino buf off ?it (U (Suc k) - off) d1"
    using Suc.prems(4) Suc.prems(3) unfolding U_def d1_def by (intro write_step [OF Suc.prems(1) _ Suc.prems(2) _ Suc.prems(6)]) simp_all
  have IH: "(\<forall>x. x \<notin> byte_pos ino ` {U (Suc k) ..< U (k + Suc n)} \<longrightarrow>
             write_blocks n ino buf off ?it (U (Suc k) - off) d1 x = d1 x)
    \<and> (\<forall>p. U (Suc k) \<le> p \<longrightarrow> p < U (k + Suc n) \<longrightarrow>
             write_blocks n ino buf off ?it (U (Suc k) - off) d1 (byte_pos ino p) = buf ! (p - off))"
    using Suc.IH [OF next_direct [OF Suc.prems(1), of ino d], where d = d1] Suc.prems(2-5) by (simp add: U_def)
  have mono: "U k \<le> U (Suc k)" "U (Suc k) \<le> U (k + Suc n)" by (simp_all add: U_def upto_mono)
  have blk: "p div 1024 = k" if "U k \<le> p" "p < U (Suc k)" for p
    using upto_block [OF Suc.prems(2)] that by (simp add: U_def)
  have in1: "d1 (byte_pos ino p) = buf ! (p - off)" if "U k \<le> p" "p < U (Suc k)" for p
  proof -
    have "1024 * k + (byte_pos ino p - 1024 * inode_block ino k) = p"
      using blk [OF that] mult_div_mod_eq [of 1024 p] by (simp add: byte_pos_def)
    then show ?thesis using that by (auto simp: d1_def)
  qed
  have apart: "byte_pos ino p \<notin> byte_pos ino ` {U (Suc k) ..< U (k + Suc n)}" if "U k \<le> p" "p < U (Suc k)" for p
  proof
    assume "byte_pos ino p \<in> byte_pos ino ` {U (Suc k) ..< U (k + Suc n)}"
    then obtain q where q: "U (Suc k) \<le> q" "q < U (k + Suc n)" "byte_pos ino p = byte_pos ino q" by auto
    have qT: "q < off + length buf" "q < 1024 * (k + Suc n) \<or> q < off" using q(2) by (auto simp: U_def until_block_def)
    have "Suc k \<le> q div 1024" using upto_div q(1) qT(1) by (simp add: U_def)
    moreover have "q div 1024 < k + Suc n"
      using qT(2) Suc.prems(2) by (auto simp: less_mult_imp_div_less mult.commute dest: div_le_mono [OF less_imp_le, of _ _ 1024])
    ultimately have "q div 1024 \<noteq> p div 1024" "q div 1024 < k + Suc n" "p div 1024 < k + Suc n"
      using blk [OF that] by simp_all
    then show False using q(3) inj_onD [OF Suc.prems(5), of "p div 1024" "q div 1024"] by (simp add: byte_pos_eq)
  qed
  show ?case unfolding step U_def [symmetric]
  proof (intro conjI allI impI)
    fix x assume x: "x \<notin> byte_pos ino ` {U k ..< U (k + Suc n)}"
    then have "x \<notin> byte_pos ino ` {U (Suc k) ..< U (k + Suc n)}" using mono(1) by auto
    moreover have "d1 x = d x" using x mono(2) by (fastforce simp: d1_def)
    ultimately show "write_blocks n ino buf off ?it (U (Suc k) - off) d1 x = d x" using IH by simp
  next
    fix p assume p: "U k \<le> p" "p < U (k + Suc n)"
    show "write_blocks n ino buf off ?it (U (Suc k) - off) d1 (byte_pos ino p) = buf ! (p - off)"
    proof (cases "p < U (Suc k)")
      case True
      then show ?thesis using IH apart [OF p(1) True] in1 [OF p(1) True] by simp
    next
      case False
      then show ?thesis using IH p(2) by simp
    qed
  qed
qed

lemma WriteFile_within:
  assumes "ReadInode n fs = Some ino" "0 < inode_size ino" "offset + length buf \<le> inode_size ino" "offset < 12288"
  shows "\<exists>it. direct_at (offset div 1024) it \<and> WriteFile n buf offset fs
     = Some (fs\<lparr>disk := write_blocks (end_block offset (length buf) - offset div 1024) ino buf offset it 0 (disk fs)\<rparr>)"
proof -
  have "ExpandFileSize n (offset + length buf) fs = Some fs" using assms(1-3) by (simp add: ExpandFileSize_def)
  then show ?thesis using assms(1) SetOffset_direct [OF assms(4)] by (auto simp: WriteFile_def kBlockSize_def)
qed

text \<open>A file with direct blocks only, each its own and none the block of the inode.\<close>

definition direct_file :: "nat \<Rightarrow> inode \<Rightarrow> bool" where
  "direct_file table_block ino \<longleftrightarrow> inode_size ino \<le> 12288 \<and> (\<forall>k<12. inode_block ino k < 2 ^ 31)
     \<and> inj_on (inode_block ino) {..< (inode_size ino + 1023) div 1024}
     \<and> (\<forall>k<(inode_size ino + 1023) div 1024. inode_block ino k \<noteq> table_block)"

lemma direct_file_used:
  assumes "p < inode_size ino" shows "p div 1024 < (inode_size ino + 1023) div 1024"
  using assms div_le_mono [of "p + 1024" "inode_size ino + 1023" 1024] by simp

lemma direct_file_inj:
  assumes "direct_file tb ino" "p < inode_size ino" "q < inode_size ino" "byte_pos ino p = byte_pos ino q"
  shows "p = q"
proof -
  have "inj_on (inode_block ino) {..< (inode_size ino + 1023) div 1024}" using assms(1) by (simp add: direct_file_def)
  then have "p div 1024 = q div 1024" using assms(2-4) direct_file_used
    by (auto simp: byte_pos_eq dest!: inj_onD)
  then show ?thesis using assms(4) by (metis byte_pos_eq div_mult_mod_eq)
qed

lemma direct_write:
  assumes dfile: "direct_file tb ino" and o: "offset < T" "T \<le> inode_size ino" "T = offset + length buf"
    and it: "direct_at (offset div 1024) it"
    and d: "d = write_blocks (end_block offset (length buf) - offset div 1024) ino buf offset it 0 d0"
  shows "\<And>x. x \<notin> byte_pos ino ` {offset ..< T} \<Longrightarrow> d x = d0 x"
    "\<And>p. offset \<le> p \<Longrightarrow> p < T \<Longrightarrow> file_byte ino d p = buf ! (p - offset)"
proof -
  define k e where "k = offset div 1024" and "e = end_block offset (length buf)"
  have e: "T \<le> 1024 * e" "1024 * e < T + 1024" "k \<le> e"
    using end_block_bounds [of offset "length buf"] by (auto simp: e_def o(3) k_def)
  have "T \<le> 12288" using o dfile by (simp add: direct_file_def)
  then have eu: "e \<le> (inode_size ino + 1023) div 1024" "e \<le> 12" using o e(2) by (simp_all add: less_eq_div_iff_mult_less_eq)
  have "1024 * k \<le> offset" by (simp add: k_def)
  then have U: "until_block offset T k = offset" "until_block offset T e = T" using o e(1) by (auto simp: until_block_def)
  have "(\<forall>x. x \<notin> byte_pos ino ` {until_block offset T k ..< until_block offset T (k + (e - k))} \<longrightarrow> d x = d0 x)
    \<and> (\<forall>p. until_block offset T k \<le> p \<longrightarrow> p < until_block offset T (k + (e - k)) \<longrightarrow> d (byte_pos ino p) = buf ! (p - offset))"
    unfolding d o(3) e_def [symmetric] k_def [symmetric]
  proof (rule write_blocks_direct)
    show "direct_at k it" "offset div 1024 \<le> k" "k + (e - k) \<le> 12" using it eu e by (simp_all add: k_def)
    show "\<forall>j<k + (e - k). inode_block ino j < 2 ^ 31" using dfile eu e by (simp add: direct_file_def)
    show "inj_on (inode_block ino) {..<k + (e - k)}" using dfile eu e by (auto simp: direct_file_def intro: inj_on_subset)
    show "0 = until_block offset (offset + length buf) k - offset" using U o by simp
  qed
  then show "\<And>x. x \<notin> byte_pos ino ` {offset ..< T} \<Longrightarrow> d x = d0 x"
    "\<And>p. offset \<le> p \<Longrightarrow> p < T \<Longrightarrow> file_byte ino d p = buf ! (p - offset)"
    using U e(3) by (auto simp: file_byte_def)
qed

lemma table_block_apart:
  assumes "direct_file tb ino" "T \<le> inode_size ino" "\<And>x. x \<notin> byte_pos ino ` {offset ..< T} \<Longrightarrow> d x = d0 x"
  shows "GetFromBlockId d tb = GetFromBlockId d0 tb"
proof
  fix i
  have "1024 * tb + i \<notin> byte_pos ino ` {offset ..< T}" if "i < 1024"
  proof
    assume "1024 * tb + i \<in> byte_pos ino ` {offset ..< T}"
    then obtain q where q: "q < T" "1024 * tb + i = byte_pos ino q" by auto
    then have "tb = inode_block ino (q div 1024)"
      using that arg_cong [OF q(2), of "\<lambda>x. x div 1024"] by (simp add: byte_pos_def)
    moreover have "q div 1024 < (inode_size ino + 1023) div 1024" using q(1) assms(2) by (intro direct_file_used) simp
    then have "inode_block ino (q div 1024) \<noteq> tb" using assms(1) unfolding direct_file_def by blast
    ultimately show False by simp
  qed
  then show "GetFromBlockId d tb i = GetFromBlockId d0 tb i"
    using assms(3) by (cases "i < 1024") (simp_all add: GetFromBlockId_def read_bytes_def lba_addr_def kBlockSize_def)
qed

text \<open>C25: Reading n bytes of a file at an offset, within its direct blocks, gives the bytes of the
  file from there on, as many as there are before its end.\<close>

theorem ReadFile_direct:
  assumes "offset < 12288" "offset + n \<le> 12288"
  shows "ReadFile ino d n offset = Some (map (file_byte ino d) [offset ..< min (offset + n) (inode_size ino)])"
  using assms by (rule ReadFile_bytes)

theorem ReadFile_direct_witness:
  "ReadFile (\<lambda>i. if i = 4 then 3 else if i = 40 then 7 else 0) (\<lambda>x. word_of_nat (x - 7160)) 100 1 = Some [9, 10]"
proof -
  let ?ino = "(\<lambda>i. if i = 4 then 3 else if i = 40 then 7 else 0) :: inode"
  have "inode_size ?ino = 3" "inode_block ?ino 0 = 7" by (simp_all add: inode_size_def inode_block_def rd32_def)
  then show ?thesis using ReadFile_direct [of 1 100 ?ino "\<lambda>x. word_of_nat (x - 7160)"]
    by (simp add: file_byte_def byte_pos_def upt_rec)
qed

text \<open>C26: Writing bytes within a file with direct blocks changes those bytes of the file and no
  other, leaves its inode as it was, and reading them back gives what was written.\<close>

theorem WriteFile_direct:
  assumes ino: "ReadInode n fs = Some ino" and place: "inode_place fs n = Some (tb, slot)"
    and dfile: "direct_file tb ino" and range: "offset + length buf \<le> inode_size ino" "buf \<noteq> []"
  shows "\<exists>d. WriteFile n buf offset fs = Some (fs\<lparr>disk := d\<rparr>) \<and> ReadInode n (fs\<lparr>disk := d\<rparr>) = Some ino
     \<and> (\<forall>p<inode_size ino. file_byte ino d p
          = (if offset \<le> p \<and> p < offset + length buf then buf ! (p - offset) else file_byte ino (disk fs) p))
     \<and> ReadFile ino d (length buf) offset = Some buf"
proof -
  define T where "T = offset + length buf"
  have o: "offset < T" "T \<le> inode_size ino" "T \<le> 12288" using range dfile by (auto simp: direct_file_def T_def)
  then have "offset < 12288" "0 < inode_size ino" by linarith+
  then obtain it where it: "direct_at (offset div 1024) it" "WriteFile n buf offset fs
     = Some (fs\<lparr>disk := write_blocks (end_block offset (length buf) - offset div 1024) ino buf offset it 0 (disk fs)\<rparr>)"
    using WriteFile_within [OF ino _ range(1)] by blast
  define d where "d = write_blocks (end_block offset (length buf) - offset div 1024) ino buf offset it 0 (disk fs)"
  note w = direct_write [OF dfile o(1,2) T_def it(1) d_def]
  have bytes: "file_byte ino d p = (if offset \<le> p \<and> p < T then buf ! (p - offset) else file_byte ino (disk fs) p)"
    if "p < inode_size ino" for p
  proof (cases "offset \<le> p \<and> p < T")
    case False
    have "byte_pos ino p \<notin> byte_pos ino ` {offset ..< T}"
    proof
      assume "byte_pos ino p \<in> byte_pos ino ` {offset ..< T}"
      then obtain q where q: "q \<in> {offset ..< T}" "byte_pos ino p = byte_pos ino q" by auto
      then have "p = q" using direct_file_inj [OF dfile that _ q(2)] o by auto
      then show False using q False by simp
    qed
    then show ?thesis using False w(1) by (auto simp: file_byte_def)
  qed (simp add: w(2))
  have "GetFromBlockId d tb = GetFromBlockId (disk fs) tb" by (rule table_block_apart [OF dfile o(2)]) (rule w(1))
  moreover have "inode_place (fs\<lparr>disk := d\<rparr>) n = inode_place fs n" by (simp add: inode_place_def Let_def)
  ultimately have "ReadInode n (fs\<lparr>disk := d\<rparr>) = Some ino"
    using ino place by (simp add: ReadInode_def)
  moreover have "ReadFile ino d (length buf) offset = Some buf"
  proof -
    have "map (file_byte ino d) [offset ..< T] = map (\<lambda>p. buf ! (p - offset)) [offset ..< T]"
      using w(2) by (intro map_cong) auto
    also have "\<dots> = buf" by (rule nth_equalityI) (auto simp: T_def)
    finally have "map (file_byte ino d) [offset ..< T] = buf" .
    then show ?thesis using ReadFile_bytes [of offset "length buf" ino d] o by (simp add: T_def min_absorb1)
  qed
  ultimately show ?thesis using it(2) bytes by (auto simp: d_def T_def)
qed

text \<open>A disk with one group, its inode table at block 5, and a file of three bytes in block 7.\<close>

definition empty_disk :: ext2 where
  "empty_disk = \<lparr>disk = (\<lambda>_. 0), blocks_per_group = 8192, inodes_per_group = 2048, block_descs = [],
     block_bitmap = [\<lparr>bitmap_block_id = 3, bits = 1 # replicate 127 0\<rparr>], inode_bitmap = [], root_dir = []\<rparr>"

definition small_disk :: ext2 where
  "small_disk = empty_disk\<lparr>disk := (\<lambda>x. if x = 5124 then 3 else if x = 5160 then 7 else 0),
     block_descs := [\<lparr>gd_block_bitmap = 3, gd_inode_bitmap = 4, gd_inode_table = 5\<rparr>]\<rparr>"

theorem WriteFile_direct_witness:
  "\<exists>d. WriteFile 1 [65, 66] 1 small_disk = Some (small_disk\<lparr>disk := d\<rparr>) \<and> d 7170 = 66"
proof -
  let ?ino = "(\<lambda>i. if i = 4 then 3 else if i = 40 then 7 else 0) :: inode"
  have ino: "inode_size ?ino = 3" "inode_block ?ino 0 = 7" "\<And>k. inode_block ?ino k = (if k = 0 then 7 else 0)"
    by (auto simp: inode_size_def inode_block_def rd32_def)
  have place: "inode_place small_disk 1 = Some (5, 0)"
    by (simp add: inode_place_def small_disk_def empty_disk_def sub64_def wrap_def Let_def)
  have "read_bytes 128 (GetFromBlockId (disk small_disk) 5) 0 = ?ino"
    by (auto simp: fun_eq_iff read_bytes_def GetFromBlockId_def lba_addr_def small_disk_def kBlockSize_def)
  then have read: "ReadInode 1 small_disk = Some ?ino" using place by (simp add: ReadInode_def)
  have "direct_file 5 ?ino" by (simp add: direct_file_def ino inj_on_def)
  then obtain d where d: "WriteFile 1 [65, 66] 1 small_disk = Some (small_disk\<lparr>disk := d\<rparr>)" "\<forall>p<3. file_byte ?ino d p
      = (if 1 \<le> p \<and> p < 3 then [65, 66] ! (p - 1) else file_byte ?ino (disk small_disk) p)"
    using WriteFile_direct [OF read place, of 1 "[65, 66]"] by (auto simp: ino(1))
  then have "file_byte ?ino d 2 = 66" by simp
  then show ?thesis using d(1) by (auto simp: file_byte_def byte_pos_def ino(2))
qed

end
