(* ===== verification/TreeSet.thy ===== *)
theory TreeSet
  imports Prelude
begin

text \<open>
  The containers \<open>std::set\<close> and \<open>std::map\<close> of the kernel, \<open>kernel/std/tree.h\<close>, \<open>set.h\<close> and
  \<open>map.h\<close>: an unbalanced binary search tree of nodes that point to each other. The nodes are a
  function of their addresses, a pointer is None for \<open>nullptr\<close>. The tree compares keys with \<open><\<close>
  and \<open>>\<close> only; \<open>kf\<close> stands for what of an element these look at, all of it in a set and the
  first component in a map. A function that returns None runs into a failed \<open>ASSERT\<close>, follows
  \<open>nullptr\<close>, or does not end.
\<close>

section \<open>Nodes\<close>

record 'a node =
  node_key :: 'a
  node_left :: "nat option"
  node_right :: "nat option"

record 'a btree =
  nodes :: "nat \<Rightarrow> 'a node"
  root :: "nat option"

definition new_node :: "'a \<Rightarrow> 'a node" where
  "new_node key = \<lparr>node_key = key, node_left = None, node_right = None\<rparr>"

definition upd_node :: "nat \<Rightarrow> ('a node \<Rightarrow> 'a node) \<Rightarrow> 'a btree \<Rightarrow> 'a btree" where
  "upd_node n f t = t\<lparr>nodes := (nodes t)(n := f (nodes t n))\<rparr>"

definition SetLeft :: "nat \<Rightarrow> nat option \<Rightarrow> 'a btree \<Rightarrow> 'a btree option" where
  "SetLeft n p t = (if node_left (nodes t n) = None then Some (upd_node n (node_left_update (\<lambda>_. p)) t) else None)"

definition SetRight :: "nat \<Rightarrow> nat option \<Rightarrow> 'a btree \<Rightarrow> 'a btree option" where
  "SetRight n p t = (if node_right (nodes t n) = None then Some (upd_node n (node_right_update (\<lambda>_. p)) t) else None)"

definition NumChild :: "'a node \<Rightarrow> nat" where
  "NumChild x = (if node_left x \<noteq> None then 1 else 0) + (if node_right x \<noteq> None then 1 else 0)"

definition GetOnlyChild :: "'a node \<Rightarrow> nat option" where
  "GetOnlyChild x = (if node_left x \<noteq> None then node_left x else node_right x)"

definition AddChild :: "('a \<Rightarrow> 'k::linorder) \<Rightarrow> nat \<Rightarrow> nat \<Rightarrow> 'a btree \<Rightarrow> nat option \<times> 'a btree" where
  \<comment> \<open>the child that was there before\<close>
  "AddChild kf n node t =
     (if kf (node_key (nodes t node)) > kf (node_key (nodes t n))
      then (node_right (nodes t n), upd_node n (node_right_update (\<lambda>_. Some node)) t)
      else (node_left (nodes t n), upd_node n (node_left_update (\<lambda>_. Some node)) t))"

definition RemoveChild :: "nat \<Rightarrow> nat \<Rightarrow> 'a btree \<Rightarrow> 'a btree" where
  "RemoveChild n node t =
     (if node_left (nodes t n) = Some node then upd_node n (node_left_update (\<lambda>_. None)) t
      else if node_right (nodes t n) = Some node then upd_node n (node_right_update (\<lambda>_. None)) t
      else t)"

definition SetChild :: "('a \<Rightarrow> 'k::linorder) \<Rightarrow> nat \<Rightarrow> nat \<Rightarrow> 'a btree \<Rightarrow> 'a btree" where
  "SetChild kf n node t =
     (if kf (node_key (nodes t node)) > kf (node_key (nodes t n))
      then upd_node n (node_right_update (\<lambda>_. Some node)) t
      else upd_node n (node_left_update (\<lambda>_. Some node)) t)"

definition SwitchChild :: "nat \<Rightarrow> nat \<Rightarrow> nat \<Rightarrow> 'a btree \<Rightarrow> 'a btree" where
  "SwitchChild n a b t =
     (if node_left (nodes t n) = Some a then upd_node n (node_left_update (\<lambda>_. Some b)) t
      else if node_right (nodes t n) = Some a then upd_node n (node_right_update (\<lambda>_. Some b)) t
      else t)"

section \<open>The tree\<close>

partial_function (option) search_from ::
  "('a \<Rightarrow> 'k::linorder) \<Rightarrow> 'k \<Rightarrow> (nat \<Rightarrow> 'a node) \<Rightarrow> nat option \<Rightarrow> nat option \<Rightarrow> (nat option \<times> nat option) option" where
  "search_from kf key ns current parent =
     (case current of
        None \<Rightarrow> Some (None, parent)
      | Some c \<Rightarrow>
          if kf (node_key (ns c)) < key then search_from kf key ns (node_right (ns c)) (Some c)
          else if kf (node_key (ns c)) > key then search_from kf key ns (node_left (ns c)) (Some c)
          else Some (Some c, parent))"

definition SearchNode :: "('a \<Rightarrow> 'k::linorder) \<Rightarrow> 'k \<Rightarrow> 'a btree \<Rightarrow> (nat option \<times> nat option) option" where
  \<comment> \<open>the node with the key and its parent\<close>
  "SearchNode kf key t = search_from kf key (nodes t) (root t) None"

definition InsertNode :: "('a \<Rightarrow> 'k::linorder) \<Rightarrow> nat \<Rightarrow> 'a btree \<Rightarrow> (nat option \<times> 'a btree) option" where
  "InsertNode kf node t =
     (if root t = None then Some (None, t\<lparr>root := Some node\<rparr>)
      else
        (case SearchNode kf (kf (node_key (nodes t node))) t of
           None \<Rightarrow> None
         | Some (current, Some parent) \<Rightarrow> Some (AddChild kf parent node t)
         | Some (current, None) \<Rightarrow> Some (root t, t\<lparr>root := Some node\<rparr>)))"

partial_function (option) leftmost_from :: "(nat \<Rightarrow> 'a node) \<Rightarrow> nat \<Rightarrow> nat option" where
  "leftmost_from ns current =
     (case node_left (ns current) of None \<Rightarrow> Some current | Some l \<Rightarrow> leftmost_from ns l)"

definition FindLeftModeNodeFrom :: "(nat \<Rightarrow> 'a node) \<Rightarrow> nat option \<Rightarrow> nat option" where
  \<comment> \<open>called with a node only\<close>
  "FindLeftModeNodeFrom ns node = (case node of None \<Rightarrow> None | Some n \<Rightarrow> leftmost_from ns n)"

partial_function (option) DeleteNode ::
  "('a \<Rightarrow> 'k::linorder) \<Rightarrow> nat option \<Rightarrow> nat option \<Rightarrow> 'a btree \<Rightarrow> (nat option \<times> 'a btree) option" where
  \<comment> \<open>\<open>DeleteNode(current, parent)\<close>; the call of \<open>DeleteNode(key)\<close> in it is written out\<close>
  "DeleteNode kf current parent t =
     (if root t = None then Some (None, t)
      else
        case current of
          None \<Rightarrow> Some (None, t)
        | Some c \<Rightarrow>
            if NumChild (nodes t c) = 0 then
              Some (Some c, case parent of None \<Rightarrow> t\<lparr>root := None\<rparr> | Some p \<Rightarrow> RemoveChild p c t)
            else if NumChild (nodes t c) = 1 then
              (case GetOnlyChild (nodes t c) of
                 None \<Rightarrow> None
               | Some child \<Rightarrow>
                   let t1 = RemoveChild c child t
                   in Some (Some c, case parent of
                                      None \<Rightarrow> t1\<lparr>root := Some child\<rparr>
                                    | Some p \<Rightarrow> SetChild kf p child (RemoveChild p c t1)))
            else
              do {
                successor \<leftarrow> FindLeftModeNodeFrom (nodes t) (node_right (nodes t c));
                (c2, p2) \<leftarrow> SearchNode kf (kf (node_key (nodes t successor))) t;
                (deleted, t1) \<leftarrow> DeleteNode kf c2 p2 t;
                t2 \<leftarrow> SetRight successor (node_right (nodes t1 c)) t1;
                t3 \<leftarrow> SetLeft successor (node_left (nodes t2 c)) t2;
                Some (Some c, case parent of
                                None \<Rightarrow> t3\<lparr>root := Some successor\<rparr>
                              | Some p \<Rightarrow> SwitchChild p c successor t3)
              })"

definition DeleteKey :: "('a \<Rightarrow> 'k::linorder) \<Rightarrow> 'k \<Rightarrow> 'a btree \<Rightarrow> (nat option \<times> 'a btree) option" where
  \<comment> \<open>\<open>DeleteNode(key)\<close>\<close>
  "DeleteKey kf key t =
     (if root t = None then Some (None, t)
      else case SearchNode kf key t of None \<Rightarrow> None | Some (current, parent) \<Rightarrow> DeleteNode kf current parent t)"

text \<open>A path is a stack of nodes from the root, here with its top first.\<close>

partial_function (option) path_from ::
  "('a \<Rightarrow> 'k::linorder) \<Rightarrow> 'k \<Rightarrow> (nat \<Rightarrow> 'a node) \<Rightarrow> nat option \<Rightarrow> nat list \<Rightarrow> nat list option" where
  "path_from kf key ns current path =
     (case current of
        None \<Rightarrow> Some []
      | Some c \<Rightarrow>
          if kf (node_key (ns c)) < key then path_from kf key ns (node_right (ns c)) (c # path)
          else if kf (node_key (ns c)) > key then path_from kf key ns (node_left (ns c)) (c # path)
          else Some (c # path))"

definition FindPath :: "('a \<Rightarrow> 'k::linorder) \<Rightarrow> 'k \<Rightarrow> 'a btree \<Rightarrow> nat list option" where
  "FindPath kf key t = path_from kf key (nodes t) (root t) []"

section \<open>Iterators\<close>

partial_function (option) push_left :: "(nat \<Rightarrow> 'a node) \<Rightarrow> nat option \<Rightarrow> nat list \<Rightarrow> nat list option" where
  "push_left ns current stack =
     (case current of None \<Rightarrow> Some stack | Some c \<Rightarrow> push_left ns (node_left (ns c)) (c # stack))"

fun go_up :: "(nat \<Rightarrow> 'a node) \<Rightarrow> nat \<Rightarrow> nat list \<Rightarrow> nat list" where
  \<comment> \<open>pop until the node below was a left child; \<open>current\<close> stays the node it started at\<close>
  "go_up ns current [] = []"
| "go_up ns current (parent # stack) =
     (if node_left (ns parent) = Some current then parent # stack else go_up ns current stack)"

definition iter_next :: "(nat \<Rightarrow> 'a node) \<Rightarrow> nat list \<Rightarrow> nat list option" where
  \<comment> \<open>\<open>operator++\<close>\<close>
  "iter_next ns stack =
     (case stack of
        [] \<Rightarrow> None
      | c # rest \<Rightarrow>
          if node_right (ns c) = None then Some (go_up ns c rest)
          else push_left ns (node_right (ns c)) stack)"

section \<open>Sets\<close>

text \<open>\<open>node_addrs\<close> are the nodes a set has allocated and not given back. \<open>alloc\<close> stands for the
  allocator: the address it gives for a node, when those are in use.\<close>

record 'a tset =
  tree :: "'a btree"
  num_elements :: nat
  node_addrs :: "nat set"

type_synonym alloc = "nat set \<Rightarrow> nat"

definition empty_set :: "(nat \<Rightarrow> 'a node) \<Rightarrow> 'a tset" where
  "empty_set ns = \<lparr>tree = \<lparr>nodes = ns, root = None\<rparr>, num_elements = 0, node_addrs = {}\<rparr>"

definition set_count :: "('a \<Rightarrow> 'k::linorder) \<Rightarrow> 'k \<Rightarrow> 'a tset \<Rightarrow> nat option" where
  "set_count kf key s =
     do { (current, parent) \<leftarrow> SearchNode kf key (tree s); Some (if current = None then 0 else 1) }"

definition set_insert :: "alloc \<Rightarrow> ('a \<Rightarrow> 'k::linorder) \<Rightarrow> 'a \<Rightarrow> 'a tset \<Rightarrow> 'a tset option" where
  "set_insert alloc kf x s =
     do {
       n \<leftarrow> set_count kf (kf x) s;
       if n = 1 then Some s
       else do {
         let node = alloc (node_addrs s);
         (prev, t) \<leftarrow> InsertNode kf node (upd_node node (\<lambda>_. new_node x) (tree s));
         if prev \<noteq> None then None
         else Some \<lparr>tree = t, num_elements = num_elements s + 1, node_addrs = insert node (node_addrs s)\<rparr>
       }
     }"

definition drop_node :: "nat option \<Rightarrow> 'a btree \<Rightarrow> 'a tset \<Rightarrow> 'a tset" where
  \<comment> \<open>destroy the node and give it back\<close>
  "drop_node node t s =
     (case node of
        None \<Rightarrow> s\<lparr>tree := t\<rparr>
      | Some n \<Rightarrow> \<lparr>tree = t, num_elements = num_elements s - 1, node_addrs = node_addrs s - {n}\<rparr>)"

definition set_erase :: "('a \<Rightarrow> 'k::linorder) \<Rightarrow> 'k \<Rightarrow> 'a tset \<Rightarrow> (nat \<times> 'a tset) option" where
  "set_erase kf key s =
     do {
       (node, t) \<leftarrow> DeleteKey kf key (tree s);
       Some (if node = None then 0 else 1, drop_node node t s)
     }"

definition CurrentAndParent :: "nat list \<Rightarrow> nat option \<times> nat option" where
  "CurrentAndParent stack =
     (case stack of [] \<Rightarrow> (None, None) | [c] \<Rightarrow> (Some c, None) | c # p # rest \<Rightarrow> (Some c, Some p))"

definition set_erase_at :: "('a \<Rightarrow> 'k::linorder) \<Rightarrow> nat list \<Rightarrow> 'a tset \<Rightarrow> 'a tset option" where
  \<comment> \<open>\<open>erase(iterator)\<close>\<close>
  "set_erase_at kf pos s =
     do {
       let (current, parent) = CurrentAndParent pos;
       (node, t) \<leftarrow> DeleteNode kf current parent (tree s);
       Some (drop_node node t s)
     }"

definition set_begin :: "'a tset \<Rightarrow> nat list option" where
  "set_begin s = push_left (nodes (tree s)) (root (tree s)) []"

definition set_find :: "('a \<Rightarrow> 'k::linorder) \<Rightarrow> 'k \<Rightarrow> 'a tset \<Rightarrow> nat list option" where
  \<comment> \<open>the empty stack is \<open>end()\<close>\<close>
  "set_find kf key s = FindPath kf key (tree s)"

definition iter_key :: "'a tset \<Rightarrow> nat list \<Rightarrow> 'a" where
  \<comment> \<open>\<open>operator*\<close>, of an iterator that is not \<open>end()\<close>\<close>
  "iter_key s stack = node_key (nodes (tree s) (hd stack))"

partial_function (option) iterate :: "'a tset \<Rightarrow> nat list \<Rightarrow> 'a list option" where
  \<comment> \<open>the elements \<open>for (itr = ...; itr != end(); ++itr)\<close> visits\<close>
  "iterate s stack =
     (if stack = [] then Some []
      else do {
        next \<leftarrow> iter_next (nodes (tree s)) stack;
        rest \<leftarrow> iterate s next;
        Some (iter_key s stack # rest)
      })"

fun insert_all :: "alloc \<Rightarrow> ('a \<Rightarrow> 'k::linorder) \<Rightarrow> 'a list \<Rightarrow> 'a tset \<Rightarrow> 'a tset option" where
  "insert_all alloc kf [] s = Some s"
| "insert_all alloc kf (x # xs) s = do { s1 \<leftarrow> set_insert alloc kf x s; insert_all alloc kf xs s1 }"

definition set_assign :: "alloc \<Rightarrow> ('a \<Rightarrow> 'k::linorder) \<Rightarrow> 'a tset \<Rightarrow> 'a tset \<Rightarrow> 'a tset option" where
  \<comment> \<open>\<open>operator=\<close>: what the set held before stays\<close>
  "set_assign alloc kf src s =
     do { start \<leftarrow> set_begin src; xs \<leftarrow> iterate src start; insert_all alloc kf xs s }"

partial_function (option) set_destroy :: "('a \<Rightarrow> 'k::linorder) \<Rightarrow> 'a tset \<Rightarrow> 'a tset option" where
  \<comment> \<open>\<open>~set()\<close>\<close>
  "set_destroy kf s =
     (if num_elements s > 0 then do {
        start \<leftarrow> set_begin s;
        s1 \<leftarrow> set_erase_at kf start s;
        set_destroy kf s1
      }
      else Some s)"

section \<open>Maps\<close>

type_synonym ('k, 'v) tmap = "('k \<times> 'v) tset"

definition map_find :: "'k::linorder \<Rightarrow> ('k, 'v) tmap \<Rightarrow> nat list option" where
  "map_find key m = set_find fst key m"

definition map_at :: "'k::linorder \<Rightarrow> ('k, 'v) tmap \<Rightarrow> 'v option" where
  "map_at key m = do { itr \<leftarrow> map_find key m; if itr = [] then None else Some (snd (iter_key m itr)) }"

definition map_lookup :: "'k::linorder \<Rightarrow> ('k, 'v) tmap \<Rightarrow> 'v option option" where
  \<comment> \<open>\<open>find\<close>, compared to \<open>end()\<close> and dereferenced\<close>
  "map_lookup key m = do { itr \<leftarrow> map_find key m; Some (if itr = [] then None else Some (snd (iter_key m itr))) }"

definition set_value :: "'k::linorder \<Rightarrow> 'v \<Rightarrow> ('k, 'v) tmap \<Rightarrow> ('k, 'v) tmap option" where
  \<comment> \<open>an assignment to the reference that \<open>at\<close> returns\<close>
  "set_value key v m =
     do {
       itr \<leftarrow> map_find key m;
       if itr = [] then None
       else Some (m\<lparr>tree := upd_node (hd itr) (node_key_update (\<lambda>kv. (fst kv, v))) (tree m)\<rparr>)
     }"

definition map_insert :: "alloc \<Rightarrow> 'k::linorder \<Rightarrow> 'v \<Rightarrow> ('k, 'v) tmap \<Rightarrow> ('k, 'v) tmap option" where
  "map_insert alloc key v m = set_insert alloc fst (key, v) m"

definition map_ref :: "alloc \<Rightarrow> 'v \<Rightarrow> 'k::linorder \<Rightarrow> ('k, 'v) tmap \<Rightarrow> ('k, 'v) tmap option" where
  \<comment> \<open>\<open>operator[]\<close>, what it does to the map; \<open>def\<close> is \<open>Value()\<close>\<close>
  "map_ref alloc def key m =
     do { itr \<leftarrow> map_find key m; if itr = [] then map_insert alloc key def m else Some m }"

definition map_put :: "alloc \<Rightarrow> 'v \<Rightarrow> 'k::linorder \<Rightarrow> 'v \<Rightarrow> ('k, 'v) tmap \<Rightarrow> ('k, 'v) tmap option" where
  \<comment> \<open>\<open>m[key] = v\<close>\<close>
  "map_put alloc def key v m = do { m1 \<leftarrow> map_ref alloc def key m; set_value key v m1 }"

definition map_erase :: "'k::linorder \<Rightarrow> ('k, 'v) tmap \<Rightarrow> (nat \<times> ('k, 'v) tmap) option" where
  "map_erase key m = set_erase fst key m"

fun put_all :: "alloc \<Rightarrow> 'v \<Rightarrow> ('k::linorder \<times> 'v) list \<Rightarrow> ('k, 'v) tmap \<Rightarrow> ('k, 'v) tmap option" where
  "put_all alloc def [] m = Some m"
| "put_all alloc def ((key, v) # kvs) m = do { m1 \<leftarrow> map_put alloc def key v m; put_all alloc def kvs m1 }"

definition map_assign :: "alloc \<Rightarrow> 'v \<Rightarrow> ('k::linorder, 'v) tmap \<Rightarrow> ('k, 'v) tmap \<Rightarrow> ('k, 'v) tmap option" where
  \<comment> \<open>\<open>operator=\<close> of the map\<close>
  "map_assign alloc def src m =
     do { start \<leftarrow> set_begin src; kvs \<leftarrow> iterate src start; put_all alloc def kvs m }"

end
