(* ===== verification/Files.thy ===== *)
theory Files
  imports TreeSet Ext2Dir
begin

text \<open>
  The files of a process: descriptors and their table (\<open>kernel/kernel/file_descriptor.h\<close>), pipes
  (\<open>pipe.cc\<close>) and the system calls on them (\<open>kernel/kernel/sys/sys_open.h, sys_read.h, sys_write.h,
  sys_pread.h, sys_lseek.h, sys_pipe.h, sys_dup2.h, sys_stat.h, sys_getcwd.h, sys_getdents.h\<close>).
  Descriptors and pipes are named by the addresses \<open>new\<close> gives them. Sizes passed as \<open>size_t\<close> and
  taken as \<open>int\<close> are below 2 ^ 31 for a write; for a read the cast is written out.
\<close>

section \<open>Pipes\<close>

record pipe =
  pipe_buf :: mem
  pipe_size :: nat
  is_blocking :: bool

definition kPipeMaxSize :: nat where "kPipeMaxSize = 4096"

definition new_pipe :: pipe where
  "new_pipe = \<lparr>pipe_buf = (\<lambda>_. 0), pipe_size = 0, is_blocking = True\<rparr>"

definition SetBlocking :: "bool \<Rightarrow> pipe \<Rightarrow> pipe" where
  "SetBlocking b p = p\<lparr>is_blocking := b\<rparr>"

text \<open>One round of the loop under the lock: it gives a result, or the caller yields and tries again.\<close>

datatype 'a outcome = Finished 'a | Waits

definition pipe_write :: "byte list \<Rightarrow> pipe \<Rightarrow> (nat \<times> pipe) outcome" where
  "pipe_write data p =
     (if length data > kPipeMaxSize then Finished (0, p)
      else if pipe_size p > 0 then Waits
      else Finished (length data,
             p\<lparr>pipe_buf := (\<lambda>i. if i < length data then data ! i else pipe_buf p i), pipe_size := length data\<rparr>))"

definition pipe_read :: "nat \<Rightarrow> pipe \<Rightarrow> (byte list \<times> pipe) outcome option" where
  \<comment> \<open>None reads outside the buffer: a count the cast makes negative\<close>
  "pipe_read count p =
     (if pipe_size p = 0 then Some (if is_blocking p then Waits else Finished ([], p))
      else
        let actually_read = min (s32 count) (int (pipe_size p))
        in if actually_read < 0 then None
           else
             let n = nat actually_read; rest = pipe_size p - n
             in Some (Finished (map (pipe_buf p) [0 ..< n],
                  p\<lparr>pipe_size := rest, pipe_buf := (\<lambda>i. if i < rest then pipe_buf p (i + n) else pipe_buf p i)\<rparr>)))"

section \<open>Descriptors\<close>

datatype kind = ACTUAL_FILE file_desc | PIPE_READ nat | PIPE_WRITE nat

record descriptor =
  kind :: kind
  processes :: "int tset"

definition new_descriptor_of :: "kind \<Rightarrow> descriptor" where
  "new_descriptor_of k = \<lparr>kind = k, processes = empty_set (\<lambda>_. new_node 0)\<rparr>"

definition AddProcess :: "alloc \<Rightarrow> int \<Rightarrow> descriptor \<Rightarrow> descriptor option" where
  "AddProcess alloc pid desc =
     do {
       itr \<leftarrow> set_find (\<lambda>x. x) pid (processes desc);
       if itr = [] then do {
         s \<leftarrow> set_insert alloc (\<lambda>x. x) pid (processes desc);
         Some (desc\<lparr>processes := s\<rparr>)
       }
       else Some desc
     }"

definition RemoveProcess :: "int \<Rightarrow> descriptor \<Rightarrow> descriptor option" where
  "RemoveProcess pid desc =
     do {
       itr \<leftarrow> set_find (\<lambda>x. x) pid (processes desc);
       if itr \<noteq> [] then do {
         s \<leftarrow> set_erase_at (\<lambda>x. x) itr (processes desc);
         Some (desc\<lparr>processes := s\<rparr>)
       }
       else Some desc
     }"

definition IsNotInUse :: "descriptor \<Rightarrow> bool" where
  "IsNotInUse desc \<longleftrightarrow> num_elements (processes desc) = 0"

section \<open>The table of a process\<close>

text \<open>A descriptor that is None is \<open>nullptr\<close>: a number in the table without a file.\<close>

type_synonym fd_table = "(int, nat option) tmap"

definition new_table :: "alloc \<Rightarrow> fd_table option" where
  "new_table alloc =
     do {
       t0 \<leftarrow> map_put alloc None 0 None (empty_set (\<lambda>_. new_node (0, None)));
       t1 \<leftarrow> map_put alloc None 1 None t0;
       map_put alloc None 2 None t1
     }"

definition GetDescriptor :: "int \<Rightarrow> fd_table \<Rightarrow> nat option option" where
  "GetDescriptor fd t = do { e \<leftarrow> map_lookup fd t; Some (case e of None \<Rightarrow> None | Some desc \<Rightarrow> desc) }"

definition AddDescriptor :: "alloc \<Rightarrow> nat option \<Rightarrow> fd_table \<Rightarrow> (int \<times> fd_table) option" where
  "AddDescriptor alloc desc t =
     (let fd = int (num_elements t) in map_option (Pair fd) (map_put alloc None fd desc t))"

definition SetDescriptor :: "alloc \<Rightarrow> int \<Rightarrow> nat option \<Rightarrow> fd_table \<Rightarrow> (nat option \<times> fd_table) option" where
  \<comment> \<open>the descriptor that was there before\<close>
  "SetDescriptor alloc fd desc t =
     do {
       e \<leftarrow> map_lookup fd t;
       map_option (Pair (case e of None \<Rightarrow> None | Some prev \<Rightarrow> prev)) (map_put alloc None fd desc t)
     }"

definition copy_table :: "alloc \<Rightarrow> fd_table \<Rightarrow> fd_table \<Rightarrow> fd_table option" where
  "copy_table alloc src t = map_assign alloc None src t"

fun for_descriptors ::
  "(descriptor \<Rightarrow> descriptor option) \<Rightarrow> (int \<times> nat option) list \<Rightarrow> (nat \<Rightarrow> descriptor) \<Rightarrow> (nat \<Rightarrow> descriptor) option" where
  "for_descriptors f [] descs = Some descs"
| "for_descriptors f ((fd, None) # kvs) descs = for_descriptors f kvs descs"
| "for_descriptors f ((fd, Some d) # kvs) descs = do { x \<leftarrow> f (descs d); for_descriptors f kvs (descs(d := x)) }"

definition AddProcessIdToDescriptors ::
  "alloc \<Rightarrow> int \<Rightarrow> fd_table \<Rightarrow> (nat \<Rightarrow> descriptor) \<Rightarrow> (nat \<Rightarrow> descriptor) option" where
  "AddProcessIdToDescriptors alloc pid t descs =
     do { start \<leftarrow> set_begin t; kvs \<leftarrow> iterate t start; for_descriptors (AddProcess alloc pid) kvs descs }"

definition RemoveProcessIdToDescriptors ::
  "int \<Rightarrow> fd_table \<Rightarrow> (nat \<Rightarrow> descriptor) \<Rightarrow> (nat \<Rightarrow> descriptor) option" where
  "RemoveProcessIdToDescriptors pid t descs =
     do { start \<leftarrow> set_begin t; kvs \<leftarrow> iterate t start; for_descriptors (RemoveProcess pid) kvs descs }"

section \<open>System calls\<close>

text \<open>What a system call of the running process works on; \<open>new_objects\<close> are the addresses given to
  descriptors and pipes, \<open>terminal\<close> what was printed there.\<close>

record files =
  fs :: ext2
  descs :: "nat \<Rightarrow> descriptor"
  pipes :: "nat \<Rightarrow> pipe"
  new_objects :: "nat set"
  table :: fd_table
  process_id :: int
  working_dir :: kstring
  terminal :: "byte list"

definition new_object :: "alloc \<Rightarrow> files \<Rightarrow> nat \<times> files" where
  "new_object alloc st = (let a = alloc (new_objects st) in (a, st\<lparr>new_objects := insert a (new_objects st)\<rparr>))"

definition SysDup2 :: "alloc \<Rightarrow> int \<Rightarrow> int \<Rightarrow> files \<Rightarrow> (int \<times> files) option" where
  "SysDup2 alloc oldfd newfd st =
     do {
       desc \<leftarrow> GetDescriptor oldfd (table st);
       (prev, t) \<leftarrow> SetDescriptor alloc newfd desc (table st);
       case prev of
         None \<Rightarrow> Some (0, st\<lparr>table := t\<rparr>)
       | Some d \<Rightarrow> do {
           x \<leftarrow> RemoveProcess (process_id st) (descs st d);
           Some (0, st\<lparr>table := t, descs := (descs st)(d := x)\<rparr>)
         }
     }"

definition SysPipe :: "alloc \<Rightarrow> files \<Rightarrow> ((int \<times> int) \<times> files) option" where
  \<comment> \<open>the two numbers stored into \<open>fd\<close>\<close>
  "SysPipe alloc st0 =
     do {
       let (p, st1) = new_object alloc st0;
       let (r, st2) = new_object alloc st1;
       let (w, st3) = new_object alloc st2;
       (fd0, t1) \<leftarrow> AddDescriptor alloc (Some r) (table st3);
       (fd1, t2) \<leftarrow> AddDescriptor alloc (Some w) t1;
       Some ((fd0, fd1), st3\<lparr>pipes := (pipes st3)(p := new_pipe),
         descs := (descs st3)(r := new_descriptor_of (PIPE_READ p), w := new_descriptor_of (PIPE_WRITE p)), table := t2\<rparr>)
     }"

definition c_view :: "kstring \<Rightarrow> view" where
  \<comment> \<open>the \<open>string_view\<close> of a \<open>c_str()\<close>\<close>
  "c_view s = takeWhile (\<lambda>c. c \<noteq> 0) s"

definition SysOpen :: "alloc \<Rightarrow> byte list \<Rightarrow> bool \<Rightarrow> files \<Rightarrow> (int \<times> files) option" where
  \<comment> \<open>of the flags only \<open>O_TRUNC\<close> is looked at\<close>
  "SysOpen alloc pathname o_trunc st0 =
     do {
       let absolute_path = GetAbsolutePath (kstr_of_chars pathname) (working_dir st0);
       inode_num \<leftarrow> GetInodeNumberFromPath (c_view absolute_path) (fs st0);
       if inode_num = - 1 then Some (- 1, st0)
       else do {
         let (d, st1) = new_object alloc st0;
         (file, fs1) \<leftarrow> open_file (u64_of_int inode_num) o_trunc (fs st1);
         (fd, t) \<leftarrow> AddDescriptor alloc (Some d) (table st1);
         Some (fd, st1\<lparr>fs := fs1, descs := (descs st1)(d := new_descriptor_of (ACTUAL_FILE file)), table := t\<rparr>)
       }
     }"

definition set_kind :: "nat \<Rightarrow> kind \<Rightarrow> files \<Rightarrow> files" where
  "set_kind d k st = st\<lparr>descs := (descs st)(d := (descs st d)\<lparr>kind := k\<rparr>)\<rparr>"

text \<open>The result and the bytes read.\<close>

definition SysRead :: "int \<Rightarrow> nat \<Rightarrow> files \<Rightarrow> (int \<times> byte list \<times> files) outcome option" where
  "SysRead fd count st =
     do {
       desc \<leftarrow> GetDescriptor fd (table st);
       case desc of
         None \<Rightarrow> Some (Finished (0, [], st))
       | Some d \<Rightarrow>
           (case kind (descs st d) of
              ACTUAL_FILE file \<Rightarrow> do {
                (bytes, file1) \<leftarrow> fd_read (s32 count) (fs st) file;
                Some (Finished (int (length bytes), bytes, set_kind d (ACTUAL_FILE file1) st))
              }
            | PIPE_READ p \<Rightarrow> do {
                r \<leftarrow> pipe_read count (pipes st p);
                Some (case r of
                        Waits \<Rightarrow> Waits
                      | Finished (bytes, p1) \<Rightarrow> Finished (int (length bytes), bytes, st\<lparr>pipes := (pipes st)(p := p1)\<rparr>))
              }
            | PIPE_WRITE p \<Rightarrow> Some (Finished (- 1, [], st)))
     }"

definition SysWrite :: "int \<Rightarrow> byte list \<Rightarrow> files \<Rightarrow> (int \<times> files) outcome option" where
  "SysWrite fd buf st =
     do {
       desc \<leftarrow> GetDescriptor fd (table st);
       case desc of
         None \<Rightarrow> Some (Finished (- 1, st\<lparr>terminal := terminal st @ buf\<rparr>))
       | Some d \<Rightarrow>
           (case kind (descs st d) of
              ACTUAL_FILE file \<Rightarrow> do {
                (n, file1, fs1) \<leftarrow> fd_write buf (fs st) file;
                Some (Finished (int n, set_kind d (ACTUAL_FILE file1) (st\<lparr>fs := fs1\<rparr>)))
              }
            | PIPE_READ p \<Rightarrow> Some (Finished (- 1, st))
            | PIPE_WRITE p \<Rightarrow>
                Some (case pipe_write buf (pipes st p) of
                        Waits \<Rightarrow> Waits
                      | Finished (n, p1) \<Rightarrow> Finished (int n, st\<lparr>pipes := (pipes st)(p := p1)\<rparr>)))
     }"

definition IntToWhence :: "int \<Rightarrow> whence" where
  "IntToWhence w = (if w = 1 then SEEK_CUR else if w = 2 then SEEK_END else SEEK_SET)"

definition SysLseek :: "int \<Rightarrow> int \<Rightarrow> int \<Rightarrow> files \<Rightarrow> (int \<times> files) option" where
  "SysLseek fd offset w st =
     do {
       desc \<leftarrow> GetDescriptor fd (table st);
       case desc of
         None \<Rightarrow> Some (- 1, st)
       | Some d \<Rightarrow>
           (case kind (descs st d) of
              ACTUAL_FILE file \<Rightarrow> do {
                (pos, file1) \<leftarrow> fd_seek offset (IntToWhence w) (fs st) file;
                Some (pos, set_kind d (ACTUAL_FILE file1) st)
              }
            | _ \<Rightarrow> Some (- 1, st))
     }"

definition SysPread :: "int \<Rightarrow> nat \<Rightarrow> int \<Rightarrow> files \<Rightarrow> (int \<times> byte list \<times> files) option" where
  "SysPread fd count offset st =
     do {
       desc \<leftarrow> GetDescriptor fd (table st);
       case desc of
         None \<Rightarrow> Some (0, [], st)
       | Some d \<Rightarrow>
           (case kind (descs st d) of
              ACTUAL_FILE file \<Rightarrow> do {
                (pos, file1) \<leftarrow> fd_seek offset SEEK_SET (fs st) file;
                (bytes, file2) \<leftarrow> fd_read (s32 count) (fs st) file1;
                Some (int (length bytes), bytes, set_kind d (ACTUAL_FILE file2) st)
              }
            | _ \<Rightarrow> Some (- 1, [], st))
     }"

definition SysGetDents :: "int \<Rightarrow> nat \<Rightarrow> files \<Rightarrow> (int \<times> byte list \<times> files) option" where
  \<comment> \<open>a number without a file is dereferenced\<close>
  "SysGetDents fd count st =
     do {
       desc \<leftarrow> GetDescriptor fd (table st);
       case desc of
         None \<Rightarrow> None
       | Some d \<Rightarrow>
           (case kind (descs st d) of
              ACTUAL_FILE file \<Rightarrow> do {
                info \<leftarrow> Stat (fd_inode_num file) (fs st);
                if GetFileFormatFromMode (word_of_nat (fi_mode info)) \<noteq> S_DIR then Some (0, [], st)
                else do {
                  (bytes, file1) \<leftarrow> fd_read (s32 count) (fs st) file;
                  Some (int (length bytes), bytes, set_kind d (ACTUAL_FILE file1) st)
                }
              }
            | _ \<Rightarrow> Some (0, [], st))
     }"

definition SysStat :: "byte list \<Rightarrow> files \<Rightarrow> (int \<times> file_info option) option" where
  \<comment> \<open>the result and what is stored into \<open>file_info\<close>\<close>
  "SysStat filename st =
     do {
       info \<leftarrow> StatPath (c_view (GetAbsolutePath (kstr_of_chars filename) (working_dir st))) (fs st);
       if fi_inode info = 0 \<and> fi_file_size info = 0 then Some (- 1, None) else Some (0, Some info)
     }"

definition SysGetCWD :: "nat \<Rightarrow> files \<Rightarrow> byte list option" where
  \<comment> \<open>the bytes stored into the buffer, None for \<open>nullptr\<close>\<close>
  "SysGetCWD bufsize st =
     (if ksize (working_dir st) + 1 \<ge> bufsize then None
      else Some (take (ksize (working_dir st)) (working_dir st) @ [0]))"

end
