(* ===== verification/TreeRep.thy ===== *)
theory TreeRep
  imports TreeSet "HOL-Library.Tree"
begin

text \<open>
  The nodes of \<open>TreeSet\<close> as a tree of addresses: what a store of nodes represents, trees with a
  hole for the pointer an operation changes, and searching, inserting and deleting in these terms.
\<close>

section \<open>Representation\<close>

fun trep :: "(nat \<Rightarrow> 'a node) \<Rightarrow> nat option \<Rightarrow> nat tree \<Rightarrow> bool" where
  "trep ns p \<langle>\<rangle> \<longleftrightarrow> p = None"
| "trep ns p \<langle>l, a, r\<rangle> \<longleftrightarrow> p = Some a \<and> trep ns (node_left (ns a)) l \<and> trep ns (node_right (ns a)) r"

definition addr :: "nat tree \<Rightarrow> nat option" where
  "addr t = (case t of \<langle>\<rangle> \<Rightarrow> None | \<langle>l, a, r\<rangle> \<Rightarrow> Some a)"

lemma addr_simps [simp]: "addr \<langle>\<rangle> = None" "addr \<langle>l, a, r\<rangle> = Some a" "addr t = None \<longleftrightarrow> t = \<langle>\<rangle>"
  by (auto simp: addr_def split: tree.splits)

lemma trep_addr: "trep ns p t \<Longrightarrow> p = addr t"
  by (cases t) simp_all

lemma trep_cong: "(\<And>a. a \<in> set_tree t \<Longrightarrow> ns' a = ns a) \<Longrightarrow> trep ns' p t = trep ns p t"
  by (induction t arbitrary: p) auto

text \<open>A context is the way up from a hole: at each step, whether the hole is on the left, the node
  and its other subtree.\<close>

type_synonym ctx = "(bool \<times> nat \<times> nat tree) list"

fun plug :: "ctx \<Rightarrow> nat tree \<Rightarrow> nat tree" where
  "plug [] t = t"
| "plug ((lf, a, s) # c) t = plug c (if lf then \<langle>t, a, s\<rangle> else \<langle>s, a, t\<rangle>)"

fun before_hole :: "ctx \<Rightarrow> nat list" where
  "before_hole [] = []"
| "before_hole ((lf, a, s) # c) = before_hole c @ (if lf then [] else inorder s @ [a])"

fun after_hole :: "ctx \<Rightarrow> nat list" where
  "after_hole [] = []"
| "after_hole ((lf, a, s) # c) = (if lf then a # inorder s else []) @ after_hole c"

fun crep :: "(nat \<Rightarrow> 'a node) \<Rightarrow> nat option \<Rightarrow> ctx \<Rightarrow> nat option \<Rightarrow> bool" where
  "crep ns p [] q \<longleftrightarrow> p = q"
| "crep ns p ((lf, a, s) # c) q \<longleftrightarrow> crep ns p c (Some a)
     \<and> (if lf then node_left (ns a) = q \<and> trep ns (node_right (ns a)) s
        else node_right (ns a) = q \<and> trep ns (node_left (ns a)) s)"

definition hole_top :: "ctx \<Rightarrow> nat option" where
  "hole_top c = (case c of [] \<Rightarrow> None | (lf, a, s) # _ \<Rightarrow> Some a)"

definition ctx_path :: "ctx \<Rightarrow> nat list" where
  "ctx_path c = map (\<lambda>(lf, a, s). a) c"

lemma top_simps [simp]: "hole_top [] = None" "hole_top ((lf, a, s) # c) = Some a" "ctx_path [] = []"
  "ctx_path ((lf, a, s) # c) = a # ctx_path c"
  by (simp_all add: hole_top_def ctx_path_def)

lemma inorder_plug: "inorder (plug c t) = before_hole c @ inorder t @ after_hole c"
  by (induction c t rule: plug.induct) auto

lemma plug_append: "plug (c1 @ c2) t = plug c2 (plug c1 t)"
  by (induction c1 t rule: plug.induct) auto

lemma hole_append: "before_hole (c1 @ c2) = before_hole c2 @ before_hole c1"
  "after_hole (c1 @ c2) = after_hole c1 @ after_hole c2"
  by (induction c1 rule: before_hole.induct) auto

lemma trep_plug: "trep ns p (plug c t) \<longleftrightarrow> (\<exists>q. crep ns p c q \<and> trep ns q t)"
  by (induction c t rule: plug.induct) auto

lemma trep_plug_addr: "trep ns p (plug c t) \<longleftrightarrow> crep ns p c (addr t) \<and> trep ns (addr t) t"
  using trep_addr by (auto simp: trep_plug)

lemma crep_cong:
  "(\<And>a. a \<in> set (before_hole c) \<Longrightarrow> ns' a = ns a) \<Longrightarrow> (\<And>a. a \<in> set (after_hole c) \<Longrightarrow> ns' a = ns a)
    \<Longrightarrow> crep ns' p c q = crep ns p c q"
proof (induction c arbitrary: q rule: before_hole.induct)
  case (2 lf a s c)
  have "trep ns' p s = trep ns p s" for p using "2.prems" by (cases lf) (auto intro!: trep_cong)
  moreover have "ns' a = ns a" using "2.prems" by (cases lf) auto
  moreover have "crep ns' p c (Some a) = crep ns p c (Some a)" using "2.prems" by (intro "2.IH") auto
  ultimately show ?case by simp
qed simp

lemma in_plug: "a \<in> set_tree t \<Longrightarrow> \<exists>c l r. t = plug c \<langle>l, a, r\<rangle>"
proof (induction t)
  case (Node l b r)
  consider "a = b" | "a \<in> set_tree l" | "a \<in> set_tree r" using Node.prems by auto
  then show ?case
  proof cases
    case 1
    then have "\<langle>l, b, r\<rangle> = plug [] \<langle>l, a, r\<rangle>" by simp
    then show ?thesis by blast
  next
    case 2
    then obtain c l' r' where "l = plug c \<langle>l', a, r'\<rangle>" using Node.IH(1) by blast
    then have "\<langle>l, b, r\<rangle> = plug (c @ [(True, b, r)]) \<langle>l', a, r'\<rangle>" by (simp add: plug_append)
    then show ?thesis by blast
  next
    case 3
    then obtain c l' r' where "r = plug c \<langle>l', a, r'\<rangle>" using Node.IH(2) by blast
    then have "\<langle>l, b, r\<rangle> = plug (c @ [(False, b, l)]) \<langle>l', a, r'\<rangle>" by (simp add: plug_append)
    then show ?thesis by blast
  qed
qed simp

section \<open>Changing the hole\<close>

fun set_hole :: "ctx \<Rightarrow> nat option \<Rightarrow> 'a btree \<Rightarrow> 'a btree" where
  "set_hole [] q t = t\<lparr>root := q\<rparr>"
| "set_hole ((lf, a, s) # c) q t =
     upd_node a (if lf then node_left_update (\<lambda>_. q) else node_right_update (\<lambda>_. q)) t"

lemma upd_node_simps [simp]: "nodes (upd_node n f t) = (nodes t)(n := f (nodes t n))" "root (upd_node n f t) = root t"
  by (simp_all add: upd_node_def)

lemma set_hole_nodes: "hole_top c \<noteq> Some a \<Longrightarrow> nodes (set_hole c q t) a = nodes t a"
  by (cases c) auto

lemma set_hole_keys: "node_key (nodes (set_hole c q t) a) = node_key (nodes t a)"
  by (cases c) auto

lemma top_in: "hole_top c = Some a \<Longrightarrow> a \<in> set (before_hole c @ after_hole c)"
  by (cases c rule: before_hole.cases) auto

lemma set_hole_crep:
  assumes "crep (nodes t) (root t) c q" "distinct (before_hole c @ after_hole c)"
  shows "crep (nodes (set_hole c q' t)) (root (set_hole c q' t)) c q'"
proof (cases c rule: before_hole.cases)
  case (2 lf a s c')
  let ?f = "if lf then node_left_update (\<lambda>_. q') else node_right_update (\<lambda>_. q')"
  have a: "a \<notin> set_tree s" "a \<notin> set (before_hole c')" "a \<notin> set (after_hole c')"
    using assms(2) 2 by (auto split: if_splits)
  have "crep ((nodes t)(a := ?f (nodes t a))) (root t) c' (Some a) = crep (nodes t) (root t) c' (Some a)"
    using a by (intro crep_cong) auto
  moreover have "trep ((nodes t)(a := ?f (nodes t a))) p s = trep (nodes t) p s" for p
    using a by (intro trep_cong) auto
  ultimately show ?thesis using assms(1) 2 by auto
qed simp

lemma set_hole_rep:
  assumes "trep (nodes t) (root t) (plug c s)" "distinct (before_hole c @ after_hole c)"
    and "trep (nodes t) q' s'" "\<And>a. a \<in> set_tree s' \<Longrightarrow> hole_top c \<noteq> Some a"
  shows "trep (nodes (set_hole c q' t)) (root (set_hole c q' t)) (plug c s')"
proof -
  have "crep (nodes (set_hole c q' t)) (root (set_hole c q' t)) c q'"
    using assms(1,2) by (intro set_hole_crep) (auto simp: trep_plug_addr)
  moreover have "trep (nodes (set_hole c q' t)) q' s'"
    using assms(3,4) by (subst trep_cong [of s' _ "nodes t"]) (auto simp: set_hole_nodes)
  ultimately show ?thesis by (auto simp: trep_plug)
qed

section \<open>Searching\<close>

abbreviation key_of :: "('a \<Rightarrow> 'k) \<Rightarrow> (nat \<Rightarrow> 'a node) \<Rightarrow> nat \<Rightarrow> 'k" where
  "key_of kf ns a \<equiv> kf (node_key (ns a))"

fun locate :: "(nat \<Rightarrow> 'k::linorder) \<Rightarrow> 'k \<Rightarrow> nat tree \<Rightarrow> ctx \<Rightarrow> ctx \<times> nat tree" where
  \<comment> \<open>the way down from the subtree in a context\<close>
  "locate k key \<langle>\<rangle> c = (c, \<langle>\<rangle>)"
| "locate k key \<langle>l, a, r\<rangle> c =
     (if k a < key then locate k key r ((False, a, l) # c)
      else if key < k a then locate k key l ((True, a, r) # c)
      else (c, \<langle>l, a, r\<rangle>))"

lemma locate_plug: "locate k key t c = (c', s) \<Longrightarrow> plug c' s = plug c t"
  by (induction k key t c rule: locate.induct) (auto split: if_splits)

lemma search_locate:
  "trep ns p t \<Longrightarrow> locate (key_of kf ns) key t c = (c', s)
    \<Longrightarrow> search_from kf key ns p (hole_top c) = Some (addr s, hole_top c')"
proof (induction "key_of kf ns" key t c arbitrary: p rule: locate.induct)
  case (1 key c)
  then show ?case by (subst search_from.simps) simp
next
  case (2 key l a r c)
  consider "key_of kf ns a < key" | "\<not> key_of kf ns a < key" "key < key_of kf ns a"
    | "\<not> key_of kf ns a < key" "\<not> key < key_of kf ns a" by blast
  then show ?case
  proof cases
    case 1
    then show ?thesis using 2 by (subst search_from.simps) simp
  next
    case 2
    then show ?thesis using "2.hyps"(2) "2.prems" by (subst search_from.simps) simp
  next
    case 3
    then show ?thesis using "2.prems" by (subst search_from.simps) auto
  qed
qed

lemma path_locate:
  "trep ns p t \<Longrightarrow> locate (key_of kf ns) key t c = (c', s)
    \<Longrightarrow> path_from kf key ns p (ctx_path c) = Some (case s of \<langle>\<rangle> \<Rightarrow> [] | \<langle>l, a, r\<rangle> \<Rightarrow> a # ctx_path c')"
proof (induction "key_of kf ns" key t c arbitrary: p rule: locate.induct)
  case (1 key c)
  then show ?case by (subst path_from.simps) auto
next
  case (2 key l a r c)
  consider "key_of kf ns a < key" | "\<not> key_of kf ns a < key" "key < key_of kf ns a"
    | "\<not> key_of kf ns a < key" "\<not> key < key_of kf ns a" by blast
  then show ?case
  proof cases
    case 1
    then show ?thesis using 2 by (subst path_from.simps) simp
  next
    case 2
    then show ?thesis using "2.hyps"(2) "2.prems" by (subst path_from.simps) simp
  next
    case 3
    then show ?thesis using "2.prems" by (subst path_from.simps) auto
  qed
qed

definition between :: "(nat \<Rightarrow> 'k::linorder) \<Rightarrow> ctx \<Rightarrow> 'k \<Rightarrow> bool" where
  "between k c key \<longleftrightarrow> (\<forall>b \<in> set (before_hole c). k b < key) \<and> (\<forall>b \<in> set (after_hole c). key < k b)"

definition ordered :: "(nat \<Rightarrow> 'k::linorder) \<Rightarrow> nat tree \<Rightarrow> bool" where
  "ordered k t \<longleftrightarrow> sorted_wrt (\<lambda>a b. k a < k b) (inorder t)"

lemma ordered_plug:
  "ordered k (plug c t) \<longleftrightarrow> ordered k t \<and> sorted_wrt (\<lambda>a b. k a < k b) (before_hole c @ after_hole c)
     \<and> (\<forall>a \<in> set_tree t. between k c (k a))"
  by (auto simp: ordered_def inorder_plug sorted_wrt_append between_def)

lemma between_simps: "between k ((lf, a, s) # c) key \<longleftrightarrow> between k c key
    \<and> (if lf then key < k a \<and> (\<forall>b \<in> set_tree s. key < k b) else k a < key \<and> (\<forall>b \<in> set_tree s. k b < key))"
  by (auto simp: between_def)

lemma ordered_node:
  "ordered k \<langle>l, a, r\<rangle> \<longleftrightarrow> ordered k l \<and> ordered k r \<and> (\<forall>b \<in> set_tree l. k b < k a) \<and> (\<forall>b \<in> set_tree r. k a < k b)"
  by (auto simp: ordered_def sorted_wrt_append intro: less_trans)

text \<open>Down to the hole whose key it is.\<close>

lemma locate_between:
  assumes "ordered k (plug c t)" "between k c key"
  shows "locate k key (plug c t) [] = locate k key t c"
  using assms
proof (induction c arbitrary: t rule: before_hole.induct)
  case (2 lf a s c)
  then have "locate k key (plug c (if lf then \<langle>t, a, s\<rangle> else \<langle>s, a, t\<rangle>)) []
      = locate k key (if lf then \<langle>t, a, s\<rangle> else \<langle>s, a, t\<rangle>) c"
    by (intro "2.IH") (auto simp: between_simps split: if_splits)
  then show ?case using "2.prems" by (auto simp: between_simps split: if_splits)
qed simp

lemma locate_node:
  assumes "ordered k (plug c \<langle>l, a, r\<rangle>)"
  shows "locate k (k a) (plug c \<langle>l, a, r\<rangle>) [] = (c, \<langle>l, a, r\<rangle>)"
proof -
  have "between k c (k a)" using assms by (simp add: ordered_plug)
  then show ?thesis using assms by (subst locate_between) auto
qed

lemma locate_absent:
  assumes "ordered k (plug c t)" "between k c key" "key \<notin> k ` set_tree (plug c t)" "locate k key t c = (c', s)"
  shows "s = \<langle>\<rangle> \<and> between k c' key"
  using assms
proof (induction k key t c rule: locate.induct)
  case (2 k key l a r c)
  have o: "ordered k \<langle>l, a, r\<rangle>" using "2.prems"(1) by (simp add: ordered_plug)
  have ne: "k a \<noteq> key" using "2.prems"(3) in_plug
    by (auto simp: set_inorder [symmetric] inorder_plug simp del: set_inorder)
  show ?case
  proof (cases "k a < key")
    case True
    have "between k ((False, a, l) # c) key"
      using True o "2.prems"(2) by (auto simp: between_simps ordered_node intro: less_trans)
    then show ?thesis using "2.IH"(1) [OF True] "2.prems" True by simp
  next
    case False
    then have lt: "key < k a" using ne by simp
    have "between k ((True, a, r) # c) key"
      using lt o "2.prems"(2) by (auto simp: between_simps ordered_node intro: less_trans)
    then show ?thesis using "2.IH"(2) [OF False lt] "2.prems" False lt by simp
  qed
qed simp

section \<open>Inserting\<close>

abbreviation tree_rep :: "'a btree \<Rightarrow> nat tree \<Rightarrow> bool" where
  "tree_rep t T \<equiv> trep (nodes t) (root t) T"

abbreviation ordered_by :: "('a \<Rightarrow> 'k::linorder) \<Rightarrow> 'a btree \<Rightarrow> nat tree \<Rightarrow> bool" where
  "ordered_by kf t T \<equiv> ordered (key_of kf (nodes t)) T"

abbreviation same_keys :: "'a btree \<Rightarrow> 'a btree \<Rightarrow> bool" where
  "same_keys t' t \<equiv> \<forall>a. node_key (nodes t' a) = node_key (nodes t a)"

lemma ordered_cong: "(\<And>a. a \<in> set_tree T \<Longrightarrow> k' a = k a) \<Longrightarrow> ordered k' T = ordered k T"
  unfolding ordered_def by (intro iffI; erule sorted_wrt_mono_rel [rotated]) auto

lemma sorted_key_distinct: "sorted_wrt (\<lambda>a b. k a < k b) xs \<Longrightarrow> distinct xs" for k :: "'b \<Rightarrow> 'k::linorder"
  by (induction xs) auto

lemma ordered_distinct: "ordered k T \<Longrightarrow> distinct (inorder T)"
  unfolding ordered_def by (rule sorted_key_distinct)

lemma rep_root: "tree_rep t T \<Longrightarrow> root t = addr T"
  by (rule trep_addr)

lemma plug_Leaf [simp]: "plug c s = \<langle>\<rangle> \<longleftrightarrow> c = [] \<and> s = \<langle>\<rangle>"
  by (induction c s rule: plug.induct) auto

lemma plug_distinct: "distinct (inorder (plug c s)) \<Longrightarrow> distinct (before_hole c @ after_hole c)"
  "distinct (inorder (plug c s)) \<Longrightarrow> a \<in> set_tree s \<Longrightarrow> hole_top c \<noteq> Some a"
  using top_in [of c] by (auto simp: inorder_plug)

lemma AddChild_hole:
  assumes "tree_rep t (plug ((lf, p, s) # c) \<langle>\<rangle>)" "between (key_of kf (nodes t)) ((lf, p, s) # c) (key_of kf (nodes t) node)"
  shows "AddChild kf p node t = (None, set_hole ((lf, p, s) # c) (Some node) t)"
  using assms by (cases lf) (auto simp: AddChild_def trep_plug between_simps)

lemma set_tree_plug: "set_tree (plug c s) = set (before_hole c) \<union> set_tree s \<union> set (after_hole c)"
  by (simp add: set_inorder [symmetric] inorder_plug Un_assoc del: set_inorder)

lemma InsertNode_ok:
  assumes rep: "tree_rep t T" and ord: "ordered_by kf t T"
    and new: "key_of kf (nodes t) n \<notin> key_of kf (nodes t) ` set_tree T" "nodes t n = new_node x" "n \<notin> set_tree T"
  shows "\<exists>t' T'. InsertNode kf n t = Some (None, t') \<and> tree_rep t' T' \<and> set_tree T' = insert n (set_tree T)
    \<and> ordered_by kf t' T' \<and> same_keys t' t"
proof (cases "T = \<langle>\<rangle>")
  case True
  then show ?thesis using rep new(2)
    by (intro exI [of _ "t\<lparr>root := Some n\<rparr>"] exI [of _ "\<langle>\<langle>\<rangle>, n, \<langle>\<rangle>\<rangle>"])
      (simp add: InsertNode_def new_node_def ordered_def)
next
  case False
  let ?k = "key_of kf (nodes t)"
  obtain c s where loc: "locate ?k (?k n) T [] = (c, s)" by fastforce
  have "s = \<langle>\<rangle> \<and> between ?k c (?k n)"
    using locate_absent [of ?k "[]" T "?k n" c s] ord new(1) loc by (simp add: between_def)
  then have s: "s = \<langle>\<rangle>" "between ?k c (?k n)" by simp_all
  have T: "T = plug c \<langle>\<rangle>" using locate_plug [OF loc] s(1) by simp
  then obtain lf p u c' where c: "c = (lf, p, u) # c'" using False by (cases c) auto
  have "SearchNode kf (?k n) t = Some (None, hole_top c)"
    using search_locate [OF rep loc] s(1) by (simp add: SearchNode_def)
  moreover have "root t \<noteq> None" using rep_root [OF rep] False by simp
  ultimately have ins: "InsertNode kf n t = Some (None, set_hole c (Some n) t)"
    using AddChild_hole [of t lf p u c' kf n] rep s(2) by (auto simp: InsertNode_def T c)
  have dist: "distinct (inorder (plug c \<langle>\<rangle>))" using ordered_distinct [OF ord] T by simp
  have "tree_rep (set_hole c (Some n) t) (plug c \<langle>\<langle>\<rangle>, n, \<langle>\<rangle>\<rangle>)"
    using rep new(2,3) top_in [of c n]
    by (intro set_hole_rep [OF _ plug_distinct(1) [OF dist]]) (auto simp: T new_node_def set_tree_plug)
  moreover have "ordered ?k (plug c \<langle>\<langle>\<rangle>, n, \<langle>\<rangle>\<rangle>)"
    using ord s(2) by (simp add: T ordered_plug) (simp add: ordered_def)
  ultimately show ?thesis using ins
    by (intro exI [of _ "set_hole c (Some n) t"] exI [of _ "plug c \<langle>\<langle>\<rangle>, n, \<langle>\<rangle>\<rangle>"])
      (auto simp: set_hole_keys set_tree_plug T)
qed

section \<open>Deleting\<close>

definition cut :: "ctx \<Rightarrow> nat \<Rightarrow> 'a btree \<Rightarrow> 'a btree" where
  \<comment> \<open>the parent, if any, forgets the node\<close>
  "cut c a t = (case hole_top c of None \<Rightarrow> t\<lparr>root := None\<rparr> | Some p \<Rightarrow> RemoveChild p a t)"

lemma cut_hole:
  assumes "tree_rep t (plug c s)" "addr s = Some a" "distinct (inorder (plug c s))"
  shows "cut c a t = set_hole c None t"
proof (cases c rule: before_hole.cases)
  case (2 lf p u c')
  have "a \<in> set_tree s" using assms(2) by (cases s) auto
  then have "a \<notin> set_tree u" using assms(3) 2 by (cases lf) (auto simp: inorder_plug)
  then have "addr u \<noteq> Some a" by (cases u) auto
  moreover have "crep (nodes t) (root t) c (Some a)" using assms(1,2) by (simp add: trep_plug_addr)
  ultimately show ?thesis using 2 by (cases lf) (auto simp: cut_def RemoveChild_def dest!: trep_addr)
qed (simp add: cut_def)

lemma SetChild_hole:
  assumes "between (key_of kf (nodes t)) ((lf, p, s) # c) (key_of kf (nodes t) b)"
  shows "SetChild kf p b t = set_hole ((lf, p, s) # c) (Some b) t"
  using assms by (cases lf) (auto simp: SetChild_def between_simps)

lemma set_hole_twice: "set_hole c q (set_hole c q' t) = set_hole c q t"
  by (cases c rule: before_hole.cases) (auto simp: upd_node_def)

lemma DeleteNode_leaf:
  assumes rep: "tree_rep t (plug c \<langle>\<langle>\<rangle>, a, \<langle>\<rangle>\<rangle>)" and dist: "distinct (inorder (plug c \<langle>\<langle>\<rangle>, a, \<langle>\<rangle>\<rangle>))"
  shows "DeleteNode kf (Some a) (hole_top c) t = Some (Some a, set_hole c None t)"
    "tree_rep (set_hole c None t) (plug c \<langle>\<rangle>)"
proof -
  have "node_left (nodes t a) = None" "node_right (nodes t a) = None" using rep by (auto simp: trep_plug)
  then have "NumChild (nodes t a) = 0" by (simp add: NumChild_def)
  moreover have "root t \<noteq> None" using rep_root [OF rep] by simp
  moreover have "cut c a t = set_hole c None t" using rep dist by (intro cut_hole) auto
  ultimately show "DeleteNode kf (Some a) (hole_top c) t = Some (Some a, set_hole c None t)"
    by (subst DeleteNode.simps) (simp add: cut_def)
  show "tree_rep (set_hole c None t) (plug c \<langle>\<rangle>)"
    using set_hole_rep [OF rep plug_distinct(1) [OF dist], of None "\<langle>\<rangle>"] by simp
qed

text \<open>A node with one child: the subtree goes up.\<close>

lemma DeleteNode_one:
  assumes rep: "tree_rep t (plug c (if lf then \<langle>s, a, \<langle>\<rangle>\<rangle> else \<langle>\<langle>\<rangle>, a, s\<rangle>))" and s: "s \<noteq> \<langle>\<rangle>"
    and ord: "ordered_by kf t (plug c (if lf then \<langle>s, a, \<langle>\<rangle>\<rangle> else \<langle>\<langle>\<rangle>, a, s\<rangle>))"
  shows "\<exists>t'. DeleteNode kf (Some a) (hole_top c) t = Some (Some a, t') \<and> tree_rep t' (plug c s) \<and> same_keys t' t
    \<and> node_left (nodes t' a) = None \<and> node_right (nodes t' a) = None"
proof -
  obtain b where b: "addr s = Some b" "b \<in> set_tree s" using s by (cases s) auto
  let ?cc = "(lf, a, \<langle>\<rangle>) # c"
  define t1 where "t1 = set_hole ?cc None t"
  define t2 where "t2 = set_hole c (Some b) t1"
  have rep': "tree_rep t (plug ?cc s)" using rep by simp
  have ord': "ordered_by kf t (plug ?cc s)" using ord by simp
  note dist = ordered_distinct [OF ord']
  have child: "(if lf then node_left (nodes t a) = Some b \<and> node_right (nodes t a) = None
      else node_right (nodes t a) = Some b \<and> node_left (nodes t a) = None)"
    using rep' b(1) by (cases lf) (auto simp: trep_plug_addr dest!: trep_addr [of _ _ s])
  have t1: "RemoveChild a b t = t1" using cut_hole [OF rep' b(1) dist] by (simp add: cut_def t1_def)
  have keys1: "same_keys t1 t" by (simp add: t1_def set_hole_keys del: set_hole.simps)
  have "a \<notin> set_tree s" using dist by (cases lf) (auto simp: inorder_plug)
  moreover have "trep (nodes t) (Some b) s" using iffD1 [OF trep_plug_addr rep'] b(1) by simp
  ultimately have s1: "trep (nodes t1) (Some b) s" unfolding t1_def by (subst trep_cong [of s _ "nodes t"]) auto
  have rep1: "tree_rep t1 (plug c \<langle>\<langle>\<rangle>, a, \<langle>\<rangle>\<rangle>)"
    using set_hole_rep [OF rep' plug_distinct(1) [OF dist], of None "\<langle>\<rangle>"] by (cases lf) (simp_all add: t1_def)
  have dist1: "distinct (inorder (plug c \<langle>\<langle>\<rangle>, a, \<langle>\<rangle>\<rangle>))" using dist by (cases lf) (auto simp: inorder_plug)
  have outside: "hole_top c \<noteq> Some x" if "x \<in> set_tree s" for x
    using plug_distinct(2) [OF ordered_distinct [OF ord], of x] that by (cases lf) auto
  have "between (key_of kf (nodes t)) c (key_of kf (nodes t) b)"
    using ord' b(2) unfolding ordered_plug by (simp add: between_simps)
  then have set: "(case hole_top c of None \<Rightarrow> t1\<lparr>root := Some b\<rparr> | Some p \<Rightarrow> SetChild kf p b (RemoveChild p a t1)) = t2"
  proof (cases c rule: before_hole.cases)
    case (2 lf' p u c')
    have "RemoveChild p a t1 = set_hole c None t1" using cut_hole [OF rep1 _ dist1] 2 by (simp add: cut_def)
    then show ?thesis using SetChild_hole [of kf "set_hole c None t1" lf' p u c' b] \<open>between _ c _\<close> 2 keys1
      by (simp add: t2_def set_hole_keys set_hole_twice between_def del: set_hole.simps)
  qed (simp add: t2_def)
  have "NumChild (nodes t a) = 1" "GetOnlyChild (nodes t a) = Some b"
    using child by (cases lf; simp add: NumChild_def GetOnlyChild_def)+
  moreover have "root t \<noteq> None" using rep_root [OF rep'] by simp
  ultimately have "DeleteNode kf (Some a) (hole_top c) t = Some (Some a, t2)"
    using set t1 by (subst DeleteNode.simps) (simp add: Let_def)
  moreover have "tree_rep t2 (plug c s)" unfolding t2_def
    using rep1 s1 plug_distinct(1) [OF dist1] outside by (intro set_hole_rep) auto
  moreover have "same_keys t2 t" using keys1 by (simp add: t2_def set_hole_keys)
  moreover have "nodes t2 a = nodes t1 a" unfolding t2_def using plug_distinct(2) [OF dist1] by (intro set_hole_nodes) simp
  ultimately show ?thesis using child by (cases lf) (auto simp: t1_def)
qed

lemma DeleteNode_small:
  assumes rep: "tree_rep t (plug c \<langle>l, a, r\<rangle>)" and ord: "ordered_by kf t (plug c \<langle>l, a, r\<rangle>)" and lr: "l = \<langle>\<rangle> \<or> r = \<langle>\<rangle>"
  shows "\<exists>t'. DeleteNode kf (Some a) (hole_top c) t = Some (Some a, t') \<and> same_keys t' t
    \<and> tree_rep t' (plug c (if l = \<langle>\<rangle> then r else l)) \<and> node_left (nodes t' a) = None \<and> node_right (nodes t' a) = None"
proof -
  consider "l = \<langle>\<rangle>" "r = \<langle>\<rangle>" | "l = \<langle>\<rangle>" "r \<noteq> \<langle>\<rangle>" | "l \<noteq> \<langle>\<rangle>" "r = \<langle>\<rangle>" using lr by blast
  then show ?thesis
  proof cases
    case 1
    note dist = ordered_distinct [OF ord]
    have "nodes (set_hole c None t) a = nodes t a" using plug_distinct(2) [OF dist] by (intro set_hole_nodes) simp
    moreover have "node_left (nodes t a) = None" "node_right (nodes t a) = None" using rep 1 by (auto simp: trep_plug)
    ultimately show ?thesis using DeleteNode_leaf(1) [of t c a kf] DeleteNode_leaf(2) [of t c a] rep dist 1 by (auto simp: set_hole_keys)
  next
    case 2
    then show ?thesis using DeleteNode_one [of t c False r a kf] rep ord by auto
  next
    case 3
    then show ?thesis using DeleteNode_one [of t c True l a kf] rep ord by auto
  qed
qed

lemma leftmost_ok:
  assumes "trep ns p r" "r \<noteq> \<langle>\<rangle>"
  shows "\<exists>c s rs. r = plug c \<langle>\<langle>\<rangle>, s, rs\<rangle> \<and> before_hole c = [] \<and> FindLeftModeNodeFrom ns p = Some s"
  using assms
proof (induction r arbitrary: p)
  case (Node l b r)
  show ?case
  proof (cases "l = \<langle>\<rangle>")
    case True
    then have "FindLeftModeNodeFrom ns p = Some b"
      using Node.prems by (simp add: FindLeftModeNodeFrom_def) (subst leftmost_from.simps, simp)
    then show ?thesis using True by (intro exI [of _ "[]"]) auto
  next
    case False
    then obtain b' where b': "node_left (ns b) = Some b'" using Node.prems by (cases l) auto
    obtain c s rs where c: "l = plug c \<langle>\<langle>\<rangle>, s, rs\<rangle>" "before_hole c = []" "FindLeftModeNodeFrom ns (node_left (ns b)) = Some s"
      using Node.IH(1) [of "node_left (ns b)"] Node.prems False by auto
    have "FindLeftModeNodeFrom ns p = Some s"
      using Node.prems c(3) b' by (simp add: FindLeftModeNodeFrom_def) (subst leftmost_from.simps, simp)
    then show ?thesis using c(1,2)
      by (intro exI [of _ "c @ [(True, b, r)]"] exI [of _ s] exI [of _ rs]) (simp add: plug_append hole_append)
  qed
qed simp

lemma SwitchChild_hole:
  assumes "tree_rep t (plug ((lf, p, u) # c) s)" "addr s = Some a" "distinct (inorder (plug ((lf, p, u) # c) s))"
  shows "SwitchChild p a b t = set_hole ((lf, p, u) # c) (Some b) t"
proof -
  have "a \<in> set_tree s" using assms(2) by (cases s) auto
  then have "a \<notin> set_tree u" using assms(3) by (cases lf) (auto simp: inorder_plug)
  then have "addr u \<noteq> Some a" by (cases u) auto
  moreover have "crep (nodes t) (root t) ((lf, p, u) # c) (Some a)" using iffD1 [OF trep_plug_addr assms(1)] assms(2) by simp
  ultimately show ?thesis by (cases lf) (auto simp: SwitchChild_def dest!: trep_addr)
qed

text \<open>A node with two children: its successor takes its place.\<close>

lemma DeleteNode_two:
  assumes rep: "tree_rep t (plug c \<langle>l, a, r\<rangle>)" and ord: "ordered_by kf t (plug c \<langle>l, a, r\<rangle>)"
    and lr: "l \<noteq> \<langle>\<rangle>" "r \<noteq> \<langle>\<rangle>"
  shows "\<exists>t' s r'. DeleteNode kf (Some a) (hole_top c) t = Some (Some a, t') \<and> same_keys t' t
    \<and> tree_rep t' (plug c \<langle>l, s, r'\<rangle>) \<and> inorder r = s # inorder r'"
proof -
  have node: "node_left (nodes t a) = addr l" "node_right (nodes t a) = addr r" "trep (nodes t) (addr r) r"
    using rep trep_addr by (fastforce simp: trep_plug)+
  obtain c2 s rs where r: "r = plug c2 \<langle>\<langle>\<rangle>, s, rs\<rangle>" "before_hole c2 = []" "FindLeftModeNodeFrom (nodes t) (addr r) = Some s"
    using leftmost_ok [OF node(3) lr(2)] by blast
  define cc where "cc = c2 @ (False, a, l) # c"
  define r' where "r' = plug c2 rs"
  have T: "plug c \<langle>l, a, r\<rangle> = plug cc \<langle>\<langle>\<rangle>, s, rs\<rangle>" "plug cc rs = plug c \<langle>l, a, r'\<rangle>"
    by (simp_all add: cc_def plug_append r(1) r'_def)
  have ino: "inorder r = s # inorder r'" using r(2) by (simp add: r(1) r'_def inorder_plug)
  have dist: "distinct (before_hole c @ inorder l @ a # s # inorder r' @ after_hole c)"
    using ordered_distinct [OF ord] by (simp add: inorder_plug ino)
  obtain t1 where t1: "DeleteNode kf (Some s) (hole_top cc) t = Some (Some s, t1)" "same_keys t1 t" "tree_rep t1 (plug c \<langle>l, a, r'\<rangle>)"
      "node_left (nodes t1 s) = None" "node_right (nodes t1 s) = None"
    using DeleteNode_small [of t cc "\<langle>\<rangle>" s rs kf] rep ord T by auto
  have "SearchNode kf (key_of kf (nodes t) s) t = Some (Some s, hole_top cc)"
    using search_locate [OF rep, of kf "key_of kf (nodes t) s" "[]" cc "\<langle>\<langle>\<rangle>, s, rs\<rangle>"] locate_node [of "key_of kf (nodes t)" cc "\<langle>\<rangle>" s rs] ord T(1)
    by (simp add: SearchNode_def)
  moreover have "NumChild (nodes t a) = 2" using node(1,2) lr by (auto simp: NumChild_def)
  moreover have "root t \<noteq> None" using rep_root [OF rep] by simp
  moreover have node1: "node_left (nodes t1 a) = addr l" "node_right (nodes t1 a) = addr r'" "trep (nodes t1) (addr l) l" "trep (nodes t1) (addr r') r'"
    using t1(3) trep_addr by (fastforce simp: trep_plug)+
  define t3 where "t3 = upd_node s (node_left_update (\<lambda>_. addr l)) (upd_node s (node_right_update (\<lambda>_. addr r')) t1)"
  have "s \<noteq> a" using dist by auto
  then have "SetRight s (node_right (nodes t1 a)) t1 = Some (upd_node s (node_right_update (\<lambda>_. addr r')) t1)"
    "SetLeft s (node_left (nodes (upd_node s (node_right_update (\<lambda>_. addr r')) t1) a)) (upd_node s (node_right_update (\<lambda>_. addr r')) t1) = Some t3"
    using t1(4,5) node1 by (simp_all add: SetRight_def SetLeft_def t3_def)
  ultimately have del: "DeleteNode kf (Some a) (hole_top c) t
      = Some (Some a, case hole_top c of None \<Rightarrow> t3\<lparr>root := Some s\<rparr> | Some p \<Rightarrow> SwitchChild p a s t3)"
    using node(2) r(3) t1(1) by (subst DeleteNode.simps) simp
  have "trep (nodes t3) p x = trep (nodes t1) p x" if "s \<notin> set_tree x" for p x
    using that by (intro trep_cong) (auto simp: t3_def)
  moreover have "s \<notin> set_tree (plug c \<langle>l, a, r'\<rangle>)" "s \<notin> set_tree l" "s \<notin> set_tree r'" using dist by (auto simp: set_tree_plug)
  moreover have "root t3 = root t1" by (simp add: t3_def)
  ultimately have rep3: "tree_rep t3 (plug c \<langle>l, a, r'\<rangle>)" "trep (nodes t3) (Some s) \<langle>l, s, r'\<rangle>"
    using t1(3) node1 by (simp_all add: t3_def)
  have dist3: "distinct (inorder (plug c \<langle>l, a, r'\<rangle>))" using dist by (simp add: inorder_plug)
  have sw: "(case hole_top c of None \<Rightarrow> t3\<lparr>root := Some s\<rparr> | Some p \<Rightarrow> SwitchChild p a s t3) = set_hole c (Some s) t3"
  proof (cases c rule: before_hole.cases)
    case (2 lf p u c')
    then show ?thesis using SwitchChild_hole [of t3 lf p u c' "\<langle>l, a, r'\<rangle>" a s] rep3(1) dist3 by simp
  qed simp
  have "tree_rep (set_hole c (Some s) t3) (plug c \<langle>l, s, r'\<rangle>)"
    using rep3 dist plug_distinct [OF dist3] by (intro set_hole_rep) (auto dest: top_in)
  moreover have "same_keys (set_hole c (Some s) t3) t" using t1(2) by (auto simp: set_hole_keys t3_def)
  ultimately show ?thesis using del sw ino by auto
qed

end
