(* ===== verification/TreeLaws.thy ===== *)
theory TreeLaws
  imports TreeRep
begin

text \<open>
  What the sets and maps of \<open>TreeSet\<close> stand for: a finite map from keys to elements, and what each
  operation does to it.
\<close>

section \<open>Search and deletion\<close>

lemma SearchNode_found:
  assumes "tree_rep t T" "ordered_by kf t T" "key \<in> key_of kf (nodes t) ` set_tree T"
  shows "\<exists>c l a r. T = plug c \<langle>l, a, r\<rangle> \<and> key_of kf (nodes t) a = key
    \<and> SearchNode kf key t = Some (Some a, hole_top c) \<and> FindPath kf key t = Some (a # ctx_path c)"
proof -
  obtain c l a r where T: "T = plug c \<langle>l, a, r\<rangle>" "key_of kf (nodes t) a = key" using assms(3) in_plug by fastforce
  then have "locate (key_of kf (nodes t)) key T [] = (c, \<langle>l, a, r\<rangle>)"
    using locate_node [of "key_of kf (nodes t)" c l a r] assms(2) by simp
  then show ?thesis using search_locate [OF assms(1), of kf key "[]"] path_locate [OF assms(1), of kf key "[]"] T
    by (intro exI [of _ c] exI [of _ l] exI [of _ a] exI [of _ r]) (auto simp: SearchNode_def FindPath_def)
qed

lemma SearchNode_absent:
  assumes "tree_rep t T" "ordered_by kf t T" "key \<notin> key_of kf (nodes t) ` set_tree T"
  shows "\<exists>p. SearchNode kf key t = Some (None, p)" "FindPath kf key t = Some []"
proof -
  obtain c s where loc: "locate (key_of kf (nodes t)) key T [] = (c, s)" by fastforce
  have "s = \<langle>\<rangle>" using locate_absent [of "key_of kf (nodes t)" "[]" T key c s] assms(2,3) loc by (simp add: between_def)
  then show "\<exists>p. SearchNode kf key t = Some (None, p)" "FindPath kf key t = Some []"
    using search_locate [OF assms(1) loc] path_locate [OF assms(1) loc] by (auto simp: SearchNode_def FindPath_def)
qed

lemma DeleteNode_ok:
  assumes rep: "tree_rep t (plug c \<langle>l, a, r\<rangle>)" and ord: "ordered_by kf t (plug c \<langle>l, a, r\<rangle>)"
  shows "\<exists>t' T'. DeleteNode kf (Some a) (hole_top c) t = Some (Some a, t') \<and> tree_rep t' T' \<and> ordered_by kf t' T'
    \<and> inorder T' = remove1 a (inorder (plug c \<langle>l, a, r\<rangle>)) \<and> same_keys t' t"
proof -
  have "\<exists>t' T'. DeleteNode kf (Some a) (hole_top c) t = Some (Some a, t') \<and> tree_rep t' T'
    \<and> inorder T' = before_hole c @ inorder l @ inorder r @ after_hole c \<and> same_keys t' t"
  proof (cases "l = \<langle>\<rangle> \<or> r = \<langle>\<rangle>")
    case True
    obtain t' where "DeleteNode kf (Some a) (hole_top c) t = Some (Some a, t')" "same_keys t' t"
      "tree_rep t' (plug c (if l = \<langle>\<rangle> then r else l))"
      using DeleteNode_small [OF rep ord True] by blast
    moreover have "inorder (plug c (if l = \<langle>\<rangle> then r else l)) = before_hole c @ inorder l @ inorder r @ after_hole c"
      using True by (auto simp: inorder_plug)
    ultimately show ?thesis by blast
  next
    case False
    then obtain t' s r' where "DeleteNode kf (Some a) (hole_top c) t = Some (Some a, t')" "same_keys t' t"
      "tree_rep t' (plug c \<langle>l, s, r'\<rangle>)" "inorder r = s # inorder r'"
      using DeleteNode_two [OF rep ord] by blast
    moreover from this have "inorder (plug c \<langle>l, s, r'\<rangle>) = before_hole c @ inorder l @ inorder r @ after_hole c"
      by (simp add: inorder_plug)
    ultimately show ?thesis by blast
  qed
  then obtain t' T' where t': "DeleteNode kf (Some a) (hole_top c) t = Some (Some a, t')" "tree_rep t' T'" "same_keys t' t"
    and i: "inorder T' = before_hole c @ inorder l @ inorder r @ after_hole c" by blast
  have "inorder T' = remove1 a (inorder (plug c \<langle>l, a, r\<rangle>))"
    using ordered_distinct [OF ord] by (auto simp: i inorder_plug remove1_append)
  moreover have "ordered_by kf t T'"
    using ord by (auto simp: ordered_def i inorder_plug sorted_wrt_append)
  then have "ordered_by kf t' T'" using t'(3) by simp
  ultimately show ?thesis using t' by blast
qed

section \<open>Sets as finite maps\<close>

definition set_ok :: "('a \<Rightarrow> 'k::linorder) \<Rightarrow> 'a tset \<Rightarrow> nat tree \<Rightarrow> bool" where
  "set_ok kf s T \<longleftrightarrow> tree_rep (tree s) T \<and> ordered_by kf (tree s) T
     \<and> num_elements s = length (inorder T) \<and> node_addrs s = set_tree T"

definition holds_map :: "('a \<Rightarrow> 'k::linorder) \<Rightarrow> 'a tset \<Rightarrow> nat tree \<Rightarrow> ('k \<Rightarrow> 'a option) \<Rightarrow> bool" where
  "holds_map kf s T M \<longleftrightarrow>
     (\<forall>key x. M key = Some x \<longleftrightarrow> (\<exists>a \<in> set_tree T. node_key (nodes (tree s) a) = x \<and> kf x = key))"

definition set_rep :: "('a \<Rightarrow> 'k::linorder) \<Rightarrow> 'a tset \<Rightarrow> ('k \<Rightarrow> 'a option) \<Rightarrow> bool" where
  "set_rep kf s M \<longleftrightarrow> (\<exists>T. set_ok kf s T \<and> holds_map kf s T M)"

definition alloc_ok :: "alloc \<Rightarrow> bool" where
  \<comment> \<open>the allocator gives an address that is not in use\<close>
  "alloc_ok alloc \<longleftrightarrow> (\<forall>S. finite S \<longrightarrow> alloc S \<notin> S)"

lemma set_repE:
  assumes "set_rep kf s M"
  obtains T where "set_ok kf s T" "holds_map kf s T M"
  using assms unfolding set_rep_def by blast

lemma set_repI: "set_ok kf s T \<Longrightarrow> holds_map kf s T M \<Longrightarrow> set_rep kf s M"
  unfolding set_rep_def by blast

lemma set_okD: "set_ok kf s T \<Longrightarrow> tree_rep (tree s) T" "set_ok kf s T \<Longrightarrow> ordered_by kf (tree s) T"
  by (simp_all add: set_ok_def)

lemma holds_node: "holds_map kf s T M \<Longrightarrow> a \<in> set_tree T
    \<Longrightarrow> M (key_of kf (nodes (tree s)) a) = Some (node_key (nodes (tree s) a))"
  unfolding holds_map_def by blast

lemma holds_in:
  assumes "holds_map kf s T M" "M key \<noteq> None"
  shows "key \<in> key_of kf (nodes (tree s)) ` set_tree T"
proof -
  obtain x where "M key = Some x" using assms(2) by blast
  then obtain a where "a \<in> set_tree T" "node_key (nodes (tree s) a) = x" "kf x = key"
    using assms(1) unfolding holds_map_def by blast
  then show ?thesis by blast
qed

lemma holds_out:
  assumes "holds_map kf s T M" "M key = None"
  shows "key \<notin> key_of kf (nodes (tree s)) ` set_tree T"
  using assms holds_node by fastforce

lemma holds_dom: "holds_map kf s T M \<Longrightarrow> dom M = key_of kf (nodes (tree s)) ` set_tree T"
  using holds_in holds_out by blast

lemma set_rep_key: "set_rep kf s M \<Longrightarrow> M key = Some x \<Longrightarrow> kf x = key"
  unfolding set_rep_def holds_map_def by blast

lemma ordered_inj_on: "ordered k T \<Longrightarrow> inj_on k (set_tree T)"
proof -
  assume "ordered k T"
  then have "sorted_wrt (<) (map k (inorder T))" by (simp add: ordered_def sorted_wrt_map)
  then show "inj_on k (set_tree T)" by (simp add: strict_sorted_iff distinct_map)
qed

lemma ordered_inj: "ordered k T \<Longrightarrow> a \<in> set_tree T \<Longrightarrow> b \<in> set_tree T \<Longrightarrow> k a = k b \<Longrightarrow> a = b"
  using inj_onD [OF ordered_inj_on] .

lemma set_rep_empty: "set_rep kf (empty_set ns) (\<lambda>_. None)"
  by (rule set_repI [of _ _ "\<langle>\<rangle>"]) (simp_all add: set_ok_def holds_map_def empty_set_def ordered_def)

lemma set_count_law:
  assumes "set_rep kf s M"
  shows "set_count kf key s = Some (if M key = None then 0 else 1)"
proof -
  obtain T where T: "set_ok kf s T" "holds_map kf s T M" using assms by (rule set_repE)
  show ?thesis
  proof (cases "M key = None")
    case True
    have "key \<notin> key_of kf (nodes (tree s)) ` set_tree T" using holds_out [OF T(2)] True by blast
    then show ?thesis using SearchNode_absent(1) [of "tree s" T kf key] T(1) True by (auto simp: set_ok_def set_count_def)
  next
    case False
    have "key \<in> key_of kf (nodes (tree s)) ` set_tree T" using holds_in [OF T(2)] False by blast
    then show ?thesis using SearchNode_found [of "tree s" T kf key] T(1) False by (auto simp: set_ok_def set_count_def)
  qed
qed

lemma set_find_law:
  assumes "set_rep kf s M"
  shows "\<exists>itr. set_find kf key s = Some itr \<and> (itr = [] \<longleftrightarrow> M key = None) \<and> (\<forall>x. M key = Some x \<longrightarrow> iter_key s itr = x)"
proof -
  obtain T where T: "set_ok kf s T" "holds_map kf s T M"
    using assms by (rule set_repE)
  show ?thesis
  proof (cases "M key = None")
    case True
    have "key \<notin> key_of kf (nodes (tree s)) ` set_tree T" using holds_out [OF T(2)] True by blast
    then show ?thesis using SearchNode_absent(2) [of "tree s" T kf key] T(1) True by (auto simp: set_ok_def set_find_def)
  next
    case False
    have "key \<in> key_of kf (nodes (tree s)) ` set_tree T" using holds_in [OF T(2)] False by blast
    then obtain c l a r where a: "T = plug c \<langle>l, a, r\<rangle>" "key_of kf (nodes (tree s)) a = key"
      "FindPath kf key (tree s) = Some (a # ctx_path c)"
      using SearchNode_found [of "tree s" T kf key] T(1) by (auto simp: set_ok_def)
    then have "M key = Some (node_key (nodes (tree s) a))" using holds_node [OF T(2), of a] by (auto simp: set_tree_plug)
    then show ?thesis using a by (auto simp: set_find_def iter_key_def)
  qed
qed

lemma set_size_law:
  assumes "set_rep kf s M"
  shows "finite (dom M)" "num_elements s = card (dom M)"
proof -
  obtain T where T: "set_ok kf s T" "holds_map kf s T M" using assms by (rule set_repE)
  have o: "ordered_by kf (tree s) T" using T(1) by (simp add: set_ok_def)
  have "inj_on (key_of kf (nodes (tree s))) (set_tree T)" using ordered_inj_on [OF o] .
  then have "card (dom M) = card (set_tree T)" by (simp add: holds_dom [OF T(2)] card_image)
  also have "\<dots> = length (inorder T)" using distinct_card [OF ordered_distinct [OF o]] by simp
  finally show "num_elements s = card (dom M)" using T(1) by (simp add: set_ok_def)
  show "finite (dom M)" by (simp add: holds_dom [OF T(2)])
qed

lemma set_insert_law:
  assumes rep: "set_rep kf s M" and alloc: "alloc_ok alloc"
  shows "\<exists>s'. set_insert alloc kf x s = Some s' \<and> set_rep kf s' (if M (kf x) = None then M(kf x \<mapsto> x) else M)"
proof (cases "M (kf x) = None")
  case False
  then have "set_count kf (kf x) s = Some 1" using set_count_law [OF rep, of "kf x"] by (simp only: if_False)
  then show ?thesis using rep False by (simp only: set_insert_def) simp
next
  case True
  obtain T where T: "set_ok kf s T" "holds_map kf s T M"
    using rep by (rule set_repE)
  define n where "n = alloc (node_addrs s)"
  define t where "t = upd_node n (\<lambda>_. new_node x) (tree s)"
  have n: "n \<notin> set_tree T" using alloc T(1) by (auto simp: alloc_ok_def n_def set_ok_def)
  have same: "nodes t a = nodes (tree s) a" if "a \<in> set_tree T" for a using n that by (auto simp: t_def)
  have "tree_rep t T" using T(1) same trep_cong [of T "nodes t" "nodes (tree s)"] by (simp add: set_ok_def t_def)
  moreover have "ordered_by kf t T"
    using T(1) same ordered_cong [of T "key_of kf (nodes t)" "key_of kf (nodes (tree s))"] by (simp add: set_ok_def)
  moreover have "kf x \<notin> key_of kf (nodes (tree s)) ` set_tree T" using holds_out [OF T(2) True]  .
  then have "key_of kf (nodes t) n \<notin> key_of kf (nodes t) ` set_tree T" using same by (auto simp: t_def new_node_def)
  ultimately obtain t' T' where t': "InsertNode kf n t = Some (None, t')" "tree_rep t' T'" "set_tree T' = insert n (set_tree T)"
    "ordered_by kf t' T'" "same_keys t' t"
    using InsertNode_ok [of t T kf n x] n by (auto simp: t_def)
  define s' where "s' = \<lparr>tree = t', num_elements = num_elements s + 1, node_addrs = insert n (node_addrs s)\<rparr>"
  have len: "length (inorder T') = length (inorder T) + 1"
  proof -
    have "length (inorder T') = card (set_tree T')" using distinct_card [OF ordered_distinct [OF t'(4)]] by simp
    also have "\<dots> = card (set_tree T) + 1" using n by (simp add: t'(3))
    also have "card (set_tree T) = length (inorder T)"
      using distinct_card [OF ordered_distinct [of "key_of kf (nodes (tree s))" T]] T(1) by (simp add: set_ok_def)
    finally show ?thesis .
  qed
  have keys: "node_key (nodes t' a) = (if a = n then x else node_key (nodes (tree s) a))" for a
    using t'(5) by (simp add: t_def new_node_def)
  have "set_ok kf s' T'" using t' T(1) len by (simp add: set_ok_def s'_def)
  moreover have "holds_map kf s' T' (M(kf x \<mapsto> x))"
    unfolding holds_map_def
  proof (intro allI)
    fix key y
    have old: "M key = Some y \<longleftrightarrow> (\<exists>a \<in> set_tree T. node_key (nodes (tree s) a) = y \<and> kf y = key)"
      using T(2) unfolding holds_map_def by blast
    have "(\<exists>a \<in> set_tree T'. node_key (nodes (tree s') a) = y \<and> kf y = key)
        \<longleftrightarrow> (y = x \<and> kf x = key) \<or> (\<exists>a \<in> set_tree T. node_key (nodes (tree s) a) = y \<and> kf y = key)"
      using n by (auto simp: s'_def keys t'(3))
    then show "(M(kf x \<mapsto> x)) key = Some y \<longleftrightarrow> (\<exists>a \<in> set_tree T'. node_key (nodes (tree s') a) = y \<and> kf y = key)"
      using old True by auto
  qed
  ultimately have "set_rep kf s' (M(kf x \<mapsto> x))" by (rule set_repI)
  moreover have "set_insert alloc kf x s = Some s'"
    using t'(1) set_count_law [OF rep, of "kf x"] True by (simp add: set_insert_def n_def [symmetric] t_def [symmetric] s'_def Let_def)
  ultimately show ?thesis using True by simp
qed

text \<open>Deleting the node of a key that is there, by key or at an iterator.\<close>

lemma drop_node_law:
  assumes rep: "set_rep kf s M" and T: "set_ok kf s T" "T = plug c \<langle>l, a, r\<rangle>"
  shows "\<exists>t'. DeleteNode kf (Some a) (hole_top c) (tree s) = Some (Some a, t')
    \<and> set_rep kf (drop_node (Some a) t' s) (M(key_of kf (nodes (tree s)) a := None))"
proof -
  let ?k = "key_of kf (nodes (tree s))"
  have o: "ordered ?k T" using T(1) by (simp add: set_ok_def)
  obtain t' T' where t': "DeleteNode kf (Some a) (hole_top c) (tree s) = Some (Some a, t')" "tree_rep t' T'" "ordered_by kf t' T'"
    "inorder T' = remove1 a (inorder T)" "same_keys t' (tree s)"
    using DeleteNode_ok [of "tree s" c l a r kf] T by (auto simp: set_ok_def)
  have "set (remove1 a (inorder T)) = set_tree T - {a}" using ordered_distinct [OF o] by simp
  then have st: "set_tree T' = set_tree T - {a}" unfolding t'(4) [symmetric] by simp
  have a: "a \<in> set_tree T" by (simp add: T(2) set_tree_plug)
  have "length (inorder T') = length (inorder T) - 1" using a by (simp add: t'(4) length_remove1)
  then have ok: "set_ok kf (drop_node (Some a) t' s) T'" using T(1) t' st by (simp add: set_ok_def drop_node_def)
  have M: "holds_map kf s T M"
  proof -
    obtain T2 where T2: "set_ok kf s T2" "holds_map kf s T2 M" using rep by (rule set_repE)
    have "set_tree T2 = set_tree T" using T(1) T2(1) by (simp add: set_ok_def)
    then show ?thesis using T2(2) by (simp add: holds_map_def)
  qed
  have "holds_map kf (drop_node (Some a) t' s) T' (M(?k a := None))"
    unfolding holds_map_def
  proof (intro allI)
    fix key x
    have "M key = Some x \<longleftrightarrow> (\<exists>b \<in> set_tree T. node_key (nodes (tree s) b) = x \<and> kf x = key)"
      using M unfolding holds_map_def by blast
    moreover have "(\<exists>b \<in> set_tree T'. node_key (nodes (tree (drop_node (Some a) t' s)) b) = x \<and> kf x = key)
        \<longleftrightarrow> (\<exists>b \<in> set_tree T. node_key (nodes (tree s) b) = x \<and> kf x = key \<and> b \<noteq> a)"
      using t'(5) by (auto simp: drop_node_def st)
    moreover have "b \<noteq> a \<longleftrightarrow> ?k b \<noteq> ?k a" if "b \<in> set_tree T" for b using ordered_inj [OF o that a] by blast
    ultimately show "(M(?k a := None)) key = Some x
        \<longleftrightarrow> (\<exists>b \<in> set_tree T'. node_key (nodes (tree (drop_node (Some a) t' s)) b) = x \<and> kf x = key)"
      by auto
  qed
  then have "set_rep kf (drop_node (Some a) t' s) (M(?k a := None))" using ok by (rule set_repI [rotated])
  then show ?thesis using t'(1) by blast
qed

lemma DeleteNode_none: "DeleteNode kf None p t = Some (None, t)"
  by (subst DeleteNode.simps) simp

lemma set_rep_drop_none: "drop_node None (tree s) s = s"
  by (simp add: drop_node_def)

lemma set_erase_law:
  assumes rep: "set_rep kf s M"
  shows "\<exists>s'. set_erase kf key s = Some (if M key = None then 0 else 1, s') \<and> set_rep kf s' (M(key := None))"
proof -
  obtain T where T: "set_ok kf s T" "holds_map kf s T M" using rep by (rule set_repE)
  have r: "tree_rep (tree s) T" "ordered_by kf (tree s) T" using T(1) by (simp_all add: set_ok_def)
  show ?thesis
  proof (cases "M key = None")
    case True
    have "key \<notin> key_of kf (nodes (tree s)) ` set_tree T" using holds_out [OF T(2)] True by blast
    then obtain p where "SearchNode kf key (tree s) = Some (None, p)" using SearchNode_absent(1) [OF r] by blast
    then have "DeleteKey kf key (tree s) = Some (None, tree s)" by (simp add: DeleteKey_def DeleteNode_none)
    moreover have "M(key := None) = M" using True by auto
    ultimately show ?thesis using rep True by (simp add: set_erase_def set_rep_drop_none)
  next
    case False
    have "key \<in> key_of kf (nodes (tree s)) ` set_tree T" using holds_in [OF T(2)] False by blast
    then obtain c l a r' where a: "T = plug c \<langle>l, a, r'\<rangle>" "key_of kf (nodes (tree s)) a = key"
      "SearchNode kf key (tree s) = Some (Some a, hole_top c)" using SearchNode_found [OF r] by blast
    have "root (tree s) \<noteq> None" using rep_root [OF r(1)] a(1) by simp
    then show ?thesis using drop_node_law [OF rep T(1) a(1)] a(2,3) False
      by (auto simp: set_erase_def DeleteKey_def)
  qed
qed

lemma CurrentAndParent_path: "CurrentAndParent (a # ctx_path c) = (Some a, hole_top c)"
  by (cases c rule: before_hole.cases) (auto simp: CurrentAndParent_def)

lemma set_erase_at_law:
  assumes rep: "set_rep kf s M" and itr: "set_find kf key s = Some itr"
  shows "\<exists>s'. set_erase_at kf itr s = Some s' \<and> set_rep kf s' (M(key := None))"
proof -
  obtain T where T: "set_ok kf s T" "holds_map kf s T M" using rep by (rule set_repE)
  have r: "tree_rep (tree s) T" "ordered_by kf (tree s) T" using T(1) by (simp_all add: set_ok_def)
  show ?thesis
  proof (cases "M key = None")
    case True
    have "key \<notin> key_of kf (nodes (tree s)) ` set_tree T" using holds_out [OF T(2)] True by blast
    then have "itr = []" using SearchNode_absent(2) [OF r] itr by (simp add: set_find_def)
    moreover have "M(key := None) = M" using True by auto
    ultimately show ?thesis using rep by (simp add: set_erase_at_def CurrentAndParent_def DeleteNode_none set_rep_drop_none)
  next
    case False
    have "key \<in> key_of kf (nodes (tree s)) ` set_tree T" using holds_in [OF T(2)] False by blast
    then obtain c l a r' where a: "T = plug c \<langle>l, a, r'\<rangle>" "key_of kf (nodes (tree s)) a = key" "FindPath kf key (tree s) = Some (a # ctx_path c)"
      using SearchNode_found [OF r] by blast
    then have "itr = a # ctx_path c" using itr by (simp add: set_find_def)
    then show ?thesis using drop_node_law [OF rep T(1) a(1)] a(2) by (auto simp: set_erase_at_def CurrentAndParent_path)
  qed
qed

end
