(* ===== verification/FiniteMap.thy ===== *)
theory FiniteMap
  imports Prelude
begin

text \<open>
  The interface of a table: what the users of the kernel's maps rely on. \<open>rep\<close> says which finite map
  a table stands for; a lookup gives the entry, storing changes that entry only; the size of a
  \<open>sized_map\<close> is the number of its entries. A table numbered from 0 on gives its next number as its size.
\<close>

locale finite_map =
  fixes rep :: "'m \<Rightarrow> ('k \<Rightarrow> 'v option) \<Rightarrow> bool"
    and look :: "'k \<Rightarrow> 'm \<Rightarrow> 'v option option"
    and put :: "'k \<Rightarrow> 'v \<Rightarrow> 'm \<Rightarrow> 'm option"
  assumes look_law: "rep m N \<Longrightarrow> look key m = Some (N key)"
    and put_law: "rep m N \<Longrightarrow> \<exists>m'. put key v m = Some m' \<and> rep m' (N(key \<mapsto> v))"
begin

lemma put_look:
  assumes "rep m N" "put key v m = Some m'"
  shows "look key' m' = Some (if key' = key then Some v else N key')"
  using put_law [OF assms(1), of key v] assms(2) look_law by auto

end

locale sized_map = finite_map rep look put
  for rep :: "'m \<Rightarrow> ('k \<Rightarrow> 'v option) \<Rightarrow> bool" and look put +
  fixes entries :: "'m \<Rightarrow> nat"
  assumes entries_law: "rep m N \<Longrightarrow> finite (dom N) \<and> entries m = card (dom N)"
begin

lemma put_entries:
  assumes "rep m N" "put key v m = Some m'"
  shows "entries m' = (if N key = None then entries m + 1 else entries m)"
proof -
  have "rep m' (N(key \<mapsto> v))" using put_law [OF assms(1), of key v] assms(2) by auto
  then have "entries m' = card (insert key (dom N))" using entries_law by fastforce
  then show ?thesis using entries_law [OF assms(1)] by (auto simp: domIff insert_absorb)
qed

end

locale numbered_table = sized_map rep look put entries
  for rep :: "'m \<Rightarrow> (int \<Rightarrow> 'v option) \<Rightarrow> bool" and look put entries
begin

definition numbered :: "'m \<Rightarrow> 'v list \<Rightarrow> bool" where
  "numbered m vs \<longleftrightarrow> rep m (\<lambda>i. if 0 \<le> i \<and> i < int (length vs) then Some (vs ! nat i) else None)"

lemma numbered_look:
  "numbered m vs \<Longrightarrow> look i m = Some (if 0 \<le> i \<and> i < int (length vs) then Some (vs ! nat i) else None)"
  unfolding numbered_def by (rule look_law)

lemma numbered_entries:
  assumes "numbered m vs" shows "entries m = length vs"
proof -
  let ?N = "\<lambda>i. if 0 \<le> i \<and> i < int (length vs) then Some (vs ! nat i) else None"
  have "dom ?N = {0 ..< int (length vs)}" by (auto split: if_splits)
  then show ?thesis using entries_law [OF assms [unfolded numbered_def]] by simp
qed

text \<open>Storing at the size appends.\<close>

lemma numbered_append:
  assumes "numbered m vs"
  shows "\<exists>m'. put (int (entries m)) v m = Some m' \<and> numbered m' (vs @ [v])"
proof -
  let ?N = "\<lambda>vs i. if 0 \<le> i \<and> i < int (length vs) then Some (vs ! nat i) else None"
  have "(?N vs)(int (length vs) \<mapsto> v) = ?N (vs @ [v])" by (auto simp: fun_eq_iff nth_append nat_less_iff)
  then show ?thesis using put_law [OF assms [unfolded numbered_def], of "int (length vs)" v]
    by (simp add: numbered_entries [OF assms] numbered_def)
qed

lemma numbered_put:
  assumes "numbered m vs" "0 \<le> i" "i < int (length vs)"
  shows "\<exists>m'. put i v m = Some m' \<and> numbered m' (vs[nat i := v])"
proof -
  let ?N = "\<lambda>vs i. if 0 \<le> i \<and> i < int (length vs) then Some (vs ! nat i) else None"
  have "(?N vs)(i \<mapsto> v) = ?N (vs[nat i := v])" using assms(2,3) by (auto simp: fun_eq_iff nth_list_update nat_eq_iff)
  then show ?thesis using put_law [OF assms(1) [unfolded numbered_def], of i v] by (simp add: numbered_def)
qed

end

end
