(* ===== verification/TreeProps.thy ===== *)
theory TreeProps
  imports TreeLaws FiniteMap
begin

text \<open>
  Properties of the kernel's sets and maps: any sequence of operations on a set gives the answers of
  a mathematical set, what an iteration visits, and maps behind the interface \<open>finite_map\<close>.
\<close>

section \<open>Sequences of operations on a set\<close>

datatype 'a set_op = Insert 'a | Erase 'a | EraseFound 'a | Contains 'a | Size

definition set_step :: "alloc \<Rightarrow> 'a::linorder tset \<Rightarrow> 'a set_op \<Rightarrow> (nat \<times> 'a tset) option" where
  "set_step alloc s op =
     (case op of
        Insert x \<Rightarrow> map_option (Pair 0) (set_insert alloc (\<lambda>x. x) x s)
      | Erase x \<Rightarrow> set_erase (\<lambda>x. x) x s
      | EraseFound x \<Rightarrow> do { itr \<leftarrow> set_find (\<lambda>x. x) x s; map_option (Pair 0) (set_erase_at (\<lambda>x. x) itr s) }
      | Contains x \<Rightarrow> map_option (\<lambda>n. (n, s)) (set_count (\<lambda>x. x) x s)
      | Size \<Rightarrow> Some (num_elements s, s))"

fun set_run :: "alloc \<Rightarrow> 'a::linorder tset \<Rightarrow> 'a set_op list \<Rightarrow> (nat list \<times> 'a tset) option" where
  "set_run alloc s [] = Some ([], s)"
| "set_run alloc s (op # ops) =
     do { (n, s1) \<leftarrow> set_step alloc s op; (ns, s2) \<leftarrow> set_run alloc s1 ops; Some (n # ns, s2) }"

fun spec_op :: "'a set \<Rightarrow> 'a set_op \<Rightarrow> nat \<times> 'a set" where
  "spec_op S (Insert x) = (0, insert x S)"
| "spec_op S (Erase x) = (if x \<in> S then 1 else 0, S - {x})"
| "spec_op S (EraseFound x) = (0, S - {x})"
| "spec_op S (Contains x) = (if x \<in> S then 1 else 0, S)"
| "spec_op S Size = (card S, S)"

fun spec_run :: "'a set \<Rightarrow> 'a set_op list \<Rightarrow> nat list \<times> 'a set" where
  "spec_run S [] = ([], S)"
| "spec_run S (op # ops) = (case spec_op S op of (n, S1) \<Rightarrow> case spec_run S1 ops of (ns, S2) \<Rightarrow> (n # ns, S2))"

definition elems :: "'a::linorder tset \<Rightarrow> 'a set \<Rightarrow> bool" where
  "elems s S \<longleftrightarrow> set_rep (\<lambda>x. x) s (\<lambda>x. if x \<in> S then Some x else None)"

lemma elems_update:
  "(\<lambda>x. if x \<in> S then Some x else None)(y := None) = (\<lambda>x. if x \<in> S - {y} then Some x else None)"
  "(\<lambda>x. if x \<in> S then Some x else None)(y \<mapsto> y) = (\<lambda>x. if x \<in> insert y S then Some x else None)"
  by auto

lemma set_step_ok:
  assumes "elems s S" "alloc_ok alloc"
  shows "\<exists>s'. set_step alloc s op = Some (fst (spec_op S op), s') \<and> elems s' (snd (spec_op S op))"
proof -
  let ?M = "\<lambda>x. if x \<in> S then Some x else None"
  have rep: "set_rep (\<lambda>x. x) s ?M" using assms(1) by (simp add: elems_def)
  show ?thesis
  proof (cases op)
    case (Insert x)
    have "(if ?M x = None then ?M(x \<mapsto> x) else ?M) = (\<lambda>y. if y \<in> insert x S then Some y else None)" by auto
    then show ?thesis using set_insert_law [OF rep assms(2), of x] Insert by (auto simp: set_step_def elems_def)
  next
    case (Erase x)
    have "(if ?M x = None then 0 else 1) = fst (spec_op S op)" using Erase by simp
    then show ?thesis using set_erase_law [OF rep, of x] Erase by (simp add: set_step_def elems_def elems_update)
  next
    case (EraseFound x)
    obtain itr where "set_find (\<lambda>x. x) x s = Some itr" using set_find_law [OF rep] by blast
    then show ?thesis using set_erase_at_law [OF rep, of x itr] EraseFound by (auto simp: set_step_def elems_def elems_update)
  next
    case (Contains x)
    then show ?thesis using set_count_law [OF rep, of x] assms(1) by (simp add: set_step_def)
  next
    case Size
    have "dom ?M = S" by (auto split: if_splits)
    then show ?thesis using set_size_law(2) [OF rep] assms(1) Size by (simp add: set_step_def)
  qed
qed

lemma set_run_ok:
  assumes "elems s S" "alloc_ok alloc"
  shows "\<exists>s'. set_run alloc s ops = Some (fst (spec_run S ops), s') \<and> elems s' (snd (spec_run S ops))"
  using assms(1)
proof (induction ops arbitrary: s S)
  case (Cons op ops)
  obtain s1 where s1: "set_step alloc s op = Some (fst (spec_op S op), s1)" "elems s1 (snd (spec_op S op))"
    using set_step_ok [OF Cons.prems assms(2)] by blast
  then show ?case using Cons.IH [OF s1(2)] by (auto split: prod.splits)
qed simp

lemma elems_empty: "elems (empty_set ns) {}"
  by (simp add: elems_def set_rep_empty)

definition next_address :: alloc where
  "next_address S = Suc (Max (insert 0 S))"

lemma next_address_ok: "alloc_ok next_address"
proof -
  have "x \<le> Max (insert 0 S)" if "finite S" "x \<in> S" for x S using that by simp
  then show ?thesis unfolding alloc_ok_def next_address_def by (metis not_less_eq_eq order_refl)
qed

text \<open>C8: Over an allocator that gives unused addresses, every sequence of insertions, erasures by
  key and at a found iterator, membership tests and size queries on a kernel set ends, fails no
  assertion, and answers as a mathematical set does.\<close>

theorem tree_set_run:
  assumes "\<forall>S. finite S \<longrightarrow> alloc S \<notin> S"
  shows "map_option fst (set_run alloc (empty_set ns) ops) = Some (fst (spec_run {} ops))"
proof -
  have "alloc_ok alloc" using assms by (simp add: alloc_ok_def)
  then show ?thesis using set_run_ok [OF elems_empty, of alloc ns ops] by auto
qed

theorem tree_set_run_witness:
  "map_option fst (set_run next_address (empty_set (\<lambda>_. new_node 0)) [Insert (5::int), Insert 3, Insert 5, Erase 5, Contains 3, Size])
     = Some [0, 0, 0, 1, 1, 1]"
proof -
  have "\<forall>S. finite S \<longrightarrow> next_address S \<notin> S" using next_address_ok by (simp add: alloc_ok_def)
  from tree_set_run [OF this, of "\<lambda>_. new_node (0::int)" "[Insert 5, Insert 3, Insert 5, Erase 5, Contains 3, Size]"]
  show ?thesis by simp
qed

section \<open>Iteration\<close>

lemma push_left_ok:
  assumes "trep ns p r"
  shows "\<exists>c. push_left ns p stack = Some (ctx_path c @ stack) \<and> r = plug c \<langle>\<rangle> \<and> before_hole c = []
     \<and> (r \<noteq> \<langle>\<rangle> \<longrightarrow> (\<exists>s rs c'. c = (True, s, rs) # c'))"
  using assms
proof (induction r arbitrary: p stack)
  case Leaf
  then show ?case by (intro exI [of _ "[]"]) (subst push_left.simps, simp)
next
  case (Node l a r)
  obtain c where c: "push_left ns (node_left (ns a)) (a # stack) = Some (ctx_path c @ a # stack)" "l = plug c \<langle>\<rangle>"
    "before_hole c = []" "l \<noteq> \<langle>\<rangle> \<longrightarrow> (\<exists>s rs c'. c = (True, s, rs) # c')"
    using Node.IH(1) Node.prems by fastforce
  have "push_left ns p stack = Some (ctx_path (c @ [(True, a, r)]) @ stack)"
    using Node.prems c(1) by (subst push_left.simps) (simp add: ctx_path_def)
  moreover have "\<exists>s rs c'. c @ [(True, a, r)] = (True, s, rs) # c'" using c by (cases c) auto
  ultimately show ?case using c by (intro exI [of _ "c @ [(True, a, r)]"]) (simp add: plug_append hole_append)
qed

lemma go_up_ends:
  assumes "\<And>b. b \<in> set stack \<Longrightarrow> node_left (ns b) \<noteq> Some a"
  shows "go_up ns a stack = []"
  using assms by (induction stack) auto

lemma crep_left:
  "crep ns p c q \<Longrightarrow> distinct (before_hole c @ inorder s @ after_hole c) \<Longrightarrow> a \<in> set_tree s \<Longrightarrow> q \<noteq> Some a
    \<Longrightarrow> b \<in> set (ctx_path c) \<Longrightarrow> node_left (ns b) \<noteq> Some a"
proof (induction c arbitrary: q s rule: before_hole.induct)
  case (2 lf p' u c)
  let ?s = "if lf then \<langle>s, p', u\<rangle> else \<langle>u, p', s\<rangle>"
  have d: "distinct (before_hole c @ inorder ?s @ after_hole c)" "a \<in> set_tree ?s" "Some p' \<noteq> Some a"
    using "2.prems"(2,3) by (auto split: if_splits)
  show ?case
  proof (cases "b = p'")
    case True
    have "a \<notin> set_tree u" using "2.prems"(2,3) by (auto split: if_splits)
    then have "addr u \<noteq> Some a" by (cases u) auto
    then show ?thesis using "2.prems"(1,4) True by (auto split: if_splits dest!: trep_addr)
  next
    case False
    then show ?thesis using "2.IH" [OF _ d] "2.prems"(1,5) by (auto split: if_splits)
  qed
qed simp

text \<open>The node an iterator is at, and what comes after it.\<close>

lemma iterate_ok:
  assumes "trep (nodes (tree s)) (root (tree s)) (plug c \<langle>l, a, r\<rangle>)" "distinct (inorder (plug c \<langle>l, a, r\<rangle>))"
  shows "\<exists>xs ys. iterate s (a # ctx_path c) = Some (map (\<lambda>b. node_key (nodes (tree s) b)) xs)
    \<and> xs \<noteq> [] \<and> xs @ ys = a # inorder r @ after_hole c"
  using assms
proof (induction "length (inorder r @ after_hole c)" arbitrary: c l a r rule: less_induct)
  case less
  let ?ns = "nodes (tree s)" and ?key = "\<lambda>b. node_key (nodes (tree s) b)"
  have node: "node_left (?ns a) = addr l" "node_right (?ns a) = addr r" "trep ?ns (addr r) r"
    "crep ?ns (root (tree s)) c (Some a)"
    using less.prems(1) trep_addr by (fastforce simp: trep_plug_addr)+
  have iter: "iterate s (a # ctx_path c) = (case iter_next ?ns (a # ctx_path c) of None \<Rightarrow> None
      | Some next \<Rightarrow> map_option (Cons (?key a)) (iterate s next))"
    by (subst iterate.simps) (auto simp: iter_key_def split: option.splits Option.bind_splits)
  have step: ?case if nx: "iter_next ?ns (a # ctx_path c) = Some (b # ctx_path c')"
    and pl: "plug c' \<langle>l', b, r'\<rangle> = plug c \<langle>l, a, r\<rangle>" and eq: "b # inorder r' @ after_hole c' = inorder r @ after_hole c" for b c' l' r'
  proof -
    have "length (inorder r' @ after_hole c') < length (inorder r @ after_hole c)" unfolding eq [symmetric] by simp
    then obtain xs ys where "iterate s (b # ctx_path c') = Some (map ?key xs)" "xs \<noteq> []" "xs @ ys = b # inorder r' @ after_hole c'"
      using less.hyps [of r' c' l' b] less.prems pl by auto
    then show ?thesis using iter nx eq by (intro exI [of _ "a # xs"] exI [of _ ys]) simp
  qed
  consider "r \<noteq> \<langle>\<rangle>" | p u c' where "r = \<langle>\<rangle>" "c = (True, p, u) # c'"
    | "r = \<langle>\<rangle>" "c = [] \<or> (\<exists>p u c'. c = (False, p, u) # c')"
    by (cases c rule: before_hole.cases) auto
  then show ?case
  proof cases
    case 1
    obtain c2 b rs c3 where c2: "push_left ?ns (addr r) (a # ctx_path c) = Some (ctx_path c2 @ a # ctx_path c)"
      "r = plug c2 \<langle>\<rangle>" "before_hole c2 = []" "c2 = (True, b, rs) # c3"
      using push_left_ok [OF node(3), of "a # ctx_path c"] 1 by auto
    show ?thesis
    proof (rule step [of b "c3 @ (False, a, l) # c" "\<langle>\<rangle>" rs])
      show "iter_next ?ns (a # ctx_path c) = Some (b # ctx_path (c3 @ (False, a, l) # c))"
        using c2 node(2) 1 by (simp add: iter_next_def ctx_path_def)
    qed (use c2 in \<open>simp_all add: plug_append hole_append inorder_plug\<close>)
  next
    case 2
    show ?thesis
    proof (rule step [of p c' "\<langle>l, a, r\<rangle>" u])
      show "iter_next ?ns (a # ctx_path c) = Some (p # ctx_path c')" using node 2 by (simp add: iter_next_def)
    qed (use 2 in simp_all)
  next
    case 3
    have "node_left (?ns b) \<noteq> Some a" if "b \<in> set (ctx_path c)" for b
    proof (cases c rule: before_hole.cases)
      case (2 lf p u c')
      then have c: "c = (False, p, u) # c'" using 3(2) by auto
      have d: "distinct (before_hole c' @ inorder \<langle>u, p, \<langle>l, a, r\<rangle>\<rangle> @ after_hole c')" "p \<noteq> a" "a \<notin> set_tree u"
        using less.prems(2) by (auto simp: c inorder_plug)
      show ?thesis
      proof (cases "b = p")
        case True
        have "node_left (?ns p) = addr u" using node(4) trep_addr by (fastforce simp: c)
        moreover have "addr u \<noteq> Some a" using d(3) by (cases u) auto
        ultimately show ?thesis using True by simp
      next
        case False
        then show ?thesis using crep_left [of ?ns "root (tree s)" c' "Some p" _ a b, OF _ d(1)] node(4) d(2) that
          by (auto simp: c)
      qed
    qed (use that in simp)
    then have "go_up ?ns a (ctx_path c) = []" by (rule go_up_ends)
    then have "iter_next ?ns (a # ctx_path c) = Some []" using node(2) 3 by (simp add: iter_next_def)
    moreover have "iterate s [] = Some []" by (subst iterate.simps) simp
    ultimately show ?thesis using iter by (intro exI [of _ "[a]"] exI [of _ "inorder r @ after_hole c"]) simp
  qed
qed

lemma set_begin_ok:
  assumes "set_ok kf s T" "T \<noteq> \<langle>\<rangle>"
  shows "\<exists>a l r c. T = plug c \<langle>l, a, r\<rangle> \<and> before_hole c = [] \<and> l = \<langle>\<rangle> \<and> set_begin s = Some (a # ctx_path c)"
proof -
  obtain c a rs c' where c: "push_left (nodes (tree s)) (root (tree s)) [] = Some (ctx_path c @ [])" "T = plug c \<langle>\<rangle>"
    "before_hole c = []" "c = (True, a, rs) # c'"
    using push_left_ok [OF set_okD(1) [OF assms(1)], of "[]"] assms(2) by auto
  then show ?thesis
    by (intro exI [of _ a] exI [of _ "\<langle>\<rangle>"] exI [of _ rs] exI [of _ c']) (simp add: set_begin_def)
qed

lemma iterate_set:
  assumes "set_rep kf s M"
  shows "\<exists>start xs. set_begin s = Some start \<and> iterate s start = Some xs \<and> sorted_wrt (\<lambda>x y. kf x < kf y) xs
    \<and> set xs \<subseteq> ran M \<and> (ran M \<noteq> {} \<longrightarrow> xs \<noteq> []) \<and> (\<forall>x \<in> ran M - set xs. \<forall>y \<in> set xs. kf y < kf x)"
proof -
  obtain T where T: "set_ok kf s T" "holds_map kf s T M" using assms by (rule set_repE)
  let ?key = "\<lambda>b. node_key (nodes (tree s) b)"
  have ran: "ran M = ?key ` set_tree T" using T(2) unfolding holds_map_def ran_def by auto
  have ord: "sorted_wrt (\<lambda>x y. kf x < kf y) (map ?key (inorder T))"
    using set_okD(2) [OF T(1)] by (simp add: ordered_def sorted_wrt_map)
  show ?thesis
  proof (cases "T = \<langle>\<rangle>")
    case True
    then have "root (tree s) = None" using rep_root [OF set_okD(1) [OF T(1)]] by simp
    then have "set_begin s = Some []" unfolding set_begin_def by (subst push_left.simps) simp
    moreover have "iterate s [] = Some []" by (subst iterate.simps) simp
    ultimately show ?thesis using ran True by auto
  next
    case False
    obtain a l r c where a: "T = plug c \<langle>l, a, r\<rangle>" "before_hole c = []" "l = \<langle>\<rangle>" "set_begin s = Some (a # ctx_path c)"
      using set_begin_ok [OF T(1) False] by blast
    obtain xs ys where xs: "iterate s (a # ctx_path c) = Some (map ?key xs)" "xs \<noteq> []" "xs @ ys = a # inorder r @ after_hole c"
      using iterate_ok [of s c l a r] set_okD [OF T(1)] ordered_distinct a(1) by auto
    then have ino: "inorder T = xs @ ys" using a by (simp add: inorder_plug)
    have st: "set_tree T = set xs \<union> set ys" unfolding set_inorder [symmetric] ino by simp
    show ?thesis
    proof (intro exI conjI ballI impI)
      show "set_begin s = Some (a # ctx_path c)" by (rule a(4))
      show "iterate s (a # ctx_path c) = Some (map ?key xs)" by (rule xs(1))
      show "sorted_wrt (\<lambda>x y. kf x < kf y) (map ?key xs)" using ord by (simp add: ino sorted_wrt_append)
      show "set (map ?key xs) \<subseteq> ran M" by (auto simp: ran st)
      show "map ?key xs \<noteq> []" using xs(2) by simp
    next
      fix x y assume "x \<in> ran M - set (map ?key xs)" "y \<in> set (map ?key xs)"
      then show "kf y < kf x" using ord by (auto simp: ran st ino sorted_wrt_append)
    qed
  qed
qed

text \<open>An iteration over a kernel set ends and visits elements of the set in ascending order,
  each once, from the smallest on without a gap; what it may leave out are elements larger than
  all that it visits.\<close>

theorem set_iteration:
  assumes "\<forall>S. finite S \<longrightarrow> alloc S \<notin> S" "set_run alloc (empty_set ns) ops = Some (outs, s)" "S = snd (spec_run {} ops)"
  shows "\<exists>start xs. set_begin s = Some start \<and> iterate s start = Some xs \<and> sorted_wrt (<) xs \<and> set xs \<subseteq> S
    \<and> (S \<noteq> {} \<longrightarrow> xs \<noteq> []) \<and> (\<forall>x \<in> S - set xs. \<forall>y \<in> set xs. y < x)"
proof -
  have "alloc_ok alloc" using assms(1) by (simp add: alloc_ok_def)
  then have "set_rep (\<lambda>x. x) s (\<lambda>x. if x \<in> S then Some x else None)"
    using set_run_ok [OF elems_empty, of alloc ns ops] assms(2,3) by (auto simp: elems_def)
  moreover have "ran (\<lambda>x. if x \<in> S then Some x else None) = S" by (auto simp: ran_def split: if_splits)
  ultimately show ?thesis using iterate_set [of "\<lambda>x. x" s "\<lambda>x. if x \<in> S then Some x else None"] by simp
qed

theorem set_iteration_witness:
  "\<exists>outs s start xs. set_run next_address (empty_set (\<lambda>_. new_node 0)) [Insert (5::int), Insert 3] = Some (outs, s)
     \<and> set_begin s = Some start \<and> iterate s start = Some xs \<and> sorted_wrt (<) xs \<and> xs \<noteq> []"
proof -
  obtain s where s: "set_run next_address (empty_set (\<lambda>_. new_node 0)) [Insert (5::int), Insert 3] = Some ([0, 0], s)"
    using set_run_ok [OF elems_empty next_address_ok, of "\<lambda>_. new_node (0::int)" "[Insert 5, Insert 3]"] by auto
  have "\<forall>S. finite S \<longrightarrow> next_address S \<notin> S" using next_address_ok by (simp add: alloc_ok_def)
  from set_iteration [OF this s refl] show ?thesis using s by auto
qed

text \<open>It does leave some out: going up from a right child of a left child, \<open>operator++\<close> looks for a
  parent whose left child is the node it started from.\<close>

definition left_zigzag :: "int tset" where
  "left_zigzag = \<lparr>tree = \<lparr>nodes = (\<lambda>_. new_node 0)(1 := \<lparr>node_key = 10, node_left = Some 2, node_right = None\<rparr>,
       2 := \<lparr>node_key = 5, node_left = None, node_right = Some 3\<rparr>, 3 := new_node 7), root = Some 1\<rparr>,
     num_elements = 3, node_addrs = {1, 2, 3}\<rparr>"

lemma iteration_stops_early:
  "elems left_zigzag {5, 7, 10}" "set_begin left_zigzag = Some [2, 1]" "iterate left_zigzag [2, 1] = Some [5, 7]"
proof -
  have "set_ok (\<lambda>x. x) left_zigzag \<langle>\<langle>\<langle>\<rangle>, 2, \<langle>\<langle>\<rangle>, 3, \<langle>\<rangle>\<rangle>\<rangle>, 1, \<langle>\<rangle>\<rangle>"
    by (simp add: set_ok_def left_zigzag_def ordered_def new_node_def insert_commute)
  moreover have "holds_map (\<lambda>x. x) left_zigzag \<langle>\<langle>\<langle>\<rangle>, 2, \<langle>\<langle>\<rangle>, 3, \<langle>\<rangle>\<rangle>\<rangle>, 1, \<langle>\<rangle>\<rangle> (\<lambda>x. if x \<in> {5, 7, 10} then Some x else None)"
    by (auto simp: holds_map_def left_zigzag_def new_node_def)
  ultimately show "elems left_zigzag {5, 7, 10}" unfolding elems_def by (rule set_repI)
  show "set_begin left_zigzag = Some [2, 1]"
    unfolding set_begin_def left_zigzag_def by ((subst push_left.simps, simp)+)
  have push: "push_left ns None stack = Some stack" for ns :: "nat \<Rightarrow> int node" and stack by (subst push_left.simps) simp
  have "push_left (nodes (tree left_zigzag)) (Some 3) [2, 1] = Some [3, 2, 1]"
    by (subst push_left.simps) (simp add: left_zigzag_def new_node_def push)
  then have "iter_next (nodes (tree left_zigzag)) [2, 1] = Some [3, 2, 1]"
    by (simp add: iter_next_def left_zigzag_def)
  moreover have "iter_next (nodes (tree left_zigzag)) [3, 2, 1] = Some []"
    by (simp add: iter_next_def left_zigzag_def new_node_def)
  ultimately show "iterate left_zigzag [2, 1] = Some [5, 7]"
    by (subst iterate.simps, simp, subst iterate.simps, simp, subst iterate.simps) (simp add: iter_key_def left_zigzag_def new_node_def)
qed

section \<open>Maps\<close>

definition map_rep :: "('k::linorder, 'v) tmap \<Rightarrow> ('k \<Rightarrow> 'v option) \<Rightarrow> bool" where
  "map_rep m N \<longleftrightarrow> set_rep fst m (\<lambda>k. map_option (Pair k) (N k))"

lemma map_rep_update:
  "(\<lambda>k. map_option (Pair k) (N k))(key \<mapsto> (key, v)) = (\<lambda>k. map_option (Pair k) ((N(key \<mapsto> v)) k))"
  "(\<lambda>k. map_option (Pair k) (N k))(key := None) = (\<lambda>k. map_option (Pair k) ((N(key := None)) k))"
  by auto

lemma map_find_law:
  assumes "map_rep m N"
  shows "\<exists>itr. map_find key m = Some itr \<and> (itr = [] \<longleftrightarrow> N key = None) \<and> (\<forall>v. N key = Some v \<longrightarrow> iter_key m itr = (key, v))"
  using set_find_law [OF assms [unfolded map_rep_def], of key] by (auto simp: map_find_def)

lemma map_at_law: "map_rep m N \<Longrightarrow> map_at key m = N key"
  using map_find_law [of m N key] by (cases "N key") (auto simp: map_at_def)

lemma set_value_law:
  assumes "map_rep m N" "N key \<noteq> None"
  shows "\<exists>m'. set_value key v m = Some m' \<and> map_rep m' (N(key \<mapsto> v))"
proof -
  obtain T where T: "set_ok fst m T" "holds_map fst m T (\<lambda>k. map_option (Pair k) (N k))"
    using assms(1) unfolding map_rep_def by (rule set_repE)
  have "key \<in> key_of fst (nodes (tree m)) ` set_tree T" using holds_in [OF T(2), of key] assms(2) by auto
  then obtain c l a r where a: "T = plug c \<langle>l, a, r\<rangle>" "fst (node_key (nodes (tree m) a)) = key"
    "FindPath fst key (tree m) = Some (a # ctx_path c)"
    using SearchNode_found [OF set_okD [OF T(1)]] by blast
  define t where "t = upd_node a (node_key_update (\<lambda>kv. (fst kv, v))) (tree m)"
  have keys: "node_key (nodes t b) = (if b = a then (key, v) else node_key (nodes (tree m) b))" for b
    using a(2) by (simp add: t_def)
  have "trep (nodes t) p u = trep (nodes (tree m)) p u" for p u
    by (induction u arbitrary: p) (auto simp: t_def)
  moreover have "key_of fst (nodes t) = key_of fst (nodes (tree m))" using a(2) by (auto simp: keys)
  ultimately have ok: "set_ok fst (m\<lparr>tree := t\<rparr>) T" using T(1) by (simp add: set_ok_def t_def)
  have in_T: "a \<in> set_tree T" by (simp add: a(1) set_tree_plug)
  have uniq: "b = a" if "b \<in> set_tree T" "fst (node_key (nodes (tree m) b)) = key" for b
    using ordered_inj [OF set_okD(2) [OF T(1)] that(1) in_T] that(2) a(2) by simp
  have "holds_map fst (m\<lparr>tree := t\<rparr>) T (\<lambda>k. map_option (Pair k) ((N(key \<mapsto> v)) k))"
    unfolding holds_map_def
  proof (intro allI)
    fix k x
    have old: "map_option (Pair k) (N k) = Some x \<longleftrightarrow> (\<exists>b \<in> set_tree T. node_key (nodes (tree m) b) = x \<and> fst x = k)"
      using T(2) unfolding holds_map_def by blast
    show "map_option (Pair k) ((N(key \<mapsto> v)) k) = Some x
        \<longleftrightarrow> (\<exists>b \<in> set_tree T. node_key (nodes (tree (m\<lparr>tree := t\<rparr>)) b) = x \<and> fst x = k)"
    proof (cases "k = key")
      case True
      then show ?thesis using in_T uniq by (auto simp: keys)
    next
      case False
      then show ?thesis using old a(2) by (auto simp: keys)
    qed
  qed
  then have "map_rep (m\<lparr>tree := t\<rparr>) (N(key \<mapsto> v))" unfolding map_rep_def by (rule set_repI [OF ok])
  then show ?thesis using a(3) by (auto simp: set_value_def map_find_def set_find_def t_def)
qed

lemma map_insert_law:
  assumes "map_rep m N" "alloc_ok alloc" "N key = None"
  shows "\<exists>m'. map_insert alloc key v m = Some m' \<and> map_rep m' (N(key \<mapsto> v))"
  using set_insert_law [OF assms(1) [unfolded map_rep_def] assms(2), of "(key, v)"] assms(3)
  by (simp add: map_insert_def map_rep_def map_rep_update)

lemma map_put_law:
  assumes "map_rep m N" "alloc_ok alloc"
  shows "\<exists>m'. map_put alloc def key v m = Some m' \<and> map_rep m' (N(key \<mapsto> v))"
proof (cases "N key = None")
  case True
  obtain m1 where m1: "map_insert alloc key def m = Some m1" "map_rep m1 (N(key \<mapsto> def))"
    using map_insert_law [OF assms True] by blast
  then show ?thesis using map_find_law [OF assms(1), of key] True set_value_law [OF m1(2), of key v]
    by (auto simp: map_put_def map_ref_def)
next
  case False
  then show ?thesis using map_find_law [OF assms(1), of key] set_value_law [OF assms(1) False, of v]
    by (auto simp: map_put_def map_ref_def)
qed

lemma map_erase_law:
  assumes "map_rep m N"
  shows "\<exists>m'. map_erase key m = Some (if N key = None then 0 else 1, m') \<and> map_rep m' (N(key := None))"
  using set_erase_law [OF assms [unfolded map_rep_def], of key]
  by (cases "N key") (simp_all add: map_erase_def map_rep_def map_rep_update)

lemma map_size_law:
  assumes "map_rep m N"
  shows "finite (dom N)" "num_elements m = card (dom N)"
proof -
  have "dom (\<lambda>k. map_option (Pair k) (N k)) = dom N" by (auto simp: dom_def)
  then show "finite (dom N)" "num_elements m = card (dom N)"
    using set_size_law [OF assms [unfolded map_rep_def]] by simp_all
qed

lemma map_rep_empty: "map_rep (empty_set ns) (\<lambda>_. None)"
  using set_rep_empty [of fst ns] by (simp add: map_rep_def)

lemma map_lookup_law: "map_rep m N \<Longrightarrow> map_lookup key m = Some (N key)"
  using map_find_law [of m N key] by (cases "N key") (auto simp: map_lookup_def)

interpretation tree_map: sized_map "\<lambda>m N. alloc_ok alloc \<and> map_rep m N" map_lookup "map_put alloc def" num_elements
  by unfold_locales (auto simp: map_lookup_law map_put_law map_size_law)

end
