(* ===== verification/FilesProps.thy ===== *)
theory FilesProps
  imports Files TreeProps
begin

text \<open>
  Properties of the descriptor table, which is a client of the interface \<open>numbered_table\<close>, and of
  pipes shared by readers and writers.
\<close>

section \<open>Descriptor numbers\<close>

interpretation fd_numbers: numbered_table "\<lambda>m N. alloc_ok alloc \<and> map_rep m N" map_lookup "map_put alloc (None :: nat option)" num_elements
  by unfold_locales

datatype fd_op = Add "nat option" | Dup int int | Get int

definition fd_step :: "alloc \<Rightarrow> fd_table \<Rightarrow> fd_op \<Rightarrow> ((int \<times> nat option) \<times> fd_table) option" where
  \<comment> \<open>the number that is returned and the descriptor\<close>
  "fd_step alloc t op =
     (case op of
        Add desc \<Rightarrow> do { (fd, t1) \<leftarrow> AddDescriptor alloc desc t; Some ((fd, None), t1) }
      | Dup oldfd newfd \<Rightarrow> do {
          desc \<leftarrow> GetDescriptor oldfd t;
          (prev, t1) \<leftarrow> SetDescriptor alloc newfd desc t;
          Some ((newfd, prev), t1)
        }
      | Get fd \<Rightarrow> do { desc \<leftarrow> GetDescriptor fd t; Some ((fd, desc), t) })"

fun fd_run :: "alloc \<Rightarrow> fd_table \<Rightarrow> fd_op list \<Rightarrow> ((int \<times> nat option) list \<times> fd_table) option" where
  "fd_run alloc t [] = Some ([], t)"
| "fd_run alloc t (op # ops) = do { (x, t1) \<leftarrow> fd_step alloc t op; (xs, t2) \<leftarrow> fd_run alloc t1 ops; Some (x # xs, t2) }"

text \<open>A list of descriptors, numbered from 0. None is a \<open>dup2\<close> to a number that is not in it.\<close>

definition desc_at :: "int \<Rightarrow> nat option list \<Rightarrow> nat option" where
  "desc_at fd ds = (if 0 \<le> fd \<and> fd < int (length ds) then ds ! nat fd else None)"

fun spec_fd :: "nat option list \<Rightarrow> fd_op \<Rightarrow> ((int \<times> nat option) \<times> nat option list) option" where
  "spec_fd ds (Add desc) = Some ((int (length ds), None), ds @ [desc])"
| "spec_fd ds (Dup oldfd newfd) =
     (if 0 \<le> newfd \<and> newfd < int (length ds)
      then Some ((newfd, desc_at newfd ds), ds[nat newfd := desc_at oldfd ds]) else None)"
| "spec_fd ds (Get fd) = Some ((fd, desc_at fd ds), ds)"

fun spec_fd_run :: "nat option list \<Rightarrow> fd_op list \<Rightarrow> ((int \<times> nat option) list \<times> nat option list) option" where
  "spec_fd_run ds [] = Some ([], ds)"
| "spec_fd_run ds (op # ops) = do { (x, ds1) \<leftarrow> spec_fd ds op; (xs, ds2) \<leftarrow> spec_fd_run ds1 ops; Some (x # xs, ds2) }"

lemma GetDescriptor_numbered: "fd_numbers.numbered alloc t ds \<Longrightarrow> GetDescriptor fd t = Some (desc_at fd ds)"
  using fd_numbers.numbered_look [of alloc t ds fd] by (auto simp: GetDescriptor_def desc_at_def)

lemma fd_step_ok:
  assumes "fd_numbers.numbered alloc t ds" "spec_fd ds op = Some (x, ds1)"
  shows "\<exists>t1. fd_step alloc t op = Some (x, t1) \<and> fd_numbers.numbered alloc t1 ds1"
proof (cases op)
  case (Add desc)
  then show ?thesis using assms(2) fd_numbers.numbered_append [OF assms(1), of desc] fd_numbers.numbered_entries [OF assms(1)]
    by (auto simp: fd_step_def AddDescriptor_def)
next
  case (Dup oldfd newfd)
  then have n: "0 \<le> newfd" "newfd < int (length ds)" "x = (newfd, desc_at newfd ds)" "ds1 = ds[nat newfd := desc_at oldfd ds]"
    using assms(2) by (auto split: if_splits)
  then show ?thesis
    using Dup GetDescriptor_numbered [OF assms(1)] fd_numbers.numbered_look [OF assms(1), of newfd]
      fd_numbers.numbered_put [OF assms(1) n(1,2), of "desc_at oldfd ds"]
    by (auto simp: fd_step_def SetDescriptor_def desc_at_def)
next
  case (Get fd)
  then show ?thesis using assms GetDescriptor_numbered [OF assms(1)] by (auto simp: fd_step_def)
qed

lemma fd_run_ok:
  assumes "fd_numbers.numbered alloc t ds" "spec_fd_run ds ops = Some (xs, ds1)"
  shows "\<exists>t1. fd_run alloc t ops = Some (xs, t1) \<and> fd_numbers.numbered alloc t1 ds1"
  using assms
proof (induction ops arbitrary: t ds xs)
  case (Cons op ops)
  then obtain x ds2 ys where s: "spec_fd ds op = Some (x, ds2)" "spec_fd_run ds2 ops = Some (ys, ds1)" "xs = x # ys"
    by (auto split: Option.bind_splits)
  obtain t2 where t2: "fd_step alloc t op = Some (x, t2)" "fd_numbers.numbered alloc t2 ds2"
    using fd_step_ok [OF Cons.prems(1) s(1)] by blast
  then show ?case using Cons.IH [OF t2(2) s(2)] s(3) by auto
qed simp

lemma new_table_numbered:
  assumes "alloc_ok alloc"
  shows "\<exists>t. new_table alloc = Some t \<and> fd_numbers.numbered alloc t [None, None, None]"
proof -
  have e: "fd_numbers.numbered alloc (empty_set (\<lambda>_. new_node (0, None))) []"
  proof -
    have eq: "(\<lambda>i. if 0 \<le> i \<and> i < int (length ([] :: nat option list)) then Some (([] :: nat option list) ! nat i) else None) = (\<lambda>_. None)"
      by auto
    show ?thesis unfolding fd_numbers.numbered_def eq using assms map_rep_empty by blast
  qed
  obtain t0 where t0: "map_put alloc None 0 None (empty_set (\<lambda>_. new_node (0, None))) = Some t0" "fd_numbers.numbered alloc t0 [None]"
    using fd_numbers.numbered_append [OF e, of None] fd_numbers.numbered_entries [OF e] by auto
  obtain t1 where t1: "map_put alloc None 1 None t0 = Some t1" "fd_numbers.numbered alloc t1 [None, None]"
    using fd_numbers.numbered_append [OF t0(2), of None] fd_numbers.numbered_entries [OF t0(2)] by auto
  obtain t2 where t2: "map_put alloc None 2 None t1 = Some t2" "fd_numbers.numbered alloc t2 [None, None, None]"
    using fd_numbers.numbered_append [OF t1(2), of None] fd_numbers.numbered_entries [OF t1(2)] by auto
  then show ?thesis using t0 t1 by (simp add: new_table_def)
qed

text \<open>As long as \<open>dup2\<close> goes to numbers in use, a descriptor table works as a list: the three
  standard numbers first, every new descriptor under the next number, and every number keeps its
  descriptor until a \<open>dup2\<close> to it.\<close>

theorem descriptor_table_run:
  assumes "\<forall>S. finite S \<longrightarrow> alloc S \<notin> S" "spec_fd_run [None, None, None] ops = Some (xs, ds)"
  shows "\<exists>t0 t. new_table alloc = Some t0 \<and> fd_run alloc t0 ops = Some (xs, t)
    \<and> (\<forall>fd. GetDescriptor fd t = Some (desc_at fd ds))"
proof -
  have "alloc_ok alloc" using assms(1) by (simp add: alloc_ok_def)
  then obtain t0 where t0: "new_table alloc = Some t0" "fd_numbers.numbered alloc t0 [None, None, None]"
    using new_table_numbered by blast
  obtain t where "fd_run alloc t0 ops = Some (xs, t)" "fd_numbers.numbered alloc t ds"
    using fd_run_ok [OF t0(2) assms(2)] by blast
  then show ?thesis using t0 GetDescriptor_numbered by blast
qed

theorem descriptor_table_run_witness:
  "\<exists>t0 t. new_table next_address = Some t0
    \<and> fd_run next_address t0 [Add (Some 7), Dup 3 1, Get 1, Add (Some 9)] = Some ([(3, None), (1, None), (1, Some 7), (4, None)], t)"
proof -
  have "\<forall>S. finite S \<longrightarrow> next_address S \<notin> S" using next_address_ok by (simp add: alloc_ok_def)
  note run = descriptor_table_run [where alloc = next_address, OF this]
  have "spec_fd_run [None, None, None] [Add (Some 7), Dup 3 1, Get 1, Add (Some 9)]
      = Some ([(3, None), (1, None), (1, Some 7), (4, None)], [None, Some 7, None, Some 7, Some 9])"
    by (simp add: desc_at_def)
  from run [OF this] show ?thesis by blast
qed

text \<open>After a \<open>dup2\<close> to a number beyond the next one, the number \<open>AddDescriptor\<close> gives out is the size
  of the table and may be that of an open file, which it then replaces.\<close>

lemma descriptor_overwritten:
  assumes "alloc_ok alloc" "map_rep t (\<lambda>i. if i \<in> {0, 1, 2, 4} then Some (Some 7) else None)"
  shows "\<exists>t1. AddDescriptor alloc (Some 9) t = Some (4, t1) \<and> GetDescriptor 4 t = Some (Some 7)
    \<and> GetDescriptor 4 t1 = Some (Some 9)"
proof -
  let ?N = "\<lambda>i. if i \<in> {0, 1, 2, 4} then Some (Some 7) else (None :: nat option option)"
  have "dom ?N = {0, 1, 2, 4 :: int}" by (auto split: if_splits)
  then have "num_elements t = 4" using map_size_law(2) [OF assms(2)] by simp
  then show ?thesis using map_put_law [OF assms(2,1), of None 4 "Some 9"] map_lookup_law [OF assms(2), of 4] map_lookup_law
    by (fastforce simp: AddDescriptor_def GetDescriptor_def)
qed

section \<open>Pipes\<close>

datatype pipe_event = Write "byte list" | Read nat

text \<open>A round of a reader or of a writer, with the bytes taken into the pipe and those given out.\<close>

definition pipe_step :: "pipe \<Rightarrow> pipe_event \<Rightarrow> (pipe \<times> byte list \<times> byte list) option" where
  "pipe_step p ev =
     (case ev of
        Write data \<Rightarrow>
          Some (case pipe_write data p of Waits \<Rightarrow> (p, [], []) | Finished (n, p1) \<Rightarrow> (p1, take n data, []))
      | Read count \<Rightarrow>
          map_option (\<lambda>r. case r of Waits \<Rightarrow> (p, [], []) | Finished (bytes, p1) \<Rightarrow> (p1, [], bytes)) (pipe_read count p))"

fun pipe_run :: "pipe \<Rightarrow> pipe_event list \<Rightarrow> (pipe \<times> byte list \<times> byte list) option" where
  "pipe_run p [] = Some (p, [], [])"
| "pipe_run p (ev # evs) =
     do { (p1, ins, outs) \<leftarrow> pipe_step p ev; (p2, ins2, outs2) \<leftarrow> pipe_run p1 evs; Some (p2, ins @ ins2, outs @ outs2) }"

definition pipe_contents :: "pipe \<Rightarrow> byte list" where
  "pipe_contents p = map (pipe_buf p) [0 ..< pipe_size p]"

lemma pipe_read_some:
  assumes "0 < pipe_size p" "pipe_size p \<le> 4096" "count < 2 ^ 31"
  shows "\<exists>p1 bytes. pipe_read count p = Some (Finished (bytes, p1)) \<and> length bytes = min count (pipe_size p)
    \<and> pipe_contents p = bytes @ pipe_contents p1 \<and> pipe_size p1 \<le> 4096"
proof -
  define n where "n = min count (pipe_size p)"
  define p1 where "p1 = p\<lparr>pipe_size := pipe_size p - n,
    pipe_buf := (\<lambda>i. if i < pipe_size p - n then pipe_buf p (i + n) else pipe_buf p i)\<rparr>"
  have "min (s32 count) (int (pipe_size p)) = int n" using assms(3) by (simp add: n_def s32_small of_nat_min)
  then have "pipe_read count p = Some (Finished (map (pipe_buf p) [0 ..< n], p1))"
    using assms(1) by (simp add: pipe_read_def p1_def Let_def)
  moreover have "pipe_contents p = map (pipe_buf p) [0 ..< n] @ pipe_contents p1"
  proof (rule nth_equalityI)
    fix i assume "i < length (pipe_contents p)"
    then show "pipe_contents p ! i = (map (pipe_buf p) [0 ..< n] @ pipe_contents p1) ! i"
      by (auto simp: pipe_contents_def p1_def nth_append)
  qed (simp add: pipe_contents_def p1_def n_def)
  moreover have "pipe_size p1 \<le> 4096" using assms(2) by (simp add: p1_def)
  ultimately show ?thesis by (intro exI [of _ p1] exI [of _ "map (pipe_buf p) [0 ..< n]"]) (simp add: n_def)
qed

lemma pipe_step_ok:
  assumes "pipe_size p \<le> 4096" "\<forall>count. ev = Read count \<longrightarrow> count < 2 ^ 31"
  shows "\<exists>p1 ins outs. pipe_step p ev = Some (p1, ins, outs) \<and> pipe_contents p @ ins = outs @ pipe_contents p1
    \<and> pipe_size p1 \<le> 4096"
proof (cases ev)
  case (Write data)
  have "map (\<lambda>i. if i < length data then data ! i else f i) [0 ..< length data] = data" for f
    by (rule nth_equalityI) simp_all
  then show ?thesis using Write assms(1)
    by (auto simp: pipe_step_def pipe_write_def kPipeMaxSize_def pipe_contents_def)
next
  case (Read count)
  show ?thesis
  proof (cases "pipe_size p = 0")
    case True
    then show ?thesis using Read assms(1) by (auto simp: pipe_step_def pipe_read_def)
  next
    case False
    then show ?thesis using pipe_read_some [of p count] Read assms by (auto simp: pipe_step_def)
  qed
qed

text \<open>However readers and writers of a new pipe take turns, the bytes that were read followed by
  those in the pipe are the bytes that were written, in order, none lost or repeated, and the pipe
  never holds more than its buffer.\<close>

theorem pipe_fifo:
  assumes "\<forall>count. Read count \<in> set evs \<longrightarrow> count < 2 ^ 31"
  shows "\<exists>p written read. pipe_run new_pipe evs = Some (p, written, read) \<and> written = read @ pipe_contents p
    \<and> pipe_size p \<le> kPipeMaxSize"
proof -
  have "\<exists>p1 ins outs. pipe_run p evs = Some (p1, ins, outs) \<and> pipe_contents p @ ins = outs @ pipe_contents p1
      \<and> pipe_size p1 \<le> 4096" if "pipe_size p \<le> 4096" for p
    using assms that
  proof (induction evs arbitrary: p)
    case (Cons ev evs)
    obtain p1 ins outs where 1: "pipe_step p ev = Some (p1, ins, outs)" "pipe_contents p @ ins = outs @ pipe_contents p1"
      "pipe_size p1 \<le> 4096" using pipe_step_ok [of p ev] Cons.prems by auto
    obtain p2 ins2 outs2 where 2: "pipe_run p1 evs = Some (p2, ins2, outs2)" "pipe_contents p1 @ ins2 = outs2 @ pipe_contents p2"
      "pipe_size p2 \<le> 4096" using Cons.IH [of p1] Cons.prems(1) 1(3) by auto
    have "pipe_contents p @ ins @ ins2 = (outs @ outs2) @ pipe_contents p2"
      using arg_cong [OF 1(2), of "\<lambda>xs. xs @ ins2"] 2(2) by simp
    then show ?case using 1(1) 2(1,3) by simp
  qed simp
  from this [of new_pipe] show ?thesis by (auto simp: new_pipe_def pipe_contents_def kPipeMaxSize_def)
qed

theorem pipe_fifo_witness:
  "\<exists>p written read. pipe_run new_pipe [Write [65, 66, 67], Read 2, Write [68], Read 5] = Some (p, written, read)
    \<and> written = read @ pipe_contents p"
proof -
  have "\<forall>count. Read count \<in> set [Write [65, 66, 67], Read 2, Write [68], Read 5] \<longrightarrow> count < 2 ^ 31" by auto
  from pipe_fifo [OF this] show ?thesis by blast
qed

text \<open>Readers that ask for at least \<open>kPipeMaxSize\<close> bytes, as \<open>pipe.h\<close> wants them to, get messages: the run with
  the writes that were taken and the reads that gave something kept apart.\<close>

definition message :: "byte list \<Rightarrow> byte list list" where
  "message bytes = (if bytes = [] then [] else [bytes])"

fun message_run :: "pipe \<Rightarrow> pipe_event list \<Rightarrow> (pipe \<times> byte list list \<times> byte list list) option" where
  "message_run p [] = Some (p, [], [])"
| "message_run p (ev # evs) =
     do { (p1, ins, outs) \<leftarrow> pipe_step p ev; (p2, ins2, outs2) \<leftarrow> message_run p1 evs;
          Some (p2, message ins @ ins2, message outs @ outs2) }"

lemma pipe_read_all:
  assumes "pipe_size p \<le> 4096" "4096 \<le> count" "count < 2 ^ 31"
  shows "\<exists>p1. pipe_step p (Read count) = Some (p1, [], pipe_contents p) \<and> pipe_size p1 = 0 \<and> is_blocking p1 = is_blocking p"
proof (cases "pipe_size p = 0")
  case True
  then show ?thesis by (auto simp: pipe_step_def pipe_read_def pipe_contents_def)
next
  case False
  have "min (s32 count) (int (pipe_size p)) = int (pipe_size p)" using assms by (simp add: s32_small)
  then show ?thesis using False by (simp add: pipe_step_def pipe_read_def pipe_contents_def Let_def)
qed

lemma message_step:
  assumes "pipe_size p \<le> 4096" "\<forall>count. ev = Read count \<longrightarrow> 4096 \<le> count \<and> count < 2 ^ 31"
  shows "\<exists>p1 ins outs. pipe_step p ev = Some (p1, ins, outs) \<and> pipe_size p1 \<le> 4096 \<and> is_blocking p1 = is_blocking p
    \<and> message (pipe_contents p) @ message ins = message outs @ message (pipe_contents p1)"
proof (cases ev)
  case (Write data)
  have "map (\<lambda>i. if i < length data then data ! i else f i) [0 ..< length data] = data" for f
    by (rule nth_equalityI) simp_all
  then show ?thesis using Write assms(1)
    by (auto simp: pipe_step_def pipe_write_def kPipeMaxSize_def pipe_contents_def message_def)
next
  case (Read count)
  then obtain p1 where "pipe_step p ev = Some (p1, [], pipe_contents p)" "pipe_size p1 = 0" "is_blocking p1 = is_blocking p"
    using pipe_read_all [of p count] assms by auto
  then show ?thesis by (simp add: pipe_contents_def message_def)
qed

lemma message_run_ok:
  assumes "pipe_size p \<le> 4096" "\<forall>count. Read count \<in> set evs \<longrightarrow> 4096 \<le> count \<and> count < 2 ^ 31"
  shows "\<exists>p1 ins outs. message_run p evs = Some (p1, ins, outs) \<and> pipe_size p1 \<le> 4096 \<and> is_blocking p1 = is_blocking p
    \<and> message (pipe_contents p) @ ins = outs @ message (pipe_contents p1)"
  using assms
proof (induction evs arbitrary: p)
  case (Cons ev evs)
  obtain p1 ins outs where 1: "pipe_step p ev = Some (p1, ins, outs)" "pipe_size p1 \<le> 4096" "is_blocking p1 = is_blocking p"
    "message (pipe_contents p) @ message ins = message outs @ message (pipe_contents p1)"
    using message_step [of p ev] Cons.prems by auto
  obtain p2 ins2 outs2 where 2: "message_run p1 evs = Some (p2, ins2, outs2)" "pipe_size p2 \<le> 4096"
    "is_blocking p2 = is_blocking p1" "message (pipe_contents p1) @ ins2 = outs2 @ message (pipe_contents p2)"
    using Cons.IH [of p1] Cons.prems(2) 1(2) by auto
  have "message (pipe_contents p) @ message ins @ ins2 = (message outs @ outs2) @ message (pipe_contents p2)"
    using arg_cong [OF 1(4), of "\<lambda>xs. xs @ ins2"] 2(4) by simp
  then show ?case using 1(1,3) 2(1-3) by simp
qed simp

text \<open>C27: A pipe whose readers ask for at least \<open>kPipeMaxSize\<close> bytes carries messages: however readers and writers
  take turns, each read gives nothing or exactly one write that was taken, whole and in the order of the writes, and
  no message is lost. A writer of at most \<open>kPipeMaxSize\<close> bytes waits exactly while a message has not been read, and a
  reader of a blocking pipe waits exactly while every message has been read.\<close>

theorem pipe_messages:
  assumes "\<forall>count. Read count \<in> set evs \<longrightarrow> kPipeMaxSize \<le> count \<and> count < 2 ^ 31"
  shows "\<exists>p written read. message_run (SetBlocking b new_pipe) evs = Some (p, written, read)
    \<and> (written = read \<or> (\<exists>m. written = read @ [m] \<and> pipe_contents p = m))
    \<and> (\<forall>data. length data \<le> kPipeMaxSize \<longrightarrow> (pipe_write data p = Waits \<longleftrightarrow> written \<noteq> read))
    \<and> (\<forall>count. pipe_read count p = Some Waits \<longleftrightarrow> b \<and> written = read)"
proof -
  have "\<exists>p ins outs. message_run (SetBlocking b new_pipe) evs = Some (p, ins, outs) \<and> pipe_size p \<le> 4096
    \<and> is_blocking p = is_blocking (SetBlocking b new_pipe)
    \<and> message (pipe_contents (SetBlocking b new_pipe)) @ ins = outs @ message (pipe_contents p)"
    by (rule message_run_ok) (use assms in \<open>simp_all add: SetBlocking_def new_pipe_def kPipeMaxSize_def\<close>)
  then obtain p written read where r: "message_run (SetBlocking b new_pipe) evs = Some (p, written, read)"
    "is_blocking p = b" "written = read @ message (pipe_contents p)"
    by (auto simp: SetBlocking_def new_pipe_def pipe_contents_def message_def)
  have "written = read \<longleftrightarrow> pipe_size p = 0" using r(3) by (simp add: message_def pipe_contents_def)
  then show ?thesis using r
    by (intro exI [of _ p] exI [of _ written] exI [of _ read])
      (auto simp: message_def pipe_write_def pipe_read_def Let_def)
qed

theorem pipe_messages_witness:
  "\<exists>p read. message_run (SetBlocking True new_pipe) [Write [65, 66], Write [67], Read 4096, Write [68]] = Some (p, [[65, 66], [68]], read)
     \<and> pipe_write [69] p = Waits"
proof -
  let ?evs = "[Write [65, 66], Write [67], Read 4096, Write [68]]"
  have c: "\<forall>count. Read count \<in> set ?evs \<longrightarrow> kPipeMaxSize \<le> count \<and> count < 2 ^ 31" by (auto simp: kPipeMaxSize_def)
  obtain p written read where r: "message_run (SetBlocking True new_pipe) ?evs = Some (p, written, read)"
    "\<forall>data. length data \<le> kPipeMaxSize \<longrightarrow> (pipe_write data p = Waits \<longleftrightarrow> written \<noteq> read)"
    using pipe_messages [OF c, of True] by blast
  moreover have "message_run (SetBlocking True new_pipe) ?evs = Some (p, [[65, 66], [68]], [[65, 66]])"
    using r(1) by (auto simp: pipe_step_def pipe_write_def pipe_read_def SetBlocking_def new_pipe_def message_def
        kPipeMaxSize_def s32_small Let_def upt_rec)
  ultimately show ?thesis by (auto simp: kPipeMaxSize_def)
qed

end
