(* ===== verification/HashSet.thy ===== *)
theory HashSet
  imports Prelude
begin

unbundle bit_operations_syntax

text \<open>
  The hash tables of the kernel (\<open>kernel/std/hash_set.h, hash_map.h, hash.h\<close>): open addressing
  with linear probing, a removed key leaves a tomb. \<open>hf\<close> is the hash of a key, \<open>kf\<close> the part of an
  element that is compared and hashed: all of it in a set, the key in a map. A function that
  returns None probes for ever. \<open>num_elements\<close> is written \<open>element_count\<close>.
\<close>

section \<open>Hash functions\<close>

definition hash_u64 :: "64 word \<Rightarrow> 64 word" where
  "hash_u64 x0 =
     (let x1 = (x0 XOR drop_bit 30 x0) * 0xbf58476d1ce4e5b9;
          x2 = (x1 XOR drop_bit 27 x1) * 0x94d049bb133111eb
      in x2 XOR drop_bit 31 x2)"

definition hash_u32 :: "32 word \<Rightarrow> 64 word" where "hash_u32 x = hash_u64 (ucast x)"
definition hash_int :: "32 word \<Rightarrow> 64 word" where "hash_int x = hash_u64 (scast x)"
definition hash_char :: "8 word \<Rightarrow> 64 word" where "hash_char x = hash_u64 (scast x)"

section \<open>Slots\<close>

record 'a hslot =
  is_tomb :: bool
  slot_key :: "'a option"

record 'a hset =
  slots :: "'a hslot list"
  element_count :: nat

definition kInitNumSlots :: nat where "kInitNumSlots = 1024"
definition kInverseLoadFactor :: nat where "kInverseLoadFactor = 3"

definition empty_slot :: "'a hslot" where
  "empty_slot = \<lparr>is_tomb = False, slot_key = None\<rparr>"

definition new_hset :: "'a hset" where
  "new_hset = \<lparr>slots = replicate kInitNumSlots empty_slot, element_count = 0\<rparr>"

definition next_index :: "nat \<Rightarrow> nat \<Rightarrow> nat" where
  "next_index n index = (if index + 1 \<ge> n then 0 else index + 1)"

partial_function (option) probe :: "('a \<Rightarrow> 'k) \<Rightarrow> 'k \<Rightarrow> 'a hslot list \<Rightarrow> nat \<Rightarrow> nat option option" where
  \<comment> \<open>the index of the slot with the key, None when the probing meets a slot never used\<close>
  "probe kf key sl index =
     (case slot_key (sl ! index) of
        Some x \<Rightarrow> if kf x = key then Some (Some index) else probe kf key sl (next_index (length sl) index)
      | None \<Rightarrow> if \<not> is_tomb (sl ! index) then Some None else probe kf key sl (next_index (length sl) index))"

partial_function (option) free_slot :: "'a hslot list \<Rightarrow> nat \<Rightarrow> nat option" where
  "free_slot sl index =
     (if slot_key (sl ! index) = None then Some index else free_slot sl (next_index (length sl) index))"

section \<open>The set\<close>

definition SearchIndex :: "('k \<Rightarrow> nat) \<Rightarrow> ('a \<Rightarrow> 'k) \<Rightarrow> 'k \<Rightarrow> 'a hset \<Rightarrow> nat option option" where
  "SearchIndex hf kf key s = probe kf key (slots s) (hf key mod length (slots s))"

definition SearchKey :: "('k \<Rightarrow> nat) \<Rightarrow> ('a \<Rightarrow> 'k) \<Rightarrow> 'k \<Rightarrow> 'a hset \<Rightarrow> 'a option option" where
  "SearchKey hf kf key s =
     do { r \<leftarrow> SearchIndex hf kf key s; Some (case r of None \<Rightarrow> None | Some i \<Rightarrow> slot_key (slots s ! i)) }"

definition RemoveKey :: "('k \<Rightarrow> nat) \<Rightarrow> ('a \<Rightarrow> 'k) \<Rightarrow> 'k \<Rightarrow> 'a hset \<Rightarrow> ('a option \<times> 'a hset) option" where
  "RemoveKey hf kf key s =
     do {
       r \<leftarrow> SearchIndex hf kf key s;
       Some (case r of
               None \<Rightarrow> (None, s)
             | Some i \<Rightarrow>
                 (slot_key (slots s ! i),
                  \<lparr>slots = (slots s)[i := \<lparr>is_tomb = True, slot_key = None\<rparr>], element_count = element_count s - 1\<rparr>))
     }"

definition InsertKeyInternal ::
  "('k \<Rightarrow> nat) \<Rightarrow> ('a \<Rightarrow> 'k) \<Rightarrow> 'a \<Rightarrow> 'a hslot list \<times> nat \<Rightarrow> ('a hslot list \<times> nat) option" where
  \<comment> \<open>the slots and \<open>num_elements\<close>\<close>
  "InsertKeyInternal hf kf x st =
     (case st of (sl, n) \<Rightarrow>
        do {
          i \<leftarrow> free_slot sl (hf (kf x) mod length sl);
          Some (sl[i := \<lparr>is_tomb = False, slot_key = Some x\<rparr>], n + 1)
        })"

fun insert_slots ::
  "('k \<Rightarrow> nat) \<Rightarrow> ('a \<Rightarrow> 'k) \<Rightarrow> 'a hslot list \<Rightarrow> 'a hslot list \<times> nat \<Rightarrow> ('a hslot list \<times> nat) option" where
  "insert_slots hf kf [] st = Some st"
| "insert_slots hf kf (slot # sl) st =
     (case slot_key slot of
        None \<Rightarrow> insert_slots hf kf sl st
      | Some x \<Rightarrow> do { st1 \<leftarrow> InsertKeyInternal hf kf x st; insert_slots hf kf sl st1 })"

definition RehashIfLoaded :: "('k \<Rightarrow> nat) \<Rightarrow> ('a \<Rightarrow> 'k) \<Rightarrow> 'a hset \<Rightarrow> 'a hset option" where
  "RehashIfLoaded hf kf s =
     (if element_count s * kInverseLoadFactor < length (slots s) then Some s
      else do {
        (new_slots, n) \<leftarrow> insert_slots hf kf (slots s) (replicate (length (slots s) * 2) empty_slot, element_count s);
        Some \<lparr>slots = new_slots, element_count = n\<rparr>
      })"

definition InsertKey :: "('k \<Rightarrow> nat) \<Rightarrow> ('a \<Rightarrow> 'k) \<Rightarrow> 'a \<Rightarrow> 'a hset \<Rightarrow> 'a hset option" where
  "InsertKey hf kf x s =
     do {
       s1 \<leftarrow> RehashIfLoaded hf kf s;
       (sl, n) \<leftarrow> InsertKeyInternal hf kf x (slots s1, element_count s1);
       Some \<lparr>slots = sl, element_count = n\<rparr>
     }"

definition hset_insert :: "('k \<Rightarrow> nat) \<Rightarrow> ('a \<Rightarrow> 'k) \<Rightarrow> 'a \<Rightarrow> 'a hset \<Rightarrow> 'a hset option" where
  "hset_insert hf kf v s = InsertKey hf kf v s"

definition hset_erase :: "('k \<Rightarrow> nat) \<Rightarrow> ('a \<Rightarrow> 'k) \<Rightarrow> 'k \<Rightarrow> 'a hset \<Rightarrow> (nat \<times> 'a hset) option" where
  "hset_erase hf kf v s =
     do { (key, s1) \<leftarrow> RemoveKey hf kf v s; Some (if key \<noteq> None then 1 else 0, s1) }"

definition hset_find :: "('k \<Rightarrow> nat) \<Rightarrow> ('a \<Rightarrow> 'k) \<Rightarrow> 'k \<Rightarrow> 'a hset \<Rightarrow> 'a option option" where
  "hset_find hf kf v s = SearchKey hf kf v s"

section \<open>The map\<close>

type_synonym ('k, 'v) hmap = "('k \<times> 'v) hset"

definition hmap_insert :: "('k \<Rightarrow> nat) \<Rightarrow> 'k \<Rightarrow> 'v \<Rightarrow> ('k, 'v) hmap \<Rightarrow> ('k, 'v) hmap option" where
  "hmap_insert hf key v m = hset_insert hf fst (key, v) m"

definition hmap_erase :: "('k \<Rightarrow> nat) \<Rightarrow> 'k \<Rightarrow> ('k, 'v) hmap \<Rightarrow> (nat \<times> ('k, 'v) hmap) option" where
  "hmap_erase hf key m = hset_erase hf fst key m"

definition hmap_find :: "('k \<Rightarrow> nat) \<Rightarrow> 'k \<Rightarrow> ('k, 'v) hmap \<Rightarrow> 'v option option" where
  "hmap_find hf key m = do { key_val \<leftarrow> hset_find hf fst key m; Some (map_option snd key_val) }"

definition hmap_ref :: "('k \<Rightarrow> nat) \<Rightarrow> 'v \<Rightarrow> 'k \<Rightarrow> ('k, 'v) hmap \<Rightarrow> (nat \<times> ('k, 'v) hmap) option" where
  \<comment> \<open>\<open>operator[]\<close>: the slot whose value is returned by reference; \<open>init\<close> is what a new value holds\<close>
  "hmap_ref hf init key m =
     do {
       key_val \<leftarrow> hset_find hf fst key m;
       m1 \<leftarrow> (if key_val = None then hmap_insert hf key init m else Some m);
       r \<leftarrow> SearchIndex hf fst key m1;
       case r of None \<Rightarrow> None | Some i \<Rightarrow> Some (i, m1)
     }"

definition hmap_put :: "('k \<Rightarrow> nat) \<Rightarrow> 'v \<Rightarrow> 'k \<Rightarrow> 'v \<Rightarrow> ('k, 'v) hmap \<Rightarrow> ('k, 'v) hmap option" where
  \<comment> \<open>\<open>m[key] = v\<close>\<close>
  "hmap_put hf init key v m =
     do {
       (i, m1) \<leftarrow> hmap_ref hf init key m;
       let slot = slots m1 ! i;
       Some (m1\<lparr>slots := (slots m1)[i := slot\<lparr>slot_key := map_option (\<lambda>kv. (fst kv, v)) (slot_key slot)\<rparr>]\<rparr>)
     }"

end
