(* ===== verification/HashSetProps.thy ===== *)
theory HashSetProps
  imports HashSet FiniteMap "HOL-Library.Multiset"
begin

unbundle bit_operations_syntax

text \<open>
  The hash tables are multisets of their elements, and the map on them is a finite map. Probing ends
  exactly when it can meet the key or a slot never used; as a table is rehashed when a third of it
  is loaded but tombs are not counted, that holds as long as not too many keys were removed.
\<close>

section \<open>Probing\<close>

lemma next_index_mod: "index < n \<Longrightarrow> next_index n index = (index + 1) mod n"
  by (auto simp: next_index_def) (metis Suc_leI le_antisym mod_self)

lemma next_probe: "0 < n \<Longrightarrow> next_index n (h mod n) = Suc h mod n"
  by (simp add: next_index_mod mod_Suc_eq)

lemma probe_reaches:
  fixes n :: nat
  assumes "i < n" shows "\<exists>j. (h + j) mod n = i"
proof -
  have "(h + (n - h mod n + i)) mod n = (h mod n + (n - h mod n + i)) mod n" by (simp add: mod_add_left_eq)
  also have "h mod n + (n - h mod n + i) = n + i" using assms mod_less_divisor [of n h] by linarith
  finally have "(h + (n - h mod n + i)) mod n = i" using assms by simp
  then show ?thesis by blast
qed

lemma first_probe:
  fixes n :: nat
  assumes "i < n" "P i"
  obtains j where "P ((h + j) mod n)" "\<forall>j' < j. \<not> P ((h + j') mod n)"
proof -
  have "\<exists>j. P ((h + j) mod n)" using probe_reaches [OF assms(1), of h] assms(2) by auto
  then show ?thesis using that exists_least_iff [of "\<lambda>j. P ((h + j) mod n)"] by auto
qed

definition unused :: "'a hslot \<Rightarrow> bool" where
  "unused slot \<longleftrightarrow> slot_key slot = None \<and> \<not> is_tomb slot"

definition stops :: "('a \<Rightarrow> 'k) \<Rightarrow> 'k \<Rightarrow> 'a hslot \<Rightarrow> bool" where
  "stops kf key slot \<longleftrightarrow> unused slot \<or> (\<exists>x. slot_key slot = Some x \<and> kf x = key)"

lemma probe_ok:
  assumes "sl \<noteq> []" "\<forall>j' < j. \<not> stops kf key (sl ! ((h + j') mod length sl))"
    "stops kf key (sl ! ((h + j) mod length sl))"
  shows "probe kf key sl (h mod length sl) =
    Some (if slot_key (sl ! ((h + j) mod length sl)) = None then None else Some ((h + j) mod length sl))"
  using assms(2,3)
proof (induction j arbitrary: h)
  case 0
  then show ?case by (subst probe.simps) (auto simp: stops_def unused_def)
next
  case (Suc j)
  have "probe kf key sl (h mod length sl) = probe kf key sl ((h + 1) mod length sl)"
    using Suc.prems(1) [rule_format, of 0] by (subst probe.simps) (auto simp: stops_def unused_def next_probe assms(1) split: option.splits)
  moreover have "\<forall>j' < j. \<not> stops kf key (sl ! ((h + 1 + j') mod length sl))"
    using Suc.prems(1) by (auto dest: spec [of _ "Suc _"])
  ultimately show ?case using Suc.IH [of "h + 1"] Suc.prems(2) by simp
qed

lemma probe_ends:
  assumes "probe kf key sl index = Some r" "index < length sl"
  shows "\<exists>i < length sl. stops kf key (sl ! i)"
proof -
  have "index < length sl \<longrightarrow> (\<exists>i < length sl. stops kf key (sl ! i))"
  proof (rule probe.raw_induct [OF _ assms(1), where P = "\<lambda>kf key sl index r. index < length sl \<longrightarrow> (\<exists>i < length sl. stops kf key (sl ! i))"])
    fix search and kf :: "'c \<Rightarrow> 'd" and key sl index r
    assume IH: "\<And>kf key sl index y. search kf key sl index = Some y \<Longrightarrow>
        index < length sl \<longrightarrow> (\<exists>i < length sl. stops (kf :: 'c \<Rightarrow> 'd) key (sl ! i))"
      and r: "(case slot_key (sl ! index) of
        None \<Rightarrow> if \<not> is_tomb (sl ! index) then Some None else search kf key sl (next_index (length sl) index)
      | Some x \<Rightarrow> if kf x = key then Some (Some index) else search kf key sl (next_index (length sl) index)) = Some r"
    have "next_index (length sl) index < length sl" if "index < length sl" using that by (auto simp: next_index_def)
    then show "index < length sl \<longrightarrow> (\<exists>i < length sl. stops kf key (sl ! i))"
      using r IH [of kf key sl "next_index (length sl) index" r]
      by (cases "slot_key (sl ! index)") (auto simp: stops_def unused_def split: if_splits)
  qed
  then show ?thesis using assms(2) by simp
qed

lemma free_slot_ok:
  assumes "sl \<noteq> []" "\<forall>j' < j. slot_key (sl ! ((h + j') mod length sl)) \<noteq> None"
    "slot_key (sl ! ((h + j) mod length sl)) = None"
  shows "free_slot sl (h mod length sl) = Some ((h + j) mod length sl)"
  using assms(2,3)
proof (induction j arbitrary: h)
  case 0
  then show ?case by (subst free_slot.simps) simp
next
  case (Suc j)
  have "free_slot sl (h mod length sl) = free_slot sl ((h + 1) mod length sl)"
    using Suc.prems(1) [rule_format, of 0] by (subst free_slot.simps) (auto simp: next_probe assms(1))
  moreover have "\<forall>j' < j. slot_key (sl ! ((h + 1 + j') mod length sl)) \<noteq> None"
    using Suc.prems(1) by (auto dest: spec [of _ "Suc _"])
  ultimately show ?case using Suc.IH [of "h + 1"] Suc.prems(2) by simp
qed

section \<open>What the slots hold\<close>

definition live :: "'a hslot list \<Rightarrow> 'a multiset" where
  "live sl = mset (List.map_filter slot_key sl)"

definition tombs :: "'a hslot list \<Rightarrow> nat" where
  "tombs sl = length (filter (\<lambda>slot. slot_key slot = None \<and> is_tomb slot) sl)"

definition in_use :: "'a hslot list \<Rightarrow> nat" where
  "in_use sl = length (filter (\<lambda>slot. \<not> unused slot) sl)"

lemma live_simps [simp]:
  "live [] = {#}"
  "live (slot # sl) = (case slot_key slot of None \<Rightarrow> live sl | Some x \<Rightarrow> add_mset x (live sl))"
  "live (sl @ sl') = live sl + live sl'"
  by (simp_all add: live_def List.map_filter_def split: option.split)

lemma in_use_eq: "in_use sl = size (live sl) + tombs sl"
  by (induction sl) (auto simp: in_use_def tombs_def unused_def split: option.split)

lemma live_iff: "x \<in># live sl \<longleftrightarrow> (\<exists>i < length sl. slot_key (sl ! i) = Some x)"
proof -
  have "x \<in># live sl \<longleftrightarrow> (\<exists>slot \<in> set sl. slot_key slot = Some x)"
    by (induction sl) (auto split: option.split)
  then show ?thesis by (metis in_set_conv_nth)
qed

lemma some_unused: "(\<exists>i < length sl. unused (sl ! i)) \<longleftrightarrow> in_use sl < length sl"
proof -
  have "(\<exists>i < length sl. unused (sl ! i)) \<longleftrightarrow> (\<exists>slot \<in> set sl. unused slot)" by (metis in_set_conv_nth)
  also have "\<dots> \<longleftrightarrow> in_use sl < length sl"
    using length_filter_less [of _ sl "\<lambda>slot. \<not> unused slot"] filter_id_conv [of "\<lambda>slot. \<not> unused slot" sl]
    unfolding in_use_def by (metis less_irrefl)
  finally show ?thesis .
qed

lemma live_update:
  assumes "i < length sl"
  shows "live (sl[i := slot]) + live [sl ! i] = live sl + live [slot]"
    "tombs (sl[i := slot]) + tombs [sl ! i] = tombs sl + tombs [slot]"
proof -
  have e: "sl[i := slot] = take i sl @ slot # drop (Suc i) sl" "sl = take i sl @ sl ! i # drop (Suc i) sl"
    using assms by (simp_all add: upd_conv_take_nth_drop id_take_nth_drop [symmetric])
  have "live sl = live (take i sl @ sl ! i # drop (Suc i) sl)" using e(2) by metis
  then show "live (sl[i := slot]) + live [sl ! i] = live sl + live [slot]"
    unfolding e(1) by (simp split: option.split)
  have "tombs sl = tombs (take i sl @ sl ! i # drop (Suc i) sl)" using e(2) by metis
  then show "tombs (sl[i := slot]) + tombs [sl ! i] = tombs sl + tombs [slot]"
    unfolding e(1) by (simp add: tombs_def)
qed

text \<open>A key can be reached when no slot on the way to it was never used.\<close>

definition reachable :: "('k \<Rightarrow> nat) \<Rightarrow> ('a \<Rightarrow> 'k) \<Rightarrow> 'a hslot list \<Rightarrow> bool" where
  "reachable hf kf sl \<longleftrightarrow>
     (\<forall>i < length sl. \<forall>x. slot_key (sl ! i) = Some x \<longrightarrow>
       (\<exists>j. (hf (kf x) + j) mod length sl = i \<and> (\<forall>j' < j. \<not> unused (sl ! ((hf (kf x) + j') mod length sl)))))"

lemma probe_result:
  assumes "reachable hf kf sl" "in_use sl < length sl"
  shows "(\<exists>i x. i < length sl \<and> probe kf key sl (hf key mod length sl) = Some (Some i) \<and> slot_key (sl ! i) = Some x \<and> kf x = key)
    \<or> probe kf key sl (hf key mod length sl) = Some None \<and> (\<forall>x. x \<in># live sl \<longrightarrow> kf x \<noteq> key)"
proof -
  have ne: "sl \<noteq> []" using assms(2) by auto
  obtain i where "i < length sl" "stops kf key (sl ! i)" using assms(2) some_unused [of sl] by (auto simp: stops_def)
  then obtain j where j: "stops kf key (sl ! ((hf key + j) mod length sl))" "\<forall>j' < j. \<not> stops kf key (sl ! ((hf key + j') mod length sl))"
    using first_probe [of i "length sl" "\<lambda>i. stops kf key (sl ! i)" "hf key"] by blast
  let ?i = "(hf key + j) mod length sl"
  have i: "?i < length sl" using ne by simp
  have pr: "probe kf key sl (hf key mod length sl) = Some (if slot_key (sl ! ?i) = None then None else Some ?i)"
    using probe_ok [OF ne j(2) j(1)] .
  show ?thesis
  proof (cases "slot_key (sl ! ?i)")
    case None
    have "kf x \<noteq> key" if x: "x \<in># live sl" for x
    proof
      assume "kf x = key"
      obtain i' where "i' < length sl" "slot_key (sl ! i') = Some x" using x live_iff by metis
      then obtain j'' where j'': "(hf key + j'') mod length sl = i'" "\<forall>j' < j''. \<not> unused (sl ! ((hf key + j') mod length sl))"
        using assms(1) \<open>kf x = key\<close> unfolding reachable_def by blast
      have "stops kf key (sl ! i')" using \<open>slot_key (sl ! i') = Some x\<close> \<open>kf x = key\<close> by (simp add: stops_def)
      then have "\<not> j'' < j" using j(2) j''(1) by auto
      moreover have "unused (sl ! ?i)" using j(1) None by (simp add: stops_def)
      then have "\<not> j < j''" using j''(2) by blast
      ultimately show False using j''(1) None \<open>slot_key (sl ! i') = Some x\<close> by (metis linorder_neqE_nat option.distinct(1))
    qed
    then show ?thesis using pr None by simp
  next
    case (Some x)
    then have "kf x = key" using j(1) by (auto simp: stops_def unused_def)
    then show ?thesis using pr i Some by auto
  qed
qed

section \<open>Storing and removing\<close>

lemma reachable_update:
  assumes "reachable hf kf sl" "i < length sl" "\<not> unused slot"
    "\<And>x. slot_key slot = Some x \<Longrightarrow> \<exists>j. (hf (kf x) + j) mod length sl = i \<and> (\<forall>j' < j. \<not> unused (sl ! ((hf (kf x) + j') mod length sl)))"
  shows "reachable hf kf (sl[i := slot])"
  unfolding reachable_def
proof (intro allI impI)
  fix i' x assume i': "i' < length (sl[i := slot])" "slot_key (sl[i := slot] ! i') = Some x"
  have way: "\<exists>j. (hf (kf x) + j) mod length sl = i' \<and> (\<forall>j' < j. \<not> unused (sl ! ((hf (kf x) + j') mod length sl)))"
    using i' assms(1,4) unfolding reachable_def by (cases "i' = i") auto
  then show "\<exists>j. (hf (kf x) + j) mod length (sl[i := slot]) = i'
      \<and> (\<forall>j' < j. \<not> unused (sl[i := slot] ! ((hf (kf x) + j') mod length (sl[i := slot]))))"
  proof -
    obtain j where j: "(hf (kf x) + j) mod length sl = i'" "\<forall>j' < j. \<not> unused (sl ! ((hf (kf x) + j') mod length sl))"
      using way by blast
    have "\<not> unused (sl[i := slot] ! k)" if "\<not> unused (sl ! k)" for k using that assms(2,3) by (cases "k = i") simp_all
    then show ?thesis using j by (intro exI [of _ j]) simp
  qed
qed

lemma InsertKeyInternal_ok:
  assumes "reachable hf kf sl" "size (live sl) < length sl"
  shows "\<exists>sl1. InsertKeyInternal hf kf x (sl, n) = Some (sl1, n + 1) \<and> length sl1 = length sl \<and> reachable hf kf sl1
    \<and> live sl1 = add_mset x (live sl) \<and> tombs sl1 \<le> tombs sl"
proof -
  have ne: "sl \<noteq> []" using assms(2) by auto
  have "\<exists>i < length sl. slot_key (sl ! i) = None"
  proof (rule ccontr)
    assume "\<not> ?thesis"
    then have "\<forall>slot \<in> set sl. slot_key slot \<noteq> None" by (metis in_set_conv_nth)
    then have "size (live sl) = length sl" by (induction sl) auto
    then show False using assms(2) by simp
  qed
  then obtain j where j: "slot_key (sl ! ((hf (kf x) + j) mod length sl)) = None"
      "\<forall>j' < j. slot_key (sl ! ((hf (kf x) + j') mod length sl)) \<noteq> None"
    using first_probe [of _ "length sl" "\<lambda>i. slot_key (sl ! i) = None" "hf (kf x)"] by blast
  define i where "i = (hf (kf x) + j) mod length sl"
  define slot where "slot = \<lparr>is_tomb = False, slot_key = Some x\<rparr>"
  have i: "i < length sl" using ne by (simp add: i_def)
  have "reachable hf kf (sl[i := slot])"
  proof (rule reachable_update [OF assms(1) i])
    show "\<exists>j. (hf (kf y) + j) mod length sl = i \<and> (\<forall>j' < j. \<not> unused (sl ! ((hf (kf y) + j') mod length sl)))"
      if "slot_key slot = Some y" for y
      using that j(2) by (intro exI [of _ j]) (auto simp: slot_def i_def unused_def)
  qed (simp add: slot_def unused_def)
  moreover have "live (sl[i := slot]) = add_mset x (live sl)" "tombs (sl[i := slot]) \<le> tombs sl"
    using live_update [OF i, of slot] j(1) by (simp_all add: i_def slot_def tombs_def)
  moreover have "InsertKeyInternal hf kf x (sl, n) = Some (sl[i := slot], n + 1)"
    using free_slot_ok [OF ne j(2,1)] by (simp add: InsertKeyInternal_def i_def slot_def)
  ultimately show ?thesis by auto
qed

lemma insert_slots_ok:
  assumes "reachable hf kf sl" "size (live sl) + size (live old) \<le> length sl"
  shows "\<exists>sl1. insert_slots hf kf old (sl, n) = Some (sl1, n + size (live old)) \<and> length sl1 = length sl \<and> reachable hf kf sl1
    \<and> live sl1 = live sl + live old \<and> tombs sl1 \<le> tombs sl"
  using assms
proof (induction old arbitrary: sl n)
  case (Cons slot old)
  show ?case
  proof (cases "slot_key slot")
    case None
    then show ?thesis using Cons.IH [of sl n] Cons.prems by simp
  next
    case (Some x)
    obtain sl1 where 1: "InsertKeyInternal hf kf x (sl, n) = Some (sl1, n + 1)" "length sl1 = length sl" "reachable hf kf sl1"
      "live sl1 = add_mset x (live sl)" "tombs sl1 \<le> tombs sl"
      using InsertKeyInternal_ok [OF Cons.prems(1), of x n] Cons.prems(2) Some by auto
    obtain sl2 where 2: "insert_slots hf kf old (sl1, n + 1) = Some (sl2, n + 1 + size (live old))" "length sl2 = length sl1"
      "reachable hf kf sl2" "live sl2 = live sl1 + live old" "tombs sl2 \<le> tombs sl1"
      using Cons.IH [OF 1(3), of "n + 1"] Cons.prems(2) Some 1(2,4) by auto
    show ?thesis using Some 1 2 by (intro exI [of _ sl2]) auto
  qed
qed simp

text \<open>A table that stands for a multiset, with room for probing: \<open>E\<close> bounds the keys removed.\<close>

definition hset_rep :: "('k \<Rightarrow> nat) \<Rightarrow> ('a \<Rightarrow> 'k) \<Rightarrow> nat \<Rightarrow> 'a hset \<Rightarrow> 'a multiset \<Rightarrow> bool" where
  "hset_rep hf kf E s M \<longleftrightarrow> reachable hf kf (slots s) \<and> live (slots s) = M \<and> size M + tombs (slots s) < length (slots s)
     \<and> size M \<le> element_count s \<and> 1024 \<le> length (slots s) \<and> tombs (slots s) \<le> E"

lemma empty_slots: "live (replicate n empty_slot) = {#}" "tombs (replicate n empty_slot) = 0" "reachable hf kf (replicate n empty_slot)"
proof -
  show "live (replicate n empty_slot) = {#}" "tombs (replicate n empty_slot) = 0"
    by (induction n) (auto simp: empty_slot_def tombs_def)
qed (simp add: reachable_def empty_slot_def)

lemma hset_rep_new: "hset_rep hf kf 0 new_hset {#}"
  by (simp add: hset_rep_def new_hset_def kInitNumSlots_def empty_slots)

lemma RehashIfLoaded_ok:
  assumes "hset_rep hf kf E s M" "E \<le> 680"
  shows "\<exists>s1. RehashIfLoaded hf kf s = Some s1 \<and> hset_rep hf kf E s1 M \<and> size M + tombs (slots s1) + 1 < length (slots s1)"
proof (cases "element_count s * kInverseLoadFactor < length (slots s)")
  case True
  then show ?thesis using assms by (auto simp: RehashIfLoaded_def hset_rep_def kInverseLoadFactor_def)
next
  case False
  obtain sl1 where "insert_slots hf kf (slots s) (replicate (length (slots s) * 2) empty_slot, element_count s) = Some (sl1, element_count s + size (live (slots s)))"
    "length sl1 = length (slots s) * 2" "reachable hf kf sl1" "live sl1 = live (slots s)" "tombs sl1 = 0"
    using insert_slots_ok [OF empty_slots(3) [of hf kf "length (slots s) * 2"], of "slots s" "element_count s"] assms(1)
    by (auto simp: hset_rep_def empty_slots)
  then show ?thesis using False assms(1) by (auto simp: RehashIfLoaded_def hset_rep_def)
qed

lemma hset_insert_ok:
  assumes "hset_rep hf kf E s M" "E \<le> 680"
  shows "\<exists>s1. hset_insert hf kf x s = Some s1 \<and> hset_rep hf kf E s1 (add_mset x M)"
proof -
  obtain s1 where s1: "RehashIfLoaded hf kf s = Some s1" "hset_rep hf kf E s1 M" "size M + tombs (slots s1) + 1 < length (slots s1)"
    using RehashIfLoaded_ok [OF assms] by blast
  obtain sl2 where "InsertKeyInternal hf kf x (slots s1, element_count s1) = Some (sl2, element_count s1 + 1)"
    "length sl2 = length (slots s1)" "reachable hf kf sl2" "live sl2 = add_mset x (live (slots s1))" "tombs sl2 \<le> tombs (slots s1)"
    using InsertKeyInternal_ok [of hf kf "slots s1" x "element_count s1"] s1(2,3) by (auto simp: hset_rep_def)
  then show ?thesis using s1 by (auto simp: hset_insert_def InsertKey_def hset_rep_def)
qed

lemma SearchIndex_ok:
  assumes "hset_rep hf kf E s M"
  shows "(\<exists>i x. SearchIndex hf kf key s = Some (Some i) \<and> i < length (slots s) \<and> slot_key (slots s ! i) = Some x \<and> kf x = key \<and> x \<in># M)
    \<or> SearchIndex hf kf key s = Some None \<and> (\<forall>x. x \<in># M \<longrightarrow> kf x \<noteq> key)"
proof -
  have "reachable hf kf (slots s)" "in_use (slots s) < length (slots s)" "live (slots s) = M"
    using assms by (simp_all add: hset_rep_def in_use_eq)
  then show ?thesis using probe_result [of hf kf "slots s" key] live_iff [of _ "slots s"] unfolding SearchIndex_def by metis
qed

lemma hset_find_ok:
  assumes "hset_rep hf kf E s M"
  shows "\<exists>r. hset_find hf kf key s = Some r \<and> (case r of None \<Rightarrow> \<forall>x. x \<in># M \<longrightarrow> kf x \<noteq> key | Some x \<Rightarrow> x \<in># M \<and> kf x = key)"
  using SearchIndex_ok [OF assms, of key] by (auto simp: hset_find_def SearchKey_def)

lemma hset_erase_ok:
  assumes "hset_rep hf kf E s M"
  shows "(\<exists>x s1. hset_erase hf kf key s = Some (1, s1) \<and> x \<in># M \<and> kf x = key \<and> hset_rep hf kf (E + 1) s1 (M - {#x#}))
    \<or> hset_erase hf kf key s = Some (0, s) \<and> (\<forall>x. x \<in># M \<longrightarrow> kf x \<noteq> key)"
  using SearchIndex_ok [OF assms, of key]
proof
  assume "\<exists>i x. SearchIndex hf kf key s = Some (Some i) \<and> i < length (slots s) \<and> slot_key (slots s ! i) = Some x \<and> kf x = key \<and> x \<in># M"
  then obtain i x where i: "SearchIndex hf kf key s = Some (Some i)" "i < length (slots s)" "slot_key (slots s ! i) = Some x"
    "kf x = key" "x \<in># M" by blast
  let ?slot = "\<lparr>is_tomb = True, slot_key = None\<rparr> :: 'b hslot"
  have M: "live (slots s) = M" "reachable hf kf (slots s)" using assms by (simp_all add: hset_rep_def)
  have "live ((slots s)[i := ?slot]) + {#x#} = M" "tombs ((slots s)[i := ?slot]) = tombs (slots s) + 1"
    using live_update [OF i(2), of ?slot] i(3) M(1) by (simp_all add: tombs_def)
  then have "live ((slots s)[i := ?slot]) = M - {#x#}" "tombs ((slots s)[i := ?slot]) = tombs (slots s) + 1" by auto
  moreover have "reachable hf kf ((slots s)[i := ?slot])" by (rule reachable_update [OF M(2) i(2)]) (simp_all add: unused_def)
  moreover have "size (M - {#x#}) + 1 = size M" using i(5) by (metis Suc_eq_plus1 insert_DiffM size_add_mset)
  ultimately have "hset_rep hf kf (E + 1) \<lparr>slots = (slots s)[i := ?slot], element_count = element_count s - 1\<rparr> (M - {#x#})"
    using assms by (auto simp: hset_rep_def)
  then show ?thesis using i by (auto simp: hset_erase_def RemoveKey_def)
qed (auto simp: hset_erase_def RemoveKey_def)

section \<open>The hash of a number\<close>

lemma xor_shift_inj:
  fixes x y :: "64 word"
  assumes "0 < k" "x XOR drop_bit k x = y XOR drop_bit k y"
  shows "x = y"
proof (rule bit_eqI)
  fix i show "bit x i \<longleftrightarrow> bit y i"
  proof (induction "64 - i" arbitrary: i rule: less_induct)
    case less
    show ?case
    proof (cases "i < 64")
      case True
      have "bit x (k + i) \<longleftrightarrow> bit y (k + i)" using less [of "k + i"] True assms(1) by simp
      moreover have "bit (x XOR drop_bit k x) i \<longleftrightarrow> bit (y XOR drop_bit k y) i" using assms(2) by simp
      ultimately show ?thesis by (auto simp: bit_simps)
    next
      case False
      then show ?thesis using bit_imp_le_length [of x i] bit_imp_le_length [of y i] by auto
    qed
  qed
qed

lemma times_unit_inj:
  fixes c d x y :: "64 word"
  assumes "c * d = 1" "x * c = y * c"
  shows "x = y"
proof -
  have "x * c * d = y * c * d" using assms(2) by simp
  then show ?thesis by (simp add: mult.assoc assms(1))
qed

lemma hash_u64_inj:
  assumes "hash_u64 x = hash_u64 y"
  shows "x = y"
proof -
  let ?f = "\<lambda>x :: 64 word. (x XOR drop_bit 30 x) * 0xbf58476d1ce4e5b9"
  let ?g = "\<lambda>x :: 64 word. (x XOR drop_bit 27 x) * 0x94d049bb133111eb"
  have units: "0xbf58476d1ce4e5b9 * 0x96de1b173f119089 = (1 :: 64 word)" "0x94d049bb133111eb * 0x319642b2d24d8ec3 = (1 :: 64 word)" by simp_all
  have "?g (?f x) XOR drop_bit 31 (?g (?f x)) = ?g (?f y) XOR drop_bit 31 (?g (?f y))"
    using assms unfolding hash_u64_def Let_def .
  then have "?g (?f x) = ?g (?f y)" by (rule xor_shift_inj [of 31, rotated]) simp
  then have "?f x XOR drop_bit 27 (?f x) = ?f y XOR drop_bit 27 (?f y)" by (rule times_unit_inj [OF units(2)])
  then have "?f x = ?f y" by (rule xor_shift_inj [of 27, rotated]) simp
  then have "x XOR drop_bit 30 x = y XOR drop_bit 30 y" by (rule times_unit_inj [OF units(1)])
  then show ?thesis by (rule xor_shift_inj [of 30, rotated]) simp
qed

lemma widen_inj:
  fixes x y :: "'a::len word"
  assumes "LENGTH('a) \<le> LENGTH('b::len)"
  shows "(ucast x :: 'b word) = ucast y \<Longrightarrow> x = y" "(scast x :: 'b word) = scast y \<Longrightarrow> x = y"
proof -
  have min: "min (LENGTH('a) - Suc 0) n = n" if "n < LENGTH('a)" for n using that by simp
  show "x = y" if "(ucast x :: 'b word) = ucast y"
  proof (rule bit_word_eqI)
    fix n assume "n < LENGTH('a)"
    then show "bit x n \<longleftrightarrow> bit y n" using arg_cong [OF that, of "\<lambda>w. bit w n"] assms by (simp add: bit_simps)
  qed
  show "x = y" if "(scast x :: 'b word) = scast y"
  proof (rule bit_word_eqI)
    fix n assume "n < LENGTH('a)"
    with arg_cong [OF that, of "\<lambda>w. bit w n"] assms show "bit x n \<longleftrightarrow> bit y n"
      unfolding bit_signed_iff min [OF \<open>n < LENGTH('a)\<close>] by simp
  qed
qed

text \<open>The hash functions never give two keys of one type the same hash.\<close>

lemma hash_injective: "inj hash_u64" "inj hash_u32" "inj hash_int" "inj hash_char"
  by (auto simp: inj_def hash_u32_def hash_int_def hash_char_def dest!: hash_u64_inj intro: widen_inj [where 'b = 64])

section \<open>Termination\<close>

text \<open>C28: Looking up a key in a table ends exactly when some slot holds the key or was never used;
  tombs alone make it probe for ever.\<close>

theorem SearchKey_terminates:
  assumes "slots s \<noteq> []"
  shows "SearchKey hf kf key s \<noteq> None
    \<longleftrightarrow> (\<exists>slot \<in> set (slots s). slot_key slot = None \<and> \<not> is_tomb slot \<or> (\<exists>x. slot_key slot = Some x \<and> kf x = key))"
proof -
  let ?sl = "slots s"
  have "SearchKey hf kf key s \<noteq> None \<longleftrightarrow> probe kf key ?sl (hf key mod length ?sl) \<noteq> None"
    by (cases "probe kf key ?sl (hf key mod length ?sl)") (auto simp: SearchKey_def SearchIndex_def)
  also have "\<dots> \<longleftrightarrow> (\<exists>i < length ?sl. stops kf key (?sl ! i))"
  proof
    assume "\<exists>i < length ?sl. stops kf key (?sl ! i)"
    then obtain i where "i < length ?sl" "stops kf key (?sl ! i)" by blast
    then obtain j where "stops kf key (?sl ! ((hf key + j) mod length ?sl))" "\<forall>j' < j. \<not> stops kf key (?sl ! ((hf key + j') mod length ?sl))"
      using first_probe [of i "length ?sl" "\<lambda>i. stops kf key (?sl ! i)" "hf key"] by blast
    then show "probe kf key ?sl (hf key mod length ?sl) \<noteq> None" using probe_ok [OF assms, of j kf key "hf key"] by simp
  next
    assume "probe kf key ?sl (hf key mod length ?sl) \<noteq> None"
    then show "\<exists>i < length ?sl. stops kf key (?sl ! i)" using probe_ends [of kf key ?sl] assms by auto
  qed
  also have "\<dots> \<longleftrightarrow> (\<exists>slot \<in> set ?sl. stops kf key slot)" by (metis in_set_conv_nth)
  finally show ?thesis by (simp add: stops_def unused_def)
qed

theorem SearchKey_terminates_witness:
  "SearchKey (\<lambda>k. k) (\<lambda>x. x) (7::nat) \<lparr>slots = [\<lparr>is_tomb = True, slot_key = None\<rparr>, \<lparr>is_tomb = True, slot_key = None\<rparr>], element_count = 0\<rparr> = None"
  using SearchKey_terminates [of "\<lparr>slots = [\<lparr>is_tomb = True, slot_key = None\<rparr>, \<lparr>is_tomb = True, slot_key = None\<rparr>], element_count = 0\<rparr>"
      "\<lambda>k. k" "\<lambda>x. x" "7::nat"] by simp

section \<open>Runs\<close>

datatype 'k hset_op = Insert 'k | Erase 'k | Find 'k

fun hset_step :: "('k \<Rightarrow> nat) \<Rightarrow> 'k hset \<Rightarrow> 'k hset_op \<Rightarrow> (nat \<times> 'k hset) option" where
  "hset_step hf s (Insert k) = map_option (Pair 0) (hset_insert hf (\<lambda>x. x) k s)"
| "hset_step hf s (Erase k) = hset_erase hf (\<lambda>x. x) k s"
| "hset_step hf s (Find k) = do { r \<leftarrow> hset_find hf (\<lambda>x. x) k s; Some (if r = None then 0 else 1, s) }"

fun hset_run :: "('k \<Rightarrow> nat) \<Rightarrow> 'k hset \<Rightarrow> 'k hset_op list \<Rightarrow> (nat list \<times> 'k hset) option" where
  "hset_run hf s [] = Some ([], s)"
| "hset_run hf s (op # ops) = do { (r, s1) \<leftarrow> hset_step hf s op; (rs, s2) \<leftarrow> hset_run hf s1 ops; Some (r # rs, s2) }"

text \<open>A set of the kernel keeps every copy that was inserted.\<close>

fun bag_step :: "'k multiset \<Rightarrow> 'k hset_op \<Rightarrow> nat \<times> 'k multiset" where
  "bag_step M (Insert k) = (0, add_mset k M)"
| "bag_step M (Erase k) = (if k \<in># M then 1 else 0, M - {#k#})"
| "bag_step M (Find k) = (if k \<in># M then 1 else 0, M)"

fun bag_run :: "'k multiset \<Rightarrow> 'k hset_op list \<Rightarrow> nat list" where
  "bag_run M [] = []"
| "bag_run M (op # ops) = fst (bag_step M op) # bag_run (snd (bag_step M op)) ops"

fun is_erase :: "'k hset_op \<Rightarrow> bool" where
  "is_erase (Erase k) = True"
| "is_erase _ = False"

lemma hset_rep_mono: "hset_rep hf kf E s M \<Longrightarrow> E \<le> E' \<Longrightarrow> hset_rep hf kf E' s M"
  by (simp add: hset_rep_def)

lemma hset_step_ok:
  assumes "hset_rep hf (\<lambda>x. x) E s M" "E + (if is_erase op then 1 else 0) \<le> 680"
  shows "\<exists>s1. hset_step hf s op = Some (fst (bag_step M op), s1)
    \<and> hset_rep hf (\<lambda>x. x) (E + (if is_erase op then 1 else 0)) s1 (snd (bag_step M op))"
proof (cases op)
  case (Insert k)
  then show ?thesis using hset_insert_ok [OF assms(1)] assms(2) by force
next
  case (Erase k)
  from hset_erase_ok [OF assms(1), of k] show ?thesis
  proof
    assume "hset_erase hf (\<lambda>x. x) k s = Some (0, s) \<and> (\<forall>x. x \<in># M \<longrightarrow> x \<noteq> k)"
    then show ?thesis using Erase hset_rep_mono [OF assms(1), of "E + 1"] by (auto simp: diff_single_trivial)
  qed (use Erase in auto)
next
  case (Find k)
  obtain r where r: "hset_find hf (\<lambda>x. x) k s = Some r" "case r of None \<Rightarrow> \<forall>x. x \<in># M \<longrightarrow> x \<noteq> k | Some x \<Rightarrow> x \<in># M \<and> x = k"
    using hset_find_ok [OF assms(1), of k] by blast
  then show ?thesis using Find assms(1) by (cases r) auto
qed

text \<open>C9: Any run of insertions, removals and lookups on a new hash set with at most 680 removals
  ends, and gives the results of a multiset of the keys, whatever the hash function.\<close>

theorem hset_run_refines:
  assumes "length (filter is_erase ops) \<le> 680"
  shows "map_option fst (hset_run hf new_hset ops) = Some (bag_run {#} ops)"
proof -
  have "\<exists>s1. hset_run hf s ops = Some (bag_run M ops, s1)"
    if "hset_rep hf (\<lambda>x. x) E s M" "E + length (filter is_erase ops) \<le> 680" for E s M
    using that
  proof (induction ops arbitrary: E s M)
    case (Cons op ops)
    obtain s1 where "hset_step hf s op = Some (fst (bag_step M op), s1)"
      "hset_rep hf (\<lambda>x. x) (E + (if is_erase op then 1 else 0)) s1 (snd (bag_step M op))"
      using hset_step_ok [OF Cons.prems(1), of op] Cons.prems(2) by (auto split: if_splits)
    then show ?case using Cons.IH [of "E + (if is_erase op then 1 else 0)" s1 "snd (bag_step M op)"] Cons.prems(2)
      by (cases "is_erase op") auto
  qed simp
  from this [OF hset_rep_new] assms show ?thesis by auto
qed

theorem hset_run_refines_witness:
  "map_option fst (hset_run (\<lambda>k. k mod 2) new_hset [Insert (5::nat), Insert 7, Insert 5, Erase 5, Find 5, Erase 5, Find 5, Find 7])
     = Some [0, 0, 0, 1, 1, 1, 0, 1]"
proof -
  have "length (filter is_erase [Insert (5::nat), Insert 7, Insert 5, Erase 5, Find 5, Erase 5, Find 5, Find 7]) \<le> 680" by simp
  from hset_run_refines [OF this, of "\<lambda>k. k mod 2"] show ?thesis by simp
qed

text \<open>Tombs are never cleaned up while the table is small: removing as many keys as there are slots
  leaves nothing but tombs, and the next lookup does not end.\<close>

lemma hset_run_append:
  "hset_run hf s (ops @ ops') = do { (rs, s1) \<leftarrow> hset_run hf s ops; (rs', s2) \<leftarrow> hset_run hf s1 ops'; Some (rs @ rs', s2) }"
  by (induction ops arbitrary: s) (auto split: Option.bind_splits)

lemma insert_erase:
  assumes "k < 1024"
  shows "hset_run (\<lambda>k. k) \<lparr>slots = replicate k \<lparr>is_tomb = True, slot_key = None\<rparr> @ replicate (1024 - k) empty_slot, element_count = 0\<rparr> [Insert k, Erase k]
    = Some ([0, 1], \<lparr>slots = replicate (Suc k) \<lparr>is_tomb = True, slot_key = None\<rparr> @ replicate (1024 - Suc k) empty_slot, element_count = 0\<rparr>)"
proof -
  let ?tomb = "\<lparr>is_tomb = True, slot_key = None\<rparr> :: nat hslot" and ?x = "\<lparr>is_tomb = False, slot_key = Some k\<rparr>"
  let ?sl = "replicate k ?tomb @ replicate (1024 - k) empty_slot"
  have len: "length ?sl = 1024" using assms by simp
  have e: "replicate (1024 - k) empty_slot = empty_slot # replicate (1024 - Suc k) (empty_slot :: nat hslot)"
    using assms by (metis Suc_diff_Suc replicate_Suc)
  have nth: "?sl ! k = empty_slot" unfolding e by (simp add: nth_append)
  have upd: "?sl[k := y] = replicate k ?tomb @ y # replicate (1024 - Suc k) empty_slot" for y unfolding e by (simp add: list_update_append)
  have "slot_key (?sl ! k) = None" unfolding nth by (simp add: empty_slot_def)
  then have "free_slot ?sl k = Some k" by (subst free_slot.simps) (simp only: simp_thms if_True)
  then have ins: "hset_insert (\<lambda>k. k) (\<lambda>x. x) k \<lparr>slots = ?sl, element_count = 0\<rparr> = Some \<lparr>slots = ?sl[k := ?x], element_count = 1\<rparr>"
    using len assms by (simp add: hset_insert_def InsertKey_def RehashIfLoaded_def InsertKeyInternal_def)
  have "probe (\<lambda>x. x) k (?sl[k := ?x]) k = Some (Some k)" using len assms by (subst probe.simps) simp
  then have "hset_erase (\<lambda>k. k) (\<lambda>x. x) k \<lparr>slots = ?sl[k := ?x], element_count = 1\<rparr> = Some (1, \<lparr>slots = ?sl[k := ?tomb], element_count = 0\<rparr>)"
    using len assms by (simp add: hset_erase_def RemoveKey_def SearchIndex_def)
  then show ?thesis using ins upd [of ?tomb] by (simp add: replicate_app_Cons_same)
qed

lemma tombs_stay:
  "k \<le> 1024 \<Longrightarrow> \<exists>rs. hset_run (\<lambda>k. k) new_hset (concat (map (\<lambda>k. [Insert k, Erase k]) [0 ..< k]))
     = Some (rs, \<lparr>slots = replicate k \<lparr>is_tomb = True, slot_key = None\<rparr> @ replicate (1024 - k) empty_slot, element_count = 0\<rparr>)"
proof (induction k)
  case 0
  then show ?case by (simp add: new_hset_def kInitNumSlots_def)
next
  case (Suc k)
  then obtain rs where rs: "hset_run (\<lambda>k. k) new_hset (concat (map (\<lambda>k. [Insert k, Erase k]) [0 ..< k]))
     = Some (rs, \<lparr>slots = replicate k \<lparr>is_tomb = True, slot_key = None\<rparr> @ replicate (1024 - k) empty_slot, element_count = 0\<rparr>)" by auto
  have k: "k < 1024" using Suc.prems by simp
  have ops: "concat (map (\<lambda>k. [Insert k, Erase k]) [0 ..< Suc k]) = concat (map (\<lambda>k. [Insert k, Erase k]) [0 ..< k]) @ [Insert k, Erase k]"
    by simp
  show ?case unfolding ops hset_run_append rs by (simp add: insert_erase [OF k] del: hset_run.simps replicate.simps)
qed

lemma only_tombs_left:
  "hset_run (\<lambda>k. k) new_hset (concat (map (\<lambda>k. [Insert k, Erase k]) [0 ..< 1024]) @ [Find 0]) = None"
proof -
  let ?s = "\<lparr>slots = replicate 1024 \<lparr>is_tomb = True, slot_key = None\<rparr>, element_count = 0\<rparr> :: nat hset"
  have "probe (\<lambda>x. x) 0 (slots ?s) 0 = None"
    using probe_ends [of "\<lambda>x. x" 0 "slots ?s" 0] by (cases "probe (\<lambda>x. x) 0 (slots ?s) 0") (auto simp: stops_def unused_def)
  then have "hset_find (\<lambda>k. k) (\<lambda>x. x) 0 ?s = None" by (simp add: hset_find_def SearchKey_def SearchIndex_def)
  then show ?thesis using tombs_stay [of 1024] unfolding hset_run_append by auto
qed

section \<open>Maps\<close>

definition hmap_rep :: "('k \<Rightarrow> nat) \<Rightarrow> ('k, 'v) hmap \<Rightarrow> ('k \<Rightarrow> 'v option) \<Rightarrow> bool" where
  \<comment> \<open>a map that nothing was erased from\<close>
  "hmap_rep hf m N \<longleftrightarrow>
     (\<exists>M. hset_rep hf fst 0 m M \<and> (\<forall>k. filter_mset (\<lambda>kv. fst kv = k) M = (case N k of None \<Rightarrow> {#} | Some v \<Rightarrow> {#(k, v)#})))"

lemma hmap_rep_empty: "hmap_rep hf new_hset (\<lambda>_. None)"
  unfolding hmap_rep_def by (intro exI [of _ "{#}"]) (simp add: hset_rep_new)

lemma entry_iff:
  assumes "\<forall>k. filter_mset (\<lambda>kv. fst kv = k) M = (case N k of None \<Rightarrow> {#} | Some v \<Rightarrow> {#(k, v)#})"
  shows "(k, v) \<in># M \<longleftrightarrow> N k = Some v"
proof -
  have "(k, v) \<in># M \<longleftrightarrow> (k, v) \<in># filter_mset (\<lambda>kv. fst kv = k) M" by simp
  also have "\<dots> \<longleftrightarrow> N k = Some v" using assms by (auto split: option.split)
  finally show ?thesis .
qed

lemma hmap_find_law:
  assumes "hmap_rep hf m N"
  shows "hmap_find hf key m = Some (N key)"
proof -
  obtain M where M: "hset_rep hf fst 0 m M" "\<forall>k. filter_mset (\<lambda>kv. fst kv = k) M = (case N k of None \<Rightarrow> {#} | Some v \<Rightarrow> {#(k, v)#})"
    using assms hmap_rep_def by metis
  obtain r where "hset_find hf fst key m = Some r" "case r of None \<Rightarrow> \<forall>x. x \<in># M \<longrightarrow> fst x \<noteq> key | Some x \<Rightarrow> x \<in># M \<and> fst x = key"
    using hset_find_ok [OF M(1), of key] by blast
  then show ?thesis using entry_iff [OF M(2)] by (cases r; cases "N key") (force simp: hmap_find_def)+
qed

lemma set_value_rep:
  assumes "hset_rep hf fst E m M" "i < length (slots m)" "slot_key (slots m ! i) = Some (key, v0)"
  shows "hset_rep hf fst E (m\<lparr>slots := (slots m)[i := (slots m ! i)\<lparr>slot_key := Some (key, v)\<rparr>]\<rparr>) (add_mset (key, v) (M - {#(key, v0)#}))"
proof -
  let ?slot = "(slots m ! i)\<lparr>slot_key := Some (key, v)\<rparr>"
  have M: "live (slots m) = M" "reachable hf fst (slots m)" using assms(1) by (simp_all add: hset_rep_def)
  have "live ((slots m)[i := ?slot]) + {#(key, v0)#} = M + {#(key, v)#}" "tombs ((slots m)[i := ?slot]) = tombs (slots m)"
    using live_update [OF assms(2), of ?slot] assms(3) M(1) by (simp_all add: tombs_def)
  moreover have in_M: "(key, v0) \<in># M" using assms(2,3) M(1) live_iff by metis
  moreover have "reachable hf fst ((slots m)[i := ?slot])"
  proof (rule reachable_update [OF M(2) assms(2)])
    show "\<exists>j. (hf (fst x) + j) mod length (slots m) = i \<and> (\<forall>j' < j. \<not> unused (slots m ! ((hf (fst x) + j') mod length (slots m))))"
      if "slot_key ?slot = Some x" for x
      using M(2) assms(2,3) that unfolding reachable_def by fastforce
  qed (simp add: unused_def)
  moreover have "size (M - {#(key, v0)#}) + 1 = size M" using in_M by (metis Suc_eq_plus1 insert_DiffM size_add_mset)
  moreover have "live ((slots m)[i := ?slot]) = add_mset (key, v) (M - {#(key, v0)#})"
  proof -
    obtain M' where "M = add_mset (key, v0) M'" using in_M multi_member_split by metis
    then show ?thesis using \<open>_ = M + {#(key, v)#}\<close> by (simp add: add_mset_commute)
  qed
  ultimately show ?thesis using assms(1) by (auto simp: hset_rep_def)
qed

lemma hmap_put_law:
  assumes "hmap_rep hf m N"
  shows "\<exists>m'. hmap_put hf init key v m = Some m' \<and> hmap_rep hf m' (N(key \<mapsto> v))"
proof -
  obtain M where M: "hset_rep hf fst 0 m M" "\<forall>k. filter_mset (\<lambda>kv. fst kv = k) M = (case N k of None \<Rightarrow> {#} | Some v \<Rightarrow> {#(k, v)#})"
    using assms hmap_rep_def by metis
  obtain r where r: "hset_find hf fst key m = Some r" "case r of None \<Rightarrow> \<forall>x. x \<in># M \<longrightarrow> fst x \<noteq> key | Some x \<Rightarrow> x \<in># M \<and> fst x = key"
    using hset_find_ok [OF M(1), of key] by blast
  have "\<exists>m1 M1 v0. (if r = None then hmap_insert hf key init m else Some m) = Some m1 \<and> hset_rep hf fst 0 m1 M1
      \<and> (\<forall>k. filter_mset (\<lambda>kv. fst kv = k) M1 = (if k = key then {#(k, v0)#} else filter_mset (\<lambda>kv. fst kv = k) M))"
  proof (cases r)
    case None
    obtain m1 where "hset_insert hf fst (key, init) m = Some m1" "hset_rep hf fst 0 m1 (add_mset (key, init) M)"
      using hset_insert_ok [OF M(1), of "(key, init)"] by auto
    moreover have "filter_mset (\<lambda>kv. fst kv = key) M = {#}"
      using r(2) None by (simp add: filter_mset_eq_conv del: split_paired_All)
    ultimately show ?thesis using None
      by (intro exI [of _ m1] exI [of _ "add_mset (key, init) M"] exI [of _ init]) (auto simp: hmap_insert_def)
  next
    case (Some kv)
    then have "N key = Some (snd kv)" using r(2) entry_iff [OF M(2), of key "snd kv"] by auto
    then show ?thesis using Some M by (intro exI [of _ m] exI [of _ M] exI [of _ "snd kv"]) auto
  qed
  then obtain m1 M1 v0 where m1: "(if r = None then hmap_insert hf key init m else Some m) = Some m1" "hset_rep hf fst 0 m1 M1"
    "\<forall>k. filter_mset (\<lambda>kv. fst kv = k) M1 = (if k = key then {#(k, v0)#} else filter_mset (\<lambda>kv. fst kv = k) M)" by blast
  have entry: "(key, w) \<in># M1 \<longleftrightarrow> w = v0" for w
  proof -
    have "(key, w) \<in># M1 \<longleftrightarrow> (key, w) \<in># filter_mset (\<lambda>kv. fst kv = key) M1" by simp
    then show ?thesis using m1(3) by simp
  qed
  then obtain i where i: "SearchIndex hf fst key m1 = Some (Some i)" "i < length (slots m1)" "slot_key (slots m1 ! i) = Some (key, v0)"
    using SearchIndex_ok [OF m1(2), of key] by (metis fst_conv prod.collapse)
  let ?m2 = "m1\<lparr>slots := (slots m1)[i := (slots m1 ! i)\<lparr>slot_key := Some (key, v)\<rparr>]\<rparr>"
  have "hset_rep hf fst 0 ?m2 (add_mset (key, v) (M1 - {#(key, v0)#}))" by (rule set_value_rep [OF m1(2) i(2,3)])
  moreover have "filter_mset (\<lambda>kv. fst kv = k) (add_mset (key, v) (M1 - {#(key, v0)#}))
      = (case (N(key \<mapsto> v)) k of None \<Rightarrow> {#} | Some v \<Rightarrow> {#(k, v)#})" for k
    using m1(3) M(2) by (auto simp: filter_diff_mset)
  ultimately have "hmap_rep hf ?m2 (N(key \<mapsto> v))" unfolding hmap_rep_def by blast
  then show ?thesis using r(1) m1(1) i by (simp add: hmap_put_def hmap_ref_def Let_def)
qed

interpretation hash_map: finite_map "hmap_rep hf" "hmap_find hf" "hmap_put hf init"
  by unfold_locales (rule hmap_find_law, assumption, rule hmap_put_law)

end
