(* ===== verification/PagingRep.thy ===== *)
theory PagingRep
  imports Paging
begin

unbundle bit_operations_syntax

text \<open>
  What page tables translate. \<open>walk k\<close> is the processor's walk from a table of level k (0 is a
  page table, 3 a PML4 table) for a page number; \<open>foot k\<close> are the tables below, \<open>wf k\<close> says that
  they form a tree. \<open>maps\<close> is the contract each level's \<open>Set\<close> function keeps: the range is mapped to
  consecutive frames, and nothing else changes.
\<close>

section \<open>Entries\<close>

definition address_mask :: "64 word" where "address_mask = 0x000FFFFFFFFFF000"

lemma bit_address_mask: "bit address_mask n \<longleftrightarrow> 12 \<le> n \<and> n < 52"
proof -
  have m: "address_mask = push_bit 12 (mask 40)" by (simp add: address_mask_def mask_eq_decr_exp push_bit_eq_mult)
  show ?thesis unfolding m by (auto simp: bit_simps)
qed

lemma bit_frame:
  assumes "p < 2 ^ 40"
  shows "bit (word_of_nat (4096 * p) :: 64 word) n \<longleftrightarrow> 12 \<le> n \<and> bit p (n - 12)"
    "bit p (n - 12) \<Longrightarrow> n < 52"
proof -
  have lim: "bit p m \<Longrightarrow> m < 40" for m
    using assms by (metis bit_take_bit_iff take_bit_nat_eq_self_iff)
  show "bit p (n - 12) \<Longrightarrow> n < 52" using lim [of "n - 12"] by simp
  have "4096 * p = push_bit 12 p" by (simp add: push_bit_eq_mult)
  then show "bit (word_of_nat (4096 * p) :: 64 word) n \<longleftrightarrow> 12 \<le> n \<and> bit p (n - 12)"
    using lim [of "n - 12"] by (auto simp: bit_simps)
qed

lemma SetEntry_present:
  assumes "p < 2 ^ 40"
  obtains e where "SetEntry (4096 * p) True True is_kernel = Some e" "IsPresent e" "GetBaseAddress e = 4096 * p"
    "IsUserAccessible e = (\<not> is_kernel)"
proof -
  define w where "w = (word_of_nat (4096 * p) :: 64 word)"
  define e where "e = (if is_kernel then mask 2 OR w else mask 3 OR w)"
  have bits: "bit w n \<longleftrightarrow> 12 \<le> n \<and> n < 52 \<and> bit p (n - 12)" for n unfolding w_def using bit_frame [OF assms] by blast
  have 1: "SetEntry (4096 * p) True True is_kernel = Some e"
    by (simp add: SetEntry_def SetPresent_def SetReadWrite_def SetUserAccessible_def SetBaseAddress_def FourKB_def e_def w_def mask_eq_decr_exp)
  have "e AND address_mask = w"
    by (rule bit_word_eqI) (auto simp: e_def bit_or_iff bit_and_iff bit_address_mask bits bit_mask_iff)
  moreover have "unat w = 4096 * p" unfolding w_def
    by (subst unat_of_nat) (use assms in simp)
  ultimately have 2: "GetBaseAddress e = 4096 * p" by (simp add: GetBaseAddress_def address_mask_def)
  have "IsPresent x \<longleftrightarrow> bit x 0" "IsUserAccessible x \<longleftrightarrow> bit x 2" for x
    by (simp_all add: IsPresent_def IsUserAccessible_def and_one_eq bit_0 odd_iff_mod_2_eq_one, simp_all add: bit_iff_and_push_bit_not_eq_0 push_bit_eq_mult)
  then have "IsPresent e" "IsUserAccessible e = (\<not> is_kernel)" by (auto simp: e_def bit_or_iff bit_mask_iff bits)
  then show ?thesis using that 1 2 by blast
qed

lemma SetUserAccessible_keeps:
  "IsPresent (SetUserAccessible e) = IsPresent e" "GetBaseAddress (SetUserAccessible e) = GetBaseAddress e"
  "IsUserAccessible (SetUserAccessible e)"
proof -
  have four: "(4 :: 64 word) = push_bit 2 1" by (simp add: push_bit_eq_mult)
  have "IsPresent x \<longleftrightarrow> bit x 0" "IsUserAccessible x \<longleftrightarrow> bit x 2" for x
    by (simp_all add: IsPresent_def IsUserAccessible_def and_one_eq bit_0 odd_iff_mod_2_eq_one, simp_all add: bit_iff_and_push_bit_not_eq_0 push_bit_eq_mult)
  then show "IsPresent (SetUserAccessible e) = IsPresent e" "IsUserAccessible (SetUserAccessible e)"
    unfolding SetUserAccessible_def four by (auto simp: bit_or_iff bit_push_bit_iff bit_1_iff)
  have "(e OR 4) AND address_mask = e AND address_mask"
    unfolding four by (rule bit_word_eqI, unfold bit_or_iff bit_and_iff bit_push_bit_iff bit_1_iff bit_address_mask) auto
  then show "GetBaseAddress (SetUserAccessible e) = GetBaseAddress e"
    by (simp add: GetBaseAddress_def SetUserAccessible_def address_mask_def)
qed

lemma empty_entry: "SetEntry 0 False False False = Some 4" "\<not> IsPresent 4"
  by (simp_all add: SetEntry_def SetBaseAddress_def SetUserAccessible_def FourKB_def IsPresent_def)

section \<open>Tables\<close>

definition valid_table :: "nat \<Rightarrow> bool" where
  "valid_table t \<longleftrightarrow> 4096 dvd t \<and> kKernelVirtualOffset \<le> t \<and> t < 2 ^ 64"

definition child :: "64 word \<Rightarrow> nat" where
  "child e = PhysToKernel (GetBaseAddress e)"

lemma valid_apart:
  assumes "valid_table t" "valid_table u" "t \<noteq> u" "i < 512" "j < 512"
  shows "t + 8 * i \<noteq> u + 8 * j"
proof -
  obtain a b where "t = 4096 * a" "u = 4096 * b" using assms(1,2) by (auto simp: valid_table_def dvd_def)
  then show ?thesis using assms(3-5) by auto
qed

lemma entry_set [simp]: "table_entry (set_entry t i e st) t j = (if j = i then e else table_entry st t j)"
  by (simp add: table_entry_def set_entry_def)

lemma entry_set_other:
  "\<lbrakk>valid_table t; valid_table u; t \<noteq> u; i < 512; j < 512\<rbrakk> \<Longrightarrow> table_entry (set_entry t i e st) u j = table_entry st u j"
  using valid_apart [of t u i j] by (auto simp: table_entry_def set_entry_def)

lemma set_entry_fields [simp]:
  "used_tables (set_entry t i e st) = used_tables st" "freed_frames (set_entry t i e st) = freed_frames st"
  "shared_kernel_pml4e_entries (set_entry t i e st) = shared_kernel_pml4e_entries st"
  by (simp_all add: set_entry_def)

lemma valid_phys:
  assumes "valid_table t"
  obtains p where "KernelToPhys t = 4096 * p" "p < 2 ^ 40" "PhysToKernel (KernelToPhys t) = t"
proof -
  obtain a where a: "t = 4096 * a" using assms by (auto simp: valid_table_def dvd_def)
  have "KernelToPhys t = t - kKernelVirtualOffset" using assms by (simp add: KernelToPhys_def valid_table_def sub64_id)
  then have "KernelToPhys t = 4096 * (a - 0xFFFFFFFF80000)" "PhysToKernel (KernelToPhys t) = t" "a - 0xFFFFFFFF80000 < 2 ^ 40"
    using assms a by (auto simp: kKernelVirtualOffset_def PhysToKernel_def valid_table_def add64_id)
  then show ?thesis using that by blast
qed

fun walk :: "nat \<Rightarrow> paging \<Rightarrow> nat \<Rightarrow> nat \<Rightarrow> 64 word option" where
  "walk 0 st t N = (let e = table_entry st t (N mod 512) in if IsPresent e then Some e else None)"
| "walk (Suc k) st t N =
     (let e = table_entry st t (N div 512 ^ Suc k mod 512) in if IsPresent e then walk k st (child e) N else None)"

fun user_path :: "nat \<Rightarrow> paging \<Rightarrow> nat \<Rightarrow> nat \<Rightarrow> bool" where
  \<comment> \<open>every table on the way lets the user through\<close>
  "user_path 0 st t N = True"
| "user_path (Suc k) st t N =
     (let e = table_entry st t (N div 512 ^ Suc k mod 512) in IsPresent e \<and> IsUserAccessible e \<and> user_path k st (child e) N)"

fun foot :: "nat \<Rightarrow> nat set \<Rightarrow> paging \<Rightarrow> nat \<Rightarrow> nat set" where
  "foot 0 I st t = {t}"
| "foot (Suc k) I st t = insert t (\<Union>i \<in> {i \<in> I. IsPresent (table_entry st t i)}. foot k {..<512} st (child (table_entry st t i)))"

fun wf :: "nat \<Rightarrow> nat set \<Rightarrow> paging \<Rightarrow> nat \<Rightarrow> bool" where
  "wf 0 I st t \<longleftrightarrow> valid_table t \<and> t \<in> used_tables st"
| "wf (Suc k) I st t \<longleftrightarrow> valid_table t \<and> t \<in> used_tables st
     \<and> (\<forall>i \<in> I. IsPresent (table_entry st t i) \<longrightarrow>
          wf k {..<512} st (child (table_entry st t i)) \<and> t \<notin> foot k {..<512} st (child (table_entry st t i)))
     \<and> (\<forall>i \<in> I. \<forall>j \<in> I. i \<noteq> j \<and> IsPresent (table_entry st t i) \<and> IsPresent (table_entry st t j) \<longrightarrow>
          foot k {..<512} st (child (table_entry st t i)) \<inter> foot k {..<512} st (child (table_entry st t j)) = {})"

lemma wf_valid: "wf k I st t \<Longrightarrow> valid_table t \<and> t \<in> used_tables st"
  by (cases k) auto

lemma foot_top: "t \<in> foot k I st t"
  by (cases k) auto

lemma foot_used: "wf k I st t \<Longrightarrow> u \<in> foot k I st t \<Longrightarrow> valid_table u \<and> u \<in> used_tables st"
proof (induction k arbitrary: I t)
  case (Suc k)
  then show ?case by auto
qed simp

text \<open>Tables below t that did not change.\<close>

definition same_entries :: "paging \<Rightarrow> paging \<Rightarrow> nat \<Rightarrow> bool" where
  "same_entries st st' u \<longleftrightarrow> (\<forall>i < 512. table_entry st' u i = table_entry st u i)"

lemma same_below:
  assumes "\<forall>u \<in> foot k I st t. same_entries st st' u" "used_tables st \<subseteq> used_tables st'" "I \<subseteq> {..<512}"
  shows "foot k I st' t = foot k I st t" "wf k I st t \<Longrightarrow> wf k I st' t"
    "N div 512 ^ k mod 512 \<in> I \<Longrightarrow> walk k st' t N = walk k st t N \<and> user_path k st' t N = user_path k st t N"
proof -
  have "foot k I st' t = foot k I st t \<and> (wf k I st t \<longrightarrow> wf k I st' t)
      \<and> (N div 512 ^ k mod 512 \<in> I \<longrightarrow> walk k st' t N = walk k st t N \<and> user_path k st' t N = user_path k st t N)"
    using assms
  proof (induction k arbitrary: I t)
    case 0
    then show ?case by (auto simp: same_entries_def Let_def)
  next
    case (Suc k)
    have top: "table_entry st' t i = table_entry st t i" if "i < 512" for i
      using Suc.prems(1) foot_top [of t "Suc k" I st] that by (auto simp: same_entries_def)
    have IH: "foot k {..<512} st' (child (table_entry st t i)) = foot k {..<512} st (child (table_entry st t i))
        \<and> (wf k {..<512} st (child (table_entry st t i)) \<longrightarrow> wf k {..<512} st' (child (table_entry st t i)))
        \<and> walk k st' (child (table_entry st t i)) N = walk k st (child (table_entry st t i)) N
        \<and> user_path k st' (child (table_entry st t i)) N = user_path k st (child (table_entry st t i)) N"
      if "i \<in> I" "IsPresent (table_entry st t i)" for i
      using Suc.IH [of "{..<512}" "child (table_entry st t i)"] Suc.prems that by auto
    have I: "i \<in> I \<Longrightarrow> i < 512" for i using Suc.prems(3) by auto
    have "foot (Suc k) I st' t = foot (Suc k) I st t" using top I IH by auto
    moreover have "wf (Suc k) I st t \<Longrightarrow> wf (Suc k) I st' t"
      using top I IH Suc.prems(2) by (auto simp del: foot.simps)
    moreover have "N div 512 ^ Suc k mod 512 \<in> I \<longrightarrow>
        walk (Suc k) st' t N = walk (Suc k) st t N \<and> user_path (Suc k) st' t N = user_path (Suc k) st t N"
      using top I IH by (auto simp: Let_def)
    ultimately show ?case by blast
  qed
  then show "foot k I st' t = foot k I st t" "wf k I st t \<Longrightarrow> wf k I st' t"
    "N div 512 ^ k mod 512 \<in> I \<Longrightarrow> walk k st' t N = walk k st t N \<and> user_path k st' t N = user_path k st t N" by blast+
qed

section \<open>The contract\<close>

text \<open>Pages s to e are mapped to the frames from p on, all below the entry of s one level up; pages,
  frames and table indices are numbers, not addresses.\<close>

definition walks_to :: "nat \<Rightarrow> nat set \<Rightarrow> bool \<Rightarrow> nat \<Rightarrow> nat \<Rightarrow> nat \<Rightarrow> nat \<Rightarrow> paging \<Rightarrow> paging \<Rightarrow> nat \<Rightarrow> bool" where
  "walks_to k I kern t s e p st st' N \<longleftrightarrow>
     walk k st' t N = (if s \<le> N \<and> N < e then SetEntry (4096 * (p + (N - s))) True True kern else walk k st t N)
     \<and> (user_path k st t N \<or> s \<le> N \<and> N < e \<and> \<not> kern \<longrightarrow> user_path k st' t N)"

definition maps :: "nat \<Rightarrow> nat set \<Rightarrow> bool \<Rightarrow> nat \<Rightarrow> nat \<Rightarrow> nat \<Rightarrow> nat \<Rightarrow> paging \<Rightarrow> paging \<Rightarrow> bool" where
  "maps k I kern t s e p st st' \<longleftrightarrow>
     used_tables st \<subseteq> used_tables st' \<and> freed_frames st' = freed_frames st
     \<and> wf k I st' t \<and> foot k I st' t \<subseteq> foot k I st t \<union> (used_tables st' - used_tables st)
     \<and> (\<forall>u. valid_table u \<and> u \<in> used_tables st \<and> u \<notin> foot k I st t \<longrightarrow> same_entries st st' u)
     \<and> (\<forall>i < 512. 0 < k \<and> i \<notin> I \<longrightarrow> table_entry st' t i = table_entry st t i)
     \<and> (\<forall>N. N div 512 ^ Suc k = s div 512 ^ Suc k \<and> N div 512 ^ k mod 512 \<in> I \<longrightarrow> walks_to k I kern t s e p st st' N)"

lemma maps_trans:
  assumes "maps k I kern t s m p st st1" "maps k I kern t m e (p + (m - s)) st1 st2"
    "s \<le> m" "m \<le> e" "m div 512 ^ Suc k = s div 512 ^ Suc k"
  shows "maps k I kern t s e p st st2"
  unfolding maps_def
proof (intro conjI allI impI)
  show "used_tables st \<subseteq> used_tables st2" "freed_frames st2 = freed_frames st" "wf k I st2 t"
    using assms(1,2) by (auto simp: maps_def)
  show "foot k I st2 t \<subseteq> foot k I st t \<union> (used_tables st2 - used_tables st)" using assms(1,2) unfolding maps_def by blast
next
  fix u assume u: "valid_table u \<and> u \<in> used_tables st \<and> u \<notin> foot k I st t"
  then have "same_entries st st1 u" using assms(1) by (simp add: maps_def)
  moreover have "u \<in> used_tables st1" "u \<notin> foot k I st1 t" using u assms(1) unfolding maps_def by blast+
  then have "same_entries st1 st2 u" using u assms(2) by (simp add: maps_def)
  ultimately show "same_entries st st2 u" by (simp add: same_entries_def)
next
  fix i assume "i < 512" "0 < k \<and> i \<notin> I"
  then show "table_entry st2 t i = table_entry st t i" using assms(1,2) by (simp add: maps_def)
next
  fix N assume N: "N div 512 ^ Suc k = s div 512 ^ Suc k \<and> N div 512 ^ k mod 512 \<in> I"
  have "walks_to k I kern t s m p st st1 N" using N assms(1) unfolding maps_def by blast
  moreover have "walks_to k I kern t m e (p + (m - s)) st1 st2 N" using N assms(2,5) unfolding maps_def by metis
  ultimately show "walks_to k I kern t s e p st st2 N"
    using assms(3,4) unfolding walks_to_def by (cases "N < m") auto
qed

lemma region_index:
  fixes N s :: nat
  assumes "N div 512 ^ Suc k = s div 512 ^ Suc k" "N div 512 ^ k mod 512 = s div 512 ^ k mod 512"
  shows "N div 512 ^ k = s div 512 ^ k"
proof -
  have "M div 512 ^ Suc k = M div 512 ^ k div 512" for M :: nat
    by (simp only: power_Suc2 div_mult2_eq)
  then show ?thesis using assms by (metis div_mult_mod_eq)
qed

text \<open>Mapping a range below one entry of a table of the next level.\<close>

lemma maps_child:
  assumes wf: "wf (Suc k) I st t" and I: "i \<in> I" "I \<subseteq> {..<512}" and pres: "IsPresent (table_entry st t i)"
    and user: "\<not> kern \<longrightarrow> IsUserAccessible (table_entry st t i)"
    and below: "maps k {..<512} kern (child (table_entry st t i)) s e p st st'"
    and idx: "s div 512 ^ Suc k mod 512 = i" and range: "\<forall>N. s \<le> N \<and> N < e \<longrightarrow> N div 512 ^ Suc k = s div 512 ^ Suc k"
  shows "maps (Suc k) I kern t s e p st st'"
proof -
  let ?c = "\<lambda>i. child (table_entry st t i)"
  have sub: "used_tables st \<subseteq> used_tables st'" and freed: "freed_frames st' = freed_frames st"
    and wf_i: "wf k {..<512} st' (?c i)" and foot_i: "foot k {..<512} st' (?c i) \<subseteq> foot k {..<512} st (?c i) \<union> (used_tables st' - used_tables st)"
    and frame: "\<And>u. valid_table u \<Longrightarrow> u \<in> used_tables st \<Longrightarrow> u \<notin> foot k {..<512} st (?c i) \<Longrightarrow> same_entries st st' u"
    and walks: "\<And>N. N div 512 ^ Suc k = s div 512 ^ Suc k \<Longrightarrow> walks_to k {..<512} kern (?c i) s e p st st' N"
    using below unfolding maps_def by auto
  have t: "valid_table t" "t \<in> used_tables st" using wf_valid [OF wf] by auto
  have "t \<notin> foot k {..<512} st (?c i)" using wf I(1) pres by auto
  then have top: "table_entry st' t j = table_entry st t j" if "j < 512" for j
    using frame [OF t] that by (simp add: same_entries_def)
  have lt: "j \<in> I \<Longrightarrow> j < 512" for j using I(2) by auto
  have other: "\<forall>u \<in> foot k {..<512} st (?c j). same_entries st st' u"
    if "j \<in> I" "j \<noteq> i" "IsPresent (table_entry st t j)" for j
  proof
    fix u assume u: "u \<in> foot k {..<512} st (?c j)"
    have "wf k {..<512} st (?c j)" "foot k {..<512} st (?c j) \<inter> foot k {..<512} st (?c i) = {}" using wf that I(1) pres by auto
    then show "same_entries st st' u" using frame [of u] foot_used [of k "{..<512}" st "?c j" u] u by auto
  qed
  have foot_j: "foot k {..<512} st' (?c j) = foot k {..<512} st (?c j)" and wf_j: "wf k {..<512} st' (?c j)"
    and used_j: "foot k {..<512} st (?c j) \<subseteq> used_tables st"
    if "j \<in> I" "j \<noteq> i" "IsPresent (table_entry st t j)" for j
    using same_below [OF other [OF that] sub] wf that foot_used [of k "{..<512}" st "?c j"] by auto
  have used_i: "foot k {..<512} st (?c i) \<subseteq> used_tables st" using wf I(1) pres foot_used [of k "{..<512}" st "?c i"] by auto
  have disj: "foot k {..<512} st (?c j) \<inter> foot k {..<512} st (?c j') = {}"
    if "j \<in> I" "j' \<in> I" "j \<noteq> j'" "IsPresent (table_entry st t j)" "IsPresent (table_entry st t j')" for j j' using wf that by auto
  have t_not: "t \<notin> foot k {..<512} st (?c j)" if "j \<in> I" "IsPresent (table_entry st t j)" for j using wf that by auto
  have foot_any: "foot k {..<512} st' (?c j) \<subseteq> foot k {..<512} st (?c j) \<union> (used_tables st' - used_tables st)"
    if "j \<in> I" "IsPresent (table_entry st t j)" for j using foot_i foot_j [of j] that by (cases "j = i") auto
  have used_any: "foot k {..<512} st (?c j) \<subseteq> used_tables st" if "j \<in> I" "IsPresent (table_entry st t j)" for j
    using used_i used_j [of j] that by (cases "j = i") auto
  show ?thesis unfolding maps_def
  proof (intro conjI allI impI sub freed)
    have "foot k {..<512} st' (?c j) \<inter> foot k {..<512} st' (?c j') = {}"
      if "j \<in> I" "j' \<in> I" "j \<noteq> j'" "IsPresent (table_entry st t j)" "IsPresent (table_entry st t j')" for j j'
    proof (cases "j = i")
      case True
      then show ?thesis using that foot_i foot_j [of j'] disj [OF that] used_j [of j'] by blast
    next
      case False
      then show ?thesis using that foot_any [of j'] foot_j [of j] disj [OF that] used_j [of j] by blast
    qed
    moreover have "t \<notin> foot k {..<512} st' (?c j)" "wf k {..<512} st' (?c j)" if "j \<in> I" "IsPresent (table_entry st t j)" for j
      using that t t_not [of j] foot_any [of j] wf_i wf_j [of j] by (blast, cases "j = i") auto
    ultimately show "wf (Suc k) I st' t" using t sub top lt by auto
    show "foot (Suc k) I st' t \<subseteq> foot (Suc k) I st t \<union> (used_tables st' - used_tables st)"
    proof
      fix u assume "u \<in> foot (Suc k) I st' t"
      then consider "u = t" | j where "j \<in> I" "IsPresent (table_entry st t j)" "u \<in> foot k {..<512} st' (?c j)"
        using top lt by auto
      then show "u \<in> foot (Suc k) I st t \<union> (used_tables st' - used_tables st)"
      proof cases
        case 2
        then show ?thesis using foot_any [of j] by auto
      qed simp
    qed
  next
    fix u assume u: "valid_table u \<and> u \<in> used_tables st \<and> u \<notin> foot (Suc k) I st t"
    then have "u \<notin> foot k {..<512} st (?c i)" using I(1) pres by auto
    then show "same_entries st st' u" using frame u by blast
  next
    fix j :: nat assume "j < 512" then show "table_entry st' t j = table_entry st t j" by (rule top)
  next
    fix N assume N: "N div 512 ^ Suc (Suc k) = s div 512 ^ Suc (Suc k) \<and> N div 512 ^ Suc k mod 512 \<in> I"
    define j where "j = N div 512 ^ Suc k mod 512"
    have j: "j \<in> I" "table_entry st' t j = table_entry st t j" using N top lt by (auto simp: j_def)
    show "walks_to (Suc k) I kern t s e p st st' N"
    proof (cases "j = i")
      case True
      then have "N div 512 ^ Suc k = s div 512 ^ Suc k" using N idx region_index [of N "Suc k" s] by (simp add: j_def)
      then have "walks_to k {..<512} kern (?c i) s e p st st' N" by (rule walks)
      moreover have "walk (Suc k) st' t N = walk k st' (?c i) N" "walk (Suc k) st t N = walk k st (?c i) N"
        "user_path (Suc k) st' t N \<longleftrightarrow> IsUserAccessible (table_entry st t i) \<and> user_path k st' (?c i) N"
        "user_path (Suc k) st t N \<longleftrightarrow> IsUserAccessible (table_entry st t i) \<and> user_path k st (?c i) N"
        using j(2) pres unfolding walk.simps user_path.simps Let_def j_def [symmetric] True by simp_all
      ultimately show ?thesis using user unfolding walks_to_def by auto
    next
      case False
      have "\<not> (s \<le> N \<and> N < e)" using range idx False unfolding j_def by metis
      moreover have same: "walk k st' (?c j) N = walk k st (?c j) N \<and> user_path k st' (?c j) N = user_path k st (?c j) N"
        if "IsPresent (table_entry st t j)"
        using same_below(3) [OF other [OF j(1) False that] sub] by simp
      have "walk (Suc k) st' t N = walk (Suc k) st t N" "user_path (Suc k) st' t N = user_path (Suc k) st t N"
        using j(2) same unfolding walk.simps user_path.simps Let_def j_def [symmetric]
        by (cases "IsPresent (table_entry st t j)"; simp)+
      ultimately show ?thesis unfolding walks_to_def by metis
    qed
  qed
qed

section \<open>Creating a table, opening it to the user\<close>

text \<open>A contract whose range is empty: translations stay as they are.\<close>

lemma maps_update_top:
  assumes wf: "wf (Suc k) I st t" and I: "i \<in> I" "I \<subseteq> {..<512}"
    and pres: "IsPresent (table_entry st t i)" "IsPresent e" "child e = child (table_entry st t i)"
    and user: "IsUserAccessible (table_entry st t i) \<longrightarrow> IsUserAccessible e"
  shows "maps (Suc k) I kern t s s p st (set_entry t i e st)"
proof -
  let ?st = "set_entry t i e st" and ?c = "\<lambda>i. child (table_entry st t i)"
  have t: "valid_table t" "t \<in> used_tables st" using wf_valid [OF wf] by auto
  have lt: "j \<in> I \<Longrightarrow> j < 512" for j using I(2) by auto
  have frame: "same_entries st ?st u" if "valid_table u" "u \<noteq> t" for u
    using entry_set_other [OF t(1) that(1)] that(2) lt [OF I(1)] by (auto simp: same_entries_def)
  have below: "\<forall>u \<in> foot k {..<512} st (?c j). same_entries st ?st u" if "j \<in> I" "IsPresent (table_entry st t j)" for j
    using wf that foot_used [of k "{..<512}" st "?c j"] frame by auto
  note same = same_below [OF below]
  have top: "IsPresent (table_entry ?st t j) = IsPresent (table_entry st t j)" "child (table_entry ?st t j) = ?c j" for j
    using pres by auto
  have foot: "foot k {..<512} ?st (?c j) = foot k {..<512} st (?c j)" "wf k {..<512} ?st (?c j)"
    if "j \<in> I" "IsPresent (table_entry st t j)" for j using same(1,2) [OF that] wf that by auto
  show ?thesis unfolding maps_def
  proof (intro conjI allI impI)
    show "wf (Suc k) I ?st t" using wf t foot unfolding wf.simps top by auto
    show "foot (Suc k) I ?st t \<subseteq> foot (Suc k) I st t \<union> (used_tables ?st - used_tables st)"
      using foot unfolding foot.simps top by auto
  next
    fix u assume "valid_table u \<and> u \<in> used_tables st \<and> u \<notin> foot (Suc k) I st t"
    then show "same_entries st ?st u" using frame by auto
  next
    fix N assume N: "N div 512 ^ Suc (Suc k) = s div 512 ^ Suc (Suc k) \<and> N div 512 ^ Suc k mod 512 \<in> I"
    define j where "j = N div 512 ^ Suc k mod 512"
    have "walk k ?st (?c j) N = walk k st (?c j) N \<and> user_path k ?st (?c j) N = user_path k st (?c j) N"
      if "IsPresent (table_entry st t j)" using same(3) [OF _ that] N by (simp add: j_def)
    then have "walk (Suc k) ?st t N = walk (Suc k) st t N" "user_path (Suc k) st t N \<longrightarrow> user_path (Suc k) ?st t N"
      using user unfolding walk.simps user_path.simps Let_def j_def [symmetric] top by (auto split: if_splits)
    then show "walks_to (Suc k) I kern t s s p st ?st N" unfolding walks_to_def by auto
  qed (use I(1) in auto)
qed

definition palloc_ok :: "palloc \<Rightarrow> bool" where
  "palloc_ok palloc \<longleftrightarrow> (\<forall>S a. palloc S = Some a \<longrightarrow> a \<notin> S \<and> valid_table a)"

definition runs_out :: "palloc \<Rightarrow> paging \<Rightarrow> bool" where
  \<comment> \<open>no table is left once some more than those of st are taken\<close>
  "runs_out palloc st \<longleftrightarrow> (\<exists>S. used_tables st \<subseteq> S \<and> palloc S = None)"

lemma runs_out_mono: "runs_out palloc st' \<Longrightarrow> used_tables st \<subseteq> used_tables st' \<Longrightarrow> runs_out palloc st"
  unfolding runs_out_def by blast

lemma CreateNewTable_ok:
  assumes "palloc_ok palloc"
  shows "(\<exists>a st1. CreateNewTable palloc st = Some (a, st1) \<and> valid_table a \<and> a \<notin> used_tables st
      \<and> used_tables st1 = insert a (used_tables st) \<and> freed_frames st1 = freed_frames st
      \<and> shared_kernel_pml4e_entries st1 = shared_kernel_pml4e_entries st
      \<and> (\<forall>i < 512. \<not> IsPresent (table_entry st1 a i)) \<and> (\<forall>u. valid_table u \<and> u \<noteq> a \<longrightarrow> same_entries st st1 u))
    \<or> CreateNewTable palloc st = None \<and> runs_out palloc st"
proof (cases "palloc (used_tables st)")
  case None
  then show ?thesis by (auto simp: CreateNewTable_def runs_out_def)
next
  case (Some a)
  then have a: "a \<notin> used_tables st" "valid_table a" using assms by (auto simp: palloc_ok_def)
  let ?st1 = "st\<lparr>cells := (\<lambda>x. if a \<le> x \<and> x < a + 8 * 512 then 4 else cells st x), used_tables := insert a (used_tables st)\<rparr>"
  have "same_entries st ?st1 u" if u: "valid_table u" "u \<noteq> a" for u
  proof -
    obtain b c where "u = 4096 * b" "a = 4096 * c" using u a by (auto simp: valid_table_def dvd_def)
    then have "b < c \<or> c < b" "u = 4096 * b" "a = 4096 * c" using u(2) by auto
    then have "\<not> (a \<le> u + 8 * i \<and> u + 8 * i < a + 4096)" if "i < 512" for i using that by auto
    then show ?thesis by (auto simp: same_entries_def table_entry_def)
  qed
  then show ?thesis using Some a by (auto simp: CreateNewTable_def empty_entry table_entry_def)
qed

lemma empty_table:
  assumes "\<forall>i < 512. \<not> IsPresent (table_entry st t i)" "valid_table t" "t \<in> used_tables st"
  shows "walk k st t N = None" "foot k {..<512} st t = {t}" "wf k {..<512} st t"
  using assms by (cases k; auto simp: Let_def)+

lemma maps_new_child:
  assumes wf: "wf (Suc k) I st t" and I: "i \<in> I" "I \<subseteq> {..<512}" and new: "\<not> IsPresent (table_entry st t i)"
    and a: "valid_table a" "a \<notin> used_tables st" "used_tables st1 = insert a (used_tables st)" "freed_frames st1 = freed_frames st"
      "\<forall>i < 512. \<not> IsPresent (table_entry st1 a i)" "\<forall>u. valid_table u \<and> u \<noteq> a \<longrightarrow> same_entries st st1 u"
    and e: "IsPresent e" "child e = a"
  shows "maps (Suc k) I kern t s s p st (set_entry t i e st1)"
proof -
  let ?st = "set_entry t i e st1" and ?c = "\<lambda>i. child (table_entry st t i)"
  have t: "valid_table t" "t \<in> used_tables st" using wf_valid [OF wf] by auto
  then have ta: "t \<noteq> a" using a(2) by auto
  have lt: "j \<in> I \<Longrightarrow> j < 512" for j using I(2) by auto
  have frame: "same_entries st ?st u" if "valid_table u" "u \<noteq> t" "u \<noteq> a" for u
    using entry_set_other [OF t(1) that(1)] that a(6) lt [OF I(1)] by (auto simp: same_entries_def)
  have below: "\<forall>u \<in> foot k {..<512} st (?c j). same_entries st ?st u" if "j \<in> I" "IsPresent (table_entry st t j)" for j
    using wf that foot_used [of k "{..<512}" st "?c j"] frame a(2) by auto
  have sub: "used_tables st \<subseteq> used_tables ?st" using a(3) by auto
  note same = same_below [OF below sub]
  have top: "table_entry ?st t j = table_entry st t j" if "j \<noteq> i" "j < 512" for j
    using that a(6) t(1) ta by (auto simp: same_entries_def)
  have top_i: "table_entry ?st t i = e" by simp
  have a_empty: "\<forall>j < 512. \<not> IsPresent (table_entry ?st a j)"
    using a(5) entry_set_other [OF t(1) a(1) ta] lt [OF I(1)] by simp
  note empty = empty_table [OF a_empty a(1)]
  have foot: "foot k {..<512} ?st (?c j) = foot k {..<512} st (?c j)" "wf k {..<512} ?st (?c j)"
      "foot k {..<512} st (?c j) \<subseteq> used_tables st"
    if "j \<in> I" "IsPresent (table_entry st t j)" for j using same(1,2) [OF that] wf that foot_used [of k "{..<512}" st "?c j"] by auto
  have foot_i: "foot k {..<512} ?st a = {a}" "wf k {..<512} ?st a" using empty a(3) by auto
  have pres: "IsPresent (table_entry ?st t j) \<longleftrightarrow> j = i \<or> IsPresent (table_entry st t j)" if "j < 512" for j
    using top [of j] e(1) that by (cases "j = i") auto
  have chil: "child (table_entry ?st t j) = (if j = i then a else ?c j)" if "j < 512" for j using top [of j] e(2) that by auto
  show ?thesis unfolding maps_def
  proof (intro conjI allI impI)
    show "wf (Suc k) I ?st t" unfolding wf.simps
    proof (intro conjI ballI impI)
      show "t \<in> used_tables ?st" "valid_table t" using t a(3) by auto
      fix j assume j: "j \<in> I" "IsPresent (table_entry ?st t j)"
      show "wf k {..<512} ?st (child (table_entry ?st t j))" "t \<notin> foot k {..<512} ?st (child (table_entry ?st t j))"
        using j pres [OF lt [OF j(1)]] chil [OF lt [OF j(1)]] foot [of j] foot_i ta wf by (cases "j = i"; auto)+
    next
      fix j j' assume j: "j \<in> I" "j' \<in> I" "j \<noteq> j' \<and> IsPresent (table_entry ?st t j) \<and> IsPresent (table_entry ?st t j')"
      then have "j = i \<or> IsPresent (table_entry st t j)" "j' = i \<or> IsPresent (table_entry st t j')" using pres lt by auto
      then consider "j = i" "j' \<noteq> i" "IsPresent (table_entry st t j')" | "j' = i" "j \<noteq> i" "IsPresent (table_entry st t j)"
        | "j \<noteq> i" "j' \<noteq> i" "IsPresent (table_entry st t j)" "IsPresent (table_entry st t j')" using j(3) by blast
      then show "foot k {..<512} ?st (child (table_entry ?st t j)) \<inter> foot k {..<512} ?st (child (table_entry ?st t j')) = {}"
      proof cases
        case 1
        then show ?thesis using chil [OF lt [OF j(1)]] chil [OF lt [OF j(2)]] foot_i(1) foot [OF j(2)] a(2) by auto
      next
        case 2
        then show ?thesis using chil [OF lt [OF j(1)]] chil [OF lt [OF j(2)]] foot_i(1) foot [OF j(1)] a(2) by auto
      next
        case 3
        then show ?thesis using chil [OF lt [OF j(1)]] chil [OF lt [OF j(2)]] foot(1) [OF j(1)] foot(1) [OF j(2)] wf j by auto
      qed
    qed
    show "foot (Suc k) I ?st t \<subseteq> foot (Suc k) I st t \<union> (used_tables ?st - used_tables st)"
    proof
      fix u assume "u \<in> foot (Suc k) I ?st t"
      then consider "u = t" | j where "j \<in> I" "IsPresent (table_entry ?st t j)" "u \<in> foot k {..<512} ?st (child (table_entry ?st t j))" by auto
      then show "u \<in> foot (Suc k) I st t \<union> (used_tables ?st - used_tables st)"
      proof cases
        case 2
        then show ?thesis using pres [OF lt [OF 2(1)]] chil [OF lt [OF 2(1)]] foot(1) [of j] foot_i(1) a(2,3) by (cases "j = i") auto
      qed simp
    qed
  next
    fix u assume "valid_table u \<and> u \<in> used_tables st \<and> u \<notin> foot (Suc k) I st t"
    then show "same_entries st ?st u" using frame a(2) by auto
  next
    fix j :: nat assume "j < 512" "0 < Suc k \<and> j \<notin> I"
    then show "table_entry ?st t j = table_entry st t j" using top I(1) by auto
  next
    fix N assume N: "N div 512 ^ Suc (Suc k) = s div 512 ^ Suc (Suc k) \<and> N div 512 ^ Suc k mod 512 \<in> I"
    define j where "j = N div 512 ^ Suc k mod 512"
    have j: "j \<in> I" "j < 512" using N lt by (auto simp: j_def)
    have "walk (Suc k) ?st t N = walk (Suc k) st t N \<and> (user_path (Suc k) st t N \<longrightarrow> user_path (Suc k) ?st t N)"
    proof (cases "j = i")
      case True
      then show ?thesis using new e empty(1) a(3) unfolding walk.simps user_path.simps Let_def j_def [symmetric] by simp
    next
      case False
      have "walk k ?st (?c j) N = walk k st (?c j) N \<and> user_path k ?st (?c j) N = user_path k st (?c j) N"
        if "IsPresent (table_entry st t j)" using same(3) [OF j(1) that] by simp
      then show ?thesis using top [OF False j(2)] unfolding walk.simps user_path.simps Let_def j_def [symmetric]
        by (cases "IsPresent (table_entry st t j)") simp_all
    qed
    then show "walks_to (Suc k) I kern t s s p st ?st N" unfolding walks_to_def by auto
  qed (use a(3,4) in auto)
qed

lemma maps_refl: "wf k I st t \<Longrightarrow> maps k I kern t s s p st st"
  by (auto simp: maps_def walks_to_def same_entries_def)

lemma ensure_table_ok:
  assumes "palloc_ok palloc" "wf (Suc k) I st t" "i \<in> I" "I \<subseteq> {..<512}"
  shows "(\<exists>st1. ensure_table palloc kern t i st = Some st1 \<and> maps (Suc k) I kern t s s p st st1 \<and> IsPresent (table_entry st1 t i)
      \<and> shared_kernel_pml4e_entries st1 = shared_kernel_pml4e_entries st)
    \<or> ensure_table palloc kern t i st = None \<and> runs_out palloc st"
proof (cases "IsPresent (table_entry st t i)")
  case True
  then show ?thesis using maps_refl [OF assms(2)] by (auto simp: ensure_table_def)
next
  case False
  from CreateNewTable_ok [OF assms(1), of st] show ?thesis
  proof (elim disjE exE conjE)
    fix a st1 assume a: "CreateNewTable palloc st = Some (a, st1)" "valid_table a" "a \<notin> used_tables st"
      "used_tables st1 = insert a (used_tables st)" "freed_frames st1 = freed_frames st"
      "shared_kernel_pml4e_entries st1 = shared_kernel_pml4e_entries st"
      "\<forall>i < 512. \<not> IsPresent (table_entry st1 a i)" "\<forall>u. valid_table u \<and> u \<noteq> a \<longrightarrow> same_entries st st1 u"
    obtain q where q: "KernelToPhys a = 4096 * q" "q < 2 ^ 40" "PhysToKernel (KernelToPhys a) = a" using valid_phys [OF a(2)] .
    obtain e where e: "SetEntry (4096 * q) True True kern = Some e" "IsPresent e" "GetBaseAddress e = 4096 * q"
      using SetEntry_present [OF q(2)] by metis
    have "child e = a" using q e(3) by (simp add: child_def)
    then have "maps (Suc k) I kern t s s p st (set_entry t i e st1)"
      using maps_new_child [OF assms(2-4) False a(2-5) a(7,8) e(2)] by blast
    then show ?thesis using False a(1,6) e q by (simp add: ensure_table_def)
  qed (use False in \<open>auto simp: ensure_table_def\<close>)
qed

lemma mark_user_ok:
  assumes "wf (Suc k) I st t" "i \<in> I" "I \<subseteq> {..<512}" "IsPresent (table_entry st t i)"
  shows "maps (Suc k) I kern t s s p st (mark_user kern t i st)" "IsPresent (table_entry (mark_user kern t i st) t i)"
    "\<not> kern \<longrightarrow> IsUserAccessible (table_entry (mark_user kern t i st) t i)"
  using maps_update_top [OF assms, of "SetUserAccessible (table_entry st t i)"] maps_refl [OF assms(1)] assms(4)
  by (auto simp: mark_user_def SetUserAccessible_keeps child_def)

section \<open>The loops\<close>

lemma entry_ready:
  assumes "palloc_ok palloc" "wf (Suc k) I st t" "i \<in> I" "I \<subseteq> {..<512}"
  shows "(\<exists>st1. ensure_table palloc kern t i st = Some st1 \<and> maps (Suc k) I kern t s s p st (mark_user kern t i st1)
      \<and> IsPresent (table_entry (mark_user kern t i st1) t i) \<and> (\<not> kern \<longrightarrow> IsUserAccessible (table_entry (mark_user kern t i st1) t i)))
    \<or> ensure_table palloc kern t i st = None \<and> runs_out palloc st"
  using ensure_table_ok [OF assms, of kern s p]
proof (elim disjE exE conjE)
  fix st1 assume 1: "ensure_table palloc kern t i st = Some st1" "maps (Suc k) I kern t s s p st st1" "IsPresent (table_entry st1 t i)"
  have "wf (Suc k) I st1 t" using 1(2) by (simp add: maps_def)
  note 2 = mark_user_ok(1) [OF this assms(3,4) 1(3), of kern s p] mark_user_ok(2,3) [OF this assms(3,4) 1(3), of kern]
  have "maps (Suc k) I kern t s s p st (mark_user kern t i st1)" using maps_trans [OF 1(2), of s "mark_user kern t i st1"] 2(1) by simp
  then show ?thesis using 1(1) 2 by auto
qed simp

lemma div_max:
  fixes s c P :: nat
  assumes "0 < P" "s div P \<le> c"
  shows "max s (c * P) div P = c"
proof (cases "s div P = c")
  case True
  then have "c * P \<le> s" by auto
  then show ?thesis using True by (simp add: max_def)
next
  case False
  then have "s div P < c" using assms(2) by simp
  then have "s < c * P" using assms(1) by (simp add: div_less_iff_less_mult)
  then show ?thesis using assms(1) by simp
qed

lemma for_each_maps:
  fixes s e k P :: nat
  assumes P_def: "P = 512 ^ Suc k"
    and wf: "wf (Suc k) I st t" and range: "s < e" "(e - 1) div 512 ^ Suc (Suc k) = s div 512 ^ Suc (Suc k)"
    and body: "\<And>c st1. \<lbrakk>s div P \<le> c; c \<le> (e - 1) div P; wf (Suc k) I st1 t; used_tables st \<subseteq> used_tables st1\<rbrakk> \<Longrightarrow>
      (\<exists>st2. body (c mod 512) st1 = Some st2
         \<and> maps (Suc k) I kern t (max s (c * P)) (min e ((c + 1) * P)) (p + (max s (c * P) - s)) st1 st2)
      \<or> body (c mod 512) st1 = None \<and> runs_out palloc st1"
  shows "(\<exists>st'. for_each body [s div P mod 512 ..< (e - 1) div P mod 512 + 1] st = Some st' \<and> maps (Suc k) I kern t s e p st st')
    \<or> for_each body [s div P mod 512 ..< (e - 1) div P mod 512 + 1] st = None \<and> runs_out palloc st"
proof -
  let ?c0 = "s div P" and ?c1 = "(e - 1) div P"
  have P: "0 < P" by (simp add: P_def)
  have PP: "x div 512 ^ Suc (Suc k) = x div P div 512" for x :: nat
    unfolding P_def by (simp only: power_Suc2 [of _ "Suc k"] div_mult2_eq)
  have same: "?c1 div 512 = ?c0 div 512" using range(2) unfolding PP .
  have c01: "?c0 \<le> ?c1" using range(1) by (simp add: div_le_mono)
  have block: "c div 512 = ?c0 div 512" if "?c0 \<le> c" "c \<le> ?c1" for c
    using div_le_mono [OF that(1), of 512] div_le_mono [OF that(2), of 512] same by simp
  have start: "(\<exists>st'. for_each body [c mod 512 ..< ?c1 mod 512 + 1] st1 = Some st' \<and> maps (Suc k) I kern t (max s (c * P)) e (p + (max s (c * P) - s)) st1 st')
      \<or> for_each body [c mod 512 ..< ?c1 mod 512 + 1] st1 = None \<and> runs_out palloc st1"
    if "?c0 \<le> c" "c \<le> ?c1" "wf (Suc k) I st1 t" "used_tables st \<subseteq> used_tables st1" for c st1
    using that(2,1,3,4)
  proof (induction c arbitrary: st1 rule: inc_induct)
    case base
    have "e \<le> (?c1 + 1) * P" using range(1) P by (metis Suc_eq_plus1 Suc_leI Suc_pred dividend_less_div_times add.commute div_less_iff_less_mult lessI less_nat_zero_code mult.commute not_gr_zero One_nat_def)
    then have "min e ((?c1 + 1) * P) = e" by simp
    moreover have "[?c1 mod 512 ..< ?c1 mod 512 + 1] = [?c1 mod 512]" by simp
    ultimately show ?case using body [OF c01 order_refl base(2,3)] by auto
  next
    case (step c)
    have c: "?c0 \<le> c" "c < ?c1" "c \<le> ?c1" using step by auto
    have m: "?c1 mod 512 = ?c1 - ?c0 div 512 * 512" "c mod 512 = c - ?c0 div 512 * 512" "Suc c mod 512 = Suc c - ?c0 div 512 * 512"
      using same block [OF c(1,3)] block [of "Suc c"] c by (simp_all add: modulo_nat_def)
    have "?c0 div 512 * 512 \<le> c" using c(1) by (meson div_times_less_eq_dividend order_trans)
    then have "c mod 512 < ?c1 mod 512 + 1" "Suc c mod 512 = Suc (c mod 512)"
      unfolding m using diff_less_mono [OF c(2)] by (auto simp: Suc_diff_le less_Suc_eq)
    then have list: "[c mod 512 ..< ?c1 mod 512 + 1] = c mod 512 # [Suc c mod 512 ..< ?c1 mod 512 + 1]"
      by (simp add: upt_conv_Cons)
    have "(c + 1) * P \<le> ?c1 * P" using c(2) by (intro mult_le_mono1) simp
    also have "\<dots> \<le> e - 1" by simp
    finally have end_le: "(c + 1) * P \<le> e - 1" .
    then have hi: "min e ((c + 1) * P) = (c + 1) * P" by simp
    have lo: "max s (Suc c * P) = Suc c * P"
    proof -
      have "s < (c + 1) * P" using c(1) P by (metis div_less_iff_less_mult le_imp_less_Suc Suc_eq_plus1)
      then show ?thesis by simp
    qed
    have le: "max s (c * P) \<le> (c + 1) * P" using lo by (simp add: max_def split: if_splits)
    have reg: "(c + 1) * P div 512 ^ Suc (Suc k) = max s (c * P) div 512 ^ Suc (Suc k)"
      unfolding PP using P div_max [OF P c(1)] block [OF c(1,3)] block [of "c + 1"] c by simp
    show ?case
      using body [OF c(1,3) step.prems(2,3)]
    proof (elim disjE exE conjE)
      fix st2 assume 2: "body (c mod 512) st1 = Some st2"
        "maps (Suc k) I kern t (max s (c * P)) (min e ((c + 1) * P)) (p + (max s (c * P) - s)) st1 st2"
      have "wf (Suc k) I st2 t" "used_tables st1 \<subseteq> used_tables st2" using 2(2) by (auto simp: maps_def)
      then have ih: "(\<exists>st'. for_each body [Suc c mod 512 ..< ?c1 mod 512 + 1] st2 = Some st'
          \<and> maps (Suc k) I kern t (max s (Suc c * P)) e (p + (max s (Suc c * P) - s)) st2 st')
        \<or> for_each body [Suc c mod 512 ..< ?c1 mod 512 + 1] st2 = None \<and> runs_out palloc st2"
        using step.IH [of st2] c(1) step.prems(3) by auto
      have off: "p + (max s (c * P) - s) + ((c + 1) * P - max s (c * P)) = p + (Suc c * P - s)" using le by auto
      from ih show ?thesis
      proof (elim disjE exE conjE)
        fix st' assume 3: "for_each body [Suc c mod 512 ..< ?c1 mod 512 + 1] st2 = Some st'"
          "maps (Suc k) I kern t (max s (Suc c * P)) e (p + (max s (Suc c * P) - s)) st2 st'"
        have "maps (Suc k) I kern t (max s (c * P)) e (p + (max s (c * P) - s)) st1 st'"
          using maps_trans [OF 2(2), of e st'] 3(2) le reg off lo hi range(1) end_le by simp
        then show ?thesis using 2(1) 3(1) list by auto
      next
        assume "for_each body [Suc c mod 512 ..< ?c1 mod 512 + 1] st2 = None" "runs_out palloc st2"
        then show ?thesis using 2(1) list runs_out_mono [OF _ \<open>used_tables st1 \<subseteq> used_tables st2\<close>] by auto
      qed
    qed (use list in auto)
  qed
  have "max s (?c0 * P) = s" by simp
  with start [OF order_refl c01 wf order_refl] show ?thesis by (simp only: diff_self_eq_0 add_0_right)
qed

end
