(* ===== verification/PagingProps.thy ===== *)
theory PagingProps
  imports PagingRep
begin

text \<open>
  The \<open>Set\<close> functions of the four levels keep the contract of \<open>PagingRep\<close>, each by the one below it,
  so \<open>AllocateTable\<close> maps exactly the range it is given. The top gigabyte of the address space is
  left out: there the ends of the entries wrap around to 0.
\<close>

section \<open>The lowest level\<close>

lemma for_each_append: "for_each body (xs @ ys) st = do { st1 \<leftarrow> for_each body xs st; for_each body ys st1 }"
  by (induction xs arbitrary: st) (auto split: Option.bind_splits)

lemma shift_range:
  fixes a b d s e :: nat
  assumes "a = s - d" "b = e - 1 - d" "d \<le> s" "s < e"
  shows "b + 1 - a = e - s" "a < b + 1" "b + 1 = a + (e - s)"
  using assms by auto

lemma shift_index:
  fixes s e N :: nat
  assumes "N div 512 = s div 512" "s < e"
  shows "(s \<le> N \<and> N < e) = (s mod 512 \<le> N mod 512 \<and> N mod 512 < s mod 512 + (e - s))"
    "s \<le> N \<Longrightarrow> N mod 512 - s mod 512 = N - s"
proof -
  have N: "N = s div 512 * 512 + N mod 512" using div_mult_mod_eq [of N 512] unfolding assms(1) by simp
  have s: "s = s div 512 * 512 + s mod 512" by simp
  have *: "N' = d + n \<Longrightarrow> s' = d + m \<Longrightarrow> s' < e \<Longrightarrow> (s' \<le> N' \<and> N' < e) = (m \<le> n \<and> n < m + (e - s')) \<and> (s' \<le> N' \<longrightarrow> n - m = N' - s')"
    for N' s' d n m :: nat by auto
  show "(s \<le> N \<and> N < e) = (s mod 512 \<le> N mod 512 \<and> N mod 512 < s mod 512 + (e - s))"
    "s \<le> N \<Longrightarrow> N mod 512 - s mod 512 = N - s" using * [OF N s assms(2)] by blast+
qed

definition page_limit :: nat where "page_limit = 2 ^ 52 - 2 ^ 18"

lemma SetPT_ok:
  assumes wf: "wf 0 {..<512} st t" and range: "s < e" "(e - 1) div 512 = s div 512" "e \<le> page_limit" "p + (e - s) \<le> 2 ^ 40"
  shows "\<exists>st'. SetPT (4096 * s) (4096 * e) t kern (4096 * p) st = Some st' \<and> maps 0 {..<512} kern t s e p st st'"
proof -
  let ?a = "s mod 512" and ?b = "(e - 1) mod 512 + 1"
  let ?body = "\<lambda>offset st. let delta = offset - ?a in do {
      w \<leftarrow> SetEntry (add64 (4096 * p) (mul64 delta kPageTableAddressSizePerEntry)) True True kern;
      Some (set_entry t offset w st) }"
  define w where "w j = the (SetEntry (4096 * (p + j)) True True kern)" for j
  have t: "valid_table t" "t \<in> used_tables st" using wf by auto
  have len: "?b - ?a = e - s" "?a < ?b" "?b = ?a + (e - s)" "?b \<le> 512"
  proof -
    have "?a = s - s div 512 * 512" by (simp only: minus_div_mult_eq_mod)
    moreover have "(e - 1) mod 512 = (e - 1) - s div 512 * 512" by (simp only: range(2) [symmetric] minus_div_mult_eq_mod)
    moreover have "s div 512 * 512 \<le> s" by simp
    ultimately show "?b - ?a = e - s" "?a < ?b" "?b = ?a + (e - s)" by (rule shift_range [OF _ _ _ range(1)])+
    show "?b \<le> 512" by (metis Suc_eq_plus1 Suc_leI mod_less_divisor zero_less_numeral)
  qed
  have w: "SetEntry (4096 * (p + j)) True True kern = Some (w j)" "IsPresent (w j)" if "j < e - s" for j
  proof -
    have "p + j < 2 ^ 40" using that range(4) by linarith
    then obtain x where "SetEntry (4096 * (p + j)) True True kern = Some x" "IsPresent x" by (rule SetEntry_present)
    then show "SetEntry (4096 * (p + j)) True True kern = Some (w j)" "IsPresent (w j)" by (simp_all add: w_def)
  qed
  have "\<exists>st'. for_each ?body [?a ..< ?a + n] st = Some st' \<and> used_tables st' = used_tables st \<and> freed_frames st' = freed_frames st
      \<and> (\<forall>i < 512. table_entry st' t i = (if ?a \<le> i \<and> i < ?a + n then w (i - ?a) else table_entry st t i))
      \<and> (\<forall>u. valid_table u \<and> u \<noteq> t \<longrightarrow> same_entries st st' u)" if "n \<le> e - s" for n
    using that
  proof (induction n)
    case 0
    then show ?case by (auto simp: same_entries_def)
  next
    case (Suc n)
    then obtain st1 where 1: "for_each ?body [?a ..< ?a + n] st = Some st1" "used_tables st1 = used_tables st" "freed_frames st1 = freed_frames st"
      "\<forall>i < 512. table_entry st1 t i = (if ?a \<le> i \<and> i < ?a + n then w (i - ?a) else table_entry st t i)"
      "\<forall>u. valid_table u \<and> u \<noteq> t \<longrightarrow> same_entries st st1 u" by auto
    have n: "n < e - s" using Suc.prems by simp
    then have "?a + n < ?a + (e - s)" by simp
    also have "\<dots> \<le> 512" using len(3,4) by simp
    finally have n2: "?a + n < 512" .
    have "add64 (4096 * p) (mul64 n kPageTableAddressSizePerEntry) = 4096 * (p + n)"
      using n range(4) by (simp add: kPageTableAddressSizePerEntry_def add64_id mul64_id)
    then have "?body (?a + n) st1 = Some (set_entry t (?a + n) (w n) st1)" using w(1) [OF n] by simp
    moreover have "same_entries st (set_entry t (?a + n) (w n) st1) u" if "valid_table u" "u \<noteq> t" for u
      using 1(5) that entry_set_other [OF t(1) that(1) _ n2] by (auto simp: same_entries_def)
    moreover have "[?a ..< ?a + Suc n] = [?a ..< ?a + n] @ [?a + n]" by simp
    ultimately show ?case using 1 by (auto simp: for_each_append less_Suc_eq simp del: upt_Suc)
  qed
  from this [OF order_refl] obtain st' where st': "for_each ?body [?a ..< ?a + (e - s)] st = Some st'" "used_tables st' = used_tables st"
    "freed_frames st' = freed_frames st"
    "\<forall>i < 512. table_entry st' t i = (if ?a \<le> i \<and> i < ?a + (e - s) then w (i - ?a) else table_entry st t i)"
    "\<forall>u. valid_table u \<and> u \<noteq> t \<longrightarrow> same_entries st st' u" by blast
  have "GetPTOffset (4096 * s) = ?a" "GetPTOffset (sub64 (4096 * e) 1) = (e - 1) mod 512"
  proof -
    have "(4096 * e - 1) div 4096 = e - 1" using range(1) by (simp add: div_eq_dividend_iff algebra_simps)
    then show "GetPTOffset (4096 * s) = ?a" "GetPTOffset (sub64 (4096 * e) 1) = (e - 1) mod 512"
      using range(1,3) by (simp_all add: GetPTOffset_def sub64_id page_limit_def)
  qed
  then have "SetPT (4096 * s) (4096 * e) t kern (4096 * p) st = Some st'"
    using st'(1) t(1) unfolding SetPT_def Let_def by (simp only: len(3) valid_table_def leD if_False)
  moreover have "maps 0 {..<512} kern t s e p st st'" unfolding maps_def
  proof (intro conjI allI impI)
    show "wf 0 {..<512} st' t" using t st'(2) by simp
  next
    fix N assume N: "N div 512 ^ Suc 0 = s div 512 ^ Suc 0 \<and> N div 512 ^ 0 mod 512 \<in> {..<512::nat}"
    have e: "table_entry st' t (N mod 512) = (if ?a \<le> N mod 512 \<and> N mod 512 < ?a + (e - s) then w (N mod 512 - ?a) else table_entry st t (N mod 512))"
      using st'(4) by simp
    have r: "(s \<le> N \<and> N < e) = (?a \<le> N mod 512 \<and> N mod 512 < ?a + (e - s))" "s \<le> N \<Longrightarrow> N mod 512 - ?a = N - s"
      using shift_index [of N s e] N range(1) by auto
    show "walks_to 0 {..<512} kern t s e p st st' N"
    proof (cases "s \<le> N \<and> N < e")
      case True
      then have "N - s < e - s" by auto
      then have "SetEntry (4096 * (p + (N - s))) True True kern = Some (w (N - s))" "IsPresent (w (N - s))" using w by blast+
      moreover have "table_entry st' t (N mod 512) = w (N - s)" using e r True by simp
      ultimately show ?thesis using True by (simp add: walks_to_def Let_def del: distrib_left)
    next
      case False
      then have "table_entry st' t (N mod 512) = table_entry st t (N mod 512)"
        using e by (simp only: r(1) [symmetric] False if_False)
      then show ?thesis using False by (auto simp: walks_to_def)
    qed
  qed (use st' in \<open>auto simp: same_entries_def\<close>)
  ultimately show ?thesis by blast
qed

section \<open>From one level to the next\<close>

text \<open>\<open>SetPDT\<close> and \<open>SetPDPT\<close> are one function of the width of an entry and the level below.\<close>

definition set_level ::
  "palloc \<Rightarrow> nat \<Rightarrow> (nat \<Rightarrow> nat \<Rightarrow> nat \<Rightarrow> bool \<Rightarrow> nat \<Rightarrow> paging \<Rightarrow> paging option) \<Rightarrow>
    nat \<Rightarrow> nat \<Rightarrow> nat \<Rightarrow> bool \<Rightarrow> nat \<Rightarrow> paging \<Rightarrow> paging option" where
  "set_level palloc w next_level start_addr end_addr base kern phys st =
     (if base < kKernelVirtualOffset then None
      else for_each (\<lambda>offset st.
        do {
          st1 \<leftarrow> ensure_table palloc kern base offset st;
          let st2 = mark_user kern base offset st1;
          let delta = offset - start_addr div w mod 512;
          let next_start = max start_addr (add64 (start_addr div w * w) (mul64 delta w));
          next_level next_start (min end_addr (add64 (start_addr div w * w) (mul64 (delta + 1) w)))
            (child (table_entry st2 base offset)) kern (add64 phys (sub64 next_start start_addr)) st2
        }) [start_addr div w mod 512 ..< sub64 end_addr 1 div w mod 512 + 1] st)"

lemma SetPDT_level: "SetPDT palloc = set_level palloc (2 ^ 21) SetPT"
  by (intro ext) (simp add: SetPDT_def set_level_def Let_def GetPDOffset_def GetPDStartAddr_def kPDTableAddressSizePerEntry_def child_def)

lemma SetPDPT_level: "SetPDPT palloc = set_level palloc (2 ^ 30) (SetPDT palloc)"
  by (intro ext) (simp add: SetPDPT_def set_level_def Let_def GetPDPOffset_def GetPDPStartAddr_def kPDPTableAddressSizePerEntry_def child_def)

definition level_ok ::
  "palloc \<Rightarrow> nat \<Rightarrow> (nat \<Rightarrow> nat \<Rightarrow> nat \<Rightarrow> bool \<Rightarrow> nat \<Rightarrow> paging \<Rightarrow> paging option) \<Rightarrow> bool" where
  "level_ok palloc k set_range \<longleftrightarrow>
     (\<forall>st t s e p kern. wf k {..<512} st t \<and> s < e \<and> (e - 1) div 512 ^ Suc k = s div 512 ^ Suc k \<and> e \<le> page_limit
        \<and> p + (e - s) \<le> 2 ^ 40 \<longrightarrow>
       (\<exists>st'. set_range (4096 * s) (4096 * e) t kern (4096 * p) st = Some st' \<and> maps k {..<512} kern t s e p st st')
       \<or> set_range (4096 * s) (4096 * e) t kern (4096 * p) st = None \<and> runs_out palloc st)"

lemma SetPT_level_ok: "level_ok palloc 0 SetPT"
  unfolding level_ok_def
proof (intro allI impI)
  fix st t s e p kern
  assume "wf 0 {..<512} st t \<and> s < e \<and> (e - 1) div 512 ^ Suc 0 = s div 512 ^ Suc 0 \<and> e \<le> page_limit \<and> p + (e - s) \<le> 2 ^ 40"
  then show "(\<exists>st'. SetPT (4096 * s) (4096 * e) t kern (4096 * p) st = Some st' \<and> maps 0 {..<512} kern t s e p st st')
      \<or> SetPT (4096 * s) (4096 * e) t kern (4096 * p) st = None \<and> runs_out palloc st"
    using SetPT_ok [of st t s e p kern] by (metis power_one_right One_nat_def)
qed

text \<open>The arithmetic of one round: entry c of the table covers the pages from c * P on.\<close>

lemma round_arith:
  fixes s e c P :: nat
  assumes P: "0 < P" and c: "s div P \<le> c" "c \<le> (e - 1) div P" "(e - 1) div P div 512 = s div P div 512" and e: "s < e" "e \<le> 2 ^ 52"
  defines "delta \<equiv> c mod 512 - 4096 * s div (4096 * P) mod 512"
  shows "4096 * s div (4096 * P) = s div P" "(4096 * e - 1) div (4096 * P) = (e - 1) div P"
    "max (4096 * s) (add64 (4096 * s div (4096 * P) * (4096 * P)) (mul64 delta (4096 * P))) = 4096 * max s (c * P)"
    "(c + 1) * P < 2 ^ 52 \<Longrightarrow>
       add64 (4096 * s div (4096 * P) * (4096 * P)) (mul64 (delta + 1) (4096 * P)) = 4096 * ((c + 1) * P)"
    "(c + 1) * P = 2 ^ 52 \<Longrightarrow> add64 (4096 * s div (4096 * P) * (4096 * P)) (mul64 (delta + 1) (4096 * P)) = 0"
proof -
  show 1: "4096 * s div (4096 * P) = s div P" by simp
  have "(4096 * e - 1) div 4096 = e - 1" using e(1) by (simp add: div_eq_dividend_iff algebra_simps)
  then show "(4096 * e - 1) div (4096 * P) = (e - 1) div P" by (simp add: div_mult2_eq)
  have block: "c div 512 = s div P div 512"
    using div_le_mono [OF c(1), of 512] div_le_mono [OF c(2), of 512] c(3) by simp
  have "c mod 512 - s div P mod 512 = c - s div P"
  proof -
    have "c mod 512 = c - s div P div 512 * 512" by (simp only: block [symmetric] minus_div_mult_eq_mod)
    moreover have "s div P mod 512 = s div P - s div P div 512 * 512" by (simp only: minus_div_mult_eq_mod)
    moreover have "s div P div 512 * 512 \<le> s div P" by simp
    ultimately show ?thesis using c(1) by simp
  qed
  then have delta: "delta = c - s div P" by (simp add: delta_def)
  have "c * P \<le> (e - 1) div P * P" using c(2) by simp
  also have "\<dots> \<le> e - 1" by simp
  finally have cP: "c * P < 2 ^ 52" using e by linarith
  have split: "s div P * (4096 * P) + d * (4096 * P) = 4096 * ((s div P + d) * P)" for d by (simp add: algebra_simps)
  have cP': "c * P < 4503599627370496" using cP by simp
  have dP: "delta * P \<le> c * P" "(delta + 1) * P \<le> (c + 1) * P" using delta by simp_all
  have "delta * (4096 * P) = 4096 * (delta * P)" by simp
  then have "delta * (4096 * P) < 18446744073709551616" using cP' dP(1) by linarith
  then have "mul64 delta (4096 * P) = delta * (4096 * P)" by (rule mul64_id)
  moreover have "add64 (s div P * (4096 * P)) (delta * (4096 * P)) = 4096 * (c * P)"
    using split [of delta] delta c(1) cP' by (subst add64_id) (simp_all add: mult.commute)
  ultimately show "max (4096 * s) (add64 (4096 * s div (4096 * P) * (4096 * P)) (mul64 delta (4096 * P))) = 4096 * max s (c * P)"
    unfolding 1 by (simp add: max_def)
  have sum: "s div P * (4096 * P) + (delta + 1) * (4096 * P) = 4096 * ((c + 1) * P)" using split [of "delta + 1"] delta c(1) by simp
  show "add64 (4096 * s div (4096 * P) * (4096 * P)) (mul64 (delta + 1) (4096 * P)) = 4096 * ((c + 1) * P)"
    if "(c + 1) * P < 2 ^ 52"
  proof -
    have that': "(c + 1) * P < 4503599627370496" using that by simp
    have "(delta + 1) * (4096 * P) = 4096 * ((delta + 1) * P)" by simp
    then have "(delta + 1) * (4096 * P) < 18446744073709551616" using that' dP(2) by linarith
    then have "mul64 (delta + 1) (4096 * P) = (delta + 1) * (4096 * P)" by (rule mul64_id)
    then show ?thesis unfolding 1 using sum that by (subst add64_id) simp_all
  qed
  show "add64 (4096 * s div (4096 * P) * (4096 * P)) (mul64 (delta + 1) (4096 * P)) = 0" if "(c + 1) * P = 2 ^ 52"
  proof -
    have wrapped: "add64 a (mul64 b d) = u64 (a + b * d)" for a b d by (simp add: add64_def mul64_def wrap_def mod_add_right_eq)
    show ?thesis unfolding 1 wrapped sum that by (simp add: wrap_def)
  qed
qed

lemma round_range:
  fixes s e c P :: nat
  assumes P: "0 < P" and c: "s div P \<le> c" "c \<le> (e - 1) div P" and e: "s < e"
  shows "max s (c * P) < min e ((c + 1) * P)" "max s (c * P) div P = c" "(min e ((c + 1) * P) - 1) div P = c"
    "(c + 1) * P \<le> e - 1 + P"
proof -
  have "(c + 1) * P \<le> ((e - 1) div P + 1) * P" using c(2) by (intro mult_le_mono1) simp
  also have "\<dots> \<le> e - 1 + P" by (simp add: add_mult_distrib)
  finally show "(c + 1) * P \<le> e - 1 + P" .
  have "c * P \<le> (e - 1) div P * P" using c(2) by simp
  also have "\<dots> \<le> e - 1" by simp
  finally have ce: "c * P < e" using e by linarith
  have "s < (c + 1) * P" using c(1) P by (metis Suc_eq_plus1 div_less_iff_less_mult le_imp_less_Suc)
  then show lt: "max s (c * P) < min e ((c + 1) * P)" using e ce P by (simp add: max_def min_def)
  show s_c: "max s (c * P) div P = c" by (rule div_max [OF P c(1)])
  show "(min e ((c + 1) * P) - 1) div P = c"
  proof (rule le_antisym)
    have "min e ((c + 1) * P) - 1 < (c + 1) * P" using P by (simp add: min_def) linarith
    then show "(min e ((c + 1) * P) - 1) div P \<le> c" using P by (metis Suc_eq_plus1 div_less_iff_less_mult less_Suc_eq_le)
    have "c = max s (c * P) div P" using s_c by simp
    also have "\<dots> \<le> (min e ((c + 1) * P) - 1) div P" using lt by (intro div_le_mono) linarith
    finally show "c \<le> (min e ((c + 1) * P) - 1) div P" .
  qed
qed

text \<open>One round, once the table below the entry is there.\<close>

lemma round_maps:
  fixes s e c P :: nat
  assumes below: "level_ok palloc k next_level" and P: "P = 512 ^ Suc k"
    and range: "s < e" "e \<le> page_limit" "p + (e - s) \<le> 2 ^ 40"
    and c: "s div P \<le> c" "c \<le> (e - 1) div P" "c mod 512 \<in> I" "I \<subseteq> {..<512}"
    and ready: "maps (Suc k) I kern t (max s (c * P)) (max s (c * P)) (p + (max s (c * P) - s)) st1 st2"
      "IsPresent (table_entry st2 t (c mod 512))" "\<not> kern \<longrightarrow> IsUserAccessible (table_entry st2 t (c mod 512))"
  defines "next_st \<equiv> next_level (4096 * max s (c * P)) (4096 * min e ((c + 1) * P)) (child (table_entry st2 t (c mod 512))) kern
      (4096 * (p + (max s (c * P) - s))) st2"
  shows "(\<exists>st3. next_st = Some st3 \<and> maps (Suc k) I kern t (max s (c * P)) (min e ((c + 1) * P)) (p + (max s (c * P) - s)) st1 st3)
    \<or> next_st = None \<and> runs_out palloc st1"
proof -
  let ?s = "max s (c * P)" and ?e = "min e ((c + 1) * P)" and ?p = "p + (max s (c * P) - s)"
  have P0: "0 < P" by (simp add: P)
  note rr = round_range [OF P0 c(1,2) range(1)]
  have wf2: "wf (Suc k) I st2 t" and used: "used_tables st1 \<subseteq> used_tables st2" using ready(1) by (auto simp: maps_def)
  then have "wf k {..<512} st2 (child (table_entry st2 t (c mod 512)))" using ready(2) c(3) by auto
  moreover have "(?e - 1) div 512 ^ Suc k = ?s div 512 ^ Suc k" unfolding P [symmetric] using rr(2,3) by simp
  moreover have "?e \<le> page_limit" "?p + (?e - ?s) \<le> 2 ^ 40" using range rr(1) by linarith+
  ultimately have "(\<exists>st3. next_st = Some st3 \<and> maps k {..<512} kern (child (table_entry st2 t (c mod 512))) ?s ?e ?p st2 st3)
      \<or> next_st = None \<and> runs_out palloc st2"
    using below rr(1) unfolding level_ok_def next_st_def by blast
  then show ?thesis
  proof (elim disjE exE conjE)
    fix st3 assume 3: "next_st = Some st3" "maps k {..<512} kern (child (table_entry st2 t (c mod 512))) ?s ?e ?p st2 st3"
    have "\<forall>N. ?s \<le> N \<and> N < ?e \<longrightarrow> N div 512 ^ Suc k = ?s div 512 ^ Suc k"
    proof (intro allI impI)
      fix N assume N: "?s \<le> N \<and> N < ?e"
      then have "c \<le> N div P" "N div P \<le> c" using div_le_mono [of ?s N P] div_le_mono [of N "?e - 1" P] rr(2,3) by auto
      then show "N div 512 ^ Suc k = ?s div 512 ^ Suc k" unfolding P [symmetric] using rr(2) by simp
    qed
    then have "maps (Suc k) I kern t ?s ?e ?p st2 st3"
      using maps_child [OF wf2 c(3,4) ready(2,3) 3(2)] rr(2) unfolding P [symmetric] by simp
    then have "maps (Suc k) I kern t ?s ?e (?p + (?s - ?s)) st2 st3" by (simp only: diff_self_eq_0 add_0_right)
    then have "maps (Suc k) I kern t ?s ?e ?p st1 st3"
      by (rule maps_trans [OF ready(1) _ order_refl less_imp_le [OF rr(1)] refl])
    then show ?thesis using 3(1) by blast
  next
    assume "next_st = None" "runs_out palloc st2"
    then show ?thesis using runs_out_mono [OF _ used] by blast
  qed
qed

lemma next_phys:
  assumes "max s x < m" "m \<le> e" "e \<le> 4503599627370496" "p + (e - s) \<le> 1099511627776"
  shows "add64 (4096 * p) (sub64 (4096 * max s x) (4096 * s)) = 4096 * (p + (max s x - s))"
proof -
  have b: "4096 * max s x < 18446744073709551616" using assms by linarith
  have "max s x - s \<le> e - s" using assms by linarith
  then have f: "4096 * p + 4096 * (max s x - s) < 18446744073709551616" using assms(4) by linarith
  have "sub64 (4096 * max s x) (4096 * s) = 4096 * max s x - 4096 * s" by (rule sub64_id [OF _ b]) simp
  then show ?thesis using f by (simp add: add64_id diff_mult_distrib2)
qed

lemma level_step:
  assumes below: "level_ok palloc k next_level" and alloc: "palloc_ok palloc" and k: "k < 2" and w: "w = 4096 * 512 ^ Suc k"
  shows "level_ok palloc (Suc k) (set_level palloc w next_level)"
  unfolding level_ok_def
proof (intro allI impI, elim conjE)
  fix st t s e p kern
  assume wf: "wf (Suc k) {..<512} st t" and se: "s < e" "(e - 1) div 512 ^ Suc (Suc k) = s div 512 ^ Suc (Suc k)"
    and lim: "e \<le> page_limit" and frames: "p + (e - s) \<le> 2 ^ 40"
  define P where "P = (512 :: nat) ^ Suc k"
  have P: "0 < P" "P \<le> 2 ^ 18" using k by (auto simp: P_def less_2_cases_iff)
  have w': "w = 4096 * P" by (simp add: w P_def)
  have PP: "x div 512 ^ Suc (Suc k) = x div P div 512" for x :: nat
    unfolding P_def by (simp only: power_Suc2 [of _ "Suc k"] div_mult2_eq)
  note same = se(2) [unfolded PP]
  have lim52: "e \<le> 2 ^ 52" and lim': "e \<le> 4503599627370496" using lim by (simp_all add: page_limit_def)
  have frames': "p + (e - s) \<le> 1099511627776" using frames by simp
  let ?body = "\<lambda>offset st. do {
      st1 \<leftarrow> ensure_table palloc kern t offset st;
      let st2 = mark_user kern t offset st1;
      let delta = offset - 4096 * s div w mod 512;
      let next_start = max (4096 * s) (add64 (4096 * s div w * w) (mul64 delta w));
      next_level next_start (min (4096 * e) (add64 (4096 * s div w * w) (mul64 (delta + 1) w)))
        (child (table_entry st2 t offset)) kern (add64 (4096 * p) (sub64 next_start (4096 * s))) st2 }"
  have body: "(\<exists>st2. ?body (c mod 512) st1 = Some st2
        \<and> maps (Suc k) {..<512} kern t (max s (c * P)) (min e ((c + 1) * P)) (p + (max s (c * P) - s)) st1 st2)
      \<or> ?body (c mod 512) st1 = None \<and> runs_out palloc st1"
    if c: "s div P \<le> c" "c \<le> (e - 1) div P" and wf1: "wf (Suc k) {..<512} st1 t" for c st1
  proof -
    note ar = round_arith [OF P(1) c same se(1) lim52] and rr = round_range [OF P(1) c se(1)]
    let ?s = "max s (c * P)" and ?e = "min e ((c + 1) * P)" and ?p = "p + (max s (c * P) - s)"
    have cP: "(c + 1) * P < 2 ^ 52" using rr(4) lim P(2) se(1) by (simp add: page_limit_def)
    have i: "c mod 512 \<in> {..<512}" by simp
    have next_s: "max (4096 * s) (add64 (4096 * s div w * w) (mul64 (c mod 512 - 4096 * s div w mod 512) w)) = 4096 * ?s"
      unfolding w' by (rule ar(3))
    have next_e: "min (4096 * e) (add64 (4096 * s div w * w) (mul64 (c mod 512 - 4096 * s div w mod 512 + 1) w)) = 4096 * ?e"
      unfolding w' using ar(4) [OF cP] by (simp add: min_def)
    have next_p: "add64 (4096 * p) (sub64 (4096 * ?s) (4096 * s)) = 4096 * ?p"
      by (rule next_phys [OF rr(1) _ lim' frames']) simp
    from entry_ready [OF alloc wf1 i order_refl, of kern ?s ?p] show ?thesis
    proof (elim disjE exE conjE)
      fix st2 assume 2: "ensure_table palloc kern t (c mod 512) st1 = Some st2"
        "maps (Suc k) {..<512} kern t ?s ?s ?p st1 (mark_user kern t (c mod 512) st2)"
        "IsPresent (table_entry (mark_user kern t (c mod 512) st2) t (c mod 512))"
        "\<not> kern \<longrightarrow> IsUserAccessible (table_entry (mark_user kern t (c mod 512) st2) t (c mod 512))"
      have round: "?body (c mod 512) st1 = next_level (4096 * ?s) (4096 * ?e) (child (table_entry (mark_user kern t (c mod 512) st2) t (c mod 512))) kern
          (4096 * ?p) (mark_user kern t (c mod 512) st2)"
        by (simp only: 2(1) Option.bind.simps Let_def next_s next_e next_p)
      show ?thesis unfolding round by (rule round_maps [OF below P_def se(1) lim frames c i order_refl 2(2-4)])
    qed simp
  qed
  have ends: "4096 * s div w mod 512 = s div P mod 512" "sub64 (4096 * e) 1 div w mod 512 = (e - 1) div P mod 512"
  proof -
    have "sub64 (4096 * e) 1 = 4096 * e - 1" using se(1) lim by (intro sub64_id) (auto simp: page_limit_def)
    then show "4096 * s div w mod 512 = s div P mod 512" "sub64 (4096 * e) 1 div w mod 512 = (e - 1) div P mod 512"
      using round_arith(1,2) [OF P(1) order_refl _ same se(1) lim52] se(1) by (simp_all add: w' div_le_mono)
  qed
  have "\<not> t < kKernelVirtualOffset" using wf_valid [OF wf] by (simp add: valid_table_def)
  then have "set_level palloc w next_level (4096 * s) (4096 * e) t kern (4096 * p) st
      = for_each ?body [s div P mod 512 ..< (e - 1) div P mod 512 + 1] st"
    unfolding set_level_def ends by simp
  then show "(\<exists>st'. set_level palloc w next_level (4096 * s) (4096 * e) t kern (4096 * p) st = Some st' \<and> maps (Suc k) {..<512} kern t s e p st st')
      \<or> set_level palloc w next_level (4096 * s) (4096 * e) t kern (4096 * p) st = None \<and> runs_out palloc st"
    using for_each_maps [OF P_def wf se body] by simp
qed

lemma SetPDT_level_ok: "palloc_ok palloc \<Longrightarrow> level_ok palloc 1 (SetPDT palloc)"
  unfolding SetPDT_level using level_step [OF SetPT_level_ok, of palloc "2 ^ 21"] by simp

lemma SetPDPT_level_ok: "palloc_ok palloc \<Longrightarrow> level_ok palloc 2 (SetPDPT palloc)"
proof -
  assume ok: "palloc_ok palloc"
  have "level_ok palloc (Suc 1) (set_level palloc (2 ^ 30) (SetPDT palloc))"
    by (rule level_step [OF SetPDT_level_ok [OF ok] ok]) simp_all
  then show ?thesis unfolding SetPDPT_level Suc_1 .
qed

section \<open>The root\<close>

lemma shared_irrelevant [simp]:
  "table_entry (st\<lparr>shared_kernel_pml4e_entries := x\<rparr>) = table_entry st"
  "walk k (st\<lparr>shared_kernel_pml4e_entries := x\<rparr>) t N = walk k st t N"
  "user_path k (st\<lparr>shared_kernel_pml4e_entries := x\<rparr>) t N = user_path k st t N"
  "foot k I (st\<lparr>shared_kernel_pml4e_entries := x\<rparr>) t = foot k I st t"
  "wf k I (st\<lparr>shared_kernel_pml4e_entries := x\<rparr>) t = wf k I st t"
proof -
  let ?st = "st\<lparr>shared_kernel_pml4e_entries := x\<rparr>"
  show top: "table_entry ?st = table_entry st" by (intro ext) (simp add: table_entry_def)
  show "walk k ?st t N = walk k st t N" by (induction k arbitrary: t) (simp_all add: top Let_def)
  show "user_path k ?st t N = user_path k st t N" by (induction k arbitrary: t) (simp_all add: top Let_def)
  show foot: "foot k I ?st t = foot k I st t" for k I t by (induction k arbitrary: I t) (simp_all add: top)
  show "wf k I ?st t = wf k I st t" by (induction k arbitrary: I t) (simp_all add: top foot)
qed

lemma maps_shared: "maps k I kern t s e p st (st'\<lparr>shared_kernel_pml4e_entries := x\<rparr>) = maps k I kern t s e p st st'"
  by (simp add: maps_def walks_to_def same_entries_def)

lemma mark_user_shared:
  "mark_user kern t i (st\<lparr>shared_kernel_pml4e_entries := x\<rparr>) = (mark_user kern t i st)\<lparr>shared_kernel_pml4e_entries := x\<rparr>"
  by (simp add: mark_user_def set_entry_def)

lemma ensure_pdpt_eq:
  "ensure_pdpt palloc kern start_addr t i st = None \<longleftrightarrow> ensure_table palloc kern t i st = None"
  "ensure_table palloc kern t i st = Some st1 \<Longrightarrow> \<exists>x. ensure_pdpt palloc kern start_addr t i st = Some (st1\<lparr>shared_kernel_pml4e_entries := x\<rparr>)"
proof -
  have id: "st1 = st1\<lparr>shared_kernel_pml4e_entries := shared_kernel_pml4e_entries st1\<rparr>" for st1 :: paging by simp
  show "ensure_pdpt palloc kern start_addr t i st = None \<longleftrightarrow> ensure_table palloc kern t i st = None"
  proof (cases "IsPresent (table_entry st t i)")
    case True
    then show ?thesis by (simp add: ensure_pdpt_def ensure_table_def)
  next
    case False
    then show ?thesis by (cases "ensure_table palloc kern t i st") (simp_all add: ensure_pdpt_def)
  qed
  show "\<exists>x. ensure_pdpt palloc kern start_addr t i st = Some (st1\<lparr>shared_kernel_pml4e_entries := x\<rparr>)" if "ensure_table palloc kern t i st = Some st1"
  proof (cases "IsPresent (table_entry st t i)")
    case True
    then have "ensure_pdpt palloc kern start_addr t i st = Some st1" using that by (simp add: ensure_pdpt_def ensure_table_def)
    then show ?thesis using id [of st1] by metis
  next
    case False
    show ?thesis unfolding ensure_pdpt_def that using False id [of st1] by (simp, metis)
  qed
qed

lemma entry_ready_pdpt:
  assumes "palloc_ok palloc" "wf 3 I st t" "i \<in> I" "I \<subseteq> {..<512}"
  shows "(\<exists>st1. ensure_pdpt palloc kern start_addr t i st = Some st1 \<and> maps 3 I kern t s s p st (mark_user kern t i st1)
      \<and> IsPresent (table_entry (mark_user kern t i st1) t i) \<and> (\<not> kern \<longrightarrow> IsUserAccessible (table_entry (mark_user kern t i st1) t i)))
    \<or> ensure_pdpt palloc kern start_addr t i st = None \<and> runs_out palloc st"
proof -
  have "(3 :: nat) = Suc 2" by simp
  note ready = entry_ready [of palloc 2 I st t i kern s p, folded this, OF assms]
  show ?thesis
    using ready
  proof (elim disjE exE conjE)
    fix st1 assume 1: "ensure_table palloc kern t i st = Some st1" "maps 3 I kern t s s p st (mark_user kern t i st1)"
      "IsPresent (table_entry (mark_user kern t i st1) t i)" "\<not> kern \<longrightarrow> IsUserAccessible (table_entry (mark_user kern t i st1) t i)"
    obtain x where x: "ensure_pdpt palloc kern start_addr t i st = Some (st1\<lparr>shared_kernel_pml4e_entries := x\<rparr>)"
      using ensure_pdpt_eq(2) [OF 1(1)] by blast
    then show ?thesis using 1(2-4) by (simp add: mark_user_shared maps_shared)
  next
    assume "ensure_table palloc kern t i st = None" "runs_out palloc st"
    then show ?thesis using ensure_pdpt_eq(1) by blast
  qed
qed

lemma next_boundary_eq:
  fixes s e c :: nat
  assumes c: "s div 2 ^ 27 \<le> c" "c \<le> (e - 1) div 2 ^ 27" "(e - 1) div 2 ^ 27 div 512 = s div 2 ^ 27 div 512"
    and e: "s < e" "e \<le> page_limit"
  shows "next_boundary (4096 * s) (4096 * (e - s)) (GetPML4StartAddr (4096 * s)) (c mod 512 - GetPML4Offset (4096 * s))
    = 4096 * min e ((c + 1) * 2 ^ 27)"
proof -
  have lim: "e \<le> 2 ^ 52" "e < 4503599627370496" using e by (simp_all add: page_limit_def)
  have w: "(2 :: nat) ^ 39 = 4096 * 2 ^ 27" by simp
  have sum: "add64 (4096 * s) (4096 * (e - s)) = 4096 * e"
  proof -
    have "4096 * s + 4096 * (e - s) = 4096 * e" using e(1) by linarith
    then show ?thesis using lim(2) by (simp add: add64_def wrap_def)
  qed
  note ar = round_arith [where P = "2 ^ 27", OF _ c e(1) lim(1), simplified w [symmetric]]
  have "c * 2 ^ 27 \<le> (e - 1) div 2 ^ 27 * 2 ^ 27" using c(2) by simp
  also have "\<dots> \<le> e - 1" by simp
  finally have "c * 134217728 < 4503599627370496" using lim(2) by simp
  then have "(c + 1) * 2 ^ 27 \<le> 2 ^ 52" by simp
  then consider "(c + 1) * 2 ^ 27 < 2 ^ 52" | "(c + 1) * 2 ^ 27 = 2 ^ 52" by linarith
  then show ?thesis
  proof cases
    case 1
    have boundary: "add64 (4096 * s div 2 ^ 39 * 2 ^ 39) (mul64 (c mod 512 - 4096 * s div 2 ^ 39 mod 512 + 1) (2 ^ 39)) = 4096 * ((c + 1) * 2 ^ 27)"
      unfolding w by (rule round_arith(4) [OF _ c e(1) lim(1) 1]) simp
    have least: "(if 4096 * x \<noteq> 0 then min (4096 * e) (4096 * x) else 4096 * e) = 4096 * min e x" if "0 < x" for x :: nat
      using that by (simp add: min_def)
    have "0 < (c + 1) * 2 ^ 27" by simp
    then show ?thesis
      unfolding next_boundary_def GetPML4StartAddr_def GetPML4Offset_def kPML4AddressSizePerEntry_def sum Let_def boundary by (rule least)
  next
    case 2
    have "add64 (4096 * s div 2 ^ 39 * 2 ^ 39) (mul64 (c mod 512 - 4096 * s div 2 ^ 39 mod 512 + 1) (2 ^ 39)) = 0"
      unfolding w by (rule round_arith(5) [OF _ c e(1) lim(1) 2]) simp
    then show ?thesis unfolding next_boundary_def GetPML4StartAddr_def GetPML4Offset_def kPML4AddressSizePerEntry_def sum Let_def 2
      using lim by simp
  qed
qed

lemma SetPML4E_ok:
  fixes kern :: bool
  assumes alloc: "palloc_ok palloc" and wf: "wf 3 I st t" and I: "I \<subseteq> {..<512}"
    and se: "s < e" "(e - 1) div 512 ^ 4 = s div 512 ^ 4" and lim: "e \<le> page_limit" and frames: "p + (e - s) \<le> 2 ^ 40"
    and inside: "\<forall>c. s div 2 ^ 27 \<le> c \<and> c \<le> (e - 1) div 2 ^ 27 \<longrightarrow> c mod 512 \<in> I"
    and r: "r = SetPML4E palloc (4096 * s) (4096 * (e - s)) t kern (4096 * p) st"
  shows "(\<exists>st'. r = Some st' \<and> maps 3 I kern t s e p st st') \<or> r = None \<and> runs_out palloc st"
proof -
  have P: "(2 :: nat) ^ 27 = 512 ^ Suc 2" and three: "Suc 2 = 3" and four: "Suc (Suc 2) = 4" by simp_all
  have P0: "0 < (2 :: nat) ^ 27" by simp
  have PP: "x div 512 ^ 4 = x div 2 ^ 27 div 512" for x :: nat by (simp add: div_mult2_eq [symmetric])
  note same = se(2) [unfolded PP]
  have lim52: "e \<le> 2 ^ 52" and lim': "e \<le> 4503599627370496" using lim by (simp_all add: page_limit_def)
  have frames': "p + (e - s) \<le> 1099511627776" using frames by simp
  let ?body = "\<lambda>offset st. do {
      st1 \<leftarrow> ensure_pdpt palloc kern (4096 * s) t offset st;
      let st2 = mark_user kern t offset st1;
      let pdpt_base_addr = PhysToKernel (GetBaseAddress (table_entry st2 t offset));
      let delta = offset - GetPML4Offset (4096 * s);
      let pdpt_start_addr = max (4096 * s) (add64 (GetPML4StartAddr (4096 * s)) (mul64 delta kPML4AddressSizePerEntry));
      let pdpt_end_addr = next_boundary (4096 * s) (4096 * (e - s)) (GetPML4StartAddr (4096 * s)) delta;
      let physical_addr_offset = sub64 pdpt_start_addr (4096 * s);
      SetPDPT palloc pdpt_start_addr pdpt_end_addr pdpt_base_addr kern (add64 (4096 * p) physical_addr_offset) st2 }"
  have body: "(\<exists>st2. ?body (c mod 512) st1 = Some st2
        \<and> maps (Suc 2) I kern t (max s (c * 2 ^ 27)) (min e ((c + 1) * 2 ^ 27)) (p + (max s (c * 2 ^ 27) - s)) st1 st2)
      \<or> ?body (c mod 512) st1 = None \<and> runs_out palloc st1"
    if c: "s div 2 ^ 27 \<le> c" "c \<le> (e - 1) div 2 ^ 27" and wf1: "wf (Suc 2) I st1 t" for c st1
  proof -
    note rr = round_range [OF P0 c se(1)]
    let ?s = "max s (c * 2 ^ 27)" and ?e = "min e ((c + 1) * 2 ^ 27)" and ?p = "p + (max s (c * 2 ^ 27) - s)"
    have i: "c mod 512 \<in> I" using inside c by blast
    have next_s: "max (4096 * s) (add64 (GetPML4StartAddr (4096 * s)) (mul64 (c mod 512 - GetPML4Offset (4096 * s)) kPML4AddressSizePerEntry)) = 4096 * ?s"
    proof -
      have w: "(2 :: nat) ^ 39 = 4096 * 2 ^ 27" by simp
      show ?thesis unfolding GetPML4StartAddr_def GetPML4Offset_def kPML4AddressSizePerEntry_def w
        by (rule round_arith(3) [OF P0 c same se(1) lim52])
    qed
    note next_e = next_boundary_eq [OF c same se(1) lim]
    have next_p: "add64 (4096 * p) (sub64 (4096 * ?s) (4096 * s)) = 4096 * ?p"
      by (rule next_phys [OF rr(1) _ lim' frames']) simp
    from entry_ready_pdpt [OF alloc wf1 [unfolded three] i I, of kern "4096 * s" ?s ?p] show ?thesis
    proof (elim disjE exE conjE)
      fix st2 assume 2: "ensure_pdpt palloc kern (4096 * s) t (c mod 512) st1 = Some st2"
        "maps 3 I kern t ?s ?s ?p st1 (mark_user kern t (c mod 512) st2)"
        "IsPresent (table_entry (mark_user kern t (c mod 512) st2) t (c mod 512))"
        "\<not> kern \<longrightarrow> IsUserAccessible (table_entry (mark_user kern t (c mod 512) st2) t (c mod 512))"
      have round: "?body (c mod 512) st1 = SetPDPT palloc (4096 * ?s) (4096 * ?e) (child (table_entry (mark_user kern t (c mod 512) st2) t (c mod 512))) kern
          (4096 * ?p) (mark_user kern t (c mod 512) st2)"
        by (simp only: 2(1) Option.bind.simps Let_def next_s next_e next_p child_def)
      show ?thesis unfolding round
        by (rule round_maps [OF SetPDPT_level_ok [OF alloc] P se(1) lim frames c i I 2(2) [folded three] 2(3,4)])
    qed simp
  qed
  have ends: "GetPML4Offset (4096 * s) = s div 2 ^ 27 mod 512"
    "GetPML4Offset (sub64 (add64 (4096 * s) (4096 * (e - s))) 1) = (e - 1) div 2 ^ 27 mod 512"
  proof -
    have "4096 * s + 4096 * (e - s) = 4096 * e" using se(1) by linarith
    then have "add64 (4096 * s) (4096 * (e - s)) = 4096 * e" using lim by (simp add: add64_def wrap_def page_limit_def)
    moreover have "sub64 (4096 * e) 1 = 4096 * e - 1" using se(1) lim by (intro sub64_id) (auto simp: page_limit_def)
    moreover have w: "(2 :: nat) ^ 39 = 4096 * 2 ^ 27" by simp
    moreover have le: "s div 2 ^ 27 \<le> (e - 1) div 2 ^ 27" using se(1) by (intro div_le_mono) simp
    ultimately show "GetPML4Offset (4096 * s) = s div 2 ^ 27 mod 512"
      "GetPML4Offset (sub64 (add64 (4096 * s) (4096 * (e - s))) 1) = (e - 1) div 2 ^ 27 mod 512"
      using round_arith(1,2) [OF P0 order_refl le same se(1) lim52] unfolding GetPML4Offset_def w by metis+
  qed
  have "\<not> t < kKernelVirtualOffset" using wf_valid [OF wf] by (simp add: valid_table_def)
  then have "r = for_each ?body [s div 2 ^ 27 mod 512 ..< (e - 1) div 2 ^ 27 mod 512 + 1] st"
    unfolding r SetPML4E_def ends Let_def by simp
  then show ?thesis
    using for_each_maps [where k = 2 and body = ?body, OF P wf [folded three] se(1) _ body] se(2) unfolding three four by simp
qed

end
