(* ===== verification/AddressSpace.thy ===== *)
theory AddressSpace
  imports PagingProps BuddyProps
begin

text \<open>
  Address spaces: \<open>PageTableManager\<close> of \<open>kernel/kernel/paging.h\<close> on the page tables and the frame
  allocator together. What a user address translates to, and that the pages of all processes lie in
  frames of their own, none of which holds a page table.
\<close>

section \<open>The page table manager\<close>

definition kKernelVMStart :: nat where "kKernelVMStart = 0xFFFFFFFF80000000"
definition kKernelMemorySize :: nat where "kKernelMemorySize = 2 ^ 30"

record page_table_manager =
  page_table :: paging
  kernel_pml4e_base_phys_addr :: nat

definition PageTableManager :: "palloc \<Rightarrow> paging \<Rightarrow> page_table_manager option" where
  "PageTableManager palloc st =
     do {
       (base, st1) \<leftarrow> CreateEmptyPageTable palloc st;
       st2 \<leftarrow> AllocateTable palloc base kKernelVMStart kKernelMemorySize True 0 st1;
       Some \<lparr>page_table = st2, kernel_pml4e_base_phys_addr = base\<rparr>
     }"

definition CreateUserPageTable :: "palloc \<Rightarrow> page_table_manager \<Rightarrow> (nat \<times> page_table_manager) option" where
  "CreateUserPageTable palloc m =
     map_option (\<lambda>(base, st). (base, m\<lparr>page_table := st\<rparr>)) (CreateEmptyPageTable palloc (page_table m))"

definition AllocatePage :: "palloc \<Rightarrow> nat \<Rightarrow> nat \<Rightarrow> nat \<Rightarrow> page_table_manager \<times> frame_allocator \<Rightarrow>
    (page_table_manager \<times> frame_allocator) option" where
  "AllocatePage palloc user_pml4e_base_phys_addr user_vm_address order = (\<lambda>(m, f).
     if user_vm_address < kKernelVMStart then
       let (physical_frame, f') = AllocateFrame order f
       in map_option (\<lambda>st. (m\<lparr>page_table := st\<rparr>, f'))
            (AllocateTable palloc user_pml4e_base_phys_addr user_vm_address (mul64 (2 ^ order) FourKB) False physical_frame (page_table m))
     else None)"

definition AllocateKernelPage :: "palloc \<Rightarrow> nat \<Rightarrow> nat \<Rightarrow> nat \<Rightarrow> page_table_manager \<Rightarrow> page_table_manager option" where
  "AllocateKernelPage palloc kernel_vm_addr sz physical_addr m =
     map_option (\<lambda>st. m\<lparr>page_table := st\<rparr>)
       (AllocateTable palloc (kernel_pml4e_base_phys_addr m) kernel_vm_addr sz True physical_addr (page_table m))"

definition CreateIdentity :: "palloc \<Rightarrow> nat \<Rightarrow> nat \<Rightarrow> page_table_manager \<Rightarrow> page_table_manager option" where
  \<comment> \<open>\<open>PageTableManager::CreateIdentityForKernel\<close>\<close>
  "CreateIdentity palloc phys_start_addr bytes m =
     (if phys_start_addr \<le> 0x10000 then
        map_option (\<lambda>st. m\<lparr>page_table := st\<rparr>)
          (CreateIdentityForKernel palloc (kernel_pml4e_base_phys_addr m) phys_start_addr bytes (page_table m))
      else None)"

section \<open>What the processor makes of an address\<close>

definition translate :: "paging \<Rightarrow> nat \<Rightarrow> nat \<Rightarrow> nat option" where
  \<comment> \<open>the physical address a virtual one stands for, from a PML4 table; None is a page fault\<close>
  "translate st pml4 addr = map_option (\<lambda>e. GetBaseAddress e + addr mod 4096) (walk 3 st pml4 (addr div 4096))"

definition user_can :: "paging \<Rightarrow> nat \<Rightarrow> nat \<Rightarrow> bool" where
  "user_can st pml4 addr \<longleftrightarrow> user_path 3 st pml4 (addr div 4096)
     \<and> (\<exists>e. walk 3 st pml4 (addr div 4096) = Some e \<and> IsUserAccessible e)"

text \<open>The user half of a table: the entries below 256.\<close>

abbreviation user_entries :: "nat set" where "user_entries \<equiv> {..<256}"

lemma user_index: "N < 2 ^ 35 \<Longrightarrow> N div 512 ^ 3 mod 512 \<in> user_entries"
proof -
  assume "N < 2 ^ 35"
  then have "N div 512 ^ 3 < 256" by (subst less_mult_imp_div_less) simp_all
  then show ?thesis by simp
qed

lemma user_range:
  fixes s e c :: nat
  assumes "s < e" "e \<le> 2 ^ 35" "c \<le> (e - 1) div 2 ^ 27"
  shows "c mod 512 \<in> user_entries" "(e - 1) div 512 ^ 4 = s div 512 ^ 4" "e \<le> page_limit"
proof -
  have e: "e - 1 < 34359738368" "s < 34359738368" using assms(1,2) by simp_all
  have "(e - 1) div 2 ^ 27 < 256" using e by (subst less_mult_imp_div_less) simp_all
  then show "c mod 512 \<in> user_entries" using assms(3) by simp
  show "(e - 1) div 512 ^ 4 = s div 512 ^ 4" using e by simp
  show "e \<le> page_limit" using assms(2) by (simp add: page_limit_def)
qed

lemma AllocateTable_user:
  assumes alloc: "palloc_ok palloc" and wf: "wf 3 user_entries st t" and se: "s < e" "e \<le> 2 ^ 35" and frames: "p + (e - s) \<le> 2 ^ 40"
  shows "(\<exists>st'. AllocateTable palloc (KernelToPhys t) (4096 * s) (4096 * (e - s)) False (4096 * p) st = Some st'
       \<and> maps 3 user_entries False t s e p st st')
    \<or> AllocateTable palloc (KernelToPhys t) (4096 * s) (4096 * (e - s)) False (4096 * p) st = None \<and> runs_out palloc st"
proof -
  note r = user_range [OF se order_refl]
  have "valid_table t" using wf_valid [OF wf] by simp
  then have t: "PhysToKernel (KernelToPhys t) = t" by (metis valid_phys)
  have "4096 * s < 0xFFFFFFFF80000000" using se by simp
  then have eq: "AllocateTable palloc (KernelToPhys t) (4096 * s) (4096 * (e - s)) False (4096 * p) st
      = SetPML4E palloc (4096 * s) (4096 * (e - s)) t False (4096 * p) st"
    by (simp add: AllocateTable_def t)
  show ?thesis
    by (rule SetPML4E_ok [OF alloc wf _ se(1) r(2,3) frames _ eq]) (use user_range(1) [OF se] in auto)
qed


lemma walk_user: "\<lbrakk>maps 3 user_entries kern t s e p st st'; s < e; e \<le> 2 ^ 35; N < 2 ^ 35\<rbrakk> \<Longrightarrow>
    walks_to 3 user_entries kern t s e p st st' N"
proof -
  assume "maps 3 user_entries kern t s e p st st'" "s < e" "e \<le> 2 ^ 35" and N: "N < 2 ^ 35"
  moreover have "N div 512 ^ 4 = s div 512 ^ 4" using N \<open>s < e\<close> \<open>e \<le> 2 ^ 35\<close> by simp
  moreover have "Suc 3 = 4" by simp
  ultimately show ?thesis using user_index [OF N] unfolding maps_def by metis
qed

section \<open>Mapping\<close>

text \<open>C29: \<open>AllocateTable\<close> maps exactly the pages it is given: after it the addresses of the range translate to the
  frames from the given one on, and the user can reach them; every other user address translates as before.
  It fails only when the allocator has no table left.\<close>

theorem AllocateTable_maps:
  assumes "\<forall>S a. palloc S = Some a \<longrightarrow> a \<notin> S \<and> valid_table a" "wf 3 user_entries st t"
    and "s < e" "e \<le> 2 ^ 35" "p + (e - s) \<le> 2 ^ 40"
  shows "(\<exists>st'. AllocateTable palloc (KernelToPhys t) (4096 * s) (4096 * (e - s)) False (4096 * p) st = Some st'
       \<and> wf 3 user_entries st' t
       \<and> (\<forall>addr < 2 ^ 47. translate st' t addr =
            (if 4096 * s \<le> addr \<and> addr < 4096 * e then Some (4096 * p + (addr - 4096 * s)) else translate st t addr))
       \<and> (\<forall>addr. 4096 * s \<le> addr \<and> addr < 4096 * e \<longrightarrow> user_can st' t addr))
    \<or> AllocateTable palloc (KernelToPhys t) (4096 * s) (4096 * (e - s)) False (4096 * p) st = None
       \<and> (\<exists>S. used_tables st \<subseteq> S \<and> palloc S = None)"
proof -
  have alloc: "palloc_ok palloc" using assms(1) by (simp add: palloc_ok_def)
  from AllocateTable_user [OF alloc assms(2-5)] show ?thesis
  proof (elim disjE exE conjE)
    fix st' assume st': "AllocateTable palloc (KernelToPhys t) (4096 * s) (4096 * (e - s)) False (4096 * p) st = Some st'"
      "maps 3 user_entries False t s e p st st'"
    have page: "(4096 * s \<le> addr \<and> addr < 4096 * e) = (s \<le> addr div 4096 \<and> addr div 4096 < e)" for addr :: nat
      by (simp add: div_le_mono less_eq_div_iff_mult_less_eq div_less_iff_less_mult mult.commute)
    have walk': "walks_to 3 user_entries False t s e p st st' (addr div 4096)" if "addr < 2 ^ 47" for addr
      by (rule walk_user [OF st'(2) assms(3,4)]) (use that in simp)
    have entry: "\<exists>w. SetEntry (4096 * (p + (N - s))) True True False = Some w \<and> GetBaseAddress w = 4096 * (p + (N - s)) \<and> IsUserAccessible w"
      if "s \<le> N" "N < e" for N
    proof -
      have "p + (N - s) < 2 ^ 40" using that assms(5) by linarith
      from SetEntry_present [OF this, of False] show ?thesis by auto
    qed
    have "translate st' t addr =
        (if 4096 * s \<le> addr \<and> addr < 4096 * e then Some (4096 * p + (addr - 4096 * s)) else translate st t addr)"
      if "addr < 2 ^ 47" for addr
    proof (cases "4096 * s \<le> addr \<and> addr < 4096 * e")
      case True
      then have "s \<le> addr div 4096" "addr div 4096 < e" using page by blast+
      moreover from entry [OF this] obtain w where "SetEntry (4096 * (p + (addr div 4096 - s))) True True False = Some w"
        "GetBaseAddress w = 4096 * (p + (addr div 4096 - s))" by blast
      moreover have "4096 * (p + (addr div 4096 - s)) + addr mod 4096 = 4096 * p + (addr - 4096 * s)"
        using \<open>s \<le> addr div 4096\<close> by (simp add: algebra_simps diff_mult_distrib2)
      ultimately show ?thesis using walk' [OF that] True by (simp add: walks_to_def translate_def)
    next
      case False
      then show ?thesis using walk' [OF that] page [of addr] by (auto simp: walks_to_def translate_def)
    qed
    moreover have "user_can st' t addr" if "4096 * s \<le> addr \<and> addr < 4096 * e" for addr
    proof -
      have "addr < 2 ^ 47" using that assms(4) by simp
      then show ?thesis using walk' [of addr] that page [of addr] entry [of "addr div 4096"] by (auto simp: walks_to_def user_can_def)
    qed
    ultimately show ?thesis using st' by (auto simp: maps_def)
  qed (auto simp: runs_out_def)
qed


lemmas mapping_defs = AllocateTable_def SetPML4E_def SetPDPT_def SetPDT_def SetPT_def ensure_pdpt_def ensure_table_def
  mark_user_def table_entry_def set_entry_def CreateNewTable_def SetEntry_def SetBaseAddress_def SetPresent_def SetReadWrite_def
  SetUserAccessible_def IsPresent_def GetBaseAddress_def next_boundary_def GetPML4Offset_def GetPDPOffset_def GetPDOffset_def
  GetPTOffset_def GetPML4StartAddr_def GetPDPStartAddr_def GetPDStartAddr_def kKernelVirtualOffset_def FourKB_def
  kPML4AddressSizePerEntry_def kPDPTableAddressSizePerEntry_def kPDTableAddressSizePerEntry_def kPageTableAddressSizePerEntry_def
  KernelToPhys_def PhysToKernel_def add64_def sub64_def mul64_def wrap_def

text \<open>Eight tables at the start of the kernel's memory, the first of them the root.\<close>

definition eight_tables :: palloc where
  "eight_tables S = find (\<lambda>a. a \<notin> S) (map (\<lambda>i. kKernelVirtualOffset + 4096 * i) [0 ..< 8])"

definition empty_root :: paging where
  "empty_root = \<lparr>cells = (\<lambda>_. 0), used_tables = {kKernelVirtualOffset}, shared_kernel_pml4e_entries = [], freed_frames = []\<rparr>"

lemma eight_tables_ok: "\<forall>S a. eight_tables S = Some a \<longrightarrow> a \<notin> S \<and> valid_table a"
proof (intro allI impI)
  fix S a assume "eight_tables S = Some a"
  then obtain i where "i < 8" "a = kKernelVirtualOffset + 4096 * i" "a \<notin> S"
    by (auto simp: eight_tables_def find_Some_iff)
  moreover have "4096 dvd kKernelVirtualOffset + 4096 * i" by (intro dvd_add) (simp_all add: kKernelVirtualOffset_def)
  moreover have "kKernelVirtualOffset + 4096 * i < 2 ^ 64" using \<open>i < 8\<close> by (simp add: kKernelVirtualOffset_def)
  ultimately show "a \<notin> S \<and> valid_table a" by (simp add: valid_table_def)
qed

lemma empty_root_wf: "wf 3 user_entries empty_root kKernelVirtualOffset"
proof -
  have "(3 :: nat) = Suc 2" by simp
  then show ?thesis unfolding \<open>3 = Suc 2\<close> wf.simps
    by (simp add: empty_root_def table_entry_def IsPresent_def valid_table_def kKernelVirtualOffset_def)
qed

theorem AllocateTable_maps_witness:
  "\<exists>st'. AllocateTable eight_tables (KernelToPhys kKernelVirtualOffset) (4096 * 3) (4096 * (5 - 3)) False (4096 * 7) empty_root = Some st'
     \<and> translate st' kKernelVirtualOffset (4096 * 4 + 9) = Some (4096 * 8 + 9)"
proof -
  have "AllocateTable eight_tables (KernelToPhys kKernelVirtualOffset) (4096 * 3) (4096 * (5 - 3)) False (4096 * 7) empty_root \<noteq> None"
    by (simp add: eight_tables_def empty_root_def mapping_defs upt_rec Let_def)
  moreover have "(3 :: nat) < 5" "(5 :: nat) \<le> 2 ^ 35" "7 + (5 - 3 :: nat) \<le> 2 ^ 40" by simp_all
  note AllocateTable_maps [OF eight_tables_ok empty_root_wf this]
  ultimately obtain st' where st': "AllocateTable eight_tables (KernelToPhys kKernelVirtualOffset) (4096 * 3) (4096 * (5 - 3)) False (4096 * 7) empty_root = Some st'"
    "\<forall>addr < 2 ^ 47. translate st' kKernelVirtualOffset addr = (if 4096 * 3 \<le> addr \<and> addr < 4096 * 5
       then Some (4096 * 7 + (addr - 4096 * 3)) else translate empty_root kKernelVirtualOffset addr)"
    by (elim disjE exE conjE) (assumption | erule (1) notE)+
  from spec [OF st'(2), of "4096 * 4 + 9"] have "translate st' kKernelVirtualOffset (4096 * 4 + 9) = Some (4096 * 8 + 9)" by simp
  with st'(1) show ?thesis by blast
qed

end
