(* ===== verification/Isolation.thy ===== *)
theory Isolation
  imports AddressSpace
begin

text \<open>
  Processes are kept apart: whatever the kernel maps and in whatever order, each page of each process
  lies in a frame of its own, outside the kernel's memory, so no process reaches the page tables.
\<close>

section \<open>What one mapping leaves to the others\<close>

lemma maps_others:
  assumes maps: "maps 3 I kern t s e p st st'" and wf: "wf 3 J st r" and J: "J \<subseteq> {..<512}"
    and apart: "foot 3 J st r \<inter> foot 3 I st t = {}"
  shows "wf 3 J st' r" "foot 3 J st' r = foot 3 J st r" "foot 3 J st' r \<inter> foot 3 I st' t = {}"
    "N div 512 ^ 3 mod 512 \<in> J \<Longrightarrow> walk 3 st' r N = walk 3 st r N"
proof -
  have used: "used_tables st \<subseteq> used_tables st'" using maps by (simp add: maps_def)
  have "same_entries st st' u" if "u \<in> foot 3 J st r" for u
    using foot_used [OF wf that] apart that maps unfolding maps_def by blast
  then have same: "\<forall>u \<in> foot 3 J st r. same_entries st st' u" by blast
  show "wf 3 J st' r" "foot 3 J st' r = foot 3 J st r" "N div 512 ^ 3 mod 512 \<in> J \<Longrightarrow> walk 3 st' r N = walk 3 st r N"
    using same_below [OF same used J] wf by blast+
  moreover have "foot 3 I st' t \<subseteq> foot 3 I st t \<union> (used_tables st' - used_tables st)" using maps by (simp add: maps_def)
  moreover have "foot 3 J st r \<subseteq> used_tables st" using foot_used [OF wf] by blast
  ultimately show "foot 3 J st' r \<inter> foot 3 I st' t = {}" using apart by blast
qed

lemma for_each_keeps:
  assumes "for_each body xs st = Some st'" "Q st" "\<And>i x y. i \<in> set xs \<Longrightarrow> body i x = Some y \<Longrightarrow> Q x \<Longrightarrow> Q y"
  shows "Q st'"
  using assms
proof (induction xs arbitrary: st)
  case (Cons i xs)
  then obtain st1 where "body i st = Some st1" "for_each body xs st1 = Some st'" by (auto split: bind_splits)
  then show ?case using Cons.IH [of st1] Cons.prems(2,3) by (meson list.set_intros)
qed simp

lemma SetPT_shared: "SetPT s e t kern p st = Some st' \<Longrightarrow> shared_kernel_pml4e_entries st' = shared_kernel_pml4e_entries st"
  unfolding SetPT_def Let_def
  by (auto split: if_splits bind_splits dest!: for_each_keeps [where Q = "\<lambda>x. shared_kernel_pml4e_entries x = shared_kernel_pml4e_entries st"])

lemma ensure_table_shared:
  "ensure_table palloc kern t i st = Some st' \<Longrightarrow> shared_kernel_pml4e_entries st' = shared_kernel_pml4e_entries st"
  by (auto simp: ensure_table_def CreateNewTable_def split: if_splits bind_splits)

lemma mark_user_shared_entries [simp]: "shared_kernel_pml4e_entries (mark_user kern t i st) = shared_kernel_pml4e_entries st"
  by (simp add: mark_user_def)

lemma set_level_shared:
  assumes "\<And>s e t p x y. next_level s e t kern p x = Some y \<Longrightarrow> shared_kernel_pml4e_entries y = shared_kernel_pml4e_entries x"
    and "set_level palloc w next_level s e t kern p st = Some st'"
  shows "shared_kernel_pml4e_entries st' = shared_kernel_pml4e_entries st"
proof -
  let ?Q = "\<lambda>x. shared_kernel_pml4e_entries x = shared_kernel_pml4e_entries st"
  show ?thesis
    using assms(2) unfolding set_level_def Let_def
    by (auto split: if_splits bind_splits dest!: for_each_keeps [where Q = ?Q] assms(1) ensure_table_shared)
qed

lemma SetPDPT_shared:
  assumes "SetPDPT palloc s e t kern p st = Some st'"
  shows "shared_kernel_pml4e_entries st' = shared_kernel_pml4e_entries st"
proof -
  have "SetPDT palloc s e t kern p x = Some y \<Longrightarrow> shared_kernel_pml4e_entries y = shared_kernel_pml4e_entries x" for s e t p x y
    unfolding SetPDT_level by (erule set_level_shared [rotated]) (erule SetPT_shared)
  then show ?thesis using assms unfolding SetPDPT_level by (rule set_level_shared)
qed

text \<open>Only entries of the kernel's half are kept for new page tables.\<close>

definition shared_ok :: "paging \<Rightarrow> bool" where
  "shared_ok st \<longleftrightarrow> (\<forall>(i, e) \<in> set (shared_kernel_pml4e_entries st). 256 \<le> i \<and> i < 512)"

lemma ensure_pdpt_shared:
  assumes "ensure_pdpt palloc kern start_addr t i st = Some st'" "shared_ok st" "start_addr \<ge> 0xFFFFFFFF80000000 \<Longrightarrow> 256 \<le> i" "i < 512"
  shows "shared_ok st'"
  using assms ensure_table_shared by (auto simp: ensure_pdpt_def shared_ok_def split: if_splits bind_splits)

lemma SetPML4E_shared:
  assumes "SetPML4E palloc start_addr sz t kern p st = Some st'" "shared_ok st" "start_addr < 2 ^ 64"
  shows "shared_ok st'"
proof -
  have high: "256 \<le> GetPML4Offset start_addr" if "start_addr \<ge> 0xFFFFFFFF80000000"
  proof -
    have "start_addr div 2 ^ 39 < 2 ^ 25" using assms(3) by (simp add: less_mult_imp_div_less)
    moreover have "0xFFFFFFFF80000000 div 2 ^ 39 \<le> start_addr div 2 ^ 39" using that by (rule div_le_mono)
    ultimately have "start_addr div 2 ^ 39 = 33554431" by simp
    then show ?thesis by (simp add: GetPML4Offset_def)
  qed
  have off: "GetPML4Offset x < 512" for x by (simp add: GetPML4Offset_def)
  define body where "body = (\<lambda>offset st. do {
      st1 \<leftarrow> ensure_pdpt palloc kern start_addr t offset st;
      let st2 = mark_user kern t offset st1;
      let pdpt_base_addr = PhysToKernel (GetBaseAddress (table_entry st2 t offset));
      let delta = offset - GetPML4Offset start_addr;
      let pdpt_start_addr = max start_addr (add64 (GetPML4StartAddr start_addr) (mul64 delta kPML4AddressSizePerEntry));
      let pdpt_end_addr = next_boundary start_addr sz (GetPML4StartAddr start_addr) delta;
      let physical_addr_offset = sub64 pdpt_start_addr start_addr;
      SetPDPT palloc pdpt_start_addr pdpt_end_addr pdpt_base_addr kern (add64 p physical_addr_offset) st2 })"
  have round: "\<exists>st1. ensure_pdpt palloc kern start_addr t i x = Some st1 \<and> shared_kernel_pml4e_entries y = shared_kernel_pml4e_entries st1"
    if "body i x = Some y" for i x y
    using that unfolding body_def Let_def by (auto split: bind_splits dest: SetPDPT_shared)
  have loop: "for_each body [GetPML4Offset start_addr ..< GetPML4Offset (sub64 (add64 start_addr sz) 1) + 1] st = Some st'"
    using assms(1) unfolding SetPML4E_def body_def Let_def by (simp split: if_splits)
  show ?thesis
  proof (rule for_each_keeps [where Q = shared_ok, OF loop assms(2)])
    fix i x y
    assume i: "i \<in> set [GetPML4Offset start_addr ..< GetPML4Offset (sub64 (add64 start_addr sz) 1) + 1]" and x: "shared_ok x" and y: "body i x = Some y"
    obtain st1 where st1: "ensure_pdpt palloc kern start_addr t i x = Some st1" "shared_kernel_pml4e_entries y = shared_kernel_pml4e_entries st1"
      using round [OF y] by blast
    have "i < 512" "GetPML4Offset start_addr \<le> i" using i off [of "sub64 (add64 start_addr sz) 1"] by auto
    then have "shared_ok st1" using ensure_pdpt_shared [OF st1(1) x] high by fastforce
    then show "shared_ok y" using st1(2) by (simp add: shared_ok_def)
  qed
qed

section \<open>A new page table\<close>

lemma fold_entries:
  assumes "valid_table a" "\<forall>(i, e) \<in> set es. 256 \<le> i \<and> i < 512"
  defines "fill \<equiv> fold (\<lambda>(i, e). set_entry a i e)"
  shows "(\<forall>u. valid_table u \<and> u \<noteq> a \<longrightarrow> same_entries st (fill es st) u) \<and> (\<forall>i < 256. table_entry (fill es st) a i = table_entry st a i)
    \<and> used_tables (fill es st) = used_tables st \<and> shared_kernel_pml4e_entries (fill es st) = shared_kernel_pml4e_entries st"
  using assms(2)
proof (induction es arbitrary: st)
  case (Cons x es)
  obtain j e where x: "x = (j, e)" "256 \<le> j" "j < 512" using Cons.prems by (cases x) auto
  have "same_entries st (set_entry a j e st) u" if "valid_table u" "u \<noteq> a" for u
    using entry_set_other [OF assms(1) that(1)] that(2) x(3) by (auto simp: same_entries_def)
  then show ?case using Cons.IH [of "set_entry a j e st"] Cons.prems x by (simp add: fill_def same_entries_def)
qed (simp add: same_entries_def fill_def)

lemma CreateEmptyPageTable_ok:
  assumes "palloc_ok palloc" "shared_ok st" "CreateEmptyPageTable palloc st = Some (base, st')"
  shows "\<exists>a. base = KernelToPhys a \<and> valid_table a \<and> a \<notin> used_tables st \<and> used_tables st' = insert a (used_tables st) \<and> shared_ok st'
    \<and> (\<forall>i < 256. \<not> IsPresent (table_entry st' a i)) \<and> (\<forall>u. valid_table u \<and> u \<noteq> a \<longrightarrow> same_entries st st' u)
    \<and> (shared_kernel_pml4e_entries st = [] \<longrightarrow> (\<forall>i < 512. \<not> IsPresent (table_entry st' a i)))"
proof -
  obtain a st1 where a: "CreateNewTable palloc st = Some (a, st1)" "base = KernelToPhys a"
    "st' = fold (\<lambda>(i, e). set_entry a i e) (shared_kernel_pml4e_entries st1) st1"
    using assms(3) by (auto simp: CreateEmptyPageTable_def split: bind_splits)
  have new: "valid_table a" "a \<notin> used_tables st" "used_tables st1 = insert a (used_tables st)"
    "shared_kernel_pml4e_entries st1 = shared_kernel_pml4e_entries st"
    "\<forall>i < 512. \<not> IsPresent (table_entry st1 a i)" "\<forall>u. valid_table u \<and> u \<noteq> a \<longrightarrow> same_entries st st1 u"
    using CreateNewTable_ok [OF assms(1), of st] a(1) by auto
  have es: "\<forall>(i, e) \<in> set (shared_kernel_pml4e_entries st1). 256 \<le> i \<and> i < 512" using assms(2) new(4) by (simp add: shared_ok_def)
  note filled = fold_entries [OF new(1) es, of st1, folded a(3)]
  have "same_entries st st' u" if "valid_table u" "u \<noteq> a" for u
    using filled new(6) that by (simp add: same_entries_def)
  moreover have "shared_kernel_pml4e_entries st = [] \<Longrightarrow> st' = st1" using a(3) new(4) by simp
  moreover have "shared_ok st'" using filled new(4) assms(2) by (simp add: shared_ok_def)
  ultimately show ?thesis using a(2) new filled by auto
qed

section \<open>The spaces of the processes\<close>

text \<open>k is the kernel's table, T are the tables of the processes, L the blocks of frames in use.\<close>

definition spaces_ok :: "paging \<Rightarrow> nat \<Rightarrow> nat set \<Rightarrow> (nat \<times> nat) set \<Rightarrow> bool" where
  "spaces_ok st k T L \<longleftrightarrow> shared_ok st \<and> wf 3 {..<512} st k
     \<and> (\<forall>t \<in> T. wf 3 user_entries st t \<and> foot 3 user_entries st t \<inter> foot 3 {..<512} st k = {})
     \<and> (\<forall>t \<in> T. \<forall>u \<in> T. t \<noteq> u \<longrightarrow> foot 3 user_entries st t \<inter> foot 3 user_entries st u = {})
     \<and> (\<forall>t \<in> T. \<forall>N < 2 ^ 35. \<forall>e. walk 3 st t N = Some e \<longrightarrow>
          4096 dvd GetBaseAddress e \<and> (\<exists>x \<in> L. GetBaseAddress e \<in> region x))
     \<and> (\<forall>t \<in> T. \<forall>u \<in> T. \<forall>N < 2 ^ 35. \<forall>M < 2 ^ 35. \<forall>e w. walk 3 st t N = Some e \<and> walk 3 st u M = Some w
          \<and> GetBaseAddress e = GetBaseAddress w \<longrightarrow> t = u \<and> N = M)"

lemma spaces_kernel:
  assumes ok: "spaces_ok st k T L" and maps: "maps 3 {..<512} True k s e p st st'" and shared: "shared_ok st'"
  shows "spaces_ok st' k T L"
proof -
  have t: "wf 3 user_entries st' t" "foot 3 user_entries st' t = foot 3 user_entries st t"
    "foot 3 user_entries st' t \<inter> foot 3 {..<512} st' k = {}" "N < 2 ^ 35 \<Longrightarrow> walk 3 st' t N = walk 3 st t N" if "t \<in> T" for t N
  proof -
    have t: "wf 3 user_entries st t" "foot 3 user_entries st t \<inter> foot 3 {..<512} st k = {}" using ok that by (simp_all add: spaces_ok_def)
    have "user_entries \<subseteq> {..<512}" by auto
    note o = maps_others [OF maps t(1) this t(2)]
    show "wf 3 user_entries st' t" "foot 3 user_entries st' t = foot 3 user_entries st t"
      "foot 3 user_entries st' t \<inter> foot 3 {..<512} st' k = {}" "N < 2 ^ 35 \<Longrightarrow> walk 3 st' t N = walk 3 st t N"
      using o user_index by blast+
  qed
  have "wf 3 {..<512} st' k" using maps by (simp add: maps_def)
  moreover have "foot 3 user_entries st t \<inter> foot 3 {..<512} st' k = {}" if "t \<in> T" for t using t(2,3) [OF that] by simp
  ultimately show ?thesis using ok shared unfolding spaces_ok_def by (simp add: t(1,2,4))
qed

lemma spaces_new:
  assumes ok: "spaces_ok st k T L" and a: "valid_table a" "a \<notin> used_tables st" "used_tables st' = insert a (used_tables st)"
    "shared_ok st'" "\<forall>i < 256. \<not> IsPresent (table_entry st' a i)" "\<forall>u. valid_table u \<and> u \<noteq> a \<longrightarrow> same_entries st st' u"
  shows "spaces_ok st' k (insert a T) L"
proof -
  have three: "(3 :: nat) = Suc 2" by simp
  have keep: "wf 3 J st' r" "foot 3 J st' r = foot 3 J st r" "a \<notin> foot 3 J st r" "N div 512 ^ 3 mod 512 \<in> J \<Longrightarrow> walk 3 st' r N = walk 3 st r N"
    if "wf 3 J st r" "J \<subseteq> {..<512}" for J r N
  proof -
    have "\<forall>u \<in> foot 3 J st r. same_entries st st' u" using foot_used [OF that(1)] a(2,6) by blast
    moreover have "used_tables st \<subseteq> used_tables st'" using a(3) by blast
    ultimately show "wf 3 J st' r" "foot 3 J st' r = foot 3 J st r" "N div 512 ^ 3 mod 512 \<in> J \<Longrightarrow> walk 3 st' r N = walk 3 st r N"
      using same_below [of 3 J st r st'] that by blast+
    show "a \<notin> foot 3 J st r" using foot_used [OF that(1)] a(2) by blast
  qed
  have new: "wf 3 user_entries st' a" "foot 3 user_entries st' a = {a}" unfolding three wf.simps foot.simps using a(1,3,5) by auto
  have none: "walk 3 st' a N = None" if "N < 2 ^ 35" for N
    using user_index [OF that] a(5) unfolding three walk.simps by (simp add: Let_def)
  have T: "wf 3 user_entries st t" if "t \<in> T" for t using ok that by (simp add: spaces_ok_def)
  have k: "wf 3 {..<512} st k" using ok by (simp add: spaces_ok_def)
  have user: "user_entries \<subseteq> {..<512}" by auto
  have "wf 3 user_entries st' t \<and> foot 3 user_entries st' t = foot 3 user_entries st t \<and> a \<notin> foot 3 user_entries st t
      \<and> (\<forall>N < 2 ^ 35. walk 3 st' t N = walk 3 st t N)" if "t \<in> T" for t
    using keep [OF T [OF that] user] user_index by blast
  moreover have "wf 3 {..<512} st' k" "foot 3 {..<512} st' k = foot 3 {..<512} st k" "a \<notin> foot 3 {..<512} st k"
    using keep(1-3) [OF k] by simp_all
  ultimately show ?thesis
    using ok new none a(4) unfolding spaces_ok_def by (auto simp del: split_paired_Ex split_paired_All)
qed

lemma spaces_page:
  assumes ok: "spaces_ok st k T L" and t: "t \<in> T" and maps: "maps 3 user_entries False t s (s + 2 ^ order) p st st'" and shared: "shared_ok st'"
    and range: "s + 2 ^ order \<le> 2 ^ 35" "p + 2 ^ order \<le> 2 ^ 40" and fresh: "\<forall>x \<in> L. region (4096 * p, order) \<inter> region x = {}"
  shows "spaces_ok st' k T (insert (4096 * p, order) L)"
proof -
  have user: "user_entries \<subseteq> {..<512}" by auto
  have apart: "foot 3 user_entries st u \<inter> foot 3 user_entries st t = {}" "foot 3 {..<512} st k \<inter> foot 3 user_entries st t = {}"
    if "u \<in> T" "u \<noteq> t" for u using ok t that unfolding spaces_ok_def by blast+
  have kt: "foot 3 {..<512} st k \<inter> foot 3 user_entries st t = {}" using ok t unfolding spaces_ok_def by blast
  have wf: "wf 3 {..<512} st k" "u \<in> T \<Longrightarrow> wf 3 user_entries st u" for u using ok by (simp_all add: spaces_ok_def)
  note kernel = maps_others [OF maps wf(1) order_refl kt]
  note others = maps_others [OF maps wf(2) user apart(1)]
  have wf': "wf 3 user_entries st' t" using maps by (simp add: maps_def)
  have walk: "walk 3 st' t N = (if s \<le> N \<and> N < s + 2 ^ order then SetEntry (4096 * (p + (N - s))) True True False else walk 3 st t N)"
    if "N < 2 ^ 35" for N
    using walk_user [OF maps _ range(1) that] by (simp add: walks_to_def)
  have mapped: "walk 3 st' u N = Some e \<Longrightarrow> N < 2 ^ 35 \<Longrightarrow> u \<in> T \<Longrightarrow>
      walk 3 st u N = Some e \<and> (u \<noteq> t \<or> N < s \<or> s + 2 ^ order \<le> N)
      \<or> u = t \<and> s \<le> N \<and> N < s + 2 ^ order \<and> GetBaseAddress e = 4096 * (p + (N - s))" for u N e
  proof -
    assume e: "walk 3 st' u N = Some e" and N: "N < 2 ^ 35" and u: "u \<in> T"
    show ?thesis
    proof (cases "u = t \<and> s \<le> N \<and> N < s + 2 ^ order")
      case True
      then have "p + (N - s) < 2 ^ 40" using range(2) by linarith
      from SetEntry_present [OF this, of False] show ?thesis using e walk [OF N] True by auto
    next
      case False
      then show ?thesis using e walk [OF N] others(4) [OF u u _ user_index [OF N]] by (cases "u = t") auto
    qed
  qed
  have new: "4096 * (p + (N - s)) \<in> region (4096 * p, order)" if "N < s + 2 ^ order" "s \<le> N" for N
    using that by (simp add: region_def) linarith
  have old: "\<exists>x \<in> L. GetBaseAddress e \<in> region x" "4096 dvd GetBaseAddress e" if "walk 3 st u N = Some e" "N < 2 ^ 35" "u \<in> T" for u N e
    using ok that unfolding spaces_ok_def by blast+
  have differ: "GetBaseAddress e \<noteq> 4096 * (p + (M - s))" if "walk 3 st u N = Some e" "N < 2 ^ 35" "u \<in> T" "s \<le> M" "M < s + 2 ^ order" for u N e M
  proof -
    from old(1) [OF that(1-3)] obtain x where "x \<in> L" "GetBaseAddress e \<in> region x" by blast
    then show ?thesis using new [OF that(5,4)] fresh by (metis IntI empty_iff)
  qed
  have frames: "4096 dvd GetBaseAddress e \<and> (\<exists>x \<in> insert (4096 * p, order) L. GetBaseAddress e \<in> region x)"
    if "walk 3 st' u N = Some e" "N < 2 ^ 35" "u \<in> T" for u N e
    using mapped [OF that] old [OF _ that(2,3)] new by fastforce
  have inj: "u = v \<and> N = M" if "u \<in> T" "v \<in> T" "N < 2 ^ 35" "M < 2 ^ 35" "walk 3 st' u N = Some e" "walk 3 st' v M = Some w"
      "GetBaseAddress e = GetBaseAddress w" for u v N M e w
  proof -
    have both: "walk 3 st u N = Some e \<Longrightarrow> walk 3 st v M = Some w \<Longrightarrow> u = v \<and> N = M"
      using ok that(1-4,7) unfolding spaces_ok_def by blast
    show ?thesis using mapped [OF that(5,3,1)] mapped [OF that(6,4,2)] both
        differ [OF _ that(3,1)] differ [OF _ that(4,2)] that(7) by fastforce
  qed
  have feet: "foot 3 user_entries st' u \<inter> foot 3 user_entries st' v = {}" if "u \<in> T" "v \<in> T" "u \<noteq> v" for u v
  proof -
    have "foot 3 user_entries st u \<inter> foot 3 user_entries st v = {}" using ok that unfolding spaces_ok_def by blast
    moreover have "foot 3 user_entries st' t \<inter> foot 3 user_entries st' v = {}" if "v \<noteq> t"
      using others(3) [OF \<open>v \<in> T\<close> \<open>v \<in> T\<close> that] by (simp add: Int_commute)
    ultimately show ?thesis
      using others(2,3) [OF that(1,1)] others(2) [OF that(2,2)] that(3) by (cases "u = t"; cases "v = t") simp_all
  qed
  have kfoot: "wf 3 user_entries st' u \<and> foot 3 user_entries st' u \<inter> foot 3 {..<512} st' k = {}" if "u \<in> T" for u
  proof (cases "u = t")
    case True
    then show ?thesis using wf' kernel(3) by blast
  next
    case False
    have "foot 3 user_entries st u \<inter> foot 3 {..<512} st k = {}" using ok that unfolding spaces_ok_def by blast
    then show ?thesis using others(1,2) [OF that that False] kernel(2) by simp
  qed
  show ?thesis unfolding spaces_ok_def using shared kernel(1) kfoot feet frames inj by blast
qed

section \<open>Runs\<close>

lemma live_inside:
  assumes ok: "buddies_ok f G" and x: "x \<in> live_of f G"
  shows "region x \<subseteq> {kAllocatablePhysicalAddrStart ..< physical_addr_boundary f}"
proof -
  obtain i where i: "i < length (allocators f)" "x \<in> blocks_of (allocators f ! i) (G i)"
    using x by (auto simp: live_of_def)
  have "(i + 1) * kSingleAllocatorSize \<le> length (allocators f) * kSingleAllocatorSize"
    using i(1) by (intro mult_right_mono) simp_all
  then show ?thesis using blocks_inside(1) [OF ok i] ok by (fastforce simp: buddies_ok_def)
qed

lemma fresh_block:
  assumes ok: "buddies_ok f G" and order: "order \<le> 13" and r: "AllocateFrame order f = (a, f')"
  obtains G' p where "buddies_ok f' G'" "live_of f' G' = insert (a, order) (live_of f G)" "a = 4096 * p"
    "\<forall>x \<in> live_of f G. region (a, order) \<inter> region x = {}" "4096 * (p + 2 ^ order) \<le> physical_addr_boundary f'"
proof -
  obtain G' where G': "buddies_ok f' G'" "(a, order) \<notin> live_of f G" "live_of f' G' = insert (a, order) (live_of f G)"
    using AllocateFrame_ok [OF ok order] r by auto
  have live: "(a, order) \<in> live_of f' G'" by (simp add: G'(3))
  have apart: "\<forall>x \<in> live_of f G. region (a, order) \<inter> region x = {}" using live_apart [OF G'(1)] G'(2,3) by blast
  have "4096 dvd a" using aligned(1) [OF G'(1) live] by (rule dvd_mult_left)
  then obtain p where p: "a = 4096 * p" by (auto simp: dvd_def)
  have last: "0 < n \<Longrightarrow> a + (n - 1) \<in> {a ..< a + n}" for n :: nat by auto
  have "a + (4096 * 2 ^ order - 1) \<in> region (a, order)" unfolding region_def by (simp only: prod.case) (rule last, simp)
  then have "a + (4096 * 2 ^ order - 1) < physical_addr_boundary f'" using live_inside [OF G'(1) live] by auto
  then have "4096 * (p + 2 ^ order) \<le> physical_addr_boundary f'" by (simp add: p)
  then show ?thesis using that G'(1,3) p apart by blast
qed

text \<open>\<open>memory_run palloc m f B\<close>: B are the addresses of the page tables of the processes that were
  created; kernel pages, the identity mapping at boot and user pages were mapped in any order.\<close>

definition kernel_ready :: "page_table_manager \<Rightarrow> bool" where
  "kernel_ready m \<longleftrightarrow> shared_ok (page_table m)
     \<and> wf 3 {..<512} (page_table m) (PhysToKernel (kernel_pml4e_base_phys_addr m))
     \<and> KernelToPhys (PhysToKernel (kernel_pml4e_base_phys_addr m)) = kernel_pml4e_base_phys_addr m"

inductive memory_run :: "palloc \<Rightarrow> page_table_manager \<Rightarrow> frame_allocator \<Rightarrow> nat set \<Rightarrow> bool" for palloc where
  start: "kernel_ready m \<Longrightarrow> memory_run palloc m new_frame_allocator {}"
| process: "memory_run palloc m f B \<Longrightarrow> CreateUserPageTable palloc m = Some (base, m') \<Longrightarrow> memory_run palloc m' f (insert base B)"
| page: "memory_run palloc m f B \<Longrightarrow> base \<in> B \<Longrightarrow> order \<le> 13 \<Longrightarrow> s + 2 ^ order \<le> 2 ^ 35 \<Longrightarrow>
    AllocatePage palloc base (4096 * s) order (m, f) = Some (m', f') \<Longrightarrow> physical_addr_boundary f' \<le> 2 ^ 52 \<Longrightarrow>
    memory_run palloc m' f' B"
| kernel_page: "memory_run palloc m f B \<Longrightarrow> 2 ^ 52 - 2 ^ 19 \<le> s \<Longrightarrow> s < e \<Longrightarrow> e \<le> page_limit \<Longrightarrow> p + (e - s) \<le> 2 ^ 40 \<Longrightarrow>
    AllocateKernelPage palloc (4096 * s) (4096 * (e - s)) (4096 * p) m = Some m' \<Longrightarrow> memory_run palloc m' f B"
| identity: "memory_run palloc m f B \<Longrightarrow> s < e \<Longrightarrow> e \<le> 2 ^ 35 \<Longrightarrow>
    CreateIdentity palloc (4096 * s) (4096 * (e - s)) m = Some m' \<Longrightarrow> memory_run palloc m' f B"

definition memory_ok :: "page_table_manager \<Rightarrow> frame_allocator \<Rightarrow> nat set \<Rightarrow> bool" where
  "memory_ok m f B \<longleftrightarrow> kernel_ready m \<and> (\<forall>b \<in> B. KernelToPhys (PhysToKernel b) = b)
     \<and> (\<exists>G. buddies_ok f G
        \<and> spaces_ok (page_table m) (PhysToKernel (kernel_pml4e_base_phys_addr m)) (PhysToKernel ` B) (live_of f G))"

lemma phys_kernel: "valid_table a \<Longrightarrow> PhysToKernel (KernelToPhys a) = a"
  by (metis valid_phys)

lemma memory_process:
  assumes alloc: "palloc_ok palloc" and ok: "memory_ok m f B" and new: "CreateUserPageTable palloc m = Some (base, m')"
  shows "memory_ok m' f (insert base B)"
proof -
  obtain st' where st': "CreateEmptyPageTable palloc (page_table m) = Some (base, st')" "m' = m\<lparr>page_table := st'\<rparr>"
    using new by (auto simp: CreateUserPageTable_def)
  obtain G where G: "buddies_ok f G"
    "spaces_ok (page_table m) (PhysToKernel (kernel_pml4e_base_phys_addr m)) (PhysToKernel ` B) (live_of f G)"
    using ok by (auto simp: memory_ok_def)
  have "shared_ok (page_table m)" using G(2) by (simp add: spaces_ok_def)
  from CreateEmptyPageTable_ok [OF alloc this st'(1)] obtain a where a: "base = KernelToPhys a" "valid_table a" "a \<notin> used_tables (page_table m)"
    "used_tables st' = insert a (used_tables (page_table m))" "shared_ok st'"
    "\<forall>i < 256. \<not> IsPresent (table_entry st' a i)" "\<forall>u. valid_table u \<and> u \<noteq> a \<longrightarrow> same_entries (page_table m) st' u" by blast
  have sp: "spaces_ok st' (PhysToKernel (kernel_pml4e_base_phys_addr m)) (insert a (PhysToKernel ` B)) (live_of f G)"
    by (rule spaces_new [OF G(2) a(2-7)])
  then have "kernel_ready m'" using ok a(5) by (simp add: memory_ok_def kernel_ready_def st'(2) spaces_ok_def)
  moreover have "KernelToPhys (PhysToKernel base) = base" "PhysToKernel base = a" by (simp_all add: a(1) phys_kernel [OF a(2)])
  ultimately show ?thesis using ok G(1) sp by (auto simp: memory_ok_def st'(2))
qed

lemma memory_page:
  assumes alloc: "palloc_ok palloc" and ok: "memory_ok m f B" and base: "base \<in> B" and order: "order \<le> 13"
    and range: "s + 2 ^ order \<le> 2 ^ 35" and new: "AllocatePage palloc base (4096 * s) order (m, f) = Some (m', f')"
    and bound: "physical_addr_boundary f' \<le> 2 ^ 52"
  shows "memory_ok m' f' B"
proof -
  obtain G where G: "buddies_ok f G"
    "spaces_ok (page_table m) (PhysToKernel (kernel_pml4e_base_phys_addr m)) (PhysToKernel ` B) (live_of f G)"
    using ok by (auto simp: memory_ok_def)
  have "(2 :: nat) ^ order \<le> 2 ^ 13" using order by (intro power_increasing) simp_all
  then have size: "mul64 (2 ^ order) FourKB = 4096 * (s + 2 ^ order - s)" by (simp add: FourKB_def mul64_id)
  obtain a st' where frame: "AllocateFrame order f = (a, f')" "m' = m\<lparr>page_table := st'\<rparr>"
    "AllocateTable palloc base (4096 * s) (4096 * (s + 2 ^ order - s)) False a (page_table m) = Some st'"
    using new unfolding AllocatePage_def size by (auto split: if_splits prod.splits)
  from fresh_block [OF G(1) order frame(1)] obtain G' p where G': "buddies_ok f' G'" "live_of f' G' = insert (4096 * p, order) (live_of f G)"
    "a = 4096 * p" "\<forall>x \<in> live_of f G. region (4096 * p, order) \<inter> region x = {}" "4096 * (p + 2 ^ order) \<le> physical_addr_boundary f'" by metis
  let ?t = "PhysToKernel base"
  have t: "?t \<in> PhysToKernel ` B" "KernelToPhys ?t = base" using base ok by (auto simp: memory_ok_def)
  have p: "p + 2 ^ order \<le> 2 ^ 40" using G'(5) bound by simp
  have wf: "wf 3 user_entries (page_table m) ?t" using G(2) t(1) unfolding spaces_ok_def by blast
  have "s < s + 2 ^ order" "p + (s + 2 ^ order - s) \<le> 2 ^ 40" using p by simp_all
  from AllocateTable_user [OF alloc wf this(1) range this(2)] frame(3)
  have maps: "maps 3 user_entries False ?t s (s + 2 ^ order) p (page_table m) st'" unfolding t(2) G'(3) by auto
  have "shared_ok st'"
  proof -
    have "SetPML4E palloc (4096 * s) (4096 * (s + 2 ^ order - s)) ?t False a (page_table m) = Some st'"
      using frame(3) by (simp add: AllocateTable_def split: if_splits)
    moreover have "shared_ok (page_table m)" using G(2) by (simp add: spaces_ok_def)
    ultimately show ?thesis by (rule SetPML4E_shared) (use range in simp)
  qed
  from spaces_page [OF G(2) t(1) maps this range p G'(4)]
  have sp: "spaces_ok st' (PhysToKernel (kernel_pml4e_base_phys_addr m)) (PhysToKernel ` B) (live_of f' G')" unfolding G'(2) .
  then have "kernel_ready m'" using ok by (simp add: memory_ok_def kernel_ready_def frame(2) spaces_ok_def)
  then show ?thesis using ok G'(1) sp by (auto simp: memory_ok_def frame(2))
qed

lemma memory_kernel:
  assumes alloc: "palloc_ok palloc" and ok: "memory_ok m f B"
    and range: "s < e" "(e - 1) div 512 ^ 4 = s div 512 ^ 4" "e \<le> page_limit" "p + (e - s) \<le> 2 ^ 40"
    and set: "SetPML4E palloc (4096 * s) (4096 * (e - s)) (PhysToKernel (kernel_pml4e_base_phys_addr m)) True (4096 * p) (page_table m) = Some st'"
  shows "memory_ok (m\<lparr>page_table := st'\<rparr>) f B"
proof -
  let ?k = "PhysToKernel (kernel_pml4e_base_phys_addr m)"
  obtain G where G: "buddies_ok f G" "spaces_ok (page_table m) ?k (PhysToKernel ` B) (live_of f G)"
    using ok by (auto simp: memory_ok_def)
  have wf: "wf 3 {..<512} (page_table m) ?k" and shared: "shared_ok (page_table m)" using G(2) by (simp_all add: spaces_ok_def)
  have inside: "\<forall>c. s div 2 ^ 27 \<le> c \<and> c \<le> (e - 1) div 2 ^ 27 \<longrightarrow> c mod 512 \<in> {..<512}" by simp
  from SetPML4E_ok [OF alloc wf order_refl range inside refl, of True] set
  have maps: "maps 3 {..<512} True ?k s e p (page_table m) st'" by auto
  have "4096 * s < 2 ^ 64" using range(1,3) by (simp add: page_limit_def)
  then have "shared_ok st'" by (rule SetPML4E_shared [OF set shared])
  from spaces_kernel [OF G(2) maps this] have sp: "spaces_ok st' ?k (PhysToKernel ` B) (live_of f G)" .
  then have "kernel_ready (m\<lparr>page_table := st'\<rparr>)" using ok by (simp add: memory_ok_def kernel_ready_def spaces_ok_def)
  then show ?thesis using ok G(1) sp by (auto simp: memory_ok_def)
qed

lemma kernel_range:
  fixes s e :: nat
  assumes "2 ^ 52 - 2 ^ 19 \<le> s" "s < e" "e \<le> page_limit"
  shows "(e - 1) div 512 ^ 4 = s div 512 ^ 4"
proof -
  have "x div 68719476736 = 65535" if "4503599626846208 \<le> x" "x < 4503599627370496" for x :: nat
    by (rule div_nat_eqI) (use that in simp_all)
  then show ?thesis using assms by (simp add: page_limit_def)
qed

lemma memory_run_ok: "memory_run palloc m f B \<Longrightarrow> palloc_ok palloc \<Longrightarrow> memory_ok m f B"
proof (induction rule: memory_run.induct)
  case (start m)
  have "frame_run new_frame_allocator {}" by (rule frame_run.start)
  then obtain G where G: "buddies_ok new_frame_allocator G" "live_of new_frame_allocator G = {}" using frame_run_ok by blast
  have "spaces_ok (page_table m) (PhysToKernel (kernel_pml4e_base_phys_addr m)) {} {}"
    using start by (simp add: kernel_ready_def spaces_ok_def)
  then show ?case using start G by (auto simp: memory_ok_def)
next
  case (process m f B base m')
  then show ?case using memory_process by blast
next
  case (page m f B base order s m' f')
  then show ?case using memory_page by blast
next
  case (kernel_page m f B s e p m')
  obtain st' where st': "m' = m\<lparr>page_table := st'\<rparr>"
    "AllocateTable palloc (kernel_pml4e_base_phys_addr m) (4096 * s) (4096 * (e - s)) True (4096 * p) (page_table m) = Some st'"
    using kernel_page.hyps(6) by (auto simp: AllocateKernelPage_def)
  have "SetPML4E palloc (4096 * s) (4096 * (e - s)) (PhysToKernel (kernel_pml4e_base_phys_addr m)) True (4096 * p) (page_table m) = Some st'"
    using st'(2) by (simp add: AllocateTable_def split: if_splits)
  from memory_kernel [OF kernel_page.prems kernel_page.IH [OF kernel_page.prems] kernel_page.hyps(3)
      kernel_range [OF kernel_page.hyps(2-4)] kernel_page.hyps(4,5) this]
  show ?case unfolding st'(1) .
next
  case (identity m f B s e m')
  obtain st' where st': "m' = m\<lparr>page_table := st'\<rparr>"
    "SetPML4E palloc (4096 * s) (4096 * (e - s)) (PhysToKernel (kernel_pml4e_base_phys_addr m)) True (4096 * s) (page_table m) = Some st'"
    using identity.hyps(4) by (auto simp: CreateIdentity_def CreateIdentityForKernel_def split: if_splits)
  have "s + (e - s) \<le> 2 ^ 40" using identity.hyps(2,3) by simp
  from memory_kernel [OF identity.prems identity.IH [OF identity.prems] identity.hyps(2) user_range(2,3) [OF identity.hyps(2,3) order_refl] this st'(2)]
  show ?case unfolding st'(1) .
qed

text \<open>The constructor of \<open>PageTableManager\<close>, when it returns, leaves the kernel's memory mapped and
  a state runs start from.\<close>

lemma PageTableManager_ready:
  assumes alloc: "palloc_ok palloc" and st: "used_tables st = {}" "shared_kernel_pml4e_entries st = []" and m: "PageTableManager palloc st = Some m"
  shows "kernel_ready m"
    "x < 2 ^ 30 \<Longrightarrow> translate (page_table m) (PhysToKernel (kernel_pml4e_base_phys_addr m)) (kKernelVMStart + x) = Some x"
proof -
  obtain base st1 st2 where new: "CreateEmptyPageTable palloc st = Some (base, st1)"
    "AllocateTable palloc base kKernelVMStart kKernelMemorySize True 0 st1 = Some st2" "m = \<lparr>page_table = st2, kernel_pml4e_base_phys_addr = base\<rparr>"
    using m by (auto simp: PageTableManager_def split: bind_splits)
  have "shared_ok st" by (simp add: shared_ok_def st)
  from CreateEmptyPageTable_ok [OF alloc this new(1)] st obtain a where a: "base = KernelToPhys a" "valid_table a" "used_tables st1 = {a}"
    "shared_ok st1" "\<forall>i < 512. \<not> IsPresent (table_entry st1 a i)" by auto
  have wf: "wf 3 {..<512} st1 a" by (rule empty_table(3)) (use a in auto)
  let ?s = "2 ^ 52 - 2 ^ 19 :: nat"
  have k: "PhysToKernel base = a" by (simp add: a(1) phys_kernel [OF a(2)])
  have set: "SetPML4E palloc (4096 * ?s) (4096 * (page_limit - ?s)) a True (4096 * 0) st1 = Some st2"
    using new(2) by (simp add: AllocateTable_def k kKernelVMStart_def kKernelMemorySize_def page_limit_def)
  have r: "?s < page_limit" "0 + (page_limit - ?s) \<le> 2 ^ 40" by (simp_all add: page_limit_def)
  have inside: "\<forall>c. ?s div 2 ^ 27 \<le> c \<and> c \<le> (page_limit - 1) div 2 ^ 27 \<longrightarrow> c mod 512 \<in> {..<512}" by simp
  from SetPML4E_ok [OF alloc wf order_refl r(1) kernel_range [OF order_refl r(1) order_refl] order_refl r(2) inside refl, of True] set
  have maps: "maps 3 {..<512} True a ?s page_limit 0 st1 st2" by auto
  have "shared_ok st2" by (rule SetPML4E_shared [OF set a(4)]) simp
  then show "kernel_ready m" using maps by (simp add: kernel_ready_def new(3) a(1) phys_kernel [OF a(2)] maps_def)
  show "translate (page_table m) (PhysToKernel (kernel_pml4e_base_phys_addr m)) (kKernelVMStart + x) = Some x" if x: "x < 2 ^ 30"
  proof -
    let ?N = "?s + x div 4096"
    have N: "(kKernelVMStart + x) div 4096 = ?N" "(kKernelVMStart + x) mod 4096 = x mod 4096"
    proof -
      have "(4096 * q + x) div 4096 = q + x div 4096" "(4096 * q + x) mod 4096 = x mod 4096" for q by simp_all
      moreover have "kKernelVMStart = 4096 * ?s" by (simp add: kKernelVMStart_def)
      ultimately show "(kKernelVMStart + x) div 4096 = ?N" "(kKernelVMStart + x) mod 4096 = x mod 4096" by metis+
    qed
    have lt: "?s \<le> ?N" "?N < page_limit" using x by (simp_all add: page_limit_def)
    have "?N < ?N + 1" "?N + 1 \<le> page_limit" using lt by simp_all
    from kernel_range [OF order_refl r(1) order_refl] kernel_range [OF lt(1) this]
    have "?N div 512 ^ Suc 3 = ?s div 512 ^ Suc 3" using x by simp
    then have "walks_to 3 {..<512} True a ?s page_limit 0 st1 st2 ?N" using maps unfolding maps_def by simp
    then have "walk 3 st2 a ?N = SetEntry (4096 * (0 + (?N - ?s))) True True True" using lt by (simp add: walks_to_def)
    moreover have "0 + (?N - ?s) < 2 ^ 40" using x by simp
    from SetEntry_present [OF this, of True] obtain e where "SetEntry (4096 * (0 + (?N - ?s))) True True True = Some e"
      "GetBaseAddress e = 4096 * (0 + (?N - ?s))" by blast
    ultimately show ?thesis by (simp add: translate_def new(3) k N)
  qed
qed

section \<open>Properties\<close>

text \<open>C3: Processes are isolated. However processes are created and kernel and user pages mapped,
  two user addresses translate to the same physical address only if they are the same address of the
  same process; and no user address reaches the kernel's memory, where the page tables are.\<close>

theorem processes_isolated:
  assumes "\<forall>S a. palloc S = Some a \<longrightarrow> a \<notin> S \<and> valid_table a" "memory_run palloc m f B" "b \<in> B" "c \<in> B" "x < 2 ^ 47" "y < 2 ^ 47"
    and "translate (page_table m) (PhysToKernel b) x = Some pa" "translate (page_table m) (PhysToKernel c) y = Some pa"
  shows "b = c \<and> x = y \<and> kKernelMemorySize \<le> pa \<and> pa < physical_addr_boundary f"
proof -
  have "palloc_ok palloc" using assms(1) by (simp add: palloc_ok_def)
  from memory_run_ok [OF assms(2) this] obtain G where G: "buddies_ok f G"
    "spaces_ok (page_table m) (PhysToKernel (kernel_pml4e_base_phys_addr m)) (PhysToKernel ` B) (live_of f G)"
    "\<forall>b \<in> B. KernelToPhys (PhysToKernel b) = b" by (auto simp: memory_ok_def)
  obtain e w where walks: "walk 3 (page_table m) (PhysToKernel b) (x div 4096) = Some e" "walk 3 (page_table m) (PhysToKernel c) (y div 4096) = Some w"
    and pa: "pa = GetBaseAddress e + x mod 4096" "pa = GetBaseAddress w + y mod 4096"
    using assms(7,8) by (auto simp: translate_def)
  have bound: "x div 4096 < 2 ^ 35" "y div 4096 < 2 ^ 35" using assms(5,6) by simp_all
  have frame: "4096 dvd GetBaseAddress e" "\<exists>r \<in> live_of f G. GetBaseAddress e \<in> region r" "4096 dvd GetBaseAddress w"
    using G(2) walks bound assms(3,4) unfolding spaces_ok_def by blast+
  then obtain p q where pq: "GetBaseAddress e = 4096 * p" "GetBaseAddress w = 4096 * q" by (auto simp: dvd_def)
  have "p = pa div 4096" "x mod 4096 = pa mod 4096" using pa(1) pq(1) by simp_all
  moreover have "q = pa div 4096" "y mod 4096 = pa mod 4096" using pa(2) pq(2) by simp_all
  ultimately have same: "GetBaseAddress e = GetBaseAddress w" "x mod 4096 = y mod 4096" using pq by simp_all
  then have "PhysToKernel b = PhysToKernel c \<and> x div 4096 = y div 4096"
    using G(2) walks bound assms(3,4) unfolding spaces_ok_def by blast
  then have "b = c" "x = y" using G(3) assms(3,4) same(2) by (metis, metis mult_div_mod_eq)
  obtain a order where r: "(a, order) \<in> live_of f G" "GetBaseAddress e \<in> region (a, order)" using frame(2) by auto
  have "4096 dvd a" using aligned(1) [OF G(1) r(1)] by (rule dvd_mult_left)
  then obtain j where j: "a = 4096 * j" by (auto simp: dvd_def)
  have "4096 * p < 4096 * (j + 2 ^ order)" using r(2) by (simp add: region_def pq(1) j)
  then have "p + 1 \<le> j + 2 ^ order" by simp
  then have "4096 * (p + 1) \<le> 4096 * (j + 2 ^ order)" by (rule mult_le_mono2)
  moreover have "x mod 4096 < 4096" by simp
  ultimately have "pa \<in> region (a, order)" using r(2) unfolding pa(1) pq(1) region_def j by simp
  then have "kKernelMemorySize \<le> pa \<and> pa < physical_addr_boundary f"
    using live_inside [OF G(1) r(1)] by (auto simp: kKernelMemorySize_def kAllocatablePhysicalAddrStart_def)
  then show ?thesis using \<open>b = c\<close> \<open>x = y\<close> by blast
qed

text \<open>A process with two pages, over the eight tables.\<close>

lemma one_process:
  obtains m f pa where "memory_run eight_tables m f {4096}" "translate (page_table m) (PhysToKernel 4096) 8192 = Some pa"
proof -
  define m0 where "m0 = \<lparr>page_table = empty_root, kernel_pml4e_base_phys_addr = 0\<rparr>"
  obtain m1 where m1: "CreateUserPageTable eight_tables m0 = Some (4096, m1)"
    "page_table m1 = empty_root\<lparr>cells := (\<lambda>a. if kKernelVirtualOffset + 4096 \<le> a \<and> a < kKernelVirtualOffset + 4096 + 8 * 512 then 4 else cells empty_root a),
       used_tables := {kKernelVirtualOffset + 4096, kKernelVirtualOffset}\<rparr>"
    unfolding m0_def empty_root_def kKernelVirtualOffset_def
    by (simp add: CreateUserPageTable_def CreateEmptyPageTable_def eight_tables_def mapping_defs upt_rec Let_def)
  have three: "(3 :: nat) = Suc 2" by simp
  have "wf 3 {..<512} empty_root kKernelVirtualOffset" unfolding three wf.simps
    by (simp add: empty_root_def table_entry_def IsPresent_def valid_table_def kKernelVirtualOffset_def)
  then have "kernel_ready m0"
    by (simp add: kernel_ready_def m0_def shared_ok_def PhysToKernel_def KernelToPhys_def add64_def sub64_def wrap_def kKernelVirtualOffset_def)
       (simp add: empty_root_def)
  then have run1: "memory_run eight_tables m1 new_frame_allocator {4096}"
    using m1(1) by (auto intro: memory_run.intros)
  obtain a f where f: "AllocateFrame 1 new_frame_allocator = (a, f)" by fastforce
  obtain G where G: "buddies_ok new_frame_allocator G" using frame_run_ok [OF frame_run.start] by blast
  have bound: "physical_addr_boundary f \<le> 2 ^ 52"
    using f by (auto simp: AllocateFrame_def new_frame_allocator_def add_allocator_def kAllocatablePhysicalAddrStart_def kSingleAllocatorSize_def
        Let_def split: prod.splits if_splits)
  obtain G' p where "4096 * (p + 2 ^ 1) \<le> physical_addr_boundary f" and p: "a = 4096 * p" by (rule fresh_block [OF G _ f]) auto
  then have frames: "p + (4 - 2) \<le> 2 ^ 40" using bound by simp
  then have wrap: "4096 * p mod 18446744073709551616 = 4096 * p" "(4096 * p + 4096) mod 18446744073709551616 = 4096 * p + 4096" by simp_all
  have "AllocateTable eight_tables 4096 (4096 * 2) 8192 False (4096 * p) (page_table m1) \<noteq> None"
    unfolding m1(2) by (simp add: wrap eight_tables_def empty_root_def mapping_defs upt_rec Let_def)
  then obtain st where st: "AllocateTable eight_tables 4096 (4096 * 2) 8192 False (4096 * p) (page_table m1) = Some st" by blast
  have alloc: "palloc_ok eight_tables" using eight_tables_ok by (simp add: palloc_ok_def)
  let ?t = "PhysToKernel 4096"
  have t: "KernelToPhys ?t = 4096" by (simp add: mapping_defs)
  have page: "AllocatePage eight_tables 4096 (4096 * 2) 1 (m1, new_frame_allocator) = Some (m1\<lparr>page_table := st\<rparr>, f)"
    using st by (simp add: AllocatePage_def f [simplified] p kKernelVMStart_def FourKB_def mul64_def wrap_def)
  have run2: "memory_run eight_tables (m1\<lparr>page_table := st\<rparr>) f {4096}"
    by (rule memory_run.page [OF run1 _ _ _ page]) (use bound in simp_all)
  have wf: "wf 3 user_entries (page_table m1) ?t"
    using memory_run_ok [OF run1 alloc] by (auto simp: memory_ok_def spaces_ok_def)
  have "2 < (4 :: nat)" "(4 :: nat) \<le> 2 ^ 35" by simp_all
  from AllocateTable_user [OF alloc wf this frames] st have "maps 3 user_entries False ?t 2 4 p (page_table m1) st"
    unfolding t by auto
  from walk_user [OF this, of 2] have "walk 3 st ?t 2 = SetEntry (4096 * (p + (2 - 2))) True True False" by (simp add: walks_to_def)
  moreover have "p + (2 - 2) < 2 ^ 40" using frames by simp
  from SetEntry_present [OF this] obtain e where "SetEntry (4096 * (p + (2 - 2))) True True False = Some e" by blast
  ultimately have "translate (page_table (m1\<lparr>page_table := st\<rparr>)) ?t 8192 = Some (GetBaseAddress e)" by (simp add: translate_def)
  then show ?thesis using that run2 by blast
qed

theorem processes_isolated_witness:
  "\<exists>m f pa. memory_run eight_tables m f {4096} \<and> translate (page_table m) (PhysToKernel 4096) 8192 = Some pa \<and> kKernelMemorySize \<le> pa"
proof -
  obtain m f pa where r: "memory_run eight_tables m f {4096}" "translate (page_table m) (PhysToKernel 4096) 8192 = Some pa" by (rule one_process)
  have "kKernelMemorySize \<le> pa"
    using processes_isolated [OF eight_tables_ok r(1) _ _ _ _ r(2) r(2)] by simp
  then show ?thesis using r by blast
qed

end
