(* ===== verification/Process.thy ===== *)
theory Process
  imports Scheduler Malloc Ext2Dir Isolation
begin

text \<open>
  Processes and their images: \<open>kernel/kernel/elf.cc\<close>, \<open>process.cc\<close>, and the page fault handler of
  \<open>paging.cc\<close>. A process maps nothing of its image when it starts; a fault maps one page and fills it
  from the file. The memory of a process is \<open>mem\<close> by its own addresses (\<open>Isolation\<close> shows that
  no other process writes it). None is a failed \<open>ASSERT\<close> or \<open>PANIC\<close>.
\<close>

section \<open>Words in memory\<close>

fun rd_le :: "nat \<Rightarrow> mem \<Rightarrow> nat \<Rightarrow> nat" where
  "rd_le 0 m a = 0"
| "rd_le (Suc n) m a = unat (m a) + 256 * rd_le n m (a + 1)"

fun wr_le :: "nat \<Rightarrow> mem \<Rightarrow> nat \<Rightarrow> nat \<Rightarrow> mem" where
  "wr_le 0 m a v = m"
| "wr_le (Suc n) m a v = wr_le n (m(a := word_of_nat v)) (a + 1) (v div 256)"

abbreviation rd64 :: "mem \<Rightarrow> nat \<Rightarrow> nat" where "rd64 \<equiv> rd_le 8"

definition put_bytes :: "nat \<Rightarrow> byte list \<Rightarrow> mem \<Rightarrow> mem" where
  "put_bytes a bs m = (\<lambda>x. if a \<le> x \<and> x < a + length bs then bs ! (x - a) else m x)"

section \<open>ELF images\<close>

record elf_header =
  e_ident_magic :: nat
  e_ident_class :: nat
  e_ident_data :: nat
  e_ident_version :: nat
  e_ident_osabi :: nat
  e_ident_abiversion :: nat
  e_type :: nat
  e_machine :: nat
  e_version :: nat
  e_entry :: nat
  e_phoff :: nat
  e_shoff :: nat
  e_flags :: nat
  e_ehsize :: nat
  e_phentsize :: nat
  e_phnum :: nat
  e_shentsize :: nat
  e_shnum :: nat
  e_shstrndx :: nat

record program_header =
  p_type :: nat
  p_flags :: nat
  p_offset :: nat
  p_vaddr :: nat
  p_paddr :: nat
  p_filesz :: nat
  p_memsz :: nat
  p_align :: nat

record section_header =
  sh_name :: nat
  sh_type :: nat
  sh_flags :: nat
  sh_addr :: nat
  sh_offset :: nat
  sh_size :: nat
  sh_link :: nat
  sh_info :: nat
  sh_addralign :: nat
  sh_entsize :: nat

definition read_elf_header :: "mem \<Rightarrow> nat \<Rightarrow> elf_header" where
  "read_elf_header m a = \<lparr>e_ident_magic = rd_le 4 m a, e_ident_class = rd_le 1 m (a + 4), e_ident_data = rd_le 1 m (a + 5),
     e_ident_version = rd_le 1 m (a + 6), e_ident_osabi = rd_le 1 m (a + 7), e_ident_abiversion = rd_le 1 m (a + 8),
     e_type = rd_le 2 m (a + 16), e_machine = rd_le 2 m (a + 18), e_version = rd_le 4 m (a + 20), e_entry = rd_le 8 m (a + 24),
     e_phoff = rd_le 8 m (a + 32), e_shoff = rd_le 8 m (a + 40), e_flags = rd_le 4 m (a + 48), e_ehsize = rd_le 2 m (a + 52),
     e_phentsize = rd_le 2 m (a + 54), e_phnum = rd_le 2 m (a + 56), e_shentsize = rd_le 2 m (a + 58), e_shnum = rd_le 2 m (a + 60),
     e_shstrndx = rd_le 2 m (a + 62)\<rparr>"

definition read_program_header :: "mem \<Rightarrow> nat \<Rightarrow> program_header" where
  "read_program_header m a = \<lparr>p_type = rd_le 4 m a, p_flags = rd_le 4 m (a + 4), p_offset = rd_le 8 m (a + 8), p_vaddr = rd_le 8 m (a + 16),
     p_paddr = rd_le 8 m (a + 24), p_filesz = rd_le 8 m (a + 32), p_memsz = rd_le 8 m (a + 40), p_align = rd_le 8 m (a + 48)\<rparr>"

definition read_section_header :: "mem \<Rightarrow> nat \<Rightarrow> section_header" where
  "read_section_header m a = \<lparr>sh_name = rd_le 4 m a, sh_type = rd_le 4 m (a + 4), sh_flags = rd_le 8 m (a + 8), sh_addr = rd_le 8 m (a + 16),
     sh_offset = rd_le 8 m (a + 24), sh_size = rd_le 8 m (a + 32), sh_link = rd_le 4 m (a + 40), sh_info = rd_le 4 m (a + 44),
     sh_addralign = rd_le 8 m (a + 48), sh_entsize = rd_le 8 m (a + 56)\<rparr>"

datatype elf_error = BadMagic | Not64Bit | NotLittleEndian

definition kELFMagic :: nat where "kELFMagic = 0x464c457f"

definition ELFReader :: "mem \<Rightarrow> nat \<Rightarrow> nat \<Rightarrow> (elf_error + elf_header \<times> program_header list \<times> section_header list) option" where
  \<comment> \<open>the headers are where the file says, in or outside the buffer\<close>
  "ELFReader m data file_size =
     (if file_size < 0x40 then None
      else Some (
        let header = read_elf_header m data
        in if e_ident_magic header \<noteq> kELFMagic then Inl BadMagic
           else if e_ident_class header \<noteq> 2 then Inl Not64Bit
           else if e_ident_data header \<noteq> 1 then Inl NotLittleEndian
           else Inr (header,
             map (\<lambda>ph_off. read_program_header m (add64 (add64 data (e_phoff header)) (ph_off * 0x38))) [0 ..< e_phnum header],
             map (\<lambda>sh_off. read_section_header m (add64 (add64 data (e_shoff header)) (sh_off * 0x40))) [0 ..< e_shnum header])))"

section \<open>Processes\<close>

definition kEightMB :: nat where "kEightMB = 2 ^ 23"
definition kFourKB :: nat where "kFourKB = 2 ^ 12"

record process =
  pml4e_base_phys_addr :: nat
  program_headers :: "program_header list"
  section_headers :: "section_header list"
  file_name :: kstring
  argv :: "kstring list"
  user_rsp :: nat
  entry_point :: nat
  num_page_fault :: nat
  heap_bytes :: nat
  child_to_exit_code :: "nat \<rightharpoonup> nat"
  terminate_ready :: bool

datatype ProcessAddressInfo = NOT_VALID_ADDR | STACK_ADDR | ELF_SEGMENT_ADDR | HEAP_ADDR

definition in_segment :: "nat \<Rightarrow> program_header \<Rightarrow> bool" where
  "in_segment addr header \<longleftrightarrow> p_vaddr header \<le> addr \<and> addr < add64 (p_vaddr header) (p_memsz header)"

definition GetAddressInfo :: "nat \<Rightarrow> process \<Rightarrow> ProcessAddressInfo" where
  "GetAddressInfo addr p =
     (if addr = 0 then NOT_VALID_ADDR
      else if kUserProcessStackAddress - kEightMB \<le> addr \<and> addr \<le> kUserProcessStackAddress then STACK_ADDR
      else if List.find (in_segment addr) (program_headers p) \<noteq> None then ELF_SEGMENT_ADDR
      else NOT_VALID_ADDR)"

definition GetMatchingProgramHeader :: "nat \<Rightarrow> process \<Rightarrow> program_header option" where
  "GetMatchingProgramHeader addr p = List.find (in_segment addr) (program_headers p)"

definition bss_overlap :: "nat \<Rightarrow> section_header \<Rightarrow> nat \<times> nat" where
  \<comment> \<open>\<open>overlap_start\<close> and \<open>overlap_end\<close>, both 0 when the page and the section do not meet\<close>
  "bss_overlap boundary sec =
     (let page_end = add64 boundary kFourKB; sec_end = add64 (sh_addr sec) (sh_size sec)
      in if sh_addr sec \<le> boundary \<and> boundary \<le> sec_end then (boundary, min page_end sec_end)
         else if sh_addr sec \<le> page_end \<and> page_end \<le> sec_end then (max boundary (sh_addr sec), page_end)
         else if boundary \<le> sh_addr sec \<and> sec_end \<le> page_end then (sh_addr sec, sec_end)
         else (0, 0))"

fun zero_init :: "nat \<Rightarrow> section_header list \<Rightarrow> mem \<Rightarrow> mem" where
  "zero_init boundary [] vm = vm"
| "zero_init boundary (sec # secs) vm =
     (if sh_type sec = 8 \<and> sh_addr sec \<noteq> 0 then
        (case bss_overlap boundary sec of
           (overlap_start, overlap_end) \<Rightarrow>
             if overlap_start \<noteq> 0 \<and> overlap_end \<noteq> 0
             then put_bytes overlap_start (replicate (sub64 overlap_end overlap_start) 0) vm
             else zero_init boundary secs vm)
      else zero_init boundary secs vm)"

definition ZeroInitIfNeeded :: "nat \<Rightarrow> process \<Rightarrow> mem \<Rightarrow> mem" where
  "ZeroInitIfNeeded boundary p = zero_init boundary (section_headers p)"

section \<open>The argument vector\<close>

definition CopyStringToStack :: "kstring \<Rightarrow> nat \<times> mem \<Rightarrow> nat \<times> mem" where
  "CopyStringToStack s = (\<lambda>(rsp0, m).
     let rsp1 = sub64 rsp0 (ksize s + 1)
     in (rsp1, (put_bytes rsp1 (take (ksize s) s) m)(add64 rsp1 (ksize s) := 0)))"

definition WriteToRSP :: "nat \<Rightarrow> nat \<times> mem \<Rightarrow> nat \<times> mem" where
  \<comment> \<open>for values of 8 bytes\<close>
  "WriteToRSP val = (\<lambda>(rsp0, m). let rsp1 = sub64 rsp0 8 in (rsp1, wr_le 8 m rsp1 val))"

fun copy_strings :: "kstring list \<Rightarrow> nat \<times> mem \<Rightarrow> nat list \<times> nat \<times> mem" where
  \<comment> \<open>from the last to the first, with the addresses\<close>
  "copy_strings [] s = ([], s)"
| "copy_strings (x # xs) s =
     (case copy_strings xs s of
        (addrs, s1) \<Rightarrow> let s2 = CopyStringToStack x s1 in (fst s2 # addrs, s2))"

definition CopyArgvToStack :: "process \<Rightarrow> mem \<Rightarrow> (process \<times> mem) option" where
  "CopyArgvToStack p m =
     (if user_rsp p \<noteq> kUserProcessStackAddress - 8 then None
      else case copy_strings (argv p) (user_rsp p, m) of
        (addrs, rsp1, m1) \<Rightarrow>
          let rsp2 = rsp1 - rsp1 mod 8;
              s3 = foldr WriteToRSP addrs (rsp2, m1);
              s4 = WriteToRSP (length (argv p)) s3
          in Some (p\<lparr>user_rsp := fst s4\<rparr>, snd s4))"

section \<open>Heap and exit codes\<close>

fun add_pages :: "palloc \<Rightarrow> nat \<Rightarrow> nat \<Rightarrow> nat list \<Rightarrow> page_table_manager \<times> frame_allocator \<Rightarrow>
    (page_table_manager \<times> frame_allocator) option" where
  "add_pages palloc base start [] s = Some s"
| "add_pages palloc base start (i # is) s =
     do { s1 \<leftarrow> AllocatePage palloc base (add64 start (i * kFourKB)) 0 s; add_pages palloc base start is s1 }"

definition IncreaseHeapSize :: "palloc \<Rightarrow> nat \<Rightarrow> process \<Rightarrow> page_table_manager \<times> frame_allocator \<Rightarrow>
    (process \<times> page_table_manager \<times> frame_allocator) option" where
  "IncreaseHeapSize palloc bytes p s =
     (if bytes mod kFourKB \<noteq> 0 then None
      else do {
        s1 \<leftarrow> add_pages palloc (pml4e_base_phys_addr p) (add64 kUserProcessHeapStartAddress (heap_bytes p))
               [0 ..< nat (s32 (bytes div kFourKB))] s;
        Some (p\<lparr>heap_bytes := add64 (heap_bytes p) bytes\<rparr>, s1)
      })"

definition GetHeapEnd :: "process \<Rightarrow> nat" where
  "GetHeapEnd p = add64 kUserProcessHeapStartAddress (heap_bytes p)"

definition SetExitCode :: "nat \<Rightarrow> nat \<Rightarrow> process \<Rightarrow> process" where
  \<comment> \<open>the map holds \<open>int\<close>s\<close>
  "SetExitCode pid exit_code p = p\<lparr>child_to_exit_code := (child_to_exit_code p)(pid \<mapsto> u32 exit_code)\<rparr>"

definition ReadExitCode :: "nat \<Rightarrow> process \<Rightarrow> nat option" where
  \<comment> \<open>what is stored through the pointer when the result is true\<close>
  "ReadExitCode pid p = map_option (\<lambda>c. u64_of_int (s32 c)) (child_to_exit_code p pid)"

section \<open>Creation\<close>

definition Process_new :: "palloc \<Rightarrow> kstring \<Rightarrow> nat \<Rightarrow> page_table_manager \<times> frame_allocator \<Rightarrow>
    (process \<times> page_table_manager \<times> frame_allocator) option" where
  \<comment> \<open>the constructor: a page table and the first page of the stack\<close>
  "Process_new palloc name entry_function = (\<lambda>(mgr, f). do {
     (base, mgr1) \<leftarrow> CreateUserPageTable palloc mgr;
     s2 \<leftarrow> AllocatePage palloc base (kUserProcessStackAddress - kFourKB) 0 (mgr1, f);
     Some (\<lparr>pml4e_base_phys_addr = base, program_headers = [], section_headers = [], file_name = name, argv = [],
            user_rsp = kUserProcessStackAddress - 8, entry_point = entry_function, num_page_fault = 0, heap_bytes = 0,
            child_to_exit_code = Map.empty, terminate_ready = False\<rparr>, s2)
   })"

datatype create_error = NotFound | NotRegular | ElfError elf_error

definition CreateProcess :: "palloc \<Rightarrow> ext2 \<Rightarrow> mem \<Rightarrow> nat \<Rightarrow> view \<Rightarrow> kstring list \<Rightarrow> page_table_manager \<times> frame_allocator \<Rightarrow>
    (create_error + process \<times> page_table_manager \<times> frame_allocator) option" where
  \<comment> \<open>\<open>buf\<close> is what \<open>kmalloc\<close> returned, in the kernel memory m\<close>
  "CreateProcess palloc fs m buf name args s =
     do {
       file_info \<leftarrow> StatPath name fs;
       if fi_file_size file_info = 0 then Some (Inl NotFound)
       else if GetFileFormatFromMode (word_of_nat (fi_mode file_info)) \<noteq> S_REG then Some (Inl NotRegular)
       else do {
         bytes \<leftarrow> ReadFilePath name (fi_file_size file_info) 0 fs;
         parsed \<leftarrow> ELFReader (put_bytes buf bytes m) buf (fi_file_size file_info);
         (case parsed of
            Inl e \<Rightarrow> Some (Inl (ElfError e))
          | Inr (header, phs, shs) \<Rightarrow> do {
              (p, s1) \<leftarrow> Process_new palloc (kstr_of_view name) (e_entry header) s;
              Some (Inr (p\<lparr>program_headers := phs, section_headers := shs, argv := args\<rparr>, s1))
            })
       }
     }"

section \<open>Page faults\<close>

datatype 's fault_result = Handled 's | Terminated process

definition load_range :: "nat \<Rightarrow> program_header \<Rightarrow> nat \<times> nat \<times> nat" where
  \<comment> \<open>where to read in the file, how much, and the address it goes to\<close>
  "load_range boundary header =
     (sub64 (add64 (p_offset header) (max (p_vaddr header) boundary)) (p_vaddr header),
      (if boundary > p_vaddr header then min FourKB (sub64 (add64 (p_vaddr header) (p_memsz header)) boundary)
       else min FourKB (p_memsz header)),
      max (p_vaddr header) boundary)"

definition PageFaultHandler :: "palloc \<Rightarrow> ext2 \<Rightarrow> mem \<Rightarrow> nat \<Rightarrow> process \<Rightarrow> page_table_manager \<times> frame_allocator \<Rightarrow> mem \<Rightarrow>
    (process \<times> (page_table_manager \<times> frame_allocator) \<times> mem) fault_result option" where
  \<comment> \<open>for the thread of a process; \<open>frame_bytes\<close> are the bytes that happen to be in the new frame\<close>
  "PageFaultHandler palloc fs frame_bytes fault_addr p0 s vm0 =
     (if terminate_ready p0 then Some (Terminated p0)
      else do {
        (p, vm) \<leftarrow> (if num_page_fault p0 = 0 then CopyArgvToStack p0 vm0 else Some (p0, vm0));
        let address_info = GetAddressInfo fault_addr p;
        if address_info = NOT_VALID_ADDR then Some (Terminated p)
        else do {
          let boundary = Get4KBBoundary fault_addr;
          s1 \<leftarrow> AllocatePage palloc (pml4e_base_phys_addr p) boundary 0 s;
          let vm1 = (\<lambda>a. if boundary \<le> a \<and> a < boundary + 4096 then frame_bytes a else vm a);
          vm2 \<leftarrow> (if address_info = ELF_SEGMENT_ADDR then do {
                    header \<leftarrow> GetMatchingProgramHeader fault_addr p;
                    let (file_read_start_offset, num_read, dest) = load_range boundary header;
                    bytes \<leftarrow> ReadFilePath (take (ksize (file_name p)) (file_name p)) num_read file_read_start_offset fs;
                    Some (ZeroInitIfNeeded boundary p (put_bytes dest bytes vm1))
                  }
                  else Some vm1);
          Some (Handled (p\<lparr>num_page_fault := num_page_fault p + 1\<rparr>, s1, vm2))
        }
      })"

end
