(* ===== verification/ProcessProps.thy ===== *)
theory ProcessProps
  imports Process Ext2Props
begin

text \<open>
  What a process finds: its arguments on the stack, as \<open>main\<close> takes them, and in each page of its
  image the bytes of the file or zeros, whatever address of the page is touched first.
\<close>

section \<open>Words and bytes in memory\<close>

lemma wr_le_outside: "x < a \<or> a + n \<le> x \<Longrightarrow> wr_le n m a v x = m x"
  by (induction n arbitrary: m a v) auto

lemma rd_le_cong: "(\<And>x. a \<le> x \<Longrightarrow> x < a + n \<Longrightarrow> m x = m' x) \<Longrightarrow> rd_le n m a = rd_le n m' a"
  by (induction n arbitrary: a) auto

lemma rd_wr_le: "rd_le n (wr_le n m a v) a = v mod 256 ^ n"
proof (induction n arbitrary: m a v)
  case (Suc n)
  have "v mod 256 ^ Suc n = 256 * (v div 256 mod 256 ^ n) + v mod 256" by (simp add: mod_mult2_eq)
  moreover have "wr_le n (m(a := word_of_nat v)) (a + 1) (v div 256) a = word_of_nat v" by (simp add: wr_le_outside)
  ultimately show ?case by (simp only: rd_le.simps wr_le.simps Suc.IH unat_byte)
qed simp

lemma put_bytes_frame: "frame {a ..< a + length bs} m (put_bytes a bs m)"
  by (auto simp: frame_def put_bytes_def)

lemma frame_wr_le: "frame {a ..< a + n} m (wr_le n m a v)"
  by (auto simp: frame_def wr_le_outside)

lemma map_put_bytes: "map (put_bytes a bs m) [a ..< a + length bs] = bs"
  by (rule nth_equalityI) (simp_all add: put_bytes_def)

section \<open>The stack of a new process\<close>

definition total :: "kstring list \<Rightarrow> nat" where "total xs = sum_list (map length xs)"

definition c_text :: "kstring \<Rightarrow> byte list" where
  \<comment> \<open>the characters and a NUL\<close>
  "c_text s = take (ksize s) s @ [0]"

lemma length_c_text: "s \<noteq> [] \<Longrightarrow> length (c_text s) = length s"
  by (cases s) (simp_all add: c_text_def ksize_def)

lemma CopyStringToStack_ok:
  assumes "s \<noteq> []" "length s \<le> r" "r < 2 ^ 64"
  shows "CopyStringToStack s (r, m) = (r - length s, put_bytes (r - length s) (c_text s) m)"
proof -
  have n: "ksize s + 1 = length s" "length (take (ksize s) s) = ksize s" using assms(1) by (cases s; simp add: ksize_def)+
  have a: "sub64 r (ksize s + 1) = r - length s" "add64 (r - length s) (ksize s) = r - 1"
    using assms n(1) by (simp_all add: sub64_id add64_id)
  have "(put_bytes (r - length s) (take (ksize s) s) m)(r - 1 := 0) = put_bytes (r - length s) (c_text s) m"
    using assms n by (auto simp: put_bytes_def c_text_def nth_append fun_eq_iff)
  then show ?thesis by (simp add: CopyStringToStack_def Let_def a [simplified])
qed

lemma copy_strings_ok:
  assumes "copy_strings xs (r, m) = (addrs, r', m')" "total xs \<le> r" "r < 2 ^ 64" "[] \<notin> set xs"
  shows "r' = r - total xs \<and> length addrs = length xs \<and> frame {r' ..< r} m m'
    \<and> (\<forall>i < length xs. r' \<le> addrs ! i \<and> addrs ! i + length (xs ! i) \<le> r
         \<and> map m' [addrs ! i ..< addrs ! i + length (xs ! i)] = c_text (xs ! i))"
  using assms
proof (induction xs arbitrary: addrs r' m')
  case Nil
  then show ?case by (simp add: total_def)
next
  case (Cons x xs)
  obtain as r1 m1 where c: "copy_strings xs (r, m) = (as, r1, m1)" by (metis prod_cases3)
  have tot: "total (x # xs) = length x + total xs" by (simp add: total_def)
  have IH: "r1 = r - total xs" "length as = length xs" "frame {r1 ..< r} m m1"
    "\<And>i. i < length xs \<Longrightarrow> r1 \<le> as ! i \<and> as ! i + length (xs ! i) \<le> r \<and> map m1 [as ! i ..< as ! i + length (xs ! i)] = c_text (xs ! i)"
    using Cons.IH [OF c] Cons.prems(2-4) tot by auto
  have x: "x \<noteq> []" "length x \<le> r1" "r1 < 2 ^ 64" using Cons.prems(2-4) tot IH(1) by auto
  let ?m = "put_bytes (r1 - length x) (c_text x) m1"
  have res: "addrs = (r1 - length x) # as" "r' = r1 - length x" "m' = ?m"
    using Cons.prems(1) c CopyStringToStack_ok [OF x, of m1] by (auto simp: Let_def)
  have fr: "frame {r' ..< r1} m1 m'"
    using put_bytes_frame [of "r1 - length x" "c_text x" m1] x length_c_text [OF x(1)] by (simp add: res)
  have "frame {r' ..< r} m m'"
    by (rule frame_trans [OF frame_mono [OF IH(3)] frame_mono [OF fr]]) (use res(2) IH(1) in auto)
  moreover have "r' \<le> addrs ! i \<and> addrs ! i + length ((x # xs) ! i) \<le> r
      \<and> map m' [addrs ! i ..< addrs ! i + length ((x # xs) ! i)] = c_text ((x # xs) ! i)" if "i < length (x # xs)" for i
  proof (cases i)
    case 0
    have "map m' [r' ..< r' + length (c_text x)] = c_text x" unfolding res(2,3) by (rule map_put_bytes)
    then show ?thesis using 0 res x length_c_text [OF x(1)] IH(1) by simp
  next
    case (Suc j)
    have j: "j < length xs" using that Suc by simp
    have "map m' [as ! j ..< as ! j + length (xs ! j)] = map m1 [as ! j ..< as ! j + length (xs ! j)]"
      by (intro map_cong refl) (use fr IH(4) [OF j] in \<open>auto simp: frame_def\<close>)
    then show ?thesis using IH(4) [OF j] Suc res by auto
  qed
  ultimately show ?case using res IH(1,2) tot by auto
qed

lemma push_all:
  assumes "8 * length vals \<le> r" "r < 2 ^ 64" "\<forall>v \<in> set vals. v < 2 ^ 64"
  shows "\<exists>m'. foldr WriteToRSP vals (r, m) = (r - 8 * length vals, m') \<and> frame {r - 8 * length vals ..< r} m m'
    \<and> (\<forall>i < length vals. rd64 m' (r - 8 * length vals + 8 * i) = vals ! i)"
  using assms
proof (induction vals)
  case Nil
  then show ?case by simp
next
  case (Cons v vals)
  let ?r1 = "r - 8 * length vals" and ?r2 = "r - 8 * length (v # vals)"
  have le: "8 * length vals \<le> r" "8 \<le> ?r1" "?r1 < 2 ^ 64" "?r2 = ?r1 - 8" using Cons.prems by auto
  obtain m1 where m1: "foldr WriteToRSP vals (r, m) = (?r1, m1)" "frame {?r1 ..< r} m m1"
    "\<And>i. i < length vals \<Longrightarrow> rd64 m1 (?r1 + 8 * i) = vals ! i"
    using Cons.IH Cons.prems by auto
  have "sub64 ?r1 8 = ?r2" using le by (simp add: sub64_id)
  then have res: "foldr WriteToRSP (v # vals) (r, m) = (?r2, wr_le 8 m1 ?r2 v)"
    using m1(1) by (simp add: WriteToRSP_def Let_def)
  have fr: "frame {?r2 ..< ?r1} m1 (wr_le 8 m1 ?r2 v)" using frame_wr_le [of ?r2 8 m1 v] le by simp
  have "frame {?r2 ..< r} m (wr_le 8 m1 ?r2 v)"
    by (rule frame_trans [OF frame_mono [OF m1(2)] frame_mono [OF fr]]) auto
  moreover have "rd64 (wr_le 8 m1 ?r2 v) (?r2 + 8 * i) = (v # vals) ! i" if "i < length (v # vals)" for i
  proof (cases i)
    case 0
    have "v mod 256 ^ 8 = v" using Cons.prems(3) by simp
    then show ?thesis using 0 rd_wr_le [of 8 m1 ?r2 v] by simp
  next
    case (Suc j)
    have at: "?r2 + 8 * i = ?r1 + 8 * j" and j: "j < length vals" using le Suc that by simp_all
    have "rd64 (wr_le 8 m1 ?r2 v) (?r1 + 8 * j) = rd64 m1 (?r1 + 8 * j)"
      by (rule rd_le_cong, rule wr_le_outside) (use le in linarith)
    then show ?thesis unfolding at using m1(3) [OF j] Suc by simp
  qed
  ultimately show ?case using res by blast
qed

section \<open>The arguments of a process\<close>

text \<open>C30: When a process first runs, its stack holds its arguments as \<open>main\<close> takes them: at the
  aligned stack pointer their number, then the addresses of the strings in order, each the characters
  of one argument and a NUL. Nothing but the first page of the stack is written, as long as the
  arguments fit in it.\<close>

theorem argv_on_stack:
  assumes "user_rsp p = kUserProcessStackAddress - 8" "[] \<notin> set (argv p)" "total (argv p) + 8 * length (argv p) \<le> 4072"
  shows "\<exists>r m'. CopyArgvToStack p m = Some (p\<lparr>user_rsp := r\<rparr>, m') \<and> r mod 8 = 0
    \<and> kUserProcessStackAddress - 4096 \<le> r \<and> frame {r ..< kUserProcessStackAddress - 8} m m'
    \<and> rd64 m' r = length (argv p)
    \<and> (\<forall>i < length (argv p). let a = rd64 m' (r + 8 + 8 * i)
         in map m' [a ..< a + length (argv p ! i)] = take (ksize (argv p ! i)) (argv p ! i) @ [0])"
proof -
  let ?r0 = "kUserProcessStackAddress - 8"
  obtain addrs r1 m1 where c: "copy_strings (argv p) (?r0, m) = (addrs, r1, m1)" by (metis prod_cases3)
  have n: "?r0 = 1073741816" by (simp add: kUserProcessStackAddress_def)
  have s: "r1 = ?r0 - total (argv p)" "length addrs = length (argv p)" "frame {r1 ..< ?r0} m m1"
    "\<And>i. i < length (argv p) \<Longrightarrow> r1 \<le> addrs ! i \<and> addrs ! i + length (argv p ! i) \<le> ?r0
       \<and> map m1 [addrs ! i ..< addrs ! i + length (argv p ! i)] = c_text (argv p ! i)"
    using copy_strings_ok [OF c] assms(2,3) n by auto
  let ?r2 = "r1 - r1 mod 8"
  have mod: "r1 mod 8 < 8" "r1 mod 8 \<le> r1" by simp_all
  have r2: "?r2 mod 8 = 0" "?r2 \<le> r1" by (simp_all add: minus_mod_eq_mult_div)
  have low: "1073737736 + 8 * length addrs \<le> ?r2" using mod s(1,2) n assms(3) by linarith
  have small: "\<forall>v \<in> set addrs. v < 2 ^ 64" using s(2,4) n by (auto simp: in_set_conv_nth) fastforce
  have "8 * length addrs \<le> ?r2" "?r2 < 2 ^ 64" using low s(1) n by simp_all
  from push_all [OF this small, of m1] obtain m2 where m2: "foldr WriteToRSP addrs (?r2, m1) = (?r2 - 8 * length addrs, m2)"
    "frame {?r2 - 8 * length addrs ..< ?r2} m1 m2" "\<And>i. i < length addrs \<Longrightarrow> rd64 m2 (?r2 - 8 * length addrs + 8 * i) = addrs ! i" by blast
  define r3 where "r3 = ?r2 - 8 * length addrs"
  note m2 = m2 [folded r3_def]
  have r3: "1073737736 \<le> r3" "r3 \<le> ?r2" "r3 < 18446744073709551616" unfolding r3_def using low s(1) n r2(2) by linarith+
  let ?r4 = "r3 - 8" and ?m3 = "wr_le 8 m2 (r3 - 8) (length (argv p))"
  have le: "8 \<le> r3" "r3 < 2 ^ 64" "kUserProcessStackAddress - 4096 \<le> ?r4" "?r4 + 8 = r3"
    using r3 by (simp_all add: kUserProcessStackAddress_def)
  have "sub64 r3 8 = ?r4" using le by (simp add: sub64_id)
  then have res: "CopyArgvToStack p m = Some (p\<lparr>user_rsp := ?r4\<rparr>, ?m3)"
    using assms(1) c m2(1) by (simp add: CopyArgvToStack_def WriteToRSP_def Let_def)
  have "8 dvd ?r2" using r2(1) by (rule mod_eq_0_iff_dvd [THEN iffD1])
  then have "8 dvd r3 - 8" unfolding r3_def by (rule dvd_diff_nat [OF dvd_diff_nat]) simp_all
  then have aligned: "?r4 mod 8 = 0" by (simp add: mod_eq_0_iff_dvd)
  have fr: "frame {?r4 ..< ?r2} m1 ?m3"
    by (rule frame_trans [OF frame_mono [OF m2(2)] frame_mono [OF frame_wr_le]]) (use le(1) r3(2) in auto)
  have "?r4 \<le> r1" "r1 \<le> ?r0" "?r2 \<le> ?r0" using r3(2) r2(2) s(1) by linarith+
  then have "{r1 ..< ?r0} \<subseteq> {?r4 ..< ?r0}" "{?r4 ..< ?r2} \<subseteq> {?r4 ..< ?r0}" unfolding ivl_subset by simp_all
  then have frame: "frame {?r4 ..< ?r0} m ?m3" by (rule frame_trans [OF frame_mono [OF s(3)] frame_mono [OF fr]])
  have "length (argv p) mod 256 ^ 8 = length (argv p)" using assms(3) by simp
  then have count: "rd64 ?m3 ?r4 = length (argv p)" by (simp only: rd_wr_le)
  have "let a = rd64 ?m3 (?r4 + 8 + 8 * i) in map ?m3 [a ..< a + length (argv p ! i)] = take (ksize (argv p ! i)) (argv p ! i) @ [0]"
    if "i < length (argv p)" for i
  proof -
    have "rd64 ?m3 (r3 + 8 * i) = rd64 m2 (r3 + 8 * i)" by (rule rd_le_cong) (use le in \<open>simp add: wr_le_outside\<close>)
    then have a: "rd64 ?m3 (?r4 + 8 + 8 * i) = addrs ! i" unfolding le(4) using m2(3) [of i] that s(2) by simp
    have "map ?m3 [addrs ! i ..< addrs ! i + length (argv p ! i)] = map m1 [addrs ! i ..< addrs ! i + length (argv p ! i)]"
    proof (intro map_cong refl)
      fix x assume "x \<in> set [addrs ! i ..< addrs ! i + length (argv p ! i)]"
      then have "r1 \<le> x" using s(4) [OF that] by simp
      with r2(2) have "?r2 \<le> x" by (rule order_trans)
      then have "x \<notin> {?r4 ..< ?r2}" by (meson atLeastLessThan_iff leD)
      then show "?m3 x = m1 x" using fr unfolding frame_def by blast
    qed
    then show ?thesis using s(4) [OF that] by (simp add: a c_text_def)
  qed
  then show ?thesis using res aligned le(3) frame count by (intro exI [of _ ?r4] exI [of _ ?m3]) simp
qed

theorem argv_on_stack_witness:
  "\<exists>p m' r. CopyArgvToStack p (\<lambda>_. 0) = Some (p\<lparr>user_rsp := r\<rparr>, m') \<and> length (argv p) = 2 \<and> rd64 m' r = 2"
proof -
  let ?p = "\<lparr>pml4e_base_phys_addr = 0, program_headers = [], section_headers = [], file_name = [0], argv = [[97, 0], [98, 99, 0]],
    user_rsp = kUserProcessStackAddress - 8, entry_point = 0, num_page_fault = 0, heap_bytes = 0,
    child_to_exit_code = Map.empty, terminate_ready = False\<rparr>"
  have "user_rsp ?p = kUserProcessStackAddress - 8" "[] \<notin> set (argv ?p)" "total (argv ?p) + 8 * length (argv ?p) \<le> 4072"
    by (simp_all add: total_def)
  from argv_on_stack [OF this, of "\<lambda>_. 0"] obtain r m' where "CopyArgvToStack ?p (\<lambda>_. 0) = Some (?p\<lparr>user_rsp := r\<rparr>, m')"
    "rd64 m' r = length (argv ?p)" by blast
  then show ?thesis by (intro exI [of _ ?p] exI [of _ m'] exI [of _ r]) simp
qed

section \<open>Zero initialisation\<close>

definition nobits :: "section_header \<Rightarrow> bool" where
  "nobits sec \<longleftrightarrow> sh_type sec = 8 \<and> sh_addr sec \<noteq> 0"

definition meets :: "nat \<Rightarrow> section_header \<Rightarrow> bool" where
  \<comment> \<open>the section and the page meet, if only at an end\<close>
  "meets boundary sec \<longleftrightarrow> sh_addr sec \<le> boundary + 4096 \<and> boundary \<le> sh_addr sec + sh_size sec"

lemma bss_overlap_meets:
  assumes "nobits sec" "boundary + 4096 < 2 ^ 64" "sh_addr sec + sh_size sec < 2 ^ 64"
  shows "bss_overlap boundary sec =
    (if meets boundary sec then (max boundary (sh_addr sec), min (boundary + 4096) (sh_addr sec + sh_size sec)) else (0, 0))"
proof -
  have "add64 boundary kFourKB = boundary + 4096" "add64 (sh_addr sec) (sh_size sec) = sh_addr sec + sh_size sec"
    using assms by (simp_all add: add64_id kFourKB_def)
  then show ?thesis by (auto simp: bss_overlap_def meets_def Let_def)
qed

lemma zero_init_ok:
  assumes page: "boundary + 4096 < 2 ^ 64"
    and secs: "\<forall>sec \<in> set secs. sh_addr sec + sh_size sec < 2 ^ 64"
    and one: "\<forall>s \<in> set secs. \<forall>t \<in> set secs. nobits s \<and> nobits t \<and> meets boundary s \<and> meets boundary t \<longrightarrow> s = t"
  shows "zero_init boundary secs vm x =
    (if boundary \<le> x \<and> x < boundary + 4096 \<and> (\<exists>s \<in> set secs. nobits s \<and> sh_addr s \<le> x \<and> x < sh_addr s + sh_size s) then 0 else vm x)"
  using secs one
proof (induction secs)
  case (Cons sec secs)
  have IH: "zero_init boundary secs vm x =
      (if boundary \<le> x \<and> x < boundary + 4096 \<and> (\<exists>s \<in> set secs. nobits s \<and> sh_addr s \<le> x \<and> x < sh_addr s + sh_size s) then 0 else vm x)"
    using Cons by simp
  show ?case
  proof (cases "nobits sec \<and> meets boundary sec")
    case True
    let ?a = "max boundary (sh_addr sec)" and ?b = "min (boundary + 4096) (sh_addr sec + sh_size sec)"
    have "bss_overlap boundary sec = (?a, ?b)" "?a \<noteq> 0" "?b \<noteq> 0" "?a \<le> ?b"
      using bss_overlap_meets [OF conjunct1 [OF True] page] True Cons.prems(1) by (auto simp: meets_def nobits_def)
    moreover have "sub64 ?b ?a = ?b - ?a" using page \<open>?a \<le> ?b\<close> by (intro sub64_id) auto
    ultimately have "zero_init boundary (sec # secs) vm = put_bytes ?a (replicate (?b - ?a) 0) vm"
      using True by (simp add: nobits_def)
    moreover have "s = sec" if "s \<in> set secs" "nobits s" "boundary \<le> x" "x < boundary + 4096" "sh_addr s \<le> x" "x < sh_addr s + sh_size s" for s
      using Cons.prems(2) True that unfolding meets_def by fastforce
    ultimately show ?thesis using True \<open>?a \<le> ?b\<close> by (auto simp: put_bytes_def)
  next
    case False
    have "zero_init boundary (sec # secs) vm = zero_init boundary secs vm"
      using False bss_overlap_meets [of sec boundary] page Cons.prems(1) by (auto simp: nobits_def)
    moreover have "\<not> (nobits sec \<and> sh_addr sec \<le> x \<and> x < sh_addr sec + sh_size sec)" if "boundary \<le> x" "x < boundary + 4096"
      using False that by (auto simp: meets_def)
    ultimately show ?thesis using IH by auto
  qed
qed simp

text \<open>A section that ends where the page begins hides the one in the page: the loop stops at it.\<close>

lemma zero_init_masked:
  assumes "sh_type u = 8" "sh_addr u = 0x400f00" "sh_size u = 0x100"
  shows "zero_init 0x401000 (u # secs) vm = vm"
  using assms by (simp add: bss_overlap_def Let_def add64_def sub64_def wrap_def kFourKB_def put_bytes_def fun_eq_iff) auto

section \<open>The pages of the image\<close>

text \<open>A segment that starts inside a page is read beyond that page.\<close>

lemma unaligned_segment_spills:
  assumes "p_vaddr ph = 0x400e10" "p_memsz ph = 0x1000"
  shows "\<exists>off. load_range 0x400000 ph = (off, 4096, 0x400e10)"
  using assms by (simp add: load_range_def FourKB_def)

lemma page_of:
  assumes "fault_addr < 2 ^ 64"
  defines "b \<equiv> Get4KBBoundary fault_addr"
  shows "b mod 4096 = 0" "b \<le> fault_addr" "fault_addr < b + 4096" "b + 4096 \<le> 2 ^ 64"
proof -
  show "b mod 4096 = 0" "b \<le> fault_addr" by (simp_all add: b_def Get4KBBoundary_def)
  have b: "b = fault_addr - fault_addr mod 4096" by (simp add: b_def Get4KBBoundary_def minus_mod_eq_div_mult)
  have "fault_addr mod 4096 < 4096" by simp
  then show "fault_addr < b + 4096" unfolding b by linarith
  have "fault_addr div 4096 < 2 ^ 52" using assms(1) by simp
  then show "b + 4096 \<le> 2 ^ 64" by (simp add: b_def Get4KBBoundary_def)
qed

lemma load_range_ok:
  assumes seg: "p_vaddr ph + p_memsz ph < 2 ^ 64" "p_offset ph + p_memsz ph < 2 ^ 64" and ends: "boundary < p_vaddr ph + p_memsz ph"
    and start: "p_vaddr ph < boundary + 4096" "p_vaddr ph mod 4096 = 0 \<or> p_vaddr ph < boundary" and page: "boundary mod 4096 = 0"
  shows "p_vaddr ph \<le> boundary" "load_range boundary ph = (p_offset ph + (boundary - p_vaddr ph), min 4096 (p_vaddr ph + p_memsz ph - boundary), boundary)"
proof -
  show le: "p_vaddr ph \<le> boundary"
  proof (rule ccontr)
    assume gt: "\<not> p_vaddr ph \<le> boundary"
    then obtain i j where "p_vaddr ph = 4096 * i" "boundary = 4096 * j" using start(2) page by (metis less_imp_le mod_eq_0_iff_dvd dvdE)
    then show False using gt start(1) by simp
  qed
  have "add64 (p_offset ph) boundary = u64 (p_offset ph + boundary)" by (simp add: add64_def)
  have off: "sub64 (add64 (p_offset ph) boundary) (p_vaddr ph) = p_offset ph + (boundary - p_vaddr ph)"
  proof -
    have v: "p_vaddr ph < 18446744073709551616" using seg(1) by simp
    have "sub64 (add64 (p_offset ph) boundary) (p_vaddr ph) = (p_offset ph + boundary + (18446744073709551616 - p_vaddr ph)) mod 18446744073709551616"
      unfolding sub64_def add64_def wrap_def mod_add_left_eq using v by simp
    also have "p_offset ph + boundary + (18446744073709551616 - p_vaddr ph) = p_offset ph + (boundary - p_vaddr ph) + 18446744073709551616"
      using v le by simp
    also have "(p_offset ph + (boundary - p_vaddr ph) + 18446744073709551616) mod 18446744073709551616 = p_offset ph + (boundary - p_vaddr ph)"
    proof -
      have "p_offset ph + (boundary - p_vaddr ph) < 18446744073709551616" using seg(2) [simplified] ends le by linarith
      then show ?thesis by (simp only: mod_add_self2 mod_less)
    qed
    finally show ?thesis .
  qed
  have "add64 (p_vaddr ph) (p_memsz ph) = p_vaddr ph + p_memsz ph" using seg(1) by (simp add: add64_id)
  moreover have "sub64 (p_vaddr ph + p_memsz ph) boundary = p_vaddr ph + p_memsz ph - boundary" using seg(1) ends by (intro sub64_id) simp_all
  moreover have "max (p_vaddr ph) boundary = boundary" using le by simp
  ultimately show "load_range boundary ph = (p_offset ph + (boundary - p_vaddr ph), min 4096 (p_vaddr ph + p_memsz ph - boundary), boundary)"
    using le off by (auto simp: load_range_def FourKB_def)
qed

text \<open>C31: For a segment that starts on a page boundary, or on an earlier page than the one of the fault, and
  when at most one section without bits meets the page, a page fault at any address of the segment fills the page it
  maps with the image: each byte of the page that belongs to the segment is the byte of the file at its offset, or 0
  where the section without bits covers it; the bytes of the page outside the segment or the file keep what the frame held, and
  no other page changes.\<close>

theorem page_fault_loads:
  assumes start: "\<not> terminate_ready p0" "(if num_page_fault p0 = 0 then CopyArgvToStack p0 vm0 else Some (p0, vm0)) = Some (p, vm)"
    and addr: "fault_addr < 2 ^ 63" "GetAddressInfo fault_addr p = ELF_SEGMENT_ADDR" "GetMatchingProgramHeader fault_addr p = Some ph"
    and seg: "p_vaddr ph + p_memsz ph < 2 ^ 64" "p_offset ph + p_memsz ph < 2 ^ 64"
      "p_vaddr ph mod 4096 = 0 \<or> p_vaddr ph < Get4KBBoundary fault_addr"
    and page: "AllocatePage palloc (pml4e_base_phys_addr p) (Get4KBBoundary fault_addr) 0 s = Some s1"
    and content: "\<forall>n off. ReadFilePath (take (ksize (file_name p)) (file_name p)) n off fs = Some (take n (drop off img))"
    and secs: "\<forall>sec \<in> set (section_headers p). sh_addr sec + sh_size sec < 2 ^ 64"
      "\<forall>u \<in> set (section_headers p). \<forall>t \<in> set (section_headers p). nobits u \<and> nobits t
         \<and> meets (Get4KBBoundary fault_addr) u \<and> meets (Get4KBBoundary fault_addr) t \<longrightarrow> u = t"
  shows "\<exists>vm'. PageFaultHandler palloc fs frame_bytes fault_addr p0 s vm0 = Some (Handled (p\<lparr>num_page_fault := num_page_fault p + 1\<rparr>, s1, vm'))
    \<and> (\<forall>x. vm' x =
         (if Get4KBBoundary fault_addr \<le> x \<and> x < Get4KBBoundary fault_addr + 4096 then
            if \<exists>sec \<in> set (section_headers p). nobits sec \<and> sh_addr sec \<le> x \<and> x < sh_addr sec + sh_size sec then 0
            else if x < p_vaddr ph + p_memsz ph \<and> p_offset ph + (x - p_vaddr ph) < length img
              then img ! (p_offset ph + (x - p_vaddr ph))
            else frame_bytes x
          else vm x))"
proof -
  define b where "b = Get4KBBoundary fault_addr"
  have "fault_addr < 2 ^ 64" using addr(1) by simp
  note pg = page_of [OF this, folded b_def]
  have in_seg: "p_vaddr ph \<le> fault_addr" "fault_addr < p_vaddr ph + p_memsz ph"
  proof -
    have "in_segment fault_addr ph" using addr(3) by (auto simp: GetMatchingProgramHeader_def find_Some_iff)
    then show "p_vaddr ph \<le> fault_addr" "fault_addr < p_vaddr ph + p_memsz ph" using seg(1) by (simp_all add: in_segment_def add64_id)
  qed
  have ends: "b < p_vaddr ph + p_memsz ph" "p_vaddr ph < b + 4096" using in_seg pg by linarith+
  note lr = load_range_ok [OF seg(1,2) ends seg(3) [folded b_def] pg(1)]
  define n where "n = min 4096 (p_vaddr ph + p_memsz ph - b)"
  define off where "off = p_offset ph + (b - p_vaddr ph)"
  define vm1 where "vm1 = (\<lambda>a. if b \<le> a \<and> a < b + 4096 then frame_bytes a else vm a)"
  let ?vm' = "ZeroInitIfNeeded b p (put_bytes b (take n (drop off img)) vm1)"
  have "PageFaultHandler palloc fs frame_bytes fault_addr p0 s vm0 = Some (Handled (p\<lparr>num_page_fault := num_page_fault p + 1\<rparr>, s1, ?vm'))"
    using start addr(2,3) page content lr(2) unfolding PageFaultHandler_def b_def [symmetric]
    by (simp add: vm1_def n_def off_def)
  moreover have "?vm' x = (if b \<le> x \<and> x < b + 4096 then
            if \<exists>sec \<in> set (section_headers p). nobits sec \<and> sh_addr sec \<le> x \<and> x < sh_addr sec + sh_size sec then 0
            else if x < p_vaddr ph + p_memsz ph \<and> p_offset ph + (x - p_vaddr ph) < length img
              then img ! (p_offset ph + (x - p_vaddr ph))
            else frame_bytes x
          else vm x)" for x
  proof -
    have "b + 4096 < 2 ^ 64" using pg(2) addr(1) by simp
    note z = zero_init_ok [OF this secs(1) secs(2) [folded b_def], of "put_bytes b (take n (drop off img)) vm1" x]
    have len: "length (take n (drop off img)) = min (length img - off) n" by simp
    have "put_bytes b (take n (drop off img)) vm1 x = (if x < p_vaddr ph + p_memsz ph \<and> p_offset ph + (x - p_vaddr ph) < length img
              then img ! (p_offset ph + (x - p_vaddr ph)) else frame_bytes x)" if x: "b \<le> x" "x < b + 4096"
    proof -
      have o: "off + (x - b) = p_offset ph + (x - p_vaddr ph)" using x lr(1) by (simp add: off_def)
      have "x < b + length (take n (drop off img)) \<longleftrightarrow> x < p_vaddr ph + p_memsz ph \<and> off + (x - b) < length img"
        unfolding len using x ends by (auto simp: n_def)
      then show ?thesis using x by (auto simp: put_bytes_def vm1_def o [symmetric])
    qed
    moreover have "put_bytes b (take n (drop off img)) vm1 x = vm x" if "\<not> (b \<le> x \<and> x < b + 4096)"
      using that by (auto simp: put_bytes_def vm1_def n_def)
    ultimately show ?thesis unfolding ZeroInitIfNeeded_def z by auto
  qed
  ultimately show ?thesis unfolding b_def by blast
qed

text \<open>What the file system reads is the file, for a file of direct blocks.\<close>

lemma ReadFilePath_bytes:
  assumes "GetInodeNumberFromPath path fs = Some i" "i \<noteq> - 1" "ReadInode (u64_of_int i) fs = Some ino" "inode_size ino \<le> 12288"
  shows "ReadFilePath path n off fs = Some (take n (drop off (map (file_byte ino (disk fs)) [0 ..< inode_size ino])))"
proof (cases "off < inode_size ino")
  case True
  let ?n = "min n (inode_size ino - off)"
  have "ReadFile ino (disk fs) ?n off = Some (map (file_byte ino (disk fs)) [off ..< min (off + ?n) (inode_size ino)])"
    by (rule ReadFile_bytes) (use True assms(4) in auto)
  moreover have "map (file_byte ino (disk fs)) [off ..< min (off + ?n) (inode_size ino)]
      = take n (drop off (map (file_byte ino (disk fs)) [0 ..< inode_size ino]))"
    by (simp add: drop_map take_map flip: take_map) (rule nth_equalityI; use True in auto)
  ultimately show ?thesis using True assms(1-3) by (simp add: ReadFilePath_def)
next
  case False
  then show ?thesis using assms(1-3) by (simp add: ReadFilePath_def)
qed

text \<open>A disk with one file, \<open>/a\<close>, of two bytes, and a process that maps it at 0x400000.\<close>

definition small_fs :: ext2 where
  "small_fs = \<lparr>disk = (\<lambda>x. if x = 5124 then 2 else if x = 5160 then 7 else if x = 7168 then 144 else if x = 7169 then 195 else 0),
     blocks_per_group = 8192, inodes_per_group = 8, block_descs = [\<lparr>gd_block_bitmap = 3, gd_inode_bitmap = 4, gd_inode_table = 5\<rparr>],
     block_bitmap = [], inode_bitmap = [], root_dir = [\<lparr>de_inode = 1, de_file_type = 1, de_name = [97]\<rparr>]\<rparr>"

definition small_process :: process where
  "small_process = \<lparr>pml4e_base_phys_addr = 0,
     program_headers = [\<lparr>p_type = 1, p_flags = 5, p_offset = 1, p_vaddr = 0x400000, p_paddr = 0, p_filesz = 1, p_memsz = 100, p_align = 4096\<rparr>],
     section_headers = [\<lparr>sh_name = 0, sh_type = 8, sh_flags = 3, sh_addr = 0x400001, sh_offset = 2, sh_size = 50, sh_link = 0, sh_info = 0,
       sh_addralign = 1, sh_entsize = 0\<rparr>],
     file_name = [47, 97, 0], argv = [], user_rsp = kUserProcessStackAddress - 8, entry_point = 0x400000, num_page_fault = 1, heap_bytes = 0,
     child_to_exit_code = Map.empty, terminate_ready = False\<rparr>"

definition small_inode :: inode where
  "small_inode = read_bytes 128 (GetFromBlockId (disk small_fs) 5) 0"

lemma small_path:
  "GetInodeNumberFromPath [47, 97] small_fs = Some 1" "ReadInode (u64_of_int 1) small_fs = Some small_inode"
proof -
  have "sv_find_first_of 47 1 [47, 97] = None" by (simp add: sv_find_first_of_def upt_rec)
  moreover have "find_entry (sv_substr 1 None [47, 97]) (root_dir small_fs) = Some \<lparr>de_inode = 1, de_file_type = 1, de_name = [97]\<rparr>"
    by (simp add: find_entry_def small_fs_def sv_substr_def kstr_eq_view_def kstr_of_chars_def ksize_def)
  ultimately show "GetInodeNumberFromPath [47, 97] small_fs = Some 1"
    by (simp add: GetInodeNumberFromPath_def lookup_from.simps s32_def wrap_def)
  have "u64_of_int 1 = 1" by (simp add: u64_of_int_def)
  then show "ReadInode (u64_of_int 1) small_fs = Some small_inode"
    by (simp add: small_inode_def ReadInode_def inode_place_def small_fs_def sub64_def wrap_def)
qed

lemma small_bytes: "inode_size small_inode = 2" "map (file_byte small_inode (disk small_fs)) [0 ..< 2] = [144, 195]"
proof -
  have sz: "inode_size small_inode = 2" "inode_block small_inode 0 = 7"
    by (simp_all add: small_inode_def inode_size_def inode_block_def rd32_def read_bytes_def GetFromBlockId_def lba_addr_def kBlockSize_def small_fs_def)
  show "inode_size small_inode = 2" by (rule sz(1))
  show "map (file_byte small_inode (disk small_fs)) [0 ..< 2] = [144, 195]"
    using sz by (simp add: upt_rec file_byte_def byte_pos_def small_fs_def)
qed

lemma small_file: "ReadFilePath [47, 97] n off small_fs = Some (take n (drop off [144, 195]))"
  using ReadFilePath_bytes [OF small_path(1) _ small_path(2), of n off] small_bytes by simp

lemma small_page:
  obtains s s1 where "AllocatePage eight_tables 0 0x400000 0 s = Some s1"
proof -
  define m0 where "m0 = \<lparr>page_table = empty_root, kernel_pml4e_base_phys_addr = 0\<rparr>"
  obtain a f where f: "AllocateFrame 0 new_frame_allocator = (a, f)" by fastforce
  obtain G where G: "buddies_ok new_frame_allocator G" using frame_run_ok [OF frame_run.start] by blast
  have bound: "physical_addr_boundary f \<le> 2 ^ 52"
    using f by (auto simp: AllocateFrame_def new_frame_allocator_def add_allocator_def kAllocatablePhysicalAddrStart_def kSingleAllocatorSize_def
        Let_def split: prod.splits if_splits)
  obtain G' p where "4096 * (p + 2 ^ 0) \<le> physical_addr_boundary f" and p: "a = 4096 * p" by (rule fresh_block [OF G _ f]) auto
  then have wrap: "4096 * p mod 18446744073709551616 = 4096 * p" using bound by simp
  have "AllocateTable eight_tables 0 0x400000 4096 False (4096 * p) empty_root \<noteq> None"
    by (simp add: wrap eight_tables_def empty_root_def mapping_defs upt_rec Let_def)
  then obtain st where "AllocateTable eight_tables 0 0x400000 4096 False (4096 * p) empty_root = Some st" by blast
  then have "AllocatePage eight_tables 0 0x400000 0 (m0, new_frame_allocator) = Some (m0\<lparr>page_table := st\<rparr>, f)"
    by (simp add: AllocatePage_def f p m0_def kKernelVMStart_def FourKB_def mul64_def wrap_def)
  then show ?thesis using that by blast
qed

theorem page_fault_loads_witness:
  "\<exists>s s1 p1 vm'. PageFaultHandler eight_tables small_fs (\<lambda>_. 9) 0x400010 small_process s (\<lambda>_. 3) = Some (Handled (p1, s1, vm'))
     \<and> vm' 0x400000 = 195 \<and> vm' 0x400001 = 0 \<and> vm' 0x400080 = 9 \<and> vm' 0x401000 = 3"
proof -
  obtain s s1 where s: "AllocatePage eight_tables 0 0x400000 0 s = Some s1" by (rule small_page)
  let ?ph = "program_headers small_process ! 0"
  have b: "Get4KBBoundary 0x400010 = 0x400000" by (simp add: Get4KBBoundary_def)
  have 1: "\<not> terminate_ready small_process"
    "(if num_page_fault small_process = 0 then CopyArgvToStack small_process (\<lambda>_. 3) else Some (small_process, (\<lambda>_. 3))) = Some (small_process, (\<lambda>_. 3))"
    "(0x400010 :: nat) < 2 ^ 63" "GetAddressInfo 0x400010 small_process = ELF_SEGMENT_ADDR"
    "GetMatchingProgramHeader 0x400010 small_process = Some ?ph"
    by (simp_all add: small_process_def GetAddressInfo_def GetMatchingProgramHeader_def in_segment_def kUserProcessStackAddress_def kEightMB_def
        add64_def wrap_def)
  have 2: "p_vaddr ?ph + p_memsz ?ph < 2 ^ 64" "p_offset ?ph + p_memsz ?ph < 2 ^ 64" "p_vaddr ?ph mod 4096 = 0 \<or> p_vaddr ?ph < Get4KBBoundary 0x400010"
    by (simp_all add: small_process_def)
  have 3: "AllocatePage eight_tables (pml4e_base_phys_addr small_process) (Get4KBBoundary 0x400010) 0 s = Some s1"
    using s by (simp add: b small_process_def)
  have 4: "\<forall>n off. ReadFilePath (take (ksize (file_name small_process)) (file_name small_process)) n off small_fs = Some (take n (drop off [144, 195]))"
    using small_file by (simp add: small_process_def ksize_def)
  have 5: "\<forall>sec \<in> set (section_headers small_process). sh_addr sec + sh_size sec < 2 ^ 64"
    "\<forall>u \<in> set (section_headers small_process). \<forall>t \<in> set (section_headers small_process). nobits u \<and> nobits t
       \<and> meets (Get4KBBoundary 0x400010) u \<and> meets (Get4KBBoundary 0x400010) t \<longrightarrow> u = t"
    by (simp_all add: small_process_def)
  from page_fault_loads [OF 1 2 3 4 5, of "\<lambda>_. 9"] obtain vm' where
    vm': "PageFaultHandler eight_tables small_fs (\<lambda>_. 9) 0x400010 small_process s (\<lambda>_. 3)
        = Some (Handled (small_process\<lparr>num_page_fault := num_page_fault small_process + 1\<rparr>, s1, vm'))"
      "\<forall>x. vm' x = (if 0x400000 \<le> x \<and> x < 0x400000 + 4096 then
            if \<exists>sec \<in> set (section_headers small_process). nobits sec \<and> sh_addr sec \<le> x \<and> x < sh_addr sec + sh_size sec then 0
            else if x < p_vaddr ?ph + p_memsz ?ph \<and> p_offset ?ph + (x - p_vaddr ?ph) < length [144, 195 :: byte]
              then [144, 195] ! (p_offset ?ph + (x - p_vaddr ?ph))
            else 9
          else 3)" unfolding b by blast
  have "vm' 0x400000 = 195" "vm' 0x400001 = 0" "vm' 0x400080 = 9" "vm' 0x401000 = 3"
    unfolding spec [OF vm'(2)] by (simp_all add: small_process_def nobits_def)
  then show ?thesis using vm'(1) by blast
qed

end
