(* ===== verification/Keyboard.thy ===== *)
theory Keyboard
  imports Prelude
begin

text \<open>
  The keyboard, \<open>kernel/kernel/keyboard.cc\<close> and \<open>keyboard.h\<close>: scan codes, the keys that are down,
  and the strokes the console gets. A key is a number, a character or a \<open>KEY_CODES\<close> value; a
  \<open>char\<close> is a byte.
\<close>

section \<open>Key codes\<close>

definition ESC :: nat where "ESC = 256"
definition BACKSPACE :: nat where "BACKSPACE = 257"
definition TAB :: nat where "TAB = 258"
definition LSHIFT :: nat where "LSHIFT = 259"
definition RSHIFT :: nat where "RSHIFT = 260"
definition LCTRL :: nat where "LCTRL = 261"
definition RCTRL :: nat where "RCTRL = 262"
definition CAPSLOCK :: nat where "CAPSLOCK = 263"
definition SCROLL_LOCK :: nat where "SCROLL_LOCK = 264"
definition ENTER :: nat where "ENTER = 265"
definition KEYPAD_STAR :: nat where "KEYPAD_STAR = 266"
definition LALT :: nat where "LALT = 267"
definition SPACE :: nat where "SPACE = 268"
definition F1 :: nat where "F1 = 269"
definition F2 :: nat where "F2 = 270"
definition F3 :: nat where "F3 = 271"
definition F4 :: nat where "F4 = 272"
definition F5 :: nat where "F5 = 273"
definition F6 :: nat where "F6 = 274"
definition F7 :: nat where "F7 = 275"
definition F8 :: nat where "F8 = 276"
definition F9 :: nat where "F9 = 277"
definition F10 :: nat where "F10 = 278"
definition NUMBER_LOCK :: nat where "NUMBER_LOCK = 279"
definition KEYPAD_7 :: nat where "KEYPAD_7 = 280"
definition KEYPAD_8 :: nat where "KEYPAD_8 = 281"
definition KEYPAD_9 :: nat where "KEYPAD_9 = 282"
definition KEYPAD_MINUS :: nat where "KEYPAD_MINUS = 283"
definition KEYPAD_4 :: nat where "KEYPAD_4 = 284"
definition KEYPAD_5 :: nat where "KEYPAD_5 = 285"
definition KEYPAD_6 :: nat where "KEYPAD_6 = 286"
definition KEYPAD_PLUS :: nat where "KEYPAD_PLUS = 287"
definition KEYPAD_1 :: nat where "KEYPAD_1 = 288"
definition KEYPAD_2 :: nat where "KEYPAD_2 = 289"
definition KEYPAD_3 :: nat where "KEYPAD_3 = 290"
definition KEYPAD_0 :: nat where "KEYPAD_0 = 291"
definition KEYPAD_DOT :: nat where "KEYPAD_DOT = 292"
definition F11 :: nat where "F11 = 293"
definition F12 :: nat where "F12 = 294"
definition CODE_NOT_EXIST :: nat where "CODE_NOT_EXIST = 295"
definition NUM_KEY_CODES :: nat where "NUM_KEY_CODES = 296"

datatype KEY_ACTION = KEY_DOWN | KEY_UP | KEY_ERROR

record key_stroke =
  stroke_key :: nat
  is_ctrl_down :: bool
  is_alt_down :: bool
  is_shift_down :: bool
  stroke_action :: KEY_ACTION

section \<open>Scan codes\<close>

definition kScanCodeToASCII :: "nat list" where
  "kScanCodeToASCII =
    [0, ESC, 49, 50, 51, 52, 53, 54, 55, 56, 57, 48, 45, 61, BACKSPACE, TAB, 113, 119, 101, 114, 116, 121, 117,
     105, 111, 112, 91, 93, ENTER, LCTRL, 97, 115, 100, 102, 103, 104, 106, 107, 108, 59, 39, 96, LSHIFT, 92, 122,
     120, 99, 118, 98, 110, 109, 44, 46, 47, RSHIFT, KEYPAD_STAR, LALT, 32, CAPSLOCK, F1, F2, F3, F4, F5, F6, F7,
     F8, F9, F10, NUMBER_LOCK, SCROLL_LOCK, KEYPAD_7, KEYPAD_8, KEYPAD_9, KEYPAD_MINUS, KEYPAD_4, KEYPAD_5,
     KEYPAD_6, KEYPAD_PLUS, KEYPAD_1, KEYPAD_2, KEYPAD_3, KEYPAD_0, KEYPAD_DOT, 0, 0, 0, F11, F12]"

definition ScanCodeToASCII :: "nat \<Rightarrow> nat \<times> KEY_ACTION" where
  "ScanCodeToASCII scan_code =
     (if scan_code \<le> 0x58 then (kScanCodeToASCII ! scan_code, KEY_DOWN)
      else if 0x81 \<le> scan_code \<and> scan_code \<le> 0xD8 then (kScanCodeToASCII ! (scan_code - 0x80), KEY_UP)
      else (CODE_NOT_EXIST, KEY_ERROR))"

section \<open>Characters\<close>

definition ToUpperCase :: "nat \<Rightarrow> nat" where
  "ToUpperCase c = (if 97 \<le> c \<and> c \<le> 122 then c + 65 - 97 else c)"

definition shifted_signs :: "(nat \<times> nat) list" where
  \<comment> \<open>the cases of the \<open>switch\<close>\<close>
  "shifted_signs = [(96, 126), (45, 95), (61, 43), (91, 123), (93, 125), (59, 58), (39, 34), (44, 60), (46, 62), (47, 63)]"

definition CharWhenShiftPressed :: "nat \<Rightarrow> nat" where
  "CharWhenShiftPressed c =
     (if 97 \<le> c \<and> c \<le> 122 then ToUpperCase c
      else if 48 \<le> c \<and> c \<le> 57 then [41, 33, 64, 35, 36, 37, 94, 38, 42, 40] ! (c - 48)
      else case map_of shifted_signs c of None \<Rightarrow> c | Some d \<Rightarrow> d)"

definition ToChar :: "key_stroke \<Rightarrow> 8 word" where
  \<comment> \<open>\<open>KeyStroke::ToChar\<close>\<close>
  "ToChar k =
     word_of_nat (if stroke_key k < 128 then if is_shift_down k then CharWhenShiftPressed (stroke_key k) else stroke_key k
                  else 0)"

section \<open>The driver\<close>

type_synonym keys_down = "nat \<Rightarrow> nat"  \<comment> \<open>\<open>key_press_list_\<close>: when each key went down, 0 for a key that is up\<close>

definition IsShiftDown :: "keys_down \<Rightarrow> bool" where
  "IsShiftDown keys \<longleftrightarrow> keys LSHIFT \<noteq> 0 \<or> keys RSHIFT \<noteq> 0"

definition IsControlDown :: "keys_down \<Rightarrow> bool" where
  "IsControlDown keys \<longleftrightarrow> keys LCTRL \<noteq> 0 \<or> keys RCTRL \<noteq> 0"

definition IsAltDown :: "keys_down \<Rightarrow> bool" where
  "IsAltDown keys \<longleftrightarrow> keys LALT \<noteq> 0"

datatype keyboard_event = Ignored | Stroke key_stroke | Print "8 word" | NoEvent

definition MainKeyboardHandler :: "bool \<Rightarrow> nat \<Rightarrow> nat \<Rightarrow> keys_down \<Rightarrow> keyboard_event \<times> keys_down" where
  \<comment> \<open>at a time of the clock; a stroke goes to the console once it runs\<close>
  "MainKeyboardHandler console_running clock scan_code keys =
     (case ScanCodeToASCII scan_code of
        (key, action) \<Rightarrow>
          if action = KEY_DOWN \<and> keys key \<noteq> 0 \<and> sub64 clock (keys key) < 40 then (Ignored, keys)
          else
            let keys1 = (if action = KEY_DOWN then if keys key = 0 then keys(key := clock) else keys else keys(key := 0))
            in (if console_running
                then Stroke \<lparr>stroke_key = key, is_ctrl_down = IsControlDown keys1, is_alt_down = IsAltDown keys1,
                             is_shift_down = IsShiftDown keys1, stroke_action = action\<rparr>
                else if action = KEY_DOWN
                then Print (word_of_nat (if key < 128 then if IsShiftDown keys1 then CharWhenShiftPressed key else key
                                         else if key = ENTER then 10 else 0))
                else NoEvent, keys1))"

text \<open>Every code of a key that goes up is the code of one that goes down, so no key stays down.\<close>

lemma kScanCodeToASCII_length: "length kScanCodeToASCII = 0x59"
  by (simp add: kScanCodeToASCII_def)

lemma release_matches_press:
  "0x01 \<le> s \<Longrightarrow> s \<le> 0x58 \<Longrightarrow> fst (ScanCodeToASCII (s + 0x80)) = fst (ScanCodeToASCII s)"
  by (simp add: ScanCodeToASCII_def)

end
