(* ===== verification/Console.thy ===== *)
theory Console
  imports CString Files Keyboard
begin

text \<open>
  The console, \<open>kernel/kernel/console.cc\<close>: the queue of key strokes, the input line and the commands
  of the shell, the input of the foreground process through the pipe, and the terminal output with its
  ring buffer; \<open>sys_console.h\<close> sets its modes. The interrupt handler and the threads of the console
  run their steps one after the other. \<open>create\<close> is \<open>ProcessManager::CreateProcess\<close>, of which the console
  sees the new process or \<open>nullptr\<close>: path, working directory and arguments to the process.
\<close>

section \<open>State\<close>

datatype ConsoleBufferingModes = NO_BUFFER | LINE_BUFFER

definition ASCII_ONLY :: nat where "ASCII_ONLY = 1"
definition EVERYTHING :: nat where "EVERYTHING = 2"
definition RECORD_UP :: nat where "RECORD_UP = 4"

definition kInputLineBufferSize :: nat where "kInputLineBufferSize = 1024"
definition kKeyStrokeBufferSize :: nat where "kKeyStrokeBufferSize = 1024"
definition kTerminalOutputBufferSize :: nat where "kTerminalOutputBufferSize = 1048576 - 1"

record console =
  received_keyinfo_queue :: "key_stroke list"
  current_read_index :: nat
  current_write_index :: nat
  input_buffer :: mem
  input_buffer_size :: nat
  should_show_shell_prefix :: bool
  fg_process :: "nat option"
  fg_process_started :: bool
  process_tables :: "nat \<Rightarrow> fd_table option"  \<comment> \<open>the \<open>fd_table_\<close> of a process\<close>
  started_processes :: "nat list"  \<comment> \<open>the processes whose \<open>Start\<close> was called, in order\<close>
  told_to_terminate :: "nat set"  \<comment> \<open>processes marked by \<open>MakeTerminateReady\<close>\<close>
  bg_process_list :: "(kstring \<times> nat) list"
  buffering_mode :: ConsoleBufferingModes
  keystroke_mode :: nat
  console_pipe :: pipe
  console_pipe_read_end :: nat  \<comment> \<open>the address of the descriptor\<close>
  console_dir :: kstring
  term_output_buffer :: mem
  term_output_read_index :: nat
  term_output_write_index :: nat

definition no_stroke :: key_stroke where
  "no_stroke = \<lparr>stroke_key = 0, is_ctrl_down = False, is_alt_down = False, is_shift_down = False, stroke_action = KEY_DOWN\<rparr>"

definition new_console :: console where
  "new_console = \<lparr>received_keyinfo_queue = replicate kKeyStrokeBufferSize no_stroke, current_read_index = 0, current_write_index = 0,
     input_buffer = (\<lambda>_. 0), input_buffer_size = 0, should_show_shell_prefix = True, fg_process = None, fg_process_started = False,
     process_tables = (\<lambda>_. None), started_processes = [], told_to_terminate = {}, bg_process_list = [], buffering_mode = LINE_BUFFER, keystroke_mode = ASCII_ONLY, console_pipe = new_pipe,
     console_pipe_read_end = 1, console_dir = [47, 0], term_output_buffer = (\<lambda>_. 0), term_output_read_index = 0, term_output_write_index = 0\<rparr>"

definition has_mode :: "nat \<Rightarrow> console \<Rightarrow> bool" where
  "has_mode mode c \<longleftrightarrow> and (keystroke_mode c) mode \<noteq> 0"

section \<open>The queue of key strokes\<close>

definition AddKeyStroke :: "key_stroke \<Rightarrow> console \<Rightarrow> console" where
  "AddKeyStroke key c0 =
     (let c1 = (if stroke_key key = 99 \<and> is_ctrl_down key
                then case fg_process c0 of None \<Rightarrow> c0 | Some p \<Rightarrow> c0\<lparr>told_to_terminate := insert p (told_to_terminate c0)\<rparr>
                else c0);
          c2 = (if current_write_index c1 = kKeyStrokeBufferSize then c1\<lparr>current_write_index := 0\<rparr> else c1)
      in if stroke_action key = KEY_UP \<and> \<not> has_mode RECORD_UP c2 then c2
         else c2\<lparr>received_keyinfo_queue := (received_keyinfo_queue c2)[current_write_index c2 := key],
                 current_write_index := current_write_index c2 + 1\<rparr>)"

fun copy_strokes :: "nat \<Rightarrow> nat list \<Rightarrow> key_stroke list \<Rightarrow> key_stroke list" where
  \<comment> \<open>\<open>Run\<close> passes the queue itself as the vector to fill\<close>
  "copy_strokes rd [] q = q"
| "copy_strokes rd (i # is) q =
     copy_strokes rd is (q[i := q ! (if i + rd < kKeyStrokeBufferSize then i + rd else i + rd - kKeyStrokeBufferSize)])"

definition num_strokes :: "console \<Rightarrow> nat" where
  "num_strokes c =
     (let num_to_read = int (current_write_index c) - int (current_read_index c)
      in nat (if num_to_read < 0 then num_to_read + int kKeyStrokeBufferSize else num_to_read))"

definition ReadKeyStroke :: "console \<Rightarrow> nat \<times> console" where
  "ReadKeyStroke c =
     (if current_write_index c = current_read_index c then (0, c)
      else
        let n = num_strokes c;
            rd = current_read_index c + n
        in (n, c\<lparr>received_keyinfo_queue := copy_strokes (current_read_index c) [0 ..< n] (received_keyinfo_queue c),
                 current_read_index := (if rd \<ge> kKeyStrokeBufferSize then rd - kKeyStrokeBufferSize else rd)\<rparr>))"

section \<open>Commands\<close>

function view_split :: "view \<Rightarrow> byte \<Rightarrow> nat \<Rightarrow> view list" where
  "view_split s delim cur =
     (if cur < length s then
        (case sv_find_first_of delim cur s of
           None \<Rightarrow> [sv_substr cur None s]
         | Some nxt \<Rightarrow>
             (if nxt \<noteq> cur then [sv_substr cur (Some (nxt - cur)) s] else []) @ view_split s delim (nxt + 1))
      else [])"
  by pat_completeness auto

termination
  by (relation "measure (\<lambda>(s, delim, cur). length s - cur)") (auto dest!: sv_find_bounds)

declare view_split.simps [simp del]

definition DoCd :: "ext2 \<Rightarrow> kstring \<Rightarrow> console \<Rightarrow> console option" where
  "DoCd e path c =
     (let new_working_dir = GetCanonicalAbsolutePath (GetAbsolutePath path (console_dir c))
      in map_option (\<lambda>file_info.
           if GetFileFormatFromMode (word_of_nat (fi_mode file_info)) = S_DIR then c\<lparr>console_dir := new_working_dir\<rparr> else c)
         (StatPath (take (ksize new_working_dir) new_working_dir) e))"

type_synonym create = "kstring \<Rightarrow> kstring \<Rightarrow> kstring list \<Rightarrow> nat option"

definition STDIN :: int where "STDIN = 0"

definition connect_stdin :: "alloc \<Rightarrow> nat \<Rightarrow> console \<Rightarrow> console option" where
  \<comment> \<open>the table of a process is that of its constructor, as its parent, the console thread, is no process\<close>
  "connect_stdin alloc p c =
     do {
       t0 \<leftarrow> new_table alloc;
       (prev, t) \<leftarrow> SetDescriptor alloc STDIN (Some (console_pipe_read_end c)) t0;
       Some (c\<lparr>process_tables := (process_tables c)(p := Some t)\<rparr>)
     }"

definition start_process :: "nat \<Rightarrow> console \<Rightarrow> console" where
  "start_process p c = c\<lparr>started_processes := started_processes c @ [p]\<rparr>"

definition launch :: "alloc \<Rightarrow> create \<Rightarrow> bool \<Rightarrow> view list \<Rightarrow> console \<Rightarrow> console option" where
  \<comment> \<open>the program is looked up in the working directory, then in \<open>/usr/bin\<close>\<close>
  "launch alloc create run_as_background input c =
     (let argv = map kstr_of_view input;
          c1 = c\<lparr>buffering_mode := LINE_BUFFER, keystroke_mode := ASCII_ONLY, console_pipe := SetBlocking True (console_pipe c)\<rparr>;
          name = kstr_of_view (hd input);
          file_path = GetCanonicalAbsolutePath (GetAbsolutePath name (console_dir c1));
          process = (case create file_path (console_dir c1) argv of
                       Some p \<Rightarrow> Some p
                     | None \<Rightarrow> create (GetAbsolutePath name [47, 117, 115, 114, 47, 98, 105, 110, 0]) (console_dir c1) argv)
      in case process of
           None \<Rightarrow> Some c1
         | Some p \<Rightarrow> do {
             c2 \<leftarrow> connect_stdin alloc p c1;
             Some (if \<not> run_as_background then (start_process p (c2\<lparr>fg_process := Some p\<rparr>))\<lparr>fg_process_started := True\<rparr>
                   else (start_process p c2)\<lparr>bg_process_list := bg_process_list c2 @ [(name, p)]\<rparr>)
           })"

definition DoParse :: "ext2 \<Rightarrow> alloc \<Rightarrow> create \<Rightarrow> console \<Rightarrow> console option" where
  "DoParse e alloc create c0 =
     (let n = input_buffer_size c0;
          run_as_background = (n \<ge> 1 \<and> input_buffer c0 (n - 1) = 38);
          input = view_split (map (input_buffer c0) [0 ..< if run_as_background then n - 1 else n]) 32 0;
          c = c0\<lparr>input_buffer_size := 0\<rparr>
      in if input = [] then Some c
         else if hd input = [99, 100] then
           if length input > 1 then DoCd e (kstr_of_view (input ! 1)) c else Some c
         else if hd input \<in> {[99, 108, 101, 97, 114], [112, 115], [106, 111, 98, 115]} then Some c  \<comment> \<open>\<open>clear\<close>, \<open>ps\<close> and \<open>jobs\<close> print\<close>
         else launch alloc create run_as_background input c)"

section \<open>The input line\<close>

datatype 'a console_step = Went 'a | Waiting | Failed
  \<comment> \<open>waiting for the reader of the pipe; a \<open>PANIC\<close> or a store outside a buffer\<close>

fun and_then :: "'a console_step \<Rightarrow> ('a \<Rightarrow> 'b console_step) \<Rightarrow> 'b console_step" where
  "and_then (Went x) g = g x"
| "and_then Waiting g = Waiting"
| "and_then Failed g = Failed"

definition put_char :: "byte \<Rightarrow> console \<Rightarrow> console console_step" where
  \<comment> \<open>\<open>input_buffer_[input_buffer_size_++] = ch\<close>\<close>
  "put_char ch c =
     (if input_buffer_size c < kInputLineBufferSize
      then Went (c\<lparr>input_buffer := (input_buffer c)(input_buffer_size c := ch), input_buffer_size := input_buffer_size c + 1\<rparr>)
      else Failed)"

definition put_status :: "key_stroke \<Rightarrow> console \<Rightarrow> console console_step" where
  "put_status k c =
     (if has_mode RECORD_UP c then
        (case stroke_action k of KEY_UP \<Rightarrow> put_char 1 c | KEY_DOWN \<Rightarrow> put_char 2 c | KEY_ERROR \<Rightarrow> Went c)
      else Went c)"

definition SendInputBufferToFgProcess :: "nat \<Rightarrow> console \<Rightarrow> console console_step" where
  "SendInputBufferToFgProcess index c =
     (case pipe_write (map (input_buffer c) [0 ..< index]) (console_pipe c) of
        Waits \<Rightarrow> Waiting
      | Finished (n, p) \<Rightarrow> Went (c\<lparr>console_pipe := p, input_buffer_size := 0\<rparr>))"

definition put_utf8 :: "nat \<Rightarrow> console \<Rightarrow> console console_step" where
  "put_utf8 key c =
     (case SetUnicodeToUTF8 key (input_buffer_size c) (input_buffer c) of
        (n, m) \<Rightarrow> if input_buffer_size c + n \<le> kInputLineBufferSize
                   then Went (c\<lparr>input_buffer := m, input_buffer_size := input_buffer_size c + n\<rparr>) else Failed)"

definition put_key :: "key_stroke \<Rightarrow> console \<Rightarrow> console console_step" where
  \<comment> \<open>a key other than enter and backspace\<close>
  "put_key k c0 =
     and_then (put_status k c0) (\<lambda>c.
       and_then (if ToChar k \<noteq> 0 then put_char (ToChar k) c
                 else if has_mode EVERYTHING c then put_utf8 (stroke_key k) c else Went c) (\<lambda>c.
         if fg_process c \<noteq> None \<and> buffering_mode c = NO_BUFFER then SendInputBufferToFgProcess (input_buffer_size c) c else Went c))"

definition hit_enter :: "ext2 \<Rightarrow> alloc \<Rightarrow> create \<Rightarrow> key_stroke \<Rightarrow> console \<Rightarrow> console console_step" where
  "hit_enter e alloc create k c0 =
     (if fg_process c0 = None then
        (case DoParse e alloc create (c0\<lparr>fg_process_started := False\<rparr>) of
           None \<Rightarrow> Failed
         | Some c \<Rightarrow> Went (if \<not> fg_process_started c then c\<lparr>should_show_shell_prefix := True\<rparr> else c))
      else
        and_then (put_status k c0) (\<lambda>c. and_then (put_char 13 c) (\<lambda>c. SendInputBufferToFgProcess (input_buffer_size c) c)))"

definition handle_stroke :: "ext2 \<Rightarrow> alloc \<Rightarrow> create \<Rightarrow> key_stroke \<Rightarrow> console \<Rightarrow> console console_step" where
  "handle_stroke e alloc create k c =
     (if stroke_key k = ENTER then hit_enter e alloc create k c
      else if stroke_key k = BACKSPACE then
        Went (if input_buffer_size c > 0 then c\<lparr>input_buffer_size := input_buffer_size c - 1\<rparr> else c)
      else put_key k c)"

fun fill_and_parse :: "ext2 \<Rightarrow> alloc \<Rightarrow> create \<Rightarrow> key_stroke list \<Rightarrow> console \<Rightarrow> console console_step" where
  "fill_and_parse e alloc create [] c = Went c"
| "fill_and_parse e alloc create (k # ks) c =
     and_then (handle_stroke e alloc create k c) (\<lambda>c1.
       if input_buffer_size c1 \<ge> kInputLineBufferSize then Went c1 else fill_and_parse e alloc create ks c1)"

definition FillInputBufferAndParse :: "ext2 \<Rightarrow> alloc \<Rightarrow> create \<Rightarrow> nat \<Rightarrow> console \<Rightarrow> console console_step" where
  "FillInputBufferAndParse e alloc create num_received c = fill_and_parse e alloc create (take num_received (received_keyinfo_queue c)) c"

definition Run_step :: "ext2 \<Rightarrow> alloc \<Rightarrow> create \<Rightarrow> console \<Rightarrow> console console_step" where
  \<comment> \<open>one turn of the loop of \<open>Run\<close>; the prefix and the strokes are printed\<close>
  "Run_step e alloc create c0 =
     (let c = (if should_show_shell_prefix c0 then c0\<lparr>should_show_shell_prefix := False\<rparr> else c0)
      in case ReadKeyStroke c of
           (n, c1) \<Rightarrow> if n = 0 then Went c1 else FillInputBufferAndParse e alloc create n c1)"

definition wait_fg_process :: "(nat \<Rightarrow> bool) \<Rightarrow> console \<Rightarrow> console" where
  \<comment> \<open>one turn of the thread that joins the foreground process\<close>
  "wait_fg_process terminated c =
     (case fg_process c of
        Some p \<Rightarrow> if terminated p then c\<lparr>fg_process := None, should_show_shell_prefix := True\<rparr> else c
      | None \<Rightarrow> c)"

section \<open>The terminal\<close>

definition PrintToTerminal :: "byte list \<Rightarrow> console \<Rightarrow> console" where
  "PrintToTerminal data c =
     fold (\<lambda>b c. c\<lparr>term_output_buffer := (term_output_buffer c)(term_output_write_index c mod kTerminalOutputBufferSize := b),
                    term_output_write_index := add64 (term_output_write_index c) 1\<rparr>) data c"

definition PrintTermOutputBuffer :: "console \<Rightarrow> (byte list \<times> console) console_step" where
  \<comment> \<open>one turn of the loop: what is put on the screen; the copy has room for one byte more than the ring\<close>
  "PrintTermOutputBuffer c =
     (let write_index = term_output_write_index c mod kTerminalOutputBufferSize;
          rd = term_output_read_index c
      in if write_index = rd then Went ([], c)
         else
           let num_to_read = (if write_index > rd then write_index - rd else rd - write_index + kTerminalOutputBufferSize)
           in if num_to_read \<ge> kTerminalOutputBufferSize + 1 then Failed
              else Went (map (\<lambda>i. term_output_buffer c (if i + rd < kTerminalOutputBufferSize then i + rd
                                                         else i + rd - kTerminalOutputBufferSize)) [0 ..< num_to_read],
                     c\<lparr>term_output_read_index := (if rd + num_to_read \<ge> kTerminalOutputBufferSize
                                                      then rd + num_to_read - kTerminalOutputBufferSize else rd + num_to_read)\<rparr>))"

section \<open>The system call\<close>

definition SetKeystrokeMode :: "nat \<Rightarrow> console \<Rightarrow> console" where
  "SetKeystrokeMode mode c = c\<lparr>keystroke_mode := or (keystroke_mode c) mode\<rparr>"

definition SysConsole :: "nat \<Rightarrow> nat \<Rightarrow> console \<Rightarrow> nat \<times> console" where
  "SysConsole process command c =
     (if fg_process c \<noteq> Some process then (1, c)
      else
        let on = (\<lambda>b f c. if and command b \<noteq> 0 then f c else c);
            c1 = on 1 (\<lambda>c. c\<lparr>buffering_mode := NO_BUFFER\<rparr>) c;
            c2 = on 2 (\<lambda>c. c\<lparr>buffering_mode := LINE_BUFFER\<rparr>) c1;
            c3 = on 4 (SetKeystrokeMode ASCII_ONLY) c2;
            c4 = on 8 (SetKeystrokeMode EVERYTHING) c3;
            c5 = on 64 (SetKeystrokeMode RECORD_UP) c4;
            c6 = on 16 (\<lambda>c. c\<lparr>console_pipe := (console_pipe c)\<lparr>is_blocking := True\<rparr>\<rparr>) c5;
            c7 = on 32 (\<lambda>c. c\<lparr>console_pipe := (console_pipe c)\<lparr>is_blocking := False\<rparr>\<rparr>) c6
        in (0, c7))"

end
