(* ===== verification/ConsoleProps.thy ===== *)
theory ConsoleProps
  imports Console FilesProps "HOL-Library.Sublist"
begin

text \<open>
  What the console does with what is typed and printed: a line is edited and run as a command, key
  strokes are read in order until the ring wraps around, and terminal output comes out as it went in.
\<close>

section \<open>Words of a line\<close>



section \<open>Editing\<close>



















section \<open>The queue of key strokes\<close>

lemma copy_strokes_ok:
  assumes "n + rd \<le> 1024" "length q = 1024"
  shows "copy_strokes rd [0 ..< n] q = take n (drop rd q) @ drop n q"
  using assms(1)
proof (induction n)
  case (Suc n)
  have split: "copy_strokes rd (xs @ ys) q = copy_strokes rd ys (copy_strokes rd xs q)" for xs ys q by (induction xs arbitrary: q) auto
  let ?q = "take n (drop rd q) @ drop n q"
  have "?q ! (n + rd) = q ! (n + rd)" using Suc.prems assms(2) by (simp add: nth_append)
  then have "copy_strokes rd [0 ..< Suc n] q = ?q[n := q ! (n + rd)]"
    using Suc by (simp add: split kKeyStrokeBufferSize_def)
  also have "\<dots> = take (Suc n) (drop rd q) @ drop (Suc n) q"
    using Suc.prems assms(2) by (intro nth_equalityI) (auto simp: nth_list_update nth_append add.commute less_Suc_eq)
  finally show ?case .
qed simp

text \<open>Without a wrap-around the strokes are read in order.\<close>

lemma read_in_order:
  assumes "current_read_index c \<le> current_write_index c" "current_write_index c \<le> 1024" "length (received_keyinfo_queue c) = 1024"
  shows "fst (ReadKeyStroke c) = current_write_index c - current_read_index c"
    "take (fst (ReadKeyStroke c)) (received_keyinfo_queue (snd (ReadKeyStroke c)))
       = drop (current_read_index c) (take (current_write_index c) (received_keyinfo_queue c))"
proof -
  let ?r = "current_read_index c" and ?w = "current_write_index c"
  have n: "num_strokes c = ?w - ?r" using assms(1) by (simp add: num_strokes_def nat_diff_distrib)
  show "fst (ReadKeyStroke c) = ?w - ?r" using assms(1) by (auto simp: ReadKeyStroke_def n Let_def)
  show "take (fst (ReadKeyStroke c)) (received_keyinfo_queue (snd (ReadKeyStroke c))) = drop ?r (take ?w (received_keyinfo_queue c))"
  proof (cases "?w = ?r")
    case False
    have "take (?w - ?r) (take (?w - ?r) (drop ?r (received_keyinfo_queue c)) @ drop (?w - ?r) (received_keyinfo_queue c))
        = take (?w - ?r) (drop ?r (received_keyinfo_queue c))" using assms by simp
    then show ?thesis using False copy_strokes_ok [of "?w - ?r" ?r "received_keyinfo_queue c"] assms
      by (simp add: ReadKeyStroke_def n Let_def drop_take)
  qed (simp add: ReadKeyStroke_def)
qed

text \<open>After exactly 1024 strokes the write index is at the end and the read index at the start: the
  whole queue is read again, as often as the console looks.\<close>

lemma strokes_replayed:
  assumes "current_write_index c = 1024" "current_read_index c = 0" "length (received_keyinfo_queue c) = 1024"
  shows "ReadKeyStroke c = (1024, c)"
  using assms copy_strokes_ok [of 1024 0 "received_keyinfo_queue c"]
  by (simp add: ReadKeyStroke_def num_strokes_def kKeyStrokeBufferSize_def Let_def)

text \<open>After a wrap-around the queue is overwritten while it is read: the strokes from its start on
  come out as copies of the earlier ones.\<close>

lemma wrapped_strokes_lost:
  assumes "rd < 1024" "1024 - rd \<le> 512" "length q = 1024"
  shows "copy_strokes rd [0 ..< 1024 - rd + 1] q ! (1024 - rd) = q ! rd"
proof -
  have split: "copy_strokes rd (xs @ ys) q = copy_strokes rd ys (copy_strokes rd xs q)" for xs ys q by (induction xs arbitrary: q) auto
  let ?n = "1024 - rd"
  have "copy_strokes rd [0 ..< ?n] q = take ?n (drop rd q) @ drop ?n q" by (rule copy_strokes_ok) (use assms in auto)
  then show ?thesis using assms by (simp add: split kKeyStrokeBufferSize_def nth_append)
qed

section \<open>Terminal output\<close>








text \<open>Once the write index has gone round the ring and is behind the read index, the length is computed the
  wrong way round and the copy leaves its buffer, whatever the indices are.\<close>

lemma terminal_wrap_fails:
  assumes "term_output_write_index c mod kTerminalOutputBufferSize < term_output_read_index c"
  shows "PrintTermOutputBuffer c = Failed"
  using assms by (simp add: PrintTermOutputBuffer_def Let_def)

section \<open>Modes\<close>

text \<open>A mode once set stays set: asking for ASCII characters does not take back the wider mode, and the
  end of the process does not either, so the strokes of the next line are recorded with their status.\<close>

lemma modes_stay:
  "has_mode m c \<Longrightarrow> has_mode m (SetKeystrokeMode ASCII_ONLY c)"
  "has_mode m c \<Longrightarrow> has_mode m (wait_fg_process terminated c)"
proof -
  assume h: "has_mode m c"
  have "and (or a b) m \<noteq> 0" if "and a m \<noteq> 0" for a b :: nat
    using that by (auto simp: bit_eq_iff bit_and_iff bit_or_iff)
  then show "has_mode m (SetKeystrokeMode ASCII_ONLY c)"
    using h unfolding has_mode_def SetKeystrokeMode_def by simp
  show "has_mode m (wait_fg_process terminated c)"
    using h by (simp add: has_mode_def wait_fg_process_def split: option.splits)
qed

end
