(* ===== verification/KMalloc.thy ===== *)
theory KMalloc
  imports Prelude
begin

text \<open>
  The heap of the kernel, \<open>kernel/kernel/kmalloc.cc\<close>, with the logarithms of \<open>kernel_math.cc\<close>. The heap
  is a sequence of chunks from offset 8; a chunk is a prefix word, its memory and a suffix word, both
  words the size shifted left by one with the occupied bit below. A free chunk keeps the offsets of its
  neighbours in the free list of its bucket in the first eight bytes of its memory; offset 0 ends a list.
  \<open>Lock\<close> makes each operation one step. Loops over lists and chunks are partial functions: a walk that
  never ends is \<open>None\<close>.
\<close>

unbundle bit_operations_syntax

section \<open>State and constants\<close>

record kheap =
  kmem :: mem
  current_heap_size :: nat
  free_list :: "int \<Rightarrow> nat"  \<comment> \<open>\<open>free_list_\<close>, of 16 buckets\<close>

definition KERNEL_VIRTUAL_START :: nat where "KERNEL_VIRTUAL_START = 0xFFFFFFFF80400000"
definition KERNEL_HEAP_MEMORY_START_OFFSET :: nat where "KERNEL_HEAP_MEMORY_START_OFFSET = 0x1000000"
definition MEMORY_ALGIN_OFFSET :: nat where "MEMORY_ALGIN_OFFSET = 4"
definition NUM_BUCKETS :: int where "NUM_BUCKETS = 16"
definition ONE_GB :: nat where "ONE_GB = 2 ^ 30"

definition kheap_start :: nat where
  "kheap_start = KERNEL_VIRTUAL_START + KERNEL_HEAP_MEMORY_START_OFFSET + MEMORY_ALGIN_OFFSET"

definition heap_memory_limit :: nat where
  "heap_memory_limit = ONE_GB - KERNEL_HEAP_MEMORY_START_OFFSET - MEMORY_ALGIN_OFFSET"

definition new_kheap :: "mem \<Rightarrow> kheap" where
  \<comment> \<open>the constructor, over whatever memory holds; \<open>Reset\<close> is the same\<close>
  "new_kheap m = \<lparr>kmem = m, current_heap_size = 8, free_list = (\<lambda>_. 0)\<rparr>"

definition sub32 :: "nat \<Rightarrow> nat \<Rightarrow> nat" where
  "sub32 a b = u32 (a + (2 ^ 32 - u32 b))"

section \<open>Logarithms and buckets\<close>

definition builtin_clz :: "nat \<Rightarrow> nat \<Rightarrow> nat" where
  "builtin_clz w x = length (takeWhile (\<lambda>i. \<not> bit x i) (rev [0 ..< w]))"

definition builtin_ffs :: "nat \<Rightarrow> nat \<Rightarrow> nat" where
  "builtin_ffs w x = (case List.find (bit x) [0 ..< w] of None \<Rightarrow> 0 | Some i \<Rightarrow> i + 1)"

definition RoundUpNearestPowerOfTwoLog :: "nat \<Rightarrow> nat \<Rightarrow> nat" where
  \<comment> \<open>for arguments of 32 and of 64 bits\<close>
  "RoundUpNearestPowerOfTwoLog w bytes =
     (let num_leading_zeros = builtin_clz w bytes;
          num_trailing_zeros = builtin_ffs w bytes
      in if num_leading_zeros + num_trailing_zeros = w then num_trailing_zeros - 1 else w - num_leading_zeros)"

definition RoundDownNearestPowerOfTwoLog :: "nat \<Rightarrow> int" where
  "RoundDownNearestPowerOfTwoLog bytes = 31 - int (builtin_clz 32 bytes)"

definition RoundUpNearestPowerOfTwo :: "nat \<Rightarrow> nat" where
  "RoundUpNearestPowerOfTwo bytes = 2 ^ RoundUpNearestPowerOfTwoLog 32 bytes"

definition IsPowerOfTwo :: "nat \<Rightarrow> bool" where
  "IsPowerOfTwo x \<longleftrightarrow> x AND sub32 x 1 = 0"

definition GetBucketIndexOfFreeChunk :: "nat \<Rightarrow> int" where
  "GetBucketIndexOfFreeChunk bytes =
     (let power = RoundDownNearestPowerOfTwoLog bytes
      in if power \<le> 2 then - 1
         else if 3 \<le> power \<and> power < 3 + NUM_BUCKETS then power - 3
         else NUM_BUCKETS - 1)"

definition GetBucketIndex :: "nat \<Rightarrow> int" where
  "GetBucketIndex bytes =
     (let power = int (RoundUpNearestPowerOfTwoLog 32 bytes)
      in if power < 3 then 0
         else if 3 < power \<and> power < 3 + NUM_BUCKETS then power - 3
         else NUM_BUCKETS - 1)"

section \<open>Chunks\<close>

definition SetOccupied :: "nat \<Rightarrow> mem \<Rightarrow> mem" where
  "SetOccupied byte m = m(byte := m byte OR 1)"

definition SetFree :: "nat \<Rightarrow> mem \<Rightarrow> mem" where
  "SetFree byte m = m(byte := m byte AND 0xFE)"

definition IsOccupied :: "mem \<Rightarrow> nat \<Rightarrow> bool" where
  "IsOccupied m byte \<longleftrightarrow> m byte AND 1 \<noteq> 0"

definition SetChunkSize :: "nat \<Rightarrow> nat \<Rightarrow> mem \<Rightarrow> mem" where
  "SetChunkSize addr sz m =
     (let m1 = wr32 m addr (rd32 m addr AND 1)
      in wr32 m1 addr (rd32 m1 addr OR u32 (2 * sz)))"

definition GetChunkSize :: "mem \<Rightarrow> nat \<Rightarrow> nat" where
  "GetChunkSize m addr = rd32 m addr div 2"

definition SetPrevOffset :: "nat \<Rightarrow> nat \<Rightarrow> mem \<Rightarrow> mem" where
  "SetPrevOffset chunk_addr prev_chunk_offset m = wr32 m (add64 chunk_addr 4) prev_chunk_offset"

definition SetNextOffset :: "nat \<Rightarrow> nat \<Rightarrow> mem \<Rightarrow> mem" where
  "SetNextOffset chunk_addr next_chunk_offset m = wr32 m (add64 chunk_addr 8) next_chunk_offset"

definition GetNextChunkOffset :: "mem \<Rightarrow> nat \<Rightarrow> nat" where
  "GetNextChunkOffset m addr = u32 (2 * rd32 m addr) div 2"

definition GetMemoryBlockAddressFromChunkStart :: "nat \<Rightarrow> nat" where
  "GetMemoryBlockAddressFromChunkStart addr = add64 addr 4"

definition GetChunkStartFromMemoryBlockAddress :: "nat \<Rightarrow> nat" where
  "GetChunkStartFromMemoryBlockAddress addr = sub64 addr 4"

definition GetSuffixBlockAddressFromChunkStart :: "nat \<Rightarrow> nat \<Rightarrow> nat" where
  "GetSuffixBlockAddressFromChunkStart addr memory_size = add64 (add64 addr memory_size) 4"

definition GetEndOfChunkFromStart :: "nat \<Rightarrow> nat \<Rightarrow> nat" where
  "GetEndOfChunkFromStart addr memory_size = add64 (add64 addr memory_size) 8"

definition GetStartOfChunkFromSuffix :: "mem \<Rightarrow> nat \<Rightarrow> nat" where
  "GetStartOfChunkFromSuffix m suffix = sub64 (sub64 suffix (GetChunkSize m suffix)) 4"

definition GetPrevAndNextFromFreeChunk :: "mem \<Rightarrow> nat \<Rightarrow> nat \<times> nat" where
  "GetPrevAndNextFromFreeChunk m addr = (rd32 m (add64 addr 4), rd32 m (add64 (add64 addr 4) 4))"

definition GetAddressByOffset :: "nat \<Rightarrow> nat" where
  "GetAddressByOffset offset_size = add64 kheap_start offset_size"

definition GetOffsetFromHeapStart :: "nat \<Rightarrow> nat" where
  "GetOffsetFromHeapStart addr = u32 (sub64 addr kheap_start)"

section \<open>Free lists\<close>

partial_function (option) IterateFreeList :: "mem \<Rightarrow> nat \<Rightarrow> nat \<Rightarrow> nat option" where
  "IterateFreeList m current_offset memory_size =
     (if current_offset = 0 then Some 0
      else
        let current_chunk = GetAddressByOffset current_offset;
            chunk_mem_size = GetChunkSize m current_chunk
        in if chunk_mem_size \<ge> memory_size then Some current_offset
           else IterateFreeList m
                  (GetNextChunkOffset m (GetSuffixBlockAddressFromChunkStart current_chunk chunk_mem_size))
                  memory_size)"

definition WeaveTwoChunksTogether :: "nat \<times> nat \<Rightarrow> int \<Rightarrow> kheap \<Rightarrow> kheap" where
  "WeaveTwoChunksTogether prev_and_next bucket_index h =
     (case prev_and_next of (prev_offset, next_offset) \<Rightarrow>
       let h1 = (if prev_offset = 0 then h\<lparr>free_list := (free_list h)(bucket_index := next_offset)\<rparr>
                 else h\<lparr>kmem := SetNextOffset (GetAddressByOffset prev_offset) next_offset (kmem h)\<rparr>)
       in if next_offset \<noteq> 0
          then h1\<lparr>kmem := SetPrevOffset (GetAddressByOffset next_offset) prev_offset (kmem h1)\<rparr>
          else h1)"

definition CreateNewFreeChunkAt :: "nat \<Rightarrow> nat \<Rightarrow> int \<Rightarrow> kheap \<Rightarrow> kheap" where
  "CreateNewFreeChunkAt addr memory_size bucket_index h =
     (let m1 = SetChunkSize addr memory_size (SetFree addr (kmem h));
          my_offset = GetOffsetFromHeapStart addr;
          nxt = free_list h bucket_index;
          m2 = (if nxt \<noteq> 0 then SetPrevOffset (GetAddressByOffset nxt) my_offset m1 else m1);
          m3 = SetNextOffset addr nxt (SetPrevOffset addr 0 m2);
          suffix = GetSuffixBlockAddressFromChunkStart addr memory_size
      in h\<lparr>kmem := SetChunkSize suffix memory_size (SetFree suffix m3),
           free_list := (free_list h)(bucket_index := my_offset)\<rparr>)"

definition CreateNewUsedChunkAt :: "nat \<Rightarrow> nat \<Rightarrow> kheap \<Rightarrow> nat \<times> kheap" where
  "CreateNewUsedChunkAt addr memory_size h =
     (let allocated_size = u32 (memory_size + 8)
      in if u32 (current_heap_size h + allocated_size) \<ge> heap_memory_limit then (0, h)
         else
           let h1 = (if GetOffsetFromHeapStart addr = current_heap_size h
                     then h\<lparr>current_heap_size := u32 (current_heap_size h + allocated_size)\<rparr> else h);
               m1 = SetChunkSize addr memory_size (SetOccupied addr (kmem h1));
               suffix_addr = GetSuffixBlockAddressFromChunkStart addr memory_size
           in (GetMemoryBlockAddressFromChunkStart addr,
               h1\<lparr>kmem := SetChunkSize suffix_addr memory_size (SetOccupied suffix_addr m1)\<rparr>))"

definition SplitMemory :: "nat \<Rightarrow> nat \<Rightarrow> int \<Rightarrow> kheap \<Rightarrow> nat \<times> kheap" where
  "SplitMemory addr split_size0 bucket_index h =
     (let prev_and_next = GetPrevAndNextFromFreeChunk (kmem h) addr;
          memory_size = GetChunkSize (kmem h) addr;
          split_size = (if sub32 memory_size split_size0 < 16 then memory_size else split_size0);
          h1 = WeaveTwoChunksTogether prev_and_next bucket_index h;
          h2 = snd (CreateNewUsedChunkAt addr split_size h1)
      in if memory_size = split_size then (addr, h2)
         else
           let remaining_size = sub32 (sub32 memory_size split_size) 8;
               free_chunk_start = GetEndOfChunkFromStart addr split_size
           in (addr, CreateNewFreeChunkAt free_chunk_start remaining_size (GetBucketIndexOfFreeChunk remaining_size) h2))"

fun search_buckets :: "int list \<Rightarrow> nat \<Rightarrow> kheap \<Rightarrow> (nat \<times> int) option option" where
  \<comment> \<open>the loop of \<open>GetMemoryFromBucket\<close>: the chunk found and its bucket\<close>
  "search_buckets [] bytes h = Some None"
| "search_buckets (i # is) bytes h =
     (case IterateFreeList (kmem h) (free_list h i) bytes of
        None \<Rightarrow> None
      | Some free_chunk_offset \<Rightarrow>
          if free_chunk_offset \<noteq> 0 then Some (Some (free_chunk_offset, i)) else search_buckets is bytes h)"

definition GetMemoryFromBucket :: "int \<Rightarrow> nat \<Rightarrow> kheap \<Rightarrow> (nat \<times> kheap) option" where
  "GetMemoryFromBucket bucket_index bytes h =
     (case search_buckets [bucket_index .. NUM_BUCKETS - 1] bytes h of
        None \<Rightarrow> None
      | Some (Some (offset, i)) \<Rightarrow>
          (case SplitMemory (GetAddressByOffset offset) bytes i h of
             (chunk, h') \<Rightarrow> Some (GetMemoryBlockAddressFromChunkStart chunk, h'))
      | Some None \<Rightarrow>
          Some (CreateNewUsedChunkAt (GetAddressByOffset (current_heap_size h)) (u32 (RoundUpNearestPowerOfTwo bytes)) h))"

definition CoalsceTwoChunks :: "nat \<Rightarrow> nat \<Rightarrow> kheap \<Rightarrow> kheap" where
  "CoalsceTwoChunks left right h =
     (let left_size = GetChunkSize (kmem h) left;
          right_size = GetChunkSize (kmem h) right;
          h1 = WeaveTwoChunksTogether (GetPrevAndNextFromFreeChunk (kmem h) left) (GetBucketIndexOfFreeChunk left_size) h;
          h2 = WeaveTwoChunksTogether (GetPrevAndNextFromFreeChunk (kmem h1) right) (GetBucketIndexOfFreeChunk right_size) h1;
          total_size = u32 (left_size + right_size + 8)
      in CreateNewFreeChunkAt left total_size (GetBucketIndexOfFreeChunk total_size) h2)"

definition RemoveFreeChunkFromHeap :: "nat \<Rightarrow> kheap \<Rightarrow> kheap" where
  "RemoveFreeChunkFromHeap addr h =
     (let chunk_size = GetChunkSize (kmem h) addr;
          h1 = WeaveTwoChunksTogether (GetPrevAndNextFromFreeChunk (kmem h) addr) (GetBucketIndexOfFreeChunk chunk_size) h
      in h1\<lparr>current_heap_size := sub32 (current_heap_size h1) (u32 (chunk_size + 8))\<rparr>)"

definition FreeOccupiedChunk :: "nat \<Rightarrow> kheap \<Rightarrow> kheap" where
  "FreeOccupiedChunk addr0 h0 =
     (let chunk_size = GetChunkSize (kmem h0) addr0;
          h1 = CreateNewFreeChunkAt addr0 chunk_size (GetBucketIndexOfFreeChunk chunk_size) h0;
          suffix_of_left_chunk = sub64 addr0 4;
          (addr, h2) =
            (if suffix_of_left_chunk \<ge> add64 kheap_start 8 \<and> \<not> IsOccupied (kmem h1) suffix_of_left_chunk
             then let left = GetStartOfChunkFromSuffix (kmem h1) suffix_of_left_chunk
                  in (left, CoalsceTwoChunks left addr0 h1)
             else (addr0, h1));
          prefix_of_right_chunk = GetEndOfChunkFromStart addr (GetChunkSize (kmem h2) addr);
          h3 = (if GetOffsetFromHeapStart prefix_of_right_chunk < current_heap_size h2
                   \<and> \<not> IsOccupied (kmem h2) prefix_of_right_chunk
                then CoalsceTwoChunks addr prefix_of_right_chunk h2 else h2);
          merged_chunk_size = GetChunkSize (kmem h3) addr
      in if u32 (GetOffsetFromHeapStart addr + merged_chunk_size + 8) = current_heap_size h3
         then RemoveFreeChunkFromHeap addr h3 else h3)"

section \<open>The interface\<close>

definition kmalloc :: "nat \<Rightarrow> kheap \<Rightarrow> (nat \<times> kheap) option" where
  "kmalloc bytes0 h =
     (if bytes0 = 0 then Some (0, h)
      else let bytes = (if bytes0 < 8 then 8 else bytes0)
           in GetMemoryFromBucket (GetBucketIndex (u32 bytes)) (u32 bytes) h)"

definition kcalloc :: "nat \<Rightarrow> kheap \<Rightarrow> (nat \<times> kheap) option" where
  "kcalloc bytes h =
     (case kmalloc bytes h of
        None \<Rightarrow> None
      | Some (addr, h') \<Rightarrow>
          Some (addr, if addr \<noteq> 0 then h'\<lparr>kmem := fold (\<lambda>i m. m(addr + i := 0)) [0 ..< bytes] (kmem h')\<rparr> else h'))"

definition kfree :: "nat \<Rightarrow> kheap \<Rightarrow> kheap" where
  "kfree ptr h = FreeOccupiedChunk (sub64 ptr 4) h"

definition CheckMemoryDeleteSize :: "mem \<Rightarrow> nat \<Rightarrow> nat \<Rightarrow> bool" where
  "CheckMemoryDeleteSize m addr bytes \<longleftrightarrow> GetChunkSize m (sub64 addr 4) \<ge> bytes"

definition grow_left :: "nat \<Rightarrow> nat \<Rightarrow> kheap \<Rightarrow> kheap" where
  \<comment> \<open>\<open>AlignedAlloc\<close>: what is before the aligned address goes to the chunk on the left, or to a new free one\<close>
  "grow_left chunk left_free_size h =
     (let suffix_of_left_chunk = sub64 chunk 4
      in if suffix_of_left_chunk \<ge> add64 kheap_start 8 then
           let left = GetStartOfChunkFromSuffix (kmem h) suffix_of_left_chunk;
               left_memory_size = add64 (GetChunkSize (kmem h) left) left_free_size;
               m1 = SetChunkSize left (u32 left_memory_size) (kmem h);
               suffix = GetSuffixBlockAddressFromChunkStart left (u32 left_memory_size);
               m2 = (if IsOccupied m1 left then SetOccupied suffix m1 else SetFree suffix m1)
           in h\<lparr>kmem := SetChunkSize suffix (u32 left_memory_size) m2\<rparr>
         else if left_free_size \<ge> 16 then
           CreateNewFreeChunkAt chunk (u32 (sub64 left_free_size 8))
             (GetBucketIndexOfFreeChunk (u32 (sub64 left_free_size 8))) h
         else h)"

definition AlignedAlloc :: "nat \<Rightarrow> nat \<Rightarrow> kheap \<Rightarrow> (nat \<times> kheap) option" where
  "AlignedAlloc alignment bytes h0 =
     (if \<not> IsPowerOfTwo (u32 alignment) then Some (0, h0)
      else
        case kmalloc (sub64 (add64 bytes alignment) 1) h0 of
          None \<Rightarrow> None
        | Some (memory_block, h) \<Rightarrow>
            let chunk = GetChunkStartFromMemoryBlockAddress memory_block;
                alloc_size = GetChunkSize (kmem h) chunk;
                aligned_addr0 = memory_block div alignment * alignment;
                aligned_addr = (if aligned_addr0 < memory_block then add64 aligned_addr0 alignment else aligned_addr0);
                left_free_size = sub64 aligned_addr memory_block
            in if left_free_size > 0 then
                 let h1 = grow_left chunk left_free_size h;
                     aligned_chunk = GetChunkStartFromMemoryBlockAddress aligned_addr;
                     new_alloc_size = u32 (sub64 alloc_size left_free_size);
                     m1 = SetChunkSize aligned_chunk new_alloc_size (SetOccupied aligned_chunk (kmem h1));
                     suffix = GetSuffixBlockAddressFromChunkStart aligned_chunk new_alloc_size
                 in Some (aligned_addr, h1\<lparr>kmem := SetChunkSize suffix new_alloc_size (SetOccupied suffix m1)\<rparr>)
               else Some (aligned_addr, h))"

definition kaligned_alloc :: "nat \<Rightarrow> nat \<Rightarrow> kheap \<Rightarrow> (nat \<times> kheap) option" where
  "kaligned_alloc alignment bytes h = AlignedAlloc alignment bytes h"

partial_function (option) kernel_sanity_from :: "kheap \<Rightarrow> nat \<Rightarrow> bool option" where
  "kernel_sanity_from h current_offset =
     (if current_offset < current_heap_size h then
        let chunk = GetAddressByOffset current_offset;
            chunk_size = GetChunkSize (kmem h) chunk
        in if IsOccupied (kmem h) chunk
              \<and> GetChunkSize (kmem h) (GetSuffixBlockAddressFromChunkStart chunk chunk_size) \<noteq> chunk_size
           then Some False
           else kernel_sanity_from h (u32 (current_offset + (8 + chunk_size)))
      else Some True)"

definition SanityCheck :: "kheap \<Rightarrow> bool option" where
  "SanityCheck h = kernel_sanity_from h 8"

end
