(* ===== verification/KMallocRep.thy ===== *)
theory KMallocRep
  imports KMalloc Blocks
begin

text \<open>
  The memory of the kernel's heap as a list of chunks with a hole: the chunks L from offset 8, a gap that
  an operation is about to fill, and the chunks R after it. Every write of the code is placed in this
  picture: tags are written in the hole only, and links in free chunks.
\<close>

unbundle bit_operations_syntax

section \<open>Words of the heap\<close>

definition kword :: "mem \<Rightarrow> nat \<Rightarrow> nat" where "kword m x = rd32 m (kheap_start + x)"

definition ktag :: "bool \<Rightarrow> nat \<Rightarrow> nat" where "ktag f s = 2 * s + of_bool (\<not> f)"

definition kframe :: "nat set \<Rightarrow> mem \<Rightarrow> mem \<Rightarrow> bool" where
  "kframe S m m' \<longleftrightarrow> (\<forall>x. x \<notin> S \<longrightarrow> m' (kheap_start + x) = m (kheap_start + x))"

lemma kheap_start_lt: "kheap_start + 1073741824 < 18446744073709551616"
  by (simp add: kheap_start_def KERNEL_VIRTUAL_START_def KERNEL_HEAP_MEMORY_START_OFFSET_def MEMORY_ALGIN_OFFSET_def)

lemma kaddr [simp]:
  "x + y \<le> 1073741824 \<Longrightarrow> add64 (kheap_start + x) y = kheap_start + (x + y)"
  "x \<le> 1073741824 \<Longrightarrow> GetAddressByOffset x = kheap_start + x"
  "x \<le> 1073741824 \<Longrightarrow> GetOffsetFromHeapStart (kheap_start + x) = x"
  "y \<le> x \<Longrightarrow> x \<le> 1073741824 \<Longrightarrow> sub64 (kheap_start + x) y = kheap_start + (x - y)"
  using kheap_start_lt
  by (simp_all add: GetAddressByOffset_def GetOffsetFromHeapStart_def add64_id sub64_id u32_id)

lemma sub32_id:
  assumes "b \<le> a" "a < 4294967296"
  shows "sub32 a b = a - b"
proof -
  have "a + (4294967296 - b) = (a - b) + 4294967296" using assms by simp
  then have "sub32 a b = ((a - b) + 4294967296) mod 4294967296"
    using assms by (simp add: sub32_def wrap_def del: mod_add_self2)
  then have "sub32 a b = (a - b) mod 4294967296" by (simp only: mod_add_self2)
  then show ?thesis using assms by simp
qed

lemma kframe_refl [simp]: "kframe S m m" by (simp add: kframe_def)

lemma kframe_trans: "kframe S m m1 \<Longrightarrow> kframe S m1 m2 \<Longrightarrow> kframe S m m2" by (simp add: kframe_def)

lemma kframe_mono: "kframe S m m' \<Longrightarrow> S \<subseteq> T \<Longrightarrow> kframe T m m'" by (auto simp: kframe_def)

lemma kframe_word: "kframe S m m' \<Longrightarrow> {x ..< x + 4} \<inter> S = {} \<Longrightarrow> kword m' x = kword m x"
proof -
  assume *: "kframe S m m'" "{x ..< x + 4} \<inter> S = {}"
  have "m' y = m y" if y: "kheap_start + x \<le> y" "y < kheap_start + x + 4" for y
  proof -
    obtain i where i: "y = kheap_start + (x + i)" using y(1) le_Suc_ex by (metis add.assoc)
    then have "x + i \<notin> S" using y(2) *(2) by (auto simp: disjoint_iff)
    then show ?thesis using *(1) i by (simp add: kframe_def)
  qed
  then show ?thesis unfolding kword_def by (intro rd32_cong) auto
qed

lemma kframe_wr32: "kframe {x ..< x + 4} m (wr32 m (kheap_start + x) v)"
  unfolding kframe_def by (intro allI impI wr32_outside) auto

lemma kword_wr32: "kword (wr32 m (kheap_start + x) v) x = u32 v"
  by (simp add: kword_def rd32_wr32_same)

lemma kword_lt: "kword m x < 4294967296" by (simp add: kword_def rd32_lt)

section \<open>Tags\<close>

lemma kword_parity: "odd (kword m x) \<longleftrightarrow> odd (m (kheap_start + x))"
proof -
  have "odd (unat w) \<longleftrightarrow> odd w" for w :: "8 word"
    using bit_unsigned_iff [of w 0, where 'a = nat] by (simp add: bit_0)
  then show ?thesis by (simp add: kword_def rd32_def)
qed

lemma occupied_word: "IsOccupied m (kheap_start + x) \<longleftrightarrow> odd (kword m x)"
  using kword_parity [of m x] by (simp add: IsOccupied_def and_one_eq flip: odd_iff_mod_2_eq_one)

lemma kframe_flag: "kframe {x ..< x + 4} m (SetOccupied (kheap_start + x) m)" "kframe {x ..< x + 4} m (SetFree (kheap_start + x) m)"
  by (auto simp: kframe_def SetOccupied_def SetFree_def)

lemma flag_parity: "odd (kword (SetOccupied (kheap_start + x) m) x)" "even (kword (SetFree (kheap_start + x) m) x)"
proof -
  show "odd (kword (SetOccupied (kheap_start + x) m) x)" by (simp add: kword_parity SetOccupied_def even_or_iff)
  have "even (m (kheap_start + x) AND 254)" by (simp add: even_and_iff)
  then show "even (kword (SetFree (kheap_start + x) m) x)"
    using kword_parity [of "SetFree (kheap_start + x) m" x] by (simp add: SetFree_def)
qed

lemma SetChunkSize_word:
  assumes "s < 2147483648"
  shows "kword (SetChunkSize (kheap_start + x) s m) x = 2 * s + kword m x mod 2"
proof -
  have "2 * s OR p = 2 * s + p" if "p < 2" for p :: nat
    using that by (auto simp: less_2_cases_iff or_Suc_0_eq)
  then have "(p OR 2 * s) = 2 * s + p" if "p < 2" for p :: nat using that by (simp add: or.commute)
  moreover have "kword m x AND 1 = kword m x mod 2" by (simp add: and_one_eq)
  moreover have "kword m x mod 2 < 2" by simp
  ultimately show ?thesis
    using assms by (simp add: SetChunkSize_def Let_def kword_wr32 u32_id flip: kword_def)
qed

lemma kframe_size: "kframe {x ..< x + 4} m (SetChunkSize (kheap_start + x) s m)"
  unfolding SetChunkSize_def Let_def by (rule kframe_trans [OF kframe_wr32 kframe_wr32])

text \<open>Both writes of a tag.\<close>

definition put_tag :: "bool \<Rightarrow> nat \<Rightarrow> nat \<Rightarrow> mem \<Rightarrow> mem" where
  "put_tag f addr s m = SetChunkSize addr s (if f then SetFree addr m else SetOccupied addr m)"

lemma put_tag:
  assumes "s < 2147483648"
  shows "kword (put_tag f (kheap_start + x) s m) x = ktag f s" "kframe {x ..< x + 4} m (put_tag f (kheap_start + x) s m)"
proof -
  show "kword (put_tag f (kheap_start + x) s m) x = ktag f s"
    using flag_parity [of x m] by (simp add: put_tag_def SetChunkSize_word [OF assms] ktag_def odd_iff_mod_2_eq_one)
  show "kframe {x ..< x + 4} m (put_tag f (kheap_start + x) s m)"
    unfolding put_tag_def by (rule kframe_trans [OF _ kframe_size]) (simp add: kframe_flag)
qed

lemma ktag_div [simp]: "ktag f s div 2 = s" "odd (ktag f s) \<longleftrightarrow> \<not> f"
  by (auto simp: ktag_def)

section \<open>Chunks with a hole\<close>

fun ktags :: "mem \<Rightarrow> nat \<Rightarrow> block list \<Rightarrow> bool" where
  "ktags m a [] \<longleftrightarrow> True"
| "ktags m a ((f, s) # bs) \<longleftrightarrow> 8 \<le> s \<and> kword m a = ktag f s \<and> kword m (a + 4 + s) = ktag f s \<and> ktags m (a + 8 + s) bs"

fun tag_bytes :: "nat \<Rightarrow> block list \<Rightarrow> nat set" where
  "tag_bytes a [] = {}"
| "tag_bytes a ((f, s) # bs) = {a ..< a + 4} \<union> {a + 4 + s ..< a + 8 + s} \<union> tag_bytes (a + 8 + s) bs"

lemma ktags_append: "ktags m a (xs @ ys) \<longleftrightarrow> ktags m a xs \<and> ktags m (a + extent xs) ys"
  by (induction xs arbitrary: a) (auto simp: ac_simps)

lemma tag_bytes_append: "tag_bytes a (xs @ ys) = tag_bytes a xs \<union> tag_bytes (a + extent xs) ys"
  by (induction xs arbitrary: a) (auto simp: ac_simps)

lemma tag_bytes_range: "tag_bytes a bs \<subseteq> {a ..< a + extent bs}"
proof (induction bs arbitrary: a)
  case (Cons b bs)
  obtain f s where b: "b = (f, s)" by (cases b)
  show ?case using Cons.IH [of "a + 8 + s"] by (auto simp: b subset_iff)
qed simp

lemma ktags_frame: "kframe S m m' \<Longrightarrow> S \<inter> tag_bytes a bs = {} \<Longrightarrow> ktags m' a bs = ktags m a bs"
proof (induction bs arbitrary: a)
  case (Cons b bs)
  obtain f s where b: "b = (f, s)" by (cases b)
  have "kword m' a = kword m a" "kword m' (a + 4 + s) = kword m (a + 4 + s)"
    by (rule kframe_word [OF Cons.prems(1)]; use Cons.prems(2) in \<open>auto simp: b\<close>)+
  then show ?case using Cons by (auto simp: b)
qed simp

lemma payload_no_tag:
  assumes "blk bs c f s"
  shows "{a + c + 4 ..< a + c + 4 + s} \<inter> tag_bytes a bs = {}"
proof -
  obtain L R where bs: "bs = L @ (f, s) # R" "c = extent L" using assms by (auto simp: blk_def)
  show ?thesis
    using tag_bytes_range [of a L] tag_bytes_range [of "a + c + 8 + s" R]
    by (auto simp: bs tag_bytes_append ac_simps subset_iff)
qed

lemma ktags_blk: "ktags m a bs \<Longrightarrow> blk bs c f s \<Longrightarrow> 8 \<le> s \<and> kword m (a + c) = ktag f s \<and> kword m (a + c + 4 + s) = ktag f s"
  by (auto simp: blk_def ktags_append)

definition chunk_at :: "block list \<Rightarrow> nat \<Rightarrow> block list \<Rightarrow> nat \<Rightarrow> bool \<Rightarrow> nat \<Rightarrow> bool" where
  "chunk_at L g R x f s \<longleftrightarrow> (\<exists>c. blk L c f s \<and> x = 8 + c) \<or> (\<exists>c. blk R c f s \<and> x = 8 + extent L + g + c)"

definition ktiles :: "mem \<Rightarrow> block list \<Rightarrow> nat \<Rightarrow> block list \<Rightarrow> bool" where
  "ktiles m L g R \<longleftrightarrow> ktags m 8 L \<and> ktags m (8 + extent L + g) R \<and> 8 + extent L + g + extent R \<le> 1073741824"

lemma chunk_at_facts:
  assumes "ktiles m L g R" "chunk_at L g R x f s"
  shows "8 \<le> s" "kword m x = ktag f s" "kword m (x + 4 + s) = ktag f s" "8 \<le> x" "x + 8 + s \<le> 1073741824"
    "x + 8 + s \<le> 8 + extent L \<or> 8 + extent L + g \<le> x"
    "x + 8 + s \<le> 8 + extent L + g + extent R"
proof -
  have *: "ktags m 8 L" "ktags m (8 + extent L + g) R" "8 + extent L + g + extent R \<le> 1073741824"
    using assms(1) by (simp_all add: ktiles_def)
  consider c where "blk L c f s" "x = 8 + c" | c where "blk R c f s" "x = 8 + extent L + g + c"
    using assms(2) by (auto simp: chunk_at_def)
  then show "8 \<le> s" "kword m x = ktag f s" "kword m (x + 4 + s) = ktag f s" "8 \<le> x" "x + 8 + s \<le> 1073741824"
    "x + 8 + s \<le> 8 + extent L \<or> 8 + extent L + g \<le> x" "x + 8 + s \<le> 8 + extent L + g + extent R"
    using ktags_blk [OF *(1)] ktags_blk [OF *(2)] *(3) blk_extent [of L _ f s] blk_extent [of R _ f s]
    by (cases; fastforce)+
qed

lemma chunk_at_apart:
  assumes "chunk_at L g R x f s" "chunk_at L g R y f' t"
  shows "(x = y \<and> s = t) \<or> x + 8 + s \<le> y \<or> y + 8 + t \<le> x"
  using assms blk_apart [of L _ f s _ f' t] blk_apart [of R _ f s _ f' t] blk_extent [of L _ f s] blk_extent [of L _ f' t]
  unfolding chunk_at_def by fastforce

lemma chunk_at_same:
  assumes "ktiles m L g R" "chunk_at L g R x f s" "chunk_at L g R x f' t"
  shows "f = f'" "s = t"
proof -
  have "ktag f s = ktag f' t" using chunk_at_facts(2) [OF assms(1,2)] chunk_at_facts(2) [OF assms(1,3)] by simp
  then show "f = f'" "s = t" by (metis ktag_div)+
qed

text \<open>Writes in the hole and to links of chunks keep all tags.\<close>

lemma ktiles_frame:
  assumes "ktiles m L g R" "kframe S m m'"
    and "\<And>z. z \<in> S \<Longrightarrow> (8 + extent L \<le> z \<and> z < 8 + extent L + g) \<or> (\<exists>x f s. chunk_at L g R x f s \<and> x + 4 \<le> z \<and> z < x + 4 + s)"
  shows "ktiles m' L g R"
proof -
  have "S \<inter> tag_bytes 8 L = {}" "S \<inter> tag_bytes (8 + extent L + g) R = {}"
  proof -
    have "z \<notin> tag_bytes 8 L \<and> z \<notin> tag_bytes (8 + extent L + g) R" if z: "z \<in> S" for z
    proof -
      have r: "tag_bytes 8 L \<subseteq> {8 ..< 8 + extent L}"
        "tag_bytes (8 + extent L + g) R \<subseteq> {8 + extent L + g ..< 8 + extent L + g + extent R}"
        by (rule tag_bytes_range)+
      consider "8 + extent L \<le> z" "z < 8 + extent L + g" | c f s where "blk L c f s" "8 + c + 4 \<le> z" "z < 8 + c + 4 + s"
        | c f s where "blk R c f s" "8 + extent L + g + c + 4 \<le> z" "z < 8 + extent L + g + c + 4 + s"
        using assms(3) [OF z] unfolding chunk_at_def by blast
      then show ?thesis
      proof cases
        case 1
        then show ?thesis using r by auto
      next
        case 2
        then have "z \<in> {8 + c + 4 ..< 8 + c + 4 + s}" by simp
        moreover have "z < 8 + extent L" using 2 blk_extent [of L c f s] by simp
        ultimately show ?thesis using r payload_no_tag [OF 2(1), of 8] by auto
      next
        case 3
        then have "z \<in> {8 + extent L + g + c + 4 ..< 8 + extent L + g + c + 4 + s}" by simp
        then show ?thesis using 3 r payload_no_tag [OF 3(1), of "8 + extent L + g"] by auto
      qed
    qed
    then show "S \<inter> tag_bytes 8 L = {}" "S \<inter> tag_bytes (8 + extent L + g) R = {}" by auto
  qed
  then show ?thesis using assms(1) ktags_frame [OF assms(2)] by (simp add: ktiles_def)
qed

end
