(* ===== verification/KMallocLists.thy ===== *)
theory KMallocLists
  imports KMallocRep
begin

text \<open>
  The sixteen free lists of the kernel's heap, and what the operations on single chunks do to the heap with
  a hole: taking a chunk out of its list, and filling the hole with a used chunk or with a free one that
  becomes the head of its list. U is the set of offsets whose bytes have to stay.
\<close>

definition kprev :: "mem \<Rightarrow> nat \<Rightarrow> nat" where "kprev m x = kword m (x + 4)"
definition knext :: "mem \<Rightarrow> nat \<Rightarrow> nat" where "knext m x = kword m (x + 8)"

definition bucket :: "int \<Rightarrow> bool" where "bucket i \<longleftrightarrow> 0 \<le> i \<and> i < 16"

definition klists :: "mem \<Rightarrow> (int \<Rightarrow> nat) \<Rightarrow> (int \<Rightarrow> nat list) \<Rightarrow> bool" where
  "klists m fl fls \<longleftrightarrow> (\<forall>i. bucket i \<longrightarrow> dll (kprev m) (knext m) 0 (fls i) 0 \<and> fl i = hd_or 0 (fls i) \<and> distinct (fls i))"

definition klisted :: "block list \<Rightarrow> nat \<Rightarrow> block list \<Rightarrow> (int \<Rightarrow> nat list) \<Rightarrow> bool" where
  "klisted L g R fls \<longleftrightarrow> (\<forall>i x. bucket i \<longrightarrow> x \<in> set (fls i) \<longrightarrow> (\<exists>s. chunk_at L g R x True s \<and> GetBucketIndexOfFreeChunk s = i))"

definition kept :: "nat set \<Rightarrow> block list \<Rightarrow> nat \<Rightarrow> block list \<Rightarrow> bool" where
  "kept U L g R \<longleftrightarrow> U \<inter> {8 + extent L ..< 8 + extent L + g} = {} \<and> (\<forall>x s. chunk_at L g R x True s \<longrightarrow> U \<inter> {x ..< x + 8 + s} = {})"

definition kstate :: "nat set \<Rightarrow> kheap \<Rightarrow> block list \<Rightarrow> nat \<Rightarrow> block list \<Rightarrow> (int \<Rightarrow> nat list) \<Rightarrow> bool" where
  "kstate U h L g R fls \<longleftrightarrow> ktiles (kmem h) L g R \<and> klists (kmem h) (free_list h) fls \<and> klisted L g R fls \<and> kept U L g R"

lemma listed_chunk:
  assumes "klisted L g R fls" "bucket i" "x \<in> set (fls i)"
  obtains s where "chunk_at L g R x True s" "GetBucketIndexOfFreeChunk s = i"
  using assms unfolding klisted_def by blast

lemma listed_once:
  assumes "ktiles m L g R" "klisted L g R fls" "bucket i" "bucket j" "x \<in> set (fls i)" "x \<in> set (fls j)"
  shows "i = j"
  by (rule listed_chunk [OF assms(2,3,5)], rule listed_chunk [OF assms(2,4,6)]) (use chunk_at_same(2) [OF assms(1)] in blast)

text \<open>Chunks in lists are apart, so their links are.\<close>

lemma listed_apart:
  assumes "ktiles m L g R" "klisted L g R fls" "bucket i" "bucket j" "x \<in> set (fls i)" "y \<in> set (fls j)"
  shows "x = y \<or> x + 16 \<le> y \<or> y + 16 \<le> x"
proof -
  obtain s t where c: "chunk_at L g R x True s" "chunk_at L g R y True t"
    using listed_chunk [OF assms(2,3,5)] listed_chunk [OF assms(2,4,6)] by metis
  show ?thesis
    using chunk_at_apart [OF c] chunk_at_facts(1) [OF assms(1) c(1)] chunk_at_facts(1) [OF assms(1) c(2)] by linarith
qed

lemma listed_place:
  assumes "ktiles m L g R" "klisted L g R fls" "bucket i" "x \<in> set (fls i)"
  shows "8 \<le> x" "x + 16 \<le> 1073741824" "x + 16 \<le> 8 + extent L \<or> 8 + extent L + g \<le> x"
proof -
  obtain s where c: "chunk_at L g R x True s" using listed_chunk [OF assms(2-4)] by metis
  show "8 \<le> x" "x + 16 \<le> 1073741824" "x + 16 \<le> 8 + extent L \<or> 8 + extent L + g \<le> x"
    using chunk_at_facts(1,4,5,6) [OF assms(1) c] by auto
qed

text \<open>What has to hold of a new memory and new heads for the lists to be as intended.\<close>

lemma klists_update:
  assumes "klists m fl fls" "bucket i"
    and "\<And>j x. bucket j \<Longrightarrow> j \<noteq> i \<Longrightarrow> x \<in> set (fls j) \<Longrightarrow> kprev m' x = kprev m x \<and> knext m' x = knext m x"
    and "dll (kprev m') (knext m') 0 xs 0" "distinct xs"
  shows "klists m' (fl(i := hd_or 0 xs)) (fls(i := xs))"
proof -
  have "dll (kprev m') (knext m') 0 (fls j) 0" if "bucket j" "j \<noteq> i" for j
  proof -
    have "dll (kprev m') (knext m') 0 (fls j) 0 = dll (kprev m) (knext m) 0 (fls j) 0"
      by (rule dll_cong) (use assms(3) that in auto)
    then show ?thesis using assms(1) that by (simp add: klists_def)
  qed
  then show ?thesis using assms by (simp add: klists_def)
qed

lemma klists_same:
  assumes "klists m fl fls" "\<And>j x. bucket j \<Longrightarrow> x \<in> set (fls j) \<Longrightarrow> kprev m' x = kprev m x \<and> knext m' x = knext m x"
  shows "klists m' fl fls"
  unfolding klists_def
proof (intro allI impI)
  fix j assume j: "bucket j"
  have "dll (kprev m') (knext m') 0 (fls j) 0 = dll (kprev m) (knext m) 0 (fls j) 0"
    by (rule dll_cong) (use assms(2) j in auto)
  then show "dll (kprev m') (knext m') 0 (fls j) 0 \<and> fl j = hd_or 0 (fls j) \<and> distinct (fls j)"
    using assms(1) j by (simp add: klists_def)
qed

section \<open>Taking a chunk out of its list\<close>

text \<open>A store to the link of another listed chunk.\<close>

lemma link_store:
  assumes "x = y \<or> x + 16 \<le> y \<or> y + 16 \<le> x" "v < 4294967296"
  shows "kprev (wr32 m (kheap_start + (y + 4)) v) x = (if x = y then v else kprev m x)"
    "knext (wr32 m (kheap_start + (y + 4)) v) x = knext m x"
    "knext (wr32 m (kheap_start + (y + 8)) v) x = (if x = y then v else knext m x)"
    "kprev (wr32 m (kheap_start + (y + 8)) v) x = kprev m x"
proof -
  have other: "kword (wr32 m (kheap_start + a) v) b = kword m b" if "a + 4 \<le> b \<or> b + 4 \<le> a" for a b
    using that by (intro kframe_word [OF kframe_wr32]) auto
  show "kprev (wr32 m (kheap_start + (y + 4)) v) x = (if x = y then v else kprev m x)"
    "knext (wr32 m (kheap_start + (y + 4)) v) x = knext m x"
    "knext (wr32 m (kheap_start + (y + 8)) v) x = (if x = y then v else knext m x)"
    "kprev (wr32 m (kheap_start + (y + 8)) v) x = kprev m x"
    using assms by (auto simp: kprev_def knext_def kword_wr32 u32_id intro!: other)
qed

lemma links_read:
  assumes "x + 16 \<le> 1073741824"
  shows "GetPrevAndNextFromFreeChunk m (kheap_start + x) = (kprev m x, knext m x)"
  using assms by (simp add: GetPrevAndNextFromFreeChunk_def kprev_def knext_def kword_def add.commute [of 8])

lemma unlink:
  assumes st: "kstate U h L g R fls" and i: "bucket i" and fl: "fls i = us @ x # vs"
  defines "h' \<equiv> WeaveTwoChunksTogether (GetPrevAndNextFromFreeChunk (kmem h) (kheap_start + x)) i h"
  shows "kstate U h' L g R (fls(i := us @ vs))" "kframe (- U) (kmem h) (kmem h')" "current_heap_size h' = current_heap_size h"
proof -
  have t: "ktiles (kmem h) L g R" and ls: "klists (kmem h) (free_list h) fls" and ld: "klisted L g R fls" and kp: "kept U L g R"
    using st by (simp_all add: kstate_def)
  have d: "dll (kprev (kmem h)) (knext (kmem h)) 0 (us @ x # vs) 0" "free_list h i = hd_or 0 (us @ x # vs)" "distinct (us @ x # vs)"
    using ls i unfolding klists_def by (simp_all flip: fl)
  define p n where "p = last_or 0 us" and "n = hd_or 0 vs"
  have pn: "kprev (kmem h) x = p" "knext (kmem h) x = n" using d(1) by (simp_all add: dll_simps p_def n_def)
  have in_list: "z \<in> set (fls i)" if "z \<in> set us \<union> {x} \<union> set vs" for z using that fl by auto
  have p: "p = 0 \<longleftrightarrow> us = []" "p \<noteq> 0 \<Longrightarrow> p \<in> set (fls i)"
    using in_list listed_place(1) [OF t ld i] last_or_in [of us 0] by (cases "us = []"; force simp: p_def)+
  have n: "n = 0 \<longleftrightarrow> vs = []" "n \<noteq> 0 \<Longrightarrow> n \<in> set (fls i)"
    using in_list listed_place(1) [OF t ld i] hd_or_in [of vs 0] by (cases "vs = []"; force simp: n_def)+
  have small: "p + 16 \<le> 1073741824" "n + 16 \<le> 1073741824"
    using p(2) n(2) listed_place(2) [OF t ld i] by (cases "p = 0"; cases "n = 0"; simp)+
  define m1 where "m1 = (if p = 0 then kmem h else wr32 (kmem h) (kheap_start + (p + 8)) n)"
  define m2 where "m2 = (if n = 0 then m1 else wr32 m1 (kheap_start + (n + 4)) p)"
  have x16: "x + 16 \<le> 1073741824" using listed_place(2) [OF t ld i in_list] by simp
  have h': "kmem h' = m2" "free_list h' = (free_list h)(i := hd_or 0 (us @ vs))" "current_heap_size h' = current_heap_size h"
    using p(1) n(1) small d(2)
    by (auto simp: h'_def links_read [OF x16] pn WeaveTwoChunksTogether_def SetNextOffset_def SetPrevOffset_def m1_def m2_def
        n_def hd_or_hd Let_def fun_upd_idem)
  have prev: "kprev m2 z = (if z = n \<and> n \<noteq> 0 then p else kprev (kmem h) z)"
    and nxt: "knext m2 z = (if z = p \<and> p \<noteq> 0 then n else knext (kmem h) z)" if z: "bucket j" "z \<in> set (fls j)" for z j
  proof -
    have "p \<noteq> 0 \<Longrightarrow> z = p \<or> z + 16 \<le> p \<or> p + 16 \<le> z" "n \<noteq> 0 \<Longrightarrow> z = n \<or> z + 16 \<le> n \<or> n + 16 \<le> z"
      using listed_apart [OF t ld z(1) i z(2)] p(2) n(2) by auto
    then show "kprev m2 z = (if z = n \<and> n \<noteq> 0 then p else kprev (kmem h) z)"
      "knext m2 z = (if z = p \<and> p \<noteq> 0 then n else knext (kmem h) z)"
      using small by (auto simp: m1_def m2_def link_store)
  qed
  have dl: "dll (kprev m2) (knext m2) 0 (us @ vs) 0"
  proof -
    have "dll (upd_hd vs p (kprev (kmem h))) (upd_last us n (knext (kmem h))) 0 (us @ vs) 0"
      using dll_remove [OF d(1,3)] pn by simp
    moreover have "upd_hd vs p (kprev (kmem h)) z = kprev m2 z \<and> upd_last us n (knext (kmem h)) z = knext m2 z"
      if "z \<in> set (us @ vs)" for z
      using prev [OF i in_list] nxt [OF i in_list] that p(1) n(1)
      by (auto simp: upd_hd_def upd_last_def p_def n_def last_or_last hd_or_hd)
    ultimately show ?thesis by (subst dll_cong) auto
  qed
  have oth: "kprev m2 z = kprev (kmem h) z \<and> knext m2 z = knext (kmem h) z" if "bucket j" "j \<noteq> i" "z \<in> set (fls j)" for j z
    using prev [OF that(1,3)] nxt [OF that(1,3)] listed_once [OF t ld that(1) i that(3)] that(2) p(2) n(2) by auto
  have "klists m2 (free_list h') (fls(i := us @ vs))"
    unfolding h'(2) by (rule klists_update [OF ls i oth dl]) (use d(3) in auto)
  moreover have "klisted L g R (fls(i := us @ vs))"
    using ld i unfolding klisted_def fl by (auto simp: fl split: if_splits)
  moreover
  define S where "S = (if p = 0 then {} else {p + 8 ..< p + 12}) \<union> (if n = 0 then {} else {n + 4 ..< n + 8})"
  have fr: "kframe S (kmem h) m2"
  proof -
    have "kframe S (kmem h) m1"
      by (auto simp: m1_def S_def intro!: kframe_mono [OF kframe_wr32])
    moreover have "kframe S m1 m2"
      by (auto simp: m2_def S_def intro!: kframe_mono [OF kframe_wr32])
    ultimately show ?thesis by (rule kframe_trans)
  qed
  have S: "\<exists>y s. chunk_at L g R y True s \<and> y + 4 \<le> z \<and> z < y + 4 + s" if z: "z \<in> S" for z
  proof -
    obtain y where y: "y \<in> set (fls i)" "y + 4 \<le> z" "z < y + 12"
      using z p(2) n(2) by (fastforce simp: S_def split: if_splits)
    obtain s where "chunk_at L g R y True s" using listed_chunk [OF ld i y(1)] by metis
    moreover from this have "8 \<le> s" by (rule chunk_at_facts(1) [OF t])
    ultimately show ?thesis using y by (intro exI [of _ y] exI [of _ s]) auto
  qed
  have "ktiles m2 L g R" by (rule ktiles_frame [OF t fr]) (use S in blast)
  ultimately show "kstate U h' L g R (fls(i := us @ vs))" using kp by (simp add: kstate_def h')
  have "S \<subseteq> - U"
  proof
    fix z assume "z \<in> S"
    then obtain y s where y: "chunk_at L g R y True s" "y + 4 \<le> z" "z < y + 4 + s" using S by blast
    have "z \<in> {y ..< y + 8 + s}" using y by simp
    moreover have "U \<inter> {y ..< y + 8 + s} = {}" using kp y(1) unfolding kept_def by blast
    ultimately show "z \<in> - U" by blast
  qed
  then show "kframe (- U) (kmem h) (kmem h')" unfolding h'(1) by (rule kframe_mono [OF fr])
  show "current_heap_size h' = current_heap_size h" by (rule h')
qed

section \<open>Filling the hole\<close>

lemma chunk_at_fill:
  assumes "8 + s \<le> g"
  shows "chunk_at (L @ [(f, s)]) (g - 8 - s) R x f' t \<longleftrightarrow> chunk_at L g R x f' t \<or> (x = 8 + extent L \<and> f' = f \<and> t = s)"
proof -
  have "8 + extent (L @ [(f, s)]) + (g - 8 - s) = 8 + extent L + g" using assms by simp
  then show ?thesis unfolding chunk_at_def by (auto simp: ac_simps)
qed

lemma kept_fill:
  assumes "kept U L g R" "8 + s \<le> g"
  shows "kept U (L @ [(f, s)]) (g - 8 - s) R"
proof -
  have hole: "U \<inter> {8 + extent L ..< 8 + extent L + g} = {}" using assms(1) by (simp add: kept_def)
  have "{8 + extent (L @ [(f, s)]) ..< 8 + extent (L @ [(f, s)]) + (g - 8 - s)} \<subseteq> {8 + extent L ..< 8 + extent L + g}"
    "{8 + extent L ..< 8 + extent L + 8 + s} \<subseteq> {8 + extent L ..< 8 + extent L + g}" using assms(2) by auto
  then show ?thesis
    using assms(1) hole unfolding kept_def chunk_at_fill [OF assms(2)] by blast
qed

lemma ktiles_fill:
  assumes "ktiles m L g R" "8 + s \<le> g" "8 \<le> s"
    and "kword m (8 + extent L) = ktag f s" "kword m (8 + extent L + 4 + s) = ktag f s"
  shows "ktiles m (L @ [(f, s)]) (g - 8 - s) R"
proof -
  have "8 + extent (L @ [(f, s)]) + (g - 8 - s) = 8 + extent L + g" using assms(2) by simp
  then show ?thesis using assms by (simp add: ktiles_def ktags_append add.assoc)
qed

lemma klisted_mono: "klisted L g R fls \<Longrightarrow> 8 + s \<le> g \<Longrightarrow> klisted (L @ [(f, s)]) (g - 8 - s) R fls"
  unfolding klisted_def by (metis chunk_at_fill)

lemma hole_links:
  assumes "ktiles m L g R" "klisted L g R fls" "bucket i" "x \<in> set (fls i)" "kframe {8 + extent L ..< 8 + extent L + g} m m'"
  shows "kprev m' x = kprev m x" "knext m' x = knext m x"
  using listed_place(3) [OF assms(1-4)] unfolding kprev_def knext_def
  by (auto intro!: kframe_word [OF assms(5)])

text \<open>Tags written at the hole and nothing else: the chunk is there.\<close>

lemma fill:
  assumes st: "kstate U h L g R fls" and s: "8 \<le> s" "8 + s \<le> g"
    and fr: "kframe {8 + extent L ..< 8 + extent L + g} (kmem h) m"
    and w: "kword m (8 + extent L) = ktag f s" "kword m (8 + extent L + 4 + s) = ktag f s"
  shows "kstate U (h\<lparr>kmem := m\<rparr>) (L @ [(f, s)]) (g - 8 - s) R fls" "kframe (- U) (kmem h) m"
proof -
  have t: "ktiles (kmem h) L g R" and ls: "klists (kmem h) (free_list h) fls" and ld: "klisted L g R fls" and kp: "kept U L g R"
    using st by (simp_all add: kstate_def)
  have "ktiles m L g R" by (rule ktiles_frame [OF t fr]) auto
  then have "ktiles m (L @ [(f, s)]) (g - 8 - s) R" using s w by (intro ktiles_fill) auto
  moreover have "klists m (free_list h) fls"
    by (rule klists_same [OF ls]) (use hole_links [OF t ld _ _ fr] in blast)
  ultimately show "kstate U (h\<lparr>kmem := m\<rparr>) (L @ [(f, s)]) (g - 8 - s) R fls"
    using kept_fill [OF kp s(2)] klisted_mono [OF ld s(2)] by (simp add: kstate_def)
  show "kframe (- U) (kmem h) m" by (rule kframe_mono [OF fr]) (use kp in \<open>auto simp: kept_def\<close>)
qed

lemma CreateNewUsedChunkAt_ok:
  assumes st: "kstate U h L g R fls" and s: "8 \<le> s" "8 + s \<le> g" and room: "current_heap_size h + s + 8 < heap_memory_limit"
  defines "h' \<equiv> snd (CreateNewUsedChunkAt (kheap_start + (8 + extent L)) s h)"
  shows "fst (CreateNewUsedChunkAt (kheap_start + (8 + extent L)) s h) = kheap_start + (8 + extent L + 4)"
    "kstate U h' (L @ [(False, s)]) (g - 8 - s) R fls" "kframe (- U) (kmem h) (kmem h')"
    "current_heap_size h' = (if 8 + extent L = current_heap_size h then current_heap_size h + s + 8 else current_heap_size h)"
    "free_list h' = free_list h"
proof -
  let ?a = "8 + extent L"
  have lim: "heap_memory_limit < 1073741824"
    by (simp add: heap_memory_limit_def ONE_GB_def KERNEL_HEAP_MEMORY_START_OFFSET_def MEMORY_ALGIN_OFFSET_def)
  have big: "?a + g \<le> 1073741824" using st by (simp add: kstate_def ktiles_def)
  have u: "u32 (s + 8) = s + 8" "u32 (current_heap_size h + (s + 8)) = current_heap_size h + (s + 8)"
    using room lim by (simp_all add: u32_id)
  define m1 where "m1 = put_tag False (kheap_start + ?a) s (kmem h)"
  define m2 where "m2 = put_tag False (kheap_start + (?a + 4 + s)) s m1"
  have s31: "s < 2147483648" using room lim by simp
  have f1: "kframe {?a ..< ?a + 4} (kmem h) m1" "kword m1 ?a = ktag False s"
    unfolding m1_def using put_tag [OF s31] by blast+
  have f2: "kframe {?a + 4 + s ..< ?a + 4 + s + 4} m1 m2" "kword m2 (?a + 4 + s) = ktag False s"
    unfolding m2_def using put_tag [OF s31] by blast+
  have "GetSuffixBlockAddressFromChunkStart (kheap_start + ?a) s = kheap_start + (?a + 4 + s)"
    using big s by (simp add: GetSuffixBlockAddressFromChunkStart_def ac_simps)
  then have c: "CreateNewUsedChunkAt (kheap_start + ?a) s h = (kheap_start + (?a + 4),
      h\<lparr>current_heap_size := (if ?a = current_heap_size h then current_heap_size h + s + 8 else current_heap_size h), kmem := m2\<rparr>)"
  proof -
    have "GetOffsetFromHeapStart (kheap_start + ?a) = ?a" "GetMemoryBlockAddressFromChunkStart (kheap_start + ?a) = kheap_start + (?a + 4)"
      using big s by (simp_all add: GetMemoryBlockAddressFromChunkStart_def del: add.assoc)
    moreover have "\<not> heap_memory_limit \<le> current_heap_size h + (s + 8)" using room by simp
    moreover have "kmem (h\<lparr>current_heap_size := c\<rparr>) = kmem h" for c by simp
    moreover have "h\<lparr>kmem := m2\<rparr> = h\<lparr>current_heap_size := current_heap_size h, kmem := m2\<rparr>" by simp
    ultimately show ?thesis
      using \<open>GetSuffixBlockAddressFromChunkStart (kheap_start + ?a) s = _\<close>
      unfolding CreateNewUsedChunkAt_def Let_def u m1_def m2_def put_tag_def
      by (cases "?a = current_heap_size h") (simp_all only: if_True if_False simp_thms kheap.simps add.assoc)
  qed
  have w: "kword m2 ?a = ktag False s" using f1(2) kframe_word [OF f2(1), of ?a] by simp
  have fr: "kframe {?a ..< ?a + g} (kmem h) m2"
    by (rule kframe_trans [OF kframe_mono [OF f1(1)] kframe_mono [OF f2(1)]]) (use s in auto)
  note fl = fill [OF st s fr w f2(2)]
  show "fst (CreateNewUsedChunkAt (kheap_start + (8 + extent L)) s h) = kheap_start + (8 + extent L + 4)" by (simp add: c)
  show "kstate U h' (L @ [(False, s)]) (g - 8 - s) R fls" using fl(1) by (simp add: h'_def c kstate_def)
  show "kframe (- U) (kmem h) (kmem h')" using fl(2) by (simp add: h'_def c)
  show "current_heap_size h' = (if 8 + extent L = current_heap_size h then current_heap_size h + s + 8 else current_heap_size h)"
    "free_list h' = free_list h" by (simp_all add: h'_def c)
qed

lemma CreateNewFreeChunkAt_ok:
  assumes st: "kstate U h L g R fls" and s: "8 \<le> s" "8 + s \<le> g" and i: "bucket i" "GetBucketIndexOfFreeChunk s = i"
  defines "h' \<equiv> CreateNewFreeChunkAt (kheap_start + (8 + extent L)) s i h"
  shows "kstate U h' (L @ [(True, s)]) (g - 8 - s) R (fls(i := (8 + extent L) # fls i))" "kframe (- U) (kmem h) (kmem h')"
    "current_heap_size h' = current_heap_size h"
proof -
  let ?a = "8 + extent L" and ?n = "free_list h i"
  have t: "ktiles (kmem h) L g R" and ls: "klists (kmem h) (free_list h) fls" and ld: "klisted L g R fls" and kp: "kept U L g R"
    using st by (simp_all add: kstate_def)
  have big: "?a + g \<le> 1073741824" using t by (simp add: ktiles_def)
  have s31: "s < 2147483648" using big s by simp
  have n: "?n = hd_or 0 (fls i)" using ls i(1) by (simp add: klists_def)
  then have n_in: "?n \<noteq> 0 \<Longrightarrow> ?n \<in> set (fls i)" using hd_or_in [of "fls i" 0] by (cases "fls i") auto
  have n_place: "?n \<noteq> 0 \<Longrightarrow> ?n + 16 \<le> 1073741824 \<and> (?n + 16 \<le> ?a \<or> ?a + g \<le> ?n)"
    using listed_place(2,3) [OF t ld i(1) n_in] by blast
  define m1 where "m1 = put_tag True (kheap_start + ?a) s (kmem h)"
  define m2 where "m2 = (if ?n = 0 then m1 else wr32 m1 (kheap_start + (?n + 4)) ?a)"
  define m3 where "m3 = wr32 (wr32 m2 (kheap_start + (?a + 4)) 0) (kheap_start + (?a + 8)) ?n"
  define m4 where "m4 = put_tag True (kheap_start + (?a + 4 + s)) s m3"
  have h': "h' = h\<lparr>kmem := m4, free_list := (free_list h)(i := ?a)\<rparr>"
  proof -
    have "GetSuffixBlockAddressFromChunkStart (kheap_start + ?a) s = kheap_start + (?a + 4 + s)"
      using big s by (simp add: GetSuffixBlockAddressFromChunkStart_def ac_simps)
    moreover have "add64 (kheap_start + ?a) 4 = kheap_start + (?a + 4)" "add64 (kheap_start + ?a) 8 = kheap_start + (?a + 8)"
      "GetOffsetFromHeapStart (kheap_start + ?a) = ?a"
      using big s by (simp_all del: add.assoc)
    moreover have "?n \<noteq> 0 \<Longrightarrow> add64 (GetAddressByOffset ?n) 4 = kheap_start + (?n + 4)" using n_place by simp
    ultimately show ?thesis
      unfolding h'_def CreateNewFreeChunkAt_def SetPrevOffset_def SetNextOffset_def m4_def m3_def m2_def m1_def put_tag_def
      by (cases "?n = 0") (simp_all only: Let_def if_True if_False simp_thms)
  qed
  have f1: "kframe {?a ..< ?a + 4} (kmem h) m1" "kword m1 ?a = ktag True s" unfolding m1_def using put_tag [OF s31] by blast+
  have f2: "kframe (if ?n = 0 then {} else {?n + 4 ..< ?n + 8}) m1 m2"
    by (auto simp: m2_def intro!: kframe_mono [OF kframe_wr32])
  have f3: "kframe {?a + 4 ..< ?a + 12} m2 m3" "kprev m3 ?a = 0" "knext m3 ?a = ?n"
  proof -
    show "kframe {?a + 4 ..< ?a + 12} m2 m3" unfolding m3_def
      by (rule kframe_trans [OF kframe_mono [OF kframe_wr32] kframe_mono [OF kframe_wr32]]) auto
    show "kprev m3 ?a = 0" unfolding kprev_def m3_def
      using kframe_word [OF kframe_wr32, of "?a + 4" "?a + 8"] by (simp add: kword_wr32)
    have "?n < 4294967296" using n_place by (cases "?n = 0") auto
    then show "knext m3 ?a = ?n" unfolding knext_def m3_def by (simp add: kword_wr32 u32_id)
  qed
  have f4: "kframe {?a + 4 + s ..< ?a + 4 + s + 4} m3 m4" "kword m4 (?a + 4 + s) = ktag True s"
    unfolding m4_def using put_tag [OF s31] by blast+
  let ?S = "{?a ..< ?a + g} \<union> (if ?n = 0 then {} else {?n + 4 ..< ?n + 8})"
  have fr: "kframe ?S (kmem h) m4"
    by (rule kframe_trans [OF kframe_mono [OF f1(1)] kframe_trans [OF kframe_mono [OF f2] kframe_trans [OF kframe_mono [OF f3(1)] kframe_mono [OF f4(1)]]]])
      (use s in auto)
  have wa: "kword m4 ?a = ktag True s"
  proof -
    have "kword m4 ?a = kword m3 ?a" by (rule kframe_word [OF f4(1)]) auto
    also have "\<dots> = kword m2 ?a" by (rule kframe_word [OF f3(1)]) auto
    also have "\<dots> = kword m1 ?a" by (rule kframe_word [OF f2]) (use n_place s in auto)
    finally show ?thesis using f1(2) by simp
  qed
  have links_a: "kprev m4 ?a = 0" "knext m4 ?a = ?n"
    using f3(2,3) kframe_word [OF f4(1), of "?a + 4"] kframe_word [OF f4(1), of "?a + 8"] s by (auto simp: kprev_def knext_def)
  have links: "kprev m4 z = (if z = ?n then ?a else kprev (kmem h) z) \<and> knext m4 z = knext (kmem h) z" if z: "bucket j" "z \<in> set (fls j)" for j z
  proof -
    have z3: "z + 16 \<le> ?a \<or> ?a + g \<le> z" and z8: "8 \<le> z" using listed_place(1,3) [OF t ld z] by auto
    have zn: "?n \<noteq> 0 \<Longrightarrow> z = ?n \<or> z + 16 \<le> ?n \<or> ?n + 16 \<le> z" using listed_apart [OF t ld z(1) i(1) z(2) n_in] by blast
    have w: "kword m4 (z + k) = kword m2 (z + k)" "kword m1 (z + k) = kword (kmem h) (z + k)" if "k + 4 \<le> 16" for k
    proof -
      have "kword m4 (z + k) = kword m3 (z + k)" by (rule kframe_word [OF f4(1)]) (use z3 s that in auto)
      also have "\<dots> = kword m2 (z + k)" by (rule kframe_word [OF f3(1)]) (use z3 s that in auto)
      finally show "kword m4 (z + k) = kword m2 (z + k)" .
      show "kword m1 (z + k) = kword (kmem h) (z + k)" by (rule kframe_word [OF f1(1)]) (use z3 s that in auto)
    qed
    have "?a < 4294967296" using big by simp
    then have "kprev m2 z = (if z = ?n then ?a else kprev m1 z)" "knext m2 z = knext m1 z"
      using zn z8 unfolding m2_def by (auto simp: link_store)
    then show ?thesis using w [of 4] w [of 8] by (simp add: kprev_def knext_def)
  qed
  have a_new: "?a \<notin> set (fls j)" if "bucket j" for j
    using listed_place(3) [OF t ld that, of ?a] s by auto
  have d: "dll (kprev (kmem h)) (knext (kmem h)) 0 (fls i) 0" "distinct (fls i)" using ls i(1) by (simp_all add: klists_def)
  have "dll (kprev m4) (knext m4) ?a (fls i) 0"
  proof -
    have "dll ((kprev (kmem h))(hd_or 0 (fls i) := ?a)) (knext (kmem h)) (if fls i = [] then 0 else ?a) (fls i) 0"
      by (rule dll_set_head [OF d])
    moreover have "dll (kprev m4) (knext m4) q (fls i) 0 = dll ((kprev (kmem h))(hd_or 0 (fls i) := ?a)) (knext (kmem h)) q (fls i) 0" for q
      by (rule dll_cong) (use links [OF i(1)] n in auto)
    ultimately show ?thesis by (cases "fls i = []") auto
  qed
  then have "klists m4 ((free_list h)(i := hd_or 0 (?a # fls i))) (fls(i := ?a # fls i))"
  proof (intro klists_update [OF ls i(1)])
    fix j x assume j: "bucket j" "j \<noteq> i" "x \<in> set (fls j)"
    have "x \<noteq> ?n" using listed_once [OF t ld j(1) i(1) j(3)] j(2) n_in listed_place(1) [OF t ld j(1,3)] by fastforce
    then show "kprev m4 x = kprev (kmem h) x \<and> knext m4 x = knext (kmem h) x" using links [OF j(1,3)] by simp
  qed (use links_a n d(2) a_new [OF i(1)] in auto)
  moreover have "ktiles m4 L g R"
  proof (rule ktiles_frame [OF t fr])
    fix z assume "z \<in> ?S"
    then consider "?a \<le> z" "z < ?a + g" | "?n \<noteq> 0" "?n + 4 \<le> z" "z < ?n + 8" by (auto split: if_splits)
    then show "(?a \<le> z \<and> z < ?a + g) \<or> (\<exists>x f s. chunk_at L g R x f s \<and> x + 4 \<le> z \<and> z < x + 4 + s)"
    proof cases
      case 2
      obtain r where r: "chunk_at L g R ?n True r" using listed_chunk [OF ld i(1) n_in [OF 2(1)]] by metis
      then show ?thesis using 2 chunk_at_facts(1) [OF t r] by (intro disjI2 exI [of _ ?n] exI [of _ True] exI [of _ r]) auto
    qed auto
  qed
  then have "ktiles m4 (L @ [(True, s)]) (g - 8 - s) R" using s wa f4(2) by (intro ktiles_fill) auto
  moreover have "klisted (L @ [(True, s)]) (g - 8 - s) R (fls(i := ?a # fls i))"
    using ld i(2) unfolding klisted_def chunk_at_fill [OF s(2)] by auto
  ultimately show "kstate U h' (L @ [(True, s)]) (g - 8 - s) R (fls(i := ?a # fls i))"
    using kept_fill [OF kp s(2)] by (simp add: kstate_def h')
  have "?S \<subseteq> - U"
  proof -
    have "U \<inter> {?n ..< ?n + 16} = {}" if n0: "?n \<noteq> 0"
    proof -
      obtain r where r: "chunk_at L g R ?n True r" using listed_chunk [OF ld i(1) n_in [OF n0]] by metis
      then have "U \<inter> {?n ..< ?n + 8 + r} = {}" using kp unfolding kept_def by blast
      then show ?thesis using chunk_at_facts(1) [OF t r] by auto
    qed
    then have "?n \<noteq> 0 \<Longrightarrow> {?n + 4 ..< ?n + 8} \<subseteq> - U" by fastforce
    then show ?thesis using kp by (auto simp: kept_def)
  qed
  then show "kframe (- U) (kmem h) (kmem h')" using kframe_mono [OF fr] by (simp add: h')
  show "current_heap_size h' = current_heap_size h" by (simp add: h')
qed

end
