(* ===== verification/KMallocOps.thy ===== *)
theory KMallocOps
  imports KMallocLists
begin

text \<open>
  The operations of the kernel's heap on the list of its chunks. \<open>chunks U X h bs\<close> says that memory spells
  the chunks bs and that the free lists hold each free chunk but those at X; the invariant \<open>kinv\<close> adds
  that no two free chunks touch and that the heap ends with a used one.
\<close>

unbundle bit_operations_syntax

section \<open>Logarithms\<close>

lemma clz_log:
  assumes "2 ^ k \<le> x" "x < 2 ^ (k + 1)" "k < w"
  shows "builtin_clz w x = w - 1 - k"
proof -
  have top: "\<not> bit x i" if "k < i" for i
  proof -
    have "x < 2 ^ i" using assms(2) that power_increasing [of "k + 1" i "2 :: nat"] by simp
    then show ?thesis by (simp add: bit_iff_odd)
  qed
  have "bit x k"
  proof -
    have "x div 2 ^ k = 1" using assms(1,2) by (intro div_nat_eqI) simp_all
    then show ?thesis by (simp add: bit_iff_odd)
  qed
  have "rev [0 ..< w] = rev [k + 1 ..< w] @ k # rev [0 ..< k]"
  proof -
    have "[0 ..< w] = [0 ..< k] @ k # [k + 1 ..< w]" using assms(3) by (metis Suc_eq_plus1 less_imp_le_nat upt_conv_Cons upt_add_eq_append zero_le le_add_diff_inverse add_0)
    then show ?thesis by simp
  qed
  then have "takeWhile (\<lambda>i. \<not> bit x i) (rev [0 ..< w]) = rev [k + 1 ..< w]"
    using \<open>bit x k\<close> top by (simp add: takeWhile_tail) 
  then show ?thesis by (simp add: builtin_clz_def)
qed

lemma log_of:
  assumes "0 < (x :: nat)"
  obtains k where "2 ^ k \<le> x" "x < 2 ^ (k + 1)"
  using assms ex_power_ivl1 [of 2 x] by auto

lemma round_down:
  assumes "2 ^ k \<le> x" "x < 2 ^ (k + 1)" "k < 32"
  shows "RoundDownNearestPowerOfTwoLog x = int k"
  using clz_log [OF assms] assms(3) by (simp add: RoundDownNearestPowerOfTwoLog_def)

lemma round_up:
  assumes "0 < x" "x < 2 ^ 31"
  shows "x \<le> 2 ^ RoundUpNearestPowerOfTwoLog 32 x" "2 ^ RoundUpNearestPowerOfTwoLog 32 x < 2 * x"
proof -
  obtain k where k: "2 ^ k \<le> x" "x < 2 ^ (k + 1)" using log_of [OF assms(1)] .
  have "(2 :: nat) ^ k < 2 ^ 31" using k(1) assms(2) by linarith
  then have k31: "k < 31" by (rule power_less_imp_less_exp [rotated]) simp
  have clz: "builtin_clz 32 x = 31 - k" using clz_log [OF k, of 32] k31 by simp
  have "x \<le> 2 ^ RoundUpNearestPowerOfTwoLog 32 x \<and> 2 ^ RoundUpNearestPowerOfTwoLog 32 x < 2 * x"
  proof (cases "x = 2 ^ k")
    case True
    have "List.find (bit x) [0 ..< 32] = Some k"
      by (rule find_upt) (use k31 in \<open>auto simp: True bit_exp_iff\<close>)
    then have "RoundUpNearestPowerOfTwoLog 32 x = k" using k31 by (simp add: RoundUpNearestPowerOfTwoLog_def clz builtin_ffs_def Let_def)
    then show ?thesis using True by simp
  next
    case False
    have "builtin_ffs 32 x \<noteq> k + 1"
    proof
      assume "builtin_ffs 32 x = k + 1"
      then have "List.find (bit x) [0 ..< 32] = Some k" by (auto simp: builtin_ffs_def split: option.splits)
      then have low: "\<not> bit x i" if "i < k" for i using that by (auto simp: find_Some_iff)
      have "bit x i = bit (2 ^ k :: nat) i" for i
      proof (cases i k rule: linorder_cases)
        case less
        then show ?thesis using low by (simp add: bit_exp_iff)
      next
        case equal
        have "x div 2 ^ k = 1" using k by (intro div_nat_eqI) simp_all
        then show ?thesis using equal by (simp add: bit_iff_odd)
      next
        case greater
        have "x < 2 ^ i" using k(2) greater power_increasing [of "k + 1" i "2 :: nat"] by simp
        then show ?thesis using greater by (simp add: bit_iff_odd)
      qed
      then show False using False bit_eq_iff by blast
    qed
    then have "RoundUpNearestPowerOfTwoLog 32 x = k + 1"
      using k31 by (simp add: RoundUpNearestPowerOfTwoLog_def clz Let_def)
    then show ?thesis using k False by simp
  qed
  then show "x \<le> 2 ^ RoundUpNearestPowerOfTwoLog 32 x" "2 ^ RoundUpNearestPowerOfTwoLog 32 x < 2 * x" by blast+
qed

section \<open>Buckets\<close>

lemma free_bucket:
  assumes "8 \<le> s" "s < 2 ^ 32"
  shows "bucket (GetBucketIndexOfFreeChunk s)"
    "2 ^ (nat (GetBucketIndexOfFreeChunk s) + 3) \<le> s"
    "GetBucketIndexOfFreeChunk s < 15 \<Longrightarrow> s < 2 ^ (nat (GetBucketIndexOfFreeChunk s) + 4)"
proof -
  obtain k where k: "2 ^ k \<le> s" "s < 2 ^ (k + 1)" using log_of [of s] assms(1) by auto
  have 1: "(2 :: nat) ^ k < 2 ^ 32" using k(1) assms(2) by (rule le_less_trans)
  have 2: "(2 :: nat) ^ 3 < 2 ^ (k + 1)" using assms(1) k(2) by (intro le_less_trans [OF _ k(2)]) simp
  have "k < 32" "3 < k + 1" by (rule power_less_imp_less_exp [OF _ 1], simp, rule power_less_imp_less_exp [OF _ 2], simp)
  then have k': "3 \<le> k" "k < 32" by simp_all
  have i: "GetBucketIndexOfFreeChunk s = (if k < 19 then int k - 3 else 15)"
    using k' by (simp add: GetBucketIndexOfFreeChunk_def round_down [OF k] Let_def NUM_BUCKETS_def)
  show "bucket (GetBucketIndexOfFreeChunk s)" using k' by (simp add: i bucket_def)
  show "2 ^ (nat (GetBucketIndexOfFreeChunk s) + 3) \<le> s"
  proof (cases "k < 19")
    case True
    then have "nat (GetBucketIndexOfFreeChunk s) + 3 = k" using k' by (simp add: i nat_diff_distrib)
    then show ?thesis using k(1) by simp
  next
    case False
    then have "nat (GetBucketIndexOfFreeChunk s) + 3 = 18" by (simp add: i)
    moreover have "(2 :: nat) ^ 18 \<le> 2 ^ k" using False by (intro power_increasing) auto
    ultimately show ?thesis using k(1) by simp
  qed
  show "s < 2 ^ (nat (GetBucketIndexOfFreeChunk s) + 4)" if "GetBucketIndexOfFreeChunk s < 15"
  proof -
    have "nat (GetBucketIndexOfFreeChunk s) + 4 = k + 1" using that k' by (simp add: i nat_diff_distrib split: if_splits)
    then show ?thesis using k(2) by (simp only:)
  qed
qed

text \<open>A chunk in a bucket that is searched is large enough, up to the last bucket.\<close>

lemma bucket_fits:
  assumes n: "8 \<le> n" "n < 2 ^ 31" and s: "8 \<le> s" "s < 2 ^ 32" "GetBucketIndexOfFreeChunk s = i" "GetBucketIndex n \<le> i"
    and last: "i = 15 \<Longrightarrow> n \<le> 2 ^ 18"
  shows "n \<le> s"
proof -
  have low: "2 ^ (nat i + 3) \<le> s" using free_bucket(2) [OF s(1,2)] s(3) by simp
  have b: "bucket i" using free_bucket(1) [OF s(1,2)] s(3) by simp
  define p where "p = RoundUpNearestPowerOfTwoLog 32 n"
  have p: "n \<le> 2 ^ p" "2 ^ p < 2 * n" unfolding p_def using round_up [of n] n by auto
  have "(2 :: nat) ^ 3 \<le> 2 ^ p" using n(1) p(1) by simp
  then have p3: "3 \<le> p" using power_le_imp_le_exp [of "2 :: nat" 3 p] by simp
  have i0: "GetBucketIndex n = (if 3 < p \<and> p < 19 then int p - 3 else 15)"
    using p3 unfolding GetBucketIndex_def p_def [symmetric] by (simp add: NUM_BUCKETS_def)
  show ?thesis
  proof (cases "i = 15")
    case True
    then have "nat i + 3 = 18" by simp
    then show ?thesis using low last [OF True] by simp
  next
    case False
    then have "3 < p" "p < 19" "int p - 3 \<le> i" using s(4) b unfolding i0 bucket_def by (auto split: if_splits)
    then have "p \<le> nat i + 3" by simp
    then have "(2 :: nat) ^ p \<le> 2 ^ (nat i + 3)" by (rule power_increasing) simp
    then show ?thesis using p(1) low by linarith
  qed
qed

lemma bucket_range: "8 \<le> n \<Longrightarrow> bucket (GetBucketIndex n)"
  by (auto simp: GetBucketIndex_def bucket_def NUM_BUCKETS_def Let_def)

section \<open>Opening and closing the hole\<close>

lemma chunk_at_open:
  "chunk_at (L @ M @ R) 0 [] x f s \<longleftrightarrow> chunk_at L (extent M) R x f s \<or> (\<exists>c. blk M c f s \<and> x = 8 + extent L + c)"
  by (simp add: chunk_at_def conj_disj_distribR ex_disj_distrib add.assoc) (blast+)?

lemma ktiles_open: "ktiles m (L @ M @ R) 0 [] \<Longrightarrow> ktiles m L (extent M) R"
  by (auto simp: ktiles_def ktags_append ac_simps)

lemma ktiles_close: "ktiles m L 0 R \<Longrightarrow> ktiles m (L @ R) 0 []"
  by (auto simp: ktiles_def ktags_append ac_simps)

lemma chunk_at_close: "chunk_at (L @ R) 0 [] x f s \<longleftrightarrow> chunk_at L 0 R x f s"
  by (simp add: chunk_at_def conj_disj_distribR ex_disj_distrib add.assoc) (blast+)?

lemma close_hole:
  assumes "kstate U h L 0 R fls"
  shows "kstate U h (L @ R) 0 [] fls"
  using assms ktiles_close unfolding kstate_def klisted_def kept_def chunk_at_close by auto

lemma open_hole:
  assumes st: "kstate U h (L @ M @ R) 0 [] fls"
    and out: "\<And>c s i. blk M c True s \<Longrightarrow> bucket i \<Longrightarrow> 8 + extent L + c \<notin> set (fls i)"
    and U: "U \<inter> {8 + extent L ..< 8 + extent L + extent M} = {}"
  shows "kstate U h L (extent M) R fls"
proof -
  have "klisted L (extent M) R fls"
    using st out unfolding kstate_def klisted_def chunk_at_open by blast
  moreover have "kept U L (extent M) R" using st U unfolding kstate_def kept_def chunk_at_open by blast
  ultimately show ?thesis using st ktiles_open unfolding kstate_def by blast
qed

lemma grow_hole:
  assumes "kstate U h L g [] fls" "8 + extent L + g' \<le> 1073741824" "U \<inter> {8 + extent L ..< 8 + extent L + g'} = {}"
  shows "kstate U h L g' [] fls"
proof -
  have "chunk_at L g' [] x f s \<longleftrightarrow> chunk_at L g [] x f s" for x f s by (auto simp: chunk_at_def)
  then show ?thesis using assms unfolding kstate_def klisted_def kept_def by (simp add: ktiles_def)
qed

section \<open>The heap as its chunks\<close>

abbreviation free_at :: "block list \<Rightarrow> nat \<Rightarrow> nat \<Rightarrow> bool" where
  "free_at bs x s \<equiv> chunk_at bs 0 [] x True s"

definition opened :: "nat set \<Rightarrow> nat set \<Rightarrow> kheap \<Rightarrow> block list \<Rightarrow> nat \<Rightarrow> block list \<Rightarrow> bool" where
  "opened U X h L g R \<longleftrightarrow> (\<exists>fls. kstate U h L g R fls
     \<and> (\<forall>x s. chunk_at L g R x True s \<longrightarrow> (x \<in> set (fls (GetBucketIndexOfFreeChunk s)) \<longleftrightarrow> x \<notin> X)))"

abbreviation chunks :: "nat set \<Rightarrow> nat set \<Rightarrow> kheap \<Rightarrow> block list \<Rightarrow> bool" where
  "chunks U X h bs \<equiv> opened U X h bs 0 []"

lemma openedE:
  assumes "opened U X h L g R"
  obtains fls where "kstate U h L g R fls"
    "\<And>x s. chunk_at L g R x True s \<Longrightarrow> x \<in> set (fls (GetBucketIndexOfFreeChunk s)) \<longleftrightarrow> x \<notin> X"
  using assms unfolding opened_def by blast

lemma openedI:
  assumes "kstate U h L g R fls" "\<And>x s. chunk_at L g R x True s \<Longrightarrow> x \<in> set (fls (GetBucketIndexOfFreeChunk s)) \<longleftrightarrow> x \<notin> X"
  shows "opened U X h L g R"
  using assms unfolding opened_def by blast

lemma opened_tiles: "opened U X h L g R \<Longrightarrow> ktiles (kmem h) L g R"
  by (auto simp: opened_def kstate_def)

lemma chunks_tiles: "chunks U X h bs \<Longrightarrow> ktiles (kmem h) bs 0 []"
  by (rule opened_tiles)

lemma chunks_bound: "chunks U X h bs \<Longrightarrow> 8 + extent bs \<le> 1073741824"
  using chunks_tiles [of U X h bs] by (simp add: ktiles_def)

lemma chunk_bucket:
  assumes "chunks U X h bs" "chunk_at bs 0 [] x f s"
  shows "bucket (GetBucketIndexOfFreeChunk s)" "8 \<le> s" "x + 8 + s \<le> 1073741824" "8 \<le> x"
  using chunk_at_facts [OF chunks_tiles [OF assms(1)] assms(2)] free_bucket(1) [of s] by auto

lemma chunk_kept: "chunks U X h bs \<Longrightarrow> free_at bs x s \<Longrightarrow> U \<inter> {x ..< x + 8 + s} = {}"
  unfolding opened_def kstate_def kept_def by blast

lemma unlink_chunk:
  assumes c: "chunks U X h bs" and x: "free_at bs x s" "x \<notin> X"
  defines "h' \<equiv> WeaveTwoChunksTogether (GetPrevAndNextFromFreeChunk (kmem h) (kheap_start + x)) (GetBucketIndexOfFreeChunk s) h"
  shows "chunks U (insert x X) h' bs" "kframe (- U) (kmem h) (kmem h')" "current_heap_size h' = current_heap_size h"
proof -
  obtain fls where st: "kstate U h bs 0 [] fls"
    and all: "\<And>x s. free_at bs x s \<Longrightarrow> x \<in> set (fls (GetBucketIndexOfFreeChunk s)) \<longleftrightarrow> x \<notin> X"
    using c by (rule openedE) (rule that)
  let ?i = "GetBucketIndexOfFreeChunk s"
  have i: "bucket ?i" by (rule chunk_bucket(1) [OF c x(1)])
  obtain us vs where l: "fls ?i = us @ x # vs" using all [OF x(1)] x(2) by (meson split_list)
  have d: "x \<notin> set (us @ vs)"
  proof -
    have "distinct (us @ x # vs)" using st i unfolding kstate_def klists_def by (metis l)
    then show ?thesis by simp
  qed
  note u = unlink [OF st i l, folded h'_def]
  have "z \<in> set ((fls(?i := us @ vs)) (GetBucketIndexOfFreeChunk t)) \<longleftrightarrow> z \<notin> insert x X" if z: "free_at bs z t" for z t
  proof (cases "z = x")
    case True
    then have "t = s" using chunk_at_same(2) [OF chunks_tiles [OF c]] x(1) z by blast
    then show ?thesis using True d by simp
  next
    case False
    then have "z \<in> set ((fls(?i := us @ vs)) (GetBucketIndexOfFreeChunk t)) \<longleftrightarrow> z \<in> set (fls (GetBucketIndexOfFreeChunk t))"
      using l by (cases "GetBucketIndexOfFreeChunk t = ?i") auto
    then show ?thesis using all [OF z] False by simp
  qed
  then show "chunks U (insert x X) h' bs" by (intro openedI [OF u(1)]) blast
  show "kframe (- U) (kmem h) (kmem h')" "current_heap_size h' = current_heap_size h" by (rule u)+
qed

text \<open>A range whose free chunks are out of the lists is opened, filled, and closed again.\<close>

lemma opened_open:
  assumes c: "chunks U X h (L @ M @ R)" and X: "\<And>k s. blk M k True s \<Longrightarrow> 8 + extent L + k \<in> X"
    "X \<subseteq> {8 + extent L ..< 8 + extent L + extent M}" and U: "U \<inter> {8 + extent L ..< 8 + extent L + extent M} = {}"
  shows "opened U {} h L (extent M) R"
proof -
  obtain fls where st: "kstate U h (L @ M @ R) 0 [] fls"
    and all: "\<And>x s. free_at (L @ M @ R) x s \<Longrightarrow> x \<in> set (fls (GetBucketIndexOfFreeChunk s)) \<longleftrightarrow> x \<notin> X"
    using c by (rule openedE) (rule that)
  have "8 + extent L + k \<notin> set (fls i)" if k: "blk M k True s" "bucket i" for k s i
  proof
    assume m: "8 + extent L + k \<in> set (fls i)"
    have "klisted (L @ M @ R) 0 [] fls" using st by (simp add: kstate_def)
    from listed_chunk [OF this k(2) m] obtain t where t: "free_at (L @ M @ R) (8 + extent L + k) t" "GetBucketIndexOfFreeChunk t = i" by metis
    then show False using all [OF t(1)] m X(1) [OF k(1)] by simp
  qed
  then have o: "kstate U h L (extent M) R fls" by (intro open_hole [OF st _ U]) blast
  then have t: "ktiles (kmem h) L (extent M) R" by (simp add: kstate_def)
  show ?thesis
  proof (rule openedI [OF o])
    fix x s assume x: "chunk_at L (extent M) R x True s"
    have "x \<notin> X" using chunk_at_facts(6) [OF t x] X(2) by auto
    then show "x \<in> set (fls (GetBucketIndexOfFreeChunk s)) \<longleftrightarrow> x \<notin> {}" using all [of x s] x by (simp add: chunk_at_open)
  qed
qed

lemma opened_close: "opened U X h L 0 R \<Longrightarrow> chunks U X h (L @ R)"
  unfolding opened_def chunk_at_close using close_hole by blast

lemma opened_used:
  assumes o: "opened U X h L g R" and s: "8 \<le> s" "8 + s \<le> g" and room: "current_heap_size h + s + 8 < heap_memory_limit"
  defines "h' \<equiv> snd (CreateNewUsedChunkAt (kheap_start + (8 + extent L)) s h)"
  shows "opened U X h' (L @ [(False, s)]) (g - 8 - s) R" "kframe (- U) (kmem h) (kmem h')"
proof -
  obtain fls where st: "kstate U h L g R fls"
    and all: "\<And>x s. chunk_at L g R x True s \<Longrightarrow> x \<in> set (fls (GetBucketIndexOfFreeChunk s)) \<longleftrightarrow> x \<notin> X"
    using o by (rule openedE) (rule that)
  note c = CreateNewUsedChunkAt_ok [OF st s room, folded h'_def]
  show "opened U X h' (L @ [(False, s)]) (g - 8 - s) R"
    by (rule openedI [OF c(2)]) (use all chunk_at_fill [OF s(2)] in auto)
  show "kframe (- U) (kmem h) (kmem h')" by (rule c(3))
qed

lemma opened_free:
  assumes o: "opened U {} h L g R" and s: "8 \<le> s" "8 + s \<le> g"
  defines "h' \<equiv> CreateNewFreeChunkAt (kheap_start + (8 + extent L)) s (GetBucketIndexOfFreeChunk s) h"
  shows "opened U {} h' (L @ [(True, s)]) (g - 8 - s) R" "kframe (- U) (kmem h) (kmem h')" "current_heap_size h' = current_heap_size h"
proof -
  obtain fls where st: "kstate U h L g R fls"
    and all: "\<And>x s. chunk_at L g R x True s \<Longrightarrow> x \<in> set (fls (GetBucketIndexOfFreeChunk s)) \<longleftrightarrow> x \<notin> {}"
    using o by (rule openedE) (rule that)
  have "s < 2 ^ 32" using opened_tiles [OF o] s(2) by (simp add: ktiles_def)
  then have b: "bucket (GetBucketIndexOfFreeChunk s)" using free_bucket(1) [OF s(1)] by simp
  note c = CreateNewFreeChunkAt_ok [OF st s b refl, folded h'_def]
  show "opened U {} h' (L @ [(True, s)]) (g - 8 - s) R"
  proof (rule openedI [OF c(1)])
    fix x t assume "chunk_at (L @ [(True, s)]) (g - 8 - s) R x True t"
    then consider "chunk_at L g R x True t" | "x = 8 + extent L" "t = s" using chunk_at_fill [OF s(2)] by blast
    then show "x \<in> set ((fls(GetBucketIndexOfFreeChunk s := (8 + extent L) # fls (GetBucketIndexOfFreeChunk s))) (GetBucketIndexOfFreeChunk t))
        \<longleftrightarrow> x \<notin> {}"
      by cases (use all [of x t] in \<open>cases "GetBucketIndexOfFreeChunk t = GetBucketIndexOfFreeChunk s"; simp\<close>)+
  qed
  show "kframe (- U) (kmem h) (kmem h')" "current_heap_size h' = current_heap_size h" by (rule c(2,3))+
qed

section \<open>Coalescing\<close>

lemma chunk_middle: "chunk_at (L @ (f, s) # R) 0 [] (8 + extent L) f s"
  by (auto simp: chunk_at_def blk_def)

lemma chunk_size:
  assumes "chunks U X h (L @ (f, s) # R)"
  shows "GetChunkSize (kmem h) (kheap_start + (8 + extent L)) = s"
    "IsOccupied (kmem h) (kheap_start + (8 + extent L)) \<longleftrightarrow> \<not> f"
    "GetChunkSize (kmem h) (kheap_start + (8 + extent L + 4 + s)) = s"
    "IsOccupied (kmem h) (kheap_start + (8 + extent L + 4 + s)) \<longleftrightarrow> \<not> f"
  using chunk_at_facts(2,3) [OF opened_tiles [OF assms] chunk_middle]
  by (simp_all only: GetChunkSize_def occupied_word ktag_div flip: kword_def)

lemma Coalsce_ok:
  assumes c: "chunks U {} h (L @ (True, s) # (True, t) # R)"
  defines "h' \<equiv> CoalsceTwoChunks (kheap_start + (8 + extent L)) (kheap_start + (8 + extent L + 8 + s)) h"
  shows "chunks U {} h' (L @ (True, s + t + 8) # R)" "kframe (- U) (kmem h) (kmem h')" "current_heap_size h' = current_heap_size h"
proof -
  let ?a = "8 + extent L" and ?M = "[(True, s), (True, t)]"
  let ?b = "?a + 8 + s"
  have c': "chunks U {} h ((L @ [(True, s)]) @ (True, t) # R)" using c by simp
  have bs: "L @ (True, s) # (True, t) # R = L @ ?M @ R" by simp
  have at: "free_at (L @ (True, s) # (True, t) # R) ?a s" "free_at (L @ (True, s) # (True, t) # R) ?b t"
    using chunk_middle [of L True s "(True, t) # R"] chunk_middle [of "L @ [(True, s)]" True t R] by (simp_all add: ac_simps)
  have sz: "GetChunkSize (kmem h) (kheap_start + ?a) = s" "GetChunkSize (kmem h) (kheap_start + ?b) = t"
    using chunk_size(1) [OF c] chunk_size(1) [OF c'] by (simp_all add: ac_simps)
  define h1 where "h1 = WeaveTwoChunksTogether (GetPrevAndNextFromFreeChunk (kmem h) (kheap_start + ?a)) (GetBucketIndexOfFreeChunk s) h"
  note u1 = unlink_chunk [OF c at(1), folded h1_def, simplified]
  define h2 where "h2 = WeaveTwoChunksTogether (GetPrevAndNextFromFreeChunk (kmem h1) (kheap_start + ?b)) (GetBucketIndexOfFreeChunk t) h1"
  have "?b \<notin> {?a}" by simp
  note u2 = unlink_chunk [OF u1(1) at(2) this, folded h2_def]
  have big: "8 + extent (L @ ?M @ R) \<le> 1073741824" using chunks_bound [OF c] by simp
  have "U \<inter> {?a ..< ?a + 8 + s} = {}" "U \<inter> {?b ..< ?b + 8 + t} = {}" using chunk_kept [OF c at(1)] chunk_kept [OF c at(2)] .
  moreover have "{?a ..< ?a + extent ?M} = {?a ..< ?a + 8 + s} \<union> {?b ..< ?b + 8 + t}" by auto
  ultimately have U: "U \<inter> {?a ..< ?a + extent ?M} = {}" by blast
  have o: "opened U {} h2 L (extent ?M) R"
  proof (rule opened_open [OF _ _ _ U])
    show "chunks U {?b, ?a} h2 (L @ ?M @ R)" using u2(1) by simp
  qed auto
  have "8 \<le> s" "8 \<le> t" using chunk_bucket(2) [OF c at(1)] chunk_bucket(2) [OF c at(2)] by auto
  then have e: "8 \<le> s + t + 8" "8 + (s + t + 8) \<le> extent ?M" "extent ?M - 8 - (s + t + 8) = 0" by simp_all
  have "u32 (s + t + 8) = s + t + 8" using big by (simp add: u32_id)
  then have h': "h' = CreateNewFreeChunkAt (kheap_start + ?a) (s + t + 8) (GetBucketIndexOfFreeChunk (s + t + 8)) h2"
    unfolding h'_def CoalsceTwoChunks_def Let_def sz h2_def h1_def by simp
  note f = opened_free [OF o e(1,2), folded h', unfolded e(3)]
  show "chunks U {} h' (L @ (True, s + t + 8) # R)" using opened_close [OF f(1)] by simp
  show "kframe (- U) (kmem h) (kmem h')" by (rule kframe_trans [OF u1(2) kframe_trans [OF u2(2) f(2)]])
  show "current_heap_size h' = current_heap_size h" using u1(3) u2(3) f(3) by simp
qed

section \<open>The invariant\<close>

definition payload :: "nat \<times> nat \<Rightarrow> nat set" where
  \<comment> \<open>the offsets of the memory of a chunk\<close>
  "payload b = {8 + fst b + 4 ..< 8 + fst b + 4 + snd b}"

definition used_bytes :: "block list \<Rightarrow> nat set" where "used_bytes bs = \<Union> (payload ` set (used_blocks 0 bs))"

definition tidy :: "block list \<Rightarrow> bool" where
  "tidy bs \<longleftrightarrow> coalesced bs \<and> (bs \<noteq> [] \<longrightarrow> \<not> fst (last bs))"

definition kinv :: "kheap \<Rightarrow> block list \<Rightarrow> bool" where
  "kinv h bs \<longleftrightarrow> chunks {} {} h bs \<and> tidy bs \<and> current_heap_size h = 8 + extent bs \<and> 8 + extent bs < heap_memory_limit"

lemma heap_limit: "heap_memory_limit < 1073741824"
  by (simp add: heap_memory_limit_def ONE_GB_def KERNEL_HEAP_MEMORY_START_OFFSET_def MEMORY_ALGIN_OFFSET_def)

lemma chunks_keep:
  assumes "chunks {} X h bs" "U \<subseteq> used_bytes bs"
  shows "chunks U X h bs"
proof -
  have "U \<inter> {x ..< x + 8 + s} = {}" if x: "free_at bs x s" for x s
  proof -
    obtain c where c: "blk bs c True s" "x = 8 + c" using x by (auto simp: chunk_at_def)
    have "payload (a, t) \<inter> {x ..< x + 8 + s} = {}" if "(a, t) \<in> set (used_blocks 0 bs)" for a t
    proof -
      have b: "blk bs a False t" using that by (simp add: used_blocks_blk)
      have "(a, t) \<noteq> (c, s)"
      proof
        assume "(a, t) = (c, s)"
        then have "chunk_at bs 0 [] x False s" using b c by (auto simp: chunk_at_def)
        then show False using chunk_at_same(1) [OF opened_tiles [OF assms(1)] x] by blast
      qed
      then show ?thesis using blk_apart [OF b c(1)] c(2) by (auto simp: payload_def)
    qed
    then have "used_bytes bs \<inter> {x ..< x + 8 + s} = {}" unfolding used_bytes_def by (metis (no_types, lifting) UN_E disjoint_iff surj_pair)
    then show ?thesis using assms(2) by blast
  qed
  then have "kept U bs 0 []" by (auto simp: kept_def)
  then show ?thesis using assms(1) unfolding opened_def kstate_def by blast
qed

lemma tidy_append: "tidy (L @ (f, s) # R) \<longleftrightarrow> coalesced L \<and> coalesced R \<and> (L \<noteq> [] \<longrightarrow> \<not> (fst (last L) \<and> f))
    \<and> (R \<noteq> [] \<longrightarrow> \<not> (f \<and> fst (hd R)) \<and> \<not> fst (last R)) \<and> (R = [] \<longrightarrow> \<not> f)"
  by (cases R) (auto simp: tidy_def coalesced_append coalesced_Cons)

section \<open>Freeing\<close>

lemma RemoveFreeChunk_ok:
  assumes c: "chunks U {} h (L @ [(True, s)])" and cur: "current_heap_size h = 8 + extent (L @ [(True, s)])"
  defines "h' \<equiv> RemoveFreeChunkFromHeap (kheap_start + (8 + extent L)) h"
  shows "chunks U {} h' L" "kframe (- U) (kmem h) (kmem h')" "current_heap_size h' = 8 + extent L"
proof -
  let ?a = "8 + extent L"
  have at: "free_at (L @ [(True, s)]) ?a s" by (rule chunk_middle)
  have sz: "GetChunkSize (kmem h) (kheap_start + ?a) = s" by (rule chunk_size(1) [OF c])
  define h1 where "h1 = WeaveTwoChunksTogether (GetPrevAndNextFromFreeChunk (kmem h) (kheap_start + ?a)) (GetBucketIndexOfFreeChunk s) h"
  note u1 = unlink_chunk [OF c at, folded h1_def, simplified]
  have big: "?a + (8 + s) \<le> 1073741824" using chunks_bound [OF c] by simp
  have "u32 (s + 8) = s + 8" using big by (simp add: u32_id)
  moreover have "sub32 (8 + extent (L @ [(True, s)])) (s + 8) = ?a"
    using big by (simp add: sub32_id)
  ultimately have h': "h' = h1\<lparr>current_heap_size := ?a\<rparr>"
    unfolding h'_def RemoveFreeChunkFromHeap_def Let_def sz h1_def [symmetric] using u1(3) cur by simp
  have U: "U \<inter> {?a ..< ?a + extent [(True, s)]} = {}" using chunk_kept [OF c at] by (simp add: ac_simps)
  have "opened U {} h1 L (extent [(True, s)]) []"
    by (rule opened_open [where X = "{?a}", OF _ _ _ U]) (use u1(1) in auto)
  then obtain fls where st: "kstate U h1 L (extent [(True, s)]) [] fls"
    and all: "\<And>x s'. chunk_at L (extent [(True, s)]) [] x True s' \<Longrightarrow> x \<in> set (fls (GetBucketIndexOfFreeChunk s')) \<longleftrightarrow> x \<notin> {}"
    by (rule openedE) (rule that)
  have "kstate U h1 L 0 [] fls" by (rule grow_hole [OF st]) (use big in auto)
  then have "kstate U h' L 0 [] fls" by (simp add: h' kstate_def)
  then show "chunks U {} h' L" by (rule openedI) (use all in \<open>auto simp: chunk_at_def\<close>)
  show "kframe (- U) (kmem h) (kmem h')" "current_heap_size h' = 8 + extent L" using u1(2) by (simp_all add: h')
qed

lemma merge_left:
  assumes c: "chunks U {} h (L @ (True, s) # R)" and L: "coalesced L"
  defines "suffix \<equiv> sub64 (kheap_start + (8 + extent L)) 4"
  defines "p \<equiv> (if suffix \<ge> add64 kheap_start 8 \<and> \<not> IsOccupied (kmem h) suffix
     then (GetStartOfChunkFromSuffix (kmem h) suffix,
           CoalsceTwoChunks (GetStartOfChunkFromSuffix (kmem h) suffix) (kheap_start + (8 + extent L)) h)
     else (kheap_start + (8 + extent L), h))"
  shows "\<exists>L2 s2 h2. p = (kheap_start + (8 + extent L2), h2) \<and> chunks U {} h2 (L2 @ (True, s2) # R) \<and> extent L2 + s2 = extent L + s
    \<and> used_blocks 0 L2 = used_blocks 0 L \<and> coalesced L2 \<and> (L2 \<noteq> [] \<longrightarrow> \<not> fst (last L2))
    \<and> kframe (- U) (kmem h) (kmem h2) \<and> current_heap_size h2 = current_heap_size h"
proof (cases "L = []")
  case True
  have "\<not> kheap_start + 8 \<le> kheap_start + 4" by simp
  moreover have "suffix = kheap_start + 4" "add64 kheap_start 8 = kheap_start + 8"
    using kaddr(1) [of 0 8] by (simp_all add: suffix_def True)
  ultimately have "p = (kheap_start + (8 + extent L), h)" unfolding p_def by simp
  then show ?thesis using c True by (intro exI [of _ L] exI [of _ s] exI [of _ h]) simp
next
  case False
  then obtain L' f t where L': "L = L' @ [(f, t)]" by (metis append_butlast_last_id surj_pair)
  have c': "chunks U {} h (L' @ (f, t) # (True, s) # R)" using c by (simp add: L')
  have big: "8 + extent L + 8 + s \<le> 1073741824" using chunks_bound [OF c] by simp
  have suf: "suffix = kheap_start + (8 + extent L' + 4 + t)" using big by (simp add: suffix_def L')
  have far: "add64 kheap_start 8 \<le> suffix" using kaddr(1) [of 0 8] by (simp add: suf)
  note sz = chunk_size(3,4) [OF c', folded suf]
  show ?thesis
  proof (cases f)
    case False
    then have "p = (kheap_start + (8 + extent L), h)" using sz by (simp add: p_def)
    then show ?thesis using c L False L' by (intro exI [of _ L] exI [of _ s] exI [of _ h]) simp
  next
    case True
    have left: "GetStartOfChunkFromSuffix (kmem h) suffix = kheap_start + (8 + extent L')"
      using big by (simp add: GetStartOfChunkFromSuffix_def sz(1)) (simp add: suf L')
    have right: "kheap_start + (8 + extent L) = kheap_start + (8 + extent L' + 8 + t)" by (simp add: L')
    have p: "p = (kheap_start + (8 + extent L'), CoalsceTwoChunks (kheap_start + (8 + extent L')) (kheap_start + (8 + extent L' + 8 + t)) h)"
      using far sz(2) True unfolding p_def left right by simp
    have "chunks U {} h (L' @ (True, t) # (True, s) # R)" using c' True by simp
    note co = Coalsce_ok [OF this]
    have "used_blocks 0 L' = used_blocks 0 L" "coalesced L'" "L' \<noteq> [] \<longrightarrow> \<not> fst (last L')"
      using L True by (simp_all add: L' coalesced_append)
    moreover have "extent L' + (t + s + 8) = extent L + s" by (simp add: L')
    ultimately show ?thesis using co unfolding p by blast
  qed
qed

lemma merge_right:
  assumes c: "chunks U {} h (L @ (True, s) # R)" and R: "coalesced R" and cur: "current_heap_size h = 8 + extent (L @ (True, s) # R)"
  defines "prefix \<equiv> GetEndOfChunkFromStart (kheap_start + (8 + extent L)) s"
  defines "h2 \<equiv> (if GetOffsetFromHeapStart prefix < current_heap_size h \<and> \<not> IsOccupied (kmem h) prefix
     then CoalsceTwoChunks (kheap_start + (8 + extent L)) prefix h else h)"
  shows "\<exists>R2 s2. chunks U {} h2 (L @ (True, s2) # R2) \<and> s2 + extent R2 = s + extent R
    \<and> used_blocks (extent L + 8 + s2) R2 = used_blocks (extent L + 8 + s) R \<and> coalesced R2 \<and> (R2 \<noteq> [] \<longrightarrow> \<not> fst (hd R2))
    \<and> (R2 \<noteq> [] \<longrightarrow> R \<noteq> [] \<and> fst (last R2) = fst (last R))
    \<and> kframe (- U) (kmem h) (kmem h2) \<and> current_heap_size h2 = current_heap_size h"
proof -
  have big: "8 + extent L + 8 + s + extent R \<le> 1073741824" using chunks_bound [OF c] by simp
  have pre: "prefix = kheap_start + (8 + extent L + 8 + s)" using big by (simp add: prefix_def GetEndOfChunkFromStart_def)
  have off: "GetOffsetFromHeapStart prefix = 8 + extent L + 8 + s" unfolding pre by (rule kaddr(3)) (use big in simp)
  show ?thesis
  proof (cases R)
    case Nil
    then have "h2 = h" using cur off by (simp add: h2_def)
    then show ?thesis using c Nil by (intro exI [of _ R] exI [of _ s]) simp
  next
    case (Cons b R')
    obtain f t where b: "b = (f, t)" by (cases b)
    have c': "chunks U {} h ((L @ [(True, s)]) @ (f, t) # R')" using c by (simp add: Cons b)
    have occ: "IsOccupied (kmem h) prefix \<longleftrightarrow> \<not> f"
      using chunk_size(2) [OF c'] unfolding pre by (simp add: ac_simps)
    have in_heap: "GetOffsetFromHeapStart prefix < current_heap_size h" using off cur by (simp add: Cons b)
    show ?thesis
    proof (cases f)
      case False
      then have "h2 = h" using occ by (simp add: h2_def)
      then show ?thesis using c R False Cons b by (intro exI [of _ R] exI [of _ s]) simp
    next
      case True
      have h2: "h2 = CoalsceTwoChunks (kheap_start + (8 + extent L)) (kheap_start + (8 + extent L + 8 + s)) h"
        using in_heap occ True by (simp add: h2_def pre)
      have c'': "chunks U {} h (L @ (True, s) # (True, t) # R')" using c by (simp add: Cons b True)
      note co = Coalsce_ok [OF c'', folded h2]
      have "coalesced R'" "R' \<noteq> [] \<longrightarrow> \<not> fst (hd R')" using R True by (simp_all add: Cons b coalesced_Cons)
      then show ?thesis using co True
        by (intro exI [of _ R'] exI [of _ "s + t + 8"]) (auto simp: Cons b ac_simps)
    qed
  qed
qed

text \<open>The bytes of all chunks but one.\<close>

definition other_bytes :: "block list \<Rightarrow> nat \<Rightarrow> block list \<Rightarrow> nat set" where
  "other_bytes L s R = \<Union> (payload ` (set (used_blocks 0 L) \<union> set (used_blocks (extent L + 8 + s) R)))"

lemma used_range: "(x, t) \<in> set (used_blocks a bs) \<Longrightarrow> a \<le> x \<and> x + 8 + t \<le> a + extent bs"
proof (induction bs arbitrary: a)
  case (Cons b bs)
  then show ?case by (cases b) (fastforce split: if_splits)
qed simp

lemma other_bytes_apart: "other_bytes L s R \<inter> {8 + extent L ..< 8 + extent L + (8 + s)} = {}"
proof -
  have "payload b \<inter> {8 + extent L ..< 8 + extent L + (8 + s)} = {}"
    if "b \<in> set (used_blocks 0 L) \<union> set (used_blocks (extent L + 8 + s) R)" for b
    using that used_range [of "fst b" "snd b" 0 L] used_range [of "fst b" "snd b" "extent L + 8 + s" R]
    by (auto simp: payload_def)
  then show ?thesis unfolding other_bytes_def by blast
qed

lemma other_bytes_sub: "other_bytes L s R \<subseteq> used_bytes (L @ (f, s) # R)"
  by (auto simp: other_bytes_def used_bytes_def ac_simps)

lemma FreeOccupied_ok:
  assumes c: "chunks {} {} h (L @ (False, s) # R)" and td: "tidy (L @ (False, s) # R)"
    and cur: "current_heap_size h = 8 + extent (L @ (False, s) # R)"
  defines "h' \<equiv> FreeOccupiedChunk (kheap_start + (8 + extent L)) h" and "U \<equiv> other_bytes L s R"
  shows "\<exists>bs'. chunks {} {} h' bs' \<and> tidy bs' \<and> current_heap_size h' = 8 + extent bs' \<and> extent bs' \<le> extent (L @ (False, s) # R)
    \<and> used_blocks 0 bs' = used_blocks 0 L @ used_blocks (extent L + 8 + s) R \<and> kframe (- U) (kmem h) (kmem h')"
proof -
  let ?a = "kheap_start + (8 + extent L)"
  have td': "coalesced L" "coalesced R" "R \<noteq> [] \<Longrightarrow> \<not> fst (last R)" using td by (simp_all add: tidy_append)
  have cU: "chunks U {} h (L @ [(False, s)] @ R)" using chunks_keep [OF c other_bytes_sub] by (simp add: U_def)
  have s8: "8 \<le> s" using chunk_bucket(2) [OF c chunk_middle] .
  have sz: "GetChunkSize (kmem h) ?a = s" by (rule chunk_size(1) [OF c])
  have o: "opened U {} h L (extent [(False, s)]) R"
    by (rule opened_open [OF cU]) (use other_bytes_apart [of L s R] in \<open>auto simp: U_def ac_simps\<close>)
  define h1 where "h1 = CreateNewFreeChunkAt ?a s (GetBucketIndexOfFreeChunk s) h"
  note f = opened_free [OF o s8, folded h1_def, simplified]
  have c1: "chunks U {} h1 (L @ (True, s) # R)" using opened_close [OF f(1)] by simp
  obtain L2 s2 h2 where m2: "(if sub64 ?a 4 \<ge> add64 kheap_start 8 \<and> \<not> IsOccupied (kmem h1) (sub64 ?a 4)
       then (GetStartOfChunkFromSuffix (kmem h1) (sub64 ?a 4), CoalsceTwoChunks (GetStartOfChunkFromSuffix (kmem h1) (sub64 ?a 4)) ?a h1)
       else (?a, h1)) = (kheap_start + (8 + extent L2), h2)"
    and c2: "chunks U {} h2 (L2 @ (True, s2) # R)" and l2: "extent L2 + s2 = extent L + s" "used_blocks 0 L2 = used_blocks 0 L"
      "coalesced L2" "L2 \<noteq> [] \<longrightarrow> \<not> fst (last L2)"
    and f2: "kframe (- U) (kmem h1) (kmem h2)" "current_heap_size h2 = current_heap_size h1"
    using merge_left [OF c1 td'(1)] by blast
  have cur2: "current_heap_size h2 = 8 + extent (L2 @ (True, s2) # R)" using cur f(3) f2(2) l2(1) by simp
  have sz2: "GetChunkSize (kmem h2) (kheap_start + (8 + extent L2)) = s2" by (rule chunk_size(1) [OF c2])
  define pre where "pre = GetEndOfChunkFromStart (kheap_start + (8 + extent L2)) s2"
  define h3 where "h3 = (if GetOffsetFromHeapStart pre < current_heap_size h2 \<and> \<not> IsOccupied (kmem h2) pre
       then CoalsceTwoChunks (kheap_start + (8 + extent L2)) pre h2 else h2)"
  obtain R2 s3 where c3: "chunks U {} h3 (L2 @ (True, s3) # R2)" and r2: "s3 + extent R2 = s2 + extent R"
      "used_blocks (extent L2 + 8 + s3) R2 = used_blocks (extent L2 + 8 + s2) R" "coalesced R2" "R2 \<noteq> [] \<longrightarrow> \<not> fst (hd R2)"
      "R2 \<noteq> [] \<longrightarrow> R \<noteq> [] \<and> fst (last R2) = fst (last R)"
    and f3: "kframe (- U) (kmem h2) (kmem h3)" "current_heap_size h3 = current_heap_size h2"
    using merge_right [OF c2 td'(2) cur2, folded pre_def, folded h3_def] by blast
  have sz3: "GetChunkSize (kmem h3) (kheap_start + (8 + extent L2)) = s3" by (rule chunk_size(1) [OF c3])
  have big: "8 + extent (L2 @ (True, s3) # R2) \<le> 1073741824" by (rule chunks_bound [OF c3])
  have off: "u32 (GetOffsetFromHeapStart (kheap_start + (8 + extent L2)) + s3 + 8) = 8 + extent L2 + s3 + 8"
    using big kaddr(3) [of "8 + extent L2"] by (simp add: u32_id del: kaddr)
  have h': "h' = (if 8 + extent L2 + s3 + 8 = current_heap_size h3 then RemoveFreeChunkFromHeap (kheap_start + (8 + extent L2)) h3 else h3)"
    unfolding h'_def FreeOccupiedChunk_def Let_def sz h1_def [symmetric] m2 prod.case sz2 pre_def [symmetric] h3_def [symmetric] sz3 off by (rule refl)
  have cur3: "current_heap_size h3 = 8 + extent (L2 @ (True, s3) # R2)" using cur2 f3(2) r2(1) by simp
  have used: "used_blocks 0 L2 @ used_blocks (extent L2 + 8 + s3) R2 = used_blocks 0 L @ used_blocks (extent L + 8 + s) R"
  proof -
    have "extent L2 + 8 + s2 = extent L + 8 + s" using l2(1) by simp
    then show ?thesis using l2(2) r2(2) by (simp only:)
  qed
  have ext: "extent (L2 @ (True, s3) # R2) = extent (L @ (False, s) # R)" using l2(1) r2(1) by simp
  have fr: "kframe (- U) (kmem h) (kmem h3)" by (rule kframe_trans [OF f(2) kframe_trans [OF f2(1) f3(1)]])
  have weak: "chunks {} {} k bs" if "chunks U {} k bs" for k bs
    using that unfolding opened_def kstate_def kept_def by blast
  show ?thesis
  proof (cases "R2 = []")
    case True
    note rm = RemoveFreeChunk_ok [OF c3 [unfolded True]] 
    have h'': "h' = RemoveFreeChunkFromHeap (kheap_start + (8 + extent L2)) h3" using cur3 True by (simp add: h')
    note rm' = rm [OF cur3 [unfolded True], folded h'']
    have "tidy L2" using l2(3,4) by (simp add: tidy_def)
    moreover have "used_blocks 0 L2 = used_blocks 0 L @ used_blocks (extent L + 8 + s) R" using used True by simp
    moreover have "extent L2 \<le> extent (L @ (False, s) # R)" using ext by simp
    ultimately show ?thesis using weak [OF rm'(1)] rm'(2,3) kframe_trans [OF fr] by blast
  next
    case False
    have h'': "h' = h3" using cur3 False r2(3) by (cases R2) (auto simp: h')
    have "\<not> fst (last R2)" using False r2(5) td'(3) by simp
    then have "tidy (L2 @ (True, s3) # R2)" using l2(3,4) r2(3,4) False by (simp add: tidy_append)
    then show ?thesis using weak [OF c3] cur3 used ext fr unfolding h''
      by (intro exI [of _ "L2 @ (True, s3) # R2"]) simp
  qed
qed

end
