(* ===== verification/KMallocClient.thy ===== *)
theory KMallocClient
  imports KMallocOps Allocator
begin

text \<open>
  The kernel's heap as an allocator: \<open>kmalloc\<close> and \<open>kfree\<close> obey the laws of the interface, aligned
  allocation gives aligned memory of its own, the check of the heap succeeds, and once everything is freed
  the heap is empty again. \<open>kroom\<close> is what a request needs: chunks of the last bucket are only looked at
  one deep, since the next one is read from the wrong word.
\<close>

unbundle bit_operations_syntax

definition head_fits :: "nat \<Rightarrow> kheap \<Rightarrow> bool" where
  "head_fits n h \<longleftrightarrow> n \<le> 2 ^ 18 \<or> free_list h 15 = 0 \<or> n \<le> GetChunkSize (kmem h) (GetAddressByOffset (free_list h 15))"

definition kroom :: "nat \<Rightarrow> kheap \<Rightarrow> bool" where
  "kroom n h \<longleftrightarrow> current_heap_size h + 2 * n + 32 < heap_memory_limit \<and> head_fits n h"

section \<open>Searching the buckets\<close>

lemma head_chunk:
  assumes c: "chunks U {} h bs" and i: "bucket i" "free_list h i \<noteq> 0"
  obtains s where "free_at bs (free_list h i) s" "GetBucketIndexOfFreeChunk s = i"
    "GetChunkSize (kmem h) (GetAddressByOffset (free_list h i)) = s"
proof -
  obtain fls where st: "kstate U h bs 0 [] fls"
    using c by (rule openedE) (rule that)
  have "free_list h i = hd_or 0 (fls i)" using st i(1) by (simp add: kstate_def klists_def)
  then have "free_list h i \<in> set (fls i)" using i(2) hd_or_in [of "fls i" 0] by (cases "fls i") auto
  moreover have "klisted bs 0 [] fls" using st by (simp add: kstate_def)
  ultimately obtain s where s: "free_at bs (free_list h i) s" "GetBucketIndexOfFreeChunk s = i" using listed_chunk i(1) by metis
  have "kword (kmem h) (free_list h i) = ktag True s" by (rule chunk_at_facts(2) [OF opened_tiles [OF c] s(1)])
  moreover have "free_list h i \<le> 1073741824" using chunk_bucket(3) [OF c s(1)] by simp
  ultimately have "GetChunkSize (kmem h) (GetAddressByOffset (free_list h i)) = s" by (simp add: GetChunkSize_def flip: kword_def)
  with s show ?thesis by (rule that)
qed

lemma search_ok:
  assumes c: "chunks U {} h bs" and n: "8 \<le> n" "n < 2 ^ 31" and room: "head_fits n h"
    and range: "\<And>i. i \<in> set is \<Longrightarrow> bucket i \<and> GetBucketIndex n \<le> i"
  shows "search_buckets is n h = Some None \<or> (\<exists>i s. search_buckets is n h = Some (Some (free_list h i, i))
    \<and> free_at bs (free_list h i) s \<and> GetBucketIndexOfFreeChunk s = i \<and> n \<le> s)"
  using range
proof (induction "is")
  case (Cons i "is")
  have i: "bucket i" "GetBucketIndex n \<le> i" using Cons.prems by simp_all
  have ih: "search_buckets is n h = Some None \<or> (\<exists>i s. search_buckets is n h = Some (Some (free_list h i, i))
    \<and> free_at bs (free_list h i) s \<and> GetBucketIndexOfFreeChunk s = i \<and> n \<le> s)" by (rule Cons.IH) (use Cons.prems in simp)
  show ?case
  proof (cases "free_list h i = 0")
    case True
    then have "IterateFreeList (kmem h) (free_list h i) n = Some 0" by (subst IterateFreeList.simps) simp
    then show ?thesis using ih by simp
  next
    case False
    obtain s where s: "free_at bs (free_list h i) s" "GetBucketIndexOfFreeChunk s = i"
      "GetChunkSize (kmem h) (GetAddressByOffset (free_list h i)) = s" by (rule head_chunk [OF c i(1) False])
    have s8: "8 \<le> s" "s < 2 ^ 32" using chunk_bucket(2,3) [OF c s(1)] by auto
    have "n \<le> s"
    proof (cases "i = 15 \<and> \<not> n \<le> 2 ^ 18")
      case True
      then show ?thesis using room s(3) False by (simp add: head_fits_def)
    next
      case no: False
      then show ?thesis using bucket_fits [OF n s8 s(2) i(2)] by blast
    qed
    then have "IterateFreeList (kmem h) (free_list h i) n = Some (free_list h i)"
      using False s(3) by (subst IterateFreeList.simps) simp
    then show ?thesis using False s(1,2) \<open>n \<le> s\<close> by auto
  qed
qed simp

section \<open>Allocation\<close>

lemma free_split:
  assumes "free_at bs x s"
  obtains L R where "bs = L @ (True, s) # R" "x = 8 + extent L"
  using assms by (auto simp: chunk_at_def blk_def)

lemma SplitMemory_ok:
  assumes c: "chunks {} {} h (L @ (True, t) # R)" and td: "tidy (L @ (True, t) # R)" and n: "8 \<le> n" "n \<le> t"
    and cur: "current_heap_size h = 8 + extent (L @ (True, t) # R)" and room: "current_heap_size h + n + 24 < heap_memory_limit"
  defines "U \<equiv> used_bytes (L @ (True, t) # R)"
  defines "h' \<equiv> snd (SplitMemory (kheap_start + (8 + extent L)) n (GetBucketIndexOfFreeChunk t) h)"
  shows "fst (SplitMemory (kheap_start + (8 + extent L)) n (GetBucketIndexOfFreeChunk t) h) = kheap_start + (8 + extent L)"
    "\<exists>s M. n \<le> s \<and> chunks {} {} h' (L @ (False, s) # M @ R) \<and> tidy (L @ (False, s) # M @ R) \<and> s + extent M = t
      \<and> used_blocks (extent L + 8 + s) M = [] \<and> kframe (- U) (kmem h) (kmem h') \<and> current_heap_size h' = current_heap_size h"
proof -
  let ?a = "8 + extent L"
  have cU: "chunks U {} h (L @ (True, t) # R)" by (rule chunks_keep [OF c]) (simp add: U_def)
  have at: "free_at (L @ (True, t) # R) ?a t" by (rule chunk_middle)
  have sz: "GetChunkSize (kmem h) (kheap_start + ?a) = t" by (rule chunk_size(1) [OF c])
  have big: "8 + extent (L @ (True, t) # R) \<le> 1073741824" by (rule chunks_bound [OF c])
  define h1 where "h1 = WeaveTwoChunksTogether (GetPrevAndNextFromFreeChunk (kmem h) (kheap_start + ?a)) (GetBucketIndexOfFreeChunk t) h"
  note u = unlink_chunk [OF cU at, folded h1_def, simplified]
  define s where "s = (if t - n < 16 then t else n)"
  have s: "8 \<le> s" "8 + s \<le> extent [(True, t)]" "n \<le> s" "s \<le> n + 15" using n by (auto simp: s_def)
  have sub: "sub32 t n = t - n" using big n by (simp add: sub32_id)
  have "U \<inter> {?a ..< ?a + extent [(True, t)]} = {}" using chunk_kept [OF cU at] by (simp add: ac_simps)
  then have o: "opened U {} h1 L (extent [(True, t)]) R"
    by (intro opened_open [where X = "{?a}"]) (use u(1) in auto)
  have room1: "current_heap_size h1 + s + 8 < heap_memory_limit" using room s(4) u(3) by simp
  define h2 where "h2 = snd (CreateNewUsedChunkAt (kheap_start + ?a) s h1)"
  note us = opened_used [OF o s(1,2) room1, folded h2_def]
  have cur2: "current_heap_size h2 = current_heap_size h"
  proof -
    obtain fls where "kstate U h1 L (extent [(True, t)]) R fls" using o by (rule openedE) (rule that)
    from CreateNewUsedChunkAt_ok(4) [OF this s(1,2) room1] show ?thesis using u(3) cur by (simp add: h2_def)
  qed
  have sm: "SplitMemory (kheap_start + ?a) n (GetBucketIndexOfFreeChunk t) h = (if t = s then (kheap_start + ?a, h2)
     else (kheap_start + ?a, CreateNewFreeChunkAt (GetEndOfChunkFromStart (kheap_start + ?a) s) (sub32 (sub32 t s) 8)
             (GetBucketIndexOfFreeChunk (sub32 (sub32 t s) 8)) h2))"
    unfolding SplitMemory_def Let_def sz sub h1_def [symmetric] s_def [symmetric] h2_def [symmetric] by (rule refl)
  then show "fst (SplitMemory (kheap_start + ?a) n (GetBucketIndexOfFreeChunk t) h) = kheap_start + ?a" by simp
  have td': "coalesced L" "coalesced R" "R \<noteq> []" "\<not> fst (hd R)" "\<not> fst (last R)" using td by (auto simp: tidy_append)
  have weak: "chunks {} {} k bs" if "chunks U {} k bs" for k bs
    using that unfolding opened_def kstate_def kept_def by blast
  have fr: "kframe (- U) (kmem h) (kmem h2)" by (rule kframe_trans [OF u(2) us(2)])
  show "\<exists>s M. n \<le> s \<and> chunks {} {} h' (L @ (False, s) # M @ R) \<and> tidy (L @ (False, s) # M @ R) \<and> s + extent M = t
      \<and> used_blocks (extent L + 8 + s) M = [] \<and> kframe (- U) (kmem h) (kmem h') \<and> current_heap_size h' = current_heap_size h"
  proof (cases "t = s")
    case True
    have h': "h' = h2" using sm True by (simp add: h'_def)
    have "opened U {} h2 (L @ [(False, s)]) 0 R" using us(1) True by simp
    from opened_close [OF this] have "chunks {} {} h2 (L @ (False, s) # [] @ R)" by (intro weak) simp
    moreover have "tidy (L @ (False, s) # [] @ R)" using td' by (simp add: tidy_append)
    ultimately show ?thesis using s(3) True fr cur2 unfolding h' by (intro exI [of _ s] exI [of _ "[]"]) simp
  next
    case False
    then have sn: "s = n" "n + 16 \<le> t" by (auto simp: s_def split: if_splits)
    define r where "r = t - n - 8"
    have r: "8 \<le> r" "8 + r \<le> extent [(True, t)] - 8 - s" "extent [(True, t)] - 8 - s - 8 - r = 0" "sub32 (sub32 t s) 8 = r"
      using sn big by (simp_all add: r_def sub32_id)
    have e: "GetEndOfChunkFromStart (kheap_start + ?a) s = kheap_start + (8 + extent (L @ [(False, s)]))"
      using big sn by (simp add: GetEndOfChunkFromStart_def)
    define h3 where "h3 = CreateNewFreeChunkAt (kheap_start + (8 + extent (L @ [(False, s)]))) r (GetBucketIndexOfFreeChunk r) h2"
    have h': "h' = h3" using sm False unfolding h'_def h3_def e r(4) by simp
    note f = opened_free [OF us(1) r(1,2), folded h3_def, unfolded r(3)]
    have "chunks {} {} h3 (L @ (False, s) # [(True, r)] @ R)" using opened_close [OF f(1)] by (intro weak) simp
    moreover have "tidy (L @ (False, s) # [(True, r)] @ R)" using td' by (simp add: tidy_append coalesced_Cons)
    moreover have "s + extent [(True, r)] = t" using sn by (simp add: r_def)
    ultimately show ?thesis using s(3) kframe_trans [OF fr f(2)] f(3) cur2 unfolding h'
      by (intro exI [of _ s] exI [of _ "[(True, r)]"]) simp
  qed
qed

lemma append_used:
  assumes c: "chunks {} {} h bs" and td: "tidy bs" and n: "8 \<le> n"
    and cur: "current_heap_size h = 8 + extent bs" and room: "current_heap_size h + n + 8 < heap_memory_limit"
  defines "h' \<equiv> snd (CreateNewUsedChunkAt (kheap_start + (8 + extent bs)) n h)"
  shows "fst (CreateNewUsedChunkAt (kheap_start + (8 + extent bs)) n h) = kheap_start + (8 + extent bs + 4)"
    "chunks {} {} h' (bs @ [(False, n)])" "tidy (bs @ [(False, n)])" "kframe (- used_bytes bs) (kmem h) (kmem h')"
    "current_heap_size h' = 8 + extent (bs @ [(False, n)])"
proof -
  have "chunks (used_bytes bs) {} h bs" by (rule chunks_keep [OF c]) simp
  then obtain fls where st: "kstate (used_bytes bs) h bs 0 [] fls"
    and all: "\<And>x s. free_at bs x s \<Longrightarrow> x \<in> set (fls (GetBucketIndexOfFreeChunk s)) \<longleftrightarrow> x \<notin> {}"
    by (rule openedE) (rule that)
  have "used_bytes bs \<inter> {8 + extent bs ..< 8 + extent bs + (8 + n)} = {}"
    using used_range [of _ _ 0 bs] by (fastforce simp: used_bytes_def payload_def)
  then have o: "kstate (used_bytes bs) h bs (8 + n) [] fls"
    by (intro grow_hole [OF st]) (use room cur heap_limit in auto)
  note k = CreateNewUsedChunkAt_ok [OF o n le_refl room, folded h'_def]
  have "opened (used_bytes bs) {} h' (bs @ [(False, n)]) 0 []"
  proof (rule openedI)
    show "kstate (used_bytes bs) h' (bs @ [(False, n)]) 0 [] fls" using k(2) by simp
    fix x s assume "chunk_at (bs @ [(False, n)]) 0 [] x True s"
    then have "free_at bs x s" by (auto simp: chunk_at_def)
    then show "x \<in> set (fls (GetBucketIndexOfFreeChunk s)) \<longleftrightarrow> x \<notin> {}" by (rule all)
  qed
  then show "chunks {} {} h' (bs @ [(False, n)])" unfolding opened_def kstate_def kept_def by blast
  show "fst (CreateNewUsedChunkAt (kheap_start + (8 + extent bs)) n h) = kheap_start + (8 + extent bs + 4)"
    "kframe (- used_bytes bs) (kmem h) (kmem h')" by (rule k)+
  show "tidy (bs @ [(False, n)])" using td by (simp add: tidy_append) (simp add: tidy_def)
  show "current_heap_size h' = 8 + extent (bs @ [(False, n)])" using k(4) cur by simp
qed

lemma kmalloc_ok:
  assumes i: "kinv h bs" and n: "0 < n" and room: "kroom n h"
  shows "\<exists>L s R h' bs'. kmalloc n h = Some (kheap_start + (8 + extent L + 4), h') \<and> kinv h' bs' \<and> n \<le> s
    \<and> used_blocks 0 bs = used_blocks 0 L @ used_blocks (extent L + 8 + s) R \<and> bs' = L @ (False, s) # R
    \<and> (L \<noteq> [] \<longrightarrow> \<not> fst (last L)) \<and> kframe (- used_bytes bs) (kmem h) (kmem h')"
proof -
  have c: "chunks {} {} h bs" and td: "tidy bs" and cur: "current_heap_size h = 8 + extent bs" and lim: "8 + extent bs < heap_memory_limit"
    using i by (simp_all add: kinv_def)
  define k where "k = (if n < 8 then 8 else n)"
  have room': "current_heap_size h + 2 * n + 32 < heap_memory_limit" "head_fits n h" using room by (simp_all add: kroom_def)
  have small: "2 * n < 1073741824" using room'(1) heap_limit by simp
  have k: "8 \<le> k" "k < 2 ^ 31" "n \<le> k" "u32 k = k" using small by (auto simp: k_def u32_id)
  have rk: "current_heap_size h + 2 * k + 8 < heap_memory_limit" "current_heap_size h + k + 24 < heap_memory_limit"
    using room'(1) n by (auto simp: k_def)
  have fit: "head_fits k h" using room'(2) by (auto simp: k_def head_fits_def)
  have km: "kmalloc n h = GetMemoryFromBucket (GetBucketIndex k) k h"
    using n k(4) by (simp add: kmalloc_def k_def Let_def)
  have "bucket i \<and> GetBucketIndex k \<le> i" if "i \<in> set [GetBucketIndex k .. NUM_BUCKETS - 1]" for i
    using that bucket_range [OF k(1)] by (auto simp: bucket_def NUM_BUCKETS_def)
  from search_ok [OF c k(1,2) fit this] consider
    (none) "search_buckets [GetBucketIndex k .. NUM_BUCKETS - 1] k h = Some None"
    | (found) i t where "search_buckets [GetBucketIndex k .. NUM_BUCKETS - 1] k h = Some (Some (free_list h i, i))"
      "free_at bs (free_list h i) t" "GetBucketIndexOfFreeChunk t = i" "k \<le> t" by blast
  then show ?thesis
  proof cases
    case none
    define p where "p = RoundUpNearestPowerOfTwo k"
    have p: "k \<le> p" "p < 2 * k" unfolding p_def RoundUpNearestPowerOfTwo_def using round_up [of k] k(1,2) by auto
    have p32: "u32 p = p" using p(2) rk(1) heap_limit by (simp add: u32_id)
    have roomp: "current_heap_size h + p + 8 < heap_memory_limit" using p(2) rk(1) by simp
    define a where "a = CreateNewUsedChunkAt (kheap_start + (8 + extent bs)) p h"
    note au = append_used [OF c td _ cur roomp, folded a_def]
    have p8: "8 \<le> p" using k(1) p(1) by simp
    have "GetAddressByOffset (current_heap_size h) = kheap_start + (8 + extent bs)" using cur chunks_bound [OF c] by simp
    then have "kmalloc n h = Some a"
      unfolding km GetMemoryFromBucket_def none p_def [symmetric] p32 a_def by simp
    moreover have "a = (kheap_start + (8 + extent bs + 4), snd a)" using au(1) [OF p8] by (metis prod.collapse)
    moreover have "kinv (snd a) (bs @ [(False, p)])"
      unfolding kinv_def using au(2,3,5) [OF p8] roomp cur by simp
    ultimately show ?thesis using au(4) [OF p8] k(3) p(1) td unfolding tidy_def
      by (intro exI [of _ bs] exI [of _ p] exI [of _ "[]"] exI [of _ "snd a"] exI [of _ "bs @ [(False, p)]"]) simp
  next
    case found
    obtain L R where bs: "bs = L @ (True, t) # R" and x: "free_list h i = 8 + extent L" using free_split [OF found(2)] .
    have addr: "GetAddressByOffset (8 + extent L) = kheap_start + (8 + extent L)" using chunks_bound [OF c] by (simp add: bs)
    define q where "q = SplitMemory (kheap_start + (8 + extent L)) k (GetBucketIndexOfFreeChunk t) h"
    note sp = SplitMemory_ok [OF c [unfolded bs] td [unfolded bs] k(1) found(4) cur [unfolded bs] rk(2), folded bs, folded q_def]
    obtain s M where s: "k \<le> s" "chunks {} {} (snd q) (L @ (False, s) # M @ R)" "tidy (L @ (False, s) # M @ R)" "s + extent M = t"
      "used_blocks (extent L + 8 + s) M = []" "kframe (- used_bytes bs) (kmem h) (kmem (snd q))" "current_heap_size (snd q) = current_heap_size h"
      using sp(2) by blast
    have "GetMemoryBlockAddressFromChunkStart (kheap_start + (8 + extent L)) = kheap_start + (8 + extent L + 4)"
      using chunks_bound [OF c] by (simp add: GetMemoryBlockAddressFromChunkStart_def bs)
    have "kmalloc n h = Some (kheap_start + (8 + extent L + 4), snd q)"
    proof -
      have "SplitMemory (GetAddressByOffset (free_list h i)) k i h = q" unfolding q_def x addr found(3) by (rule refl)
      moreover have "q = (kheap_start + (8 + extent L), snd q)" using sp(1) by (metis prod.collapse)
      ultimately have "SplitMemory (GetAddressByOffset (free_list h i)) k i h = (kheap_start + (8 + extent L), snd q)" by metis
      then show ?thesis
        using \<open>GetMemoryBlockAddressFromChunkStart _ = _\<close> unfolding km GetMemoryFromBucket_def found(1) by simp
    qed
    moreover have "kinv (snd q) (L @ (False, s) # M @ R)"
      using s lim cur by (auto simp: kinv_def bs)
    moreover have "used_blocks 0 bs = used_blocks 0 L @ used_blocks (extent L + 8 + s) (M @ R)"
    proof -
      have "extent L + 8 + t = extent L + 8 + s + extent M" using s(4) by simp
      then show ?thesis using s(5) by (simp add: bs add.assoc)
    qed
    moreover have "L \<noteq> [] \<longrightarrow> \<not> fst (last L)" using td by (simp add: bs tidy_append)
    ultimately show ?thesis using s(1,6) k(3)
      by (intro exI [of _ L] exI [of _ s] exI [of _ "M @ R"] exI [of _ "snd q"] exI [of _ "L @ (False, s) # M @ R"]) simp
  qed
qed

lemma kfree_ok:
  assumes i: "kinv h (L @ (False, s) # R)"
  shows "\<exists>bs'. kinv (kfree (kheap_start + (8 + extent L + 4)) h) bs'
    \<and> used_blocks 0 bs' = used_blocks 0 L @ used_blocks (extent L + 8 + s) R
    \<and> kframe (- other_bytes L s R) (kmem h) (kmem (kfree (kheap_start + (8 + extent L + 4)) h))"
proof -
  have c: "chunks {} {} h (L @ (False, s) # R)" and td: "tidy (L @ (False, s) # R)"
    and cur: "current_heap_size h = 8 + extent (L @ (False, s) # R)" and lim: "8 + extent (L @ (False, s) # R) < heap_memory_limit"
    using i by (simp_all add: kinv_def)
  have "sub64 (kheap_start + (8 + extent L + 4)) 4 = kheap_start + (8 + extent L)" using chunks_bound [OF c] by simp
  then have k: "kfree (kheap_start + (8 + extent L + 4)) h = FreeOccupiedChunk (kheap_start + (8 + extent L)) h" by (simp add: kfree_def)
  show ?thesis using FreeOccupied_ok [OF c td cur] lim unfolding k kinv_def by (meson add_le_mono le_less_trans le_refl)
qed

section \<open>Aligned allocation\<close>

lemma power_of_two: "j < 31 \<Longrightarrow> IsPowerOfTwo (u32 (2 ^ j))"
proof -
  assume j: "j < 31"
  then have lt: "(2 :: nat) ^ j < 2 ^ 31" by (rule power_strict_increasing) simp
  have "sub32 (2 ^ j) 1 = mask j" using lt by (simp add: sub32_id mask_eq_exp_minus_1)
  moreover have "u32 (2 ^ j) = 2 ^ j" using lt by (simp add: u32_id)
  moreover have "(2 :: nat) ^ j AND mask j = 0" by (rule bit_eqI) (auto simp: bit_and_iff bit_exp_iff bit_mask_iff)
  ultimately show ?thesis by (simp add: IsPowerOfTwo_def)
qed

lemma opened_fill:
  assumes o: "opened {} X h L g R" and s: "8 \<le> s" "8 + s \<le> g"
    and fr: "kframe {8 + extent L ..< 8 + extent L + g} (kmem h) m"
    and w: "kword m (8 + extent L) = ktag False s" "kword m (8 + extent L + 4 + s) = ktag False s"
  shows "opened {} X (h\<lparr>kmem := m\<rparr>) (L @ [(False, s)]) (g - 8 - s) R"
proof -
  obtain fls where st: "kstate {} h L g R fls"
    and all: "\<And>x s. chunk_at L g R x True s \<Longrightarrow> x \<in> set (fls (GetBucketIndexOfFreeChunk s)) \<longleftrightarrow> x \<notin> X"
    using o by (rule openedE) (rule that)
  show ?thesis by (rule openedI [OF fill(1) [OF st s fr w]]) (use all chunk_at_fill [OF s(2)] in auto)
qed

text \<open>The used chunk on the left takes the bytes before the aligned address.\<close>

lemma shift_border:
  assumes c: "chunks {} {} h (L @ (False, t) # (False, s) # R)" and d: "0 < d" "d + 8 \<le> s"
  defines "x \<equiv> 8 + extent L" and "y \<equiv> 8 + extent L + 8 + t"
  defines "h1 \<equiv> grow_left (kheap_start + y) d h"
  defines "m2 \<equiv> put_tag False (kheap_start + (y + d)) (s - d) (kmem h1)"
  defines "m3 \<equiv> put_tag False (kheap_start + (y + 4 + s)) (s - d) m2"
  shows "chunks {} {} (h\<lparr>kmem := m3\<rparr>) (L @ (False, t + d) # (False, s - d) # R)"
    "h1 = h\<lparr>kmem := kmem h1\<rparr>" "kframe ({x ..< x + 4} \<union> {y - 4 ..< y + 8 + s}) (kmem h) m3"
proof -
  let ?M = "[(False, t), (False, s)]"
  have c1: "chunks {} {} h ((L @ [(False, t)]) @ (False, s) # R)" using c by simp
  have big: "y + 8 + s \<le> 1073741824" using chunks_bound [OF c] by (simp add: y_def)
  have sz: "GetChunkSize (kmem h) (kheap_start + x) = t" "kword (kmem h) x = ktag False t"
    "GetChunkSize (kmem h) (kheap_start + (x + 4 + t)) = t"
    using chunk_size(1,3) [OF c] chunk_at_facts(2) [OF opened_tiles [OF c] chunk_middle] by (simp_all add: x_def)
  have t8: "8 \<le> t" using chunk_bucket(2) [OF c chunk_middle] .
  define m0 where "m0 = SetChunkSize (kheap_start + x) (t + d) (kmem h)"
  define m1 where "m1 = put_tag False (kheap_start + (x + 4 + (t + d))) (t + d) m0"
  have td31: "t + d < 2147483648" "s - d < 2147483648" using big d by (simp_all add: y_def)
  have f0: "kframe {x ..< x + 4} (kmem h) m0" unfolding m0_def by (rule kframe_size)
  have w0: "kword m0 x = ktag False (t + d)" unfolding m0_def
    by (simp add: SetChunkSize_word [OF td31(1)] sz(2) ktag_def)
  then have occ: "IsOccupied m0 (kheap_start + x)" by (simp add: occupied_word ktag_def)
  have h1: "h1 = h\<lparr>kmem := m1\<rparr>"
  proof -
    have suf: "sub64 (kheap_start + y) 4 = kheap_start + (x + 4 + t)" using big by (simp add: x_def y_def)
    have far: "add64 kheap_start 8 \<le> kheap_start + (x + 4 + t)" using kaddr(1) [of 0 8] by (simp add: x_def)
    have left: "GetStartOfChunkFromSuffix (kmem h) (kheap_start + (x + 4 + t)) = kheap_start + x"
      using big by (simp add: GetStartOfChunkFromSuffix_def sz(3)) (simp add: y_def x_def)
    have sum: "u32 (add64 t d) = t + d" using td31(1) by (simp add: add64_id u32_id)
    have s2: "GetSuffixBlockAddressFromChunkStart (kheap_start + x) (t + d) = kheap_start + (x + 4 + (t + d))"
      using big d by (simp add: GetSuffixBlockAddressFromChunkStart_def x_def y_def ac_simps)
    show ?thesis unfolding h1_def grow_left_def Let_def suf left sz(1) sum s2 m0_def [symmetric] m1_def put_tag_def
      using far occ by simp
  qed
  then show "h1 = h\<lparr>kmem := kmem h1\<rparr>" by simp
  have e: "x + 4 + (t + d) = y + d - 4" "x + 8 + (t + d) = y + d" by (simp_all add: x_def y_def)
  have f1: "kframe {y + d - 4 ..< y + d} m0 m1" "kword m1 (y + d - 4) = ktag False (t + d)"
    using put_tag [OF td31(1), where f = False and x = "y + d - 4" and m = m0] unfolding m1_def e(1) by (simp_all add: y_def add.assoc)
  have f2: "kframe {y + d ..< y + d + 4} m1 m2" "kword m2 (y + d) = ktag False (s - d)"
    unfolding m2_def h1 using put_tag [OF td31(2)] by auto
  have f3: "kframe {y + 4 + s ..< y + 4 + s + 4} m2 m3" "kword m3 (y + 4 + s) = ktag False (s - d)"
    unfolding m3_def using put_tag [OF td31(2)] by blast+
  have fr1: "kframe {x ..< y + d} (kmem h) m1"
    by (rule kframe_trans [OF kframe_mono [OF f0] kframe_mono [OF f1(1)]]) (use t8 in \<open>auto simp: x_def y_def\<close>)
  have fr2: "kframe {y + d ..< y + 8 + s} m1 m3"
    by (rule kframe_trans [OF kframe_mono [OF f2(1)] kframe_mono [OF f3(1)]]) (use d in auto)
  have w1: "kword m1 x = ktag False (t + d)" using w0 kframe_word [OF f1(1), of x] by (simp add: x_def y_def)
  have w3: "kword m3 (y + d) = ktag False (s - d)" using f2(2) kframe_word [OF f3(1), of "y + d"] d by simp
  have o: "opened {} {} h L (extent ?M) R"
    by (rule opened_open [where X = "{}"]) (use c in auto)
  have o1: "opened {} {} (h\<lparr>kmem := m1\<rparr>) (L @ [(False, t + d)]) (extent ?M - 8 - (t + d)) R"
  proof (rule opened_fill [OF o])
    show "8 \<le> t + d" "8 + (t + d) \<le> extent ?M" using t8 d by simp_all
    show "kframe {8 + extent L ..< 8 + extent L + extent ?M} (kmem h) m1"
      by (rule kframe_mono [OF fr1]) (use d in \<open>auto simp: x_def y_def\<close>)
    show "kword m1 (8 + extent L) = ktag False (t + d)" using w1 by (simp add: x_def)
    have "8 + extent L + 4 + (t + d) = y + d - 4" by (simp add: y_def)
    then show "kword m1 (8 + extent L + 4 + (t + d)) = ktag False (t + d)" using f1(2) by simp
  qed
  have pos: "8 + extent (L @ [(False, t + d)]) = y + d" by (simp add: y_def)
  have g: "extent ?M - 8 - (t + d) = 8 + (s - d)" using d by simp
  have "opened {} {} ((h\<lparr>kmem := m1\<rparr>)\<lparr>kmem := m3\<rparr>) ((L @ [(False, t + d)]) @ [(False, s - d)]) (8 + (s - d) - 8 - (s - d)) R"
  proof (rule opened_fill [OF o1 [unfolded g]])
    show "8 \<le> s - d" "8 + (s - d) \<le> 8 + (s - d)" using d by simp_all
    have "{y + d ..< y + d + (8 + (s - d))} = {y + d ..< y + 8 + s}" using d by (simp add: add.assoc)
    then show "kframe {8 + extent (L @ [(False, t + d)]) ..< 8 + extent (L @ [(False, t + d)]) + (8 + (s - d))} (kmem (h\<lparr>kmem := m1\<rparr>)) m3"
      unfolding pos using fr2 by simp
    show "kword m3 (8 + extent (L @ [(False, t + d)])) = ktag False (s - d)" unfolding pos by (rule w3)
    have "y + d + 4 + (s - d) = y + 4 + s" using d by (simp add: add.assoc)
    then show "kword m3 (8 + extent (L @ [(False, t + d)]) + 4 + (s - d)) = ktag False (s - d)" unfolding pos using f3(2) by (simp only:)
  qed
  from opened_close [OF this [simplified diff_diff_left diff_self_eq_0]] show "chunks {} {} (h\<lparr>kmem := m3\<rparr>) (L @ (False, t + d) # (False, s - d) # R)" by simp
  show "kframe ({x ..< x + 4} \<union> {y - 4 ..< y + 8 + s}) (kmem h) m3"
    by (rule kframe_trans [OF kframe_mono [OF f0] kframe_trans [OF kframe_mono [OF f1(1)] kframe_mono [OF fr2]]])
      (use d in \<open>auto simp: y_def\<close>)
qed

section \<open>The laws of the interface\<close>

definition kblock :: "nat \<times> nat \<Rightarrow> nat \<times> nat" where
  "kblock b = (kheap_start + (8 + fst b + 4), snd b)"

definition kernel_holds :: "kheap \<Rightarrow> (nat \<times> nat) set \<Rightarrow> bool" where
  "kernel_holds h B \<longleftrightarrow> (\<exists>bs. kinv h bs \<and> B = kblock ` set (used_blocks 0 bs))"

definition kstore :: "nat \<Rightarrow> 8 word \<Rightarrow> kheap \<Rightarrow> kheap" where
  "kstore x v h = h\<lparr>kmem := (kmem h)(x := v)\<rparr>"

lemma kblock_inj: "kblock b = kblock c \<longleftrightarrow> b = c"
  by (cases b; cases c) (auto simp: kblock_def)

lemma kframe_same_bytes:
  assumes "kframe S m m'" "\<And>b. b \<in> set us \<Longrightarrow> payload b \<inter> S = {}"
  shows "same_bytes m m' (kblock ` set us)"
  unfolding same_bytes_def
proof (intro allI impI)
  fix q k i assume "(q, k) \<in> kblock ` set us" "i < k"
  then obtain b where b: "b \<in> set us" "q = kheap_start + (8 + fst b + 4)" "k = snd b" by (auto simp: kblock_def)
  have "8 + fst b + 4 + i \<in> payload b" using b(3) \<open>i < k\<close> by (simp add: payload_def)
  then have "8 + fst b + 4 + i \<notin> S" using assms(2) [OF b(1)] by auto
  then show "m' (q + i) = m (q + i)" using assms(1) b(2) unfolding kframe_def by (simp add: add.assoc)
qed

lemma kframe_used: "kframe (- used_bytes bs) m m' \<Longrightarrow> same_bytes m m' (kblock ` set (used_blocks 0 bs))"
  by (erule kframe_same_bytes) (auto simp: used_bytes_def)

lemma used_split:
  assumes "kinv h bs" "(a, s) \<in> set (used_blocks 0 bs)"
  obtains L R where "bs = L @ (False, s) # R" "a = extent L"
    "set (used_blocks 0 L @ used_blocks (extent L + 8 + s) R) = set (used_blocks 0 bs) - {(a, s)}"
proof -
  obtain L R where bs: "bs = L @ (False, s) # R" "a = extent L"
    using assms(2) by (auto simp: used_blocks_blk blk_def)
  have "distinct (used_blocks 0 bs)" using used_blocks_distinct [of 0 bs] by (simp add: distinct_map)
  then have "set (used_blocks 0 L @ used_blocks (extent L + 8 + s) R) = set (used_blocks 0 bs) - {(a, s)}"
    by (auto simp: bs)
  with bs show ?thesis by (rule that)
qed

lemma kernel_alloc_law:
  assumes "kernel_holds h B" "0 < n" "kroom n h"
  shows "\<exists>p s h'. kmalloc n h = Some (p, h') \<and> kernel_holds h' (insert (p, s) B) \<and> n \<le> s \<and> p \<notin> fst ` B
    \<and> same_bytes (kmem h) (kmem h') B"
proof -
  obtain bs where bs: "kinv h bs" "B = kblock ` set (used_blocks 0 bs)" using assms(1) by (auto simp: kernel_holds_def)
  obtain L s R h' where k: "kmalloc n h = Some (kheap_start + (8 + extent L + 4), h')" "kinv h' (L @ (False, s) # R)" "n \<le> s"
    "used_blocks 0 bs = used_blocks 0 L @ used_blocks (extent L + 8 + s) R" "kframe (- used_bytes bs) (kmem h) (kmem h')"
    using kmalloc_ok [OF bs(1) assms(2,3)] by blast
  have "kernel_holds h' (insert (kheap_start + (8 + extent L + 4), s) B)"
    unfolding kernel_holds_def by (rule exI [of _ "L @ (False, s) # R"]) (use k(2,4) in \<open>auto simp: bs(2) kblock_def\<close>)
  moreover have "kheap_start + (8 + extent L + 4) \<notin> fst ` B"
    using used_blocks_distinct [of 0 "L @ (False, s) # R"] k(4) by (auto simp: bs(2) kblock_def image_iff)
  ultimately show ?thesis using k(1,3) kframe_used [OF k(5)] bs(2) by blast
qed

lemma kernel_dealloc_law:
  assumes "kernel_holds h B" "(p, s) \<in> B"
  shows "kernel_holds (kfree p h) (B - {(p, s)}) \<and> same_bytes (kmem h) (kmem (kfree p h)) (B - {(p, s)})"
proof -
  obtain bs where bs: "kinv h bs" "B = kblock ` set (used_blocks 0 bs)" using assms(1) by (auto simp: kernel_holds_def)
  obtain a where a: "(a, s) \<in> set (used_blocks 0 bs)" "p = kheap_start + (8 + a + 4)" using assms(2) by (auto simp: bs(2) kblock_def)
  obtain L R where l: "bs = L @ (False, s) # R" "a = extent L"
    "set (used_blocks 0 L @ used_blocks (extent L + 8 + s) R) = set (used_blocks 0 bs) - {(a, s)}"
    by (rule used_split [OF bs(1) a(1)])
  obtain bs' where f: "kinv (kfree p h) bs'" "used_blocks 0 bs' = used_blocks 0 L @ used_blocks (extent L + 8 + s) R"
    "kframe (- other_bytes L s R) (kmem h) (kmem (kfree p h))"
    using kfree_ok [OF bs(1) [unfolded l(1)]] unfolding a(2) l(2) by blast
  have B': "B - {(p, s)} = kblock ` set (used_blocks 0 bs')"
  proof -
    have "inj kblock" by (rule injI) (simp add: kblock_inj)
    moreover have "{(p, s)} = kblock ` {(a, s)}" by (simp add: kblock_def a(2))
    ultimately show ?thesis unfolding bs(2) f(2) l(3) by (simp add: image_set_diff)
  qed
  have "same_bytes (kmem h) (kmem (kfree p h)) (kblock ` set (used_blocks 0 bs'))"
    by (rule kframe_same_bytes [OF f(3)]) (auto simp: f(2) other_bytes_def)
  then show ?thesis using f(1) unfolding B' kernel_holds_def by blast
qed

text \<open>A store in the memory of a used chunk keeps the invariant.\<close>

lemma chunks_frame:
  assumes c: "chunks {} {} h bs" and a: "(a, s) \<in> set (used_blocks 0 bs)" and fr: "kframe (payload (a, s)) (kmem h) m"
  shows "chunks {} {} (h\<lparr>kmem := m\<rparr>) bs"
proof -
  obtain fls where st: "kstate {} h bs 0 [] fls"
    and all: "\<And>x s. free_at bs x s \<Longrightarrow> x \<in> set (fls (GetBucketIndexOfFreeChunk s)) \<longleftrightarrow> x \<notin> {}"
    using c by (rule openedE) (rule that)
  have t: "ktiles (kmem h) bs 0 []" and ls: "klists (kmem h) (free_list h) fls" and ld: "klisted bs 0 [] fls" and kp: "kept {} bs 0 []"
    using st by (simp_all add: kstate_def)
  have at: "chunk_at bs 0 [] (8 + a) False s" using a by (auto simp: chunk_at_def used_blocks_blk)
  have "ktiles m bs 0 []"
  proof (rule ktiles_frame [OF t fr])
    fix z assume "z \<in> payload (a, s)"
    then have "8 + a + 4 \<le> z" "z < 8 + a + 4 + s" by (simp_all add: payload_def)
    then show "(8 + extent bs \<le> z \<and> z < 8 + extent bs + 0) \<or> (\<exists>x f s. chunk_at bs 0 [] x f s \<and> x + 4 \<le> z \<and> z < x + 4 + s)"
      using at by blast
  qed
  moreover have "klists m (free_list h) fls"
  proof (rule klists_same [OF ls])
    fix j x assume j: "bucket j" "x \<in> set (fls j)"
    obtain r where r: "free_at bs x r" using listed_chunk [OF ld j] by metis
    have "8 + a + 8 + s \<le> x \<or> x + 8 + r \<le> 8 + a"
      using chunk_at_apart [OF r at] chunk_at_same(1) [OF t r] at by fastforce
    then have out: "{x + 4 ..< x + 12} \<inter> payload (a, s) = {}"
      using chunk_at_facts(1) [OF t r] by (auto simp: payload_def)
    have "{x + 4 ..< x + 4 + 4} \<subseteq> {x + 4 ..< x + 12}" "{x + 8 ..< x + 8 + 4} \<subseteq> {x + 4 ..< x + 12}" by auto
    then show "kprev m x = kprev (kmem h) x \<and> knext m x = knext (kmem h) x"
      using out unfolding kprev_def knext_def by (blast intro: kframe_word [OF fr])
  qed
  ultimately have "kstate {} (h\<lparr>kmem := m\<rparr>) bs 0 [] fls" using ld kp by (simp add: kstate_def)
  then show ?thesis by (rule openedI) (rule all)
qed

lemma kernel_store_law:
  assumes "kernel_holds h B" "(p, s) \<in> B" "i < s"
  shows "kernel_holds (kstore (p + i) v h) B"
proof -
  obtain bs where bs: "kinv h bs" "B = kblock ` set (used_blocks 0 bs)" using assms(1) by (auto simp: kernel_holds_def)
  obtain a where a: "(a, s) \<in> set (used_blocks 0 bs)" "p = kheap_start + (8 + a + 4)" using assms(2) by (auto simp: bs(2) kblock_def)
  have "kframe (payload (a, s)) (kmem h) ((kmem h)(p + i := v))"
    using assms(3) by (auto simp: kframe_def payload_def a(2))
  from chunks_frame [OF _ a(1) this] have "kinv (kstore (p + i) v h) bs" using bs(1) by (simp add: kinv_def kstore_def)
  then show ?thesis unfolding kernel_holds_def using bs(2) by blast
qed

lemma kernel_apart_law:
  assumes "kernel_holds h B" "b \<in> B" "c \<in> B" "b \<noteq> c"
  shows "apart b c \<and> fst b \<noteq> fst c"
proof -
  obtain bs where bs: "kinv h bs" "B = kblock ` set (used_blocks 0 bs)" using assms(1) by (auto simp: kernel_holds_def)
  obtain x y where xy: "x \<in> set (used_blocks 0 bs)" "y \<in> set (used_blocks 0 bs)" "b = kblock x" "c = kblock y"
    using assms(2,3) by (auto simp: bs(2))
  have "blk bs (fst x) False (snd x)" "blk bs (fst y) False (snd y)" "x \<noteq> y"
    using xy assms(4) by (auto simp flip: used_blocks_blk)
  then have "fst x + 8 + snd x \<le> fst y \<or> fst y + 8 + snd y \<le> fst x" using blk_apart by (metis prod.collapse)
  then show ?thesis by (auto simp: xy(3,4) kblock_def apart_def)
qed

interpretation kernel_heap: allocator kmalloc kfree kmem kstore kernel_holds kroom
proof unfold_locales
  show "\<exists>p s h'. kmalloc n h = Some (p, h') \<and> kernel_holds h' (insert (p, s) B) \<and> n \<le> s \<and> p \<notin> fst ` B \<and> same_bytes (kmem h) (kmem h') B"
    if "kernel_holds h B" "0 < n" "kroom n h" for h B n using that by (rule kernel_alloc_law)
  show "kernel_holds (kfree p h) (B - {(p, s)}) \<and> same_bytes (kmem h) (kmem (kfree p h)) (B - {(p, s)})"
    if "kernel_holds h B" "(p, s) \<in> B" for h B p s using that by (rule kernel_dealloc_law)
  show "kernel_holds (kstore (p + i) v h) B" if "kernel_holds h B" "(p, s) \<in> B" "i < s" for h B p s i v
    using that by (rule kernel_store_law)
  show "apart b c \<and> fst b \<noteq> fst c" if "kernel_holds h B" "b \<in> B" "c \<in> B" "b \<noteq> c" for h B b c
    using that by (rule kernel_apart_law)
qed

end
