(* ===== verification/KMallocProps.thy ===== *)
theory KMallocProps
  imports KMallocClient
begin

text \<open>
  Aligned allocation, and the properties of the kernel's heap along every run of allocations, releases and
  stores of the kernel.
\<close>

unbundle bit_operations_syntax

section \<open>Aligned allocation\<close>

lemma next_multiple:
  fixes p al :: nat
  assumes "0 < al"
  defines "q \<equiv> (if p div al * al < p then p div al * al + al else p div al * al)"
  shows "q mod al = 0" "p \<le> q" "q < p + al"
proof -
  have e: "p div al * al + p mod al = p" by simp
  have m: "p mod al < al" using assms(1) by simp
  show "q mod al = 0" by (simp add: q_def)
  show "p \<le> q" using e m unfolding q_def by (cases "p div al * al < p") (simp_all only: if_True if_False; linarith)+
  show "q < p + al" using e m unfolding q_def by (cases "p div al * al < p") (simp_all only: if_True if_False; linarith)+
qed

text \<open>The first chunk's memory is 16 bytes past a multiple of 32, so what is left before a larger alignment
  makes a chunk of its own.\<close>

lemma first_chunk_gap:
  assumes "q mod 2 ^ j = 0" "kheap_start + 12 < q"
    "q < kheap_start + 12 + 2 ^ j"
  shows "kheap_start + 12 + 16 \<le> q"
proof -
  have h: "kheap_start + 12 = 16 * 1152921504473939969"
    by (simp add: kheap_start_def KERNEL_VIRTUAL_START_def KERNEL_HEAP_MEMORY_START_OFFSET_def MEMORY_ALGIN_OFFSET_def)
  have "(16 :: nat) dvd q"
  proof (cases "4 \<le> j")
    case True
    then have "(2 :: nat) ^ 4 dvd 2 ^ j" by (rule le_imp_power_dvd)
    then have "(16 :: nat) dvd 2 ^ j" by simp
    moreover have "2 ^ j dvd q" using assms(1) by (simp add: mod_eq_0_iff_dvd)
    ultimately show ?thesis by (rule dvd_trans)
  next
    case False
    then have "2 ^ j dvd (2 :: nat) ^ 4" by (intro le_imp_power_dvd) simp
    then have "2 ^ j dvd 16 * k" for k :: nat by (intro dvd_mult2) simp
    then have "2 ^ j dvd kheap_start + 12" unfolding h by blast
    moreover have "2 ^ j dvd q" using assms(1) by (simp add: mod_eq_0_iff_dvd)
    ultimately have "2 ^ j dvd q - (kheap_start + 12)" by (rule dvd_diff_nat [rotated])
    moreover have "0 < q - (kheap_start + 12)" "q - (kheap_start + 12) < 2 ^ j" using assms(2,3) by linarith+
    ultimately show ?thesis using nat_dvd_not_less by blast
  qed
  then obtain k where k: "q = 16 * k" by (rule dvdE)
  have "1152921504473939969 < k" using assms(2) unfolding h k by simp
  then show ?thesis unfolding h k by simp
qed

text \<open>A first chunk: the bytes before the aligned address become a free chunk.\<close>

lemma split_first:
  assumes c: "chunks {} {} h ((False, s) # R)" and d: "16 \<le> d" "d + 8 \<le> s"
  defines "h1 \<equiv> grow_left (kheap_start + 8) d h"
  defines "m2 \<equiv> put_tag False (kheap_start + (8 + d)) (s - d) (kmem h1)"
  defines "m3 \<equiv> put_tag False (kheap_start + (8 + 4 + s)) (s - d) m2"
  shows "chunks {} {} (h1\<lparr>kmem := m3\<rparr>) ((True, d - 8) # (False, s - d) # R)"
    "current_heap_size h1 = current_heap_size h" "kframe (- other_bytes [] s R) (kmem h) m3"
proof -
  let ?U = "other_bytes [] s R"
  have c': "chunks {} {} h ([] @ (False, s) # R)" using c by simp
  have cU: "chunks ?U {} h ([] @ [(False, s)] @ R)" using chunks_keep [OF c' other_bytes_sub] by simp
  have o: "opened ?U {} h [] (extent [(False, s)]) R"
    by (rule opened_open [OF cU]) (use other_bytes_apart [of "[]" s R] in \<open>auto simp: ac_simps\<close>)
  have big: "16 + s \<le> 1073741824" using chunks_bound [OF c] by simp
  have d8: "8 \<le> d - 8" "8 + (d - 8) \<le> extent [(False, s)]" using d by simp_all
  have h1: "h1 = CreateNewFreeChunkAt (kheap_start + 8) (d - 8) (GetBucketIndexOfFreeChunk (d - 8)) h"
  proof -
    have "sub64 (kheap_start + 8) 4 = kheap_start + 4" "add64 kheap_start 8 = kheap_start + 8" using kaddr(1) [of 0 8] by simp_all
    moreover have "u32 (sub64 d 8) = d - 8" using d big by (simp add: sub64_id u32_id)
    ultimately show ?thesis using d by (simp add: h1_def grow_left_def Let_def)
  qed
  note f = opened_free [OF o d8, simplified, folded h1 [simplified]]
  have o1: "opened {} {} h1 [(True, d - 8)] (8 + (s - d)) R"
  proof -
    have "8 + (s - d) = s + 8 - d" using d by simp
    then have "opened ?U {} h1 [(True, d - 8)] (8 + (s - d)) R" using f(1) d by simp
    then show ?thesis unfolding opened_def kstate_def kept_def by blast
  qed
  have s31: "s - d < 2147483648" using big by simp
  have f2: "kframe {8 + d ..< 8 + d + 4} (kmem h1) m2" "kword m2 (8 + d) = ktag False (s - d)"
    unfolding m2_def using put_tag [OF s31] by blast+
  have f3: "kframe {8 + 4 + s ..< 8 + 4 + s + 4} m2 m3" "kword m3 (8 + 4 + s) = ktag False (s - d)"
    unfolding m3_def using put_tag [OF s31] by blast+
  have fr: "kframe {8 + d ..< 16 + s} (kmem h1) m3"
    by (rule kframe_trans [OF kframe_mono [OF f2(1)] kframe_mono [OF f3(1)]]) (use d in auto)
  have w: "kword m3 (8 + d) = ktag False (s - d)" using f2(2) kframe_word [OF f3(1), of "8 + d"] d by simp
  have pos: "8 + extent [(True, d - 8)] = 8 + d" using d by simp
  have "opened {} {} (h1\<lparr>kmem := m3\<rparr>) ([(True, d - 8)] @ [(False, s - d)]) (8 + (s - d) - 8 - (s - d)) R"
  proof (rule opened_fill [OF o1])
    show "8 \<le> s - d" "8 + (s - d) \<le> 8 + (s - d)" using d by simp_all
    have "{8 + d ..< 8 + d + (8 + (s - d))} = {8 + d ..< 16 + s}" using d by simp
    then show "kframe {8 + extent [(True, d - 8)] ..< 8 + extent [(True, d - 8)] + (8 + (s - d))} (kmem h1) m3"
      unfolding pos using fr by simp
    show "kword m3 (8 + extent [(True, d - 8)]) = ktag False (s - d)" unfolding pos by (rule w)
    have "8 + d + 4 + (s - d) = 8 + 4 + s" using d by simp
    then show "kword m3 (8 + extent [(True, d - 8)] + 4 + (s - d)) = ktag False (s - d)" unfolding pos using f3(2) by simp
  qed
  then have "opened {} {} (h1\<lparr>kmem := m3\<rparr>) [(True, d - 8), (False, s - d)] 0 R" by simp
  from opened_close [OF this] show "chunks {} {} (h1\<lparr>kmem := m3\<rparr>) ((True, d - 8) # (False, s - d) # R)" by simp
  show "current_heap_size h1 = current_heap_size h" using f(3) by simp
  have "kframe (- ?U) (kmem h1) m3" by (rule kframe_mono [OF fr]) (use other_bytes_apart [of "[]" s R] in auto)
  then show "kframe (- ?U) (kmem h) m3" using f(2) by (auto intro: kframe_trans)
qed

definition blocks_grown :: "(nat \<times> nat) set \<Rightarrow> (nat \<times> nat) set \<Rightarrow> bool" where
  "blocks_grown B B' \<longleftrightarrow> fst ` B' = fst ` B \<and> (\<forall>q k. (q, k) \<in> B \<longrightarrow> (\<exists>k' \<ge> k. (q, k') \<in> B'))"

lemma blocks_grown_refl [simp]: "blocks_grown B B" by (auto simp: blocks_grown_def)

lemma blocks_grown_kblock:
  assumes "blocks_grown B V"
  shows "blocks_grown (kblock ` B) (kblock ` V)"
proof -
  have "fst ` kblock ` X = (\<lambda>x. kheap_start + (8 + x + 4)) ` fst ` X" for X by (simp add: kblock_def image_image)
  moreover have "\<exists>k' \<ge> k. (q, k') \<in> kblock ` V" if m: "(q, k) \<in> kblock ` B" for q k
  proof -
    obtain x where x: "(x, k) \<in> B" "q = kheap_start + (8 + x + 4)" using m by (auto simp: kblock_def)
    then obtain k' where "k \<le> k'" "(x, k') \<in> V" using assms unfolding blocks_grown_def by blast
    moreover from this have "kblock (x, k') \<in> kblock ` V" by blast
    ultimately show ?thesis unfolding x(2) by (auto simp: kblock_def)
  qed
  ultimately show ?thesis using assms unfolding blocks_grown_def by metis
qed

lemma kernel_block_new:
  assumes "kinv h bs" "set (used_blocks 0 bs) = insert (a, s) V" "a \<notin> fst ` V"
  shows "kernel_holds h (insert (kheap_start + (8 + a + 4), s) (kblock ` V))" "kheap_start + (8 + a + 4) \<notin> fst ` kblock ` V"
proof -
  show "kernel_holds h (insert (kheap_start + (8 + a + 4), s) (kblock ` V))"
    unfolding kernel_holds_def by (rule exI [of _ bs]) (use assms in \<open>simp add: kblock_def\<close>)
  show "kheap_start + (8 + a + 4) \<notin> fst ` kblock ` V" using assms(3) by (auto simp: kblock_def image_iff)
qed

lemma used_new: "a \<notin> fst ` set (used_blocks 0 L @ used_blocks (a + 8 + s) R)" if "a = extent L"
  using used_blocks_distinct [of 0 "L @ (False, s) # R"] that by (auto simp: image_iff)

lemma align_used:
  assumes i: "kinv h (L @ (False, s) # R)" and L: "L \<noteq> [] \<longrightarrow> \<not> fst (last L)" and d: "0 < d" "d + 8 \<le> s" "L = [] \<longrightarrow> 16 \<le> d"
  defines "y \<equiv> 8 + extent L"
  defines "h1 \<equiv> grow_left (kheap_start + y) d h"
  defines "m3 \<equiv> put_tag False (kheap_start + (y + 4 + s)) (s - d) (put_tag False (kheap_start + (y + d)) (s - d) (kmem h1))"
  shows "\<exists>bs V. kinv (h1\<lparr>kmem := m3\<rparr>) bs \<and> set (used_blocks 0 bs) = insert (extent L + d, s - d) V \<and> extent L + d \<notin> fst ` V
    \<and> blocks_grown (set (used_blocks 0 L @ used_blocks (extent L + 8 + s) R)) V
    \<and> same_bytes (kmem h) m3 (kblock ` set (used_blocks 0 L @ used_blocks (extent L + 8 + s) R))"
proof (cases "L = []")
  case True
  have c: "chunks {} {} h ((False, s) # R)" and td: "tidy ([] @ (False, s) # R)" and cur: "current_heap_size h = 8 + extent ((False, s) # R)"
    "8 + extent ((False, s) # R) < heap_memory_limit" using i True by (simp_all add: kinv_def)
  have d': "16 \<le> d" using d(3) True by simp
  note sp = split_first [OF c d' d(2)]
  have y: "y = 8" by (simp add: y_def True)
  let ?bs = "(True, d - 8) # (False, s - d) # R"
  have "tidy ([] @ ?bs)" using td by (simp only: tidy_append) (auto simp: coalesced_Cons)
  moreover have "extent ?bs = extent ((False, s) # R)" using d d' by simp
  ultimately have 1: "kinv (h1\<lparr>kmem := m3\<rparr>) ?bs"
    using sp(1,2) cur unfolding kinv_def h1_def m3_def y by simp
  let ?V = "set (used_blocks 0 L @ used_blocks (extent L + 8 + s) R)"
  have V: "?V = set (used_blocks (8 + s) R)" by (simp add: True)
  have "0 + 8 + (d - 8) = d" "d + 8 + (s - d) = 8 + s" using d d' by simp_all
  then have "used_blocks 0 ?bs = (d, s - d) # used_blocks (8 + s) R" by (simp del: add_0)
  then have 2: "set (used_blocks 0 ?bs) = insert (extent L + d, s - d) ?V" unfolding V by (simp only: list.set) (simp add: True)
  have "d \<notin> fst ` set (used_blocks (8 + s) R)" using used_range [of _ _ "8 + s" R] d by fastforce
  then have 3: "extent L + d \<notin> fst ` ?V" unfolding V by (simp add: True)
  have 4: "same_bytes (kmem h) m3 (kblock ` ?V)" unfolding V
    by (rule kframe_same_bytes [OF sp(3) [folded y, folded h1_def, folded m3_def]]) (auto simp: other_bytes_def)
  show ?thesis using 1 2 3 4 blocks_grown_refl by blast
next
  case False
  then obtain L' t where L': "L = L' @ [(False, t)]" using L by (metis append_butlast_last_id prod.collapse)
  have c: "chunks {} {} h (L' @ (False, t) # (False, s) # R)" and td: "tidy ((L' @ [(False, t)]) @ (False, s) # R)"
    and cur: "current_heap_size h = 8 + extent (L' @ (False, t) # (False, s) # R)"
    "8 + extent (L' @ (False, t) # (False, s) # R) < heap_memory_limit" using i by (simp_all add: kinv_def L')
  have y: "8 + extent L' + 8 + t = y" by (simp add: y_def L')
  note sb = shift_border [OF c d(1,2), unfolded y, folded h1_def, folded m3_def]
  let ?bs = "L' @ (False, t + d) # (False, s - d) # R"
  have eq: "h1\<lparr>kmem := m3\<rparr> = h\<lparr>kmem := m3\<rparr>" by (subst sb(2)) simp
  have "tidy ((L' @ [(False, t + d)]) @ (False, s - d) # R)" using td unfolding tidy_append by (auto simp: coalesced_append)
  then have "kinv (h1\<lparr>kmem := m3\<rparr>) ?bs" unfolding eq kinv_def using sb(1) cur d by simp
  moreover
  let ?V = "set (used_blocks 0 L' @ (extent L', t + d) # used_blocks (extent L + 8 + s) R)"
  have e: "extent L' + 8 + (t + d) = extent L + d" "extent L + d + 8 + (s - d) = extent L + 8 + s" using d by (simp_all add: L')
  have "used_blocks 0 ?bs = used_blocks 0 L' @ (extent L', t + d) # (extent L + d, s - d) # used_blocks (extent L + 8 + s) R"
    by (simp only: used_blocks_append used_blocks.simps if_False append_Nil append_Cons add_0 e)
  then have "set (used_blocks 0 ?bs) = insert (extent L + d, s - d) ?V" by auto
  moreover have "extent L + d \<notin> fst ` ?V"
    using used_range [of _ _ 0 L'] used_range [of _ _ "extent L + 8 + s" R] d by (fastforce simp: L')
  moreover have "blocks_grown (set (used_blocks 0 L @ used_blocks (extent L + 8 + s) R)) ?V"
    by (auto simp: blocks_grown_def L' intro: exI [of _ "t + d"])
  moreover have "same_bytes (kmem h) m3 (kblock ` set (used_blocks 0 L @ used_blocks (extent L + 8 + s) R))"
  proof (rule kframe_same_bytes [OF sb(3)])
    fix b assume "b \<in> set (used_blocks 0 L @ used_blocks (extent L + 8 + s) R)"
    then consider "b \<in> set (used_blocks 0 L')" | "b = (extent L', t)" | "b \<in> set (used_blocks (extent L + 8 + s) R)" by (auto simp: L')
    then show "payload b \<inter> ({8 + extent L' ..< 8 + extent L' + 4} \<union> {y - 4 ..< y + 8 + s}) = {}"
    proof cases
      case 1
      then show ?thesis using used_range [of "fst b" "snd b" 0 L'] by (auto simp: payload_def y_def L')
    next
      case 2
      then show ?thesis by (auto simp: payload_def y_def L')
    next
      case 3
      then show ?thesis using used_range [of "fst b" "snd b" "extent L + 8 + s" R] by (auto simp: payload_def y_def L')
    qed
  qed
  ultimately show ?thesis by blast
qed

lemma kaligned_alloc_ok:
  assumes B: "kernel_holds h B" and b: "8 \<le> bytes" and j: "j < 31" and room: "kroom (bytes + 2 ^ j - 1) h"
  shows "\<exists>p s h' B'. kaligned_alloc (2 ^ j) bytes h = Some (p, h') \<and> p mod 2 ^ j = 0 \<and> bytes \<le> s
    \<and> kernel_holds h' (insert (p, s) B') \<and> p \<notin> fst ` B' \<and> blocks_grown B B' \<and> same_bytes (kmem h) (kmem h') B"
proof -
  let ?n = "bytes + 2 ^ j - 1"
  obtain bs where bs: "kinv h bs" "B = kblock ` set (used_blocks 0 bs)" using B by (auto simp: kernel_holds_def)
  have n: "0 < ?n" "?n < 1073741824" using b room heap_limit by (auto simp: kroom_def)
  obtain L s R h1 where k: "kmalloc ?n h = Some (kheap_start + (8 + extent L + 4), h1)" "kinv h1 (L @ (False, s) # R)" "?n \<le> s"
    "used_blocks 0 bs = used_blocks 0 L @ used_blocks (extent L + 8 + s) R" "L \<noteq> [] \<longrightarrow> \<not> fst (last L)"
    "kframe (- used_bytes bs) (kmem h) (kmem h1)" using kmalloc_ok [OF bs(1) n(1) room] by blast
  have c: "chunks {} {} h1 (L @ (False, s) # R)" using k(2) by (simp add: kinv_def)
  have big: "8 + extent L + 8 + s \<le> 1073741824" using chunks_bound [OF c] by simp
  have same: "same_bytes (kmem h) (kmem h1) B" using kframe_used [OF k(6)] bs(2) by simp
  define mb where "mb = kheap_start + (8 + extent L + 4)"
  define q where "q = (if mb div 2 ^ j * 2 ^ j < mb then mb div 2 ^ j * 2 ^ j + 2 ^ j else mb div 2 ^ j * 2 ^ j)"
  have q: "q mod 2 ^ j = 0" "mb \<le> q" "q < mb + 2 ^ j" unfolding q_def by (rule next_multiple; simp)+
  define d where "d = q - mb"
  have pj: "(2 :: nat) ^ j \<le> s - bytes + 1" using k(3) b by simp
  have q64: "q < 18446744073709551616" using q(3) pj big kheap_start_lt unfolding mb_def by linarith
  have d: "d < 2 ^ j" "d + bytes \<le> s" "q = kheap_start + (8 + (extent L + d) + 4)"
    using q(2,3) k(3) b unfolding d_def by (simp_all add: mb_def)
  have chunk: "GetChunkStartFromMemoryBlockAddress mb = kheap_start + (8 + extent L)"
    using big by (simp add: GetChunkStartFromMemoryBlockAddress_def mb_def)
  have sz: "GetChunkSize (kmem h1) (kheap_start + (8 + extent L)) = s" by (rule chunk_size(1) [OF c])
  have qc: "(if mb div 2 ^ j * 2 ^ j < mb then add64 (mb div 2 ^ j * 2 ^ j) (2 ^ j) else mb div 2 ^ j * 2 ^ j) = q"
    using q64 unfolding q_def by (simp add: add64_id split: if_splits)
  have dc: "sub64 q mb = d" unfolding d_def by (rule sub64_id [OF q(2) q64])
  have nc: "sub64 (add64 bytes (2 ^ j)) 1 = ?n" using n b by (simp add: add64_id sub64_id)
  have al: "kaligned_alloc (2 ^ j) bytes h =
      (if d > 0 then
         let h2 = grow_left (kheap_start + (8 + extent L)) d h1;
             aligned_chunk = GetChunkStartFromMemoryBlockAddress q;
             new_alloc_size = u32 (sub64 s d);
             m1 = SetChunkSize aligned_chunk new_alloc_size (SetOccupied aligned_chunk (kmem h2));
             suffix = GetSuffixBlockAddressFromChunkStart aligned_chunk new_alloc_size
         in Some (q, h2\<lparr>kmem := SetChunkSize suffix new_alloc_size (SetOccupied suffix m1)\<rparr>)
       else Some (q, h1))"
    unfolding kaligned_alloc_def AlignedAlloc_def nc k(1)
    by (simp only: power_of_two [OF j] not_True_eq_False if_False option.case prod.case Let_def mb_def [symmetric] chunk sz qc dc)
  show ?thesis
  proof (cases "d > 0")
    case False
    then have "q = mb" using q(2) by (simp add: d_def)
    moreover have "set (used_blocks 0 (L @ (False, s) # R)) = insert (extent L, s) (set (used_blocks 0 bs))" using k(4) by auto
    from kernel_block_new [OF k(2) this] have "kernel_holds h1 (insert (mb, s) B)" "mb \<notin> fst ` B"
      using used_new [of "extent L" L s R] k(4) unfolding bs(2) mb_def by simp_all
    ultimately show ?thesis using False same q(1) k(3) al d(2) by (intro exI [of _ mb] exI [of _ s] exI [of _ h1] exI [of _ B]) simp
  next
    case True
    have d16: "L = [] \<longrightarrow> 16 \<le> d"
    proof
      assume "L = []"
      then have "kheap_start + 12 + 16 \<le> q"
        using first_chunk_gap [OF q(1)] True q(3) by (simp add: mb_def d_def)
      then show "16 \<le> d" using \<open>L = []\<close> by (simp add: d_def mb_def)
    qed
    have d8: "d + 8 \<le> s" using d(2) b by simp
    define h2 where "h2 = grow_left (kheap_start + (8 + extent L)) d h1"
    define m3 where "m3 = put_tag False (kheap_start + (8 + extent L + 4 + s)) (s - d) (put_tag False (kheap_start + (8 + extent L + d)) (s - d) (kmem h2))"
    obtain bs' V where v: "kinv (h2\<lparr>kmem := m3\<rparr>) bs'" "set (used_blocks 0 bs') = insert (extent L + d, s - d) V" "extent L + d \<notin> fst ` V"
      "blocks_grown (set (used_blocks 0 bs)) V" "same_bytes (kmem h1) m3 B"
      using align_used [OF k(2,5) True d8 d16, folded h2_def, folded m3_def] unfolding bs(2) k(4) by blast
    have ac: "GetChunkStartFromMemoryBlockAddress q = kheap_start + (8 + extent L + d)"
      using big d by (simp add: GetChunkStartFromMemoryBlockAddress_def)
    have ns: "u32 (sub64 s d) = s - d" using big d by (simp add: sub64_id u32_id)
    have suf: "GetSuffixBlockAddressFromChunkStart (kheap_start + (8 + extent L + d)) (s - d) = kheap_start + (8 + extent L + 4 + s)"
      using big d by (simp add: GetSuffixBlockAddressFromChunkStart_def)
    have "kaligned_alloc (2 ^ j) bytes h = Some (q, h2\<lparr>kmem := m3\<rparr>)"
      using True unfolding al Let_def h2_def [symmetric] ac ns suf m3_def put_tag_def by simp
    moreover have "kernel_holds (h2\<lparr>kmem := m3\<rparr>) (insert (q, s - d) (kblock ` V))" "q \<notin> fst ` kblock ` V"
      unfolding d(3) by (rule kernel_block_new [OF v(1,2,3)])+
    moreover have "blocks_grown B (kblock ` V)"
      unfolding bs(2) by (rule blocks_grown_kblock [OF v(4)])
    moreover have "same_bytes (kmem h) m3 B" by (rule same_bytes_trans [OF same v(5)])
    moreover have "bytes \<le> s - d" using d(2) by simp
    ultimately show ?thesis using q(1)
      by (intro exI [of _ q] exI [of _ "s - d"] exI [of _ "h2\<lparr>kmem := m3\<rparr>"] exI [of _ "kblock ` V"]) simp
  qed
qed

section \<open>Zeroed memory and the check\<close>

lemma kcalloc_fold:
  "fold (\<lambda>i m. m(p + i := (0 :: 8 word))) [0 ..< n] m = (\<lambda>x. if p \<le> x \<and> x < p + n then 0 else m x)"
  by (induction n) (auto simp: fun_eq_iff)

lemma kcalloc_ok:
  assumes B: "kernel_holds h B" and n: "0 < n" and room: "kroom n h"
  shows "\<exists>p s h'. kcalloc n h = Some (p, h') \<and> n \<le> s \<and> kernel_holds h' (insert (p, s) B) \<and> p \<notin> fst ` B
    \<and> same_bytes (kmem h) (kmem h') B \<and> (\<forall>i < n. kmem h' (p + i) = 0)"
proof -
  obtain p s h1 where k: "kmalloc n h = Some (p, h1)" "kernel_holds h1 (insert (p, s) B)" "n \<le> s" "p \<notin> fst ` B"
    "same_bytes (kmem h) (kmem h1) B" using kernel_alloc_law [OF B n room] by blast
  let ?zero = "\<lambda>k. h1\<lparr>kmem := (\<lambda>x. if p \<le> x \<and> x < p + k then 0 else kmem h1 x)\<rparr>"
  have z: "kernel_holds (?zero k) (insert (p, s) B)" if "k \<le> s" for k
    using that
  proof (induction k)
    case 0
    have "(\<lambda>x. if p \<le> x \<and> x < p + 0 then 0 else kmem h1 x) = kmem h1" by (auto simp: fun_eq_iff)
    then show ?case using k(2) by (simp only: add_0_right) simp
  next
    case (Suc k)
    then have "kernel_holds (?zero k) (insert (p, s) B)" "k < s" by simp_all
    note st = kernel_store_law [OF this(1) insertI1 this(2), of 0]
    have "(\<lambda>x. if p \<le> x \<and> x < p + k then 0 else kmem h1 x)(p + k := 0) = (\<lambda>x. if p \<le> x \<and> x < p + Suc k then 0 else kmem h1 x)"
      by (auto simp: fun_eq_iff)
    then have "kstore (p + k) 0 (?zero k) = ?zero (Suc k)" by (simp add: kstore_def)
    with st show ?case by (simp only:)
  qed
  obtain bs where "insert (p, s) B = kblock ` set (used_blocks 0 bs)" using k(2) unfolding kernel_holds_def by blast
  then have "(p, s) \<in> kblock ` set (used_blocks 0 bs)" by blast
  then have p0: "p \<noteq> 0" by (auto simp: kblock_def)
  have "same_bytes (kmem h1) (kmem (?zero n)) B"
    unfolding same_bytes_def
  proof (intro allI impI)
    fix q t i assume q: "(q, t) \<in> B" "i < t"
    then have "(q, t) \<noteq> (p, s)" using k(4) by force
    then have "apart (q, t) (p, s)" using kernel_apart_law [OF k(2), of "(q, t)" "(p, s)"] q(1) by simp
    then show "kmem (?zero n) (q + i) = kmem h1 (q + i)" using q(2) k(3) by (auto simp: apart_def)
  qed
  then have "same_bytes (kmem h) (kmem (?zero n)) B" by (rule same_bytes_trans [OF k(5)])
  moreover have "kcalloc n h = Some (p, ?zero n)" using k(1) p0 by (simp add: kcalloc_def kcalloc_fold)
  ultimately show ?thesis using k(3,4) z [OF k(3)]
    by (intro exI [of _ p] exI [of _ s] exI [of _ "?zero n"]) simp
qed



section \<open>Runs of the kernel\<close>

text \<open>\<open>live\<close> is what the kernel holds: the pointers with the sizes it asked for.\<close>

inductive kernel_step :: "kheap \<times> (nat \<times> nat) list \<Rightarrow> kheap \<times> (nat \<times> nat) list \<Rightarrow> bool" where
  do_kmalloc: "0 < n \<Longrightarrow> kroom n h \<Longrightarrow> kmalloc n h = Some (p, h') \<Longrightarrow> kernel_step (h, live) (h', (p, n) # live)"
| do_kcalloc: "0 < n \<Longrightarrow> kroom n h \<Longrightarrow> kcalloc n h = Some (p, h') \<Longrightarrow> kernel_step (h, live) (h', (p, n) # live)"
| do_kaligned: "8 \<le> n \<Longrightarrow> j < 31 \<Longrightarrow> kroom (n + 2 ^ j - 1) h \<Longrightarrow> kaligned_alloc (2 ^ j) n h = Some (p, h') \<Longrightarrow>
    kernel_step (h, live) (h', (p, n) # live)"
| do_kfree: "(p, n) \<in> set live \<Longrightarrow> kernel_step (h, live) (kfree p h, remove1 (p, n) live)"
| do_kstore: "(p, n) \<in> set live \<Longrightarrow> i < n \<Longrightarrow> kernel_step (h, live) (kstore (p + i) v h, live)"

definition kernel_reachable :: "kheap \<Rightarrow> (nat \<times> nat) list \<Rightarrow> bool" where
  "kernel_reachable h live \<longleftrightarrow> (\<exists>m. kernel_step\<^sup>*\<^sup>* (new_kheap m, []) (h, live))"

lemma new_kheap_inv: "kinv (new_kheap m) []"
proof -
  have "kstate {} (new_kheap m) [] 0 [] (\<lambda>_. [])"
    by (simp add: kstate_def ktiles_def klists_def klisted_def kept_def chunk_at_def new_kheap_def blk_def)
  then have "chunks {} {} (new_kheap m) []" by (rule openedI) (simp add: chunk_at_def blk_def)
  then show ?thesis
    by (simp add: kinv_def tidy_def new_kheap_def heap_memory_limit_def ONE_GB_def KERNEL_HEAP_MEMORY_START_OFFSET_def MEMORY_ALGIN_OFFSET_def)
qed

lemma tracks_insert:
  assumes t: "tracks kernel_holds h live" and B: "kernel_holds h B" "distinct (map fst live)" "fst ` set live = fst ` B"
    "\<And>p n. (p, n) \<in> set live \<Longrightarrow> 0 < n \<and> (\<exists>s. n \<le> s \<and> (p, s) \<in> B)"
    and new: "kernel_holds h' (insert (p, s) B')" "p \<notin> fst ` B'" "blocks_grown B B'" "0 < n" "n \<le> s"
  shows "tracks kernel_holds h' ((p, n) # live)"
proof (rule tracksI [where holds = kernel_holds, OF new(1)])
  show "distinct (map fst ((p, n) # live))" "fst ` set ((p, n) # live) = fst ` insert (p, s) B'"
    using B(2,3) new(2,3) by (auto simp: blocks_grown_def)
  fix q k assume "(q, k) \<in> set ((p, n) # live)"
  then show "0 < k \<and> (\<exists>t. k \<le> t \<and> (q, t) \<in> insert (p, s) B')"
  proof (cases "(q, k) = (p, n)")
    case False
    then obtain t where t: "0 < k" "k \<le> t" "(q, t) \<in> B" using B(4) [of q k] \<open>(q, k) \<in> _\<close> by auto
    obtain t' where "t \<le> t'" "(q, t') \<in> B'" using new(3) t(3) unfolding blocks_grown_def by blast
    then show ?thesis using t(1,2) by (intro conjI exI [of _ t']) auto
  qed (use new(4,5) in auto)
qed

lemma tracks_kaligned:
  assumes "tracks kernel_holds h live" "8 \<le> n" "j < 31" "kroom (n + 2 ^ j - 1) h"
  shows "\<exists>p h'. kaligned_alloc (2 ^ j) n h = Some (p, h') \<and> p mod 2 ^ j = 0 \<and> tracks kernel_holds h' ((p, n) # live)
    \<and> same_bytes (kmem h) (kmem h') (set live)"
proof -
  obtain B where B: "kernel_holds h B" "distinct (map fst live)" "fst ` set live = fst ` B"
    and l: "\<And>p n. (p, n) \<in> set live \<Longrightarrow> 0 < n \<and> (\<exists>s. n \<le> s \<and> (p, s) \<in> B)"
    using assms(1) by (rule tracksE) (rule that)
  obtain p s h' B' where a: "kaligned_alloc (2 ^ j) n h = Some (p, h')" "p mod 2 ^ j = 0" "n \<le> s" "kernel_holds h' (insert (p, s) B')"
    "p \<notin> fst ` B'" "blocks_grown B B'" "same_bytes (kmem h) (kmem h') B" using kaligned_alloc_ok [OF B(1) assms(2-4)] by (elim exE conjE) (rule that)
  have "same_bytes (kmem h) (kmem h') (set live)" by (rule same_bytes_shrink [OF a(7)]) (auto dest!: l)
  then show ?thesis using tracks_insert [OF assms(1) B l a(4,5,6) _ a(3)] a(1,2) assms(2) by auto
qed

lemma kernel_step_tracks: "kernel_step s t \<Longrightarrow> tracks kernel_holds (fst s) (snd s) \<Longrightarrow> tracks kernel_holds (fst t) (snd t)"
proof (induction rule: kernel_step.induct)
  case (do_kmalloc n h p h' live)
  then show ?case using kernel_heap.tracks_alloc [of h live n] by auto
next
  case (do_kcalloc n h p h' live)
  from do_kcalloc.prems have t: "tracks kernel_holds h live" by simp
  obtain B where B: "kernel_holds h B" "distinct (map fst live)" "fst ` set live = fst ` B"
    and l: "\<And>p n. (p, n) \<in> set live \<Longrightarrow> 0 < n \<and> (\<exists>s. n \<le> s \<and> (p, s) \<in> B)"
    using t by (rule tracksE) (rule that)
  obtain s where a: "n \<le> s" "kernel_holds h' (insert (p, s) B)" "p \<notin> fst ` B"
    using kcalloc_ok [OF B(1) do_kcalloc.hyps(1,2)] do_kcalloc.hyps(3) by auto
  from tracks_insert [OF t B l a(2,3) blocks_grown_refl do_kcalloc.hyps(1) a(1)] show ?case by simp
next
  case (do_kaligned n j h p h' live)
  then show ?case using tracks_kaligned [of h live n j] by auto
next
  case (do_kfree p n live h)
  then show ?case using kernel_heap.tracks_dealloc(1) [of h live p n] by auto
next
  case (do_kstore p n live i h v)
  then show ?case using kernel_heap.tracks_store [of h live p n i v] by auto
qed

lemma kernel_reachable_tracks: "kernel_reachable h live \<Longrightarrow> tracks kernel_holds h live"
proof -
  assume "kernel_reachable h live"
  then obtain m where r: "kernel_step\<^sup>*\<^sup>* (new_kheap m, []) (h, live)" by (auto simp: kernel_reachable_def)
  have "kernel_holds (new_kheap m) {}" unfolding kernel_holds_def by (rule exI [of _ "[]"]) (simp add: new_kheap_inv)
  then have "tracks kernel_holds (fst (new_kheap m, [])) (snd (new_kheap m, []))" by (simp add: kernel_heap.tracks_start)
  with r have "tracks kernel_holds (fst (h, live)) (snd (h, live))"
    by (induction rule: rtranclp_induct) (use kernel_step_tracks in blast)+
  then show ?thesis by simp
qed

section \<open>Properties\<close>

lemma kernel_start: "kernel_reachable (new_kheap m) []" by (auto simp: kernel_reachable_def)

lemma start_room: "kroom 1023 (new_kheap m)"
  by (simp add: kroom_def head_fits_def new_kheap_def heap_memory_limit_def ONE_GB_def KERNEL_HEAP_MEMORY_START_OFFSET_def MEMORY_ALGIN_OFFSET_def)




text \<open>C18: An aligned request of at least eight bytes that has room, as above, with the alignment (a power of two)
  added, is served: the memory starts at a multiple of the alignment, is apart from everything the kernel holds, and no
  byte of that changes.\<close>

theorem kaligned_alloc_fresh:
  assumes "kernel_reachable h live" "8 \<le> n" "j < 31" "kroom (n + 2 ^ j - 1) h"
  shows "\<exists>p h'. kaligned_alloc (2 ^ j) n h = Some (p, h') \<and> p mod 2 ^ j = 0 \<and> kernel_reachable h' ((p, n) # live)
    \<and> (\<forall>b \<in> set live. apart (p, n) b) \<and> same_bytes (kmem h) (kmem h') (set live)"
proof -
  note t = kernel_reachable_tracks [OF assms(1)]
  obtain p h' where a: "kaligned_alloc (2 ^ j) n h = Some (p, h')" "p mod 2 ^ j = 0" "tracks kernel_holds h' ((p, n) # live)"
    "same_bytes (kmem h) (kmem h') (set live)" using tracks_kaligned [OF t assms(2-4)] by (elim exE conjE) (rule that)
  have "kernel_reachable h' ((p, n) # live)"
    using assms(1) do_kaligned [OF assms(2-4) a(1)] unfolding kernel_reachable_def by (meson rtranclp.rtrancl_into_rtrancl)
  moreover have "apart (p, n) b" if "b \<in> set live" for b
  proof -
    obtain q k where b: "b = (q, k)" by (cases b)
    have "p \<notin> fst ` set live" using a(3) by (auto simp: tracks_def)
    then have "(p, n) \<noteq> (q, k)" using that b by force
    then show ?thesis using kernel_heap.tracks_apart [OF a(3), of p n q k] that b by simp
  qed
  ultimately show ?thesis using a by (intro exI [of _ p] exI [of _ h']) simp
qed

theorem kaligned_alloc_fresh_witness:
  "\<exists>p h'. kaligned_alloc 512 512 (new_kheap (\<lambda>_. 0)) = Some (p, h') \<and> p mod 512 = 0 \<and> kernel_reachable h' [(p, 512)]"
  using kaligned_alloc_fresh [OF kernel_start [of "\<lambda>_. 0"], of 512 9] start_room by auto



section \<open>Where the code goes wrong\<close>

text \<open>A chunk that is too small is followed by the word after its memory, which is its own size doubled, so
  the search of the last bucket goes on at twice that size, whatever is there.\<close>

lemma next_is_twice_the_size:
  assumes "chunks U X h (L @ (True, s) # R)"
  shows "GetNextChunkOffset (kmem h) (GetSuffixBlockAddressFromChunkStart (kheap_start + (8 + extent L)) s) = 2 * s"
proof -
  have big: "8 + extent L + 8 + s \<le> 1073741824" using chunks_bound [OF assms] by simp
  have "GetSuffixBlockAddressFromChunkStart (kheap_start + (8 + extent L)) s = kheap_start + (8 + extent L + 4 + s)"
    using big by (simp add: GetSuffixBlockAddressFromChunkStart_def ac_simps)
  moreover have "rd32 (kmem h) (kheap_start + (8 + extent L + 4 + s)) = 2 * s"
    using chunk_at_facts(3) [OF opened_tiles [OF assms] chunk_middle] unfolding kword_def ktag_def by simp
  moreover have "u32 (2 * (2 * s)) div 2 = 2 * s" using big by (simp add: u32_id)
  ultimately show ?thesis by (simp only: GetNextChunkOffset_def)
qed

text \<open>Requests of exactly eight bytes are looked for in the last bucket only, and a chunk below eight bytes has no bucket.\<close>

lemma bucket_of_eight: "GetBucketIndex 8 = 15" "GetBucketIndexOfFreeChunk 7 = - 1"
proof -
  have "builtin_clz 32 8 = 28" "builtin_clz 32 7 = 29" using clz_log [of 3 8 32] clz_log [of 2 7 32] by simp_all
  moreover have "\<not> bit (8 :: nat) i" if "i < 3" for i
  proof -
    have "i = 0 \<or> i = 1 \<or> i = 2" using that by linarith
    then show ?thesis by (auto simp: bit_iff_odd)
  qed
  then have "List.find (bit (8 :: nat)) [0 ..< 32] = Some 3"
    by (intro find_upt) (simp_all add: bit_iff_odd)
  ultimately show "GetBucketIndex 8 = 15" "GetBucketIndexOfFreeChunk 7 = - 1"
    by (simp_all add: GetBucketIndex_def RoundUpNearestPowerOfTwoLog_def builtin_ffs_def NUM_BUCKETS_def
        GetBucketIndexOfFreeChunk_def RoundDownNearestPowerOfTwoLog_def)
qed

end
