(* ===== verification/Stdio.thy ===== *)
theory Stdio
  imports Printf
begin

text \<open>
  Buffered files, \<open>user/libc/stdio.c\<close>. A \<open>FILE\<close> is a descriptor with a buffer of 4096 bytes; the system
  calls are arguments, as functions of the state of whatever is behind them. A call that does not come back
  is None, and so is an access outside the buffer. A stream that is None is the null pointer.
\<close>

section \<open>System calls and streams\<close>

type_synonym 's read_call = "int \<Rightarrow> nat \<Rightarrow> 's \<Rightarrow> (int \<times> byte list \<times> 's) option"  \<comment> \<open>the result and the bytes stored\<close>
type_synonym 's write_call = "int \<Rightarrow> byte list \<Rightarrow> 's \<Rightarrow> (int \<times> 's) option"
type_synonym 's open_call = "byte list \<Rightarrow> int \<Rightarrow> 's \<Rightarrow> (int \<times> 's) option"
type_synonym 's lseek_call = "int \<Rightarrow> int \<Rightarrow> int \<Rightarrow> 's \<Rightarrow> (int \<times> 's) option"

definition EOF :: int where "EOF = - 1"
definition BUF_SIZE :: nat where "BUF_SIZE = 4096"
definition O_TRUNC :: int where "O_TRUNC = 8"
definition IO_UNBUFFERED :: nat where "IO_UNBUFFERED = 1"
definition IO_LINE_BUFFERED :: nat where "IO_LINE_BUFFERED = 2"
definition IO_BLOCK_BUFFERED :: nat where "IO_BLOCK_BUFFERED = 4"

record io_file =
  io_fd :: int
  io_buffer :: "nat \<Rightarrow> byte"
  buf_size :: int
  buf_pos :: int
  io_mode :: nat

definition std_stream :: "int \<Rightarrow> io_file" where
  \<comment> \<open>\<open>_f_stdin\<close>, \<open>_f_stdout\<close> and \<open>_f_stderr\<close>\<close>
  "std_stream n = \<lparr>io_fd = n, io_buffer = (\<lambda>_. 0), buf_size = 0, buf_pos = 0, io_mode = 0\<rparr>"

definition fopen :: "'s open_call \<Rightarrow> io_file option \<Rightarrow> byte list \<Rightarrow> byte list \<Rightarrow> 's \<Rightarrow> (io_file option \<times> 's) option" where
  \<comment> \<open>\<open>got\<close> is what malloc returns: the memory of the \<open>FILE\<close> as it was, or the null pointer\<close>
  "fopen opn got pathname mode s =
     do {
       (fd, s1) \<leftarrow> (if mode = [119] then opn pathname O_TRUNC s else opn pathname 0 s);
       if fd = - 1 then Some (None, s1)
       else (case got of
               None \<Rightarrow> None
             | Some f \<Rightarrow> Some (Some (f\<lparr>io_fd := fd, buf_size := 0, buf_pos := 0\<rparr>), s1))
     }"

definition fclose :: "io_file option \<Rightarrow> int" where "fclose stream = 0"

definition fflush :: "io_file option \<Rightarrow> int" where "fflush stream = 0"

section \<open>Reading\<close>

definition fill_buffer :: "'s read_call \<Rightarrow> io_file \<Rightarrow> 's \<Rightarrow> (io_file \<times> 's) option" where
  \<comment> \<open>the first step of \<open>fgetc\<close>: when the buffer is all read\<close>
  "fill_buffer rd f s =
     (if buf_size f = buf_pos f then do {
        (read_cnt, bytes, s1) \<leftarrow> rd (io_fd f) BUF_SIZE s;
        Some (f\<lparr>io_buffer := (\<lambda>i. if i < length bytes then bytes ! i else io_buffer f i),
                buf_size := read_cnt, buf_pos := 0\<rparr>, s1)
      } else Some (f, s))"

definition fgetc :: "'s read_call \<Rightarrow> io_file option \<Rightarrow> 's \<Rightarrow> (int \<times> io_file option \<times> 's) option" where
  "fgetc rd stream s =
     (case stream of
        None \<Rightarrow> Some (EOF, None, s)
      | Some f \<Rightarrow> do {
          (f1, s1) \<leftarrow> fill_buffer rd f s;
          if buf_size f1 = 0 then Some (EOF, Some f1, s1)
          else if buf_pos f1 < 0 \<or> int BUF_SIZE \<le> buf_pos f1 then None
          else Some (uint (io_buffer f1 (nat (buf_pos f1))), Some (f1\<lparr>buf_pos := buf_pos f1 + 1\<rparr>), s1)
        })"

text \<open>The two loops of \<open>fread\<close>: an item of k bytes, and k items; what is stored through \<open>ptr\<close> is the second
  component, the bytes of an item that was cut off included.\<close>

fun read_item :: "'s read_call \<Rightarrow> nat \<Rightarrow> io_file option \<Rightarrow> 's \<Rightarrow> (bool \<times> byte list \<times> io_file option \<times> 's) option" where
  "read_item rd 0 f s = Some (True, [], f, s)"
| "read_item rd (Suc k) f s =
     do {
       (c, f1, s1) \<leftarrow> fgetc rd f s;
       if c = EOF then Some (False, [], f1, s1)
       else do {
         (whole, bytes, f2, s2) \<leftarrow> read_item rd k f1 s1;
         Some (whole, word_of_int c # bytes, f2, s2)
       }
     }"

fun read_items ::
  "'s read_call \<Rightarrow> nat \<Rightarrow> nat \<Rightarrow> io_file option \<Rightarrow> 's \<Rightarrow> (nat \<times> byte list \<times> io_file option \<times> 's) option" where
  "read_items rd sz 0 f s = Some (0, [], f, s)"
| "read_items rd sz (Suc k) f s =
     do {
       (whole, bytes, f1, s1) \<leftarrow> read_item rd sz f s;
       if \<not> whole then Some (0, bytes, f1, s1)
       else do {
         (index, more, f2, s2) \<leftarrow> read_items rd sz k f1 s1;
         Some (index + 1, bytes @ more, f2, s2)
       }
     }"

definition fread ::
  "'s read_call \<Rightarrow> nat \<Rightarrow> nat \<Rightarrow> io_file option \<Rightarrow> 's \<Rightarrow> (nat \<times> byte list \<times> io_file option \<times> 's) option" where
  "fread rd sz count stream s =
     (if sz = 0 \<or> count = 0 then Some (0, [], stream, s) else read_items rd sz count stream s)"

fun gets_from ::
  "'s read_call \<Rightarrow> nat \<Rightarrow> bool \<Rightarrow> io_file option \<Rightarrow> 's \<Rightarrow> (bool \<times> byte list \<times> io_file option \<times> 's) option" where
  \<comment> \<open>the loop of \<open>fgets\<close>: k rounds are left, \<open>first\<close> says that i is 0; false is the null pointer\<close>
  "gets_from rd 0 first f s = Some (True, [0], f, s)"
| "gets_from rd (Suc k) first f s =
     do {
       (ch, f1, s1) \<leftarrow> fgetc rd f s;
       if ch = EOF then (if first then Some (False, [], f1, s1) else Some (True, [0], f1, s1))
       else if ch = 10 then Some (True, [word_of_int ch, 0], f1, s1)
       else do {
         (ret, str, f2, s2) \<leftarrow> gets_from rd k False f1 s1;
         Some (ret, word_of_int ch # str, f2, s2)
       }
     }"

definition fgets ::
  "'s read_call \<Rightarrow> int \<Rightarrow> io_file option \<Rightarrow> 's \<Rightarrow> (bool \<times> byte list \<times> io_file option \<times> 's) option" where
  "fgets rd count stream s =
     (if stream = None then Some (False, [], stream, s)
      else if count < 1 then Some (False, [], stream, s)
      else gets_from rd (nat (count - 1)) True stream s)"

section \<open>Writing and positions\<close>

definition fwrite :: "'s write_call \<Rightarrow> byte list \<Rightarrow> nat \<Rightarrow> nat \<Rightarrow> io_file \<Rightarrow> 's \<Rightarrow> (nat \<times> 's) option" where
  \<comment> \<open>\<open>ptr\<close> is the memory from there on; None also divides by zero\<close>
  "fwrite wr ptr sz count f s =
     do {
       (num_write, s1) \<leftarrow> wr (io_fd f) (take (mul64 sz count) ptr) s;
       if sz = 0 then None else Some (u64_of_int num_write div sz, s1)
     }"

definition flush_buffer :: "'s write_call \<Rightarrow> io_file \<Rightarrow> 's \<Rightarrow> (io_file \<times> 's) option" where
  \<comment> \<open>the three lines that \<open>fputc\<close> has twice\<close>
  "flush_buffer wr f s =
     do {
       (_, s1) \<leftarrow> wr (io_fd f) (map (io_buffer f) [0 ..< nat (buf_size f)]) s;
       Some (f\<lparr>buf_size := 0, buf_pos := 0\<rparr>, s1)
     }"

definition store_char :: "int \<Rightarrow> io_file \<Rightarrow> io_file option" where
  \<comment> \<open>the three lines in the middle of \<open>fputc\<close>\<close>
  "store_char ch f =
     (if buf_pos f < 0 \<or> int BUF_SIZE \<le> buf_pos f then None
      else Some (f\<lparr>io_buffer := (io_buffer f)(nat (buf_pos f) := word_of_int ch),
                   buf_size := buf_size f + 1, buf_pos := buf_pos f + 1\<rparr>))"

definition should_flush :: "io_file \<Rightarrow> int \<Rightarrow> bool" where
  "should_flush f ch \<longleftrightarrow>
     (if odd (io_mode f div IO_UNBUFFERED) then True
      else if odd (io_mode f div IO_LINE_BUFFERED) \<and> ch = 10 then True
      else odd (io_mode f div IO_BLOCK_BUFFERED) \<and> buf_size f = int BUF_SIZE)"

definition fputc :: "'s write_call \<Rightarrow> int \<Rightarrow> io_file option \<Rightarrow> 's \<Rightarrow> (int \<times> io_file option \<times> 's) option" where
  "fputc wr ch stream s =
     (case stream of
        None \<Rightarrow> Some (EOF, None, s)
      | Some f \<Rightarrow> do {
          (f1, s1) \<leftarrow> (if buf_size f = int BUF_SIZE then flush_buffer wr f s else Some (f, s));
          f2 \<leftarrow> store_char ch f1;
          (f3, s2) \<leftarrow> (if should_flush f2 ch then flush_buffer wr f2 s1 else Some (f2, s1));
          Some (ch, Some f3, s2)
        })"

definition ftell :: "'s lseek_call \<Rightarrow> io_file option \<Rightarrow> 's \<Rightarrow> (int \<times> 's) option" where
  "ftell lsk stream s = (case stream of None \<Rightarrow> Some (EOF, s) | Some f \<Rightarrow> lsk (io_fd f) 0 1 s)"

definition fseek :: "'s lseek_call \<Rightarrow> io_file \<Rightarrow> int \<Rightarrow> int \<Rightarrow> 's \<Rightarrow> (int \<times> io_file \<times> 's) option" where
  \<comment> \<open>\<open>long\<close> is returned as an \<open>int\<close>\<close>
  "fseek lsk f offset origin s =
     do {
       (r, s1) \<leftarrow> lsk (io_fd f) offset origin s;
       Some (s32 (u64_of_int r), f\<lparr>buf_pos := 0, buf_size := 0\<rparr>, s1)
     }"

definition putchar :: "nat \<Rightarrow> int \<Rightarrow> mem \<Rightarrow> (int \<times> (nat \<times> byte list) \<times> mem) option" where
  \<comment> \<open>as \<open>printf\<close>: what is returned, and what is given to \<open>write\<close>\<close>
  "putchar buffer ch m =
     map_option (\<lambda>(_, out, m'). (ch, out, m')) (printf buffer [37, 99] [Slot (u64_of_int ch)] m)"

definition puts :: "nat \<Rightarrow> byte list \<Rightarrow> mem \<Rightarrow> (int \<times> (nat \<times> byte list) \<times> mem) option" where
  "puts buffer str m = printf buffer [37, 115] [Str str] m"

end
