(* ===== verification/Syscalls.thy ===== *)
theory Syscalls
  imports Files Stdio
begin

text \<open>
  The system calls of \<open>user/libc/syscall.c\<close> as a process sees them: the handlers of \<open>Files\<close> behind the
  switch of \<open>kernel/kernel/syscall.cc\<close>, which keeps every result in an \<open>int\<close>. A call that waits for
  another process does not come back here: its value is None, as that of a call that faults.
\<close>

definition int_ret :: "int \<Rightarrow> int" where
  \<comment> \<open>\<open>ret\<close> of \<open>SyscallHandler\<close>\<close>
  "int_ret r = s32 (u64_of_int r)"

definition returned :: "('a outcome) option \<Rightarrow> 'a option" where
  "returned r = (case r of Some (Finished x) \<Rightarrow> Some x | _ \<Rightarrow> None)"

definition sys_read :: "files read_call" where
  "sys_read fd count st = map_option (\<lambda>(r, bytes, st1). (int_ret r, bytes, st1)) (returned (SysRead fd count st))"

definition sys_write :: "files write_call" where
  "sys_write fd buf st = map_option (\<lambda>(r, st1). (int_ret r, st1)) (returned (SysWrite fd buf st))"

definition sys_open :: "alloc \<Rightarrow> files open_call" where
  "sys_open alloc pathname flag st =
     map_option (\<lambda>(r, st1). (int_ret r, st1)) (SysOpen alloc pathname (odd (flag div O_TRUNC)) st)"

definition sys_lseek :: "files lseek_call" where
  "sys_lseek fd offset whence st = map_option (\<lambda>(r, st1). (int_ret r, st1)) (SysLseek fd offset whence st)"

definition sys_stat :: "byte list \<Rightarrow> files \<Rightarrow> (int \<times> file_info option) option" where
  "sys_stat pathname st = map_option (\<lambda>(r, info). (int_ret r, info)) (SysStat pathname st)"

definition sys_get_dents :: "int \<Rightarrow> nat \<Rightarrow> files \<Rightarrow> (int \<times> byte list \<times> files) option" where
  "sys_get_dents fd count st = map_option (\<lambda>(r, bytes, st1). (int_ret r, bytes, st1)) (SysGetDents fd count st)"

lemma int_ret_id: "- (2 ^ 31) \<le> r \<Longrightarrow> r < 2 ^ 31 \<Longrightarrow> int_ret r = r"
proof -
  assume r: "- (2 ^ 31) \<le> r" "r < 2 ^ 31"
  have "int (u32 (u64_of_int r)) = r mod 2 ^ 32"
    by (simp add: u64_of_int_def wrap_def zmod_int mod_mod_cancel)
  then have s: "int_ret r = (if r mod 2 ^ 32 < 2 ^ 31 then r mod 2 ^ 32 else r mod 2 ^ 32 - 2 ^ 32)"
    by (simp add: int_ret_def s32_def Let_def)
  show ?thesis
  proof (cases "r < 0")
    case True
    have "r mod 2 ^ 32 = (r + 2 ^ 32) mod 2 ^ 32" by simp
    also have "\<dots> = r + 2 ^ 32" using r True by (intro mod_pos_pos_trivial) simp_all
    finally have "r mod 2 ^ 32 = r + 2 ^ 32" .
    then show ?thesis using s r True by simp
  next
    case False
    then show ?thesis using s r by (simp add: mod_pos_pos_trivial)
  qed
qed

end
