(* ===== verification/UserPrograms.thy ===== *)
theory UserPrograms
  imports Syscalls
begin

text \<open>
  The programs \<open>cat\<close>, \<open>ls\<close> and \<open>pwd\<close> of \<open>user/usr\<close>, over the system calls and \<open>printf\<close>. The state of a
  program is the memory its \<open>printf\<close> writes to and what its system calls work on; \<open>buffer\<close> is the
  address of the 1024 bytes that \<open>printf\<close> has on the stack. None is an access outside a buffer, a call
  that does not come back, or a loop that does not end.
\<close>

definition ascii :: "string \<Rightarrow> byte list" where
  "ascii s = map of_char s"

type_synonym user = "mem \<times> files"

definition user_printf :: "nat \<Rightarrow> byte list \<Rightarrow> arg list \<Rightarrow> user \<Rightarrow> user option" where
  "user_printf buffer format args s =
     do {
       (_, (fd, bytes), m1) \<leftarrow> printf buffer format args (fst s);
       (_, st1) \<leftarrow> sys_write (int fd) bytes (snd s);
       Some (m1, st1)
     }"

definition c_string :: "byte list \<Rightarrow> byte list" where
  \<comment> \<open>the string in a buffer whose next byte is set to 0\<close>
  "c_string bytes = takeWhile (\<lambda>c. c \<noteq> 0) bytes"

section \<open>cat\<close>

partial_function (option) cat_loop :: "nat \<Rightarrow> int \<Rightarrow> nat \<Rightarrow> nat \<Rightarrow> user \<Rightarrow> user option" where
  "cat_loop buffer fd file_size cnt s =
     (if cnt < file_size then
        do {
          r \<leftarrow> sys_read fd 1024 (snd s);
          if fst r < 0 then None
          else do {
            s1 \<leftarrow> user_printf buffer (ascii ''%s'') [Str (c_string (fst (snd r)))] (fst s, snd (snd r));
            cat_loop buffer fd file_size (add64 cnt (nat (fst r))) s1
          }
        }
      else Some s)"

definition cat_main :: "alloc \<Rightarrow> nat \<Rightarrow> byte list list \<Rightarrow> user \<Rightarrow> user option" where
  "cat_main alloc buffer argv s =
     (if length argv < 2 then user_printf buffer (ascii ''Please specify file to print.'') [] s
      else do {
        s1 \<leftarrow> user_printf buffer (ascii (''Reading %s '' @ [CHR 0x0A])) [Str (argv ! 1)] s;
        (ret, info) \<leftarrow> sys_stat (argv ! 1) (snd s1);
        if ret = - 1 then user_printf buffer (ascii (''File %s is not found!'' @ [CHR 0x0A])) [Str (argv ! 1)] s1
        else do {
          file_info \<leftarrow> info;
          s2 \<leftarrow> user_printf buffer (ascii (''File %s size : %d.'' @ [CHR 0x0A])) [Str (argv ! 1), Slot (fi_file_size file_info)] s1;
          (fd, st3) \<leftarrow> sys_open alloc (argv ! 1) 0 (snd s2);
          cat_loop buffer fd (fi_file_size file_info) 0 (fst s2, st3)
        }
      })"

section \<open>ls\<close>

definition read_1bytes :: "byte list \<Rightarrow> nat \<Rightarrow> nat option" where
  "read_1bytes buf i = (if i < length buf then Some (unat (buf ! i)) else None)"

definition read_2bytes :: "byte list \<Rightarrow> nat \<Rightarrow> nat option" where
  "read_2bytes buf i = (if i + 1 < length buf then Some (unat (buf ! i) + 256 * unat (buf ! (i + 1))) else None)"

text \<open>The loop over the entries in \<open>dir_info\<close>, from the offset \<open>current\<close> on.\<close>

function ls_loop :: "nat \<Rightarrow> byte list \<Rightarrow> int \<Rightarrow> nat \<Rightarrow> user \<Rightarrow> user option" where
  "ls_loop buffer dir_info cnt current s =
     (if int current < cnt then
        case read_2bytes dir_info (current + 4) of
          None \<Rightarrow> None
        | Some d_off \<Rightarrow>
            if d_off = 0 then Some s
            else
              case read_1bytes dir_info (current + 6) of
                None \<Rightarrow> None
              | Some name_len \<Rightarrow>
                  if current + 8 + name_len > length dir_info then None
                  else
                    let file_name = take name_len (drop (current + 8) dir_info)
                    in case user_printf buffer (ascii ''%s'') [Str (c_string file_name)] s of
                         None \<Rightarrow> None
                       | Some s1 \<Rightarrow>
                           (case user_printf buffer (ascii '' '') [] s1 of
                              None \<Rightarrow> None
                            | Some s2 \<Rightarrow> ls_loop buffer dir_info cnt (current + d_off) s2)
      else Some s)"
  by pat_completeness auto

termination
  by (relation "measure (\<lambda>(buffer, dir_info, cnt, current, s). nat (cnt - int current))") auto

declare ls_loop.simps [simp del]

definition ls_main :: "alloc \<Rightarrow> nat \<Rightarrow> byte list \<Rightarrow> user \<Rightarrow> user option" where
  \<comment> \<open>\<open>junk\<close> is what the 1024 bytes of \<open>dir_info\<close> hold before; a working directory that does not fit its
     100 bytes leaves \<open>current_dir\<close> unset\<close>
  "ls_main alloc buffer junk s =
     do {
       current_dir \<leftarrow> SysGetCWD 100 (snd s);
       (fd, st1) \<leftarrow> sys_open alloc (c_string current_dir) 0 (snd s);
       (cnt, bytes, st2) \<leftarrow> sys_get_dents fd 1024 st1;
       s3 \<leftarrow> ls_loop buffer (bytes @ drop (length bytes) junk) cnt 0 (fst s, st2);
       user_printf buffer (ascii [CHR 0x0A]) [] s3
     }"

section \<open>pwd\<close>

definition pwd_main :: "nat \<Rightarrow> user \<Rightarrow> user option" where
  "pwd_main buffer s =
     (case SysGetCWD 1024 (snd s) of
        None \<Rightarrow> user_printf buffer (ascii ''Current directory name is too long (>= 1024) Unable to print.'') [] s
      | Some current_dir \<Rightarrow> do {
          s1 \<leftarrow> user_printf buffer (ascii ''%s'') [Str (c_string current_dir)] s;
          user_printf buffer (ascii [CHR 0x0A]) [] s1
        })"

end
