(* ===== verification/StdioProps.thy ===== *)
theory StdioProps
  imports Syscalls FilesProps Ext2Props
begin

text \<open>
  What the buffered files promise. A source of bytes is anything that a read call takes the next bytes
  from; over it \<open>fgetc\<close>, \<open>fread\<close> and \<open>fgets\<close> deliver the bytes in order whatever the buffer holds. A sink
  is anything a write call appends to; over it what \<open>fputc\<close> was given is what was written and what the buffer
  still holds. The files and pipes of the kernel are sources, its terminal is a sink.
\<close>

section \<open>Reading from a source\<close>

lemma uint_ten: "uint (10 :: byte) = 10" by simp

lemma char_not_EOF: "uint (b :: byte) \<noteq> EOF"
  using uint_ge_0 [of b] unfolding EOF_def by linarith

locale byte_source =
  fixes rd :: "int \<Rightarrow> nat \<Rightarrow> 's \<Rightarrow> (int \<times> byte list \<times> 's) option"
    and desc :: int
    and source :: "'s \<Rightarrow> byte list \<Rightarrow> bool"
  assumes source_read: "source s rest \<Longrightarrow> n \<le> BUF_SIZE \<Longrightarrow>
    \<exists>s'. rd desc n s = Some (int (length (take n rest)), take n rest, s') \<and> source s' (drop n rest)"

definition buffered :: "io_file \<Rightarrow> byte list" where
  "buffered f = map (io_buffer f) [nat (buf_pos f) ..< nat (buf_size f)]"

definition readable :: "int \<Rightarrow> io_file \<Rightarrow> bool" where
  "readable desc f \<longleftrightarrow> io_fd f = desc \<and> 0 \<le> buf_pos f \<and> buf_pos f \<le> buf_size f \<and> buf_size f \<le> int BUF_SIZE"

definition delivers :: "('s \<Rightarrow> byte list \<Rightarrow> bool) \<Rightarrow> int \<Rightarrow> io_file option \<Rightarrow> 's \<Rightarrow> byte list \<Rightarrow> bool" where
  \<comment> \<open>what the stream will deliver\<close>
  "delivers source desc f s bs \<longleftrightarrow>
     (\<exists>g rest. f = Some g \<and> readable desc g \<and> source s rest \<and> bs = buffered g @ rest)"

text \<open>The line that \<open>fgets\<close> stores when it has room for k characters.\<close>

definition line_of :: "nat \<Rightarrow> byte list \<Rightarrow> byte list" where
  "line_of k bs = (let l = takeWhile (\<lambda>b. b \<noteq> 10) bs in take k (if length l < length bs then l @ [10] else l))"

lemma line_of_simps [simp]: "line_of 0 bs = []" "line_of k [] = []"
  "line_of (Suc k) (b # bs) = b # (if b = 10 then [] else line_of k bs)"
  by (auto simp: line_of_def Let_def)

context byte_source
begin

abbreviation pending :: "io_file option \<Rightarrow> 's \<Rightarrow> byte list \<Rightarrow> bool" where
  "pending \<equiv> delivers source desc"

lemmas pending_def = delivers_def [of source desc]


lemma pending_buffered:
  assumes "readable desc g" "source s rest" "buf_pos g < buf_size g"
  shows "\<exists>f'. fgetc rd (Some g) s = Some (uint (hd (buffered g)), Some f', s) \<and> pending (Some f') s (tl (buffered g) @ rest)"
proof -
  have u: "[nat (buf_pos g) ..< nat (buf_size g)] = nat (buf_pos g) # [Suc (nat (buf_pos g)) ..< nat (buf_size g)]"
    using assms(1,3) by (intro upt_conv_Cons) (auto simp: readable_def)
  have "fgetc rd (Some g) s = Some (uint (hd (buffered g)), Some (g\<lparr>buf_pos := buf_pos g + 1\<rparr>), s)"
    using assms(1,3) u by (auto simp: fgetc_def fill_buffer_def readable_def buffered_def)
  moreover have "pending (Some (g\<lparr>buf_pos := buf_pos g + 1\<rparr>)) s (tl (buffered g) @ rest)"
    unfolding pending_def using assms u by (auto simp: readable_def buffered_def Suc_nat_eq_nat_zadd1 add.commute intro!: exI [of _ rest])
  ultimately show ?thesis by blast
qed

lemma fgetc_pending:
  assumes "pending f s bs"
  shows "\<exists>f' s'. fgetc rd f s = Some (case bs of [] \<Rightarrow> EOF | b # _ \<Rightarrow> uint b, f', s') \<and> pending f' s' (tl bs)"
proof -
  obtain g rest where g: "f = Some g" "readable desc g" "source s rest" "bs = buffered g @ rest"
    using assms by (auto simp: pending_def)
  show ?thesis
  proof (cases "buf_pos g < buf_size g")
    case True
    then have ne: "buffered g \<noteq> []" using g(2) by (auto simp: buffered_def readable_def)
    then show ?thesis using pending_buffered [OF g(2,3) True] g(1,4) by (cases "buffered g") auto
  next
    case False
    then have eq: "buf_size g = buf_pos g" "buffered g = []" using g(2) by (auto simp: readable_def buffered_def)
    obtain s1 where r: "rd desc BUF_SIZE s = Some (int (length (take BUF_SIZE rest)), take BUF_SIZE rest, s1)"
      "source s1 (drop BUF_SIZE rest)" using source_read [OF g(3), of BUF_SIZE] by auto
    define h where "h = g\<lparr>io_buffer := (\<lambda>i. if i < length (take BUF_SIZE rest) then take BUF_SIZE rest ! i else io_buffer g i),
      buf_size := int (length (take BUF_SIZE rest)), buf_pos := 0\<rparr>"
    have fill: "fill_buffer rd g s = Some (h, s1)" using eq(1) r(1) g(2) by (simp add: fill_buffer_def h_def readable_def)
    have h: "readable desc h" "buffered h = take BUF_SIZE rest"
      using g(2) by (auto simp: readable_def h_def buffered_def intro: nth_equalityI)
    show ?thesis
    proof (cases "rest = []")
      case True
      then have "fgetc rd f s = Some (EOF, Some h, s1)" using g(1) fill by (simp add: fgetc_def) (simp add: h_def)
      moreover have "pending (Some h) s1 []" using True h r(2) by (auto simp: pending_def)
      ultimately show ?thesis using True eq(2) g(4) by auto
    next
      case False
      then have pos: "buf_pos h < buf_size h" by (simp add: h_def BUF_SIZE_def)
      have "fgetc rd f s = fgetc rd (Some h) s1"
        using fill pos by (simp add: fgetc_def g(1)) (simp add: fill_buffer_def)
      moreover obtain b bs' where b: "rest = b # bs'" using False by (cases rest) auto
      moreover have "tl (take BUF_SIZE rest) @ drop BUF_SIZE rest = bs'"
        using append_take_drop_id [of BUF_SIZE rest] b by (simp add: BUF_SIZE_def)
      ultimately show ?thesis using pending_buffered [OF h(1) r(2) pos] h(2) eq(2) g(4) by (auto simp: BUF_SIZE_def)
    qed
  qed
qed

lemma read_item_pending:
  "pending f s bs \<Longrightarrow> \<exists>f' s'. read_item rd k f s = Some (k \<le> length bs, take k bs, f', s') \<and> pending f' s' (drop k bs)"
proof (induction k arbitrary: f s bs)
  case (Suc k)
  obtain f1 s1 where 1: "fgetc rd f s = Some (case bs of [] \<Rightarrow> EOF | b # _ \<Rightarrow> uint b, f1, s1)" "pending f1 s1 (tl bs)"
    using fgetc_pending [OF Suc.prems] by blast
  show ?case
  proof (cases bs)
    case Nil
    then show ?thesis using 1 by (auto simp: EOF_def)
  next
    case (Cons b bs')
    have "uint b \<noteq> EOF" by (rule char_not_EOF)
    then show ?thesis using 1 Suc.IH [OF 1(2)] Cons by auto
  qed
qed simp

lemma read_items_pending:
  assumes "0 < sz"
  shows "pending f s bs \<Longrightarrow> \<exists>f' s'. read_items rd sz k f s = Some (min k (length bs div sz), take (k * sz) bs, f', s')
    \<and> pending f' s' (drop (k * sz) bs)"
proof (induction k arbitrary: f s bs)
  case (Suc k)
  obtain f1 s1 where 1: "read_item rd sz f s = Some (sz \<le> length bs, take sz bs, f1, s1)" "pending f1 s1 (drop sz bs)"
    using read_item_pending [OF Suc.prems] by blast
  show ?case
  proof (cases "sz \<le> length bs")
    case False
    then have "take (Suc k * sz) bs = take sz bs" "drop (Suc k * sz) bs = drop sz bs" "length bs div sz = 0"
      by simp_all
    then show ?thesis using 1 False by (auto simp del: mult_Suc)
  next
    case True
    have d: "length bs div sz = Suc (length (drop sz bs) div sz)"
      using True assms by (simp add: le_div_geq)
    have "take sz bs @ take (k * sz) (drop sz bs) = take (Suc k * sz) bs" by (simp add: take_add)
    then show ?thesis using 1 True d Suc.IH [OF 1(2)] by (auto simp: add.commute)
  qed
qed simp

lemma fread_pending:
  assumes "pending f s bs" "0 < sz"
  shows "\<exists>f' s'. fread rd sz count f s = Some (min count (length bs div sz), take (count * sz) bs, f', s')
    \<and> pending f' s' (drop (count * sz) bs)"
proof (cases "count = 0")
  case True
  then show ?thesis using assms by (auto simp: fread_def)
next
  case False
  then show ?thesis using read_items_pending [OF assms(2,1)] assms(2) by (simp add: fread_def)
qed

lemma gets_from_pending:
  "pending f s bs \<Longrightarrow> \<exists>f' s'. gets_from rd k first f s
      = Some (\<not> (first \<and> 0 < k \<and> bs = []), line_of k bs @ (if first \<and> 0 < k \<and> bs = [] then [] else [0]), f', s')
    \<and> pending f' s' (drop (length (line_of k bs)) bs)"
proof (induction k arbitrary: f s bs first)
  case (Suc k)
  obtain f1 s1 where 1: "fgetc rd f s = Some (case bs of [] \<Rightarrow> EOF | b # _ \<Rightarrow> uint b, f1, s1)" "pending f1 s1 (tl bs)"
    using fgetc_pending [OF Suc.prems] by blast
  show ?case
  proof (cases bs)
    case Nil
    then show ?thesis using 1 by (auto simp: EOF_def)
  next
    case (Cons b bs')
    have "uint b \<noteq> EOF" by (rule char_not_EOF)
    moreover have "uint b = 10 \<longleftrightarrow> b = 10" by (metis uint_ten word_of_int_uint)
    ultimately show ?thesis using 1 Cons Suc.IH [OF 1(2), of False] by auto
  qed
qed simp

lemma fgets_pending:
  assumes "pending f s bs" "1 \<le> count"
  defines "l \<equiv> line_of (nat (count - 1)) bs"
  shows "\<exists>f' s'. fgets rd count f s = Some (count = 1 \<or> bs \<noteq> [], l @ (if count = 1 \<or> bs \<noteq> [] then [0] else []), f', s')
    \<and> pending f' s' (drop (length l) bs)"
proof -
  have "f \<noteq> None" using assms(1) by (auto simp: pending_def)
  then have eq: "fgets rd count f s = gets_from rd (nat (count - 1)) True f s"
    using assms(2) \<open>f \<noteq> None\<close> by (cases f) (simp_all add: fgets_def)
  have "0 < nat (count - 1) \<longleftrightarrow> count \<noteq> 1" using assms(2) by auto
  then show ?thesis unfolding eq l_def using gets_from_pending [OF assms(1), of "nat (count - 1)" True] by auto
qed

end


section \<open>Files and pipes of the kernel are sources\<close>

definition file_source :: "int \<Rightarrow> files \<Rightarrow> byte list \<Rightarrow> bool" where
  \<comment> \<open>a file of at most 8192 bytes, all of whose blocks are direct, from its position on\<close>
  "file_source fd st rest \<longleftrightarrow>
     (\<exists>d f ino. GetDescriptor fd (table st) = Some (Some d) \<and> kind (descs st d) = ACTUAL_FILE f
        \<and> (case fd_inode f of None \<Rightarrow> ReadInode (fd_inode_num f) (fs st) | Some i \<Rightarrow> Some i) = Some ino
        \<and> inode_size ino \<le> 8192 \<and> fd_offset f \<le> inode_size ino
        \<and> rest = map (file_byte ino (disk (fs st))) [fd_offset f ..< inode_size ino])"

lemma file_source_read:
  assumes "file_source fd st rest" "n \<le> BUF_SIZE"
  shows "\<exists>st'. sys_read fd n st = Some (int (length (take n rest)), take n rest, st') \<and> file_source fd st' (drop n rest)"
proof -
  obtain d f ino where d: "GetDescriptor fd (table st) = Some (Some d)" "kind (descs st d) = ACTUAL_FILE f"
    and ino: "(case fd_inode f of None \<Rightarrow> ReadInode (fd_inode_num f) (fs st) | Some i \<Rightarrow> Some i) = Some ino"
    and sz: "inode_size ino \<le> 8192" "fd_offset f \<le> inode_size ino"
    and rest: "rest = map (file_byte ino (disk (fs st))) [fd_offset f ..< inode_size ino]"
    using assms(1) by (auto simp: file_source_def)
  have n: "n \<le> 4096" using assms(2) by (simp add: BUF_SIZE_def)
  then have cast: "u64_of_int (s32 n) = n" by (simp add: wrap_simps)
  have len: "length (take n rest) = min n (inode_size ino - fd_offset f)" using rest by simp
  have bytes: "ReadFile ino (disk (fs st)) n (fd_offset f) = Some (take n rest)"
    using ReadFile_bytes [of "fd_offset f" n ino "disk (fs st)"] n sz rest
    by (simp add: take_map min_def add.commute flip: map_map)
  let ?f = "f\<lparr>fd_inode := Some ino, fd_offset := fd_offset f + length (take n rest)\<rparr>"
  have "SysRead fd n st = Some (Finished (int (length (take n rest)), take n rest, set_kind d (ACTUAL_FILE ?f) st))"
    using d ino cast bytes by (simp add: SysRead_def fd_read_def del: length_take)
  moreover have "int_ret (int (length (take n rest))) = int (length (take n rest))"
    using n len by (intro int_ret_id) auto
  ultimately have "sys_read fd n st = Some (int (length (take n rest)), take n rest, set_kind d (ACTUAL_FILE ?f) st)"
    by (simp add: sys_read_def returned_def del: length_take)
  moreover have "drop n rest = map (file_byte ino (disk (fs st))) [fd_offset f + length (take n rest) ..< inode_size ino]"
    unfolding len rest using sz by (simp add: drop_map min_def)
  then have "file_source fd (set_kind d (ACTUAL_FILE ?f) st) (drop n rest)"
    using d sz len by (auto simp: file_source_def set_kind_def)
  ultimately show ?thesis by blast
qed

interpretation kernel_file: byte_source sys_read fd "file_source fd" for fd
  by unfold_locales (rule file_source_read)

definition pipe_source :: "int \<Rightarrow> files \<Rightarrow> byte list \<Rightarrow> bool" where
  \<comment> \<open>the end of a pipe that does not block\<close>
  "pipe_source fd st rest \<longleftrightarrow>
     (\<exists>d p. GetDescriptor fd (table st) = Some (Some d) \<and> kind (descs st d) = PIPE_READ p \<and> \<not> is_blocking (pipes st p)
        \<and> pipe_size (pipes st p) \<le> kPipeMaxSize \<and> rest = map (pipe_buf (pipes st p)) [0 ..< pipe_size (pipes st p)])"

lemma pipe_source_read:
  assumes "pipe_source fd st rest" "n \<le> BUF_SIZE"
  shows "\<exists>st'. sys_read fd n st = Some (int (length (take n rest)), take n rest, st') \<and> pipe_source fd st' (drop n rest)"
proof -
  obtain d p where d: "GetDescriptor fd (table st) = Some (Some d)" "kind (descs st d) = PIPE_READ p" "\<not> is_blocking (pipes st p)"
    and sz: "pipe_size (pipes st p) \<le> 4096" and rest: "rest = map (pipe_buf (pipes st p)) [0 ..< pipe_size (pipes st p)]"
    using assms(1) by (auto simp: pipe_source_def kPipeMaxSize_def)
  have n: "n \<le> 4096" using assms(2) by (simp add: BUF_SIZE_def)
  let ?s = "pipe_size (pipes st p)" and ?m = "min n (pipe_size (pipes st p))"
  have m: "min (s32 n) (int ?s) = int ?m" using n by (simp add: wrap_simps)
  have ret: "int_ret (int ?m) = int ?m" using n by (intro int_ret_id) auto
  have bytes: "map (pipe_buf (pipes st p)) [0 ..< ?m] = take n rest" by (rule nth_equalityI) (auto simp: rest)
  show ?thesis
  proof (cases "?s = 0")
    case True
    then have "sys_read fd n st = Some (int (length (take n rest)), take n rest, st\<lparr>pipes := (pipes st)(p := pipes st p)\<rparr>)"
      using d rest by (simp add: sys_read_def returned_def SysRead_def pipe_read_def int_ret_id)
    then show ?thesis using assms(1) True rest by auto
  next
    case False
    let ?p = "pipes st p\<lparr>pipe_size := ?s - ?m, pipe_buf := (\<lambda>i. if i < ?s - ?m then pipe_buf (pipes st p) (i + ?m) else pipe_buf (pipes st p) i)\<rparr>"
    have "pipe_read n (pipes st p) = Some (Finished (take n rest, ?p))"
      using False by (simp add: pipe_read_def m bytes Let_def)
    then have "sys_read fd n st = Some (int (length (take n rest)), take n rest, st\<lparr>pipes := (pipes st)(p := ?p)\<rparr>)"
      using d ret rest by (simp add: sys_read_def returned_def SysRead_def min.commute)
    moreover have "drop n rest = map (pipe_buf ?p) [0 ..< pipe_size ?p]"
      by (rule nth_equalityI) (auto simp: rest add.commute min_def)
    then have "pipe_source fd (st\<lparr>pipes := (pipes st)(p := ?p)\<rparr>) (drop n rest)"
      using d sz by (auto simp: pipe_source_def kPipeMaxSize_def)
    ultimately show ?thesis by blast
  qed
qed

interpretation kernel_pipe: byte_source sys_read fd "pipe_source fd" for fd
  by unfold_locales (rule pipe_source_read)


section \<open>Writing to a sink\<close>

locale byte_sink =
  fixes wr :: "int \<Rightarrow> byte list \<Rightarrow> 's \<Rightarrow> (int \<times> 's) option"
    and desc :: int
    and sink :: "'s \<Rightarrow> byte list \<Rightarrow> bool"
  assumes sink_write: "sink s out \<Longrightarrow> \<exists>n s'. wr desc bs s = Some (n, s') \<and> sink s' (out @ bs)"

definition unwritten :: "io_file \<Rightarrow> byte list" where
  "unwritten f = map (io_buffer f) [0 ..< nat (buf_size f)]"

definition writable :: "int \<Rightarrow> io_file \<Rightarrow> bool" where
  \<comment> \<open>a stream that is only written to\<close>
  "writable desc f \<longleftrightarrow> io_fd f = desc \<and> buf_pos f = buf_size f \<and> 0 \<le> buf_size f \<and> buf_size f \<le> int BUF_SIZE"

definition accepted :: "('s \<Rightarrow> byte list \<Rightarrow> bool) \<Rightarrow> int \<Rightarrow> io_file option \<Rightarrow> 's \<Rightarrow> byte list \<Rightarrow> bool" where
  \<comment> \<open>what was written and what the buffer still holds\<close>
  "accepted sink desc f s bs \<longleftrightarrow> (\<exists>g out. f = Some g \<and> writable desc g \<and> sink s out \<and> bs = out @ unwritten g)"

fun put_chars :: "'s write_call \<Rightarrow> int list \<Rightarrow> io_file option \<Rightarrow> 's \<Rightarrow> (io_file option \<times> 's) option" where
  \<comment> \<open>a run of \<open>fputc\<close>\<close>
  "put_chars wr [] f s = Some (f, s)"
| "put_chars wr (c # cs) f s = do { (_, f1, s1) \<leftarrow> fputc wr c f s; put_chars wr cs f1 s1 }"

context byte_sink
begin

lemma flush_sink:
  assumes "writable desc g" "sink s out"
  shows "\<exists>g' s'. flush_buffer wr g s = Some (g', s') \<and> g' = g\<lparr>buf_size := 0, buf_pos := 0\<rparr> \<and> sink s' (out @ unwritten g)"
  using sink_write [OF assms(2), of "unwritten g"] assms(1) by (auto simp: flush_buffer_def unwritten_def writable_def)

lemma fputc_accepted:
  assumes "accepted sink desc f s bs"
  shows "\<exists>f' s'. fputc wr c f s = Some (c, f', s') \<and> accepted sink desc f' s' (bs @ [word_of_int c])"
proof -
  obtain g out where g: "f = Some g" "writable desc g" "sink s out" "bs = out @ unwritten g"
    using assms by (auto simp: accepted_def)
  have "\<exists>g1 s1 out1. (if buf_size g = int BUF_SIZE then flush_buffer wr g s else Some (g, s)) = Some (g1, s1)
    \<and> writable desc g1 \<and> buf_size g1 < int BUF_SIZE \<and> sink s1 out1 \<and> bs = out1 @ unwritten g1"
  proof (cases "buf_size g = int BUF_SIZE")
    case True
    then show ?thesis using flush_sink [OF g(2,3)] g
      by (auto simp: writable_def unwritten_def BUF_SIZE_def)
  next
    case False
    then show ?thesis using g by (auto simp: writable_def)
  qed
  then obtain g1 s1 out1 where 1: "(if buf_size g = int BUF_SIZE then flush_buffer wr g s else Some (g, s)) = Some (g1, s1)"
    "writable desc g1" "buf_size g1 < int BUF_SIZE" "sink s1 out1" "bs = out1 @ unwritten g1" by blast
  define g2 where "g2 = g1\<lparr>io_buffer := (io_buffer g1)(nat (buf_pos g1) := word_of_int c), buf_size := buf_size g1 + 1, buf_pos := buf_pos g1 + 1\<rparr>"
  have w: "writable desc g2" using 1(2,3) by (auto simp: writable_def g2_def)
  have "nat (buf_size g1 + 1) = Suc (nat (buf_size g1))" using 1(2) unfolding writable_def by linarith
  then have u: "unwritten g2 = unwritten g1 @ [word_of_int c]" using 1(2) by (simp add: unwritten_def g2_def writable_def)
  have "\<exists>g3 s3 out3. (if should_flush g2 c then flush_buffer wr g2 s1 else Some (g2, s1)) = Some (g3, s3)
    \<and> writable desc g3 \<and> sink s3 out3 \<and> out3 @ unwritten g3 = out1 @ unwritten g2"
  proof (cases "should_flush g2 c")
    case True
    then show ?thesis using flush_sink [OF w 1(4)] w by (auto simp: writable_def unwritten_def)
  next
    case False
    then show ?thesis using w 1(4) by auto
  qed
  then obtain g3 s3 out3 where 3: "(if should_flush g2 c then flush_buffer wr g2 s1 else Some (g2, s1)) = Some (g3, s3)"
    "writable desc g3" "sink s3 out3" "out3 @ unwritten g3 = out1 @ unwritten g2" by blast
  have "store_char c g1 = Some g2" using 1(2,3) by (simp add: store_char_def writable_def g2_def)
  then have "fputc wr c f s = Some (c, Some g3, s3)"
    unfolding fputc_def g(1) option.case 1(1) by (simp add: 3(1))
  moreover have "accepted sink desc (Some g3) s3 (bs @ [word_of_int c])"
    unfolding accepted_def using 3 u 1(5) by (intro exI [of _ g3] exI [of _ out3]) simp
  ultimately show ?thesis by blast
qed

lemma put_chars_accepted:
  "accepted sink desc f s bs \<Longrightarrow> \<exists>f' s'. put_chars wr cs f s = Some (f', s') \<and> accepted sink desc f' s' (bs @ map word_of_int cs)"
proof (induction cs arbitrary: f s bs)
  case (Cons c cs)
  obtain f1 s1 where 1: "fputc wr c f s = Some (c, f1, s1)" "accepted sink desc f1 s1 (bs @ [word_of_int c])"
    using fputc_accepted [OF Cons.prems] by blast
  then show ?case using Cons.IH [OF 1(2)] by auto
qed simp

end

definition terminal_sink :: "int \<Rightarrow> files \<Rightarrow> byte list \<Rightarrow> bool" where
  "terminal_sink fd st out \<longleftrightarrow> GetDescriptor fd (table st) = Some None \<and> terminal st = out"

interpretation terminal: byte_sink sys_write fd "terminal_sink fd" for fd
  by unfold_locales (auto simp: terminal_sink_def sys_write_def returned_def SysWrite_def)

text \<open>A stream with no mode, as \<open>stdout\<close> has none, keeps what it is given, and neither \<open>fflush\<close> nor
  \<open>fclose\<close> writes it.\<close>

lemma nothing_flushed: "fputc wr c (Some (std_stream n)) s = Some (c, Some ((std_stream n)\<lparr>io_buffer := (\<lambda>_. 0)(0 := word_of_int c), buf_size := 1, buf_pos := 1\<rparr>), s)"
  by (simp add: fputc_def std_stream_def should_flush_def store_char_def BUF_SIZE_def)

text \<open>When a read fails, \<open>fgetc\<close> does not see it: it returns what is left in the buffer.\<close>

lemma failed_read_unseen:
  assumes "rd (io_fd f) BUF_SIZE s = Some (- 1, [], s1)" "buf_size f = buf_pos f"
  shows "\<exists>f1. fgetc rd (Some f) s = Some (uint (io_buffer f 0), Some f1, s1)"
  using assms by (simp add: fgetc_def fill_buffer_def BUF_SIZE_def)

end
