(* ===== verification/UserProps.thy ===== *)
theory UserProps
  imports UserPrograms StdioProps PrintfProps
begin

text \<open>
  What the programs of the user see of the kernel: opening a path, what \<open>printf\<close> puts on the terminal, and
  the loops of \<open>cat\<close> and \<open>ls\<close>.
\<close>

section \<open>Printing\<close>

lemma ascii_simps: "ascii [] = []" "ascii (c # s) = of_char c # ascii s" "ascii (s @ t) = ascii s @ ascii t"
  by (simp_all add: ascii_def)

definition on_terminal :: "files \<Rightarrow> bool" where
  \<comment> \<open>standard output is the terminal\<close>
  "on_terminal st \<longleftrightarrow> GetDescriptor 1 (table st) = Some None"

lemma user_printf_text:
  assumes "text_of True format args cs" "length cs < 1024" "0 < buffer" "on_terminal (snd s)"
  shows "\<exists>m1. user_printf buffer format args s = Some (m1, snd s\<lparr>terminal := terminal (snd s) @ cs\<rparr>)"
proof -
  obtain m1 where v: "vsnprintf True buffer 1024 format args (fst s) = Some (s32 (length cs), m1)"
    "bytes_at m1 buffer (length cs) = cs"
    using snprintf_buffer [of True format args cs buffer 1024 "fst s"] assms(1-3)
    by (auto simp: text_of_def vsnprintf_def min_def not_less)
  have l: "s32 (length cs) = int (length cs)" using assms(2) by (simp add: wrap_simps)
  have "bytes_at (m1(buffer + length cs := 0)) buffer (length cs) = bytes_at m1 buffer (length cs)"
    by (auto simp: bytes_at_def)
  then have "bytes_at (m1(buffer + length cs := 0)) buffer (length cs) = cs" using v(2) by simp
  then have "printf buffer format args (fst s) = Some (int (length cs), (1, cs), m1(buffer + length cs := 0))"
    using v(1) l assms(2) by (simp add: printf_def)
  moreover have "sys_write 1 cs (snd s) = Some (int_ret (- 1), snd s\<lparr>terminal := terminal (snd s) @ cs\<rparr>)"
    using assms(4) by (simp add: sys_write_def returned_def SysWrite_def on_terminal_def)
  ultimately show ?thesis by (simp add: user_printf_def)
qed

lemma text_plain: "37 \<notin> set lit \<Longrightarrow> text_of floats lit args lit"
  using text_lit [OF _ text_nil, of lit floats args] by simp

lemma text_s: "text_of floats (ascii ''%s'') [Str p] p"
  using text_str [OF text_nil [of floats "[]"], of p] by (simp add: ascii_simps)

text \<open>A text of 1024 characters or more is too long for \<open>printf\<close>: it stores a 0 behind its buffer.\<close>

lemma printf_overflow:
  assumes "text_of True format args cs" "1024 \<le> length cs" "length cs < 2 ^ 31" "0 < buffer"
  shows "printf buffer format args m = None"
proof -
  obtain m1 where "vsnprintf True buffer 1024 format args m = Some (s32 (length cs), m1)"
    using snprintf_buffer [of True format args cs buffer 1024 m] assms(1,4) by (auto simp: text_of_def vsnprintf_def)
  then show ?thesis using assms(2,3) by (simp add: printf_def wrap_simps)
qed

section \<open>Opening a path\<close>

definition file_at :: "byte list \<Rightarrow> files \<Rightarrow> inode \<Rightarrow> bool" where
  \<comment> \<open>the path leads to a file with this inode\<close>
  "file_at path st ino \<longleftrightarrow>
     (\<exists>i. 0 < i \<and> GetInodeNumberFromPath (c_view (GetAbsolutePath (kstr_of_chars path) (working_dir st))) (fs st) = Some i
        \<and> i < 2 ^ 31 \<and> ReadInode (u64_of_int i) (fs st) = Some ino)"

definition contents :: "inode \<Rightarrow> files \<Rightarrow> byte list" where
  "contents ino st = map (file_byte ino (disk (fs st))) [0 ..< inode_size ino]"

lemma length_contents [simp]: "length (contents ino st) = inode_size ino"
  by (simp add: contents_def)

abbreviation numbered_files :: "alloc \<Rightarrow> files \<Rightarrow> nat option list \<Rightarrow> bool" where
  "numbered_files alloc st ds \<equiv> fd_numbers.numbered alloc (table st) ds"

lemma sys_open_descriptor:
  assumes n: "numbered_files alloc st ds" and len: "length ds < 2 ^ 31" and f: "file_at path st ino"
    and flag: "even (flag div O_TRUNC)"
  shows "\<exists>d i st'. sys_open alloc path flag st = Some (int (length ds), st') \<and> numbered_files alloc st' (ds @ [Some d])
    \<and> terminal st' = terminal st \<and> fs st' = fs st \<and> ReadInode (u64_of_int i) (fs st) = Some ino
    \<and> kind (descs st' d) = ACTUAL_FILE \<lparr>fd_inode_num = u64_of_int i, fd_offset = 0, fd_inode = None\<rparr>"
proof -
  obtain i where i: "0 < i" "GetInodeNumberFromPath (c_view (GetAbsolutePath (kstr_of_chars path) (working_dir st))) (fs st) = Some i"
    "ReadInode (u64_of_int i) (fs st) = Some ino" using f by (auto simp: file_at_def)
  obtain d st1 where d: "new_object alloc st = (d, st1)" "table st1 = table st" "fs st1 = fs st" "terminal st1 = terminal st"
    by (auto simp: new_object_def Let_def)
  obtain t where t: "map_put alloc None (int (length ds)) (Some d) (table st) = Some t" "fd_numbers.numbered alloc t (ds @ [Some d])"
    using fd_numbers.numbered_append [OF n, of "Some d"] fd_numbers.numbered_entries [OF n] by auto
  let ?file = "\<lparr>fd_inode_num = u64_of_int i, fd_offset = 0, fd_inode = None\<rparr> :: file_desc"
  let ?st = "st1\<lparr>fs := fs st, descs := (descs st1)(d := new_descriptor_of (ACTUAL_FILE ?file)), table := t\<rparr>"
  have "SysOpen alloc path False st = Some (int (length ds), ?st)"
    using i d t(1) fd_numbers.numbered_entries [OF n] by (simp add: SysOpen_def open_file_def AddDescriptor_def)
  then have "sys_open alloc path flag st = Some (int (length ds), ?st)"
    using flag len by (simp add: sys_open_def int_ret_id)
  then show ?thesis using t(2) d(4) i(3) by (intro exI [of _ d] exI [of _ i] exI [of _ ?st]) (simp add: new_descriptor_of_def)
qed

lemma new_number: "numbered_files alloc st (ds @ [Some d]) \<Longrightarrow> GetDescriptor (int (length ds)) (table st) = Some (Some d)"
  using GetDescriptor_numbered [of alloc "table st" "ds @ [Some d]" "int (length ds)"] by (simp add: desc_at_def)

lemma sys_open_ok:
  assumes "numbered_files alloc st ds" "length ds < 2 ^ 31" "file_at path st ino" "inode_size ino \<le> 8192" "even (flag div O_TRUNC)"
  shows "\<exists>d st'. sys_open alloc path flag st = Some (int (length ds), st') \<and> numbered_files alloc st' (ds @ [Some d])
    \<and> file_source (int (length ds)) st' (contents ino st) \<and> terminal st' = terminal st"
proof -
  obtain d i st' where o: "sys_open alloc path flag st = Some (int (length ds), st')" "numbered_files alloc st' (ds @ [Some d])"
    "terminal st' = terminal st" "fs st' = fs st" "ReadInode (u64_of_int i) (fs st) = Some ino"
    "kind (descs st' d) = ACTUAL_FILE \<lparr>fd_inode_num = u64_of_int i, fd_offset = 0, fd_inode = None\<rparr>"
    using sys_open_descriptor [OF assms(1,2,3,5)] by blast
  then have "file_source (int (length ds)) st' (contents ino st)"
    using new_number [OF o(2)] assms(4) by (auto simp: file_source_def contents_def)
  then show ?thesis using o by blast
qed

lemma sys_get_dents_ok:
  assumes "GetDescriptor fd (table st) = Some (Some d)" "kind (descs st d) = ACTUAL_FILE \<lparr>fd_inode_num = n, fd_offset = 0, fd_inode = None\<rparr>"
    "ReadInode n (fs st) = Some ino" "GetFileFormatFromMode (word_of_nat (inode_mode ino)) = S_DIR" "inode_size ino \<le> 1024"
  shows "\<exists>st'. sys_get_dents fd 1024 st = Some (int (inode_size ino), contents ino st, st')
    \<and> table st' = table st \<and> terminal st' = terminal st"
proof -
  have r: "ReadFile ino (disk (fs st)) 1024 0 = Some (contents ino st)"
    using ReadFile_bytes [of 0 1024 ino "disk (fs st)"] assms(5) by (simp add: contents_def min_def)
  have "s32 1024 = 1024" by (simp add: wrap_simps)
  then show ?thesis
    using assms r by (auto simp: sys_get_dents_def SysGetDents_def Stat_def fd_read_def u64_of_int_def int_ret_id set_kind_def)
qed

lemma numbered_on_terminal: "numbered_files alloc st ds \<Longrightarrow> 1 < length ds \<Longrightarrow> ds ! 1 = None \<Longrightarrow> on_terminal st"
  using GetDescriptor_numbered [of alloc "table st" ds 1] by (simp add: on_terminal_def desc_at_def)

lemma sys_stat_ok:
  assumes "file_at path st ino"
  shows "\<exists>info. sys_stat path st = Some (0, Some info) \<and> fi_file_size info = inode_size ino"
proof -
  obtain i where i: "0 < i" "GetInodeNumberFromPath (c_view (GetAbsolutePath (kstr_of_chars path) (working_dir st))) (fs st) = Some i"
    "i < 2 ^ 31" "ReadInode (u64_of_int i) (fs st) = Some ino" using assms by (auto simp: file_at_def)
  have "u64_of_int i \<noteq> 0" using i(1,3) by (simp add: u64_of_int_def)
  then show ?thesis using i by (simp add: sys_stat_def SysStat_def StatPath_def Stat_def int_ret_id)
qed

section \<open>The loop of cat\<close>

lemma cat_loop_ok:
  assumes "file_source fd (snd s) rest" "on_terminal (snd s)" "length rest < 1024" "0 \<notin> set rest" "0 < buffer"
  shows "\<exists>m1 st1. cat_loop buffer fd (length rest) 0 s = Some (m1, st1) \<and> terminal st1 = terminal (snd s) @ rest"
proof (cases "rest = []")
  case True
  then show ?thesis by (subst cat_loop.simps) (cases s, simp)
next
  case False
  obtain st1 where r: "sys_read fd 1024 (snd s) = Some (int (length rest), rest, st1)"
    using file_source_read [OF assms(1), of 1024] assms(3) by (auto simp: BUF_SIZE_def)
  have t: "table st1 = table (snd s)" "terminal st1 = terminal (snd s)"
    using r by (auto simp: sys_read_def returned_def SysRead_def set_kind_def split: option.splits outcome.splits kind.splits
        bind_splits prod.splits)
  have "takeWhile (\<lambda>c. c \<noteq> 0) rest = rest" using assms(4) by (auto simp: takeWhile_eq_all_conv)
  then have prints: "text_of True (ascii ''%s'') [Str (c_string rest)] rest" using text_s [of True rest] by (simp only: c_string_def)
  have "on_terminal (snd (fst s, st1))" using assms(2) t by (simp add: on_terminal_def)
  from user_printf_text [OF prints assms(3,5) this]
  obtain m1 where p: "user_printf buffer (ascii ''%s'') [Str (c_string rest)] (fst s, st1) = Some (m1, st1\<lparr>terminal := terminal st1 @ rest\<rparr>)"
    by auto
  have a: "add64 0 (nat (int (length rest))) = length rest" using assms(3) by (simp add: wrap_simps)
  have "cat_loop buffer fd (length rest) 0 s = cat_loop buffer fd (length rest) (length rest) (m1, st1\<lparr>terminal := terminal st1 @ rest\<rparr>)"
    using False r p a by (subst cat_loop.simps) simp
  also have "\<dots> = Some (m1, st1\<lparr>terminal := terminal st1 @ rest\<rparr>)" by (subst cat_loop.simps) simp
  finally show ?thesis using t(2) by auto
qed

section \<open>The loop of ls\<close>

definition listing :: "dir_entry list \<Rightarrow> byte list" where
  "listing entries = concat (map (\<lambda>e. c_string (de_name e) @ [32]) entries)"

lemma ls_loop_ok:
  assumes "0 < buffer"
  shows "parse_entries data dir_size cur = Some entries \<Longrightarrow> on_terminal (snd s)
    \<Longrightarrow> \<exists>m1. ls_loop buffer data (int dir_size) cur s = Some (m1, snd s\<lparr>terminal := terminal (snd s) @ listing entries\<rparr>)"
proof (induction data dir_size cur arbitrary: entries s rule: parse_entries.induct)
  case (1 data dir_size cur)
  show ?case
  proof (cases "cur < dir_size")
    case False
    then have "entries = []" using 1(2) by (subst (asm) parse_entries.simps) simp
    then show ?thesis using False by (subst ls_loop.simps) (cases s, simp add: listing_def)
  next
    case True
    define d where "d = list16 data (cur + 4)"
    have b6: "cur + 6 \<le> length data" using 1(2) True by (subst (asm) parse_entries.simps) (simp split: if_splits)
    then have r2: "read_2bytes data (cur + 4) = Some d"
      by (simp add: read_2bytes_def d_def list16_def rd16_def list_mem_def)
    show ?thesis
    proof (cases "d = 0")
      case True
      then have "entries = []" using 1(2) b6 \<open>cur < dir_size\<close> by (subst (asm) parse_entries.simps) (simp add: d_def)
      then show ?thesis using True \<open>cur < dir_size\<close> r2 by (subst ls_loop.simps) (cases s, simp add: listing_def)
    next
      case False
      define k where "k = unat (data ! (cur + 6))"
      define name where "name = take k (drop (cur + 8) data)"
      obtain es e where b: "cur + 8 \<le> length data" "cur + 8 + k \<le> length data" "parse_entries data dir_size (cur + d) = Some es"
        "entries = e # es" "de_name e = name"
        using 1(2) b6 True False
        by (subst (asm) parse_entries.simps) (auto simp: Let_def name_def k_def simp flip: d_def split: if_splits)
      have r1: "read_1bytes data (cur + 6) = Some k" using b(1) by (simp add: read_1bytes_def k_def)
      have "length (c_string name) \<le> length name" by (simp add: c_string_def length_takeWhile_le)
      also have "\<dots> \<le> k" by (simp add: name_def)
      also have "k < 256" using unat_byte_lt [of "data ! (cur + 6)"] by (simp add: k_def)
      finally have len: "length (c_string name) < 1024" by simp
      obtain m1 where p1: "user_printf buffer (ascii ''%s'') [Str (c_string name)] s
          = Some (m1, snd s\<lparr>terminal := terminal (snd s) @ c_string name\<rparr>)"
        using user_printf_text [OF text_s len assms 1(3)] by blast
      let ?s1 = "(m1, snd s\<lparr>terminal := terminal (snd s) @ c_string name\<rparr>)"
      have "on_terminal (snd ?s1)" using 1(3) by (simp add: on_terminal_def)
      moreover have sp: "ascii '' '' = [32]" by (simp add: ascii_simps)
      moreover have "text_of True [32] [] [32]" by (rule text_plain) simp
      ultimately obtain m2 where p2: "user_printf buffer (ascii '' '') [] ?s1
          = Some (m2, snd ?s1\<lparr>terminal := terminal (snd ?s1) @ [32]\<rparr>)"
        using user_printf_text [of "[32]" "[]" "[32]" buffer ?s1] assms by auto
      let ?s2 = "(m2, snd ?s1\<lparr>terminal := terminal (snd ?s1) @ [32]\<rparr>)"
      have step: "ls_loop buffer data (int dir_size) cur s = ls_loop buffer data (int dir_size) (cur + d) ?s2"
        using True False r2 r1 b(2) p1 p2 by (subst ls_loop.simps) (simp add: Let_def flip: name_def)
      have "on_terminal (snd ?s2)" using 1(3) by (simp add: on_terminal_def)
      moreover have "\<not> cur + 6 > length data" "d \<noteq> 0" "\<not> cur + 8 > length data" "\<not> cur + 8 + k > length data"
        using b6 False b(1,2) by auto
      ultimately obtain m3 where "ls_loop buffer data (int dir_size) (cur + d) ?s2
          = Some (m3, snd ?s2\<lparr>terminal := terminal (snd ?s2) @ listing es\<rparr>)"
        using 1(1) [OF True _ d_def _ _ k_def refl _ b(3), of ?s2] by blast
      then show ?thesis unfolding step b(4) by (simp add: listing_def b(5))
    qed
  qed
qed

end
