(* ===== verification/Vector.thy ===== *)
theory Vector
  imports Prelude
begin

text \<open>
  The vector of the kernel, \<open>kernel/std/vector.h\<close>, with the lifetime of its elements. Memory is a store of
  arrays; a slot of an array is raw, holds an object, or holds an object that was moved from. What C++
  leaves undefined is None: reading or destroying a raw slot, constructing over a live object (which
  would be lost), giving back an array with live objects in it. \<open>alloc\<close> gives fresh addresses above 0 from the
  set of those in use; sizes do not overflow.
\<close>

datatype 'a slot = Raw | Obj 'a | Moved

type_synonym 'a arrays = "nat \<Rightarrow> 'a slot list option"

record vec =
  vsize :: nat
  alloc_size :: nat
  vdata :: nat  \<comment> \<open>0 is \<open>nullptr\<close>\<close>

section \<open>Objects in arrays\<close>

definition slot_at :: "nat \<Rightarrow> nat \<Rightarrow> 'a arrays \<Rightarrow> 'a slot option" where
  "slot_at a i h = do { sl \<leftarrow> h a; if i < length sl then Some (sl ! i) else None }"

definition set_slot :: "nat \<Rightarrow> nat \<Rightarrow> 'a slot \<Rightarrow> 'a arrays \<Rightarrow> 'a arrays option" where
  "set_slot a i x h = do { sl \<leftarrow> h a; if i < length sl then Some (h(a \<mapsto> sl[i := x])) else None }"

definition get_obj :: "nat \<Rightarrow> nat \<Rightarrow> 'a arrays \<Rightarrow> 'a option" where
  "get_obj a i h = do { s \<leftarrow> slot_at a i h; case s of Obj x \<Rightarrow> Some x | _ \<Rightarrow> None }"

definition construct :: "nat \<Rightarrow> nat \<Rightarrow> 'a \<Rightarrow> 'a arrays \<Rightarrow> 'a arrays option" where
  "construct a i x h = do { s \<leftarrow> slot_at a i h; case s of Obj _ \<Rightarrow> None | _ \<Rightarrow> set_slot a i (Obj x) h }"

definition construct_move :: "nat \<Rightarrow> nat \<Rightarrow> nat \<Rightarrow> nat \<Rightarrow> 'a arrays \<Rightarrow> 'a arrays option" where
  \<comment> \<open>from slot j of b into slot i of a\<close>
  "construct_move a i b j h = do { x \<leftarrow> get_obj b j h; h1 \<leftarrow> set_slot b j Moved h; construct a i x h1 }"

definition destroy :: "nat \<Rightarrow> nat \<Rightarrow> 'a arrays \<Rightarrow> 'a arrays option" where
  "destroy a i h = do { s \<leftarrow> slot_at a i h; case s of Raw \<Rightarrow> None | _ \<Rightarrow> set_slot a i Raw h }"

definition assign_obj :: "nat \<Rightarrow> nat \<Rightarrow> 'a \<Rightarrow> 'a arrays \<Rightarrow> 'a arrays option" where
  "assign_obj a i x h = do { s \<leftarrow> slot_at a i h; case s of Raw \<Rightarrow> None | _ \<Rightarrow> set_slot a i (Obj x) h }"

definition allocate :: "(nat set \<Rightarrow> nat) \<Rightarrow> nat \<Rightarrow> 'a arrays \<Rightarrow> nat \<times> 'a arrays" where
  \<comment> \<open>\<open>kmalloc\<close> of no bytes is \<open>nullptr\<close>\<close>
  "allocate alloc n h = (if n = 0 then (0, h) else let a = alloc (dom h) in (a, h(a \<mapsto> replicate n Raw)))"

definition deallocate :: "nat \<Rightarrow> 'a arrays \<Rightarrow> 'a arrays option" where
  "deallocate a h = do { sl \<leftarrow> h a; if \<exists>x. Obj x \<in> set sl then None else Some (h(a := None)) }"

fun for_slots :: "(nat \<Rightarrow> 'a arrays \<Rightarrow> 'a arrays option) \<Rightarrow> nat list \<Rightarrow> 'a arrays \<Rightarrow> 'a arrays option" where
  "for_slots f [] h = Some h"
| "for_slots f (i # is') h = do { h1 \<leftarrow> f i h; for_slots f is' h1 }"

section \<open>The private operations\<close>

definition GetNewAllocSize :: "vec \<Rightarrow> nat" where
  "GetNewAllocSize v = (if alloc_size v = 0 then 1 else alloc_size v * 2)"

definition Resize :: "(nat set \<Rightarrow> nat) \<Rightarrow> nat \<Rightarrow> vec \<Rightarrow> 'a arrays \<Rightarrow> (vec \<times> 'a arrays) option" where
  "Resize alloc new_alloc_size v h =
     do {
       let (new_loc, h0) = allocate alloc new_alloc_size h;
       h1 \<leftarrow> for_slots (\<lambda>i. construct_move new_loc i (vdata v) i) [0 ..< vsize v] h0;
       h2 \<leftarrow> for_slots (destroy (vdata v)) [0 ..< vsize v] h1;
       h3 \<leftarrow> (if vdata v \<noteq> 0 then deallocate (vdata v) h2 else Some h2);
       Some (v\<lparr>alloc_size := new_alloc_size, vdata := new_loc\<rparr>, h3)
     }"

definition Destroy :: "vec \<Rightarrow> 'a arrays \<Rightarrow> 'a arrays option" where
  "Destroy v h =
     (if vdata v = 0 then Some h
      else do { h1 \<leftarrow> for_slots (destroy (vdata v)) [0 ..< vsize v] h; deallocate (vdata v) h1 })"

definition copy_from :: "(nat set \<Rightarrow> nat) \<Rightarrow> vec \<Rightarrow> 'a arrays \<Rightarrow> (vec \<times> 'a arrays) option" where
  \<comment> \<open>\<open>CopyFrom\<close>\<close>
  "copy_from alloc w h =
     (if alloc_size w = 0 then Some (\<lparr>vsize = vsize w, alloc_size = 0, vdata = 0\<rparr>, h)
      else do {
        let (a, h0) = allocate alloc (alloc_size w) h;
        h1 \<leftarrow> for_slots (\<lambda>i h. do { x \<leftarrow> get_obj (vdata w) i h; construct a i x h }) [0 ..< vsize w] h0;
        Some (\<lparr>vsize = vsize w, alloc_size = alloc_size w, vdata = a\<rparr>, h1)
      })"

section \<open>Construction and assignment\<close>

definition vec_new :: vec where
  "vec_new = \<lparr>vsize = 0, alloc_size = 0, vdata = 0\<rparr>"

definition vec_sized :: "(nat set \<Rightarrow> nat) \<Rightarrow> 'a \<Rightarrow> nat \<Rightarrow> 'a arrays \<Rightarrow> (vec \<times> 'a arrays) option" where
  \<comment> \<open>\<open>def\<close> is what the default constructor makes\<close>
  "vec_sized alloc def n h =
     do {
       let (a, h0) = allocate alloc n h;
       h1 \<leftarrow> for_slots (\<lambda>i. construct a i def) [0 ..< n] h0;
       Some (\<lparr>vsize = n, alloc_size = n, vdata = a\<rparr>, h1)
     }"

definition vec_filled :: "(nat set \<Rightarrow> nat) \<Rightarrow> 'a \<Rightarrow> nat \<Rightarrow> 'a \<Rightarrow> 'a arrays \<Rightarrow> (vec \<times> 'a arrays) option" where
  "vec_filled alloc def n x h =
     do {
       (v, h1) \<leftarrow> vec_sized alloc def n h;
       h2 \<leftarrow> for_slots (\<lambda>i. assign_obj (vdata v) i x) [0 ..< n] h1;
       Some (v, h2)
     }"

definition vec_moved :: "vec \<Rightarrow> vec \<times> vec" where
  \<comment> \<open>the move constructor: the new vector and what is left of the old one\<close>
  "vec_moved w = (w, \<lparr>vsize = 0, alloc_size = 0, vdata = 0\<rparr>)"

definition vec_assign :: "(nat set \<Rightarrow> nat) \<Rightarrow> vec \<Rightarrow> vec \<Rightarrow> 'a arrays \<Rightarrow> (vec \<times> 'a arrays) option" where
  \<comment> \<open>\<open>v = w\<close>\<close>
  "vec_assign alloc w v h =
     (if alloc_size v < vsize w then do { h1 \<leftarrow> Destroy v h; copy_from alloc w h1 }
      else do {
        h1 \<leftarrow> for_slots (destroy (vdata v)) [0 ..< vsize v] h;
        h2 \<leftarrow> for_slots (\<lambda>i h. do { x \<leftarrow> get_obj (vdata w) i h; construct (vdata v) i x h }) [0 ..< vsize w] h1;
        Some (v\<lparr>vsize := vsize w\<rparr>, h2)
      })"

definition vec_move_assign :: "vec \<Rightarrow> vec \<Rightarrow> 'a arrays \<Rightarrow> ((vec \<times> vec) \<times> 'a arrays) option" where
  "vec_move_assign w v h = do { h1 \<leftarrow> Destroy v h; Some (vec_moved w, h1) }"

section \<open>Elements\<close>

definition vec_at :: "nat \<Rightarrow> vec \<Rightarrow> 'a arrays \<Rightarrow> 'a option" where
  "vec_at i v h = get_obj (vdata v) i h"

definition vec_set :: "nat \<Rightarrow> 'a \<Rightarrow> vec \<Rightarrow> 'a arrays \<Rightarrow> 'a arrays option" where
  \<comment> \<open>an assignment through \<open>operator[]\<close>\<close>
  "vec_set i x v h = assign_obj (vdata v) i x h"

definition vec_back :: "vec \<Rightarrow> 'a arrays \<Rightarrow> 'a option" where
  "vec_back v h = (if vsize v = 0 then None else get_obj (vdata v) (vsize v - 1) h)"

definition reserve :: "(nat set \<Rightarrow> nat) \<Rightarrow> nat \<Rightarrow> vec \<Rightarrow> 'a arrays \<Rightarrow> (vec \<times> 'a arrays) option" where
  "reserve alloc sz v h = (if sz < alloc_size v then Some (v, h) else Resize alloc sz v h)"

definition vec_push_back :: "(nat set \<Rightarrow> nat) \<Rightarrow> ('a arrays \<Rightarrow> 'a option) \<Rightarrow> vec \<Rightarrow> 'a arrays \<Rightarrow> (vec \<times> 'a arrays) option" where
  \<comment> \<open>the argument is a reference, read when the element is constructed\<close>
  "vec_push_back alloc t v h =
     do {
       (v1, h1) \<leftarrow> (if vsize v \<ge> alloc_size v then Resize alloc (GetNewAllocSize v) v h else Some (v, h));
       x \<leftarrow> t h1;
       h2 \<leftarrow> construct (vdata v1) (vsize v1) x h1;
       Some (v1\<lparr>vsize := vsize v1 + 1\<rparr>, h2)
     }"

definition vec_pop_back :: "vec \<Rightarrow> 'a arrays \<Rightarrow> (vec \<times> 'a arrays) option" where
  "vec_pop_back v h =
     (if vsize v = 0 then None
      else do { h1 \<leftarrow> destroy (vdata v) (vsize v - 1) h; Some (v\<lparr>vsize := vsize v - 1\<rparr>, h1) })"

definition vec_erase :: "nat \<Rightarrow> vec \<Rightarrow> 'a arrays \<Rightarrow> (vec \<times> 'a arrays) option" where
  \<comment> \<open>the element at \<open>begin() + loc\<close>; nothing for \<open>end()\<close>\<close>
  "vec_erase loc v h =
     (if loc = vsize v then Some (v, h)
      else if vsize v = 0 then None
      else do {
        h1 \<leftarrow> destroy (vdata v) loc h;
        h2 \<leftarrow> for_slots (\<lambda>i. construct_move (vdata v) i (vdata v) (i + 1)) [loc ..< vsize v - 1] h1;
        Some (v\<lparr>vsize := vsize v - 1\<rparr>, h2)
      })"

end
