(* ===== verification/VectorProps.thy ===== *)
theory VectorProps
  imports Vector
begin

text \<open>
  The vector is a list: no operation reads a raw slot or loses an object, and any run of operations gives the
  results of the same run on lists. The exceptions the code has are at the end: an assignment to itself
  and a \<open>push_back\<close> of an element of the vector.
\<close>

section \<open>Loops over slots\<close>

named_theorems slot_simps \<open>single slots\<close>

lemma slot_at_mid [slot_simps]: "h a = Some (pre @ x # post) \<Longrightarrow> slot_at a (length pre) h = Some x"
  by (simp add: slot_at_def)

lemma set_slot_mid [slot_simps]: "h a = Some (pre @ x # post) \<Longrightarrow> set_slot a (length pre) y h = Some (h(a \<mapsto> pre @ y # post))"
  by (simp add: set_slot_def)

lemma get_obj_mid [slot_simps]: "h a = Some (pre @ Obj x # post) \<Longrightarrow> get_obj a (length pre) h = Some x"
  by (simp add: get_obj_def slot_simps)

definition vacant :: "'a slot \<Rightarrow> bool" where
  "vacant s \<longleftrightarrow> (\<forall>x. s \<noteq> Obj x)"

lemma vacant_simps [simp]: "vacant Raw" "vacant Moved" "\<not> vacant (Obj x)"
  by (simp_all add: vacant_def)

lemma construct_mid [slot_simps]:
  "h a = Some (pre @ z # post) \<Longrightarrow> vacant z \<Longrightarrow> construct a (length pre) x h = Some (h(a \<mapsto> pre @ Obj x # post))"
  by (cases z) (simp_all add: construct_def slot_simps)

lemma destroy_mid [slot_simps]:
  "h a = Some (pre @ z # post) \<Longrightarrow> Raw \<noteq> z \<Longrightarrow> destroy a (length pre) h = Some (h(a \<mapsto> pre @ Raw # post))"
  by (cases z) (simp_all add: destroy_def slot_simps)

lemma assign_mid [slot_simps]:
  "h a = Some (pre @ z # post) \<Longrightarrow> Raw \<noteq> z \<Longrightarrow> assign_obj a (length pre) x h = Some (h(a \<mapsto> pre @ Obj x # post))"
  by (cases z) (simp_all add: assign_obj_def slot_simps)

lemma for_slots_upt: "for_slots f [k ..< Suc (k + n)] h = do { h1 \<leftarrow> f k h; for_slots f [Suc k ..< Suc (k + n)] h1 }"
  by (simp add: upt_conv_Cons del: upt_Suc)

text \<open>One step of a loop over the slots after \<open>pre\<close>, with the slots done moved into \<open>pre\<close>.\<close>

lemma destroy_slots:
  "h a = Some (pre @ ys @ post) \<Longrightarrow> Raw \<notin> set ys
   \<Longrightarrow> for_slots (destroy a) [length pre ..< length pre + length ys] h = Some (h(a \<mapsto> pre @ replicate (length ys) Raw @ post))"
proof (induction ys arbitrary: pre h)
  case Nil
  then show ?case by (simp add: fun_upd_idem)
next
  case (Cons y ys)
  then have "for_slots (destroy a) [length (pre @ [Raw]) ..< length (pre @ [Raw]) + length ys] (h(a \<mapsto> pre @ Raw # ys @ post))
      = Some ((h(a \<mapsto> pre @ Raw # ys @ post))(a \<mapsto> (pre @ [Raw]) @ replicate (length ys) Raw @ post))"
    by (intro Cons.IH) auto
  then show ?case using Cons.prems by (simp add: for_slots_upt slot_simps del: upt_Suc fun_upd_apply)
qed

lemma copy_slots:
  assumes "a \<noteq> b"
  shows "h a = Some (pre @ zs @ post) \<Longrightarrow> h b = Some (pb @ map Obj ys @ qb) \<Longrightarrow> length zs = length ys \<Longrightarrow> length pb = length pre
   \<Longrightarrow> \<forall>z \<in> set zs. vacant z
   \<Longrightarrow> for_slots (\<lambda>i h. do { x \<leftarrow> get_obj b i h; construct a i x h }) [length pre ..< length pre + length ys] h
      = Some (h(a \<mapsto> pre @ map Obj ys @ post))"
proof (induction ys arbitrary: pre pb zs h)
  case Nil
  then show ?case by (simp add: fun_upd_idem)
next
  case (Cons y ys)
  obtain z zs' where zs: "zs = z # zs'" using Cons.prems(3) by (cases zs) auto
  have "get_obj b (length pre) h = Some y" using get_obj_mid [of h b pb y "map Obj ys @ qb"] Cons.prems(2,4) by simp
  moreover have "for_slots (\<lambda>i h. do { x \<leftarrow> get_obj b i h; construct a i x h })
      [length (pre @ [Obj y]) ..< length (pre @ [Obj y]) + length ys] (h(a \<mapsto> pre @ Obj y # zs' @ post))
      = Some ((h(a \<mapsto> pre @ Obj y # zs' @ post))(a \<mapsto> (pre @ [Obj y]) @ map Obj ys @ post))"
    using Cons.prems zs assms by (intro Cons.IH [of _ _ zs' "pb @ [Obj y]"]) auto
  ultimately show ?case using Cons.prems zs by (simp add: for_slots_upt slot_simps del: upt_Suc fun_upd_apply)
qed

lemma move_slots:
  assumes "a \<noteq> b"
  shows "h a = Some (pre @ zs @ post) \<Longrightarrow> h b = Some (pb @ map Obj ys @ qb) \<Longrightarrow> length zs = length ys \<Longrightarrow> length pb = length pre
   \<Longrightarrow> \<forall>z \<in> set zs. vacant z
   \<Longrightarrow> for_slots (\<lambda>i. construct_move a i b i) [length pre ..< length pre + length ys] h
      = Some (h(a \<mapsto> pre @ map Obj ys @ post, b \<mapsto> pb @ replicate (length ys) Moved @ qb))"
proof (induction ys arbitrary: pre pb zs h)
  case Nil
  then show ?case by (simp add: fun_upd_idem)
next
  case (Cons y ys)
  obtain z zs' where zs: "zs = z # zs'" using Cons.prems(3) by (cases zs) auto
  let ?h = "h(b \<mapsto> pb @ Moved # map Obj ys @ qb, a \<mapsto> pre @ Obj y # zs' @ post)"
  have b: "h b = Some (pb @ Obj y # map Obj ys @ qb)" using Cons.prems(2) by simp
  have "construct_move a (length pre) b (length pre) h = Some ?h"
    using Cons.prems zs assms b get_obj_mid [of h b pb y "map Obj ys @ qb"] set_slot_mid [of h b pb "Obj y" "map Obj ys @ qb" Moved]
      construct_mid [of "h(b \<mapsto> pb @ Moved # map Obj ys @ qb)" a pre z "zs' @ post" y]
    by (simp add: construct_move_def)
  moreover have "for_slots (\<lambda>i. construct_move a i b i) [length (pre @ [Obj y]) ..< length (pre @ [Obj y]) + length ys] ?h
      = Some (?h(a \<mapsto> (pre @ [Obj y]) @ map Obj ys @ post, b \<mapsto> (pb @ [Moved]) @ replicate (length ys) Moved @ qb))"
    using Cons.prems zs assms by (intro Cons.IH [of _ _ zs']) auto
  ultimately show ?case using assms by (simp add: for_slots_upt del: upt_Suc fun_upd_apply)
qed

lemma shift_slots:
  "h a = Some (pre @ z # map Obj ys @ post) \<Longrightarrow> vacant z
   \<Longrightarrow> \<exists>z'. vacant z' \<and> for_slots (\<lambda>i. construct_move a i a (i + 1)) [length pre ..< length pre + length ys] h
      = Some (h(a \<mapsto> pre @ map Obj ys @ z' # post))"
proof (induction ys arbitrary: pre z h)
  case Nil
  then show ?case by (intro exI [of _ z]) (simp add: fun_upd_idem)
next
  case (Cons y ys)
  have a: "h a = Some ((pre @ [z]) @ Obj y # map Obj ys @ post)" using Cons.prems(1) by simp
  let ?h1 = "h(a \<mapsto> pre @ z # Moved # map Obj ys @ post)"
  let ?h = "h(a \<mapsto> pre @ Obj y # Moved # map Obj ys @ post)"
  have "construct_move a (length pre) a (length pre + 1) h = Some ?h"
    using a get_obj_mid [of h a "pre @ [z]" y "map Obj ys @ post"] set_slot_mid [of h a "pre @ [z]" "Obj y" "map Obj ys @ post" Moved] construct_mid [of ?h1 a pre z "Moved # map Obj ys @ post" y] Cons.prems(2)
    by (simp add: construct_move_def)
  moreover have "\<exists>z'. vacant z' \<and> for_slots (\<lambda>i. construct_move a i a (i + 1)) [Suc (length pre) ..< Suc (length pre + length ys)] ?h
      = Some (h(a \<mapsto> pre @ Obj y # map Obj ys @ z' # post))"
    using Cons.IH [of ?h "pre @ [Obj y]" Moved] by (simp add: fun_upd_same del: upt_Suc fun_upd_apply)
  ultimately show ?case by (simp add: for_slots_upt del: upt_Suc fun_upd_apply)
qed


section \<open>Vectors as lists\<close>

definition vec_rep :: "'a arrays \<Rightarrow> vec \<Rightarrow> 'a list \<Rightarrow> bool" where
  "vec_rep h v xs \<longleftrightarrow>
     vsize v = length xs \<and> (if vdata v = 0 then xs = [] \<and> alloc_size v = 0
       else \<exists>rest. h (vdata v) = Some (map Obj xs @ rest) \<and> (\<forall>z \<in> set rest. vacant z) \<and> alloc_size v = length xs + length rest)"

definition alloc_good :: "(nat set \<Rightarrow> nat) \<Rightarrow> bool" where
  "alloc_good alloc \<longleftrightarrow> (\<forall>S. finite S \<longrightarrow> alloc S \<notin> S \<and> 0 < alloc S)"

definition store_ok :: "'a arrays \<Rightarrow> bool" where
  "store_ok h \<longleftrightarrow> finite (dom h) \<and> h 0 = None"

text \<open>Arrays that another vector does not own.\<close>

definition others_same :: "nat set \<Rightarrow> 'a arrays \<Rightarrow> 'a arrays \<Rightarrow> bool" where
  "others_same A h h' \<longleftrightarrow> (\<forall>a. a \<noteq> 0 \<longrightarrow> h a \<noteq> None \<longrightarrow> a \<notin> A \<longrightarrow> h' a = h a)"

lemma others_same_trans: "others_same A h h1 \<Longrightarrow> others_same A h1 h2 \<Longrightarrow> others_same A h h2"
  by (auto simp: others_same_def)

lemma vec_repE:
  assumes "vec_rep h v xs" "vdata v \<noteq> 0"
  obtains rest where "h (vdata v) = Some (map Obj xs @ rest)" "\<forall>z \<in> set rest. vacant z"
    "vsize v = length xs" "alloc_size v = length xs + length rest"
  using assms by (auto simp: vec_rep_def)

lemma vec_rep_other: "vec_rep h v xs \<Longrightarrow> others_same A h h' \<Longrightarrow> vdata v \<notin> A \<Longrightarrow> vec_rep h' v xs"
  by (auto simp: vec_rep_def others_same_def split: if_splits)

lemma no_objects: "\<forall>z \<in> set rest. vacant z \<Longrightarrow> \<not> (\<exists>x. Obj x \<in> set rest)"
  by (auto simp: vacant_def)

lemma Destroy_ok:
  assumes "store_ok h" "vec_rep h v xs"
  shows "\<exists>h'. Destroy v h = Some h' \<and> store_ok h' \<and> others_same {vdata v} h h'"
proof (cases "vdata v = 0")
  case True
  then show ?thesis using assms by (simp add: Destroy_def others_same_def)
next
  case False
  obtain rest where r: "h (vdata v) = Some (map Obj xs @ rest)" "\<forall>z \<in> set rest. vacant z" "vsize v = length xs"
    by (rule vec_repE [OF assms(2) False]) (rule that)
  let ?h = "h(vdata v \<mapsto> replicate (length xs) Raw @ rest)"
  have "Raw \<notin> set (map Obj xs)" by auto
  with destroy_slots [of h "vdata v" "[]" "map Obj xs" rest] r(1,3)
  have "for_slots (destroy (vdata v)) [0 ..< vsize v] h = Some ?h" by simp
  moreover have "deallocate (vdata v) ?h = Some (?h(vdata v := None))"
    using no_objects [OF r(2)] by (auto simp: deallocate_def)
  ultimately have "Destroy v h = Some (?h(vdata v := None))" using False by (simp add: Destroy_def)
  moreover have "finite (dom (?h(vdata v := None)))" using assms(1) by (simp add: store_ok_def)
  moreover have "(?h(vdata v := None)) 0 = None" "others_same {vdata v} h (?h(vdata v := None))"
    using assms(1) False by (auto simp: store_ok_def others_same_def)
  ultimately show ?thesis by (auto simp: store_ok_def)
qed

lemma Resize_ok:
  assumes al: "alloc_good alloc" and h: "store_ok h" and v: "vec_rep h v xs" and n: "length xs \<le> n" "0 < n"
  shows "\<exists>v' h'. Resize alloc n v h = Some (v', h') \<and> store_ok h' \<and> vec_rep h' v' xs \<and> alloc_size v' = n
    \<and> vdata v' \<noteq> 0 \<and> (vdata v' = vdata v \<or> h (vdata v') = None) \<and> others_same {vdata v} h h'
    \<and> dom h' \<subseteq> insert (vdata v') (dom h - {vdata v})"
proof -
  define a where "a = alloc (dom h)"
  have a: "h a = None" "0 < a" using al h by (auto simp: alloc_good_def store_ok_def a_def)
  define h0 where "h0 = h(a \<mapsto> replicate n Raw)"
  have al0: "allocate alloc n h = (a, h0)" using n(2) by (simp add: allocate_def a_def h0_def Let_def)
  have sz: "vsize v = length xs" using v by (simp add: vec_rep_def)
  have rep: "replicate n (Raw :: 'a slot) = replicate (length xs) Raw @ replicate (n - length xs) Raw"
    using n(1) by (simp flip: replicate_add)
  let ?new = "map Obj xs @ replicate (n - length xs) Raw"
  let ?v = "v\<lparr>alloc_size := n, vdata := a\<rparr>"
  show ?thesis
  proof (cases "vdata v = 0")
    case True
    then have xs: "xs = []" using v by (simp add: vec_rep_def)
    then have "Resize alloc n v h = Some (?v, h0)" using al0 True sz by (simp add: Resize_def)
    moreover have "vec_rep h0 ?v xs" using xs sz a by (auto simp: vec_rep_def h0_def)
    moreover have "store_ok h0" "others_same {vdata v} h h0" "dom h0 \<subseteq> insert a (dom h - {vdata v})"
      using h a True by (auto simp: store_ok_def others_same_def h0_def)
    ultimately show ?thesis using a by auto
  next
    case False
    obtain rest where r: "h (vdata v) = Some (map Obj xs @ rest)" "\<forall>z \<in> set rest. vacant z"
      by (rule vec_repE [OF v False]) (rule that)
    have ne: "a \<noteq> vdata v" using a r(1) by auto
    let ?h1 = "h0(a \<mapsto> ?new, vdata v \<mapsto> replicate (length xs) Moved @ rest)"
    have h0: "h0 a = Some ([] @ replicate (length xs) Raw @ replicate (n - length xs) Raw)" "h0 (vdata v) = Some ([] @ map Obj xs @ rest)"
      using rep r(1) ne by (simp_all add: h0_def)
    from move_slots [OF ne h0, of]
    have m: "for_slots (\<lambda>i. construct_move a i (vdata v) i) [0 ..< vsize v] h0 = Some ?h1" using sz by simp
    let ?h2 = "?h1(vdata v \<mapsto> replicate (length xs) Raw @ rest)"
    from destroy_slots [of ?h1 "vdata v" "[]" "replicate (length xs) Moved" rest]
    have d: "for_slots (destroy (vdata v)) [0 ..< vsize v] ?h1 = Some ?h2" using sz by simp
    have f: "deallocate (vdata v) ?h2 = Some (?h2(vdata v := None))"
      using no_objects [OF r(2)] by (auto simp: deallocate_def)
    have "Resize alloc n v h = Some (?v, ?h2(vdata v := None))"
      using al0 m d f False by (simp add: Resize_def del: fun_upd_apply)
    moreover have "vec_rep (?h2(vdata v := None)) ?v xs" using a ne n(1) sz by (auto simp: vec_rep_def)
    moreover have "store_ok (?h2(vdata v := None))" using h a False by (auto simp: store_ok_def h0_def)
    moreover have "others_same {vdata v} h (?h2(vdata v := None))" "dom (?h2(vdata v := None)) \<subseteq> insert a (dom h - {vdata v})"
      using a by (auto simp: others_same_def h0_def)
    ultimately show ?thesis using a by auto
  qed
qed


lemma nth_split: "i < length xs \<Longrightarrow> xs = take i xs @ xs ! i # drop (Suc i) xs"
  by (rule id_take_nth_drop)

lemma store_upd: "store_ok h \<Longrightarrow> a \<noteq> 0 \<Longrightarrow> store_ok (h(a := x))"
  by (auto simp: store_ok_def)

lemma others_upd: "others_same {a} h (h(a := x))"
  by (simp add: others_same_def)

text \<open>What an operation on a vector does: it stays a vector, now of ys, and leaves the other arrays alone; its
  array is the old one or a new one.\<close>

definition becomes :: "'a arrays \<Rightarrow> vec \<Rightarrow> 'a arrays \<Rightarrow> vec \<Rightarrow> 'a list \<Rightarrow> bool" where
  "becomes h v h' v' ys \<longleftrightarrow> store_ok h' \<and> vec_rep h' v' ys \<and> others_same {vdata v} h h'
     \<and> (vdata v' = vdata v \<or> vdata v' = 0 \<or> h (vdata v') = None) \<and> dom h' \<subseteq> insert (vdata v') (dom h - {vdata v})"

lemma push_back_ok:
  assumes al: "alloc_good alloc" and h: "store_ok h" and v: "vec_rep h v xs"
  shows "\<exists>v' h'. vec_push_back alloc (\<lambda>_. Some x) v h = Some (v', h') \<and> becomes h v h' v' (xs @ [x])"
proof -
  have "\<exists>v1 h1 z rest. (if vsize v \<ge> alloc_size v then Resize alloc (GetNewAllocSize v) v h else Some (v, h)) = Some (v1, h1)
    \<and> store_ok h1 \<and> h1 (vdata v1) = Some (map Obj xs @ z # rest) \<and> (\<forall>z \<in> set (z # rest). vacant z) \<and> vsize v1 = length xs
    \<and> alloc_size v1 = length xs + Suc (length rest) \<and> vdata v1 \<noteq> 0 \<and> others_same {vdata v} h h1 \<and> (vdata v1 = vdata v \<or> h (vdata v1) = None)
    \<and> dom h1 \<subseteq> insert (vdata v1) (dom h - {vdata v})"
  proof (cases "vsize v \<ge> alloc_size v")
    case True
    have "length xs \<le> alloc_size v" "vsize v = length xs" using v by (auto simp: vec_rep_def split: if_splits)
    then have n: "length xs < GetNewAllocSize v" using True by (auto simp: GetNewAllocSize_def)
    then have "length xs \<le> GetNewAllocSize v" "0 < GetNewAllocSize v" by auto
    from Resize_ok [OF al h v this] obtain v1 h1 where r: "Resize alloc (GetNewAllocSize v) v h = Some (v1, h1)" "store_ok h1"
      "vec_rep h1 v1 xs" "alloc_size v1 = GetNewAllocSize v" "vdata v1 \<noteq> 0" "vdata v1 = vdata v \<or> h (vdata v1) = None"
      "others_same {vdata v} h h1" "dom h1 \<subseteq> insert (vdata v1) (dom h - {vdata v})" by blast
    obtain rest where c: "h1 (vdata v1) = Some (map Obj xs @ rest)" "\<forall>z \<in> set rest. vacant z" "vsize v1 = length xs"
      "alloc_size v1 = length xs + length rest" by (rule vec_repE [OF r(3,5)]) (rule that)
    then obtain z rest' where "rest = z # rest'" using n r(4) by (cases rest) auto
    then show ?thesis using r c True by auto
  next
    case False
    then have ne: "vdata v \<noteq> 0" using v by (auto simp: vec_rep_def split: if_splits)
    obtain rest where c: "h (vdata v) = Some (map Obj xs @ rest)" "\<forall>z \<in> set rest. vacant z" "vsize v = length xs"
      "alloc_size v = length xs + length rest" by (rule vec_repE [OF v ne]) (rule that)
    then obtain z rest' where "rest = z # rest'" using False by (cases rest) auto
    then show ?thesis using c False h ne by (auto simp: others_same_def)
  qed
  then obtain v1 h1 z rest where 1: "(if vsize v \<ge> alloc_size v then Resize alloc (GetNewAllocSize v) v h else Some (v, h)) = Some (v1, h1)"
    "store_ok h1" "h1 (vdata v1) = Some (map Obj xs @ z # rest)" "\<forall>z \<in> set (z # rest). vacant z" "vsize v1 = length xs"
    "alloc_size v1 = length xs + Suc (length rest)" "vdata v1 \<noteq> 0" "others_same {vdata v} h h1"
    "vdata v1 = vdata v \<or> h (vdata v1) = None" "dom h1 \<subseteq> insert (vdata v1) (dom h - {vdata v})" by blast
  let ?h = "h1(vdata v1 \<mapsto> map Obj xs @ Obj x # rest)"
  have "construct (vdata v1) (vsize v1) x h1 = Some ?h"
    using construct_mid [of h1 "vdata v1" "map Obj xs" z rest x] 1(3,4,5) by simp
  then have "vec_push_back alloc (\<lambda>_. Some x) v h = Some (v1\<lparr>vsize := vsize v1 + 1\<rparr>, ?h)"
    using 1(1) by (simp add: vec_push_back_def)
  moreover have "vec_rep ?h (v1\<lparr>vsize := vsize v1 + 1\<rparr>) (xs @ [x])" using 1(4,5,6,7) by (auto simp: vec_rep_def)
  moreover have "others_same {vdata v} h ?h" using 1(8,9) by (auto simp: others_same_def)
  ultimately show ?thesis using store_upd [OF 1(2,7)] 1(7,9,10) by (auto simp: becomes_def)
qed

lemma pop_back_ok:
  assumes h: "store_ok h" and v: "vec_rep h v xs" and ne: "xs \<noteq> []"
  shows "\<exists>v' h'. vec_pop_back v h = Some (v', h') \<and> becomes h v h' v' (butlast xs)"
proof -
  have nz: "vdata v \<noteq> 0" using v ne by (auto simp: vec_rep_def split: if_splits)
  obtain rest where c: "h (vdata v) = Some (map Obj xs @ rest)" "\<forall>z \<in> set rest. vacant z" "vsize v = length xs"
    "alloc_size v = length xs + length rest" by (rule vec_repE [OF v nz]) (rule that)
  obtain ys y where xs: "xs = ys @ [y]" using ne by (cases xs rule: rev_cases) auto
  let ?h = "h(vdata v \<mapsto> map Obj ys @ Raw # rest)"
  have "destroy (vdata v) (vsize v - 1) h = Some ?h"
    using destroy_mid [of h "vdata v" "map Obj ys" "Obj y" rest] c xs by simp
  then have "vec_pop_back v h = Some (v\<lparr>vsize := vsize v - 1\<rparr>, ?h)" using c(3) ne by (simp add: vec_pop_back_def)
  moreover have "vec_rep ?h (v\<lparr>vsize := vsize v - 1\<rparr>) (butlast xs)" using c nz xs by (auto simp: vec_rep_def)
  ultimately show ?thesis using store_upd [OF h nz] by (auto simp: becomes_def others_upd)
qed

lemma erase_ok:
  assumes h: "store_ok h" and v: "vec_rep h v xs" and loc: "loc \<le> length xs"
  shows "\<exists>v' h'. vec_erase loc v h = Some (v', h') \<and> becomes h v h' v' (take loc xs @ drop (Suc loc) xs)"
proof (cases "loc = length xs")
  case True
  then show ?thesis using h v by (auto simp add: vec_erase_def vec_rep_def becomes_def others_same_def)
next
  case False
  then have l: "loc < length xs" using loc by simp
  then have nz: "vdata v \<noteq> 0" using v by (auto simp: vec_rep_def split: if_splits)
  obtain rest where c: "h (vdata v) = Some (map Obj xs @ rest)" "\<forall>z \<in> set rest. vacant z" "vsize v = length xs"
    "alloc_size v = length xs + length rest" by (rule vec_repE [OF v nz]) (rule that)
  let ?ys = "take loc xs" and ?zs = "drop (Suc loc) xs"
  have xs: "map Obj xs = map Obj ?ys @ Obj (xs ! loc) # map Obj ?zs"
    using arg_cong [OF nth_split [OF l], of "map Obj"] by simp
  let ?h1 = "h(vdata v \<mapsto> map Obj ?ys @ Raw # map Obj ?zs @ rest)"
  have lp: "length (map Obj ?ys) = loc" using l by simp
  have "h (vdata v) = Some (map Obj ?ys @ Obj (xs ! loc) # map Obj ?zs @ rest)" using c(1) xs by simp
  then have 1: "destroy (vdata v) loc h = Some ?h1"
    using destroy_mid [of h "vdata v" "map Obj ?ys" "Obj (xs ! loc)" "map Obj ?zs @ rest"] lp by simp
  have "loc + length ?zs = vsize v - 1" using l c(3) by simp
  with shift_slots [of ?h1 "vdata v" "map Obj ?ys" Raw ?zs rest] lp
  obtain z' where z': "vacant z'" "for_slots (\<lambda>i. construct_move (vdata v) i (vdata v) (i + 1)) [loc ..< vsize v - 1] ?h1
      = Some (?h1(vdata v \<mapsto> map Obj ?ys @ map Obj ?zs @ z' # rest))" by auto
  let ?h = "?h1(vdata v \<mapsto> map Obj ?ys @ map Obj ?zs @ z' # rest)"
  have "vec_erase loc v h = Some (v\<lparr>vsize := vsize v - 1\<rparr>, ?h)"
    using 1 z'(2) l c(3) by (auto simp add: vec_erase_def simp del: fun_upd_apply)
  moreover have "vec_rep ?h (v\<lparr>vsize := vsize v - 1\<rparr>) (?ys @ ?zs)"
    using c nz z'(1) l by (auto simp: vec_rep_def)
  moreover have "store_ok ?h" by (intro store_upd h nz)
  moreover have "others_same {vdata v} h ?h" by (simp add: others_same_def)
  ultimately show ?thesis by (auto simp: becomes_def)
qed

lemma get_ok:
  assumes v: "vec_rep h v xs" and i: "i < length xs"
  shows "get_obj (vdata v) i h = Some (xs ! i)"
proof -
  have nz: "vdata v \<noteq> 0" using v i by (auto simp: vec_rep_def split: if_splits)
  obtain rest where "h (vdata v) = Some (map Obj xs @ rest)" by (rule vec_repE [OF v nz]) (rule that)
  then show ?thesis using i by (simp add: get_obj_def slot_at_def nth_append)
qed

lemma set_ok:
  assumes h: "store_ok h" and v: "vec_rep h v xs" and i: "i < length xs"
  shows "\<exists>h'. vec_set i x v h = Some h' \<and> becomes h v h' v (xs[i := x])"
proof -
  have nz: "vdata v \<noteq> 0" using v i by (auto simp: vec_rep_def split: if_splits)
  obtain rest where c: "h (vdata v) = Some (map Obj xs @ rest)" "\<forall>z \<in> set rest. vacant z" "vsize v = length xs"
    "alloc_size v = length xs + length rest" by (rule vec_repE [OF v nz]) (rule that)
  have "vec_set i x v h = Some (h(vdata v \<mapsto> map Obj (xs[i := x]) @ rest))"
    using c(1) i by (simp add: vec_set_def assign_obj_def slot_at_def set_slot_def nth_append list_update_append map_update)
  then show ?thesis using c nz store_upd [OF h nz] by (auto simp: becomes_def vec_rep_def others_upd)
qed

lemma reserve_ok:
  assumes al: "alloc_good alloc" and h: "store_ok h" and v: "vec_rep h v xs" and n: "0 < n"
  shows "\<exists>v' h'. reserve alloc n v h = Some (v', h') \<and> becomes h v h' v' xs"
proof (cases "n < alloc_size v")
  case True
  then show ?thesis using h v by (auto simp add: reserve_def becomes_def others_same_def)
next
  case False
  then have "length xs \<le> n" using v by (auto simp: vec_rep_def split: if_splits)
  from Resize_ok [OF al h v this n] show ?thesis using False by (auto simp: reserve_def becomes_def)
qed

lemma copy_from_ok:
  assumes al: "alloc_good alloc" and h: "store_ok h" and w: "vec_rep h w ys"
  shows "\<exists>v h'. copy_from alloc w h = Some (v, h') \<and> store_ok h' \<and> vec_rep h' v ys \<and> others_same {} h h'
    \<and> (vdata v = 0 \<or> h (vdata v) = None)"
proof (cases "alloc_size w = 0")
  case True
  then have "ys = []" using w by (auto simp: vec_rep_def split: if_splits)
  then show ?thesis using True h w by (simp add: copy_from_def vec_rep_def others_same_def)
next
  case False
  then have nz: "vdata w \<noteq> 0" using w by (auto simp: vec_rep_def split: if_splits)
  obtain rest where c: "h (vdata w) = Some (map Obj ys @ rest)" "\<forall>z \<in> set rest. vacant z" "vsize w = length ys"
    "alloc_size w = length ys + length rest" by (rule vec_repE [OF w nz]) (rule that)
  define a where "a = alloc (dom h)"
  have a: "h a = None" "0 < a" using al h by (auto simp: alloc_good_def store_ok_def a_def)
  have ne: "a \<noteq> vdata w" using a(1) c(1) by auto
  define h0 where "h0 = h(a \<mapsto> replicate (alloc_size w) Raw)"
  have al0: "allocate alloc (alloc_size w) h = (a, h0)" using False by (simp add: allocate_def a_def h0_def Let_def)
  have h0: "h0 a = Some ([] @ replicate (length ys) Raw @ replicate (length rest) Raw)" "h0 (vdata w) = Some ([] @ map Obj ys @ rest)"
    using c ne by (simp_all add: h0_def replicate_add)
  let ?h = "h0(a \<mapsto> map Obj ys @ replicate (length rest) Raw)"
  from copy_slots [OF ne h0] have "for_slots (\<lambda>i h. do { x \<leftarrow> get_obj (vdata w) i h; construct a i x h }) [0 ..< vsize w] h0 = Some ?h"
    using c(3) by simp
  then have "copy_from alloc w h = Some (\<lparr>vsize = vsize w, alloc_size = alloc_size w, vdata = a\<rparr>, ?h)"
    using False al0 by (simp add: copy_from_def)
  moreover have "store_ok ?h" using h a by (auto simp: store_ok_def h0_def)
  moreover have "others_same {} h ?h" using a by (auto simp: others_same_def h0_def)
  ultimately show ?thesis using c a by (auto simp: vec_rep_def)
qed

lemma assign_ok:
  assumes al: "alloc_good alloc" and h: "store_ok h" and v: "vec_rep h v xs" and w: "vec_rep h w ys"
    and ne: "vdata v \<noteq> vdata w"
  shows "\<exists>v' h'. vec_assign alloc w v h = Some (v', h') \<and> store_ok h' \<and> vec_rep h' v' ys \<and> vec_rep h' w ys
    \<and> others_same {vdata v} h h' \<and> (vdata v' = vdata v \<or> vdata v' = 0 \<or> h (vdata v') = None)"
proof (cases "alloc_size v < vsize w")
  case True
  obtain h1 where 1: "Destroy v h = Some h1" "store_ok h1" "others_same {vdata v} h h1" using Destroy_ok [OF h v] by blast
  have w1: "vec_rep h1 w ys" by (rule vec_rep_other [OF w 1(3)]) (use ne in auto)
  obtain v' h' where 2: "copy_from alloc w h1 = Some (v', h')" "store_ok h'" "vec_rep h' v' ys" "others_same {} h1 h'"
    "vdata v' = 0 \<or> h1 (vdata v') = None" using copy_from_ok [OF al 1(2) w1] by blast
  have "vec_rep h' w ys" by (rule vec_rep_other [OF w1 2(4)]) simp
  moreover have "others_same {vdata v} h h'" using 1(3) 2(4) by (auto simp: others_same_def)
  moreover have "vdata v' = vdata v \<or> vdata v' = 0 \<or> h (vdata v') = None" using 2(5) 1(3) by (auto simp: others_same_def)
  ultimately show ?thesis using True 1(1) 2 by (auto simp: vec_assign_def)
next
  case False
  show ?thesis
  proof (cases "vdata v = 0")
    case True
    then have e: "xs = []" "alloc_size v = 0" "vsize v = 0" using v by (auto simp: vec_rep_def)
    then have "ys = []" "vsize w = 0" using False w by (auto simp: vec_rep_def)
    then show ?thesis using e True False v w h by (simp add: vec_assign_def vec_rep_def others_same_def)
  next
    case nz: False
    obtain rest where c: "h (vdata v) = Some (map Obj xs @ rest)" "\<forall>z \<in> set rest. vacant z" "vsize v = length xs"
      "alloc_size v = length xs + length rest" by (rule vec_repE [OF v nz]) (rule that)
    let ?sl = "replicate (length xs) Raw @ rest"
    let ?h1 = "h(vdata v \<mapsto> ?sl)"
    from destroy_slots [of h "vdata v" "[]" "map Obj xs" rest]
    have d: "for_slots (destroy (vdata v)) [0 ..< vsize v] h = Some ?h1" using c(1,3) by auto
    have lw: "vsize w = length ys" using w by (simp add: vec_rep_def)
    have w1: "vec_rep ?h1 w ys" using w ne by (auto simp: vec_rep_def split: if_splits)
    have l: "length ys \<le> length ?sl" using False lw c(4) by simp
    let ?h2 = "?h1(vdata v \<mapsto> map Obj ys @ drop (length ys) ?sl)"
    have k: "for_slots (\<lambda>i h. do { x \<leftarrow> get_obj (vdata w) i h; construct (vdata v) i x h }) [0 ..< vsize w] ?h1 = Some ?h2"
    proof (cases "ys = []")
      case True
      then show ?thesis using lw by (simp add: fun_upd_idem)
    next
      case ys: False
      then have wz: "vdata w \<noteq> 0" using w by (auto simp: vec_rep_def split: if_splits)
      obtain wrest where "?h1 (vdata w) = Some (map Obj ys @ wrest)" by (rule vec_repE [OF w1 wz]) (rule that)
      then have 2: "?h1 (vdata w) = Some ([] @ map Obj ys @ wrest)" by simp
      have 1: "?h1 (vdata v) = Some ([] @ take (length ys) ?sl @ drop (length ys) ?sl)"
        by (simp only: append_Nil append_take_drop_id fun_upd_same)
      have e: "\<forall>z \<in> set (take (length ys) ?sl). vacant z" using c(2) by (auto dest!: in_set_takeD)
      have "length (take (length ys) ?sl) = length ys" using l by simp
      from copy_slots [OF ne 1 2 this _ e] show ?thesis using lw by (simp del: fun_upd_apply)
    qed
    have "vec_assign alloc w v h = Some (v\<lparr>vsize := vsize w\<rparr>, ?h2)"
      using False d k by (simp add: vec_assign_def del: fun_upd_apply)
    moreover have "\<forall>z \<in> set (drop (length ys) ?sl). vacant z" using c(2) by (auto dest!: in_set_dropD)
    then have "vec_rep ?h2 (v\<lparr>vsize := vsize w\<rparr>) ys"
      unfolding vec_rep_def using nz lw l c(4) by (auto intro!: exI [of _ "drop (length ys) ?sl"])
    moreover have "vec_rep ?h2 w ys" using w ne by (auto simp: vec_rep_def split: if_splits)
    moreover have "store_ok ?h2" by (intro store_upd h nz)
    ultimately show ?thesis by (auto simp: others_same_def)
  qed
qed


section \<open>Runs\<close>

datatype 'a vec_op = PushBack 'a | PopBack | Erase nat | SetAt nat 'a | At nat | Back | Reserve nat | Size

definition vec_step :: "(nat set \<Rightarrow> nat) \<Rightarrow> 'a vec_op \<Rightarrow> vec \<times> 'a arrays \<Rightarrow> (('a option \<times> nat) \<times> vec \<times> 'a arrays) option" where
  \<comment> \<open>the element that is returned, if any, and the size after the operation\<close>
  "vec_step alloc op s =
     do {
       (x, v, h) \<leftarrow>
         (case op of
            PushBack x \<Rightarrow> map_option (Pair None) (vec_push_back alloc (\<lambda>_. Some x) (fst s) (snd s))
          | PopBack \<Rightarrow> map_option (Pair None) (vec_pop_back (fst s) (snd s))
          | Erase i \<Rightarrow> map_option (Pair None) (vec_erase i (fst s) (snd s))
          | SetAt i x \<Rightarrow> map_option (\<lambda>h. (None, fst s, h)) (vec_set i x (fst s) (snd s))
          | At i \<Rightarrow> map_option (\<lambda>x. (Some x, s)) (vec_at i (fst s) (snd s))
          | Back \<Rightarrow> map_option (\<lambda>x. (Some x, s)) (vec_back (fst s) (snd s))
          | Reserve n \<Rightarrow> map_option (Pair None) (reserve alloc n (fst s) (snd s))
          | Size \<Rightarrow> Some (None, s));
       Some ((x, vsize v), v, h)
     }"

fun list_step :: "'a vec_op \<Rightarrow> 'a list \<Rightarrow> ('a option \<times> 'a list) option" where
  \<comment> \<open>None is an operation that is not allowed\<close>
  "list_step (PushBack x) xs = Some (None, xs @ [x])"
| "list_step PopBack xs = (if xs = [] then None else Some (None, butlast xs))"
| "list_step (Erase i) xs = (if i \<le> length xs then Some (None, take i xs @ drop (Suc i) xs) else None)"
| "list_step (SetAt i x) xs = (if i < length xs then Some (None, xs[i := x]) else None)"
| "list_step (At i) xs = (if i < length xs then Some (Some (xs ! i), xs) else None)"
| "list_step Back xs = (if xs = [] then None else Some (Some (last xs), xs))"
| "list_step (Reserve n) xs = (if n = 0 then None else Some (None, xs))"
| "list_step Size xs = Some (None, xs)"

fun vec_run :: "(nat set \<Rightarrow> nat) \<Rightarrow> 'a vec_op list \<Rightarrow> vec \<times> 'a arrays \<Rightarrow> (('a option \<times> nat) list \<times> vec \<times> 'a arrays) option" where
  "vec_run alloc [] s = Some ([], s)"
| "vec_run alloc (op # ops) s = do { (x, s1) \<leftarrow> vec_step alloc op s; (xs, s2) \<leftarrow> vec_run alloc ops s1; Some (x # xs, s2) }"

fun list_run :: "'a vec_op list \<Rightarrow> 'a list \<Rightarrow> (('a option \<times> nat) list \<times> 'a list) option" where
  "list_run [] xs = Some ([], xs)"
| "list_run (op # ops) xs = do { (x, xs1) \<leftarrow> list_step op xs; (rs, xs2) \<leftarrow> list_run ops xs1; Some ((x, length xs1) # rs, xs2) }"

lemma vec_step_ok:
  assumes al: "alloc_good alloc" and h: "store_ok h" and v: "vec_rep h v xs" and s: "list_step op xs = Some (x, ys)"
  shows "\<exists>v' h'. vec_step alloc op (v, h) = Some ((x, length ys), v', h') \<and> becomes h v h' v' ys"
proof -
  have stay: "becomes h v h v xs" using h v by (auto simp add: becomes_def others_same_def)
  have sz: "vsize v' = length ys" if "becomes h v h' v' ys" for h' v' ys using that by (simp add: becomes_def vec_rep_def)
  show ?thesis
  proof (cases op)
    case (PushBack y)
    then show ?thesis using push_back_ok [OF al h v, of y] s sz by (fastforce simp: vec_step_def)
  next
    case PopBack
    then show ?thesis using pop_back_ok [OF h v] s sz by (fastforce simp: vec_step_def split: if_splits)
  next
    case (Erase i)
    then show ?thesis using erase_ok [OF h v, of i] s sz by (fastforce simp: vec_step_def split: if_splits)
  next
    case (SetAt i y)
    then show ?thesis using set_ok [OF h v, of i y] s sz by (fastforce simp: vec_step_def split: if_splits)
  next
    case (At i)
    then show ?thesis using get_ok [OF v, of i] s sz [OF stay] stay by (auto simp: vec_step_def vec_at_def split: if_splits)
  next
    case Back
    then have "xs \<noteq> []" using s by (auto split: if_splits)
    then have "get_obj (vdata v) (length xs - 1) h = Some (last xs)" using get_ok [OF v] by (simp add: last_conv_nth)
    then show ?thesis using Back s sz [OF stay] stay \<open>xs \<noteq> []\<close> by (auto simp: vec_step_def vec_back_def)
  next
    case (Reserve n)
    then show ?thesis using reserve_ok [OF al h v, of n] s sz by (fastforce simp: vec_step_def split: if_splits)
  next
    case Size
    then show ?thesis using s sz [OF stay] stay by (simp add: vec_step_def)
  qed
qed

lemma becomes_trans:
  assumes 1: "becomes h v h1 v1 xs" and 2: "becomes h1 v1 h2 v2 ys"
  shows "becomes h v h2 v2 ys"
proof -
  have "h2 a = h a" if a: "a \<noteq> 0" "h a \<noteq> None" "a \<noteq> vdata v" for a
  proof -
    have "h1 a = h a" "a \<noteq> vdata v1" using 1 a by (auto simp: becomes_def others_same_def)
    then show ?thesis using 2 a by (auto simp: becomes_def others_same_def)
  qed
  moreover have "dom h1 \<subseteq> insert (vdata v1) (dom h - {vdata v})" "dom h2 \<subseteq> insert (vdata v2) (dom h1 - {vdata v1})"
    using 1 2 by (simp_all add: becomes_def)
  then have "dom h2 \<subseteq> insert (vdata v2) (dom h - {vdata v})" by blast
  moreover have "vdata v2 = vdata v \<or> vdata v2 = 0 \<or> h (vdata v2) = None"
    using 1 2 by (auto simp: becomes_def others_same_def)
  ultimately show ?thesis using 2 by (auto simp: becomes_def others_same_def)
qed

lemma vec_run_ok:
  assumes al: "alloc_good alloc"
  shows "store_ok h \<Longrightarrow> vec_rep h v xs \<Longrightarrow> list_run ops xs = Some (rs, ys)
    \<Longrightarrow> \<exists>v' h'. vec_run alloc ops (v, h) = Some (rs, v', h') \<and> becomes h v h' v' ys"
proof (induction ops arbitrary: h v xs rs)
  case Nil
  then show ?case by (auto simp: becomes_def others_same_def)
next
  case (Cons op ops)
  obtain x xs1 rs1 where s: "list_step op xs = Some (x, xs1)" "list_run ops xs1 = Some (rs1, ys)" "rs = (x, length xs1) # rs1"
    using Cons.prems(3) by (auto split: bind_splits)
  obtain v1 h1 where 1: "vec_step alloc op (v, h) = Some ((x, length xs1), v1, h1)" "becomes h v h1 v1 xs1"
    using vec_step_ok [OF al Cons.prems(1,2) s(1)] by blast
  then have "store_ok h1" "vec_rep h1 v1 xs1" by (simp_all add: becomes_def)
  from Cons.IH [OF this s(2)] obtain v2 h2 where 2: "vec_run alloc ops (v1, h1) = Some (rs1, v2, h2)" "becomes h1 v1 h2 v2 ys"
    by blast
  then show ?case using 1 s(3) becomes_trans [OF 1(2) 2(2)] by auto
qed


lemma Destroy_dom:
  assumes "vec_rep h v xs" "vdata v \<noteq> 0"
  shows "\<exists>h'. Destroy v h = Some h' \<and> dom h' = dom h - {vdata v}"
proof -
  obtain rest where r: "h (vdata v) = Some (map Obj xs @ rest)" "\<forall>z \<in> set rest. vacant z" "vsize v = length xs"
    by (rule vec_repE [OF assms]) (rule that)
  let ?h = "h(vdata v \<mapsto> replicate (length xs) Raw @ rest)"
  have "Raw \<notin> set (map Obj xs)" by auto
  with destroy_slots [of h "vdata v" "[]" "map Obj xs" rest] r(1,3)
  have "for_slots (destroy (vdata v)) [0 ..< vsize v] h = Some ?h" by simp
  moreover have "deallocate (vdata v) ?h = Some (?h(vdata v := None))"
    using no_objects [OF r(2)] by (auto simp: deallocate_def)
  ultimately have "Destroy v h = Some (?h(vdata v := None))" using assms(2) by (simp add: Destroy_def)
  then show ?thesis by auto
qed

text \<open>C11: Every run of operations on a new vector gives the elements and sizes of the same run on a list. On the way
  nothing but live elements is read or destroyed and no element is lost, the vector owns all the memory that
  is allocated, and its destructor gives all of it back.\<close>

theorem vector_run_refines:
  assumes "\<forall>S. finite S \<longrightarrow> alloc S \<notin> S \<and> 0 < alloc S" "list_run ops [] = Some (rs, ys)"
  shows "\<exists>v h. vec_run alloc ops (vec_new, Map.empty) = Some (rs, v, h) \<and> Destroy v h = Some Map.empty"
proof -
  have "alloc_good alloc" using assms(1) by (simp add: alloc_good_def)
  moreover have "store_ok Map.empty" "vec_rep Map.empty vec_new []" by (simp_all add: store_ok_def vec_rep_def vec_new_def)
  ultimately obtain v h where r: "vec_run alloc ops (vec_new, Map.empty) = Some (rs, v, h)" "becomes Map.empty vec_new h v ys"
    using vec_run_ok [OF _ _ _ assms(2)] by blast
  then have d: "dom h \<subseteq> {vdata v}" "vec_rep h v ys" "h 0 = None" by (auto simp: becomes_def store_ok_def)
  have "Destroy v h = Some Map.empty"
  proof (cases "vdata v = 0")
    case True
    then have "dom h = {}" using d(1,3) by auto
    then show ?thesis using True by (simp add: Destroy_def)
  next
    case False
    then obtain h' where "Destroy v h = Some h'" "dom h' = dom h - {vdata v}" using Destroy_dom [OF d(2)] by blast
    then show ?thesis using d(1) by auto
  qed
  then show ?thesis using r(1) by blast
qed

theorem vector_run_refines_witness:
  "\<exists>v h. vec_run (\<lambda>S. Suc (Max (insert 0 S))) [PushBack (1 :: nat), PushBack 2, PushBack 3, Erase 1, At 1, Back, PopBack, Size] (vec_new, Map.empty)
     = Some ([(None, 1), (None, 2), (None, 3), (None, 2), (Some 3, 2), (Some 3, 2), (None, 1), (None, 1)], v, h)"
proof -
  have "Suc (Max (insert 0 S)) \<notin> S" if "finite S" for S :: "nat set"
    using that by (metis Max_ge Suc_n_not_le_n finite_insert insertCI)
  then have a: "\<forall>S. finite S \<longrightarrow> Suc (Max (insert 0 S)) \<notin> S \<and> 0 < Suc (Max (insert 0 S))" by blast
  have "list_run [PushBack (1 :: nat), PushBack 2, PushBack 3, Erase 1, At 1, Back, PopBack, Size] []
      = Some ([(None, 1), (None, 2), (None, 3), (None, 2), (Some 3, 2), (Some 3, 2), (None, 1), (None, 1)], [1])" by simp
  from vector_run_refines [OF a this] show ?thesis by blast
qed

section \<open>What goes wrong\<close>

text \<open>A vector assigned to itself destroys its elements before it copies them.\<close>

lemma self_assignment_fails:
  assumes "vec_rep h v xs" "xs \<noteq> []"
  shows "vec_assign alloc v v h = None"
proof -
  have nz: "vdata v \<noteq> 0" using assms by (auto simp: vec_rep_def split: if_splits)
  obtain x xs' where xs: "xs = x # xs'" using assms(2) by (cases xs) auto
  obtain rest where c: "h (vdata v) = Some (map Obj xs @ rest)" "vsize v = length xs" "alloc_size v = length xs + length rest"
    by (rule vec_repE [OF assms(1) nz]) (rule that)
  have "for_slots (destroy (vdata v)) [0 ..< vsize v] h = Some (h(vdata v \<mapsto> replicate (length xs) Raw @ rest))"
    using destroy_slots [of h "vdata v" "[]" "map Obj xs" rest] c by auto
  moreover have "get_obj (vdata v) 0 (h(vdata v \<mapsto> replicate (length xs) Raw @ rest)) = None"
    using xs by (simp add: get_obj_def slot_at_def)
  moreover have "[0 ..< vsize v] = 0 # [1 ..< vsize v]" using c(2) xs by (simp add: upt_conv_Cons del: upt_Suc)
  ultimately show ?thesis using c by (simp add: vec_assign_def)
qed

text \<open>An element of the vector itself is pushed back after the array it lies in was given back, when the vector
  is full.\<close>

lemma push_own_element_fails:
  "vec_push_back (\<lambda>S. Suc (Max (insert 0 S))) (get_obj 1 0) \<lparr>vsize = 1, alloc_size = 1, vdata = 1\<rparr> [1 \<mapsto> [Obj (5 :: nat)]] = None"
  by (simp add: vec_push_back_def GetNewAllocSize_def Resize_def allocate_def construct_move_def construct_def get_obj_def set_slot_def
      slot_at_def destroy_def deallocate_def numeral_2_eq_2 Let_def)

end
