(* ===== verification/Timer.thy ===== *)
theory Timer
  imports TreeProps
begin

text \<open>
  Timers and the alarm clock, \<open>kernel/kernel/timer.cc\<close> and \<open>timer.h\<close>. The threads that sleep on a timer are in a
  \<open>std::map\<close> from thread numbers to the addresses of their \<open>SemaAndEndTime\<close>; of its semaphore the model has
  the count. A critical section of \<open>waiting_thread_sema_\<close> is one step, so \<open>Sleep\<close> is two: it registers, and it
  takes its semaphore when it can. What goes to the hardware is the list of writes.
\<close>

record sleeper =
  end_tick :: nat     \<comment> \<open>\<open>timer_tick\<close> of \<open>SemaAndEndTime\<close>\<close>
  raised :: nat       \<comment> \<open>the count of \<open>sema\<close>\<close>
  is_on :: bool

record timer =
  timer_tick :: nat
  waiting_threads :: "(nat, nat) tmap"
  sleepers :: "nat \<Rightarrow> sleeper"
  sleeper_addrs :: "nat set"
  timer_id :: int
  num_10nanosec_per_tick :: nat
  calibration_done :: bool

definition PITIMER_HZ :: nat where "PITIMER_HZ = 100"
definition PIT_1 :: nat where "PIT_1 = 0x40"
definition PIT_CONTROL :: nat where "PIT_CONTROL = 0x43"
definition kTimerLocalVectorTable :: nat where "kTimerLocalVectorTable = 0x320"
definition kTimerInitialCount :: nat where "kTimerInitialCount = 0x380"
definition kTimerDivideConfig :: nat where "kTimerDivideConfig = 0x3E0"

definition new_timer :: "int \<Rightarrow> timer" where
  "new_timer n = \<lparr>timer_tick = 0, waiting_threads = empty_set (\<lambda>_. new_node (0, 0)),
     sleepers = (\<lambda>_. \<lparr>end_tick = 0, raised = 0, is_on = False\<rparr>), sleeper_addrs = {}, timer_id = n,
     num_10nanosec_per_tick = 0, calibration_done = False\<rparr>"

section \<open>Ticks\<close>

definition TimerInterruptHandler :: "bool \<Rightarrow> timer \<Rightarrow> timer \<times> bool \<times> bool" where
  \<comment> \<open>the timer, whether the end of the interrupt is signalled, and whether the thread is preempted\<close>
  "TimerInterruptHandler multicore t =
     (let tick = add64 (timer_tick t) 1 in (t\<lparr>timer_tick := tick\<rparr>, multicore, tick mod 100 = 0))"

definition InstallTimer :: "(nat \<times> nat) list" where
  \<comment> \<open>ports and bytes\<close>
  "InstallTimer =
     (let divisor = 1193180 div PITIMER_HZ mod 2 ^ 16
      in [(PIT_CONTROL, 0x36), (PIT_1, divisor mod 256), (PIT_1, divisor div 256)])"

definition StartAPICTimer :: "(nat \<times> nat) list" where
  \<comment> \<open>registers and values\<close>
  "StartAPICTimer = [(kTimerInitialCount, 0x1FFFF), (kTimerLocalVectorTable, 2 ^ 17 + 0x20), (kTimerDivideConfig, 1)]"

definition GetMsTick :: "timer \<Rightarrow> nat option" where
  \<comment> \<open>None waits for the calibration\<close>
  "GetMsTick t =
     (if \<not> calibration_done t then None
      else Some (mul64 (timer_tick t div 10) (num_10nanosec_per_tick t) div 10000))"

section \<open>Sleeping\<close>

definition begin_sleep :: "alloc \<Rightarrow> nat \<Rightarrow> nat \<Rightarrow> timer \<Rightarrow> (nat \<times> timer) option" where
  \<comment> \<open>\<open>Sleep\<close> of the thread \<open>current_tid\<close> up to the release of the lock, with the address of its \<open>SemaAndEndTime\<close>\<close>
  "begin_sleep alloc current_tid num_tick t =
     do {
       e \<leftarrow> map_lookup current_tid (waiting_threads t);
       case e of
         None \<Rightarrow> do {
           let p = alloc (sleeper_addrs t);
           w \<leftarrow> map_put alloc 0 current_tid p (waiting_threads t);
           Some (p, t\<lparr>waiting_threads := w, sleeper_addrs := insert p (sleeper_addrs t),
             sleepers := (sleepers t)(p := \<lparr>end_tick = add64 (timer_tick t) num_tick, raised = 0, is_on = False\<rparr>)\<rparr>)
         }
       | Some p \<Rightarrow>
           Some (p, t\<lparr>sleepers := (sleepers t)(p := (sleepers t p)\<lparr>end_tick := add64 (timer_tick t) num_tick, is_on := False\<rparr>)\<rparr>)
     }"

definition end_sleep :: "nat \<Rightarrow> timer \<Rightarrow> timer option" where
  \<comment> \<open>\<open>sema.Down()\<close>, None while it blocks\<close>
  "end_sleep p t =
     (if raised (sleepers t p) > 0
      then Some (t\<lparr>sleepers := (sleepers t)(p := (sleepers t p)\<lparr>raised := raised (sleepers t p) - 1\<rparr>)\<rparr>) else None)"

definition ms_to_ticks :: "nat \<Rightarrow> timer \<Rightarrow> nat option" where
  \<comment> \<open>what \<open>SleepMs\<close> passes to \<open>Sleep\<close>; None waits for the calibration or divides by zero\<close>
  "ms_to_ticks ms t =
     (if \<not> calibration_done t \<or> num_10nanosec_per_tick t = 0 then None
      else Some (mul64 ms 100000 div num_10nanosec_per_tick t))"

definition SleepMs :: "alloc \<Rightarrow> nat \<Rightarrow> nat \<Rightarrow> timer \<Rightarrow> (nat \<times> timer) option" where
  "SleepMs alloc current_tid ms t = do { n \<leftarrow> ms_to_ticks ms t; begin_sleep alloc current_tid n t }"

definition usleep :: "alloc \<Rightarrow> nat \<Rightarrow> nat \<Rightarrow> timer \<Rightarrow> (nat \<times> timer) option" where
  \<comment> \<open>\<open>SysUSleep\<close>\<close>
  "usleep alloc current_tid usec t = SleepMs alloc current_tid (usec div 1000) t"

section \<open>The alarm clock\<close>

definition due :: "timer \<Rightarrow> nat \<Rightarrow> bool" where
  "due t p \<longleftrightarrow> end_tick (sleepers t p) \<le> timer_tick t \<and> \<not> is_on (sleepers t p)"

definition wake :: "nat \<Rightarrow> timer \<Rightarrow> timer" where
  "wake p t = t\<lparr>sleepers := (sleepers t)(p := (sleepers t p)\<lparr>is_on := True, raised := raised (sleepers t p) + 1\<rparr>)\<rparr>"

definition alarm_pass :: "timer \<Rightarrow> timer option option" where
  \<comment> \<open>the for loop: up to the first thread that is woken, None if there is none\<close>
  "alarm_pass t =
     do {
       start \<leftarrow> set_begin (waiting_threads t);
       kvs \<leftarrow> iterate (waiting_threads t) start;
       Some (map_option (\<lambda>(tid, p). wake p t) (List.find (\<lambda>(tid, p). due t p) kvs))
     }"

partial_function (option) alarm_round :: "timer \<Rightarrow> timer option" where
  \<comment> \<open>a round of \<open>HandleWaitingThreads\<close> under the lock\<close>
  "alarm_round t = do { r \<leftarrow> alarm_pass t; case r of None \<Rightarrow> Some t | Some t1 \<Rightarrow> alarm_round t1 }"

section \<open>Calibration\<close>

definition kNumCalibrate :: nat where "kNumCalibrate = 50"
definition kCalibrateTicks :: nat where "kCalibrateTicks = 5"

definition max_min_index :: "nat list \<Rightarrow> nat \<times> nat" where
  \<comment> \<open>the first indices of the largest and of the smallest\<close>
  "max_min_index diffs =
     foldl (\<lambda>(mx, mn) i. (if diffs ! i > diffs ! mx then i else mx, if diffs ! i < diffs ! mn then i else mn))
       (0, 0) [1 ..< kNumCalibrate]"

definition Calibrate :: "nat list \<Rightarrow> timer \<Rightarrow> nat \<times> timer" where
  \<comment> \<open>from the 50 differences of the HPET counter\<close>
  "Calibrate diffs t =
     (case max_min_index diffs of
        (max_index, min_index) \<Rightarrow>
          let total = fold (\<lambda>i s. if i \<noteq> max_index \<and> i \<noteq> min_index then add64 s (diffs ! i) else s) [0 ..< kNumCalibrate] 0;
              n = total div (kNumCalibrate - 2) div kCalibrateTicks
          in (n, t\<lparr>num_10nanosec_per_tick := n, calibration_done := True\<rparr>))"

section \<open>The timers of the cores\<close>

definition InstallAPICTimer :: "int \<Rightarrow> timer list \<Rightarrow> timer list" where
  "InstallAPICTimer num_cores timers = timers @ map (\<lambda>i. new_timer (int i + 1)) [0 ..< nat (num_cores - 1)]"

definition GetTimer :: "nat \<Rightarrow> timer list \<Rightarrow> timer option" where
  \<comment> \<open>\<open>TimerManager::GetTimer\<close> on the core \<open>cpu_id\<close>\<close>
  "GetTimer cpu_id timers =
     (if length timers = 1 then Some (timers ! 0)
      else if cpu_id < length timers then Some (timers ! cpu_id) else None)"

definition calibrate_all :: "nat list \<Rightarrow> timer list \<Rightarrow> timer list" where
  \<comment> \<open>\<open>TimerManager::Calibrate\<close>\<close>
  "calibrate_all diffs timers =
     (case timers of
        [] \<Rightarrow> []
      | t # ts \<Rightarrow>
          (case Calibrate diffs t of
             (n, t1) \<Rightarrow> t1 # map (\<lambda>u. u\<lparr>num_10nanosec_per_tick := n, calibration_done := True\<rparr>) ts))"

end
