(* ===== verification/TimerProps.thy ===== *)
theory TimerProps
  imports Timer
begin

text \<open>
  Sleeping threads: none is woken before its tick, a round of the alarm clock ends, and it wakes every thread
  that is due and that the iteration of the map visits. As that iteration may stop early, a thread may be left
  asleep for good.
\<close>

section \<open>A round of the alarm clock\<close>

definition wake_set :: "nat set \<Rightarrow> timer \<Rightarrow> timer" where
  "wake_set P t = t\<lparr>sleepers := (\<lambda>p. if p \<in> P then (sleepers t p)\<lparr>is_on := True, raised := raised (sleepers t p) + 1\<rparr> else sleepers t p)\<rparr>"

lemma wake_set_empty: "wake_set {} t = t"
  by (simp add: wake_set_def)

lemma wake_set_wake: "p \<notin> P \<Longrightarrow> wake_set P (wake p t) = wake_set (insert p P) t"
  by (simp add: wake_set_def wake_def fun_eq_iff cong: if_cong)

lemma due_wake: "due (wake p t) q \<longleftrightarrow> due t q \<and> q \<noteq> p"
  by (auto simp: due_def wake_def)

lemma wake_tree [simp]: "waiting_threads (wake p t) = waiting_threads t"
  by (simp add: wake_def)

definition visited :: "timer \<Rightarrow> (nat \<times> nat) list \<Rightarrow> bool" where
  "visited t kvs \<longleftrightarrow> (\<exists>start. set_begin (waiting_threads t) = Some start \<and> iterate (waiting_threads t) start = Some kvs)"

lemma alarm_round_ok:
  "visited t kvs \<Longrightarrow> alarm_round t = Some (wake_set {p \<in> set (map snd kvs). due t p} t)"
proof (induction "card {p \<in> set (map snd kvs). due t p}" arbitrary: t)
  case 0
  then have none: "{p \<in> set (map snd kvs). due t p} = {}" by simp
  then have "List.find (\<lambda>(tid, p). due t p) kvs = None" by (auto simp: find_None_iff)
  then have "alarm_pass t = Some None" using 0(2) by (auto simp: alarm_pass_def visited_def)
  then show ?case unfolding none by (subst alarm_round.simps) (simp add: wake_set_empty)
next
  case (Suc n)
  let ?P = "{p \<in> set (map snd kvs). due t p}"
  have "?P \<noteq> {}" using Suc.hyps(2) by (metis card.empty nat.distinct(1))
  then obtain k q where "(k, q) \<in> set kvs" "due t q" by auto
  then have "List.find (\<lambda>(tid, p). due t p) kvs \<noteq> None" unfolding find_None_iff by auto
  then obtain tid p where f: "List.find (\<lambda>(tid, p). due t p) kvs = Some (tid, p)" by auto
  then have p: "(tid, p) \<in> set kvs" "due t p" by (auto simp: find_Some_iff) (metis nth_mem)
  have pass: "alarm_pass t = Some (Some (wake p t))" using Suc.prems f by (auto simp: alarm_pass_def visited_def)
  have P: "{q \<in> set (map snd kvs). due (wake p t) q} = ?P - {p}" by (auto simp: due_wake)
  have "p \<in> ?P" using p by force
  then have "n = card {q \<in> set (map snd kvs). due (wake p t) q}" unfolding P using Suc.hyps(2) by simp
  moreover have "visited (wake p t) kvs" using Suc.prems by (simp add: visited_def)
  ultimately have "alarm_round (wake p t) = Some (wake_set (?P - {p}) (wake p t))" using Suc.hyps(1) [of "wake p t"] P by simp
  moreover have "wake_set (?P - {p}) (wake p t) = wake_set ?P t" using \<open>p \<in> ?P\<close> by (simp add: wake_set_wake insert_absorb)
  ultimately show ?case using pass by (subst alarm_round.simps) simp
qed

section \<open>Runs\<close>

text \<open>\<open>asleep\<close> has the threads that are blocked in \<open>Sleep\<close>, with the address of their \<open>SemaAndEndTime\<close>.\<close>

inductive timer_step :: "alloc \<Rightarrow> timer \<times> (nat \<Rightarrow> nat option) \<Rightarrow> timer \<times> (nat \<Rightarrow> nat option) \<Rightarrow> bool" for alloc where
  do_tick: "timer_tick t + 1 < 2 ^ 64 \<Longrightarrow> timer_step alloc (t, asleep) (fst (TimerInterruptHandler multicore t), asleep)"
| do_sleep: "asleep tid = None \<Longrightarrow> begin_sleep alloc tid n t = Some (p, t') \<Longrightarrow> timer_tick t + n < 2 ^ 64 \<Longrightarrow>
    timer_step alloc (t, asleep) (t', asleep(tid \<mapsto> p))"
| do_alarm: "alarm_round t = Some t' \<Longrightarrow> timer_step alloc (t, asleep) (t', asleep)"
| do_wake: "asleep tid = Some p \<Longrightarrow> end_sleep p t = Some t' \<Longrightarrow> timer_step alloc (t, asleep) (t', asleep(tid := None))"

definition timer_reachable :: "alloc \<Rightarrow> timer \<Rightarrow> (nat \<Rightarrow> nat option) \<Rightarrow> bool" where
  "timer_reachable alloc t asleep \<longleftrightarrow> (\<exists>n. (timer_step alloc)\<^sup>*\<^sup>* (new_timer n, Map.empty) (t, asleep))"

definition entry_ok :: "nat \<Rightarrow> (nat \<Rightarrow> nat option) \<Rightarrow> nat \<Rightarrow> sleeper \<Rightarrow> bool" where
  "entry_ok tick asleep tid s \<longleftrightarrow>
     (if tid \<in> dom asleep then raised s = of_bool (is_on s) else raised s = 0 \<and> is_on s) \<and> (is_on s \<longrightarrow> end_tick s \<le> tick)"

definition timer_inv :: "timer \<Rightarrow> (nat \<Rightarrow> nat option) \<Rightarrow> bool" where
  "timer_inv t asleep \<longleftrightarrow>
     finite (sleeper_addrs t) \<and> (\<exists>N. map_rep (waiting_threads t) N \<and> ran N \<subseteq> sleeper_addrs t
       \<and> (\<forall>i j. N i \<noteq> None \<longrightarrow> N i = N j \<longrightarrow> i = j) \<and> (\<forall>tid p. asleep tid = Some p \<longrightarrow> N tid = Some p)
       \<and> (\<forall>tid p. N tid = Some p \<longrightarrow> entry_ok (timer_tick t) asleep tid (sleepers t p)))"

lemma timer_invI:
  assumes "finite (sleeper_addrs t)" "map_rep (waiting_threads t) N" "ran N \<subseteq> sleeper_addrs t"
    "\<And>i j. N i \<noteq> None \<Longrightarrow> N i = N j \<Longrightarrow> i = j" "\<And>tid p. asleep tid = Some p \<Longrightarrow> N tid = Some p"
    "\<And>tid p. N tid = Some p \<Longrightarrow> entry_ok (timer_tick t) asleep tid (sleepers t p)"
  shows "timer_inv t asleep"
  unfolding timer_inv_def using assms by blast

lemma timer_invE:
  assumes "timer_inv t asleep"
  obtains N where "finite (sleeper_addrs t)" "map_rep (waiting_threads t) N" "ran N \<subseteq> sleeper_addrs t"
    "\<And>i j. N i \<noteq> None \<Longrightarrow> N i = N j \<Longrightarrow> i = j" "\<And>tid p. asleep tid = Some p \<Longrightarrow> N tid = Some p"
    "\<And>tid p. N tid = Some p \<Longrightarrow> entry_ok (timer_tick t) asleep tid (sleepers t p)"
  using assms unfolding timer_inv_def by blast

lemma visited_ok:
  assumes "map_rep (waiting_threads t) N"
  obtains kvs where "visited t kvs" "\<And>tid p. (tid, p) \<in> set kvs \<Longrightarrow> N tid = Some p" "ran N \<noteq> {} \<Longrightarrow> kvs \<noteq> []"
proof -
  let ?M = "\<lambda>k. map_option (Pair k) (N k)"
  obtain start xs where xs: "set_begin (waiting_threads t) = Some start" "iterate (waiting_threads t) start = Some xs" "set xs \<subseteq> ran ?M"
    "ran ?M \<noteq> {} \<longrightarrow> xs \<noteq> []"
    using iterate_set [of fst "waiting_threads t" ?M] assms by (auto simp: map_rep_def)
  have "N k = Some p" if "(k, p) \<in> set xs" for k p using that xs(3) by (auto simp: ran_def)
  moreover have "xs \<noteq> []" if "ran N \<noteq> {}" using that xs(4) by (auto simp: ran_def)
  ultimately show ?thesis using that [of xs] xs(1,2) by (simp add: visited_def)
qed

lemma inv_tick:
  assumes "timer_inv t asleep" "timer_tick t + 1 < 2 ^ 64"
  shows "timer_inv (fst (TimerInterruptHandler mc t)) asleep"
proof -
  have "fst (TimerInterruptHandler mc t) = t\<lparr>timer_tick := timer_tick t + 1\<rparr>"
    using assms(2) by (simp add: TimerInterruptHandler_def Let_def wrap_simps)
  moreover have "entry_ok (timer_tick t) asleep tid s \<Longrightarrow> entry_ok (timer_tick t + 1) asleep tid s" for tid s
    by (auto simp: entry_ok_def split: if_splits)
  ultimately show ?thesis using assms(1) unfolding timer_inv_def by simp blast
qed

lemma inv_sleep:
  assumes al: "alloc_ok alloc" and i: "timer_inv t asleep" and a: "asleep tid = None" and b: "begin_sleep alloc tid n t = Some (p, t')"
    and n: "timer_tick t + n < 2 ^ 64"
  shows "timer_inv t' (asleep(tid \<mapsto> p))"
proof -
  obtain N where N: "finite (sleeper_addrs t)" "map_rep (waiting_threads t) N" "ran N \<subseteq> sleeper_addrs t"
    "\<And>i j. N i \<noteq> None \<Longrightarrow> N i = N j \<Longrightarrow> i = j" "\<And>tid p. asleep tid = Some p \<Longrightarrow> N tid = Some p"
    "\<And>tid p. N tid = Some p \<Longrightarrow> entry_ok (timer_tick t) asleep tid (sleepers t p)" by (rule timer_invE [OF i]) (rule that)
  have look: "map_lookup tid (waiting_threads t) = Some (N tid)" by (rule map_lookup_law [OF N(2)])
  show ?thesis
  proof (cases "N tid")
    case None
    obtain w where w: "map_put alloc 0 tid (alloc (sleeper_addrs t)) (waiting_threads t) = Some w"
      "map_rep w (N(tid \<mapsto> alloc (sleeper_addrs t)))" using map_put_law [OF N(2) al] by blast
    have fresh: "alloc (sleeper_addrs t) \<notin> sleeper_addrs t" using al N(1) by (simp add: alloc_ok_def)
    have pt: "(p, t') = (alloc (sleeper_addrs t), t\<lparr>waiting_threads := w, sleeper_addrs := insert (alloc (sleeper_addrs t)) (sleeper_addrs t),
        sleepers := (sleepers t)(alloc (sleeper_addrs t) := \<lparr>end_tick = add64 (timer_tick t) n, raised = 0, is_on = False\<rparr>)\<rparr>)"
      using b look None w(1) by (auto simp: begin_sleep_def Let_def)
    then have p: "p = alloc (sleeper_addrs t)" by simp
    have t': "t' = t\<lparr>waiting_threads := w, sleeper_addrs := insert p (sleeper_addrs t),
        sleepers := (sleepers t)(p := \<lparr>end_tick = add64 (timer_tick t) n, raised = 0, is_on = False\<rparr>)\<rparr>" using pt by simp
    have out: "N k \<noteq> Some p" for k using N(3) fresh by (auto simp: p ran_def)
    show ?thesis
    proof (rule timer_invI [of _ "N(tid \<mapsto> p)"])
      show "finite (sleeper_addrs t')" using N(1) by (simp add: t')
      show "map_rep (waiting_threads t') (N(tid \<mapsto> p))" using w(2) by (simp add: t' p)
      show "ran (N(tid \<mapsto> p)) \<subseteq> sleeper_addrs t'" using N(3) None by (auto simp: t' ran_def)
      show "i = j" if "(N(tid \<mapsto> p)) i \<noteq> None" "(N(tid \<mapsto> p)) i = (N(tid \<mapsto> p)) j" for i j
        using that N(4) out by (auto split: if_splits)
      show "(N(tid \<mapsto> p)) k = Some q" if "(asleep(tid \<mapsto> p)) k = Some q" for k q using that N(5) by (auto split: if_splits)
      show "entry_ok (timer_tick t') (asleep(tid \<mapsto> p)) k (sleepers t' q)" if "(N(tid \<mapsto> p)) k = Some q" for k q
        using that N(6) [of k q] out by (auto simp: t' entry_ok_def dom_def split: if_splits)
    qed
  next
    case (Some p0)
    have p: "p = p0" and t': "t' = t\<lparr>sleepers := (sleepers t)(p := (sleepers t p)\<lparr>end_tick := add64 (timer_tick t) n, is_on := False\<rparr>)\<rparr>"
      using b look Some by (auto simp: begin_sleep_def)
    have uniq: "N k = Some p \<Longrightarrow> k = tid" for k using N(4) [of k tid] Some p by auto
    show ?thesis
    proof (rule timer_invI [of _ N])
      show "finite (sleeper_addrs t')" "map_rep (waiting_threads t') N" "ran N \<subseteq> sleeper_addrs t'" using N(1-3) by (simp_all add: t')
      show "i = j" if "N i \<noteq> None" "N i = N j" for i j by (rule N(4) [OF that])
      show "N k = Some q" if "(asleep(tid \<mapsto> p)) k = Some q" for k q using that N(5) Some p by (auto split: if_splits)
      show "entry_ok (timer_tick t') (asleep(tid \<mapsto> p)) k (sleepers t' q)" if k: "N k = Some q" for k q
      proof (cases "q = p")
        case True
        have "raised (sleepers t p) = 0" using N(6) [OF Some] a p by (simp add: entry_ok_def domIff)
        then show ?thesis using uniq k True by (simp add: t' entry_ok_def)
      next
        case False
        then have "k \<noteq> tid" using k Some p by auto
        then show ?thesis using N(6) [OF k] False by (simp add: t' entry_ok_def)
      qed
    qed
  qed
qed

lemma inv_alarm:
  assumes i: "timer_inv t asleep" and r: "alarm_round t = Some t'"
  shows "timer_inv t' asleep"
proof -
  obtain N where N: "finite (sleeper_addrs t)" "map_rep (waiting_threads t) N" "ran N \<subseteq> sleeper_addrs t"
    "\<And>i j. N i \<noteq> None \<Longrightarrow> N i = N j \<Longrightarrow> i = j" "\<And>tid p. asleep tid = Some p \<Longrightarrow> N tid = Some p"
    "\<And>tid p. N tid = Some p \<Longrightarrow> entry_ok (timer_tick t) asleep tid (sleepers t p)" by (rule timer_invE [OF i]) (rule that)
  obtain kvs where k: "visited t kvs" by (rule visited_ok [OF N(2)]) (rule that)
  then have t': "t' = wake_set {p \<in> set (map snd kvs). due t p} t" using alarm_round_ok [OF k] r by simp
  show ?thesis
  proof (rule timer_invI [of _ N])
    show "finite (sleeper_addrs t')" "map_rep (waiting_threads t') N" "ran N \<subseteq> sleeper_addrs t'"
      using N(1-3) by (simp_all add: t' wake_set_def)
    show "i = j" if "N i \<noteq> None" "N i = N j" for i j by (rule N(4) [OF that])
    show "N k = Some q" if "asleep k = Some q" for k q by (rule N(5) [OF that])
    show "entry_ok (timer_tick t') asleep k (sleepers t' q)" if "N k = Some q" for k q
      using N(6) [OF that] by (auto simp: t' wake_set_def entry_ok_def due_def split: if_splits)
  qed
qed

lemma inv_wake:
  assumes i: "timer_inv t asleep" and a: "asleep tid = Some p" and e: "end_sleep p t = Some t'"
  shows "timer_inv t' (asleep(tid := None))" "end_tick (sleepers t p) \<le> timer_tick t"
proof -
  obtain N where N: "finite (sleeper_addrs t)" "map_rep (waiting_threads t) N" "ran N \<subseteq> sleeper_addrs t"
    "\<And>i j. N i \<noteq> None \<Longrightarrow> N i = N j \<Longrightarrow> i = j" "\<And>tid p. asleep tid = Some p \<Longrightarrow> N tid = Some p"
    "\<And>tid p. N tid = Some p \<Longrightarrow> entry_ok (timer_tick t) asleep tid (sleepers t p)" by (rule timer_invE [OF i]) (rule that)
  have r: "0 < raised (sleepers t p)" and t': "t' = t\<lparr>sleepers := (sleepers t)(p := (sleepers t p)\<lparr>raised := raised (sleepers t p) - 1\<rparr>)\<rparr>"
    using e by (simp_all add: end_sleep_def split: if_splits)
  have ok: "entry_ok (timer_tick t) asleep tid (sleepers t p)" by (rule N(6) [OF N(5) [OF a]])
  then have on: "is_on (sleepers t p)" "raised (sleepers t p) = 1" "end_tick (sleepers t p) \<le> timer_tick t"
    using r a by (auto simp: entry_ok_def split: if_splits)
  show "end_tick (sleepers t p) \<le> timer_tick t" by (rule on(3))
  have uniq: "N k = Some p \<Longrightarrow> k = tid" for k using N(4) [of k tid] N(5) [OF a] by auto
  show "timer_inv t' (asleep(tid := None))"
  proof (rule timer_invI [of _ N])
    show "finite (sleeper_addrs t')" "map_rep (waiting_threads t') N" "ran N \<subseteq> sleeper_addrs t'" using N(1-3) by (simp_all add: t')
    show "i = j" if "N i \<noteq> None" "N i = N j" for i j by (rule N(4) [OF that])
    show "N k = Some q" if "(asleep(tid := None)) k = Some q" for k q using that N(5) by (auto split: if_splits)
    show "entry_ok (timer_tick t') (asleep(tid := None)) k (sleepers t' q)" if k: "N k = Some q" for k q
    proof (cases "q = p")
      case True
      then show ?thesis using uniq k on by (simp add: t' entry_ok_def)
    next
      case False
      then have "k \<noteq> tid" using k N(5) [OF a] by auto
      then show ?thesis using N(6) [OF k] False by (auto simp: t' entry_ok_def)
    qed
  qed
qed

lemma new_timer_inv: "timer_inv (new_timer n) Map.empty"
  by (rule timer_invI [of _ "\<lambda>_. None"]) (simp_all add: new_timer_def map_rep_empty)

lemma timer_reachable_inv:
  assumes "alloc_ok alloc" "timer_reachable alloc t asleep"
  shows "timer_inv t asleep"
proof -
  have step: "timer_step alloc s s' \<Longrightarrow> timer_inv (fst s) (snd s) \<Longrightarrow> timer_inv (fst s') (snd s')" for s s'
    by (induction rule: timer_step.induct)
      (auto intro: inv_tick inv_alarm inv_wake(1) inv_sleep [OF assms(1)])
  obtain n where "(timer_step alloc)\<^sup>*\<^sup>* (new_timer n, Map.empty) (t, asleep)" using assms(2) by (auto simp: timer_reachable_def)
  then have "timer_inv (fst (t, asleep)) (snd (t, asleep))"
    by (induction rule: rtranclp_induct) (auto simp: new_timer_inv dest: step)
  then show ?thesis by simp
qed

text \<open>C37: Along every run a sleeping thread can go on only when its tick has come; and a round of the alarm clock
  ends, after which every thread that is due can go on, as far as the iteration of the map visits it.\<close>

theorem sleepers_wake_in_time:
  assumes "\<forall>S. finite S \<longrightarrow> alloc S \<notin> S" "timer_reachable alloc t asleep"
  shows "(\<forall>tid p. asleep tid = Some p \<longrightarrow> end_sleep p t \<noteq> None \<longrightarrow> end_tick (sleepers t p) \<le> timer_tick t)
    \<and> (\<exists>t' kvs. alarm_round t = Some t' \<and> visited t kvs
        \<and> (\<forall>(tid, p) \<in> set kvs. asleep tid = Some p \<longrightarrow> end_tick (sleepers t p) \<le> timer_tick t \<longrightarrow> end_sleep p t' \<noteq> None))"
proof -
  have "alloc_ok alloc" using assms(1) by (simp add: alloc_ok_def)
  note i = timer_reachable_inv [OF this assms(2)]
  obtain N where N: "map_rep (waiting_threads t) N" "\<And>tid p. asleep tid = Some p \<Longrightarrow> N tid = Some p"
    "\<And>tid p. N tid = Some p \<Longrightarrow> entry_ok (timer_tick t) asleep tid (sleepers t p)" by (rule timer_invE [OF i]) (rule that)
  have early: "end_tick (sleepers t p) \<le> timer_tick t" if "asleep tid = Some p" "end_sleep p t \<noteq> None" for tid p
    using inv_wake(2) [OF i that(1)] that(2) by auto
  obtain kvs where k: "visited t kvs" by (rule visited_ok [OF N(1)]) (rule that)
  let ?t' = "wake_set {p \<in> set (map snd kvs). due t p} t"
  have "end_sleep p ?t' \<noteq> None" if "(tid, p) \<in> set kvs" "asleep tid = Some p" "end_tick (sleepers t p) \<le> timer_tick t" for tid p
  proof (cases "due t p")
    case True
    then show ?thesis using that(1) by (force simp: end_sleep_def wake_set_def)
  next
    case False
    then have "is_on (sleepers t p)" using that(3) by (simp add: due_def)
    then have "raised (sleepers t p) = 1" using N(3) [OF N(2) [OF that(2)]] that(2) by (auto simp: entry_ok_def dom_def split: if_splits)
    then show ?thesis using False by (simp add: end_sleep_def wake_set_def)
  qed
  then show ?thesis using early alarm_round_ok [OF k] k by blast
qed

theorem sleepers_wake_in_time_witness:
  "\<exists>p t t1. begin_sleep next_address 3 0 (new_timer 0) = Some (p, t) \<and> end_sleep p t = None
     \<and> alarm_round t = Some t1 \<and> end_sleep p t1 \<noteq> None"
proof -
  have al: "\<forall>S. finite S \<longrightarrow> next_address S \<notin> S" using next_address_ok by (simp add: alloc_ok_def)
  have look: "map_lookup 3 (waiting_threads (new_timer 0)) = Some None"
    using map_lookup_law [OF map_rep_empty] by (simp add: new_timer_def)
  obtain w where w: "map_put next_address 0 3 1 (waiting_threads (new_timer 0)) = Some w" "map_rep w [3 \<mapsto> (1::nat)]"
    using map_put_law [OF map_rep_empty next_address_ok, of 0 "3::nat" "1::nat" "\<lambda>_. new_node (0, 0)"] by (auto simp: new_timer_def)
  let ?t = "(new_timer 0)\<lparr>waiting_threads := w, sleeper_addrs := {1}, sleepers := (sleepers (new_timer 0))(1 := \<lparr>end_tick = 0, raised = 0, is_on = False\<rparr>)\<rparr>"
  have [simp]: "sleeper_addrs (new_timer 0) = {}" "timer_tick (new_timer 0) = 0" "next_address {} = 1"
    by (simp_all add: new_timer_def next_address_def)
  have b: "begin_sleep next_address 3 0 (new_timer 0) = Some (1, ?t)"
    using look w(1) by (simp add: begin_sleep_def Let_def wrap_simps)
  have "timer_step next_address (new_timer 0, Map.empty) (?t, [3 \<mapsto> (1::nat)])" by (rule do_sleep [OF _ b]) simp_all
  then have "timer_reachable next_address ?t [3 \<mapsto> (1::nat)]" unfolding timer_reachable_def by blast
  note run = sleepers_wake_in_time [OF al this]
  obtain t1 kvs where r: "alarm_round ?t = Some t1" "visited ?t kvs"
    "\<forall>(tid, p) \<in> set kvs. [3 \<mapsto> (1::nat)] tid = Some p \<longrightarrow> end_tick (sleepers ?t p) \<le> timer_tick ?t \<longrightarrow> end_sleep p t1 \<noteq> None"
    using run by blast
  have rep: "map_rep (waiting_threads ?t) [3 \<mapsto> (1::nat)]" using w(2) by simp
  obtain kvs' where k: "visited ?t kvs'" "\<And>tid p. (tid, p) \<in> set kvs' \<Longrightarrow> [3 \<mapsto> (1::nat)] tid = Some p" "ran [(3::nat) \<mapsto> (1::nat)] \<noteq> {} \<Longrightarrow> kvs' \<noteq> []"
    by (rule visited_ok [OF rep]) (rule that)
  have "kvs = kvs'" using r(2) k(1) by (auto simp: visited_def)
  moreover have "kvs' \<noteq> []" using k(3) by simp
  moreover then obtain k q where kq: "(k, q) \<in> set kvs'" by (cases kvs') auto
  moreover have "k = 3 \<and> q = 1" using k(2) [OF kq] by (simp split: if_splits)
  ultimately have "(3, 1) \<in> set kvs" by simp
  then have "end_sleep 1 t1 \<noteq> None" using r(3) by fastforce
  then show ?thesis using b r(1) by (intro exI [of _ 1] exI [of _ ?t] exI [of _ t1]) (simp add: end_sleep_def)
qed

section \<open>What the alarm clock misses\<close>

text \<open>Three threads are due; the map holds all of them, but its iteration leaves out the one at the root.\<close>

definition lagging :: timer where
  "lagging = (new_timer 0)\<lparr>timer_tick := 8, sleeper_addrs := {1, 2, 3},
     waiting_threads := \<lparr>tree = \<lparr>nodes = (\<lambda>_. new_node (0, 0))(1 := \<lparr>node_key = (10, 1), node_left = Some 2, node_right = None\<rparr>,
       2 := \<lparr>node_key = (5, 2), node_left = None, node_right = Some 3\<rparr>, 3 := new_node (7, 3)), root = Some 1\<rparr>,
     num_elements = 3, node_addrs = {1, 2, 3}\<rparr>\<rparr>"

lemma lagging_visited: "visited lagging [(5, 2), (7, 3)]"
proof -
  let ?w = "waiting_threads lagging"
  have b: "set_begin ?w = Some [2, 1]"
    unfolding set_begin_def lagging_def by ((subst push_left.simps, simp)+)
  have push: "push_left ns None stack = Some stack" for ns :: "nat \<Rightarrow> (nat \<times> nat) node" and stack by (subst push_left.simps) simp
  have "push_left (nodes (tree ?w)) (Some 3) [2, 1] = Some [3, 2, 1]"
    by (subst push_left.simps) (simp add: lagging_def new_node_def push)
  then have "iter_next (nodes (tree ?w)) [2, 1] = Some [3, 2, 1]" by (simp add: iter_next_def lagging_def)
  moreover have "iter_next (nodes (tree ?w)) [3, 2, 1] = Some []" by (simp add: iter_next_def lagging_def new_node_def)
  ultimately have "iterate ?w [2, 1] = Some [(5, 2), (7, 3)]"
    by (subst iterate.simps, simp, subst iterate.simps, simp, subst iterate.simps) (simp add: iter_key_def lagging_def new_node_def)
  then show ?thesis using b by (simp add: visited_def)
qed

lemma alarm_misses_thread:
  "map_rep (waiting_threads lagging) [10 \<mapsto> 1, 5 \<mapsto> 2, 7 \<mapsto> 3]"
  "\<exists>t. alarm_round lagging = Some t \<and> \<not> due t 2 \<and> \<not> due t 3 \<and> due t 1"
proof -
  have "set_ok fst (waiting_threads lagging) \<langle>\<langle>\<langle>\<rangle>, 2, \<langle>\<langle>\<rangle>, 3, \<langle>\<rangle>\<rangle>\<rangle>, 1, \<langle>\<rangle>\<rangle>"
    by (simp add: set_ok_def lagging_def ordered_def new_node_def insert_commute)
  moreover have "holds_map fst (waiting_threads lagging) \<langle>\<langle>\<langle>\<rangle>, 2, \<langle>\<langle>\<rangle>, 3, \<langle>\<rangle>\<rangle>\<rangle>, 1, \<langle>\<rangle>\<rangle> (\<lambda>k. map_option (Pair k) ([10 \<mapsto> 1, 5 \<mapsto> 2, 7 \<mapsto> 3] k))"
    by (auto simp: holds_map_def lagging_def new_node_def)
  ultimately show "map_rep (waiting_threads lagging) [10 \<mapsto> 1, 5 \<mapsto> 2, 7 \<mapsto> 3]" unfolding map_rep_def by (rule set_repI)
  show "\<exists>t. alarm_round lagging = Some t \<and> \<not> due t 2 \<and> \<not> due t 3 \<and> due t 1"
    unfolding alarm_round_ok [OF lagging_visited]
    by (simp add: due_def wake_set_def lagging_def new_timer_def)
qed

end
