(* ===== verification/VgaText.thy ===== *)
theory VgaText
  imports KString Keyboard
begin

text \<open>
  The text screen, \<open>kernel/kernel/vga_output.cc\<close> and \<open>vga_output.h\<close>: a buffer of 25 rows of 80 cells with a
  cursor, and the memory of the card it is copied to. An access outside the buffer is None; the lock makes
  a call one step.
\<close>

type_synonym cell = "16 word"

record vga =
  current_row :: nat
  current_col :: nat
  text_buffer :: "nat \<Rightarrow> nat \<Rightarrow> cell"
  vga_memory :: "nat \<Rightarrow> cell"

definition kNumRows :: nat where "kNumRows = 25"
definition kNumCols :: nat where "kNumCols = 80"
definition Black :: nat where "Black = 0"
definition White :: nat where "White = 15"

definition new_vga :: "(nat \<Rightarrow> cell) \<Rightarrow> vga" where
  "new_vga memory = \<lparr>current_row = 0, current_col = 0, text_buffer = (\<lambda>_ _. 0), vga_memory = memory\<rparr>"

section \<open>Cells and rows\<close>

unbundle bit_operations_syntax

definition vga_cell :: "8 word \<Rightarrow> nat \<Rightarrow> cell" where
  \<comment> \<open>\<open>c | (color << 8)\<close>, c as a signed \<open>char\<close>\<close>
  "vga_cell c color = scast c OR push_bit 8 (of_nat color)"

definition PutCharAt :: "nat \<Rightarrow> nat \<Rightarrow> 8 word \<Rightarrow> nat \<Rightarrow> vga \<Rightarrow> vga option" where
  "PutCharAt row col c color v =
     (if row < kNumRows \<and> col < kNumCols
      then Some (v\<lparr>text_buffer := (text_buffer v)(row := (text_buffer v row)(col := vga_cell (if c = 13 then 0 else c) color))\<rparr>)
      else None)"

definition ScrollTextBufferUp :: "nat \<Rightarrow> vga \<Rightarrow> vga" where
  "ScrollTextBufferUp num_up v =
     v\<lparr>text_buffer := (if num_up \<ge> kNumRows then (\<lambda>_ _. 0)
                      else (\<lambda>row col. if row + num_up < kNumRows then text_buffer v (row + num_up) col else 0))\<rparr>"

fun put_chars_at :: "nat \<Rightarrow> nat \<Rightarrow> view \<Rightarrow> nat \<Rightarrow> vga \<Rightarrow> vga option" where
  \<comment> \<open>the loop of \<open>PrintStringLineAtCursor\<close>\<close>
  "put_chars_at row i [] color v = Some v"
| "put_chars_at row i (c # s) color v = do { v1 \<leftarrow> PutCharAt row i c color v; put_chars_at row (i + 1) s color v1 }"

definition PrintStringLineAtCursor :: "view \<Rightarrow> nat \<Rightarrow> vga \<Rightarrow> vga option" where
  "PrintStringLineAtCursor s color v =
     do {
       let v1 = (if current_row v = kNumRows then (ScrollTextBufferUp 1 v)\<lparr>current_row := current_row v - 1\<rparr> else v);
       let part = take (min (current_col v1 + length s) kNumCols - current_col v1) s;
       v2 \<leftarrow> put_chars_at (current_row v1) (current_col v1) part color v1;
       let i = current_col v1 + length part;
       Some (if i = kNumCols then v2\<lparr>current_col := 0, current_row := current_row v1 + 1\<rparr> else v2\<lparr>current_col := i\<rparr>)
     }"

section \<open>Strings\<close>

definition end_line :: "vga \<Rightarrow> vga" where
  \<comment> \<open>what \<open>PrintString\<close> does at a newline\<close>
  "end_line v =
     (if current_col v \<noteq> 0 \<and> current_row v < kNumRows
      then v\<lparr>text_buffer := (text_buffer v)(current_row v :=
                (\<lambda>i. if current_col v \<le> i \<and> i < kNumCols then 0 else text_buffer v (current_row v) i)),
             current_row := current_row v + 1, current_col := 0\<rparr>
      else v)"

partial_function (option) print_lines :: "view \<Rightarrow> nat \<Rightarrow> vga \<Rightarrow> vga option" where
  \<comment> \<open>the first loop of \<open>PrintString\<close>\<close>
  "print_lines s color v =
     (if s = [] then Some v
      else
        let len = min (sub64 kNumCols (current_col v)) (length s);
            endline = sv_find_first_of_n 10 0 len s;
            chars = (case endline of None \<Rightarrow> len | Some e \<Rightarrow> e)
        in do {
             v1 \<leftarrow> PrintStringLineAtCursor (sv_substr 0 (Some chars) s) color v;
             if endline \<noteq> None then print_lines (sv_remove_prefix (min (chars + 1) len) s) color (end_line v1)
             else print_lines (sv_remove_prefix (min chars len) s) color v1
           })"

definition copy_row :: "nat \<Rightarrow> vga \<Rightarrow> vga option" where
  "copy_row row v =
     (if row < kNumRows
      then Some (v\<lparr>vga_memory := (\<lambda>k. if row * kNumCols \<le> k \<and> k < (row + 1) * kNumCols
                                      then text_buffer v row (k - row * kNumCols) else vga_memory v k)\<rparr>)
      else None)"

fun copy_rows :: "nat list \<Rightarrow> vga \<Rightarrow> vga option" where
  "copy_rows [] v = Some v"
| "copy_rows (row # rows) v = do { v1 \<leftarrow> copy_row row v; copy_rows rows v1 }"

definition PrintString :: "view \<Rightarrow> nat \<Rightarrow> vga \<Rightarrow> vga option" where
  "PrintString s color v =
     do {
       v1 \<leftarrow> print_lines s color v;
       v2 \<leftarrow> copy_rows [0 ..< current_row v1] v1;
       if current_col v2 \<noteq> 0 then copy_row (current_row v2) v2 else Some v2
     }"

definition FlushTextBuffer :: "vga \<Rightarrow> vga option" where
  "FlushTextBuffer v = copy_rows [0 ..< kNumRows] v"

definition ClearScreen :: "vga \<Rightarrow> vga" where
  "ClearScreen v =
     \<lparr>current_row = 0, current_col = 0, text_buffer = (\<lambda>_ _. 0),
      vga_memory = (\<lambda>k. if k < kNumRows * kNumCols then 0 else vga_memory v k)\<rparr>"

section \<open>Key strokes\<close>

definition next_row :: "vga \<Rightarrow> vga" where
  \<comment> \<open>the four lines \<open>PrintKeyStrokes\<close> has twice\<close>
  "next_row v =
     (if current_row v < kNumRows - 1 then v\<lparr>current_row := current_row v + 1\<rparr> else ScrollTextBufferUp 1 v)\<lparr>current_col := 0\<rparr>"

definition print_key_stroke :: "key_stroke \<Rightarrow> vga \<Rightarrow> vga option" where
  \<comment> \<open>a round of the loop\<close>
  "print_key_stroke k v0 =
     (let v = (if current_col v0 = kNumCols then next_row v0 else v0)
      in if stroke_key k = ENTER then Some (next_row v)
         else if stroke_key k = BACKSPACE then
           if current_col v > 0
           then PutCharAt (current_row v) (current_col v - 1) 0 White (v\<lparr>current_col := current_col v - 1\<rparr>)
           else Some v
         else if ToChar k = 0 then Some v
         else map_option (\<lambda>w. w\<lparr>current_col := current_col w + 1\<rparr>) (PutCharAt (current_row v) (current_col v) (ToChar k) White v))"

fun print_key_strokes :: "key_stroke list \<Rightarrow> vga \<Rightarrow> vga option" where
  "print_key_strokes [] v = Some v"
| "print_key_strokes (k # ks) v = do { v1 \<leftarrow> print_key_stroke k v; print_key_strokes ks v1 }"

definition PrintKeyStrokes :: "key_stroke list \<Rightarrow> nat \<Rightarrow> nat \<Rightarrow> vga \<Rightarrow> vga option" where
  "PrintKeyStrokes ks start stop v =
     (if start \<ge> stop then Some v
      else if stop > length ks then None
      else do {
        let v1 = (if current_row v = kNumRows then (ScrollTextBufferUp 1 v)\<lparr>current_row := current_row v - 1\<rparr> else v);
        v2 \<leftarrow> print_key_strokes (map (nth ks) [start ..< stop]) v1;
        FlushTextBuffer v2
      })"

fun EstimateNumScrollDown :: "key_stroke list \<Rightarrow> nat \<Rightarrow> nat" where
  \<comment> \<open>of the strokes from \<open>start\<close> to \<open>end\<close>, from the current column\<close>
  "EstimateNumScrollDown [] col0 = 0"
| "EstimateNumScrollDown (k # ks) col0 =
     (let wrapped = (if col0 = kNumCols then 1 else 0);
          col = (if col0 = kNumCols then 0 else col0)
      in wrapped + (if stroke_key k = ENTER then 1 + EstimateNumScrollDown ks 0
                    else if stroke_key k = BACKSPACE then EstimateNumScrollDown ks (col - 1)
                    else EstimateNumScrollDown ks (col + 1)))"

end
