(* ===== verification/VgaProps.thy ===== *)
theory VgaProps
  imports VgaText
begin

text \<open>
  The text screen is a terminal: printing a string is typing its characters one by one, whatever was printed
  or typed before, and no access leaves the buffer.
\<close>

section \<open>A terminal, character by character\<close>

definition wrap_row :: "vga \<Rightarrow> vga" where
  "wrap_row v = (if current_col v = kNumCols then v\<lparr>current_col := 0, current_row := current_row v + 1\<rparr> else v)"

definition make_room :: "vga \<Rightarrow> vga" where
  "make_room v =
     (if current_row v = 25
      then v\<lparr>text_buffer := (\<lambda>row col. if row < 24 then text_buffer v (row + 1) col else 0), current_row := 24\<rparr> else v)"

definition new_line :: "vga \<Rightarrow> vga" where
  "new_line v =
     (if current_col v = 0 then v
      else v\<lparr>text_buffer := (\<lambda>row col. if row = current_row v \<and> current_col v \<le> col \<and> col < 80 then 0 else text_buffer v row col),
             current_row := current_row v + 1, current_col := 0\<rparr>)"

lemma make_room_scroll: "make_room v = (if current_row v = kNumRows then (ScrollTextBufferUp 1 v)\<lparr>current_row := kNumRows - 1\<rparr> else v)"
  by (auto simp: make_room_def ScrollTextBufferUp_def kNumRows_def fun_eq_iff)

lemma end_line_new: "current_row v < kNumRows \<Longrightarrow> end_line v = new_line v"
  by (auto simp: end_line_def new_line_def kNumCols_def fun_eq_iff)

definition put_cell :: "nat \<Rightarrow> 8 word \<Rightarrow> vga \<Rightarrow> vga" where
  "put_cell color c v =
     v\<lparr>text_buffer := (text_buffer v)(current_row v := (text_buffer v (current_row v))(current_col v := vga_cell (if c = 13 then 0 else c) color)),
       current_col := current_col v + 1\<rparr>"

definition type_char :: "nat \<Rightarrow> 8 word \<Rightarrow> vga \<Rightarrow> vga" where
  "type_char color c v =
     (let w = make_room (wrap_row v) in if c = 10 then new_line w else wrap_row (put_cell color c w))"

definition displayed :: "vga \<Rightarrow> vga" where
  "displayed v = v\<lparr>vga_memory := (\<lambda>k. if k < (current_row v + of_bool (current_col v \<noteq> 0)) * kNumCols
                                then text_buffer v (k div kNumCols) (k mod kNumCols) else vga_memory v k)\<rparr>"

definition vga_ok :: "vga \<Rightarrow> bool" where
  "vga_ok v \<longleftrightarrow> current_row v \<le> kNumRows \<and> current_col v \<le> kNumCols \<and> (current_col v \<noteq> 0 \<longrightarrow> current_row v < kNumRows)"

lemmas vga_consts = kNumRows_def kNumCols_def

lemma vga_wrapped: "vga_ok v \<Longrightarrow> vga_ok (wrap_row v) \<and> current_col (wrap_row v) < kNumCols"
  by (auto simp: vga_ok_def wrap_row_def vga_consts)

lemma vga_room:
  "vga_ok v \<Longrightarrow> current_col v < kNumCols \<Longrightarrow> vga_ok (make_room v) \<and> current_col (make_room v) < kNumCols \<and> current_row (make_room v) < kNumRows"
  by (auto simp: vga_ok_def make_room_scroll ScrollTextBufferUp_def vga_consts)

lemma vga_typed: "vga_ok v \<Longrightarrow> vga_ok (type_char color c v) \<and> current_col (type_char color c v) < kNumCols"
proof -
  assume "vga_ok v"
  then have "vga_ok (make_room (wrap_row v)) \<and> current_col (make_room (wrap_row v)) < kNumCols \<and> current_row (make_room (wrap_row v)) < kNumRows"
    using vga_wrapped vga_room by blast
  then show ?thesis
    by (auto simp: type_char_def Let_def vga_ok_def new_line_def wrap_row_def put_cell_def vga_consts)
qed

lemma vga_typed_all: "vga_ok v \<Longrightarrow> vga_ok (fold (type_char color) s v)"
  by (induction s arbitrary: v) (auto simp: vga_typed)

section \<open>Lines\<close>

lemma PutCharAt_col:
  "PutCharAt row i c color (v\<lparr>current_col := x\<rparr>) = map_option (\<lambda>w. w\<lparr>current_col := x\<rparr>) (PutCharAt row i c color v)"
  by (simp add: PutCharAt_def)

lemma put_chars_at_col:
  "put_chars_at row i s color (v\<lparr>current_col := x\<rparr>) = map_option (\<lambda>w. w\<lparr>current_col := x\<rparr>) (put_chars_at row i s color v)"
proof (induction s arbitrary: i v)
  case (Cons c s)
  then show ?case by (cases "PutCharAt row i c color v") (simp_all add: PutCharAt_col)
qed simp

lemma type_put_cells:
  assumes "current_row v < kNumRows" "current_col v + length s \<le> kNumCols" "10 \<notin> set s" "s \<noteq> []"
  shows "put_chars_at (current_row v) (current_col v) s color v = Some ((fold (put_cell color) s v)\<lparr>current_col := current_col v\<rparr>)
    \<and> fold (type_char color) s v = wrap_row (fold (put_cell color) s v)
    \<and> current_row (fold (put_cell color) s v) = current_row v \<and> current_col (fold (put_cell color) s v) = current_col v + length s"
  using assms
proof (induction s arbitrary: v)
  case Nil
  then show ?case by simp
next
  case (Cons c s)
  let ?v = "put_cell color c v"
  have at: "current_row v < kNumRows" "current_col v < kNumCols" using Cons.prems by simp_all
  then have id: "make_room (wrap_row v) = v" by (simp add: make_room_scroll wrap_row_def)
  have v: "current_row ?v = current_row v" "current_col ?v = current_col v + 1" by (simp_all add: put_cell_def)
  have step: "PutCharAt (current_row v) (current_col v) c color v = Some (?v\<lparr>current_col := current_col v\<rparr>)"
    using at by (simp add: PutCharAt_def put_cell_def)
  show ?case
  proof (cases s)
    case Nil
    then show ?thesis using Cons.prems step id v by (simp add: type_char_def Let_def)
  next
    case (Cons d t)
    then have ih: "put_chars_at (current_row ?v) (current_col ?v) s color ?v = Some ((fold (put_cell color) s ?v)\<lparr>current_col := current_col ?v\<rparr>)
      \<and> fold (type_char color) s ?v = wrap_row (fold (put_cell color) s ?v)
      \<and> current_row (fold (put_cell color) s ?v) = current_row ?v \<and> current_col (fold (put_cell color) s ?v) = current_col ?v + length s"
      using Cons.IH [of ?v] Cons.prems v by auto
    have wrap: "wrap_row ?v = ?v" using Cons Cons.prems(2) v by (simp add: wrap_row_def)
    have nl: "c \<noteq> 10" using Cons.prems(3) by auto
    have "put_chars_at (current_row v) (current_col v + 1) s color (?v\<lparr>current_col := current_col v\<rparr>)
        = Some ((fold (put_cell color) s ?v)\<lparr>current_col := current_col v\<rparr>)"
      using ih v by (simp add: put_chars_at_col)
    moreover have "type_char color c v = ?v" using id wrap nl by (simp add: type_char_def Let_def)
    ultimately show ?thesis using ih step v by simp
  qed
qed

lemma typed_from_room:
  assumes "vga_ok v" "current_col v < kNumCols"
  shows "type_char color c (make_room v) = type_char color c v"
proof -
  have "make_room (wrap_row (make_room v)) = make_room (wrap_row v)"
    using assms vga_room [OF assms] by (auto simp: wrap_row_def make_room_scroll)
  then show ?thesis by (simp add: type_char_def)
qed

lemma print_line_ok:
  assumes "vga_ok v" "current_col v < kNumCols" "length s \<le> kNumCols - current_col v" "10 \<notin> set s"
  shows "PrintStringLineAtCursor s color v = Some (if s = [] then make_room v else fold (type_char color) s v)"
    and "length s < kNumCols - current_col v \<Longrightarrow> s \<noteq> [] \<Longrightarrow> current_col (fold (type_char color) s v) = current_col v + length s"
proof -
  let ?w = "make_room v"
  have w: "current_row ?w < kNumRows" "current_col ?w = current_col v" "current_col ?w + length s \<le> kNumCols"
    using vga_room [OF assms(1,2)] assms(2,3)
    by (cases "current_row v = kNumRows"; auto simp: make_room_scroll ScrollTextBufferUp_def vga_consts)+
  have unfold: "PrintStringLineAtCursor s color v =
      do { v2 \<leftarrow> put_chars_at (current_row ?w) (current_col ?w) s color ?w;
           Some (if current_col ?w + length s = kNumCols then v2\<lparr>current_col := 0, current_row := current_row ?w + 1\<rparr>
                 else v2\<lparr>current_col := current_col ?w + length s\<rparr>) }"
  proof -
    have "(if current_row v = kNumRows then (ScrollTextBufferUp 1 v)\<lparr>current_row := current_row v - 1\<rparr> else v) = ?w"
      by (simp add: make_room_scroll)
    moreover have "min (current_col ?w + length s) kNumCols - current_col ?w = length s" using w(3) by simp
    moreover from this have "take (min (current_col ?w + length s) kNumCols - current_col ?w) s = s" by (rule take_all [OF eq_imp_le [OF sym]])
    ultimately show ?thesis by (simp add: PrintStringLineAtCursor_def Let_def cong: if_cong)
  qed
  have from_room: "fold (type_char color) s v = fold (type_char color) s ?w" if "s \<noteq> []"
    using that typed_from_room [OF assms(1,2)] by (cases s) simp_all
  note t = type_put_cells [OF w(1,3) assms(4), of color]
  show "PrintStringLineAtCursor s color v = Some (if s = [] then make_room v else fold (type_char color) s v)"
    unfolding unfold using w assms(2) t from_room by (cases "s = []") (auto simp: wrap_row_def)
  show "current_col (fold (type_char color) s v) = current_col v + length s" if "length s < kNumCols - current_col v" "s \<noteq> []"
    using that t from_room w(2) by (auto simp: wrap_row_def)
qed

lemma find_newline:
  "sv_find_first_of_n 10 0 n s = None \<Longrightarrow> 10 \<notin> set (take n s)"
  "sv_find_first_of_n 10 0 n s = Some e \<Longrightarrow> e < n \<and> e < length s \<and> s ! e = 10 \<and> 10 \<notin> set (take e s)"
  by (auto simp: sv_find_first_of_n_def find_None_iff find_Some_iff in_set_conv_nth)

lemma typed_from_wrapped: "vga_ok v \<Longrightarrow> type_char color c (wrap_row v) = type_char color c v"
proof -
  assume "vga_ok v"
  then have "wrap_row (wrap_row v) = wrap_row v" using vga_wrapped [of v] by (simp add: wrap_row_def [of "wrap_row v"])
  then show ?thesis by (simp add: type_char_def)
qed

lemma fold_take_drop: "fold f (drop n s) (fold f (take n s) x) = fold f s x"
  using fold_append [of f "take n s" "drop n s"] by (simp add: fun_eq_iff)

lemma print_lines_ok:
  "vga_ok v \<Longrightarrow> current_col v < kNumCols \<Longrightarrow> print_lines s color v = Some (fold (type_char color) s v)"
proof (induction "length s" arbitrary: s v rule: less_induct)
  case less
  show ?case
  proof (cases "s = []")
    case True
    then show ?thesis by (subst print_lines.simps) simp
  next
    case False
    let ?len = "min (sub64 kNumCols (current_col v)) (length s)"
    have "sub64 kNumCols (current_col v) = kNumCols - current_col v" using less.prems by (simp add: wrap_simps vga_consts)
    moreover have "0 < length s" using False by simp
    ultimately have len: "?len = min (kNumCols - current_col v) (length s)" "0 < ?len" using less.prems(2) by simp_all
    show ?thesis
    proof (cases "sv_find_first_of_n 10 0 ?len s")
      case None
      let ?v = "fold (type_char color) (take ?len s) v"
      have line: "PrintStringLineAtCursor (take ?len s) color v = Some ?v"
        using print_line_ok(1) [OF less.prems, of "take ?len s"] find_newline(1) [OF None] len False by auto
      have sub: "sv_substr 0 (Some ?len) s = take ?len s" by (simp add: sv_substr_def)
      obtain c t where t: "take ?len s = t @ [c]" using len(2) False by (metis rev_exhaust take_eq_Nil less_irrefl)
      have v: "vga_ok ?v" "current_col ?v < kNumCols" using vga_typed vga_typed_all [OF less.prems(1)] by (simp_all add: t)
      have "print_lines (drop ?len s) color ?v = Some (fold (type_char color) (drop ?len s) ?v)"
        using less.hyps [OF _ v] len(2) False by simp
      then show ?thesis using None line sub False
        by (subst print_lines.simps) (simp add: Let_def sv_remove_prefix_def fold_take_drop)
    next
      case (Some e)
      note e = find_newline(2) [OF Some]
      let ?w = "if take e s = [] then make_room v else fold (type_char color) (take e s) v"
      let ?v = "type_char color 10 (fold (type_char color) (take e s) v)"
      have line: "PrintStringLineAtCursor (take e s) color v = Some ?w"
        using print_line_ok(1) [OF less.prems, of "take e s"] e len(1) by simp
      have ended: "end_line ?w = ?v"
      proof (cases "take e s = []")
        case True
        have "end_line (make_room v) = new_line (make_room v)" using vga_room [OF less.prems] by (simp add: end_line_new)
        then show ?thesis using less.prems(2) by (simp only: True fold_simps if_True) (simp add: type_char_def wrap_row_def Let_def)
      next
        case nonempty: False
        let ?u = "fold (type_char color) (take e s) v"
        have "current_col ?u = current_col v + e" "0 < e"
          using print_line_ok(2) [OF less.prems, of "take e s"] e len(1) nonempty by auto
        moreover have "vga_ok ?u" by (rule vga_typed_all [OF less.prems(1)])
        ultimately have "make_room (wrap_row ?u) = ?u" "end_line ?u = new_line ?u"
          using e len(1) by (auto simp: make_room_scroll wrap_row_def vga_ok_def end_line_new)
        then show ?thesis using nonempty by (simp add: type_char_def Let_def)
      qed
      have sub: "sv_substr 0 (Some e) s = take e s" using e by (simp add: sv_substr_def)
      have pre: "min (e + 1) ?len = e + 1" using e by simp
      have v: "vga_ok ?v" "current_col ?v < kNumCols" using vga_typed vga_typed_all [OF less.prems(1)] by simp_all
      have "print_lines (drop (e + 1) s) color ?v = Some (fold (type_char color) (drop (e + 1) s) ?v)"
        by (rule less.hyps [OF _ v]) (use e in auto)
      moreover have "fold (type_char color) (drop (e + 1) s) ?v = fold (type_char color) s v"
      proof -
        have "take (e + 1) s = take e s @ [10]" using e by (simp add: take_Suc_conv_app_nth)
        then show ?thesis using fold_take_drop [of "type_char color" "e + 1" s v] by simp
      qed
      ultimately show ?thesis using Some line sub False pre ended
        by (subst print_lines.simps) (simp add: Let_def sv_remove_prefix_def del: fold_simps)
    qed
  qed
qed

section \<open>Any run of the screen\<close>

lemma print_lines_wrapped: "vga_ok v \<Longrightarrow> print_lines s color v = Some (fold (type_char color) s v)"
proof (cases "current_col v = kNumCols \<and> s \<noteq> []")
  case True
  assume ok: "vga_ok v"
  have len: "min (sub64 kNumCols (current_col v)) (length s) = 0" using True by (simp add: wrap_simps vga_consts)
  have "current_row v < kNumRows" using ok True by (simp add: vga_ok_def vga_consts)
  then have line: "PrintStringLineAtCursor [] color v = Some (wrap_row v)"
    using True by (simp add: PrintStringLineAtCursor_def Let_def wrap_row_def)
  obtain c t where s: "s = c # t" using True by (cases s) auto
  have "print_lines s color (wrap_row v) = Some (fold (type_char color) s (wrap_row v))"
    using print_lines_ok vga_wrapped [OF ok] by blast
  also have "fold (type_char color) s (wrap_row v) = fold (type_char color) s v"
    by (simp add: s typed_from_wrapped [OF ok])
  finally show ?thesis using True len line
    by (subst print_lines.simps) (simp add: Let_def sv_find_first_of_n_def sv_substr_def sv_remove_prefix_def)
next
  case False
  assume ok: "vga_ok v"
  show ?thesis
  proof (cases "s = []")
    case True
    then show ?thesis by (subst print_lines.simps) simp
  next
    case s: False
    then have "current_col v < kNumCols" using False ok by (auto simp: vga_ok_def)
    then show ?thesis by (rule print_lines_ok [OF ok])
  qed
qed

lemma copy_rows_append: "copy_rows (a @ b) v = do { w \<leftarrow> copy_rows a v; copy_rows b w }"
  by (induction a arbitrary: v) (auto split: bind_splits)

lemma copy_rows_ok:
  "n \<le> kNumRows \<Longrightarrow> copy_rows [0 ..< n] v
     = Some (v\<lparr>vga_memory := (\<lambda>k. if k < n * kNumCols then text_buffer v (k div kNumCols) (k mod kNumCols) else vga_memory v k)\<rparr>)"
proof (induction n)
  case (Suc n)
  have "k div kNumCols = n \<and> k mod kNumCols = k - n * kNumCols" if "n * kNumCols \<le> k" "k < (n + 1) * kNumCols" for k
  proof -
    have "k div kNumCols = n" using that by (intro div_nat_eqI) (simp_all add: algebra_simps)
    then show ?thesis by (simp add: minus_div_mult_eq_mod [symmetric])
  qed
  then show ?case using Suc by (auto simp: copy_rows_append copy_row_def fun_eq_iff)
qed simp

lemma PrintString_ok:
  assumes "vga_ok v"
  shows "PrintString s color v = Some (displayed (fold (type_char color) s v))"
proof -
  let ?v = "fold (type_char color) s v"
  have ok: "vga_ok ?v" by (rule vga_typed_all [OF assms])
  then have "copy_rows [0 ..< current_row ?v] ?v \<noteq> None" using copy_rows_ok by (simp add: vga_ok_def)
  have all: "copy_rows [0 ..< current_row ?v] ?v = Some (displayed ?v)" if "current_col ?v = 0"
    using copy_rows_ok [of "current_row ?v" ?v] ok that by (simp add: vga_ok_def displayed_def)
  have more: "do { w \<leftarrow> copy_rows [0 ..< current_row ?v] ?v; copy_row (current_row w) w } = Some (displayed ?v)" if c: "current_col ?v \<noteq> 0"
  proof -
    have row: "current_row ?v < kNumRows" using ok c by (simp add: vga_ok_def)
    obtain w where w: "copy_rows [0 ..< current_row ?v] ?v = Some w" "current_row w = current_row ?v"
      using copy_rows_ok [of "current_row ?v" ?v] row by simp
    have "do { w \<leftarrow> copy_rows [0 ..< current_row ?v] ?v; copy_row (current_row w) w } = copy_rows [0 ..< current_row ?v + 1] ?v"
      using w by (cases "copy_row (current_row ?v) w") (simp_all add: copy_rows_append)
    also have "\<dots> = Some (displayed ?v)" using copy_rows_ok [of "current_row ?v + 1" ?v] row c by (simp add: displayed_def)
    finally show ?thesis .
  qed
  have col: "current_col w = current_col ?v" if "copy_rows [0 ..< current_row ?v] ?v = Some w" for w
    using copy_rows_ok [of "current_row ?v" ?v] ok that by (auto simp: vga_ok_def)
  show ?thesis
  proof (cases "current_col ?v = 0")
    case True
    then show ?thesis using all by (simp add: PrintString_def print_lines_wrapped [OF assms] displayed_def)
  next
    case False
    then show ?thesis using more col
      by (cases "copy_rows [0 ..< current_row ?v] ?v") (simp_all add: PrintString_def print_lines_wrapped [OF assms])
  qed
qed

lemma displayed_ok: "vga_ok v \<Longrightarrow> vga_ok (displayed v)"
  by (simp add: vga_ok_def displayed_def)

lemma print_key_stroke_ok:
  assumes "current_row v < kNumRows" "current_col v \<le> kNumCols"
  shows "\<exists>w. print_key_stroke k v = Some w \<and> current_row w < kNumRows \<and> current_col w \<le> kNumCols"
proof -
  have nr: "current_row (next_row u) < kNumRows" "current_col (next_row u) = 0" if "current_row u < kNumRows" for u
    using that by (auto simp: next_row_def ScrollTextBufferUp_def vga_consts)
  let ?u = "if current_col v = kNumCols then next_row v else v"
  have u: "current_row ?u < kNumRows" "current_col ?u < kNumCols"
    using assms nr [OF assms(1)] by (auto simp: vga_consts)
  have put: "PutCharAt row col c color x = Some y \<Longrightarrow> current_row y = current_row x \<and> current_col y = current_col x" for row col c color x y
    by (auto simp: PutCharAt_def split: if_splits)
  have some: "row < kNumRows \<Longrightarrow> col < kNumCols \<Longrightarrow> \<exists>y. PutCharAt row col c color x = Some y" for row col c color x
    by (simp add: PutCharAt_def)
  consider "stroke_key k = ENTER" | "stroke_key k = BACKSPACE" "0 < current_col ?u" | "stroke_key k = BACKSPACE" "current_col ?u = 0"
    | "stroke_key k \<noteq> ENTER" "stroke_key k \<noteq> BACKSPACE" by auto
  then show ?thesis
  proof cases
    case 1
    then show ?thesis using nr [OF u(1)] by (simp add: print_key_stroke_def Let_def vga_consts)
  next
    case 2
    obtain y where y: "PutCharAt (current_row ?u) (current_col ?u - 1) 0 White (?u\<lparr>current_col := current_col ?u - 1\<rparr>) = Some y"
      using some u by (meson less_imp_diff_less)
    then show ?thesis using 2 u put [OF y] by (simp add: print_key_stroke_def Let_def ENTER_def BACKSPACE_def)
  next
    case 3
    then show ?thesis using u by (simp add: print_key_stroke_def Let_def ENTER_def BACKSPACE_def)
  next
    case 4
    obtain y where y: "PutCharAt (current_row ?u) (current_col ?u) (ToChar k) White ?u = Some y" using some u by blast
    then show ?thesis using 4 u put [OF y] by (simp add: print_key_stroke_def Let_def)
  qed
qed

lemma print_key_strokes_ok:
  "current_row v < kNumRows \<Longrightarrow> current_col v \<le> kNumCols
     \<Longrightarrow> \<exists>w. print_key_strokes ks v = Some w \<and> current_row w < kNumRows \<and> current_col w \<le> kNumCols"
proof (induction ks arbitrary: v)
  case (Cons k ks)
  obtain w where "print_key_stroke k v = Some w" "current_row w < kNumRows" "current_col w \<le> kNumCols"
    using print_key_stroke_ok [OF Cons.prems] by blast
  then show ?case using Cons.IH [of w] by simp
qed simp

lemma PrintKeyStrokes_ok:
  assumes "vga_ok v" "stop \<le> length ks"
  shows "\<exists>w. PrintKeyStrokes ks start stop v = Some w \<and> vga_ok w"
proof (cases "start \<ge> stop")
  case True
  then show ?thesis using assms(1) by (simp add: PrintKeyStrokes_def)
next
  case False
  let ?v = "make_room v"
  have v: "current_row ?v < kNumRows" "current_col ?v \<le> kNumCols"
    using assms(1) by (auto simp: make_room_scroll vga_ok_def ScrollTextBufferUp_def vga_consts)
  have room: "(if current_row v = kNumRows then (ScrollTextBufferUp 1 v)\<lparr>current_row := current_row v - 1\<rparr> else v) = ?v"
    by (simp add: make_room_scroll)
  obtain w where w: "print_key_strokes (map (nth ks) [start ..< stop]) ?v = Some w" "current_row w < kNumRows" "current_col w \<le> kNumCols"
    using print_key_strokes_ok [OF v] by blast
  show ?thesis using False assms(2) w copy_rows_ok [of kNumRows w]
    by (simp add: PrintKeyStrokes_def Let_def room FlushTextBuffer_def vga_ok_def)
qed

datatype vga_op = Print view nat | Keys "key_stroke list" nat nat | Clear

fun vga_run :: "vga_op list \<Rightarrow> vga \<Rightarrow> vga option" where
  "vga_run [] v = Some v"
| "vga_run (Print s color # ops) v = do { w \<leftarrow> PrintString s color v; vga_run ops w }"
| "vga_run (Keys ks start stop # ops) v = do { w \<leftarrow> PrintKeyStrokes ks start stop v; vga_run ops w }"
| "vga_run (Clear # ops) v = vga_run ops (ClearScreen v)"

lemma vga_run_ok:
  "vga_ok v \<Longrightarrow> (\<forall>ks start stop. Keys ks start stop \<in> set ops \<longrightarrow> stop \<le> length ks) \<Longrightarrow> \<exists>w. vga_run ops v = Some w \<and> vga_ok w"
proof (induction ops arbitrary: v)
  case (Cons op ops)
  have rest: "vga_ok w \<Longrightarrow> \<exists>x. vga_run ops w = Some x \<and> vga_ok x" for w using Cons.IH [of w] Cons.prems(2) by simp
  show ?case
  proof (cases op)
    case (Print s color)
    then show ?thesis using rest [OF displayed_ok [OF vga_typed_all [OF Cons.prems(1)]]]
      by (simp add: PrintString_ok [OF Cons.prems(1)])
  next
    case (Keys ks start stop)
    then have "stop \<le> length ks" using Cons.prems(2) by simp
    from PrintKeyStrokes_ok [OF Cons.prems(1) this] obtain w where "PrintKeyStrokes ks start stop v = Some w" "vga_ok w" by blast
    then show ?thesis using Keys rest by simp
  next
    case Clear
    have "vga_ok (ClearScreen v)" by (simp add: ClearScreen_def vga_ok_def)
    then show ?thesis using Clear rest by simp
  qed
qed simp

text \<open>C38: From the cleared screen on, any sequence of strings, key strokes and clearings runs without an access
  outside the buffer, and in every state it reaches printing a string shows what a terminal shows that
  types its characters one by one.\<close>

theorem vga_is_terminal:
  assumes "\<forall>ks start stop. Keys ks start stop \<in> set ops \<longrightarrow> stop \<le> length ks"
  shows "\<exists>v. vga_run ops (new_vga memory) = Some v \<and> PrintString s color v = Some (displayed (fold (type_char color) s v))"
proof -
  have "vga_ok (new_vga memory)" by (simp add: vga_ok_def new_vga_def)
  then show ?thesis using vga_run_ok assms PrintString_ok by blast
qed

theorem vga_is_terminal_witness:
  "\<exists>v w. vga_run [Print [72, 105] White, Keys [] 0 0] (new_vga (\<lambda>_. 0)) = Some v \<and> PrintString [33, 10] White v = Some w"
proof -
  have "\<forall>ks start stop. Keys ks start stop \<in> set [Print [72, 105] White, Keys [] 0 0] \<longrightarrow> stop \<le> length ks" by simp
  from vga_is_terminal [OF this, where memory = "\<lambda>_. 0" and s = "[33, 10]" and color = White] show ?thesis by blast
qed

section \<open>What the screen does not show\<close>

text \<open>An empty line is not printed; and after a line at the bottom, where only the newline scrolls, the last row of
  the screen keeps what it had.\<close>

lemma blank_line_lost:
  "current_col v = 0 \<Longrightarrow> current_row v < kNumRows \<Longrightarrow> fold (type_char color) [10] v = v"
  by (simp add: type_char_def wrap_row_def make_room_scroll new_line_def kNumCols_def)

lemma last_row_stale:
  assumes "current_row v = kNumRows" "current_col v = 0" "24 * kNumCols \<le> k"
  shows "\<exists>w. PrintString [10] color v = Some w \<and> vga_memory w k = vga_memory v k \<and> text_buffer w 24 col = 0"
proof -
  have "vga_ok v" using assms by (simp add: vga_ok_def)
  have "fold (type_char color) [10] v = make_room v"
    using assms by (simp add: type_char_def wrap_row_def make_room_scroll new_line_def ScrollTextBufferUp_def vga_consts)
  then show ?thesis unfolding PrintString_ok [OF \<open>vga_ok v\<close>] using assms
    by (simp add: displayed_def make_room_scroll ScrollTextBufferUp_def vga_consts)
qed

lemma high_char_loses_color: "vga_cell 0xE4 1 = vga_cell 0xE4 White"
  unfolding White_def by code_simp

end
