(* ===== verification/Acpi.thy ===== *)
theory Acpi
  imports Prelude
begin

text \<open>
  What the machine says of itself at start-up: the ACPI tables, \<open>kernel/kernel/acpi.cc\<close> and \<open>acpi.h\<close>, and the
  tags of the boot loader, \<open>ParseMultibootInfo\<close> of \<open>kernel/kernel/graphic.cc\<close>. Tables are read from bytes;
  a read behind the bytes there are is None, and so is a failed \<open>ASSERT\<close>.
\<close>

section \<open>Little-endian numbers\<close>

fun le_number :: "8 word list \<Rightarrow> nat" where
  "le_number [] = 0"
| "le_number (b # bs) = unat b + 256 * le_number bs"

definition bytes_at :: "nat \<Rightarrow> nat \<Rightarrow> 8 word list \<Rightarrow> 8 word list option" where
  "bytes_at i n dat = (if i + n \<le> length dat then Some (take n (drop i dat)) else None)"

definition number_at :: "nat \<Rightarrow> nat \<Rightarrow> 8 word list \<Rightarrow> nat option" where
  "number_at i n dat = map_option le_number (bytes_at i n dat)"

section \<open>Finding the tables\<close>

definition rsd_ptr :: "8 word list" where
  "rsd_ptr = [82, 83, 68, 32, 80, 84, 82, 32]"  \<comment> \<open>RSD PTR and a blank\<close>

definition DetectRSDP :: "mem \<Rightarrow> nat option option" where
  \<comment> \<open>the address of the descriptor, if there is one\<close>
  "DetectRSDP m =
     (case List.find (\<lambda>i. map m [i ..< i + 8] = rsd_ptr) (map (\<lambda>k. 0xE0000 + 16 * k) [0 ..< 0x2000]) of
        None \<Rightarrow> Some None
      | Some i \<Rightarrow> if m (i + 15) = 0 then Some (Some i) else None)"

definition GetBoundary :: "nat \<Rightarrow> nat" where
  "GetBoundary addr = addr div 4096 * 4096"

record acpi_table =
  signature :: "8 word list"
  header_len :: nat
  table_data :: "8 word list"

definition VerifyHeaderChecksum :: "8 word list \<Rightarrow> bool" where
  "VerifyHeaderChecksum bs \<longleftrightarrow> sum_list (map unat bs) mod 256 = 0"

definition window_bytes :: "mem \<Rightarrow> nat \<Rightarrow> nat \<Rightarrow> nat \<Rightarrow> 8 word list option" where
  \<comment> \<open>n bytes at a, in the page that is mapped for the RSDT\<close>
  "window_bytes m rsdt_addr a n =
     (if GetBoundary rsdt_addr \<le> a \<and> a + n \<le> GetBoundary rsdt_addr + 4096 then Some (map m [a ..< a + n]) else None)"

definition read_table :: "mem \<Rightarrow> nat \<Rightarrow> nat \<Rightarrow> acpi_table option" where
  \<comment> \<open>a table with a correct sum; with a length below that of its header the copy of its data does not end\<close>
  "read_table m rsdt_addr a =
     do {
       h \<leftarrow> window_bytes m rsdt_addr a 36;
       len \<leftarrow> number_at 4 4 h;
       bs \<leftarrow> window_bytes m rsdt_addr a len;
       if 36 \<le> len \<and> VerifyHeaderChecksum bs then Some \<lparr>signature = take 4 h, header_len = len, table_data = drop 36 bs\<rparr> else None
     }"

fun read_tables :: "mem \<Rightarrow> nat \<Rightarrow> nat list \<Rightarrow> acpi_table list option" where
  "read_tables m rsdt_addr [] = Some []"
| "read_tables m rsdt_addr (i # is') =
     do {
       p \<leftarrow> window_bytes m rsdt_addr (rsdt_addr + 36 + 4 * i) 4;
       t \<leftarrow> read_table m rsdt_addr (le_number p);
       ts \<leftarrow> read_tables m rsdt_addr is';
       Some (t # ts)
     }"

definition ParseRSDT :: "mem \<Rightarrow> nat \<Rightarrow> acpi_table list option" where
  \<comment> \<open>\<open>entries_\<close>\<close>
  "ParseRSDT m rsdt_addr =
     do {
       t \<leftarrow> read_table m rsdt_addr rsdt_addr;
       read_tables m rsdt_addr [0 ..< u32 (sub64 (header_len t) 36 div 4)]
     }"

definition GetEntry :: "8 word list \<Rightarrow> acpi_table list \<Rightarrow> acpi_table option" where
  "GetEntry entry_name entries = List.find (\<lambda>t. signature t = entry_name) entries"

section \<open>The processors\<close>

definition madt_size :: "nat \<Rightarrow> nat" where
  \<comment> \<open>the bytes read behind type and length\<close>
  "madt_size entry_type =
     (if entry_type = 0 then 6 else if entry_type = 1 then 10 else if entry_type = 2 then 8 else if entry_type = 4 then 4
      else if entry_type = 5 then 10 else 0)"

function madt_loop :: "8 word list \<Rightarrow> nat \<Rightarrow> 8 word list option" where
  \<comment> \<open>what is pushed to \<open>core_apic_ids_\<close> from the offset pos on\<close>
  "madt_loop dat pos =
     (if pos < length dat then
        (case bytes_at pos 2 dat of
           None \<Rightarrow> None
         | Some th \<Rightarrow>
             let entry_type = unat (th ! 0)
             in (case bytes_at (pos + 2) (madt_size entry_type) dat of
                   None \<Rightarrow> None
                 | Some p \<Rightarrow>
                     (case madt_loop dat (pos + 2 + madt_size entry_type) of
                        None \<Rightarrow> None
                      | Some ids \<Rightarrow> Some (if entry_type = 0 then p ! 1 # ids else ids))))
      else Some [])"
  by pat_completeness auto

termination
  by (relation "measure (\<lambda>(dat, pos). length dat - pos)") auto

declare madt_loop.simps [simp del]

definition ParseMADT :: "acpi_table list \<Rightarrow> 8 word list option" where
  "ParseMADT entries =
     do {
       entry \<leftarrow> GetEntry [65, 80, 73, 67] entries;
       _ \<leftarrow> bytes_at 0 8 (table_data entry);
       madt_loop (table_data entry) 8
     }"

definition EnableACPI :: "acpi_table list \<Rightarrow> (nat \<times> nat \<times> nat) option" where
  \<comment> \<open>the port and the byte that are written, and the port that is polled\<close>
  "EnableACPI entries =
     do {
       entry \<leftarrow> GetEntry [70, 65, 67, 80] entries;
       smi_cmd_port \<leftarrow> number_at 12 4 (table_data entry);
       acpi_enable \<leftarrow> number_at 16 1 (table_data entry);
       pm1a_control_block \<leftarrow> number_at 28 4 (table_data entry);
       Some (smi_cmd_port mod 2 ^ 16, acpi_enable, pm1a_control_block mod 2 ^ 16)
     }"

definition hpet_address :: "acpi_table list \<Rightarrow> nat option" where
  \<comment> \<open>what \<open>ParseHPET\<close> maps\<close>
  "hpet_address entries =
     do {
       entry \<leftarrow> GetEntry [72, 80, 69, 84] entries;
       _ \<leftarrow> bytes_at 0 20 (table_data entry);
       number_at 8 8 (table_data entry)
     }"

section \<open>The boot loader's tags\<close>

definition MULTIBOOT_TAG_TYPE_END :: nat where "MULTIBOOT_TAG_TYPE_END = 0"
definition MULTIBOOT_TAG_TYPE_FRAMEBUFFER :: nat where "MULTIBOOT_TAG_TYPE_FRAMEBUFFER = 8"

definition framebuffer_at :: "nat \<Rightarrow> 8 word list \<Rightarrow> (nat \<times> nat \<times> nat \<times> nat) option" where
  \<comment> \<open>width, height, bits of a pixel, and the address\<close>
  "framebuffer_at i info =
     do {
       addr \<leftarrow> number_at (i + 8) 8 info;
       w \<leftarrow> number_at (i + 20) 4 info;
       h \<leftarrow> number_at (i + 24) 4 info;
       bpp \<leftarrow> number_at (i + 28) 1 info;
       Some (w, h, bpp, addr)
     }"

definition next_tag :: "nat \<Rightarrow> nat \<Rightarrow> nat" where
  "next_tag i tag_size =
     (let j = u32 (i + tag_size) in if j mod 8 \<noteq> 0 then u32 (j + (8 - j mod 8)) else j)"

partial_function (option) multiboot_loop ::
  "8 word list \<Rightarrow> nat \<Rightarrow> nat \<Rightarrow> (nat \<times> nat \<times> nat \<times> nat) list option" where
  \<comment> \<open>the calls of \<open>GraphicManager::Init\<close> from the tag at i on\<close>
  "multiboot_loop info total_size i =
     (if i < total_size then do {
        tag_type \<leftarrow> number_at i 4 info;
        if tag_type = MULTIBOOT_TAG_TYPE_END then Some []
        else do {
          inits \<leftarrow> (if tag_type = MULTIBOOT_TAG_TYPE_FRAMEBUFFER then map_option (\<lambda>x. [x]) (framebuffer_at i info) else Some []);
          tag_size \<leftarrow> number_at (i + 4) 4 info;
          more \<leftarrow> multiboot_loop info total_size (next_tag i tag_size);
          Some (inits @ more)
        }
      } else Some [])"

definition ParseMultibootInfo :: "8 word list \<Rightarrow> (nat \<times> nat \<times> nat \<times> nat) list option" where
  "ParseMultibootInfo info = do { total_size \<leftarrow> number_at 0 4 info; multiboot_loop info total_size 8 }"

section \<open>Reading back what a table says\<close>

lemma bytes_at_part: "bytes_at (length a) (length b) (a @ b @ c) = Some b"
  by (simp add: bytes_at_def)

lemma bytes_at_end: "i = length a \<Longrightarrow> n = length b \<Longrightarrow> bytes_at i n (a @ b @ c) = Some b"
  by (simp add: bytes_at_part)

fun madt_encode :: "8 word \<times> 8 word list \<Rightarrow> 8 word list" where
  "madt_encode (ty, payload) = ty # word_of_nat (length payload + 2) # payload"

definition madt_entry_ok :: "8 word \<times> 8 word list \<Rightarrow> bool" where
  \<comment> \<open>the types, and the lengths that the ACPI specification gives them\<close>
  "madt_entry_ok e \<longleftrightarrow> (unat (fst e), length (snd e) + 2) \<in> {(0, 8), (1, 12), (2, 10), (4, 6), (5, 12)}"

lemma madt_loop_encoded:
  "(\<forall>e \<in> set es. madt_entry_ok e)
     \<Longrightarrow> madt_loop (pre @ concat (map madt_encode es)) (length pre)
         = Some (map (\<lambda>e. snd e ! 1) (filter (\<lambda>e. fst e = 0) es))"
proof (induction es arbitrary: pre)
  case Nil
  then show ?case by (subst madt_loop.simps) simp
next
  case (Cons e es)
  obtain ty p where e: "e = (ty, p)" by (cases e)
  have ok: "length p = madt_size (unat ty)" using Cons.prems e by (auto simp: madt_entry_ok_def madt_size_def)
  let ?h = "[ty, word_of_nat (length p + 2)]" and ?rest = "concat (map madt_encode es)"
  let ?dat = "pre @ concat (map madt_encode (e # es))"
  have dat: "?dat = pre @ ?h @ p @ ?rest" "?dat = (pre @ ?h) @ p @ ?rest" "?dat = (pre @ ?h @ p) @ ?rest"
    by (simp_all add: e)
  have head: "bytes_at (length pre) 2 ?dat = Some ?h" unfolding dat(1) by (rule bytes_at_end) simp_all
  have body: "bytes_at (length pre + 2) (madt_size (unat ty)) ?dat = Some p"
    unfolding dat(2) by (rule bytes_at_end) (simp_all add: ok)
  have "madt_loop ?dat (length (pre @ ?h @ p)) = Some (map (\<lambda>e. snd e ! 1) (filter (\<lambda>e. fst e = 0) es))"
    unfolding dat(3) by (rule Cons.IH) (use Cons.prems in simp)
  then have more: "madt_loop ?dat (length pre + 2 + madt_size (unat ty)) = Some (map (\<lambda>e. snd e ! 1) (filter (\<lambda>e. fst e = 0) es))"
    by (simp add: ok add.assoc)
  have "unat ty = 0 \<longleftrightarrow> ty = 0" by (simp add: unat_eq_0)
  moreover have "length pre < length ?dat" by (simp add: e)
  ultimately show ?case using head body more by (subst madt_loop.simps) (simp add: Let_def e)
qed

text \<open>C40: A table of processors, interrupt controllers and their overrides is read back: the identifiers that are found
  are those of the processors, in order.\<close>

theorem madt_roundtrip:
  assumes "\<forall>e \<in> set es. madt_entry_ok e" "length pre = 8" "signature t = [65, 80, 73, 67]"
    "table_data t = pre @ concat (map madt_encode es)" "\<forall>u \<in> set before. signature u \<noteq> signature t"
  shows "ParseMADT (before @ t # after) = Some (map (\<lambda>e. snd e ! 1) (filter (\<lambda>e. fst e = 0) es))"
proof -
  have "GetEntry [65, 80, 73, 67] (before @ t # after) = Some t"
    using assms(3,5) by (induction before) (simp_all add: GetEntry_def)
  moreover have "bytes_at 0 8 (table_data t) = Some pre"
    using bytes_at_end [of 0 "[]" 8 pre "concat (map madt_encode es)"] assms(2,4) by simp
  ultimately show ?thesis using madt_loop_encoded [OF assms(1), of pre] assms(2,4) by (simp add: ParseMADT_def)
qed

theorem madt_roundtrip_witness:
  "ParseMADT [\<lparr>signature = [70, 65, 67, 80], header_len = 36, table_data = []\<rparr>,
              \<lparr>signature = [65, 80, 73, 67], header_len = 68,
               table_data = replicate 8 0 @ concat (map madt_encode [(0, [0, 3, 1, 0, 0, 0]), (4, [255, 0, 0, 1]), (0, [1, 7, 1, 0, 0, 0])])\<rparr>]
     = Some [3, 7]"
  using madt_roundtrip [of "[(0, [0, 3, 1, 0, 0, 0]), (4, [255, 0, 0, 1]), (0, [1, 7, 1, 0, 0, 0])]" "replicate 8 0"
      "\<lparr>signature = [65, 80, 73, 67], header_len = 68,
        table_data = replicate 8 0 @ concat (map madt_encode [(0, [0, 3, 1, 0, 0, 0]), (4, [255, 0, 0, 1]), (0, [1, 7, 1, 0, 0, 0])])\<rparr>"
      "[\<lparr>signature = [70, 65, 67, 80], header_len = 36, table_data = []\<rparr>]" "[]"]
  by (simp add: madt_entry_ok_def)

text \<open>An entry of any other type is not skipped, though its length is there: what is in it is read as entries. Here
  an interrupt source that cannot be masked is taken for a processor.\<close>

lemma nmi_source_is_a_processor:
  "madt_loop [3, 8, 0, 0, 2, 0, 0, 0, 0, 0] 0 = Some [0]"
  by (subst madt_loop.simps, simp add: bytes_at_def madt_size_def, subst madt_loop.simps, simp add: bytes_at_def madt_size_def)
    (subst madt_loop.simps, simp)

end
