(* ===== verification/Graphic.thy ===== *)
theory Graphic
  imports KString Keyboard
begin

text \<open>
  The graphic screen, \<open>kernel/kernel/graphic.cc\<close> and \<open>graphic.h\<close>: characters are drawn as glyphs into a buffer
  of pixels, which is scrolled and erased, and copied to the video memory where it differs from what was
  copied last. A write outside a buffer is None. \<open>font\<close> gives the rows of the glyph of a character; the lock
  makes a call one step. A call whose state is None is one that left its buffer.
\<close>

type_synonym color = "32 word"
type_synonym glyphs = "int \<Rightarrow> 8 word list option"

record graphic =
  screen_width :: int
  screen_height :: int
  pixel_size :: int
  video_mem :: "int \<Rightarrow> color"
  last_sync :: "int \<Rightarrow> color"
  is_synced :: bool
  screen_buffer :: "int \<Rightarrow> color"
  cur_row :: int
  cur_col :: int
  anchor_row :: int
  anchor_col :: int

definition font_width :: int where "font_width = 8"
definition font_height :: int where "font_height = 16"
definition font_margin_right :: int where "font_margin_right = 1"
definition font_margin_bottom :: int where "font_margin_bottom = 1"

definition RoundUpToFourKB :: "nat \<Rightarrow> nat" where
  "RoundUpToFourKB sz = (if sz mod 4096 = 0 then sz else mul64 (sz div 4096 + 1) 4096)"

definition video_mem_size :: "int \<Rightarrow> int \<Rightarrow> int \<Rightarrow> nat" where
  "video_mem_size w h depth = RoundUpToFourKB (u64_of_int (w * h * (depth div 8)))"

definition num_pixels :: "graphic \<Rightarrow> int" where
  \<comment> \<open>the pixels of 4 bytes in the memory of \<open>buffer_\<close> and \<open>last_sync_\<close>\<close>
  "num_pixels g = screen_width g * screen_height g * (pixel_size g div 8) div 4"

definition new_graphic :: "int \<Rightarrow> int \<Rightarrow> int \<Rightarrow> (int \<Rightarrow> color) \<Rightarrow> (int \<Rightarrow> color) \<Rightarrow> (int \<Rightarrow> color) \<Rightarrow> graphic" where
  \<comment> \<open>\<open>Init\<close>, with what the video memory and the two allocated buffers hold\<close>
  "new_graphic w h depth vm ls b =
     \<lparr>screen_width = w, screen_height = h, pixel_size = depth, video_mem = vm, last_sync = ls, is_synced = False,
      screen_buffer = b, cur_row = 0, cur_col = 0, anchor_row = 0, anchor_col = 0\<rparr>"

section \<open>Pixels\<close>

definition set_pixel :: "int \<Rightarrow> color \<Rightarrow> graphic \<Rightarrow> graphic option" where
  "set_pixel i c g =
     (if 0 \<le> i \<and> i < num_pixels g then Some (g\<lparr>screen_buffer := (screen_buffer g)(i := c)\<rparr>) else None)"

fun set_pixels :: "(int \<times> color) list \<Rightarrow> graphic \<Rightarrow> graphic option" where
  "set_pixels [] g = Some g"
| "set_pixels ((i, c) # ps) g = do { g1 \<leftarrow> set_pixel i c g; set_pixels ps g1 }"

definition DrawAt :: "int \<Rightarrow> int \<Rightarrow> color \<Rightarrow> graphic \<Rightarrow> graphic option" where
  \<comment> \<open>with the video memory mapped\<close>
  "DrawAt row col c g =
     (let i = screen_width g * row + col
      in if 0 \<le> i \<and> i < num_pixels g then Some (g\<lparr>video_mem := (video_mem g)(i := c)\<rparr>) else None)"

definition Scroll :: "graphic \<Rightarrow> graphic option" where
  \<comment> \<open>everything up by a line, and the bottom empty\<close>
  "Scroll g =
     (let scroll = font_height + font_margin_bottom; w = screen_width g; h = screen_height g
      in if h < scroll \<or> w * h > num_pixels g then None
         else Some (g\<lparr>screen_buffer := (\<lambda>k. if 0 \<le> k \<and> k < (h - scroll) * w then screen_buffer g (k + scroll * w)
                                           else if 0 \<le> k \<and> k < h * w then 0 else screen_buffer g k)\<rparr>))"

section \<open>The cursor\<close>

definition scroll_line :: "graphic \<Rightarrow> graphic option" where
  \<comment> \<open>the lines that \<open>PutChar\<close> and \<open>MoveCursor\<close> share\<close>
  "scroll_line g =
     (if cur_row g + (font_height + font_margin_bottom) \<ge> screen_height g then do {
        g1 \<leftarrow> Scroll g;
        let g2 = g1\<lparr>cur_row := cur_row g1 - (font_height + font_margin_bottom), anchor_row := anchor_row g1 - 1\<rparr>;
        Some (if anchor_row g2 < 0 then g2\<lparr>anchor_row := 0, anchor_col := 0\<rparr> else g2)
      } else Some g)"

definition MoveCursor :: "graphic \<Rightarrow> graphic option" where
  "MoveCursor g =
     (let g1 = g\<lparr>cur_col := cur_col g + (font_width + font_margin_right)\<rparr>
      in scroll_line (if cur_col g1 \<ge> screen_width g1
                      then g1\<lparr>cur_col := 0, cur_row := cur_row g1 + (font_height + font_margin_bottom)\<rparr> else g1))"

definition glyph_pixels :: "8 word list \<Rightarrow> color \<Rightarrow> graphic \<Rightarrow> (int \<times> color) list" where
  \<comment> \<open>the two loops of \<open>PutChar\<close>: rows i and columns j\<close>
  "glyph_pixels rows c g =
     concat (map (\<lambda>i. map (\<lambda>j. (screen_width g * (int i + cur_row g) + cur_col g + 8 - int j, if bit (rows ! i) j then c else 0))
                          [0 ..< nat font_width]) [0 ..< nat font_height])"

definition PutChar :: "glyphs \<Rightarrow> int \<Rightarrow> color \<Rightarrow> graphic \<Rightarrow> graphic option" where
  "PutChar font c color g =
     (if c = 10 then
        map_option (\<lambda>g1. g1\<lparr>is_synced := False\<rparr>)
          (scroll_line (g\<lparr>cur_col := 0, cur_row := cur_row g + (font_height + font_margin_bottom)\<rparr>))
      else (case font c of
              None \<Rightarrow> MoveCursor g
            | Some rows \<Rightarrow>
                if length rows < nat font_height then None
                else do {
                  g1 \<leftarrow> set_pixels (glyph_pixels rows color g) g;
                  MoveCursor (g1\<lparr>is_synced := False\<rparr>)
                }))"

definition Backspace :: "graphic \<Rightarrow> graphic option" where
  "Backspace g =
     (let w = font_width + font_margin_right; h = font_height + font_margin_bottom;
          g1 = g\<lparr>cur_col := cur_col g - w\<rparr>
      in if anchor_col g1 > cur_col g1 \<and> anchor_row g1 \<ge> cur_row g1 then Some (g1\<lparr>cur_col := cur_col g1 + w\<rparr>)
         else
           let g2 = (if cur_col g1 < 0
                     then g1\<lparr>cur_row := max (cur_row g1 - h) 0, cur_col := (screen_width g1 div w - 1) * w\<rparr> else g1)
           in do {
             g3 \<leftarrow> set_pixels (concat (map (\<lambda>i. map (\<lambda>j. ((cur_row g2 + int i) * screen_width g2 + (cur_col g2 + int j), 0))
                                                   [0 ..< nat w]) [0 ..< nat h])) g2;
             Some (g3\<lparr>is_synced := False\<rparr>)
           })"

definition SetAnchor :: "int \<Rightarrow> int \<Rightarrow> graphic \<Rightarrow> graphic" where
  "SetAnchor row col g = g\<lparr>anchor_row := row, anchor_col := col\<rparr>"

section \<open>Strings and key strokes\<close>

fun print_string :: "glyphs \<Rightarrow> view \<Rightarrow> color \<Rightarrow> graphic \<Rightarrow> graphic option" where
  \<comment> \<open>\<open>GraphicManager::PrintString\<close>; a \<open>char\<close> is signed\<close>
  "print_string font [] c g = Some g"
| "print_string font (ch # s) c g = do { g1 \<leftarrow> PutChar font (sint ch) c g; print_string font s c g1 }"

definition PrintAnchorString :: "glyphs \<Rightarrow> view \<Rightarrow> color \<Rightarrow> graphic \<Rightarrow> graphic option" where
  "PrintAnchorString font s c g =
     map_option (\<lambda>g1. g1\<lparr>anchor_col := cur_col g1, anchor_row := cur_row g1\<rparr>) (print_string font s c g)"

definition show_stroke :: "glyphs \<Rightarrow> key_stroke \<Rightarrow> graphic \<Rightarrow> graphic option" where
  "show_stroke font k g =
     (if stroke_key k = BACKSPACE then Backspace g
      else if stroke_key k = ENTER then PutChar font 10 0xFFFFFF g
      else if ToChar k \<noteq> 0 then PutChar font (sint (ToChar k)) 0xFFFFFF g
      else Some g)"

fun show_strokes :: "glyphs \<Rightarrow> key_stroke list \<Rightarrow> graphic \<Rightarrow> graphic option" where
  \<comment> \<open>\<open>GraphicManager::PrintKeyStrokes\<close> of the strokes from \<open>start\<close> to \<open>end\<close>\<close>
  "show_strokes font [] g = Some g"
| "show_strokes font (k # ks) g = do { g1 \<leftarrow> show_stroke font k g; show_strokes font ks g1 }"

section \<open>Copying to the screen\<close>

definition ShouldSync :: "graphic \<Rightarrow> bool" where
  "ShouldSync g \<longleftrightarrow> \<not> is_synced g"

definition SyncScreen :: "graphic \<Rightarrow> graphic option" where
  "SyncScreen g =
     (let n = screen_height g * screen_width g
      in if n > num_pixels g then None
         else Some (g\<lparr>is_synced := True,
                     last_sync := (\<lambda>i. if 0 \<le> i \<and> i < n \<and> last_sync g i \<noteq> screen_buffer g i then screen_buffer g i else last_sync g i),
                     video_mem := (\<lambda>i. if 0 \<le> i \<and> i < n \<and> last_sync g i \<noteq> screen_buffer g i then screen_buffer g i else video_mem g i)\<rparr>))"

record FrameBufferInfo =
  screen_row :: int
  screen_col :: int
  buffer_width :: int
  buffer_height :: int

definition sync_pixel :: "color \<Rightarrow> int \<Rightarrow> graphic \<Rightarrow> graphic option" where
  "sync_pixel c i g =
     (if 0 \<le> i \<and> i < num_pixels g then
        Some (if last_sync g i \<noteq> c
              then g\<lparr>screen_buffer := (screen_buffer g)(i := c), last_sync := (last_sync g)(i := c), video_mem := (video_mem g)(i := c)\<rparr>
              else g)
      else None)"

fun sync_pixels :: "(int \<times> color) list \<Rightarrow> graphic \<Rightarrow> graphic option" where
  "sync_pixels [] g = Some g"
| "sync_pixels ((i, c) # ps) g = do { g1 \<leftarrow> sync_pixel c i g; sync_pixels ps g1 }"

definition SyncScreenWith :: "(int \<Rightarrow> color) \<Rightarrow> FrameBufferInfo \<Rightarrow> graphic \<Rightarrow> graphic option" where
  "SyncScreenWith buf info g =
     map_option (\<lambda>g1. g1\<lparr>is_synced := True\<rparr>)
       (sync_pixels
         (concat (map (\<lambda>i. map (\<lambda>j. ((i + screen_row info) * screen_width g + (j + screen_col info), buf (i * buffer_width info + j)))
                              [0 .. buffer_width info - 1]) [0 .. buffer_height info - 1])) g)"

section \<open>The system call\<close>

definition GET_SCREEN_INFO :: nat where "GET_SCREEN_INFO = 0"
definition COPY_FRAME_BUFFER :: nat where "COPY_FRAME_BUFFER = 1"

definition SysScreen :: "nat \<Rightarrow> (int \<Rightarrow> color) \<Rightarrow> FrameBufferInfo \<Rightarrow> graphic \<Rightarrow> (nat \<times> (int \<times> int \<times> int) option \<times> graphic) option" where
  \<comment> \<open>with the \<open>ScreenInfo\<close> that is stored\<close>
  "SysScreen command arg1 arg2 g =
     (if command = GET_SCREEN_INFO then Some (0, Some (screen_width g, screen_height g, pixel_size g), g)
      else if command = COPY_FRAME_BUFFER then map_option (\<lambda>g1. (0, None, g1)) (SyncScreenWith arg1 arg2 g)
      else Some (1, None, g))"

end
