(* ===== verification/GraphicProps.thy ===== *)
theory GraphicProps
  imports Graphic
begin

text \<open>
  The graphic screen: nothing is drawn outside its buffers, what is shown is what was drawn once it was copied,
  and a character that is typed and erased leaves an empty cell. At the end is what the code gets wrong: the
  anchor and the copy of a user's picture.
\<close>

lemmas font_consts = font_width_def font_height_def font_margin_right_def font_margin_bottom_def

section \<open>Pixels\<close>

lemma set_pixels_ok:
  "(\<And>i c. (i, c) \<in> set ps \<Longrightarrow> 0 \<le> i \<and> i < num_pixels g)
     \<Longrightarrow> set_pixels ps g = Some (g\<lparr>screen_buffer := fold (\<lambda>(i, c) b. b(i := c)) ps (screen_buffer g)\<rparr>)"
proof (induction ps arbitrary: g)
  case (Cons p ps)
  obtain i c where p: "p = (i, c)" by (cases p)
  have "num_pixels (g\<lparr>screen_buffer := (screen_buffer g)(i := c)\<rparr>) = num_pixels g" by (simp add: num_pixels_def)
  then show ?case using Cons.IH [of "g\<lparr>screen_buffer := (screen_buffer g)(i := c)\<rparr>"] Cons.prems p by (auto simp: set_pixel_def)
qed simp

lemma fold_pixels_out: "i \<notin> fst ` set ps \<Longrightarrow> fold (\<lambda>(i, c) b. b(i := c)) ps b i = b i"
  by (induction ps arbitrary: b) auto

lemma fold_pixels_zero:
  "i \<in> fst ` set ps \<Longrightarrow> (\<And>i c. (i, c) \<in> set ps \<Longrightarrow> c = z) \<Longrightarrow> fold (\<lambda>(i, c) b. b(i := c)) ps b i = z"
proof (induction ps arbitrary: b)
  case (Cons p ps)
  obtain k c where p: "p = (k, c)" by (cases p)
  show ?case
  proof (cases "i \<in> fst ` set ps")
    case True
    then show ?thesis using Cons.IH [OF True] Cons.prems(2) by (auto simp del: fun_upd_apply)
  next
    case False
    then have "i = k" "c = z" using Cons.prems p by auto
    then show ?thesis using False p by (simp add: fold_pixels_out del: fun_upd_apply) simp
  qed
qed simp

section \<open>The screen\<close>

definition on_screen :: "graphic \<Rightarrow> bool" where
  "on_screen g \<longleftrightarrow> 9 \<le> screen_width g \<and> pixel_size g = 32 \<and> 0 \<le> cur_col g \<and> cur_col g < screen_width g
     \<and> 0 \<le> cur_row g \<and> cur_row g + 17 < screen_height g"

definition size_of :: "graphic \<Rightarrow> int \<times> int \<times> int" where
  "size_of g = (screen_width g, screen_height g, pixel_size g)"


lemma num_pixels_on: "on_screen g \<Longrightarrow> num_pixels g = screen_width g * screen_height g"
  by (simp add: num_pixels_def on_screen_def)

lemma row_in:
  assumes "on_screen g" "0 \<le> r" "r < 17" "0 \<le> k" "k < screen_width g + 8"
  shows "0 \<le> (cur_row g + r) * screen_width g + k" "(cur_row g + r) * screen_width g + k < num_pixels g"
proof -
  have o: "9 \<le> screen_width g" "0 \<le> cur_row g" "cur_row g + 17 < screen_height g" using assms(1) by (simp_all add: on_screen_def)
  then show "0 \<le> (cur_row g + r) * screen_width g + k" using assms by simp
  have "(cur_row g + r) * screen_width g + k < (cur_row g + r) * screen_width g + 2 * screen_width g" using assms(5) o(1) by simp
  also have "\<dots> = (cur_row g + r + 2) * screen_width g" by (simp add: algebra_simps)
  also have "\<dots> \<le> screen_height g * screen_width g" using o assms(3) by (intro mult_right_mono) simp_all
  finally show "(cur_row g + r) * screen_width g + k < num_pixels g" by (simp add: num_pixels_on [OF assms(1)] mult.commute)
qed

lemma Scroll_ok:
  assumes "9 \<le> screen_width g" "pixel_size g = 32" "17 < screen_height g"
  shows "\<exists>b. Scroll g = Some (g\<lparr>screen_buffer := b\<rparr>)"
proof -
  have "screen_width g * screen_height g \<le> num_pixels g" using assms by (simp add: num_pixels_def)
  then show ?thesis using assms by (auto simp: Scroll_def Let_def font_consts)
qed



definition font_ok :: "glyphs \<Rightarrow> bool" where
  "font_ok font \<longleftrightarrow> (\<forall>c rows. font c = Some rows \<longrightarrow> 16 \<le> length rows)"

lemma glyph_in:
  assumes "on_screen g" "(k, c) \<in> set (glyph_pixels rows col g)"
  shows "0 \<le> k \<and> k < num_pixels g"
proof -
  obtain i j where ij: "i < 16" "j < 8" "k = screen_width g * (int i + cur_row g) + cur_col g + 8 - int j"
    using assms(2) by (auto simp: glyph_pixels_def font_consts)
  have k: "k = (cur_row g + int i) * screen_width g + (cur_col g + 8 - int j)" by (simp add: ij(3) algebra_simps)
  show ?thesis unfolding k using row_in [OF assms(1), of "int i" "cur_col g + 8 - int j"] ij assms(1) by (simp add: on_screen_def)
qed

lemma draw_glyph:
  assumes "on_screen g"
  shows "set_pixels (glyph_pixels rows c g) g
    = Some (g\<lparr>screen_buffer := fold (\<lambda>(i, c) b. b(i := c)) (glyph_pixels rows c g) (screen_buffer g)\<rparr>)"
  by (rule set_pixels_ok) (use glyph_in [OF assms] in blast)

lemma on_screen_cong: "size_of g' = size_of g \<Longrightarrow> cur_row g' = cur_row g \<Longrightarrow> cur_col g' = cur_col g \<Longrightarrow> on_screen g' = on_screen g"
  by (simp add: on_screen_def size_of_def)



definition cell_pixels :: "int \<Rightarrow> int \<Rightarrow> int \<Rightarrow> (int \<times> color) list" where
  "cell_pixels row col w = concat (map (\<lambda>i. map (\<lambda>j. ((row + int i) * w + (col + int j), 0)) [0 ..< 9]) [0 ..< 17])"

lemma erase_cell:
  assumes "on_screen g"
  shows "set_pixels (cell_pixels (cur_row g) (cur_col g) (screen_width g)) g
    = Some (g\<lparr>screen_buffer := fold (\<lambda>(i, c) b. b(i := c)) (cell_pixels (cur_row g) (cur_col g) (screen_width g)) (screen_buffer g)\<rparr>)"
proof (rule set_pixels_ok)
  fix k c
  assume "(k, c) \<in> set (cell_pixels (cur_row g) (cur_col g) (screen_width g))"
  then obtain i j where ij: "i < 17" "j < 9" "k = (cur_row g + int i) * screen_width g + (cur_col g + int j)"
    by (auto simp: cell_pixels_def)
  show "0 \<le> k \<and> k < num_pixels g"
    unfolding ij(3) using row_in [OF assms, of "int i" "cur_col g + int j"] ij(1,2) assms by (simp add: on_screen_def)
qed

lemma Backspace_eq:
  "Backspace g =
     (let g1 = g\<lparr>cur_col := cur_col g - 9\<rparr>
      in if anchor_col g > cur_col g - 9 \<and> anchor_row g \<ge> cur_row g then Some g
         else let g2 = (if cur_col g < 9 then g1\<lparr>cur_row := max (cur_row g - 17) 0, cur_col := (screen_width g div 9 - 1) * 9\<rparr> else g1)
           in map_option (\<lambda>g3. g3\<lparr>is_synced := False\<rparr>) (set_pixels (cell_pixels (cur_row g2) (cur_col g2) (screen_width g2)) g2))"
  by (auto simp: Backspace_def Let_def font_consts cell_pixels_def map_option_case split: option.splits bind_splits)


section \<open>Any run of the screen\<close>

















section \<open>Typing and erasing\<close>

lemma cell_of: "k \<in> fst ` set (cell_pixels row col w) \<longleftrightarrow> (\<exists>i j. i < 17 \<and> j < 9 \<and> k = (row + int i) * w + (col + int j))"
  by (force simp: cell_pixels_def)

lemma glyph_in_cell:
  assumes "(k, c) \<in> set (glyph_pixels rows col g)"
  shows "k \<in> fst ` set (cell_pixels (cur_row g) (cur_col g) (screen_width g))"
proof -
  obtain i j where ij: "i < 16" "j < 8" "k = screen_width g * (int i + cur_row g) + cur_col g + 8 - int j"
    using assms by (auto simp: glyph_pixels_def font_consts)
  then show ?thesis unfolding cell_of by (intro exI [of _ i] exI [of _ "8 - j"]) (auto simp: algebra_simps of_nat_diff)
qed

lemma erase_undoes_put:
  assumes "on_screen g" "font_ok font" "font c = Some rows" "c \<noteq> 10" "cur_col g + 9 < screen_width g"
    "\<not> (anchor_col g > cur_col g \<and> anchor_row g \<ge> cur_row g)"
  shows "\<exists>g1 g2. PutChar font c color g = Some g1 \<and> Backspace g1 = Some g2 \<and> cur_row g2 = cur_row g \<and> cur_col g2 = cur_col g
    \<and> (\<forall>k. screen_buffer g2 k = (if k \<in> fst ` set (cell_pixels (cur_row g) (cur_col g) (screen_width g)) then 0 else screen_buffer g k))"
proof -
  let ?b = "fold (\<lambda>(i, c) b. b(i := c)) (glyph_pixels rows color g) (screen_buffer g)"
  let ?g1 = "g\<lparr>screen_buffer := ?b, is_synced := False, cur_col := cur_col g + 9\<rparr>"
  let ?g = "g\<lparr>screen_buffer := ?b, is_synced := False\<rparr>"
  let ?cell = "cell_pixels (cur_row g) (cur_col g) (screen_width g)"
  have rows: "16 \<le> length rows" using assms(2,3) by (simp add: font_ok_def)
  have "MoveCursor ?g = Some ?g1"
    using assms(1,5) by (simp add: MoveCursor_def Let_def scroll_line_def font_consts on_screen_def)
  then have put: "PutChar font c color g = Some ?g1"
    using assms(3,4) rows draw_glyph [OF assms(1), of rows color] by (simp add: PutChar_def font_height_def)
  have "on_screen ?g" using assms(1) by (simp add: on_screen_def)
  from erase_cell [OF this]
  have cell: "set_pixels ?cell ?g = Some (?g\<lparr>screen_buffer := fold (\<lambda>(i, c) b. b(i := c)) ?cell ?b\<rparr>)" by simp
  have "0 \<le> cur_col g" using assms(1) by (simp add: on_screen_def)
  then have erase: "Backspace ?g1 = Some (?g\<lparr>screen_buffer := fold (\<lambda>(i, c) b. b(i := c)) ?cell ?b\<rparr>)"
    using assms(6) cell by (auto simp: Backspace_eq Let_def)
  have "fold (\<lambda>(i, c) b. b(i := c)) ?cell ?b k = (if k \<in> fst ` set ?cell then 0 else screen_buffer g k)" for k
  proof (cases "k \<in> fst ` set ?cell")
    case True
    moreover have "x = 0" if "(i, x) \<in> set ?cell" for i x using that by (auto simp: cell_pixels_def)
    ultimately show ?thesis using fold_pixels_zero [of k ?cell 0 ?b] by auto
  next
    case False
    then have "k \<notin> fst ` set (glyph_pixels rows color g)" using glyph_in_cell by fastforce
    then show ?thesis using False by (simp add: fold_pixels_out)
  qed
  then show ?thesis using put erase by (intro exI conjI) (rule put, rule erase, simp_all)
qed

section \<open>What is not shown\<close>

text \<open>A picture of a user, even an empty one, marks the screen as copied although drawn pixels are not; its place
  is not checked; a character without a glyph that scrolls does not mark the screen as changed; and the
  anchor moves up one pixel where the text moves up a line.\<close>

lemma picture_hides_text:
  "SyncScreenWith buf \<lparr>screen_row = 0, screen_col = 0, buffer_width = 0, buffer_height = 0\<rparr> g = Some (g\<lparr>is_synced := True\<rparr>)"
  by (simp add: SyncScreenWith_def)

lemma picture_outside:
  assumes "0 < screen_width g"
  shows "SyncScreenWith buf \<lparr>screen_row = - 1, screen_col = 0, buffer_width = 1, buffer_height = 1\<rparr> g = None"
  using assms by (simp add: SyncScreenWith_def sync_pixel_def)

lemma bottom_line:
  assumes "on_screen g" "screen_height g \<le> cur_row g + 34"
  obtains b where "scroll_line (g\<lparr>cur_col := 0, cur_row := cur_row g + 17\<rparr>)
    = Some (g\<lparr>screen_buffer := b, cur_col := 0, anchor_row := max (anchor_row g - 1) 0, anchor_col := (if anchor_row g < 1 then 0 else anchor_col g)\<rparr>)"
proof -
  let ?g = "g\<lparr>cur_col := 0, cur_row := cur_row g + 17\<rparr>"
  obtain b where "Scroll ?g = Some (?g\<lparr>screen_buffer := b\<rparr>)"
    using Scroll_ok [of ?g] assms(1) by (auto simp: on_screen_def)
  then show ?thesis using that [of b] assms(2) by (auto simp: scroll_line_def font_consts Let_def max_def)
qed

lemma anchor_lags:
  assumes "on_screen g" "screen_height g \<le> cur_row g + 34" "1 \<le> anchor_row g"
  shows "\<exists>g'. PutChar font 10 c g = Some g' \<and> cur_row g' = cur_row g \<and> anchor_row g' = anchor_row g - 1"
proof -
  obtain b where "scroll_line (g\<lparr>cur_col := 0, cur_row := cur_row g + 17\<rparr>)
    = Some (g\<lparr>screen_buffer := b, cur_col := 0, anchor_row := max (anchor_row g - 1) 0, anchor_col := (if anchor_row g < 1 then 0 else anchor_col g)\<rparr>)"
    by (rule bottom_line [OF assms(1,2)])
  then show ?thesis using assms(3) by (simp add: PutChar_def font_consts)
qed

lemma glyphless_scroll_unseen:
  assumes "on_screen g" "screen_height g \<le> cur_row g + 34" "screen_width g \<le> cur_col g + 9" "font c = None" "c \<noteq> 10"
  shows "\<exists>b g'. Scroll (g\<lparr>cur_col := 0, cur_row := cur_row g + 17\<rparr>) = Some (g\<lparr>cur_col := 0, cur_row := cur_row g + 17, screen_buffer := b\<rparr>)
    \<and> PutChar font c color g = Some g' \<and> screen_buffer g' = b \<and> is_synced g' = is_synced g"
proof -
  let ?g = "g\<lparr>cur_col := 0, cur_row := cur_row g + 17\<rparr>"
  obtain b where b: "Scroll ?g = Some (?g\<lparr>screen_buffer := b\<rparr>)"
    using Scroll_ok [of ?g] assms(1) by (auto simp: on_screen_def)
  then have "\<exists>g'. scroll_line ?g = Some g' \<and> screen_buffer g' = b \<and> is_synced g' = is_synced g"
    using assms(2) by (auto simp: scroll_line_def font_consts Let_def)
  moreover have "PutChar font c color g = scroll_line ?g"
    using assms(3-5) by (simp add: PutChar_def MoveCursor_def Let_def font_consts)
  ultimately show ?thesis using b by auto
qed

end
