(* ===== verification/Fonts.thy ===== *)
theory Fonts
  imports Acpi GraphicProps HashSetProps
begin

text \<open>
  The font of the graphic screen, \<open>kernel/kernel/fonts.cc\<close> and \<open>fonts.h\<close>: a PSF file with the glyphs and, for each,
  the characters it stands for, kept in the hash map of the kernel. A character is its UTF-8 bytes in one
  \<open>int\<close>. Reading behind the end of the file is None.
\<close>

record font_manager =
  glyph_height :: nat
  glyph_width :: nat
  charsize :: nat
  font_loaded :: bool
  fonts_map :: "(int, nat) hmap"
  fonts_data :: "8 word list list"

definition new_fonts :: font_manager where
  "new_fonts = \<lparr>glyph_height = 0, glyph_width = 0, charsize = 0, font_loaded = False, fonts_map = new_hset, fonts_data = []\<rparr>"

definition hash_of_int :: "int \<Rightarrow> nat" where
  "hash_of_int k = unat (hash_int (word_of_int k))"

section \<open>Characters of a glyph\<close>

definition code_length :: "8 word \<Rightarrow> nat" where
  "code_length b = (if b \<le> 0x7F then 1 else if b \<le> 0xDF then 2 else if b \<le> 0xEF then 3 else 4)"

definition packed_code :: "8 word list \<Rightarrow> int" where
  \<comment> \<open>the bytes, the first one highest\<close>
  "packed_code bs = s32 (foldl (\<lambda>n b. n * 256 + unat b) 0 bs)"

function read_codes :: "8 word list \<Rightarrow> nat \<Rightarrow> nat \<Rightarrow> (int, nat) hmap \<Rightarrow> (nat \<times> (int, nat) hmap) option" where
  \<comment> \<open>the inner loop: the characters from p up to 0xFF are those of the glyph \<open>len\<close>\<close>
  "read_codes dat p len m =
     (if p \<ge> length dat then None
      else if dat ! p = 0xFF then Some (p, m)
      else
        case bytes_at p (code_length (dat ! p)) dat of
          None \<Rightarrow> None
        | Some bs \<Rightarrow>
            (case hmap_insert hash_of_int (packed_code bs) len m of
               None \<Rightarrow> None
             | Some m1 \<Rightarrow> read_codes dat (p + code_length (dat ! p)) len m1))"
  by pat_completeness auto

termination
  by (relation "measure (\<lambda>(dat, p, len, m). length dat - p)") (auto simp: code_length_def)

declare read_codes.simps [simp del]

fun read_unicode_table :: "8 word list \<Rightarrow> nat \<Rightarrow> nat list \<Rightarrow> (int, nat) hmap \<Rightarrow> (int, nat) hmap option" where
  \<comment> \<open>the loop over the glyphs, from \<open>current\<close> on\<close>
  "read_unicode_table dat current [] m = Some m"
| "read_unicode_table dat current (len # lens) m =
     do { (line_end, m1) \<leftarrow> read_codes dat current len m; read_unicode_table dat (line_end + 1) lens m1 }"

fun read_glyphs :: "8 word list \<Rightarrow> nat \<Rightarrow> nat \<Rightarrow> nat list \<Rightarrow> 8 word list list option" where
  "read_glyphs dat headersize sz [] = Some []"
| "read_glyphs dat headersize sz (i # is') =
     do { g \<leftarrow> bytes_at (headersize + sz * i) sz dat; gs \<leftarrow> read_glyphs dat headersize sz is'; Some (g # gs) }"

section \<open>The manager\<close>

definition load_font :: "8 word list \<Rightarrow> font_manager \<Rightarrow> font_manager option" where
  \<comment> \<open>\<open>Init\<close>, with what is in the file\<close>
  "load_font dat f =
     do {
       magic \<leftarrow> number_at 0 4 dat;
       headersize \<leftarrow> number_at 8 4 dat;
       if magic \<noteq> 0x864ab572 \<or> headersize \<noteq> 32 then Some f
       else do {
         count \<leftarrow> number_at 16 4 dat;
         sz \<leftarrow> number_at 20 4 dat;
         h \<leftarrow> number_at 24 4 dat;
         w \<leftarrow> number_at 28 4 dat;
         glyphs \<leftarrow> read_glyphs dat headersize sz [0 ..< count];
         m \<leftarrow> read_unicode_table dat (headersize + u32 (count * sz)) [0 ..< count] (fonts_map f);
         Some (f\<lparr>glyph_height := h, glyph_width := w, charsize := sz, font_loaded := True, fonts_map := m,
                 fonts_data := fonts_data f @ glyphs\<rparr>)
       }
     }"

definition GetFont :: "font_manager \<Rightarrow> int \<Rightarrow> 8 word list option option" where
  "GetFont f c =
     do {
       pos \<leftarrow> hmap_find hash_of_int c (fonts_map f);
       case pos of
         None \<Rightarrow> Some None
       | Some i \<Rightarrow> if i < length (fonts_data f) then Some (Some (fonts_data f ! i)) else None
     }"

fun draw_pixels :: "(int \<times> int \<times> color) list \<Rightarrow> graphic \<Rightarrow> graphic option" where
  "draw_pixels [] g = Some g"
| "draw_pixels ((row, col, c) # ps) g = do { g1 \<leftarrow> DrawAt row col c g; draw_pixels ps g1 }"

definition draw_font :: "font_manager \<Rightarrow> int \<Rightarrow> int \<Rightarrow> int \<Rightarrow> graphic \<Rightarrow> graphic option" where
  \<comment> \<open>\<open>FontManager::Draw\<close>, with glyphs up to eight pixels wide\<close>
  "draw_font f font row col g =
     do {
       r \<leftarrow> GetFont f font;
       case r of
         None \<Rightarrow> Some g
       | Some rows \<Rightarrow>
           if glyph_height f > length rows then None
           else draw_pixels
             (concat (map (\<lambda>i. map (\<lambda>j. (int i + row, col + 8 - int j, if bit (rows ! i) j then 0xFFFFFF else 0)) [0 ..< glyph_width f])
                          [0 ..< glyph_height f])) g
     }"

section \<open>The font on the screen\<close>

text \<open>A font whose glyphs have the sixteen rows the screen draws is one the screen can use.\<close>

definition glyphs_of :: "font_manager \<Rightarrow> glyphs" where
  "glyphs_of f c = (case GetFont f c of Some r \<Rightarrow> r | None \<Rightarrow> None)"

lemma read_glyphs_length: "read_glyphs dat hs sz is' = Some gs \<Longrightarrow> g \<in> set gs \<Longrightarrow> length g = sz"
  by (induction is' arbitrary: gs) (auto simp: bytes_at_def split: bind_splits if_splits)

lemma load_font_ok:
  assumes "load_font dat new_fonts = Some f" "16 \<le> charsize f"
  shows "font_ok (glyphs_of f)"
proof -
  have "length g = charsize f" if "g \<in> set (fonts_data f)" for g
    using assms that read_glyphs_length
    by (auto simp: load_font_def new_fonts_def split: bind_splits if_splits)
  then show ?thesis using assms(2) by (auto simp: font_ok_def glyphs_of_def GetFont_def split: bind_splits option.splits if_splits)
qed

text \<open>The bytes of a character above 127 are looked up one by one, as negative numbers, which no character of two or
  three bytes is.\<close>

lemma packed_code_pos: "length bs \<le> 3 \<Longrightarrow> 0 \<le> packed_code bs"
proof -
  assume len: "length bs \<le> 3"
  have bound: "foldl (\<lambda>n b. n * 256 + unat b) n bs < (n + 1) * 256 ^ length bs" for n and bs :: "8 word list"
  proof (induction bs arbitrary: n)
    case (Cons b bs)
    have "foldl (\<lambda>n b. n * 256 + unat b) (n * 256 + unat b) bs < (n * 256 + unat b + 1) * 256 ^ length bs" by (rule Cons.IH)
    also have "\<dots> \<le> ((n + 1) * 256) * 256 ^ length bs" using unat_byte_lt [of b] by (intro mult_right_mono) simp_all
    finally show ?case by (simp add: algebra_simps)
  qed simp
  have "foldl (\<lambda>n b. n * 256 + unat b) 0 bs < 256 ^ length bs" using bound [of 0 bs] by simp
  also have "\<dots> \<le> 256 ^ 3" by (rule power_increasing [OF len]) simp
  finally show ?thesis by (simp add: packed_code_def s32_small)
qed

end
