(* ===== verification/Descriptors.thy ===== *)
theory Descriptors
  imports Prelude
begin

text \<open>
  Descriptor tables and interrupt vectors: \<open>kernel/kernel/descriptor_table.cc\<close> and \<open>interrupt.cc\<close>. The fields of a
  packed structure are words; \<open>segment_base\<close>, \<open>segment_limit\<close> and \<open>gate_offset\<close> read them as the processor does.
  Of the interrupt controllers there are the masks of their data ports; the four command words that move their
  vectors are not modelled, nor is what the handlers do.
\<close>

unbundle bit_operations_syntax

section \<open>Segments\<close>

record gdt_entry =
  segment_limit_low :: "16 word"
  base_addr_low :: "16 word"
  base_addr_mid :: "8 word"
  access_flag :: "8 word"
  granularity :: "8 word"
  base_addr_high :: "8 word"

record tss_descriptor = gdt_entry +
  base_half :: "32 word"

definition SetUpGDTTableEntry :: "32 word \<Rightarrow> 32 word \<Rightarrow> 8 word \<Rightarrow> 8 word \<Rightarrow> gdt_entry" where
  "SetUpGDTTableEntry base_addr limit access gran =
     \<lparr>segment_limit_low = ucast (limit AND 0xFFFF), base_addr_low = ucast (base_addr AND 0xFFFF),
      base_addr_mid = ucast (drop_bit 16 base_addr AND 0xFF), access_flag = access,
      granularity = ucast (drop_bit 16 limit AND 0x0F) OR (gran AND 0xF0),
      base_addr_high = ucast (drop_bit 24 base_addr AND 0xFF)\<rparr>"

definition SetTSSDescripter :: "64 word \<Rightarrow> 32 word \<Rightarrow> 8 word \<Rightarrow> 8 word \<Rightarrow> tss_descriptor" where
  \<comment> \<open>the last field, which must be zero, is not written\<close>
  "SetTSSDescripter base_addr limit access gran =
     \<lparr>segment_limit_low = ucast (limit AND 0xFFFF), base_addr_low = ucast (base_addr AND 0xFFFF),
      base_addr_mid = ucast (drop_bit 16 base_addr AND 0xFF), access_flag = access,
      granularity = ucast (drop_bit 16 limit AND 0x0F) OR (gran AND 0xF0),
      base_addr_high = ucast (drop_bit 24 base_addr AND 0xFF), base_half = ucast (drop_bit 32 base_addr)\<rparr>"

definition kNumGDTEntryDefined :: nat where "kNumGDTEntryDefined = 7"

definition gdt_segments :: "gdt_entry list" where
  \<comment> \<open>the entries 0 to 4 of \<open>SetUpGDTTables\<close>\<close>
  "gdt_segments =
     [SetUpGDTTableEntry 0 0 0 0, SetUpGDTTableEntry 0 0xFFFFFFFF 0x9A 0xA0, SetUpGDTTableEntry 0 0xFFFFFFFF 0x92 0xA0,
      SetUpGDTTableEntry 0 0xFFFFFFFF 0xF2 0xA0, SetUpGDTTableEntry 0 0xFFFFFFFF 0xFA 0xA0]"

definition gdt_tss :: "64 word \<Rightarrow> tss_descriptor" where
  \<comment> \<open>the entries 5 and 6, for a TSS of 26 words at an address\<close>
  "gdt_tss tss = SetTSSDescripter tss 104 0x89 0xA0"

definition SetRSP0 :: "64 word \<Rightarrow> 32 word list \<Rightarrow> 32 word list" where
  \<comment> \<open>in the array of a TSS\<close>
  "SetRSP0 rsp arr = arr[1 := ucast rsp, 2 := ucast (drop_bit 32 rsp)]"

definition rsp0 :: "32 word list \<Rightarrow> 64 word" where
  "rsp0 arr = ucast (arr ! 1) OR push_bit 32 (ucast (arr ! 2))"

definition segment_base :: "('a gdt_entry_scheme) \<Rightarrow> 32 word" where
  "segment_base e =
     ucast (base_addr_low e) OR push_bit 16 (ucast (base_addr_mid e)) OR push_bit 24 (ucast (base_addr_high e))"

definition segment_limit :: "('a gdt_entry_scheme) \<Rightarrow> 32 word" where
  "segment_limit e = ucast (segment_limit_low e) OR push_bit 16 (ucast (granularity e AND 0x0F))"

definition tss_base :: "tss_descriptor \<Rightarrow> 64 word" where
  "tss_base e = ucast (segment_base e) OR push_bit 32 (ucast (base_half e))"

lemma byte_masks:
  "(0xFFFF :: 32 word) = mask 16" "(0xFFFF :: 64 word) = mask 16" "(0xFF :: 32 word) = mask 8" "(0xFF :: 64 word) = mask 8"
  "(0x0F :: 8 word) = mask 4" "(0x0F :: 32 word) = mask 4" "(0xFFFFF :: 32 word) = mask 20"
  "(0xF0 :: 8 word) = push_bit 4 (mask 4)"
  by (simp_all add: mask_eq_exp_minus_1)

lemmas descriptor_defs = segment_base_def segment_limit_def tss_base_def SetUpGDTTableEntry_def SetTSSDescripter_def
  gdt_entry.simps tss_descriptor.simps byte_masks

lemma byte_ranges:
  fixes n :: nat
  obtains "n < 16" | "16 \<le> n" "n < 24" | "24 \<le> n" "n < 32" | "32 \<le> n"
  by linarith

lemma segment_base_roundtrip: "segment_base (SetUpGDTTableEntry base limit access gran) = base"
  unfolding descriptor_defs
  apply (rule bit_word_eqI)
  subgoal for n by (cases n rule: byte_ranges; simp add: bit_simps; linarith?; auto)
  done

lemma segment_limit_roundtrip: "segment_limit (SetUpGDTTableEntry base limit access gran) = limit AND 0xFFFFF"
  unfolding descriptor_defs
  apply (rule bit_word_eqI)
  subgoal for n by (cases n rule: byte_ranges) (auto simp: bit_simps)
  done

lemma granularity_roundtrip: "granularity (SetUpGDTTableEntry base limit access gran) AND 0xF0 = gran AND 0xF0"
  unfolding descriptor_defs by (rule bit_word_eqI) (auto simp: bit_simps)

lemma tss_roundtrip: "tss_base (SetTSSDescripter base limit access gran) = base"
  unfolding descriptor_defs
  apply (rule bit_word_eqI)
  subgoal for n by (cases n rule: byte_ranges; simp add: bit_simps; linarith?; auto)
  done

lemma rsp0_roundtrip: "3 \<le> length arr \<Longrightarrow> rsp0 (SetRSP0 rsp arr) = rsp"
  unfolding rsp0_def SetRSP0_def by (rule bit_word_eqI) (auto simp: bit_simps)

section \<open>Interrupt vectors\<close>

record idt_entry =
  offset_1 :: "16 word"
  selector :: "16 word"
  ist :: "8 word"
  type_attr :: "8 word"
  offset_2 :: "16 word"
  offset_3 :: "32 word"
  zero :: "32 word"

definition INTERRUPT_GATE_32_BIT :: "8 word" where "INTERRUPT_GATE_32_BIT = 0b01110"

definition IDTType :: "8 word \<Rightarrow> 8 word \<Rightarrow> 8 word \<Rightarrow> 8 word" where
  \<comment> \<open>its three bit fields\<close>
  "IDTType gate_type dpl p = (gate_type AND 0x1F) OR push_bit 5 (dpl AND 3) OR push_bit 7 (p AND 1)"

datatype handler =
    CPUInterruptHandler nat | CPUInterruptHandlerWithErrorCode nat | PageFaultInterruptHandler | TimerInterrupt
  | KeyboardHandler | HPETInterruptHandler | ATAHandler | CustomContextSwitchInterruptHandler

type_synonym idt = "nat \<Rightarrow> idt_entry"

definition InstallIDTEntry :: "64 word \<Rightarrow> 8 word \<Rightarrow> nat \<Rightarrow> idt \<Rightarrow> idt" where
  "InstallIDTEntry ih_addr attr int_num t =
     t(int_num := \<lparr>offset_1 = ucast (ih_addr AND 0xFFFF), selector = 0x8, ist = 0, type_attr = attr,
                   offset_2 = ucast (drop_bit 16 ih_addr AND 0xFFFF), offset_3 = ucast (drop_bit 32 ih_addr AND 0xFFFFFFFF), zero = 0\<rparr>)"

definition install_exception :: "(handler \<Rightarrow> 64 word) \<Rightarrow> nat \<times> bool \<Rightarrow> idt \<Rightarrow> idt" where
  \<comment> \<open>the template \<open>InstallIDTEntry<INT_NUM>\<close>, for the number and whether there is an error code\<close>
  "install_exception addr e t =
     (case e of (int_num, has_error_code) \<Rightarrow>
        InstallIDTEntry (addr (if int_num = 0xE then PageFaultInterruptHandler
                               else if has_error_code then CPUInterruptHandlerWithErrorCode int_num
                               else CPUInterruptHandler int_num))
          (IDTType INTERRUPT_GATE_32_BIT 0 1) int_num t)"

definition InitializeIDTForCPUException :: "(handler \<Rightarrow> 64 word) \<Rightarrow> idt \<Rightarrow> idt" where
  "InitializeIDTForCPUException addr t =
     fold (install_exception addr) (map (\<lambda>n. (n, n \<in> {8, 10, 11, 12, 13, 14, 17})) [0 ..< 32]) t"

definition InitializeIDTForIRQ :: "(handler \<Rightarrow> 64 word) \<Rightarrow> idt \<Rightarrow> idt" where
  "InitializeIDTForIRQ addr t =
     fold (\<lambda>(h, n). InstallIDTEntry (addr h) (IDTType INTERRUPT_GATE_32_BIT 0 1) n)
       [(TimerInterrupt, 0x20), (KeyboardHandler, 0x21), (HPETInterruptHandler, 0x22), (ATAHandler, 0x2E), (ATAHandler, 0x2F)] t"

definition InitializeCustomInterrupt :: "(handler \<Rightarrow> 64 word) \<Rightarrow> idt \<Rightarrow> idt" where
  "InitializeCustomInterrupt addr t =
     InstallIDTEntry (addr CustomContextSwitchInterruptHandler) (IDTType INTERRUPT_GATE_32_BIT 0 1) 0x30 t"

definition gate_offset :: "idt_entry \<Rightarrow> 64 word" where
  "gate_offset e = ucast (offset_1 e) OR push_bit 16 (ucast (offset_2 e)) OR push_bit 32 (ucast (offset_3 e))"

section \<open>Masks of the interrupt controllers\<close>

definition PIC_MASTER_DATA :: nat where "PIC_MASTER_DATA = 0x21"
definition PIC_SLAVE_DATA :: nat where "PIC_SLAVE_DATA = 0xA1"

type_synonym pic_masks = "nat \<Rightarrow> 8 word"  \<comment> \<open>what the data ports hold\<close>

definition irq_port :: "nat \<Rightarrow> nat \<times> nat" where
  "irq_port irq_line = (if irq_line < 8 then (PIC_MASTER_DATA, irq_line) else (PIC_SLAVE_DATA, irq_line - 8))"

definition IRQSetMask :: "nat \<Rightarrow> pic_masks \<Rightarrow> pic_masks" where
  "IRQSetMask irq_line m = (case irq_port irq_line of (port, i) \<Rightarrow> m(port := m port OR push_bit i 1))"

definition IRQClearMask :: "nat \<Rightarrow> pic_masks \<Rightarrow> pic_masks" where
  "IRQClearMask irq_line m = (case irq_port irq_line of (port, i) \<Rightarrow> m(port := m port AND NOT (push_bit i 1)))"

definition pic_masks_of_init :: "pic_masks \<Rightarrow> pic_masks" where
  \<comment> \<open>the end of \<open>InitializeIDTForIRQ\<close>, where the masks saved before have been restored\<close>
  "pic_masks_of_init m = fold IRQClearMask [0, 1, 14, 15] m"

definition DisablePIC :: "pic_masks \<Rightarrow> pic_masks" where
  "DisablePIC m = m(PIC_SLAVE_DATA := 0xFF, PIC_MASTER_DATA := 0xFF)"

definition irq_masked :: "nat \<Rightarrow> pic_masks \<Rightarrow> bool" where
  "irq_masked irq_line m = (case irq_port irq_line of (port, i) \<Rightarrow> bit (m port) i)"

lemma gate_roundtrip: "gate_offset (InstallIDTEntry h attr n t n) = h"
proof -
  have m: "(0xFFFFFFFF :: 64 word) = mask 32" by (simp add: mask_eq_exp_minus_1)
  show ?thesis
    unfolding gate_offset_def InstallIDTEntry_def fun_upd_same idt_entry.simps byte_masks m
    apply (rule bit_word_eqI)
    subgoal for n by (cases n rule: byte_ranges; simp add: bit_simps; linarith?; auto)
    done
qed

definition handler_of :: "nat \<Rightarrow> handler option" where
  \<comment> \<open>what each vector should be\<close>
  "handler_of n =
     (if n = 14 then Some PageFaultInterruptHandler
      else if n \<in> {8, 10, 11, 12, 13, 17} then Some (CPUInterruptHandlerWithErrorCode n)
      else if n < 32 then Some (CPUInterruptHandler n)
      else map_of [(0x20, TimerInterrupt), (0x21, KeyboardHandler), (0x22, HPETInterruptHandler), (0x2E, ATAHandler),
                   (0x2F, ATAHandler), (0x30, CustomContextSwitchInterruptHandler)] n)"

lemma InstallIDTEntry_other: "n \<noteq> k \<Longrightarrow> InstallIDTEntry h attr k t n = t n"
  by (simp add: InstallIDTEntry_def)

lemma fold_install:
  "gate_offset (fold (\<lambda>(h, n). InstallIDTEntry h attr n) es t n)
     = (case map_of (rev (map (\<lambda>(h, n). (n, h)) es)) n of None \<Rightarrow> gate_offset (t n) | Some h \<Rightarrow> h)"
proof (induction es rule: rev_induct)
  case (snoc e es)
  obtain h k where e: "e = (h, k)" by (cases e)
  show ?case
  proof (cases "n = k")
    case True
    then show ?thesis by (simp add: e gate_roundtrip)
  next
    case False
    then show ?thesis using snoc by (simp add: e InstallIDTEntry_other)
  qed
qed simp

lemma map_of_rev_graph: "n \<in> set xs \<Longrightarrow> map_of (rev (map (\<lambda>k. (k, f k)) xs)) n = Some (f n)"
  by (induction xs rule: rev_induct) auto

definition exception_handler :: "nat \<Rightarrow> handler" where
  "exception_handler n =
     (if n = 0xE then PageFaultInterruptHandler
      else if n \<in> {8, 10, 11, 12, 13, 14, 17} then CPUInterruptHandlerWithErrorCode n else CPUInterruptHandler n)"

lemma exceptions_installed:
  "InitializeIDTForCPUException addr t
     = fold (\<lambda>(h, n). InstallIDTEntry h (IDTType INTERRUPT_GATE_32_BIT 0 1) n)
         (map (\<lambda>n. (addr (exception_handler n), n)) [0 ..< 32]) t"
  unfolding InitializeIDTForCPUException_def fold_map
  by (rule fold_cong) (simp_all add: install_exception_def exception_handler_def fun_eq_iff)

lemma exception_vector:
  assumes "handler_of n = Some h" "n < 32"
  shows "gate_offset (InitializeIDTForCPUException addr t n) = addr h"
proof -
  have "n \<in> set [0 ..< 32]" using assms(2) by (simp del: upt_rec_numeral)
  from map_of_rev_graph [OF this, of "\<lambda>n. addr (exception_handler n)"]
  have "gate_offset (InitializeIDTForCPUException addr t n) = addr (exception_handler n)"
    by (simp add: exceptions_installed fold_install comp_def del: upt_rec_numeral)
  then show ?thesis using assms by (auto simp: handler_of_def exception_handler_def split: if_splits)
qed

text \<open>After start-up each vector that has a handler holds the address of that handler.\<close>

lemma every_vector:
  assumes "handler_of n = Some h"
  shows "gate_offset (InitializeCustomInterrupt addr (InitializeIDTForIRQ addr (InitializeIDTForCPUException addr t)) n) = addr h"
proof (cases "n < 32")
  case True
  then show ?thesis using exception_vector [OF assms True]
    by (simp add: InitializeCustomInterrupt_def InitializeIDTForIRQ_def InstallIDTEntry_other)
next
  case False
  then have "n \<in> {0x20, 0x21, 0x22, 0x2E, 0x2F, 0x30}" using assms by (auto simp: handler_of_def split: if_splits)
  then show ?thesis using assms unfolding InitializeCustomInterrupt_def InitializeIDTForIRQ_def
    by (elim insertE emptyE) (auto simp: handler_of_def InstallIDTEntry_other gate_roundtrip)
qed

lemma irq_clear: "irq_line < 16 \<Longrightarrow> k < 16 \<Longrightarrow> irq_masked k (IRQClearMask irq_line m) \<longleftrightarrow> irq_masked k m \<and> k \<noteq> irq_line"
  by (auto simp: irq_masked_def IRQClearMask_def irq_port_def PIC_MASTER_DATA_def PIC_SLAVE_DATA_def bit_simps)

text \<open>The clock, the keyboard and the two disk channels are let through, the other lines stay as they were.\<close>

lemma lines_open:
  "k < 16 \<Longrightarrow> irq_masked k (pic_masks_of_init m) \<longleftrightarrow> irq_masked k m \<and> k \<notin> {0, 1, 14, 15}"
  by (auto simp: pic_masks_of_init_def irq_clear)

end
