(* ===== verification/Ata.thy ===== *)
theory Ata
  imports Ext2
begin

text \<open>
  The driver of the disk, \<open>kernel/kernel/fs/ata.cc\<close>: one sector at a time over the ports of the primary channel, with
  the handler of the drive's interrupt (\<open>ATAHandler\<close> of \<open>interrupt.cc\<close>) and the semaphore between the two. The ports
  and the interrupts of the drive are the argument \<open>io\<close>; \<open>'w\<close> is the state of what is behind them, and the state of the
  driver is that and the count of \<open>disk_command_\<close>. An interrupt runs its handler when the driver waits for it: between
  a command and the wait the driver does nothing else with the drive. The lock of the disk and the routing of the
  interrupts to the calling core are left out. A loop that waits for the drive is a partial function: None when the
  drive never gets ready.
\<close>

unbundle bit_operations_syntax

section \<open>The ports\<close>

record 'w io =
  io_inb :: "16 word \<Rightarrow> 'w \<Rightarrow> 8 word \<times> 'w"
  io_inw :: "16 word \<Rightarrow> 'w \<Rightarrow> 16 word \<times> 'w"
  io_outb :: "16 word \<Rightarrow> 8 word \<Rightarrow> 'w \<Rightarrow> 'w"
  io_outw :: "16 word \<Rightarrow> 16 word \<Rightarrow> 'w \<Rightarrow> 'w"
  io_interrupt :: "'w \<Rightarrow> 'w option"  \<comment> \<open>the next interrupt of the drive, None when none comes\<close>

record ATADevice =  \<comment> \<open>the members of a union are one field\<close>
  port_data :: "16 word"
  port_feature :: "16 word"
  port_sector_count :: "16 word"
  port_lba_low :: "16 word"
  port_lba_mid :: "16 word"
  port_lba_high :: "16 word"
  port_drive :: "16 word"
  port_status :: "16 word"  \<comment> \<open>and \<open>command\<close>\<close>
  port_alternate_status :: "16 word"  \<comment> \<open>and \<open>device_control\<close>\<close>
  port_device_address :: "16 word"
  dev_slave :: bool
  dev_primary :: bool

definition kPrimaryIOBasePort :: "16 word" where "kPrimaryIOBasePort = 0x1F0"
definition kSecondaryIOBasePort :: "16 word" where "kSecondaryIOBasePort = 0x170"
definition kPrimaryControlBasePort :: "16 word" where "kPrimaryControlBasePort = 0x3F6"
definition kSecondaryControlBasePort :: "16 word" where "kSecondaryControlBasePort = 0x376"

definition kStatusRegERR :: "8 word" where "kStatusRegERR = push_bit 0 1"
definition kStatusRegDRQ :: "8 word" where "kStatusRegDRQ = push_bit 3 1"
definition kStatusRegBSY :: "8 word" where "kStatusRegBSY = push_bit 7 1"

definition InitATADevice :: "bool \<Rightarrow> bool \<Rightarrow> ATADevice" where
  "InitATADevice primary slave =
     (let io_base = (if primary then kPrimaryIOBasePort else kSecondaryIOBasePort);
          control_base = (if primary then kPrimaryControlBasePort else kSecondaryControlBasePort)
      in \<lparr>port_data = io_base, port_feature = io_base + 1, port_sector_count = io_base + 2, port_lba_low = io_base + 3,
          port_lba_mid = io_base + 4, port_lba_high = io_base + 5, port_drive = io_base + 6, port_status = io_base + 7,
          port_alternate_status = control_base, port_device_address = control_base + 1,
          dev_slave = slave, dev_primary = primary\<rparr>)"

definition primary_master :: ATADevice where "primary_master = InitATADevice True False"

section \<open>The semaphore and the interrupt\<close>

type_synonym 'w driver = "'w \<times> nat"  \<comment> \<open>with the count of \<open>disk_command_\<close>\<close>

definition EndOfIRQ :: "'w io \<Rightarrow> 'w \<Rightarrow> 'w" where "EndOfIRQ io = io_outb io 0x20 0x20"

definition EndOfIRQForSlave :: "'w io \<Rightarrow> 'w \<Rightarrow> 'w" where "EndOfIRQForSlave io = io_outb io 0xA0 0x20"

definition DiskCommandUp :: "'w driver \<Rightarrow> 'w driver" where "DiskCommandUp s = (fst s, snd s + 1)"

definition ATAHandler :: "'w io \<Rightarrow> 'w driver \<Rightarrow> 'w driver" where
  "ATAHandler io s = (case DiskCommandUp s of (w, units) \<Rightarrow> (EndOfIRQ io (EndOfIRQForSlave io w), units))"

partial_function (option) DiskCommandDown :: "'w io \<Rightarrow> 'w driver \<Rightarrow> 'w driver option" where
  \<comment> \<open>\<open>Semaphore::Down\<close>: a unit is taken, or the thread waits until the handler of the next interrupt has run\<close>
  "DiskCommandDown io s =
     (if 0 < snd s then Some (fst s, snd s - 1)
      else (case io_interrupt io (fst s) of None \<Rightarrow> None | Some w \<Rightarrow> DiskCommandDown io (ATAHandler io (w, snd s))))"

section \<open>One sector\<close>

definition Delay400ns :: "'w io \<Rightarrow> ATADevice \<Rightarrow> 'w \<Rightarrow> 'w" where
  "Delay400ns io dev = (\<lambda>w. snd (io_inb io (port_alternate_status dev) w)) ^^ 4"

partial_function (option) wait_not_busy :: "'w io \<Rightarrow> ATADevice \<Rightarrow> 'w \<Rightarrow> 'w option" where
  "wait_not_busy io dev w =
     (case io_inb io (port_status dev) w of (status, w) \<Rightarrow>
        if status AND kStatusRegBSY \<noteq> 0 then wait_not_busy io dev w else Some w)"

partial_function (option) poll_data :: "'w io \<Rightarrow> ATADevice \<Rightarrow> 'w \<Rightarrow> (bool \<times> 'w) option" where
  "poll_data io dev w =
     (case io_inb io (port_status dev) w of (status, w) \<Rightarrow>
        if status AND kStatusRegERR \<noteq> 0 then Some (False, w)
        else if status AND kStatusRegDRQ \<noteq> 0 then Some (True, w) else poll_data io dev w)"

definition Poll :: "'w io \<Rightarrow> ATADevice \<Rightarrow> 'w \<Rightarrow> (bool \<times> 'w) option" where
  "Poll io dev w = (case wait_not_busy io dev w of None \<Rightarrow> None | Some w \<Rightarrow> poll_data io dev w)"

definition send_command :: "'w io \<Rightarrow> ATADevice \<Rightarrow> 32 word \<Rightarrow> 8 word \<Rightarrow> 'w \<Rightarrow> 'w" where
  \<comment> \<open>what both functions send: drive, feature, count, address, command\<close>
  "send_command io dev lba cmd w =
     (let w = io_outb io (port_drive dev)
                ((0xE0 OR push_bit 4 (if dev_slave dev then 1 else 0)) OR ucast (drop_bit 24 lba AND 0x0F)) w;
          w = io_outb io (port_feature dev) 0 w;
          w = io_outb io (port_sector_count dev) 1 w;
          w = io_outb io (port_lba_low dev) (ucast lba) w;
          w = io_outb io (port_lba_mid dev) (ucast (drop_bit 8 lba)) w;
          w = io_outb io (port_lba_high dev) (ucast (drop_bit 16 lba)) w
      in io_outb io (port_status dev) cmd w)"

primrec read_words :: "'w io \<Rightarrow> ATADevice \<Rightarrow> nat \<Rightarrow> nat \<Rightarrow> 'w \<times> mem \<Rightarrow> 'w \<times> mem" where
  \<comment> \<open>n words from the data port to a buffer at an address\<close>
  "read_words io dev b 0 s = s"
| "read_words io dev b (Suc n) s =
     (case s of (w, buf) \<Rightarrow> (case io_inw io (port_data dev) w of (v, w) \<Rightarrow>
        read_words io dev (b + 2) n (w, wr16 buf b (unat v))))"

definition reset_if_pending :: "'w io \<Rightarrow> ATADevice \<Rightarrow> 'w \<Rightarrow> 'w" where
  "reset_if_pending io dev w =
     (case io_inb io (port_status dev) w of (stat, w) \<Rightarrow>
        if stat AND kStatusRegBSY \<noteq> 0 \<or> stat AND kStatusRegDRQ \<noteq> 0
        then io_outb io (port_alternate_status dev) 0 (io_outb io (port_alternate_status dev) 4 w) else w)"

definition ReadOneSector ::
  "'w io \<Rightarrow> ATADevice \<Rightarrow> 32 word \<Rightarrow> nat \<Rightarrow> nat \<Rightarrow> 'w driver \<times> mem \<Rightarrow> ('w driver \<times> mem) option" where
  "ReadOneSector io dev lba b read_size s =
     (case s of ((w, units), buf) \<Rightarrow>
        (case DiskCommandDown io (send_command io dev lba 0x20 (reset_if_pending io dev w), units) of
           None \<Rightarrow> None
         | Some (w, units) \<Rightarrow> (case read_words io dev b (read_size div 2) (w, buf) of
             (w, buf) \<Rightarrow> Some ((Delay400ns io dev w, units), buf))))"

primrec write_words :: "'w io \<Rightarrow> ATADevice \<Rightarrow> mem \<Rightarrow> nat \<Rightarrow> nat \<Rightarrow> 'w \<Rightarrow> 'w" where
  "write_words io dev buf b 0 w = w"
| "write_words io dev buf b (Suc n) w =
     write_words io dev buf (b + 2) n (io_outw io (port_data dev) (word_of_nat (rd16 buf b)) w)"

definition WriteOneSector ::
  "'w io \<Rightarrow> ATADevice \<Rightarrow> 32 word \<Rightarrow> mem \<Rightarrow> nat \<Rightarrow> nat \<Rightarrow> 'w driver \<Rightarrow> 'w driver option" where
  "WriteOneSector io dev lba buf b buffer_size s =
     (if buffer_size > 512 then Some s
      else (case Poll io dev (Delay400ns io dev (send_command io dev lba 0x30 (fst s))) of
              None \<Rightarrow> None
            | Some (poll_status, w) \<Rightarrow>
                if \<not> poll_status then Some (w, snd s)
                else (case wait_not_busy io dev
                             (io_outw io (port_status dev) 0xE7 (write_words io dev buf b (buffer_size div 2) w)) of
                        None \<Rightarrow> None
                      | Some w \<Rightarrow> DiskCommandDown io (Delay400ns io dev w, snd s))))"

section \<open>Reading and writing\<close>

function read_sectors :: "'w io \<Rightarrow> nat \<Rightarrow> nat \<Rightarrow> nat \<Rightarrow> nat \<Rightarrow> 'w driver \<times> mem \<Rightarrow> ('w driver \<times> mem) option" where
  "read_sectors io b buffer_size current_read lba s =
     (if current_read < buffer_size
      then (case ReadOneSector io primary_master (word_of_nat lba) (b + current_read) (min 512 (buffer_size - current_read)) s of
              None \<Rightarrow> None
            | Some s \<Rightarrow> read_sectors io b buffer_size (current_read + 512) (lba + 1) s)
      else Some s)"
  by pat_completeness auto
termination by (relation "measure (\<lambda>(io, b, n, cur, lba, s). n - cur)") auto

function write_sectors :: "'w io \<Rightarrow> mem \<Rightarrow> nat \<Rightarrow> nat \<Rightarrow> nat \<Rightarrow> nat \<Rightarrow> 'w driver \<Rightarrow> 'w driver option" where
  "write_sectors io buf b buffer_size current_write lba w =
     (if current_write < buffer_size
      then (case WriteOneSector io primary_master (word_of_nat lba) buf (b + current_write) (min 512 (buffer_size - current_write)) w of
              None \<Rightarrow> None
            | Some w \<Rightarrow> write_sectors io buf b buffer_size (current_write + 512) (lba + 1) w)
      else Some w)"
  by pat_completeness auto
termination by (relation "measure (\<lambda>(io, buf, b, n, cur, lba, w). n - cur)") auto

declare read_sectors.simps [simp del] write_sectors.simps [simp del]

definition ATARead :: "'w io \<Rightarrow> bool \<Rightarrow> nat \<Rightarrow> nat \<Rightarrow> nat \<Rightarrow> 'w driver \<times> mem \<Rightarrow> ('w driver \<times> mem) option" where
  \<comment> \<open>\<open>ATADriver::Read\<close> to the buffer at b, with the flag that \<open>ASSERT\<close> looks at\<close>
  "ATARead io interrupts_enabled b buffer_size lba s =
     (if buffer_size mod 2 \<noteq> 0 then Some s
      else if 0 < buffer_size \<and> \<not> interrupts_enabled then None
      else read_sectors io b buffer_size 0 lba s)"

definition ATAWrite :: "'w io \<Rightarrow> mem \<Rightarrow> nat \<Rightarrow> nat \<Rightarrow> nat \<Rightarrow> 'w driver \<Rightarrow> 'w driver option" where
  "ATAWrite io buf b buffer_size lba w =
     (if buffer_size mod 2 \<noteq> 0 then Some w else write_sectors io buf b buffer_size 0 lba w)"

end
