(* ===== verification/AtaProps.thy ===== *)
theory AtaProps
  imports Ata
begin

text \<open>
  What the driver relies on in a drive when it reads, as the locale \<open>ata_drive\<close>, and what it then achieves: the bytes of
  the disk arrive in memory as the file system assumes (\<open>GetFromBlockId\<close>). A write relies on more than a drive
  promises, which is the locale \<open>ata_writes\<close>; about writes there are only lemmas. \<open>pio_drive\<close> is a drive with which both
  work.
\<close>

unbundle bit_operations_syntax

section \<open>The state of a drive\<close>

text \<open>A read: the sector is fetched, then its words are given out. A write: the words are taken, then stored.\<close>

datatype phase = Idle | Fetching nat | DataIn nat nat | DataOut nat "16 word list" | Stored
  \<comment> \<open>with the sector and the words transferred so far\<close>

record ata_view =
  av_regs :: "16 word \<Rightarrow> 8 word"
  av_phase :: phase
  av_disk :: mem

definition lba28 :: "(16 word \<Rightarrow> 8 word) \<Rightarrow> nat" where
  "lba28 r = unat (r 0x1F3) + 2 ^ 8 * unat (r 0x1F4) + 2 ^ 16 * unat (r 0x1F5) + 2 ^ 24 * unat (r 0x1F6 AND 0x0F)"

definition sector_word :: "mem \<Rightarrow> nat \<Rightarrow> nat \<Rightarrow> 16 word" where
  "sector_word d s i = word_of_nat (rd16 d (lba_addr s + 2 * i))"

definition word_bytes :: "16 word list \<Rightarrow> mem" where
  "word_bytes ws = (\<lambda>j. word_of_nat (unat (ws ! (j div 2)) div 256 ^ (j mod 2)))"

definition set_register :: "16 word \<Rightarrow> 8 word \<Rightarrow> ata_view \<Rightarrow> ata_view" where
  "set_register p v a = a\<lparr>av_regs := (av_regs a)(p := v)\<rparr>"

definition set_phase :: "phase \<Rightarrow> ata_view \<Rightarrow> ata_view" where
  "set_phase ph a = a\<lparr>av_phase := ph\<rparr>"

definition accept_word :: "nat \<Rightarrow> 16 word list \<Rightarrow> 16 word \<Rightarrow> ata_view \<Rightarrow> ata_view" where
  "accept_word s ws v a =
     (if length ws < 255 then set_phase (DataOut s (ws @ [v])) a
      else set_phase Stored (a\<lparr>av_disk := write_bytes 512 (av_disk a) (lba_addr s) (word_bytes (ws @ [v]))\<rparr>))"

definition one_sector :: "ata_view \<Rightarrow> bool" where
  \<comment> \<open>the count is 1, the address a block address of the master\<close>
  "one_sector a \<longleftrightarrow> av_regs a 0x1F2 = 1 \<and> av_regs a 0x1F6 AND 0xF0 = 0xE0"

definition task_file :: "16 word set" where
  "task_file = {0x1F1, 0x1F2, 0x1F3, 0x1F4, 0x1F5, 0x1F6}"

section \<open>Bits and bytes\<close>

lemma status_bits:
  "v AND kStatusRegBSY \<noteq> 0 \<longleftrightarrow> bit v 7" "v AND kStatusRegDRQ \<noteq> 0 \<longleftrightarrow> bit v 3" "v AND kStatusRegERR \<noteq> 0 \<longleftrightarrow> bit v 0"
  unfolding kStatusRegBSY_def kStatusRegDRQ_def kStatusRegERR_def bit_iff_and_push_bit_not_eq_0 by (rule refl)+

lemma unat_low_bits: "unat (ucast (w :: 'a :: len word) :: 'b :: len word) = unat w mod 2 ^ LENGTH('b)"
  by (simp only: unsigned_ucast_eq take_bit_eq_mod)

lemma unat_shifted: "unat (drop_bit k w) = unat w div 2 ^ k"
  for w :: "'a :: len word"
  by (simp only: unsigned_drop_bit_eq drop_bit_eq_div)
     (metis drop_bit_eq_div take_bit_length_eq unsigned_take_bit_eq drop_bit_take_bit unsigned_drop_bit_eq)

lemma drive_byte:
  fixes lba :: "32 word"
  defines "b \<equiv> ((0xE0 OR push_bit 4 0) OR ucast (drop_bit 24 lba AND 0x0F)) :: 8 word"
  shows "b AND 0xF0 = 0xE0" "unat (b AND 0x0F) = unat lba div 2 ^ 24 mod 2 ^ 4"
proof -
  have n: "(0x0F :: 32 word) = mask 4" "(0x0F :: 8 word) = mask 4" "(0xF0 :: 8 word) = push_bit 4 (mask 4)"
    "(0xE0 :: 8 word) = push_bit 5 (mask 3)"
    by (simp_all add: mask_eq_exp_minus_1)
  show "b AND 0xF0 = 0xE0" unfolding b_def n by (rule bit_word_eqI) (auto simp: bit_simps)
  have "b AND 0x0F = ucast (take_bit 4 (drop_bit 24 lba))"
    unfolding b_def n by (rule bit_word_eqI) (auto simp: bit_simps)
  moreover have "unat (take_bit 4 (drop_bit 24 lba)) = unat lba div 2 ^ 24 mod 2 ^ 4"
    unfolding unsigned_take_bit_eq by (simp only: unat_shifted take_bit_eq_mod)
  ultimately show "unat (b AND 0x0F) = unat lba div 2 ^ 24 mod 2 ^ 4"
    by (simp add: unat_low_bits mod_mod_cancel)
qed

lemma address_bytes:
  fixes lba :: "32 word"
  assumes "unat lba < 2 ^ 28"
  shows "unat (ucast lba :: 8 word) + 2 ^ 8 * unat (ucast (drop_bit 8 lba) :: 8 word)
           + 2 ^ 16 * unat (ucast (drop_bit 16 lba) :: 8 word) + 2 ^ 24 * (unat lba div 2 ^ 24 mod 2 ^ 4) = unat lba"
proof -
  have u: "unat (ucast (drop_bit k lba) :: 8 word) = unat lba div 2 ^ k mod 256" for k
    by (simp add: unat_low_bits unat_shifted del: drop_bit_eq_div)
  have u0: "unat (ucast lba :: 8 word) = unat lba mod 256" using u [of 0] by simp
  define n a b c where "n = unat lba" and "a = n div 256" and "b = a div 256" and "c = b div 256"
  have d: "n div 2 ^ 8 = a" "n div 2 ^ 16 = b" "n div 2 ^ 24 = c" by (simp_all add: a_def b_def c_def div_mult2_eq [symmetric])
  have "c < 16" using assms by (simp add: n_def a_def b_def c_def)
  then have "n mod 256 + 256 * (a mod 256) + 65536 * (b mod 256) + 16777216 * (c mod 16) = n"
    using mult_div_mod_eq [of 256 n] mult_div_mod_eq [of 256 a] mult_div_mod_eq [of 256 b]
    by (simp add: a_def [symmetric] b_def [symmetric] c_def [symmetric])
  then show ?thesis unfolding u u0 n_def [symmetric] d by simp
qed

lemma byte_pair:
  fixes x y :: byte
  shows "word_of_nat (unat x + 256 * unat y) = x" "word_of_nat ((unat x + 256 * unat y) div 256) = y"
  using unsigned_less [where 'a = nat, of x] by (simp_all add: word_unat_eq_iff unat_of_nat del: of_nat_add of_nat_mult)

lemma write_bytes_none [simp]: "write_bytes 0 d a f = d"
  by (auto simp: write_bytes_def fun_eq_iff)

lemma write_bytes_split:
  "write_bytes m (write_bytes k d a f) (a + k) (\<lambda>j. f (k + j)) = write_bytes (k + m) d a f"
proof (rule ext)
  fix y
  consider "y < a" | j where "y = a + j" by (metis le_iff_add linorder_not_less)
  then show "write_bytes m (write_bytes k d a f) (a + k) (\<lambda>j. f (k + j)) y = write_bytes (k + m) d a f y"
    by cases (auto simp: write_bytes_def)
qed

lemma rd16_bound: "rd16 m a < 65536"
  using unsigned_less [where 'a = nat, of "m a"] unsigned_less [where 'a = nat, of "m (a + 1)"] by (simp add: rd16_def)

lemma unat_rd16: "unat (word_of_nat (rd16 m a) :: 16 word) = rd16 m a"
  using rd16_bound [of m a] by (simp only: unat_of_nat) simp

lemma sector_word_bytes: "wr16 buf b (unat (sector_word d s i)) = buf(b := d (lba_addr s + 2 * i), b + 1 := d (lba_addr s + 2 * i + 1))"
proof -
  have u: "unat (sector_word d s i) = rd16 d (lba_addr s + 2 * i)"
    unfolding sector_word_def by (rule unat_rd16)
  show ?thesis unfolding u wr16_def rd16_def byte_pair by (rule refl)
qed

lemma buffer_word_bytes:
  assumes "j < 512"
  shows "word_bytes (map (\<lambda>i. word_of_nat (rd16 buf (b + 2 * i))) [0 ..< 256]) j = buf (b + j)"
proof -
  let ?i = "j div 2"
  have i: "map (\<lambda>i. word_of_nat (rd16 buf (b + 2 * i))) [0 ..< 256] ! ?i = (word_of_nat (rd16 buf (b + 2 * ?i)) :: 16 word)"
    using assms by (subst nth_map) (simp_all del: upt_rec_numeral)
  have lo: "word_of_nat (rd16 buf a) = buf a" and hi: "word_of_nat (rd16 buf a div 256) = buf (a + 1)" for a
    unfolding rd16_def by (rule byte_pair)+
  show ?thesis
  proof (cases "even j")
    case True
    then have "2 * ?i = j" "j mod 2 = 0" by auto
    then show ?thesis unfolding word_bytes_def i unat_rd16 by (simp add: lo)
  next
    case False
    then have "j mod 2 = 1" and j: "b + 2 * ?i + 1 = b + j" by presburger+
    then show ?thesis unfolding word_bytes_def i unat_rd16 using hi [of "b + 2 * ?i"] unfolding j by simp
  qed
qed

section \<open>What the driver relies on to read\<close>

text \<open>
  \<open>view\<close> is what the drive holds, \<open>sectors\<close> how many it has. The laws are those of a read with programmed input from a
  drive without faults: an idle drive says so and takes its registers; the command makes it fetch the sector; when the
  sector is there it raises an interrupt, and it gives out the 256 words one after the other. The ports of the interrupt
  controller are not the drive's.
\<close>

locale ata_drive =
  fixes io :: "'w io" and view :: "'w \<Rightarrow> ata_view" and sectors :: nat
  assumes capacity: "sectors \<le> 2 ^ 28"
    and idle_status: "av_phase (view w) = Idle \<Longrightarrow> io_inb io 0x1F7 w = (v, w') \<Longrightarrow> \<not> bit v 7 \<and> \<not> bit v 3 \<and> view w' = view w"
    and idle_alternate: "av_phase (view w) = Idle \<Longrightarrow> io_inb io 0x3F6 w = (v, w') \<Longrightarrow> view w' = view w"
    and register: "av_phase (view w) = Idle \<Longrightarrow> p \<in> task_file \<Longrightarrow> view (io_outb io p v w) = set_register p v (view w)"
    and read_command: "av_phase (view w) = Idle \<Longrightarrow> one_sector (view w) \<Longrightarrow> lba28 (av_regs (view w)) < sectors \<Longrightarrow>
      view (io_outb io 0x1F7 0x20 w) = set_phase (Fetching (lba28 (av_regs (view w)))) (view w)"
    and data_ready: "av_phase (view w) = Fetching s \<Longrightarrow>
      \<exists>w'. io_interrupt io w = Some w' \<and> view w' = set_phase (DataIn s 0) (view w)"
    and data_in: "av_phase (view w) = DataIn s i \<Longrightarrow> io_inw io 0x1F0 w = (x, w') \<Longrightarrow>
      x = sector_word (av_disk (view w)) s i \<and> view w' = set_phase (if i < 255 then DataIn s (Suc i) else Idle) (view w)"
    and controller: "p = 0x20 \<or> p = 0xA0 \<Longrightarrow> view (io_outb io p v w) = view w"
begin

definition drive_free :: "'w \<Rightarrow> mem \<Rightarrow> bool" where
  "drive_free w d \<longleftrightarrow> av_phase (view w) = Idle \<and> av_disk (view w) = d"

lemma pm: "port_data primary_master = 0x1F0" "port_feature primary_master = 0x1F1" "port_sector_count primary_master = 0x1F2"
  "port_lba_low primary_master = 0x1F3" "port_lba_mid primary_master = 0x1F4" "port_lba_high primary_master = 0x1F5"
  "port_drive primary_master = 0x1F6" "port_status primary_master = 0x1F7" "port_alternate_status primary_master = 0x3F6"
  "dev_slave primary_master = False"
  by (simp_all add: primary_master_def InitATADevice_def kPrimaryIOBasePort_def kPrimaryControlBasePort_def)

lemma idle_delay: "drive_free w d \<Longrightarrow> drive_free (Delay400ns io primary_master w) d"
proof -
  assume w: "drive_free w d"
  let ?f = "\<lambda>w. snd (io_inb io 0x3F6 w)"
  have "drive_free ((?f ^^ n) w) d" for n
    by (induction n) (use w idle_alternate [OF _ prod.collapse [symmetric]] in \<open>auto simp: drive_free_def\<close>)
  then show ?thesis by (simp add: Delay400ns_def pm)
qed

lemma not_reset: "drive_free w d \<Longrightarrow> drive_free (reset_if_pending io primary_master w) d"
  using idle_status [of w "fst (io_inb io 0x1F7 w)" "snd (io_inb io 0x1F7 w)"]
  by (auto simp: reset_if_pending_def pm status_bits drive_free_def split: prod.splits)

lemma ATAHandler_view: "view (fst (ATAHandler io s)) = view (fst s)" "snd (ATAHandler io s) = snd s + 1"
  by (simp_all add: ATAHandler_def DiskCommandUp_def EndOfIRQ_def EndOfIRQForSlave_def controller split: prod.splits)

lemma DiskCommandDown_waits:
  assumes "io_interrupt io w = Some w'"
  shows "\<exists>w''. DiskCommandDown io (w, 0) = Some (w'', 0) \<and> view w'' = view w'"
  using assms ATAHandler_view [of "(w', 0)"]
  by (auto simp: DiskCommandDown.simps [of io "(w, 0)"] DiskCommandDown.simps [of io "ATAHandler io (w', 0)"])

definition task :: "32 word \<Rightarrow> 'w \<Rightarrow> 'w" where
  "task lba w =
     (let w = io_outb io 0x1F6 ((0xE0 OR push_bit 4 0) OR ucast (drop_bit 24 lba AND 0x0F)) w;
          w = io_outb io 0x1F1 0 w; w = io_outb io 0x1F2 1 w; w = io_outb io 0x1F3 (ucast lba) w;
          w = io_outb io 0x1F4 (ucast (drop_bit 8 lba)) w
      in io_outb io 0x1F5 (ucast (drop_bit 16 lba)) w)"

lemma send_task: "send_command io primary_master lba cmd w = io_outb io 0x1F7 cmd (task lba w)"
  by (simp add: send_command_def task_def pm Let_def)

lemma register_step: "drive_free w d \<Longrightarrow> p \<in> task_file \<Longrightarrow>
    drive_free (io_outb io p b w) d \<and> av_regs (view (io_outb io p b w)) = (av_regs (view w))(p := b)"
  using register [of w p b] by (simp add: drive_free_def set_register_def)

lemma task_sets:
  assumes "drive_free w d" "unat lba < sectors"
  shows "drive_free (task lba w) d \<and> one_sector (view (task lba w)) \<and> lba28 (av_regs (view (task lba w))) = unat lba"
proof -
  have lba: "unat lba < 2 ^ 28" using assms(2) capacity by linarith
  have t: "p \<in> task_file" if "p \<in> {0x1F1, 0x1F2, 0x1F3, 0x1F4, 0x1F5, 0x1F6}" for p using that by (simp add: task_file_def)
  have step: "drive_free (io_outb io p b w) d" "av_regs (view (io_outb io p b w)) = (av_regs (view w))(p := b)"
    if "drive_free w d" "p \<in> {0x1F1, 0x1F2, 0x1F3, 0x1F4, 0x1F5, 0x1F6}" for p b w
    using register_step [OF that(1) t [OF that(2)]] by simp_all
  have "drive_free (task lba w) d" unfolding task_def Let_def using assms(1) by (simp add: step)
  moreover have r: "av_regs (view (task lba w)) =
      (av_regs (view w))(0x1F6 := (0xE0 OR push_bit 4 0) OR ucast (drop_bit 24 lba AND 0x0F), 0x1F1 := 0, 0x1F2 := 1,
        0x1F3 := ucast lba, 0x1F4 := ucast (drop_bit 8 lba), 0x1F5 := ucast (drop_bit 16 lba))"
    unfolding task_def Let_def using assms(1) by (simp add: step del: push_bit_of_0)
  moreover have "one_sector (view (task lba w))"
    unfolding one_sector_def r using drive_byte(1) [of lba] by simp
  moreover have "lba28 (av_regs (view (task lba w))) = unat lba"
    unfolding lba28_def r using address_bytes [OF lba] drive_byte(2) [of lba] by simp
  ultimately show ?thesis by blast
qed

lemma read_words_in:
  assumes "av_phase (view w) = DataIn s i" "i < 256" "i + n \<le> 256"
  shows "\<exists>w'. read_words io primary_master b n (w, buf)
             = (w', write_bytes (2 * n) buf b (\<lambda>j. av_disk (view w) (lba_addr s + 2 * i + j)))
           \<and> av_disk (view w') = av_disk (view w)
           \<and> av_phase (view w') = (if i + n < 256 then DataIn s (i + n) else Idle)"
  using assms
proof (induction n arbitrary: i b w buf)
  case 0
  then show ?case by simp
next
  case (Suc n)
  obtain x w1 where x: "io_inw io 0x1F0 w = (x, w1)" by (cases "io_inw io 0x1F0 w")
  let ?d = "av_disk (view w)" and ?buf = "wr16 buf b (unat x)"
  from data_in [OF Suc.prems(1) x] have x1: "x = sector_word ?d s i"
    and v1: "view w1 = set_phase (if i < 255 then DataIn s (Suc i) else Idle) (view w)" by simp_all
  have d1: "av_disk (view w1) = ?d" by (simp add: v1 set_phase_def)
  have "\<exists>w'. read_words io primary_master (b + 2) n (w1, ?buf)
             = (w', write_bytes (2 * n) ?buf (b + 2) (\<lambda>j. ?d (lba_addr s + 2 * Suc i + j)))
           \<and> av_disk (view w') = ?d \<and> av_phase (view w') = (if Suc i + n < 256 then DataIn s (Suc i + n) else Idle)"
  proof (cases "n = 0")
    case True
    then show ?thesis using Suc.prems(2) by (simp add: d1 v1 set_phase_def)
  next
    case False
    then have "i < 255" "Suc i < 256" "Suc i + n \<le> 256" using Suc.prems(3) by auto
    then show ?thesis using Suc.IH [of w1 "Suc i" "b + 2" ?buf] by (simp add: v1 set_phase_def)
  qed
  then obtain w2 where w2: "read_words io primary_master (b + 2) n (w1, ?buf)
        = (w2, write_bytes (2 * n) ?buf (b + 2) (\<lambda>j. ?d (lba_addr s + 2 * Suc i + j)))" "av_disk (view w2) = ?d"
      "av_phase (view w2) = (if Suc i + n < 256 then DataIn s (Suc i + n) else Idle)" by blast
  have "write_bytes (2 * n) ?buf (b + 2) (\<lambda>j. ?d (lba_addr s + 2 * Suc i + j))
      = write_bytes (2 * Suc n) buf b (\<lambda>j. ?d (lba_addr s + 2 * i + j))"
  proof (rule ext)
    fix y
    consider "y = b" | "y = Suc b" | "y < b" | k where "y = b + 2 + k"
      by (metis add_2_eq_Suc' less_Suc_eq linorder_not_less le_iff_add nat_less_le not_less_eq_eq)
    then show "write_bytes (2 * n) ?buf (b + 2) (\<lambda>j. ?d (lba_addr s + 2 * Suc i + j)) y
        = write_bytes (2 * Suc n) buf b (\<lambda>j. ?d (lba_addr s + 2 * i + j)) y"
      unfolding x1 sector_word_bytes by cases (simp_all add: write_bytes_def)
  qed
  with w2(1) have "read_words io primary_master b (Suc n) (w, buf)
      = (w2, write_bytes (2 * Suc n) buf b (\<lambda>j. ?d (lba_addr s + 2 * i + j)))" by (simp add: pm x)
  with w2(2,3) show ?case by simp
qed

lemma ReadOneSector_reads:
  assumes "drive_free w d" "unat lba < sectors"
  shows "\<exists>w'. ReadOneSector io primary_master lba b 512 ((w, 0), buf)
             = Some ((w', 0), write_bytes 512 buf b (\<lambda>j. d (lba_addr (unat lba) + j))) \<and> drive_free w' d"
proof -
  let ?t = "task lba (reset_if_pending io primary_master w)"
  have t: "drive_free ?t d" "one_sector (view ?t)" "lba28 (av_regs (view ?t)) = unat lba"
    using task_sets [OF not_reset [OF assms(1)] assms(2)] by blast+
  let ?c = "io_outb io 0x1F7 0x20 ?t"
  have c: "view ?c = set_phase (Fetching (unat lba)) (view ?t)"
    using read_command [of ?t] t assms(2) by (simp add: drive_free_def)
  then have "av_phase (view ?c) = Fetching (unat lba)" by (simp add: set_phase_def)
  from data_ready [OF this] obtain w0 where w0: "io_interrupt io ?c = Some w0" "view w0 = set_phase (DataIn (unat lba) 0) (view ?c)"
    by blast
  obtain w1 where w1: "DiskCommandDown io (?c, 0) = Some (w1, 0)" "view w1 = view w0"
    using DiskCommandDown_waits [OF w0(1)] by blast
  have "av_phase (view w1) = DataIn (unat lba) 0" "av_disk (view w1) = d"
    using t(1) by (simp_all add: w1(2) w0(2) c set_phase_def drive_free_def)
  from read_words_in [OF this(1), of 256 b buf] this(2) obtain w2 where
    w2: "read_words io primary_master b 256 (w1, buf) = (w2, write_bytes 512 buf b (\<lambda>j. d (lba_addr (unat lba) + j)))"
      "drive_free w2 d" by (auto simp: drive_free_def)
  then show ?thesis using idle_delay [OF w2(2)] w1(1) by (simp add: ReadOneSector_def send_task del: read_words.simps)
qed

lemma read_sectors_reads:
  assumes "drive_free w d" "512 dvd n - cur" "512 * lba + (n - cur) \<le> 512 * sectors"
  shows "\<exists>w'. read_sectors io b n cur lba ((w, 0), buf)
             = Some ((w', 0), write_bytes (n - cur) buf (b + cur) (\<lambda>j. d (lba_addr lba + j))) \<and> drive_free w' d"
  using assms
proof (induction "n - cur" arbitrary: cur lba w buf rule: less_induct)
  case less
  show ?case
  proof (cases "cur < n")
    case False
    then show ?thesis using less.prems(1) by (simp add: read_sectors.simps [of io b n cur])
  next
    case True
    then have "512 \<le> n - cur" using less.prems(2) by (simp add: dvd_imp_le)
    then have k: "512 \<le> n - cur" "min 512 (n - cur) = 512" "n - cur = 512 + (n - (cur + 512))" by simp_all
    let ?lba = "word_of_nat lba :: 32 word"
    have "lba < sectors" using k(1) less.prems(3) by linarith
    then have l: "unat ?lba = lba" "unat ?lba < sectors" using capacity by (simp_all add: unat_of_nat)
    let ?buf = "write_bytes 512 buf (b + cur) (\<lambda>j. d (lba_addr lba + j))"
    obtain w1 where w1: "ReadOneSector io primary_master ?lba (b + cur) 512 ((w, 0), buf) = Some ((w1, 0), ?buf)" "drive_free w1 d"
      using ReadOneSector_reads [OF less.prems(1) l(2), of "b + cur" buf] unfolding l(1) by blast
    have "n - (cur + 512) < n - cur" "512 dvd n - (cur + 512)" "512 * (lba + 1) + (n - (cur + 512)) \<le> 512 * sectors"
      using True k(1) less.prems(3) dvd_diff_nat [OF less.prems(2) dvd_refl] by (simp_all only: diff_diff_left) simp_all
    from less.hyps [OF this(1) w1(2) this(2,3), of ?buf] obtain w2 where
      w2: "read_sectors io b n (cur + 512) (lba + 1) ((w1, 0), ?buf)
             = Some ((w2, 0), write_bytes (n - (cur + 512)) ?buf (b + (cur + 512)) (\<lambda>j. d (lba_addr (lba + 1) + j)))"
          "drive_free w2 d" by blast
    have "write_bytes (n - (cur + 512)) ?buf (b + (cur + 512)) (\<lambda>j. d (lba_addr (lba + 1) + j))
        = write_bytes (n - cur) buf (b + cur) (\<lambda>j. d (lba_addr lba + j))"
      using write_bytes_split [of "n - (cur + 512)" 512 buf "b + cur" "\<lambda>j. d (lba_addr lba + j)"]
      unfolding k(3) [symmetric] by (simp add: lba_addr_def add.assoc add.commute [of 512])
    then show ?thesis using True w1(1) w2 k(2) by (simp add: read_sectors.simps [of io b n cur])
  qed
qed

lemma read_block:
  assumes "drive_free w d" "2 * block_id + 2 \<le> sectors"
  shows "\<exists>w'. ATARead io True b 1024 (2 * block_id) ((w, 0), buf) = Some ((w', 0), write_bytes 1024 buf b (GetFromBlockId d block_id))
           \<and> drive_free w' d"
proof -
  have "write_bytes 1024 buf b (\<lambda>j. d (lba_addr (2 * block_id) + j)) = write_bytes 1024 buf b (GetFromBlockId d block_id)"
    by (auto simp: write_bytes_def fun_eq_iff GetFromBlockId_def read_bytes_def kBlockSize_def)
  then show ?thesis
    using read_sectors_reads [OF assms(1), of 1024 0 "2 * block_id" b buf] assms(2) by (auto simp: ATARead_def)
qed

end

section \<open>What the driver relies on to write\<close>

text \<open>
  \<open>busy\<close> bounds how often the status will still be read as busy. Beyond the documented course of a write, \<open>flush\<close> says
  that the command written right after the last word is ignored, although a drive that is busy then need not do so.
\<close>

definition writing :: "ata_view \<Rightarrow> bool" where
  "writing a \<longleftrightarrow> av_phase a = Stored \<or> (\<exists>s ws. av_phase a = DataOut s ws)"

locale ata_writes = ata_drive +
  fixes busy :: "'a \<Rightarrow> nat"
  assumes status_busy: "writing (view w) \<Longrightarrow> 0 < busy w \<Longrightarrow> io_inb io 0x1F7 w = (v, w') \<Longrightarrow>
      bit v 7 \<and> view w' = view w \<and> busy w' < busy w"
    and status_free: "writing (view w) \<Longrightarrow> busy w = 0 \<Longrightarrow> io_inb io 0x1F7 w = (v, w') \<Longrightarrow>
      \<not> bit v 7 \<and> \<not> bit v 0 \<and> bit v 3 = (av_phase (view w) \<noteq> Stored) \<and> view w' = view w \<and> busy w' = 0"
    and alternate: "writing (view w) \<Longrightarrow> io_inb io 0x3F6 w = (v, w') \<Longrightarrow> view w' = view w"
    and write_command: "av_phase (view w) = Idle \<Longrightarrow> one_sector (view w) \<Longrightarrow> lba28 (av_regs (view w)) < sectors \<Longrightarrow>
      view (io_outb io 0x1F7 0x30 w) = set_phase (DataOut (lba28 (av_regs (view w))) []) (view w)"
    and data_out: "busy w = 0 \<Longrightarrow> av_phase (view w) = DataOut s ws \<Longrightarrow>
      view (io_outw io 0x1F0 x w) = accept_word s ws x (view w) \<and> (length ws < 255 \<longrightarrow> busy (io_outw io 0x1F0 x w) = 0)"
    and flush: "av_phase (view w) = Stored \<Longrightarrow> view (io_outw io 0x1F7 0xE7 w) = view w"
    and stored: "av_phase (view w) = Stored \<Longrightarrow> \<exists>w'. io_interrupt io w = Some w' \<and> view w' = set_phase Idle (view w)"
begin

lemma wait_not_busy_returns:
  "writing (view w) \<Longrightarrow> \<exists>w'. wait_not_busy io primary_master w = Some w' \<and> view w' = view w \<and> busy w' = 0"
proof (induction "busy w" arbitrary: w rule: less_induct)
  case less
  obtain v w1 where r: "io_inb io 0x1F7 w = (v, w1)" by (cases "io_inb io 0x1F7 w")
  show ?case
  proof (cases "busy w = 0")
    case True
    then show ?thesis using status_free [OF less.prems True r]
      by (simp add: wait_not_busy.simps [of io _ w] pm r status_bits)
  next
    case False
    then have b: "bit v 7" "view w1 = view w" "busy w1 < busy w" using status_busy [OF less.prems _ r] by auto
    then show ?thesis using less.hyps [OF b(3)] less.prems
      by (simp add: wait_not_busy.simps [of io _ w] pm r status_bits)
  qed
qed

lemma write_delay: "writing (view w) \<Longrightarrow> view (Delay400ns io primary_master w) = view w"
proof -
  assume w: "writing (view w)"
  let ?f = "\<lambda>w. snd (io_inb io 0x3F6 w)"
  have "view ((?f ^^ n) w) = view w" for n
    by (induction n) (use w alternate [OF _ prod.collapse [symmetric]] in auto)
  then show ?thesis by (simp add: Delay400ns_def pm)
qed

lemma Poll_returns:
  assumes "av_phase (view w) = DataOut s ws"
  shows "\<exists>w'. Poll io primary_master w = Some (True, w') \<and> view w' = view w \<and> busy w' = 0"
proof -
  have wr: "writing (view w)" using assms by (simp add: writing_def)
  obtain w1 where w1: "wait_not_busy io primary_master w = Some w1" "view w1 = view w" "busy w1 = 0"
    using wait_not_busy_returns [OF wr] by blast
  obtain v w2 where r: "io_inb io 0x1F7 w1 = (v, w2)" by (cases "io_inb io 0x1F7 w1")
  from status_free [OF _ w1(3) r] show ?thesis
    using assms w1 wr by (simp add: Poll_def poll_data.simps [of io _ w1] pm r status_bits)
qed

lemma write_words_out:
  assumes "busy w = 0" "av_phase (view w) = DataOut s ws" "length ws + Suc n = 256"
  shows "av_phase (view (write_words io primary_master buf b (Suc n) w)) = Stored
    \<and> av_disk (view (write_words io primary_master buf b (Suc n) w))
      = write_bytes 512 (av_disk (view w)) (lba_addr s)
          (word_bytes (ws @ map (\<lambda>i. word_of_nat (rd16 buf (b + 2 * i))) [0 ..< Suc n]))"
  using assms
proof (induction n arbitrary: b w ws)
  case 0
  then show ?case using data_out [of w s ws] by (simp add: pm accept_word_def set_phase_def)
next
  case (Suc n)
  let ?v = "word_of_nat (rd16 buf b) :: 16 word"
  let ?w = "io_outw io 0x1F0 ?v w"
  have v: "view ?w = set_phase (DataOut s (ws @ [?v])) (view w)" "busy ?w = 0"
    using data_out [OF Suc.prems(1,2), of ?v] Suc.prems(3) by (simp_all add: accept_word_def)
  have "map (\<lambda>i. word_of_nat (rd16 buf (b + 2 * i)) :: 16 word) [0 ..< Suc (Suc n)]
      = ?v # map (\<lambda>i. word_of_nat (rd16 buf (b + 2 + 2 * i))) [0 ..< Suc n]"
    by (simp only: upt_conv_Cons [of 0 "Suc (Suc n)", OF zero_less_Suc] map_Suc_upt [symmetric]) simp
  with Suc.IH [OF v(2), of "ws @ [?v]" "b + 2"] Suc.prems(3) show ?case
    unfolding write_words.simps(2) [of io primary_master buf b "Suc n"] pm by (simp add: v set_phase_def del: upt_Suc)
qed

lemma WriteOneSector_writes:
  assumes "drive_free w d" "unat lba < sectors"
  shows "\<exists>w'. WriteOneSector io primary_master lba buf b 512 (w, 0) = Some (w', 0)
           \<and> drive_free w' (write_bytes 512 d (lba_addr (unat lba)) (\<lambda>j. buf (b + j)))"
proof -
  let ?t = "task lba w" and ?ws = "map (\<lambda>i. word_of_nat (rd16 buf (b + 2 * i))) [0 ..< 256] :: 16 word list"
  note t = task_sets [OF assms]
  let ?c = "Delay400ns io primary_master (io_outb io 0x1F7 0x30 ?t)"
  have c0: "view (io_outb io 0x1F7 0x30 ?t) = set_phase (DataOut (unat lba) []) (view ?t)"
    using write_command [of ?t] t assms(2) by (simp add: drive_free_def)
  have c: "view ?c = set_phase (DataOut (unat lba) []) (view ?t)"
    using write_delay [of "io_outb io 0x1F7 0x30 ?t"] by (simp add: c0 set_phase_def writing_def)
  then obtain w1 where w1: "Poll io primary_master ?c = Some (True, w1)" "view w1 = view ?c" "busy w1 = 0"
    using Poll_returns [of ?c "unat lba" "[]"] by (auto simp: set_phase_def)
  let ?w2 = "write_words io primary_master buf b 256 w1"
  have "av_phase (view w1) = DataOut (unat lba) []" "av_disk (view w1) = d"
    using t by (simp_all add: w1(2) c set_phase_def drive_free_def)
  then have w2: "av_phase (view ?w2) = Stored" "av_disk (view ?w2) = write_bytes 512 d (lba_addr (unat lba)) (word_bytes ?ws)"
    using write_words_out [OF w1(3), of "unat lba" "[]" 255 buf b] by (simp_all del: upt_Suc upt_rec_numeral write_words.simps)
  then have "writing (view (io_outw io 0x1F7 0xE7 ?w2))" by (simp add: flush writing_def)
  then obtain w3 where w3: "wait_not_busy io primary_master (io_outw io 0x1F7 0xE7 ?w2) = Some w3" "view w3 = view ?w2"
    using wait_not_busy_returns flush [OF w2(1)] by metis
  have "writing (view w3)" using w2(1) w3(2) by (simp add: writing_def)
  then have d3: "view (Delay400ns io primary_master w3) = view ?w2" by (simp add: write_delay w3(2))
  obtain w4 where w4: "io_interrupt io (Delay400ns io primary_master w3) = Some w4" "view w4 = set_phase Idle (view ?w2)"
    using stored [of "Delay400ns io primary_master w3"] w2(1) unfolding d3 by blast
  obtain w5 where w5: "DiskCommandDown io (Delay400ns io primary_master w3, 0) = Some (w5, 0)" "view w5 = view w4"
    using DiskCommandDown_waits [OF w4(1)] by blast
  have "write_bytes 512 d (lba_addr (unat lba)) (word_bytes ?ws) = write_bytes 512 d (lba_addr (unat lba)) (\<lambda>j. buf (b + j))"
    by (auto simp: write_bytes_def fun_eq_iff buffer_word_bytes simp del: upt_rec_numeral)
  then have "drive_free w5 (write_bytes 512 d (lba_addr (unat lba)) (\<lambda>j. buf (b + j)))"
    by (simp only: drive_free_def w5(2) w4(2)) (simp add: set_phase_def w2 del: upt_rec_numeral write_words.simps)
  then show ?thesis
    using w1(1) w3(1) w5(1) by (simp add: WriteOneSector_def send_task pm del: upt_rec_numeral)
qed

lemma write_sectors_writes:
  assumes "drive_free w d" "512 dvd n - cur" "512 * lba + (n - cur) \<le> 512 * sectors"
  shows "\<exists>w'. write_sectors io buf b n cur lba (w, 0) = Some (w', 0)
           \<and> drive_free w' (write_bytes (n - cur) d (lba_addr lba) (\<lambda>j. buf (b + cur + j)))"
  using assms
proof (induction "n - cur" arbitrary: cur lba w d rule: less_induct)
  case less
  show ?case
  proof (cases "cur < n")
    case False
    then show ?thesis using less.prems(1) by (simp add: write_sectors.simps [of io buf b n cur])
  next
    case True
    then have "512 \<le> n - cur" using less.prems(2) by (simp add: dvd_imp_le)
    then have k: "512 \<le> n - cur" "min 512 (n - cur) = 512" "n - cur = 512 + (n - (cur + 512))" by simp_all
    let ?lba = "word_of_nat lba :: 32 word"
    have "lba < sectors" using k(1) less.prems(3) by linarith
    then have l: "unat ?lba = lba" "unat ?lba < sectors" using capacity by (simp_all add: unat_of_nat)
    let ?d = "write_bytes 512 d (lba_addr lba) (\<lambda>j. buf (b + cur + j))"
    obtain w1 where w1: "WriteOneSector io primary_master ?lba buf (b + cur) 512 (w, 0) = Some (w1, 0)" "drive_free w1 ?d"
      using WriteOneSector_writes [OF less.prems(1) l(2), of buf "b + cur"] unfolding l(1) by blast
    have "n - (cur + 512) < n - cur" "512 dvd n - (cur + 512)" "512 * (lba + 1) + (n - (cur + 512)) \<le> 512 * sectors"
      using True k(1) less.prems(3) dvd_diff_nat [OF less.prems(2) dvd_refl] by (simp_all only: diff_diff_left) simp_all
    from less.hyps [OF this(1) w1(2) this(2,3)] obtain w2 where
      w2: "write_sectors io buf b n (cur + 512) (lba + 1) (w1, 0) = Some (w2, 0)"
        "drive_free w2 (write_bytes (n - (cur + 512)) ?d (lba_addr (lba + 1)) (\<lambda>j. buf (b + (cur + 512) + j)))" by blast
    have "write_bytes (n - (cur + 512)) ?d (lba_addr (lba + 1)) (\<lambda>j. buf (b + (cur + 512) + j))
        = write_bytes (n - cur) d (lba_addr lba) (\<lambda>j. buf (b + cur + j))"
      using write_bytes_split [of "n - (cur + 512)" 512 d "lba_addr lba" "\<lambda>j. buf (b + cur + j)"]
      unfolding k(3) [symmetric] by (simp add: lba_addr_def add.assoc add.commute [of 512])
    then show ?thesis using True w1(1) w2 k(2) by (simp add: write_sectors.simps [of io buf b n cur])
  qed
qed

lemma write_block:
  assumes "drive_free w d" "2 * block_id + 2 \<le> sectors"
  shows "\<exists>w'. ATAWrite io buf b 1024 (2 * block_id) (w, 0) = Some (w', 0)
           \<and> drive_free w' (WriteFromBlockId (\<lambda>j. buf (b + j)) block_id d)"
  using write_sectors_writes [OF assms(1), of 1024 0 "2 * block_id" buf b] assms(2)
  by (simp add: ATAWrite_def WriteFromBlockId_def)

end

section \<open>A drive\<close>

text \<open>A drive that is busy for some reads of its status after the command to write and after the sector it is given.\<close>

definition pio_status :: "ata_view \<times> nat \<Rightarrow> 8 word" where
  "pio_status a =
     (case av_phase (fst a) of
        Idle \<Rightarrow> 0x40 | Fetching s \<Rightarrow> 0x80 | DataIn s i \<Rightarrow> 0x48
      | DataOut s ws \<Rightarrow> if 0 < snd a then 0x80 else 0x48
      | Stored \<Rightarrow> if 0 < snd a then 0x80 else 0x40)"

definition pio_command :: "8 word \<Rightarrow> ata_view \<times> nat \<Rightarrow> ata_view \<times> nat" where
  "pio_command v a =
     (if av_phase (fst a) \<noteq> Idle \<or> \<not> one_sector (fst a) then a
      else if v = 0x20 then (set_phase (Fetching (lba28 (av_regs (fst a)))) (fst a), 0)
      else if v = 0x30 then (set_phase (DataOut (lba28 (av_regs (fst a))) []) (fst a), 3) else a)"

definition pio_drive :: "(ata_view \<times> nat) io" where
  "pio_drive =
     \<lparr>io_inb = (\<lambda>p a. if p = 0x1F7 then (pio_status a, (fst a, snd a - 1)) else (pio_status a, a)),
      io_inw = (\<lambda>p a. case av_phase (fst a) of
          DataIn s i \<Rightarrow> (sector_word (av_disk (fst a)) s i, (set_phase (if i < 255 then DataIn s (Suc i) else Idle) (fst a), snd a))
        | _ \<Rightarrow> (0, a)),
      io_outb = (\<lambda>p v a.
          if p = 0x1F7 then pio_command v a
          else if p = 0x3F6 then (if bit v 2 then (set_phase Idle (fst a), 0) else a)
          else if p \<in> task_file then (set_register p v (fst a), snd a) else a),
      io_outw = (\<lambda>p v a.
          if p = 0x1F7 then pio_command (ucast v) a
          else (case av_phase (fst a) of
              DataOut s ws \<Rightarrow> (accept_word s ws v (fst a), if length ws < 255 then snd a else 3)
            | _ \<Rightarrow> a)),
      io_interrupt = (\<lambda>a. case av_phase (fst a) of
          Fetching s \<Rightarrow> Some (set_phase (DataIn s 0) (fst a), snd a) | Stored \<Rightarrow> Some (set_phase Idle (fst a), snd a) | _ \<Rightarrow> None)\<rparr>"

lemma status_values:
  "bit (0x80 :: 8 word) 7" "\<not> bit (0x48 :: 8 word) 7" "\<not> bit (0x48 :: 8 word) 0" "bit (0x48 :: 8 word) 3"
  "\<not> bit (0x40 :: 8 word) 7" "\<not> bit (0x40 :: 8 word) 0" "\<not> bit (0x40 :: 8 word) 3"
  by code_simp+

interpretation pio: ata_drive pio_drive fst "2 ^ 28"
  by unfold_locales
    (auto simp: pio_drive_def pio_status_def pio_command_def task_file_def set_phase_def status_values split: if_splits)

interpretation pio_out: ata_writes pio_drive fst "2 ^ 28" snd
  by unfold_locales
    (auto simp: pio_drive_def pio_status_def pio_command_def writing_def set_phase_def status_values accept_word_def split: if_splits)

section \<open>Blocks\<close>

definition fetch_block :: "'w io \<Rightarrow> nat \<Rightarrow> nat \<Rightarrow> 'w driver \<times> mem \<Rightarrow> ('w driver \<times> mem) option" where
  \<comment> \<open>\<open>GetFromBlockId\<close> of \<open>ext2.h\<close> into a buffer at b, with interrupts on\<close>
  "fetch_block io block_id b s = ATARead io True b kBlockSize (2 * block_id) s"

primrec fetch_blocks :: "'w io \<Rightarrow> (nat \<times> nat) list \<Rightarrow> 'w driver \<times> mem \<Rightarrow> ('w driver \<times> mem) option" where
  "fetch_blocks io [] s = Some s"
| "fetch_blocks io (r # rs) s = (case fetch_block io (fst r) (snd r) s of None \<Rightarrow> None | Some s \<Rightarrow> fetch_blocks io rs s)"

text \<open>C6: Any sequence of reads of blocks the disk has returns, with the interrupts of the drive and the semaphore: memory
  is then what the file system assumes (\<open>GetFromBlockId\<close> for each block, in order), the disk is as before, and the driver
  is ready for the next read, with no unit left on \<open>disk_command_\<close>. This holds for every drive that follows the documented
  course of a read without faults (\<open>ata_drive\<close>), with interrupts on and no other user of the disk.\<close>

theorem driver_reads_blocks:
  assumes "ata_drive io view sectors" "av_phase (view w) = Idle" "\<forall>(block_id, b) \<in> set rs. 2 * block_id + 2 \<le> sectors"
  shows "\<exists>w'. fetch_blocks io rs ((w, 0), buf)
         = Some ((w', 0), fold (\<lambda>(block_id, b) m. write_bytes kBlockSize m b (GetFromBlockId (av_disk (view w)) block_id)) rs buf)
       \<and> av_disk (view w') = av_disk (view w) \<and> av_phase (view w') = Idle"
  using assms(2-)
proof (induction rs arbitrary: w buf)
  case (Cons r rs)
  obtain block_id b where r: "r = (block_id, b)" by (cases r)
  have "ata_drive.drive_free view w (av_disk (view w))" using Cons.prems by (simp add: ata_drive.drive_free_def [OF assms(1)])
  from ata_drive.read_block [OF assms(1) this, of block_id b buf] Cons.prems(2) r obtain w1 where
    w1: "ATARead io True b 1024 (2 * block_id) ((w, 0), buf)
        = Some ((w1, 0), write_bytes 1024 buf b (GetFromBlockId (av_disk (view w)) block_id))"
      "av_phase (view w1) = Idle" "av_disk (view w1) = av_disk (view w)"
    by (auto simp: ata_drive.drive_free_def [OF assms(1)])
  from Cons.IH [OF w1(2), of "write_bytes 1024 buf b (GetFromBlockId (av_disk (view w)) block_id)"] Cons.prems(2) w1(1,3) r
  show ?case by (simp add: fetch_block_def kBlockSize_def)
qed simp

definition counted_disk :: mem where "counted_disk = (\<lambda>a. if a < 4096 then word_of_nat a else 0)"

definition counted_drive :: "ata_view \<times> nat" where
  "counted_drive = (\<lparr>av_regs = (\<lambda>_. 0), av_phase = Idle, av_disk = counted_disk\<rparr>, 0)"

theorem driver_reads_blocks_witness:
  "\<exists>w' buf'. fetch_blocks pio_drive [(1, 0), (2, 4096)] ((counted_drive, 0), \<lambda>_. 0) = Some ((w', 0), buf')
     \<and> buf' 7 = 7 \<and> buf' 520 = 8 \<and> buf' 4099 = 3"
proof -
  have h: "av_phase (fst counted_drive) = Idle" "\<forall>(block_id, b) \<in> set [(1, 0), (2, 4096 :: nat)]. 2 * block_id + 2 \<le> (2 :: nat) ^ 28"
    by (simp_all add: counted_drive_def)
  from driver_reads_blocks [OF pio.ata_drive_axioms h, of "\<lambda>_. 0"] show ?thesis
    by (auto simp: GetFromBlockId_def write_bytes_def read_bytes_def lba_addr_def kBlockSize_def counted_drive_def counted_disk_def)
qed

text \<open>An odd number of bytes is refused; \<open>Read\<close> panics when interrupts are off.\<close>

lemma odd_refused: "odd n \<Longrightarrow> ATARead io e b n lba s = Some s" "odd n \<Longrightarrow> ATAWrite io buf b n lba s' = Some s'"
  by (simp_all add: ATARead_def ATAWrite_def odd_iff_mod_2_eq_one)

lemma read_needs_interrupts: "even n \<Longrightarrow> 0 < n \<Longrightarrow> ATARead io False b n lba s = None"
  by (simp add: ATARead_def)

end
