(* ===== verification/SnakeGame.thy ===== *)
theory SnakeGame
  imports Prelude "HOL-Library.Word"
begin

text \<open>
  The game \<open>user/misc/snake.c\<close>: the snake on a board of 20 by 20 squares, its picture in a buffer of 200 by 200 pixels,
  and one turn of the loop of \<open>main\<close>, given what is typed and the times that \<open>mstick\<close> returns. None is an access
  outside an array.
\<close>

definition MAP_WIDTH :: nat where "MAP_WIDTH = 200"
definition MAP_HEIGHT :: nat where "MAP_HEIGHT = 200"
definition MAX_LEN :: nat where "MAX_LEN = 100"
definition RECT_SIZE :: nat where "RECT_SIZE = 10"

record Pos =
  pos_row :: int
  pos_col :: int

datatype Direction = UP | RIGHT | DOWN | LEFT

record Snake =
  cells :: "Pos list"  \<comment> \<open>its \<open>MAX_LEN\<close> places\<close>
  current_len :: nat
  snake_dir :: "Direction option"  \<comment> \<open>None is a value outside the enumeration, as it may have at first\<close>
  food :: Pos

definition in_board :: "Pos \<Rightarrow> bool" where
  "in_board p \<longleftrightarrow> \<not> (pos_row p < 0 \<or> pos_row p \<ge> int (MAP_HEIGHT div RECT_SIZE)) \<and> \<not> (pos_col p < 0 \<or> pos_col p \<ge> int (MAP_WIDTH div RECT_SIZE))"

definition step_pos :: "Direction option \<Rightarrow> Pos \<Rightarrow> Pos" where
  \<comment> \<open>the switch over the direction\<close>
  "step_pos d p =
     (case d of Some UP \<Rightarrow> p\<lparr>pos_row := pos_row p - 1\<rparr> | Some RIGHT \<Rightarrow> p\<lparr>pos_col := pos_col p + 1\<rparr>
      | Some DOWN \<Rightarrow> p\<lparr>pos_row := pos_row p + 1\<rparr> | Some LEFT \<Rightarrow> p\<lparr>pos_col := pos_col p - 1\<rparr> | None \<Rightarrow> p)"

definition MoveSnake :: "Direction option \<Rightarrow> Snake \<Rightarrow> bool \<times> Snake" where
  "MoveSnake d snake =
     (let ps = fold (\<lambda>i ps. ps[i := ps ! (i - 1)]) (rev [1 ..< current_len snake]) (cells snake);
          ps = ps[0 := step_pos d (ps ! 0)]
      in (in_board (ps ! 0), snake\<lparr>cells := ps\<rparr>))"

definition MakeLonger :: "Snake \<Rightarrow> (bool \<times> Snake) option" where
  "MakeLonger snake =
     (if current_len snake \<ge> length (cells snake) then None
      else (let ps = fold (\<lambda>i ps. ps[i + 1 := ps ! i]) (rev [0 ..< current_len snake]) (cells snake);
                ps = ps[0 := step_pos (snake_dir snake) (ps ! 0)]
            in if in_board (ps ! 0) then Some (True, snake\<lparr>cells := ps, current_len := current_len snake + 1\<rparr>)
               else Some (False, snake\<lparr>cells := ps\<rparr>)))"

definition put_pixel :: "int \<Rightarrow> int \<Rightarrow> int list \<Rightarrow> int list option" where
  "put_pixel i v vm = (if 0 \<le> i \<and> i < int (length vm) then Some (vm[nat i := v]) else None)"

fun fold_opt :: "('a \<Rightarrow> 'b \<Rightarrow> 'b option) \<Rightarrow> 'a list \<Rightarrow> 'b \<Rightarrow> 'b option" where
  "fold_opt f [] s = Some s"
| "fold_opt f (x # xs) s = (case f x s of None \<Rightarrow> None | Some s \<Rightarrow> fold_opt f xs s)"

definition draw_rect :: "int \<Rightarrow> Pos \<Rightarrow> int list \<Rightarrow> int list option" where
  "draw_rect v p =
     fold_opt (\<lambda>(h, w). put_pixel ((pos_row p * int RECT_SIZE + int h) * int MAP_WIDTH + (pos_col p * int RECT_SIZE + int w)) v)
       (List.product [0 ..< RECT_SIZE] [0 ..< RECT_SIZE])"

definition Draw :: "Snake \<Rightarrow> int list \<Rightarrow> int list option" where
  \<comment> \<open>what is handed to \<open>screen\<close>, from a buffer of \<open>MAP_WIDTH * MAP_HEIGHT\<close> pixels\<close>
  "Draw snake vm =
     (case fold_opt (\<lambda>i. draw_rect 0xff00ff (cells snake ! i)) [0 ..< current_len snake] (replicate (length vm) 0) of
        None \<Rightarrow> None
      | Some vm \<Rightarrow> draw_rect 0x00ffff (food snake) vm)"

record game =
  snake :: Snake
  vm :: "int list"
  last_action :: "64 word"
  last_draw :: "64 word"

definition new_game :: "Pos list \<Rightarrow> Direction option \<Rightarrow> int list \<Rightarrow> 64 word \<Rightarrow> 64 word \<Rightarrow> game" where
  \<comment> \<open>what the places, the direction and the buffer hold is not set\<close>
  "new_game ps d pixels t1 t2 =
     \<lparr>snake = \<lparr>cells = ps[0 := \<lparr>pos_row = 4, pos_col = 4\<rparr>], current_len = 1, snake_dir = d, food = \<lparr>pos_row = 9, pos_col = 9\<rparr>\<rparr>,
      vm = pixels, last_action = t1, last_draw = t2\<rparr>"

definition typed_key :: "char option \<Rightarrow> Snake \<Rightarrow> bool \<times> Snake" where
  "typed_key key s =
     (case key of None \<Rightarrow> (True, s)
      | Some c \<Rightarrow>
          (case map_of [(CHR ''w'', UP), (CHR ''a'', LEFT), (CHR ''d'', RIGHT), (CHR ''s'', DOWN)] c of
             None \<Rightarrow> (True, s)
           | Some d \<Rightarrow> (case MoveSnake (Some d) s of (res, s) \<Rightarrow> (res, s\<lparr>snake_dir := Some d\<rparr>))))"

definition eat :: "Snake \<Rightarrow> (bool \<times> Snake) option" where
  "eat s =
     (if pos_col (cells s ! 0) = pos_col (food s) \<and> pos_row (cells s ! 0) = pos_row (food s)
      then (case MakeLonger s of None \<Rightarrow> None
            | Some (res, s) \<Rightarrow>
                Some (res, s\<lparr>food := \<lparr>pos_row = (pos_row (food s) + 7) mod int (MAP_WIDTH div RECT_SIZE),
                                      pos_col = (pos_col (food s) + 3) mod int (MAP_WIDTH div RECT_SIZE)\<rparr>\<rparr>))
      else Some (True, s))"

definition turn :: "char option \<Rightarrow> 64 word \<times> 64 word \<times> 64 word \<Rightarrow> game \<Rightarrow> (bool \<times> game) option" where
  \<comment> \<open>one turn of the loop: the first character read, and the times; False when the loop is left\<close>
  "turn key ts g = (case ts of (cur, t_action, t_draw) \<Rightarrow>
     (case typed_key key (snake g) of (res, s) \<Rightarrow>
        if \<not> res then Some (False, g\<lparr>snake := s\<rparr>)
        else (case eat s of
                None \<Rightarrow> None
              | Some (res, s) \<Rightarrow>
                  if \<not> res then Some (False, g\<lparr>snake := s\<rparr>)
                  else (case (if cur - last_action g \<ge> 600 then MoveSnake (snake_dir s) s else (True, s)) of (res, s) \<Rightarrow>
                    if \<not> res then Some (False, g\<lparr>snake := s\<rparr>)
                    else (let g = g\<lparr>snake := s, last_action := if cur - last_action g \<ge> 600 then t_action else last_action g\<rparr>
                          in if cur - last_draw g \<ge> 100
                             then map_option (\<lambda>pixels. (True, g\<lparr>vm := pixels, last_draw := t_draw\<rparr>)) (Draw s (vm g))
                             else Some (True, g))))))"

section \<open>The snake stays on the board\<close>

definition snake_ok :: "Snake \<Rightarrow> bool" where
  "snake_ok s \<longleftrightarrow> length (cells s) = MAX_LEN \<and> 1 \<le> current_len s \<and> current_len s \<le> MAX_LEN
     \<and> (\<forall>p \<in> set (take (current_len s) (cells s)). in_board p) \<and> in_board (food s)"

lemma shift_up:
  "n < length ps \<Longrightarrow> fold (\<lambda>i ps. ps[i + 1 := ps ! i]) (rev [0 ..< n]) ps = ps ! 0 # take n ps @ drop (Suc n) ps"
proof (induction n arbitrary: ps)
  case 0
  then show ?case by (simp add: Cons_nth_drop_Suc)
next
  case (Suc n)
  let ?ps = "ps[Suc n := ps ! n]"
  have "fold (\<lambda>i ps. ps[i + 1 := ps ! i]) (rev [0 ..< Suc n]) ps = ?ps ! 0 # take n ?ps @ drop (Suc n) ?ps"
    using Suc.IH [of ?ps] Suc.prems by simp
  moreover have "drop (Suc n) ?ps = ps ! n # drop (Suc (Suc n)) ps"
    using Suc.prems by (simp add: drop_update_swap Cons_nth_drop_Suc [symmetric])
  ultimately show ?case using Suc.prems by (simp add: take_Suc_conv_app_nth)
qed

lemma shift_down:
  assumes "0 < n" "n \<le> length ps"
  shows "fold (\<lambda>i ps. ps[i := ps ! (i - 1)]) (rev [1 ..< n]) ps = ps ! 0 # take (n - 1) ps @ drop n ps"
proof -
  have "rev [1 ..< n] = map Suc (rev [0 ..< n - 1])" 
    using assms(1) by (cases n) (simp_all only: rev_map [symmetric] map_Suc_upt One_nat_def diff_Suc_Suc diff_zero)
  then show ?thesis using shift_up [of "n - 1" ps] assms by (simp add: fold_map comp_def)
qed

lemma cell_in: "snake_ok s \<Longrightarrow> i < current_len s \<Longrightarrow> in_board (cells s ! i)"
  unfolding snake_ok_def by (metis in_set_conv_nth length_take min.absorb2 nth_take)

lemma MoveSnake_ok:
  assumes "snake_ok s" "MoveSnake d s = (True, s')"
  shows "snake_ok s' \<and> current_len s' = current_len s \<and> snake_dir s' = snake_dir s"
proof -
  let ?n = "current_len s"
  have n: "0 < ?n" "?n \<le> length (cells s)" "length (cells s) = MAX_LEN" using assms(1) by (auto simp: snake_ok_def)
  have t: "take ?n (cells s') = step_pos d (cells s ! 0) # take (?n - 1) (cells s)" "length (cells s') = MAX_LEN"
    "in_board (step_pos d (cells s ! 0))" "current_len s' = ?n" "food s' = food s" "snake_dir s' = snake_dir s"
    using assms(2) n unfolding MoveSnake_def shift_down [OF n(1,2)] Let_def by (auto simp: take_Cons')
  have "set (take (?n - 1) (cells s)) \<subseteq> set (take ?n (cells s))" by (rule set_take_subset_set_take) simp
  then show ?thesis using assms(1) t unfolding snake_ok_def by auto
qed

lemma MakeLonger_ok:
  assumes "snake_ok s" "MakeLonger s = Some (True, s')"
  shows "snake_ok s' \<and> current_len s' = Suc (current_len s) \<and> snake_dir s' = snake_dir s \<and> food s' = food s"
proof -
  let ?n = "current_len s"
  have n: "length (cells s) = MAX_LEN" using assms(1) by (auto simp: snake_ok_def)
  then have l: "?n < length (cells s)" using assms(2) by (auto simp: MakeLonger_def split: if_splits)
  have t: "take (Suc ?n) (cells s') = step_pos (snake_dir s) (cells s ! 0) # take ?n (cells s)" "length (cells s') = MAX_LEN"
    "in_board (step_pos (snake_dir s) (cells s ! 0))" "current_len s' = Suc ?n" "food s' = food s" "snake_dir s' = snake_dir s"
    using assms(2) n l by (auto simp: MakeLonger_def shift_up [simplified] Let_def split: if_splits)
  then show ?thesis using assms(1) l n unfolding snake_ok_def by auto
qed

lemma fold_opt_inv:
  "(\<And>x s. x \<in> set xs \<Longrightarrow> P s \<Longrightarrow> \<exists>s'. f x s = Some s' \<and> P s') \<Longrightarrow> P s \<Longrightarrow> \<exists>s'. fold_opt f xs s = Some s' \<and> P s'"
proof (induction xs arbitrary: s)
  case (Cons x xs)
  from Cons.prems(1) [of x s] Cons.prems(2) obtain s1 where "f x s = Some s1" "P s1" by auto
  with Cons.IH [of s1] Cons.prems(1) show ?case by auto
qed simp

lemma draw_rect_inside:
  assumes "in_board p" "length pixels = MAP_WIDTH * MAP_HEIGHT"
  shows "\<exists>pixels'. draw_rect v p pixels = Some pixels' \<and> length pixels' = MAP_WIDTH * MAP_HEIGHT"
  unfolding draw_rect_def
proof (rule fold_opt_inv [where P = "\<lambda>s. length s = MAP_WIDTH * MAP_HEIGHT", OF _ assms(2)])
  fix x and s :: "int list"
  assume x: "x \<in> set (List.product [0 ..< RECT_SIZE] [0 ..< RECT_SIZE])" and s: "length s = MAP_WIDTH * MAP_HEIGHT"
  obtain h w where hw: "x = (h, w)" "h < 10" "w < 10" using x by (auto simp: RECT_SIZE_def)
  have "0 \<le> pos_row p" "pos_row p \<le> 19" "0 \<le> pos_col p" "pos_col p \<le> 19"
    using assms(1) by (auto simp: in_board_def MAP_WIDTH_def MAP_HEIGHT_def RECT_SIZE_def)
  then show "\<exists>s'. (case x of (h, w) \<Rightarrow> put_pixel ((pos_row p * int RECT_SIZE + int h) * int MAP_WIDTH + (pos_col p * int RECT_SIZE + int w)) v) s
      = Some s' \<and> length s' = MAP_WIDTH * MAP_HEIGHT"
    using hw(2,3) s by (simp add: hw(1) put_pixel_def MAP_WIDTH_def MAP_HEIGHT_def RECT_SIZE_def)
qed

lemma Draw_inside:
  assumes "snake_ok s" "length pixels = MAP_WIDTH * MAP_HEIGHT"
  shows "\<exists>pixels'. Draw s pixels = Some pixels' \<and> length pixels' = MAP_WIDTH * MAP_HEIGHT"
proof -
  have "in_board (cells s ! i)" if "i < current_len s" for i
    using cell_in [OF assms(1)] that by blast
  then have "\<exists>p1. fold_opt (\<lambda>i. draw_rect 0xff00ff (cells s ! i)) [0 ..< current_len s] (replicate (length pixels) 0) = Some p1
      \<and> length p1 = MAP_WIDTH * MAP_HEIGHT"
    by (intro fold_opt_inv) (auto intro!: draw_rect_inside simp: assms(2))
  then show ?thesis using draw_rect_inside [of "food s"] assms(1) by (auto simp: Draw_def snake_ok_def)
qed

definition game_ok :: "game \<Rightarrow> bool" where
  "game_ok g \<longleftrightarrow> snake_ok (snake g) \<and> length (vm g) = MAP_WIDTH * MAP_HEIGHT"

lemma typed_key_ok: "snake_ok s \<Longrightarrow> typed_key key s = (True, s') \<Longrightarrow> snake_ok s' \<and> current_len s' = current_len s"
  by (auto simp: typed_key_def snake_ok_def split: option.splits prod.splits dest!: MoveSnake_ok [unfolded snake_ok_def, rotated])

lemma eat_ok:
  assumes "snake_ok s" "current_len s < MAX_LEN"
  shows "\<exists>res s'. eat s = Some (res, s') \<and> (res \<longrightarrow> snake_ok s')"
proof (cases "pos_col (cells s ! 0) = pos_col (food s) \<and> pos_row (cells s ! 0) = pos_row (food s)")
  case False
  then show ?thesis using assms(1) by (auto simp: eat_def)
next
  case True
  have "MakeLonger s \<noteq> None" using assms by (auto simp: MakeLonger_def snake_ok_def Let_def)
  then obtain res s1 where m: "MakeLonger s = Some (res, s1)" by auto
  have "in_board \<lparr>pos_row = (r + 7) mod int (MAP_WIDTH div RECT_SIZE), pos_col = (c + 3) mod int (MAP_WIDTH div RECT_SIZE)\<rparr>" for r c
    by (simp add: in_board_def MAP_WIDTH_def MAP_HEIGHT_def RECT_SIZE_def not_less not_le)
  then show ?thesis using True m MakeLonger_ok [OF assms(1)] by (cases res) (auto simp: eat_def snake_ok_def)
qed

text \<open>As long as the snake is shorter than its array, a turn reads and writes inside the arrays, and unless it ends the
  game it leaves the snake and the food on the board.\<close>

lemma turn_ok:
  assumes "game_ok g" "current_len (snake g) < MAX_LEN"
  shows "turn key ts g \<noteq> None \<and> (\<forall>g'. turn key ts g = Some (True, g') \<longrightarrow> game_ok g')"
proof -
  obtain cur ta td where ts: "ts = (cur, ta, td)" by (cases ts)
  obtain res s where t: "typed_key key (snake g) = (res, s)" by (cases "typed_key key (snake g)")
  show ?thesis
  proof (cases res)
    case False
    then show ?thesis by (simp add: turn_def ts t)
  next
    case True
    with t have s: "snake_ok s" "current_len s < MAX_LEN" using typed_key_ok [of "snake g" key s] assms by (auto simp: game_ok_def)
    obtain res1 s1 where e: "eat s = Some (res1, s1)" "res1 \<longrightarrow> snake_ok s1" using eat_ok [OF s] by auto
    obtain res2 s2 where m: "(if cur - last_action g \<ge> 600 then MoveSnake (snake_dir s1) s1 else (True, s1)) = (res2, s2)"
      by (cases "if cur - last_action g \<ge> 600 then MoveSnake (snake_dir s1) s1 else (True, s1)")
    show ?thesis
    proof (cases "res1 \<and> res2")
      case False
      then show ?thesis using True by (auto simp: turn_def ts t e(1) m Let_def)
    next
      case rs: True
      then have "snake_ok s2" using e(2) m MoveSnake_ok [of s1 "snake_dir s1" s2] by (auto split: if_splits)
      moreover obtain px where "Draw s2 (vm g) = Some px" "length px = MAP_WIDTH * MAP_HEIGHT"
        using Draw_inside [OF \<open>snake_ok s2\<close>, of "vm g"] assms(1) by (auto simp: game_ok_def)
      ultimately show ?thesis using True rs assms(1) by (auto simp: turn_def ts t e(1) m Let_def game_ok_def)
    qed
  qed
qed

lemma new_game_ok: "length ps = MAX_LEN \<Longrightarrow> length pixels = MAP_WIDTH * MAP_HEIGHT \<Longrightarrow> game_ok (new_game ps d pixels t1 t2)"
  by (cases ps) (auto simp: game_ok_def new_game_def snake_ok_def MAX_LEN_def in_board_def MAP_WIDTH_def MAP_HEIGHT_def RECT_SIZE_def)

text \<open>A snake of 100 squares that eats writes behind its array, and one that starts without a key does not move.\<close>

lemma full_snake: "snake_ok s \<Longrightarrow> current_len s = MAX_LEN \<Longrightarrow> MakeLonger s = None"
  by (simp add: MakeLonger_def snake_ok_def)

lemma no_direction: "snake_ok s \<Longrightarrow> current_len s = 1 \<Longrightarrow> MoveSnake None s = (True, s)"
  using cell_in [of s 0] by (simp add: MoveSnake_def step_pos_def Let_def)

end
