(* ===== verification/Spec2Isabelle.thy ===== *)
theory Spec2Isabelle
  imports MallocClient ScanfProps SchedProps SpinLock BuddyProps PrintfProps Ext2Props FilesProps HashSetProps ProcessProps ConsoleProps KMallocProps UserProps VectorProps TimerProps
    VgaProps Fonts Descriptors AtaProps SnakeGame
begin

text \<open>
  The operating system modooOS, \<open>src/osdev\<close>: a 64-bit kernel in C++, with its own containers (\<open>kernel/std\<close>),
  and the C library and programs of its users (\<open>user\<close>). The models are written after the code, operation by
  operation and branch by branch; an operation that panics, faults, reads what is not there or does not come
  back has the value None, and what the code returns as an error is the value it returns.

  How the parts work together. The boot loader's tags and the ACPI tables say what there is. Physical memory is
  handed out as frames by buddy allocators; page tables map frames into the address spaces of processes, and
  each page fault loads a page of a program from the file system. The kernel's own data lives in a heap with
  chunks and sixteen free lists, and in containers: vectors, trees, hash tables, strings, intrusive lists.
  Threads run from queues, one per core; they wait on semaphores, on spin locks, and on timers that an alarm
  clock thread looks after. Files live in an ext2 image on an ATA disk; a process reaches files, pipes and the
  terminal through a table of descriptors and the system calls. Key strokes go through a ring to the console,
  which runs the shell; what is printed goes through a ring to the text or the graphic screen. A user program
  has a heap over \<open>sbrk\<close>, strings, \<open>printf\<close>, \<open>sscanf\<close> and buffered files.

  Theories, from the bottom up.

  \<^item> \<open>Prelude\<close>: wrapping arithmetic on naturals, byte memory with 32-bit loads and stores, doubly linked segments, and
    the collections of simplification rules. \<open>Blocks\<close>: a heap tiled by blocks, for both heaps. \<open>FiniteMap\<close> and
    \<open>Allocator\<close>: interfaces, see below.
  \<^item> User heap (\<open>user/libc/malloc.c\<close>): \<open>Malloc\<close> has the operations on bytes; \<open>MallocHeap\<close>, \<open>MallocBlocks\<close> and \<open>MallocOps\<close>
    relate them to a list of blocks; \<open>MallocClient\<close> has programs that use them.
  \<^item> C library: \<open>CString\<close> and \<open>CStringProps\<close> (\<open>string.c\<close>, \<open>ctype.c\<close>, and the kernel's \<open>utf8.h\<close>), \<open>Scanf\<close> and \<open>ScanfProps\<close>
    (\<open>scanf.c\<close>, \<open>stdlib.c\<close>), \<open>Printf\<close> and \<open>PrintfProps\<close> (\<open>printf.c\<close>, and \<open>printf.cc\<close> of the kernel), \<open>Stdio\<close> and
    \<open>StdioProps\<close> (\<open>stdio.c\<close>), \<open>Syscalls\<close> (\<open>syscall.c\<close>, and the switch in \<open>kernel/kernel/syscall.cc\<close>).
  \<^item> Programs: \<open>UserPrograms\<close> and \<open>UserProps\<close> (\<open>cat\<close>, \<open>ls\<close>, \<open>pwd\<close>); \<open>SnakeGame\<close> (\<open>misc/snake.c\<close>).
  \<^item> Threads: \<open>KList\<close> (\<open>kernel_list.h\<close>), \<open>Scheduler\<close>, \<open>SchedInv\<close> and \<open>SchedProps\<close> (\<open>kthread\<close>, \<open>scheduler\<close>, \<open>semaphore\<close>),
    \<open>SpinLock\<close> (\<open>sync\<close>), \<open>Timer\<close> and \<open>TimerProps\<close> (\<open>timer\<close>).
  \<^item> Frames: \<open>FrameList\<close> and \<open>Buddy\<close> (\<open>frame_allocator\<close>), \<open>BuddyTree\<close>, \<open>BuddyRep\<close>, \<open>BuddyOps\<close> and \<open>BuddyAlloc\<close> (the tree of
    blocks behind the bits), \<open>BuddyProps\<close>.
  \<^item> Paging and processes: \<open>Paging\<close>, \<open>PagingRep\<close>, \<open>PagingProps\<close>, \<open>AddressSpace\<close> and \<open>Isolation\<close> (\<open>paging\<close>),
    \<open>Process\<close> and \<open>ProcessProps\<close> (\<open>process\<close>, \<open>elf\<close>, the page fault handler).
  \<^item> Kernel heap (\<open>kmalloc.cc\<close>, \<open>kernel_math.cc\<close>): \<open>KMalloc\<close> has the operations on bytes; \<open>KMallocRep\<close>, \<open>KMallocLists\<close> and
    \<open>KMallocOps\<close> relate them to a list of chunks; \<open>KMallocClient\<close> and \<open>KMallocProps\<close>.
  \<^item> Containers: \<open>Vector\<close> and \<open>VectorProps\<close>; \<open>TreeSet\<close>, \<open>TreeRep\<close>, \<open>TreeLaws\<close> and \<open>TreeProps\<close> (\<open>tree.h\<close>, \<open>set.h\<close>,
    \<open>map.h\<close>); \<open>HashSet\<close> and \<open>HashSetProps\<close>; \<open>KString\<close> (\<open>string\<close>, \<open>string_view.h\<close>, and the paths of the file system).
  \<^item> Files: \<open>Ext2\<close>, \<open>Ext2Index\<close>, \<open>Ext2Dir\<close> and \<open>Ext2Props\<close> (\<open>fs\<close>); \<open>Ata\<close> and \<open>AtaProps\<close> (the driver
    of the disk, over its ports); \<open>Files\<close> and \<open>FilesProps\<close> (descriptors, pipes, \<open>sys\<close>).
  \<^item> Console: \<open>Keyboard\<close>, \<open>Console\<close> and \<open>ConsoleProps\<close>; \<open>VgaText\<close> and \<open>VgaProps\<close> (\<open>vga_output\<close>), \<open>Graphic\<close> and
    \<open>GraphicProps\<close> (\<open>graphic\<close>), \<open>Fonts\<close> (\<open>fonts\<close>).
  \<^item> \<open>Acpi\<close>: the ACPI tables and the boot loader's tags. \<open>Descriptors\<close>: segment descriptors, interrupt vectors and
    the masks of the interrupt controllers.

  What the lemmas show. Each component has a representation (a list of blocks, a tree, a finite map, a list of
  elements) and its operations are shown to act on it as they should; an invariant that every operation keeps
  carries the properties along all runs. This file has what spans components: \<open>cat\<close>, \<open>ls\<close> and buffered reading
  from the system calls down to the blocks on the disk and up to the terminal. Lemmas that show what the code
  gets wrong stand at the end of a component's theory, on a concrete state or as a general statement.

  Interfaces. \<open>allocator\<close> says what a heap promises its clients; the user's heap and the kernel's heap are
  interpretations. \<open>finite_map\<close>, \<open>sized_map\<close> and \<open>numbered_table\<close> are for tables: the trees, the hash map and the
  descriptor table. \<open>deques\<close> and \<open>page_lists\<close> are for the two kinds of linked lists. \<open>byte_source\<close> and \<open>byte_sink\<close>
  are what buffered files need of the system calls; a file and the reading end of a pipe are sources, the
  terminal is a sink. \<open>ata_drive\<close> is the documented course of a read, which is what the driver of the disk needs of a
  drive to read; \<open>ata_writes\<close> adds what its writes rely on, which is more than a drive promises, so that reads only
  are claimed.

  Interleaving. A critical section is one step: threads interleave between the operations of the scheduler,
  of semaphores and of timers, and a \<open>Sleep\<close> is two steps, before and after it blocks. For semaphores and run queues
  this is what happens on one core, where \<open>Down\<close> and \<open>Up\<close> have turned interrupts off, so \<open>SchedProps\<close> has the runs of
  one core; between cores the semaphores are not protected. The copy of a line to the terminal's ring is one step too. The
  spin lock itself is modelled by its atomic instructions. A pipe makes one round of its waiting loop in a step.

  Bounds. The heaps have a limit, and requests are served while there is room (\<open>heap_room\<close>, 2 GB; \<open>kroom\<close>, which also
  asks that a request above \<open>2^18\<close> bytes fits the first chunk of the last free list, as the walk along a list is
  flawed). Aligned allocation is for at least eight bytes and alignments below \<open>2^31\<close>. Frames lie below a boundary of at
  most \<open>2^52\<close>. File contents are read and written within the twelve direct blocks (12288 bytes of 1024), buffered
  reading up to 8192 bytes, \<open>cat\<close> below 1024 bytes (from there on \<open>printf\<close> leaves its buffer), \<open>ls\<close> for a directory of one
  block. The arguments of a program lie in the first page of the stack. A pipe counts below \<open>2^31\<close>. Runs of
  hash tables have at most 680 removals, as tombs make probing endless in the end. Input lines are below 1024 characters,
  terminal output since the start below its ring of 1048575. A timer does not count beyond \<open>2^64\<close>.
  Sectors have 28-bit addresses, and the driver is asked for blocks the disk has. Pipes carry messages when their
  readers ask for at least 4096 bytes, as \<open>pipe.h\<close> wants them to. The orders of frames are natural numbers. The graphic screen has
  32-bit pixels, and shows characters that have a glyph; what its memories hold before the first copy is arbitrary. Loops that the source leaves
  without a bound are \<open>partial_function\<close>s, and that they end is part of the theorems about them; no fuel is used.

  Not modelled, and why. Inline assembly and what only moves values to and from registers: the entry of system
  calls and of interrupts, the handlers' bodies (but the disk's), the local APIC and the I/O APIC, the FPU,
  the start of the other cores. The order of start-up in \<open>kmain.cc\<close>. Floating point in \<open>atof\<close> and in \<open>printf\<close>, as its results depend on the
  compiler. Log lines and reports on the console. Third-party code (\<open>sha1.c\<close>, \<open>multiboot2.h\<close>), tests, headers of types and
  macros, and the other small programs in \<open>user/misc\<close>.
\<close>

section \<open>From the disk to the terminal\<close>

text \<open>A process that was started with the three standard numbers, none of them redirected, over a disk.\<close>

definition started :: "ext2 \<Rightarrow> fd_table \<Rightarrow> files" where
  "started d t = \<lparr>fs = d, descs = (\<lambda>_. new_descriptor_of (PIPE_READ 0)), pipes = (\<lambda>_. new_pipe), new_objects = {}, table = t, process_id = 1,
     working_dir = [47, 0], terminal = []\<rparr>"

lemma started_numbered:
  obtains t where "numbered_files next_address (started d t) [None, None, None]"
proof -
  obtain t where "fd_numbers.numbered next_address t [None, None, None]"
    using new_table_numbered [OF next_address_ok] by blast
  then show ?thesis using that by (simp add: started_def)
qed

lemma small_file_at: "file_at [47, 97] (started small_fs t) small_inode" "contents small_inode (started small_fs t) = [144, 195]"
proof -
  have "c_view (GetAbsolutePath (kstr_of_chars [47, 97]) [47, 0]) = [47, 97]"
    by (simp add: GetAbsolutePath_def kstr_of_chars_def ksize_def c_view_def)
  then show "file_at [47, 97] (started small_fs t) small_inode"
    using small_path unfolding file_at_def by (intro exI [of _ 1]) (simp add: started_def)
  show "contents small_inode (started small_fs t) = [144, 195]" using small_bytes by (simp add: contents_def started_def)
qed

text \<open>C5: \<open>cat\<close> prints a file of less than 1024 bytes, none of them 0, whose path has less than 900
  characters, which is what \<open>printf\<close> can print: through \<open>stat\<close>, \<open>open\<close>, \<open>read\<close>,
  \<open>printf\<close> and \<open>write\<close>, what follows its two lines on the terminal is the bytes of the file on the disk.\<close>

theorem cat_prints_file:
  assumes "numbered_files alloc st ds" "1 < length ds" "length ds < 2 ^ 31" "ds ! 1 = None" "0 < buffer"
    "file_at path st ino" "inode_size ino < 1024" "0 \<notin> set (contents ino st)" "length path < 900"
  shows "\<exists>m1 st1 digits. cat_main alloc buffer [name, path] (m, st) = Some (m1, st1)
     \<and> digits_val 10 (map dec_digit digits) = int (inode_size ino)
     \<and> terminal st1 = terminal st @ ascii ''Reading '' @ path @ [32, 10]
          @ ascii ''File '' @ path @ ascii '' size : '' @ digits @ [46, 10] @ contents ino st"
proof -
  have on: "on_terminal st" by (rule numbered_on_terminal [OF assms(1,2,4)])
  have f1: "text_of True (ascii (''Reading %s '' @ [CHR 0x0A])) [Str path] (ascii ''Reading '' @ path @ [32, 10])"
    using text_lit [OF _ text_str [OF text_plain], of "ascii ''Reading ''" "[32, 10]" True path "[]"]
    by (simp add: ascii_simps)
  have "length (ascii ''Reading '' @ path @ [32, 10]) < 1024" using assms(9) by (simp add: ascii_def)
  from user_printf_text [OF f1 this assms(5), of "(m, st)"] on
  obtain m1 where p1: "user_printf buffer (ascii (''Reading %s '' @ [CHR 0x0A])) [Str path] (m, st)
      = Some (m1, st\<lparr>terminal := terminal st @ ascii ''Reading '' @ path @ [32, 10]\<rparr>)" by auto
  define st1 where "st1 = st\<lparr>terminal := terminal st @ ascii ''Reading '' @ path @ [32, 10]\<rparr>"
  have there: "file_at path st1 ino" using assms(6) by (simp add: st1_def file_at_def)
  obtain info where info: "sys_stat path st1 = Some (0, Some info)" "fi_file_size info = inode_size ino"
    using sys_stat_ok [OF there] by blast
  obtain sg digits where d: "\<And>(out :: mem out_fct_type) s args. conversion True out 100 0 0 {} (Slot (inode_size ino) # args) s
      = Some (args, out_chars out (sg @ digits) s)"
    "sg = (if s32 (inode_size ino) < 0 then [45] else [])" "length digits \<le> 10" "digits_val 10 (map dec_digit digits) = \<bar>s32 (inode_size ino)\<bar>"
    by (rule conversion_d [of True "inode_size ino", where 's = mem]) (rule that)
  have s: "s32 (inode_size ino) = int (inode_size ino)" using assms(7) by (simp add: wrap_simps)
  let ?line = "ascii ''File '' @ path @ ascii '' size : '' @ digits @ [46, 10]"
  have "text_of True (37 # 100 # [46, 10]) [Slot (inode_size ino)] (digits @ [46, 10])"
    using text_conversion [OF _ d(1) text_plain, of "[46, 10]"] d(2) s by simp
  from text_lit [OF _ text_str [OF text_lit [OF _ this]], of "ascii ''File ''" "ascii '' size : ''" path]
  have f2: "text_of True (ascii (''File %s size : %d.'' @ [CHR 0x0A])) [Str path, Slot (inode_size ino)] ?line"
    by (simp add: ascii_simps)
  have on1: "on_terminal (snd (m1, st1))" using on by (simp add: st1_def on_terminal_def)
  have "length ?line < 1024" using assms(9) d(3) by (simp add: ascii_def)
  from user_printf_text [OF f2 this assms(5) on1]
  obtain m2 where p2: "user_printf buffer (ascii (''File %s size : %d.'' @ [CHR 0x0A])) [Str path, Slot (inode_size ino)] (m1, st1)
      = Some (m2, st1\<lparr>terminal := terminal st1 @ ?line\<rparr>)" by auto
  define st2 where "st2 = st1\<lparr>terminal := terminal st1 @ ?line\<rparr>"
  have n2: "numbered_files alloc st2 ds" "file_at path st2 ino" using assms(1) there by (simp_all add: st2_def st1_def file_at_def)
  obtain d3 st3 where o: "sys_open alloc path 0 st2 = Some (int (length ds), st3)" "numbered_files alloc st3 (ds @ [Some d3])"
    "file_source (int (length ds)) st3 (contents ino st2)" "terminal st3 = terminal st2"
    using sys_open_ok [OF n2(1) assms(3) n2(2), of 0] assms(7) by auto
  have c: "contents ino st2 = contents ino st" by (simp add: contents_def st2_def st1_def)
  have on3: "on_terminal st3" by (rule numbered_on_terminal [OF o(2)]) (use assms(2,4) in \<open>auto simp: nth_append\<close>)
  obtain m4 st4 where l: "cat_loop buffer (int (length ds)) (inode_size ino) 0 (m2, st3) = Some (m4, st4)"
    "terminal st4 = terminal st3 @ contents ino st"
    using cat_loop_ok [of "int (length ds)" "(m2, st3)" "contents ino st" buffer] o(3) on3 assms(5,7,8) c by auto
  have "cat_main alloc buffer [name, path] (m, st) = Some (m4, st4)"
    using p1 info p2 o(1) l(1) by (simp add: cat_main_def flip: st1_def st2_def)
  then show ?thesis using l(2) o(4) d(4) s by (intro exI [of _ m4] exI [of _ st4] exI [of _ digits]) (simp add: st2_def st1_def)
qed

theorem cat_prints_file_witness:
  "\<exists>t m1 st1 shown. cat_main next_address 5000 [[99], [47, 97]] ((\<lambda>_. 0), started small_fs t) = Some (m1, st1)
     \<and> terminal st1 = shown @ [144, 195]"
proof -
  obtain t where t: "numbered_files next_address (started small_fs t) [None, None, None]" by (rule started_numbered)
  have pre: "1 < length [None, None, None :: nat option]" "length [None, None, None :: nat option] < 2 ^ 31"
    "[None, None, None :: nat option] ! 1 = None" "0 < (5000 :: nat)" "inode_size small_inode < 1024"
    "0 \<notin> set (contents small_inode (started small_fs t))" "length [47, 97 :: byte] < 900"
    by (simp_all add: small_bytes(1) small_file_at(2))
  obtain m1 st1 digits where c: "cat_main next_address 5000 [[99], [47, 97]] ((\<lambda>_. 0), started small_fs t) = Some (m1, st1)"
    "terminal st1 = terminal (started small_fs t) @ ascii ''Reading '' @ [47, 97] @ [32, 10]
          @ ascii ''File '' @ [47, 97] @ ascii '' size : '' @ digits @ [46, 10] @ contents small_inode (started small_fs t)"
    using cat_prints_file [OF t pre(1-4) small_file_at(1) pre(5-7), of "[99]" "\<lambda>_. 0"] by (elim exE conjE) (rule that)
  have "\<exists>shown. terminal st1 = shown @ [144, 195]"
    unfolding c(2) small_file_at(2) append_assoc [symmetric] by (rule exI) (rule refl)
  then show ?thesis using c(1) by blast
qed

text \<open>C35: A file that \<open>fopen\<close> has opened for reading is read by \<open>fread\<close> from its start: whatever the size of
  the items and their number, it stores the next bytes of the file on the disk, and returns how many items
  are whole; a further read goes on after them.\<close>

theorem opened_file_is_read:
  assumes "numbered_files alloc st ds" "length ds < 2 ^ 31" "file_at path st ino" "inode_size ino \<le> 8192" "mode \<noteq> [119]"
    "0 < sz" "0 < sz'"
  shows "\<exists>f st1 f2 st2 f3 st3. fopen (sys_open alloc) (Some got) path mode st = Some (f, st1)
     \<and> fread sys_read sz n f st1 = Some (min n (inode_size ino div sz), take (n * sz) (contents ino st), f2, st2)
     \<and> fread sys_read sz' n' f2 st2
         = Some (min n' ((inode_size ino - n * sz) div sz'), take (n' * sz') (drop (n * sz) (contents ino st)), f3, st3)"
proof -
  obtain d st1 where o: "sys_open alloc path 0 st = Some (int (length ds), st1)" "file_source (int (length ds)) st1 (contents ino st)"
    using sys_open_ok [OF assms(1-4), of 0] by auto
  let ?f = "Some (got\<lparr>io_fd := int (length ds), buf_size := 0, buf_pos := 0\<rparr>)"
  have f: "fopen (sys_open alloc) (Some got) path mode st = Some (?f, st1)" using o(1) assms(5) by (simp add: fopen_def)
  have "delivers (file_source (int (length ds))) (int (length ds)) ?f st1 (contents ino st)"
    unfolding delivers_def using o(2) by (simp add: readable_def buffered_def)
  from kernel_file.fread_pending [OF this assms(6), of n] obtain f2 st2 where
    2: "fread sys_read sz n ?f st1 = Some (min n (inode_size ino div sz), take (n * sz) (contents ino st), f2, st2)"
      "delivers (file_source (int (length ds))) (int (length ds)) f2 st2 (drop (n * sz) (contents ino st))" by auto
  from kernel_file.fread_pending [OF 2(2) assms(7), of n'] obtain f3 st3 where
    "fread sys_read sz' n' f2 st2 = Some (min n' ((inode_size ino - n * sz) div sz'), take (n' * sz') (drop (n * sz) (contents ino st)), f3, st3)"
    by auto
  then show ?thesis using f 2(1) by blast
qed

theorem opened_file_is_read_witness:
  "\<exists>t f st1 f2 st2. fopen (sys_open next_address) (Some (std_stream 7)) [47, 97] [114] (started small_fs t) = Some (f, st1)
     \<and> fread sys_read 1 10 f st1 = Some (2, [144, 195], f2, st2)"
proof -
  obtain t where t: "numbered_files next_address (started small_fs t) [None, None, None]" by (rule started_numbered)
  have "length [None, None, None :: nat option] < 2 ^ 31" "inode_size small_inode \<le> 8192" "[114] \<noteq> [119 :: byte]"
    "0 < (1 :: nat)" by (simp_all add: small_bytes(1))
  from opened_file_is_read [OF t this(1) small_file_at(1) this(2-4) this(4), of "std_stream 7" 10 0]
  have "\<exists>f st1 f2 st2. fopen (sys_open next_address) (Some (std_stream 7)) [47, 97] [114] (started small_fs t) = Some (f, st1)
     \<and> fread sys_read 1 10 f st1 = Some (min 10 (inode_size small_inode div 1), take (10 * 1) (contents small_inode (started small_fs t)), f2, st2)"
    by blast
  then show ?thesis by (intro exI [of _ t]) (simp add: small_file_at(2) small_bytes(1))
qed









end
